(* ===== verification/Prelude.thy ===== *)
theory Prelude
  imports Main "HOL-Library.Word" "HOL-Library.Char_ord" "HOL-Library.List_Lexorder"
begin

text \<open>
  Shared vocabulary of the development.

  \<^item> Rust strings are UTF-8 byte sequences, so they are modelled by \<^typ>\<open>string\<close>, a list of bytes
    (\<^typ>\<open>char\<close> has 256 values): \<open>len\<close> is \<^const>\<open>length\<close>, and the functions of the standard library that
    work on Unicode characters (\<open>trim\<close>, \<open>char::is_control\<close>, \<open>char::is_whitespace\<close>) first split the
    bytes into characters with \<open>utf8_chars\<close>.
  \<^item> \<open>Result<T, E>\<close> is the sum \<open>'e + 'a\<close> with \<open>Inl\<close> for \<open>Err\<close>.
  \<^item> A SQL table is the list of its rows in insertion order; \<open>sql_update\<close> and \<open>sql_changed\<close> are an
    \<open>UPDATE \<dots> WHERE\<close> statement and the number of rows it reports.
  \<^item> \<open>be64\<close>, \<open>field\<close> and \<open>hex_digest\<close> are the fixed-width big-endian integers, the length-prefixed
    fields and the lowercase hexadecimal text that the hash and signature inputs are built from.
\<close>

named_theorems result_splits \<open>case splits for results, options and conditionals\<close>
named_theorems sql_simps \<open>rewriting of table reads after table writes\<close>

lemmas [result_splits] = sum.splits option.splits if_splits prod.splits

type_synonym bytes = string
type_synonym uuid = "128 word"


section \<open>Results\<close>

definition ok_or :: "'a option \<Rightarrow> 'e \<Rightarrow> 'e + 'a" where
  "ok_or m e = (case m of None \<Rightarrow> Inl e | Some x \<Rightarrow> Inr x)"

definition is_ok :: "'e + 'a \<Rightarrow> bool" where
  "is_ok r = (case r of Inl _ \<Rightarrow> False | Inr _ \<Rightarrow> True)"

text \<open>The decimal text of a number, as \<open>format!\<close> prints it.\<close>

fun nat_text :: "nat \<Rightarrow> string" where
  "nat_text n = (if n < 10 then [char_of (48 + n)] else nat_text (n div 10) @ [char_of (48 + n mod 10)])"

declare nat_text.simps [simp del]

definition i64_text :: "int \<Rightarrow> string" where
  "i64_text i = (if i < 0 then ''-'' @ nat_text (nat (- i)) else nat_text (nat i))"

lemma ok_or_simps [simp]:
  "ok_or None e = Inl e" "ok_or (Some x) e = Inr x"
  "(ok_or m e = Inr x) = (m = Some x)"
  by (auto simp: ok_or_def split: option.splits)

lemma is_ok_simps [simp]: "is_ok (Inl e) = False" "is_ok (Inr x) = True"
  by (simp_all add: is_ok_def)

lemma is_ok_iff: "is_ok r \<longleftrightarrow> (\<exists>x. r = Inr x)"
  by (auto simp: is_ok_def split: sum.splits)


section \<open>Bytes and characters\<close>

abbreviation byte :: "char \<Rightarrow> nat" where
  "byte c \<equiv> of_char c"

definition is_ascii_digit :: "char \<Rightarrow> bool" where
  "is_ascii_digit c = (48 \<le> byte c \<and> byte c \<le> 57)"

definition is_ascii_alphanumeric :: "char \<Rightarrow> bool" where
  "is_ascii_alphanumeric c =
     (is_ascii_digit c \<or> (65 \<le> byte c \<and> byte c \<le> 90) \<or> (97 \<le> byte c \<and> byte c \<le> 122))"

text \<open>A continuation byte of a UTF-8 character has the form \<open>10xxxxxx\<close>.\<close>

definition is_continuation :: "char \<Rightarrow> bool" where
  "is_continuation c = (128 \<le> byte c \<and> byte c < 192)"

text \<open>\<open>str::chars\<close>: a character is a leading byte and the continuation bytes after it.\<close>

fun utf8_chars :: "string \<Rightarrow> string list" where
  "utf8_chars [] = []"
| "utf8_chars (c # cs) =
     (case utf8_chars cs of
        [] \<Rightarrow> [[c]]
      | g # gs \<Rightarrow> if is_continuation (hd g) then (c # g) # gs else [c] # g # gs)"

lemma utf8_chars_nonempty: "g \<in> set (utf8_chars s) \<Longrightarrow> g \<noteq> []"
  by (induction s arbitrary: g) (auto split: list.splits if_splits)

lemma concat_utf8_chars [simp]: "concat (utf8_chars s) = s"
  by (induction s) (auto split: list.splits)

definition is_ascii :: "string \<Rightarrow> bool" where
  "is_ascii s = list_all (\<lambda>c. byte c < 128) s"

lemma utf8_chars_ascii: "is_ascii s \<Longrightarrow> utf8_chars s = map (\<lambda>c. [c]) s"
  by (induction s) (auto simp: is_ascii_def is_continuation_def split: list.splits)

lemma length_utf8_chars: "is_ascii s \<Longrightarrow> length (utf8_chars s) = length s"
  by (simp add: utf8_chars_ascii)

text \<open>
  \<open>char::is_whitespace\<close> is the Unicode property \<open>White_Space\<close> and \<open>char::is_control\<close> the general
  category \<open>Cc\<close>; both are written out on the UTF-8 encoding of a character.
\<close>

definition is_whitespace :: "string \<Rightarrow> bool" where
  "is_whitespace g = (case map byte g of
      [a] \<Rightarrow> (9 \<le> a \<and> a \<le> 13) \<or> a = 32
    | [a, b] \<Rightarrow> a = 194 \<and> (b = 133 \<or> b = 160)
    | [a, b, c] \<Rightarrow>
        (a = 225 \<and> b = 154 \<and> c = 128)
      \<or> (a = 226 \<and> b = 128 \<and> ((128 \<le> c \<and> c \<le> 138) \<or> c = 168 \<or> c = 169 \<or> c = 175))
      \<or> (a = 226 \<and> b = 129 \<and> c = 159)
      \<or> (a = 227 \<and> b = 128 \<and> c = 128)
    | _ \<Rightarrow> False)"

definition is_control :: "string \<Rightarrow> bool" where
  "is_control g = (case map byte g of
      [a] \<Rightarrow> a < 32 \<or> a = 127
    | [a, b] \<Rightarrow> a = 194 \<and> 128 \<le> b \<and> b \<le> 159
    | _ \<Rightarrow> False)"

definition trim :: "string \<Rightarrow> string" where
  "trim s = concat (rev (dropWhile is_whitespace (rev (dropWhile is_whitespace (utf8_chars s)))))"

definition has_control :: "string \<Rightarrow> bool" where
  "has_control s = list_ex is_control (utf8_chars s)"

text \<open>A string trims to nothing exactly when all its characters are white space.\<close>

lemma dropWhile_utf8_Nil:
  "(concat (rev (dropWhile P (rev (dropWhile P (utf8_chars s))))) = []) =
   list_all P (utf8_chars s)"
proof -
  let ?d = "dropWhile P (utf8_chars s)"
  have ne: "\<forall>g \<in> set (dropWhile P (rev ?d)). g \<noteq> []"
    using utf8_chars_nonempty by (metis set_dropWhileD set_rev)
  show ?thesis
  proof (cases "?d = []")
    case True
    then have "list_all P (utf8_chars s)" by (simp add: dropWhile_eq_Nil_conv list_all_iff)
    then show ?thesis by (subst True) simp
  next
    case False
    then have "\<not> P (hd ?d)" by (rule hd_dropWhile)
    then have "\<not> P (last (rev ?d))" using False by (simp add: last_rev)
    then have "dropWhile P (rev ?d) \<noteq> []"
      using False by (metis dropWhile_eq_Nil_conv last_in_set rev_is_Nil_conv)
    with ne have "concat (rev (dropWhile P (rev ?d))) \<noteq> []"
      by (metis concat_eq_Nil_conv last_in_set set_rev)
    moreover have "\<not> list_all P (utf8_chars s)"
      using False by (simp add: dropWhile_eq_Nil_conv list_all_iff)
    ultimately show ?thesis by blast
  qed
qed

lemma trim_Nil: "(trim s = []) = list_all is_whitespace (utf8_chars s)"
  unfolding trim_def by (rule dropWhile_utf8_Nil)

lemma trim_empty [simp]: "trim [] = []"
  by (simp add: trim_def)


section \<open>Fixed-width integers and length-prefixed fields\<close>

fun be_bytes :: "nat \<Rightarrow> nat \<Rightarrow> bytes" where
  "be_bytes 0 n = []"
| "be_bytes (Suc k) n = be_bytes k (n div 256) @ [char_of (n mod 256)]"

text \<open>\<open>u64::to_be_bytes\<close> and \<open>i64::to_be_bytes\<close> (two's complement).\<close>

definition be64 :: "nat \<Rightarrow> bytes" where
  "be64 n = be_bytes 8 (n mod 2 ^ 64)"

definition be_i64 :: "int \<Rightarrow> bytes" where
  "be_i64 i = be64 (nat (i mod 2 ^ 64))"

definition i64_range :: "int \<Rightarrow> bool" where
  "i64_range i = (- (2 ^ 63) \<le> i \<and> i < 2 ^ 63)"

text \<open>\<open>append_field\<close> and \<open>hash_field\<close>: the length as eight bytes, then the bytes.\<close>

definition field :: "bytes \<Rightarrow> bytes" where
  "field s = be64 (length s) @ s"

definition field_list :: "bytes list \<Rightarrow> bytes" where
  "field_list xs = concat (map field xs)"

definition hex_digit :: "nat \<Rightarrow> char" where
  "hex_digit n = ''0123456789abcdef'' ! n"

definition hex_digest :: "bytes \<Rightarrow> string" where
  "hex_digest bs = concat (map (\<lambda>b. [hex_digit (byte b div 16), hex_digit (byte b mod 16)]) bs)"

lemma length_be_bytes [simp]: "length (be_bytes k n) = k"
  by (induction k arbitrary: n) auto

lemma be_bytes_inject:
  "m < 256 ^ k \<Longrightarrow> n < 256 ^ k \<Longrightarrow> be_bytes k m = be_bytes k n \<Longrightarrow> m = n"
proof (induction k arbitrary: m n)
  case 0
  then show ?case by simp
next
  case (Suc k)
  from Suc.prems(3) have hi: "be_bytes k (m div 256) = be_bytes k (n div 256)"
    and "char_of (m mod 256) = (char_of (n mod 256) :: char)"
    by simp_all
  then have lo: "m mod 256 = n mod 256"
    by (metis mod_mod_trivial of_char_of)
  have "m div 256 < 256 ^ k" "n div 256 < 256 ^ k"
    using Suc.prems(1,2) by (simp_all add: less_mult_imp_div_less mult.commute)
  with hi have "m div 256 = n div 256"
    using Suc.IH by blast
  with lo show ?case by (metis mod_div_mult_eq)
qed

lemma length_be64 [simp]: "length (be64 n) = 8"
  by (simp add: be64_def)

lemma be64_inject: "m < 2 ^ 64 \<Longrightarrow> n < 2 ^ 64 \<Longrightarrow> (be64 m = be64 n) = (m = n)"
  using be_bytes_inject [of m 8 n] by (auto simp: be64_def)

lemma length_be_i64 [simp]: "length (be_i64 i) = 8"
  by (simp add: be_i64_def)

lemma be_i64_inject: "i64_range i \<Longrightarrow> i64_range j \<Longrightarrow> (be_i64 i = be_i64 j) = (i = j)"
proof
  assume r: "i64_range i" "i64_range j" and "be_i64 i = be_i64 j"
  then have "nat (i mod 2 ^ 64) = nat (j mod 2 ^ 64)"
    by (simp add: be_i64_def be64_inject nat_less_iff)
  then have "i mod 2 ^ 64 = j mod 2 ^ 64"
    by (simp add: eq_nat_nat_iff)
  then have "(i - j) mod 2 ^ 64 = 0"
    by (simp add: mod_eq_dvd_iff)
  moreover have "- (2 ^ 64) < i - j" "i - j < 2 ^ 64"
    using r by (auto simp: i64_range_def)
  ultimately show "i = j"
    by (metis abs_less_iff diff_0_right dvd_imp_le_int eq_iff_diff_eq_0 linorder_not_le
        minus_less_iff mod_0_imp_dvd abs_of_pos zero_less_numeral zero_less_power)
qed simp

definition short :: "bytes \<Rightarrow> bool" where
  "short s = (length s < 2 ^ 64)"

lemma short_be [simp]: "short (be64 n)" "short (be_i64 i)"
  by (simp_all add: short_def)

lemma field_inject:
  "short x \<Longrightarrow> short y \<Longrightarrow> field x @ xs = field y @ ys \<Longrightarrow> x = y \<and> xs = ys"
  by (auto simp: field_def short_def be64_inject)

lemma field_list_inject:
  "list_all short xs \<Longrightarrow> list_all short ys \<Longrightarrow> length xs = length ys \<Longrightarrow>
   field_list xs = field_list ys \<Longrightarrow> xs = ys"
proof (induction xs arbitrary: ys)
  case Nil
  then show ?case by simp
next
  case (Cons x xs)
  then obtain y zs where ys: "ys = y # zs" by (cases ys) auto
  with Cons.prems have "field x @ field_list xs = field y @ field_list zs"
    by (simp add: field_list_def)
  then have "x = y \<and> field_list xs = field_list zs"
    using Cons.prems ys by (intro field_inject) auto
  with Cons ys show ?case by simp
qed

lemma hex_digit_inject: "m < 16 \<Longrightarrow> n < 16 \<Longrightarrow> hex_digit m = hex_digit n \<Longrightarrow> m = n"
proof -
  have "distinct ''0123456789abcdef''" by simp
  then show "m < 16 \<Longrightarrow> n < 16 \<Longrightarrow> hex_digit m = hex_digit n \<Longrightarrow> m = n"
    unfolding hex_digit_def by (subst (asm) nth_eq_iff_index_eq) auto
qed

lemma of_char_lt_256 [simp]: "byte c < 256"
  by (metis nat_of_char_less_256)

lemma hex_digest_inject: "hex_digest x = hex_digest y \<Longrightarrow> x = y"
proof (induction x arbitrary: y)
  case Nil
  then show ?case by (cases y) (auto simp: hex_digest_def)
next
  case (Cons a x)
  then obtain b z where y: "y = b # z" by (cases y) (auto simp: hex_digest_def)
  with Cons.prems have "hex_digit (byte a div 16) = hex_digit (byte b div 16)"
    "hex_digit (byte a mod 16) = hex_digit (byte b mod 16)" "hex_digest x = hex_digest z"
    by (auto simp: hex_digest_def)
  moreover have "byte a div 16 < 16" "byte b div 16 < 16"
    by (simp_all add: less_mult_imp_div_less)
  ultimately have "byte a div 16 = byte b div 16" "byte a mod 16 = byte b mod 16" "x = z"
    using hex_digit_inject Cons.IH by simp_all
  then have "byte a = byte b" "x = z" by (metis mod_div_mult_eq, simp)
  with y show ?case by simp
qed


text \<open>\<open>str::split_once\<close> at a character.\<close>

fun split_once :: "char \<Rightarrow> string \<Rightarrow> (string \<times> string) option" where
  "split_once d [] = None"
| "split_once d (c # cs) =
     (if c = d then Some ([], cs)
      else case split_once d cs of None \<Rightarrow> None | Some (a, b) \<Rightarrow> Some (c # a, b))"

lemma split_once_append [simp]: "d \<notin> set s \<Longrightarrow> split_once d (s @ d # t) = Some (s, t)"
  by (induction s) auto

section \<open>Tables\<close>

text \<open>
  \<open>sql_update P f t\<close> is \<open>UPDATE t SET \<dots> WHERE P\<close> and \<open>sql_changed P t\<close> the row count it returns;
  \<open>find P t\<close> is a query that reads at most one row.
\<close>

definition sql_update :: "('r \<Rightarrow> bool) \<Rightarrow> ('r \<Rightarrow> 'r) \<Rightarrow> 'r list \<Rightarrow> 'r list" where
  "sql_update P f t = map (\<lambda>r. if P r then f r else r) t"

definition sql_changed :: "('r \<Rightarrow> bool) \<Rightarrow> 'r list \<Rightarrow> nat" where
  "sql_changed P t = length (filter P t)"

lemma find_append: "find P (xs @ ys) = (case find P xs of None \<Rightarrow> find P ys | Some x \<Rightarrow> Some x)"
  by (induction xs) auto

lemma find_None: "(find P xs = None) = (\<forall>x \<in> set xs. \<not> P x)"
  by (induction xs) auto

lemma find_SomeD: "find P xs = Some x \<Longrightarrow> x \<in> set xs \<and> P x"
  by (induction xs) (auto split: if_splits)

lemma length_filter_update:
  "i < length xs \<Longrightarrow> length (filter P (xs[i := y])) + (if P (xs ! i) then 1 else 0) =
     length (filter P xs) + (if P y then 1 else 0)"
proof (induction xs arbitrary: i)
  case (Cons x xs)
  then show ?case by (cases i) auto
qed simp

lemma length_filter_drop_nth:
  "length (filter P (take i xs @ drop (Suc i) xs)) \<le> length (filter P xs)"
proof (induction xs arbitrary: i)
  case (Cons x xs)
  then show ?case by (cases i) (auto simp: le_SucI)
qed simp

lemma length_sql_update [simp, sql_simps]: "length (sql_update P f t) = length t"
  by (simp add: sql_update_def)

lemma set_sql_update: "set (sql_update P f t) = (\<lambda>r. if P r then f r else r) ` set t"
  by (simp add: sql_update_def)

lemma map_sql_update [sql_simps]:
  "(\<And>r. P r \<Longrightarrow> k (f r) = k r) \<Longrightarrow> map k (sql_update P f t) = map k t"
  by (auto simp: sql_update_def)

lemma find_sql_update [sql_simps]:
  "(\<And>r. P r \<Longrightarrow> Q (f r) = Q r) \<Longrightarrow>
   find Q (sql_update P f t) = map_option (\<lambda>r. if P r then f r else r) (find Q t)"
  by (induction t) (auto simp: sql_update_def)

lemma find_sql_update_same: "(\<And>x. P x \<Longrightarrow> P (f x)) \<Longrightarrow> find P (sql_update P f xs) = map_option f (find P xs)"
  by (induction xs) (auto simp: sql_update_def)

lemma find_sql_update_other:
  "(\<And>x. P x \<Longrightarrow> \<not> Q x \<and> \<not> Q (f x)) \<Longrightarrow> find Q (sql_update P f xs) = find Q xs"
  by (induction xs) (auto simp: sql_update_def)

lemma sql_changed_pos: "(0 < sql_changed P t) = (\<exists>r \<in> set t. P r)"
  by (auto simp: sql_changed_def filter_empty_conv)

text \<open>A query by a key that is unique in the table finds the one row with that key.\<close>

lemma find_unique:
  "distinct (map k t) \<Longrightarrow> r \<in> set t \<Longrightarrow> find (\<lambda>x. k x = k r) t = Some r"
  by (induction t) (auto simp: image_iff)

lemma filter_unique:
  "distinct (map k t) \<Longrightarrow> r \<in> set t \<Longrightarrow> P r \<Longrightarrow> (\<forall>x. P x \<longrightarrow> k x = k r) \<Longrightarrow>
   filter P t = [r]"
proof (induction t)
  case (Cons a t)
  show ?case
  proof (cases "a = r")
    case True
    then have "k r \<notin> k ` set t" using Cons.prems(1) by simp
    with Cons.prems(4) have "\<forall>x \<in> set t. \<not> P x" by (metis imageI)
    with True Cons.prems(3) show ?thesis by (simp add: filter_empty_conv)
  next
    case False
    with Cons.prems(2) have r: "r \<in> set t" by simp
    have "k a \<notin> k ` set t" using Cons.prems(1) by simp
    with r Cons.prems(4) have "\<not> P a" by (metis imageI)
    moreover have "filter P t = [r]"
      by (rule Cons.IH [OF _ r Cons.prems(3,4)]) (use Cons.prems(1) in simp)
    ultimately show ?thesis by simp
  qed
qed simp

lemma sql_changed_unique:
  "distinct (map k t) \<Longrightarrow> r \<in> set t \<Longrightarrow> P r \<Longrightarrow> (\<forall>x. P x \<longrightarrow> k x = k r) \<Longrightarrow>
   sql_changed P t = 1"
  unfolding sql_changed_def using filter_unique [of k t r P] by (metis One_nat_def length_Cons list.size(3))


section \<open>Timestamps as text\<close>

text \<open>
  Timestamp columns hold RFC 3339 text in UTC: the seconds at a fixed width, then the fraction without
  trailing zeros, or none, then \<open>Z\<close>. \<open>ORDER BY\<close> compares these texts, and a digit sorts before \<open>Z\<close>.
  \<open>text_rank\<close> gives the nanoseconds of a timestamp the order of its text: the nine digits of the
  fraction are read in base eleven, with every trailing zero as the digit ten.
\<close>

fun fraction_rank :: "nat \<Rightarrow> int \<Rightarrow> int" where
  "fraction_rank 0 f = 0"
| "fraction_rank (Suc k) f =
     (if f = 0 then 11 ^ Suc k - 1 else f div 10 ^ k * 11 ^ k + fraction_rank k (f mod 10 ^ k))"

definition text_rank :: "int \<Rightarrow> int" where
  "text_rank t = t div 10 ^ 9 * 11 ^ 9 + fraction_rank 9 (t mod 10 ^ 9)"

lemma fraction_rank_bounds: "0 \<le> f \<Longrightarrow> f < 10 ^ k \<Longrightarrow> 0 \<le> fraction_rank k f \<and> fraction_rank k f < 11 ^ k"
proof (induction k arbitrary: f)
  case (Suc k)
  have "f div 10 ^ k * 10 ^ k \<le> f"
    using div_mult_mod_eq [of f "10 ^ k"] pos_mod_sign [of "10 ^ k" f, OF zero_less_power] by linarith
  note below = this
  have "\<not> 10 \<le> f div 10 ^ k"
  proof
    assume "10 \<le> f div 10 ^ k"
    then have "10 * 10 ^ k \<le> f div 10 ^ k * 10 ^ k" by (rule mult_right_mono) simp
    from order_trans [OF this below] show False using Suc.prems(2) unfolding power_Suc by linarith
  qed
  then have d: "0 \<le> f div 10 ^ k" "f div 10 ^ k \<le> 9" using Suc.prems(1) by (simp_all add: pos_imp_zdiv_nonneg_iff)
  have "0 \<le> f mod 10 ^ k \<and> f mod 10 ^ k < 10 ^ k" by simp
  then have r: "0 \<le> fraction_rank k (f mod 10 ^ k)" "fraction_rank k (f mod 10 ^ k) < 11 ^ k" using Suc.IH by blast+
  have "f div 10 ^ k * 11 ^ k \<le> 9 * 11 ^ k" using d(2) by (intro mult_right_mono) simp_all
  then have "f div 10 ^ k * 11 ^ k + fraction_rank k (f mod 10 ^ k) < 11 ^ Suc k"
    using r(2) zero_le_power [of "11 :: int" k] unfolding power_Suc by linarith
  moreover have "0 \<le> f div 10 ^ k * 11 ^ k" using d(1) by simp
  moreover have "(1 :: int) \<le> 11 ^ Suc k" by (rule one_le_power) simp
  ultimately show ?case using r(1) by (simp del: power_Suc)
qed simp

text \<open>The texts of two timestamps in different seconds compare like the timestamps; inside a second they need not.\<close>

lemma text_rank_seconds:
  assumes "t div 10 ^ 9 < u div 10 ^ 9"
  shows "text_rank t < text_rank u"
proof -
  have b: "0 \<le> fraction_rank 9 (x mod 10 ^ 9)" "fraction_rank 9 (x mod 10 ^ 9) < 11 ^ 9" for x :: int
    using fraction_rank_bounds [of "x mod 10 ^ 9" 9] by simp_all
  have "(t div 10 ^ 9 + 1) * 11 ^ 9 \<le> u div 10 ^ 9 * 11 ^ 9" using assms by (intro mult_right_mono) simp_all
  then show ?thesis using b [of t] b [of u] unfolding text_rank_def distrib_right by linarith
qed

lemma text_order_is_not_time_order: "text_rank 1500000000 < text_rank 1000000000"
  by code_simp

text \<open>\<open>ORDER BY \<dots> DESC\<close> on a timestamp column.\<close>

definition newest_first :: "('r \<Rightarrow> int) \<Rightarrow> 'r list \<Rightarrow> 'r list" where
  "newest_first k = sort_key (\<lambda>r. - text_rank (k r))"

end
