(* ===== verification/Json.thy ===== *)
theory Json
  imports Prelude "HOL-Library.Multiset"
begin

text \<open>
  JSON values and the two canonical encoders.

  A \<open>serde_json::Value\<close> is the datatype \<open>json\<close>; an object is the list of its entries in iteration
  order (\<open>serde_json::Map\<close> is a B-tree map here, so keys are distinct). The third-party crate
  \<open>serde_json\<close> itself is the parameter \<open>serde\<close>: how it prints strings, numbers and whole values, and
  how it parses them. The audit crate canonicalises by rebuilding every object in key order and
  printing it (\<open>canonicalize\<close>, \<open>canonical_json_string\<close>, \<open>hash_canonical_json\<close>); the approval crate
  writes the canonical text itself under a depth bound (\<open>write_canonical_json\<close>,
  \<open>canonical_request_hash\<close>). The lemmas show when the second succeeds and that both produce the same
  text.
\<close>

datatype json_number = PosInt nat | NegInt int | Float "64 word"

datatype json =
    JNull
  | JBool bool
  | JNumber json_number
  | JString string
  | JArray "json list"
  | JObject "(string \<times> json) list"

record serde =
  str_text :: "string \<Rightarrow> string"
  num_text :: "json_number \<Rightarrow> string"
  value_text :: "json \<Rightarrow> string"
  value_parse :: "string \<Rightarrow> json option"

datatype approval_error = Storage string | InvalidInput string | Corrupt string


section \<open>The audit crate: rebuild and print\<close>

text \<open>Collecting entries into a \<open>BTreeMap\<close>: sorted by key bytes, the last of equal keys wins.\<close>

fun btree_insert :: "string \<Rightarrow> 'v \<Rightarrow> (string \<times> 'v) list \<Rightarrow> (string \<times> 'v) list" where
  "btree_insert k v [] = [(k, v)]"
| "btree_insert k v ((k', v') # es) =
     (if k < k' then (k, v) # (k', v') # es
      else if k = k' then (k, v) # es
      else (k', v') # btree_insert k v es)"

definition btree_collect :: "(string \<times> 'v) list \<Rightarrow> (string \<times> 'v) list" where
  "btree_collect es = foldl (\<lambda>m (k, v). btree_insert k v m) [] es"

fun canonicalize :: "json \<Rightarrow> json"
  and canonicalize_items :: "json list \<Rightarrow> json list"
  and canonicalize_entries :: "(string \<times> json) list \<Rightarrow> (string \<times> json) list" where
  "canonicalize (JObject es) = JObject (btree_collect (canonicalize_entries es))"
| "canonicalize (JArray xs) = JArray (canonicalize_items xs)"
| "canonicalize v = v"
| "canonicalize_items [] = []"
| "canonicalize_items (x # xs) = canonicalize x # canonicalize_items xs"
| "canonicalize_entries [] = []"
| "canonicalize_entries ((k, v) # es) = (k, canonicalize v) # canonicalize_entries es"

definition canonical_json_string :: "serde \<Rightarrow> json \<Rightarrow> string" where
  "canonical_json_string S v = value_text S (canonicalize v)"

definition hash_canonical_json :: "(bytes \<Rightarrow> bytes) \<Rightarrow> serde \<Rightarrow> json \<Rightarrow> string" where
  "hash_canonical_json sha S v = hex_digest (sha (canonical_json_string S v))"


section \<open>The approval crate: a depth-bounded writer\<close>

definition MAX_CANONICAL_JSON_DEPTH :: nat where
  "MAX_CANONICAL_JSON_DEPTH = 128"

text \<open>\<open>f64::is_finite\<close> on the bit pattern: the exponent field is not all ones.\<close>

definition float_is_finite :: "64 word \<Rightarrow> bool" where
  "float_is_finite w = (unat w div 2 ^ 52 mod 2 ^ 11 \<noteq> 2047)"

fun number_is_finite :: "json_number \<Rightarrow> bool" where
  "number_is_finite (Float w) = float_is_finite w"
| "number_is_finite _ = True"

text \<open>Sizes for the termination of the writer, which visits the entries in sorted order.\<close>

fun json_size :: "json \<Rightarrow> nat"
  and items_size :: "json list \<Rightarrow> nat"
  and entries_size :: "(string \<times> json) list \<Rightarrow> nat" where
  "json_size (JArray xs) = Suc (items_size xs)"
| "json_size (JObject es) = Suc (entries_size es)"
| "json_size v = 1"
| "items_size [] = 0"
| "items_size (x # xs) = Suc (json_size x + items_size xs)"
| "entries_size [] = 0"
| "entries_size ((k, v) # es) = Suc (json_size v + entries_size es)"

lemma entries_size_sum: "entries_size es = (\<Sum>e \<leftarrow> es. Suc (json_size (snd e)))"
proof (induction es)
  case (Cons e es)
  then show ?case by (cases e) simp
qed simp

lemma entries_size_sort [simp]: "entries_size (sort_key f es) = entries_size es"
proof -
  have "mset (map (\<lambda>e. Suc (json_size (snd e))) (sort_key f es)) =
        mset (map (\<lambda>e. Suc (json_size (snd e))) es)"
    by simp
  then show ?thesis
    unfolding entries_size_sum by (metis sum_mset_sum_list)
qed

function (sequential) write_canonical_json ::
    "serde \<Rightarrow> json \<Rightarrow> string \<Rightarrow> nat \<Rightarrow> approval_error + string"
  and write_items :: "serde \<Rightarrow> json list \<Rightarrow> nat \<Rightarrow> string \<Rightarrow> nat \<Rightarrow> approval_error + string"
  and write_entries ::
    "serde \<Rightarrow> (string \<times> json) list \<Rightarrow> nat \<Rightarrow> string \<Rightarrow> nat \<Rightarrow> approval_error + string" where
  "write_canonical_json S value output depth =
     (if depth > MAX_CANONICAL_JSON_DEPTH
      then Inl (InvalidInput ''JSON request envelope exceeds maximum depth 128'')
      else case value of
        JNull \<Rightarrow> Inr (output @ ''null'')
      | JBool b \<Rightarrow> Inr (output @ (if b then ''true'' else ''false''))
      | JString s \<Rightarrow> Inr (output @ str_text S s)
      | JNumber n \<Rightarrow>
          if \<not> number_is_finite n then Inl (InvalidInput ''non-finite JSON number'')
          else Inr (output @ num_text S n)
      | JArray xs \<Rightarrow>
          (case write_items S xs 0 (output @ ''['') depth of
             Inl e \<Rightarrow> Inl e
           | Inr out \<Rightarrow> Inr (out @ '']''))
      | JObject es \<Rightarrow>
          (case write_entries S (sort_key fst es) 0 (output @ ''{'') depth of
             Inl e \<Rightarrow> Inl e
           | Inr out \<Rightarrow> Inr (out @ ''}'')))"
| "write_items S [] index output depth = Inr output"
| "write_items S (x # xs) index output depth =
     (case write_canonical_json S x (if index \<noteq> 0 then output @ '','' else output) (depth + 1) of
        Inl e \<Rightarrow> Inl e
      | Inr out \<Rightarrow> write_items S xs (index + 1) out depth)"
| "write_entries S [] index output depth = Inr output"
| "write_entries S ((k, x) # es) index output depth =
     (case write_canonical_json S x
             ((if index \<noteq> 0 then output @ '','' else output) @ str_text S k @ '':'') (depth + 1) of
        Inl e \<Rightarrow> Inl e
      | Inr out \<Rightarrow> write_entries S es (index + 1) out depth)"
  by pat_completeness auto
termination
  by (relation "measure (case_sum (\<lambda>(S, v, _). json_size v)
        (case_sum (\<lambda>(S, xs, _). items_size xs) (\<lambda>(S, es, _). entries_size es)))") auto

declare write_canonical_json.simps [simp del]

definition canonical_request_hash ::
    "(bytes \<Rightarrow> bytes) \<Rightarrow> serde \<Rightarrow> json \<Rightarrow> approval_error + bytes" where
  "canonical_request_hash sha S envelope =
     (case write_canonical_json S envelope [] 0 of
        Inl e \<Rightarrow> Inl e
      | Inr canonical \<Rightarrow> Inr (sha canonical))"

definition request_hash_hex :: "bytes \<Rightarrow> string" where
  "request_hash_hex hash = hex_digest hash"


section \<open>When the writer succeeds, and what it writes\<close>

text \<open>
  What the code relies on from \<open>serde_json\<close>: values print compactly, strings and numbers inside
  them as they print on their own.
\<close>

fun comma_join :: "string list \<Rightarrow> string" where
  "comma_join [] = []"
| "comma_join [x] = x"
| "comma_join (x # y # xs) = x @ '','' @ comma_join (y # xs)"

definition serde_compact :: "serde \<Rightarrow> bool" where
  "serde_compact S \<longleftrightarrow>
     value_text S JNull = ''null'' \<and>
     (\<forall>b. value_text S (JBool b) = (if b then ''true'' else ''false'')) \<and>
     (\<forall>n. value_text S (JNumber n) = num_text S n) \<and>
     (\<forall>s. value_text S (JString s) = str_text S s) \<and>
     (\<forall>xs. value_text S (JArray xs) = ''['' @ comma_join (map (value_text S) xs) @ '']'') \<and>
     (\<forall>es. value_text S (JObject es) =
        ''{'' @ comma_join (map (\<lambda>(k, v). str_text S k @ '':'' @ value_text S v) es) @ ''}'')"

text \<open>Distinct keys in every object, finite numbers, and the nesting depth.\<close>

fun json_wf :: "json \<Rightarrow> bool"
  and items_wf :: "json list \<Rightarrow> bool"
  and entries_wf :: "(string \<times> json) list \<Rightarrow> bool" where
  "json_wf (JArray xs) = items_wf xs"
| "json_wf (JObject es) = (distinct (map fst es) \<and> entries_wf es)"
| "json_wf v = True"
| "items_wf [] = True"
| "items_wf (x # xs) = (json_wf x \<and> items_wf xs)"
| "entries_wf [] = True"
| "entries_wf ((k, v) # es) = (json_wf v \<and> entries_wf es)"

fun json_finite :: "json \<Rightarrow> bool"
  and items_finite :: "json list \<Rightarrow> bool"
  and entries_finite :: "(string \<times> json) list \<Rightarrow> bool" where
  "json_finite (JNumber n) = number_is_finite n"
| "json_finite (JArray xs) = items_finite xs"
| "json_finite (JObject es) = entries_finite es"
| "json_finite v = True"
| "items_finite [] = True"
| "items_finite (x # xs) = (json_finite x \<and> items_finite xs)"
| "entries_finite [] = True"
| "entries_finite ((k, v) # es) = (json_finite v \<and> entries_finite es)"

fun json_depth :: "json \<Rightarrow> nat"
  and items_depth :: "json list \<Rightarrow> nat"
  and entries_depth :: "(string \<times> json) list \<Rightarrow> nat" where
  "json_depth (JArray xs) = items_depth xs"
| "json_depth (JObject es) = entries_depth es"
| "json_depth v = 0"
| "items_depth [] = 0"
| "items_depth (x # xs) = max (Suc (json_depth x)) (items_depth xs)"
| "entries_depth [] = 0"
| "entries_depth ((k, v) # es) = max (Suc (json_depth v)) (entries_depth es)"

lemma entries_wf_iff: "entries_wf es = (\<forall>e \<in> set es. json_wf (snd e))"
  by (induction es) auto

lemma entries_finite_iff: "entries_finite es = (\<forall>e \<in> set es. json_finite (snd e))"
  by (induction es) auto

lemma entries_depth_le: "(entries_depth es \<le> n) = (\<forall>e \<in> set es. Suc (json_depth (snd e)) \<le> n)"
  by (induction es) auto

lemma entries_sort [simp]:
  "entries_wf (sort_key f es) = entries_wf es"
  "entries_finite (sort_key f es) = entries_finite es"
  "entries_depth (sort_key f es) = entries_depth es"
proof -
  show "entries_wf (sort_key f es) = entries_wf es" by (simp add: entries_wf_iff)
  show "entries_finite (sort_key f es) = entries_finite es" by (simp add: entries_finite_iff)
  have "(entries_depth (sort_key f es) \<le> n) = (entries_depth es \<le> n)" for n
    by (simp add: entries_depth_le)
  then show "entries_depth (sort_key f es) = entries_depth es"
    by (metis dual_order.refl le_antisym)
qed

lemma map_fst_canonicalize_entries [simp]: "map fst (canonicalize_entries es) = map fst es"
  by (induction es) auto

lemma canonicalize_entries_map: "canonicalize_entries es = map (map_prod id canonicalize) es"
  by (induction es) auto

lemma canonicalize_items_map: "canonicalize_items xs = map canonicalize xs"
  by (induction xs) auto

text \<open>Inserting fresh keys into the B-tree map is insertion sort, so collecting sorts.\<close>

lemma btree_insert_insort:
  "k \<notin> fst ` set es \<Longrightarrow> btree_insert k v es = insort_key fst (k, v) es"
  by (induction es) auto

lemma foldl_btree_insert:
  "distinct (map fst (es @ m)) \<Longrightarrow>
   foldl (\<lambda>m (k, v). btree_insert k v m) m es = foldl (\<lambda>m e. insort_key fst e m) m es"
proof (induction es arbitrary: m)
  case (Cons e es)
  obtain k v where e: "e = (k, v)" by (cases e)
  have "btree_insert k v m = insort_key fst e m"
    using Cons.prems e by (simp add: btree_insert_insort)
  moreover have "mset (map fst (insort_key fst e m)) = mset (k # map fst m)"
    using e by simp
  then have "distinct (map fst (insort_key fst e m))"
    using Cons.prems e by (metis distinct_append distinct_length_2_or_more fst_conv list.simps(9)
        map_append mset_eq_imp_distinct_iff append_Cons distinct.simps(2) Un_iff set_append)
  then have "distinct (map fst (es @ insort_key fst e m))"
    using Cons.prems e by (auto simp: set_insort_key)
  ultimately show ?case using Cons.IH e by simp
qed simp

lemma foldl_insort: "foldl (\<lambda>m e. insort_key f e m) [] es = sort_key f (rev es)"
  by (simp add: sort_key_def foldr_conv_fold foldl_conv_fold)

lemma btree_collect_sort:
  assumes "distinct (map fst es)"
  shows "btree_collect es = sort_key fst es"
proof -
  have "btree_collect es = sort_key fst (rev es)"
    using assms foldl_btree_insert [of es "[]"] by (simp add: btree_collect_def foldl_insort)
  also have "\<dots> = sort_key fst es"
    using assms by (intro sort_key_inj_key_eq) (auto simp: distinct_map)
  finally show ?thesis .
qed

lemma sort_key_map:
  assumes "\<And>x. f (g x) = f' x" and "inj_on f' (set xs)"
  shows "sort_key f (map g xs) = map g (sort_key f' xs)"
proof (rule sort_key_inj_key_eq)
  show "mset (map g xs) = mset (map g (sort_key f' xs))" by simp
  show "inj_on f (set (map g xs))"
    using assms by (auto simp: inj_on_def)
  show "sorted (map f (map g (sort_key f' xs)))"
    using assms(1) by (simp add: comp_def)
qed

text \<open>Collecting again changes nothing.\<close>

lemma btree_insert_keys: "fst ` set (btree_insert k v es) = insert k (fst ` set es)"
proof (induction es)
  case (Cons e es)
  then show ?case by (cases e) (simp add: insert_commute)
qed simp

lemma btree_insert_sorted:
  "sorted_wrt (<) (map fst es) \<Longrightarrow> sorted_wrt (<) (map fst (btree_insert k v es))"
proof (induction es)
  case (Cons e es)
  have "\<forall>y \<in> fst ` set (btree_insert k v es). fst e < y" if "fst e < k"
    using Cons.prems that unfolding btree_insert_keys by auto
  then show ?case using Cons by (cases e) (auto simp: not_less_iff_gr_or_eq)
qed simp

lemma btree_collect_sorted: "sorted_wrt (<) (map fst (btree_collect es))"
proof -
  have "sorted_wrt (<) (map fst m) \<Longrightarrow>
      sorted_wrt (<) (map fst (foldl (\<lambda>m (k, v). btree_insert k v m) m es))" for m
    by (induction es arbitrary: m) (auto simp: btree_insert_sorted)
  then show ?thesis by (simp add: btree_collect_def)
qed

lemma btree_collect_idem: "btree_collect (btree_collect es) = btree_collect es"
proof -
  let ?m = "btree_collect es"
  have "distinct (map fst ?m)" using btree_collect_sorted strict_sorted_iff by blast
  then have "btree_collect ?m = sort_key fst ?m" by (rule btree_collect_sort)
  also have "\<dots> = ?m"
    using btree_collect_sorted [of es] strict_sorted_iff by (intro sort_key_id_if_sorted) blast
  finally show ?thesis .
qed

lemma btree_insert_subset: "set (btree_insert k v es) \<subseteq> insert (k, v) (set es)"
  by (induction es) (auto split: if_splits)

lemma btree_collect_subset: "set (btree_collect es) \<subseteq> set es"
proof -
  have "set (foldl (\<lambda>m (k, v). btree_insert k v m) m es) \<subseteq> set m \<union> set es" for m
  proof (induction es arbitrary: m)
    case (Cons e es)
    then show ?case using btree_insert_subset [of "fst e" "snd e" m] by (fastforce simp: split_def)
  qed simp
  then show ?thesis by (fastforce simp: btree_collect_def)
qed

lemma canonicalize_object:
  assumes "distinct (map fst es)"
  shows "canonicalize (JObject es) = JObject (canonicalize_entries (sort_key fst es))"
proof -
  have "sort_key fst (map (map_prod id canonicalize) es) =
        map (map_prod id canonicalize) (sort_key fst es)"
    using assms by (intro sort_key_map) (auto simp: distinct_map)
  then show ?thesis
    using assms by (simp add: btree_collect_sort canonicalize_entries_map comp_def)
qed

text \<open>
  The texts that \<open>write_items\<close> and \<open>write_entries\<close> add, before they are known to be the printed
  canonical value.
\<close>

definition entry_text :: "serde \<Rightarrow> string \<times> json \<Rightarrow> string" where
  "entry_text S e = str_text S (fst e) @ '':'' @ canonical_json_string S (snd e)"

definition joined :: "nat \<Rightarrow> string list \<Rightarrow> string" where
  "joined index xs = (if index \<noteq> 0 \<and> xs \<noteq> [] then '','' @ comma_join xs else comma_join xs)"

lemma joined_Nil [simp]: "joined i [] = []"
  by (simp add: joined_def)

lemma joined_Cons: "joined i (x # xs) = (if i \<noteq> 0 then '','' else []) @ x @ joined (Suc i) xs"
  by (cases xs) (auto simp: joined_def)

lemma joined_0: "joined 0 xs = comma_join xs"
  by (simp add: joined_def)

lemma canonical_json_string_simps:
  assumes "serde_compact S"
  shows "canonical_json_string S (JArray xs) =
      ''['' @ comma_join (map (canonical_json_string S) xs) @ '']''"
    and "distinct (map fst es) \<Longrightarrow> canonical_json_string S (JObject es) =
      ''{'' @ comma_join (map (entry_text S) (sort_key fst es)) @ ''}''"
  using assms
  by (auto simp: canonical_json_string_def serde_compact_def canonicalize_items_map
      canonicalize_object canonicalize_entries_map entry_text_def comp_def split_def
      simp del: canonicalize.simps(1) cong: map_cong)

definition writes :: "nat \<Rightarrow> nat \<Rightarrow> bool \<Rightarrow> string \<Rightarrow> string \<Rightarrow> approval_error + string \<Rightarrow> bool" where
  "writes d depth fin out text r =
     (if depth + d \<le> MAX_CANONICAL_JSON_DEPTH \<and> fin then r = Inr (out @ text) else \<not> is_ok r)"

lemma writes_seq:
  assumes "writes d1 (Suc depth) f1 out t1 r"
    and "\<And>out'. r = Inr out' \<Longrightarrow> writes d2 depth f2 out' t2 (g out')"
    and "t = t1 @ t2"
  shows "writes (max (Suc d1) d2) depth (f1 \<and> f2) out t
    (case r of Inl e \<Rightarrow> Inl e | Inr out' \<Rightarrow> g out')"
  using assms(1) assms(2) [of "out @ t1"] assms(3)
  by (cases r) (auto simp: writes_def split: if_splits)

lemma writes_out: "writes d depth f (out @ a) t r \<Longrightarrow> writes d depth f out (a @ t) r"
  by (simp add: writes_def)

lemma write_canonical_json_writes:
  "serde_compact S \<Longrightarrow> json_wf v \<Longrightarrow>
      writes (json_depth v) depth (json_finite v) out (canonical_json_string S v)
        (write_canonical_json S v out depth)"
  "serde_compact S \<Longrightarrow> items_wf xs \<Longrightarrow> depth \<le> MAX_CANONICAL_JSON_DEPTH \<Longrightarrow>
      writes (items_depth xs) depth (items_finite xs) out
        (joined index (map (canonical_json_string S) xs)) (write_items S xs index out depth)"
  "serde_compact S \<Longrightarrow> entries_wf es \<Longrightarrow> depth \<le> MAX_CANONICAL_JSON_DEPTH \<Longrightarrow>
      writes (entries_depth es) depth (entries_finite es) out
        (joined index (map (entry_text S) es)) (write_entries S es index out depth)"
proof (induction S v out depth and S xs index out depth and S es index out depth
    rule: write_canonical_json_write_items_write_entries.induct)
  case (1 S v out depth)
  note S = \<open>serde_compact S\<close> and W = write_canonical_json.simps
  show ?case
  proof (cases "depth > MAX_CANONICAL_JSON_DEPTH")
    case True
    then show ?thesis by (simp add: W writes_def)
  next
    case False
    show ?thesis
    proof (cases v)
      case (JArray xs)
      have "writes (items_depth xs) depth (items_finite xs) (out @ ''['')
          (joined 0 (map (canonical_json_string S) xs)) (write_items S xs 0 (out @ ''['') depth)"
        using 1 False JArray by simp
      then show ?thesis
        using JArray False
        by (auto simp: W writes_def joined_0 canonical_json_string_simps [OF S] is_ok_iff
            split: sum.splits if_splits)
    next
      case (JObject es)
      have "writes (entries_depth es) depth (entries_finite es) (out @ ''{'')
          (joined 0 (map (entry_text S) (sort_key fst es)))
          (write_entries S (sort_key fst es) 0 (out @ ''{'') depth)"
        using 1 False JObject by simp
      then show ?thesis
        using JObject False \<open>json_wf v\<close>
        by (auto simp: W writes_def joined_0 canonical_json_string_simps [OF S] is_ok_iff
            split: sum.splits if_splits)
    qed (use S False in \<open>auto simp: W writes_def canonical_json_string_def serde_compact_def\<close>)
  qed
next
  case (3 S x xs index out depth)
  show ?case
    unfolding write_items.simps items_depth.simps items_finite.simps list.map
  proof (rule writes_seq)
    show "writes (json_depth x) (Suc depth) (json_finite x) out
        ((if index \<noteq> 0 then '','' else []) @ canonical_json_string S x)
        (write_canonical_json S x (if index \<noteq> 0 then out @ '','' else out) (depth + 1))"
      using 3 by (intro writes_out) auto
    show "writes (items_depth xs) depth (items_finite xs) out'
        (joined (index + 1) (map (canonical_json_string S) xs)) (write_items S xs (index + 1) out' depth)"
      if "write_canonical_json S x (if index \<noteq> 0 then out @ '','' else out) (depth + 1) = Inr out'"
      for out' using 3 that by auto
  qed (simp add: joined_Cons)
next
  case (5 S k x es index out depth)
  show ?case
    unfolding write_entries.simps entries_depth.simps entries_finite.simps list.map
  proof (rule writes_seq)
    show "writes (json_depth x) (Suc depth) (json_finite x) out
        (((if index \<noteq> 0 then '','' else []) @ str_text S k @ '':'') @ canonical_json_string S x)
        (write_canonical_json S x
          ((if index \<noteq> 0 then out @ '','' else out) @ str_text S k @ '':'') (depth + 1))"
      using 5 by (intro writes_out) (auto split: if_splits)
    show "writes (entries_depth es) depth (entries_finite es) out'
        (joined (index + 1) (map (entry_text S) es)) (write_entries S es (index + 1) out' depth)"
      if "write_canonical_json S x
          ((if index \<noteq> 0 then out @ '','' else out) @ str_text S k @ '':'') (depth + 1) = Inr out'"
      for out' using 5 that by auto
  qed (simp add: joined_Cons entry_text_def)
qed (simp_all add: writes_def)

text \<open>
  Property C31. For a value with distinct keys in every object, the approval crate's canonical writer
  succeeds exactly when the numbers are finite and the nesting is at most 128, and the digest it then
  returns, shown in hexadecimal, is the audit crate's canonical hash of the same value: an approval
  and an audit record bind the same fingerprint of one request.
\<close>

theorem canonical_hashes_agree:
  assumes "serde_compact S" and "json_wf v"
  shows "((\<exists>h. canonical_request_hash sha S v = Inr h) =
            (json_depth v \<le> MAX_CANONICAL_JSON_DEPTH \<and> json_finite v)) \<and>
         (\<forall>h. canonical_request_hash sha S v = Inr h \<longrightarrow>
            request_hash_hex h = hash_canonical_json sha S v)"
  using write_canonical_json_writes(1) [OF assms, of 0 "[]"]
  by (auto simp: writes_def canonical_request_hash_def request_hash_hex_def hash_canonical_json_def
      is_ok_iff split: sum.splits if_splits)

text \<open>
  A printer that meets \<open>serde_compact\<close>, for concrete evaluations: strings between quotation marks,
  numbers as one placeholder digit.
\<close>

fun sample_text :: "json \<Rightarrow> string"
  and sample_items :: "json list \<Rightarrow> string list"
  and sample_entries :: "(string \<times> json) list \<Rightarrow> string list" where
  "sample_text JNull = ''null''"
| "sample_text (JBool b) = (if b then ''true'' else ''false'')"
| "sample_text (JNumber n) = ''0''"
| "sample_text (JString s) = [CHR 0x22] @ s @ [CHR 0x22]"
| "sample_text (JArray xs) = ''['' @ comma_join (sample_items xs) @ '']''"
| "sample_text (JObject es) = ''{'' @ comma_join (sample_entries es) @ ''}''"
| "sample_items [] = []"
| "sample_items (x # xs) = sample_text x # sample_items xs"
| "sample_entries [] = []"
| "sample_entries ((k, v) # es) =
     ([CHR 0x22] @ k @ [CHR 0x22] @ '':'' @ sample_text v) # sample_entries es"

definition sample_serde :: "(string \<Rightarrow> json option) \<Rightarrow> serde" where
  "sample_serde parse = \<lparr> str_text = (\<lambda>s. [CHR 0x22] @ s @ [CHR 0x22]), num_text = (\<lambda>n. ''0''),
     value_text = sample_text, value_parse = parse \<rparr>"

lemma sample_items_map: "sample_items xs = map sample_text xs"
  by (induction xs) auto

lemma sample_entries_map:
  "sample_entries es = map (\<lambda>(k, v). [CHR 0x22] @ k @ [CHR 0x22] @ '':'' @ sample_text v) es"
  by (induction es) auto

lemma sample_serde_compact: "serde_compact (sample_serde parse)"
  by (simp add: serde_compact_def sample_serde_def sample_items_map sample_entries_map)

theorem canonical_hashes_agree_witness:
  "let v = JObject [(''tool'', JString ''git''), (''action'', JArray [JNull, JBool True])];
       S = sample_serde (\<lambda>_. None)
   in \<exists>h. canonical_request_hash (\<lambda>x. x) S v = Inr h
        \<and> request_hash_hex h = hash_canonical_json (\<lambda>x. x) S v"
proof -
  let ?v = "JObject [(''tool'', JString ''git''), (''action'', JArray [JNull, JBool True])]"
  have "json_wf ?v" "json_depth ?v \<le> MAX_CANONICAL_JSON_DEPTH" "json_finite ?v"
    by (simp_all add: MAX_CANONICAL_JSON_DEPTH_def)
  with canonical_hashes_agree [OF sample_serde_compact, of ?v "\<lambda>x. x" "\<lambda>_. None"]
  show ?thesis by (auto simp: Let_def)
qed

end
