(* ===== verification/Ledger.thy ===== *)
theory Ledger
  imports Prelude
begin

text \<open>
  The contracts the durable stores promise, stated once for a store with atomic operations.

  Every store of the program serialises its operations behind a mutex and runs each in one SQLite
  transaction, so an execution of a store is a sequence of operations, each a function from the
  state to a new state and a reply. \<open>run\<close> is such an execution. The locales state what a client may
  rely on:

  \<^item> \<open>store\<close>: an invariant that every operation keeps;
  \<^item> \<open>progress_store\<close>: every keyed entry persists and only moves forward in an order;
  \<^item> \<open>once_store\<close>: a right that is granted by a reply at most once per key, in any interleaving.

  \<open>valid\<close> is what the Rust types guarantee of an operation's arguments. The locales are interpreted
  on the stores of the program.
\<close>

fun run :: "('op \<Rightarrow> 's \<Rightarrow> 's \<times> 'r) \<Rightarrow> 'op list \<Rightarrow> 's \<Rightarrow> 's \<times> 'r list" where
  "run step [] s = (s, [])"
| "run step (x # xs) s =
     (let (s', r) = step x s; (s'', rs) = run step xs s' in (s'', r # rs))"

lemma run_Cons_fst: "fst (run step (x # xs) s) = fst (run step xs (fst (step x s)))"
  by (simp add: split_def Let_def)

lemma run_Cons_snd:
  "snd (run step (x # xs) s) = snd (step x s) # snd (run step xs (fst (step x s)))"
  by (simp add: split_def Let_def)

lemmas run_Cons = run_Cons_fst run_Cons_snd

lemma run_append:
  "fst (run step (xs @ ys) s) = fst (run step ys (fst (run step xs s)))"
  "snd (run step (xs @ ys) s) = snd (run step xs s) @ snd (run step ys (fst (run step xs s)))"
  by (induction xs arbitrary: s) (simp_all add: run_Cons del: run.simps(2))

lemma length_run [simp]: "length (snd (run step xs s)) = length xs"
  by (induction xs arbitrary: s) (simp_all add: run_Cons del: run.simps(2))

lemma run_nth:
  "i < length xs \<Longrightarrow> snd (run step xs s) ! i = snd (step (xs ! i) (fst (run step (take i xs) s)))"
proof (induction xs arbitrary: i s)
  case (Cons x xs)
  then show ?case by (cases i) (simp_all add: run_Cons del: run.simps(2))
qed simp

lemma run_take_Suc:
  "i < length xs \<Longrightarrow> fst (run step (take (Suc i) xs) s) = fst (step (xs ! i) (fst (run step (take i xs) s)))"
  by (simp add: take_Suc_conv_app_nth run_append(1) run_Cons del: run.simps(2))

lemma run_take_split:
  "i \<le> j \<Longrightarrow> fst (run step (take j xs) s) = fst (run step (drop i (take j xs)) (fst (run step (take i xs) s)))"
  by (metis append_take_drop_id min.absorb1 run_append(1) take_take)

text \<open>How many operations of a sequence received a reply that satisfies a predicate.\<close>

definition granted :: "('op \<Rightarrow> 'r \<Rightarrow> bool) \<Rightarrow> 'op list \<Rightarrow> 'r list \<Rightarrow> nat" where
  "granted g ops rs = length (filter (\<lambda>(x, r). g x r) (zip ops rs))"

lemma granted_simps [simp]:
  "granted g [] rs = 0"
  "granted g (x # xs) (r # rs) = (if g x r then Suc (granted g xs rs) else granted g xs rs)"
  by (simp_all add: granted_def)


lemma granted_append:
  "length xs = length rs \<Longrightarrow> granted g (xs @ ys) (rs @ qs) = granted g xs rs + granted g ys qs"
  by (simp add: granted_def)


section \<open>Tables that grow and whose rows move forward\<close>

definition grows :: "('r \<Rightarrow> 'r \<Rightarrow> bool) \<Rightarrow> 'r list \<Rightarrow> 'r list \<Rightarrow> bool" where
  "grows R xs ys \<longleftrightarrow> (\<exists>zs new. ys = zs @ new \<and> list_all2 R xs zs)"

lemma grows_refl: "(\<And>r. R r r) \<Longrightarrow> grows R xs xs"
  unfolding grows_def by (intro exI [of _ xs] exI [of _ "[]"]) (simp add: list_all2_refl)

lemma grows_append: "(\<And>r. R r r) \<Longrightarrow> grows R xs (xs @ ys)"
  unfolding grows_def by (intro exI [of _ xs] exI [of _ ys]) (simp add: list_all2_refl)

lemma grows_update:
  assumes "\<And>r. R r r" "\<And>r. r \<in> set xs \<Longrightarrow> P r \<Longrightarrow> R r (f r)"
  shows "grows R xs (sql_update P f xs)"
  unfolding grows_def
  by (intro exI [of _ "sql_update P f xs"] exI [of _ "[]"])
    (use assms in \<open>auto simp: sql_update_def list_all2_conv_all_nth\<close>)

lemma grows_trans:
  assumes "\<And>a b c. R a b \<Longrightarrow> R b c \<Longrightarrow> R a c" "grows R xs ys" "grows R ys zs"
  shows "grows R xs zs"
proof -
  obtain as n where a: "ys = as @ n" "list_all2 R xs as" using assms(2) by (auto simp: grows_def)
  obtain bs m where b: "zs = bs @ m" "list_all2 R ys bs" using assms(3) by (auto simp: grows_def)
  from b(2) a(1) obtain b1 b2 where bs: "bs = b1 @ b2" "list_all2 R as b1"
    by (auto simp: list_all2_append1)
  have "list_all2 R xs b1" by (rule list_all2_trans [OF _ a(2) bs(2)]) (rule assms(1))
  then show ?thesis using b(1) bs(1) by (auto simp: grows_def)
qed

lemma grows_in: "grows R xs ys \<Longrightarrow> r \<in> set xs \<Longrightarrow> \<exists>r' \<in> set ys. R r r'"
  unfolding grows_def by (metis UnI1 in_set_conv_nth list_all2_conv_all_nth set_append)

lemma grows_find:
  assumes "grows R xs ys" "\<And>r r'. R r r' \<Longrightarrow> P r' = P r" "find P xs = Some r"
  shows "\<exists>r'. find P ys = Some r' \<and> R r r'"
proof -
  obtain zs new where zs: "ys = zs @ new" "list_all2 R xs zs"
    using assms(1) by (auto simp: grows_def)
  from zs(2) assms(3) have "\<exists>r'. find P zs = Some r' \<and> R r r'"
    by (induction rule: list_all2_induct) (auto simp: assms(2) split: if_splits)
  then show ?thesis using zs(1) by (auto simp: find_append)
qed


section \<open>An invariant\<close>

locale store =
  fixes step :: "'op \<Rightarrow> 's \<Rightarrow> 's \<times> 'r"
    and valid :: "'op \<Rightarrow> bool"
    and inv :: "'s \<Rightarrow> bool"
  assumes inv_step: "inv s \<Longrightarrow> valid x \<Longrightarrow> inv (fst (step x s))"
begin

lemma inv_run: "inv s \<Longrightarrow> list_all valid xs \<Longrightarrow> inv (fst (run step xs s))"
  by (induction xs arbitrary: s) (simp_all add: run_Cons inv_step del: run.simps(2))

end


section \<open>Entries that only move forward\<close>

locale progress_store = store step valid inv
  for step :: "'op \<Rightarrow> 's \<Rightarrow> 's \<times> 'r" and valid :: "'op \<Rightarrow> bool" and inv :: "'s \<Rightarrow> bool" +
  fixes entry :: "'s \<Rightarrow> 'k \<Rightarrow> 'v option"
    and forward :: "'v \<Rightarrow> 'v \<Rightarrow> bool"
  assumes forward_refl: "forward v v"
    and forward_trans: "forward u v \<Longrightarrow> forward v w \<Longrightarrow> forward u w"
    and entry_step: "inv s \<Longrightarrow> valid x \<Longrightarrow> entry s k = Some v \<Longrightarrow>
      \<exists>v'. entry (fst (step x s)) k = Some v' \<and> forward v v'"
begin

lemma entry_run:
  "inv s \<Longrightarrow> list_all valid xs \<Longrightarrow> entry s k = Some v \<Longrightarrow>
   \<exists>v'. entry (fst (run step xs s)) k = Some v' \<and> forward v v'"
proof (induction xs arbitrary: s v)
  case Nil
  then show ?case by (simp add: forward_refl)
next
  case (Cons x xs)
  then obtain u where u: "entry (fst (step x s)) k = Some u" "forward v u"
    using entry_step [of s x k v] by auto
  then obtain w where "entry (fst (run step xs (fst (step x s)))) k = Some w" "forward u w"
    using Cons.IH [of "fst (step x s)" u] Cons.prems inv_step [of s x] by auto
  then show ?case using u forward_trans [of v u w] by (simp only: run_Cons_fst) blast
qed

end


section \<open>Rights granted at most once\<close>

locale once_store = store step valid inv
  for step :: "'op \<Rightarrow> 's \<Rightarrow> 's \<times> 'r" and valid :: "'op \<Rightarrow> bool" and inv :: "'s \<Rightarrow> bool" +
  fixes spent :: "'s \<Rightarrow> 'k \<Rightarrow> bool"
    and grants :: "'k \<Rightarrow> 'op \<Rightarrow> 'r \<Rightarrow> bool"
  assumes spent_step: "inv s \<Longrightarrow> valid x \<Longrightarrow> spent s k \<Longrightarrow> spent (fst (step x s)) k"
    and grant_fresh: "inv s \<Longrightarrow> valid x \<Longrightarrow> grants k x (snd (step x s)) \<Longrightarrow> \<not> spent s k"
    and grant_spends: "inv s \<Longrightarrow> valid x \<Longrightarrow> grants k x (snd (step x s)) \<Longrightarrow>
      spent (fst (step x s)) k"
begin

lemma spent_run: "inv s \<Longrightarrow> list_all valid xs \<Longrightarrow> spent s k \<Longrightarrow> spent (fst (run step xs s)) k"
  by (induction xs arbitrary: s) (simp_all add: run_Cons inv_step spent_step del: run.simps(2))

lemma spent_none:
  "inv s \<Longrightarrow> list_all valid xs \<Longrightarrow> spent s k \<Longrightarrow> granted (grants k) xs (snd (run step xs s)) = 0"
proof (induction xs arbitrary: s)
  case (Cons x xs)
  then have "\<not> grants k x (snd (step x s))" using grant_fresh [of s x k] by auto
  with Cons show ?case by (simp add: run_Cons inv_step spent_step del: run.simps(2))
qed simp

lemma at_most_once:
  "inv s \<Longrightarrow> list_all valid xs \<Longrightarrow> granted (grants k) xs (snd (run step xs s)) \<le> 1"
proof (induction xs arbitrary: s)
  case (Cons x xs)
  show ?case
  proof (cases "grants k x (snd (step x s))")
    case True
    then have "granted (grants k) xs (snd (run step xs (fst (step x s)))) = 0"
      using Cons.prems by (intro spent_none inv_step grant_spends) auto
    with True show ?thesis by (simp add: run_Cons del: run.simps(2))
  next
    case False
    then show ?thesis using Cons by (simp add: run_Cons inv_step del: run.simps(2))
  qed
qed simp

end


section \<open>Refinement of a specification\<close>

text \<open>
  An implementation step that follows a specification step through an abstraction function, while
  fewer than \<open>bound\<close> operations have been performed (a counter of the implementation may be of finite
  width).
\<close>

locale refining_store =
  fixes step :: "'op \<Rightarrow> 's \<Rightarrow> 's \<times> 'r"
    and spec :: "'op \<Rightarrow> 'a \<Rightarrow> 'a \<times> 'r"
    and abs :: "'s \<Rightarrow> 'a"
    and valid :: "'op \<Rightarrow> bool"
    and inv :: "nat \<Rightarrow> 's \<Rightarrow> bool"
    and bound :: nat
  assumes step_inv: "inv n s \<Longrightarrow> valid x \<Longrightarrow> n < bound \<Longrightarrow> inv (Suc n) (fst (step x s))"
    and step_refines: "inv n s \<Longrightarrow> valid x \<Longrightarrow> n < bound \<Longrightarrow> spec x (abs s) = map_prod abs id (step x s)"
begin

lemma run_refines:
  assumes "inv n s" "list_all valid xs" "n + length xs \<le> bound"
  shows "run spec xs (abs s) = map_prod abs id (run step xs s) \<and> inv (n + length xs) (fst (run step xs s))"
  using assms
proof (induction xs arbitrary: n s)
  case (Cons x xs)
  then have s: "inv (Suc n) (fst (step x s))" "spec x (abs s) = map_prod abs id (step x s)"
    by (auto intro: step_inv step_refines)
  have "run spec xs (abs (fst (step x s))) = map_prod abs id (run step xs (fst (step x s))) \<and>
      inv (Suc n + length xs) (fst (run step xs (fst (step x s))))"
    by (rule Cons.IH [OF s(1)]) (use Cons.prems in simp_all)
  then show ?case using s(2) by (simp add: split_def Let_def map_prod_def)
qed simp

end

end
