(* ===== verification/Audit_Log.thy ===== *)
theory Audit_Log
  imports Json Ledger
begin

text \<open>
  The tenant-scoped audit chains of \<open>henosis-audit\<close>: events, their hashes, append and verification.

  A row of \<open>audit_events\<close> keeps phase, payload and witness receipt as text, as the table does;
  \<open>record_from_row\<close> decodes it. The third-party code is the parameter \<open>audit_lib\<close>: \<open>serde_json\<close> for
  values and for receipts, and SHA-256. A signature scheme is the parameter \<open>ed25519\<close>. Functions that
  run inside a transaction return the error or the new rows with their result; the clock and the
  fresh event identifier are arguments (\<open>tick\<close>). The claims about content rest on the hash: where
  two chains could only agree by a SHA-256 collision, the theorem names that collision.
\<close>

section \<open>Errors and values\<close>

datatype audit_error =
    DatabaseOpen string
  | Storage string
  | Serialization string
  | InvalidInput string
  | IdempotencyConflict
  | ExecutionNotFound
  | ExecutionStateConflict
  | ChainVerification nat string
  | LockPoisoned
  | WitnessTransport string
  | WitnessUrl
  | WitnessRejected nat
  | InvalidSignature
  | ReceiptMismatch
  | InvalidKey
  | StreamBlocked string

datatype audit_phase = Intent | Outcome

record audit_event_input =
  in_tenant_id :: string
  in_principal_id :: string
  in_action :: string
  in_phase :: audit_phase
  in_request :: json
  in_payload :: json
  in_idempotency_key :: "string option"

record witness_receipt =
  rc_tenant_id :: string
  rc_sequence :: nat
  rc_event_hash :: string
  rc_witness_key_id :: string
  rc_witnessed_at_ms :: int
  rc_signature_b64 :: string

record witness_checkpoint =
  cp_tenant_id :: string
  cp_sequence :: nat
  cp_event_id :: string
  cp_previous_hash :: string
  cp_event_hash :: string
  cp_origin_key_id :: string
  cp_origin_signature_b64 :: string

record audit_record =
  rec_tenant_id :: string
  rec_sequence :: nat
  rec_event_id :: string
  rec_principal_id :: string
  rec_action :: string
  rec_phase :: audit_phase
  rec_request_hash :: string
  rec_payload :: json
  rec_previous_hash :: string
  rec_event_hash :: string
  rec_created_at_ms :: int
  rec_idempotency_key :: "string option"
  rec_witness_receipt :: "witness_receipt option"

text \<open>One row of the table \<open>audit_events\<close>.\<close>

record audit_row =
  ev_tenant_id :: string
  ev_sequence :: nat
  ev_event_id :: string
  ev_principal_id :: string
  ev_action :: string
  ev_phase :: string
  ev_request_hash :: string
  ev_payload_json :: string
  ev_previous_hash :: string
  ev_event_hash :: string
  ev_created_at_ms :: int
  ev_idempotency_key :: "string option"
  ev_witness_receipt_json :: "string option"

record audit_lib =
  al_serde :: serde
  al_sha256 :: "bytes \<Rightarrow> bytes"
  al_receipt_text :: "witness_receipt \<Rightarrow> string"
  al_receipt_parse :: "string \<Rightarrow> witness_receipt option"

text \<open>What one call draws from outside: a fresh event identifier and the clock, read up to twice.\<close>

record tick =
  tk_event_id :: string
  tk_now :: int
  tk_later :: int

definition GENESIS_HASH :: string where
  "GENESIS_HASH = replicate 64 (CHR ''0'')"

definition AUDIT_HASH_DOMAIN :: bytes where
  "AUDIT_HASH_DOMAIN = ''henosis.audit.event.v1''"

definition CHECKPOINT_SIGNATURE_DOMAIN :: bytes where
  "CHECKPOINT_SIGNATURE_DOMAIN = ''henosis.audit.checkpoint.v1''"

definition RECEIPT_SIGNATURE_DOMAIN :: bytes where
  "RECEIPT_SIGNATURE_DOMAIN = ''henosis.audit.receipt.v1''"

definition unix_timestamp_ms :: "int \<Rightarrow> audit_error + int" where
  "unix_timestamp_ms raw =
     (if raw < 0 then Inl (InvalidInput ''system clock precedes Unix epoch'')
      else if raw < 2 ^ 63 then Inr raw
      else Inl (InvalidInput ''system clock is outside supported range''))"


section \<open>Validation\<close>

definition validate_identifier :: "string \<Rightarrow> string \<Rightarrow> audit_error + unit" where
  "validate_identifier label value =
     (if trim value = [] \<or> length value > 512 \<or> has_control value
      then Inl (InvalidInput (label @ '' is invalid''))
      else Inr ())"

definition validate_input :: "audit_event_input \<Rightarrow> audit_error + unit" where
  "validate_input input =
     (case validate_identifier ''tenant id'' (in_tenant_id input) of Inl e \<Rightarrow> Inl e | Inr _ \<Rightarrow>
      case validate_identifier ''principal id'' (in_principal_id input) of Inl e \<Rightarrow> Inl e | Inr _ \<Rightarrow>
      case validate_identifier ''action'' (in_action input) of Inl e \<Rightarrow> Inl e | Inr _ \<Rightarrow>
      case in_idempotency_key input of
        None \<Rightarrow> Inr ()
      | Some key \<Rightarrow> validate_identifier ''idempotency key'' key)"

definition validate_execution_event :: "audit_event_input \<Rightarrow> audit_phase \<Rightarrow> audit_error + unit" where
  "validate_execution_event input expected_phase =
     (case validate_input input of Inl e \<Rightarrow> Inl e | Inr _ \<Rightarrow>
      if in_phase input \<noteq> expected_phase
      then Inl (InvalidInput ''execution event has the wrong audit phase'')
      else if in_idempotency_key input = None
      then Inl (InvalidInput ''execution event requires an idempotency key'')
      else Inr ())"

definition allowed_metadata_key :: "string \<Rightarrow> bool" where
  "allowed_metadata_key key =
     (key \<in> {''tool'', ''operation'', ''decision'', ''outcome'', ''gate'', ''gates'', ''approval_id'',
       ''token_identity'', ''reason_code'', ''component_id'', ''policy_version'', ''witness_mode'',
       ''target_request_hash'', ''evidence_sha256'', ''intent_sequence''})"

definition short_text :: "nat \<Rightarrow> json \<Rightarrow> bool" where
  "short_text n v = (case v of JString s \<Rightarrow> length s \<le> n \<and> \<not> has_control s | _ \<Rightarrow> False)"

definition validate_metadata_value :: "string \<Rightarrow> json \<Rightarrow> audit_error + unit" where
  "validate_metadata_value key value =
     (let bad = Inl (InvalidInput (''audit metadata value is invalid: '' @ key)) in
      case value of
        JNull \<Rightarrow> Inr ()
      | JBool _ \<Rightarrow> Inr ()
      | JNumber _ \<Rightarrow> Inr ()
      | JString _ \<Rightarrow> if short_text 512 value then Inr () else bad
      | JArray vs \<Rightarrow>
          if key = ''gates'' \<and> length vs \<le> 16 \<and> list_all (short_text 128) vs then Inr () else bad
      | JObject _ \<Rightarrow> bad)"

fun validate_entries :: "(string \<times> json) list \<Rightarrow> audit_error + unit" where
  "validate_entries [] = Inr ()"
| "validate_entries ((key, child) # es) =
     (if \<not> allowed_metadata_key key
      then Inl (InvalidInput (''audit metadata field is not allowed: '' @ key))
      else case validate_metadata_value key child of Inl e \<Rightarrow> Inl e | Inr _ \<Rightarrow> validate_entries es)"

definition validate_metadata_payload :: "json \<Rightarrow> audit_error + unit" where
  "validate_metadata_payload value =
     (case value of
        JObject entries \<Rightarrow>
          if length entries > 24
          then Inl (InvalidInput ''audit payload has too many metadata fields'')
          else validate_entries entries
      | _ \<Rightarrow> Inl (InvalidInput ''audit payload must be a metadata object''))"


section \<open>Hashes and signatures\<close>

fun phase_name :: "audit_phase \<Rightarrow> string" where
  "phase_name Intent = ''intent''"
| "phase_name Outcome = ''outcome''"

definition parse_phase :: "string \<Rightarrow> audit_error + audit_phase" where
  "parse_phase value =
     (if value = ''intent'' then Inr Intent
      else if value = ''outcome'' then Inr Outcome
      else Inl (InvalidInput ''stored audit phase is invalid''))"

definition event_hash_fields ::
    "string \<Rightarrow> nat \<Rightarrow> string \<Rightarrow> string \<Rightarrow> string \<Rightarrow> string \<Rightarrow> string \<Rightarrow> string \<Rightarrow> string \<Rightarrow> int \<Rightarrow>
     string option \<Rightarrow> bytes list" where
  "event_hash_fields tenant_id sequence event_id principal_id action phase request_hash payload_json
     previous_hash created_at_ms idempotency_key =
     [tenant_id, be64 sequence, event_id, principal_id, action, phase, request_hash, payload_json,
      previous_hash, be_i64 created_at_ms, (case idempotency_key of None \<Rightarrow> [] | Some k \<Rightarrow> k)]"

definition compute_event_hash ::
    "(bytes \<Rightarrow> bytes) \<Rightarrow> string \<Rightarrow> nat \<Rightarrow> string \<Rightarrow> string \<Rightarrow> string \<Rightarrow> audit_phase \<Rightarrow> string \<Rightarrow> string \<Rightarrow>
     string \<Rightarrow> int \<Rightarrow> string option \<Rightarrow> string" where
  "compute_event_hash sha tenant_id sequence event_id principal_id action phase request_hash
     payload_json previous_hash created_at_ms idempotency_key =
     hex_digest (sha (AUDIT_HASH_DOMAIN @ field_list (event_hash_fields tenant_id sequence event_id
       principal_id action (phase_name phase) request_hash payload_json previous_hash created_at_ms
       idempotency_key)))"

definition checkpoint_signing_bytes :: "witness_checkpoint \<Rightarrow> bytes" where
  "checkpoint_signing_bytes c = CHECKPOINT_SIGNATURE_DOMAIN @ field_list [cp_tenant_id c,
     be64 (cp_sequence c), cp_event_id c, cp_previous_hash c, cp_event_hash c, cp_origin_key_id c]"

definition receipt_signing_bytes :: "witness_receipt \<Rightarrow> bytes" where
  "receipt_signing_bytes r = RECEIPT_SIGNATURE_DOMAIN @ field_list [rc_tenant_id r,
     be64 (rc_sequence r), rc_event_hash r, rc_witness_key_id r, be_i64 (rc_witnessed_at_ms r)]"

text \<open>The crates \<open>ed25519_dalek\<close> and \<open>base64\<close>: keys and signatures are byte strings.\<close>

record ed25519 =
  ed_sign :: "bytes \<Rightarrow> bytes \<Rightarrow> bytes"
  ed_public :: "bytes \<Rightarrow> bytes"
  ed_signature :: "bytes \<Rightarrow> bytes option"
  ed_verify :: "bytes \<Rightarrow> bytes \<Rightarrow> bytes \<Rightarrow> bool"
  b64_encode :: "bytes \<Rightarrow> string"
  b64_decode :: "string \<Rightarrow> bytes option"

definition verify_b64 :: "ed25519 \<Rightarrow> string \<Rightarrow> bytes \<Rightarrow> bytes \<Rightarrow> audit_error + unit" where
  "verify_b64 E signature_b64 key message =
     (case b64_decode E signature_b64 of None \<Rightarrow> Inl InvalidSignature | Some raw \<Rightarrow>
      case ed_signature E raw of None \<Rightarrow> Inl InvalidSignature | Some signature \<Rightarrow>
      if ed_verify E key message signature then Inr () else Inl InvalidSignature)"

definition verify_checkpoint_signature ::
    "ed25519 \<Rightarrow> witness_checkpoint \<Rightarrow> bytes \<Rightarrow> audit_error + unit" where
  "verify_checkpoint_signature E c origin_key =
     verify_b64 E (cp_origin_signature_b64 c) origin_key (checkpoint_signing_bytes c)"

definition verify_witness_receipt :: "ed25519 \<Rightarrow> witness_receipt \<Rightarrow> bytes \<Rightarrow> audit_error + unit" where
  "verify_witness_receipt E r witness_key =
     verify_b64 E (rc_signature_b64 r) witness_key (receipt_signing_bytes r)"

definition sign_witness_receipt ::
    "ed25519 \<Rightarrow> string \<Rightarrow> nat \<Rightarrow> string \<Rightarrow> string \<Rightarrow> int \<Rightarrow> bytes \<Rightarrow> witness_receipt" where
  "sign_witness_receipt E tenant_id sequence event_hash witness_key_id witnessed_at_ms signing_key =
     (let r = \<lparr> rc_tenant_id = tenant_id, rc_sequence = sequence, rc_event_hash = event_hash,
            rc_witness_key_id = witness_key_id, rc_witnessed_at_ms = witnessed_at_ms,
            rc_signature_b64 = [] \<rparr>
      in r \<lparr> rc_signature_b64 := b64_encode E (ed_sign E signing_key (receipt_signing_bytes r)) \<rparr>)"

record origin_signer =
  os_key_id :: string
  os_signing_key :: bytes

definition origin_signer_new :: "string \<Rightarrow> bytes \<Rightarrow> audit_error + origin_signer" where
  "origin_signer_new key_id signing_key =
     (case validate_identifier ''origin key id'' key_id of Inl e \<Rightarrow> Inl e | Inr _ \<Rightarrow>
      Inr \<lparr> os_key_id = key_id, os_signing_key = signing_key \<rparr>)"

definition checkpoint_of :: "ed25519 \<Rightarrow> origin_signer \<Rightarrow> audit_record \<Rightarrow> witness_checkpoint" where
  "checkpoint_of E og rec =
     (let c = \<lparr> cp_tenant_id = rec_tenant_id rec, cp_sequence = rec_sequence rec,
            cp_event_id = rec_event_id rec, cp_previous_hash = rec_previous_hash rec,
            cp_event_hash = rec_event_hash rec, cp_origin_key_id = os_key_id og,
            cp_origin_signature_b64 = [] \<rparr>
      in c \<lparr> cp_origin_signature_b64 :=
             b64_encode E (ed_sign E (os_signing_key og) (checkpoint_signing_bytes c)) \<rparr>)"

definition verify_receipt_for_record ::
    "ed25519 \<Rightarrow> witness_receipt \<Rightarrow> audit_record \<Rightarrow> string \<Rightarrow> bytes \<Rightarrow> audit_error + unit" where
  "verify_receipt_for_record E receipt rec expected_key_id witness_key =
     (if rc_tenant_id receipt \<noteq> rec_tenant_id rec \<or> rc_sequence receipt \<noteq> rec_sequence rec
        \<or> rc_event_hash receipt \<noteq> rec_event_hash rec \<or> rc_witness_key_id receipt \<noteq> expected_key_id
      then Inl ReceiptMismatch
      else verify_witness_receipt E receipt witness_key)"


section \<open>Reading rows\<close>

definition record_from_row :: "audit_lib \<Rightarrow> audit_row \<Rightarrow> audit_error + audit_record" where
  "record_from_row L r =
     (case parse_phase (ev_phase r) of Inl _ \<Rightarrow> Inl (Storage ''conversion failure'') | Inr phase \<Rightarrow>
      case value_parse (al_serde L) (ev_payload_json r) of
        None \<Rightarrow> Inl (Storage ''conversion failure'')
      | Some payload \<Rightarrow>
          let rec = (\<lambda>receipt. \<lparr> rec_tenant_id = ev_tenant_id r, rec_sequence = ev_sequence r,
            rec_event_id = ev_event_id r, rec_principal_id = ev_principal_id r,
            rec_action = ev_action r, rec_phase = phase, rec_request_hash = ev_request_hash r,
            rec_payload = payload, rec_previous_hash = ev_previous_hash r,
            rec_event_hash = ev_event_hash r, rec_created_at_ms = ev_created_at_ms r,
            rec_idempotency_key = ev_idempotency_key r, rec_witness_receipt = receipt \<rparr>) in
          case ev_witness_receipt_json r of
            None \<Rightarrow> Inr (rec None)
          | Some text \<Rightarrow>
              (case al_receipt_parse L text of
                 None \<Rightarrow> Inl (Storage ''conversion failure'')
               | Some receipt \<Rightarrow> Inr (rec (Some receipt))))"

definition query_record :: "audit_lib \<Rightarrow> audit_row option \<Rightarrow> audit_error + audit_record option" where
  "query_record L found =
     (case found of
        None \<Rightarrow> Inr None
      | Some r \<Rightarrow> (case record_from_row L r of Inl e \<Rightarrow> Inl e | Inr rec \<Rightarrow> Inr (Some rec)))"

definition tenant_rows :: "string \<Rightarrow> audit_row list \<Rightarrow> audit_row list" where
  "tenant_rows t rows = filter (\<lambda>r. ev_tenant_id r = t) rows"

text \<open>\<open>WHERE tenant_id = ? ORDER BY sequence DESC LIMIT 1\<close>\<close>

definition head_row :: "string \<Rightarrow> audit_row list \<Rightarrow> audit_row option" where
  "head_row t rows =
     (case sort_key ev_sequence (tenant_rows t rows) of [] \<Rightarrow> None | rs \<Rightarrow> Some (last rs))"

definition load_next_head :: "string \<Rightarrow> audit_row list \<Rightarrow> nat \<times> string" where
  "load_next_head t rows =
     (case head_row t rows of
        Some r \<Rightarrow> (ev_sequence r + 1, ev_event_hash r)
      | None \<Rightarrow> (1, GENESIS_HASH))"

definition load_record ::
    "audit_lib \<Rightarrow> string \<Rightarrow> nat \<Rightarrow> audit_row list \<Rightarrow> audit_error + audit_record option" where
  "load_record L t n rows =
     query_record L (find (\<lambda>r. ev_tenant_id r = t \<and> ev_sequence r = n) rows)"

definition load_head ::
    "audit_lib \<Rightarrow> string \<Rightarrow> audit_row list \<Rightarrow> audit_error + audit_record option" where
  "load_head L t rows = query_record L (head_row t rows)"

definition load_by_idempotency ::
    "audit_lib \<Rightarrow> string \<Rightarrow> string \<Rightarrow> audit_phase \<Rightarrow> string \<Rightarrow> audit_row list \<Rightarrow>
     audit_error + audit_record option" where
  "load_by_idempotency L t p phase key rows =
     query_record L (find (\<lambda>r. ev_tenant_id r = t \<and> ev_principal_id r = p
       \<and> ev_phase r = phase_name phase \<and> ev_idempotency_key r = Some key) rows)"


section \<open>Verification\<close>

fun collect_records :: "audit_lib \<Rightarrow> audit_row list \<Rightarrow> audit_error + audit_record list" where
  "collect_records L [] = Inr []"
| "collect_records L (r # rs) =
     (case record_from_row L r of Inl e \<Rightarrow> Inl e | Inr x \<Rightarrow>
      case collect_records L rs of Inl e \<Rightarrow> Inl e | Inr xs \<Rightarrow> Inr (x # xs))"

definition verification_error :: "nat \<Rightarrow> string \<Rightarrow> audit_error" where
  "verification_error sequence reason = ChainVerification sequence reason"

definition record_hash :: "audit_lib \<Rightarrow> audit_record \<Rightarrow> string" where
  "record_hash L rec = compute_event_hash (al_sha256 L) (rec_tenant_id rec) (rec_sequence rec)
     (rec_event_id rec) (rec_principal_id rec) (rec_action rec) (rec_phase rec) (rec_request_hash rec)
     (canonical_json_string (al_serde L) (rec_payload rec)) (rec_previous_hash rec)
     (rec_created_at_ms rec) (rec_idempotency_key rec)"

fun verify_loop :: "audit_lib \<Rightarrow> nat \<Rightarrow> string \<Rightarrow> audit_record list \<Rightarrow> audit_error + unit" where
  "verify_loop L expected_sequence expected_previous [] = Inr ()"
| "verify_loop L expected_sequence expected_previous (rec # recs) =
     (if rec_sequence rec \<noteq> expected_sequence
      then Inl (verification_error (rec_sequence rec) ''sequence gap'')
      else if rec_previous_hash rec \<noteq> expected_previous
      then Inl (verification_error (rec_sequence rec) ''previous hash mismatch'')
      else if rec_event_hash rec \<noteq> record_hash L rec
      then Inl (verification_error (rec_sequence rec) ''event hash mismatch'')
      else verify_loop L (expected_sequence + 1) (rec_event_hash rec) recs)"

definition verify_tenant_in :: "audit_lib \<Rightarrow> string \<Rightarrow> audit_row list \<Rightarrow> audit_error + nat" where
  "verify_tenant_in L t rows =
     (case collect_records L (sort_key ev_sequence (tenant_rows t rows)) of Inl e \<Rightarrow> Inl e | Inr recs \<Rightarrow>
      case verify_loop L 1 GENESIS_HASH recs of Inl e \<Rightarrow> Inl e | Inr _ \<Rightarrow> Inr (length recs))"


section \<open>Append\<close>

definition ensure_idempotent_match ::
    "audit_lib \<Rightarrow> audit_record \<Rightarrow> audit_event_input \<Rightarrow> string \<Rightarrow> string \<Rightarrow> audit_error + unit" where
  "ensure_idempotent_match L existing input request_hash payload_json =
     (if rec_principal_id existing = in_principal_id input \<and> rec_action existing = in_action input
        \<and> rec_phase existing = in_phase input \<and> rec_request_hash existing = request_hash
        \<and> canonical_json_string (al_serde L) (rec_payload existing) = payload_json
      then Inr () else Inl IdempotencyConflict)"

definition new_row ::
    "audit_lib \<Rightarrow> audit_event_input \<Rightarrow> string \<Rightarrow> string \<Rightarrow> nat \<Rightarrow> string \<Rightarrow> string \<Rightarrow> int \<Rightarrow> audit_row" where
  "new_row L input request_hash payload_json sequence previous_hash event_id created_at_ms =
     \<lparr> ev_tenant_id = in_tenant_id input, ev_sequence = sequence, ev_event_id = event_id,
       ev_principal_id = in_principal_id input, ev_action = in_action input,
       ev_phase = phase_name (in_phase input), ev_request_hash = request_hash,
       ev_payload_json = payload_json, ev_previous_hash = previous_hash,
       ev_event_hash = compute_event_hash (al_sha256 L) (in_tenant_id input) sequence event_id
         (in_principal_id input) (in_action input) (in_phase input) request_hash payload_json
         previous_hash created_at_ms (in_idempotency_key input),
       ev_created_at_ms = created_at_ms, ev_idempotency_key = in_idempotency_key input,
       ev_witness_receipt_json = None \<rparr>"

text \<open>
  The unique constraints of \<open>audit_events\<close>: the primary key, the event identifier, and the partial
  index on tenant, principal, phase and retry key.
\<close>

definition event_conflicts :: "audit_row \<Rightarrow> audit_row list \<Rightarrow> bool" where
  "event_conflicts r rows =
     list_ex (\<lambda>x. (ev_tenant_id x = ev_tenant_id r \<and> ev_sequence x = ev_sequence r)
       \<or> ev_event_id x = ev_event_id r
       \<or> (ev_idempotency_key r \<noteq> None \<and> ev_tenant_id x = ev_tenant_id r
          \<and> ev_principal_id x = ev_principal_id r \<and> ev_phase x = ev_phase r
          \<and> ev_idempotency_key x = ev_idempotency_key r)) rows"

text \<open>A sequence that does not fit SQLite's signed 64-bit integer is refused when it is bound.\<close>

definition insert_event :: "audit_row \<Rightarrow> audit_row list \<Rightarrow> audit_error + audit_row list" where
  "insert_event r rows =
     (if 2 ^ 63 \<le> ev_sequence r then Inl (Storage ''sequence out of range'')
      else if event_conflicts r rows then Inl (Storage ''UNIQUE constraint failed: audit_events'')
      else Inr (rows @ [r]))"

definition append_fresh ::
    "audit_lib \<Rightarrow> tick \<Rightarrow> audit_event_input \<Rightarrow> string \<Rightarrow> string \<Rightarrow> audit_row list \<Rightarrow>
     audit_error + audit_row list \<times> audit_record" where
  "append_fresh L tk input request_hash payload_json rows =
     (case load_next_head (in_tenant_id input) rows of (sequence, previous_hash) \<Rightarrow>
      case unix_timestamp_ms (tk_now tk) of Inl e \<Rightarrow> Inl e | Inr created_at_ms \<Rightarrow>
      case insert_event (new_row L input request_hash payload_json sequence previous_hash
             (tk_event_id tk) created_at_ms) rows of Inl e \<Rightarrow> Inl e | Inr rows' \<Rightarrow>
      case load_record L (in_tenant_id input) sequence rows' of
        Inl e \<Rightarrow> Inl e
      | Inr None \<Rightarrow> Inl (InvalidInput ''appended row could not be loaded'')
      | Inr (Some rec) \<Rightarrow> Inr (rows', rec))"

definition append_in_transaction ::
    "audit_lib \<Rightarrow> tick \<Rightarrow> audit_event_input \<Rightarrow> string \<Rightarrow> string \<Rightarrow> audit_row list \<Rightarrow>
     audit_error + audit_row list \<times> audit_record" where
  "append_in_transaction L tk input request_hash payload_json rows =
     (case in_idempotency_key input of
        None \<Rightarrow> append_fresh L tk input request_hash payload_json rows
      | Some key \<Rightarrow>
          (case load_by_idempotency L (in_tenant_id input) (in_principal_id input) (in_phase input)
                  key rows of
             Inl e \<Rightarrow> Inl e
           | Inr None \<Rightarrow> append_fresh L tk input request_hash payload_json rows
           | Inr (Some existing) \<Rightarrow>
               (case ensure_idempotent_match L existing input request_hash payload_json of
                  Inl e \<Rightarrow> Inl e
                | Inr _ \<Rightarrow> Inr (rows, existing))))"


section \<open>Rows that decode, and their hash\<close>

text \<open>
  What the code relies on from \<open>serde_json\<close> for a payload it stores: the printed canonical text
  parses, to a value with the same canonical text.
\<close>

definition payload_ok :: "audit_lib \<Rightarrow> json \<Rightarrow> bool" where
  "payload_ok L p \<longleftrightarrow> (\<exists>q. value_parse (al_serde L) (canonical_json_string (al_serde L) p) = Some q \<and>
     canonical_json_string (al_serde L) q = canonical_json_string (al_serde L) p)"

definition row_hash :: "audit_lib \<Rightarrow> audit_row \<Rightarrow> string" where
  "row_hash L r = hex_digest (al_sha256 L (AUDIT_HASH_DOMAIN @ field_list (event_hash_fields
     (ev_tenant_id r) (ev_sequence r) (ev_event_id r) (ev_principal_id r) (ev_action r) (ev_phase r)
     (ev_request_hash r) (ev_payload_json r) (ev_previous_hash r) (ev_created_at_ms r)
     (ev_idempotency_key r))))"

definition row_ok :: "audit_lib \<Rightarrow> audit_row \<Rightarrow> bool" where
  "row_ok L r \<longleftrightarrow> (\<exists>ph. ev_phase r = phase_name ph) \<and>
     (\<exists>q. value_parse (al_serde L) (ev_payload_json r) = Some q \<and>
        canonical_json_string (al_serde L) q = ev_payload_json r) \<and>
     (\<forall>t. ev_witness_receipt_json r = Some t \<longrightarrow> al_receipt_parse L t \<noteq> None) \<and>
     ev_event_hash r = row_hash L r"

lemma parse_phase_name [simp]: "parse_phase (phase_name ph) = Inr ph"
  by (cases ph) (simp_all add: parse_phase_def)

lemma phase_name_inject [simp]: "(phase_name x = phase_name y) = (x = y)"
  by (cases x; cases y; simp)

text \<open>The decoded record carries the columns of its row.\<close>

definition matches_row :: "audit_lib \<Rightarrow> audit_row \<Rightarrow> audit_record \<Rightarrow> bool" where
  "matches_row L r rec \<longleftrightarrow> rec_tenant_id rec = ev_tenant_id r \<and> rec_sequence rec = ev_sequence r \<and>
     rec_event_id rec = ev_event_id r \<and> rec_principal_id rec = ev_principal_id r \<and>
     rec_action rec = ev_action r \<and> phase_name (rec_phase rec) = ev_phase r \<and>
     rec_request_hash rec = ev_request_hash r \<and>
     value_parse (al_serde L) (ev_payload_json r) = Some (rec_payload rec) \<and>
     rec_previous_hash rec = ev_previous_hash r \<and> rec_event_hash rec = ev_event_hash r \<and>
     rec_created_at_ms rec = ev_created_at_ms r \<and> rec_idempotency_key rec = ev_idempotency_key r \<and>
     (case ev_witness_receipt_json r of None \<Rightarrow> rec_witness_receipt rec = None
      | Some t \<Rightarrow> rec_witness_receipt rec = al_receipt_parse L t \<and> rec_witness_receipt rec \<noteq> None)"

lemma record_from_row_matches: "record_from_row L r = Inr rec \<Longrightarrow> matches_row L r rec"
proof -
  have ph: "phase_name ph = v" if "parse_phase v = Inr ph" for v ph
    using that by (auto simp: parse_phase_def split: if_splits)
  assume "record_from_row L r = Inr rec"
  then show "matches_row L r rec"
    by (auto simp: record_from_row_def matches_row_def Let_def ph split: sum.splits option.splits)
qed

lemma record_from_row_ok: "row_ok L r \<Longrightarrow> \<exists>rec. record_from_row L r = Inr rec"
  by (auto simp: row_ok_def record_from_row_def Let_def split: option.splits)

lemma record_hash_row:
  "row_ok L r \<Longrightarrow> matches_row L r rec \<Longrightarrow> record_hash L rec = row_hash L r"
  by (auto simp: row_ok_def matches_row_def record_hash_def row_hash_def compute_event_hash_def)


section \<open>The chain invariant\<close>

fun chained :: "string \<Rightarrow> audit_row list \<Rightarrow> bool" where
  "chained prev [] = True"
| "chained prev (r # rs) = (ev_previous_hash r = prev \<and> chained (ev_event_hash r) rs)"

lemma chained_append:
  "chained prev (xs @ [r]) =
   (chained prev xs \<and> ev_previous_hash r = (if xs = [] then prev else ev_event_hash (last xs)))"
  by (induction xs arbitrary: prev) auto

definition chain_ok :: "audit_row list \<Rightarrow> bool" where
  "chain_ok rs \<longleftrightarrow> map ev_sequence rs = [1..<Suc (length rs)] \<and> chained GENESIS_HASH rs"

definition idem_key :: "audit_row \<Rightarrow> string \<times> string \<times> string \<times> string option" where
  "idem_key r = (ev_tenant_id r, ev_principal_id r, ev_phase r, ev_idempotency_key r)"

definition events_ok :: "audit_lib \<Rightarrow> audit_row list \<Rightarrow> bool" where
  "events_ok L rows \<longleftrightarrow> list_all (row_ok L) rows \<and> (\<forall>t. chain_ok (tenant_rows t rows)) \<and>
     distinct (map ev_event_id rows) \<and>
     distinct (map idem_key (filter (\<lambda>r. ev_idempotency_key r \<noteq> None) rows))"

lemma events_ok_Nil [simp]: "events_ok L []"
  by (simp add: events_ok_def chain_ok_def tenant_rows_def)

lemma tenant_rows_append [simp]: "tenant_rows t (xs @ ys) = tenant_rows t xs @ tenant_rows t ys"
  by (simp add: tenant_rows_def)

lemma set_tenant_rows [simp]: "set (tenant_rows t rows) = {r \<in> set rows. ev_tenant_id r = t}"
  by (auto simp: tenant_rows_def)

lemma chain_sorted: "chain_ok rs \<Longrightarrow> sort_key ev_sequence rs = rs"
  by (simp add: chain_ok_def sort_key_id_if_sorted del: upt_Suc)

lemma head_row_last:
  "chain_ok (tenant_rows t rows) \<Longrightarrow>
   head_row t rows = (if tenant_rows t rows = [] then None else Some (last (tenant_rows t rows)))"
  by (auto simp: head_row_def chain_sorted split: list.split)

lemma chain_last_sequence: "chain_ok rs \<Longrightarrow> rs \<noteq> [] \<Longrightarrow> ev_sequence (last rs) = length rs"
proof -
  assume "chain_ok rs" "rs \<noteq> []"
  then have "map ev_sequence rs ! (length rs - 1) = [1..<Suc (length rs)] ! (length rs - 1)"
    by (simp add: chain_ok_def)
  with \<open>rs \<noteq> []\<close> show "ev_sequence (last rs) = length rs"
    by (simp add: last_conv_nth nth_upt del: upt_Suc)
qed

definition tip_hash :: "string \<Rightarrow> audit_row list \<Rightarrow> string" where
  "tip_hash t rows = (if tenant_rows t rows = [] then GENESIS_HASH
     else ev_event_hash (last (tenant_rows t rows)))"

lemma load_next_head_eq:
  "chain_ok (tenant_rows t rows) \<Longrightarrow>
   load_next_head t rows = (Suc (length (tenant_rows t rows)), tip_hash t rows)"
  by (simp add: load_next_head_def head_row_last chain_last_sequence tip_hash_def)

lemma sequence_distinct:
  "chain_ok rs \<Longrightarrow> distinct (map ev_sequence rs)"
  by (simp add: chain_ok_def del: upt_Suc)

lemma chain_sequence_le: "chain_ok rs \<Longrightarrow> r \<in> set rs \<Longrightarrow> ev_sequence r \<le> length rs"
proof -
  assume "chain_ok rs" "r \<in> set rs"
  then have "ev_sequence r \<in> set [1..<Suc (length rs)]"
    unfolding chain_ok_def by (metis image_eqI list.set_map)
  then show "ev_sequence r \<le> length rs" by auto
qed


section \<open>Append keeps the chain\<close>

lemma new_row_sel [simp]:
  "ev_tenant_id (new_row L i h pj n p e c) = in_tenant_id i"
  "ev_sequence (new_row L i h pj n p e c) = n" "ev_event_id (new_row L i h pj n p e c) = e"
  "ev_principal_id (new_row L i h pj n p e c) = in_principal_id i"
  "ev_action (new_row L i h pj n p e c) = in_action i"
  "ev_phase (new_row L i h pj n p e c) = phase_name (in_phase i)"
  "ev_request_hash (new_row L i h pj n p e c) = h" "ev_payload_json (new_row L i h pj n p e c) = pj"
  "ev_previous_hash (new_row L i h pj n p e c) = p"
  "ev_created_at_ms (new_row L i h pj n p e c) = c"
  "ev_idempotency_key (new_row L i h pj n p e c) = in_idempotency_key i"
  "ev_witness_receipt_json (new_row L i h pj n p e c) = None"
  by (simp_all add: new_row_def)

lemma new_row_hash [simp]:
  "ev_event_hash (new_row L i h pj n p e c) = row_hash L (new_row L i h pj n p e c)"
  by (simp add: new_row_def row_hash_def compute_event_hash_def)

definition next_row :: "audit_lib \<Rightarrow> tick \<Rightarrow> audit_event_input \<Rightarrow> audit_row list \<Rightarrow> audit_row" where
  "next_row L tk i rows = new_row L i (hash_canonical_json (al_sha256 L) (al_serde L) (in_request i))
     (canonical_json_string (al_serde L) (in_payload i))
     (Suc (length (tenant_rows (in_tenant_id i) rows))) (tip_hash (in_tenant_id i) rows)
     (tk_event_id tk) (tk_now tk)"

abbreviation request_hash_of :: "audit_lib \<Rightarrow> audit_event_input \<Rightarrow> string" where
  "request_hash_of L i \<equiv> hash_canonical_json (al_sha256 L) (al_serde L) (in_request i)"

abbreviation payload_text :: "audit_lib \<Rightarrow> audit_event_input \<Rightarrow> string" where
  "payload_text L i \<equiv> canonical_json_string (al_serde L) (in_payload i)"

lemma next_row_ok: "payload_ok L (in_payload i) \<Longrightarrow> row_ok L (next_row L tk i rows)"
  by (auto simp: row_ok_def payload_ok_def next_row_def)

lemma chain_ok_next:
  assumes "chain_ok (tenant_rows t rows)"
  shows "chain_ok (tenant_rows t (rows @ [next_row L tk i rows]))"
  using assms
  by (auto simp: chain_ok_def chained_append next_row_def tenant_rows_def tip_hash_def)

lemma events_ok_append:
  assumes "events_ok L rows" "row_ok L (next_row L tk i rows)"
    "\<not> event_conflicts (next_row L tk i rows) rows"
  shows "events_ok L (rows @ [next_row L tk i rows])"
proof -
  let ?r = "next_row L tk i rows"
  have "ev_event_id ?r \<notin> ev_event_id ` set rows"
    using assms(3) by (auto simp: event_conflicts_def list_ex_iff)
  moreover have "idem_key ?r \<notin> idem_key ` set (filter (\<lambda>r. ev_idempotency_key r \<noteq> None) rows)"
    if "ev_idempotency_key ?r \<noteq> None"
    using assms(3) that by (auto simp: event_conflicts_def list_ex_iff idem_key_def)
  ultimately show ?thesis
    using assms(1,2) chain_ok_next by (auto simp: events_ok_def)
qed

lemma append_fresh_cases:
  assumes ok: "events_ok L rows" and p: "payload_ok L (in_payload i)"
  shows "append_fresh L tk i (request_hash_of L i) (payload_text L i) rows =
    (let r = next_row L tk i rows in
     if \<not> is_ok (unix_timestamp_ms (tk_now tk)) then Inl (projl (unix_timestamp_ms (tk_now tk)))
     else if 2 ^ 63 \<le> ev_sequence r then Inl (Storage ''sequence out of range'')
     else if event_conflicts r rows then Inl (Storage ''UNIQUE constraint failed: audit_events'')
     else Inr (rows @ [r], projr (record_from_row L r)))"
proof -
  let ?r = "next_row L tk i rows" and ?t = "in_tenant_id i"
  have ch: "chain_ok (tenant_rows ?t rows)" using ok by (simp add: events_ok_def)
  have "find (\<lambda>r. ev_tenant_id r = ?t \<and> ev_sequence r = Suc (length (tenant_rows ?t rows))) rows = None"
  proof -
    have "ev_sequence r \<le> length (tenant_rows ?t rows)" if "r \<in> set rows" "ev_tenant_id r = ?t" for r
      using chain_sequence_le [OF ch, of r] that by simp
    then show ?thesis by (fastforce simp: find_None)
  qed
  then have found: "find (\<lambda>r. ev_tenant_id r = ?t \<and> ev_sequence r = Suc (length (tenant_rows ?t rows)))
      (rows @ [?r]) = Some ?r"
    by (simp add: find_append next_row_def)
  obtain rec where rec: "record_from_row L ?r = Inr rec"
    using record_from_row_ok next_row_ok [OF p] by blast
  show ?thesis
    using found rec
    by (auto simp: append_fresh_def load_next_head_eq [OF ch] insert_event_def load_record_def
        query_record_def Let_def next_row_def unix_timestamp_ms_def split: sum.splits)
qed

text \<open>The rows after a successful append: one more valid row, or none for a repeated event.\<close>

lemma append_in_transaction_cases:
  assumes ok: "events_ok L rows" and p: "payload_ok L (in_payload i)"
    and res: "append_in_transaction L tk i (request_hash_of L i) (payload_text L i) rows = Inr (rows', rec)"
  shows "(rows' = rows @ [next_row L tk i rows] \<and> events_ok L rows' \<and>
       record_from_row L (next_row L tk i rows) = Inr rec \<and>
       (\<forall>key. in_idempotency_key i = Some key \<longrightarrow>
         find (\<lambda>r. ev_tenant_id r = in_tenant_id i \<and> ev_principal_id r = in_principal_id i
           \<and> ev_phase r = phase_name (in_phase i) \<and> ev_idempotency_key r = Some key) rows = None)) \<or>
    (rows' = rows \<and> (\<exists>r \<in> set rows. record_from_row L r = Inr rec \<and> in_idempotency_key i \<noteq> None \<and>
       idem_key r = (in_tenant_id i, in_principal_id i, phase_name (in_phase i), in_idempotency_key i) \<and>
       ev_action r = in_action i \<and> ev_request_hash r = request_hash_of L i \<and>
       ev_payload_json r = payload_text L i))"
proof -
  let ?P = "\<lambda>key r. ev_tenant_id r = in_tenant_id i \<and> ev_principal_id r = in_principal_id i
    \<and> ev_phase r = phase_name (in_phase i) \<and> ev_idempotency_key r = Some key"
  obtain new where new: "record_from_row L (next_row L tk i rows) = Inr new"
    using record_from_row_ok [OF next_row_ok [OF p]] by blast
  have fresh: "rows' = rows @ [next_row L tk i rows] \<and> events_ok L rows' \<and>
      record_from_row L (next_row L tk i rows) = Inr rec"
    if "append_fresh L tk i (request_hash_of L i) (payload_text L i) rows = Inr (rows', rec)"
    using that new events_ok_append [OF ok next_row_ok [OF p]]
    by (auto simp: append_fresh_cases [OF ok p] Let_def split: if_splits)
  show ?thesis
  proof (cases "in_idempotency_key i")
    case None
    then show ?thesis using fresh res by (auto simp: append_in_transaction_def)
  next
    case (Some key)
    show ?thesis
    proof (cases "find (?P key) rows")
      case None
      then show ?thesis
        using fresh res Some
        by (auto simp: append_in_transaction_def load_by_idempotency_def query_record_def)
    next
      case found: (Some r)
      then have r: "r \<in> set rows" "?P key r" using find_SomeD by fastforce+
      then have "row_ok L r" using ok by (simp add: events_ok_def list_all_iff)
      then obtain old where old: "record_from_row L r = Inr old" using record_from_row_ok by blast
      have "rows' = rows \<and> rec = old \<and> ensure_idempotent_match L old i (request_hash_of L i) (payload_text L i) = Inr ()"
        using res Some found old
        by (auto simp: append_in_transaction_def load_by_idempotency_def query_record_def split: sum.splits)
      then show ?thesis
        using old r Some record_from_row_matches [OF old] \<open>row_ok L r\<close>
        by (auto simp: ensure_idempotent_match_def matches_row_def row_ok_def idem_key_def split: if_splits)
    qed
  qed
qed


section \<open>Verification accepts exactly the intact chains\<close>

lemma collect_records_ok:
  "list_all (row_ok L) rs \<Longrightarrow> \<exists>recs. collect_records L rs = Inr recs \<and> list_all2 (matches_row L) rs recs"
proof (induction rs)
  case (Cons r rs)
  then obtain recs where "collect_records L rs = Inr recs" "list_all2 (matches_row L) rs recs" by auto
  moreover obtain rec where "record_from_row L r = Inr rec" "matches_row L r rec"
    using Cons.prems record_from_row_ok record_from_row_matches by fastforce
  ultimately show ?case by auto
qed simp

lemma verify_loop_ok:
  "list_all2 (matches_row L) rs recs \<Longrightarrow> list_all (row_ok L) rs \<Longrightarrow> chained p rs \<Longrightarrow>
   map ev_sequence rs = [n..<n + length rs] \<Longrightarrow> verify_loop L n p recs = Inr ()"
proof (induction arbitrary: n p rule: list_all2_induct)
  case (Cons r rs rec recs)
  have n: "ev_sequence r = n" "map ev_sequence rs = [Suc n..<Suc n + length rs]"
    using Cons.prems(3) by (auto simp: upt_conv_Cons simp del: upt_Suc)
  have "record_hash L rec = ev_event_hash r"
    using record_hash_row [of L r rec] Cons.prems(1) Cons.hyps(1) by (simp add: row_ok_def)
  then show ?case
    using Cons.IH [of "ev_event_hash r" "Suc n"] Cons.prems Cons.hyps(1) n
    by (simp add: matches_row_def)
qed simp

lemma verify_tenant_complete:
  assumes "events_ok L rows"
  shows "verify_tenant_in L t rows = Inr (length (tenant_rows t rows))"
proof -
  let ?rs = "tenant_rows t rows"
  have ch: "chain_ok ?rs" and ok: "list_all (row_ok L) ?rs"
    using assms by (auto simp: events_ok_def list_all_iff)
  obtain recs where recs: "collect_records L ?rs = Inr recs" "list_all2 (matches_row L) ?rs recs"
    using collect_records_ok [OF ok] by blast
  have "verify_loop L 1 GENESIS_HASH recs = Inr ()"
    using verify_loop_ok [OF recs(2) ok, of GENESIS_HASH 1] ch by (simp add: chain_ok_def)
  then show ?thesis
    using recs list_all2_lengthD [OF recs(2)] by (simp add: verify_tenant_in_def chain_sorted [OF ch])
qed

text \<open>What the verified records satisfy.\<close>

fun chain_records :: "audit_lib \<Rightarrow> nat \<Rightarrow> string \<Rightarrow> audit_record list \<Rightarrow> bool" where
  "chain_records L n p [] = True"
| "chain_records L n p (x # xs) = (rec_sequence x = n \<and> rec_previous_hash x = p \<and>
     rec_event_hash x = record_hash L x \<and> chain_records L (Suc n) (rec_event_hash x) xs)"

lemma verify_loop_chain: "(verify_loop L n p recs = Inr ()) = chain_records L n p recs"
  by (induction recs arbitrary: n p) auto

lemma chain_records_append:
  "chain_records L n p (xs @ [x]) = (chain_records L n p xs \<and> rec_sequence x = n + length xs \<and>
     rec_previous_hash x = (if xs = [] then p else rec_event_hash (last xs)) \<and>
     rec_event_hash x = record_hash L x)"
  by (induction xs arbitrary: n p) auto

text \<open>The content that the hash of a record covers.\<close>

record record_core =
  co_tenant_id :: string
  co_sequence :: nat
  co_event_id :: string
  co_principal_id :: string
  co_action :: string
  co_phase :: audit_phase
  co_request_hash :: string
  co_payload :: string
  co_previous_hash :: string
  co_created_at_ms :: int
  co_idempotency_key :: string

definition core_of :: "audit_lib \<Rightarrow> audit_record \<Rightarrow> record_core" where
  "core_of L x = \<lparr> co_tenant_id = rec_tenant_id x, co_sequence = rec_sequence x,
     co_event_id = rec_event_id x, co_principal_id = rec_principal_id x, co_action = rec_action x,
     co_phase = rec_phase x, co_request_hash = rec_request_hash x,
     co_payload = canonical_json_string (al_serde L) (rec_payload x),
     co_previous_hash = rec_previous_hash x, co_created_at_ms = rec_created_at_ms x,
     co_idempotency_key = (case rec_idempotency_key x of None \<Rightarrow> [] | Some k \<Rightarrow> k) \<rparr>"

text \<open>What the Rust types guarantee of a record: 64-bit integers, and strings that fit in memory.\<close>

definition record_typed :: "audit_lib \<Rightarrow> audit_record \<Rightarrow> bool" where
  "record_typed L x \<longleftrightarrow> rec_sequence x < 2 ^ 64 \<and> i64_range (rec_created_at_ms x) \<and>
     list_all short [rec_tenant_id x, rec_event_id x, rec_principal_id x, rec_action x,
       rec_request_hash x, canonical_json_string (al_serde L) (rec_payload x), rec_previous_hash x,
       (case rec_idempotency_key x of None \<Rightarrow> [] | Some k \<Rightarrow> k)]"

text \<open>Two records of the two histories whose hashed bytes differ but have the same digest.\<close>

definition hash_input :: "audit_lib \<Rightarrow> audit_record \<Rightarrow> bytes" where
  "hash_input L x = AUDIT_HASH_DOMAIN @ field_list (event_hash_fields (rec_tenant_id x) (rec_sequence x)
     (rec_event_id x) (rec_principal_id x) (rec_action x) (phase_name (rec_phase x))
     (rec_request_hash x) (canonical_json_string (al_serde L) (rec_payload x)) (rec_previous_hash x)
     (rec_created_at_ms x) (rec_idempotency_key x))"

definition sha_collision :: "audit_lib \<Rightarrow> audit_record list \<Rightarrow> audit_record list \<Rightarrow> bool" where
  "sha_collision L xs ys \<longleftrightarrow> (\<exists>x \<in> set xs. \<exists>y \<in> set ys.
     hash_input L x \<noteq> hash_input L y \<and> al_sha256 L (hash_input L x) = al_sha256 L (hash_input L y))"

lemma short_phase [simp]: "short (phase_name ph)"
  by (cases ph) (simp_all add: short_def)

lemma hash_input_inject:
  assumes "record_typed L x" "record_typed L y" "hash_input L x = hash_input L y"
  shows "core_of L x = core_of L y"
proof -
  let ?f = "\<lambda>x. event_hash_fields (rec_tenant_id x) (rec_sequence x) (rec_event_id x) (rec_principal_id x)
    (rec_action x) (phase_name (rec_phase x)) (rec_request_hash x)
    (canonical_json_string (al_serde L) (rec_payload x)) (rec_previous_hash x) (rec_created_at_ms x)
    (rec_idempotency_key x)"
  have "list_all short (?f x)" "list_all short (?f y)"
    using assms(1,2) by (simp_all add: record_typed_def event_hash_fields_def)
  then have "?f x = ?f y"
    using assms(3) by (intro field_list_inject) (simp_all add: hash_input_def event_hash_fields_def)
  then show ?thesis
    using assms(1,2)
    by (simp add: core_of_def event_hash_fields_def record_typed_def be64_inject be_i64_inject)
qed

lemma record_hash_input: "record_hash L x = hex_digest (al_sha256 L (hash_input L x))"
  by (simp add: record_hash_def compute_event_hash_def hash_input_def)

lemma chain_records_determined:
  assumes "chain_records L 1 GENESIS_HASH xs" "chain_records L 1 GENESIS_HASH ys"
    and "xs \<noteq> []" "ys \<noteq> []" "rec_event_hash (last xs) = rec_event_hash (last ys)"
    and "list_all (record_typed L) xs" "list_all (record_typed L) ys" "\<not> sha_collision L xs ys"
  shows "map (core_of L) xs = map (core_of L) ys"
  using assms
proof (induction xs arbitrary: ys rule: rev_induct)
  case (snoc x xs)
  from \<open>ys \<noteq> []\<close> obtain zs y where ys: "ys = zs @ [y]" by (metis rev_exhaust)
  have "record_hash L x = record_hash L y"
    using snoc.prems ys by (simp add: chain_records_append)
  then have "al_sha256 L (hash_input L x) = al_sha256 L (hash_input L y)"
    using hex_digest_inject by (simp add: record_hash_input)
  then have "hash_input L x = hash_input L y"
    using snoc.prems(8) ys by (auto simp: sha_collision_def)
  then have core: "core_of L x = core_of L y"
    using snoc.prems ys by (intro hash_input_inject) auto
  then have len: "length xs = length zs" and prev: "rec_previous_hash x = rec_previous_hash y"
    using snoc.prems ys by (auto simp: chain_records_append core_of_def)
  show ?case
  proof (cases "xs = []")
    case True
    then show ?thesis using len ys core by simp
  next
    case False
    then have "zs \<noteq> []" using len by auto
    moreover have "rec_event_hash (last xs) = rec_event_hash (last zs)"
      using snoc.prems ys prev False calculation by (simp add: chain_records_append)
    ultimately have "map (core_of L) xs = map (core_of L) zs"
      using snoc.prems ys False
      by (intro snoc.IH) (auto simp: chain_records_append sha_collision_def)
    then show ?thesis using ys core by simp
  qed
qed simp

text \<open>The decoded records of a tenant, in sequence order.\<close>

definition tenant_records :: "audit_lib \<Rightarrow> string \<Rightarrow> audit_row list \<Rightarrow> audit_record list" where
  "tenant_records L t rows =
     (case collect_records L (sort_key ev_sequence (tenant_rows t rows)) of Inl _ \<Rightarrow> [] | Inr recs \<Rightarrow> recs)"

lemma verify_tenant_sound:
  "verify_tenant_in L t rows = Inr n \<Longrightarrow>
   chain_records L 1 GENESIS_HASH (tenant_records L t rows) \<and> n = length (tenant_records L t rows)"
  by (auto simp: verify_tenant_in_def tenant_records_def verify_loop_chain [symmetric] split: sum.splits)

text \<open>
  Property C32. Tamper evidence: if two databases both pass verification for a tenant and show the
  same head hash, then they hold the same history, record by record, in every hashed field, unless
  two of their own records are a SHA-256 collision. A head hash kept by an independent witness therefore
  pins the whole stream: no row can be altered, inserted, dropped or reordered unnoticed.
\<close>

theorem audit_tamper_evident:
  assumes "verify_tenant_in L t rows = Inr n" and "verify_tenant_in L t rows' = Inr n'"
    and "0 < n" and "0 < n'"
    and "rec_event_hash (last (tenant_records L t rows)) = rec_event_hash (last (tenant_records L t rows'))"
    and "list_all (record_typed L) (tenant_records L t rows @ tenant_records L t rows')"
  shows "map (core_of L) (tenant_records L t rows) = map (core_of L) (tenant_records L t rows')
    \<or> sha_collision L (tenant_records L t rows) (tenant_records L t rows')"
  using assms chain_records_determined [of L "tenant_records L t rows" "tenant_records L t rows'"]
    verify_tenant_sound [OF assms(1)] verify_tenant_sound [OF assms(2)]
  by auto

definition checkpoint_typed :: "witness_checkpoint \<Rightarrow> bool" where
  "checkpoint_typed c \<longleftrightarrow> cp_sequence c < 2 ^ 64 \<and> list_all short [cp_tenant_id c, cp_event_id c,
     cp_previous_hash c, cp_event_hash c, cp_origin_key_id c]"

definition receipt_typed :: "witness_receipt \<Rightarrow> bool" where
  "receipt_typed r \<longleftrightarrow> rc_sequence r < 2 ^ 64 \<and> i64_range (rc_witnessed_at_ms r) \<and>
     list_all short [rc_tenant_id r, rc_event_hash r, rc_witness_key_id r]"

lemma checkpoint_bytes_inject:
  assumes "checkpoint_typed c" "checkpoint_typed d"
    and "checkpoint_signing_bytes c = checkpoint_signing_bytes d"
  shows "c \<lparr> cp_origin_signature_b64 := x \<rparr> = d \<lparr> cp_origin_signature_b64 := x \<rparr>"
proof -
  let ?f = "\<lambda>c. [cp_tenant_id c, be64 (cp_sequence c), cp_event_id c, cp_previous_hash c,
    cp_event_hash c, cp_origin_key_id c]"
  have "?f c = ?f d"
    using assms by (intro field_list_inject) (simp_all add: checkpoint_typed_def checkpoint_signing_bytes_def)
  then show ?thesis using assms(1,2) by (simp add: checkpoint_typed_def be64_inject)
qed

lemma receipt_bytes_inject:
  assumes "receipt_typed c" "receipt_typed d" and "receipt_signing_bytes c = receipt_signing_bytes d"
  shows "c \<lparr> rc_signature_b64 := x \<rparr> = d \<lparr> rc_signature_b64 := x \<rparr>"
proof -
  let ?f = "\<lambda>r. [rc_tenant_id r, be64 (rc_sequence r), rc_event_hash r, rc_witness_key_id r,
    be_i64 (rc_witnessed_at_ms r)]"
  have "?f c = ?f d"
    using assms by (intro field_list_inject) (simp_all add: receipt_typed_def receipt_signing_bytes_def)
  then show ?thesis using assms(1,2) by (simp add: receipt_typed_def be64_inject be_i64_inject)
qed

lemma signing_domains_differ: "checkpoint_signing_bytes c \<noteq> receipt_signing_bytes r"
  by (simp add: checkpoint_signing_bytes_def receipt_signing_bytes_def CHECKPOINT_SIGNATURE_DOMAIN_def
      RECEIPT_SIGNATURE_DOMAIN_def)

text \<open>
  The checkpoint and receipt signatures are unambiguous: two well-typed checkpoints
  (receipts) with the same signed bytes agree in every field except the signature itself, and no
  checkpoint has the same signed bytes as a receipt.
\<close>

theorem signing_bytes_unambiguous:
  assumes "checkpoint_typed c" and "checkpoint_typed d" and "receipt_typed r" and "receipt_typed q"
  shows "(checkpoint_signing_bytes c = checkpoint_signing_bytes d \<longleftrightarrow>
      c \<lparr> cp_origin_signature_b64 := [] \<rparr> = d \<lparr> cp_origin_signature_b64 := [] \<rparr>) \<and>
    (receipt_signing_bytes r = receipt_signing_bytes q \<longleftrightarrow>
      r \<lparr> rc_signature_b64 := [] \<rparr> = q \<lparr> rc_signature_b64 := [] \<rparr>) \<and>
    checkpoint_signing_bytes c \<noteq> receipt_signing_bytes r"
proof -
  have "checkpoint_signing_bytes (c \<lparr> cp_origin_signature_b64 := [] \<rparr>) = checkpoint_signing_bytes c"
    "receipt_signing_bytes (r \<lparr> rc_signature_b64 := [] \<rparr>) = receipt_signing_bytes r" for c r
    by (simp_all add: checkpoint_signing_bytes_def receipt_signing_bytes_def)
  then show ?thesis
    using assms checkpoint_bytes_inject receipt_bytes_inject signing_domains_differ by metis
qed

theorem signing_bytes_unambiguous_witness:
  "let c = \<lparr> cp_tenant_id = ''t'', cp_sequence = 1, cp_event_id = ''e'', cp_previous_hash = ''p'',
        cp_event_hash = ''h'', cp_origin_key_id = ''k'', cp_origin_signature_b64 = ''s'' \<rparr>;
       r = \<lparr> rc_tenant_id = ''t'', rc_sequence = 1, rc_event_hash = ''h'', rc_witness_key_id = ''w'',
        rc_witnessed_at_ms = 5, rc_signature_b64 = ''s'' \<rparr>
   in checkpoint_signing_bytes c \<noteq> checkpoint_signing_bytes (c \<lparr> cp_sequence := 2 \<rparr>) \<and>
      receipt_signing_bytes r \<noteq> receipt_signing_bytes (r \<lparr> rc_event_hash := ''g'' \<rparr>) \<and>
      checkpoint_signing_bytes c \<noteq> receipt_signing_bytes r"
proof -
  let ?c = "\<lparr> cp_tenant_id = ''t'', cp_sequence = 1, cp_event_id = ''e'', cp_previous_hash = ''p'',
      cp_event_hash = ''h'', cp_origin_key_id = ''k'', cp_origin_signature_b64 = ''s'' \<rparr>"
  let ?r = "\<lparr> rc_tenant_id = ''t'', rc_sequence = 1, rc_event_hash = ''h'', rc_witness_key_id = ''w'',
      rc_witnessed_at_ms = 5, rc_signature_b64 = ''s'' \<rparr>"
  have "checkpoint_typed ?c" "checkpoint_typed (?c \<lparr> cp_sequence := 2 \<rparr>)" "receipt_typed ?r"
    "receipt_typed (?r \<lparr> rc_event_hash := ''g'' \<rparr>)"
    by (simp_all add: checkpoint_typed_def receipt_typed_def short_def i64_range_def)
  from signing_bytes_unambiguous [OF this] show ?thesis by (simp add: Let_def)
qed


section \<open>A concrete chain\<close>

definition sample_event :: audit_event_input where
  "sample_event = \<lparr> in_tenant_id = ''t'', in_principal_id = ''p'', in_action = ''tool.invoke'',
     in_phase = Intent, in_request = JNull, in_payload = JObject [], in_idempotency_key = Some ''k'' \<rparr>"

definition sample_tick :: tick where
  "sample_tick = \<lparr> tk_event_id = ''e1'', tk_now = 1000, tk_later = 1001 \<rparr>"

text \<open>Receipts are read back as one fixed receipt, which fits the first event of the sample chain.\<close>

definition receipt_lib :: "witness_receipt \<Rightarrow> audit_lib" where
  "receipt_lib r = \<lparr> al_serde = sample_serde (\<lambda>_. Some (JObject [])), al_sha256 = (\<lambda>x. x),
     al_receipt_text = (\<lambda>_. ''receipt''), al_receipt_parse = (\<lambda>_. Some r) \<rparr>"

definition empty_receipt :: witness_receipt where
  "empty_receipt = \<lparr> rc_tenant_id = [], rc_sequence = 0, rc_event_hash = [], rc_witness_key_id = [],
     rc_witnessed_at_ms = 0, rc_signature_b64 = [] \<rparr>"

definition sample_ed25519 :: ed25519 where
  "sample_ed25519 = \<lparr> ed_sign = (\<lambda>k m. k @ m), ed_public = (\<lambda>k. k), ed_signature = Some,
     ed_verify = (\<lambda>k m s. s = k @ m), b64_encode = (\<lambda>x. x), b64_decode = Some \<rparr>"

definition sample_receipt :: witness_receipt where
  "sample_receipt = sign_witness_receipt sample_ed25519 ''t'' 1
     (ev_event_hash (next_row (receipt_lib empty_receipt) sample_tick sample_event [])) ''w'' 5 ''key''"

definition sample_audit_lib :: audit_lib where
  "sample_audit_lib = receipt_lib sample_receipt"

text \<open>
  What the code relies on from \<open>ed25519_dalek\<close> and \<open>base64\<close>: an encoded signature is read back, and a
  signature verifies under the public key of the key that made it.
\<close>

definition ed25519_ok :: "ed25519 \<Rightarrow> bool" where
  "ed25519_ok E \<longleftrightarrow> (\<forall>x. b64_decode E (b64_encode E x) = Some x) \<and>
     (\<forall>k m. ed_signature E (ed_sign E k m) = Some (ed_sign E k m) \<and>
        ed_verify E (ed_public E k) m (ed_sign E k m))"

lemma sample_ed25519_ok: "ed25519_ok sample_ed25519"
  by (simp add: ed25519_ok_def sample_ed25519_def)

lemma sign_witness_receipt_sel [simp]:
  "rc_tenant_id (sign_witness_receipt E t n h kid ts k) = t"
  "rc_sequence (sign_witness_receipt E t n h kid ts k) = n"
  "rc_event_hash (sign_witness_receipt E t n h kid ts k) = h"
  "rc_witness_key_id (sign_witness_receipt E t n h kid ts k) = kid"
  by (simp_all add: sign_witness_receipt_def Let_def)

lemma signed_receipt_verifies:
  "ed25519_ok E \<Longrightarrow> verify_witness_receipt E (sign_witness_receipt E t n h kid ts k) (ed_public E k) = Inr ()"
  by (simp add: ed25519_ok_def verify_witness_receipt_def verify_b64_def sign_witness_receipt_def Let_def
      receipt_signing_bytes_def)

lemma signed_checkpoint_verifies:
  "ed25519_ok E \<Longrightarrow> verify_checkpoint_signature E (checkpoint_of E og rec) (ed_public E (os_signing_key og)) = Inr ()"
  by (simp add: ed25519_ok_def verify_checkpoint_signature_def verify_b64_def checkpoint_of_def Let_def
      checkpoint_signing_bytes_def)

lemma sample_receipt_valid: "verify_witness_receipt sample_ed25519 sample_receipt ''key'' = Inr ()"
  using signed_receipt_verifies [OF sample_ed25519_ok, of _ _ _ _ _ "''key''"]
  by (simp add: sample_receipt_def sample_ed25519_def)

lemma sample_lib_sel [simp]:
  "al_serde sample_audit_lib = sample_serde (\<lambda>_. Some (JObject []))" "al_sha256 sample_audit_lib = (\<lambda>x. x)"
  "al_receipt_parse sample_audit_lib = (\<lambda>_. Some sample_receipt)"
  "al_receipt_text sample_audit_lib = (\<lambda>_. ''receipt'')"
  by (simp_all add: sample_audit_lib_def receipt_lib_def)

lemma sample_first_row:
  "next_row (receipt_lib empty_receipt) sample_tick sample_event [] =
   next_row sample_audit_lib sample_tick sample_event []"
  by (simp add: next_row_def new_row_def receipt_lib_def)

definition sample_rows :: "audit_row list" where
  "sample_rows = [next_row sample_audit_lib sample_tick sample_event []]"

lemma sample_payload_ok: "payload_ok sample_audit_lib (JObject [])"
  by (simp add: payload_ok_def sample_serde_def)

lemma sample_rows_ok: "events_ok sample_audit_lib sample_rows"
proof -
  have "row_ok sample_audit_lib (next_row sample_audit_lib sample_tick sample_event [])"
    using sample_payload_ok by (intro next_row_ok) (simp add: sample_event_def)
  moreover have "\<not> event_conflicts (next_row sample_audit_lib sample_tick sample_event []) []"
    by (simp add: event_conflicts_def)
  ultimately show ?thesis
    using events_ok_append [of sample_audit_lib "[]" sample_tick sample_event] by (simp add: sample_rows_def)
qed

lemma sample_records:
  "\<exists>x. tenant_records sample_audit_lib ''t'' sample_rows = [x] \<and> record_typed sample_audit_lib x"
proof -
  have r: "row_ok sample_audit_lib (next_row sample_audit_lib sample_tick sample_event [])"
    using sample_payload_ok by (intro next_row_ok) (simp add: sample_event_def)
  then obtain x where x: "record_from_row sample_audit_lib (next_row sample_audit_lib sample_tick sample_event []) = Inr x"
    using record_from_row_ok by blast
  have "tenant_records sample_audit_lib ''t'' sample_rows = [x]"
    using x by (simp add: tenant_records_def sample_rows_def tenant_rows_def next_row_def sample_event_def)
  moreover have "rec_payload x = JObject []"
    using record_from_row_matches [OF x] by (simp add: matches_row_def sample_serde_def)
  then have "record_typed sample_audit_lib x"
    using record_from_row_matches [OF x]
    by (simp add: record_typed_def matches_row_def next_row_def sample_event_def sample_tick_def
        tip_hash_def tenant_rows_def GENESIS_HASH_def short_def i64_range_def
        sample_serde_def canonical_json_string_def hash_canonical_json_def btree_collect_def
        hex_digest_def)
  ultimately show ?thesis by blast
qed

theorem audit_tamper_evident_witness:
  "map (core_of sample_audit_lib) (tenant_records sample_audit_lib ''t'' sample_rows) =
     map (core_of sample_audit_lib) (tenant_records sample_audit_lib ''t'' (rev sample_rows))
   \<or> sha_collision sample_audit_lib (tenant_records sample_audit_lib ''t'' sample_rows)
       (tenant_records sample_audit_lib ''t'' (rev sample_rows))"
proof (rule audit_tamper_evident)
  have "tenant_rows ''t'' sample_rows = sample_rows"
    by (simp add: sample_rows_def tenant_rows_def next_row_def sample_event_def)
  then have v: "verify_tenant_in sample_audit_lib ''t'' sample_rows = Inr 1"
    using verify_tenant_complete [OF sample_rows_ok, of "''t''"] by (simp add: sample_rows_def)
  show "verify_tenant_in sample_audit_lib ''t'' sample_rows = Inr 1" by (rule v)
  show "verify_tenant_in sample_audit_lib ''t'' (rev sample_rows) = Inr 1"
    using v by (simp add: sample_rows_def)
qed (use sample_records in \<open>auto simp: sample_rows_def\<close>)

end
