(* ===== verification/Execution.thy ===== *)
theory Execution
  imports Audit_Log "HOL-Library.Product_Lexorder"
begin

text \<open>
  The audit store of \<open>henosis-audit\<close> with its execution ledger: claims, completions, indeterminate
  executions, operator resolutions, and the persistent block of an ambiguous stream.

  The database is the record \<open>audit_db\<close> of its four tables. Every public method of \<open>AuditStore\<close> is one
  function; a method that fails leaves the database as it was (\<open>transact\<close> rolls back).
\<close>

section \<open>Values\<close>

datatype execution_state = Claimed | Completed | Indeterminate

record execution_record =
  xr_tenant_id :: string
  xr_principal_id :: string
  xr_idempotency_key :: string
  xr_request_hash :: string
  xr_state :: execution_state
  xr_sanitized_result :: "json option"
  xr_intent_sequence :: nat
  xr_claimed_at_ms :: int
  xr_updated_at_ms :: int

datatype execution_claim = Acquired execution_record | Existing execution_record

datatype execution_resolution_kind = Executed | NotExecuted

record execution_resolution_input =
  ri_tenant_id :: string
  ri_principal_id :: string
  ri_idempotency_key :: string
  ri_resolved_by_principal_id :: string
  ri_resolution :: execution_resolution_kind
  ri_evidence_sha256 :: string

record execution_resolution =
  er_tenant_id :: string
  er_principal_id :: string
  er_idempotency_key :: string
  er_resolution :: execution_resolution_kind
  er_evidence_sha256 :: string
  er_resolved_by_principal_id :: string
  er_audit_sequence :: nat
  er_finalized :: bool
  er_resolved_at_ms :: int

record indeterminate_execution =
  ie_execution :: execution_record
  ie_resolution :: "execution_resolution option"

record audit_stream_state =
  ss_tenant_id :: string
  ss_blocked :: bool
  ss_reason_code :: "string option"
  ss_updated_at_ms :: int

record audit_recovery =
  ry_verified_records :: nat
  ry_recovered_sequence :: nat

text \<open>The rows of \<open>execution_records\<close> and \<open>execution_resolutions\<close>.\<close>

record execution_row =
  xc_tenant_id :: string
  xc_principal_id :: string
  xc_idempotency_key :: string
  xc_request_hash :: string
  xc_state :: string
  xc_sanitized_result_json :: "string option"
  xc_intent_sequence :: nat
  xc_claimed_at_ms :: int
  xc_updated_at_ms :: int

record resolution_row =
  rr_tenant_id :: string
  rr_principal_id :: string
  rr_idempotency_key :: string
  rr_resolution :: string
  rr_evidence_sha256 :: string
  rr_resolved_by_principal_id :: string
  rr_audit_sequence :: nat
  rr_finalized :: bool
  rr_resolved_at_ms :: int

record audit_db =
  db_events :: "audit_row list"
  db_executions :: "execution_row list"
  db_resolutions :: "resolution_row list"
  db_streams :: "audit_stream_state list"

definition empty_db :: audit_db where
  "empty_db = \<lparr> db_events = [], db_executions = [], db_resolutions = [], db_streams = [] \<rparr>"

definition MAX_SANITIZED_RESULT_BYTES :: nat where
  "MAX_SANITIZED_RESULT_BYTES = 1024 * 1024"

definition MAX_INDETERMINATE_EXECUTIONS :: nat where
  "MAX_INDETERMINATE_EXECUTIONS = 200"

definition transact :: "'s \<Rightarrow> audit_error + 's \<times> 'a \<Rightarrow> 's \<times> (audit_error + 'a)" where
  "transact db r = (case r of Inl e \<Rightarrow> (db, Inl e) | Inr (db', x) \<Rightarrow> (db', Inr x))"


section \<open>Names of states and resolutions\<close>

text \<open>The SQL text writes the state names as literals; \<open>state_name\<close> gives those literals.\<close>

fun state_name :: "execution_state \<Rightarrow> string" where
  "state_name Claimed = ''claimed''"
| "state_name Completed = ''completed''"
| "state_name Indeterminate = ''indeterminate''"

definition parse_execution_state :: "string \<Rightarrow> audit_error + execution_state" where
  "parse_execution_state value =
     (if value = ''claimed'' then Inr Claimed
      else if value = ''completed'' then Inr Completed
      else if value = ''indeterminate'' then Inr Indeterminate
      else Inl (InvalidInput ''stored execution state is invalid''))"

fun execution_resolution_name :: "execution_resolution_kind \<Rightarrow> string" where
  "execution_resolution_name Executed = ''executed''"
| "execution_resolution_name NotExecuted = ''not_executed''"

definition parse_execution_resolution :: "string \<Rightarrow> audit_error + execution_resolution_kind" where
  "parse_execution_resolution value =
     (if value = ''executed'' then Inr Executed
      else if value = ''not_executed'' then Inr NotExecuted
      else Inl (InvalidInput ''stored execution resolution is invalid''))"


section \<open>Reading\<close>

definition execution_record_from_row :: "audit_lib \<Rightarrow> execution_row \<Rightarrow> audit_error + execution_record" where
  "execution_record_from_row L r =
     (case parse_execution_state (xc_state r) of
        Inl _ \<Rightarrow> Inl (Storage ''conversion failure'')
      | Inr state \<Rightarrow>
          let rec = (\<lambda>result. \<lparr> xr_tenant_id = xc_tenant_id r, xr_principal_id = xc_principal_id r,
            xr_idempotency_key = xc_idempotency_key r, xr_request_hash = xc_request_hash r,
            xr_state = state, xr_sanitized_result = result,
            xr_intent_sequence = xc_intent_sequence r, xr_claimed_at_ms = xc_claimed_at_ms r,
            xr_updated_at_ms = xc_updated_at_ms r \<rparr>) in
          case xc_sanitized_result_json r of
            None \<Rightarrow> Inr (rec None)
          | Some text \<Rightarrow>
              (case value_parse (al_serde L) text of
                 None \<Rightarrow> Inl (Storage ''conversion failure'')
               | Some v \<Rightarrow> Inr (rec (Some v))))"

definition execution_resolution_from_row :: "resolution_row \<Rightarrow> audit_error + execution_resolution" where
  "execution_resolution_from_row r =
     (case parse_execution_resolution (rr_resolution r) of
        Inl _ \<Rightarrow> Inl (Storage ''conversion failure'')
      | Inr kind \<Rightarrow>
          Inr \<lparr> er_tenant_id = rr_tenant_id r, er_principal_id = rr_principal_id r,
            er_idempotency_key = rr_idempotency_key r, er_resolution = kind,
            er_evidence_sha256 = rr_evidence_sha256 r,
            er_resolved_by_principal_id = rr_resolved_by_principal_id r,
            er_audit_sequence = rr_audit_sequence r, er_finalized = rr_finalized r,
            er_resolved_at_ms = rr_resolved_at_ms r \<rparr>)"

definition by_key :: "string \<Rightarrow> string \<Rightarrow> string \<Rightarrow> execution_row \<Rightarrow> bool" where
  "by_key t p k r = (xc_tenant_id r = t \<and> xc_principal_id r = p \<and> xc_idempotency_key r = k)"

definition res_by_key :: "string \<Rightarrow> string \<Rightarrow> string \<Rightarrow> resolution_row \<Rightarrow> bool" where
  "res_by_key t p k r = (rr_tenant_id r = t \<and> rr_principal_id r = p \<and> rr_idempotency_key r = k)"

definition load_execution_record ::
    "audit_lib \<Rightarrow> string \<Rightarrow> string \<Rightarrow> string \<Rightarrow> audit_db \<Rightarrow> audit_error + execution_record option" where
  "load_execution_record L t p k db =
     (case find (by_key t p k) (db_executions db) of
        None \<Rightarrow> Inr None
      | Some r \<Rightarrow> (case execution_record_from_row L r of Inl e \<Rightarrow> Inl e | Inr x \<Rightarrow> Inr (Some x)))"

definition load_execution_resolution ::
    "string \<Rightarrow> string \<Rightarrow> string \<Rightarrow> audit_db \<Rightarrow> audit_error + execution_resolution option" where
  "load_execution_resolution t p k db =
     (case find (res_by_key t p k) (db_resolutions db) of
        None \<Rightarrow> Inr None
      | Some r \<Rightarrow> (case execution_resolution_from_row r of Inl e \<Rightarrow> Inl e | Inr x \<Rightarrow> Inr (Some x)))"

definition load_stream_state :: "string \<Rightarrow> audit_db \<Rightarrow> audit_stream_state option" where
  "load_stream_state t db = find (\<lambda>s. ss_tenant_id s = t) (db_streams db)"

definition ensure_stream_writable_in :: "string \<Rightarrow> audit_db \<Rightarrow> audit_error + unit" where
  "ensure_stream_writable_in t db =
     (case load_stream_state t db of
        Some s \<Rightarrow>
          if ss_blocked s
          then Inl (StreamBlocked (case ss_reason_code s of None \<Rightarrow> ''ambiguous_completion'' | Some c \<Rightarrow> c))
          else Inr ()
      | None \<Rightarrow> Inr ())"

definition ensure_execution_hash :: "execution_record \<Rightarrow> string \<Rightarrow> audit_error + unit" where
  "ensure_execution_hash existing request_hash =
     (if xr_request_hash existing = request_hash then Inr () else Inl IdempotencyConflict)"

definition ensure_resolution_match ::
    "execution_resolution \<Rightarrow> execution_resolution_input \<Rightarrow> audit_error + unit" where
  "ensure_resolution_match existing input =
     (if er_tenant_id existing = ri_tenant_id input \<and> er_principal_id existing = ri_principal_id input
        \<and> er_idempotency_key existing = ri_idempotency_key input
        \<and> er_resolution existing = ri_resolution input
        \<and> er_evidence_sha256 existing = ri_evidence_sha256 input
        \<and> er_resolved_by_principal_id existing = ri_resolved_by_principal_id input
      then Inr () else Inl ExecutionStateConflict)"


section \<open>Append, claim, complete\<close>

definition audit_append ::
    "audit_lib \<Rightarrow> tick \<Rightarrow> audit_event_input \<Rightarrow> audit_db \<Rightarrow> audit_db \<times> (audit_error + audit_record)" where
  "audit_append L tk input db = transact db
     (case validate_input input of Inl e \<Rightarrow> Inl e | Inr _ \<Rightarrow>
      case validate_metadata_payload (in_payload input) of Inl e \<Rightarrow> Inl e | Inr _ \<Rightarrow>
      case ensure_stream_writable_in (in_tenant_id input) db of Inl e \<Rightarrow> Inl e | Inr _ \<Rightarrow>
      case append_in_transaction L tk input (request_hash_of L input) (payload_text L input)
             (db_events db) of
        Inl e \<Rightarrow> Inl e
      | Inr (events, rec) \<Rightarrow> Inr (db \<lparr> db_events := events \<rparr>, rec))"

definition claimed_row :: "audit_lib \<Rightarrow> audit_event_input \<Rightarrow> string \<Rightarrow> audit_record \<Rightarrow> execution_row" where
  "claimed_row L intent key rec = \<lparr> xc_tenant_id = in_tenant_id intent,
     xc_principal_id = in_principal_id intent, xc_idempotency_key = key,
     xc_request_hash = request_hash_of L intent, xc_state = ''claimed'',
     xc_sanitized_result_json = None, xc_intent_sequence = rec_sequence rec,
     xc_claimed_at_ms = rec_created_at_ms rec, xc_updated_at_ms = rec_created_at_ms rec \<rparr>"

definition insert_execution :: "execution_row \<Rightarrow> execution_row list \<Rightarrow> audit_error + execution_row list" where
  "insert_execution r rows =
     (if list_ex (by_key (xc_tenant_id r) (xc_principal_id r) (xc_idempotency_key r)) rows
      then Inl (Storage ''UNIQUE constraint failed: execution_records'')
      else Inr (rows @ [r]))"

text \<open>The path for a key without an execution: append the intent and insert the claim.\<close>

definition claim_new ::
    "audit_lib \<Rightarrow> tick \<Rightarrow> audit_event_input \<Rightarrow> string \<Rightarrow> audit_db \<Rightarrow>
     audit_error + audit_db \<times> execution_claim" where
  "claim_new L tk intent key db =
     (case ensure_stream_writable_in (in_tenant_id intent) db of Inl e \<Rightarrow> Inl e | Inr _ \<Rightarrow>
      case append_in_transaction L tk intent (request_hash_of L intent) (payload_text L intent)
             (db_events db) of
        Inl e \<Rightarrow> Inl e
      | Inr (events, intent_record) \<Rightarrow>
      case insert_execution (claimed_row L intent key intent_record) (db_executions db) of
        Inl e \<Rightarrow> Inl e
      | Inr execs \<Rightarrow>
          let db' = db \<lparr> db_events := events, db_executions := execs \<rparr> in
          (case load_execution_record L (in_tenant_id intent) (in_principal_id intent) key db' of
             Inl e \<Rightarrow> Inl e
           | Inr found \<Rightarrow>
               (case found of None \<Rightarrow> Inl ExecutionNotFound | Some rec \<Rightarrow> Inr (db', Acquired rec))))"

definition claim_execution ::
    "audit_lib \<Rightarrow> tick \<Rightarrow> audit_event_input \<Rightarrow> audit_db \<Rightarrow> audit_db \<times> (audit_error + execution_claim)" where
  "claim_execution L tk intent db = transact db
     (case validate_execution_event intent Intent of Inl e \<Rightarrow> Inl e | Inr _ \<Rightarrow>
      case in_idempotency_key intent of
        None \<Rightarrow> Inl (InvalidInput ''execution intent requires an idempotency key'')
      | Some key \<Rightarrow>
      case validate_metadata_payload (in_payload intent) of Inl e \<Rightarrow> Inl e | Inr _ \<Rightarrow>
      case load_execution_record L (in_tenant_id intent) (in_principal_id intent) key db of
        Inl e \<Rightarrow> Inl e
      | Inr found \<Rightarrow>
          (case found of
             Some existing \<Rightarrow>
               (case ensure_execution_hash existing (request_hash_of L intent) of
                  Inl e \<Rightarrow> Inl e | Inr _ \<Rightarrow> Inr (db, Existing existing))
           | None \<Rightarrow> claim_new L tk intent key db))"

definition set_state ::
    "string \<Rightarrow> string \<Rightarrow> string \<Rightarrow> execution_state \<Rightarrow> string option \<Rightarrow> int \<Rightarrow>
     audit_lib \<Rightarrow> audit_db \<Rightarrow> audit_error + audit_db \<times> execution_record" where
  "set_state t p k state result updated_at_ms L db =
     (let P = (\<lambda>r. by_key t p k r \<and> xc_state r = ''claimed'') in
      if sql_changed P (db_executions db) \<noteq> 1 then Inl ExecutionStateConflict
      else
        let db' = db \<lparr> db_executions := sql_update P (\<lambda>r. r \<lparr> xc_state := state_name state,
              xc_sanitized_result_json := result, xc_updated_at_ms := updated_at_ms \<rparr>) (db_executions db) \<rparr> in
        case load_execution_record L t p k db' of
          Inl e \<Rightarrow> Inl e
        | Inr None \<Rightarrow> Inl ExecutionNotFound
        | Inr (Some rec) \<Rightarrow> Inr (db', rec))"

definition complete_execution ::
    "audit_lib \<Rightarrow> tick \<Rightarrow> audit_event_input \<Rightarrow> json \<Rightarrow> audit_db \<Rightarrow>
     audit_db \<times> (audit_error + execution_record)" where
  "complete_execution L tk outcome sanitized_result db = transact db
     (case validate_execution_event outcome Outcome of Inl e \<Rightarrow> Inl e | Inr _ \<Rightarrow>
      case in_idempotency_key outcome of
        None \<Rightarrow> Inl (InvalidInput ''execution outcome requires an idempotency key'')
      | Some key \<Rightarrow>
      case validate_metadata_payload (in_payload outcome) of Inl e \<Rightarrow> Inl e | Inr _ \<Rightarrow>
      let result_json = canonical_json_string (al_serde L) sanitized_result in
      if length result_json > MAX_SANITIZED_RESULT_BYTES
      then Inl (InvalidInput ''sanitized execution result exceeds the storage limit'')
      else
      case ensure_stream_writable_in (in_tenant_id outcome) db of Inl e \<Rightarrow> Inl e | Inr _ \<Rightarrow>
      case load_execution_record L (in_tenant_id outcome) (in_principal_id outcome) key db of
        Inl e \<Rightarrow> Inl e
      | Inr None \<Rightarrow> Inl ExecutionNotFound
      | Inr (Some existing) \<Rightarrow>
      case ensure_execution_hash existing (request_hash_of L outcome) of Inl e \<Rightarrow> Inl e | Inr _ \<Rightarrow>
      case xr_state existing of
        Completed \<Rightarrow>
          if map_option (canonical_json_string (al_serde L)) (xr_sanitized_result existing)
             \<noteq> Some result_json
          then Inl ExecutionStateConflict else Inr (db, existing)
      | Indeterminate \<Rightarrow> Inl ExecutionStateConflict
      | Claimed \<Rightarrow>
          (case append_in_transaction L tk outcome (request_hash_of L outcome)
                  (payload_text L outcome) (db_events db) of
             Inl e \<Rightarrow> Inl e
           | Inr (events, _) \<Rightarrow>
               (case unix_timestamp_ms (tk_later tk) of Inl e \<Rightarrow> Inl e | Inr updated_at_ms \<Rightarrow>
                set_state (in_tenant_id outcome) (in_principal_id outcome) key Completed
                  (Some result_json) updated_at_ms L (db \<lparr> db_events := events \<rparr>))))"

definition mark_execution_indeterminate ::
    "audit_lib \<Rightarrow> int \<Rightarrow> string \<Rightarrow> string \<Rightarrow> string \<Rightarrow> json \<Rightarrow> audit_db \<Rightarrow>
     audit_db \<times> (audit_error + execution_record)" where
  "mark_execution_indeterminate L clock t p k request db = transact db
     (case validate_identifier ''tenant id'' t of Inl e \<Rightarrow> Inl e | Inr _ \<Rightarrow>
      case validate_identifier ''principal id'' p of Inl e \<Rightarrow> Inl e | Inr _ \<Rightarrow>
      case validate_identifier ''idempotency key'' k of Inl e \<Rightarrow> Inl e | Inr _ \<Rightarrow>
      case load_execution_record L t p k db of
        Inl e \<Rightarrow> Inl e
      | Inr None \<Rightarrow> Inl ExecutionNotFound
      | Inr (Some existing) \<Rightarrow>
      case ensure_execution_hash existing (hash_canonical_json (al_sha256 L) (al_serde L) request) of
        Inl e \<Rightarrow> Inl e
      | Inr _ \<Rightarrow>
      case xr_state existing of
        Completed \<Rightarrow> Inl ExecutionStateConflict
      | Indeterminate \<Rightarrow> Inr (db, existing)
      | Claimed \<Rightarrow>
          (case unix_timestamp_ms clock of Inl e \<Rightarrow> Inl e | Inr updated_at_ms \<Rightarrow>
           set_state t p k Indeterminate None updated_at_ms L db))"

definition get_execution_record ::
    "audit_lib \<Rightarrow> string \<Rightarrow> string \<Rightarrow> string \<Rightarrow> audit_db \<Rightarrow> audit_error + execution_record option" where
  "get_execution_record L t p k db =
     (case validate_identifier ''tenant id'' t of Inl e \<Rightarrow> Inl e | Inr _ \<Rightarrow>
      case validate_identifier ''principal id'' p of Inl e \<Rightarrow> Inl e | Inr _ \<Rightarrow>
      case validate_identifier ''idempotency key'' k of Inl e \<Rightarrow> Inl e | Inr _ \<Rightarrow>
      load_execution_record L t p k db)"


text \<open>\<open>ORDER BY updated_at_ms, principal_id, idempotency_key LIMIT 200\<close> over the unresolved rows\<close>

definition unresolved_rows :: "string \<Rightarrow> audit_db \<Rightarrow> execution_row list" where
  "unresolved_rows t db =
     take MAX_INDETERMINATE_EXECUTIONS
       (sort_key (\<lambda>r. (xc_updated_at_ms r, xc_principal_id r, xc_idempotency_key r))
         (filter (\<lambda>r. xc_tenant_id r = t \<and> xc_state r = ''indeterminate'' \<and>
            (case find (res_by_key t (xc_principal_id r) (xc_idempotency_key r)) (db_resolutions db) of
               None \<Rightarrow> True | Some q \<Rightarrow> \<not> rr_finalized q)) (db_executions db)))"

fun decode_executions :: "audit_lib \<Rightarrow> execution_row list \<Rightarrow> audit_error + execution_record list" where
  "decode_executions L [] = Inr []"
| "decode_executions L (r # rs) =
     (case execution_record_from_row L r of Inl e \<Rightarrow> Inl e | Inr x \<Rightarrow>
      case decode_executions L rs of Inl e \<Rightarrow> Inl e | Inr xs \<Rightarrow> Inr (x # xs))"

fun with_resolutions ::
    "audit_db \<Rightarrow> execution_record list \<Rightarrow> audit_error + indeterminate_execution list" where
  "with_resolutions db [] = Inr []"
| "with_resolutions db (x # xs) =
     (case load_execution_resolution (xr_tenant_id x) (xr_principal_id x) (xr_idempotency_key x) db of
        Inl e \<Rightarrow> Inl e
      | Inr res \<Rightarrow>
          (case with_resolutions db xs of Inl e \<Rightarrow> Inl e
           | Inr ys \<Rightarrow> Inr (\<lparr> ie_execution = x, ie_resolution = res \<rparr> # ys)))"

definition indeterminate_executions ::
    "audit_lib \<Rightarrow> string \<Rightarrow> audit_db \<Rightarrow> audit_error + indeterminate_execution list" where
  "indeterminate_executions L t db =
     (case validate_identifier ''tenant id'' t of Inl e \<Rightarrow> Inl e | Inr _ \<Rightarrow>
      case decode_executions L (unresolved_rows t db) of Inl e \<Rightarrow> Inl e | Inr xs \<Rightarrow>
      with_resolutions db xs)"


section \<open>Operator resolutions\<close>

definition is_lower_hex :: "char \<Rightarrow> bool" where
  "is_lower_hex c = (is_ascii_digit c \<or> (97 \<le> byte c \<and> byte c \<le> 102))"

definition validate_execution_resolution_input :: "execution_resolution_input \<Rightarrow> audit_error + unit" where
  "validate_execution_resolution_input input =
     (case validate_identifier ''tenant id'' (ri_tenant_id input) of Inl e \<Rightarrow> Inl e | Inr _ \<Rightarrow>
      case validate_identifier ''principal id'' (ri_principal_id input) of Inl e \<Rightarrow> Inl e | Inr _ \<Rightarrow>
      case validate_identifier ''idempotency key'' (ri_idempotency_key input) of Inl e \<Rightarrow> Inl e | Inr _ \<Rightarrow>
      case validate_identifier ''resolver principal id'' (ri_resolved_by_principal_id input) of
        Inl e \<Rightarrow> Inl e
      | Inr _ \<Rightarrow>
          if length (ri_evidence_sha256 input) \<noteq> 64 \<or> \<not> list_all is_lower_hex (ri_evidence_sha256 input)
          then Inl (InvalidInput ''evidence SHA-256 must be 64 lowercase hexadecimal characters'')
          else Inr ())"

definition target_digest :: "audit_lib \<Rightarrow> execution_resolution_input \<Rightarrow> string" where
  "target_digest L input = hex_digest (al_sha256 L (ri_tenant_id input @ [CHR 0x00]
     @ ri_principal_id input @ [CHR 0x00] @ ri_idempotency_key input))"

definition resolution_request :: "execution_resolution_input \<Rightarrow> execution_record \<Rightarrow> json" where
  "resolution_request input execution = JObject (btree_collect
     [(''target_principal_id'', JString (ri_principal_id input)),
      (''target_idempotency_key'', JString (ri_idempotency_key input)),
      (''target_request_hash'', JString (xr_request_hash execution)),
      (''resolution'', JString (execution_resolution_name (ri_resolution input))),
      (''evidence_sha256'', JString (ri_evidence_sha256 input))])"

definition resolution_payload :: "execution_resolution_input \<Rightarrow> string \<Rightarrow> nat \<Rightarrow> json" where
  "resolution_payload input request_hash intent_sequence = JObject (btree_collect
     [(''decision'', JString (execution_resolution_name (ri_resolution input))),
      (''outcome'', JString ''indeterminate_resolved''),
      (''reason_code'', JString ''external_evidence_digest''),
      (''target_request_hash'', JString request_hash),
      (''evidence_sha256'', JString (ri_evidence_sha256 input)),
      (''intent_sequence'', JNumber (PosInt intent_sequence)),
      (''policy_version'', JString ''henosis-execution-resolution-v1'')])"

definition execution_resolution_event ::
    "audit_lib \<Rightarrow> execution_resolution_input \<Rightarrow> execution_record \<Rightarrow> audit_event_input" where
  "execution_resolution_event L input execution = \<lparr>
     in_tenant_id = ri_tenant_id input,
     in_principal_id = ri_resolved_by_principal_id input,
     in_action = ''audit.execution_resolution'',
     in_phase = Outcome,
     in_request = resolution_request input execution,
     in_payload = resolution_payload input (xr_request_hash execution) (xr_intent_sequence execution),
     in_idempotency_key = Some (''execution-resolution-'' @ target_digest L input) \<rparr>"

definition reserved_row :: "execution_resolution_input \<Rightarrow> nat \<Rightarrow> int \<Rightarrow> resolution_row" where
  "reserved_row input sequence resolved_at_ms = \<lparr> rr_tenant_id = ri_tenant_id input,
     rr_principal_id = ri_principal_id input, rr_idempotency_key = ri_idempotency_key input,
     rr_resolution = execution_resolution_name (ri_resolution input),
     rr_evidence_sha256 = ri_evidence_sha256 input,
     rr_resolved_by_principal_id = ri_resolved_by_principal_id input,
     rr_audit_sequence = sequence, rr_finalized = False, rr_resolved_at_ms = resolved_at_ms \<rparr>"

definition insert_resolution :: "resolution_row \<Rightarrow> resolution_row list \<Rightarrow> audit_error + resolution_row list" where
  "insert_resolution r rows =
     (if list_ex (res_by_key (rr_tenant_id r) (rr_principal_id r) (rr_idempotency_key r)) rows
      then Inl (Storage ''UNIQUE constraint failed: execution_resolutions'')
      else Inr (rows @ [r]))"

text \<open>The resolution that is already stored, with its audit record.\<close>

definition existing_resolution ::
    "audit_lib \<Rightarrow> execution_resolution_input \<Rightarrow> execution_resolution \<Rightarrow> audit_db \<Rightarrow>
     audit_error + audit_db \<times> execution_resolution \<times> audit_record" where
  "existing_resolution L input existing db =
     (case ensure_resolution_match existing input of Inl e \<Rightarrow> Inl e | Inr _ \<Rightarrow>
      case load_record L (ri_tenant_id input) (er_audit_sequence existing) (db_events db) of
        Inl e \<Rightarrow> Inl e
      | Inr found \<Rightarrow>
          (case found of None \<Rightarrow> Inl ExecutionNotFound
           | Some audit_record \<Rightarrow> Inr (db, existing, audit_record)))"

text \<open>The insertion of the reserved resolution after its audit event.\<close>

definition store_resolution ::
    "tick \<Rightarrow> execution_resolution_input \<Rightarrow> audit_row list \<Rightarrow> audit_record \<Rightarrow> audit_db \<Rightarrow>
     audit_error + audit_db \<times> execution_resolution \<times> audit_record" where
  "store_resolution tk input events audit_record db =
     (case unix_timestamp_ms (tk_later tk) of Inl e \<Rightarrow> Inl e | Inr resolved_at_ms \<Rightarrow>
      case insert_resolution (reserved_row input (rec_sequence audit_record) resolved_at_ms)
             (db_resolutions db) of
        Inl e \<Rightarrow> Inl e
      | Inr resolutions \<Rightarrow>
          let db' = db \<lparr> db_events := events, db_resolutions := resolutions \<rparr> in
          (case load_execution_resolution (ri_tenant_id input) (ri_principal_id input)
                  (ri_idempotency_key input) db' of
             Inl e \<Rightarrow> Inl e
           | Inr found \<Rightarrow>
               (case found of None \<Rightarrow> Inl ExecutionNotFound
                | Some resolution \<Rightarrow> Inr (db', resolution, audit_record))))"

text \<open>The path for a key without a resolution: the execution must be indeterminate.\<close>

definition reserve_resolution ::
    "audit_lib \<Rightarrow> tick \<Rightarrow> execution_resolution_input \<Rightarrow> execution_record \<Rightarrow> audit_db \<Rightarrow>
     audit_error + audit_db \<times> execution_resolution \<times> audit_record" where
  "reserve_resolution L tk input execution db =
     (if xr_state execution \<noteq> Indeterminate then Inl ExecutionStateConflict
      else
      let event = execution_resolution_event L input execution in
      case validate_input event of Inl e \<Rightarrow> Inl e | Inr _ \<Rightarrow>
      case validate_metadata_payload (in_payload event) of Inl e \<Rightarrow> Inl e | Inr _ \<Rightarrow>
      case append_in_transaction L tk event (request_hash_of L event) (payload_text L event)
             (db_events db) of
        Inl e \<Rightarrow> Inl e
      | Inr (events, audit_record) \<Rightarrow> store_resolution tk input events audit_record db)"

definition begin_execution_resolution ::
    "audit_lib \<Rightarrow> tick \<Rightarrow> execution_resolution_input \<Rightarrow> audit_db \<Rightarrow>
     audit_db \<times> (audit_error + execution_resolution \<times> audit_record)" where
  "begin_execution_resolution L tk input db = transact db
     (let t = ri_tenant_id input; p = ri_principal_id input; k = ri_idempotency_key input in
      case validate_execution_resolution_input input of Inl e \<Rightarrow> Inl e | Inr _ \<Rightarrow>
      case load_execution_resolution t p k db of Inl e \<Rightarrow> Inl e | Inr found \<Rightarrow>
      case found of
        Some existing \<Rightarrow> existing_resolution L input existing db
      | None \<Rightarrow>
          (case ensure_stream_writable_in t db of Inl e \<Rightarrow> Inl e | Inr _ \<Rightarrow>
           case load_execution_record L t p k db of Inl e \<Rightarrow> Inl e | Inr row \<Rightarrow>
           case row of
             None \<Rightarrow> Inl ExecutionNotFound
           | Some execution \<Rightarrow> reserve_resolution L tk input execution db))"

text \<open>The update that makes a reserved resolution final.\<close>

definition set_finalized ::
    "string \<Rightarrow> string \<Rightarrow> string \<Rightarrow> audit_db \<Rightarrow> audit_error + audit_db \<times> execution_resolution" where
  "set_finalized t p k db =
     (let P = (\<lambda>r. res_by_key t p k r \<and> \<not> rr_finalized r) in
      if sql_changed P (db_resolutions db) \<noteq> 1 then Inl ExecutionStateConflict
      else
        let db' = db \<lparr> db_resolutions := sql_update P (\<lambda>r. r \<lparr> rr_finalized := True \<rparr>) (db_resolutions db) \<rparr> in
        (case load_execution_resolution t p k db' of
           Inl e \<Rightarrow> Inl e
         | Inr found \<Rightarrow>
             (case found of None \<Rightarrow> Inl ExecutionNotFound | Some finalized \<Rightarrow> Inr (db', finalized))))"

definition finalize_execution_resolution ::
    "audit_lib \<Rightarrow> execution_resolution_input \<Rightarrow> bool \<Rightarrow> audit_db \<Rightarrow>
     audit_db \<times> (audit_error + execution_resolution)" where
  "finalize_execution_resolution L input require_witness db = transact db
     (let t = ri_tenant_id input; p = ri_principal_id input; k = ri_idempotency_key input in
      case validate_execution_resolution_input input of Inl e \<Rightarrow> Inl e | Inr _ \<Rightarrow>
      case load_execution_resolution t p k db of Inl e \<Rightarrow> Inl e | Inr found \<Rightarrow>
      case found of None \<Rightarrow> Inl ExecutionNotFound | Some existing \<Rightarrow>
      case ensure_resolution_match existing input of Inl e \<Rightarrow> Inl e | Inr _ \<Rightarrow>
      if er_finalized existing then Inr (db, existing)
      else
      case load_record L t (er_audit_sequence existing) (db_events db) of Inl e \<Rightarrow> Inl e | Inr row \<Rightarrow>
      case row of None \<Rightarrow> Inl ExecutionNotFound | Some audit_record \<Rightarrow>
      if require_witness \<and> rec_witness_receipt audit_record = None then Inl ExecutionStateConflict
      else set_finalized t p k db)"

definition resolve_indeterminate_execution ::
    "audit_lib \<Rightarrow> tick \<Rightarrow> execution_resolution_input \<Rightarrow> audit_db \<Rightarrow>
     audit_db \<times> (audit_error + execution_resolution)" where
  "resolve_indeterminate_execution L tk input db =
     (case begin_execution_resolution L tk input db of
        (db', Inl e) \<Rightarrow> (db', Inl e)
      | (db', Inr _) \<Rightarrow> finalize_execution_resolution L input False db')"


section \<open>Stream blocks and witness receipts\<close>

definition stream_state :: "string \<Rightarrow> audit_db \<Rightarrow> audit_error + audit_stream_state option" where
  "stream_state t db =
     (case validate_identifier ''tenant id'' t of Inl e \<Rightarrow> Inl e | Inr _ \<Rightarrow> Inr (load_stream_state t db))"

definition ensure_stream_writable :: "string \<Rightarrow> audit_db \<Rightarrow> audit_error + unit" where
  "ensure_stream_writable t db =
     (case validate_identifier ''tenant id'' t of Inl e \<Rightarrow> Inl e | Inr _ \<Rightarrow> ensure_stream_writable_in t db)"

definition block_stream :: "string \<Rightarrow> string \<Rightarrow> int \<Rightarrow> audit_stream_state list \<Rightarrow> audit_stream_state list" where
  "block_stream t reason_code updated_at_ms streams =
     (if list_ex (\<lambda>s. ss_tenant_id s = t) streams
      then sql_update (\<lambda>s. ss_tenant_id s = t) (\<lambda>s. s \<lparr> ss_blocked := True,
             ss_reason_code := Some reason_code, ss_updated_at_ms := updated_at_ms \<rparr>) streams
      else streams @ [\<lparr> ss_tenant_id = t, ss_blocked = True, ss_reason_code = Some reason_code,
             ss_updated_at_ms = updated_at_ms \<rparr>])"

definition mark_stream_ambiguous ::
    "int \<Rightarrow> string \<Rightarrow> string \<Rightarrow> audit_db \<Rightarrow> audit_db \<times> (audit_error + unit)" where
  "mark_stream_ambiguous clock t reason_code db = transact db
     (case validate_identifier ''tenant id'' t of Inl e \<Rightarrow> Inl e | Inr _ \<Rightarrow>
      case validate_identifier ''reason code'' reason_code of Inl e \<Rightarrow> Inl e | Inr _ \<Rightarrow>
      case unix_timestamp_ms clock of Inl e \<Rightarrow> Inl e | Inr updated_at_ms \<Rightarrow>
      Inr (db \<lparr> db_streams := block_stream t reason_code updated_at_ms (db_streams db) \<rparr>, ()))"

definition receipt_slot :: "audit_lib \<Rightarrow> witness_receipt \<Rightarrow> audit_row \<Rightarrow> bool" where
  "receipt_slot L receipt r \<longleftrightarrow> ev_tenant_id r = rc_tenant_id receipt \<and>
     ev_sequence r = rc_sequence receipt \<and> ev_event_hash r = rc_event_hash receipt \<and>
     (ev_witness_receipt_json r = None \<or> ev_witness_receipt_json r = Some (al_receipt_text L receipt))"

definition attach_witness_receipt ::
    "audit_lib \<Rightarrow> ed25519 \<Rightarrow> witness_receipt \<Rightarrow> bytes \<Rightarrow> audit_db \<Rightarrow> audit_db \<times> (audit_error + unit)" where
  "attach_witness_receipt L E receipt witness_key db = transact db
     (case verify_witness_receipt E receipt witness_key of Inl e \<Rightarrow> Inl e | Inr _ \<Rightarrow>
      if sql_changed (receipt_slot L receipt) (db_events db) \<noteq> 1 then Inl ReceiptMismatch
      else Inr (db \<lparr> db_events := sql_update (receipt_slot L receipt)
             (\<lambda>r. r \<lparr> ev_witness_receipt_json := Some (al_receipt_text L receipt) \<rparr>) (db_events db) \<rparr>, ()))"

text \<open>Clearing the block, once the head is known to be witnessed.\<close>

definition unblock_stream ::
    "int \<Rightarrow> string \<Rightarrow> audit_recovery \<Rightarrow> audit_db \<Rightarrow> audit_error + audit_db \<times> audit_recovery" where
  "unblock_stream clock t recovery db =
     (case load_stream_state t db of
        None \<Rightarrow> Inl (InvalidInput ''audit stream has not been blocked'')
      | Some state \<Rightarrow>
          if \<not> ss_blocked state then Inr (db, recovery)
          else
          (case unix_timestamp_ms clock of Inl e \<Rightarrow> Inl e | Inr updated_at_ms \<Rightarrow>
           let P = (\<lambda>s. ss_tenant_id s = t \<and> ss_blocked s) in
           if sql_changed P (db_streams db) \<noteq> 1 then Inl ReceiptMismatch
           else Inr (db \<lparr> db_streams := sql_update P (\<lambda>s. s \<lparr> ss_blocked := False, ss_reason_code := None,
                  ss_updated_at_ms := updated_at_ms \<rparr>) (db_streams db) \<rparr>, recovery)))"

definition recover_witnessed_stream ::
    "audit_lib \<Rightarrow> ed25519 \<Rightarrow> int \<Rightarrow> string \<Rightarrow> nat \<Rightarrow> string \<Rightarrow> string \<Rightarrow> bytes \<Rightarrow> audit_db \<Rightarrow>
     audit_db \<times> (audit_error + audit_recovery)" where
  "recover_witnessed_stream L E clock t expected_sequence expected_event_hash expected_key_id
     witness_key db = transact db
     (case validate_identifier ''tenant id'' t of Inl e \<Rightarrow> Inl e | Inr _ \<Rightarrow>
      case validate_identifier ''witness key id'' expected_key_id of Inl e \<Rightarrow> Inl e | Inr _ \<Rightarrow>
      case verify_tenant_in L t (db_events db) of Inl e \<Rightarrow> Inl e | Inr verified_records \<Rightarrow>
      case load_head L t (db_events db) of Inl e \<Rightarrow> Inl e | Inr found \<Rightarrow>
      case found of
        None \<Rightarrow> Inl (InvalidInput ''audit stream has no recoverable head'')
      | Some current_head \<Rightarrow>
          if rec_sequence current_head \<noteq> expected_sequence
             \<or> rec_event_hash current_head \<noteq> expected_event_hash
          then Inl ReceiptMismatch
          else
          (case rec_witness_receipt current_head of
             None \<Rightarrow> Inl ReceiptMismatch
           | Some receipt \<Rightarrow>
               (case verify_receipt_for_record E receipt current_head expected_key_id witness_key of
                  Inl e \<Rightarrow> Inl e
                | Inr _ \<Rightarrow>
                    unblock_stream clock t \<lparr> ry_verified_records = verified_records,
                      ry_recovered_sequence = rec_sequence current_head \<rparr> db)))"

definition get_record :: "audit_lib \<Rightarrow> string \<Rightarrow> nat \<Rightarrow> audit_db \<Rightarrow> audit_error + audit_record option" where
  "get_record L t n db = load_record L t n (db_events db)"

definition head_record :: "audit_lib \<Rightarrow> string \<Rightarrow> audit_db \<Rightarrow> audit_error + audit_record option" where
  "head_record L t db =
     (case validate_identifier ''tenant id'' t of Inl e \<Rightarrow> Inl e | Inr _ \<Rightarrow> load_head L t (db_events db))"

definition verify_tenant :: "audit_lib \<Rightarrow> string \<Rightarrow> audit_db \<Rightarrow> audit_error + nat" where
  "verify_tenant L t db =
     (case validate_identifier ''tenant id'' t of Inl e \<Rightarrow> Inl e | Inr _ \<Rightarrow> verify_tenant_in L t (db_events db))"


section \<open>The store as a sequence of operations\<close>

datatype audit_op =
    Append tick audit_event_input
  | Claim tick audit_event_input
  | Complete tick audit_event_input json
  | MarkIndeterminate int string string string json
  | BeginResolution tick execution_resolution_input
  | FinalizeResolution execution_resolution_input bool
  | MarkAmbiguous int string string
  | AttachReceipt witness_receipt bytes
  | Recover int string nat string string bytes

datatype audit_reply =
    RecordReply "audit_error + audit_record"
  | ClaimReply "audit_error + execution_claim"
  | ExecutionReply "audit_error + execution_record"
  | BeginReply "audit_error + execution_resolution \<times> audit_record"
  | ResolutionReply "audit_error + execution_resolution"
  | UnitReply "audit_error + unit"
  | RecoveryReply "audit_error + audit_recovery"

fun audit_step :: "audit_lib \<Rightarrow> ed25519 \<Rightarrow> audit_op \<Rightarrow> audit_db \<Rightarrow> audit_db \<times> audit_reply" where
  "audit_step L E (Append tk i) db = map_prod id RecordReply (audit_append L tk i db)"
| "audit_step L E (Claim tk i) db = map_prod id ClaimReply (claim_execution L tk i db)"
| "audit_step L E (Complete tk i v) db = map_prod id ExecutionReply (complete_execution L tk i v db)"
| "audit_step L E (MarkIndeterminate clock t p k request) db =
     map_prod id ExecutionReply (mark_execution_indeterminate L clock t p k request db)"
| "audit_step L E (BeginResolution tk input) db =
     map_prod id BeginReply (begin_execution_resolution L tk input db)"
| "audit_step L E (FinalizeResolution input w) db =
     map_prod id ResolutionReply (finalize_execution_resolution L input w db)"
| "audit_step L E (MarkAmbiguous clock t reason) db =
     map_prod id UnitReply (mark_stream_ambiguous clock t reason db)"
| "audit_step L E (AttachReceipt receipt key) db =
     map_prod id UnitReply (attach_witness_receipt L E receipt key db)"
| "audit_step L E (Recover clock t n h kid key) db =
     map_prod id RecoveryReply (recover_witnessed_stream L E clock t n h kid key db)"

text \<open>
  What the code relies on from \<open>serde_json\<close> for the values an operation stores: a payload that the
  validator accepts keeps its canonical text, and a receipt can be read back. Of the result that
  \<open>complete_execution\<close> stores nothing is asked: the transaction reads the record back before it
  commits, so that a result whose text does not parse leaves no row behind.
\<close>

definition stored_payload_ok :: "audit_lib \<Rightarrow> audit_event_input \<Rightarrow> bool" where
  "stored_payload_ok L i \<longleftrightarrow> (validate_metadata_payload (in_payload i) = Inr () \<longrightarrow> payload_ok L (in_payload i))"

fun audit_op_ok :: "audit_lib \<Rightarrow> audit_op \<Rightarrow> bool" where
  "audit_op_ok L (Append tk i) = stored_payload_ok L i"
| "audit_op_ok L (Claim tk i) = stored_payload_ok L i"
| "audit_op_ok L (Complete tk i v) = stored_payload_ok L i"
| "audit_op_ok L (BeginResolution tk input) = (\<forall>h n. payload_ok L (resolution_payload input h n))"
| "audit_op_ok L (AttachReceipt receipt key) = (al_receipt_parse L (al_receipt_text L receipt) \<noteq> None)"
| "audit_op_ok L _ = True"

lemma stored_payload_okI: "payload_ok L (in_payload i) \<Longrightarrow> stored_payload_ok L i"
  by (simp add: stored_payload_ok_def)

lemma stored_payload_okD:
  "stored_payload_ok L i \<Longrightarrow> validate_metadata_payload (in_payload i) = Inr () \<Longrightarrow> payload_ok L (in_payload i)"
  by (simp add: stored_payload_ok_def)

text \<open>
  The documented behaviour behind these conditions: a flat object of strings, nulls, booleans,
  integers and arrays of strings is printed to a text that parses to a value with the same canonical
  text. Nothing is said of floating-point numbers (\<open>serde_json\<close> promises their round trip only with
  its feature \<open>float_roundtrip\<close>, which this workspace does not switch on) nor of deeper values (its
  parser refuses more than 127 nested arrays and objects).
\<close>

definition plain_value :: "json \<Rightarrow> bool" where
  "plain_value v = (case v of JNull \<Rightarrow> True | JBool _ \<Rightarrow> True | JString _ \<Rightarrow> True
     | JNumber n \<Rightarrow> (case n of Float _ \<Rightarrow> False | _ \<Rightarrow> True)
     | JArray vs \<Rightarrow> list_all (\<lambda>x. case x of JString _ \<Rightarrow> True | _ \<Rightarrow> False) vs | _ \<Rightarrow> False)"

definition plain_payload :: "json \<Rightarrow> bool" where
  "plain_payload v = (case v of JObject es \<Rightarrow> list_all (\<lambda>e. plain_value (snd e)) es | _ \<Rightarrow> False)"

definition metadata_round_trips :: "audit_lib \<Rightarrow> bool" where
  "metadata_round_trips L \<longleftrightarrow> (\<forall>p. plain_payload p \<longrightarrow> payload_ok L p)"

definition receipts_readable :: "audit_lib \<Rightarrow> bool" where
  "receipts_readable L \<longleftrightarrow> (\<forall>r. al_receipt_parse L (al_receipt_text L r) \<noteq> None)"

definition is_float :: "json \<Rightarrow> bool" where
  "is_float v = (case v of JNumber (Float _) \<Rightarrow> True | _ \<Rightarrow> False)"

definition float_free :: "json \<Rightarrow> bool" where
  "float_free v = (case v of JObject es \<Rightarrow> list_all (\<lambda>e. \<not> is_float (snd e)) es | _ \<Rightarrow> True)"

fun op_float_free :: "audit_op \<Rightarrow> bool" where
  "op_float_free (Append tk i) = float_free (in_payload i)"
| "op_float_free (Claim tk i) = float_free (in_payload i)"
| "op_float_free (Complete tk i v) = float_free (in_payload i)"
| "op_float_free _ = True"

lemma plain_resolution_payload [simp]: "plain_payload (resolution_payload input h n)"
  by (simp add: resolution_payload_def plain_payload_def plain_value_def btree_collect_def)

text \<open>What the validator accepts is plain, floating-point numbers apart.\<close>

lemma validated_value_plain:
  "validate_metadata_value key v = Inr () \<Longrightarrow> \<not> is_float v \<Longrightarrow> plain_value v"
  by (cases v)
    (auto simp: validate_metadata_value_def plain_value_def is_float_def short_text_def list_all_iff Let_def
      split: if_splits json_number.splits json.splits)

lemma validated_entries_plain:
  "validate_entries es = Inr () \<Longrightarrow> list_all (\<lambda>e. \<not> is_float (snd e)) es \<Longrightarrow>
   list_all (\<lambda>e. plain_value (snd e)) es"
  by (induction es rule: validate_entries.induct)
    (auto simp: validated_value_plain split: if_splits sum.splits)

lemma validated_payload_plain:
  "validate_metadata_payload p = Inr () \<Longrightarrow> float_free p \<Longrightarrow> plain_payload p"
  by (cases p)
    (auto simp: validate_metadata_payload_def float_free_def plain_payload_def validated_entries_plain
      split: if_splits)

lemma float_free_op_ok:
  assumes "metadata_round_trips L" "receipts_readable L" "op_float_free x"
  shows "audit_op_ok L x"
  using assms validated_payload_plain
  by (cases x) (auto simp: stored_payload_ok_def metadata_round_trips_def receipts_readable_def)


section \<open>How rows move\<close>

definition event_forward :: "audit_row \<Rightarrow> audit_row \<Rightarrow> bool" where
  "event_forward r r' \<longleftrightarrow> r' = r \<or>
     (ev_witness_receipt_json r = None \<and> (\<exists>t. r' = r \<lparr> ev_witness_receipt_json := Some t \<rparr>))"

definition execution_forward :: "execution_row \<Rightarrow> execution_row \<Rightarrow> bool" where
  "execution_forward r r' \<longleftrightarrow> r' = r \<or> (xc_state r = ''claimed'' \<and>
     (\<exists>t. (\<exists>v. r' = r \<lparr> xc_state := ''completed'', xc_sanitized_result_json := Some v, xc_updated_at_ms := t \<rparr>) \<or>
          r' = r \<lparr> xc_state := ''indeterminate'', xc_sanitized_result_json := None, xc_updated_at_ms := t \<rparr>))"

definition resolution_forward :: "resolution_row \<Rightarrow> resolution_row \<Rightarrow> bool" where
  "resolution_forward q q' \<longleftrightarrow> q' = q \<or> (\<not> rr_finalized q \<and> q' = q \<lparr> rr_finalized := True \<rparr>)"

lemma forward_refl [simp]: "event_forward r r" "execution_forward x x" "resolution_forward q q"
  by (simp_all add: event_forward_def execution_forward_def resolution_forward_def)

lemma execution_forward_intros:
  "xc_state r = ''claimed'' \<Longrightarrow> execution_forward r
     (r \<lparr> xc_state := ''completed'', xc_sanitized_result_json := Some v, xc_updated_at_ms := t \<rparr>)"
  "xc_state r = ''claimed'' \<Longrightarrow> execution_forward r
     (r \<lparr> xc_state := ''indeterminate'', xc_sanitized_result_json := None, xc_updated_at_ms := t \<rparr>)"
  unfolding execution_forward_def by blast+

lemma event_forward_trans: "event_forward a b \<Longrightarrow> event_forward b c \<Longrightarrow> event_forward a c"
  by (auto simp: event_forward_def)

lemma execution_forward_trans:
  "execution_forward a b \<Longrightarrow> execution_forward b c \<Longrightarrow> execution_forward a c"
  by (auto simp: execution_forward_def)

lemma resolution_forward_trans:
  "resolution_forward a b \<Longrightarrow> resolution_forward b c \<Longrightarrow> resolution_forward a c"
  by (auto simp: resolution_forward_def)

definition xkey :: "execution_row \<Rightarrow> string \<times> string \<times> string" where
  "xkey r = (xc_tenant_id r, xc_principal_id r, xc_idempotency_key r)"

definition rkey :: "resolution_row \<Rightarrow> string \<times> string \<times> string" where
  "rkey r = (rr_tenant_id r, rr_principal_id r, rr_idempotency_key r)"

lemma by_key_iff: "by_key t p k r = (xkey r = (t, p, k))" "res_by_key t p k q = (rkey q = (t, p, k))"
  by (auto simp: by_key_def xkey_def res_by_key_def rkey_def)

lemma execution_forward_key: "execution_forward a b \<Longrightarrow> xkey b = xkey a \<and>
    xc_request_hash b = xc_request_hash a \<and> xc_intent_sequence b = xc_intent_sequence a"
  by (auto simp: execution_forward_def xkey_def)

lemma resolution_forward_key: "resolution_forward a b \<Longrightarrow> rkey b = rkey a \<and>
    rr_resolution b = rr_resolution a \<and> rr_audit_sequence b = rr_audit_sequence a"
  by (auto simp: resolution_forward_def rkey_def)

lemma event_forward_key: "event_forward a b \<Longrightarrow> ev_tenant_id b = ev_tenant_id a \<and>
    ev_sequence b = ev_sequence a \<and> idem_key b = idem_key a \<and> ev_request_hash b = ev_request_hash a"
  by (auto simp: event_forward_def idem_key_def)


section \<open>The invariant\<close>

definition intent_of :: "execution_row \<Rightarrow> audit_row \<Rightarrow> bool" where
  "intent_of r e \<longleftrightarrow> ev_sequence e = xc_intent_sequence r \<and> ev_request_hash e = xc_request_hash r \<and>
     idem_key e = (xc_tenant_id r, xc_principal_id r, ''intent'', Some (xc_idempotency_key r))"

definition execution_ok :: "audit_lib \<Rightarrow> audit_row list \<Rightarrow> execution_row \<Rightarrow> bool" where
  "execution_ok L events r \<longleftrightarrow> (\<exists>e \<in> set events. intent_of r e) \<and>
     ((xc_state r = ''completed'' \<and> (\<exists>txt. xc_sanitized_result_json r = Some txt \<and>
         value_parse (al_serde L) txt \<noteq> None)) \<or>
      ((xc_state r = ''claimed'' \<or> xc_state r = ''indeterminate'') \<and> xc_sanitized_result_json r = None))"

definition resolution_ok :: "audit_row list \<Rightarrow> execution_row list \<Rightarrow> resolution_row \<Rightarrow> bool" where
  "resolution_ok events execs q \<longleftrightarrow> (\<exists>kind. rr_resolution q = execution_resolution_name kind) \<and>
     (\<exists>r \<in> set execs. xkey r = rkey q \<and> xc_state r = ''indeterminate'') \<and>
     (\<exists>e \<in> set events. ev_tenant_id e = rr_tenant_id q \<and> ev_sequence e = rr_audit_sequence q)"

definition audit_inv :: "audit_lib \<Rightarrow> audit_db \<Rightarrow> bool" where
  "audit_inv L db \<longleftrightarrow> events_ok L (db_events db) \<and>
     distinct (map xkey (db_executions db)) \<and> list_all (execution_ok L (db_events db)) (db_executions db) \<and>
     distinct (map rkey (db_resolutions db)) \<and>
     list_all (resolution_ok (db_events db) (db_executions db)) (db_resolutions db) \<and>
     distinct (map ss_tenant_id (db_streams db))"

lemma audit_inv_empty [simp]: "audit_inv L empty_db"
  by (simp add: audit_inv_def empty_db_def)

definition moves :: "audit_db \<Rightarrow> audit_db \<Rightarrow> bool" where
  "moves db db' \<longleftrightarrow> grows event_forward (db_events db) (db_events db') \<and>
     grows execution_forward (db_executions db) (db_executions db') \<and>
     grows resolution_forward (db_resolutions db) (db_resolutions db')"

lemma moves_refl [simp]: "moves db db"
  by (simp add: moves_def grows_refl)

lemma execution_ok_grows:
  assumes "grows event_forward events events'" "execution_ok L events r"
  shows "execution_ok L events' r"
proof -
  obtain e where "e \<in> set events" "intent_of r e" using assms(2) by (auto simp: execution_ok_def)
  moreover then obtain e' where "e' \<in> set events'" "event_forward e e'"
    using grows_in [OF assms(1)] by blast
  ultimately have "\<exists>e \<in> set events'. intent_of r e"
    using event_forward_key by (fastforce simp: intent_of_def)
  with assms(2) show ?thesis by (simp add: execution_ok_def)
qed

lemma resolution_ok_grows:
  assumes "grows event_forward events events'" "grows execution_forward execs execs'"
    "resolution_ok events execs q"
  shows "resolution_ok events' execs' q"
proof -
  obtain e where e: "e \<in> set events" "ev_tenant_id e = rr_tenant_id q" "ev_sequence e = rr_audit_sequence q"
    using assms(3) by (auto simp: resolution_ok_def)
  then obtain e' where "e' \<in> set events'" "event_forward e e'" using grows_in [OF assms(1)] by blast
  then have "\<exists>e \<in> set events'. ev_tenant_id e = rr_tenant_id q \<and> ev_sequence e = rr_audit_sequence q"
    using e event_forward_key by metis
  moreover obtain r where r: "r \<in> set execs" "xkey r = rkey q" "xc_state r = ''indeterminate''"
    using assms(3) by (auto simp: resolution_ok_def)
  then obtain r' where "r' \<in> set execs'" "execution_forward r r'" using grows_in [OF assms(2)] by blast
  then have "\<exists>r \<in> set execs'. xkey r = rkey q \<and> xc_state r = ''indeterminate''"
    using r by (auto simp: execution_forward_def)
  ultimately show ?thesis using assms(3) by (simp add: resolution_ok_def)
qed


section \<open>Every operation keeps the invariant and moves rows forward\<close>

definition good :: "audit_lib \<Rightarrow> audit_db \<Rightarrow> audit_db \<Rightarrow> bool" where
  "good L db db' \<longleftrightarrow> audit_inv L db' \<and> moves db db'"

lemma good_refl: "audit_inv L db \<Longrightarrow> good L db db"
  by (simp add: good_def)

lemma moves_trans: "moves a b \<Longrightarrow> moves b c \<Longrightarrow> moves a c"
  unfolding moves_def
  using grows_trans [of event_forward] grows_trans [of execution_forward]
    grows_trans [of resolution_forward] event_forward_trans execution_forward_trans
    resolution_forward_trans by blast

lemma good_trans: "good L a b \<Longrightarrow> good L b c \<Longrightarrow> good L a c"
  using moves_trans by (auto simp: good_def)

lemma fst_transact: "fst (transact db r) = (case r of Inl _ \<Rightarrow> db | Inr (db', _) \<Rightarrow> db')"
  by (simp add: transact_def split: sum.split prod.split)

lemma good_transact:
  "audit_inv L db \<Longrightarrow> (\<And>db' x. r = Inr (db', x) \<Longrightarrow> good L db db') \<Longrightarrow> good L db (fst (transact db r))"
  by (auto simp: fst_transact good_refl split: sum.split)

lemma good_events:
  assumes "audit_inv L db" "events_ok L events" "grows event_forward (db_events db) events"
  shows "good L db (db \<lparr> db_events := events \<rparr>)"
proof -
  have "list_all (execution_ok L events) (db_executions db)"
    "list_all (resolution_ok events (db_executions db)) (db_resolutions db)"
    using assms execution_ok_grows [OF assms(3)] resolution_ok_grows [OF assms(3) grows_refl]
    by (auto simp: audit_inv_def list_all_iff)
  then show ?thesis using assms by (simp add: good_def audit_inv_def moves_def grows_refl)
qed

lemma good_executions:
  assumes "audit_inv L db" "grows execution_forward (db_executions db) execs"
    "distinct (map xkey execs)" "list_all (execution_ok L (db_events db)) execs"
  shows "good L db (db \<lparr> db_executions := execs \<rparr>)"
proof -
  have "list_all (resolution_ok (db_events db) execs) (db_resolutions db)"
    using assms resolution_ok_grows [OF grows_refl assms(2)] by (auto simp: audit_inv_def list_all_iff)
  then show ?thesis using assms by (simp add: good_def audit_inv_def moves_def grows_refl)
qed

lemma append_in_transaction_good:
  assumes inv: "audit_inv L db" and p: "payload_ok L (in_payload i)"
    and "append_in_transaction L tk i (request_hash_of L i) (payload_text L i) (db_events db) = Inr (events, rec)"
  shows "good L db (db \<lparr> db_events := events \<rparr>)"
    and "\<exists>e \<in> set events. record_from_row L e = Inr rec \<and> ev_request_hash e = request_hash_of L i \<and>
      idem_key e = (in_tenant_id i, in_principal_id i, phase_name (in_phase i), in_idempotency_key i)"
proof -
  have ok: "events_ok L (db_events db)" using inv by (simp add: audit_inv_def)
  note cases = append_in_transaction_cases [OF ok p assms(3)]
  have "events_ok L events" "grows event_forward (db_events db) events"
    using cases ok by (auto simp: grows_append grows_refl)
  then show "good L db (db \<lparr> db_events := events \<rparr>)" using good_events [OF inv] by blast
  show "\<exists>e \<in> set events. record_from_row L e = Inr rec \<and> ev_request_hash e = request_hash_of L i \<and>
      idem_key e = (in_tenant_id i, in_principal_id i, phase_name (in_phase i), in_idempotency_key i)"
    using cases by (auto simp: next_row_def idem_key_def)
qed

lemma audit_append_good:
  assumes "audit_inv L db" "stored_payload_ok L i"
  shows "good L db (fst (audit_append L tk i db))"
  unfolding audit_append_def
  using append_in_transaction_good(1) [OF assms(1) stored_payload_okD [OF assms(2)]]
  by (intro good_transact [OF assms(1)]) (auto split: sum.splits)

text \<open>What a successful new claim did.\<close>

lemma claim_newD:
  assumes "claim_new L tk i key db = Inr (db', c)"
  shows "\<exists>events irec rec. ensure_stream_writable_in (in_tenant_id i) db = Inr () \<and>
    append_in_transaction L tk i (request_hash_of L i) (payload_text L i) (db_events db) = Inr (events, irec) \<and>
    (in_tenant_id i, in_principal_id i, key) \<notin> xkey ` set (db_executions db) \<and>
    db' = db \<lparr> db_events := events, db_executions := db_executions db @ [claimed_row L i key irec] \<rparr> \<and>
    c = Acquired rec \<and> execution_record_from_row L (claimed_row L i key irec) = Inr rec"
proof -
  obtain events irec execs rec where w: "ensure_stream_writable_in (in_tenant_id i) db = Inr ()"
    and app: "append_in_transaction L tk i (request_hash_of L i) (payload_text L i) (db_events db) = Inr (events, irec)"
    and ins: "insert_execution (claimed_row L i key irec) (db_executions db) = Inr execs"
    and db': "db' = db \<lparr> db_events := events, db_executions := execs \<rparr>" and c: "c = Acquired rec"
    and load: "load_execution_record L (in_tenant_id i) (in_principal_id i) key db' = Inr (Some rec)"
    using assms by (auto simp: claim_new_def Let_def split: sum.splits option.splits)
  let ?r = "claimed_row L i key irec"
  have key: "by_key (xc_tenant_id ?r) (xc_principal_id ?r) (xc_idempotency_key ?r) =
      by_key (in_tenant_id i) (in_principal_id i) key"
    by (simp add: claimed_row_def)
  have free: "(in_tenant_id i, in_principal_id i, key) \<notin> xkey ` set (db_executions db)"
    and execs: "execs = db_executions db @ [?r]"
    using ins unfolding insert_execution_def key by (auto simp: list_ex_iff by_key_iff split: if_splits)
  have "find (by_key (in_tenant_id i) (in_principal_id i) key) (db_executions db) = None"
    using free unfolding find_None by_key_iff by (metis image_eqI)
  then have "find (by_key (in_tenant_id i) (in_principal_id i) key) (db_executions db') = Some ?r"
    by (simp add: db' execs find_append by_key_def claimed_row_def)
  then have "execution_record_from_row L ?r = Inr rec"
    using load by (auto simp: load_execution_record_def split: sum.splits)
  then show ?thesis using w app free db' execs c by blast
qed

lemma claim_new_good:
  assumes inv: "audit_inv L db" and p: "payload_ok L (in_payload i)"
    and i: "in_idempotency_key i = Some key" "in_phase i = Intent"
    and "claim_new L tk i key db = Inr (db', c)"
  shows "good L db db'"
proof -
  obtain events rec where app: "append_in_transaction L tk i (request_hash_of L i) (payload_text L i) (db_events db) = Inr (events, rec)"
    and free: "(in_tenant_id i, in_principal_id i, key) \<notin> xkey ` set (db_executions db)"
    and db': "db' = db \<lparr> db_events := events, db_executions := db_executions db @ [claimed_row L i key rec] \<rparr>"
    using claim_newD [OF assms(5)] by blast
  let ?db1 = "db \<lparr> db_events := events \<rparr>" and ?r = "claimed_row L i key rec"
  have g1: "good L db ?db1" using append_in_transaction_good(1) [OF inv p app] .
  obtain e where e: "e \<in> set events" "record_from_row L e = Inr rec" "ev_request_hash e = request_hash_of L i"
    "idem_key e = (in_tenant_id i, in_principal_id i, ''intent'', Some key)"
    using append_in_transaction_good(2) [OF inv p app] i by auto
  then have "execution_ok L events ?r"
    using record_from_row_matches [OF e(2)]
    by (auto simp: execution_ok_def claimed_row_def intent_of_def matches_row_def)
  moreover have "xkey ?r \<notin> xkey ` set (db_executions db)"
    using free by (simp add: xkey_def claimed_row_def)
  ultimately have "good L ?db1 (?db1 \<lparr> db_executions := db_executions db @ [?r] \<rparr>)"
    using g1 by (intro good_executions) (auto simp: good_def audit_inv_def grows_append)
  with g1 show ?thesis unfolding db' using good_trans by fastforce
qed

lemma claim_execution_good:
  assumes "audit_inv L db" "stored_payload_ok L i"
  shows "good L db (fst (claim_execution L tk i db))"
  unfolding claim_execution_def
  by (rule good_transact [OF assms(1)])
    (use assms claim_new_good [OF assms(1) stored_payload_okD [OF assms(2)]] good_refl [OF assms(1)] in
      \<open>auto simp: validate_execution_event_def split: sum.splits option.splits if_splits\<close>)

lemma execution_record_text:
  "execution_record_from_row L r = Inr x \<Longrightarrow> xc_sanitized_result_json r = Some txt \<Longrightarrow>
   value_parse (al_serde L) txt \<noteq> None"
  by (auto simp: execution_record_from_row_def Let_def split: sum.splits option.splits)

text \<open>Reading the record back is what makes the stored result readable for ever.\<close>

lemma set_state_readable:
  assumes inv: "audit_inv L db" and s: "set_state t p k st (Some txt) upd L db = Inr (db', rec)"
  shows "value_parse (al_serde L) txt \<noteq> None"
proof -
  let ?P = "\<lambda>r. by_key t p k r \<and> xc_state r = ''claimed''"
  let ?f = "\<lambda>r. r \<lparr> xc_state := state_name st, xc_sanitized_result_json := Some txt, xc_updated_at_ms := upd \<rparr>"
  let ?ex = "db_executions db"
  have n: "sql_changed ?P ?ex = 1" and db': "db' = db \<lparr> db_executions := sql_update ?P ?f ?ex \<rparr>"
    and l: "load_execution_record L t p k db' = Inr (Some rec)"
    using s by (auto simp: set_state_def Let_def split: if_splits sum.splits option.splits)
  obtain r where r: "r \<in> set ?ex" "xkey r = (t, p, k)" "xc_state r = ''claimed''"
    using n by (force simp: sql_changed_def by_key_iff filter_eq_Cons_iff length_Suc_conv)
  have "find (by_key t p k) ?ex = Some r"
    using find_unique [OF _ r(1), of xkey] inv r(2) by (simp add: audit_inv_def by_key_iff [abs_def])
  then have "find (by_key t p k) (sql_update ?P ?f ?ex) = Some (?f r)"
    using r by (subst find_sql_update) (auto simp: by_key_iff xkey_def)
  then have "execution_record_from_row L (?f r) = Inr rec"
    using l by (auto simp: load_execution_record_def db' split: sum.splits)
  then show ?thesis by (rule execution_record_text) simp
qed

lemma set_state_good:
  assumes inv: "audit_inv L db"
    and form: "(st = Completed \<and> (\<exists>txt. res = Some txt)) \<or> (st = Indeterminate \<and> res = None)"
    and "set_state t p k st res upd L db = Inr (db', rec)"
  shows "good L db db'"
proof -
  have st: "(st = Completed \<and> (\<exists>txt. res = Some txt \<and> value_parse (al_serde L) txt \<noteq> None)) \<or>
      (st = Indeterminate \<and> res = None)"
  proof -
    have "value_parse (al_serde L) s \<noteq> None" if "res = Some s" for s
      using assms(3) unfolding that by (rule set_state_readable [OF inv])
    then show ?thesis using form by auto
  qed
  let ?P = "\<lambda>r. by_key t p k r \<and> xc_state r = ''claimed''"
  let ?f = "\<lambda>r. r \<lparr> xc_state := state_name st, xc_sanitized_result_json := res, xc_updated_at_ms := upd \<rparr>"
  let ?ex = "sql_update ?P ?f (db_executions db)"
  have db': "db' = db \<lparr> db_executions := ?ex \<rparr>"
    using assms(3) by (auto simp: set_state_def Let_def split: if_splits sum.splits option.splits)
  have fwd: "execution_forward r (?f r)" if "?P r" for r
    using that st execution_forward_intros by auto
  have "grows execution_forward (db_executions db) ?ex"
    using fwd by (intro grows_update) auto
  moreover have "map xkey ?ex = map xkey (db_executions db)"
    by (rule map_sql_update) (simp add: xkey_def)
  moreover have "execution_ok L (db_events db) (?f r)" if "execution_ok L (db_events db) r" for r
    using that st by (auto simp: execution_ok_def intent_of_def)
  ultimately show ?thesis
    unfolding db' using inv
    by (intro good_executions) (auto simp: audit_inv_def list_all_iff set_sql_update)
qed

lemma complete_execution_good:
  assumes inv: "audit_inv L db" and p: "stored_payload_ok L i"
  shows "good L db (fst (complete_execution L tk i v db))"
proof -
  have step: "good L db db'"
    if vp: "validate_metadata_payload (in_payload i) = Inr ()"
      and a: "append_in_transaction L tk i (request_hash_of L i) (payload_text L i) (db_events db) = Inr (events, rec)"
      and s: "set_state t q k Completed (Some (canonical_json_string (al_serde L) v)) upd L
        (db \<lparr> db_events := events \<rparr>) = Inr (db', x)"
    for events rec t q k upd db' x
    using good_trans [OF append_in_transaction_good(1) [OF inv stored_payload_okD [OF p vp] a]]
      set_state_good [OF _ _ s] append_in_transaction_good(1) [OF inv stored_payload_okD [OF p vp] a]
    by (auto simp: good_def)
  show ?thesis
    unfolding complete_execution_def
    by (rule good_transact [OF inv])
      (use step good_refl [OF inv] in
        \<open>auto simp: Let_def split: sum.splits option.splits if_splits execution_state.splits\<close>)
qed

lemma mark_execution_indeterminate_good:
  assumes "audit_inv L db"
  shows "good L db (fst (mark_execution_indeterminate L clock t p k request db))"
  unfolding mark_execution_indeterminate_def
  by (rule good_transact [OF assms])
    (use set_state_good [OF assms disjI2, of Indeterminate None] good_refl [OF assms] in
      \<open>auto split: sum.splits option.splits execution_state.splits\<close>)

lemma load_execution_recordD:
  assumes "load_execution_record L t p k db = Inr (Some x)"
  shows "\<exists>r \<in> set (db_executions db). xkey r = (t, p, k) \<and> execution_record_from_row L r = Inr x \<and>
    find (by_key t p k) (db_executions db) = Some r"
proof -
  obtain r where "find (by_key t p k) (db_executions db) = Some r" "execution_record_from_row L r = Inr x"
    using assms by (auto simp: load_execution_record_def split: option.splits sum.splits)
  then show ?thesis using find_SomeD [of "by_key t p k"] by (auto simp: by_key_iff)
qed

lemma execution_record_sel:
  assumes "execution_record_from_row L r = Inr x"
  shows "xr_tenant_id x = xc_tenant_id r \<and> xr_principal_id x = xc_principal_id r \<and>
    xr_idempotency_key x = xc_idempotency_key r \<and> xr_request_hash x = xc_request_hash r \<and>
    state_name (xr_state x) = xc_state r \<and> xr_intent_sequence x = xc_intent_sequence r"
proof -
  have "state_name st = v" if "parse_execution_state v = Inr st" for v st
    using that by (auto simp: parse_execution_state_def split: if_splits)
  then show ?thesis
    using assms by (auto simp: execution_record_from_row_def Let_def split: sum.splits option.splits)
qed

lemma good_resolutions:
  assumes "audit_inv L db" "grows resolution_forward (db_resolutions db) rs"
    "distinct (map rkey rs)" "list_all (resolution_ok (db_events db) (db_executions db)) rs"
  shows "good L db (db \<lparr> db_resolutions := rs \<rparr>)"
  using assms by (simp add: good_def audit_inv_def moves_def grows_refl)

lemma reserve_resolution_good:
  assumes inv: "audit_inv L db" and p: "\<forall>h n. payload_ok L (resolution_payload input h n)"
    and x: "load_execution_record L (ri_tenant_id input) (ri_principal_id input) (ri_idempotency_key input) db = Inr (Some x)"
    and res: "reserve_resolution L tk input x db = Inr (db', y)"
  shows "good L db db'"
proof -
  let ?i = "execution_resolution_event L input x"
  have pi: "payload_ok L (in_payload ?i)" using p by (simp add: execution_resolution_event_def)
  obtain events rec ts where app: "append_in_transaction L tk ?i (request_hash_of L ?i) (payload_text L ?i)
      (db_events db) = Inr (events, rec)" and st: "xr_state x = Indeterminate"
    and free: "\<not> list_ex (res_by_key (ri_tenant_id input) (ri_principal_id input) (ri_idempotency_key input)) (db_resolutions db)"
    and db': "db' = db \<lparr> db_events := events, db_resolutions := db_resolutions db @ [reserved_row input (rec_sequence rec) ts] \<rparr>"
    using res by (auto simp: reserve_resolution_def store_resolution_def insert_resolution_def
        reserved_row_def Let_def split: if_splits sum.splits option.splits)
  let ?db1 = "db \<lparr> db_events := events \<rparr>" and ?q = "reserved_row input (rec_sequence rec) ts"
  have g1: "good L db ?db1" using append_in_transaction_good(1) [OF inv pi app] .
  obtain e where e: "e \<in> set events" "record_from_row L e = Inr rec" "ev_tenant_id e = ri_tenant_id input"
    using append_in_transaction_good(2) [OF inv pi app]
    by (auto simp: idem_key_def execution_resolution_event_def)
  obtain r where r: "r \<in> set (db_executions db)" "xc_state r = ''indeterminate''"
    "xkey r = (ri_tenant_id input, ri_principal_id input, ri_idempotency_key input)"
    using load_execution_recordD [OF x] execution_record_sel st by fastforce
  have "resolution_ok events (db_executions db) ?q"
    using e r record_from_row_matches [OF e(2)]
    by (auto simp: resolution_ok_def reserved_row_def rkey_def matches_row_def)
  moreover have "rkey ?q \<notin> rkey ` set (db_resolutions db)"
    using free by (auto simp: list_ex_iff by_key_iff rkey_def reserved_row_def)
  ultimately have "good L ?db1 (?db1 \<lparr> db_resolutions := db_resolutions db @ [?q] \<rparr>)"
    using g1 by (intro good_resolutions) (auto simp: good_def audit_inv_def grows_append)
  with g1 show ?thesis unfolding db' using good_trans by fastforce
qed

lemma begin_execution_resolution_good:
  assumes "audit_inv L db" "\<forall>h n. payload_ok L (resolution_payload input h n)"
  shows "good L db (fst (begin_execution_resolution L tk input db))"
  unfolding begin_execution_resolution_def
  by (rule good_transact [OF assms(1)])
    (use reserve_resolution_good [OF assms] good_refl [OF assms(1)] in
      \<open>auto simp: Let_def existing_resolution_def split: sum.splits option.splits\<close>)

lemma set_finalized_good:
  assumes inv: "audit_inv L db" and "set_finalized t p k db = Inr (db', x)"
  shows "good L db db'"
proof -
  let ?P = "\<lambda>r. res_by_key t p k r \<and> \<not> rr_finalized r"
  let ?rs = "sql_update ?P (\<lambda>r. r \<lparr> rr_finalized := True \<rparr>) (db_resolutions db)"
  have db': "db' = db \<lparr> db_resolutions := ?rs \<rparr>"
    using assms(2) by (auto simp: set_finalized_def Let_def split: if_splits sum.splits option.splits)
  have "grows resolution_forward (db_resolutions db) ?rs"
    by (intro grows_update) (auto simp: resolution_forward_def)
  moreover have "map rkey ?rs = map rkey (db_resolutions db)"
    by (rule map_sql_update) (simp add: rkey_def)
  ultimately show ?thesis
    unfolding db' using inv
    by (intro good_resolutions) (auto simp: audit_inv_def list_all_iff set_sql_update resolution_ok_def rkey_def)
qed

lemma finalize_execution_resolution_good:
  assumes "audit_inv L db"
  shows "good L db (fst (finalize_execution_resolution L input w db))"
  unfolding finalize_execution_resolution_def
  by (rule good_transact [OF assms])
    (use set_finalized_good [OF assms] good_refl [OF assms] in
      \<open>auto simp: Let_def split: sum.splits option.splits if_splits\<close>)

lemma good_streams:
  assumes "audit_inv L db" "distinct (map ss_tenant_id streams)"
  shows "good L db (db \<lparr> db_streams := streams \<rparr>)"
  using assms by (simp add: good_def audit_inv_def moves_def grows_refl)

lemma mark_stream_ambiguous_good:
  assumes "audit_inv L db"
  shows "good L db (fst (mark_stream_ambiguous clock t reason db))"
proof -
  have "distinct (map ss_tenant_id (block_stream t reason ts (db_streams db)))" for ts
    using assms
    by (auto simp: block_stream_def audit_inv_def list_ex_iff map_sql_update)
  then show ?thesis
    unfolding mark_stream_ambiguous_def
    by (intro good_transact [OF assms]) (auto intro!: good_streams [OF assms] split: sum.splits)
qed

lemma recover_witnessed_stream_good:
  assumes "audit_inv L db"
  shows "good L db (fst (recover_witnessed_stream L E clock t n h kid key db))"
proof -
  have "good L db db'" if "unblock_stream clock t y db = Inr (db', x)" for y db' x
    using that good_refl [OF assms] assms
    by (auto simp: unblock_stream_def Let_def audit_inv_def map_sql_update intro!: good_streams [OF assms]
        split: option.splits sum.splits if_splits)
  then show ?thesis
    unfolding recover_witnessed_stream_def
    by (intro good_transact [OF assms]) (auto split: sum.splits option.splits if_splits)
qed

lemma attach_witness_receipt_good:
  assumes inv: "audit_inv L db" and parse: "al_receipt_parse L (al_receipt_text L receipt) \<noteq> None"
  shows "good L db (fst (attach_witness_receipt L E receipt key db))"
proof -
  let ?f = "\<lambda>r. r \<lparr> ev_witness_receipt_json := Some (al_receipt_text L receipt) \<rparr>"
  let ?ev = "sql_update (receipt_slot L receipt) ?f (db_events db)"
  have ok: "events_ok L (db_events db)" using inv by (simp add: audit_inv_def)
  have keep: "map g ?ev = map g (db_events db)" if "\<And>r. g (?f r) = g r" for g :: "audit_row \<Rightarrow> 'x"
    using that by (intro map_sql_update)
  have fwd: "event_forward r (?f r)" if "receipt_slot L receipt r" for r
    using that by (cases r) (auto simp: event_forward_def receipt_slot_def)
  have "row_ok L (?f r)" if "row_ok L r" for r
    using that parse by (auto simp: row_ok_def row_hash_def)
  then have "list_all (row_ok L) ?ev" using ok by (auto simp: events_ok_def list_all_iff set_sql_update)
  moreover have "chain_ok (tenant_rows t ?ev)" for t
  proof -
    have "tenant_rows t ?ev = sql_update (receipt_slot L receipt) ?f (tenant_rows t (db_events db))"
      by (simp add: tenant_rows_def sql_update_def filter_map comp_def if_distrib [of ev_tenant_id] cong: if_cong)
    moreover have "chained p (sql_update (receipt_slot L receipt) ?f rs) = chained p rs" for p rs
      by (induction rs arbitrary: p) (auto simp: sql_update_def)
    ultimately show ?thesis
      using ok by (auto simp: events_ok_def chain_ok_def map_sql_update)
  qed
  moreover have "filter (\<lambda>r. ev_idempotency_key r \<noteq> None) ?ev =
      sql_update (receipt_slot L receipt) ?f (filter (\<lambda>r. ev_idempotency_key r \<noteq> None) (db_events db))"
    by (simp add: sql_update_def filter_map comp_def if_distrib [of ev_idempotency_key] cong: if_cong)
  ultimately have "events_ok L ?ev"
    using ok keep [of ev_event_id]
    by (auto simp: events_ok_def map_sql_update idem_key_def [abs_def])
  moreover have "grows event_forward (db_events db) ?ev" using fwd by (intro grows_update) auto
  ultimately have "good L db (db \<lparr> db_events := ?ev \<rparr>)" using good_events [OF inv] by blast
  then show ?thesis
    unfolding attach_witness_receipt_def
    by (intro good_transact [OF inv]) (auto split: sum.splits if_splits)
qed

lemma audit_step_good:
  assumes "audit_inv L db" "audit_op_ok L x"
  shows "good L db (fst (audit_step L E x db))"
  using assms
  by (cases x)
    (auto simp: audit_append_good claim_execution_good complete_execution_good
      mark_execution_indeterminate_good begin_execution_resolution_good
      finalize_execution_resolution_good mark_stream_ambiguous_good attach_witness_receipt_good
      recover_witnessed_stream_good)


section \<open>The contracts of the audit store\<close>

definition execution_entry :: "audit_db \<Rightarrow> string \<times> string \<times> string \<Rightarrow> execution_row option" where
  "execution_entry db key = find (\<lambda>r. xkey r = key) (db_executions db)"

definition event_entry :: "audit_db \<Rightarrow> string \<times> nat \<Rightarrow> audit_row option" where
  "event_entry db key = find (\<lambda>r. (ev_tenant_id r, ev_sequence r) = key) (db_events db)"

definition resolution_entry :: "audit_db \<Rightarrow> string \<times> string \<times> string \<Rightarrow> resolution_row option" where
  "resolution_entry db key = find (\<lambda>q. rkey q = key) (db_resolutions db)"

definition has_claim :: "audit_db \<Rightarrow> string \<times> string \<times> string \<Rightarrow> bool" where
  "has_claim db key = (execution_entry db key \<noteq> None)"

fun acquires :: "string \<times> string \<times> string \<Rightarrow> audit_op \<Rightarrow> audit_reply \<Rightarrow> bool" where
  "acquires key (Claim tk i) (ClaimReply (Inr (Acquired rec))) =
     (key = (xr_tenant_id rec, xr_principal_id rec, xr_idempotency_key rec))"
| "acquires key _ _ = False"

lemma load_execution_entry:
  "load_execution_record L t p k db =
     (case execution_entry db (t, p, k) of
        None \<Rightarrow> Inr None
      | Some r \<Rightarrow> (case execution_record_from_row L r of Inl e \<Rightarrow> Inl e | Inr x \<Rightarrow> Inr (Some x)))"
  by (simp add: load_execution_record_def execution_entry_def by_key_iff [abs_def])

text \<open>A claim is acquired only on a free key, and takes it.\<close>

lemma claim_acquired:
  assumes "snd (claim_execution L tk i db) = Inr (Acquired rec)"
  shows "\<exists>key. in_idempotency_key i = Some key \<and> execution_entry db (in_tenant_id i, in_principal_id i, key) = None \<and>
    (xr_tenant_id rec, xr_principal_id rec, xr_idempotency_key rec) = (in_tenant_id i, in_principal_id i, key) \<and>
    xr_state rec = Claimed \<and> xr_request_hash rec = request_hash_of L i \<and>
    ensure_stream_writable_in (in_tenant_id i) db = Inr () \<and>
    (\<exists>r. execution_entry (fst (claim_execution L tk i db)) (in_tenant_id i, in_principal_id i, key) = Some r \<and>
       execution_record_from_row L r = Inr rec \<and> xc_state r = ''claimed'')"
proof -
  obtain key db' where k: "in_idempotency_key i = Some key" and new: "claim_new L tk i key db = Inr (db', Acquired rec)"
    and f: "fst (claim_execution L tk i db) = db'"
    using assms by (auto simp: claim_execution_def transact_def split: sum.splits option.splits prod.splits)
  let ?key = "(in_tenant_id i, in_principal_id i, key)"
  obtain events irec where w: "ensure_stream_writable_in (in_tenant_id i) db = Inr ()"
    and free: "?key \<notin> xkey ` set (db_executions db)"
    and db': "db' = db \<lparr> db_events := events, db_executions := db_executions db @ [claimed_row L i key irec] \<rparr>"
    and rec: "execution_record_from_row L (claimed_row L i key irec) = Inr rec"
    using claim_newD [OF new] by auto
  let ?r = "claimed_row L i key irec"
  have "execution_entry db ?key = None"
    using free unfolding execution_entry_def find_None by (metis image_eqI)
  moreover from this have "execution_entry db' ?key = Some ?r"
    by (simp add: execution_entry_def db' find_append xkey_def claimed_row_def)
  ultimately show ?thesis
    using k w f rec execution_record_sel [OF rec]
    by (cases "xr_state rec") (auto simp: claimed_row_def)
qed

interpretation execution_progress: progress_store "audit_step L E" "audit_op_ok L" "audit_inv L"
  execution_entry execution_forward for L E
proof
  fix s x
  assume "audit_inv L s" "audit_op_ok L x"
  then show "audit_inv L (fst (audit_step L E x s))"
    using audit_step_good [of L s x E] by (simp add: good_def)
next
  fix s x key r
  assume "audit_inv L s" "audit_op_ok L x" "execution_entry s key = Some r"
  then show "\<exists>r'. execution_entry (fst (audit_step L E x s)) key = Some r' \<and> execution_forward r r'"
    using audit_step_good [of L s x E] execution_forward_key
    unfolding execution_entry_def good_def moves_def by (intro grows_find) auto
qed (auto intro: execution_forward_trans)

interpretation event_progress: progress_store "audit_step L E" "audit_op_ok L" "audit_inv L"
  event_entry event_forward for L E
proof
  fix s x key r
  assume "audit_inv L s" "audit_op_ok L x" "event_entry s key = Some r"
  then show "\<exists>r'. event_entry (fst (audit_step L E x s)) key = Some r' \<and> event_forward r r'"
    using audit_step_good [of L s x E] event_forward_key
    unfolding event_entry_def good_def moves_def by (intro grows_find) auto
qed (auto intro: event_forward_trans)

interpretation resolution_progress: progress_store "audit_step L E" "audit_op_ok L" "audit_inv L"
  resolution_entry resolution_forward for L E
proof
  fix s x key r
  assume "audit_inv L s" "audit_op_ok L x" "resolution_entry s key = Some r"
  then show "\<exists>r'. resolution_entry (fst (audit_step L E x s)) key = Some r' \<and> resolution_forward r r'"
    using audit_step_good [of L s x E] resolution_forward_key
    unfolding resolution_entry_def good_def moves_def by (intro grows_find) auto
qed (auto intro: resolution_forward_trans)

interpretation claim_once: once_store "audit_step L E" "audit_op_ok L" "audit_inv L" has_claim acquires
  for L E
proof
  fix s x key
  assume "audit_inv L s" "audit_op_ok L x" "has_claim s key"
  then show "has_claim (fst (audit_step L E x s)) key"
    using execution_progress.entry_step unfolding has_claim_def by blast
next
  fix s x key
  assume "acquires key x (snd (audit_step L E x s))"
  then obtain tk i rec where x: "x = Claim tk i" "snd (claim_execution L tk i s) = Inr (Acquired rec)"
    and key: "key = (xr_tenant_id rec, xr_principal_id rec, xr_idempotency_key rec)"
    by (cases "(key, x, snd (audit_step L E x s))" rule: acquires.cases) auto
  show "\<not> has_claim s key" "has_claim (fst (audit_step L E x s)) key"
    using claim_acquired [OF x(2)] x(1) key by (auto simp: has_claim_def)
qed


section \<open>Properties of the audit store\<close>

lemma audit_inv_run: "list_all (audit_op_ok L) ops \<Longrightarrow> audit_inv L (fst (run (audit_step L E) ops empty_db))"
  by (intro execution_progress.inv_run) simp_all

text \<open>
  In any serialised history of store operations on an initially empty database, one
  principal-scoped retry key is acquired at most once: at most one caller is ever told that it may
  invoke the executor.
\<close>

theorem execution_acquired_at_most_once:
  assumes "list_all (audit_op_ok L) ops"
  shows "granted (acquires key) ops (snd (run (audit_step L E) ops empty_db)) \<le> 1"
  using assms by (intro claim_once.at_most_once) simp_all

lemma execution_row_ok:
  assumes "audit_inv L db" "execution_entry db key = Some r"
  shows "execution_ok L (db_events db) r"
  using assms find_SomeD unfolding execution_entry_def audit_inv_def list_all_iff by metis

lemma execution_ok_decodes: "execution_ok L events r \<Longrightarrow> \<exists>x. execution_record_from_row L r = Inr x"
  by (auto simp: execution_ok_def execution_record_from_row_def parse_execution_state_def Let_def)

lemma execution_run_forward:
  assumes "list_all (audit_op_ok L) (ops @ later)"
    and "execution_entry (fst (run (audit_step L E) ops empty_db)) key = Some r"
  shows "\<exists>r'. execution_entry (fst (run (audit_step L E) (ops @ later) empty_db)) key = Some r' \<and>
    execution_forward r r'"
proof -
  have ops: "list_all (audit_op_ok L) ops" using assms(1) by simp
  show ?thesis
    using execution_progress.entry_run [OF audit_inv_run [OF ops, of E], where E = E and xs = later
        and k = key and v = r] assms by (auto simp: run_append)
qed

lemma execution_lifecycle_fixed:
  assumes "list_all (audit_op_ok L) (ops @ later)" "xc_state r \<noteq> ''claimed''"
    and "execution_entry (fst (run (audit_step L E) ops empty_db)) key = Some r"
  shows "execution_entry (fst (run (audit_step L E) (ops @ later) empty_db)) key = Some r"
  using execution_run_forward [OF assms(1,3)] assms(2) by (auto simp: execution_forward_def)

lemma claim_existing_record:
  assumes "list_all (audit_op_ok L) ops" and "db = fst (run (audit_step L E) ops empty_db)"
    and "in_idempotency_key i = Some k"
    and "execution_entry db (in_tenant_id i, in_principal_id i, k) = Some r"
    and "validate_execution_event i Intent = Inr ()" and "validate_metadata_payload (in_payload i) = Inr ()"
  shows "\<exists>x. execution_record_from_row L r = Inr x \<and>
    claim_execution L tk i db =
      (db, if xc_request_hash r = request_hash_of L i then Inr (Existing x) else Inl IdempotencyConflict)"
proof -
  have "audit_inv L db" using audit_inv_run [OF assms(1)] assms(2) by simp
  then obtain x where "execution_record_from_row L r = Inr x"
    using execution_row_ok [OF _ assms(4)] execution_ok_decodes by blast
  then show ?thesis
    using assms(3-6) execution_record_sel [of L r x]
    by (auto simp: claim_execution_def load_execution_entry ensure_execution_hash_def transact_def)
qed

text \<open>What a successful completion leaves in the ledger.\<close>

lemma set_state_entry:
  assumes "set_state t p k st res upd L db = Inr (db', x)" "execution_entry db (t, p, k) = Some r0"
    and "xc_state r0 = ''claimed''"
  shows "\<exists>r. execution_entry db' (t, p, k) = Some r \<and> execution_record_from_row L r = Inr x \<and>
    xc_request_hash r = xc_request_hash r0 \<and> xc_state r = state_name st"
proof -
  let ?P = "\<lambda>r. by_key t p k r \<and> xc_state r = ''claimed''"
  let ?f = "\<lambda>r. r \<lparr> xc_state := state_name st, xc_sanitized_result_json := res, xc_updated_at_ms := upd \<rparr>"
  have db': "db' = db \<lparr> db_executions := sql_update ?P ?f (db_executions db) \<rparr>"
    and l: "load_execution_record L t p k db' = Inr (Some x)"
    using assms(1) by (auto simp: set_state_def Let_def split: if_splits sum.splits option.splits)
  have "execution_entry db' (t, p, k) =
      map_option (\<lambda>r. if ?P r then ?f r else r) (execution_entry db (t, p, k))"
    unfolding execution_entry_def db' by (simp add: find_sql_update xkey_def)
  moreover have "?P r0"
    using assms(2,3) find_SomeD [of "\<lambda>r. xkey r = (t, p, k)"] by (auto simp: execution_entry_def by_key_iff)
  ultimately have e: "execution_entry db' (t, p, k) = Some (?f r0)" using assms(2) by simp
  then have "execution_record_from_row L (?f r0) = Inr x"
    using l by (auto simp: load_execution_entry split: sum.splits)
  with e show ?thesis by simp
qed

lemma complete_recorded:
  assumes "complete_execution L tk i v db = (db', Inr rec)"
  shows "\<exists>k r. in_idempotency_key i = Some k \<and>
    execution_entry db' (in_tenant_id i, in_principal_id i, k) = Some r \<and>
    execution_record_from_row L r = Inr rec \<and> xr_request_hash rec = request_hash_of L i \<and>
    xr_state rec = Completed"
proof -
  obtain k old where k: "in_idempotency_key i = Some k"
    and l: "load_execution_record L (in_tenant_id i) (in_principal_id i) k db = Inr (Some old)"
    and h: "ensure_execution_hash old (request_hash_of L i) = Inr ()"
    and c: "(xr_state old = Completed \<and> db' = db \<and> rec = old) \<or>
      (xr_state old = Claimed \<and> (\<exists>events res upd. set_state (in_tenant_id i) (in_principal_id i) k
         Completed res upd L (db \<lparr> db_events := events \<rparr>) = Inr (db', rec)))"
    using assms
    by (auto simp: complete_execution_def transact_def Let_def
        split: sum.splits option.splits if_splits execution_state.splits) blast+
  let ?key = "(in_tenant_id i, in_principal_id i, k)"
  obtain r0 where r0: "execution_entry db ?key = Some r0" "execution_record_from_row L r0 = Inr old"
    using l by (auto simp: load_execution_entry split: option.splits sum.splits)
  have hash: "xc_request_hash r0 = request_hash_of L i"
    using h execution_record_sel [OF r0(2)] by (auto simp: ensure_execution_hash_def split: if_splits)
  from c show ?thesis
  proof
    assume "xr_state old = Completed \<and> db' = db \<and> rec = old"
    then show ?thesis using k r0 hash execution_record_sel [OF r0(2)] by auto
  next
    assume "xr_state old = Claimed \<and> (\<exists>events res upd. set_state (in_tenant_id i) (in_principal_id i) k
         Completed res upd L (db \<lparr> db_events := events \<rparr>) = Inr (db', rec))"
    then obtain events res upd where s: "set_state (in_tenant_id i) (in_principal_id i) k Completed res upd L
        (db \<lparr> db_events := events \<rparr>) = Inr (db', rec)" and "xc_state r0 = ''claimed''"
      using execution_record_sel [OF r0(2)] by auto
    moreover have "execution_entry (db \<lparr> db_events := events \<rparr>) ?key = Some r0"
      using r0(1) by (simp add: execution_entry_def)
    ultimately obtain r where r: "execution_entry db' ?key = Some r" "execution_record_from_row L r = Inr rec"
      "xc_request_hash r = xc_request_hash r0" "xc_state r = ''completed''"
      using set_state_entry [OF s] by auto
    then show ?thesis using k hash execution_record_sel [OF r(2)] by (cases "xr_state rec") auto
  qed
qed

text \<open>
  Execution records are never lost and change at most once after their claim: from
  claimed to completed with a result, or to indeterminate without one; key, request hash and intent
  sequence never change, and a completed or indeterminate record does not change at all.
\<close>

theorem execution_lifecycle_monotone:
  assumes "list_all (audit_op_ok L) (ops @ later)"
    and "execution_entry (fst (run (audit_step L E) ops empty_db)) key = Some r"
  shows "\<exists>r'. execution_entry (fst (run (audit_step L E) (ops @ later) empty_db)) key = Some r' \<and>
    xkey r' = xkey r \<and> xc_request_hash r' = xc_request_hash r \<and>
    xc_intent_sequence r' = xc_intent_sequence r \<and>
    (xc_state r \<noteq> ''claimed'' \<longrightarrow> r' = r) \<and>
    xc_state r' \<in> {''claimed'', ''completed'', ''indeterminate''} \<and>
    (xc_sanitized_result_json r' \<noteq> None \<longleftrightarrow> xc_state r' = ''completed'')"
proof -
  obtain r' where r': "execution_entry (fst (run (audit_step L E) (ops @ later) empty_db)) key = Some r'"
    "execution_forward r r'"
    using execution_run_forward [OF assms] by blast
  have "xc_state r' \<in> {''claimed'', ''completed'', ''indeterminate''} \<and>
      (xc_sanitized_result_json r' \<noteq> None \<longleftrightarrow> xc_state r' = ''completed'')"
    using execution_row_ok [OF audit_inv_run [OF assms(1)] r'(1)] by (auto simp: execution_ok_def)
  moreover have "xc_state r \<noteq> ''claimed'' \<longrightarrow> r' = r" using r'(2) by (auto simp: execution_forward_def)
  ultimately show ?thesis using r'(1) execution_forward_key [OF r'(2)] by blast
qed

text \<open>
  The audit log is append-only: a stored event is never removed or altered, except that
  a witness receipt may be attached once to an event that has none.
\<close>

theorem audit_events_append_only:
  assumes "list_all (audit_op_ok L) (ops @ later)"
    and "event_entry (fst (run (audit_step L E) ops empty_db)) key = Some r"
  shows "\<exists>r'. event_entry (fst (run (audit_step L E) (ops @ later) empty_db)) key = Some r' \<and>
    r' \<lparr> ev_witness_receipt_json := None \<rparr> = r \<lparr> ev_witness_receipt_json := None \<rparr> \<and>
    (ev_witness_receipt_json r \<noteq> None \<longrightarrow> r' = r)"
proof -
  have ops: "list_all (audit_op_ok L) ops" using assms(1) by simp
  obtain r' where "event_entry (fst (run (audit_step L E) (ops @ later) empty_db)) key = Some r'"
    "event_forward r r'"
    using event_progress.entry_run [OF audit_inv_run [OF ops, of E], where E = E and xs = later and k = key and v = r] assms
    by (auto simp: run_append)
  then show ?thesis by (auto simp: event_forward_def)
qed

lemma float_free_ops_ok:
  "metadata_round_trips L \<Longrightarrow> receipts_readable L \<Longrightarrow> list_all op_float_free ops \<Longrightarrow> list_all (audit_op_ok L) ops"
  using float_free_op_ok by (auto simp: list_all_iff)

text \<open>
  Property C33. Verification never raises a false alarm: after any history of store operations whose
  metadata payloads hold no floating-point number, the chain of every tenant (with a valid identifier)
  verifies, and the verified count is the number of that tenant's events. Every other payload that the
  validator admits is covered, and so is every execution result. The restriction is
  needed: \<open>float_metadata_breaks_chain\<close> below.
\<close>

theorem audit_chain_always_verifies:
  assumes "metadata_round_trips L" and "receipts_readable L" and "list_all op_float_free ops"
    and "validate_identifier ''tenant id'' t = Inr ()"
  shows "verify_tenant L t (fst (run (audit_step L E) ops empty_db)) =
    Inr (length (tenant_rows t (db_events (fst (run (audit_step L E) ops empty_db)))))"
  using audit_inv_run [OF float_free_ops_ok [OF assms(1-3)], of E] assms(4) verify_tenant_complete
  by (simp add: verify_tenant_def audit_inv_def)

text \<open>
  Reusing a retry key never starts a second execution: with the same canonical request
  the stored record is returned and nothing is written, with a different one the call fails with an
  idempotency conflict and nothing is written.
\<close>

theorem claim_existing_key:
  assumes "list_all (audit_op_ok L) ops" and "db = fst (run (audit_step L E) ops empty_db)"
    and "in_idempotency_key i = Some k"
    and "execution_entry db (in_tenant_id i, in_principal_id i, k) = Some r"
    and "validate_execution_event i Intent = Inr ()" and "validate_metadata_payload (in_payload i) = Inr ()"
  shows "\<exists>x. execution_record_from_row L r = Inr x \<and>
    claim_execution L tk i db =
      (db, if xc_request_hash r = request_hash_of L i then Inr (Existing x) else Inl IdempotencyConflict)"
  using assms by (rule claim_existing_record)


section \<open>A blocked stream\<close>

definition stream_blocked :: "string \<Rightarrow> audit_db \<Rightarrow> bool" where
  "stream_blocked t db = (case load_stream_state t db of None \<Rightarrow> False | Some s \<Rightarrow> ss_blocked s)"

definition event_content :: "audit_row \<Rightarrow> audit_row" where
  "event_content r = r \<lparr> ev_witness_receipt_json := None \<rparr>"

text \<open>Nothing of the tenant was appended, claimed or completed.\<close>

definition frozen :: "string \<Rightarrow> audit_db \<Rightarrow> audit_db \<Rightarrow> bool" where
  "frozen t db db' \<longleftrightarrow>
     map event_content (tenant_rows t (db_events db')) = map event_content (tenant_rows t (db_events db)) \<and>
     map xkey (filter (\<lambda>r. xc_tenant_id r = t) (db_executions db')) =
       map xkey (filter (\<lambda>r. xc_tenant_id r = t) (db_executions db)) \<and>
     filter (\<lambda>r. xc_tenant_id r = t \<and> xc_state r = ''completed'') (db_executions db') =
       filter (\<lambda>r. xc_tenant_id r = t \<and> xc_state r = ''completed'') (db_executions db)"

lemma frozen_refl [simp]: "frozen t db db"
  by (simp add: frozen_def)

lemma not_writable: "stream_blocked t db \<Longrightarrow> \<exists>e. ensure_stream_writable_in t db = Inl e"
  by (auto simp: stream_blocked_def ensure_stream_writable_in_def split: option.splits)

lemma append_in_transaction_tenant:
  assumes "append_in_transaction L tk i h p rows = Inr (rows', rec)" "in_tenant_id i \<noteq> t"
  shows "tenant_rows t rows' = tenant_rows t rows"
proof -
  have "append_fresh L tk i h p rows = Inr (rows', rec) \<Longrightarrow> tenant_rows t rows' = tenant_rows t rows"
    using assms(2)
    by (auto simp: append_fresh_def insert_event_def tenant_rows_def split: prod.splits sum.splits option.splits if_splits)
  then show ?thesis
    using assms(1) by (auto simp: append_in_transaction_def split: option.splits sum.splits)
qed

lemma frozen_events:
  "tenant_rows t rows = tenant_rows t (db_events db) \<Longrightarrow> frozen t db (db \<lparr> db_events := rows \<rparr>)"
  by (simp add: frozen_def)

lemma frozen_set_state:
  assumes "set_state u p k st res upd L db = Inr (db', x)" "st = Completed \<longrightarrow> u \<noteq> t" "st \<noteq> Claimed"
  shows "frozen t db db' \<and> db_streams db' = db_streams db"
proof -
  let ?P = "\<lambda>r. by_key u p k r \<and> xc_state r = ''claimed''"
  let ?f = "\<lambda>r. r \<lparr> xc_state := state_name st, xc_sanitized_result_json := res, xc_updated_at_ms := upd \<rparr>"
  have db': "db' = db \<lparr> db_executions := sql_update ?P ?f (db_executions db) \<rparr>"
    using assms(1) by (auto simp: set_state_def Let_def split: if_splits sum.splits option.splits)
  have "map xkey (filter (\<lambda>r. xc_tenant_id r = t) (sql_update ?P ?f xs)) =
      map xkey (filter (\<lambda>r. xc_tenant_id r = t) xs)" for xs
    by (induction xs) (auto simp: sql_update_def xkey_def)
  moreover have "filter (\<lambda>r. xc_tenant_id r = t \<and> xc_state r = ''completed'') (sql_update ?P ?f xs) =
      filter (\<lambda>r. xc_tenant_id r = t \<and> xc_state r = ''completed'') xs" for xs
    using assms(2,3) by (induction xs) (cases st; auto simp: sql_update_def by_key_def)+
  ultimately show ?thesis by (simp add: frozen_def db')
qed

text \<open>The stream operations of other tenants, and what a step may do to this one.\<close>

definition held :: "string \<Rightarrow> audit_db \<Rightarrow> audit_db \<Rightarrow> bool" where
  "held t db db' \<longleftrightarrow> frozen t db db' \<and> stream_blocked t db'"

lemma held_transact:
  "stream_blocked t db \<Longrightarrow> (\<And>db' x. r = Inr (db', x) \<Longrightarrow> held t db db') \<Longrightarrow> held t db (fst (transact db r))"
  by (auto simp: fst_transact held_def split: sum.split)

lemma stream_blocked_same: "db_streams db' = db_streams db \<Longrightarrow> stream_blocked t db' = stream_blocked t db"
  by (simp add: stream_blocked_def load_stream_state_def)

lemma held_same_streams:
  "frozen t db db' \<Longrightarrow> db_streams db' = db_streams db \<Longrightarrow> stream_blocked t db \<Longrightarrow> held t db db'"
  using stream_blocked_same [of db' db t] by (simp add: held_def)

lemma held_append:
  assumes b: "stream_blocked t db" shows "held t db (fst (audit_append L tk i db))"
proof -
  have "held t db (db \<lparr> db_events := events \<rparr>)"
    if w: "ensure_stream_writable_in (in_tenant_id i) db = Inr ()"
      and a: "append_in_transaction L tk i (request_hash_of L i) (payload_text L i) (db_events db) = Inr (events, rec)"
    for events rec
  proof -
    have n: "in_tenant_id i \<noteq> t" using w not_writable [OF b] by auto
    show ?thesis
      using append_in_transaction_tenant [OF a n] b by (intro held_same_streams frozen_events) simp_all
  qed
  then show ?thesis
    unfolding audit_append_def by (intro held_transact [OF b]) (auto split: sum.splits)
qed

lemma held_claim:
  assumes b: "stream_blocked t db" shows "held t db (fst (claim_execution L tk i db))"
proof -
  have "held t db db'" if new: "claim_new L tk i key db = Inr (db', c)" for key db' c
  proof -
    obtain events irec where ev: "append_in_transaction L tk i (request_hash_of L i) (payload_text L i) (db_events db) = Inr (events, irec)"
      and w: "ensure_stream_writable_in (in_tenant_id i) db = Inr ()"
      and db': "db' = db \<lparr> db_events := events, db_executions := db_executions db @ [claimed_row L i key irec] \<rparr>"
      using claim_newD [OF new] by blast
    have "in_tenant_id i \<noteq> t" using w not_writable [OF b] by auto
    then show ?thesis
      using append_in_transaction_tenant [OF ev] b
      by (intro held_same_streams) (auto simp: db' frozen_def claimed_row_def)
  qed
  moreover have "held t db db" using b by (simp add: held_def)
  ultimately show ?thesis
    unfolding claim_execution_def
    by (intro held_transact [OF b]) (auto split: sum.splits option.splits)
qed

lemma frozen_trans: "frozen t a b \<Longrightarrow> frozen t b c \<Longrightarrow> frozen t a c"
  by (simp add: frozen_def)

lemma held_complete:
  assumes b: "stream_blocked t db" shows "held t db (fst (complete_execution L tk i v db))"
proof -
  have "held t db db'"
    if w: "ensure_stream_writable_in (in_tenant_id i) db = Inr ()"
      and a: "append_in_transaction L tk i (request_hash_of L i) (payload_text L i) (db_events db) = Inr (events, rec)"
      and s: "set_state (in_tenant_id i) p k Completed res upd L (db \<lparr> db_events := events \<rparr>) = Inr (db', x)"
    for events rec p k res upd db' x
  proof -
    have n: "in_tenant_id i \<noteq> t" using w not_writable [OF b] by auto
    have "frozen t db (db \<lparr> db_events := events \<rparr>)"
      using append_in_transaction_tenant [OF a n] by (intro frozen_events)
    moreover have "frozen t (db \<lparr> db_events := events \<rparr>) db' \<and> db_streams db' = db_streams db"
      using frozen_set_state [OF s] n by simp
    ultimately show ?thesis using b frozen_trans by (blast intro: held_same_streams)
  qed
  moreover have "held t db db" using b by (simp add: held_def)
  ultimately show ?thesis
    unfolding complete_execution_def
    by (intro held_transact [OF b])
      (auto simp: Let_def split: sum.splits option.splits if_splits execution_state.splits)
qed

lemma held_mark:
  assumes b: "stream_blocked t db"
  shows "held t db (fst (mark_execution_indeterminate L clock u p k request db))"
proof -
  have "held t db db'" if "set_state u p k Indeterminate None upd L db = Inr (db', x)" for upd db' x
    using frozen_set_state [OF that, of t] b by (auto intro: held_same_streams)
  moreover have "held t db db" using b by (simp add: held_def)
  ultimately show ?thesis
    unfolding mark_execution_indeterminate_def
    by (intro held_transact [OF b]) (auto split: sum.splits option.splits execution_state.splits)
qed

lemma held_begin:
  assumes b: "stream_blocked t db" shows "held t db (fst (begin_execution_resolution L tk input db))"
proof -
  have "held t db db'"
    if w: "ensure_stream_writable_in (ri_tenant_id input) db = Inr ()"
      and r: "reserve_resolution L tk input x db = Inr (db', y)" for x db' y
  proof -
    let ?i = "execution_resolution_event L input x"
    have n: "in_tenant_id ?i \<noteq> t"
      using w not_writable [OF b] by (auto simp: execution_resolution_event_def)
    obtain events rec rs where a: "append_in_transaction L tk ?i (request_hash_of L ?i) (payload_text L ?i)
        (db_events db) = Inr (events, rec)" and db': "db' = db \<lparr> db_events := events, db_resolutions := rs \<rparr>"
      using r by (auto simp: reserve_resolution_def store_resolution_def Let_def
          split: if_splits sum.splits option.splits)
    show ?thesis
      using append_in_transaction_tenant [OF a n] b
      by (intro held_same_streams) (auto simp: db' frozen_def)
  qed
  moreover have "held t db db" using b by (simp add: held_def)
  ultimately show ?thesis
    unfolding begin_execution_resolution_def
    by (intro held_transact [OF b])
      (auto simp: Let_def existing_resolution_def split: sum.splits option.splits)
qed

lemma held_finalize:
  assumes b: "stream_blocked t db" shows "held t db (fst (finalize_execution_resolution L input w db))"
proof -
  have "held t db db'" if "set_finalized u p k db = Inr (db', x)" for u p k db' x
    using that b by (intro held_same_streams)
      (auto simp: set_finalized_def Let_def frozen_def split: if_splits sum.splits option.splits)
  moreover have "held t db db" using b by (simp add: held_def)
  ultimately show ?thesis
    unfolding finalize_execution_resolution_def
    by (intro held_transact [OF b]) (auto simp: Let_def split: sum.splits option.splits if_splits)
qed

lemma held_ambiguous:
  assumes b: "stream_blocked t db" shows "held t db (fst (mark_stream_ambiguous clock u reason db))"
proof -
  have "stream_blocked t (db \<lparr> db_streams := block_stream u reason ts (db_streams db) \<rparr>)" for ts
    using b
    by (auto simp: stream_blocked_def load_stream_state_def block_stream_def find_append find_sql_update
        split: option.splits)
  then show ?thesis
    unfolding mark_stream_ambiguous_def
    by (intro held_transact [OF b]) (auto simp: held_def frozen_def split: sum.splits)
qed

lemma held_attach:
  assumes b: "stream_blocked t db" shows "held t db (fst (attach_witness_receipt L E receipt key db))"
proof -
  have "map event_content (tenant_rows t (sql_update (receipt_slot L receipt)
      (\<lambda>r. r \<lparr> ev_witness_receipt_json := m \<rparr>) rows)) = map event_content (tenant_rows t rows)" for rows m
    by (induction rows) (auto simp: sql_update_def tenant_rows_def event_content_def)
  then show ?thesis
    unfolding attach_witness_receipt_def using b
    by (intro held_transact [OF b]) (auto simp: frozen_def intro!: held_same_streams split: sum.splits if_splits)
qed

lemma held_recover:
  assumes b: "stream_blocked t db" and "u \<noteq> t"
  shows "held t db (fst (recover_witnessed_stream L E clock u n h kid key db))"
proof -
  have "held t db db'" if "unblock_stream clock u y db = Inr (db', x)" for y db' x
  proof -
    have "stream_blocked t (db \<lparr> db_streams := sql_update (\<lambda>s. ss_tenant_id s = u \<and> ss_blocked s)
        (\<lambda>s. s \<lparr> ss_blocked := False, ss_reason_code := None, ss_updated_at_ms := ts \<rparr>) (db_streams db) \<rparr>)" for ts
      using b assms(2)
      by (auto simp: stream_blocked_def load_stream_state_def find_sql_update split: option.splits dest: find_SomeD)
    then show ?thesis
      using that b
      by (auto simp: unblock_stream_def Let_def held_def frozen_def split: option.splits sum.splits if_splits)
  qed
  then show ?thesis
    unfolding recover_witnessed_stream_def
    by (intro held_transact [OF b]) (auto split: sum.splits option.splits if_splits)
qed

text \<open>
  A block is fail-closed and lasting: once a tenant's stream is blocked, no operation
  appends an event, claims or completes an execution for that tenant, and the stream stays blocked
  until a recovery of that very tenant is attempted.
\<close>

theorem blocked_stream_frozen:
  assumes "stream_blocked t db" and "\<forall>clock n h kid key. x \<noteq> Recover clock t n h kid key"
  shows "frozen t db (fst (audit_step L E x db)) \<and> stream_blocked t (fst (audit_step L E x db))"
proof -
  have "held t db (fst (audit_step L E x db))"
  proof (cases x)
    case (Recover clock u n h kid key)
    then show ?thesis using held_recover [OF assms(1), of u] assms(2) by simp
  qed (simp_all add: assms(1) held_append held_claim held_complete held_mark held_begin held_finalize
      held_ambiguous held_attach)
  then show ?thesis by (simp add: held_def)
qed

text \<open>
  A stream is unblocked only on evidence: when a recovery succeeds, the tenant's whole
  chain verified, its head is the expected one and carries a receipt of the expected key whose
  signature verifies for exactly that head, and the stream is writable again.
\<close>

theorem recovery_needs_witnessed_head:
  assumes "snd (recover_witnessed_stream L E clock t n h kid key db) = Inr y"
  shows "verify_tenant_in L t (db_events db) = Inr (ry_verified_records y) \<and>
    (\<exists>head receipt. load_head L t (db_events db) = Inr (Some head) \<and> rec_sequence head = n \<and>
       rec_event_hash head = h \<and> ry_recovered_sequence y = n \<and>
       rec_witness_receipt head = Some receipt \<and> rc_sequence receipt = n \<and> rc_event_hash receipt = h \<and>
       rc_witness_key_id receipt = kid \<and> verify_witness_receipt E receipt key = Inr ()) \<and>
    \<not> stream_blocked t (fst (recover_witnessed_stream L E clock t n h kid key db))"
proof -
  have un: "\<not> stream_blocked t db'" if u: "unblock_stream clock t r db = Inr (db', x)" for r db' x
  proof -
    obtain st where st: "load_stream_state t db = Some st"
      using u by (auto simp: unblock_stream_def split: option.splits)
    show ?thesis
    proof (cases "ss_blocked st")
      case True
      then obtain ts where "db' = db \<lparr> db_streams := sql_update (\<lambda>s. ss_tenant_id s = t \<and> ss_blocked s)
          (\<lambda>s. s \<lparr> ss_blocked := False, ss_reason_code := None, ss_updated_at_ms := ts \<rparr>) (db_streams db) \<rparr>"
        using u st by (auto simp: unblock_stream_def Let_def split: sum.splits if_splits)
      then show ?thesis
        using st True find_SomeD [of "\<lambda>s. ss_tenant_id s = t" "db_streams db" st]
        by (simp add: stream_blocked_def load_stream_state_def find_sql_update)
    next
      case False
      then show ?thesis using u st by (auto simp: unblock_stream_def stream_blocked_def)
    qed
  qed
  obtain v head receipt db' where v: "verify_tenant_in L t (db_events db) = Inr v"
    and head: "load_head L t (db_events db) = Inr (Some head)" "rec_sequence head = n" "rec_event_hash head = h"
    and rc: "rec_witness_receipt head = Some receipt" "verify_receipt_for_record E receipt head kid key = Inr ()"
    and u: "unblock_stream clock t \<lparr> ry_verified_records = v, ry_recovered_sequence = n \<rparr> db = Inr (db', y)"
    and f: "fst (recover_witnessed_stream L E clock t n h kid key db) = db'"
    using assms
    by (auto simp: recover_witnessed_stream_def transact_def split: sum.splits option.splits if_splits)
  have "y = \<lparr> ry_verified_records = v, ry_recovered_sequence = n \<rparr>"
    using u by (auto simp: unblock_stream_def Let_def split: option.splits sum.splits if_splits)
  then show ?thesis
    using v head rc f un [OF u]
    by (auto simp: verify_receipt_for_record_def split: if_splits)
qed

text \<open>
  A completed execution is replayed, never repeated: once a completion has been
  recorded, then after any further operations a claim of the same key with the same canonical request
  returns the stored record with the same result, and writes nothing.
\<close>

theorem completed_result_replayed:
  assumes "list_all (audit_op_ok L) (ops @ Complete tk outcome v # later)"
    and "db = fst (run (audit_step L E) ops empty_db)"
    and "complete_execution L tk outcome v db = (db1, Inr rec)"
    and "db2 = fst (run (audit_step L E) later db1)"
    and "in_tenant_id i = in_tenant_id outcome" and "in_principal_id i = in_principal_id outcome"
    and "in_idempotency_key i = in_idempotency_key outcome"
    and "request_hash_of L i = request_hash_of L outcome"
    and "validate_execution_event i Intent = Inr ()" and "validate_metadata_payload (in_payload i) = Inr ()"
  shows "xr_state rec = Completed \<and> claim_execution L tk' i db2 = (db2, Inr (Existing rec))"
proof -
  have run1: "fst (run (audit_step L E) (ops @ [Complete tk outcome v]) empty_db) = db1"
    using assms(2,3) by (simp add: run_append run_Cons del: run.simps(2))
  have run2: "fst (run (audit_step L E) ((ops @ [Complete tk outcome v]) @ later) empty_db) = db2"
    using run1 assms(4) by (simp only: run_append)
  obtain k r where k: "in_idempotency_key outcome = Some k"
    and r: "execution_entry db1 (in_tenant_id outcome, in_principal_id outcome, k) = Some r"
      "execution_record_from_row L r = Inr rec" "xr_request_hash rec = request_hash_of L outcome"
      "xr_state rec = Completed"
    using complete_recorded [OF assms(3)] by blast
  have "xc_state r \<noteq> ''claimed''" "xc_request_hash r = request_hash_of L outcome"
    using execution_record_sel [OF r(2)] r(3,4) by auto
  then have r2: "execution_entry db2 (in_tenant_id i, in_principal_id i, k) = Some r"
    using execution_lifecycle_fixed [where L = L and E = E and ops = "ops @ [Complete tk outcome v]"
        and later = later and r = r] assms(1,5,6) r(1) run1 run2
    by auto
  have ok: "list_all (audit_op_ok L) ((ops @ [Complete tk outcome v]) @ later)"
    using assms(1) by simp
  show ?thesis
    using claim_existing_record [OF ok run2 [symmetric], of i k r tk'] assms(7-10) k r r2
      \<open>xc_request_hash r = request_hash_of L outcome\<close> by auto
qed


section \<open>A concrete history\<close>

definition sample_row :: audit_row where
  "sample_row = next_row sample_audit_lib sample_tick sample_event []"

definition sample_record :: audit_record where
  "sample_record = projr (record_from_row sample_audit_lib sample_row)"

definition sample_claimed :: execution_row where
  "sample_claimed = claimed_row sample_audit_lib sample_event ''k'' sample_record"

definition sample_db :: audit_db where
  "sample_db = \<lparr> db_events = [sample_row], db_executions = [sample_claimed], db_resolutions = [],
     db_streams = [] \<rparr>"

lemma sample_event_sel [simp]:
  "in_tenant_id sample_event = ''t''" "in_principal_id sample_event = ''p''"
  "in_action sample_event = ''tool.invoke''" "in_phase sample_event = Intent"
  "in_request sample_event = JNull" "in_payload sample_event = JObject []"
  "in_idempotency_key sample_event = Some ''k''"
  by (simp_all add: sample_event_def)

lemma sample_tick_sel [simp]:
  "tk_event_id sample_tick = ''e1''" "tk_now sample_tick = 1000" "tk_later sample_tick = 1001"
  by (simp_all add: sample_tick_def)

lemma sample_row_decodes: "record_from_row sample_audit_lib sample_row = Inr sample_record"
proof -
  have "row_ok sample_audit_lib sample_row"
    unfolding sample_row_def using sample_payload_ok by (intro next_row_ok) simp
  then show ?thesis using record_from_row_ok by (fastforce simp: sample_record_def)
qed

lemma sample_row_sel [simp]:
  "ev_tenant_id sample_row = ''t''" "ev_sequence sample_row = 1" "ev_event_id sample_row = ''e1''"
  "ev_principal_id sample_row = ''p''" "ev_phase sample_row = ''intent''"
  "ev_idempotency_key sample_row = Some ''k''" "ev_witness_receipt_json sample_row = None"
  by (simp_all add: sample_row_def next_row_def tenant_rows_def)

lemma sample_append:
  "append_in_transaction sample_audit_lib sample_tick sample_event (request_hash_of sample_audit_lib sample_event)
     (payload_text sample_audit_lib sample_event) [] = Inr ([sample_row], sample_record)"
proof -
  have p: "payload_ok sample_audit_lib (in_payload sample_event)" using sample_payload_ok by simp
  show ?thesis
    using append_fresh_cases [OF events_ok_Nil p, of sample_tick]
    by (simp add: append_in_transaction_def load_by_idempotency_def query_record_def Let_def
        sample_record_def event_conflicts_def unix_timestamp_ms_def flip: sample_row_def)
qed

lemmas identifier_simps = validate_identifier_def trim_def has_control_def is_whitespace_def
  is_control_def is_continuation_def

lemma sample_event_valid [simp]:
  "validate_execution_event sample_event Intent = Inr ()" "validate_metadata_payload (JObject []) = Inr ()"
  by (simp_all add: validate_execution_event_def validate_input_def validate_metadata_payload_def identifier_simps)

lemma sample_claimed_sel [simp]:
  "xkey sample_claimed = (''t'', ''p'', ''k'')" "xc_state sample_claimed = ''claimed''"
  "xc_request_hash sample_claimed = request_hash_of sample_audit_lib sample_event"
  "xc_sanitized_result_json sample_claimed = None" "xc_tenant_id sample_claimed = ''t''"
  "xc_principal_id sample_claimed = ''p''" "xc_idempotency_key sample_claimed = ''k''"
  by (simp_all add: sample_claimed_def claimed_row_def xkey_def)

lemma sample_claimed_decodes:
  "\<exists>x. execution_record_from_row sample_audit_lib sample_claimed = Inr x \<and> xr_state x = Claimed \<and>
     xr_request_hash x = request_hash_of sample_audit_lib sample_event \<and>
     (xr_tenant_id x, xr_principal_id x, xr_idempotency_key x) = (''t'', ''p'', ''k'')"
  by (simp add: execution_record_from_row_def parse_execution_state_def)

lemma sample_claim:
  "\<exists>x. claim_execution sample_audit_lib sample_tick sample_event empty_db = (sample_db, Inr (Acquired x)) \<and>
     (xr_tenant_id x, xr_principal_id x, xr_idempotency_key x) = (''t'', ''p'', ''k'')"
  using sample_append sample_claimed_decodes
  by (auto simp: claim_execution_def claim_new_def load_execution_record_def empty_db_def sample_db_def
      ensure_stream_writable_in_def load_stream_state_def insert_execution_def by_key_iff transact_def Let_def
      sample_claimed_def [symmetric])

lemma sample_claim_step:
  "fst (audit_step sample_audit_lib E (Claim sample_tick sample_event) empty_db) = sample_db"
  using sample_claim by auto

lemma sample_entries:
  "execution_entry sample_db (''t'', ''p'', ''k'') = Some sample_claimed"
  "event_entry sample_db (''t'', 1) = Some sample_row"
  by (simp_all add: execution_entry_def event_entry_def sample_db_def)

abbreviation sample_mark :: audit_op where
  "sample_mark \<equiv> MarkIndeterminate 5 ''t'' ''p'' ''k'' JNull"

theorem execution_acquired_at_most_once_witness:
  "let ops = [Claim sample_tick sample_event, sample_mark, Claim sample_tick sample_event] in
   granted (acquires (''t'', ''p'', ''k'')) ops (snd (run (audit_step sample_audit_lib sample_ed25519) ops empty_db)) \<le> 1 \<and>
   acquires (''t'', ''p'', ''k'') (hd ops) (hd (snd (run (audit_step sample_audit_lib sample_ed25519) ops empty_db)))"
proof -
  have ok: "list_all (audit_op_ok sample_audit_lib)
      [Claim sample_tick sample_event, sample_mark, Claim sample_tick sample_event]"
    using sample_payload_ok stored_payload_okI by simp
  show ?thesis
    using execution_acquired_at_most_once [OF ok, of "(''t'', ''p'', ''k'')" sample_ed25519] sample_claim
    by (auto simp: Let_def split_def run_Cons simp del: run.simps(2) granted_simps)
qed

theorem execution_lifecycle_monotone_witness:
  "\<exists>r'. execution_entry (fst (run (audit_step sample_audit_lib sample_ed25519)
       ([Claim sample_tick sample_event] @ [sample_mark]) empty_db)) (''t'', ''p'', ''k'') = Some r' \<and>
     xkey r' = (''t'', ''p'', ''k'') \<and>
     xc_state r' \<in> {''claimed'', ''completed'', ''indeterminate''} \<and>
     (xc_sanitized_result_json r' \<noteq> None \<longleftrightarrow> xc_state r' = ''completed'')"
proof -
  have ok: "list_all (audit_op_ok sample_audit_lib) ([Claim sample_tick sample_event] @ [sample_mark])"
    using sample_payload_ok stored_payload_okI by simp
  have "execution_entry (fst (run (audit_step sample_audit_lib sample_ed25519)
      [Claim sample_tick sample_event] empty_db)) (''t'', ''p'', ''k'') = Some sample_claimed"
    using sample_entries(1) sample_claim_step by (simp add: run_Cons del: run.simps(2) audit_step.simps)
  from execution_lifecycle_monotone [OF ok this] show ?thesis unfolding sample_claimed_sel(1) by blast
qed

theorem audit_events_append_only_witness:
  "\<exists>r'. event_entry (fst (run (audit_step sample_audit_lib sample_ed25519)
       ([Claim sample_tick sample_event] @ [AttachReceipt sample_receipt ''w'']) empty_db)) (''t'', 1) = Some r' \<and>
     r' \<lparr> ev_witness_receipt_json := None \<rparr> = sample_row \<lparr> ev_witness_receipt_json := None \<rparr>"
proof -
  have ok: "list_all (audit_op_ok sample_audit_lib)
      ([Claim sample_tick sample_event] @ [AttachReceipt sample_receipt ''w''])"
    using sample_payload_ok stored_payload_okI by simp
  have "event_entry (fst (run (audit_step sample_audit_lib sample_ed25519)
      [Claim sample_tick sample_event] empty_db)) (''t'', 1) = Some sample_row"
    using sample_entries(2) sample_claim_step by (simp add: run_Cons del: run.simps(2) audit_step.simps)
  from audit_events_append_only [OF ok this] show ?thesis by blast
qed

text \<open>
  Why floating-point metadata is set apart: the validator admits every number, and \<open>serde_json\<close>
  without \<open>float_roundtrip\<close> may read a printed float back as a neighbouring one. Under a parser that
  does so for one value, the event is accepted and from then on the tenant's chain fails verification.
\<close>

abbreviation float_payload :: "64 word \<Rightarrow> json" where
  "float_payload w \<equiv> JObject [(''policy_version'', JNumber (Float w))]"

definition neighbour_lib :: audit_lib where
  "neighbour_lib = sample_audit_lib \<lparr> al_serde := \<lparr> str_text = id, num_text = (\<lambda>_. ''0''),
     value_text = (\<lambda>v. if v = float_payload 1 then ''1'' else ''2''),
     value_parse = (\<lambda>_. Some (float_payload 2)) \<rparr> \<rparr>"

lemma neighbour_lib_sel:
  "al_serde neighbour_lib = \<lparr> str_text = id, num_text = (\<lambda>_. ''0''),
     value_text = (\<lambda>v. if v = float_payload 1 then ''1'' else ''2''),
     value_parse = (\<lambda>_. Some (float_payload 2)) \<rparr>" "al_sha256 neighbour_lib = (\<lambda>x. x)"
  by (simp_all add: neighbour_lib_def)

lemma neighbour_canonical:
  "canonical_json_string (al_serde neighbour_lib) (float_payload 1) = ''1''"
  "canonical_json_string (al_serde neighbour_lib) (float_payload 2) = ''2''"
  by (simp_all add: canonical_json_string_def btree_collect_def neighbour_lib_sel)

lemma float_metadata_breaks_chain:
  "let i = sample_event \<lparr> in_payload := float_payload 1 \<rparr>;
       reply = audit_append neighbour_lib sample_tick i empty_db
   in (\<exists>rec. snd reply = Inr rec) \<and>
      verify_tenant neighbour_lib ''t'' (fst reply) = Inl (verification_error 1 ''event hash mismatch'')"
proof -
  let ?i = "sample_event \<lparr> in_payload := float_payload 1 \<rparr>" and ?L = neighbour_lib
  let ?r = "next_row ?L sample_tick ?i []"
  have sel: "ev_phase ?r = ''intent''" "ev_witness_receipt_json ?r = None" "ev_tenant_id ?r = ''t''"
    "ev_sequence ?r = 1" "ev_idempotency_key ?r = Some ''k''" "ev_previous_hash ?r = GENESIS_HASH"
    by (simp_all add: next_row_def tenant_rows_def tip_hash_def)
  obtain rec where rec: "record_from_row ?L ?r = Inr rec"
    by (auto simp: record_from_row_def sel parse_phase_def neighbour_lib_sel)
  note m = record_from_row_matches [OF rec]
  have app: "append_in_transaction ?L sample_tick ?i (request_hash_of ?L ?i) (payload_text ?L ?i) [] = Inr ([?r], rec)"
    using rec
    by (simp add: append_in_transaction_def load_by_idempotency_def query_record_def append_fresh_def
        unix_timestamp_ms_def insert_event_def event_conflicts_def load_record_def next_row_def Let_def
        load_next_head_def head_row_def tenant_rows_def tip_hash_def)
  have p: "rec_payload rec = float_payload 2"
    using m by (auto simp: matches_row_def neighbour_lib_sel)
  have "record_hash ?L rec \<noteq> rec_event_hash rec"
    using m
    by (auto simp: record_hash_def p neighbour_canonical matches_row_def next_row_def compute_event_hash_def
        neighbour_lib_sel(2) event_hash_fields_def row_hash_def new_row_def field_list_def field_def
        dest!: hex_digest_inject)
  then have "verify_tenant_in ?L ''t'' [?r] = Inl (verification_error 1 ''event hash mismatch'')"
    using rec m sel by (simp add: verify_tenant_in_def tenant_rows_def matches_row_def)
  then show ?thesis
    using app
    by (simp add: Let_def audit_append_def transact_def empty_db_def validate_input_def identifier_simps
        validate_metadata_payload_def allowed_metadata_key_def validate_metadata_value_def
        ensure_stream_writable_in_def load_stream_state_def verify_tenant_def)
qed

theorem claim_existing_key_witness:
  "(\<exists>x. claim_execution sample_audit_lib sample_tick sample_event sample_db = (sample_db, Inr (Existing x))) \<and>
   claim_execution sample_audit_lib sample_tick (sample_event \<lparr> in_request := JBool True \<rparr>) sample_db =
     (sample_db, Inl IdempotencyConflict)"
proof -
  have ok: "list_all (audit_op_ok sample_audit_lib) [Claim sample_tick sample_event]"
    using sample_payload_ok stored_payload_okI by simp
  have db: "sample_db = fst (run (audit_step sample_audit_lib sample_ed25519)
      [Claim sample_tick sample_event] empty_db)"
    using sample_claim_step by (simp add: run_Cons del: run.simps(2) audit_step.simps)
  have other: "validate_execution_event (sample_event \<lparr> in_request := JBool True \<rparr>) Intent = Inr ()"
    by (simp add: validate_execution_event_def validate_input_def identifier_simps)
  have differ: "request_hash_of sample_audit_lib sample_event \<noteq>
      request_hash_of sample_audit_lib (sample_event \<lparr> in_request := JBool True \<rparr>)"
    by (simp add: hash_canonical_json_def canonical_json_string_def sample_serde_def hex_digest_def hex_digit_def)
  have "\<exists>x. execution_record_from_row sample_audit_lib sample_claimed = Inr x \<and>
      claim_execution sample_audit_lib sample_tick sample_event sample_db = (sample_db, Inr (Existing x))"
    using claim_existing_key [OF ok db, of sample_event "''k''" sample_claimed sample_tick] sample_entries(1)
    by simp
  moreover have "claim_execution sample_audit_lib sample_tick (sample_event \<lparr> in_request := JBool True \<rparr>)
      sample_db = (sample_db, Inl IdempotencyConflict)"
    using claim_existing_key [OF ok db, of "sample_event \<lparr> in_request := JBool True \<rparr>" "''k''" sample_claimed
        sample_tick] sample_entries(1) other differ by simp
  ultimately show ?thesis by blast
qed

theorem blocked_stream_frozen_witness:
  "let db = sample_db \<lparr> db_streams := [\<lparr> ss_tenant_id = ''t'', ss_blocked = True,
       ss_reason_code = None, ss_updated_at_ms = 1 \<rparr>] \<rparr>;
       db' = fst (audit_step sample_audit_lib sample_ed25519
         (Append sample_tick (sample_event \<lparr> in_idempotency_key := None \<rparr>)) db)
   in frozen ''t'' db db' \<and> stream_blocked ''t'' db'"
  unfolding Let_def
  by (rule blocked_stream_frozen) (simp_all add: stream_blocked_def load_stream_state_def)


definition sample_witnessed :: audit_db where
  "sample_witnessed = \<lparr> db_events = [sample_row \<lparr> ev_witness_receipt_json := Some ''receipt'' \<rparr>],
     db_executions = [], db_resolutions = [], db_streams = [\<lparr> ss_tenant_id = ''t'', ss_blocked = True,
       ss_reason_code = Some ''ambiguous'', ss_updated_at_ms = 1 \<rparr>] \<rparr>"

lemma sample_witnessed_ok: "events_ok sample_audit_lib (db_events sample_witnessed)"
proof -
  have "events_ok sample_audit_lib [sample_row]"
    using sample_rows_ok by (simp add: sample_rows_def sample_row_def)
  then show ?thesis
    by (simp add: events_ok_def sample_witnessed_def row_ok_def row_hash_def chain_ok_def tenant_rows_def
        idem_key_def split: if_splits)
qed

lemma sample_receipt_sel [simp]:
  "rc_tenant_id sample_receipt = ''t''" "rc_sequence sample_receipt = 1"
  "rc_event_hash sample_receipt = ev_event_hash sample_row" "rc_witness_key_id sample_receipt = ''w''"
  by (simp_all add: sample_receipt_def sign_witness_receipt_def Let_def sample_first_row sample_row_def)

lemma sample_witnessed_head:
  "\<exists>head. load_head sample_audit_lib ''t'' (db_events sample_witnessed) = Inr (Some head) \<and>
     rec_tenant_id head = ''t'' \<and> rec_sequence head = 1 \<and> rec_event_hash head = ev_event_hash sample_row \<and>
     rec_witness_receipt head = Some sample_receipt"
proof -
  let ?r = "sample_row \<lparr> ev_witness_receipt_json := Some ''receipt'' \<rparr>"
  have "row_ok sample_audit_lib ?r"
    using sample_witnessed_ok by (simp add: events_ok_def sample_witnessed_def)
  then obtain head where head: "record_from_row sample_audit_lib ?r = Inr head"
    using record_from_row_ok by blast
  then show ?thesis
    using record_from_row_matches [OF head]
    by (simp add: load_head_def head_row_def query_record_def sample_witnessed_def tenant_rows_def matches_row_def)
qed

lemma sample_recovery:
  "\<exists>y. snd (recover_witnessed_stream sample_audit_lib sample_ed25519 7 ''t'' 1 (ev_event_hash sample_row) ''w''
      ''key'' sample_witnessed) = Inr y"
proof -
  have v: "verify_tenant_in sample_audit_lib ''t'' (db_events sample_witnessed) = Inr 1"
    using verify_tenant_complete [OF sample_witnessed_ok, of "''t''"]
    by (simp add: sample_witnessed_def tenant_rows_def)
  obtain head where head: "load_head sample_audit_lib ''t'' (db_events sample_witnessed) = Inr (Some head)"
    "rec_tenant_id head = ''t''" "rec_sequence head = 1" "rec_event_hash head = ev_event_hash sample_row"
    "rec_witness_receipt head = Some sample_receipt"
    using sample_witnessed_head by blast
  have "verify_receipt_for_record sample_ed25519 sample_receipt head ''w'' ''key'' = Inr ()"
    using head sample_receipt_valid by (simp add: verify_receipt_for_record_def)
  moreover have "load_stream_state ''t'' sample_witnessed = Some \<lparr> ss_tenant_id = ''t'', ss_blocked = True,
      ss_reason_code = Some ''ambiguous'', ss_updated_at_ms = 1 \<rparr>"
    by (simp add: load_stream_state_def sample_witnessed_def)
  moreover have "sql_changed (\<lambda>s. ss_tenant_id s = ''t'' \<and> ss_blocked s) (db_streams sample_witnessed) = 1"
    by (simp add: sql_changed_def sample_witnessed_def)
  ultimately show ?thesis
    using v head
    by (simp add: recover_witnessed_stream_def transact_def identifier_simps unblock_stream_def
        unix_timestamp_ms_def Let_def)
qed

theorem recovery_needs_witnessed_head_witness:
  "\<not> stream_blocked ''t'' (fst (recover_witnessed_stream sample_audit_lib sample_ed25519 7 ''t'' 1
       (ev_event_hash sample_row) ''w'' ''key'' sample_witnessed)) \<and>
   stream_blocked ''t'' sample_witnessed"
proof -
  obtain y where "snd (recover_witnessed_stream sample_audit_lib sample_ed25519 7 ''t'' 1
      (ev_event_hash sample_row) ''w'' ''key'' sample_witnessed) = Inr y"
    using sample_recovery by blast
  from recovery_needs_witnessed_head [OF this] show ?thesis
    by (simp add: stream_blocked_def load_stream_state_def sample_witnessed_def)
qed

abbreviation sample_outcome :: audit_event_input where
  "sample_outcome \<equiv> sample_event \<lparr> in_phase := Outcome \<rparr>"

abbreviation sample_outcome_tick :: tick where
  "sample_outcome_tick \<equiv> sample_tick \<lparr> tk_event_id := ''e2'' \<rparr>"

lemma sample_outcome_append:
  "\<exists>x. append_in_transaction sample_audit_lib sample_outcome_tick sample_outcome
     (request_hash_of sample_audit_lib sample_outcome) (payload_text sample_audit_lib sample_outcome)
     [sample_row] = Inr ([sample_row, next_row sample_audit_lib sample_outcome_tick sample_outcome [sample_row]], x)"
proof -
  have p: "payload_ok sample_audit_lib (in_payload sample_outcome)" using sample_payload_ok by simp
  have ok: "events_ok sample_audit_lib [sample_row]"
    using sample_rows_ok by (simp add: sample_rows_def sample_row_def)
  let ?r = "next_row sample_audit_lib sample_outcome_tick sample_outcome [sample_row]"
  have "\<not> event_conflicts ?r [sample_row]" "ev_sequence ?r = 2"
    by (simp_all add: event_conflicts_def next_row_def tenant_rows_def)
  then show ?thesis
    using append_fresh_cases [OF ok p, of sample_outcome_tick]
    by (simp add: append_in_transaction_def load_by_idempotency_def query_record_def Let_def
        unix_timestamp_ms_def)
qed

lemma sample_complete:
  "\<exists>db rec. complete_execution sample_audit_lib sample_outcome_tick sample_outcome (JBool True) sample_db
     = (db, Inr rec)"
proof -
  obtain x where "append_in_transaction sample_audit_lib sample_outcome_tick sample_outcome
     (request_hash_of sample_audit_lib sample_outcome) (payload_text sample_audit_lib sample_outcome)
     [sample_row] = Inr ([sample_row, next_row sample_audit_lib sample_outcome_tick sample_outcome [sample_row]], x)"
    using sample_outcome_append by blast
  moreover have "validate_execution_event sample_outcome Outcome = Inr ()"
    by (simp add: validate_execution_event_def validate_input_def identifier_simps)
  moreover have "length (canonical_json_string (al_serde sample_audit_lib) (JBool True)) \<le> MAX_SANITIZED_RESULT_BYTES"
    by (simp add: canonical_json_string_def sample_serde_def MAX_SANITIZED_RESULT_BYTES_def)
  moreover obtain c where "execution_record_from_row sample_audit_lib sample_claimed = Inr c" "xr_state c = Claimed"
    "xr_request_hash c = request_hash_of sample_audit_lib sample_event"
    using sample_claimed_decodes by blast
  ultimately show ?thesis
    by (simp add: complete_execution_def transact_def load_execution_record_def sample_db_def by_key_iff
        ensure_stream_writable_in_def load_stream_state_def ensure_execution_hash_def set_state_def Let_def
        unix_timestamp_ms_def sql_changed_def sql_update_def execution_record_from_row_def
        parse_execution_state_def xkey_def sample_serde_def)
qed

theorem completed_result_replayed_witness:
  "\<exists>db rec. complete_execution sample_audit_lib sample_outcome_tick sample_outcome (JBool True) sample_db
     = (db, Inr rec) \<and>
   claim_execution sample_audit_lib sample_tick sample_event db = (db, Inr (Existing rec))"
proof -
  have ok: "list_all (audit_op_ok sample_audit_lib)
      ([Claim sample_tick sample_event] @ Complete sample_outcome_tick sample_outcome (JBool True) # [])"
    using sample_payload_ok by (simp add: stored_payload_okI)
  have db: "sample_db = fst (run (audit_step sample_audit_lib sample_ed25519)
      [Claim sample_tick sample_event] empty_db)"
    using sample_claim_step by (simp add: run_Cons del: run.simps(2) audit_step.simps)
  obtain db1 rec where c: "complete_execution sample_audit_lib sample_outcome_tick sample_outcome (JBool True)
      sample_db = (db1, Inr rec)"
    using sample_complete by blast
  have "db1 = fst (run (audit_step sample_audit_lib sample_ed25519) [] db1)" by simp
  from completed_result_replayed [OF ok db c this, of sample_event sample_tick] c show ?thesis by simp
qed

end
