(* ===== verification/Witness.thy ===== *)
theory Witness
  imports Audit_Log
begin

text \<open>
  The independent witness of \<open>henosis-witness\<close>: it accepts signed checkpoints of tenant streams from
  trusted origins, one after the other, and answers with its own signed receipt.

  The database is the record \<open>witness_db\<close> of its two tables. \<open>accept\<close> is the whole method with its
  transaction; the clock is an argument. Receipts are stored as JSON text, so \<open>al_receipt_text\<close> and
  \<open>al_receipt_parse\<close> of the parameter \<open>audit_lib\<close> are used; what the code relies on is \<open>receipts_ok\<close>.
\<close>

section \<open>Values\<close>

datatype witness_error =
    Storage string
  | Serialization
  | UnknownOrigin
  | TenantNotAuthorized
  | InvalidOriginTrust
  | InvalidSignature
  | Conflict
  | OutOfSequence
  | LockPoisoned
  | Clock

record trusted_origin =
  to_verifying_key :: bytes
  to_tenant_ids :: "string set"

definition trusted_origin_new :: "bytes \<Rightarrow> string list \<Rightarrow> witness_error + trusted_origin" where
  "trusted_origin_new verifying_key tenant_ids =
     (if tenant_ids = [] \<or> card (set tenant_ids) \<noteq> length tenant_ids
        \<or> list_ex (\<lambda>t. t = [] \<or> t = ''*'' \<or> trim t \<noteq> t) tenant_ids
      then Inl InvalidOriginTrust
      else Inr \<lparr> to_verifying_key = verifying_key, to_tenant_ids = set tenant_ids \<rparr>)"

definition authorizes :: "trusted_origin \<Rightarrow> string \<Rightarrow> bool" where
  "authorizes og tenant_id = (tenant_id \<in> to_tenant_ids og)"

record witness_head =
  wh_tenant_id :: string
  wh_sequence :: nat
  wh_event_hash :: string
  wh_witnessed_at_ms :: int

text \<open>One row of \<open>witness_receipts\<close>.\<close>

record receipt_row =
  wr_tenant_id :: string
  wr_sequence :: nat
  wr_event_hash :: string
  wr_receipt_json :: string

record witness_db =
  wd_heads :: "witness_head list"
  wd_receipts :: "receipt_row list"

record witness_store =
  ws_trusted_origins :: "(string \<times> trusted_origin) list"
  ws_witness_key_id :: string
  ws_signing_key :: bytes

definition empty_witness :: witness_db where
  "empty_witness = \<lparr> wd_heads = [], wd_receipts = [] \<rparr>"

definition witness_open ::
    "(string \<times> trusted_origin) list \<Rightarrow> string \<Rightarrow> bytes \<Rightarrow> witness_error + witness_store" where
  "witness_open trusted_origins witness_key_id signing_key =
     (if trusted_origins = [] \<or> list_ex (\<lambda>(k, _). k = [] \<or> trim k \<noteq> k) trusted_origins
        \<or> witness_key_id = [] \<or> trim witness_key_id \<noteq> witness_key_id
      then Inl InvalidOriginTrust
      else Inr \<lparr> ws_trusted_origins = trusted_origins, ws_witness_key_id = witness_key_id,
             ws_signing_key = signing_key \<rparr>)"


section \<open>Accepting checkpoints\<close>

definition load_head_from_connection :: "string \<Rightarrow> witness_db \<Rightarrow> witness_head option" where
  "load_head_from_connection tenant_id db = find (\<lambda>h. wh_tenant_id h = tenant_id) (wd_heads db)"

definition at_position :: "string \<Rightarrow> nat \<Rightarrow> receipt_row \<Rightarrow> bool" where
  "at_position t n r = (wr_tenant_id r = t \<and> wr_sequence r = n)"

text \<open>The \<open>INSERT \<dots> ON CONFLICT(tenant_id) DO UPDATE\<close> of the head.\<close>

definition upsert_head :: "witness_head \<Rightarrow> witness_head list \<Rightarrow> witness_head list" where
  "upsert_head h heads =
     (if list_ex (\<lambda>x. wh_tenant_id x = wh_tenant_id h) heads
      then sql_update (\<lambda>x. wh_tenant_id x = wh_tenant_id h) (\<lambda>x. x \<lparr> wh_sequence := wh_sequence h,
             wh_event_hash := wh_event_hash h, wh_witnessed_at_ms := wh_witnessed_at_ms h \<rparr>) heads
      else heads @ [h])"

definition receipt_for :: "ed25519 \<Rightarrow> witness_store \<Rightarrow> witness_checkpoint \<Rightarrow> int \<Rightarrow> witness_receipt" where
  "receipt_for E W c witnessed_at_ms = sign_witness_receipt E (cp_tenant_id c) (cp_sequence c)
     (cp_event_hash c) (ws_witness_key_id W) witnessed_at_ms (ws_signing_key W)"

text \<open>The position that the checkpoint has to extend.\<close>

definition expected_head :: "string \<Rightarrow> witness_db \<Rightarrow> nat \<times> string" where
  "expected_head t db =
     (case load_head_from_connection t db of
        Some h \<Rightarrow> (wh_sequence h + 1, wh_event_hash h)
      | None \<Rightarrow> (1, GENESIS_HASH))"

definition extend_stream ::
    "audit_lib \<Rightarrow> ed25519 \<Rightarrow> witness_store \<Rightarrow> int \<Rightarrow> witness_checkpoint \<Rightarrow> witness_db \<Rightarrow>
     witness_db \<times> (witness_error + witness_receipt)" where
  "extend_stream L E W clock c db =
     (if (cp_sequence c, cp_previous_hash c) \<noteq> expected_head (cp_tenant_id c) db
      then (db, Inl OutOfSequence)
      else
      case unix_timestamp_ms clock of
        Inl _ \<Rightarrow> (db, Inl Clock)
      | Inr witnessed_at_ms \<Rightarrow>
          let receipt = receipt_for E W c witnessed_at_ms in
          (\<lparr> wd_heads = upsert_head \<lparr> wh_tenant_id = cp_tenant_id c, wh_sequence = cp_sequence c,
                 wh_event_hash = cp_event_hash c, wh_witnessed_at_ms = witnessed_at_ms \<rparr> (wd_heads db),
             wd_receipts = wd_receipts db @ [\<lparr> wr_tenant_id = cp_tenant_id c, wr_sequence = cp_sequence c,
                 wr_event_hash = cp_event_hash c, wr_receipt_json = al_receipt_text L receipt \<rparr>] \<rparr>,
           Inr receipt))"

definition stored_receipt ::
    "audit_lib \<Rightarrow> witness_checkpoint \<Rightarrow> receipt_row \<Rightarrow> witness_error + witness_receipt" where
  "stored_receipt L c r =
     (if wr_event_hash r \<noteq> cp_event_hash c then Inl Conflict
      else case al_receipt_parse L (wr_receipt_json r) of
             None \<Rightarrow> Inl Serialization | Some receipt \<Rightarrow> Inr receipt)"

definition accept ::
    "audit_lib \<Rightarrow> ed25519 \<Rightarrow> witness_store \<Rightarrow> int \<Rightarrow> witness_checkpoint \<Rightarrow> witness_db \<Rightarrow>
     witness_db \<times> (witness_error + witness_receipt)" where
  "accept L E W clock c db =
     (case map_of (ws_trusted_origins W) (cp_origin_key_id c) of
        None \<Rightarrow> (db, Inl UnknownOrigin)
      | Some og \<Rightarrow>
          if \<not> authorizes og (cp_tenant_id c) then (db, Inl TenantNotAuthorized)
          else
          (case verify_checkpoint_signature E c (to_verifying_key og) of
             Inl _ \<Rightarrow> (db, Inl InvalidSignature)
           | Inr _ \<Rightarrow>
               if 2 ^ 63 \<le> cp_sequence c then (db, Inl (Storage ''sequence out of range''))
               else
               (case find (at_position (cp_tenant_id c) (cp_sequence c)) (wd_receipts db) of
                  Some r \<Rightarrow> (db, stored_receipt L c r)
                | None \<Rightarrow> extend_stream L E W clock c db)))"

definition witness_head_query :: "string \<Rightarrow> witness_db \<Rightarrow> witness_error + witness_head option" where
  "witness_head_query tenant_id db = Inr (load_head_from_connection tenant_id db)"


section \<open>The HTTP surface\<close>

text \<open>The status and public code of an internal failure.\<close>

fun api_error :: "witness_error \<Rightarrow> nat \<times> string" where
  "api_error UnknownOrigin = (401, ''invalid_checkpoint'')"
| "api_error TenantNotAuthorized = (401, ''invalid_checkpoint'')"
| "api_error InvalidOriginTrust = (401, ''invalid_checkpoint'')"
| "api_error InvalidSignature = (401, ''invalid_checkpoint'')"
| "api_error Conflict = (409, ''checkpoint_conflict'')"
| "api_error OutOfSequence = (409, ''checkpoint_conflict'')"
| "api_error (Storage _) = (500, ''witness_unavailable'')"
| "api_error Serialization = (500, ''witness_unavailable'')"
| "api_error LockPoisoned = (500, ''witness_unavailable'')"
| "api_error Clock = (500, ''witness_unavailable'')"

text \<open>The handler of \<open>POST /v1/checkpoints\<close>: the status and the receipt, when there is one.\<close>

definition checkpoint_handler ::
    "audit_lib \<Rightarrow> ed25519 \<Rightarrow> witness_store \<Rightarrow> int \<Rightarrow> witness_checkpoint \<Rightarrow> witness_db \<Rightarrow>
     witness_db \<times> nat \<times> witness_receipt option" where
  "checkpoint_handler L E W clock c db =
     (case accept L E W clock c db of
        (db', Inr receipt) \<Rightarrow> (db', 200, Some receipt)
      | (db', Inl e) \<Rightarrow> (db', fst (api_error e), None))"


section \<open>What accept did\<close>

text \<open>What the code relies on from \<open>serde_json\<close>: a printed receipt is read back as it was.\<close>

definition receipts_ok :: "audit_lib \<Rightarrow> bool" where
  "receipts_ok L \<longleftrightarrow> (\<forall>r. al_receipt_parse L (al_receipt_text L r) = Some r)"

definition receipt_at :: "witness_db \<Rightarrow> string \<times> nat \<Rightarrow> receipt_row option" where
  "receipt_at db key = find (\<lambda>r. (wr_tenant_id r, wr_sequence r) = key) (wd_receipts db)"

lemma find_position: "find (at_position t n) (wd_receipts db) = receipt_at db (t, n)"
proof -
  have "at_position t n = (\<lambda>r. (wr_tenant_id r, wr_sequence r) = (t, n))"
    by (auto simp: at_position_def)
  then show ?thesis by (simp add: receipt_at_def)
qed

lemma accept_cases:
  assumes "accept L E W clock c db = (db', Inr receipt)"
  obtains (retry) r where "receipt_at db (cp_tenant_id c, cp_sequence c) = Some r" "db' = db"
      "wr_event_hash r = cp_event_hash c" "al_receipt_parse L (wr_receipt_json r) = Some receipt"
  | (extend) ts where "receipt_at db (cp_tenant_id c, cp_sequence c) = None"
      "(cp_sequence c, cp_previous_hash c) = expected_head (cp_tenant_id c) db"
      "receipt = receipt_for E W c ts" "0 \<le> ts" "ts < 2 ^ 63"
      "wd_heads db' = upsert_head \<lparr> wh_tenant_id = cp_tenant_id c, wh_sequence = cp_sequence c,
         wh_event_hash = cp_event_hash c, wh_witnessed_at_ms = ts \<rparr> (wd_heads db)"
      "wd_receipts db' = wd_receipts db @ [\<lparr> wr_tenant_id = cp_tenant_id c, wr_sequence = cp_sequence c,
         wr_event_hash = cp_event_hash c, wr_receipt_json = al_receipt_text L receipt \<rparr>]"
proof -
  have ext: "extend_stream L E W clock c db = (db', Inr receipt) \<Longrightarrow> \<exists>ts. receipt = receipt_for E W c ts \<and>
      0 \<le> ts \<and> ts < 2 ^ 63 \<and>
      (cp_sequence c, cp_previous_hash c) = expected_head (cp_tenant_id c) db \<and>
      wd_heads db' = upsert_head \<lparr> wh_tenant_id = cp_tenant_id c, wh_sequence = cp_sequence c,
         wh_event_hash = cp_event_hash c, wh_witnessed_at_ms = ts \<rparr> (wd_heads db) \<and>
      wd_receipts db' = wd_receipts db @ [\<lparr> wr_tenant_id = cp_tenant_id c, wr_sequence = cp_sequence c,
         wr_event_hash = cp_event_hash c, wr_receipt_json = al_receipt_text L receipt \<rparr>]"
    by (auto simp: extend_stream_def Let_def unix_timestamp_ms_def split: if_splits sum.splits)
  show thesis
    using assms retry extend ext
    by (auto simp: accept_def stored_receipt_def find_position split: option.splits if_splits sum.splits)
qed

lemma accept_rejects: "snd (accept L E W clock c db) = Inl e \<Longrightarrow> fst (accept L E W clock c db) = db"
  by (auto simp: accept_def extend_stream_def Let_def split: option.splits if_splits sum.splits)

lemma accept_state:
  "fst (accept L E W clock c db) = db \<or> (\<exists>receipt. snd (accept L E W clock c db) = Inr receipt)"
  using accept_rejects [of L E W clock c db] by (cases "snd (accept L E W clock c db)") auto


section \<open>The invariant\<close>

definition stream_of :: "string \<Rightarrow> witness_db \<Rightarrow> receipt_row list" where
  "stream_of t db = filter (\<lambda>r. wr_tenant_id r = t) (wd_receipts db)"

text \<open>The receipts of a tenant are numbered without gap from 1, and the head is the last of them.\<close>

definition stream_ok :: "witness_db \<Rightarrow> string \<Rightarrow> bool" where
  "stream_ok db t \<longleftrightarrow> map wr_sequence (stream_of t db) = [1..<Suc (length (stream_of t db))] \<and>
     expected_head t db = (Suc (length (stream_of t db)),
       if stream_of t db = [] then GENESIS_HASH else wr_event_hash (last (stream_of t db)))"

definition receipt_ok :: "audit_lib \<Rightarrow> ed25519 \<Rightarrow> witness_store \<Rightarrow> receipt_row \<Rightarrow> bool" where
  "receipt_ok L E W r \<longleftrightarrow> (\<exists>ts. wr_receipt_json r = al_receipt_text L (sign_witness_receipt E
     (wr_tenant_id r) (wr_sequence r) (wr_event_hash r) (ws_witness_key_id W) ts (ws_signing_key W)))"

definition witness_inv :: "audit_lib \<Rightarrow> ed25519 \<Rightarrow> witness_store \<Rightarrow> witness_db \<Rightarrow> bool" where
  "witness_inv L E W db \<longleftrightarrow> (\<forall>t. stream_ok db t) \<and> list_all (receipt_ok L E W) (wd_receipts db)"

lemma witness_inv_empty [simp]: "witness_inv L E W empty_witness"
  by (simp add: witness_inv_def stream_ok_def stream_of_def empty_witness_def expected_head_def
      load_head_from_connection_def)

lemma find_upsert_head:
  "\<exists>x. find (\<lambda>x. wh_tenant_id x = wh_tenant_id h) (upsert_head h hs) = Some x \<and>
     wh_sequence x = wh_sequence h \<and> wh_event_hash x = wh_event_hash h"
  "wh_tenant_id h \<noteq> t \<Longrightarrow>
   find (\<lambda>x. wh_tenant_id x = t) (upsert_head h hs) = find (\<lambda>x. wh_tenant_id x = t) hs"
proof -
  let ?P = "\<lambda>x. wh_tenant_id x = wh_tenant_id h"
  let ?f = "\<lambda>x. x \<lparr> wh_sequence := wh_sequence h, wh_event_hash := wh_event_hash h,
    wh_witnessed_at_ms := wh_witnessed_at_ms h \<rparr>"
  show "\<exists>x. find ?P (upsert_head h hs) = Some x \<and> wh_sequence x = wh_sequence h \<and>
      wh_event_hash x = wh_event_hash h"
  proof (cases "list_ex ?P hs")
    case True
    then obtain x where "find ?P hs = Some x"
      unfolding list_ex_iff by (metis (mono_tags) find_None_iff2 not_None_eq)
    with True show ?thesis by (simp add: upsert_head_def find_sql_update_same)
  next
    case False
    then have "find ?P hs = None" by (simp add: find_None_iff list_ex_iff)
    with False show ?thesis by (simp add: upsert_head_def find_append)
  qed
  show "wh_tenant_id h \<noteq> t \<Longrightarrow>
      find (\<lambda>x. wh_tenant_id x = t) (upsert_head h hs) = find (\<lambda>x. wh_tenant_id x = t) hs"
    by (auto simp: upsert_head_def find_append find_sql_update_other split: option.split)
qed

lemma expected_head_upsert:
  assumes "wd_heads db' = upsert_head h (wd_heads db)"
  shows "expected_head t db' =
   (if wh_tenant_id h = t then (Suc (wh_sequence h), wh_event_hash h) else expected_head t db)"
  using find_upsert_head(1) [of h "wd_heads db"] find_upsert_head(2) [of h t "wd_heads db"] assms
  by (auto simp: expected_head_def load_head_from_connection_def)

lemma stream_of_append:
  "wd_receipts db' = wd_receipts db @ [r] \<Longrightarrow>
   stream_of t db' = (if wr_tenant_id r = t then stream_of t db @ [r] else stream_of t db)"
  by (simp add: stream_of_def)

text \<open>A successful new checkpoint is the next one of its stream, and touches no other stream.\<close>

lemma stream_extended:
  assumes "stream_ok db (cp_tenant_id c)"
    and "(cp_sequence c, cp_previous_hash c) = expected_head (cp_tenant_id c) db"
  shows "cp_sequence c = Suc (length (stream_of (cp_tenant_id c) db)) \<and>
    cp_previous_hash c = (if stream_of (cp_tenant_id c) db = [] then GENESIS_HASH
      else wr_event_hash (last (stream_of (cp_tenant_id c) db)))"
  using assms by (simp add: stream_ok_def)

lemma accept_inv:
  assumes "witness_inv L E W db"
  shows "witness_inv L E W (fst (accept L E W clock c db))"
proof (cases "accept L E W clock c db")
  case (Pair db' res)
  show ?thesis
  proof (cases res)
    case (Inl e)
    then show ?thesis using assms accept_rejects [of L E W clock c db] Pair by simp
  next
    case (Inr receipt)
    from Pair Inr have acc: "accept L E W clock c db = (db', Inr receipt)" by simp
    then show ?thesis
    proof (cases rule: accept_cases)
      case retry
      then show ?thesis using assms acc by simp
    next
      case (extend ts)
      have "stream_ok db' t" for t
        using assms stream_extended [OF _ extend(2)] expected_head_upsert [OF extend(6), of t]
          stream_of_append [OF extend(7), of t]
        by (auto simp: witness_inv_def stream_ok_def)
      moreover have "list_all (receipt_ok L E W) (wd_receipts db')"
        using assms extend by (auto simp: witness_inv_def receipt_ok_def receipt_for_def)
      ultimately show ?thesis using acc by (simp add: witness_inv_def)
    qed
  qed
qed

lemma accept_keeps_receipts:
  "receipt_at db key = Some r \<Longrightarrow> receipt_at (fst (accept L E W clock c db)) key = Some r"
proof (cases "accept L E W clock c db")
  case (Pair db' res)
  moreover assume "receipt_at db key = Some r"
  ultimately show ?thesis
    using accept_rejects [of L E W clock c db]
    by (cases res) (auto elim!: accept_cases simp: receipt_at_def find_append)
qed

text \<open>An accepted checkpoint is on record with the receipt that was returned.\<close>

lemma accept_recorded:
  assumes "accept L E W clock c db = (db', Inr receipt)" "receipts_ok L"
  shows "\<exists>r. receipt_at db' (cp_tenant_id c, cp_sequence c) = Some r \<and> wr_event_hash r = cp_event_hash c \<and>
    al_receipt_parse L (wr_receipt_json r) = Some receipt"
  using assms(1)
proof (cases rule: accept_cases)
  case (extend ts)
  then show ?thesis using assms(2) by (simp add: receipt_at_def find_append receipts_ok_def)
qed auto

type_synonym witness_op = "int \<times> witness_checkpoint"

definition witness_step ::
    "audit_lib \<Rightarrow> ed25519 \<Rightarrow> witness_store \<Rightarrow> witness_op \<Rightarrow> witness_db \<Rightarrow>
     witness_db \<times> (witness_error + witness_receipt)" where
  "witness_step L E W x db = accept L E W (fst x) (snd x) db"

interpretation receipt_progress: progress_store "witness_step L E W" "\<lambda>_. True" "witness_inv L E W"
  receipt_at "(=)" for L E W
  by unfold_locales (auto simp: witness_step_def accept_inv accept_keeps_receipts)


section \<open>Properties of the witness\<close>

abbreviation witness_run ::
    "audit_lib \<Rightarrow> ed25519 \<Rightarrow> witness_store \<Rightarrow> witness_op list \<Rightarrow>
     witness_db \<times> (witness_error + witness_receipt) list" where
  "witness_run L E W ops \<equiv> run (witness_step L E W) ops empty_witness"

lemma witness_inv_run: "witness_inv L E W (fst (witness_run L E W ops))"
  by (rule receipt_progress.inv_run) (simp_all add: list_all_iff)

lemma receipt_kept:
  assumes "i \<le> j" "receipt_at (fst (witness_run L E W (take i ops))) key = Some r"
  shows "receipt_at (fst (witness_run L E W (take j ops))) key = Some r"
proof -
  have "\<exists>r'. receipt_at (fst (run (witness_step L E W) (drop i (take j ops))
      (fst (witness_run L E W (take i ops))))) key = Some r' \<and> r = r'"
    using receipt_progress.entry_run [OF witness_inv_run, where xs = "drop i (take j ops)"] assms(2)
    by (simp add: list_all_iff)
  then show ?thesis using run_take_split [OF assms(1), of "witness_step L E W" ops] by simp
qed

lemma accepted_twice:
  assumes "receipts_ok L" and "i < j" and "j < length ops"
    and "snd (witness_run L E W ops) ! i = Inr r" and "snd (witness_run L E W ops) ! j = Inr q"
    and "cp_tenant_id (snd (ops ! i)) = cp_tenant_id (snd (ops ! j))"
    and "cp_sequence (snd (ops ! i)) = cp_sequence (snd (ops ! j))"
  shows "cp_event_hash (snd (ops ! i)) = cp_event_hash (snd (ops ! j)) \<and> r = q"
proof -
  let ?s = "\<lambda>n. fst (witness_run L E W (take n ops))"
  let ?c = "snd (ops ! i)" and ?d = "snd (ops ! j)"
  have i: "i < length ops" using assms by simp
  have "accept L E W (fst (ops ! i)) ?c (?s i) = (?s (Suc i), Inr r)"
    using assms(4) run_nth [OF i, of "witness_step L E W" empty_witness]
      run_take_Suc [OF i, of "witness_step L E W" empty_witness]
    by (simp add: witness_step_def prod_eq_iff)
  from accept_recorded [OF this assms(1)] obtain row where
    row: "receipt_at (?s (Suc i)) (cp_tenant_id ?c, cp_sequence ?c) = Some row"
      "wr_event_hash row = cp_event_hash ?c" "al_receipt_parse L (wr_receipt_json row) = Some r" by blast
  have at_j: "receipt_at (?s j) (cp_tenant_id ?d, cp_sequence ?d) = Some row"
    using receipt_kept [OF _ row(1), of j] assms(2,6,7) by simp
  have "accept L E W (fst (ops ! j)) ?d (?s j) = (?s (Suc j), Inr q)"
    using assms(5) run_nth [OF assms(3), of "witness_step L E W" empty_witness]
      run_take_Suc [OF assms(3), of "witness_step L E W" empty_witness]
    by (simp add: witness_step_def prod_eq_iff)
  then show ?thesis
  proof (cases rule: accept_cases)
    case (retry r')
    then show ?thesis using at_j row by simp
  next
    case extend
    then show ?thesis using at_j by simp
  qed
qed

text \<open>
  Property C37. The witness never signs two histories: in any sequence of submissions from the empty
  database, two accepted checkpoints of the same tenant and sequence carry the same event hash and
  got the identical receipt.
\<close>

theorem witness_never_forks:
  assumes "receipts_ok L" and "i < length ops" and "j < length ops"
    and "snd (witness_run L E W ops) ! i = Inr r" and "snd (witness_run L E W ops) ! j = Inr q"
    and "cp_tenant_id (snd (ops ! i)) = cp_tenant_id (snd (ops ! j))"
    and "cp_sequence (snd (ops ! i)) = cp_sequence (snd (ops ! j))"
  shows "cp_event_hash (snd (ops ! i)) = cp_event_hash (snd (ops ! j)) \<and> r = q"
proof -
  consider "i < j" | "j < i" | "i = j" by linarith
  then show ?thesis
  proof cases
    case 1
    then show ?thesis using accepted_twice [OF assms(1) _ assms(3-7)] by blast
  next
    case 2
    then show ?thesis using accepted_twice [OF assms(1) _ assms(2,5,4) assms(6,7) [symmetric]] by simp
  next
    case 3
    then show ?thesis using assms(4,5) by simp
  qed
qed

text \<open>
  A checkpoint is accepted only from a configured origin that is authorised for the
  tenant and whose signature over the checkpoint verifies; it repeats a position with the same hash
  and changes nothing, or it is exactly the next position after the tenant's last receipt, names that
  receipt's hash as its predecessor, and is appended to that tenant's stream only.
\<close>

theorem witness_accepts_only_next:
  assumes "db = fst (witness_run L E W ops)" and "accept L E W clock c db = (db', Inr receipt)"
  shows "(\<exists>og. map_of (ws_trusted_origins W) (cp_origin_key_id c) = Some og \<and>
      authorizes og (cp_tenant_id c) \<and>
      verify_checkpoint_signature E c (to_verifying_key og) = Inr ()) \<and>
    (db' = db \<and> (\<exists>r. receipt_at db (cp_tenant_id c, cp_sequence c) = Some r \<and> wr_event_hash r = cp_event_hash c) \<or>
     (let stream = stream_of (cp_tenant_id c) db in
       cp_sequence c = Suc (length stream) \<and>
       cp_previous_hash c = (if stream = [] then GENESIS_HASH else wr_event_hash (last stream)) \<and>
       (\<exists>row. stream_of (cp_tenant_id c) db' = stream @ [row] \<and> wr_sequence row = cp_sequence c \<and>
          wr_event_hash row = cp_event_hash c) \<and>
       (\<forall>t. t \<noteq> cp_tenant_id c \<longrightarrow> stream_of t db' = stream_of t db)))"
proof -
  have ok: "stream_ok db (cp_tenant_id c)"
    using witness_inv_run [of L E W ops] assms(1) by (simp add: witness_inv_def)
  have "\<exists>og. map_of (ws_trusted_origins W) (cp_origin_key_id c) = Some og \<and>
      authorizes og (cp_tenant_id c) \<and> verify_checkpoint_signature E c (to_verifying_key og) = Inr ()"
    using assms(2) by (auto simp: accept_def split: option.splits if_splits sum.splits)
  moreover from assms(2) have "db' = db \<and> (\<exists>r. receipt_at db (cp_tenant_id c, cp_sequence c) = Some r \<and>
      wr_event_hash r = cp_event_hash c) \<or>
     (let stream = stream_of (cp_tenant_id c) db in
       cp_sequence c = Suc (length stream) \<and>
       cp_previous_hash c = (if stream = [] then GENESIS_HASH else wr_event_hash (last stream)) \<and>
       (\<exists>row. stream_of (cp_tenant_id c) db' = stream @ [row] \<and> wr_sequence row = cp_sequence c \<and>
          wr_event_hash row = cp_event_hash c) \<and>
       (\<forall>t. t \<noteq> cp_tenant_id c \<longrightarrow> stream_of t db' = stream_of t db))"
  proof (cases rule: accept_cases)
    case (extend ts)
    then show ?thesis
      using stream_extended [OF ok extend(2)] stream_of_append [OF extend(7)] by (auto simp: Let_def)
  qed auto
  ultimately show ?thesis by blast
qed

text \<open>
  Every receipt the witness hands out names the submitted tenant, sequence and hash and
  the witness's own key, and its signature verifies under the witness's public key.
\<close>

theorem witness_receipt_verifies:
  assumes "receipts_ok L" and "ed25519_ok E" and "db = fst (witness_run L E W ops)"
    and "accept L E W clock c db = (db', Inr receipt)"
  shows "rc_tenant_id receipt = cp_tenant_id c \<and> rc_sequence receipt = cp_sequence c \<and>
    rc_event_hash receipt = cp_event_hash c \<and> rc_witness_key_id receipt = ws_witness_key_id W \<and>
    verify_witness_receipt E receipt (ed_public E (ws_signing_key W)) = Inr ()"
  using assms(4)
proof (cases rule: accept_cases)
  case (retry r)
  then have r: "r \<in> set (wd_receipts db)" "wr_tenant_id r = cp_tenant_id c" "wr_sequence r = cp_sequence c"
    using find_SomeD unfolding receipt_at_def by fastforce+
  then have "receipt_ok L E W r"
    using witness_inv_run [of L E W ops] assms(3) by (simp add: witness_inv_def list_all_iff)
  then obtain ts where "receipt = sign_witness_receipt E (cp_tenant_id c) (cp_sequence c) (cp_event_hash c)
      (ws_witness_key_id W) ts (ws_signing_key W)"
    using retry r assms(1) by (auto simp: receipt_ok_def receipts_ok_def)
  then show ?thesis using signed_receipt_verifies [OF assms(2)] by simp
next
  case (extend ts)
  then show ?thesis using signed_receipt_verifies [OF assms(2)] by (simp add: receipt_for_def)
qed

text \<open>No receipt is on record beyond the end of a stream.\<close>

lemma receipt_at_bounds:
  assumes "stream_ok db t" "receipt_at db (t, n) = Some r"
  shows "1 \<le> n \<and> n \<le> length (stream_of t db)"
proof -
  have "r \<in> set (stream_of t db)" "wr_sequence r = n"
    using assms(2) find_SomeD unfolding receipt_at_def stream_of_def by fastforce+
  then have "n \<in> set (map wr_sequence (stream_of t db))" by force
  then have "n \<in> set [1..<Suc (length (stream_of t db))]" using assms(1) by (simp only: stream_ok_def)
  then show ?thesis by auto
qed

lemma accept_gap:
  assumes "stream_ok db (cp_tenant_id c)" and "Suc (length (stream_of (cp_tenant_id c) db)) < cp_sequence c"
  shows "fst (accept L E W clock c db) = db \<and> (\<forall>receipt. snd (accept L E W clock c db) \<noteq> Inr receipt)"
proof -
  have "\<nexists>db' receipt. accept L E W clock c db = (db', Inr receipt)"
  proof (rule notI, elim exE)
    fix db' receipt
    assume "accept L E W clock c db = (db', Inr receipt)"
    then show False
      using receipt_at_bounds [OF assms(1)] stream_extended [OF assms(1)] assms(2)
      by (cases rule: accept_cases) fastforce+
  qed
  then have "\<forall>receipt. snd (accept L E W clock c db) \<noteq> Inr receipt" by (metis prod.collapse)
  then show ?thesis using accept_state [of L E W clock c db] by blast
qed

lemma accept_next:
  assumes "stream_ok db (cp_tenant_id c)"
    and "map_of (ws_trusted_origins W) (cp_origin_key_id c) = Some og" and "authorizes og (cp_tenant_id c)"
    and "verify_checkpoint_signature E c (to_verifying_key og) = Inr ()"
    and "cp_sequence c = Suc (length (stream_of (cp_tenant_id c) db))" and "cp_sequence c < 2 ^ 63"
    and "cp_previous_hash c = (if stream_of (cp_tenant_id c) db = [] then GENESIS_HASH
      else wr_event_hash (last (stream_of (cp_tenant_id c) db)))"
    and "0 \<le> clock" and "clock < 2 ^ 63"
  shows "\<exists>db'. accept L E W clock c db = (db', Inr (receipt_for E W c clock)) \<and>
    length (stream_of (cp_tenant_id c) db') = cp_sequence c"
proof -
  have "receipt_at db (cp_tenant_id c, cp_sequence c) = None"
    using receipt_at_bounds [OF assms(1), of "cp_sequence c"] assms(5)
    by (cases "receipt_at db (cp_tenant_id c, cp_sequence c)") auto
  moreover have "(cp_sequence c, cp_previous_hash c) = expected_head (cp_tenant_id c) db"
    using assms(1,5,7) by (simp add: stream_ok_def)
  ultimately show ?thesis
    using assms(2-6,8,9)
    by (auto simp: accept_def find_position extend_stream_def unix_timestamp_ms_def Let_def stream_of_def)
qed

text \<open>
  The witness makes progress: whenever an authorised origin submits a correctly signed
  checkpoint that extends its tenant's stream by one, it is accepted and recorded.
\<close>

theorem witness_accepts_next:
  assumes "db = fst (witness_run L E W ops)"
    and "map_of (ws_trusted_origins W) (cp_origin_key_id c) = Some og" and "authorizes og (cp_tenant_id c)"
    and "verify_checkpoint_signature E c (to_verifying_key og) = Inr ()"
    and "cp_sequence c = Suc (length (stream_of (cp_tenant_id c) db))" and "cp_sequence c < 2 ^ 63"
    and "cp_previous_hash c = (if stream_of (cp_tenant_id c) db = [] then GENESIS_HASH
      else wr_event_hash (last (stream_of (cp_tenant_id c) db)))"
    and "0 \<le> clock" and "clock < 2 ^ 63"
  shows "\<exists>db'. accept L E W clock c db = (db', Inr (receipt_for E W c clock)) \<and>
    length (stream_of (cp_tenant_id c) db') = cp_sequence c"
  using witness_inv_run [of L E W ops] assms by (intro accept_next) (simp_all add: witness_inv_def)


section \<open>A concrete witness\<close>

text \<open>A receipt text that can be read back: every field is written byte by byte with an end mark.\<close>

fun enc_text :: "string \<Rightarrow> string" where
  "enc_text [] = [CHR 0x00]"
| "enc_text (c # cs) = CHR 0x01 # c # enc_text cs"

fun dec_text :: "string \<Rightarrow> string \<times> string" where
  "dec_text (m # c # cs) =
     (if m = CHR 0x00 then ([], c # cs) else case dec_text cs of (s, rest) \<Rightarrow> (c # s, rest))"
| "dec_text (m # []) = ([], [])"
| "dec_text [] = ([], [])"

lemma dec_enc_text: "dec_text (enc_text s @ rest) = (s, rest)"
  by (induction s) (cases rest; simp)+

definition enc_nat :: "nat \<Rightarrow> string" where
  "enc_nat n = enc_text (replicate n (CHR ''1''))"

definition enc_receipt :: "witness_receipt \<Rightarrow> string" where
  "enc_receipt r = enc_text (rc_tenant_id r) @ enc_nat (rc_sequence r) @ enc_text (rc_event_hash r)
     @ enc_text (rc_witness_key_id r) @ enc_nat (nat (rc_witnessed_at_ms r))
     @ enc_nat (nat (- rc_witnessed_at_ms r)) @ enc_text (rc_signature_b64 r)"

definition dec_receipt :: "string \<Rightarrow> witness_receipt option" where
  "dec_receipt x =
     (let (t, x) = dec_text x; (n, x) = dec_text x; (h, x) = dec_text x; (k, x) = dec_text x;
          (p, x) = dec_text x; (m, x) = dec_text x; (s, x) = dec_text x
      in Some \<lparr> rc_tenant_id = t, rc_sequence = length n, rc_event_hash = h, rc_witness_key_id = k,
           rc_witnessed_at_ms = int (length p) - int (length m), rc_signature_b64 = s \<rparr>)"

lemma dec_enc_receipt: "dec_receipt (enc_receipt r) = Some r"
proof -
  have "dec_text (enc_text s) = (s, [])" for s using dec_enc_text [of s "[]"] by simp
  then show ?thesis by (simp add: dec_receipt_def enc_receipt_def enc_nat_def dec_enc_text Let_def)
qed

definition wire_lib :: audit_lib where
  "wire_lib = \<lparr> al_serde = sample_serde (\<lambda>_. Some (JObject [])), al_sha256 = (\<lambda>x. x),
     al_receipt_text = enc_receipt, al_receipt_parse = dec_receipt \<rparr>"

lemma wire_lib_ok: "receipts_ok wire_lib"
  by (simp add: receipts_ok_def wire_lib_def dec_enc_receipt)

definition sample_store :: witness_store where
  "sample_store = \<lparr> ws_trusted_origins = [(''o'', \<lparr> to_verifying_key = ''ok'', to_tenant_ids = {''t''} \<rparr>)],
     ws_witness_key_id = ''w'', ws_signing_key = ''wk'' \<rparr>"

definition sample_checkpoint :: witness_checkpoint where
  "sample_checkpoint = checkpoint_of sample_ed25519 \<lparr> os_key_id = ''o'', os_signing_key = ''ok'' \<rparr>
     \<lparr> rec_tenant_id = ''t'', rec_sequence = 1, rec_event_id = ''e1'', rec_principal_id = ''p'',
       rec_action = ''a'', rec_phase = Intent, rec_request_hash = ''q'', rec_payload = JNull,
       rec_previous_hash = GENESIS_HASH, rec_event_hash = ''h1'', rec_created_at_ms = 5,
       rec_idempotency_key = None, rec_witness_receipt = None \<rparr>"

lemma sample_checkpoint_sel [simp]:
  "cp_tenant_id sample_checkpoint = ''t''" "cp_sequence sample_checkpoint = 1"
  "cp_event_hash sample_checkpoint = ''h1''" "cp_previous_hash sample_checkpoint = GENESIS_HASH"
  "cp_origin_key_id sample_checkpoint = ''o''"
  by (simp_all add: sample_checkpoint_def checkpoint_of_def Let_def)

lemma sample_checkpoint_signed: "verify_checkpoint_signature sample_ed25519 sample_checkpoint ''ok'' = Inr ()"
  unfolding sample_checkpoint_def
  using signed_checkpoint_verifies [OF sample_ed25519_ok, of "\<lparr> os_key_id = ''o'', os_signing_key = ''ok'' \<rparr>"]
  by (simp add: sample_ed25519_def)

theorem witness_accepts_next_witness:
  "\<exists>db'. accept wire_lib sample_ed25519 sample_store 7 sample_checkpoint empty_witness =
     (db', Inr (receipt_for sample_ed25519 sample_store sample_checkpoint 7)) \<and>
   length (stream_of ''t'' db') = 1"
proof -
  have "empty_witness = fst (witness_run wire_lib sample_ed25519 sample_store [])" by simp
  from witness_accepts_next [OF this, of sample_checkpoint
      "\<lparr> to_verifying_key = ''ok'', to_tenant_ids = {''t''} \<rparr>" 7]
  show ?thesis
    by (simp add: sample_store_def authorizes_def sample_checkpoint_signed stream_of_def empty_witness_def)
qed

lemma sample_accept:
  "snd (accept wire_lib sample_ed25519 sample_store 7 sample_checkpoint empty_witness) =
     Inr (receipt_for sample_ed25519 sample_store sample_checkpoint 7)"
  by (simp add: accept_def sample_store_def authorizes_def sample_checkpoint_signed empty_witness_def
      extend_stream_def expected_head_def load_head_from_connection_def unix_timestamp_ms_def Let_def)

lemma sample_accept_pair:
  "\<exists>db'. accept wire_lib sample_ed25519 sample_store 7 sample_checkpoint empty_witness =
     (db', Inr (receipt_for sample_ed25519 sample_store sample_checkpoint 7))"
  using sample_accept by (metis prod.collapse)

theorem witness_never_forks_witness:
  "let ops = [(7, sample_checkpoint), (9, sample_checkpoint)];
       out = snd (witness_run wire_lib sample_ed25519 sample_store ops)
   in out ! 0 = Inr (receipt_for sample_ed25519 sample_store sample_checkpoint 7) \<and> out ! 0 = out ! 1"
proof -
  let ?ops = "[(7, sample_checkpoint), (9, sample_checkpoint)]"
  let ?r = "receipt_for sample_ed25519 sample_store sample_checkpoint 7"
  let ?out = "snd (witness_run wire_lib sample_ed25519 sample_store ?ops)"
  obtain db' where a: "accept wire_lib sample_ed25519 sample_store 7 sample_checkpoint empty_witness =
      (db', Inr ?r)"
    using sample_accept_pair by blast
  have r0: "?out ! 0 = Inr ?r"
    using run_nth [of 0 ?ops "witness_step wire_lib sample_ed25519 sample_store" empty_witness] a
    by (simp add: witness_step_def del: run.simps(2))
  obtain row where row: "receipt_at db' (''t'', 1) = Some row" "wr_event_hash row = ''h1''"
    "al_receipt_parse wire_lib (wr_receipt_json row) = Some ?r"
    using accept_recorded [OF a wire_lib_ok] by auto
  have og: "map_of (ws_trusted_origins sample_store) ''o'' =
      Some \<lparr> to_verifying_key = ''ok'', to_tenant_ids = {''t''} \<rparr>"
    by (simp add: sample_store_def)
  have "\<exists>q. accept wire_lib sample_ed25519 sample_store 9 sample_checkpoint db' = (db', Inr q)"
    using row og by (simp add: accept_def find_position stored_receipt_def sample_checkpoint_signed authorizes_def)
  then obtain q where r1: "?out ! 1 = Inr q"
    using run_nth [of 1 ?ops "witness_step wire_lib sample_ed25519 sample_store" empty_witness] a
    by (auto simp: witness_step_def run_Cons simp del: run.simps(2))
  have "?r = q" using witness_never_forks [OF wire_lib_ok _ _ r0 r1] by simp
  then show ?thesis unfolding Let_def using r0 r1 by simp
qed

theorem witness_accepts_only_next_witness:
  "authorizes \<lparr> to_verifying_key = ''ok'', to_tenant_ids = {''t''} \<rparr> (cp_tenant_id sample_checkpoint)"
proof -
  obtain db' where a: "accept wire_lib sample_ed25519 sample_store 7 sample_checkpoint empty_witness =
      (db', Inr (receipt_for sample_ed25519 sample_store sample_checkpoint 7))"
    using sample_accept_pair by blast
  have "empty_witness = fst (witness_run wire_lib sample_ed25519 sample_store [])" by simp
  from witness_accepts_only_next [OF this a] show ?thesis by (simp add: sample_store_def)
qed

theorem witness_receipt_verifies_witness:
  "verify_witness_receipt sample_ed25519 (receipt_for sample_ed25519 sample_store sample_checkpoint 7)
     (ed_public sample_ed25519 (ws_signing_key sample_store)) = Inr ()"
proof -
  obtain db' where a: "accept wire_lib sample_ed25519 sample_store 7 sample_checkpoint empty_witness =
      (db', Inr (receipt_for sample_ed25519 sample_store sample_checkpoint 7))"
    using sample_accept_pair by blast
  have "empty_witness = fst (witness_run wire_lib sample_ed25519 sample_store [])" by simp
  from witness_receipt_verifies [OF wire_lib_ok sample_ed25519_ok this a] show ?thesis by blast
qed

end
