(* ===== verification/Contracts.thy ===== *)
theory Contracts
  imports Json
begin

text \<open>
  The shared contract types of \<open>syntheos-contracts\<close>: identifiers, the request that every gate sees,
  gate and filter decisions, and the action lifecycle events.

  The third-party crate \<open>uuid\<close> is the parameter \<open>uuid_lib\<close>: its parser, its canonical text and its
  version number. What the code relies on is \<open>uuid_lib_ok\<close>: the canonical text is 36 ASCII bytes
  and parses back. The identifier newtypes accept only version 8 (\<open>validate_v8\<close>); an identifier value is
  the UUID it wraps.
\<close>

section \<open>Identifiers\<close>

record uuid_lib =
  parse_str :: "string \<Rightarrow> uuid option"
  uuid_text :: "uuid \<Rightarrow> string"
  version_num :: "uuid \<Rightarrow> nat"

definition uuid_lib_ok :: "uuid_lib \<Rightarrow> bool" where
  "uuid_lib_ok U \<longleftrightarrow>
     (\<forall>x. parse_str U (uuid_text U x) = Some x \<and> length (uuid_text U x) = 36
        \<and> is_ascii (uuid_text U x))"

definition validate_v8 :: "uuid_lib \<Rightarrow> uuid \<Rightarrow> string + uuid" where
  "validate_v8 U u =
     (if version_num U u = 8 then Inr u
      else Inl (''expected UUID v8, got UUID v'' @ nat_text (version_num U u)))"

definition id_from_uuid :: "uuid_lib \<Rightarrow> uuid \<Rightarrow> string + uuid" where
  "id_from_uuid U u = validate_v8 U u"

definition id_from_str :: "uuid_lib \<Rightarrow> string \<Rightarrow> string + uuid" where
  "id_from_str U s =
     (case parse_str U s of None \<Rightarrow> Inl ''invalid UUID'' | Some u \<Rightarrow> id_from_uuid U u)"

lemma uuid_parse_text [simp]: "uuid_lib_ok U \<Longrightarrow> parse_str U (uuid_text U x) = Some x"
  by (simp add: uuid_lib_ok_def)

lemma uuid_text_length [simp]: "uuid_lib_ok U \<Longrightarrow> length (uuid_text U x) = 36"
  by (simp add: uuid_lib_ok_def)

lemma uuid_text_inject [simp]: "uuid_lib_ok U \<Longrightarrow> (uuid_text U x = uuid_text U y) = (x = y)"
  by (metis option.inject uuid_parse_text)

lemma id_from_str_text [simp]:
  "uuid_lib_ok U \<Longrightarrow> version_num U x = 8 \<Longrightarrow> id_from_str U (uuid_text U x) = Inr x"
  by (simp add: id_from_str_def id_from_uuid_def validate_v8_def)

lemma uuid_text_chars [simp]: "uuid_lib_ok U \<Longrightarrow> length (utf8_chars (uuid_text U x)) = 36"
  unfolding uuid_lib_ok_def by (metis length_utf8_chars)

text \<open>A concrete instance for evaluations: 36 hexadecimal digits; the low four bits are the version.\<close>

fun hex_text :: "nat \<Rightarrow> nat \<Rightarrow> string" where
  "hex_text 0 n = []"
| "hex_text (Suc k) n = hex_text k (n div 16) @ [hex_digit (n mod 16)]"

definition hex_value :: "char \<Rightarrow> nat" where
  "hex_value c = (if byte c < 58 then byte c - 48 else byte c - 87)"

fun hex_read :: "string \<Rightarrow> nat \<Rightarrow> nat" where
  "hex_read [] acc = acc"
| "hex_read (c # cs) acc = hex_read cs (acc * 16 + hex_value c)"

lemma hex_read_append: "hex_read (xs @ [c]) acc = hex_read xs acc * 16 + hex_value c"
  by (induction xs arbitrary: acc) auto

lemma hex_digit_value: "n < 16 \<Longrightarrow> hex_value (hex_digit n) = n \<and> byte (hex_digit n) < 128"
proof -
  have "\<forall>n \<in> set [0..<16]. hex_value (hex_digit n) = n \<and> byte (hex_digit n) < 128"
    by (simp add: hex_value_def hex_digit_def upt_rec)
  then show "n < 16 \<Longrightarrow> hex_value (hex_digit n) = n \<and> byte (hex_digit n) < 128" by simp
qed

lemma length_hex_text: "length (hex_text k n) = k"
  by (induction k arbitrary: n) simp_all

lemma is_ascii_hex_text: "is_ascii (hex_text k n)"
  by (induction k arbitrary: n) (simp_all add: is_ascii_def hex_digit_value)

lemma hex_read_text: "hex_read (hex_text k n) 0 = n mod 16 ^ k"
proof (induction k arbitrary: n)
  case (Suc k)
  have "hex_read (hex_text (Suc k) n) 0 = (n div 16 mod 16 ^ k) * 16 + n mod 16"
    using Suc by (simp add: hex_read_append hex_digit_value)
  also have "\<dots> = n mod 16 ^ Suc k"
    by (simp add: mod_mult2_eq [of n 16 "16 ^ k"] mult.commute add.commute)
  finally show ?case .
qed simp

lemmas hex_text_facts = length_hex_text is_ascii_hex_text hex_read_text

definition sample_uuid_lib :: uuid_lib where
  "sample_uuid_lib = \<lparr> parse_str = (\<lambda>s. Some (of_nat (hex_read s 0))),
     uuid_text = (\<lambda>w. hex_text 36 (unat w)), version_num = (\<lambda>w. unat w mod 16) \<rparr>"

lemma sample_uuid_lib_ok: "uuid_lib_ok sample_uuid_lib"
proof -
  have "hex_read (hex_text 36 (unat w)) 0 = unat w" for w :: uuid
  proof -
    have "unat w < 2 ^ 128" using unsigned_less [of w] by simp
    also have "(2 :: nat) ^ 128 \<le> 16 ^ 36" by simp
    finally show ?thesis by (simp add: hex_text_facts del: hex_text.simps)
  qed
  then show ?thesis
    by (simp add: uuid_lib_ok_def sample_uuid_lib_def hex_text_facts del: hex_text.simps)
qed


section \<open>Requests\<close>

record task_ref =
  task_id :: uuid
  task_tenant :: uuid
  task_title :: "string option"

record authority_context =
  token_identity :: string
  idempotency_key :: string
  approval_id :: "string option"

record tool_invocation =
  inv_tool :: string
  inv_action :: string
  inv_args :: json

record request_context =
  ctx_tenant :: uuid
  ctx_principal :: uuid
  persona :: "string option"
  ctx_session :: "string option"
  room :: "string option"
  ctx_task :: "task_ref option"
  workflow :: "string option"
  authority :: "authority_context option"

record gate_request =
  req_context :: request_context
  req_invocation :: tool_invocation


section \<open>Gate and filter decisions\<close>

text \<open>
  Both enums are \<open>#[non_exhaustive]\<close> and every match keeps a wildcard arm; the last constructor of
  each stands for the variants a newer build may add.
\<close>

datatype gate_decision =
    Allow
  | Deny (deny_reason: string)
  | RequireApproval (approval_prompt_of: string) (approval_id_of: "string option")
  | OtherDecision

type_synonym gate_error = string

datatype filter_decision =
    Pass
  | Redact string
  | Replace json
  | OtherFilterDecision


section \<open>Lifecycle events\<close>

datatype lifecycle_event =
    ActionInvoked string string "uuid option"
  | ActionCompleted string string "uuid option"
  | ActionFailed string string string "uuid option"
  | ActionDenied string string string string "uuid option"
  | ApprovalRequired string string string string "string option" "uuid option"

text \<open>The kind string of an event and the channel all of them travel on.\<close>

definition ACTION_CHANNEL :: string where
  "ACTION_CHANNEL = ''action''"

fun event_kind :: "lifecycle_event \<Rightarrow> string" where
  "event_kind (ActionInvoked _ _ _) = ''action.invoked''"
| "event_kind (ActionCompleted _ _ _) = ''action.completed''"
| "event_kind (ActionFailed _ _ _ _) = ''action.failed''"
| "event_kind (ActionDenied _ _ _ _ _) = ''action.denied''"
| "event_kind (ApprovalRequired _ _ _ _ _ _) = ''action.approval_required''"

text \<open>What \<open>emit\<close> hands to the bus: the event with its tenant and principal.\<close>

record axon_envelope =
  env_channel :: string
  env_kind :: string
  env_tenant :: uuid
  env_principal :: uuid
  env_event :: lifecycle_event

definition to_envelope :: "lifecycle_event \<Rightarrow> uuid \<Rightarrow> uuid \<Rightarrow> axon_envelope" where
  "to_envelope e t p = \<lparr> env_channel = ACTION_CHANNEL, env_kind = event_kind e,
     env_tenant = t, env_principal = p, env_event = e \<rparr>"

end
