(* ===== verification/Approval.thy ===== *)
theory Approval
  imports Contracts Ledger "HOL-Library.Product_Lexorder"
begin

text \<open>
  The request-bound approval store of \<open>henosis-approval\<close>.

  The SQLite table is the list of its rows, with the text columns as text: identifiers, status and
  request hash are encoded when a row is written and decoded by \<open>approval_from_row\<close> when it is read,
  and a decoding failure is an error of the operation. Each public method is one function from the
  table to a new table and a \<open>Result\<close>; a method that returns an error leaves the table as it was
  (the transaction is rolled back). The clock and \<open>Uuid::new_v4\<close> are arguments. A failure of SQLite
  itself (I/O, busy timeout) is not modelled: it returns \<open>Storage\<close> and changes nothing.
\<close>

section \<open>Values\<close>

definition MAX_TOKEN_IDENTITY_BYTES :: nat where "MAX_TOKEN_IDENTITY_BYTES = 36"
definition MAX_TOOL_BYTES :: nat where "MAX_TOOL_BYTES = 128"
definition MAX_ACTION_BYTES :: nat where "MAX_ACTION_BYTES = 128"
definition MAX_PROMPT_BYTES :: nat where "MAX_PROMPT_BYTES = 4096"
definition MAX_POLICY_VERSION_BYTES :: nat where "MAX_POLICY_VERSION_BYTES = 128"
definition MAX_DECISION_ACTOR_BYTES :: nat where "MAX_DECISION_ACTOR_BYTES = 256"
definition MAX_DECISION_REASON_BYTES :: nat where "MAX_DECISION_REASON_BYTES = 1024"

lemmas approval_limits =
  MAX_TOKEN_IDENTITY_BYTES_def MAX_TOOL_BYTES_def MAX_ACTION_BYTES_def MAX_PROMPT_BYTES_def
  MAX_POLICY_VERSION_BYTES_def MAX_DECISION_ACTOR_BYTES_def MAX_DECISION_REASON_BYTES_def

datatype approval_status = Pending | Approved | Denied | Expired | Consumed

fun as_db :: "approval_status \<Rightarrow> string" where
  "as_db Pending = ''pending''"
| "as_db Approved = ''approved''"
| "as_db Denied = ''denied''"
| "as_db Expired = ''expired''"
| "as_db Consumed = ''consumed''"

definition from_db :: "string \<Rightarrow> approval_error + approval_status" where
  "from_db value =
     (if value = ''pending'' then Inr Pending
      else if value = ''approved'' then Inr Approved
      else if value = ''denied'' then Inr Denied
      else if value = ''expired'' then Inr Expired
      else if value = ''consumed'' then Inr Consumed
      else Inl (Corrupt (''unknown status '' @ [CHR 0x22] @ value @ [CHR 0x22])))"

datatype approval_decision = Approve | Deny

record approval_request =
  ar_tenant :: uuid
  ar_principal :: uuid
  ar_token_identity :: string
  ar_tool :: string
  ar_action :: string
  ar_request_hash :: bytes
  ar_prompt :: string
  ar_policy_version :: string
  ar_created_at :: int
  ar_expires_at :: int

record approval_consumption =
  ac_tenant :: uuid
  ac_id :: uuid
  ac_principal :: uuid
  ac_token_identity :: string
  ac_request_hash :: bytes
  ac_policy_version :: string
  ac_now :: int

record approval =
  ap_id :: uuid
  ap_tenant :: uuid
  ap_principal :: uuid
  ap_token_identity :: string
  ap_tool :: string
  ap_action :: string
  ap_request_hash :: bytes
  ap_prompt :: string
  ap_policy_version :: string
  ap_status :: approval_status
  ap_created_at :: int
  ap_expires_at :: int
  ap_decided_at :: "int option"
  ap_consumed_at :: "int option"
  ap_decision_actor :: "string option"
  ap_decision_reason :: "string option"

text \<open>One row of the table \<open>approval\<close>.\<close>

record approval_row =
  c_id :: string
  c_tenant_id :: string
  c_principal_id :: string
  c_token_identity :: string
  c_tool :: string
  c_action :: string
  c_request_hash :: bytes
  c_prompt :: string
  c_policy_version :: string
  c_status :: string
  c_created_at :: int
  c_expires_at :: int
  c_decided_at :: "int option"
  c_consumed_at :: "int option"
  c_decision_actor :: "string option"
  c_decision_reason :: "string option"

type_synonym approval_db = "approval_row list"


section \<open>Validation and decoding\<close>

definition canonical_token_identity :: "uuid_lib \<Rightarrow> string \<Rightarrow> approval_error + string" where
  "canonical_token_identity U value =
     (if length value \<noteq> MAX_TOKEN_IDENTITY_BYTES
      then Inl (InvalidInput ''token identity must be a canonical UUID record identifier'')
      else case parse_str U value of
        None \<Rightarrow> Inl (InvalidInput ''token identity must be an opaque UUID record identifier'')
      | Some uid \<Rightarrow>
          if version_num U uid \<noteq> 4 \<or> uuid_text U uid \<noteq> value
          then Inl (InvalidInput ''token identity must be a canonical UUID v4 record identifier'')
          else Inr (uuid_text U uid))"

definition validate_request :: "uuid_lib \<Rightarrow> approval_request \<Rightarrow> approval_error + unit" where
  "validate_request U q =
     (case canonical_token_identity U (ar_token_identity q) of
        Inl e \<Rightarrow> Inl e
      | Inr _ \<Rightarrow>
          if ar_tool q = [] \<or> length (ar_tool q) > MAX_TOOL_BYTES
            \<or> ar_action q = [] \<or> length (ar_action q) > MAX_ACTION_BYTES
            \<or> ar_prompt q = [] \<or> length (ar_prompt q) > MAX_PROMPT_BYTES
            \<or> ar_policy_version q = [] \<or> length (ar_policy_version q) > MAX_POLICY_VERSION_BYTES
          then Inl (InvalidInput
            ''request identity, tool, action, prompt, and policy version must be nonempty'')
          else if ar_expires_at q \<le> ar_created_at q
          then Inl (InvalidInput ''approval expiry must be after creation'')
          else Inr ())"

definition parse_uuid :: "uuid_lib \<Rightarrow> string \<Rightarrow> approval_error + uuid" where
  "parse_uuid U value = ok_or (parse_str U value) (Corrupt ''invalid id'')"

definition parse_tenant :: "uuid_lib \<Rightarrow> string \<Rightarrow> approval_error + uuid" where
  "parse_tenant U value =
     (case id_from_str U value of
        Inl e \<Rightarrow> Inl (Corrupt (''invalid tenant: '' @ e)) | Inr t \<Rightarrow> Inr t)"

definition parse_principal :: "uuid_lib \<Rightarrow> string \<Rightarrow> approval_error + uuid" where
  "parse_principal U value =
     (case id_from_str U value of
        Inl e \<Rightarrow> Inl (Corrupt (''invalid principal: '' @ e)) | Inr t \<Rightarrow> Inr t)"

definition parse_hash :: "bytes \<Rightarrow> approval_error + bytes" where
  "parse_hash value =
     (if length value = 32 then Inr value else Inl (Corrupt ''request hash is not 32 bytes''))"

definition effective_status :: "approval_status \<Rightarrow> int \<Rightarrow> int \<Rightarrow> approval_status" where
  "effective_status status expires_at now =
     (if (status = Pending \<or> status = Approved) \<and> expires_at \<le> now then Expired else status)"

definition with_effective_status :: "approval \<Rightarrow> int \<Rightarrow> approval" where
  "with_effective_status a now =
     a \<lparr> ap_status := effective_status (ap_status a) (ap_expires_at a) now \<rparr>"

text \<open>The clock: seconds since the epoch, saturating at the largest \<open>i64\<close>, 0 before the epoch.\<close>

definition unix_seconds :: "int \<Rightarrow> int" where
  "unix_seconds raw = (if raw < 0 then 0 else min raw (2 ^ 63 - 1))"

fun error_text :: "approval_error \<Rightarrow> string" where
  "error_text (Storage m) = ''approval storage error: '' @ m"
| "error_text (InvalidInput m) = ''invalid approval input: '' @ m"
| "error_text (Corrupt m) = ''corrupt approval record: '' @ m"

definition approval_from_row :: "uuid_lib \<Rightarrow> approval_row \<Rightarrow> approval_error + approval" where
  "approval_from_row U r =
     (case parse_uuid U (c_id r) of Inl e \<Rightarrow> Inl (Storage (error_text e)) | Inr uid \<Rightarrow>
      case parse_tenant U (c_tenant_id r) of Inl e \<Rightarrow> Inl (Storage (error_text e)) | Inr tenant \<Rightarrow>
      case parse_principal U (c_principal_id r) of Inl e \<Rightarrow> Inl (Storage (error_text e)) | Inr prin \<Rightarrow>
      case parse_hash (c_request_hash r) of Inl e \<Rightarrow> Inl (Storage (error_text e)) | Inr hash \<Rightarrow>
      case from_db (c_status r) of Inl e \<Rightarrow> Inl (Storage (error_text e)) | Inr status \<Rightarrow>
      Inr \<lparr> ap_id = uid, ap_tenant = tenant, ap_principal = prin,
        ap_token_identity = c_token_identity r, ap_tool = c_tool r, ap_action = c_action r,
        ap_request_hash = hash, ap_prompt = c_prompt r, ap_policy_version = c_policy_version r,
        ap_status = status, ap_created_at = c_created_at r, ap_expires_at = c_expires_at r,
        ap_decided_at = c_decided_at r, ap_consumed_at = c_consumed_at r,
        ap_decision_actor = c_decision_actor r, ap_decision_reason = c_decision_reason r \<rparr>)"

text \<open>\<open>query_row(\<dots>, approval_from_row).optional()\<close>\<close>

definition query_row :: "uuid_lib \<Rightarrow> approval_row option \<Rightarrow> approval_error + approval option" where
  "query_row U found =
     (case found of
        None \<Rightarrow> Inr None
      | Some r \<Rightarrow> (case approval_from_row U r of Inl e \<Rightarrow> Inl e | Inr a \<Rightarrow> Inr (Some a)))"


section \<open>The schema\<close>

text \<open>
  The \<open>CHECK\<close> constraints of the table (\<open>length\<close> of a text counts characters, of a blob bytes), the
  primary key and the partial unique index over active rows, as the insertion sees them.
\<close>

definition approval_checks :: "approval_row \<Rightarrow> bool" where
  "approval_checks r \<longleftrightarrow>
     length (utf8_chars (c_id r)) = 36 \<and> length (utf8_chars (c_tenant_id r)) = 36 \<and>
     length (utf8_chars (c_principal_id r)) = 36 \<and> length (utf8_chars (c_token_identity r)) = 36 \<and>
     1 \<le> length (c_tool r) \<and> length (c_tool r) \<le> 128 \<and>
     1 \<le> length (c_action r) \<and> length (c_action r) \<le> 128 \<and>
     length (c_request_hash r) = 32 \<and>
     1 \<le> length (c_prompt r) \<and> length (c_prompt r) \<le> 4096 \<and>
     1 \<le> length (c_policy_version r) \<and> length (c_policy_version r) \<le> 128 \<and>
     c_status r \<in> {''pending'', ''approved'', ''denied'', ''expired'', ''consumed''} \<and>
     (case c_decision_actor r of None \<Rightarrow> True | Some a \<Rightarrow> 1 \<le> length a \<and> length a \<le> 256) \<and>
     (case c_decision_reason r of None \<Rightarrow> True | Some a \<Rightarrow> length a \<le> 1024)"

definition row_active :: "approval_row \<Rightarrow> bool" where
  "row_active r = (c_status r \<in> {''pending'', ''approved''})"

type_synonym approval_key = "string \<times> string \<times> string \<times> string \<times> string \<times> bytes \<times> string"

definition row_key :: "approval_row \<Rightarrow> approval_key" where
  "row_key r = (c_tenant_id r, c_principal_id r, c_token_identity r, c_tool r, c_action r,
     c_request_hash r, c_policy_version r)"

definition insert_conflicts :: "approval_row \<Rightarrow> approval_db \<Rightarrow> bool" where
  "insert_conflicts r db =
     (list_ex (\<lambda>x. c_id x = c_id r) db \<or>
      (row_active r \<and> list_ex (\<lambda>x. row_active x \<and> row_key x = row_key r) db))"

text \<open>\<open>ORDER BY created_at DESC, id DESC LIMIT 1\<close>\<close>

definition newest :: "approval_db \<Rightarrow> approval_row option" where
  "newest db =
     (case sort_key (\<lambda>r. (c_created_at r, c_id r)) db of [] \<Rightarrow> None | rs \<Rightarrow> Some (last rs))"


section \<open>Operations\<close>

definition expire_where :: "uuid_lib \<Rightarrow> uuid \<Rightarrow> int \<Rightarrow> approval_row \<Rightarrow> bool" where
  "expire_where U tenant now r =
     (c_tenant_id r = uuid_text U tenant \<and> row_active r \<and> c_expires_at r \<le> now)"

definition expire_rows :: "uuid_lib \<Rightarrow> uuid \<Rightarrow> int \<Rightarrow> approval_db \<Rightarrow> approval_db" where
  "expire_rows U tenant now db =
     sql_update (expire_where U tenant now) (\<lambda>r. r \<lparr> c_status := ''expired'' \<rparr>) db"

definition request_key :: "uuid_lib \<Rightarrow> approval_request \<Rightarrow> string \<Rightarrow> approval_key" where
  "request_key U q token = (uuid_text U (ar_tenant q), uuid_text U (ar_principal q), token,
     ar_tool q, ar_action q, ar_request_hash q, ar_policy_version q)"

definition new_approval :: "uuid \<Rightarrow> approval_request \<Rightarrow> string \<Rightarrow> approval" where
  "new_approval fresh q token = \<lparr> ap_id = fresh, ap_tenant = ar_tenant q,
     ap_principal = ar_principal q, ap_token_identity = token, ap_tool = ar_tool q,
     ap_action = ar_action q, ap_request_hash = ar_request_hash q, ap_prompt = ar_prompt q,
     ap_policy_version = ar_policy_version q, ap_status = Pending,
     ap_created_at = ar_created_at q, ap_expires_at = ar_expires_at q, ap_decided_at = None,
     ap_consumed_at = None, ap_decision_actor = None, ap_decision_reason = None \<rparr>"

definition inserted_row :: "uuid_lib \<Rightarrow> approval \<Rightarrow> approval_row" where
  "inserted_row U a = \<lparr> c_id = uuid_text U (ap_id a), c_tenant_id = uuid_text U (ap_tenant a),
     c_principal_id = uuid_text U (ap_principal a), c_token_identity = ap_token_identity a,
     c_tool = ap_tool a, c_action = ap_action a, c_request_hash = ap_request_hash a,
     c_prompt = ap_prompt a, c_policy_version = ap_policy_version a, c_status = ''pending'',
     c_created_at = ap_created_at a, c_expires_at = ap_expires_at a, c_decided_at = None,
     c_consumed_at = None, c_decision_actor = None, c_decision_reason = None \<rparr>"

text \<open>\<open>db\<close> is the table before the transaction, \<open>db1\<close> after its expiry statement.\<close>

definition insert_pending ::
    "uuid_lib \<Rightarrow> approval \<Rightarrow> approval_db \<Rightarrow> approval_db \<Rightarrow> approval_db \<times> (approval_error + approval)"
  where
  "insert_pending U a db db1 =
     (let row = inserted_row U a in
      if \<not> approval_checks row then (db, Inl (Storage ''CHECK constraint failed: approval''))
      else if insert_conflicts row db1 then
        (case query_row U (newest (filter (\<lambda>r. row_key r = row_key row \<and> row_active r) db1)) of
           Inl e \<Rightarrow> (db, Inl e)
         | Inr None \<Rightarrow>
             (db, Inl (Corrupt ''approval insert conflicted without an active matching record''))
         | Inr (Some existing) \<Rightarrow> (db1, Inr existing))
      else (db1 @ [row], Inr a))"

definition create_or_get_pending ::
    "uuid_lib \<Rightarrow> uuid \<Rightarrow> approval_request \<Rightarrow> int \<Rightarrow> approval_db \<Rightarrow>
     approval_db \<times> (approval_error + approval)" where
  "create_or_get_pending U fresh q now db =
     (case validate_request U q of Inl e \<Rightarrow> (db, Inl e) | Inr _ \<Rightarrow>
      if ar_expires_at q \<le> now
      then (db, Inl (InvalidInput ''approval request is already expired''))
      else
        let db1 = expire_rows U (ar_tenant q) now db in
        case canonical_token_identity U (ar_token_identity q) of Inl e \<Rightarrow> (db, Inl e) | Inr token \<Rightarrow>
        case query_row U (newest (filter (\<lambda>r. row_key r = request_key U q token) db1)) of
          Inl e \<Rightarrow> (db, Inl e)
        | Inr found \<Rightarrow>
            (case found of
               Some existing \<Rightarrow>
                 if ap_status existing \<noteq> Expired then (db1, Inr existing)
                 else insert_pending U (new_approval fresh q token) db db1
             | None \<Rightarrow> insert_pending U (new_approval fresh q token) db db1))"

definition by_id :: "uuid_lib \<Rightarrow> uuid \<Rightarrow> uuid \<Rightarrow> approval_row \<Rightarrow> bool" where
  "by_id U tenant uid r = (c_tenant_id r = uuid_text U tenant \<and> c_id r = uuid_text U uid)"

definition get_approval ::
    "uuid_lib \<Rightarrow> uuid \<Rightarrow> uuid \<Rightarrow> int \<Rightarrow> approval_db \<Rightarrow> approval_error + approval option" where
  "get_approval U tenant uid clock db =
     (case query_row U (find (by_id U tenant uid) db) of
        Inl e \<Rightarrow> Inl e
      | Inr a \<Rightarrow> Inr (map_option (\<lambda>a. with_effective_status a (unix_seconds clock)) a))"

fun decode_rows :: "uuid_lib \<Rightarrow> int \<Rightarrow> approval_row list \<Rightarrow> approval_error + approval list" where
  "decode_rows U now [] = Inr []"
| "decode_rows U now (r # rs) =
     (case approval_from_row U r of Inl e \<Rightarrow> Inl e | Inr a \<Rightarrow>
      case decode_rows U now rs of Inl e \<Rightarrow> Inl e | Inr xs \<Rightarrow>
      Inr (with_effective_status a now # xs))"

definition list_approvals ::
    "uuid_lib \<Rightarrow> uuid \<Rightarrow> int \<Rightarrow> approval_db \<Rightarrow> approval_error + approval list" where
  "list_approvals U tenant clock db =
     decode_rows U (unix_seconds clock)
       (sort_key (\<lambda>r. - c_created_at r) (filter (\<lambda>r. c_tenant_id r = uuid_text U tenant) db))"

definition decide ::
    "uuid_lib \<Rightarrow> uuid \<Rightarrow> uuid \<Rightarrow> approval_decision \<Rightarrow> string \<Rightarrow> string option \<Rightarrow> int \<Rightarrow> approval_db \<Rightarrow>
     approval_db \<times> (approval_error + approval option)" where
  "decide U tenant uid decision actor reason now db =
     (if actor = [] \<or> length actor > MAX_DECISION_ACTOR_BYTES
      then (db, Inl (InvalidInput ''decision actor must be nonempty''))
      else if (case reason of None \<Rightarrow> False | Some v \<Rightarrow> length v > MAX_DECISION_REASON_BYTES)
      then (db, Inl (InvalidInput ''decision reason exceeds the maximum length''))
      else case query_row U (find (by_id U tenant uid) db) of
        Inl e \<Rightarrow> (db, Inl e)
      | Inr None \<Rightarrow> (db, Inr None)
      | Inr (Some a) \<Rightarrow>
          if ap_status a \<noteq> Pending then (db, Inr None)
          else if ap_expires_at a \<le> now
          then (sql_update (\<lambda>r. by_id U tenant uid r \<and> c_status r = ''pending'')
                  (\<lambda>r. r \<lparr> c_status := ''expired'' \<rparr>) db, Inr None)
          else
            let status = (case decision of Approve \<Rightarrow> Approved | Deny \<Rightarrow> Denied);
                P = (\<lambda>r. by_id U tenant uid r \<and> c_status r = ''pending'') in
            if sql_changed P db \<noteq> 1 then (db, Inr None)
            else (sql_update P (\<lambda>r. r \<lparr> c_status := as_db status, c_decided_at := Some now,
                    c_decision_actor := Some actor, c_decision_reason := reason \<rparr>) db,
                  Inr (Some (a \<lparr> ap_status := status, ap_decided_at := Some now,
                    ap_decision_actor := Some actor, ap_decision_reason := reason \<rparr>))))"

definition expire ::
    "uuid_lib \<Rightarrow> uuid \<Rightarrow> int \<Rightarrow> approval_db \<Rightarrow> approval_db \<times> (approval_error + nat)" where
  "expire U tenant now db =
     (expire_rows U tenant now db, Inr (sql_changed (expire_where U tenant now) db))"

definition exact_match :: "approval \<Rightarrow> approval_consumption \<Rightarrow> string \<Rightarrow> bool" where
  "exact_match a c token \<longleftrightarrow>
     ap_status a = Approved \<and> ap_expires_at a > ac_now c \<and> ap_principal a = ac_principal c \<and>
     ap_token_identity a = token \<and> ap_request_hash a = ac_request_hash c \<and>
     ap_policy_version a = ac_policy_version c"

definition consume_approved ::
    "uuid_lib \<Rightarrow> approval_consumption \<Rightarrow> approval_db \<Rightarrow>
     approval_db \<times> (approval_error + approval option)" where
  "consume_approved U c db =
     (case canonical_token_identity U (ac_token_identity c) of Inl e \<Rightarrow> (db, Inl e) | Inr token \<Rightarrow>
      case query_row U (find (by_id U (ac_tenant c) (ac_id c)) db) of
        Inl e \<Rightarrow> (db, Inl e)
      | Inr None \<Rightarrow> (db, Inr None)
      | Inr (Some a) \<Rightarrow>
          if \<not> exact_match a c token then
            (if ap_status a = Approved \<and> ap_expires_at a \<le> ac_now c
             then sql_update (\<lambda>r. by_id U (ac_tenant c) (ac_id c) r \<and> c_status r = ''approved'')
                    (\<lambda>r. r \<lparr> c_status := ''expired'' \<rparr>) db
             else db,
             Inr None)
          else
            let P = (\<lambda>r. by_id U (ac_tenant c) (ac_id c) r \<and> c_status r = ''approved''
                      \<and> c_expires_at r > ac_now c) in
            if sql_changed P db \<noteq> 1 then (db, Inr None)
            else (sql_update P (\<lambda>r. r \<lparr> c_status := ''consumed'',
                    c_consumed_at := Some (ac_now c) \<rparr>) db,
                  Inr (Some (a \<lparr> ap_status := Consumed, ap_consumed_at := Some (ac_now c) \<rparr>))))"


section \<open>The store as a sequence of operations\<close>

datatype approval_op =
    CreateOrGet uuid approval_request int
  | Get uuid uuid int
  | List uuid int
  | Decide uuid uuid approval_decision string "string option" int
  | Expire uuid int
  | Consume approval_consumption

datatype approval_reply =
    ApprovalReply "approval_error + approval"
  | MaybeReply "approval_error + approval option"
  | ListReply "approval_error + approval list"
  | CountReply "approval_error + nat"

fun approval_step :: "uuid_lib \<Rightarrow> approval_op \<Rightarrow> approval_db \<Rightarrow> approval_db \<times> approval_reply" where
  "approval_step U (CreateOrGet fresh q now) db =
     map_prod id ApprovalReply (create_or_get_pending U fresh q now db)"
| "approval_step U (Get tenant uid clock) db = (db, MaybeReply (get_approval U tenant uid clock db))"
| "approval_step U (List tenant clock) db = (db, ListReply (list_approvals U tenant clock db))"
| "approval_step U (Decide tenant uid decision actor reason now) db =
     map_prod id MaybeReply (decide U tenant uid decision actor reason now db)"
| "approval_step U (Expire tenant now) db = map_prod id CountReply (expire U tenant now db)"
| "approval_step U (Consume c) db = map_prod id MaybeReply (consume_approved U c db)"

text \<open>What the Rust types guarantee: contract identifiers are version 8, a hash is 32 bytes.\<close>

fun approval_op_ok :: "uuid_lib \<Rightarrow> approval_op \<Rightarrow> bool" where
  "approval_op_ok U (CreateOrGet fresh q now) =
     (version_num U (ar_tenant q) = 8 \<and> version_num U (ar_principal q) = 8 \<and>
      length (ar_request_hash q) = 32)"
| "approval_op_ok U _ = True"


section \<open>Rows and the records they encode\<close>

definition row_of :: "uuid_lib \<Rightarrow> approval \<Rightarrow> approval_row" where
  "row_of U a = \<lparr> c_id = uuid_text U (ap_id a), c_tenant_id = uuid_text U (ap_tenant a),
     c_principal_id = uuid_text U (ap_principal a), c_token_identity = ap_token_identity a,
     c_tool = ap_tool a, c_action = ap_action a, c_request_hash = ap_request_hash a,
     c_prompt = ap_prompt a, c_policy_version = ap_policy_version a, c_status = as_db (ap_status a),
     c_created_at = ap_created_at a, c_expires_at = ap_expires_at a,
     c_decided_at = ap_decided_at a, c_consumed_at = ap_consumed_at a,
     c_decision_actor = ap_decision_actor a, c_decision_reason = ap_decision_reason a \<rparr>"

definition typed_ok :: "uuid_lib \<Rightarrow> approval \<Rightarrow> bool" where
  "typed_ok U a \<longleftrightarrow> version_num U (ap_tenant a) = 8 \<and> version_num U (ap_principal a) = 8 \<and>
     length (ap_request_hash a) = 32"

definition active :: "approval \<Rightarrow> bool" where
  "active a = (ap_status a = Pending \<or> ap_status a = Approved)"

definition ap_key :: "approval \<Rightarrow> uuid \<times> uuid \<times> string \<times> string \<times> string \<times> bytes \<times> string" where
  "ap_key a = (ap_tenant a, ap_principal a, ap_token_identity a, ap_tool a, ap_action a,
     ap_request_hash a, ap_policy_version a)"

lemma as_db_inject [simp]: "(as_db x = as_db y) = (x = y)"
  by (cases x; cases y; simp)

lemma as_db_eq [simp]:
  "(as_db x = ''pending'') = (x = Pending)" "(as_db x = ''approved'') = (x = Approved)"
  "(as_db x = ''denied'') = (x = Denied)" "(as_db x = ''expired'') = (x = Expired)"
  "(as_db x = ''consumed'') = (x = Consumed)"
  by (cases x; simp)+

lemma from_db_as_db [simp]: "from_db (as_db x) = Inr x"
  by (cases x) (simp_all add: from_db_def)

lemma row_of_sel [simp]:
  "c_id (row_of U a) = uuid_text U (ap_id a)" "c_tenant_id (row_of U a) = uuid_text U (ap_tenant a)"
  "c_status (row_of U a) = as_db (ap_status a)" "c_expires_at (row_of U a) = ap_expires_at a"
  by (simp_all add: row_of_def)

lemma row_of_upd [simp]:
  "(row_of U a) \<lparr> c_status := ''expired'' \<rparr> = row_of U (a \<lparr> ap_status := Expired \<rparr>)"
  "(row_of U a) \<lparr> c_status := ''consumed'', c_consumed_at := m \<rparr> =
     row_of U (a \<lparr> ap_status := Consumed, ap_consumed_at := m \<rparr>)"
  "(row_of U a) \<lparr> c_status := as_db st, c_decided_at := m, c_decision_actor := x,
       c_decision_reason := y \<rparr> =
     row_of U (a \<lparr> ap_status := st, ap_decided_at := m, ap_decision_actor := x,
       ap_decision_reason := y \<rparr>)"
  by (simp_all add: row_of_def)

lemma inserted_row_of: "ap_status a = Pending \<Longrightarrow> ap_decided_at a = None \<Longrightarrow>
    ap_consumed_at a = None \<Longrightarrow> ap_decision_actor a = None \<Longrightarrow> ap_decision_reason a = None \<Longrightarrow>
    inserted_row U a = row_of U a"
  by (simp add: inserted_row_def row_of_def)

lemma row_active_of [simp]: "row_active (row_of U a) = active a"
  by (simp add: row_active_def active_def)

lemma row_key_of [simp]:
  "uuid_lib_ok U \<Longrightarrow> (row_key (row_of U a) = row_key (row_of U b)) = (ap_key a = ap_key b)"
  by (simp add: row_key_def row_of_def ap_key_def)

text \<open>Reading back what was written gives the record.\<close>

lemma approval_from_row_of [simp]:
  "uuid_lib_ok U \<Longrightarrow> typed_ok U a \<Longrightarrow> approval_from_row U (row_of U a) = Inr a"
  by (simp add: approval_from_row_def parse_uuid_def parse_tenant_def parse_principal_def
      parse_hash_def typed_ok_def row_of_def)

lemma sql_update_row_of:
  assumes "\<And>a. P (row_of U a) = Q a" and "\<And>a. f (row_of U a) = row_of U (g a)"
  shows "sql_update P f (map (row_of U) as) = map (row_of U) (sql_update Q g as)"
  using assms by (simp add: sql_update_def)

lemma sql_changed_row_of:
  assumes "\<And>a. P (row_of U a) = Q a"
  shows "sql_changed P (map (row_of U) as) = sql_changed Q as"
  using assms by (simp add: sql_changed_def filter_map comp_def)

lemma find_row_of:
  assumes "\<And>a. P (row_of U a) = Q a"
  shows "find P (map (row_of U) as) = map_option (row_of U) (find Q as)"
  using assms by (induction as) auto

lemma query_row_of:
  "uuid_lib_ok U \<Longrightarrow> (\<And>a. m = Some a \<Longrightarrow> typed_ok U a) \<Longrightarrow>
   query_row U (map_option (row_of U) m) = Inr m"
  by (cases m) (simp_all add: query_row_def)

lemma newest_in: "newest db = Some r \<Longrightarrow> r \<in> set db"
proof -
  assume "newest db = Some r"
  then have "sort_key (\<lambda>r. (c_created_at r, c_id r)) db \<noteq> []"
    "r = last (sort_key (\<lambda>r. (c_created_at r, c_id r)) db)"
    by (auto simp: newest_def split: list.splits)
  then show "r \<in> set db" by (metis last_in_set set_sort)
qed

lemma newest_None [simp]: "(newest db = None) = (db = [])"
proof -
  have "(newest db = None) = (sort_key (\<lambda>r. (c_created_at r, c_id r)) db = [])"
    by (simp add: newest_def split: list.split)
  also have "\<dots> = (length (sort_key (\<lambda>r. (c_created_at r, c_id r)) db) = 0)"
    by (simp only: length_0_conv)
  also have "\<dots> = (db = [])" by (simp only: length_sort length_0_conv)
  finally show ?thesis .
qed

lemma newest_max:
  "newest db = Some r \<Longrightarrow> x \<in> set db \<Longrightarrow> (c_created_at x, c_id x) \<le> (c_created_at r, c_id r)"
proof -
  let ?k = "\<lambda>r. (c_created_at r, c_id r)"
  assume n: "newest db = Some r" and x: "x \<in> set db"
  then have r: "sort_key ?k db \<noteq> []" "r = last (sort_key ?k db)"
    by (auto simp: newest_def split: list.splits)
  have "x \<in> set (sort_key ?k db)" using x by simp
  then obtain i where i: "i < length (sort_key ?k db)" "x = sort_key ?k db ! i"
    unfolding in_set_conv_nth by blast
  have "map ?k (sort_key ?k db) ! i \<le> map ?k (sort_key ?k db) ! (length (sort_key ?k db) - 1)"
    using i r(1) by (intro sorted_nth_mono) auto
  then show "?k x \<le> ?k r" using i r by (simp add: last_conv_nth)
qed


section \<open>The approval lifecycle\<close>

text \<open>The transitions a record can make; nothing else about a record ever changes.\<close>

inductive approval_advance :: "approval \<Rightarrow> approval \<Rightarrow> bool" where
  lapse: "active a \<Longrightarrow> approval_advance a (a \<lparr> ap_status := Expired \<rparr>)"
| decision: "ap_status a = Pending \<Longrightarrow> now < ap_expires_at a \<Longrightarrow> actor \<noteq> [] \<Longrightarrow>
     st = Approved \<or> st = Denied \<Longrightarrow>
     approval_advance a (a \<lparr> ap_status := st, ap_decided_at := Some now,
       ap_decision_actor := Some actor, ap_decision_reason := reason \<rparr>)"
| consumption: "ap_status a = Approved \<Longrightarrow> now < ap_expires_at a \<Longrightarrow>
     approval_advance a (a \<lparr> ap_status := Consumed, ap_consumed_at := Some now \<rparr>)"

inductive_cases approval_advanceE: "approval_advance a b"

abbreviation approval_forward :: "approval \<Rightarrow> approval \<Rightarrow> bool" where
  "approval_forward \<equiv> approval_advance\<^sup>*\<^sup>*"

definition same_binding :: "approval \<Rightarrow> approval \<Rightarrow> bool" where
  "same_binding a b \<longleftrightarrow> ap_id a = ap_id b \<and> ap_key a = ap_key b \<and> ap_prompt a = ap_prompt b \<and>
     ap_created_at a = ap_created_at b \<and> ap_expires_at a = ap_expires_at b"

text \<open>What the timestamps and the actor say in each status.\<close>

definition lifecycle_ok :: "approval \<Rightarrow> bool" where
  "lifecycle_ok a =
     (case ap_status a of
        Pending \<Rightarrow> ap_decided_at a = None \<and> ap_decision_actor a = None \<and> ap_consumed_at a = None
      | Approved \<Rightarrow> ap_decided_at a \<noteq> None \<and> ap_decision_actor a \<noteq> None \<and> ap_consumed_at a = None
      | Denied \<Rightarrow> ap_decided_at a \<noteq> None \<and> ap_decision_actor a \<noteq> None \<and> ap_consumed_at a = None
      | Expired \<Rightarrow> ap_consumed_at a = None
      | Consumed \<Rightarrow> ap_decided_at a \<noteq> None \<and> ap_decision_actor a \<noteq> None \<and>
          (\<exists>t. ap_consumed_at a = Some t \<and> t < ap_expires_at a))"

lemma advance_same_binding: "approval_forward a b \<Longrightarrow> same_binding a b"
  by (induction rule: rtranclp_induct)
    (auto simp: same_binding_def ap_key_def elim!: approval_advanceE)

lemma advance_typed: "approval_forward a b \<Longrightarrow> typed_ok U a \<Longrightarrow> typed_ok U b"
  by (induction rule: rtranclp_induct) (auto simp: typed_ok_def elim!: approval_advanceE)

lemma advance_lifecycle_step: "approval_advance a b \<Longrightarrow> lifecycle_ok a \<Longrightarrow> lifecycle_ok b"
proof (induction rule: approval_advance.induct)
  case (lapse a)
  then show ?case by (auto simp: active_def lifecycle_ok_def)
next
  case (decision a now actor st reason)
  then show ?case by (auto simp: lifecycle_ok_def)
next
  case (consumption a now)
  then show ?case by (simp add: lifecycle_ok_def)
qed

lemma advance_lifecycle: "approval_forward a b \<Longrightarrow> lifecycle_ok a \<Longrightarrow> lifecycle_ok b"
  by (induction rule: rtranclp_induct) (blast intro: advance_lifecycle_step)+

lemma advance_terminal: "approval_forward a b \<Longrightarrow> \<not> active a \<Longrightarrow> b = a"
  by (induction rule: rtranclp_induct) (auto simp: active_def elim!: approval_advanceE)

lemma advance_active: "approval_forward a b \<Longrightarrow> active b \<Longrightarrow> active a"
  using advance_terminal by blast


section \<open>The invariant\<close>

definition approvals_ok :: "uuid_lib \<Rightarrow> approval list \<Rightarrow> bool" where
  "approvals_ok U as \<longleftrightarrow> list_all (typed_ok U) as \<and> list_all lifecycle_ok as \<and>
     distinct (map ap_id as) \<and> distinct (map ap_key (filter active as))"

definition approval_inv :: "uuid_lib \<Rightarrow> approval_db \<Rightarrow> bool" where
  "approval_inv U db \<longleftrightarrow> uuid_lib_ok U \<and> (\<exists>as. db = map (row_of U) as \<and> approvals_ok U as)"

text \<open>How one operation changes the records: they move forward, and at most one is added.\<close>

definition fresh_in :: "uuid_lib \<Rightarrow> approval \<Rightarrow> approval list \<Rightarrow> bool" where
  "fresh_in U a as \<longleftrightarrow> ap_status a = Pending \<and> typed_ok U a \<and> lifecycle_ok a \<and>
     ap_id a \<notin> ap_id ` set as \<and> ap_key a \<notin> ap_key ` set (filter active as)"

definition evolves :: "uuid_lib \<Rightarrow> approval list \<Rightarrow> approval list \<Rightarrow> bool" where
  "evolves U as as' \<longleftrightarrow>
     (\<exists>bs. list_all2 approval_forward as bs \<and> (as' = bs \<or> (\<exists>a. fresh_in U a bs \<and> as' = bs @ [a])))"

lemma list_all2_forward_map:
  assumes "list_all2 approval_forward as bs" and "\<And>a b. approval_forward a b \<Longrightarrow> f b = f a"
  shows "map f bs = map f as"
  using assms by (induction rule: list_all2_induct) auto

lemma list_all2_forward_active:
  assumes "list_all2 approval_forward as bs" "distinct (map ap_key (filter active as))"
  shows "distinct (map ap_key (filter active bs))
       \<and> ap_key ` set (filter active bs) \<subseteq> ap_key ` set (filter active as)"
  using assms
proof (induction rule: list_all2_induct)
  case (Cons a as b bs)
  have "ap_key b = ap_key a" "active b \<Longrightarrow> active a"
    using Cons.hyps(1) advance_same_binding advance_active by (auto simp: same_binding_def)
  then show ?case using Cons by (auto split: if_splits)
qed simp

lemma list_all2_forward_all:
  assumes "list_all2 approval_forward as bs" "list_all P as"
    and "\<And>a b. approval_forward a b \<Longrightarrow> P a \<Longrightarrow> P b"
  shows "list_all P bs"
  using assms by (induction rule: list_all2_induct) auto

lemma evolves_ok:
  assumes "evolves U as as'" "approvals_ok U as"
  shows "approvals_ok U as'"
proof -
  from assms(1) obtain bs where bs: "list_all2 approval_forward as bs"
    and as': "as' = bs \<or> (\<exists>a. fresh_in U a bs \<and> as' = bs @ [a])"
    by (auto simp: evolves_def)
  have "map ap_id bs = map ap_id as"
    using bs advance_same_binding by (intro list_all2_forward_map) (auto simp: same_binding_def)
  moreover have "list_all (typed_ok U) bs" "list_all lifecycle_ok bs"
    using assms(2) list_all2_forward_all [OF bs] advance_typed advance_lifecycle
    by (auto simp: approvals_ok_def)
  moreover have "distinct (map ap_key (filter active bs))"
    using list_all2_forward_active [OF bs] assms(2) by (simp add: approvals_ok_def)
  ultimately have "approvals_ok U bs" using assms(2) by (simp add: approvals_ok_def)
  then show ?thesis using as' by (auto simp: approvals_ok_def fresh_in_def)
qed

lemma evolves_refl: "evolves U as as"
  unfolding evolves_def by (intro exI [of _ as]) (simp add: list_all2_refl)

lemma evolves_update:
  assumes "\<And>a. P a \<Longrightarrow> approval_forward a (f a)"
  shows "evolves U as (sql_update P f as)"
  unfolding evolves_def
  using assms by (intro exI [of _ "sql_update P f as"])
    (simp add: sql_update_def list_all2_conv_all_nth)

lemma evolves_entry:
  assumes "evolves U as as'" "find (\<lambda>a. ap_id a = k) as = Some a"
  shows "\<exists>b. find (\<lambda>a. ap_id a = k) as' = Some b \<and> approval_forward a b"
proof -
  from assms(1) obtain bs xs where bs: "list_all2 approval_forward as bs" and "as' = bs @ xs"
    by (auto simp: evolves_def)
  moreover have "\<exists>b. find (\<lambda>a. ap_id a = k) bs = Some b \<and> approval_forward a b"
    using bs assms(2)
  proof (induction rule: list_all2_induct)
    case (Cons x xs y ys)
    then have "ap_id y = ap_id x" using advance_same_binding by (auto simp: same_binding_def)
    with Cons show ?case by (auto split: if_splits)
  qed simp
  ultimately show ?thesis by (auto simp: find_append)
qed


section \<open>Each operation on a well-formed table\<close>

lemma canonical_token_identityD:
  "canonical_token_identity U v = Inr t \<Longrightarrow>
   t = v \<and> length v = 36 \<and> (\<exists>u. v = uuid_text U u \<and> version_num U u = 4)"
  by (auto simp: canonical_token_identity_def approval_limits split: if_splits option.splits)

lemma by_id_of [simp]:
  "uuid_lib_ok U \<Longrightarrow> by_id U t k (row_of U a) = (ap_tenant a = t \<and> ap_id a = k)"
  by (simp add: by_id_def)

lemma find_by_id:
  assumes "uuid_lib_ok U" and "list_all (typed_ok U) as"
  shows "query_row U (find (by_id U t k) (map (row_of U) as)) =
         Inr (find (\<lambda>a. ap_tenant a = t \<and> ap_id a = k) as)"
proof -
  have "find (by_id U t k) (map (row_of U) as) =
        map_option (row_of U) (find (\<lambda>a. ap_tenant a = t \<and> ap_id a = k) as)"
    using assms(1) by (intro find_row_of) simp
  moreover have "typed_ok U a" if "find (\<lambda>a. ap_tenant a = t \<and> ap_id a = k) as = Some a" for a
    using that assms(2) by (auto dest!: find_SomeD simp: list_all_iff)
  then have "query_row U (map_option (row_of U) (find (\<lambda>a. ap_tenant a = t \<and> ap_id a = k) as)) =
      Inr (find (\<lambda>a. ap_tenant a = t \<and> ap_id a = k) as)"
    by (rule query_row_of [OF assms(1)])
  ultimately show ?thesis by simp
qed

text \<open>The statements, on records.\<close>

definition lapsed :: "uuid \<Rightarrow> int \<Rightarrow> approval \<Rightarrow> bool" where
  "lapsed t now a = (ap_tenant a = t \<and> active a \<and> ap_expires_at a \<le> now)"

definition expire_all :: "uuid \<Rightarrow> int \<Rightarrow> approval list \<Rightarrow> approval list" where
  "expire_all t now as = sql_update (lapsed t now) (\<lambda>a. a \<lparr> ap_status := Expired \<rparr>) as"

lemma expire_rows_of:
  "uuid_lib_ok U \<Longrightarrow> expire_rows U t now (map (row_of U) as) = map (row_of U) (expire_all t now as)"
  unfolding expire_rows_def expire_all_def
  by (intro sql_update_row_of) (simp_all add: expire_where_def lapsed_def)

lemma list_all2_expire_all: "list_all2 approval_forward as (expire_all t now as)"
  by (auto simp: expire_all_def sql_update_def list_all2_conv_all_nth lapsed_def
      intro: approval_advance.lapse)

lemma map_ap_id_expire_all: "map ap_id (expire_all t now as) = map ap_id as"
  using list_all2_expire_all advance_same_binding
  by (intro list_all2_forward_map) (auto simp: same_binding_def)

lemma evolves_expire_all: "evolves U as (expire_all t now as)"
  unfolding evolves_def using list_all2_expire_all by blast

lemma expire_all_ok: "approvals_ok U as \<Longrightarrow> approvals_ok U (expire_all t now as)"
  by (rule evolves_ok [OF evolves_expire_all])

lemma expire_all_live:
  "a \<in> set (expire_all t now as) \<Longrightarrow> active a \<Longrightarrow> ap_tenant a = t \<Longrightarrow> now < ap_expires_at a"
proof -
  assume a: "a \<in> set (expire_all t now as)" "active a" "ap_tenant a = t"
  then obtain b where "b \<in> set as" "a = (if lapsed t now b then b \<lparr> ap_status := Expired \<rparr> else b)"
    by (auto simp only: expire_all_def set_sql_update)
  with a(2,3) have "\<not> lapsed t now b" "a = b" by (auto simp: active_def)
  with a(2,3) show "now < ap_expires_at a" by (simp add: lapsed_def)
qed

definition asked_key :: "approval_request \<Rightarrow> uuid \<times> uuid \<times> string \<times> string \<times> string \<times> bytes \<times> string"
  where
  "asked_key q = (ar_tenant q, ar_principal q, ar_token_identity q, ar_tool q, ar_action q,
     ar_request_hash q, ar_policy_version q)"

lemma request_key_of:
  "uuid_lib_ok U \<Longrightarrow> (row_key (row_of U a) = request_key U q (ar_token_identity q)) = (ap_key a = asked_key q)"
  by (simp add: row_key_def row_of_def request_key_def ap_key_def asked_key_def)

text \<open>A query for the newest row finds the encoding of one of the records, or none matches.\<close>

lemma newest_row_of:
  assumes "uuid_lib_ok U" "list_all (typed_ok U) as" and P: "\<And>a. P (row_of U a) = Q a"
  shows "(query_row U (newest (filter P (map (row_of U) as))) = Inr None \<and> (\<forall>a \<in> set as. \<not> Q a)) \<or>
    (\<exists>a \<in> set as. query_row U (newest (filter P (map (row_of U) as))) = Inr (Some a) \<and> Q a \<and>
       (\<forall>b \<in> set as. Q b \<longrightarrow> ap_created_at b \<le> ap_created_at a))"
proof (cases "newest (filter P (map (row_of U) as))")
  case None
  then have "filter P (map (row_of U) as) = []" by simp
  then have "\<forall>a \<in> set as. \<not> Q a" using P by (auto simp: filter_empty_conv)
  moreover have "query_row U (newest (filter P (map (row_of U) as))) = Inr None"
    by (subst None) (simp add: query_row_def)
  ultimately show ?thesis by blast
next
  case (Some r)
  then obtain a where a: "a \<in> set as" "r = row_of U a" "Q a" using newest_in P by fastforce
  have "ap_created_at b \<le> ap_created_at a" if b: "b \<in> set as" "Q b" for b
  proof -
    have "row_of U b \<in> set (filter P (map (row_of U) as))" using b P by auto
    from newest_max [OF Some this] show ?thesis
      using a by (auto simp: less_eq_prod_def row_of_def)
  qed
  then show ?thesis using a Some assms(1,2) by (auto simp: query_row_def list_all_iff)
qed

text \<open>The four ways \<open>create_or_get_pending\<close> ends.\<close>

definition create_ends ::
    "uuid_lib \<Rightarrow> uuid \<Rightarrow> approval_request \<Rightarrow> int \<Rightarrow> approval list \<Rightarrow>
     approval list \<Rightarrow> approval_error + approval \<Rightarrow> bool" where
  "create_ends U fresh q now as as' res \<longleftrightarrow>
     (let as1 = expire_all (ar_tenant q) now as;
          a = new_approval fresh q (ar_token_identity q) in
      (as' = as \<and> res = Inl (case validate_request U q of Inl e \<Rightarrow> e
          | Inr _ \<Rightarrow> InvalidInput ''approval request is already expired'') \<and>
         (\<not> is_ok (validate_request U q) \<or> ar_expires_at q \<le> now)) \<or>
      (is_ok (validate_request U q) \<and> now < ar_expires_at q \<and>
       ((\<exists>x \<in> set as1. as' = as1 \<and> res = Inr x \<and> ap_key x = asked_key q \<and> ap_status x \<noteq> Expired \<and>
           ((\<forall>b \<in> set as1. ap_key b = asked_key q \<longrightarrow> ap_created_at b \<le> ap_created_at x) \<or> active x)) \<or>
        ((\<forall>b \<in> set as1. \<not> (active b \<and> ap_key b = asked_key q)) \<and>
         (if fresh \<in> ap_id ` set as then as' = as \<and>
            res = Inl (Corrupt ''approval insert conflicted without an active matching record'')
          else as' = as1 @ [a] \<and> res = Inr a)))))"

lemma approval_checks_new:
  assumes "uuid_lib_ok U" "is_ok (validate_request U q)" "length (ar_request_hash q) = 32"
  shows "approval_checks (row_of U (new_approval fresh q (ar_token_identity q)))"
proof -
  obtain t where t: "canonical_token_identity U (ar_token_identity q) = Inr t"
    using assms(2) by (auto simp: validate_request_def split: sum.splits)
  then obtain u where "ar_token_identity q = uuid_text U u"
    using canonical_token_identityD by blast
  then show ?thesis
    using assms t
    by (auto simp: validate_request_def approval_checks_def row_of_def new_approval_def
        approval_limits Suc_le_eq split: if_splits)
qed

lemma insert_conflicts_of:
  assumes "uuid_lib_ok U" "active a"
  shows "insert_conflicts (row_of U a) (map (row_of U) as) =
    (ap_id a \<in> ap_id ` set as \<or> (\<exists>b \<in> set as. active b \<and> ap_key b = ap_key a))"
  using assms by (simp add: insert_conflicts_def list_ex_iff image_iff) (metis (no_types))

lemma insert_pending_spec:
  assumes U: "uuid_lib_ok U" and ok: "list_all (typed_ok U) as1"
    and v: "is_ok (validate_request U q)" and h: "length (ar_request_hash q) = 32"
    and a: "a = new_approval fresh q (ar_token_identity q)"
  shows "(\<exists>x \<in> set as1. insert_pending U a db (map (row_of U) as1) = (map (row_of U) as1, Inr x) \<and>
       ap_key x = asked_key q \<and> active x) \<or>
    (\<forall>b \<in> set as1. \<not> (active b \<and> ap_key b = asked_key q)) \<and>
    insert_pending U a db (map (row_of U) as1) =
      (if fresh \<in> ap_id ` set as1
       then (db, Inl (Corrupt ''approval insert conflicted without an active matching record''))
       else (map (row_of U) (as1 @ [a]), Inr a))"
proof -
  have row: "inserted_row U a = row_of U a"
    using a by (intro inserted_row_of) (simp_all add: new_approval_def)
  have key: "ap_key a = asked_key q" "active a" "ap_id a = fresh"
    using a by (simp_all add: ap_key_def asked_key_def new_approval_def active_def)
  have chk: "approval_checks (row_of U a)" using approval_checks_new [OF U v h] a by simp
  have conf: "insert_conflicts (row_of U a) (map (row_of U) as1) =
      (fresh \<in> ap_id ` set as1 \<or> (\<exists>b \<in> set as1. active b \<and> ap_key b = asked_key q))"
    using insert_conflicts_of [OF U key(2)] key by simp
  have "row_key (row_of U b) = row_key (row_of U a) \<and> row_active (row_of U b) \<longleftrightarrow>
      ap_key b = asked_key q \<and> active b" for b using U key by simp
  from newest_row_of [OF U ok, of "\<lambda>r. row_key r = row_key (row_of U a) \<and> row_active r", OF this]
  show ?thesis
    by (elim disjE bexE conjE) (auto simp: insert_pending_def Let_def row chk conf)
qed

lemma create_or_get_spec:
  assumes U: "uuid_lib_ok U" and ok: "approvals_ok U as" and h: "length (ar_request_hash q) = 32"
  shows "\<exists>as'. fst (create_or_get_pending U fresh q now (map (row_of U) as)) = map (row_of U) as' \<and>
    create_ends U fresh q now as as' (snd (create_or_get_pending U fresh q now (map (row_of U) as)))"
proof (cases "is_ok (validate_request U q) \<and> now < ar_expires_at q")
  case False
  then show ?thesis
    by (intro exI [of _ as])
      (auto simp: create_or_get_pending_def create_ends_def Let_def not_less split: sum.splits)
next
  case True
  let ?as1 = "expire_all (ar_tenant q) now as"
  let ?a = "new_approval fresh q (ar_token_identity q)"
  let ?new = "newest (filter (\<lambda>r. row_key r = request_key U q (ar_token_identity q)) (map (row_of U) ?as1))"
  obtain t where "canonical_token_identity U (ar_token_identity q) = Inr t"
    using True by (auto simp: validate_request_def split: sum.splits)
  then have tok: "canonical_token_identity U (ar_token_identity q) = Inr (ar_token_identity q)"
    using canonical_token_identityD by metis
  have ok1: "list_all (typed_ok U) ?as1"
    using expire_all_ok [OF ok] by (simp add: approvals_ok_def)
  have ids: "ap_id ` set ?as1 = ap_id ` set as"
    using map_ap_id_expire_all by (metis list.set_map)
  let ?ins = "insert_pending U ?a (map (row_of U) as) (map (row_of U) ?as1)"
  have body: "create_or_get_pending U fresh q now (map (row_of U) as) =
      (case query_row U ?new of Inl e \<Rightarrow> (map (row_of U) as, Inl e)
       | Inr None \<Rightarrow> ?ins
       | Inr (Some x) \<Rightarrow> if ap_status x \<noteq> Expired then (map (row_of U) ?as1, Inr x) else ?ins)"
    using True U by (auto simp: create_or_get_pending_def Let_def tok expire_rows_of
        split: sum.splits option.splits)
  have "?ins = create_or_get_pending U fresh q now (map (row_of U) as) \<or>
      (\<exists>x \<in> set ?as1. create_or_get_pending U fresh q now (map (row_of U) as) =
        (map (row_of U) ?as1, Inr x) \<and> ap_key x = asked_key q \<and> ap_status x \<noteq> Expired \<and>
        (\<forall>b \<in> set ?as1. ap_key b = asked_key q \<longrightarrow> ap_created_at b \<le> ap_created_at x))"
    unfolding body
    using newest_row_of [OF U ok1, of "\<lambda>r. row_key r = request_key U q (ar_token_identity q)"
        "\<lambda>a. ap_key a = asked_key q", OF request_key_of [OF U]]
    by (elim disjE bexE conjE) auto
  then show ?thesis
  proof
    assume "?ins = create_or_get_pending U fresh q now (map (row_of U) as)"
    then show ?thesis
      using insert_pending_spec [OF U ok1 conjunct1 [OF True] h refl, of fresh "map (row_of U) as"]
        True ids
      unfolding create_ends_def Let_def
      by (auto simp: active_def split: if_splits intro: exI [of _ ?as1] exI [of _ "?as1 @ [?a]"]
          exI [of _ as])
  next
    assume "\<exists>x \<in> set ?as1. create_or_get_pending U fresh q now (map (row_of U) as) =
        (map (row_of U) ?as1, Inr x) \<and> ap_key x = asked_key q \<and> ap_status x \<noteq> Expired \<and>
        (\<forall>b \<in> set ?as1. ap_key b = asked_key q \<longrightarrow> ap_created_at b \<le> ap_created_at x)"
    then show ?thesis
      using True unfolding create_ends_def Let_def by (auto intro!: exI [of _ ?as1])
  qed
qed

text \<open>A statement keyed by tenant and identifier changes exactly the one record found by that key.\<close>

lemma keyed_changed:
  assumes "distinct (map ap_id as)" "find (\<lambda>a. ap_tenant a = t \<and> ap_id a = k) as = Some a" "Q a"
  shows "sql_changed (\<lambda>a. ap_tenant a = t \<and> ap_id a = k \<and> Q a) as = 1"
  using assms find_SomeD [OF assms(2)]
  by (intro sql_changed_unique [of ap_id as a]) auto

definition decided :: "approval_decision \<Rightarrow> string \<Rightarrow> string option \<Rightarrow> int \<Rightarrow> approval \<Rightarrow> approval" where
  "decided decision actor reason now a =
     a \<lparr> ap_status := (case decision of Approve \<Rightarrow> Approved | Deny \<Rightarrow> Denied),
       ap_decided_at := Some now, ap_decision_actor := Some actor, ap_decision_reason := reason \<rparr>"

definition actor_ok :: "string \<Rightarrow> string option \<Rightarrow> bool" where
  "actor_ok actor reason \<longleftrightarrow> actor \<noteq> [] \<and> length actor \<le> MAX_DECISION_ACTOR_BYTES \<and>
     (case reason of None \<Rightarrow> True | Some v \<Rightarrow> length v \<le> MAX_DECISION_REASON_BYTES)"

lemma decide_spec:
  assumes U: "uuid_lib_ok U" and ok: "approvals_ok U as"
  shows "(if \<not> actor_ok actor reason
     then \<exists>m. decide U t k decision actor reason now (map (row_of U) as) =
            (map (row_of U) as, Inl (InvalidInput m))
     else case find (\<lambda>a. ap_tenant a = t \<and> ap_id a = k) as of
       None \<Rightarrow> decide U t k decision actor reason now (map (row_of U) as) = (map (row_of U) as, Inr None)
     | Some a \<Rightarrow>
         let P = (\<lambda>a. ap_tenant a = t \<and> ap_id a = k \<and> ap_status a = Pending) in
         decide U t k decision actor reason now (map (row_of U) as) =
           (if ap_status a \<noteq> Pending then (map (row_of U) as, Inr None)
            else if ap_expires_at a \<le> now
            then (map (row_of U) (sql_update P (\<lambda>a. a \<lparr> ap_status := Expired \<rparr>) as), Inr None)
            else (map (row_of U) (sql_update P (decided decision actor reason now) as),
                  Inr (Some (decided decision actor reason now a)))))"
proof (cases "actor_ok actor reason")
  case False
  then show ?thesis
    by (auto simp: decide_def actor_ok_def not_le split: option.splits)
next
  case True
  then have guards: "\<not> (actor = [] \<or> length actor > MAX_DECISION_ACTOR_BYTES)"
    "\<not> (case reason of None \<Rightarrow> False | Some v \<Rightarrow> length v > MAX_DECISION_REASON_BYTES)"
    by (auto simp: actor_ok_def split: option.splits)
  have typed: "list_all (typed_ok U) as" and ids: "distinct (map ap_id as)"
    using ok by (simp_all add: approvals_ok_def)
  let ?P = "\<lambda>r. by_id U t k r \<and> c_status r = ''pending''"
  let ?Q = "\<lambda>a. ap_tenant a = t \<and> ap_id a = k \<and> ap_status a = Pending"
  have upd: "sql_update ?P f (map (row_of U) as) = map (row_of U) (sql_update ?Q g as)"
    if "\<And>a. f (row_of U a) = row_of U (g a)" for f g
    using that U by (intro sql_update_row_of) auto
  have chg: "sql_changed ?P (map (row_of U) as) = sql_changed ?Q as"
    using U by (intro sql_changed_row_of) auto
  have one: "sql_changed ?Q as = 1"
    if "find (\<lambda>a. ap_tenant a = t \<and> ap_id a = k) as = Some a" "ap_status a = Pending" for a
    using keyed_changed [OF ids that(1), of "\<lambda>a. ap_status a = Pending"] that(2) by simp
  show ?thesis
    unfolding decide_def find_by_id [OF U typed]
    using True guards
    by (auto simp: upd [of _ "\<lambda>a. a \<lparr> ap_status := Expired \<rparr>"]
        upd [of _ "decided decision actor reason now"] chg one Let_def decided_def
        split: option.splits)
qed

definition consumed_by :: "approval_consumption \<Rightarrow> approval \<Rightarrow> approval" where
  "consumed_by c a = a \<lparr> ap_status := Consumed, ap_consumed_at := Some (ac_now c) \<rparr>"

lemma consume_spec:
  assumes U: "uuid_lib_ok U" and ok: "approvals_ok U as"
  shows "(case canonical_token_identity U (ac_token_identity c) of
       Inl e \<Rightarrow> consume_approved U c (map (row_of U) as) = (map (row_of U) as, Inl e)
     | Inr token \<Rightarrow>
       (case find (\<lambda>a. ap_tenant a = ac_tenant c \<and> ap_id a = ac_id c) as of
          None \<Rightarrow> consume_approved U c (map (row_of U) as) = (map (row_of U) as, Inr None)
        | Some a \<Rightarrow>
            consume_approved U c (map (row_of U) as) =
              (if exact_match a c (ac_token_identity c)
               then (map (row_of U) (sql_update (\<lambda>a. ap_tenant a = ac_tenant c \<and> ap_id a = ac_id c \<and>
                       ap_status a = Approved \<and> ac_now c < ap_expires_at a) (consumed_by c) as),
                     Inr (Some (consumed_by c a)))
               else if ap_status a = Approved \<and> ap_expires_at a \<le> ac_now c
               then (map (row_of U) (sql_update (\<lambda>a. ap_tenant a = ac_tenant c \<and> ap_id a = ac_id c \<and>
                       ap_status a = Approved) (\<lambda>a. a \<lparr> ap_status := Expired \<rparr>) as), Inr None)
               else (map (row_of U) as, Inr None))))"
proof (cases "canonical_token_identity U (ac_token_identity c)")
  case (Inl e)
  then show ?thesis by (simp add: consume_approved_def)
next
  case (Inr token)
  then have tok: "token = ac_token_identity c" using canonical_token_identityD by blast
  have typed: "list_all (typed_ok U) as" and ids: "distinct (map ap_id as)"
    using ok by (simp_all add: approvals_ok_def)
  let ?t = "ac_tenant c" and ?k = "ac_id c"
  let ?P = "\<lambda>r. by_id U ?t ?k r \<and> c_status r = ''approved''"
  let ?Q = "\<lambda>a. ap_tenant a = ?t \<and> ap_id a = ?k \<and> ap_status a = Approved"
  let ?P' = "\<lambda>r. by_id U ?t ?k r \<and> c_status r = ''approved'' \<and> ac_now c < c_expires_at r"
  let ?Q' = "\<lambda>a. ap_tenant a = ?t \<and> ap_id a = ?k \<and> ap_status a = Approved \<and> ac_now c < ap_expires_at a"
  have upd: "sql_update ?P (\<lambda>r. r \<lparr> c_status := ''expired'' \<rparr>) (map (row_of U) as) =
      map (row_of U) (sql_update ?Q (\<lambda>a. a \<lparr> ap_status := Expired \<rparr>) as)"
    using U by (intro sql_update_row_of) auto
  have upd': "sql_update ?P' (\<lambda>r. r \<lparr> c_status := ''consumed'', c_consumed_at := Some (ac_now c) \<rparr>)
      (map (row_of U) as) = map (row_of U) (sql_update ?Q' (consumed_by c) as)"
    using U by (intro sql_update_row_of) (auto simp: consumed_by_def)
  have chg: "sql_changed ?P' (map (row_of U) as) = sql_changed ?Q' as"
    using U by (intro sql_changed_row_of) auto
  have one: "sql_changed ?Q' as = 1"
    if "find (\<lambda>a. ap_tenant a = ?t \<and> ap_id a = ?k) as = Some a" "exact_match a c token" for a
    using keyed_changed [OF ids that(1), of "\<lambda>a. ap_status a = Approved \<and> ac_now c < ap_expires_at a"]
      that(2) by (simp add: exact_match_def)
  show ?thesis
    unfolding consume_approved_def Inr find_by_id [OF U typed]
    by (auto simp: upd upd' chg one Let_def tok [symmetric] consumed_by_def split: option.splits)
qed


section \<open>Where an authorization comes from\<close>

definition authorized :: "approval \<Rightarrow> bool" where
  "authorized a = (ap_status a = Approved \<or> ap_status a = Consumed)"

text \<open>An operator approved the record in the given operations, before it expired.\<close>

definition decided_in :: "approval \<Rightarrow> approval_op list \<Rightarrow> bool" where
  "decided_in a ops \<longleftrightarrow> (\<exists>actor reason t. Decide (ap_tenant a) (ap_id a) Approve actor reason t \<in> set ops \<and>
     ap_decided_at a = Some t \<and> ap_decision_actor a = Some actor \<and> t < ap_expires_at a)"

text \<open>A request asked for exactly what the record binds.\<close>

definition requested_in :: "approval \<Rightarrow> approval_op list \<Rightarrow> bool" where
  "requested_in a ops \<longleftrightarrow> (\<exists>fresh q now. CreateOrGet fresh q now \<in> set ops \<and>
     ap_key a = asked_key q \<and> ap_prompt a = ar_prompt q \<and> ap_expires_at a = ar_expires_at q)"

definition same_decision :: "approval \<Rightarrow> approval \<Rightarrow> bool" where
  "same_decision a b \<longleftrightarrow> authorized a \<and> ap_decided_at a = ap_decided_at b \<and>
     ap_decision_actor a = ap_decision_actor b"

definition origin :: "approval_op \<Rightarrow> approval list \<Rightarrow> approval list \<Rightarrow> bool" where
  "origin x as as' \<longleftrightarrow> (\<forall>b \<in> set as'.
     (\<exists>a \<in> set as. same_binding a b \<and> (authorized b \<longrightarrow> same_decision a b \<or> decided_in b [x])) \<or>
     (\<not> authorized b \<and> requested_in b [x]))"

definition steps :: "uuid_lib \<Rightarrow> approval_op \<Rightarrow> approval list \<Rightarrow> approval list \<Rightarrow> bool" where
  "steps U x as as' \<longleftrightarrow> evolves U as as' \<and> origin x as as'"

lemma same_refl [simp]: "same_binding a a" "same_decision a a = authorized a"
  by (simp_all add: same_binding_def same_decision_def)

lemma steps_refl: "steps U x as as"
  by (simp add: steps_def evolves_refl origin_def) (metis same_refl)

lemma steps_update:
  assumes "\<And>a. a \<in> set as \<Longrightarrow> P a \<Longrightarrow> approval_advance a (f a)"
    and "\<And>a. a \<in> set as \<Longrightarrow> P a \<Longrightarrow> authorized (f a) \<Longrightarrow> same_decision a (f a) \<or> decided_in (f a) [x]"
  shows "steps U x as (sql_update P f as)"
proof -
  have "sql_update P f as = sql_update (\<lambda>a. a \<in> set as \<and> P a) f as"
    by (simp add: sql_update_def)
  also have "evolves U as \<dots>" using assms(1) by (intro evolves_update) auto
  finally have "evolves U as (sql_update P f as)" .
  moreover have "same_binding a (f a)" if "a \<in> set as" "P a" for a
    using that assms(1) advance_same_binding by blast
  then have "origin x as (sql_update P f as)"
    using assms(2) by (fastforce simp: origin_def set_sql_update)
  ultimately show ?thesis by (simp add: steps_def)
qed

lemma steps_expire_all: "steps U x as (expire_all t now as)"
  unfolding expire_all_def
  by (rule steps_update)
    (auto simp: lapsed_def authorized_def intro: approval_advance.lapse)


section \<open>The store keeps its contracts\<close>

lemma create_ends_steps:
  assumes "create_ends U fresh q now as as' res" and "version_num U (ar_tenant q) = 8"
    and "version_num U (ar_principal q) = 8" and "length (ar_request_hash q) = 32"
  shows "steps U (CreateOrGet fresh q now) as as'"
proof -
  let ?as1 = "expire_all (ar_tenant q) now as"
  let ?a = "new_approval fresh q (ar_token_identity q)"
  have "as' = as \<or> as' = ?as1 \<or> (as' = ?as1 @ [?a] \<and> fresh \<notin> ap_id ` set as \<and>
      (\<forall>b \<in> set ?as1. \<not> (active b \<and> ap_key b = asked_key q)))"
    using assms(1) by (auto simp: create_ends_def Let_def split: if_splits)
  moreover have "steps U (CreateOrGet fresh q now) as (?as1 @ [?a])"
    if "fresh \<notin> ap_id ` set as" "\<forall>b \<in> set ?as1. \<not> (active b \<and> ap_key b = asked_key q)"
  proof -
    have "ap_id ` set ?as1 = ap_id ` set as"
      using map_ap_id_expire_all by (metis list.set_map)
    then have "fresh_in U ?a ?as1"
      using that assms(2-4)
      by (auto simp: fresh_in_def new_approval_def typed_ok_def lifecycle_ok_def ap_key_def asked_key_def)
    moreover have "requested_in ?a [CreateOrGet fresh q now]" "\<not> authorized ?a"
      by (auto simp: requested_in_def new_approval_def ap_key_def asked_key_def authorized_def)
    ultimately show ?thesis
      using list_all2_expire_all steps_expire_all
      by (auto simp: steps_def evolves_def origin_def)
  qed
  ultimately show ?thesis using steps_refl steps_expire_all by blast
qed

lemma decide_steps:
  assumes "uuid_lib_ok U" "approvals_ok U as"
  shows "\<exists>as'. fst (decide U t k decision actor reason now (map (row_of U) as)) = map (row_of U) as' \<and>
    steps U (Decide t k decision actor reason now) as as'"
proof -
  let ?P = "\<lambda>a. ap_tenant a = t \<and> ap_id a = k \<and> ap_status a = Pending"
  let ?x = "Decide t k decision actor reason now"
  have lapse: "steps U ?x as (sql_update ?P (\<lambda>a. a \<lparr> ap_status := Expired \<rparr>) as)"
    by (rule steps_update) (auto simp: active_def authorized_def intro: approval_advance.lapse)
  have dec: "steps U ?x as (sql_update ?P (decided decision actor reason now) as)"
    if a: "find (\<lambda>a. ap_tenant a = t \<and> ap_id a = k) as = Some a" "now < ap_expires_at a" "actor \<noteq> []" for a
  proof (rule steps_update)
    fix b
    assume b: "b \<in> set as" "?P b"
    then have "b = a"
      using a(1) assms(2) find_SomeD [OF a(1)]
      by (auto simp: approvals_ok_def distinct_map dest: inj_onD)
    then show "approval_advance b (decided decision actor reason now b)"
      using a b by (auto simp: decided_def intro!: approval_advance.decision split: approval_decision.splits)
    assume "authorized (decided decision actor reason now b)"
    then have "decision = Approve" by (cases decision) (auto simp: decided_def authorized_def)
    then show "same_decision b (decided decision actor reason now b) \<or>
        decided_in (decided decision actor reason now b) [?x]"
      using b a \<open>b = a\<close> by (simp add: decided_in_def decided_def)
  qed
  show ?thesis
    using decide_spec [OF assms, of actor reason t k decision now] steps_refl lapse dec
    by (auto simp: Let_def actor_ok_def split: if_splits option.splits)
qed

lemma consume_steps:
  assumes "uuid_lib_ok U" "approvals_ok U as"
  shows "\<exists>as'. fst (consume_approved U c (map (row_of U) as)) = map (row_of U) as' \<and>
    steps U (Consume c) as as'"
proof -
  have "steps U (Consume c) as (sql_update (\<lambda>a. ap_tenant a = ac_tenant c \<and> ap_id a = ac_id c \<and>
      ap_status a = Approved) (\<lambda>a. a \<lparr> ap_status := Expired \<rparr>) as)"
    by (rule steps_update) (auto simp: active_def authorized_def intro: approval_advance.lapse)
  moreover have "steps U (Consume c) as (sql_update (\<lambda>a. ap_tenant a = ac_tenant c \<and> ap_id a = ac_id c \<and>
      ap_status a = Approved \<and> ac_now c < ap_expires_at a) (consumed_by c) as)"
    by (rule steps_update)
      (auto simp: consumed_by_def same_decision_def authorized_def intro: approval_advance.consumption)
  ultimately show ?thesis
    using consume_spec [OF assms, of c] steps_refl
    by (auto split: sum.splits option.splits if_splits)
qed

lemma approval_step_steps:
  assumes "uuid_lib_ok U" "approvals_ok U as" "approval_op_ok U x"
  shows "\<exists>as'. fst (approval_step U x (map (row_of U) as)) = map (row_of U) as' \<and> steps U x as as'"
proof (cases x)
  case (CreateOrGet fresh q now)
  then show ?thesis
    using create_or_get_spec [OF assms(1,2), of q fresh now] create_ends_steps [of U fresh q now as]
      assms(3) by auto
next
  case (Decide t k decision actor reason now)
  then show ?thesis using decide_steps [OF assms(1,2)] by simp
next
  case (Expire t now)
  then show ?thesis
    using expire_rows_of [OF assms(1)] steps_expire_all by (auto simp: expire_def)
next
  case (Consume c)
  then show ?thesis using consume_steps [OF assms(1,2)] by simp
qed (use steps_refl in auto)

lemma approval_step_evolves:
  assumes "uuid_lib_ok U" "approvals_ok U as" "approval_op_ok U x"
  shows "\<exists>as'. fst (approval_step U x (map (row_of U) as)) = map (row_of U) as' \<and> evolves U as as'"
  using approval_step_steps [OF assms] by (auto simp: steps_def)

definition approval_entry :: "uuid_lib \<Rightarrow> approval_db \<Rightarrow> uuid \<Rightarrow> approval option" where
  "approval_entry U db k =
     (case find (\<lambda>r. c_id r = uuid_text U k) db of
        None \<Rightarrow> None
      | Some r \<Rightarrow> (case approval_from_row U r of Inl _ \<Rightarrow> None | Inr a \<Rightarrow> Some a))"

lemma approval_entry_of:
  assumes "uuid_lib_ok U" "approvals_ok U as"
  shows "approval_entry U (map (row_of U) as) k = find (\<lambda>a. ap_id a = k) as"
proof -
  have "find (\<lambda>r. c_id r = uuid_text U k) (map (row_of U) as) =
      map_option (row_of U) (find (\<lambda>a. ap_id a = k) as)"
    using assms(1) by (intro find_row_of) simp
  moreover have "typed_ok U a" if "find (\<lambda>a. ap_id a = k) as = Some a" for a
    using that assms(2) by (auto dest!: find_SomeD simp: approvals_ok_def list_all_iff)
  ultimately show ?thesis using assms(1) by (auto simp: approval_entry_def split: option.splits)
qed

definition approval_spent :: "uuid_lib \<Rightarrow> approval_db \<Rightarrow> uuid \<Rightarrow> bool" where
  "approval_spent U db k =
     (case approval_entry U db k of None \<Rightarrow> False | Some a \<Rightarrow> ap_status a = Consumed)"

fun consumes :: "uuid \<Rightarrow> approval_op \<Rightarrow> approval_reply \<Rightarrow> bool" where
  "consumes k (Consume c) (MaybeReply (Inr (Some a))) = (ac_id c = k)"
| "consumes k _ _ = False"

text \<open>What a successful consumption was allowed by, and what it leaves.\<close>

lemma consume_success:
  assumes U: "uuid_lib_ok U" and ok: "approvals_ok U as"
    and "snd (consume_approved U c (map (row_of U) as)) = Inr (Some b)"
  shows "\<exists>a. find (\<lambda>a. ap_id a = ac_id c) as = Some a \<and> ap_tenant a = ac_tenant c \<and>
    exact_match a c (ac_token_identity c) \<and> b = consumed_by c a \<and>
    approval_entry U (fst (consume_approved U c (map (row_of U) as))) (ac_id c) = Some b"
proof -
  let ?Q = "\<lambda>a. ap_tenant a = ac_tenant c \<and> ap_id a = ac_id c \<and> ap_status a = Approved \<and> ac_now c < ap_expires_at a"
  obtain a where a: "find (\<lambda>a. ap_tenant a = ac_tenant c \<and> ap_id a = ac_id c) as = Some a"
    "exact_match a c (ac_token_identity c)" "b = consumed_by c a"
    and fst: "fst (consume_approved U c (map (row_of U) as)) =
      map (row_of U) (sql_update ?Q (consumed_by c) as)"
    using consume_spec [OF U ok, of c] assms(3) by (auto split: sum.splits option.splits if_splits)
  have in_as: "a \<in> set as" "ap_tenant a = ac_tenant c" "ap_id a = ac_id c"
    using find_SomeD [OF a(1)] by auto
  have found: "find (\<lambda>a. ap_id a = ac_id c) as = Some a"
    using find_unique [of ap_id as a] ok in_as by (simp add: approvals_ok_def)
  have "evolves U as (sql_update ?Q (consumed_by c) as)"
    by (rule evolves_update) (auto simp: consumed_by_def intro: approval_advance.consumption)
  then have "approvals_ok U (sql_update ?Q (consumed_by c) as)" using evolves_ok ok by blast
  moreover have "find (\<lambda>a. ap_id a = ac_id c) (sql_update ?Q (consumed_by c) as) = Some b"
    using found a in_as
    by (subst find_sql_update) (auto simp: consumed_by_def exact_match_def)
  ultimately show ?thesis using a in_as found fst approval_entry_of [OF U] by auto
qed

interpretation approval_progress: progress_store "approval_step U" "approval_op_ok U"
  "approval_inv U" "approval_entry U" approval_forward for U
proof
  fix s x
  assume "approval_inv U s" "approval_op_ok U x"
  then obtain as where "uuid_lib_ok U" "s = map (row_of U) as" "approvals_ok U as"
    by (auto simp: approval_inv_def)
  then show "approval_inv U (fst (approval_step U x s))"
    using approval_step_evolves [of U as x] \<open>approval_op_ok U x\<close> evolves_ok
    unfolding approval_inv_def by metis
next
  fix s x k v
  assume "approval_inv U s" "approval_op_ok U x" and k: "approval_entry U s k = Some v"
  then obtain as as' where as: "uuid_lib_ok U" "s = map (row_of U) as" "approvals_ok U as"
    and as': "fst (approval_step U x s) = map (row_of U) as'" "evolves U as as'"
    using approval_step_evolves by (fastforce simp: approval_inv_def)
  have "find (\<lambda>a. ap_id a = k) as = Some v" using k as approval_entry_of by simp
  then obtain w where "find (\<lambda>a. ap_id a = k) as' = Some w" "approval_forward v w"
    using evolves_entry [OF as'(2)] by blast
  then show "\<exists>v'. approval_entry U (fst (approval_step U x s)) k = Some v' \<and> approval_forward v v'"
    using as as' approval_entry_of evolves_ok by metis
qed auto

interpretation approval_once: once_store "approval_step U" "approval_op_ok U" "approval_inv U"
  "approval_spent U" consumes for U
proof
  fix s x k
  assume inv: "approval_inv U s" "approval_op_ok U x" and sp: "approval_spent U s k"
  then obtain a where a: "approval_entry U s k = Some a" "ap_status a = Consumed"
    by (auto simp: approval_spent_def split: option.splits)
  then obtain b where "approval_entry U (fst (approval_step U x s)) k = Some b" "approval_forward a b"
    using approval_progress.entry_step inv by blast
  moreover have "b = a" using calculation(2) a(2) by (intro advance_terminal) (auto simp: active_def)
  ultimately show "approval_spent U (fst (approval_step U x s)) k"
    using a by (simp add: approval_spent_def)
next
  fix s x k
  assume inv: "approval_inv U s" and "approval_op_ok U x"
    and "consumes k x (snd (approval_step U x s))"
  then obtain c b as where x: "x = Consume c" "ac_id c = k" and U: "uuid_lib_ok U"
    and as: "s = map (row_of U) as" "approvals_ok U as"
    and b: "snd (consume_approved U c s) = Inr (Some b)"
    by (cases "(k, x, snd (approval_step U x s))" rule: consumes.cases) (auto simp: approval_inv_def)
  from consume_success [OF U as(2), of c b] b as(1) obtain a where
    a: "find (\<lambda>a. ap_id a = ac_id c) as = Some a" "exact_match a c (ac_token_identity c)"
      "b = consumed_by c a" "approval_entry U (fst (consume_approved U c s)) (ac_id c) = Some b"
    by auto
  show "\<not> approval_spent U s k"
    using a(1,2) x approval_entry_of [OF U as(2), of k] as(1)
    by (simp add: approval_spent_def exact_match_def)
  show "approval_spent U (fst (approval_step U x s)) k"
    using a(3,4) x by (simp add: approval_spent_def consumed_by_def)
qed


section \<open>Properties of the approval store\<close>

lemma requested_in_same: "same_binding a b \<Longrightarrow> requested_in a ops \<Longrightarrow> requested_in b ops"
  by (simp add: requested_in_def same_binding_def)

lemma decided_in_same:
  "same_binding a b \<Longrightarrow> same_decision a b \<Longrightarrow> decided_in a ops \<Longrightarrow> decided_in b ops"
  by (simp add: decided_in_def same_binding_def same_decision_def ap_key_def)

lemma requested_in_mono: "requested_in a xs \<Longrightarrow> (\<And>x. x \<in> set xs \<Longrightarrow> x \<in> set ys) \<Longrightarrow> requested_in a ys"
  unfolding requested_in_def by blast

lemma decided_in_mono: "decided_in a xs \<Longrightarrow> (\<And>x. x \<in> set xs \<Longrightarrow> x \<in> set ys) \<Longrightarrow> decided_in a ys"
  unfolding decided_in_def by blast

lemma approval_run_provenance:
  assumes U: "uuid_lib_ok U" and "list_all (approval_op_ok U) ops"
  shows "\<exists>as. fst (run (approval_step U) ops []) = map (row_of U) as \<and> approvals_ok U as \<and>
    (\<forall>a \<in> set as. requested_in a ops \<and> (authorized a \<longrightarrow> decided_in a ops))"
  using assms(2)
proof (induction ops rule: rev_induct)
  case Nil
  then show ?case by (simp add: approvals_ok_def)
next
  case (snoc x ops)
  then obtain as where as: "fst (run (approval_step U) ops []) = map (row_of U) as" "approvals_ok U as"
    "\<forall>a \<in> set as. requested_in a ops \<and> (authorized a \<longrightarrow> decided_in a ops)"
    by auto
  obtain as' where as': "fst (approval_step U x (map (row_of U) as)) = map (row_of U) as'"
    "steps U x as as'"
    using approval_step_steps [OF U as(2), of x] snoc.prems by auto
  have "requested_in b (ops @ [x]) \<and> (authorized b \<longrightarrow> decided_in b (ops @ [x]))" if b: "b \<in> set as'" for b
  proof -
    consider (old) a where "a \<in> set as" "same_binding a b"
        "authorized b \<longrightarrow> same_decision a b \<or> decided_in b [x]"
      | (new) "\<not> authorized b" "requested_in b [x]"
      using as'(2) b by (auto simp: steps_def origin_def)
    then show ?thesis
    proof cases
      case old
      then have "requested_in b ops" "same_decision a b \<Longrightarrow> decided_in b ops"
        using as(3) requested_in_same decided_in_same by (blast, metis same_decision_def)
      then show ?thesis using old(3) requested_in_mono decided_in_mono by (metis Un_iff set_append)
    next
      case new
      then show ?thesis by (auto simp: requested_in_def)
    qed
  qed
  moreover have "approvals_ok U as'" using as'(2) as(2) evolves_ok by (auto simp: steps_def)
  ultimately show ?case using as(1) as'(1) by (auto simp: run_append run_Cons simp del: run.simps(2))
qed

lemma approval_inv_run:
  assumes "uuid_lib_ok U" "list_all (approval_op_ok U) ops"
  shows "approval_inv U (fst (run (approval_step U) ops []))"
  using approval_run_provenance [OF assms] assms(1) by (auto simp: approval_inv_def)

text \<open>
  Over any sequence of store operations on an initially empty store, in whatever order
  concurrent callers are serialised, at most one consumption of a given approval succeeds.
\<close>

theorem approval_consumed_at_most_once:
  assumes "uuid_lib_ok U" and "list_all (approval_op_ok U) ops"
  shows "granted (consumes k) ops (snd (run (approval_step U) ops [])) \<le> 1"
  using assms by (intro approval_once.at_most_once) (auto simp: approval_inv_def approvals_ok_def)

text \<open>
  Property C30. A consumption that succeeds was asked for and approved: earlier in the history a
  request asked for an approval with the same tenant, principal, token, canonical request hash and
  policy version, an operator approved that record before its expiry, and the consumption itself
  happens before the expiry.
\<close>

theorem approval_consumption_authorized:
  assumes "uuid_lib_ok U" and "list_all (approval_op_ok U) ops"
    and "snd (consume_approved U c (fst (run (approval_step U) ops []))) = Inr (Some a)"
  shows "(\<exists>fresh q now. CreateOrGet fresh q now \<in> set ops \<and> ar_tenant q = ac_tenant c \<and>
       ar_principal q = ac_principal c \<and> ar_token_identity q = ac_token_identity c \<and>
       ar_request_hash q = ac_request_hash c \<and> ar_policy_version q = ac_policy_version c \<and>
       ac_now c < ar_expires_at q) \<and>
    (\<exists>actor reason t. Decide (ac_tenant c) (ac_id c) Approve actor reason t \<in> set ops \<and>
       ap_decision_actor a = Some actor \<and> t < ap_expires_at a) \<and>
    ap_id a = ac_id c \<and> ap_status a = Consumed \<and> ap_consumed_at a = Some (ac_now c)"
proof -
  obtain as where as: "fst (run (approval_step U) ops []) = map (row_of U) as" "approvals_ok U as"
    "\<forall>a \<in> set as. requested_in a ops \<and> (authorized a \<longrightarrow> decided_in a ops)"
    using approval_run_provenance [OF assms(1,2)] by blast
  obtain b where b: "find (\<lambda>a. ap_id a = ac_id c) as = Some b" "ap_tenant b = ac_tenant c"
    "exact_match b c (ac_token_identity c)" "a = consumed_by c b"
    using consume_success [OF assms(1) as(2)] assms(3) as(1) by auto
  have id: "b \<in> set as" "ap_id b = ac_id c" using find_SomeD [OF b(1)] by auto
  have "authorized b" using b(3) by (simp add: authorized_def exact_match_def)
  then have "requested_in b ops" and d: "decided_in b ops" using as(3) id(1) by auto
  then obtain fresh q now where q: "CreateOrGet fresh q now \<in> set ops" "ap_key b = asked_key q"
    "ap_expires_at b = ar_expires_at q" by (auto simp: requested_in_def)
  have "ar_tenant q = ac_tenant c \<and> ar_principal q = ac_principal c \<and>
      ar_token_identity q = ac_token_identity c \<and> ar_request_hash q = ac_request_hash c \<and>
      ar_policy_version q = ac_policy_version c \<and> ac_now c < ar_expires_at q"
    using q b by (simp add: exact_match_def ap_key_def asked_key_def)
  moreover have "\<exists>actor reason t. Decide (ac_tenant c) (ac_id c) Approve actor reason t \<in> set ops \<and>
      ap_decision_actor a = Some actor \<and> t < ap_expires_at a"
    using d b id by (auto simp: decided_in_def consumed_by_def)
  ultimately show ?thesis using q(1) b(4) id(2) by (simp add: consumed_by_def) blast
qed

text \<open>
  Records are never lost and only move along the lifecycle: whatever operations
  follow, the record keeps its identifier, bindings, prompt and times, its timestamps fit its
  status, and a record that is denied, expired or consumed does not change at all.
\<close>

theorem approval_lifecycle_monotone:
  assumes "uuid_lib_ok U" and "list_all (approval_op_ok U) (ops @ later)"
    and "approval_entry U (fst (run (approval_step U) ops [])) k = Some a"
  shows "\<exists>b. approval_entry U (fst (run (approval_step U) (ops @ later) [])) k = Some b \<and>
    approval_forward a b \<and> same_binding a b \<and> lifecycle_ok b \<and> (\<not> active a \<longrightarrow> b = a)"
proof -
  have inv: "approval_inv U (fst (run (approval_step U) ops []))"
    using assms by (intro approval_inv_run) auto
  obtain b where b: "approval_entry U (fst (run (approval_step U) (ops @ later) [])) k = Some b"
    "approval_forward a b"
    using approval_progress.entry_run [OF inv, of later k a] assms(2,3) by (auto simp: run_append)
  have "approval_inv U (fst (run (approval_step U) (ops @ later) []))"
    using assms by (intro approval_inv_run)
  then obtain bs where "fst (run (approval_step U) (ops @ later) []) = map (row_of U) bs"
    "approvals_ok U bs" by (auto simp: approval_inv_def)
  then have "lifecycle_ok b"
    using b(1) approval_entry_of [OF assms(1)] find_SomeD
    by (fastforce simp: approvals_ok_def list_all_iff)
  then show ?thesis using b advance_same_binding advance_terminal by blast
qed

text \<open>
  On any store the operations can reach, a valid unexpired request with an unused fresh
  identifier always gets a record: one for exactly its tenant, principal, token, tool, action, hash
  and policy, stored in the table, not expired, and live when it is pending or approved.
\<close>

theorem create_or_get_returns:
  assumes "uuid_lib_ok U" and "list_all (approval_op_ok U) ops"
    and "approval_op_ok U (CreateOrGet fresh q now)"
    and "validate_request U q = Inr ()" and "now < ar_expires_at q"
    and "approval_entry U (fst (run (approval_step U) ops [])) fresh = None"
  shows "\<exists>db a. create_or_get_pending U fresh q now (fst (run (approval_step U) ops [])) = (db, Inr a) \<and>
    approval_entry U db (ap_id a) = Some a \<and> ap_key a = asked_key q \<and> ap_status a \<noteq> Expired \<and>
    (active a \<longrightarrow> now < ap_expires_at a)"
proof -
  obtain as where as: "fst (run (approval_step U) ops []) = map (row_of U) as" "approvals_ok U as"
    using approval_inv_run [OF assms(1,2)] by (auto simp: approval_inv_def)
  have fresh: "fresh \<notin> ap_id ` set as"
    using assms(6) approval_entry_of [OF assms(1) as(2)] as(1) by (auto simp: find_None)
  obtain as' where as': "fst (create_or_get_pending U fresh q now (map (row_of U) as)) = map (row_of U) as'"
    "create_ends U fresh q now as as' (snd (create_or_get_pending U fresh q now (map (row_of U) as)))"
    using create_or_get_spec [OF assms(1) as(2)] assms(3) by fastforce
  let ?as1 = "expire_all (ar_tenant q) now as" and ?a = "new_approval fresh q (ar_token_identity q)"
  obtain a where a: "snd (create_or_get_pending U fresh q now (map (row_of U) as)) = Inr a" "a \<in> set as'"
    "ap_key a = asked_key q" "ap_status a \<noteq> Expired" "a \<in> set ?as1 \<or> a = ?a"
    using as'(2) assms(4,5) fresh
    by (auto simp: create_ends_def Let_def new_approval_def ap_key_def asked_key_def)
  have ok: "approvals_ok U as'"
    using create_ends_steps [OF as'(2)] assms(3) as(2) evolves_ok by (auto simp: steps_def)
  have "find (\<lambda>x. ap_id x = ap_id a) as' = Some a"
    using ok a(2) find_unique [of ap_id as' a] by (simp add: approvals_ok_def)
  moreover have "ap_tenant a = ar_tenant q" using a(3) by (simp add: ap_key_def asked_key_def)
  then have "active a \<longrightarrow> now < ap_expires_at a"
    using a(5) expire_all_live assms(5) by (auto simp: new_approval_def)
  ultimately show ?thesis
    using a as as' approval_entry_of [OF assms(1) ok] by (metis prod.collapse)
qed

definition op_tenant :: "approval_op \<Rightarrow> uuid" where
  "op_tenant x = (case x of CreateOrGet _ q _ \<Rightarrow> ar_tenant q | Get t _ _ \<Rightarrow> t | List t _ \<Rightarrow> t
     | Decide t _ _ _ _ _ \<Rightarrow> t | Expire t _ \<Rightarrow> t | Consume c \<Rightarrow> ac_tenant c)"

lemma filter_sql_update:
  "(\<And>r. P r \<Longrightarrow> \<not> Q r \<and> \<not> Q (f r)) \<Longrightarrow> filter Q (sql_update P f t) = filter Q t"
  by (induction t) (auto simp: sql_update_def)

text \<open>
  Tenants are isolated: an operation on behalf of one tenant leaves the rows of all
  other tenants exactly as they were, on any table.
\<close>

theorem approval_tenant_isolation:
  "filter (\<lambda>r. c_tenant_id r \<noteq> uuid_text U (op_tenant x)) (fst (approval_step U x db)) =
   filter (\<lambda>r. c_tenant_id r \<noteq> uuid_text U (op_tenant x)) db"
proof -
  have ex: "filter (\<lambda>r. c_tenant_id r \<noteq> uuid_text U t) (expire_rows U t now db) =
      filter (\<lambda>r. c_tenant_id r \<noteq> uuid_text U t) db" for t now
    unfolding expire_rows_def by (rule filter_sql_update) (auto simp: expire_where_def)
  have keyed: "filter (\<lambda>r. c_tenant_id r \<noteq> uuid_text U t) (sql_update (\<lambda>r. by_id U t k r \<and> Q r) f db) =
      filter (\<lambda>r. c_tenant_id r \<noteq> uuid_text U t) db"
    if "\<And>r. c_tenant_id (f r) = c_tenant_id r" for t k Q f
    using that by (intro filter_sql_update) (auto simp: by_id_def)
  show ?thesis
  proof (cases x)
    case (CreateOrGet fresh q now)
    then show ?thesis
      by (auto simp: op_tenant_def create_or_get_pending_def insert_pending_def Let_def ex
          inserted_row_def new_approval_def split: sum.splits option.splits)
  next
    case (Decide t k decision actor reason now)
    then show ?thesis
      by (auto simp: op_tenant_def decide_def Let_def keyed
          split: sum.splits option.splits)
  next
    case (Consume c)
    then show ?thesis
      by (auto simp: op_tenant_def consume_approved_def Let_def keyed
          split: sum.splits option.splits)
  qed (auto simp: op_tenant_def expire_def ex)
qed


section \<open>A concrete history\<close>

definition sample_request :: approval_request where
  "sample_request = \<lparr> ar_tenant = 8, ar_principal = 24,
     ar_token_identity = uuid_text sample_uuid_lib 4,
     ar_tool = ''git'', ar_action = ''push'', ar_request_hash = replicate 32 (CHR ''h''),
     ar_prompt = ''push?'', ar_policy_version = ''v1'', ar_created_at = 10, ar_expires_at = 100 \<rparr>"

definition sample_consumption :: approval_consumption where
  "sample_consumption = \<lparr> ac_tenant = 8, ac_id = 20, ac_principal = 24,
     ac_token_identity = uuid_text sample_uuid_lib 4,
     ac_request_hash = replicate 32 (CHR ''h''), ac_policy_version = ''v1'', ac_now = 30 \<rparr>"

definition sample_ops :: "approval_op list" where
  "sample_ops = [CreateOrGet 20 sample_request 10, Decide 8 20 Approve ''ops'' None 20]"

lemma sample_versions [simp]:
  "version_num sample_uuid_lib 8 = 8" "version_num sample_uuid_lib 24 = 8"
  "version_num sample_uuid_lib 4 = 4"
  by (simp_all add: sample_uuid_lib_def)

lemma sample_ops_ok: "list_all (approval_op_ok sample_uuid_lib) sample_ops"
  by (simp add: sample_ops_def sample_request_def)

lemma sample_token_ok:
  "canonical_token_identity sample_uuid_lib (uuid_text sample_uuid_lib 4) =
     Inr (uuid_text sample_uuid_lib 4)"
  using sample_uuid_lib_ok by (simp add: canonical_token_identity_def approval_limits)

lemma sample_valid: "validate_request sample_uuid_lib sample_request = Inr ()"
  by (simp add: validate_request_def sample_request_def sample_token_ok approval_limits)

definition sample_row :: approval where
  "sample_row = new_approval 20 sample_request (uuid_text sample_uuid_lib 4)"

lemma sample_create:
  "create_or_get_pending sample_uuid_lib 20 sample_request 10 [] =
     (map (row_of sample_uuid_lib) [sample_row], Inr sample_row)"
proof -
  have "length (ar_request_hash sample_request) = 32" "10 < ar_expires_at sample_request"
    "ar_token_identity sample_request = uuid_text sample_uuid_lib 4"
    by (simp_all add: sample_request_def)
  then show ?thesis
    using create_or_get_spec [OF sample_uuid_lib_ok, of "[]" sample_request 20 10]
    by (auto simp: create_ends_def approvals_ok_def sample_valid expire_all_def sql_update_def
        Let_def sample_row_def prod_eq_iff)
qed

lemma sample_approvals_ok: "approvals_ok sample_uuid_lib [sample_row]"
  by (simp add: approvals_ok_def sample_row_def new_approval_def sample_request_def typed_ok_def
      lifecycle_ok_def)

lemma sample_decide:
  "fst (decide sample_uuid_lib 8 20 Approve ''ops'' None 20 (map (row_of sample_uuid_lib) [sample_row])) =
   map (row_of sample_uuid_lib) [decided Approve ''ops'' None 20 sample_row]"
  using decide_spec [OF sample_uuid_lib_ok sample_approvals_ok, of "''ops''" None 8 20 Approve 20]
  by (simp add: actor_ok_def approval_limits sample_row_def new_approval_def sample_request_def
      Let_def sql_update_def)

lemma sample_run:
  "fst (run (approval_step sample_uuid_lib) sample_ops []) =
   map (row_of sample_uuid_lib) [decided Approve ''ops'' None 20 sample_row]"
  using sample_create sample_decide
  by (simp add: sample_ops_def run_Cons del: run.simps(2))

lemma sample_decided_ok:
  "approvals_ok sample_uuid_lib [decided Approve ''ops'' None 20 sample_row]"
  by (simp add: approvals_ok_def decided_def typed_ok_def lifecycle_ok_def sample_row_def
      new_approval_def sample_request_def)

lemma sample_consume:
  "snd (consume_approved sample_uuid_lib sample_consumption
     (fst (run (approval_step sample_uuid_lib) sample_ops []))) =
   Inr (Some (consumed_by sample_consumption (decided Approve ''ops'' None 20 sample_row)))"
  using consume_spec [OF sample_uuid_lib_ok sample_decided_ok, of sample_consumption]
  unfolding sample_run
  by (simp add: sample_consumption_def sample_token_ok sample_row_def new_approval_def
      sample_request_def decided_def exact_match_def)

theorem approval_consumed_at_most_once_witness:
  "let ops = sample_ops @ [Consume sample_consumption, Consume sample_consumption] in
   granted (consumes 20) ops (snd (run (approval_step sample_uuid_lib) ops [])) = 1"
proof -
  let ?ops = "sample_ops @ [Consume sample_consumption, Consume sample_consumption]"
  have "list_all (approval_op_ok sample_uuid_lib) ?ops" using sample_ops_ok by simp
  from approval_consumed_at_most_once [OF sample_uuid_lib_ok this, of 20]
  have "granted (consumes 20) ?ops (snd (run (approval_step sample_uuid_lib) ?ops [])) \<le> 1" .
  moreover have "granted (consumes 20) ?ops (snd (run (approval_step sample_uuid_lib) ?ops [])) \<ge> 1"
    using sample_consume
    by (simp add: run_append run_Cons granted_append sample_consumption_def [THEN arg_cong, of ac_id]
        del: run.simps(2))
  ultimately show ?thesis by (simp add: Let_def)
qed

theorem approval_consumption_authorized_witness:
  "\<exists>actor reason t. Decide 8 20 Approve actor reason t \<in> set sample_ops"
  using approval_consumption_authorized [OF sample_uuid_lib_ok sample_ops_ok sample_consume]
  by (auto simp: sample_consumption_def)

theorem approval_lifecycle_monotone_witness:
  "\<exists>b. approval_entry sample_uuid_lib (fst (run (approval_step sample_uuid_lib)
     (sample_ops @ [Consume sample_consumption]) [])) 20 = Some b \<and> ap_key b = ap_key sample_row"
proof -
  have "approval_entry sample_uuid_lib (fst (run (approval_step sample_uuid_lib) sample_ops [])) 20 =
      Some (decided Approve ''ops'' None 20 sample_row)"
    unfolding sample_run
    by (subst approval_entry_of [OF sample_uuid_lib_ok sample_decided_ok])
      (simp add: decided_def sample_row_def new_approval_def)
  from approval_lifecycle_monotone [OF sample_uuid_lib_ok _ this, of "[Consume sample_consumption]"]
  show ?thesis using sample_ops_ok by (auto simp: same_binding_def decided_def ap_key_def)
qed

theorem create_or_get_returns_witness:
  "\<exists>db a. create_or_get_pending sample_uuid_lib 20 sample_request 10 [] = (db, Inr a) \<and>
     ap_key a = asked_key sample_request"
  using create_or_get_returns [OF sample_uuid_lib_ok, of "[]" 20 sample_request 10] sample_valid
  by (auto simp: sample_request_def approval_entry_def)

end
