(* ===== verification/Witnessed.thy ===== *)
theory Witnessed
  imports Execution Witness Approval
begin

text \<open>
  The witnessed audit boundary: \<open>WitnessClient\<close> and \<open>WitnessedAudit\<close> of \<open>henosis-audit\<close>, and the
  \<open>AuditBoundary\<close> of \<open>syntheos-server\<close> that selects local or witnessed durability.

  These methods are asynchronous: between two store calls other requests act on the same stores. The
  shared state is the record \<open>world\<close>. What lies outside a method is a parameter of the record
  \<open>system\<close>: the clock, fresh identifiers and the HTTP exchange with the witness. Each of these may
  also change the world, which stands for everything other tasks did in the meantime; the rely
  condition \<open>world_advances\<close> says what such steps may do.
\<close>

section \<open>The shared world\<close>

record 'x world =
  w_audit :: audit_db
  w_approvals :: approval_db
  w_rest :: 'x

text \<open>What a checkpoint submission comes back with: no response, or a status and a decoded body.\<close>

datatype witness_response = TransportFailed string | HttpReply nat "witness_receipt option"

record 'x system =
  sy_lib :: audit_lib
  sy_ed :: ed25519
  sy_uuid :: uuid_lib
  sy_tick :: "'x world \<Rightarrow> 'x world \<times> tick"
  sy_clock :: "'x world \<Rightarrow> 'x world \<times> int"
  sy_new_v4 :: "'x world \<Rightarrow> 'x world \<times> uuid"
  sy_post :: "witness_checkpoint \<Rightarrow> 'x world \<Rightarrow> 'x world \<times> witness_response"

text \<open>Sequencing with \<open>?\<close>: an error returns at once.\<close>

definition and_then ::
    "'w \<times> ('e + 'a) \<Rightarrow> ('a \<Rightarrow> 'w \<Rightarrow> 'w \<times> ('e + 'b)) \<Rightarrow> 'w \<times> ('e + 'b)" where
  "and_then m f = (case m of (w, Inl e) \<Rightarrow> (w, Inl e) | (w, Inr x) \<Rightarrow> f x w)"

lemma and_then_simps [simp]:
  "and_then (w, Inl e) f = (w, Inl e)" "and_then (w, Inr x) f = f x w"
  by (simp_all add: and_then_def)

definition on_audit :: "(audit_db \<Rightarrow> audit_db \<times> 'r) \<Rightarrow> 'x world \<Rightarrow> 'x world \<times> 'r" where
  "on_audit f w = (case f (w_audit w) of (db, r) \<Rightarrow> (w \<lparr> w_audit := db \<rparr>, r))"

definition read_audit :: "(audit_db \<Rightarrow> 'r) \<Rightarrow> 'x world \<Rightarrow> 'x world \<times> 'r" where
  "read_audit f w = (w, f (w_audit w))"


section \<open>The store calls, with what they draw from outside\<close>

definition store_append ::
    "'x system \<Rightarrow> audit_event_input \<Rightarrow> 'x world \<Rightarrow> 'x world \<times> (audit_error + audit_record)" where
  "store_append S input w =
     (case sy_tick S w of (w1, tk) \<Rightarrow> on_audit (audit_append (sy_lib S) tk input) w1)"

definition store_claim ::
    "'x system \<Rightarrow> audit_event_input \<Rightarrow> 'x world \<Rightarrow> 'x world \<times> (audit_error + execution_claim)" where
  "store_claim S input w =
     (case sy_tick S w of (w1, tk) \<Rightarrow> on_audit (claim_execution (sy_lib S) tk input) w1)"

definition store_complete ::
    "'x system \<Rightarrow> audit_event_input \<Rightarrow> json \<Rightarrow> 'x world \<Rightarrow> 'x world \<times> (audit_error + execution_record)" where
  "store_complete S outcome result w =
     (case sy_tick S w of (w1, tk) \<Rightarrow> on_audit (complete_execution (sy_lib S) tk outcome result) w1)"

definition store_mark_indeterminate ::
    "'x system \<Rightarrow> string \<Rightarrow> string \<Rightarrow> string \<Rightarrow> json \<Rightarrow> 'x world \<Rightarrow> 'x world \<times> (audit_error + execution_record)" where
  "store_mark_indeterminate S t p k request w =
     (case sy_tick S w of (w1, tk) \<Rightarrow>
      on_audit (mark_execution_indeterminate (sy_lib S) (tk_now tk) t p k request) w1)"

definition store_begin_resolution ::
    "'x system \<Rightarrow> execution_resolution_input \<Rightarrow> 'x world \<Rightarrow>
     'x world \<times> (audit_error + execution_resolution \<times> audit_record)" where
  "store_begin_resolution S input w =
     (case sy_tick S w of (w1, tk) \<Rightarrow> on_audit (begin_execution_resolution (sy_lib S) tk input) w1)"

definition store_resolve ::
    "'x system \<Rightarrow> execution_resolution_input \<Rightarrow> 'x world \<Rightarrow> 'x world \<times> (audit_error + execution_resolution)" where
  "store_resolve S input w =
     (case sy_tick S w of (w1, tk) \<Rightarrow> on_audit (resolve_indeterminate_execution (sy_lib S) tk input) w1)"

definition store_mark_ambiguous ::
    "'x system \<Rightarrow> string \<Rightarrow> string \<Rightarrow> 'x world \<Rightarrow> 'x world \<times> (audit_error + unit)" where
  "store_mark_ambiguous S t reason w =
     (case sy_tick S w of (w1, tk) \<Rightarrow> on_audit (mark_stream_ambiguous (tk_now tk) t reason) w1)"


section \<open>The witness client\<close>

text \<open>The crate \<open>url\<close>: a parsed URL.\<close>

record url =
  url_scheme :: string
  url_username :: string
  url_password :: "string option"
  url_host :: "string option"
  url_path :: string
  url_query :: "string option"
  url_fragment :: "string option"

record witness_client =
  wc_checkpoint_url :: url
  wc_expected_key_id :: string
  wc_expected_key :: bytes

definition witness_client_new ::
    "(string \<Rightarrow> url option) \<Rightarrow> string \<Rightarrow> string \<Rightarrow> bytes \<Rightarrow> audit_error + witness_client" where
  "witness_client_new parse base_url expected_key_id expected_key =
     (case parse base_url of
        None \<Rightarrow> Inl WitnessUrl
      | Some u \<Rightarrow>
          if url_scheme u \<noteq> ''https'' \<or> url_username u \<noteq> [] \<or> url_password u \<noteq> None \<or> url_host u = None
          then Inl WitnessUrl
          else case validate_identifier ''witness key id'' expected_key_id of Inl e \<Rightarrow> Inl e | Inr _ \<Rightarrow>
            Inr \<lparr> wc_checkpoint_url = u \<lparr> url_path := ''/v1/checkpoints'', url_query := None,
                    url_fragment := None \<rparr>,
                  wc_expected_key_id = expected_key_id, wc_expected_key = expected_key \<rparr>)"

definition receipt_matches :: "witness_client \<Rightarrow> witness_checkpoint \<Rightarrow> witness_receipt \<Rightarrow> bool" where
  "receipt_matches C c receipt \<longleftrightarrow> rc_tenant_id receipt = cp_tenant_id c \<and>
     rc_sequence receipt = cp_sequence c \<and> rc_event_hash receipt = cp_event_hash c \<and>
     rc_witness_key_id receipt = wc_expected_key_id C"

definition client_checkpoint ::
    "'x system \<Rightarrow> witness_client \<Rightarrow> witness_checkpoint \<Rightarrow> 'x world \<Rightarrow> 'x world \<times> (audit_error + witness_receipt)" where
  "client_checkpoint S C c w =
     (case sy_post S c w of
        (w1, TransportFailed m) \<Rightarrow> (w1, Inl (WitnessTransport m))
      | (w1, HttpReply status body) \<Rightarrow>
          if \<not> (200 \<le> status \<and> status < 300) then (w1, Inl (WitnessRejected status))
          else (case body of
                  None \<Rightarrow> (w1, Inl (WitnessTransport ''error decoding response body''))
                | Some receipt \<Rightarrow>
                    if \<not> receipt_matches C c receipt then (w1, Inl ReceiptMismatch)
                    else (case verify_witness_receipt (sy_ed S) receipt (wc_expected_key C) of
                            Inl e \<Rightarrow> (w1, Inl e) | Inr _ \<Rightarrow> (w1, Inr receipt))))"


section \<open>The witnessed audit\<close>

record witnessed_audit =
  wa_origin_signer :: origin_signer
  wa_client :: witness_client

text \<open>Reading the stored receipt back after it was attached.\<close>

definition confirm_receipt ::
    "'x system \<Rightarrow> witnessed_audit \<Rightarrow> audit_record \<Rightarrow> 'x world \<Rightarrow> 'x world \<times> (audit_error + audit_record)" where
  "confirm_receipt S A rec w =
     and_then (read_audit (get_record (sy_lib S) (rec_tenant_id rec) (rec_sequence rec)) w)
       (\<lambda>found w. case found of
          None \<Rightarrow> (w, Inl ReceiptMismatch)
        | Some witnessed \<Rightarrow>
            (case rec_witness_receipt witnessed of
               None \<Rightarrow> (w, Inl ReceiptMismatch)
             | Some receipt \<Rightarrow>
                 (case verify_receipt_for_record (sy_ed S) receipt witnessed
                         (wc_expected_key_id (wa_client A)) (wc_expected_key (wa_client A)) of
                    Inl e \<Rightarrow> (w, Inl e) | Inr _ \<Rightarrow> (w, Inr witnessed))))"

definition witness_record ::
    "'x system \<Rightarrow> witnessed_audit \<Rightarrow> audit_record \<Rightarrow> 'x world \<Rightarrow> 'x world \<times> (audit_error + audit_record)" where
  "witness_record S A rec w =
     (case rec_witness_receipt rec of
        Some receipt \<Rightarrow>
          (case verify_receipt_for_record (sy_ed S) receipt rec (wc_expected_key_id (wa_client A))
                  (wc_expected_key (wa_client A)) of
             Inl e \<Rightarrow> (w, Inl e) | Inr _ \<Rightarrow> (w, Inr rec))
      | None \<Rightarrow>
          and_then (client_checkpoint S (wa_client A) (checkpoint_of (sy_ed S) (wa_origin_signer A) rec) w)
            (\<lambda>receipt w.
          and_then (on_audit (attach_witness_receipt (sy_lib S) (sy_ed S) receipt
                      (wc_expected_key (wa_client A))) w)
            (\<lambda>_ w. confirm_receipt S A rec w)))"

definition witnessed_append ::
    "'x system \<Rightarrow> witnessed_audit \<Rightarrow> audit_event_input \<Rightarrow> 'x world \<Rightarrow> 'x world \<times> (audit_error + audit_record)" where
  "witnessed_append S A input w =
     and_then (store_append S input w) (\<lambda>rec w. witness_record S A rec w)"

definition witnessed_claim_execution ::
    "'x system \<Rightarrow> witnessed_audit \<Rightarrow> audit_event_input \<Rightarrow> 'x world \<Rightarrow> 'x world \<times> (audit_error + execution_claim)" where
  "witnessed_claim_execution S A intent w =
     (case validate_execution_event intent Intent of Inl e \<Rightarrow> (w, Inl e) | Inr _ \<Rightarrow>
      case in_idempotency_key intent of
        None \<Rightarrow> (w, Inl (InvalidInput ''execution intent requires an idempotency key''))
      | Some key \<Rightarrow>
          and_then (read_audit (get_execution_record (sy_lib S) (in_tenant_id intent) (in_principal_id intent) key) w)
            (\<lambda>found w.
               if found \<noteq> None then store_claim S intent w
               else and_then (store_append S intent w) (\<lambda>intent_record w.
                    and_then (witness_record S A intent_record w) (\<lambda>_ w. store_claim S intent w))))"

definition witnessed_complete_execution ::
    "'x system \<Rightarrow> witnessed_audit \<Rightarrow> audit_event_input \<Rightarrow> json \<Rightarrow> 'x world \<Rightarrow>
     'x world \<times> (audit_error + execution_record)" where
  "witnessed_complete_execution S A outcome result w =
     (case validate_execution_event outcome Outcome of Inl e \<Rightarrow> (w, Inl e) | Inr _ \<Rightarrow>
      case in_idempotency_key outcome of
        None \<Rightarrow> (w, Inl (InvalidInput ''execution outcome requires an idempotency key''))
      | Some key \<Rightarrow>
          and_then (read_audit (get_execution_record (sy_lib S) (in_tenant_id outcome) (in_principal_id outcome) key) w)
            (\<lambda>found w. case found of
               None \<Rightarrow> (w, Inl ExecutionNotFound)
             | Some existing \<Rightarrow>
                 (case ensure_execution_hash existing (request_hash_of (sy_lib S) outcome) of
                    Inl e \<Rightarrow> (w, Inl e)
                  | Inr _ \<Rightarrow>
                      if xr_state existing \<noteq> Claimed then store_complete S outcome result w
                      else and_then (store_append S outcome w) (\<lambda>outcome_record w.
                           and_then (witness_record S A outcome_record w) (\<lambda>_ w.
                             store_complete S outcome result w)))))"

definition witnessed_resolve ::
    "'x system \<Rightarrow> witnessed_audit \<Rightarrow> execution_resolution_input \<Rightarrow> 'x world \<Rightarrow>
     'x world \<times> (audit_error + execution_resolution)" where
  "witnessed_resolve S A input w =
     and_then (store_begin_resolution S input w) (\<lambda>(resolution, audit_record) w.
       and_then (if er_finalized resolution then (w, Inr audit_record) else witness_record S A audit_record w)
         (\<lambda>_ w. on_audit (finalize_execution_resolution (sy_lib S) input True) w))"

definition recover_stream ::
    "'x system \<Rightarrow> witnessed_audit \<Rightarrow> string \<Rightarrow> 'x world \<Rightarrow> 'x world \<times> (audit_error + audit_recovery)" where
  "recover_stream S A t w =
     (case validate_identifier ''tenant id'' t of Inl e \<Rightarrow> (w, Inl e) | Inr _ \<Rightarrow>
      and_then (read_audit (stream_state t) w) (\<lambda>st w. case st of
        None \<Rightarrow> (w, Inl (InvalidInput ''audit stream has not been blocked''))
      | Some _ \<Rightarrow>
          and_then (read_audit (head_record (sy_lib S) t) w) (\<lambda>found w. case found of
            None \<Rightarrow> (w, Inl (InvalidInput ''audit stream has no recoverable head''))
          | Some head \<Rightarrow>
              and_then (witness_record S A head w) (\<lambda>witnessed w.
                case sy_tick S w of (w1, tk) \<Rightarrow>
                on_audit (recover_witnessed_stream (sy_lib S) (sy_ed S) (tk_now tk) t
                  (rec_sequence witnessed) (rec_event_hash witnessed)
                  (wc_expected_key_id (wa_client A)) (wc_expected_key (wa_client A))) w1))))"


section \<open>The audit boundary of the server\<close>

datatype audit_boundary = Local | Witnessed witnessed_audit

definition is_witnessed :: "audit_boundary \<Rightarrow> bool" where
  "is_witnessed B = (case B of Local \<Rightarrow> False | Witnessed _ \<Rightarrow> True)"

definition ok_unit :: "'w \<times> ('e + 'a) \<Rightarrow> 'w \<times> ('e + unit)" where
  "ok_unit m = and_then m (\<lambda>_ w. (w, Inr ()))"

definition boundary_append ::
    "'x system \<Rightarrow> audit_boundary \<Rightarrow> audit_event_input \<Rightarrow> 'x world \<Rightarrow> 'x world \<times> (audit_error + unit)" where
  "boundary_append S B input w =
     (case B of Local \<Rightarrow> ok_unit (store_append S input w)
      | Witnessed A \<Rightarrow> ok_unit (witnessed_append S A input w))"

definition boundary_claim_execution ::
    "'x system \<Rightarrow> audit_boundary \<Rightarrow> audit_event_input \<Rightarrow> 'x world \<Rightarrow> 'x world \<times> (audit_error + execution_claim)" where
  "boundary_claim_execution S B input w =
     (case B of Local \<Rightarrow> store_claim S input w | Witnessed A \<Rightarrow> witnessed_claim_execution S A input w)"

text \<open>A failed witnessed completion blocks the stream; a failure to block it is only logged.\<close>

definition boundary_complete_execution ::
    "'x system \<Rightarrow> audit_boundary \<Rightarrow> audit_event_input \<Rightarrow> json \<Rightarrow> 'x world \<Rightarrow> 'x world \<times> (audit_error + unit)" where
  "boundary_complete_execution S B input result w =
     (case B of
        Local \<Rightarrow> ok_unit (store_complete S input result w)
      | Witnessed A \<Rightarrow>
          (case witnessed_complete_execution S A input result w of
             (w1, Inr _) \<Rightarrow> (w1, Inr ())
           | (w1, Inl e) \<Rightarrow>
               (fst (store_mark_ambiguous S (in_tenant_id input) ''outcome_completion_failed'' w1), Inl e)))"

definition boundary_resolve ::
    "'x system \<Rightarrow> audit_boundary \<Rightarrow> execution_resolution_input \<Rightarrow> 'x world \<Rightarrow>
     'x world \<times> (audit_error + execution_resolution)" where
  "boundary_resolve S B input w =
     (case B of Local \<Rightarrow> store_resolve S input w | Witnessed A \<Rightarrow> witnessed_resolve S A input w)"

definition boundary_recover_stream ::
    "'x system \<Rightarrow> audit_boundary \<Rightarrow> string \<Rightarrow> 'x world \<Rightarrow> 'x world \<times> (audit_error + audit_recovery)" where
  "boundary_recover_stream S B t w =
     (case B of
        Local \<Rightarrow> (w, Inl (InvalidInput ''audit recovery requires witnessed mode''))
      | Witnessed A \<Rightarrow> recover_stream S A t w)"


section \<open>What every step of the world keeps\<close>

definition world_ok :: "'x system \<Rightarrow> 'x world \<Rightarrow> bool" where
  "world_ok S w \<longleftrightarrow> audit_inv (sy_lib S) (w_audit w) \<and> approval_inv (sy_uuid S) (w_approvals w)"

definition approvals_move :: "uuid_lib \<Rightarrow> approval_db \<Rightarrow> approval_db \<Rightarrow> bool" where
  "approvals_move U db db' \<longleftrightarrow> (\<forall>k a. approval_entry U db k = Some a \<longrightarrow>
     (\<exists>b. approval_entry U db' k = Some b \<and> approval_forward a b))"

definition world_advances :: "'x system \<Rightarrow> 'x world \<Rightarrow> 'x world \<Rightarrow> bool" where
  "world_advances S w w' \<longleftrightarrow> (world_ok S w \<longrightarrow> world_ok S w' \<and> moves (w_audit w) (w_audit w') \<and>
     approvals_move (sy_uuid S) (w_approvals w) (w_approvals w'))"

lemma approvals_move_refl [simp]: "approvals_move U db db"
  by (auto simp: approvals_move_def)

lemma world_advances_refl [simp]: "world_advances S w w"
  by (simp add: world_advances_def)

lemma world_advances_trans:
  assumes "world_advances S a b" "world_advances S b c" shows "world_advances S a c"
proof -
  have "approvals_move U x y \<Longrightarrow> approvals_move U y z \<Longrightarrow> approvals_move U x z" for U x y z
    unfolding approvals_move_def by (meson rtranclp_trans)
  then show ?thesis using assms moves_trans unfolding world_advances_def by blast
qed

lemma advances_and_then:
  assumes "world_advances S w (fst m)" "\<And>x w'. world_advances S w' (fst (f x w'))"
  shows "world_advances S w (fst (and_then m f))"
  using assms by (cases m; cases "snd m") (auto intro: world_advances_trans)

lemma advances_on_audit:
  assumes "\<And>db. audit_inv (sy_lib S) db \<Longrightarrow> good (sy_lib S) db (fst (f db))"
  shows "world_advances S w (fst (on_audit f w))"
  using assms [of "w_audit w"]
  by (auto simp: world_advances_def world_ok_def on_audit_def good_def split: prod.split)

lemma advances_read_audit [simp]: "world_advances S w (fst (read_audit f w))"
  by (simp add: read_audit_def)

text \<open>
  What the code relies on from \<open>serde_json\<close>: a flat object of strings, nulls, booleans, integers and
  arrays of strings (all the metadata the server writes is of this form) keeps its canonical text, and
  the text of a receipt, a flat struct of strings and integers, is read back. Nothing is asked of
  floating-point numbers, of deeper values, nor of the results that executors return: a result whose
  text does not parse is never stored (\<open>set_state_readable\<close>).
\<close>

definition audit_lib_ok :: "audit_lib \<Rightarrow> bool" where
  "audit_lib_ok L \<longleftrightarrow> metadata_round_trips L \<and> receipts_ok L"

lemma audit_lib_payload: "audit_lib_ok L \<Longrightarrow> plain_payload p \<Longrightarrow> payload_ok L p"
  by (simp add: audit_lib_ok_def metadata_round_trips_def)

definition system_ok :: "'x system \<Rightarrow> bool" where
  "system_ok S \<longleftrightarrow> audit_lib_ok (sy_lib S) \<and> uuid_lib_ok (sy_uuid S) \<and>
     (\<forall>w. world_advances S w (fst (sy_tick S w))) \<and> (\<forall>w. world_advances S w (fst (sy_clock S w))) \<and>
     (\<forall>w. world_advances S w (fst (sy_new_v4 S w))) \<and> (\<forall>c w. world_advances S w (fst (sy_post S c w)))"

lemma advances_tick:
  assumes "system_ok S" "\<And>tk w'. world_advances S w' (fst (f tk w'))"
  shows "world_advances S w (fst (case sy_tick S w of (w1, tk) \<Rightarrow> f tk w1))"
proof -
  have "world_advances S w (fst (sy_tick S w))" using assms(1) by (simp add: system_ok_def)
  then show ?thesis by (auto split: prod.split intro: world_advances_trans assms(2))
qed

lemma system_payload: "system_ok S \<Longrightarrow> plain_payload p \<Longrightarrow> payload_ok (sy_lib S) p"
  by (simp add: system_ok_def audit_lib_payload)

lemma good_audit_ops:
  assumes "audit_inv L db" and "audit_lib_ok L"
  shows "plain_payload (in_payload i) \<Longrightarrow> good L db (fst (audit_append L tk i db))"
    and "plain_payload (in_payload i) \<Longrightarrow> good L db (fst (claim_execution L tk i db))"
    and "plain_payload (in_payload i) \<Longrightarrow> good L db (fst (complete_execution L tk i v db))"
    and "good L db (fst (mark_execution_indeterminate L clock t p k request db))"
    and "good L db (fst (begin_execution_resolution L tk input db))"
    and "good L db (fst (finalize_execution_resolution L input req db))"
    and "good L db (fst (mark_stream_ambiguous clock t reason db))"
    and "good L db (fst (attach_witness_receipt L E receipt key db))"
    and "good L db (fst (recover_witnessed_stream L E clock t n h kid key db))"
  using audit_step_good [OF assms(1), of "Append tk i" E] audit_step_good [OF assms(1), of "Claim tk i" E]
    audit_step_good [OF assms(1), of "Complete tk i v" E]
    audit_step_good [OF assms(1), of "MarkIndeterminate clock t p k request" E]
    audit_step_good [OF assms(1), of "BeginResolution tk input" E]
    audit_step_good [OF assms(1), of "FinalizeResolution input req" E]
    audit_step_good [OF assms(1), of "MarkAmbiguous clock t reason" E]
    audit_step_good [OF assms(1), of "AttachReceipt receipt key" E]
    audit_step_good [OF assms(1), of "Recover clock t n h kid key" E] assms(2)
  by (auto simp: audit_lib_ok_def receipts_ok_def metadata_round_trips_def stored_payload_ok_def)

lemma store_ops_advance:
  assumes "system_ok S"
  shows "plain_payload (in_payload i) \<Longrightarrow> world_advances S w (fst (store_append S i w))"
    and "plain_payload (in_payload i) \<Longrightarrow> world_advances S w (fst (store_claim S i w))"
    and "plain_payload (in_payload i) \<Longrightarrow> world_advances S w (fst (store_complete S i v w))"
    and "world_advances S w (fst (store_mark_indeterminate S t p k request w))"
    and "world_advances S w (fst (store_begin_resolution S input w))"
    and "world_advances S w (fst (store_mark_ambiguous S t reason w))"
  unfolding store_append_def store_claim_def store_complete_def store_mark_indeterminate_def
    store_begin_resolution_def store_mark_ambiguous_def
  using assms
  by (intro advances_tick [OF assms] advances_on_audit good_audit_ops; simp add: system_ok_def)+

lemma store_resolve_advances:
  assumes "system_ok S" shows "world_advances S w (fst (store_resolve S input w))"
proof -
  have "good (sy_lib S) db (fst (resolve_indeterminate_execution (sy_lib S) tk input db))"
    if inv: "audit_inv (sy_lib S) db" for tk db
  proof -
    have L: "audit_lib_ok (sy_lib S)" using assms by (simp add: system_ok_def)
    obtain db' r where b: "begin_execution_resolution (sy_lib S) tk input db = (db', r)" by fastforce
    then have g: "good (sy_lib S) db db'" using good_audit_ops(5) [OF inv L, of tk input] by simp
    then have "good (sy_lib S) db' (fst (finalize_execution_resolution (sy_lib S) input False db'))"
      by (intro good_audit_ops(6) L) (simp add: good_def)
    then show ?thesis
      using b g good_trans by (cases r) (auto simp: resolve_indeterminate_execution_def)
  qed
  then show ?thesis unfolding store_resolve_def by (intro advances_tick [OF assms] advances_on_audit) auto
qed


lemma client_checkpoint_advances:
  assumes "system_ok S" shows "world_advances S w (fst (client_checkpoint S C c w))"
proof -
  have "world_advances S w (fst (sy_post S c w))" using assms by (simp add: system_ok_def)
  then show ?thesis
    by (auto simp: client_checkpoint_def split: prod.split witness_response.split option.split sum.split)
qed

lemma confirm_receipt_advances [simp]: "world_advances S w (fst (confirm_receipt S A rec w))"
  unfolding confirm_receipt_def
  by (intro advances_and_then) (auto split: option.split sum.split)

lemma witness_record_advances:
  assumes "system_ok S" shows "world_advances S w (fst (witness_record S A rec w))"
proof -
  have L: "audit_lib_ok (sy_lib S)" using assms by (simp add: system_ok_def)
  have "world_advances S w (fst (and_then (client_checkpoint S (wa_client A)
      (checkpoint_of (sy_ed S) (wa_origin_signer A) rec) w) (\<lambda>receipt w.
        and_then (on_audit (attach_witness_receipt (sy_lib S) (sy_ed S) receipt
          (wc_expected_key (wa_client A))) w) (\<lambda>_ w. confirm_receipt S A rec w))))"
    by (intro advances_and_then client_checkpoint_advances [OF assms] advances_on_audit
        good_audit_ops(8) L) auto
  then show ?thesis by (auto simp: witness_record_def split: option.split sum.split)
qed

lemmas witnessed_parts = advances_and_then store_ops_advance witness_record_advances advances_read_audit

lemma witnessed_ops_advance:
  assumes "system_ok S"
  shows "plain_payload (in_payload i) \<Longrightarrow> world_advances S w (fst (witnessed_append S A i w))"
    and "plain_payload (in_payload i) \<Longrightarrow> world_advances S w (fst (witnessed_claim_execution S A i w))"
    and "plain_payload (in_payload i) \<Longrightarrow> world_advances S w (fst (witnessed_complete_execution S A i v w))"
    and "world_advances S w (fst (witnessed_resolve S A input w))"
    and "world_advances S w (fst (recover_stream S A t w))"
proof -
  have L: "audit_lib_ok (sy_lib S)" using assms by (simp add: system_ok_def)
  show "world_advances S w (fst (witnessed_append S A i w))" if "plain_payload (in_payload i)"
    unfolding witnessed_append_def using that by (intro witnessed_parts assms)
  show "world_advances S w (fst (witnessed_claim_execution S A i w))" if "plain_payload (in_payload i)"
    unfolding witnessed_claim_execution_def using that
    by (auto split: sum.split option.split intro!: witnessed_parts assms)
  show "world_advances S w (fst (witnessed_complete_execution S A i v w))" if "plain_payload (in_payload i)"
    unfolding witnessed_complete_execution_def using that
    by (auto split: sum.split option.split intro!: witnessed_parts assms)
  have "world_advances S w (fst (on_audit (finalize_execution_resolution (sy_lib S) input True) w))" for w
    by (intro advances_on_audit good_audit_ops(6) L)
  then show "world_advances S w (fst (witnessed_resolve S A input w))"
    unfolding witnessed_resolve_def
    by (auto split: prod.split intro!: witnessed_parts assms)
  have "world_advances S w (fst (case sy_tick S w of (w1, tk) \<Rightarrow>
      on_audit (recover_witnessed_stream (sy_lib S) (sy_ed S) (tk_now tk) t n h kid key) w1))" for w n h kid key
    by (intro advances_tick [OF assms] advances_on_audit good_audit_ops(9) L)
  then show "world_advances S w (fst (recover_stream S A t w))"
    unfolding recover_stream_def
    by (auto split: sum.split option.split intro!: witnessed_parts assms)
qed

lemma boundary_ops_advance:
  assumes "system_ok S"
  shows "plain_payload (in_payload i) \<Longrightarrow> world_advances S w (fst (boundary_append S B i w))"
    and "plain_payload (in_payload i) \<Longrightarrow> world_advances S w (fst (boundary_claim_execution S B i w))"
    and "plain_payload (in_payload i) \<Longrightarrow> world_advances S w (fst (boundary_complete_execution S B i v w))"
    and "world_advances S w (fst (boundary_resolve S B input w))"
    and "world_advances S w (fst (boundary_recover_stream S B t w))"
proof -
  have unit: "world_advances S w (fst m) \<Longrightarrow> world_advances S w (fst (ok_unit m))"
    for m :: "'a world \<times> (audit_error + 'b)" and w
    unfolding ok_unit_def by (intro advances_and_then) auto
  show "world_advances S w (fst (boundary_append S B i w))" if "plain_payload (in_payload i)"
    using that by (auto simp: boundary_append_def split: audit_boundary.split
        intro!: unit store_ops_advance witnessed_ops_advance assms)
  show "world_advances S w (fst (boundary_claim_execution S B i w))" if "plain_payload (in_payload i)"
    using that by (auto simp: boundary_claim_execution_def split: audit_boundary.split
        intro!: store_ops_advance witnessed_ops_advance assms)
  have blocks: "world_advances S w (fst (case m of (w1, Inr _) \<Rightarrow> (w1, Inr ())
      | (w1, Inl e) \<Rightarrow> (fst (store_mark_ambiguous S t reason w1), Inl e)))"
    if "world_advances S w (fst m)" for m :: "'a world \<times> (audit_error + execution_record)" and w t reason
    using that by (auto split: prod.split sum.split intro: world_advances_trans store_ops_advance(6) [OF assms])
  show "world_advances S w (fst (boundary_complete_execution S B i v w))" if "plain_payload (in_payload i)"
    using that unit [OF store_ops_advance(3) [OF assms, of i w v]]
      blocks [OF witnessed_ops_advance(3) [OF assms, of i w _ v]]
    by (auto simp: boundary_complete_execution_def split: audit_boundary.split)
  show "world_advances S w (fst (boundary_resolve S B input w))"
    by (auto simp: boundary_resolve_def split: audit_boundary.split
        intro!: store_resolve_advances witnessed_ops_advance assms)
  show "world_advances S w (fst (boundary_recover_stream S B t w))"
    by (auto simp: boundary_recover_stream_def split: audit_boundary.split
        intro!: witnessed_ops_advance assms)
qed


section \<open>No execution before its witnessed intent\<close>

text \<open>The event of a tenant at a sequence carries a receipt of the expected witness key.\<close>

definition witnessed_event ::
    "'x system \<Rightarrow> witness_client \<Rightarrow> audit_row \<Rightarrow> bool" where
  "witnessed_event S C e \<longleftrightarrow> (\<exists>txt receipt. ev_witness_receipt_json e = Some txt \<and>
     al_receipt_parse (sy_lib S) txt = Some receipt \<and> rc_tenant_id receipt = ev_tenant_id e \<and>
     rc_sequence receipt = ev_sequence e \<and> rc_event_hash receipt = ev_event_hash e \<and>
     rc_witness_key_id receipt = wc_expected_key_id C \<and>
     verify_witness_receipt (sy_ed S) receipt (wc_expected_key C) = Inr ())"

lemma verified_record_witnessed:
  assumes "record_from_row (sy_lib S) e = Inr rec" "rec_witness_receipt rec = Some receipt"
    and "verify_receipt_for_record (sy_ed S) receipt rec (wc_expected_key_id C) (wc_expected_key C) = Inr ()"
  shows "witnessed_event S C e"
  using record_from_row_matches [OF assms(1)] assms(2,3)
  by (auto simp: witnessed_event_def matches_row_def verify_receipt_for_record_def split: option.splits if_splits)

lemma witnessed_event_stays: "event_forward e e' \<Longrightarrow> witnessed_event S C e \<Longrightarrow> e' = e"
  by (auto simp: event_forward_def witnessed_event_def)

lemma moves_event:
  assumes "moves db db'" "e \<in> set (db_events db)"
  shows "\<exists>e' \<in> set (db_events db'). event_forward e e'"
proof -
  have "grows event_forward (db_events db) (db_events db')" using assms(1) by (simp only: moves_def)
  then show ?thesis using assms(2) by (rule grows_in)
qed

lemma moves_execution:
  assumes "moves db db'" "execution_entry db k = Some r"
  shows "\<exists>r'. execution_entry db' k = Some r' \<and> execution_forward r r'"
proof -
  have "grows execution_forward (db_executions db) (db_executions db')"
    using assms(1) by (simp only: moves_def)
  then show ?thesis
    unfolding execution_entry_def
  proof (rule grows_find)
    show "find (\<lambda>r. xkey r = k) (db_executions db) = Some r" using assms(2) by (simp only: execution_entry_def)
  qed (simp add: execution_forward_key)
qed

lemma moves_claim:
  assumes "moves db db'" "has_claim db k" shows "has_claim db' k"
proof -
  obtain r where "execution_entry db k = Some r" using assms(2) by (auto simp: has_claim_def)
  from moves_execution [OF assms(1) this] show ?thesis by (auto simp: has_claim_def)
qed

lemma find_only:
  assumes "x \<in> set xs" "P x" "\<And>y. y \<in> set xs \<Longrightarrow> P y \<Longrightarrow> y = x"
  shows "find P xs = Some x"
proof (cases "find P xs")
  case None
  then show ?thesis using assms(1,2) by (simp add: find_None_iff)
next
  case (Some y)
  then show ?thesis using assms(3) [of y] find_SomeD [OF Some] by simp
qed

text \<open>Two events of a tenant with the same sequence are one.\<close>

lemma event_position_unique:
  assumes "events_ok L rows" "e \<in> set rows" "e' \<in> set rows"
    and "ev_tenant_id e = ev_tenant_id e'" "ev_sequence e = ev_sequence e'"
  shows "e = e'"
proof -
  let ?t = "ev_tenant_id e"
  have "chain_ok (tenant_rows ?t rows)" using assms(1) by (simp only: events_ok_def)
  then have "inj_on ev_sequence (set (tenant_rows ?t rows))"
    using sequence_distinct by (simp only: distinct_map)
  then show ?thesis using assms(5) by (rule inj_onD) (use assms(2-4) in simp_all)
qed

lemma advancesD:
  "world_advances S w w' \<Longrightarrow> world_ok S w \<Longrightarrow> world_ok S w' \<and> moves (w_audit w) (w_audit w')"
  by (simp add: world_advances_def)

lemma world_event_inv: "world_ok S w \<Longrightarrow> events_ok (sy_lib S) (db_events (w_audit w))"
  by (simp add: world_ok_def audit_inv_def)

lemma event_unique:
  assumes "events_ok L rows" "e \<in> set rows" "e' \<in> set rows" "idem_key e = idem_key e'"
    and "ev_idempotency_key e \<noteq> None"
  shows "e = e'"
proof -
  have "ev_idempotency_key e' \<noteq> None" using assms(4,5) by (simp add: idem_key_def)
  moreover have "inj_on idem_key (set (filter (\<lambda>r. ev_idempotency_key r \<noteq> None) rows))"
    using assms(1) unfolding events_ok_def distinct_map by blast
  ultimately show ?thesis using assms by (auto dest: inj_onD)
qed

text \<open>After a successful append, the event is in the log under its retry key.\<close>

lemma store_append_event:
  assumes "system_ok S" "world_ok S w" "plain_payload (in_payload i)" "store_append S i w = (w', Inr rec)"
  shows "world_ok S w' \<and> (\<exists>e \<in> set (db_events (w_audit w')). record_from_row (sy_lib S) e = Inr rec \<and>
    idem_key e = (in_tenant_id i, in_principal_id i, phase_name (in_phase i), in_idempotency_key i))"
proof -
  obtain w1 tk where t: "sy_tick S w = (w1, tk)" by fastforce
  then have ok1: "world_ok S w1"
    using assms(1,2) unfolding system_ok_def by (metis advancesD fst_conv)
  obtain db where db: "audit_append (sy_lib S) tk i (w_audit w1) = (db, Inr rec)" "w' = w1 \<lparr> w_audit := db \<rparr>"
    using assms(4) t by (auto simp: store_append_def on_audit_def split: prod.splits)
  obtain events where ev: "append_in_transaction (sy_lib S) tk i (request_hash_of (sy_lib S) i)
      (payload_text (sy_lib S) i) (db_events (w_audit w1)) = Inr (events, rec)"
    and "db = w_audit w1 \<lparr> db_events := events \<rparr>"
    using db(1) by (auto simp: audit_append_def transact_def split: sum.splits prod.splits)
  moreover have "audit_inv (sy_lib S) (w_audit w1)" using ok1 by (simp add: world_ok_def)
  moreover have "payload_ok (sy_lib S) (in_payload i)" using system_payload assms(1,3) by blast
  ultimately have "\<exists>e \<in> set (db_events (w_audit w')). record_from_row (sy_lib S) e = Inr rec \<and>
      idem_key e = (in_tenant_id i, in_principal_id i, phase_name (in_phase i), in_idempotency_key i)"
    using append_in_transaction_good(2) db(2) by fastforce
  moreover have "world_ok S w'"
    using store_ops_advance(1) [OF assms(1,3), of w] assms(2,4) advancesD by fastforce
  ultimately show ?thesis by blast
qed

text \<open>A successful witness round leaves a verified receipt on that event.\<close>

lemma witness_record_witnessed:
  assumes "system_ok S" "world_ok S w" "e \<in> set (db_events (w_audit w))"
    and "record_from_row (sy_lib S) e = Inr rec" "witness_record S A rec w = (w', Inr rec')"
  shows "world_ok S w' \<and> (\<exists>e' \<in> set (db_events (w_audit w')). event_forward e e' \<and> witnessed_event S (wa_client A) e')"
proof -
  have ok': "world_ok S w'" and mv: "moves (w_audit w) (w_audit w')"
    using witness_record_advances [OF assms(1), of w A rec] assms(2,5) advancesD by fastforce+
  show ?thesis
  proof (cases "rec_witness_receipt rec")
    case (Some receipt)
    then have "w' = w" "verify_receipt_for_record (sy_ed S) receipt rec (wc_expected_key_id (wa_client A))
        (wc_expected_key (wa_client A)) = Inr ()"
      using assms(5) by (auto simp: witness_record_def split: sum.splits)
    then have "witnessed_event S (wa_client A) e" using verified_record_witnessed [OF assms(4) Some] by blast
    then show ?thesis using assms(2,3) \<open>w' = w\<close> forward_refl(1) by blast
  next
    case None
    then obtain found receipt where c: "get_record (sy_lib S) (rec_tenant_id rec) (rec_sequence rec) (w_audit w') = Inr (Some found)"
      "rec_witness_receipt found = Some receipt" "verify_receipt_for_record (sy_ed S) receipt found
        (wc_expected_key_id (wa_client A)) (wc_expected_key (wa_client A)) = Inr ()"
      using assms(5)
      by (auto simp: witness_record_def and_then_def confirm_receipt_def read_audit_def
          split: prod.splits sum.splits option.splits)
    obtain e' where e': "e' \<in> set (db_events (w_audit w'))" "event_forward e e'"
      using moves_event [OF mv assms(3)] by blast
    have key: "ev_tenant_id e' = rec_tenant_id rec" "ev_sequence e' = rec_sequence rec"
      using event_forward_key [OF e'(2)] record_from_row_matches [OF assms(4)] by (auto simp: matches_row_def)
    have "find (\<lambda>r. ev_tenant_id r = rec_tenant_id rec \<and> ev_sequence r = rec_sequence rec) (db_events (w_audit w')) = Some e'"
    proof (rule find_only)
      show "e' \<in> set (db_events (w_audit w'))" by (rule e'(1))
      show "ev_tenant_id e' = rec_tenant_id rec \<and> ev_sequence e' = rec_sequence rec" using key by simp
      fix r assume "r \<in> set (db_events (w_audit w'))"
        "ev_tenant_id r = rec_tenant_id rec \<and> ev_sequence r = rec_sequence rec"
      then show "r = e'"
        using key e'(1) event_position_unique [OF world_event_inv [OF ok']] by metis
    qed
    then have "record_from_row (sy_lib S) e' = Inr found"
      using c(1) by (auto simp: get_record_def load_record_def query_record_def split: sum.splits)
    then have "witnessed_event S (wa_client A) e'" using verified_record_witnessed c(2,3) by blast
    then show ?thesis using ok' e' by blast
  qed
qed


lemma store_claim_acquired:
  assumes "system_ok S" "world_ok S w" "plain_payload (in_payload i)"
    and "store_claim S i w = (w', Inr (Acquired rec))"
  shows "\<exists>key r e. in_idempotency_key i = Some key \<and>
    \<not> has_claim (w_audit w) (in_tenant_id i, in_principal_id i, key) \<and>
    execution_entry (w_audit w') (in_tenant_id i, in_principal_id i, key) = Some r \<and>
    xr_intent_sequence rec = xc_intent_sequence r \<and> world_ok S w' \<and> moves (w_audit w) (w_audit w') \<and>
    e \<in> set (db_events (w_audit w')) \<and> intent_of r e \<and> xkey r = (in_tenant_id i, in_principal_id i, key)"
proof -
  obtain w1 tk where t: "sy_tick S w = (w1, tk)" by fastforce
  then have "world_advances S w w1" using assms(1) unfolding system_ok_def by (metis fst_conv)
  then have mv1: "moves (w_audit w) (w_audit w1)" using advancesD assms(2) by blast
  obtain db where db: "claim_execution (sy_lib S) tk i (w_audit w1) = (db, Inr (Acquired rec))" "w' = w1 \<lparr> w_audit := db \<rparr>"
    using assms(4) t by (auto simp: store_claim_def on_audit_def split: prod.splits)
  have acq: "snd (claim_execution (sy_lib S) tk i (w_audit w1)) = Inr (Acquired rec)" using db(1) by simp
  obtain key r where key: "in_idempotency_key i = Some key"
    and none: "execution_entry (w_audit w1) (in_tenant_id i, in_principal_id i, key) = None"
    and r: "execution_entry db (in_tenant_id i, in_principal_id i, key) = Some r"
      "execution_record_from_row (sy_lib S) r = Inr rec"
    using claim_acquired [OF acq] db(1) by auto
  have "\<not> has_claim (w_audit w1) (in_tenant_id i, in_principal_id i, key)"
    using none by (simp add: has_claim_def)
  then have "\<not> has_claim (w_audit w) (in_tenant_id i, in_principal_id i, key)"
    using moves_claim [OF mv1] by blast
  moreover have ok': "world_ok S w'" and "moves (w_audit w) (w_audit w')"
    using advancesD [OF store_ops_advance(2) [OF assms(1,3), of w] assms(2)] assms(4) by simp_all
  moreover have inv: "audit_inv (sy_lib S) db" using ok' db(2) by (simp add: world_ok_def)
  moreover obtain e where "e \<in> set (db_events db)" "intent_of r e"
    using execution_row_ok [OF inv r(1)] by (auto simp: execution_ok_def)
  moreover have "xr_intent_sequence rec = xc_intent_sequence r"
    using r(2) by (auto simp: execution_record_from_row_def Let_def split: sum.splits option.splits)
  moreover have "xkey r = (in_tenant_id i, in_principal_id i, key)"
    using r(1) find_SomeD unfolding execution_entry_def by fastforce
  ultimately show ?thesis using key r db(2) by auto
qed

text \<open>
  Property C34. Under the witnessed boundary, for an intent with plain metadata, the right to execute is granted only after the intent was
  witnessed off-host: when a claim is acquired, whatever other tasks did in the meantime, the audit
  log holds its intent event with a receipt of the expected witness key whose signature verifies for
  exactly that event.
\<close>

theorem acquired_claim_is_witnessed:
  assumes "system_ok S" and "world_ok S w" and "plain_payload (in_payload intent)"
    and "witnessed_claim_execution S A intent w = (w', Inr (Acquired rec))"
  shows "\<exists>e \<in> set (db_events (w_audit w')). ev_tenant_id e = in_tenant_id intent \<and>
    ev_sequence e = xr_intent_sequence rec \<and> ev_phase e = ''intent'' \<and>
    ev_idempotency_key e = in_idempotency_key intent \<and> witnessed_event S (wa_client A) e"
proof -
  obtain key found where key: "in_idempotency_key intent = Some key" "in_phase intent = Intent"
    and found: "get_execution_record (sy_lib S) (in_tenant_id intent) (in_principal_id intent) key (w_audit w) = Inr found"
    using assms(4)
    by (auto simp: witnessed_claim_execution_def read_audit_def and_then_def validate_execution_event_def
        split: sum.splits option.splits if_splits)
  have "found = None"
  proof (rule ccontr)
    assume "found \<noteq> None"
    then have claim: "store_claim S intent w = (w', Inr (Acquired rec))"
      using assms(4) key found
      by (simp add: witnessed_claim_execution_def read_audit_def split: sum.splits)
    have "has_claim (w_audit w) (in_tenant_id intent, in_principal_id intent, key)"
      using found \<open>found \<noteq> None\<close>
      by (auto simp: get_execution_record_def load_execution_entry has_claim_def split: sum.splits option.splits)
    then show False using store_claim_acquired [OF assms(1-3) claim] key(1) by auto
  qed
  then obtain w1 irec w2 x where a: "store_append S intent w = (w1, Inr irec)"
    and b: "witness_record S A irec w1 = (w2, Inr x)" and c: "store_claim S intent w2 = (w', Inr (Acquired rec))"
    using assms(4) key found
    by (auto simp: witnessed_claim_execution_def read_audit_def and_then_def split: sum.splits prod.splits)
  obtain e where e: "e \<in> set (db_events (w_audit w1))" "record_from_row (sy_lib S) e = Inr irec"
    "idem_key e = (in_tenant_id intent, in_principal_id intent, ''intent'', Some key)" and ok1: "world_ok S w1"
    using store_append_event [OF assms(1-3) a] key by auto
  obtain e2 where e2: "e2 \<in> set (db_events (w_audit w2))" "event_forward e e2" "witnessed_event S (wa_client A) e2"
    and ok2: "world_ok S w2"
    using witness_record_witnessed [OF assms(1) ok1 e(1,2) b] by blast
  obtain r e3 where r: "xr_intent_sequence rec = xc_intent_sequence r" "world_ok S w'"
      "moves (w_audit w2) (w_audit w')" "e3 \<in> set (db_events (w_audit w'))" "intent_of r e3"
      "xkey r = (in_tenant_id intent, in_principal_id intent, key)"
    using store_claim_acquired [OF assms(1) ok2 assms(3) c] key(1) by auto
  obtain e4 where e4: "e4 \<in> set (db_events (w_audit w'))" "event_forward e2 e4"
    using moves_event [OF r(3) e2(1)] by blast
  have "e4 = e2" using witnessed_event_stays [OF e4(2) e2(3)] .
  have "idem_key e2 = idem_key e3"
    using event_forward_key [OF e2(2)] e(3) r(5,6) by (simp add: intent_of_def xkey_def)
  then have "e2 = e3"
    using event_unique [OF world_event_inv [OF r(2)], of e2 e3] e4(1) r(4) \<open>e4 = e2\<close> e(3)
      event_forward_key [OF e2(2)] by (simp add: idem_key_def)
  then show ?thesis
    using r(1,4,5,6) e2(3) key by (intro bexI [of _ e3]) (auto simp: intent_of_def idem_key_def xkey_def)
qed

lemma block_stream_row:
  "\<exists>st. load_stream_state t (db \<lparr> db_streams := block_stream t reason ts (db_streams db) \<rparr>) = Some st \<and>
     ss_blocked st \<and> ss_reason_code st = Some reason"
proof (cases "find (\<lambda>s. ss_tenant_id s = t) (db_streams db)")
  case None
  then have "\<not> list_ex (\<lambda>s. ss_tenant_id s = t) (db_streams db)" by (simp add: list_ex_iff find_None_iff)
  with None show ?thesis by (simp add: load_stream_state_def block_stream_def find_append)
next
  case (Some s)
  then have "list_ex (\<lambda>s. ss_tenant_id s = t) (db_streams db)"
    using find_SomeD [OF Some] by (auto simp: list_ex_iff)
  with Some show ?thesis by (simp add: load_stream_state_def block_stream_def find_sql_update_same)
qed

text \<open>
  Property C35. A completion that fails at the witnessed boundary leaves no silent gap: the caller gets
  exactly the error of the witnessed completion, and by then the tenant's stream is blocked in the
  store with the reason \<open>outcome_completion_failed\<close>, for a valid tenant identifier and a clock that fits
  \<open>i64\<close>.
\<close>

theorem failed_completion_blocks_stream:
  assumes "boundary_complete_execution S (Witnessed A) outcome result w = (w', Inl e)"
    and "validate_identifier ''tenant id'' (in_tenant_id outcome) = Inr ()"
    and "\<forall>v. 0 \<le> tk_now (snd (sy_tick S v)) \<and> tk_now (snd (sy_tick S v)) < 2 ^ 63"
  shows "snd (witnessed_complete_execution S A outcome result w) = Inl e \<and>
    (\<exists>st. load_stream_state (in_tenant_id outcome) (w_audit w') = Some st \<and> ss_blocked st \<and>
       ss_reason_code st = Some ''outcome_completion_failed'')"
proof -
  obtain w1 where w1: "w' = fst (store_mark_ambiguous S (in_tenant_id outcome) ''outcome_completion_failed'' w1)"
    and err: "snd (witnessed_complete_execution S A outcome result w) = Inl e"
    using assms(1) by (auto simp: boundary_complete_execution_def split: prod.splits sum.splits)
  obtain w2 tk where t: "sy_tick S w1 = (w2, tk)" by fastforce
  then have clock: "unix_timestamp_ms (tk_now tk) = Inr (tk_now tk)"
    using assms(3) unfolding unix_timestamp_ms_def by (metis snd_conv linorder_not_less)
  have "validate_identifier ''reason code'' ''outcome_completion_failed'' = Inr ()"
    by (simp add: identifier_simps)
  then have "w' = w2 \<lparr> w_audit := w_audit w2 \<lparr> db_streams := block_stream (in_tenant_id outcome)
      ''outcome_completion_failed'' (tk_now tk) (db_streams (w_audit w2)) \<rparr> \<rparr>"
    using w1 t clock assms(2)
    by (simp add: store_mark_ambiguous_def on_audit_def mark_stream_ambiguous_def transact_def)
  then show ?thesis using block_stream_row err by simp
qed


section \<open>Recovery against the witness itself\<close>

text \<open>
  The system whose HTTP exchange is the witness service: the rest of the world is the witness
  database, and a submission runs its handler.
\<close>

definition served_by :: "audit_lib \<Rightarrow> ed25519 \<Rightarrow> witness_store \<Rightarrow> int \<Rightarrow> witness_checkpoint \<Rightarrow>
    witness_db world \<Rightarrow> witness_db world \<times> witness_response" where
  "served_by L E W clock c w =
     (case checkpoint_handler L E W clock c (w_rest w) of
        (db, status, body) \<Rightarrow> (w \<lparr> w_rest := db \<rparr>, HttpReply status body))"

lemma load_head_matches:
  "load_head L t rows = Inr (Some rec) \<Longrightarrow> \<exists>r. head_row t rows = Some r \<and> record_from_row L r = Inr rec"
  by (auto simp: load_head_def query_record_def split: option.splits sum.splits)

lemma head_row_tenant: "head_row t rows = Some r \<Longrightarrow> r \<in> set rows \<and> ev_tenant_id r = t"
proof -
  assume "head_row t rows = Some r"
  then have "sort_key ev_sequence (tenant_rows t rows) \<noteq> []" "r = last (sort_key ev_sequence (tenant_rows t rows))"
    by (auto simp: head_row_def split: list.splits)
  then have "r \<in> set (sort_key ev_sequence (tenant_rows t rows))" using last_in_set by metis
  then show ?thesis by simp
qed

lemma checkpoint_of_sel [simp]:
  "cp_tenant_id (checkpoint_of E og rec) = rec_tenant_id rec"
  "cp_sequence (checkpoint_of E og rec) = rec_sequence rec"
  "cp_previous_hash (checkpoint_of E og rec) = rec_previous_hash rec"
  "cp_event_hash (checkpoint_of E og rec) = rec_event_hash rec"
  "cp_origin_key_id (checkpoint_of E og rec) = os_key_id og"
  by (simp_all add: checkpoint_of_def Let_def)

lemma load_head_tenant: "load_head L t rows = Inr (Some rec) \<Longrightarrow> rec_tenant_id rec = t"
  using load_head_matches [of L t rows rec] head_row_tenant record_from_row_matches
  by (fastforce simp: matches_row_def)

text \<open>
  Recovery retries only the head of the local stream. When two or more events at the end
  of a stream were never witnessed, the witness refuses the head as out of sequence; the recovery
  fails and changes nothing, neither locally nor at the witness, so no repetition of it can succeed.
\<close>

theorem recovery_stuck_behind_gap:
  assumes "sy_post S = served_by (sy_lib S) (sy_ed S) W clock" and "stream_ok (w_rest w) t"
    and "load_head (sy_lib S) t (db_events (w_audit w)) = Inr (Some head)"
    and "rec_witness_receipt head = None"
    and "Suc (length (stream_of t (w_rest w))) < rec_sequence head"
  shows "\<exists>e. recover_stream S A t w = (w, Inl e)"
proof -
  let ?c = "checkpoint_of (sy_ed S) (wa_origin_signer A) head"
  have t: "rec_tenant_id head = t" using load_head_tenant assms(3) by blast
  obtain e where rej: "accept (sy_lib S) (sy_ed S) W clock ?c (w_rest w) = (w_rest w, Inl e)"
    using accept_gap [of "w_rest w" ?c "sy_lib S" "sy_ed S" W clock] assms(2,5) t
    by (cases "accept (sy_lib S) (sy_ed S) W clock ?c (w_rest w)"; cases "snd (accept (sy_lib S) (sy_ed S) W clock ?c (w_rest w))")
      auto
  have bad: "\<not> (200 \<le> fst (api_error e) \<and> fst (api_error e) < 300)" by (cases e) auto
  have "client_checkpoint S (wa_client A) ?c w = (w, Inl (WitnessRejected (fst (api_error e))))"
    using bad by (simp add: client_checkpoint_def assms(1) served_by_def checkpoint_handler_def rej)
  then have "witness_record S A head w = (w, Inl (WitnessRejected (fst (api_error e))))"
    by (simp add: witness_record_def assms(4))
  then show ?thesis
    using assms(3)
    by (auto simp: recover_stream_def read_audit_def stream_state_def head_record_def and_then_def
        split: sum.splits option.splits)
qed


lemma filter_only:
  assumes "distinct xs" "x \<in> set xs" "P x" "\<And>y. y \<in> set xs \<Longrightarrow> P y \<Longrightarrow> y = x"
  shows "filter P xs = [x]"
proof -
  have "filter P xs = filter (\<lambda>y. y = x) xs" using assms(3,4) by (intro filter_cong) blast+
  also have "\<dots> = [x]" using assms(1,2) by (induction xs) (auto simp: filter_empty_conv)
  finally show ?thesis .
qed

lemma tenant_rows_update:
  "(\<And>r. ev_tenant_id (f r) = ev_tenant_id r) \<Longrightarrow>
   tenant_rows t (sql_update P f rows) = sql_update P f (tenant_rows t rows)"
  by (induction rows) (auto simp: tenant_rows_def sql_update_def)

lemma record_with_receipt:
  assumes "record_from_row L r = Inr rec" "ev_witness_receipt_json r = None"
    and "al_receipt_parse L txt = Some receipt"
  shows "record_from_row L (r \<lparr> ev_witness_receipt_json := Some txt \<rparr>) =
    Inr (rec \<lparr> rec_witness_receipt := Some receipt \<rparr>)"
  using assms by (auto simp: record_from_row_def Let_def split: sum.splits option.splits)

text \<open>Attaching a fitting receipt to the last event of a stream.\<close>

lemma attach_to_head:
  assumes inv: "audit_inv L db" and head: "head_row t (db_events db) = Some r0"
    and rec: "record_from_row L r0 = Inr rec" and none: "ev_witness_receipt_json r0 = None"
    and rok: "receipts_ok L" and sig: "verify_witness_receipt E rc key = Inr ()"
    and fits: "rc_tenant_id rc = t" "rc_sequence rc = rec_sequence rec" "rc_event_hash rc = rec_event_hash rec"
  shows "\<exists>db'. attach_witness_receipt L E rc key db = (db', Inr ()) \<and> audit_inv L db' \<and>
    db_streams db' = db_streams db \<and>
    load_head L t (db_events db') = Inr (Some (rec \<lparr> rec_witness_receipt := Some rc \<rparr>)) \<and>
    load_record L t (rec_sequence rec) (db_events db') = Inr (Some (rec \<lparr> rec_witness_receipt := Some rc \<rparr>)) \<and>
    length (tenant_rows t (db_events db')) = length (tenant_rows t (db_events db))"
proof -
  let ?P = "receipt_slot L rc" and ?f = "\<lambda>r. r \<lparr> ev_witness_receipt_json := Some (al_receipt_text L rc) \<rparr>"
  let ?rows = "db_events db" and ?db' = "db \<lparr> db_events := sql_update ?P ?f (db_events db) \<rparr>"
  have ok: "events_ok L ?rows" using inv by (simp add: audit_inv_def)
  then have ch: "chain_ok (tenant_rows t ?rows)" by (simp only: events_ok_def)
  have r0: "r0 \<in> set ?rows" "ev_tenant_id r0 = t" using head_row_tenant [OF head] by auto
  have m: "ev_sequence r0 = rec_sequence rec" "ev_event_hash r0 = rec_event_hash rec"
    using record_from_row_matches [OF rec] by (simp_all add: matches_row_def)
  have P: "?P r0" using r0 m fits none by (simp add: receipt_slot_def)
  have only: "r = r0" if "r \<in> set ?rows" "ev_tenant_id r = t" "ev_sequence r = rec_sequence rec" for r
    using event_position_unique [OF ok that(1) r0(1)] that r0 m by simp
  have "distinct ?rows" using ok unfolding events_ok_def distinct_map by blast
  then have "filter ?P ?rows = [r0]"
    using r0(1) P
  proof (rule filter_only)
    fix y assume "y \<in> set ?rows" "?P y"
    then show "y = r0" using fits by (intro only) (simp_all add: receipt_slot_def)
  qed
  then have att: "attach_witness_receipt L E rc key db = (?db', Inr ())"
    by (simp add: attach_witness_receipt_def sig transact_def sql_changed_def)
  have "al_receipt_parse L (al_receipt_text L rc) \<noteq> None" using rok by (simp add: receipts_ok_def)
  then have inv': "audit_inv L ?db'"
    using audit_step_good [OF inv, of "AttachReceipt rc key" E] att by (simp add: good_def)
  have rec': "record_from_row L (?f r0) = Inr (rec \<lparr> rec_witness_receipt := Some rc \<rparr>)"
    using rok by (intro record_with_receipt [OF rec none]) (simp add: receipts_ok_def)
  have tr: "tenant_rows t (db_events ?db') = sql_update ?P ?f (tenant_rows t ?rows)"
    by (simp add: tenant_rows_update)
  have ne: "tenant_rows t ?rows \<noteq> []" "last (tenant_rows t ?rows) = r0"
    using head unfolding head_row_last [OF ch] by (simp_all split: if_splits)
  have ch': "chain_ok (tenant_rows t (db_events ?db'))"
    using inv' by (simp only: audit_inv_def events_ok_def)
  have "head_row t (db_events ?db') = Some (?f r0)"
    unfolding head_row_last [OF ch'] tr using ne P by (simp add: sql_update_def last_map)
  then have lh: "load_head L t (db_events ?db') = Inr (Some (rec \<lparr> rec_witness_receipt := Some rc \<rparr>))"
    by (simp add: load_head_def query_record_def rec')
  have "find (\<lambda>r. ev_tenant_id r = t \<and> ev_sequence r = rec_sequence rec) ?rows = Some r0"
  proof (rule find_only)
    fix y assume "y \<in> set ?rows" "ev_tenant_id y = t \<and> ev_sequence y = rec_sequence rec"
    then show "y = r0" by (intro only) simp_all
  qed (use r0 m in simp_all)
  then have "load_record L t (rec_sequence rec) (db_events ?db') = Inr (Some (rec \<lparr> rec_witness_receipt := Some rc \<rparr>))"
    using P rec' by (simp add: load_record_def query_record_def find_sql_update)
  then show ?thesis using att inv' lh tr by (simp add: sql_update_def)
qed


text \<open>Unblocking when the tenant has a stream row.\<close>

lemma unblock_stream_succeeds:
  assumes "distinct (map ss_tenant_id (db_streams db))" "load_stream_state t db = Some st"
    and "0 \<le> clock" "clock < 2 ^ 63"
  shows "\<exists>db'. unblock_stream clock t y db = Inr (db', y) \<and> db_events db' = db_events db \<and>
    \<not> stream_blocked t db' \<and> load_stream_state t db' \<noteq> None"
proof (cases "ss_blocked st")
  case True
  have st: "st \<in> set (db_streams db)" "ss_tenant_id st = t"
    using assms(2) find_SomeD unfolding load_stream_state_def by fastforce+
  have "filter (\<lambda>s. ss_tenant_id s = t \<and> ss_blocked s) (db_streams db) = [st]"
  proof (rule filter_only)
    show "distinct (db_streams db)" using assms(1) by (simp only: distinct_map)
    fix y assume "y \<in> set (db_streams db)" "ss_tenant_id y = t \<and> ss_blocked y"
    then show "y = st" using assms(1) st by (metis distinct_map inj_onD)
  qed (use st True in simp_all)
  then show ?thesis
    using True assms(2-4) st(2)
    by (auto simp: unblock_stream_def unix_timestamp_ms_def Let_def sql_changed_def stream_blocked_def
        load_stream_state_def find_sql_update)
next
  case False
  then show ?thesis using assms(2) by (simp add: unblock_stream_def stream_blocked_def)
qed

text \<open>The keys of origin, witness and client fit together for a tenant.\<close>

definition keys_match :: "ed25519 \<Rightarrow> witness_store \<Rightarrow> witnessed_audit \<Rightarrow> string \<Rightarrow> bool" where
  "keys_match E W A t \<longleftrightarrow>
     (\<exists>og. map_of (ws_trusted_origins W) (os_key_id (wa_origin_signer A)) = Some og \<and> authorizes og t \<and>
        to_verifying_key og = ed_public E (os_signing_key (wa_origin_signer A))) \<and>
     wc_expected_key_id (wa_client A) = ws_witness_key_id W \<and>
     wc_expected_key (wa_client A) = ed_public E (ws_signing_key W) \<and>
     validate_identifier ''witness key id'' (ws_witness_key_id W) = Inr ()"

text \<open>The witness holds every event of the stream but the last, which has no receipt yet.\<close>

definition one_behind :: "string \<Rightarrow> audit_row list \<Rightarrow> witness_db \<Rightarrow> bool" where
  "one_behind t rows db \<longleftrightarrow> rows \<noteq> [] \<and> length rows < 2 ^ 63 \<and>
     ev_witness_receipt_json (last rows) = None \<and>
     map wr_event_hash (stream_of t db) = map ev_event_hash (butlast rows)"

lemma head_accepted:
  assumes "ed25519_ok E" "keys_match E W A t" "stream_ok db t" "one_behind t rows db" "chain_ok rows"
    and "record_from_row L (last rows) = Inr rec" "ev_tenant_id (last rows) = t" "0 \<le> clock" "clock < 2 ^ 63"
  shows "\<exists>db'. accept L E W clock (checkpoint_of E (wa_origin_signer A) rec) db =
      (db', Inr (receipt_for E W (checkpoint_of E (wa_origin_signer A) rec) clock)) \<and>
    length (stream_of t db') = length rows"
proof -
  let ?c = "checkpoint_of E (wa_origin_signer A) rec"
  obtain og where og: "map_of (ws_trusted_origins W) (os_key_id (wa_origin_signer A)) = Some og"
    "authorizes og t" "to_verifying_key og = ed_public E (os_signing_key (wa_origin_signer A))"
    using assms(2) by (auto simp: keys_match_def)
  have ne: "rows \<noteq> []" and lt: "length rows < 2 ^ 63"
    and hashes: "map wr_event_hash (stream_of t db) = map ev_event_hash (butlast rows)"
    using assms(4) by (simp_all add: one_behind_def)
  have m: "rec_tenant_id rec = t" "rec_sequence rec = length rows" "rec_previous_hash rec = ev_previous_hash (last rows)"
    using record_from_row_matches [OF assms(6)] assms(7) chain_last_sequence [OF assms(5) ne]
    by (simp_all add: matches_row_def)
  have len: "length (stream_of t db) = length rows - 1" using hashes by (metis length_butlast length_map)
  have "ev_previous_hash (last rows) = (if butlast rows = [] then GENESIS_HASH else ev_event_hash (last (butlast rows)))"
    using assms(5) ne chained_append [of GENESIS_HASH "butlast rows" "last rows"] by (simp add: chain_ok_def)
  also have "\<dots> = (if stream_of t db = [] then GENESIS_HASH else wr_event_hash (last (stream_of t db)))"
    using hashes by (metis last_map map_is_Nil_conv)
  finally have previous: "rec_previous_hash rec =
      (if stream_of t db = [] then GENESIS_HASH else wr_event_hash (last (stream_of t db)))"
    by (simp only: m)
  have "\<exists>db'. accept L E W clock ?c db = (db', Inr (receipt_for E W ?c clock)) \<and>
      length (stream_of (cp_tenant_id ?c) db') = cp_sequence ?c"
  proof (rule accept_next)
    show "verify_checkpoint_signature E ?c (to_verifying_key og) = Inr ()"
      using signed_checkpoint_verifies [OF assms(1)] og(3) by simp
    show "cp_sequence ?c = Suc (length (stream_of (cp_tenant_id ?c) db))" using len m ne by simp
    show "cp_previous_hash ?c = (if stream_of (cp_tenant_id ?c) db = [] then GENESIS_HASH
        else wr_event_hash (last (stream_of (cp_tenant_id ?c) db)))"
      using previous by (simp only: checkpoint_of_sel m)
  qed (use assms(3,8,9) og lt m in simp_all)
  then show ?thesis using m by simp
qed

text \<open>The witness round for the head: accepted, attached, and confirmed.\<close>

lemma head_witnessed:
  assumes post: "sy_post S = served_by (sy_lib S) (sy_ed S) W clock" "0 \<le> clock" "clock < 2 ^ 63"
    and libs: "receipts_ok (sy_lib S)" "ed25519_ok (sy_ed S)" and keys: "keys_match (sy_ed S) W A t"
    and inv: "audit_inv (sy_lib S) (w_audit w)" and wok: "stream_ok (w_rest w) t"
    and rows: "rows = tenant_rows t (db_events (w_audit w))" "one_behind t rows (w_rest w)"
  shows "\<exists>rec rc w'. load_head (sy_lib S) t (db_events (w_audit w)) = Inr (Some rec) \<and>
    rec_sequence rec = length rows \<and>
    witness_record S A rec w = (w', Inr (rec \<lparr> rec_witness_receipt := Some rc \<rparr>)) \<and>
    verify_receipt_for_record (sy_ed S) rc (rec \<lparr> rec_witness_receipt := Some rc \<rparr>)
      (wc_expected_key_id (wa_client A)) (wc_expected_key (wa_client A)) = Inr () \<and>
    audit_inv (sy_lib S) (w_audit w') \<and> db_streams (w_audit w') = db_streams (w_audit w) \<and>
    load_head (sy_lib S) t (db_events (w_audit w')) = Inr (Some (rec \<lparr> rec_witness_receipt := Some rc \<rparr>)) \<and>
    length (tenant_rows t (db_events (w_audit w'))) = length rows \<and>
    length (stream_of t (w_rest w')) = length rows"
proof -
  let ?L = "sy_lib S" and ?E = "sy_ed S" and ?db = "w_audit w"
  have ok: "events_ok ?L (db_events ?db)" using inv by (simp add: audit_inv_def)
  have ch: "chain_ok rows" using ok rows(1) by (simp only: events_ok_def)
  have ne: "rows \<noteq> []" "ev_witness_receipt_json (last rows) = None"
    using rows(2) by (simp_all add: one_behind_def)
  have head: "head_row t (db_events ?db) = Some (last rows)"
    using head_row_last [of t "db_events ?db"] ch ne rows(1) by simp
  have "row_ok ?L (last rows)"
    using ok head_row_tenant [OF head] by (simp add: events_ok_def list_all_iff)
  then obtain rec where rec: "record_from_row ?L (last rows) = Inr rec" using record_from_row_ok by blast
  have m: "rec_tenant_id rec = t" "rec_sequence rec = length rows" "rec_witness_receipt rec = None"
    using record_from_row_matches [OF rec] head_row_tenant [OF head] chain_last_sequence [OF ch ne(1)] ne(2)
    by (simp_all add: matches_row_def)
  let ?c = "checkpoint_of ?E (wa_origin_signer A) rec"
  let ?rc = "receipt_for ?E W ?c clock" and ?key = "wc_expected_key (wa_client A)"
  obtain wdb where acc: "accept ?L ?E W clock ?c (w_rest w) = (wdb, Inr ?rc)" "length (stream_of t wdb) = length rows"
    using head_accepted [OF libs(2) keys wok rows(2) ch rec _ post(2,3)] head_row_tenant [OF head] by auto
  have sig: "verify_witness_receipt ?E ?rc ?key = Inr ()"
    using signed_receipt_verifies [OF libs(2)] keys by (simp add: receipt_for_def keys_match_def)
  have sel: "rc_tenant_id ?rc = t" "rc_sequence ?rc = rec_sequence rec" "rc_event_hash ?rc = rec_event_hash rec"
    "rc_witness_key_id ?rc = wc_expected_key_id (wa_client A)"
    using m keys by (simp_all add: receipt_for_def keys_match_def)
  have client: "client_checkpoint S (wa_client A) ?c w = (w \<lparr> w_rest := wdb \<rparr>, Inr ?rc)"
    using acc sig sel m
    by (simp add: client_checkpoint_def post(1) served_by_def checkpoint_handler_def receipt_matches_def)
  obtain db' where att: "attach_witness_receipt ?L ?E ?rc ?key ?db = (db', Inr ())"
    and db': "audit_inv ?L db'" "db_streams db' = db_streams ?db"
      "load_head ?L t (db_events db') = Inr (Some (rec \<lparr> rec_witness_receipt := Some ?rc \<rparr>))"
      "length (tenant_rows t (db_events db')) = length rows"
    and lr: "load_record ?L t (rec_sequence rec) (db_events db') = Inr (Some (rec \<lparr> rec_witness_receipt := Some ?rc \<rparr>))"
    using attach_to_head [OF inv head rec ne(2) libs(1) sig sel(1-3)] rows(1) by auto
  have vr: "verify_receipt_for_record ?E ?rc (rec \<lparr> rec_witness_receipt := Some ?rc \<rparr>)
      (wc_expected_key_id (wa_client A)) ?key = Inr ()"
    using sig sel m by (simp add: verify_receipt_for_record_def)
  have "witness_record S A rec w =
      (w \<lparr> w_rest := wdb, w_audit := db' \<rparr>, Inr (rec \<lparr> rec_witness_receipt := Some ?rc \<rparr>))"
    using client att lr vr m
    by (simp add: witness_record_def on_audit_def confirm_receipt_def read_audit_def get_record_def)
  moreover have "load_head ?L t (db_events ?db) = Inr (Some rec)"
    using head rec by (simp add: load_head_def query_record_def)
  ultimately show ?thesis using m(2) vr db' acc(2)
    by (intro exI [of _ rec] exI [of _ ?rc] exI [of _ "w \<lparr> w_rest := wdb, w_audit := db' \<rparr>"]) simp
qed

text \<open>
  Property C36. Recovery works whenever only the head of the stream is missing at the witness: against
  the witness itself, with matching keys and no interference, \<open>recover_stream\<close> has the head witnessed,
  attaches the receipt, verifies the whole chain, and unblocks the stream: afterwards its row is there
  and not blocked, and the witness holds every event of the stream.
\<close>

theorem recovery_completes:
  assumes "sy_post S = served_by (sy_lib S) (sy_ed S) W clock" and "0 \<le> clock" and "clock < 2 ^ 63"
    and "\<forall>v. sy_tick S v = (v, tk)" and "0 \<le> tk_now tk" and "tk_now tk < 2 ^ 63"
    and "receipts_ok (sy_lib S)" and "ed25519_ok (sy_ed S)" and "keys_match (sy_ed S) W A t"
    and "audit_inv (sy_lib S) (w_audit w)" and "stream_ok (w_rest w) t"
    and "load_stream_state t (w_audit w) = Some st" and "validate_identifier ''tenant id'' t = Inr ()"
    and "rows = tenant_rows t (db_events (w_audit w))" and "one_behind t rows (w_rest w)"
  shows "\<exists>w'. recover_stream S A t w =
      (w', Inr \<lparr> ry_verified_records = length rows, ry_recovered_sequence = length rows \<rparr>) \<and>
    length (stream_of t (w_rest w')) = length rows \<and>
    \<not> stream_blocked t (w_audit w') \<and> load_stream_state t (w_audit w') \<noteq> None"
proof -
  let ?L = "sy_lib S" and ?y = "\<lparr> ry_verified_records = length rows, ry_recovered_sequence = length rows \<rparr>"
  obtain rec rc w1 where lh: "load_head ?L t (db_events (w_audit w)) = Inr (Some rec)" "rec_sequence rec = length rows"
    and wr: "witness_record S A rec w = (w1, Inr (rec \<lparr> rec_witness_receipt := Some rc \<rparr>))"
    and vr: "verify_receipt_for_record (sy_ed S) rc (rec \<lparr> rec_witness_receipt := Some rc \<rparr>)
      (wc_expected_key_id (wa_client A)) (wc_expected_key (wa_client A)) = Inr ()"
    and inv1: "audit_inv ?L (w_audit w1)" and str: "db_streams (w_audit w1) = db_streams (w_audit w)"
    and lh1: "load_head ?L t (db_events (w_audit w1)) = Inr (Some (rec \<lparr> rec_witness_receipt := Some rc \<rparr>))"
    and n: "length (tenant_rows t (db_events (w_audit w1))) = length rows" "length (stream_of t (w_rest w1)) = length rows"
    using head_witnessed [OF assms(1-3,7-11,14,15)] by blast
  have vt: "verify_tenant_in ?L t (db_events (w_audit w1)) = Inr (length rows)"
    using verify_tenant_complete [of ?L "db_events (w_audit w1)" t] inv1 n(1) by (simp add: audit_inv_def)
  have kid: "validate_identifier ''witness key id'' (wc_expected_key_id (wa_client A)) = Inr ()"
    using assms(9) by (simp add: keys_match_def)
  have "distinct (map ss_tenant_id (db_streams (w_audit w1)))" using inv1 by (simp add: audit_inv_def)
  moreover have "load_stream_state t (w_audit w1) = Some st" using assms(12) str by (simp add: load_stream_state_def)
  ultimately obtain db2 where "unblock_stream (tk_now tk) t ?y (w_audit w1) = Inr (db2, ?y)"
    and free: "\<not> stream_blocked t db2" "load_stream_state t db2 \<noteq> None"
    using unblock_stream_succeeds [of "w_audit w1" t st "tk_now tk" ?y] assms(5,6) by blast
  then have "recover_witnessed_stream ?L (sy_ed S) (tk_now tk) t (rec_sequence rec) (rec_event_hash rec)
      (wc_expected_key_id (wa_client A)) (wc_expected_key (wa_client A)) (w_audit w1) = (db2, Inr ?y)"
    using vt lh1 vr kid lh(2) assms(13) by (simp add: recover_witnessed_stream_def transact_def)
  then have "recover_stream S A t w = (w1 \<lparr> w_audit := db2 \<rparr>, Inr ?y)"
    using wr lh(1) assms(4,12,13)
    by (simp add: recover_stream_def read_audit_def stream_state_def head_record_def on_audit_def)
  then show ?thesis using n(2) free by simp
qed


section \<open>A concrete library\<close>

text \<open>
  Texts that can be read back: receipts as before, and the metadata payloads of the server with a
  tag before each value and a mark before each entry.
\<close>

definition enc_item :: "json \<Rightarrow> string" where
  "enc_item v = (case v of JString s \<Rightarrow> CHR 0x01 # enc_text s | _ \<Rightarrow> CHR 0x01 # enc_text [])"

definition enc_value :: "json \<Rightarrow> string" where
  "enc_value v = (case v of
     JString s \<Rightarrow> CHR ''s'' # enc_text s
   | JBool b \<Rightarrow> [if b then CHR ''t'' else CHR ''f'']
   | JNumber (PosInt n) \<Rightarrow> CHR ''p'' # enc_nat n
   | JNumber (NegInt i) \<Rightarrow> (if i < 0 then CHR ''m'' else CHR ''q'') # enc_nat (nat \<bar>i\<bar>)
   | JArray vs \<Rightarrow> CHR ''a'' # concat (map enc_item vs) @ [CHR 0x00]
   | _ \<Rightarrow> [CHR ''n''])"

definition enc_json :: "json \<Rightarrow> string" where
  "enc_json v = (case v of
     JObject es \<Rightarrow> concat (map (\<lambda>(k, x). CHR 0x01 # enc_text k @ enc_value x) es) @ [CHR 0x00]
   | _ \<Rightarrow> CHR 0x02 # enc_value v)"

fun dec_items :: "nat \<Rightarrow> string \<Rightarrow> json list \<times> string" where
  "dec_items (Suc n) (m # x) =
     (if m = CHR 0x01
      then let (s, x') = dec_text x; (vs, x'') = dec_items n x' in (JString s # vs, x'')
      else ([], x))"
| "dec_items _ x = ([], x)"

definition dec_value :: "string \<Rightarrow> json \<times> string" where
  "dec_value x = (case x of
     [] \<Rightarrow> (JNull, [])
   | m # x' \<Rightarrow>
       if m = CHR ''s'' then map_prod JString id (dec_text x')
       else if m = CHR ''t'' then (JBool True, x')
       else if m = CHR ''f'' then (JBool False, x')
       else if m = CHR ''p'' then map_prod (\<lambda>s. JNumber (PosInt (length s))) id (dec_text x')
       else if m = CHR ''m'' then map_prod (\<lambda>s. JNumber (NegInt (- int (length s)))) id (dec_text x')
       else if m = CHR ''q'' then map_prod (\<lambda>s. JNumber (NegInt (int (length s)))) id (dec_text x')
       else if m = CHR ''a'' then map_prod JArray id (dec_items (length x') x')
       else (JNull, x'))"

fun dec_entries :: "nat \<Rightarrow> string \<Rightarrow> (string \<times> json) list" where
  "dec_entries (Suc n) (m # x) =
     (if m = CHR 0x01
      then let (k, x') = dec_text x; (v, x'') = dec_value x' in (k, v) # dec_entries n x''
      else [])"
| "dec_entries _ _ = []"

definition dec_json :: "string \<Rightarrow> json option" where
  "dec_json x = Some (JObject (dec_entries (length x) x))"

lemma dec_enc_items:
  "list_all (\<lambda>x. case x of JString _ \<Rightarrow> True | _ \<Rightarrow> False) vs \<Longrightarrow> length vs < n \<Longrightarrow>
   dec_items n (concat (map enc_item vs) @ CHR 0x00 # rest) = (vs, rest)"
proof (induction vs arbitrary: n)
  case Nil
  then show ?case by (cases n) auto
next
  case (Cons v vs)
  then obtain s m where "v = JString s" "n = Suc m" by (cases v; cases n) auto
  then show ?case using Cons by (simp add: enc_item_def dec_enc_text Let_def)
qed

lemma length_items: "length vs \<le> length (concat (map enc_item vs))"
proof (induction vs)
  case (Cons v vs)
  moreover have "1 \<le> length (enc_item v)" by (simp add: enc_item_def split: json.split)
  ultimately show ?case by simp
qed simp

lemma dec_enc_value: "plain_value v \<Longrightarrow> dec_value (enc_value v @ rest) = (v, rest)"
proof (cases v)
  case (JArray vs)
  moreover assume "plain_value v"
  ultimately show ?thesis
    using length_items [of vs]
    by (simp add: plain_value_def enc_value_def dec_value_def dec_enc_items)
qed (auto simp: plain_value_def enc_value_def dec_value_def enc_nat_def dec_enc_text split: json_number.splits)

lemma dec_enc_entries:
  "list_all (\<lambda>e. plain_value (snd e)) es \<Longrightarrow> length es < n \<Longrightarrow>
   dec_entries n (concat (map (\<lambda>(k, x). CHR 0x01 # enc_text k @ enc_value x) es) @ [CHR 0x00]) = es"
proof (induction es arbitrary: n)
  case Nil
  then show ?case by (cases n) auto
next
  case (Cons e es)
  obtain k v m where "e = (k, v)" "n = Suc m" using Cons.prems by (cases e; cases n) auto
  then show ?case using Cons by (simp add: dec_enc_text dec_enc_value Let_def)
qed

definition codec_serde :: serde where
  "codec_serde = \<lparr> str_text = enc_text, num_text = (\<lambda>_. ''0''), value_text = enc_json, value_parse = dec_json \<rparr>"

definition codec_lib :: audit_lib where
  "codec_lib = \<lparr> al_serde = codec_serde, al_sha256 = (\<lambda>x. x), al_receipt_text = enc_receipt,
     al_receipt_parse = dec_receipt \<rparr>"

lemma canonicalize_plain_value: "plain_value v \<Longrightarrow> canonicalize v = v"
proof (cases v)
  case (JArray vs)
  assume "plain_value v"
  then have "canonicalize_items vs = vs"
    unfolding JArray by (induction vs) (auto simp: plain_value_def split: json.splits)
  then show ?thesis using JArray by simp
qed (auto simp: plain_value_def)

lemma canonicalize_plain_entries:
  "list_all (\<lambda>e. plain_value (snd e)) es \<Longrightarrow> canonicalize_entries es = es"
  by (induction es) (auto simp: canonicalize_plain_value)

lemma codec_lib_ok: "audit_lib_ok codec_lib"
proof -
  have "payload_ok codec_lib p" if "plain_payload p" for p
  proof -
    obtain es where p: "p = JObject es" and es: "list_all (\<lambda>e. plain_value (snd e)) es"
      using \<open>plain_payload p\<close> by (auto simp: plain_payload_def split: json.splits)
    let ?m = "btree_collect es"
    have m: "list_all (\<lambda>e. plain_value (snd e)) ?m"
      using es btree_collect_subset [of es] by (auto simp: list_all_iff)
    have c: "canonicalize p = JObject ?m" using p es by (simp add: canonicalize_plain_entries)
    have c2: "canonicalize (JObject ?m) = JObject ?m"
      using m by (simp add: canonicalize_plain_entries btree_collect_idem)
    have "length (concat (map (\<lambda>(k, x). CHR 0x01 # enc_text k @ enc_value x) es)) \<ge> length es" for es
      by (induction es) auto
    then have "dec_json (enc_json (JObject ?m)) = Some (JObject ?m)"
      using dec_enc_entries [OF m] by (simp add: dec_json_def enc_json_def le_imp_less_Suc)
    then show ?thesis
      using c c2 by (simp add: payload_ok_def codec_lib_def codec_serde_def canonical_json_string_def)
  qed
  then show ?thesis
    by (simp add: audit_lib_ok_def metadata_round_trips_def receipts_ok_def codec_lib_def dec_enc_receipt)
qed


section \<open>A concrete system\<close>

definition sample_system :: "witness_db system" where
  "sample_system = \<lparr> sy_lib = codec_lib, sy_ed = sample_ed25519, sy_uuid = sample_uuid_lib,
     sy_tick = (\<lambda>w. (w, sample_tick)), sy_clock = (\<lambda>w. (w, 100)), sy_new_v4 = (\<lambda>w. (w, 4)),
     sy_post = served_by codec_lib sample_ed25519 sample_store 7 \<rparr>"

definition sample_boundary :: witnessed_audit where
  "sample_boundary = \<lparr> wa_origin_signer = \<lparr> os_key_id = ''o'', os_signing_key = ''ok'' \<rparr>,
     wa_client = \<lparr> wc_checkpoint_url = \<lparr> url_scheme = ''https'', url_username = [], url_password = None,
         url_host = Some ''witness'', url_path = ''/v1/checkpoints'', url_query = None, url_fragment = None \<rparr>,
       wc_expected_key_id = ''w'', wc_expected_key = ''wk'' \<rparr> \<rparr>"

definition sample_world :: "audit_db \<Rightarrow> witness_db world" where
  "sample_world db = \<lparr> w_audit = db, w_approvals = [], w_rest = empty_witness \<rparr>"

lemma sample_system_sel [simp]:
  "sy_lib sample_system = codec_lib" "sy_ed sample_system = sample_ed25519" "sy_uuid sample_system = sample_uuid_lib"
  "sy_tick sample_system = (\<lambda>w. (w, sample_tick))"
  "sy_post sample_system = served_by codec_lib sample_ed25519 sample_store 7"
  by (simp_all add: sample_system_def)

lemma approval_inv_empty: "uuid_lib_ok U \<Longrightarrow> approval_inv U []"
  by (simp add: approval_inv_def approvals_ok_def)

lemma sample_system_ok: "system_ok sample_system"
proof -
  have "world_advances sample_system w (w \<lparr> w_rest := x \<rparr>)" for w :: "witness_db world" and x
    by (simp add: world_advances_def world_ok_def)
  then have "world_advances sample_system w (fst (served_by codec_lib sample_ed25519 sample_store 7 c w))" for c w
    by (simp add: served_by_def split: prod.split)
  then show ?thesis
    using codec_lib_ok sample_uuid_lib_ok by (simp add: system_ok_def) (simp add: sample_system_def)
qed

lemma sample_keys_match: "keys_match sample_ed25519 sample_store sample_boundary ''t''"
  by (simp add: keys_match_def sample_store_def sample_boundary_def authorizes_def sample_ed25519_def identifier_simps)

lemma codec_receipts: "receipts_ok codec_lib"
  using codec_lib_ok by (simp add: audit_lib_ok_def)

lemma codec_empty_payload: "payload_ok codec_lib (JObject [])"
  using audit_lib_payload [OF codec_lib_ok] by (simp add: plain_payload_def)

text \<open>The first event of the sample tenant under this library.\<close>

definition codec_row :: audit_row where
  "codec_row = next_row codec_lib sample_tick sample_event []"

lemma codec_row_sel [simp]:
  "ev_tenant_id codec_row = ''t''" "ev_sequence codec_row = 1" "ev_event_id codec_row = ''e1''"
  "ev_principal_id codec_row = ''p''" "ev_phase codec_row = ''intent''"
  "ev_idempotency_key codec_row = Some ''k''" "ev_witness_receipt_json codec_row = None"
  by (simp_all add: codec_row_def next_row_def tenant_rows_def)

lemma codec_append:
  "\<exists>rec. append_in_transaction codec_lib sample_tick sample_event (request_hash_of codec_lib sample_event)
     (payload_text codec_lib sample_event) [] = Inr ([codec_row], rec) \<and>
     record_from_row codec_lib codec_row = Inr rec"
proof -
  have p: "payload_ok codec_lib (in_payload sample_event)" using codec_empty_payload by simp
  obtain rec where rec: "record_from_row codec_lib codec_row = Inr rec"
    using record_from_row_ok [OF next_row_ok [OF p, of sample_tick "[]"]] by (auto simp: codec_row_def)
  have "append_in_transaction codec_lib sample_tick sample_event (request_hash_of codec_lib sample_event)
     (payload_text codec_lib sample_event) [] = Inr ([codec_row], projr (record_from_row codec_lib codec_row))"
    using append_fresh_cases [OF events_ok_Nil p, of sample_tick]
    by (simp add: append_in_transaction_def load_by_idempotency_def query_record_def Let_def
        event_conflicts_def unix_timestamp_ms_def flip: codec_row_def)
  then show ?thesis using rec by simp
qed

lemma codec_events_ok: "events_ok codec_lib [codec_row]"
  using codec_append append_in_transaction_cases [OF events_ok_Nil, of codec_lib sample_event sample_tick] codec_empty_payload
  by (auto simp: codec_row_def)

text \<open>A blocked stream whose only event was not witnessed.\<close>

definition blocked_db :: "audit_row list \<Rightarrow> audit_db" where
  "blocked_db rows = \<lparr> db_events = rows, db_executions = [], db_resolutions = [],
     db_streams = [\<lparr> ss_tenant_id = ''t'', ss_blocked = True, ss_reason_code = None, ss_updated_at_ms = 1 \<rparr>] \<rparr>"

theorem recovery_completes_witness:
  "\<exists>w'. recover_stream sample_system sample_boundary ''t'' (sample_world (blocked_db [codec_row])) =
     (w', Inr \<lparr> ry_verified_records = 1, ry_recovered_sequence = 1 \<rparr>) \<and> \<not> stream_blocked ''t'' (w_audit w')"
proof -
  let ?w = "sample_world (blocked_db [codec_row])"
  have inv: "audit_inv (sy_lib sample_system) (w_audit ?w)"
    using codec_events_ok by (simp add: audit_inv_def sample_world_def blocked_db_def)
  have so: "stream_ok (w_rest ?w) ''t''"
    using witness_inv_empty [of codec_lib sample_ed25519 sample_store] by (simp add: witness_inv_def sample_world_def)
  have st: "load_stream_state ''t'' (w_audit ?w) = Some \<lparr> ss_tenant_id = ''t'', ss_blocked = True,
      ss_reason_code = None, ss_updated_at_ms = 1 \<rparr>"
    by (simp add: load_stream_state_def sample_world_def blocked_db_def)
  have rows: "[codec_row] = tenant_rows ''t'' (db_events (w_audit ?w))"
    by (simp add: tenant_rows_def sample_world_def blocked_db_def)
  have ob: "one_behind ''t'' [codec_row] (w_rest ?w)"
    by (simp add: one_behind_def sample_world_def stream_of_def empty_witness_def)
  have tenant: "validate_identifier ''tenant id'' ''t'' = Inr ()" by (simp add: identifier_simps)
  have keys: "keys_match (sy_ed sample_system) sample_store sample_boundary ''t''" using sample_keys_match by simp
  show ?thesis
    using recovery_completes [where W = sample_store and clock = 7 and tk = sample_tick,
        OF _ _ _ _ _ _ _ _ keys inv so st tenant rows ob] codec_receipts sample_ed25519_ok
    by auto
qed


definition codec_row2 :: audit_row where
  "codec_row2 = next_row codec_lib sample_outcome_tick sample_outcome [codec_row]"

lemma codec_row2_sel [simp]:
  "ev_tenant_id codec_row2 = ''t''" "ev_sequence codec_row2 = 2" "ev_witness_receipt_json codec_row2 = None"
  by (simp_all add: codec_row2_def next_row_def tenant_rows_def)

theorem recovery_stuck_behind_gap_witness:
  "\<exists>e. recover_stream sample_system sample_boundary ''t'' (sample_world (blocked_db [codec_row, codec_row2])) =
     (sample_world (blocked_db [codec_row, codec_row2]), Inl e)"
proof -
  let ?w = "sample_world (blocked_db [codec_row, codec_row2])"
  have "row_ok codec_lib codec_row2"
    unfolding codec_row2_def using codec_empty_payload by (intro next_row_ok) simp
  then obtain head where rec: "record_from_row codec_lib codec_row2 = Inr head" using record_from_row_ok by blast
  have h: "load_head (sy_lib sample_system) ''t'' (db_events (w_audit ?w)) = Inr (Some head)"
    using rec by (simp add: sample_world_def blocked_db_def load_head_def head_row_def tenant_rows_def query_record_def)
  have m: "rec_witness_receipt head = None" "rec_sequence head = 2"
    using record_from_row_matches [OF rec] by (simp_all add: matches_row_def)
  have so: "stream_ok (w_rest ?w) ''t''"
    using witness_inv_empty [of codec_lib sample_ed25519 sample_store] by (simp add: witness_inv_def sample_world_def)
  have post: "sy_post sample_system = served_by (sy_lib sample_system) (sy_ed sample_system) sample_store 7" by simp
  have gap: "Suc (length (stream_of ''t'' (w_rest ?w))) < rec_sequence head"
    using m by (simp add: sample_world_def stream_of_def empty_witness_def)
  show ?thesis by (rule recovery_stuck_behind_gap [OF post so h m(1) gap])
qed

theorem failed_completion_blocks_stream_witness:
  "\<exists>w' e. boundary_complete_execution sample_system (Witnessed sample_boundary) sample_outcome JNull
     (sample_world empty_db) = (w', Inl e) \<and>
   snd (witnessed_complete_execution sample_system sample_boundary sample_outcome JNull (sample_world empty_db)) = Inl e \<and>
   (\<exists>st. load_stream_state ''t'' (w_audit w') = Some st \<and> ss_blocked st)"
proof -
  have "snd (witnessed_complete_execution sample_system sample_boundary sample_outcome JNull (sample_world empty_db)) =
      Inl ExecutionNotFound"
    by (simp add: witnessed_complete_execution_def validate_execution_event_def validate_input_def identifier_simps
        read_audit_def get_execution_record_def load_execution_record_def sample_world_def empty_db_def)
  then obtain w' where "boundary_complete_execution sample_system (Witnessed sample_boundary) sample_outcome JNull
      (sample_world empty_db) = (w', Inl ExecutionNotFound)"
    by (cases "witnessed_complete_execution sample_system sample_boundary sample_outcome JNull (sample_world empty_db)")
      (auto simp: boundary_complete_execution_def)
  with failed_completion_blocks_stream [OF this] show ?thesis by (auto simp: identifier_simps)
qed

theorem audit_chain_always_verifies_witness:
  "let ops = [Claim sample_tick (sample_event \<lparr> in_payload := JObject [(''intent_sequence'', JNumber (NegInt (-3)))] \<rparr>)]
   in verify_tenant codec_lib ''t'' (fst (run (audit_step codec_lib sample_ed25519) ops empty_db)) =
      Inr (length (tenant_rows ''t'' (db_events (fst (run (audit_step codec_lib sample_ed25519) ops empty_db)))))"
proof -
  let ?ops = "[Claim sample_tick (sample_event \<lparr> in_payload := JObject [(''intent_sequence'', JNumber (NegInt (-3)))] \<rparr>)]"
  have "metadata_round_trips codec_lib" "receipts_readable codec_lib"
    using codec_lib_ok by (auto simp: audit_lib_ok_def receipts_ok_def receipts_readable_def)
  moreover have "list_all op_float_free ?ops" by (simp add: float_free_def is_float_def)
  moreover have "validate_identifier ''tenant id'' ''t'' = Inr ()" by (simp add: identifier_simps)
  ultimately show ?thesis unfolding Let_def by (rule audit_chain_always_verifies)
qed

text \<open>A claim through the whole boundary: append, witness, attach, claim.\<close>

lemma sample_claim_appended:
  "\<exists>rec. store_append sample_system sample_event (sample_world empty_db) =
     (sample_world (empty_db \<lparr> db_events := [codec_row] \<rparr>), Inr rec) \<and>
   record_from_row codec_lib codec_row = Inr rec"
proof -
  have "validate_input sample_event = Inr ()" by (simp add: validate_input_def identifier_simps)
  then show ?thesis
    using codec_append
    by (auto simp: store_append_def on_audit_def audit_append_def transact_def sample_world_def empty_db_def
        ensure_stream_writable_in_def load_stream_state_def)
qed

lemma sample_intent_witnessed:
  "\<exists>rec w' rc. store_append sample_system sample_event (sample_world empty_db) =
     (sample_world (empty_db \<lparr> db_events := [codec_row] \<rparr>), Inr rec) \<and>
   witness_record sample_system sample_boundary rec (sample_world (empty_db \<lparr> db_events := [codec_row] \<rparr>)) =
     (w', Inr (rec \<lparr> rec_witness_receipt := Some rc \<rparr>)) \<and> world_ok sample_system w' \<and>
   db_streams (w_audit w') = [] \<and> db_executions (w_audit w') = []"
proof -
  let ?w = "sample_world (empty_db \<lparr> db_events := [codec_row] \<rparr>)"
  have inv: "audit_inv (sy_lib sample_system) (w_audit ?w)"
    using codec_events_ok by (simp add: audit_inv_def sample_world_def empty_db_def)
  have so: "stream_ok (w_rest ?w) ''t''"
    using witness_inv_empty [of codec_lib sample_ed25519 sample_store] by (simp add: witness_inv_def sample_world_def)
  have rows: "[codec_row] = tenant_rows ''t'' (db_events (w_audit ?w))"
    by (simp add: tenant_rows_def sample_world_def empty_db_def)
  have ob: "one_behind ''t'' [codec_row] (w_rest ?w)"
    by (simp add: one_behind_def sample_world_def stream_of_def empty_witness_def)
  have keys: "keys_match (sy_ed sample_system) sample_store sample_boundary ''t''" using sample_keys_match by simp
  have wok: "world_ok sample_system ?w"
    using inv approval_inv_empty [OF sample_uuid_lib_ok] by (simp add: world_ok_def sample_world_def)
  obtain rec rc w' where r: "load_head (sy_lib sample_system) ''t'' (db_events (w_audit ?w)) = Inr (Some rec)"
    "witness_record sample_system sample_boundary rec ?w = (w', Inr (rec \<lparr> rec_witness_receipt := Some rc \<rparr>))"
    "db_streams (w_audit w') = db_streams (w_audit ?w)"
    using head_witnessed [where W = sample_store and clock = 7, OF _ _ _ _ _ keys inv so rows ob] codec_receipts
      sample_ed25519_ok by auto
  have "world_ok sample_system w'"
    using advancesD [OF witness_record_advances [OF sample_system_ok, of ?w sample_boundary rec] wok] r(2) by simp
  moreover have "db_executions (w_audit w') = []"
    using r(2)
    by (auto simp: witness_record_def client_checkpoint_def served_by_def and_then_def on_audit_def confirm_receipt_def
        read_audit_def attach_witness_receipt_def transact_def sample_world_def empty_db_def
        split: option.splits sum.splits prod.splits if_splits witness_response.splits)
  moreover have "record_from_row codec_lib codec_row = Inr rec"
    using r(1) by (auto simp: load_head_def head_row_def tenant_rows_def query_record_def sample_world_def
        empty_db_def split: sum.splits)
  ultimately show ?thesis using r sample_claim_appended by (auto simp: sample_world_def empty_db_def)
qed


lemma append_existing:
  assumes "events_ok L rows" "r \<in> set rows" "in_idempotency_key i = Some key"
    and "idem_key r = (in_tenant_id i, in_principal_id i, phase_name (in_phase i), Some key)"
    and "ev_action r = in_action i" "ev_request_hash r = request_hash_of L i" "ev_payload_json r = payload_text L i"
  shows "\<exists>rec. append_in_transaction L tk i (request_hash_of L i) (payload_text L i) rows = Inr (rows, rec)"
proof -
  have "row_ok L r" using assms(1,2) by (simp add: events_ok_def list_all_iff)
  then obtain rec where rec: "record_from_row L r = Inr rec" using record_from_row_ok by blast
  have "find (\<lambda>r. ev_tenant_id r = in_tenant_id i \<and> ev_principal_id r = in_principal_id i
      \<and> ev_phase r = phase_name (in_phase i) \<and> ev_idempotency_key r = Some key) rows = Some r"
  proof (rule find_only [OF assms(2)])
    fix y assume y: "y \<in> set rows" "ev_tenant_id y = in_tenant_id i \<and> ev_principal_id y = in_principal_id i
      \<and> ev_phase y = phase_name (in_phase i) \<and> ev_idempotency_key y = Some key"
    show "y = r" by (rule event_unique [OF assms(1) y(1) assms(2)]) (use y(2) assms(4) in \<open>simp_all add: idem_key_def\<close>)
  qed (use assms(4) in \<open>simp add: idem_key_def\<close>)
  moreover have "ensure_idempotent_match L rec i (request_hash_of L i) (payload_text L i) = Inr ()"
    using record_from_row_matches [OF rec] \<open>row_ok L r\<close> assms(4-7)
    by (auto simp: ensure_idempotent_match_def matches_row_def idem_key_def row_ok_def)
  ultimately show ?thesis
    using assms(3) rec by (simp add: append_in_transaction_def load_by_idempotency_def query_record_def)
qed

lemma claim_succeeds:
  assumes "validate_execution_event i Intent = Inr ()" "in_idempotency_key i = Some key"
    and "validate_metadata_payload (in_payload i) = Inr ()" "db_executions db = []" "db_streams db = []"
    and "append_in_transaction L tk i (request_hash_of L i) (payload_text L i) (db_events db) = Inr (events, irec)"
  shows "\<exists>db' rec. claim_execution L tk i db = (db', Inr (Acquired rec))"
  using assms
  by (simp add: claim_execution_def claim_new_def load_execution_record_def ensure_stream_writable_in_def
      load_stream_state_def insert_execution_def by_key_iff transact_def Let_def claimed_row_def xkey_def
      execution_record_from_row_def parse_execution_state_def)

lemma sample_claim_through_boundary:
  "\<exists>w' rec. witnessed_claim_execution sample_system sample_boundary sample_event (sample_world empty_db) =
     (w', Inr (Acquired rec))"
proof -
  let ?w = "sample_world (empty_db \<lparr> db_events := [codec_row] \<rparr>)"
  obtain rec w1 rc where a: "store_append sample_system sample_event (sample_world empty_db) = (?w, Inr rec)"
    and b: "witness_record sample_system sample_boundary rec ?w = (w1, Inr (rec \<lparr> rec_witness_receipt := Some rc \<rparr>))"
    and ok: "world_ok sample_system w1" and e: "db_streams (w_audit w1) = []" "db_executions (w_audit w1) = []"
    using sample_intent_witnessed by blast
  have "world_ok sample_system ?w"
    using codec_events_ok approval_inv_empty [OF sample_uuid_lib_ok]
    by (simp add: world_ok_def audit_inv_def sample_world_def empty_db_def)
  then have "moves (w_audit ?w) (w_audit w1)"
    using advancesD [OF witness_record_advances [OF sample_system_ok, of ?w sample_boundary rec]] b by simp
  then obtain r where r: "r \<in> set (db_events (w_audit w1))" "event_forward codec_row r"
    using moves_event [of "w_audit ?w" "w_audit w1" codec_row] by (auto simp: sample_world_def)
  have "\<exists>irec. append_in_transaction codec_lib sample_tick sample_event (request_hash_of codec_lib sample_event)
      (payload_text codec_lib sample_event) (db_events (w_audit w1)) = Inr (db_events (w_audit w1), irec)"
    using world_event_inv [OF ok] r
    by (intro append_existing [of _ _ r _ "''k''"])
      (auto simp: event_forward_def idem_key_def codec_row_def next_row_def)
  then obtain db rec' where "claim_execution codec_lib sample_tick sample_event (w_audit w1) = (db, Inr (Acquired rec'))"
    using claim_succeeds [of sample_event "''k''" "w_audit w1" codec_lib sample_tick] e by auto
  then have c: "store_claim sample_system sample_event w1 = (w1 \<lparr> w_audit := db \<rparr>, Inr (Acquired rec'))"
    by (simp add: store_claim_def on_audit_def)
  have "get_execution_record codec_lib ''t'' ''p'' ''k'' empty_db = Inr None"
    by (simp add: get_execution_record_def load_execution_record_def empty_db_def identifier_simps)
  then have "witnessed_claim_execution sample_system sample_boundary sample_event (sample_world empty_db) =
      (w1 \<lparr> w_audit := db \<rparr>, Inr (Acquired rec'))"
    using a b c by (simp add: witnessed_claim_execution_def read_audit_def) (simp add: sample_world_def)
  then show ?thesis by blast
qed

theorem acquired_claim_is_witnessed_witness:
  "\<exists>w' rec. witnessed_claim_execution sample_system sample_boundary sample_event (sample_world empty_db) =
     (w', Inr (Acquired rec)) \<and>
   (\<exists>e \<in> set (db_events (w_audit w')). ev_sequence e = xr_intent_sequence rec \<and>
      witnessed_event sample_system (wa_client sample_boundary) e)"
proof -
  obtain w' rec where c: "witnessed_claim_execution sample_system sample_boundary sample_event (sample_world empty_db) =
      (w', Inr (Acquired rec))"
    using sample_claim_through_boundary by blast
  have "world_ok sample_system (sample_world empty_db)"
    using approval_inv_empty [OF sample_uuid_lib_ok] by (simp add: world_ok_def sample_world_def)
  moreover have "plain_payload (in_payload sample_event)" by (simp add: plain_payload_def)
  ultimately show ?thesis using acquired_claim_is_witnessed [OF sample_system_ok _ _ c] c by blast
qed

end
