(* ===== verification/Dispatch.thy ===== *)
theory Dispatch
  imports Contracts
begin

text \<open>
  The dispatcher of \<open>syntheos-dispatch\<close>: the single path every action takes through the ordered
  gates, the execution guard, the executor and the output filter.

  Gates, executor, filter and guard are trait objects, so they are records of functions on the
  shared state \<open>'s\<close>; each returns the new state and its reply. \<open>dispatch\<close> is the whole method as one
  function and returns the events it emitted. Because the method awaits between these calls and
  many requests are in flight at once, \<open>dispatch_step\<close> is the same method cut at its await points,
  and \<open>sys_step\<close> interleaves the steps of any number of requests with steps of the environment. The
  locale \<open>guarded_dispatch\<close> states what the dispatcher relies on from its guard.
\<close>

section \<open>Traits and values\<close>

datatype executor_error_kind = Failure | Conflict

record executor_error =
  err_message :: string
  err_kind :: executor_error_kind

definition executor_error_new :: "string \<Rightarrow> executor_error" where
  "executor_error_new m = \<lparr> err_message = m, err_kind = Failure \<rparr>"

definition executor_error_conflict :: "string \<Rightarrow> executor_error" where
  "executor_error_conflict m = \<lparr> err_message = m, err_kind = Conflict \<rparr>"

definition is_conflict :: "executor_error \<Rightarrow> bool" where
  "is_conflict e = (err_kind e = Conflict)"

datatype execution_decision = Execute | Cached json

datatype execution_outcome = Succeeded json | Failed

datatype dispatch_outcome =
    Executed json
  | Denied string string
  | RequiresApproval string string "string option"

datatype dispatch_error =
    EmptyGateChain
  | NonCanonicalChain "string list" "string list"
  | Execution executor_error

record 's gate =
  gate_name :: string
  gate_check :: "gate_request \<Rightarrow> 's \<Rightarrow> 's \<times> (gate_error + gate_decision)"

record 's execution_guard =
  before_execute :: "gate_request \<Rightarrow> string list \<Rightarrow> 's \<Rightarrow> 's \<times> (executor_error + execution_decision)"
  after_execute :: "gate_request \<Rightarrow> execution_outcome \<Rightarrow> 's \<Rightarrow> 's \<times> (executor_error + unit)"
  mark_indeterminate :: "gate_request \<Rightarrow> 's \<Rightarrow> 's \<times> (executor_error + unit)"

record 's output_filter =
  filter_name :: string
  filter_apply :: "json \<Rightarrow> request_context \<Rightarrow> 's \<Rightarrow> 's \<times> json \<times> filter_decision"

type_synonym 's executor =
  "request_context \<Rightarrow> tool_invocation \<Rightarrow> 's \<Rightarrow> 's \<times> (executor_error + json)"

record 's dispatcher =
  gates :: "'s gate list"
  executor :: "'s executor"
  output_filter :: "'s output_filter option"
  execution_guard :: "'s execution_guard option"


section \<open>Construction\<close>

definition CANONICAL_GATE_ORDER :: "string list" where
  "CANONICAL_GATE_ORDER = [''pistis'', ''plutus'', ''eidolon'', ''human'', ''phylaxd'']"

definition validate_chain :: "'s gate list \<Rightarrow> dispatch_error + unit" where
  "validate_chain gs =
     (if gs = [] then Inl EmptyGateChain
      else let names = map gate_name gs
           in if names \<noteq> CANONICAL_GATE_ORDER
              then Inl (NonCanonicalChain CANONICAL_GATE_ORDER names)
              else Inr ())"

definition dispatcher_new :: "'s gate list \<Rightarrow> 's executor \<Rightarrow> dispatch_error + 's dispatcher" where
  "dispatcher_new gs ex =
     (case validate_chain gs of
        Inl e \<Rightarrow> Inl e
      | Inr _ \<Rightarrow> Inr \<lparr> gates = gs, executor = ex, output_filter = None, execution_guard = None \<rparr>)"

definition with_output_filter :: "'s dispatcher \<Rightarrow> 's output_filter \<Rightarrow> 's dispatcher" where
  "with_output_filter d f = d \<lparr> output_filter := Some f \<rparr>"

definition with_execution_guard :: "'s dispatcher \<Rightarrow> 's execution_guard \<Rightarrow> 's dispatcher" where
  "with_execution_guard d g = d \<lparr> execution_guard := Some g \<rparr>"

definition gate_names :: "'s dispatcher \<Rightarrow> string list" where
  "gate_names d = map gate_name (gates d)"

text \<open>The fail-closed fallbacks of \<open>deny.rs\<close>.\<close>

definition deny_gate :: "string \<Rightarrow> 's gate" where
  "deny_gate n = \<lparr> gate_name = n, gate_check = (\<lambda>_ s.
     (s, Inr (Deny (''fail-closed: the '' @ n @ '' authority is unavailable'')))) \<rparr>"

definition deny_gate_chain :: "'s gate list" where
  "deny_gate_chain = map deny_gate CANONICAL_GATE_ORDER"

definition deny_executor :: "'s executor" where
  "deny_executor ctx invocation s =
     (s, Inl (executor_error_new (''fail-closed: no executor is wired for tool '' @ [CHR 0x27]
        @ inv_tool invocation @ [CHR 0x27])))"


section \<open>Dispatch\<close>

definition request_task :: "gate_request \<Rightarrow> uuid option" where
  "request_task r = map_option task_id (ctx_task (req_context r))"

abbreviation tool_of :: "gate_request \<Rightarrow> string" where
  "tool_of r \<equiv> inv_tool (req_invocation r)"

abbreviation action_of :: "gate_request \<Rightarrow> string" where
  "action_of r \<equiv> inv_action (req_invocation r)"

definition emit :: "gate_request \<Rightarrow> lifecycle_event \<Rightarrow> axon_envelope" where
  "emit r e = to_envelope e (ctx_tenant (req_context r)) (ctx_principal (req_context r))"

text \<open>One arm of the gate match: continue with the gate allowed, or the event and outcome to stop with.\<close>

fun gate_arm ::
    "gate_request \<Rightarrow> string \<Rightarrow> gate_error + gate_decision \<Rightarrow> (lifecycle_event \<times> dispatch_outcome) option"
  where
  "gate_arm r n (Inr Allow) = None"
| "gate_arm r n (Inr (Deny reason)) =
     Some (ActionDenied (tool_of r) (action_of r) n reason (request_task r), Denied n reason)"
| "gate_arm r n (Inr (RequireApproval prompt aid)) =
     Some (ApprovalRequired (tool_of r) (action_of r) n prompt aid (request_task r),
           RequiresApproval n prompt aid)"
| "gate_arm r n (Inr OtherDecision) =
     (let reason = ''unrecognized gate decision (fail-closed)''
      in Some (ActionDenied (tool_of r) (action_of r) n reason (request_task r), Denied n reason))"
| "gate_arm r n (Inl err) =
     (let reason = ''gate error (fail-closed): '' @ err
      in Some (ActionDenied (tool_of r) (action_of r) n reason (request_task r), Denied n reason))"

fun gate_loop ::
    "gate_request \<Rightarrow> string list \<Rightarrow> 's gate list \<Rightarrow> 's \<Rightarrow>
     's \<times> ((lifecycle_event \<times> dispatch_outcome) + string list)" where
  "gate_loop r allowed [] s = (s, Inr allowed)"
| "gate_loop r allowed (g # gs) s =
     (case gate_check g r s of
        (s', d) \<Rightarrow>
          (case gate_arm r (gate_name g) d of
             None \<Rightarrow> gate_loop r (allowed @ [gate_name g]) gs s'
           | Some stop \<Rightarrow> (s', Inl stop)))"

definition redaction :: "string \<Rightarrow> json" where
  "redaction reason = JObject [(''reason'', JString reason), (''redacted'', JBool True)]"

definition apply_filter ::
    "'s output_filter option \<Rightarrow> json \<Rightarrow> request_context \<Rightarrow> 's \<Rightarrow> 's \<times> json" where
  "apply_filter f result ctx s =
     (case f of
        None \<Rightarrow> (s, result)
      | Some flt \<Rightarrow>
          (case filter_apply flt result ctx s of
             (s', scrubbed, decision) \<Rightarrow>
               (s', case decision of
                      Pass \<Rightarrow> scrubbed
                    | Replace v \<Rightarrow> v
                    | Redact reason \<Rightarrow> redaction reason
                    | OtherFilterDecision \<Rightarrow> redaction ''unrecognized filter decision (fail-closed)'')))"

text \<open>
  Recording an outcome with the guard; when that fails, the execution is marked indeterminate (the
  result of the mark is only logged) and the guard's error is returned.
\<close>

definition record_outcome ::
    "'s execution_guard option \<Rightarrow> gate_request \<Rightarrow> execution_outcome \<Rightarrow> 's \<Rightarrow>
     's \<times> (executor_error + unit)" where
  "record_outcome guard r outcome s =
     (case guard of
        None \<Rightarrow> (s, Inr ())
      | Some g \<Rightarrow>
          (case after_execute g r outcome s of
             (s', Inr _) \<Rightarrow> (s', Inr ())
           | (s', Inl err) \<Rightarrow> (fst (mark_indeterminate g r s'), Inl err)))"

definition failed_event :: "gate_request \<Rightarrow> executor_error \<Rightarrow> lifecycle_event" where
  "failed_event r err = ActionFailed (tool_of r) (action_of r) (err_message err) (request_task r)"

definition completed_event :: "gate_request \<Rightarrow> lifecycle_event" where
  "completed_event r = ActionCompleted (tool_of r) (action_of r) (request_task r)"

definition execute_and_record ::
    "'s dispatcher \<Rightarrow> gate_request \<Rightarrow> 's \<Rightarrow>
     's \<times> axon_envelope list \<times> (dispatch_error + dispatch_outcome)" where
  "execute_and_record d r s =
     (case executor d (req_context r) (req_invocation r) s of
        (s1, Inr result) \<Rightarrow>
          (case apply_filter (output_filter d) result (req_context r) s1 of
             (s2, final) \<Rightarrow>
               (case record_outcome (execution_guard d) r (Succeeded final) s2 of
                  (s3, Inl err) \<Rightarrow> (s3, [emit r (failed_event r err)], Inl (Execution err))
                | (s3, Inr _) \<Rightarrow> (s3, [emit r (completed_event r)], Inr (Executed final))))
      | (s1, Inl err) \<Rightarrow>
          (case record_outcome (execution_guard d) r Failed s1 of
             (s2, Inl guard_err) \<Rightarrow>
               (s2, [emit r (failed_event r guard_err)], Inl (Execution guard_err))
           | (s2, Inr _) \<Rightarrow> (s2, [emit r (failed_event r err)], Inl (Execution err))))"

definition guard_and_execute ::
    "'s dispatcher \<Rightarrow> gate_request \<Rightarrow> string list \<Rightarrow> 's \<Rightarrow>
     's \<times> axon_envelope list \<times> (dispatch_error + dispatch_outcome)" where
  "guard_and_execute d r allowed s =
     (case execution_guard d of
        None \<Rightarrow> execute_and_record d r s
      | Some g \<Rightarrow>
          (case before_execute g r allowed s of
             (s1, Inr Execute) \<Rightarrow> execute_and_record d r s1
           | (s1, Inr (Cached result)) \<Rightarrow>
               (s1, [emit r (completed_event r)], Inr (Executed result))
           | (s1, Inl err) \<Rightarrow> (s1, [emit r (failed_event r err)], Inl (Execution err))))"

definition dispatch ::
    "'s dispatcher \<Rightarrow> gate_request \<Rightarrow> 's \<Rightarrow>
     's \<times> axon_envelope list \<times> (dispatch_error + dispatch_outcome)" where
  "dispatch d r s =
     (let invoked = emit r (ActionInvoked (tool_of r) (action_of r) (request_task r))
      in case gate_loop r [] (gates d) s of
           (s1, Inl (event, outcome)) \<Rightarrow> (s1, [invoked, emit r event], Inr outcome)
         | (s1, Inr allowed) \<Rightarrow>
             (case guard_and_execute d r allowed s1 of
                (s2, events, result) \<Rightarrow> (s2, invoked # events, result)))"


section \<open>Fail-closed behaviour\<close>

text \<open>Every gate allows, each in the state that its predecessors left.\<close>

fun admits :: "gate_request \<Rightarrow> 's gate list \<Rightarrow> 's \<Rightarrow> bool" where
  "admits r [] s = True"
| "admits r (g # gs) s =
     (case gate_check g r s of (s', d) \<Rightarrow> d = Inr Allow \<and> admits r gs s')"

lemma gate_arm_None [simp]: "(gate_arm r n d = None) = (d = Inr Allow)"
  by (cases "(r, n, d)" rule: gate_arm.cases) (auto simp: Let_def)

lemma gate_loop_allowed:
  "(\<exists>s'. gate_loop r allowed gs s = (s', Inr names)) =
   (admits r gs s \<and> names = allowed @ map gate_name gs)"
  by (induction gs arbitrary: allowed s) (auto split: prod.splits option.splits)

lemma gate_loop_stopped:
  "gate_loop r allowed gs s = (s', Inl (e, out)) \<Longrightarrow>
   \<exists>n d. n \<in> set (map gate_name gs) \<and> gate_arm r n d = Some (e, out)"
proof (induction gs arbitrary: allowed s)
  case (Cons g gs)
  obtain s1 d where d: "gate_check g r s = (s1, d)" by (cases "gate_check g r s")
  show ?case
  proof (cases "gate_arm r (gate_name g) d")
    case None
    then have "gate_loop r (allowed @ [gate_name g]) gs s1 = (s', Inl (e, out))"
      using Cons.prems d by simp
    from Cons.IH [OF this] show ?thesis by auto
  next
    case (Some stop)
    then show ?thesis using Cons.prems d by auto
  qed
qed simp

lemma gate_loop_cases:
  obtains (allowed) s' where "gate_loop r [] gs s = (s', Inr (map gate_name gs))" "admits r gs s"
  | (stopped) s' e out n d where "gate_loop r [] gs s = (s', Inl (e, out))" "\<not> admits r gs s"
      "n \<in> set (map gate_name gs)" "gate_arm r n d = Some (e, out)"
proof (cases "gate_loop r [] gs s")
  case (Pair s' x)
  show ?thesis
  proof (cases x)
    case (Inl eo)
    obtain e out where eo: "eo = (e, out)" by (cases eo)
    then have "\<not> admits r gs s"
      using gate_loop_allowed [of r "[]" gs s "[] @ map gate_name gs"] Pair Inl by auto
    then show ?thesis using gate_loop_stopped [of r "[]" gs s s' e out] stopped Pair Inl eo by blast
  next
    case (Inr names)
    then show ?thesis using gate_loop_allowed [of r "[]" gs s names] Pair allowed by auto
  qed
qed

text \<open>An outcome that refuses the action.\<close>

definition refused :: "dispatch_error + dispatch_outcome \<Rightarrow> bool" where
  "refused res =
     (case res of
        Inr (Denied _ _) \<Rightarrow> True
      | Inr (RequiresApproval _ _ _) \<Rightarrow> True
      | _ \<Rightarrow> False)"

lemma gate_arm_refused: "gate_arm r n d = Some (e, out) \<Longrightarrow> refused (Inr out)"
  by (cases "(r, n, d)" rule: gate_arm.cases) (auto simp: refused_def Let_def)

text \<open>The state that a list of gates leaves, and what a refusing answer of the gate \<open>n\<close> must become.\<close>

definition state_after :: "gate_request \<Rightarrow> 's gate list \<Rightarrow> 's \<Rightarrow> 's" where
  "state_after r gs s = fold (\<lambda>g s. fst (gate_check g r s)) gs s"

fun refusal :: "string \<Rightarrow> gate_error + gate_decision \<Rightarrow> dispatch_error + dispatch_outcome \<Rightarrow> bool" where
  "refusal n (Inr Allow) res = False"
| "refusal n (Inr (Deny reason)) res = (res = Inr (Denied n reason))"
| "refusal n (Inr (RequireApproval prompt aid)) res = (res = Inr (RequiresApproval n prompt aid))"
| "refusal n (Inr OtherDecision) res = (\<exists>reason. res = Inr (Denied n reason))"
| "refusal n (Inl err) res = (\<exists>reason. res = Inr (Denied n reason))"

lemma gate_arm_refusal: "gate_arm r n d = Some (e, out) \<Longrightarrow> refusal n d (Inr out)"
  by (cases "(r, n, d)" rule: gate_arm.cases) (auto simp: Let_def)

text \<open>The loop stops at the first gate that does not allow, in the state that this gate leaves.\<close>

lemma gate_loop_first_refusal:
  "\<not> admits r gs s \<Longrightarrow> \<exists>before g after answer s' e out. gs = before @ g # after \<and> admits r before s \<and>
     gate_check g r (state_after r before s) = (s', answer) \<and>
     gate_arm r (gate_name g) answer = Some (e, out) \<and> gate_loop r allowed gs s = (s', Inl (e, out))"
proof (induction gs arbitrary: allowed s)
  case (Cons g gs)
  obtain s1 answer where a: "gate_check g r s = (s1, answer)" by fastforce
  show ?case
  proof (cases "gate_arm r (gate_name g) answer")
    case None
    then have "\<not> admits r gs s1" using Cons.prems a by simp
    from Cons.IH [OF this, of "allowed @ [gate_name g]"] obtain before h after answer' s' e out where
      "gs = before @ h # after" "admits r before s1" "gate_check h r (state_after r before s1) = (s', answer')"
      "gate_arm r (gate_name h) answer' = Some (e, out)"
      "gate_loop r (allowed @ [gate_name g]) gs s1 = (s', Inl (e, out))" by blast
    then show ?thesis
      using a None by (intro exI [of _ "g # before"] exI [of _ h] exI [of _ after]) (auto simp: state_after_def)
  next
    case (Some stop)
    then show ?thesis
      using a by (intro exI [of _ "[]"] exI [of _ g] exI [of _ gs]) (cases stop, auto simp: state_after_def)
  qed
qed simp

text \<open>
  Property C29. Dispatch is fail-closed: when some gate does not answer \<open>Allow\<close> (it denies, asks for
  approval, answers something unknown or fails), the first such gate decides: its denial (or approval
  request) is the outcome, under its own name and with its own reason or prompt, an unknown answer
  or an error becomes a denial in its name, no later gate is consulted, and state, events and outcome
  are the same for every executor, guard and filter: none of them was consulted.
\<close>

theorem dispatch_fail_closed:
  assumes "\<not> admits r (gates d) s"
  shows "(\<exists>before g after answer. gates d = before @ g # after \<and> admits r before s \<and>
           gate_check g r (state_after r before s) = (fst (dispatch d r s), answer) \<and>
           refusal (gate_name g) answer (snd (snd (dispatch d r s)))) \<and>
         dispatch (d \<lparr> executor := ex, output_filter := f, execution_guard := g' \<rparr>) r s = dispatch d r s"
proof -
  obtain before g after answer s' e out where
    "gates d = before @ g # after" "admits r before s" "gate_check g r (state_after r before s) = (s', answer)"
    "gate_arm r (gate_name g) answer = Some (e, out)" "gate_loop r [] (gates d) s = (s', Inl (e, out))"
    using gate_loop_first_refusal [OF assms, of "[]"] by blast
  then show ?thesis using gate_arm_refusal by (fastforce simp: dispatch_def Let_def)
qed

text \<open>
  A dispatcher that \<open>Dispatcher::new\<close> accepts runs exactly the five authorities in the
  canonical order, and, whatever filter and guard are attached later, a dispatch that reaches the
  execution boundary does so only after each of them allowed, with the guard shown exactly that list
  of authorities.
\<close>

theorem dispatch_canonical_chain:
  "(\<exists>d. dispatcher_new gs ex = Inr d) = (map gate_name gs = CANONICAL_GATE_ORDER) \<and>
   (\<forall>d. dispatcher_new gs ex = Inr d \<longrightarrow>
      (let d' = d \<lparr> output_filter := f, execution_guard := g \<rparr>
       in gate_names d' = CANONICAL_GATE_ORDER \<and>
          (\<not> refused (snd (snd (dispatch d' r s))) \<longrightarrow>
             admits r gs s \<and>
             snd (dispatch d' r s) =
               (let (s2, events, result) =
                  guard_and_execute d' r CANONICAL_GATE_ORDER (fst (gate_loop r [] gs s))
                in (emit r (ActionInvoked (tool_of r) (action_of r) (request_task r)) # events,
                    result)))))"
proof -
  have new: "(dispatcher_new gs ex = Inr d) = (map gate_name gs = CANONICAL_GATE_ORDER \<and>
      d = \<lparr> gates = gs, executor = ex, output_filter = None, execution_guard = None \<rparr>)" for d
    by (auto simp: dispatcher_new_def validate_chain_def Let_def CANONICAL_GATE_ORDER_def
        split: sum.splits if_splits)
  show ?thesis
  proof (cases rule: gate_loop_cases [of r gs s])
    case (stopped s' e out n d)
    then have "refused (Inr out)" using gate_arm_refused by metis
    with stopped show ?thesis by (auto simp: new gate_names_def dispatch_def Let_def)
  qed (auto simp: new gate_names_def dispatch_def Let_def split: prod.splits)
qed

text \<open>The terminal event that reports a result.\<close>

fun reports :: "gate_request \<Rightarrow> dispatch_error + dispatch_outcome \<Rightarrow> lifecycle_event \<Rightarrow> bool" where
  "reports r (Inr (Executed v)) e = (e = completed_event r)"
| "reports r (Inr (Denied n reason)) e =
     (e = ActionDenied (tool_of r) (action_of r) n reason (request_task r))"
| "reports r (Inr (RequiresApproval n prompt aid)) e =
     (e = ApprovalRequired (tool_of r) (action_of r) n prompt aid (request_task r))"
| "reports r (Inl (Execution err)) e = (e = failed_event r err)"
| "reports r (Inl _) e = False"

lemma gate_arm_reports: "gate_arm r n d = Some (e, out) \<Longrightarrow> reports r (Inr out) e"
  by (cases "(r, n, d)" rule: gate_arm.cases) (auto simp: Let_def)

lemma guard_and_execute_reports:
  "\<exists>e. fst (snd (guard_and_execute d r names s)) = [emit r e] \<and>
       reports r (snd (snd (guard_and_execute d r names s))) e"
  by (auto simp: guard_and_execute_def execute_and_record_def
      split: option.splits prod.splits sum.splits execution_decision.splits)

text \<open>
  Every dispatch publishes exactly two lifecycle events in the caller's tenant and
  principal: the invocation, then one terminal event that states the returned result.
\<close>

theorem dispatch_event_protocol:
  "\<exists>e. fst (snd (dispatch d r s)) =
         [emit r (ActionInvoked (tool_of r) (action_of r) (request_task r)), emit r e] \<and>
       reports r (snd (snd (dispatch d r s))) e"
proof (cases rule: gate_loop_cases [of r "gates d" s])
  case (allowed s')
  then show ?thesis
    using guard_and_execute_reports [of d r "map gate_name (gates d)" s']
    by (auto simp: dispatch_def Let_def split: prod.splits)
qed (auto simp: dispatch_def Let_def gate_arm_reports)

text \<open>
  A value reaches the caller in one of two ways only: the guard replayed it, or it is
  the executor's result after the output filter, and then, when a guard is attached, that same
  filtered value was durably recorded first.
\<close>

theorem dispatch_result_filtered:
  assumes "snd (snd (dispatch d r s)) = Inr (Executed v)"
  shows "admits r (gates d) s \<and>
    (let s1 = fst (gate_loop r [] (gates d) s); names = map gate_name (gates d) in
      (\<exists>g. execution_guard d = Some g \<and> snd (before_execute g r names s1) = Inr (Cached v)) \<or>
      (\<exists>s2 s3 result s4.
         (case execution_guard d of None \<Rightarrow> s2 = s1
          | Some g \<Rightarrow> before_execute g r names s1 = (s2, Inr Execute)) \<and>
         executor d (req_context r) (req_invocation r) s2 = (s3, Inr result) \<and>
         apply_filter (output_filter d) result (req_context r) s3 = (s4, v) \<and>
         (case execution_guard d of None \<Rightarrow> True
          | Some g \<Rightarrow> is_ok (snd (after_execute g r (Succeeded v) s4)))))"
proof (cases rule: gate_loop_cases [of r "gates d" s])
  case (allowed s')
  then show ?thesis
    using assms
    by (auto simp: dispatch_def Let_def guard_and_execute_def execute_and_record_def
        record_outcome_def split: option.splits prod.splits sum.splits execution_decision.splits)
next
  case (stopped s' e out n dd)
  then have "refused (snd (snd (dispatch d r s)))"
    using gate_arm_refused by (simp add: dispatch_def Let_def)
  with assms show ?thesis by (simp add: refused_def)
qed


text \<open>Concrete dispatchers on a state that counts executor calls.\<close>

definition sample_gate_request :: gate_request where
  "sample_gate_request = \<lparr>
     req_context = \<lparr> ctx_tenant = 8, ctx_principal = 24, persona = None, ctx_session = None,
       room = None, ctx_task = None, workflow = None, authority = None \<rparr>,
     req_invocation = \<lparr> inv_tool = ''git'', inv_action = ''push'', inv_args = JNull \<rparr> \<rparr>"

definition allow_gate :: "string \<Rightarrow> nat gate" where
  "allow_gate n = \<lparr> gate_name = n, gate_check = (\<lambda>_ s. (s, Inr Allow)) \<rparr>"

definition counting_executor :: "nat executor" where
  "counting_executor ctx invocation s = (Suc s, Inr (inv_args invocation))"

definition deny_dispatcher :: "nat dispatcher" where
  "deny_dispatcher = \<lparr> gates = deny_gate_chain, executor = counting_executor,
     output_filter = None, execution_guard = None \<rparr>"

definition allow_dispatcher :: "nat dispatcher" where
  "allow_dispatcher = \<lparr> gates = map allow_gate CANONICAL_GATE_ORDER, executor = counting_executor,
     output_filter = None, execution_guard = None \<rparr>"

theorem dispatch_fail_closed_witness:
  "snd (snd (dispatch deny_dispatcher sample_gate_request 0)) =
     Inr (Denied ''pistis'' ''fail-closed: the pistis authority is unavailable'') \<and>
   dispatch (deny_dispatcher \<lparr> executor := deny_executor \<rparr>) sample_gate_request 0 =
   dispatch deny_dispatcher sample_gate_request 0"
proof -
  have "\<not> admits sample_gate_request (gates deny_dispatcher) 0"
    by (simp add: deny_dispatcher_def deny_gate_chain_def deny_gate_def CANONICAL_GATE_ORDER_def)
  note closed = dispatch_fail_closed [OF this, where ex = deny_executor and f = None and g' = None]
  have "before = []" if "gates deny_dispatcher = before @ g # after" "admits sample_gate_request before 0"
    for before g after
    using that by (cases before) (auto simp: deny_dispatcher_def deny_gate_chain_def deny_gate_def CANONICAL_GATE_ORDER_def)
  then show ?thesis
    using closed
    by (fastforce simp: deny_dispatcher_def deny_gate_chain_def deny_gate_def CANONICAL_GATE_ORDER_def state_after_def)
qed

theorem dispatch_canonical_chain_witness:
  "dispatcher_new (map allow_gate CANONICAL_GATE_ORDER) counting_executor = Inr allow_dispatcher \<and>
   gate_names allow_dispatcher = CANONICAL_GATE_ORDER \<and>
   snd (snd (dispatch allow_dispatcher sample_gate_request 0)) = Inr (Executed JNull)"
proof -
  have new: "dispatcher_new (map allow_gate CANONICAL_GATE_ORDER) counting_executor = Inr allow_dispatcher"
    by (simp add: dispatcher_new_def validate_chain_def allow_dispatcher_def allow_gate_def
        CANONICAL_GATE_ORDER_def)
  moreover have "gate_names allow_dispatcher = CANONICAL_GATE_ORDER"
    using dispatch_canonical_chain [where gs = "map allow_gate CANONICAL_GATE_ORDER"
        and ex = counting_executor and f = None and g = None] new
    by (auto simp: Let_def allow_dispatcher_def gate_names_def)
  moreover have "snd (snd (dispatch allow_dispatcher sample_gate_request 0)) = Inr (Executed JNull)"
    by (simp add: dispatch_def allow_dispatcher_def CANONICAL_GATE_ORDER_def allow_gate_def
        guard_and_execute_def execute_and_record_def counting_executor_def apply_filter_def
        record_outcome_def sample_gate_request_def)
  ultimately show ?thesis by blast
qed

theorem dispatch_result_filtered_witness:
  "admits sample_gate_request (gates allow_dispatcher) 0"
proof -
  have "snd (snd (dispatch allow_dispatcher sample_gate_request 0)) = Inr (Executed JNull)"
    by (simp add: dispatch_def allow_dispatcher_def CANONICAL_GATE_ORDER_def allow_gate_def
        guard_and_execute_def execute_and_record_def counting_executor_def apply_filter_def
        record_outcome_def sample_gate_request_def)
  from dispatch_result_filtered [OF this] show ?thesis by blast
qed


section \<open>The method cut at its await points\<close>

datatype 's pc =
    AtGate "string list" "'s gate list"
  | AtGuard "string list"
  | is_AtExecute: AtExecute
  | AtFilter json
  | AtRecord json
  | AtRecordFailure executor_error
  | AtMark executor_error
  | Done "dispatch_error + dispatch_outcome"

definition failed_with :: "gate_request \<Rightarrow> executor_error \<Rightarrow> axon_envelope list \<times> 's pc" where
  "failed_with r err = ([emit r (failed_event r err)], Done (Inl (Execution err)))"

definition completed_with :: "gate_request \<Rightarrow> json \<Rightarrow> axon_envelope list \<times> 's pc" where
  "completed_with r v = ([emit r (completed_event r)], Done (Inr (Executed v)))"

fun dispatch_step ::
    "'s dispatcher \<Rightarrow> gate_request \<Rightarrow> 's pc \<Rightarrow> 's \<Rightarrow> 's \<times> axon_envelope list \<times> 's pc" where
  "dispatch_step d r (AtGate allowed []) s = (s, [], AtGuard allowed)"
| "dispatch_step d r (AtGate allowed (g # gs)) s =
     (case gate_check g r s of
        (s', dec) \<Rightarrow>
          (case gate_arm r (gate_name g) dec of
             None \<Rightarrow> (s', [], AtGate (allowed @ [gate_name g]) gs)
           | Some (e, out) \<Rightarrow> (s', [emit r e], Done (Inr out))))"
| "dispatch_step d r (AtGuard allowed) s =
     (case execution_guard d of
        None \<Rightarrow> (s, [], AtExecute)
      | Some g \<Rightarrow>
          (case before_execute g r allowed s of
             (s', Inr Execute) \<Rightarrow> (s', [], AtExecute)
           | (s', Inr (Cached v)) \<Rightarrow> (s', completed_with r v)
           | (s', Inl err) \<Rightarrow> (s', failed_with r err)))"
| "dispatch_step d r AtExecute s =
     (case executor d (req_context r) (req_invocation r) s of
        (s', Inr v) \<Rightarrow> (s', [], AtFilter v)
      | (s', Inl err) \<Rightarrow> (s', [], AtRecordFailure err))"
| "dispatch_step d r (AtFilter v) s =
     (case apply_filter (output_filter d) v (req_context r) s of (s', w) \<Rightarrow> (s', [], AtRecord w))"
| "dispatch_step d r (AtRecord v) s =
     (case execution_guard d of
        None \<Rightarrow> (s, completed_with r v)
      | Some g \<Rightarrow>
          (case after_execute g r (Succeeded v) s of
             (s', Inr _) \<Rightarrow> (s', completed_with r v)
           | (s', Inl err) \<Rightarrow> (s', [], AtMark err)))"
| "dispatch_step d r (AtRecordFailure err) s =
     (case execution_guard d of
        None \<Rightarrow> (s, failed_with r err)
      | Some g \<Rightarrow>
          (case after_execute g r Failed s of
             (s', Inr _) \<Rightarrow> (s', failed_with r err)
           | (s', Inl guard_err) \<Rightarrow> (s', [], AtMark guard_err)))"
| "dispatch_step d r (AtMark err) s =
     (case execution_guard d of
        None \<Rightarrow> (s, failed_with r err)
      | Some g \<Rightarrow> (fst (mark_indeterminate g r s), failed_with r err))"
| "dispatch_step d r (Done res) s = (s, [], Done res)"

fun dispatch_run ::
    "nat \<Rightarrow> 's dispatcher \<Rightarrow> gate_request \<Rightarrow> 's pc \<Rightarrow> 's \<Rightarrow> 's \<times> axon_envelope list \<times> 's pc" where
  "dispatch_run 0 d r pc s = (s, [], pc)"
| "dispatch_run (Suc n) d r pc s =
     (let (s', es, pc') = dispatch_step d r pc s; (s'', es', pc'') = dispatch_run n d r pc' s'
      in (s'', es @ es', pc''))"

lemma dispatch_run_Done [simp]: "dispatch_run n d r (Done res) s = (s, [], Done res)"
  by (induction n) simp_all

definition finished ::
    "'s \<times> axon_envelope list \<times> (dispatch_error + dispatch_outcome) \<Rightarrow> 's \<times> axon_envelope list \<times> 's pc"
  where
  "finished out = (case out of (s, es, res) \<Rightarrow> (s, es, Done res))"

lemma dispatch_run_execute:
  "dispatch_run (Suc (Suc (Suc (Suc n)))) d r AtExecute s = finished (execute_and_record d r s)"
  by (auto simp: finished_def execute_and_record_def record_outcome_def failed_with_def
      completed_with_def Let_def split: prod.splits sum.splits option.splits)

lemma dispatch_run_guard:
  "dispatch_run (Suc (Suc (Suc (Suc (Suc n))))) d r (AtGuard allowed) s =
   finished (guard_and_execute d r allowed s)"
  unfolding guard_and_execute_def
  by (subst dispatch_run.simps)
    (auto simp: dispatch_run_execute finished_def failed_with_def completed_with_def Let_def
      simp del: dispatch_run.simps(2)
      split: prod.splits sum.splits option.splits execution_decision.splits)

lemma dispatch_run_gates:
  "dispatch_run (length gs + Suc (Suc (Suc (Suc (Suc (Suc n)))))) d r (AtGate allowed gs) s =
   (case gate_loop r allowed gs s of
      (s', Inl (e, out)) \<Rightarrow> (s', [emit r e], Done (Inr out))
    | (s', Inr names) \<Rightarrow> finished (guard_and_execute d r names s'))"
proof (induction gs arbitrary: allowed s)
  case Nil
  have "dispatch_run (Suc (Suc (Suc (Suc (Suc (Suc n)))))) d r (AtGate allowed []) s =
        dispatch_run (Suc (Suc (Suc (Suc (Suc n))))) d r (AtGuard allowed) s"
    by (subst dispatch_run.simps(2)) (simp del: dispatch_run.simps(2) add: Let_def split: prod.splits)
  then show ?case by (simp add: dispatch_run_guard del: dispatch_run.simps(2))
next
  case (Cons g gs)
  let ?n = "length gs + Suc (Suc (Suc (Suc (Suc (Suc n)))))"
  have "dispatch_run (Suc ?n) d r (AtGate allowed (g # gs)) s =
    (let (s', es, pc') = dispatch_step d r (AtGate allowed (g # gs)) s;
         (s'', es', pc'') = dispatch_run ?n d r pc' s' in (s'', es @ es', pc''))"
    by (rule dispatch_run.simps(2))
  then show ?case
    using Cons.IH
    by (auto simp: Let_def simp del: dispatch_run.simps(2) split: prod.splits option.splits)
qed

text \<open>
  The method always returns, and cutting it at its await points changes nothing: after
  at most six steps more than there are gates the steps have reached the result, state and events of
  \<open>dispatch\<close>.
\<close>

theorem dispatch_steps_agree:
  "dispatch_run (length (gates d) + 6 + n) d r (AtGate [] (gates d)) s =
   (case dispatch d r s of (s', events, res) \<Rightarrow> (s', tl events, Done res))"
proof -
  have "length (gates d) + 6 + n = length (gates d) + Suc (Suc (Suc (Suc (Suc (Suc n)))))"
    by simp
  then show ?thesis
    unfolding dispatch_def
    by (simp only: dispatch_run_gates)
      (auto simp: Let_def finished_def split: prod.splits sum.splits)
qed


section \<open>Requests in flight together\<close>

text \<open>
  \<open>executions\<close> logs the requests whose executor call was started. A request may arrive, advance by
  one step or be dropped (the client went away, or the process stopped) at any time, and the
  environment may change the shared state in between. \<open>valid\<close> says which requests can arrive: those
  whose fields have the values their Rust types allow.
\<close>

record 's config =
  shared :: 's
  tasks :: "(gate_request \<times> 's pc) list"
  executions :: "gate_request list"

inductive sys_step ::
    "'s dispatcher \<Rightarrow> (gate_request \<Rightarrow> bool) \<Rightarrow> ('s \<Rightarrow> 's \<Rightarrow> bool) \<Rightarrow> 's config \<Rightarrow> 's config \<Rightarrow> bool"
  for d :: "'s dispatcher" and valid :: "gate_request \<Rightarrow> bool" and env :: "'s \<Rightarrow> 's \<Rightarrow> bool" where
  arrive: "valid r \<Longrightarrow> sys_step d valid env c (c \<lparr> tasks := tasks c @ [(r, AtGate [] (gates d))] \<rparr>)"
| advance: "i < length (tasks c) \<Longrightarrow> tasks c ! i = (r, pc) \<Longrightarrow>
     dispatch_step d r pc (shared c) = (s', es, pc') \<Longrightarrow>
     sys_step d valid env c \<lparr> shared = s', tasks = (tasks c)[i := (r, pc')],
       executions = (if is_AtExecute pc then executions c @ [r] else executions c) \<rparr>"
| abandon: "sys_step d valid env c (c \<lparr> tasks := take i (tasks c) @ drop (Suc i) (tasks c) \<rparr>)"
| environment: "env (shared c) s' \<Longrightarrow> sys_step d valid env c (c \<lparr> shared := s' \<rparr>)"

inductive_cases sys_stepE: "sys_step d valid env c c'"

text \<open>A change of the shared state keeps the invariant and every claim.\<close>

definition keeps :: "('s \<Rightarrow> bool) \<Rightarrow> ('s \<Rightarrow> 'k \<Rightarrow> bool) \<Rightarrow> 's \<Rightarrow> 's \<Rightarrow> bool" where
  "keeps ok claimed s s' \<longleftrightarrow> (ok s \<longrightarrow> ok s' \<and> (\<forall>k. claimed s k \<longrightarrow> claimed s' k))"

lemma keeps_refl [simp]: "keeps ok claimed s s"
  by (simp add: keeps_def)

text \<open>A request may name a right (its retry key, its approval), or none.\<close>

definition count_key :: "(gate_request \<Rightarrow> 'k option) \<Rightarrow> 'k \<Rightarrow> gate_request list \<Rightarrow> nat" where
  "count_key key k rs = length (filter (\<lambda>r. key r = Some k) rs)"

definition at_execute :: "(gate_request \<Rightarrow> 'k option) \<Rightarrow> 'k \<Rightarrow> gate_request \<times> 's pc \<Rightarrow> bool" where
  "at_execute key k t = (is_AtExecute (snd t) \<and> key (fst t) = Some k)"

text \<open>
  What the dispatcher relies on from its guard, and from everything else that shares its state: a
  request is let through to the executor only with its claim established.
\<close>

locale claiming_dispatch =
  fixes d :: "'s dispatcher"
    and g :: "'s execution_guard"
    and valid :: "gate_request \<Rightarrow> bool"
    and env :: "'s \<Rightarrow> 's \<Rightarrow> bool"
    and inv :: "'s \<Rightarrow> bool"
    and claimed :: "'s \<Rightarrow> 'k \<Rightarrow> bool"
    and key :: "gate_request \<Rightarrow> 'k option"
  assumes guard: "execution_guard d = Some g"
    and gate_keeps: "x \<in> set (gates d) \<Longrightarrow> valid r \<Longrightarrow> keeps inv claimed s (fst (gate_check x r s))"
    and executor_keeps: "keeps inv claimed s (fst (executor d ctx invocation s))"
    and filter_keeps: "keeps inv claimed s (fst (apply_filter (output_filter d) v ctx s))"
    and before_keeps: "valid r \<Longrightarrow> keeps inv claimed s (fst (before_execute g r names s))"
    and after_keeps: "valid r \<Longrightarrow> keeps inv claimed s (fst (after_execute g r outcome s))"
    and mark_keeps: "valid r \<Longrightarrow> keeps inv claimed s (fst (mark_indeterminate g r s))"
    and env_keeps: "env s s' \<Longrightarrow> keeps inv claimed s s'"
    and execute_claims: "inv s \<Longrightarrow> valid r \<Longrightarrow> before_execute g r names s = (s', Inr Execute) \<Longrightarrow>
      key r = Some k \<Longrightarrow> claimed s' k"
begin

definition pc_ok :: "'s pc \<Rightarrow> bool" where
  "pc_ok pc = (case pc of AtGate _ gs \<Rightarrow> set gs \<subseteq> set (gates d) | _ \<Rightarrow> True)"

lemma step_keeps:
  "valid r \<Longrightarrow> pc_ok pc \<Longrightarrow> dispatch_step d r pc s = (s', es, pc') \<Longrightarrow> keeps inv claimed s s' \<and> pc_ok pc'"
  using gate_keeps [of _ r s] executor_keeps [of s "req_context r" "req_invocation r"]
    filter_keeps [of s _ "req_context r"] before_keeps [of r s] after_keeps [of r s]
    mark_keeps [of r s]
  by (cases "(d, r, pc, s)" rule: dispatch_step.cases)
    (auto simp: guard pc_ok_def failed_with_def completed_with_def
      split: prod.splits sum.splits option.splits execution_decision.splits; metis fst_conv)+

lemma step_to_execute:
  "dispatch_step d r pc s = (s', es, AtExecute) \<Longrightarrow>
   \<not> is_AtExecute pc \<and> (\<exists>names. before_execute g r names s = (s', Inr Execute))"
  by (cases "(d, r, pc, s)" rule: dispatch_step.cases)
    (auto simp: guard failed_with_def completed_with_def
      split: prod.splits sum.splits option.splits execution_decision.splits)

text \<open>Every request at the executor, or past its call, has its claim.\<close>

definition claims_inv :: "'s config \<Rightarrow> bool" where
  "claims_inv c \<longleftrightarrow> inv (shared c) \<and> (\<forall>t \<in> set (tasks c). valid (fst t) \<and> pc_ok (snd t)) \<and>
     (\<forall>r k. (r \<in> set (executions c) \<or> (r, AtExecute) \<in> set (tasks c)) \<longrightarrow> key r = Some k \<longrightarrow> claimed (shared c) k)"

lemma claims_inv_step: "sys_step d valid env c c' \<Longrightarrow> claims_inv c \<Longrightarrow> claims_inv c'"
proof (induction rule: sys_step.induct)
  case (arrive r c)
  then show ?case by (auto simp: claims_inv_def pc_ok_def)
next
  case (advance i c r pc s' es pc')
  have in_tasks: "(r, pc) \<in> set (tasks c)" using advance(1,2) by (metis nth_mem)
  then have I: "inv (shared c)" and v: "valid r" "pc_ok pc"
    using advance.prems by (auto simp: claims_inv_def)
  have K: "keeps inv claimed (shared c) s'" "pc_ok pc'" using step_keeps [OF v advance(3)] by auto
  have new: "claimed s' k" if "pc' = AtExecute" "key r = Some k" for k
    using step_to_execute [of r pc "shared c" s' es] advance(3) that execute_claims [OF I v(1)] by blast
  have old: "claimed s' k" if "(q \<in> set (executions c) \<or> (q, AtExecute) \<in> set (tasks c))" "key q = Some k" for q k
    using that advance.prems K(1) I by (auto simp: claims_inv_def keeps_def)
  have was: "pc = AtExecute \<Longrightarrow> key r = Some k \<Longrightarrow> claimed s' k" for k using old in_tasks by blast
  have sub: "t \<in> set (tasks c) \<or> t = (r, pc')" if "t \<in> set ((tasks c)[i := (r, pc')])" for t
    using that set_update_subset_insert [of "tasks c" i "(r, pc')"] by auto
  have "is_AtExecute pc \<Longrightarrow> pc = AtExecute" by (cases pc) auto
  with I K v new old was show ?case
    unfolding claims_inv_def keeps_def
    by (auto dest!: sub split: if_splits) (use advance.prems in \<open>auto simp: claims_inv_def\<close>)
next
  case (abandon c i)
  then show ?case by (auto simp: claims_inv_def dest: in_set_takeD in_set_dropD)
next
  case (environment c s')
  then show ?case using env_keeps [of "shared c" s'] by (auto simp: claims_inv_def keeps_def)
qed

lemma executed_claimed:
  assumes "(sys_step d valid env)\<^sup>*\<^sup>* \<lparr> shared = s, tasks = [], executions = [] \<rparr> c" and "inv s"
  shows "inv (shared c) \<and> (\<forall>r \<in> set (executions c). \<forall>k. key r = Some k \<longrightarrow> claimed (shared c) k)"
proof -
  have "claims_inv c"
    using assms(1)
  proof (induction rule: rtranclp_induct)
    case base
    then show ?case using assms(2) by (simp add: claims_inv_def)
  qed (rule claims_inv_step)
  then show ?thesis by (auto simp: claims_inv_def)
qed

end

text \<open>When moreover only one request can establish a claim, it is executed at most once.\<close>

locale guarded_dispatch = claiming_dispatch d g valid env inv claimed key
  for d :: "'s dispatcher" and g valid env inv and claimed :: "'s \<Rightarrow> 'k \<Rightarrow> bool" and key +
  assumes execute_fresh: "inv s \<Longrightarrow> valid r \<Longrightarrow> before_execute g r names s = (s', Inr Execute) \<Longrightarrow>
      key r = Some k \<Longrightarrow> \<not> claimed s k"
begin

text \<open>
  For every key: the executor calls made and about to be made. They need a claim that was not among
  the claims \<open>pre\<close> at the start.
\<close>

definition config_inv :: "('k \<Rightarrow> bool) \<Rightarrow> 's config \<Rightarrow> bool" where
  "config_inv pre c \<longleftrightarrow> inv (shared c) \<and> (\<forall>t \<in> set (tasks c). valid (fst t) \<and> pc_ok (snd t)) \<and>
     (\<forall>k. (pre k \<longrightarrow> claimed (shared c) k) \<and>
       count_key key k (executions c) + length (filter (at_execute key k) (tasks c))
        \<le> (if claimed (shared c) k \<and> \<not> pre k then 1 else 0))"

lemma advance_bound:
  assumes inv: "inv s" "valid r" and "dispatch_step d r pc s = (s', es, pc')"
    and i: "i < length ts" "ts ! i = (r, pc)"
    and pre: "pre k \<longrightarrow> claimed s k" and mono: "claimed s k \<longrightarrow> claimed s' k"
    and old: "count_key key k rs + length (filter (at_execute key k) ts)
      \<le> (if claimed s k \<and> \<not> pre k then 1 else 0)"
  shows "count_key key k (if is_AtExecute pc then rs @ [r] else rs)
      + length (filter (at_execute key k) (ts[i := (r, pc')]))
      \<le> (if claimed s' k \<and> \<not> pre k then 1 else 0)"
proof -
  let ?n = "length (filter (at_execute key k) ts)"
  let ?n' = "length (filter (at_execute key k) (ts[i := (r, pc')]))"
  have upd: "?n' + (if is_AtExecute pc \<and> key r = Some k then 1 else 0) =
      ?n + (if is_AtExecute pc' \<and> key r = Some k then 1 else 0)"
    using length_filter_update [of i ts "at_execute key k" "(r, pc')"] i
    by (simp add: at_execute_def)
  have cnt: "count_key key k (rs @ [r]) = count_key key k rs + (if key r = Some k then 1 else 0)"
    by (simp add: count_key_def)
  have claims: "is_AtExecute pc' \<Longrightarrow>
      \<not> is_AtExecute pc \<and> (key r = Some k \<longrightarrow> \<not> claimed s k \<and> claimed s' k)"
    using step_to_execute [of r pc s s' es] execute_claims [OF inv] execute_fresh [OF inv] assms(3)
    by (cases pc') auto
  show ?thesis
    using old upd cnt claims mono pre
    by (cases "is_AtExecute pc"; cases "is_AtExecute pc'"; cases "key r = Some k")
      (simp_all del: length_0_conv split: if_splits)
qed

lemma config_inv_step: "sys_step d valid env c c' \<Longrightarrow> config_inv pre c \<Longrightarrow> config_inv pre c'"
proof (induction rule: sys_step.induct)
  case (arrive c r)
  then show ?case by (auto simp: config_inv_def pc_ok_def at_execute_def)
next
  case (advance i c r pc s' es pc')
  then have I: "inv (shared c)" and v: "valid r" "pc_ok pc"
    unfolding config_inv_def by (metis, metis fst_conv nth_mem, metis nth_mem snd_conv)
  with advance(3) have K: "keeps inv claimed (shared c) s'" "pc_ok pc'"
    using step_keeps [OF v] by blast+
  note bound = advance_bound [OF I v(1) advance(3,1,2)]
  have "valid (fst t) \<and> pc_ok (snd t)" if "t \<in> set ((tasks c)[i := (r, pc')])" for t
    using that advance.prems K(2) v(1) set_update_subset_insert [of "tasks c" i "(r, pc')"]
    by (auto simp: config_inv_def)
  then show ?case
    using advance.prems K(1) I bound unfolding config_inv_def keeps_def by simp
next
  case (abandon c i)
  have "count_key key k (executions c)
      + length (filter (at_execute key k) (take i (tasks c) @ drop (Suc i) (tasks c)))
      \<le> (if claimed (shared c) k \<and> \<not> pre k then 1 else 0)" for k
    using abandon length_filter_drop_nth [of "at_execute key k" i "tasks c"]
    unfolding config_inv_def by (meson add_left_mono order_trans)
  with abandon show ?case
    unfolding config_inv_def by (auto dest: in_set_takeD in_set_dropD)
next
  case (environment c s')
  then have K: "inv s'" "\<And>k. claimed (shared c) k \<Longrightarrow> claimed s' k"
    using env_keeps [of "shared c" s'] by (auto simp: config_inv_def keeps_def)
  have "count_key key k (executions c) + length (filter (at_execute key k) (tasks c))
      \<le> (if claimed s' k \<and> \<not> pre k then 1 else 0)" for k
  proof -
    have "(if claimed (shared c) k \<and> \<not> pre k then 1 else 0) \<le> (if claimed s' k \<and> \<not> pre k then 1 else (0::nat))"
      using K(2) [of k] by simp
    then show ?thesis using environment.prems unfolding config_inv_def by (meson order_trans)
  qed
  with environment K show ?case unfolding config_inv_def by auto
qed

text \<open>From no requests in flight, in any interleaving, the executor is started at most once per key.\<close>

lemma config_inv_reachable: "(sys_step d valid env)\<^sup>*\<^sup>* c c' \<Longrightarrow> config_inv pre c \<Longrightarrow> config_inv pre c'"
  by (induction rule: rtranclp_induct) (auto intro: config_inv_step)

lemma executed_at_most_once:
  assumes "(sys_step d valid env)\<^sup>*\<^sup>* \<lparr> shared = s, tasks = [], executions = [] \<rparr> c" and "inv s"
  shows "count_key key k (executions c) \<le> (if claimed s k then 0 else 1)"
proof -
  have "config_inv (claimed s) c"
    using assms by (intro config_inv_reachable [OF assms(1)]) (auto simp: config_inv_def count_key_def)
  then have "count_key key k (executions c) \<le> (if claimed (shared c) k \<and> \<not> claimed s k then 1 else 0)"
    unfolding config_inv_def by (meson add_leD1)
  then show ?thesis by (auto split: if_splits)
qed

end

text \<open>
  What a single gate establishes of the requests it lets through holds of every request that was
  executed, in any interleaving.
\<close>

locale gate_establishes =
  fixes d :: "'s dispatcher"
    and g :: "'s gate"
    and Q :: "gate_request \<Rightarrow> bool"
  assumes gate_in: "g \<in> set (gates d)"
    and allow_only: "gate_check g r s = (s', Inr Allow) \<Longrightarrow> Q r"
begin

definition passed :: "gate_request \<times> 's pc \<Rightarrow> bool" where
  "passed t = (case snd t of AtGate _ gs \<Rightarrow> g \<notin> set gs \<longrightarrow> Q (fst t) | Done _ \<Rightarrow> True | _ \<Rightarrow> Q (fst t))"

lemma passed_step: "passed (r, pc) \<Longrightarrow> dispatch_step d r pc s = (s', es, pc') \<Longrightarrow> passed (r, pc')"
  using allow_only [of r s]
  by (cases "(d, r, pc, s)" rule: dispatch_step.cases)
    (auto simp: passed_def failed_with_def completed_with_def
      split: prod.splits sum.splits option.splits execution_decision.splits if_splits)

lemma passed_sys_step:
  "sys_step d valid env c c' \<Longrightarrow> (\<forall>t \<in> set (tasks c). passed t) \<and> (\<forall>r \<in> set (executions c). Q r) \<Longrightarrow>
   (\<forall>t \<in> set (tasks c'). passed t) \<and> (\<forall>r \<in> set (executions c'). Q r)"
proof (induction rule: sys_step.induct)
  case (arrive c r)
  then show ?case using gate_in by (auto simp: passed_def)
next
  case (advance i c r pc s' es pc')
  then have p: "passed (r, pc)" by (metis nth_mem)
  then have "passed (r, pc')" using passed_step advance(3) by blast
  moreover have "Q r" if "is_AtExecute pc" using p that by (cases pc) (auto simp: passed_def)
  ultimately show ?case
    using advance.prems set_update_subset_insert [of "tasks c" i "(r, pc')"] by auto
next
  case (abandon c i)
  then show ?case by (auto dest: in_set_takeD in_set_dropD)
next
  case (environment c s')
  then show ?case by simp
qed

lemma executed_passed:
  assumes "(sys_step d valid env)\<^sup>*\<^sup>* \<lparr> shared = s, tasks = [], executions = [] \<rparr> c"
  shows "\<forall>r \<in> set (executions c). Q r"
proof -
  have "(\<forall>t \<in> set (tasks c). passed t) \<and> (\<forall>r \<in> set (executions c). Q r)"
    using assms
  proof (induction rule: rtranclp_induct)
    case (step c' c'')
    show ?case by (rule passed_sys_step [OF step.hyps(2) step.IH])
  qed simp
  then show ?thesis by blast
qed

end

end
