(* ===== verification/Policy.thy ===== *)
theory Policy
  imports Contracts
begin

text \<open>
  The server-owned policies the authority layer consults: the role and permission matrix of
  \<open>henosis-plutus/src/rbac.rs\<close> and the human-approval policy of \<open>henosis-rift/src/gate.rs\<close> with its
  blocking \<open>HumanGate\<close>. The approver and the event bus are trait objects: the approver is a function
  on the shared state, the notification is part of the result.
\<close>

section \<open>Roles and permissions\<close>

datatype role = Owner | Admin | Member | Viewer | Billing

datatype permission =
    OrgRead | AgentExecute | TaskSubmit | ToolInvoke | MemoryStore | MemorySearch | SecretRead
  | BillingManage | OrgDelete

fun role_as_str :: "role \<Rightarrow> string" where
  "role_as_str Owner = ''owner''"
| "role_as_str Admin = ''admin''"
| "role_as_str Member = ''member''"
| "role_as_str Viewer = ''viewer''"
| "role_as_str Billing = ''billing''"

definition role_from_str :: "string \<Rightarrow> string + role" where
  "role_from_str s =
     (if s = ''owner'' then Inr Owner
      else if s = ''admin'' then Inr Admin
      else if s = ''member'' then Inr Member
      else if s = ''viewer'' then Inr Viewer
      else if s = ''billing'' then Inr Billing
      else Inl s)"

fun can :: "role \<Rightarrow> permission \<Rightarrow> bool" where
  "can Viewer OrgRead = True"
| "can Viewer MemorySearch = True"
| "can Member OrgRead = True"
| "can Member MemorySearch = True"
| "can Member AgentExecute = True"
| "can Member TaskSubmit = True"
| "can Member ToolInvoke = True"
| "can Member MemoryStore = True"
| "can Admin OrgRead = True"
| "can Admin MemorySearch = True"
| "can Admin AgentExecute = True"
| "can Admin TaskSubmit = True"
| "can Admin ToolInvoke = True"
| "can Admin MemoryStore = True"
| "can Admin SecretRead = True"
| "can Admin OrgDelete = True"
| "can Owner _ = True"
| "can Billing BillingManage = True"
| "can _ _ = False"

text \<open>The additive order the module documents; billing stands beside it, below the owner only.\<close>

fun role_rank :: "role \<Rightarrow> nat" where
  "role_rank Viewer = 0" | "role_rank Member = 1" | "role_rank Admin = 2" | "role_rank Owner = 3"
| "role_rank Billing = 0"

definition outranks :: "role \<Rightarrow> role \<Rightarrow> bool" where
  "outranks r s \<longleftrightarrow> r = s \<or> r = Owner \<or> (r \<noteq> Billing \<and> s \<noteq> Billing \<and> role_rank s \<le> role_rank r)"

text \<open>
  The permission matrix is the documented hierarchy and nothing more: a role holds
  every permission of the roles below it, billing is separated from execution (no role other than
  the owner both manages billing and invokes tools), secrets are read by owners and administrators
  only, and the stored role names read back as the role they were written for.
\<close>

theorem permission_hierarchy:
  "(\<forall>r s. outranks r s = (\<forall>p. can s p \<longrightarrow> can r p)) \<and>
   (\<forall>r. can r BillingManage \<and> can r ToolInvoke \<longrightarrow> r = Owner) \<and>
   (\<forall>r. can r SecretRead = (r = Owner \<or> r = Admin)) \<and>
   (\<forall>t r. role_from_str t = Inr r \<longleftrightarrow> t = role_as_str r)"
proof -
  have ranks: "outranks r s = (\<forall>p. can s p \<longrightarrow> can r p)" for r s
  proof
    show "\<forall>p. can s p \<longrightarrow> can r p" if "outranks r s"
    proof
      fix p show "can s p \<longrightarrow> can r p"
        using that by (cases r; cases s; cases p) (simp_all add: outranks_def)
    qed
    show "outranks r s" if "\<forall>p. can s p \<longrightarrow> can r p"
      using that [THEN spec, of BillingManage] that [THEN spec, of OrgRead]
        that [THEN spec, of ToolInvoke] that [THEN spec, of SecretRead]
      by (cases r; cases s) (simp_all add: outranks_def)
  qed
  have "can r BillingManage \<and> can r ToolInvoke \<longrightarrow> r = Owner" for r by (cases r) simp_all
  moreover have "can r SecretRead = (r = Owner \<or> r = Admin)" for r by (cases r) simp_all
  moreover have "role_from_str t = Inr r \<longleftrightarrow> t = role_as_str r" for t r
    by (cases r) (auto simp: role_from_str_def)
  ultimately show ?thesis using ranks by blast
qed

theorem permission_hierarchy_witness:
  "can Member MemorySearch \<and> role_from_str ''admin'' = Inr Admin"
  using permission_hierarchy by (auto simp: role_from_str_def)


section \<open>Which operations need a human\<close>

text \<open>The pairs of the \<open>matches!\<close>: operations reviewed as read-only.\<close>

definition reviewed_reads :: "(string \<times> string) list" where
  "reviewed_reads =
     [(''henosis'', ''probe''), (''gcal'', ''list_events''),
      (''gdrive'', ''list''), (''gdrive'', ''download''), (''gdrive'', ''get_metadata''),
      (''github'', ''get_issue''), (''github'', ''list_issues''), (''github'', ''list_prs''),
      (''github'', ''search_code''), (''github'', ''list_repos''),
      (''gmail'', ''read''), (''gmail'', ''search''), (''gmail'', ''list_labels''),
      (''linear'', ''list_issues''), (''linear'', ''search''),
      (''notion'', ''get_page''), (''notion'', ''search'')]"

definition requires_human_approval :: "tool_invocation \<Rightarrow> bool" where
  "requires_human_approval i = ((inv_tool i, inv_action i) \<notin> set reviewed_reads)"

definition MAX_APPROVAL_IDENTIFIER_BYTES :: nat where
  "MAX_APPROVAL_IDENTIFIER_BYTES = 64"

definition approval_identifier :: "string \<Rightarrow> string option" where
  "approval_identifier value =
     (if value = [] \<or> length value > MAX_APPROVAL_IDENTIFIER_BYTES \<or>
         \<not> list_all (\<lambda>c. is_ascii_alphanumeric c \<or> c \<in> set ''._-'') value
      then None else Some value)"

definition approval_prompt :: "tool_invocation \<Rightarrow> string" where
  "approval_prompt i =
     (case (approval_identifier (inv_tool i), approval_identifier (inv_action i)) of
        (Some tool, Some action) \<Rightarrow>
          ''Approve '' @ tool @ ''.'' @ action @ '' for this authenticated principal?''
      | _ \<Rightarrow> ''Approve an unrecognized authenticated operation?'')"

text \<open>Whatever the caller names its tool and action, the prompt fits the approval store's limit.\<close>

lemma approval_prompt_bounds: "0 < length (approval_prompt i) \<and> length (approval_prompt i) \<le> 171"
  by (auto simp: approval_prompt_def approval_identifier_def MAX_APPROVAL_IDENTIFIER_BYTES_def
      split: option.splits if_splits)

lemma prompt_alphabet:
  "approval_identifier v = Some t \<Longrightarrow> c \<in> set t \<Longrightarrow> is_ascii_alphanumeric c \<or> c \<in> set ''._-''"
  by (auto simp: approval_identifier_def list_all_iff split: if_splits)


section \<open>The blocking human gate\<close>

datatype human_decision = Approved | Denied string | TimedOut

record human_request =
  hr_approval_id :: string
  hr_prompt :: string
  hr_tool :: string
  hr_action :: string

definition HUMAN_CHANNEL :: string where
  "HUMAN_CHANNEL = ''human''"

definition human_answer :: "human_decision \<Rightarrow> gate_decision" where
  "human_answer d =
     (case d of
        Approved \<Rightarrow> Allow
      | Denied reason \<Rightarrow> Deny (''human denied: '' @ reason)
      | TimedOut \<Rightarrow> Deny ''human approval timed out'')"

definition human_request_of :: "uuid_lib \<Rightarrow> uuid \<Rightarrow> gate_request \<Rightarrow> human_request" where
  "human_request_of U uid r =
     \<lparr> hr_approval_id = uuid_text U uid, hr_prompt = approval_prompt (req_invocation r),
       hr_tool = inv_tool (req_invocation r), hr_action = inv_action (req_invocation r) \<rparr>"

text \<open>
  \<open>HumanGate::check\<close>. \<open>publish\<close> is the bus, whose result is only logged, \<open>fresh\<close> draws the correlation
  identifier and \<open>await\<close> is the injected approver.
\<close>

definition human_gate_check ::
    "uuid_lib \<Rightarrow> ('s \<Rightarrow> 's \<times> uuid) \<Rightarrow> (human_request \<Rightarrow> uuid \<Rightarrow> uuid \<Rightarrow> 's \<Rightarrow> 's) \<Rightarrow>
     (human_request \<Rightarrow> 's \<Rightarrow> 's \<times> human_decision) \<Rightarrow> gate_request \<Rightarrow> 's \<Rightarrow>
     's \<times> (gate_error + gate_decision)" where
  "human_gate_check U fresh publish await r s =
     (if \<not> requires_human_approval (req_invocation r) then (s, Inr Allow)
      else case fresh s of (s1, uid) \<Rightarrow>
        let request = human_request_of U uid r in
        case await request (publish request (ctx_tenant (req_context r)) (ctx_principal (req_context r)) s1) of
          (s2, d) \<Rightarrow> (s2, Inr (human_answer d)))"

text \<open>
  The human gate is fail-closed: it allows exactly the reviewed reads, without asking
  and without a notification, and the requests the approver explicitly approved; every other answer,
  a time-out included, is a denial, it never fails, and the prompt it shows is bounded and built from
  the operation's names alone, whatever the arguments contain.
\<close>

theorem human_gate_fail_closed:
  assumes "fresh s = (s1, uid)" and "request = human_request_of U uid r"
    and "await request (publish request (ctx_tenant (req_context r)) (ctx_principal (req_context r)) s1) = (s2, d)"
  shows "(snd (human_gate_check U fresh publish await r s) = Inr Allow \<longleftrightarrow>
        \<not> requires_human_approval (req_invocation r) \<or> d = Approved) \<and>
    (snd (human_gate_check U fresh publish await r s) = Inr Allow \<or>
      (\<exists>reason. snd (human_gate_check U fresh publish await r s) = Inr (Deny reason))) \<and>
    fst (human_gate_check U fresh publish await r s) =
      (if requires_human_approval (req_invocation r) then s2 else s) \<and>
    length (hr_prompt request) \<le> 171 \<and>
    hr_prompt (human_request_of U uid (r \<lparr> req_invocation := (req_invocation r) \<lparr> inv_args := args \<rparr> \<rparr>)) =
      hr_prompt request"
  using assms approval_prompt_bounds [of "req_invocation r"]
  by (auto simp: human_gate_check_def human_answer_def human_request_of_def Let_def approval_prompt_def
      split: human_decision.splits)

end
