(* ===== verification/Authority.thy ===== *)
theory Authority
  imports Witnessed Dispatch Policy
begin

text \<open>
  The authority layer of \<open>syntheos-server/src/authority.rs\<close> around the dispatcher: the canonical request
  envelope, the durable human gate, the structural phylaxd gate and the execution guard that binds
  approvals to the audit ledger. The shared state is the \<open>world\<close> of the witnessed boundary; every
  clock reading, fresh identifier and witness exchange may let other requests act first.

  The guard is an instance of \<open>guarded_dispatch\<close> twice over: once for the retry key, whose claim in
  the execution ledger is taken before the executor runs, and once for the approval, which is
  consumed before it runs. The properties about interleaved requests rest on these instances.
\<close>

section \<open>Constants and identifiers\<close>

definition APPROVAL_POLICY_VERSION :: string where
  "APPROVAL_POLICY_VERSION = ''henosis-public-beta-v1''"

definition APPROVAL_TTL_SECONDS :: int where
  "APPROVAL_TTL_SECONDS = 15 * 60"

text \<open>Addition of \<open>i64\<close> values in a release build.\<close>

definition i64_add :: "int \<Rightarrow> int \<Rightarrow> int" where
  "i64_add a b = (a + b + 2 ^ 63) mod 2 ^ 64 - 2 ^ 63"

lemma i64_add_exact: "i64_range (a + b) \<Longrightarrow> i64_add a b = a + b"
  by (simp add: i64_add_def i64_range_def)

definition identifier_char :: "char \<Rightarrow> bool" where
  "identifier_char c = (is_ascii_alphanumeric c \<or> c \<in> set ''_-.:'')"

definition MAX_IDEMPOTENCY_KEY_BYTES :: nat where
  "MAX_IDEMPOTENCY_KEY_BYTES = 128"

definition valid_idempotency_key :: "string \<Rightarrow> bool" where
  "valid_idempotency_key v \<longleftrightarrow> v \<noteq> [] \<and> length v \<le> MAX_IDEMPOTENCY_KEY_BYTES \<and> list_all identifier_char v"

definition valid_name :: "string \<Rightarrow> bool" where
  "valid_name v \<longleftrightarrow> v \<noteq> [] \<and> length v \<le> 128 \<and> list_all identifier_char v"

datatype authority_error =
    Authentication | Forbidden | InvalidRequest string | NotFound | StateConflict | Unavailable

text \<open>The status and the stable code of a failure.\<close>

fun authority_status :: "authority_error \<Rightarrow> nat \<times> string" where
  "authority_status Authentication = (401, ''authentication_failed'')"
| "authority_status Forbidden = (403, ''forbidden'')"
| "authority_status (InvalidRequest _) = (422, ''invalid_request'')"
| "authority_status NotFound = (404, ''not_found'')"
| "authority_status StateConflict = (409, ''state_conflict'')"
| "authority_status Unavailable = (503, ''authority_unavailable'')"

text \<open>\<open>now\<close> is the system time in whole seconds since the epoch, negative before it.\<close>

definition unix_seconds_from :: "int \<Rightarrow> authority_error + int" where
  "unix_seconds_from now = (if now < 0 then Inl Unavailable else if 2 ^ 63 \<le> now then Inl Unavailable else Inr now)"

definition now_seconds :: "'x system \<Rightarrow> 'x world \<Rightarrow> 'x world \<times> (authority_error + int)" where
  "now_seconds S w = (case sy_clock S w of (w1, raw) \<Rightarrow> (w1, unix_seconds_from raw))"


section \<open>The canonical request envelope\<close>

definition json_opt :: "string option \<Rightarrow> json" where
  "json_opt m = (case m of None \<Rightarrow> JNull | Some s \<Rightarrow> JString s)"

definition canonical_request_envelope :: "uuid_lib \<Rightarrow> gate_request \<Rightarrow> json" where
  "canonical_request_envelope U r =
     (let c = req_context r; i = req_invocation r; a = authority c in
      JObject (btree_collect
        [(''tenant'', JString (uuid_text U (ctx_tenant c))),
         (''principal'', JString (uuid_text U (ctx_principal c))),
         (''token_identity'', json_opt (map_option token_identity a)),
         (''idempotency_key'', json_opt (map_option idempotency_key a)),
         (''tool'', JString (inv_tool i)),
         (''action'', JString (inv_action i)),
         (''args'', inv_args i),
         (''persona'', json_opt (persona c)),
         (''session'', json_opt (ctx_session c)),
         (''room'', json_opt (room c)),
         (''workflow'', json_opt (workflow c))]))"

definition envelope_hash :: "'x system \<Rightarrow> gate_request \<Rightarrow> approval_error + bytes" where
  "envelope_hash S r = canonical_request_hash (al_sha256 (sy_lib S)) (al_serde (sy_lib S))
     (canonical_request_envelope (sy_uuid S) r)"

definition approval_matches :: "approval \<Rightarrow> gate_request \<Rightarrow> authority_context \<Rightarrow> bytes \<Rightarrow> bool" where
  "approval_matches a r auth h \<longleftrightarrow>
     ap_tenant a = ctx_tenant (req_context r) \<and> ap_principal a = ctx_principal (req_context r) \<and>
     ap_token_identity a = token_identity auth \<and> ap_tool a = inv_tool (req_invocation r) \<and>
     ap_action a = inv_action (req_invocation r) \<and> ap_request_hash a = h \<and>
     ap_policy_version a = APPROVAL_POLICY_VERSION"


section \<open>The durable human gate\<close>

definition on_approvals :: "(approval_db \<Rightarrow> approval_db \<times> 'r) \<Rightarrow> 'x world \<Rightarrow> 'x world \<times> 'r" where
  "on_approvals f w = (case f (w_approvals w) of (db, r) \<Rightarrow> (w \<lparr> w_approvals := db \<rparr>, r))"

text \<open>\<open>ApprovalStore::get\<close> reads the clock itself.\<close>

definition lookup_approval ::
    "'x system \<Rightarrow> uuid \<Rightarrow> uuid \<Rightarrow> 'x world \<Rightarrow> 'x world \<times> (approval_error + approval option)" where
  "lookup_approval S tenant uid w =
     (case sy_clock S w of (w1, clock) \<Rightarrow> (w1, get_approval (sy_uuid S) tenant uid clock (w_approvals w1)))"

definition gate_err :: "approval_error + 'a \<Rightarrow> gate_error + 'a" where
  "gate_err r = (case r of Inl e \<Rightarrow> Inl (error_text e) | Inr x \<Rightarrow> Inr x)"

definition new_approval_request ::
    "gate_request \<Rightarrow> authority_context \<Rightarrow> bytes \<Rightarrow> int \<Rightarrow> approval_request" where
  "new_approval_request r auth h now =
     \<lparr> ar_tenant = ctx_tenant (req_context r), ar_principal = ctx_principal (req_context r),
       ar_token_identity = token_identity auth, ar_tool = inv_tool (req_invocation r),
       ar_action = inv_action (req_invocation r), ar_request_hash = h,
       ar_prompt = approval_prompt (req_invocation r), ar_policy_version = APPROVAL_POLICY_VERSION,
       ar_created_at = now, ar_expires_at = i64_add now APPROVAL_TTL_SECONDS \<rparr>"

definition approval_for_request ::
    "'x system \<Rightarrow> gate_request \<Rightarrow> authority_context \<Rightarrow> bytes \<Rightarrow> int \<Rightarrow> 'x world \<Rightarrow>
     'x world \<times> (gate_error + approval)" where
  "approval_for_request S r auth h now w =
     (case approval_id auth of
        Some text \<Rightarrow>
          (case parse_str (sy_uuid S) text of
             None \<Rightarrow> (w, Inl ''invalid approval id'')
           | Some uid \<Rightarrow>
               and_then (map_prod id gate_err (lookup_approval S (ctx_tenant (req_context r)) uid w))
                 (\<lambda>found w. case found of
                    None \<Rightarrow> (w, Inl ''approval not found'')
                  | Some a \<Rightarrow>
                      if \<not> approval_matches a r auth h then (w, Inl ''approval binding mismatch'')
                      else if (ap_status a = Pending \<or> ap_status a = approval_status.Approved) \<and> ap_expires_at a \<le> now
                      then and_then (map_prod id gate_err
                               (on_approvals (expire (sy_uuid S) (ctx_tenant (req_context r)) now) w))
                             (\<lambda>_ w. (w, Inr (a \<lparr> ap_status := Expired \<rparr>)))
                      else (w, Inr a)))
      | None \<Rightarrow>
          (case sy_new_v4 S w of (w1, fresh) \<Rightarrow>
             map_prod id gate_err
               (on_approvals (create_or_get_pending (sy_uuid S) fresh (new_approval_request r auth h now) now) w1)))"

definition approval_answer :: "uuid_lib \<Rightarrow> authority_context \<Rightarrow> approval \<Rightarrow> gate_decision" where
  "approval_answer U auth a =
     (let supplied = (approval_id auth = Some (uuid_text U (ap_id a))) in
      case ap_status a of
        approval_status.Approved \<Rightarrow>
          if supplied then Allow else RequireApproval (ap_prompt a) (Some (uuid_text U (ap_id a)))
      | Pending \<Rightarrow> RequireApproval (ap_prompt a) (Some (uuid_text U (ap_id a)))
      | approval_status.Denied \<Rightarrow> gate_decision.Deny ''approval was denied''
      | Expired \<Rightarrow> gate_decision.Deny ''approval expired''
      | Consumed \<Rightarrow> if supplied then Allow else gate_decision.Deny ''approval was already consumed'')"

definition durable_human_check ::
    "'x system \<Rightarrow> gate_request \<Rightarrow> 'x world \<Rightarrow> 'x world \<times> (gate_error + gate_decision)" where
  "durable_human_check S r w =
     (if \<not> requires_human_approval (req_invocation r) then (w, Inr Allow)
      else case authority (req_context r) of
        None \<Rightarrow> (w, Inl ''authenticated authority context is required'')
      | Some auth \<Rightarrow>
          (case gate_err (envelope_hash S r) of
             Inl e \<Rightarrow> (w, Inl e)
           | Inr h \<Rightarrow>
               (case now_seconds S w of
                  (w1, Inl _) \<Rightarrow> (w1, Inl ''authority clock unavailable'')
                | (w1, Inr now) \<Rightarrow>
                    and_then (approval_for_request S r auth h now w1)
                      (\<lambda>a w. (w, Inr (approval_answer (sy_uuid S) auth a))))))"

definition durable_human_gate :: "'x system \<Rightarrow> 'x world gate" where
  "durable_human_gate S = \<lparr> gate_name = ''human'', gate_check = durable_human_check S \<rparr>"


section \<open>The phylaxd gate\<close>

text \<open>\<open>Value::get(key).and_then(Value::as_str)\<close>: a string entry of an object.\<close>

definition str_entry :: "string \<Rightarrow> json \<Rightarrow> string option" where
  "str_entry key v =
     (case v of
        JObject es \<Rightarrow> (case map_of es key of Some (JString s) \<Rightarrow> Some s | _ \<Rightarrow> None)
      | _ \<Rightarrow> None)"

definition phylaxd_check ::
    "uuid_lib \<Rightarrow> gate_request \<Rightarrow> 's \<Rightarrow> 's \<times> (gate_error + gate_decision)" where
  "phylaxd_check U r s =
     (s, Inr (
       if inv_tool (req_invocation r) \<noteq> ''phylaxd'' then Allow
       else if inv_action (req_invocation r) \<notin> {''sign'', ''verify'', ''derive'', ''exec''}
       then gate_decision.Deny ''unsupported credential broker operation''
       else
         let category = str_entry ''category'' (inv_args (req_invocation r));
             name = str_entry ''name'' (inv_args (req_invocation r)) in
         if \<not> (case category of Some v \<Rightarrow> valid_name v | None \<Rightarrow> False)
            \<or> \<not> (case name of Some v \<Rightarrow> valid_name v | None \<Rightarrow> False)
         then gate_decision.Deny ''credential slot identifiers are invalid''
         else if name \<noteq> Some (uuid_text U (ctx_tenant (req_context r)))
         then gate_decision.Deny ''credential slot does not belong to the authenticated tenant''
         else Allow))"

definition phylaxd_gate :: "uuid_lib \<Rightarrow> 's gate" where
  "phylaxd_gate U = \<lparr> gate_name = ''phylaxd'', gate_check = phylaxd_check U \<rparr>"


section \<open>The execution guard\<close>

definition audit_executor_error :: "audit_error \<Rightarrow> executor_error" where
  "audit_executor_error e =
     (if e = IdempotencyConflict
      then executor_error_conflict ''idempotency key conflicts with an earlier request''
      else executor_error_new ''audit execution boundary unavailable'')"

definition audit_err :: "'w \<times> (audit_error + 'a) \<Rightarrow> 'w \<times> (executor_error + 'a)" where
  "audit_err m = (case m of (w, Inl e) \<Rightarrow> (w, Inl (audit_executor_error e)) | (w, Inr x) \<Rightarrow> (w, Inr x))"

definition event_input ::
    "uuid_lib \<Rightarrow> gate_request \<Rightarrow> audit_phase \<Rightarrow> json \<Rightarrow> audit_error + audit_event_input" where
  "event_input U r phase payload =
     (case authority (req_context r) of
        None \<Rightarrow> Inl (audit_error.InvalidInput ''authenticated authority context is required'')
      | Some auth \<Rightarrow> Inr
          \<lparr> in_tenant_id = uuid_text U (ctx_tenant (req_context r)),
            in_principal_id = uuid_text U (ctx_principal (req_context r)),
            in_action = inv_tool (req_invocation r) @ ''.'' @ inv_action (req_invocation r),
            in_phase = phase, in_request = canonical_request_envelope U r, in_payload = payload,
            in_idempotency_key = Some (idempotency_key auth) \<rparr>)"

definition intent_payload ::
    "audit_boundary \<Rightarrow> gate_request \<Rightarrow> authority_context \<Rightarrow> string list \<Rightarrow> json" where
  "intent_payload B r auth allowed_gates = JObject (btree_collect
     [(''tool'', JString (inv_tool (req_invocation r))),
      (''operation'', JString (inv_action (req_invocation r))),
      (''gates'', JArray (map JString allowed_gates)),
      (''approval_id'', json_opt (approval_id auth)),
      (''token_identity'', JString (token_identity auth)),
      (''witness_mode'', JString (if is_witnessed B then ''required'' else ''local''))])"

definition execution_outcome_payload :: "gate_request \<Rightarrow> string \<Rightarrow> json" where
  "execution_outcome_payload r outcome = JObject (btree_collect
     [(''tool'', JString (inv_tool (req_invocation r))),
      (''operation'', JString (inv_action (req_invocation r))),
      (''outcome'', JString outcome)])"

definition append_event ::
    "'x system \<Rightarrow> audit_boundary \<Rightarrow> gate_request \<Rightarrow> audit_phase \<Rightarrow> json \<Rightarrow> 'x world \<Rightarrow>
     'x world \<times> (audit_error + unit)" where
  "append_event S B r phase payload w =
     (case event_input (sy_uuid S) r phase payload of
        Inl e \<Rightarrow> (w, Inl e) | Inr input \<Rightarrow> boundary_append S B input w)"

definition close_claim ::
    "'x system \<Rightarrow> gate_request \<Rightarrow> authority_context \<Rightarrow> 'x world \<Rightarrow> 'x world \<times> (audit_error + execution_record)" where
  "close_claim S r auth w =
     store_mark_indeterminate S (uuid_text (sy_uuid S) (ctx_tenant (req_context r)))
       (uuid_text (sy_uuid S) (ctx_principal (req_context r))) (idempotency_key auth)
       (canonical_request_envelope (sy_uuid S) r) w"

text \<open>The consumption of the approval, after the claim was acquired.\<close>

definition consumption ::
    "gate_request \<Rightarrow> authority_context \<Rightarrow> uuid \<Rightarrow> bytes \<Rightarrow> int \<Rightarrow> approval_consumption" where
  "consumption r auth uid h now =
     \<lparr> ac_tenant = ctx_tenant (req_context r), ac_id = uid, ac_principal = ctx_principal (req_context r),
       ac_token_identity = token_identity auth, ac_request_hash = h,
       ac_policy_version = APPROVAL_POLICY_VERSION, ac_now = now \<rparr>"

definition consume_for_execution ::
    "'x system \<Rightarrow> gate_request \<Rightarrow> authority_context \<Rightarrow> string \<Rightarrow> 'x world \<Rightarrow>
     'x world \<times> (executor_error + execution_decision)" where
  "consume_for_execution S r auth text w =
     (case parse_str (sy_uuid S) text of
        None \<Rightarrow> (w, Inl (executor_error_new ''invalid approval id''))
      | Some uid \<Rightarrow>
      case envelope_hash S r of
        Inl _ \<Rightarrow> (w, Inl (executor_error_new ''request hash failed''))
      | Inr h \<Rightarrow>
      case now_seconds S w of
        (w1, Inl _) \<Rightarrow> (w1, Inl (executor_error_new ''approval authority unavailable''))
      | (w1, Inr now) \<Rightarrow>
      case on_approvals (consume_approved (sy_uuid S) (consumption r auth uid h now)) w1 of
        (w2, Inl _) \<Rightarrow> (w2, Inl (executor_error_new ''approval authority unavailable''))
      | (w2, Inr None) \<Rightarrow>
          (fst (close_claim S r auth w2),
           Inl (executor_error_new ''approval is not active or does not match this request''))
      | (w2, Inr (Some _)) \<Rightarrow> (w2, Inr Execute))"

definition claim_answer :: "execution_claim \<Rightarrow> (executor_error + execution_decision) option" where
  "claim_answer claim =
     (case claim of
        Acquired _ \<Rightarrow> None
      | Existing rec \<Rightarrow> Some (
          case xr_state rec of
            Completed \<Rightarrow>
              (case xr_sanitized_result rec of
                 None \<Rightarrow> Inl (executor_error_new ''completed execution has no replayable result'')
               | Some result \<Rightarrow> Inr (Cached result))
          | _ \<Rightarrow> Inl (executor_error_new ''idempotent execution cannot be replayed safely'')))"

definition guard_before ::
    "'x system \<Rightarrow> audit_boundary \<Rightarrow> gate_request \<Rightarrow> string list \<Rightarrow> 'x world \<Rightarrow>
     'x world \<times> (executor_error + execution_decision)" where
  "guard_before S B r allowed_gates w =
     (case authority (req_context r) of
        None \<Rightarrow> (w, Inl (executor_error_new ''authenticated authority context is required''))
      | Some auth \<Rightarrow>
          and_then (audit_err (w, event_input (sy_uuid S) r Intent (intent_payload B r auth allowed_gates)))
            (\<lambda>intent w.
          and_then (audit_err (boundary_claim_execution S B intent w))
            (\<lambda>claim w.
               case claim_answer claim of
                 Some answer \<Rightarrow> (w, answer)
               | None \<Rightarrow>
                   (case approval_id auth of
                      None \<Rightarrow> (w, Inr Execute)
                    | Some text \<Rightarrow> consume_for_execution S r auth text w))))"

definition guard_mark ::
    "'x system \<Rightarrow> gate_request \<Rightarrow> 'x world \<Rightarrow> 'x world \<times> (executor_error + unit)" where
  "guard_mark S r w =
     (case authority (req_context r) of
        None \<Rightarrow> (w, Inl (executor_error_new ''authenticated authority context is required''))
      | Some auth \<Rightarrow> and_then (audit_err (close_claim S r auth w)) (\<lambda>_ w. (w, Inr ())))"

definition guard_after ::
    "'x system \<Rightarrow> audit_boundary \<Rightarrow> gate_request \<Rightarrow> execution_outcome \<Rightarrow> 'x world \<Rightarrow>
     'x world \<times> (executor_error + unit)" where
  "guard_after S B r outcome w =
     (case outcome of
        Succeeded result \<Rightarrow>
          and_then (audit_err (w, event_input (sy_uuid S) r Outcome (execution_outcome_payload r ''succeeded'')))
            (\<lambda>event w. audit_err (boundary_complete_execution S B event result w))
      | Failed \<Rightarrow>
          and_then (audit_err (append_event S B r Outcome (execution_outcome_payload r ''failed'') w))
            (\<lambda>_ w. guard_mark S r w))"

definition audit_execution_guard :: "'x system \<Rightarrow> audit_boundary \<Rightarrow> 'x world execution_guard" where
  "audit_execution_guard S B = \<lparr> before_execute = guard_before S B, after_execute = guard_after S B,
     mark_indeterminate = guard_mark S \<rparr>"


section \<open>The public gate chain and the governed dispatcher\<close>

text \<open>
  \<open>public_gate_chain\<close> of \<open>app.rs\<close> and the dispatcher \<open>main.rs\<close> builds over it. The first three gates,
  the executor and the output filter are arguments.
\<close>

definition public_gate_chain ::
    "'x system \<Rightarrow> 'x world gate \<Rightarrow> 'x world gate \<Rightarrow> 'x world gate \<Rightarrow> 'x world gate list" where
  "public_gate_chain S pistis plutus eidolon =
     [pistis, plutus, eidolon, durable_human_gate S, phylaxd_gate (sy_uuid S)]"

definition governed_dispatcher ::
    "'x system \<Rightarrow> audit_boundary \<Rightarrow> 'x world gate \<Rightarrow> 'x world gate \<Rightarrow> 'x world gate \<Rightarrow>
     'x world executor \<Rightarrow> 'x world output_filter \<Rightarrow> dispatch_error + 'x world dispatcher" where
  "governed_dispatcher S B pistis plutus eidolon ex flt =
     (case dispatcher_new (public_gate_chain S pistis plutus eidolon) ex of
        Inl e \<Rightarrow> Inl e
      | Inr d \<Rightarrow> Inr (with_execution_guard (with_output_filter d flt) (audit_execution_guard S B)))"

text \<open>
  What the Rust types guarantee of a request, what is relied on from SHA-256, and that the other
  gates, the executor and the filter leave the two stores to their owners.
\<close>

definition typed_request :: "uuid_lib \<Rightarrow> gate_request \<Rightarrow> bool" where
  "typed_request U r \<longleftrightarrow> version_num U (ctx_tenant (req_context r)) = 8 \<and>
     version_num U (ctx_principal (req_context r)) = 8"

definition authority_ok :: "'x system \<Rightarrow> bool" where
  "authority_ok S \<longleftrightarrow> system_ok S \<and> (\<forall>x. length (al_sha256 (sy_lib S) x) = 32)"

definition gate_advances :: "'x system \<Rightarrow> 'x world gate \<Rightarrow> bool" where
  "gate_advances S g = (\<forall>r w. world_advances S w (fst (gate_check g r w)))"

definition parts_advance ::
    "'x system \<Rightarrow> 'x world gate \<Rightarrow> 'x world gate \<Rightarrow> 'x world gate \<Rightarrow> 'x world executor \<Rightarrow>
     'x world output_filter \<Rightarrow> bool" where
  "parts_advance S pistis plutus eidolon ex flt \<longleftrightarrow>
     gate_advances S pistis \<and> gate_advances S plutus \<and> gate_advances S eidolon \<and>
     (\<forall>ctx i w. world_advances S w (fst (ex ctx i w))) \<and>
     (\<forall>v ctx w. world_advances S w (fst (filter_apply flt v ctx w)))"


section \<open>Every call of the authority layer advances the world\<close>

lemma advances_on_approvals:
  assumes "\<And>db. fst (f db) = fst (approval_step (sy_uuid S) x db)" and "approval_op_ok (sy_uuid S) x"
  shows "world_advances S w (fst (on_approvals f w))"
proof -
  have "approval_inv (sy_uuid S) (fst (f (w_approvals w))) \<and>
      approvals_move (sy_uuid S) (w_approvals w) (fst (f (w_approvals w)))"
    if "approval_inv (sy_uuid S) (w_approvals w)"
    using approval_progress.inv_step [OF that assms(2)] approval_progress.entry_step [OF that assms(2)]
    by (auto simp: assms(1) approvals_move_def)
  then show ?thesis by (auto simp: world_advances_def world_ok_def on_approvals_def split: prod.split)
qed

lemma system_advances:
  assumes "system_ok S"
  shows "world_advances S w (fst (sy_clock S w))" and "world_advances S w (fst (sy_new_v4 S w))"
    and "world_advances S w (fst (now_seconds S w))" and "world_advances S w (fst (lookup_approval S t k w))"
  using assms by (auto simp: system_ok_def now_seconds_def lookup_approval_def split: prod.split)
    (metis fst_conv)+

lemma advances_then:
  "world_advances S w (fst m) \<Longrightarrow> (\<And>x. world_advances S (fst m) (fst (f x (fst m)))) \<Longrightarrow>
   world_advances S w (fst (case m of (w1, x) \<Rightarrow> f x w1))"
  by (auto split: prod.split intro: world_advances_trans)

lemma fst_map_prod_id [simp]: "fst (map_prod id f m) = fst m"
  by (cases m) simp

lemma approval_for_request_advances:
  assumes "system_ok S" and "typed_request (sy_uuid S) r" and "length h = 32"
  shows "world_advances S w (fst (approval_for_request S r auth h now w))"
proof -
  let ?U = "sy_uuid S"
  have create: "world_advances S w (fst (on_approvals (create_or_get_pending ?U fresh
      (new_approval_request r auth h now) now) w))" for fresh w
    using assms(2,3)
    by (intro advances_on_approvals [of _ _ "CreateOrGet fresh (new_approval_request r auth h now) now"])
      (simp_all add: new_approval_request_def typed_request_def)
  have expire: "world_advances S w (fst (on_approvals (expire ?U t now) w))" for t w
    by (intro advances_on_approvals [of _ _ "Expire t now"]) simp_all
  show ?thesis
  proof (cases "approval_id auth")
    case None
    then show ?thesis
      using advances_then [OF system_advances(2) [OF assms(1)], of _ "\<lambda>fresh w1. map_prod id gate_err
        (on_approvals (create_or_get_pending ?U fresh (new_approval_request r auth h now) now) w1)"] create
      by (simp add: approval_for_request_def)
  next
    case (Some t)
    then show ?thesis
      unfolding approval_for_request_def
      by (auto split: option.split intro!: advances_and_then system_advances [OF assms(1)] expire)
  qed
qed

lemma envelope_hash_length: "authority_ok S \<Longrightarrow> envelope_hash S r = Inr h \<Longrightarrow> length h = 32"
  by (auto simp: envelope_hash_def canonical_request_hash_def authority_ok_def split: sum.splits)

lemma durable_human_advances:
  assumes "authority_ok S" and "typed_request (sy_uuid S) r"
  shows "world_advances S w (fst (durable_human_check S r w))"
proof -
  have S: "system_ok S" using assms(1) by (simp add: authority_ok_def)
  have "world_advances S w (fst (and_then (approval_for_request S r auth h now w1)
      (\<lambda>a w. (w, Inr (approval_answer (sy_uuid S) auth a)))))"
    if "envelope_hash S r = Inr h" "now_seconds S w = (w1, Inr now)" for auth h now w1
  proof -
    have "world_advances S w w1" using system_advances(3) [OF S, of w] that(2) by simp
    moreover have "world_advances S w1 (fst (and_then (approval_for_request S r auth h now w1)
        (\<lambda>a w. (w, Inr (approval_answer (sy_uuid S) auth a)))))"
      using envelope_hash_length [OF assms(1) that(1)]
      by (intro advances_and_then approval_for_request_advances S assms(2)) auto
    ultimately show ?thesis by (rule world_advances_trans)
  qed
  moreover have "world_advances S w w1" if "now_seconds S w = (w1, x)" for w1 x
    using system_advances(3) [OF S, of w] that by simp
  ultimately show ?thesis
    by (auto simp: durable_human_check_def gate_err_def split: option.split sum.split prod.split)
qed

lemma plain_payloads [simp]:
  "plain_payload (intent_payload B r auth names)" "plain_payload (execution_outcome_payload r outcome)"
  by (auto simp: intent_payload_def execution_outcome_payload_def plain_payload_def plain_value_def
      json_opt_def btree_collect_def list_all_iff split: option.split)

lemma event_input_payload: "event_input U r phase p = Inr i \<Longrightarrow> in_payload i = p"
  by (auto simp: event_input_def split: option.splits)

lemma audit_err_simps [simp]:
  "audit_err (w, Inl e) = (w, Inl (audit_executor_error e))" "audit_err (w, Inr x) = (w, Inr x)"
  by (simp_all add: audit_err_def)

lemma fst_audit_err [simp]: "fst (audit_err m) = fst m"
  by (auto simp: audit_err_def split: prod.split sum.split)

lemma close_claim_advances: "system_ok S \<Longrightarrow> world_advances S w (fst (close_claim S r auth w))"
  unfolding close_claim_def by (rule store_ops_advance)

lemma consume_for_execution_advances:
  assumes "system_ok S"
  shows "world_advances S w (fst (consume_for_execution S r auth text w))"
proof -
  have consume: "world_advances S w (fst (on_approvals (consume_approved (sy_uuid S) c) w))" for c w
    by (intro advances_on_approvals [of _ _ "Consume c"]) simp_all
  have now: "world_advances S w w1" if "now_seconds S w = (w1, x)" for w1 x
    using system_advances(3) [OF assms, of w] that by simp
  have spend: "world_advances S w w2"
    if "now_seconds S w = (w1, x)" "on_approvals (consume_approved (sy_uuid S) c) w1 = (w2, y)" for w1 w2 x y c
    using now [OF that(1)] consume [where w = w1 and c = c] that(2) by (auto intro: world_advances_trans)
  show ?thesis
    unfolding consume_for_execution_def
    by (auto split: option.split sum.split prod.split
        intro: now spend world_advances_trans [OF spend close_claim_advances [OF assms]])
qed

lemma guard_advances:
  assumes "system_ok S"
  shows "world_advances S w (fst (guard_before S B r names w))"
    and "world_advances S w (fst (guard_mark S r w))"
    and "world_advances S w (fst (guard_after S B r outcome w))"
proof -
  have mark: "world_advances S w (fst (guard_mark S r w))" for w
    unfolding guard_mark_def
    by (auto split: option.split intro!: advances_and_then close_claim_advances assms)
  then show "world_advances S w (fst (guard_mark S r w))" .
  show "world_advances S w (fst (guard_before S B r names w))"
    unfolding guard_before_def event_input_def
    by (auto split: option.split
        intro!: advances_and_then boundary_ops_advance consume_for_execution_advances assms)
  show "world_advances S w (fst (guard_after S B r outcome w))"
    unfolding guard_after_def append_event_def event_input_def
    by (auto split: option.split execution_outcome.split
        intro!: advances_and_then boundary_ops_advance mark assms)
qed


section \<open>What an execution right rests on\<close>

type_synonym retry_key = "string \<times> string \<times> string"

definition retry_key :: "uuid_lib \<Rightarrow> gate_request \<Rightarrow> retry_key option" where
  "retry_key U r = map_option (\<lambda>auth. (uuid_text U (ctx_tenant (req_context r)),
     uuid_text U (ctx_principal (req_context r)), idempotency_key auth)) (authority (req_context r))"

definition approval_key :: "uuid_lib \<Rightarrow> gate_request \<Rightarrow> uuid option" where
  "approval_key U r = Option.bind (authority (req_context r)) (\<lambda>auth. Option.bind (approval_id auth) (parse_str U))"

abbreviation claim_of :: "'x world \<Rightarrow> retry_key \<Rightarrow> bool" where
  "claim_of w k \<equiv> has_claim (w_audit w) k"

abbreviation spent_in :: "'x system \<Rightarrow> 'x world \<Rightarrow> uuid \<Rightarrow> bool" where
  "spent_in S w k \<equiv> approval_spent (sy_uuid S) (w_approvals w) k"

text \<open>
  A consumed approval that is bound to exactly this request: its tenant, principal and token, the
  hash of its canonical envelope and the policy, decided by a named actor.
\<close>

definition bound_approval :: "'x system \<Rightarrow> gate_request \<Rightarrow> approval \<Rightarrow> bool" where
  "bound_approval S r a \<longleftrightarrow> ap_status a = Consumed \<and> ap_tenant a = ctx_tenant (req_context r) \<and>
     ap_principal a = ctx_principal (req_context r) \<and>
     (\<exists>auth. authority (req_context r) = Some auth \<and> ap_token_identity a = token_identity auth) \<and>
     envelope_hash S r = Inr (ap_request_hash a) \<and> ap_policy_version a = APPROVAL_POLICY_VERSION \<and>
     ap_decision_actor a \<noteq> None \<and> ap_decided_at a \<noteq> None"

definition authorized_in :: "'x system \<Rightarrow> 'x world \<Rightarrow> gate_request \<Rightarrow> bool" where
  "authorized_in S w r \<longleftrightarrow> (\<exists>k. retry_key (sy_uuid S) r = Some k \<and> claim_of w k) \<and>
     (\<forall>k. approval_key (sy_uuid S) r = Some k \<longrightarrow>
       (\<exists>a. approval_entry (sy_uuid S) (w_approvals w) k = Some a \<and> bound_approval S r a))"

lemma advances_claim: "world_advances S w w' \<Longrightarrow> world_ok S w \<Longrightarrow> claim_of w k \<Longrightarrow> claim_of w' k"
  using moves_claim unfolding world_advances_def by blast

lemma advances_consumed:
  assumes "world_advances S w w'" "world_ok S w"
    and "approval_entry (sy_uuid S) (w_approvals w) k = Some a" "ap_status a = Consumed"
  shows "approval_entry (sy_uuid S) (w_approvals w') k = Some a"
proof -
  obtain b where "approval_entry (sy_uuid S) (w_approvals w') k = Some b" "approval_forward a b"
    using assms(1-3) by (auto simp: world_advances_def approvals_move_def)
  moreover have "\<not> active a" using assms(4) by (simp add: active_def)
  ultimately show ?thesis using advance_terminal by metis
qed

lemma advances_spent:
  assumes "world_advances S w w'" "world_ok S w" "spent_in S w k" shows "spent_in S w' k"
proof -
  obtain a where "approval_entry (sy_uuid S) (w_approvals w) k = Some a" "ap_status a = Consumed"
    using assms(3) by (auto simp: approval_spent_def split: option.splits)
  with advances_consumed [OF assms(1,2)] show ?thesis by (simp add: approval_spent_def)
qed

lemma advances_authorized:
  assumes "world_advances S w w'" "world_ok S w" "authorized_in S w r" shows "authorized_in S w' r"
  using assms(3) advances_consumed [OF assms(1,2)] advances_claim [OF assms(1,2)]
  unfolding authorized_in_def bound_approval_def by blast


section \<open>The right to execute is acquired once\<close>

lemma boundary_claim_acquired:
  assumes "system_ok S" "world_ok S w" "plain_payload (in_payload i)"
    and "boundary_claim_execution S B i w = (w', Inr (Acquired rec))"
  shows "\<exists>key. in_idempotency_key i = Some key \<and>
    \<not> claim_of w (in_tenant_id i, in_principal_id i, key) \<and> claim_of w' (in_tenant_id i, in_principal_id i, key)"
proof -
  have direct: "\<exists>key. in_idempotency_key i = Some key \<and>
      \<not> claim_of v (in_tenant_id i, in_principal_id i, key) \<and> claim_of w' (in_tenant_id i, in_principal_id i, key)"
    if "world_ok S v" "store_claim S i v = (w', Inr (Acquired rec))" for v
    using store_claim_acquired [OF assms(1) that(1) assms(3) that(2)] by (auto simp: has_claim_def)
  show ?thesis
  proof (cases B)
    case Local
    then show ?thesis using direct assms(2,4) by (simp add: boundary_claim_execution_def)
  next
    case (Witnessed A)
    then have "witnessed_claim_execution S A i w = (w', Inr (Acquired rec))"
      using assms(4) by (simp add: boundary_claim_execution_def)
    then consider "store_claim S i w = (w', Inr (Acquired rec))"
      | w1 irec w2 x where "store_append S i w = (w1, Inr irec)" "witness_record S A irec w1 = (w2, Inr x)"
          "store_claim S i w2 = (w', Inr (Acquired rec))"
      by (auto simp: witnessed_claim_execution_def read_audit_def and_then_def
          split: sum.splits option.splits prod.splits if_splits)
    then show ?thesis
    proof cases
      case 1
      then show ?thesis using direct assms(2) by blast
    next
      case (2 w1 irec w2 x)
      have adv: "world_advances S w w2"
        using store_ops_advance(1) [OF assms(1,3), of w] witness_record_advances [OF assms(1), of w1 A irec] 2(1,2)
        by (auto intro: world_advances_trans)
      then have "world_ok S w2" using assms(2) by (simp add: world_advances_def)
      from direct [OF this 2(3)] show ?thesis using advances_claim [OF adv assms(2)] by blast
    qed
  qed
qed

text \<open>What it takes for the guard to let a request through.\<close>

lemma guard_execute_cases:
  assumes "guard_before S B r names w = (w', Inr Execute)"
  obtains auth i w1 rec where "authority (req_context r) = Some auth"
    "event_input (sy_uuid S) r Intent (intent_payload B r auth names) = Inr i"
    "boundary_claim_execution S B i w = (w1, Inr (Acquired rec))"
    "case approval_id auth of None \<Rightarrow> w' = w1 | Some t \<Rightarrow> consume_for_execution S r auth t w1 = (w', Inr Execute)"
proof -
  have answer: "claim_answer claim = None \<Longrightarrow> \<exists>rec. claim = Acquired rec" for claim
    by (cases claim) (auto simp: claim_answer_def)
  have no: "claim_answer claim = Some a \<Longrightarrow> a \<noteq> Inr Execute" for claim a
    by (auto simp: claim_answer_def split: execution_claim.splits execution_state.splits option.splits)
  show ?thesis
  proof (cases "authority (req_context r)")
    case None
    then show ?thesis using assms by (simp add: guard_before_def)
  next
    case (Some auth)
    obtain i where i: "event_input (sy_uuid S) r Intent (intent_payload B r auth names) = Inr i"
      using Some by (simp add: event_input_def)
    obtain w1 x where x: "boundary_claim_execution S B i w = (w1, x)" by fastforce
    then obtain claim where claim: "x = Inr claim" using assms Some i by (cases x) (auto simp: guard_before_def)
    have none: "claim_answer claim = None"
      using assms Some i x claim no by (cases "claim_answer claim") (auto simp: guard_before_def)
    with answer obtain rec where "claim = Acquired rec" by blast
    then show ?thesis
      using that [OF Some i] x claim none assms Some i by (auto simp: guard_before_def split: option.splits)
  qed
qed

lemma consume_execute_cases:
  assumes "consume_for_execution S r auth t w = (w', Inr Execute)"
  obtains uid h w1 now a where "parse_str (sy_uuid S) t = Some uid" "envelope_hash S r = Inr h"
    "now_seconds S w = (w1, Inr now)"
    "on_approvals (consume_approved (sy_uuid S) (consumption r auth uid h now)) w1 = (w', Inr (Some a))"
  using assms unfolding consume_for_execution_def
  by (auto split: option.splits sum.splits prod.splits)

lemma guard_execute_retry:
  assumes "system_ok S" "world_ok S w" "guard_before S B r names w = (w', Inr Execute)"
    and "retry_key (sy_uuid S) r = Some k"
  shows "\<not> claim_of w k \<and> claim_of w' k"
  using assms(3)
proof (cases rule: guard_execute_cases)
  case (1 auth i w1 rec)
  have i: "in_payload i = intent_payload B r auth names" "in_idempotency_key i = Some (idempotency_key auth)"
    "k = (in_tenant_id i, in_principal_id i, idempotency_key auth)"
    using 1(1,2) assms(4) by (auto simp: event_input_def retry_key_def)
  have claim: "\<not> claim_of w k" "claim_of w1 k"
    using boundary_claim_acquired [OF assms(1,2) _ 1(3)] i by auto
  have "world_advances S w w1" using boundary_ops_advance(2) [OF assms(1), of i w B] i(1) 1(3) by simp
  then have "world_ok S w1" using assms(2) by (simp add: world_advances_def)
  moreover have "world_advances S w1 w'"
    using 1(4) consume_for_execution_advances [OF assms(1), of w1 r auth]
    by (auto split: option.splits) (metis fst_conv)
  ultimately show ?thesis using claim advances_claim by blast
qed

lemma guard_execute_approval:
  assumes "system_ok S" "world_ok S w" "guard_before S B r names w = (w', Inr Execute)"
    and "approval_key (sy_uuid S) r = Some k"
  shows "\<not> spent_in S w k \<and> spent_in S w' k \<and>
    (\<exists>a. approval_entry (sy_uuid S) (w_approvals w') k = Some a \<and> bound_approval S r a)"
  using assms(3)
proof (cases rule: guard_execute_cases)
  case (1 auth i w1 rec)
  let ?U = "sy_uuid S"
  obtain t where t: "approval_id auth = Some t" "parse_str ?U t = Some k"
    using assms(4) 1(1) by (auto simp: approval_key_def bind_eq_Some_conv)
  then have "consume_for_execution S r auth t w1 = (w', Inr Execute)" using 1(4) by simp
  then show ?thesis
  proof (cases rule: consume_execute_cases)
    case (1 uid h w2 now b)
    let ?c = "consumption r auth uid h now"
    have c: "ac_id ?c = k" "ac_tenant ?c = ctx_tenant (req_context r)" "ac_principal ?c = ctx_principal (req_context r)"
      "ac_token_identity ?c = token_identity auth" "ac_request_hash ?c = h"
      "ac_policy_version ?c = APPROVAL_POLICY_VERSION"
      using 1(1) t(2) by (simp_all add: consumption_def)
    have pay: "in_payload i = intent_payload B r auth names"
      using \<open>authority (req_context r) = Some auth\<close>
        \<open>event_input (sy_uuid S) r Intent (intent_payload B r auth names) = Inr i\<close>
      by (auto simp: event_input_def)
    have "world_advances S w w1"
      using boundary_ops_advance(2) [OF assms(1), of i w B] pay
        \<open>boundary_claim_execution S B i w = (w1, Inr (Acquired rec))\<close> by simp
    moreover have "world_advances S w1 w2" using system_advances(3) [OF assms(1), of w1] 1(3) by simp
    ultimately have adv: "world_advances S w w2" by (rule world_advances_trans)
    then have ok: "world_ok S w2" using assms(2) by (simp add: world_advances_def)
    then obtain as where as: "w_approvals w2 = map (row_of ?U) as" "approvals_ok ?U as" and U: "uuid_lib_ok ?U"
      by (auto simp: world_ok_def approval_inv_def)
    have eff: "snd (consume_approved ?U ?c (w_approvals w2)) = Inr (Some b)"
      "w_approvals w' = fst (consume_approved ?U ?c (w_approvals w2))"
      using 1(4) by (auto simp: on_approvals_def split: prod.splits)
    obtain a where a: "find (\<lambda>a. ap_id a = k) as = Some a" "ap_tenant a = ctx_tenant (req_context r)"
      "exact_match a ?c (token_identity auth)" "b = consumed_by ?c a"
      "approval_entry ?U (w_approvals w') k = Some b"
      using consume_success [OF U as(2), of ?c b] eff c as(1) by auto
    have "\<not> spent_in S w2 k"
      using a(1,3) approval_entry_of [OF U as(2), of k] as(1) by (simp add: approval_spent_def exact_match_def)
    then have "\<not> spent_in S w k" using advances_spent [OF adv assms(2)] by blast
    moreover have "lifecycle_ok a"
      using find_SomeD [OF a(1)] as(2) by (auto simp: approvals_ok_def list_all_iff)
    then have "bound_approval S r b"
      using a c \<open>authority (req_context r) = Some auth\<close> 1(2)
      by (auto simp: bound_approval_def consumed_by_def exact_match_def lifecycle_ok_def)
    moreover have "spent_in S w' k" using a(4,5) by (simp add: approval_spent_def consumed_by_def)
    ultimately show ?thesis using a(5) by blast
  qed
qed
lemma guard_execute_authorized:
  assumes "system_ok S" "world_ok S w" "guard_before S B r names w = (w', Inr Execute)"
  shows "authorized_in S w' r"
proof -
  obtain k where "retry_key (sy_uuid S) r = Some k"
    using assms(3) by (cases rule: guard_execute_cases) (simp add: retry_key_def)
  with guard_execute_retry [OF assms] guard_execute_approval [OF assms] show ?thesis
    unfolding authorized_in_def by blast
qed


section \<open>The guard meets the dispatcher's contract\<close>

definition governed ::
    "'x system \<Rightarrow> audit_boundary \<Rightarrow> 'x world gate \<Rightarrow> 'x world gate \<Rightarrow> 'x world gate \<Rightarrow>
     'x world executor \<Rightarrow> 'x world output_filter \<Rightarrow> 'x world dispatcher" where
  "governed S B pistis plutus eidolon ex flt =
     \<lparr> gates = public_gate_chain S pistis plutus eidolon, executor = ex, output_filter = Some flt,
       execution_guard = Some (audit_execution_guard S B) \<rparr>"

lemma governed_dispatcher_iff:
  "governed_dispatcher S B pistis plutus eidolon ex flt = Inr d \<longleftrightarrow>
     gate_name pistis = ''pistis'' \<and> gate_name plutus = ''plutus'' \<and> gate_name eidolon = ''eidolon'' \<and>
     d = governed S B pistis plutus eidolon ex flt"
  by (auto simp: governed_dispatcher_def dispatcher_new_def validate_chain_def Let_def
      CANONICAL_GATE_ORDER_def public_gate_chain_def durable_human_gate_def phylaxd_gate_def
      with_execution_guard_def with_output_filter_def governed_def)

text \<open>The invariant carries the assumptions about the parameters.\<close>

definition governed_ok ::
    "'x system \<Rightarrow> 'x world gate \<Rightarrow> 'x world gate \<Rightarrow> 'x world gate \<Rightarrow> 'x world executor \<Rightarrow>
     'x world output_filter \<Rightarrow> 'x world \<Rightarrow> bool" where
  "governed_ok S pistis plutus eidolon ex flt w \<longleftrightarrow>
     authority_ok S \<and> parts_advance S pistis plutus eidolon ex flt \<and> world_ok S w"

text \<open>A fact about the world that every step of the world keeps is kept by every part.\<close>

definition stable :: "'x system \<Rightarrow> ('x world \<Rightarrow> 'k \<Rightarrow> bool) \<Rightarrow> bool" where
  "stable S P = (\<forall>w w' k. world_advances S w w' \<longrightarrow> world_ok S w \<longrightarrow> P w k \<longrightarrow> P w' k)"

lemma stable_facts: "stable S claim_of" "stable S (spent_in S)" "stable S (authorized_in S)"
  unfolding stable_def using advances_claim advances_spent advances_authorized by blast+

lemma keeps_advances:
  assumes "stable S P" and "authority_ok S \<Longrightarrow> parts_advance S pistis plutus eidolon ex flt \<Longrightarrow> world_advances S w w'"
  shows "keeps (governed_ok S pistis plutus eidolon ex flt) P w w'"
  using assms by (auto simp: keeps_def governed_ok_def stable_def world_advances_def)

lemma phylaxd_state [simp]: "fst (gate_check (phylaxd_gate U) r w) = w"
  by (simp add: phylaxd_gate_def phylaxd_check_def)

lemma governed_keeps:
  fixes S :: "'x system" and P :: "'x world \<Rightarrow> 'k \<Rightarrow> bool" and B pistis plutus eidolon ex flt
  assumes "stable S P"
  defines "K \<equiv> keeps (governed_ok S pistis plutus eidolon ex flt) P"
    and "d \<equiv> governed S B pistis plutus eidolon ex flt"
  shows "x \<in> set (gates d) \<Longrightarrow> typed_request (sy_uuid S) r \<Longrightarrow> K w (fst (gate_check x r w))"
    and "K w (fst (executor d ctx i w))"
    and "K w (fst (apply_filter (output_filter d) v ctx w))"
    and "K w (fst (before_execute (audit_execution_guard S B) r names w))"
    and "K w (fst (after_execute (audit_execution_guard S B) r outcome w))"
    and "K w (fst (mark_indeterminate (audit_execution_guard S B) r w))"
    and "world_advances S w w' \<Longrightarrow> K w w'"
proof -
  note adv = keeps_advances [OF assms(1)]
  show "x \<in> set (gates d) \<Longrightarrow> typed_request (sy_uuid S) r \<Longrightarrow> K w (fst (gate_check x r w))"
    unfolding K_def d_def
    by (intro adv) (auto simp: governed_def public_gate_chain_def parts_advance_def gate_advances_def
        durable_human_gate_def intro: durable_human_advances)
  show "K w (fst (executor d ctx i w))"
    unfolding K_def d_def by (intro adv) (simp add: governed_def parts_advance_def)
  show "K w (fst (apply_filter (output_filter d) v ctx w))"
    unfolding K_def d_def
    by (intro adv) (auto simp: governed_def parts_advance_def apply_filter_def split: prod.split, metis fst_conv)
  show "K w (fst (before_execute (audit_execution_guard S B) r names w))"
    "K w (fst (after_execute (audit_execution_guard S B) r outcome w))"
    "K w (fst (mark_indeterminate (audit_execution_guard S B) r w))"
    unfolding K_def
    by (intro adv; simp add: audit_execution_guard_def authority_ok_def guard_advances)+
  show "world_advances S w w' \<Longrightarrow> K w w'"
    unfolding K_def by (rule adv)
qed

lemma governed_claiming:
  assumes "stable S P"
    and "\<And>w r names w' k. system_ok S \<Longrightarrow> world_ok S w \<Longrightarrow> guard_before S B r names w = (w', Inr Execute) \<Longrightarrow>
      key r = Some k \<Longrightarrow> P w' k"
  shows "claiming_dispatch (governed S B pistis plutus eidolon ex flt) (audit_execution_guard S B)
    (typed_request (sy_uuid S)) (world_advances S) (governed_ok S pistis plutus eidolon ex flt) P key"
proof
  show "execution_guard (governed S B pistis plutus eidolon ex flt) = Some (audit_execution_guard S B)"
    by (simp add: governed_def)
next
  fix w r names w' k
  assume "governed_ok S pistis plutus eidolon ex flt w"
    "before_execute (audit_execution_guard S B) r names w = (w', Inr Execute)" "key r = Some k"
  then show "P w' k"
    using assms(2) by (auto simp: audit_execution_guard_def governed_ok_def authority_ok_def)
qed (rule governed_keeps [OF assms(1)]; assumption)+

interpretation retry_guard: guarded_dispatch
  "governed S B pistis plutus eidolon ex flt" "audit_execution_guard S B" "typed_request (sy_uuid S)"
  "world_advances S" "governed_ok S pistis plutus eidolon ex flt" claim_of "retry_key (sy_uuid S)"
  for S B pistis plutus eidolon ex flt
proof (intro guarded_dispatch.intro guarded_dispatch_axioms.intro governed_claiming stable_facts)
qed (auto simp: audit_execution_guard_def governed_ok_def authority_ok_def dest: guard_execute_retry)

interpretation approval_guard: guarded_dispatch
  "governed S B pistis plutus eidolon ex flt" "audit_execution_guard S B" "typed_request (sy_uuid S)"
  "world_advances S" "governed_ok S pistis plutus eidolon ex flt" "spent_in S" "approval_key (sy_uuid S)"
  for S B pistis plutus eidolon ex flt
proof (intro guarded_dispatch.intro guarded_dispatch_axioms.intro governed_claiming stable_facts)
qed (auto simp: audit_execution_guard_def governed_ok_def authority_ok_def dest: guard_execute_approval)

interpretation authorized_guard: claiming_dispatch
  "governed S B pistis plutus eidolon ex flt" "audit_execution_guard S B" "typed_request (sy_uuid S)"
  "world_advances S" "governed_ok S pistis plutus eidolon ex flt" "authorized_in S" Some
  for S B pistis plutus eidolon ex flt
proof (intro governed_claiming stable_facts)
qed (auto dest: guard_execute_authorized)

text \<open>The human gate lets a request that needs approval through only when it names an approval.\<close>

definition names_approval :: "uuid_lib \<Rightarrow> gate_request \<Rightarrow> bool" where
  "names_approval U r = (requires_human_approval (req_invocation r) \<longrightarrow> approval_key U r \<noteq> None)"

lemma durable_human_allow:
  assumes "durable_human_check S r w = (w', Inr Allow)"
  shows "names_approval (sy_uuid S) r"
proof -
  have none: "approval_answer U auth a = Allow \<Longrightarrow> approval_id auth \<noteq> None" for U auth a
    by (auto simp: approval_answer_def Let_def split: approval_status.splits if_splits)
  have bad: "approval_id auth = Some t \<Longrightarrow> parse_str (sy_uuid S) t = None \<Longrightarrow>
      approval_for_request S r auth h now v = (v, Inl ''invalid approval id'')" for auth t h now v
    by (simp add: approval_for_request_def)
  show ?thesis
    unfolding names_approval_def
  proof
    assume "requires_human_approval (req_invocation r)"
    then obtain auth h now w1 a w2 where auth: "authority (req_context r) = Some auth"
      and a: "approval_for_request S r auth h now w1 = (w2, Inr a)" "approval_answer (sy_uuid S) auth a = Allow"
      using assms by (auto simp: durable_human_check_def and_then_def split: option.splits sum.splits prod.splits)
    obtain t where t: "approval_id auth = Some t" using none [OF a(2)] by auto
    with bad a(1) obtain uid where "parse_str (sy_uuid S) t = Some uid" by fastforce
    with auth t show "approval_key (sy_uuid S) r \<noteq> None" by (simp add: approval_key_def)
  qed
qed

interpretation human_gate: gate_establishes
  "governed S B pistis plutus eidolon ex flt" "durable_human_gate S" "names_approval (sy_uuid S)"
  for S B pistis plutus eidolon ex flt
  by unfold_locales
    (auto simp: governed_def public_gate_chain_def durable_human_gate_def dest: durable_human_allow)

text \<open>The initial configuration: the stores as found, no request in flight.\<close>

definition idle :: "'s \<Rightarrow> 's config" where
  "idle s = \<lparr> shared = s, tasks = [], executions = [] \<rparr>"

text \<open>
  Property C1. The executor runs at most once per retry key: whatever requests arrive at the governed
  dispatcher, however their steps interleave with each other and with other activity on the stores,
  and whichever of them are dropped half-way, the executor is started at most once for each tenant,
  principal and idempotency key, and not at all when the key was claimed before.
\<close>

theorem executed_once_per_retry_key:
  assumes "governed_dispatcher S B pistis plutus eidolon ex flt = Inr d"
    and "authority_ok S" and "parts_advance S pistis plutus eidolon ex flt" and "world_ok S w"
    and "(sys_step d (typed_request (sy_uuid S)) (world_advances S))\<^sup>*\<^sup>* (idle w) c"
  shows "count_key (retry_key (sy_uuid S)) k (executions c) \<le> (if claim_of w k then 0 else 1) \<and>
    (\<forall>r \<in> set (executions c). \<exists>k. retry_key (sy_uuid S) r = Some k \<and> claim_of (shared c) k)"
proof -
  have d: "d = governed S B pistis plutus eidolon ex flt" using assms(1) by (simp add: governed_dispatcher_iff)
  have ok: "governed_ok S pistis plutus eidolon ex flt w" using assms(2-4) by (simp add: governed_ok_def)
  note run = assms(5) [unfolded d idle_def]
  show ?thesis
    using retry_guard.executed_at_most_once [OF run ok] authorized_guard.executed_claimed [OF run ok]
    unfolding authorized_in_def by blast
qed

text \<open>
  Property C2. No execution without its own human approval: in the same setting, every executed
  request that is not a reviewed read has in the approval store a record decided by a named human,
  bound to its tenant, principal and token and to the hash of its exact content, and consumed; and
  no two executions share such a record, nor use one that was consumed before.
\<close>

theorem executed_only_with_own_approval:
  assumes "governed_dispatcher S B pistis plutus eidolon ex flt = Inr d"
    and "authority_ok S" and "parts_advance S pistis plutus eidolon ex flt" and "world_ok S w"
    and "(sys_step d (typed_request (sy_uuid S)) (world_advances S))\<^sup>*\<^sup>* (idle w) c"
  shows "(\<forall>r \<in> set (executions c). requires_human_approval (req_invocation r) \<longrightarrow>
      (\<exists>k a. approval_key (sy_uuid S) r = Some k \<and>
         approval_entry (sy_uuid S) (w_approvals (shared c)) k = Some a \<and> bound_approval S r a)) \<and>
    count_key (approval_key (sy_uuid S)) k (executions c) \<le> (if spent_in S w k then 0 else 1)"
proof -
  have d: "d = governed S B pistis plutus eidolon ex flt" using assms(1) by (simp add: governed_dispatcher_iff)
  have ok: "governed_ok S pistis plutus eidolon ex flt w" using assms(2-4) by (simp add: governed_ok_def)
  note run = assms(5) [unfolded d idle_def]
  have "authorized_in S (shared c) r" if "r \<in> set (executions c)" for r
    using authorized_guard.executed_claimed [OF run ok] that by blast
  moreover have "names_approval (sy_uuid S) r" if "r \<in> set (executions c)" for r
    using human_gate.executed_passed [OF run] that by blast
  ultimately show ?thesis
    using approval_guard.executed_at_most_once [OF run ok] unfolding names_approval_def authorized_in_def by blast
qed


section \<open>A request executed with its approval\<close>

text \<open>A system of one idle process: the clock stands at 100 and the hash pads its input to 32 bytes.\<close>

definition pad32 :: "bytes \<Rightarrow> bytes" where
  "pad32 x = take 32 (x @ replicate 32 CHR 0x00)"

definition local_system :: "unit system" where
  "local_system = \<lparr> sy_lib = codec_lib \<lparr> al_sha256 := pad32 \<rparr>, sy_ed = sample_ed25519, sy_uuid = sample_uuid_lib,
     sy_tick = (\<lambda>w. (w, sample_tick)), sy_clock = (\<lambda>w. (w, 100)), sy_new_v4 = (\<lambda>w. (w, 4)),
     sy_post = (\<lambda>c w. (w, TransportFailed ''offline'')) \<rparr>"

lemma local_system_sel [simp]:
  "sy_lib local_system = codec_lib \<lparr> al_sha256 := pad32 \<rparr>" "sy_uuid local_system = sample_uuid_lib"
  "sy_tick local_system = (\<lambda>w. (w, sample_tick))" "sy_clock local_system = (\<lambda>w. (w, 100))"
  by (simp_all add: local_system_def)

lemma local_system_ok: "authority_ok local_system"
proof -
  have "audit_lib_ok (codec_lib \<lparr> al_sha256 := pad32 \<rparr>)"
    using codec_lib_ok by (simp add: audit_lib_ok_def metadata_round_trips_def payload_ok_def receipts_ok_def)
  then show ?thesis
    using sample_uuid_lib_ok
    by (simp add: authority_ok_def system_ok_def) (auto simp: local_system_def pad32_def min_def)
qed

abbreviation sample_id :: "uuid \<Rightarrow> string" where
  "sample_id \<equiv> uuid_text sample_uuid_lib"

definition push_request :: gate_request where
  "push_request = \<lparr>
     req_context = \<lparr> ctx_tenant = 8, ctx_principal = 24, persona = None, ctx_session = None,
       room = None, ctx_task = None, workflow = None,
       authority = Some \<lparr> token_identity = sample_id 4, idempotency_key = ''k1'', approval_id = Some (sample_id 20) \<rparr> \<rparr>,
     req_invocation = \<lparr> inv_tool = ''git'', inv_action = ''push'', inv_args = JNull \<rparr> \<rparr>"

lemma claim_on_empty:
  assumes "audit_lib_ok L" "plain_payload (in_payload i)" "validate_execution_event i Intent = Inr ()"
    and "validate_metadata_payload (in_payload i) = Inr ()" "in_idempotency_key i = Some key"
  shows "\<exists>db rec. claim_execution L sample_tick i empty_db = (db, Inr (Acquired rec))"
proof -
  have p: "payload_ok L (in_payload i)" using assms(1,2) by (simp add: audit_lib_payload)
  have "append_in_transaction L sample_tick i (request_hash_of L i) (payload_text L i) [] =
      Inr ([next_row L sample_tick i []], projr (record_from_row L (next_row L sample_tick i [])))"
    using append_fresh_cases [OF events_ok_Nil p, of sample_tick] assms(5)
    by (simp add: append_in_transaction_def load_by_idempotency_def query_record_def Let_def
        event_conflicts_def unix_timestamp_ms_def next_row_def tenant_rows_def)
  with claim_succeeds [OF assms(3,5,4), of empty_db L sample_tick] show ?thesis by (simp add: empty_db_def)
qed

text \<open>Printable ASCII is a valid identifier.\<close>

definition graphic :: "string \<Rightarrow> bool" where
  "graphic s = list_all (\<lambda>c. 33 \<le> byte c \<and> byte c < 127) s"

lemma graphic_no_control: "graphic s \<Longrightarrow> \<not> has_control s"
  by (subgoal_tac "is_ascii s")
    (auto simp: graphic_def has_control_def utf8_chars_ascii list_ex_iff list_all_iff is_control_def is_ascii_def)

lemma graphic_identifier:
  assumes "graphic s" "s \<noteq> []" "length s \<le> 512" shows "validate_identifier l s = Inr ()"
proof -
  have ascii: "is_ascii s" using assms(1) by (auto simp: graphic_def is_ascii_def list_all_iff)
  have "\<not> is_whitespace [c]" if "c \<in> set s" for c
    using assms(1) that by (auto simp: graphic_def list_all_iff is_whitespace_def)
  then have "trim s \<noteq> []"
    unfolding trim_Nil utf8_chars_ascii [OF ascii] using assms(2) by (cases s) auto
  then show ?thesis
    using graphic_no_control [OF assms(1)] assms(3) by (simp add: validate_identifier_def)
qed

lemma graphic_short_text: "graphic s \<Longrightarrow> length s \<le> n \<Longrightarrow> short_text n (JString s)"
  by (simp add: short_text_def graphic_no_control)

lemma graphic_hex_text: "graphic (hex_text k n)"
proof (induction k arbitrary: n)
  case (Suc k)
  have "\<forall>n \<in> set [0..<16]. 33 \<le> byte (hex_digit n) \<and> byte (hex_digit n) < 127"
    by (simp add: hex_digit_def upt_rec)
  then show ?case using Suc by (simp add: graphic_def)
qed (simp add: graphic_def)

lemma sample_id_graphic: "graphic (sample_id k)" "sample_id k \<noteq> []" "length (sample_id k) = 36"
proof -
  show "graphic (sample_id k)" by (simp add: sample_uuid_lib_def graphic_hex_text del: hex_text.simps)
  show len: "length (sample_id k) = 36" by (simp add: sample_uuid_lib_ok)
  then show "sample_id k \<noteq> []" by (metis list.size(3) zero_neq_numeral)
qed

lemma sample_ids_valid [simp]: "validate_identifier l (sample_id k) = Inr ()" "\<not> has_control (sample_id k)"
  using sample_id_graphic [of k] graphic_identifier graphic_no_control by auto

definition push_approval :: approval where
  "push_approval = \<lparr> ap_id = 20, ap_tenant = 8, ap_principal = 24, ap_token_identity = sample_id 4,
     ap_tool = ''git'', ap_action = ''push'', ap_request_hash = projr (envelope_hash local_system push_request),
     ap_prompt = ''p'', ap_policy_version = APPROVAL_POLICY_VERSION, ap_status = approval_status.Approved,
     ap_created_at = 50, ap_expires_at = 950, ap_decided_at = Some 60, ap_consumed_at = None,
     ap_decision_actor = Some ''alice'', ap_decision_reason = None \<rparr>"

definition push_world :: "unit world" where
  "push_world = \<lparr> w_audit = empty_db, w_approvals = [row_of sample_uuid_lib push_approval], w_rest = () \<rparr>"

lemma push_hash: "\<exists>h. envelope_hash local_system push_request = Inr h"
  by (simp add: envelope_hash_def canonical_request_hash_def canonical_request_envelope_def push_request_def
      json_opt_def btree_collect_def write_canonical_json.simps MAX_CANONICAL_JSON_DEPTH_def)

lemma sample_uuid_version: "version_num sample_uuid_lib w = unat w mod 16"
  by (simp add: sample_uuid_lib_def)

lemma push_approvals_ok: "approvals_ok sample_uuid_lib [push_approval]"
proof -
  obtain h where h: "envelope_hash local_system push_request = Inr h" using push_hash by blast
  then show ?thesis
    using envelope_hash_length [OF local_system_ok h]
    by (simp add: approvals_ok_def typed_ok_def lifecycle_ok_def push_approval_def sample_uuid_version)
qed

lemma push_world_ok: "world_ok local_system push_world"
  using push_approvals_ok sample_uuid_lib_ok
  by (auto simp: world_ok_def push_world_def approval_inv_def intro!: exI [of _ "[push_approval]"])

lemma push_request_sel [simp]:
  "authority (req_context push_request) = Some \<lparr> token_identity = sample_id 4, idempotency_key = ''k1'', approval_id = Some (sample_id 20) \<rparr>"
  "ctx_tenant (req_context push_request) = 8" "ctx_principal (req_context push_request) = 24"
  "inv_tool (req_invocation push_request) = ''git''" "inv_action (req_invocation push_request) = ''push''"
  by (simp_all add: push_request_def)

lemma push_human_allows: "durable_human_check local_system push_request push_world = (push_world, Inr Allow)"
proof -
  obtain h where h: "envelope_hash local_system push_request = Inr h" using push_hash by blast
  have find: "query_row sample_uuid_lib (find (by_id sample_uuid_lib 8 20) [row_of sample_uuid_lib push_approval]) =
      Inr (Some push_approval)"
    using find_by_id [OF sample_uuid_lib_ok, of "[push_approval]" 8 20] push_approvals_ok
    by (simp add: approvals_ok_def push_approval_def)
  have get: "lookup_approval local_system 8 20 push_world = (push_world, Inr (Some push_approval))"
    using find by (simp add: lookup_approval_def get_approval_def push_world_def with_effective_status_def
        effective_status_def unix_seconds_def) (simp add: push_approval_def)
  have "requires_human_approval (req_invocation push_request)"
    by (simp add: requires_human_approval_def reviewed_reads_def)
  then show ?thesis
    using h get sample_uuid_lib_ok
    by (simp add: durable_human_check_def gate_err_def now_seconds_def unix_seconds_from_def
        approval_for_request_def approval_matches_def push_approval_def approval_answer_def)
qed

definition push_event :: audit_event_input where
  "push_event = projr (event_input sample_uuid_lib push_request Intent
     (intent_payload Local push_request (the (authority (req_context push_request))) CANONICAL_GATE_ORDER))"

lemma push_event_valid: "validate_execution_event push_event Intent = Inr ()"
    "validate_metadata_payload (in_payload push_event) = Inr ()" "plain_payload (in_payload push_event)"
    "in_idempotency_key push_event = Some ''k1''"
  by (simp_all add: push_event_def event_input_def)
    (simp_all add: validate_execution_event_def validate_input_def graphic_identifier graphic_def
      graphic_short_text [unfolded graphic_def] sample_id_graphic [unfolded graphic_def]
      intent_payload_def validate_metadata_payload_def btree_collect_def json_opt_def
      validate_metadata_value_def allowed_metadata_key_def CANONICAL_GATE_ORDER_def is_witnessed_def)

lemma push_guard_executes:
  "\<exists>w. guard_before local_system Local push_request CANONICAL_GATE_ORDER push_world = (w, Inr Execute)"
proof -
  let ?L = "codec_lib \<lparr> al_sha256 := pad32 \<rparr>" and ?U = sample_uuid_lib
  have L: "audit_lib_ok ?L" using local_system_ok by (simp add: authority_ok_def system_ok_def)
  obtain db rec where claim: "claim_execution ?L sample_tick push_event empty_db = (db, Inr (Acquired rec))"
    using claim_on_empty [OF L push_event_valid(3,1,2,4)] by blast
  obtain h where h: "envelope_hash local_system push_request = Inr h" using push_hash by blast
  let ?auth = "the (authority (req_context push_request))"
  let ?c = "consumption push_request ?auth 20 h 100"
  have "\<exists>b db. consume_approved ?U ?c [row_of ?U push_approval] = (db, Inr (Some b))"
  proof -
    have tok: "canonical_token_identity ?U (sample_id 4) = Inr (sample_id 4)"
      using sample_uuid_lib_ok sample_id_graphic(3)
      by (simp add: canonical_token_identity_def approval_limits sample_uuid_version)
    have "exact_match push_approval ?c (sample_id 4)"
      using h by (simp add: exact_match_def consumption_def push_approval_def)
    then show ?thesis
      using consume_spec [OF sample_uuid_lib_ok push_approvals_ok, of ?c] tok
      by (simp add: consumption_def push_approval_def)
  qed
  then obtain b adb where consume: "consume_approved ?U ?c [row_of ?U push_approval] = (adb, Inr (Some b))" by blast
  have "consume_for_execution local_system push_request ?auth (sample_id 20) (push_world \<lparr> w_audit := db \<rparr>) =
      (push_world \<lparr> w_audit := db, w_approvals := adb \<rparr>, Inr Execute)"
    using h consume sample_uuid_lib_ok
    by (simp add: consume_for_execution_def now_seconds_def unix_seconds_from_def on_approvals_def push_world_def)
  moreover have "event_input ?U push_request Intent (intent_payload Local push_request ?auth CANONICAL_GATE_ORDER) =
      Inr push_event"
    by (simp add: push_event_def event_input_def)
  moreover have "boundary_claim_execution local_system Local push_event push_world =
      (push_world \<lparr> w_audit := db \<rparr>, Inr (Acquired rec))"
    using claim by (simp add: boundary_claim_execution_def store_claim_def on_audit_def) (simp add: push_world_def)
  ultimately show ?thesis by (simp add: guard_before_def claim_answer_def)
qed

text \<open>One request alone: its steps are steps of the whole system.\<close>

fun solo_run :: "nat \<Rightarrow> 's dispatcher \<Rightarrow> gate_request \<Rightarrow> 's config \<Rightarrow> 's config" where
  "solo_run 0 d r c = c"
| "solo_run (Suc n) d r c =
     (case tasks c of
        [(_, pc)] \<Rightarrow> (case dispatch_step d r pc (shared c) of
          (s', es, pc') \<Rightarrow> solo_run n d r \<lparr> shared = s', tasks = [(r, pc')],
            executions = (if is_AtExecute pc then executions c @ [r] else executions c) \<rparr>)
      | _ \<Rightarrow> c)"

lemma solo_run_reachable:
  "tasks c = [(r, pc)] \<Longrightarrow> (sys_step d valid env)\<^sup>*\<^sup>* c (solo_run n d r c)"
proof (induction n arbitrary: c pc)
  case (Suc n)
  obtain s' es pc' where st: "dispatch_step d r pc (shared c) = (s', es, pc')" by (metis prod_cases3)
  let ?c = "\<lparr> shared = s', tasks = [(r, pc')],
    executions = (if is_AtExecute pc then executions c @ [r] else executions c) \<rparr>"
  have "sys_step d valid env c ?c"
    using sys_step.advance [of 0 c r pc d s' es pc'] Suc.prems st by simp
  moreover have "(sys_step d valid env)\<^sup>*\<^sup>* ?c (solo_run n d r ?c)" by (rule Suc.IH) simp
  ultimately show ?case using Suc.prems st by simp
qed simp

definition pass_gate :: "string \<Rightarrow> unit world gate" where
  "pass_gate n = \<lparr> gate_name = n, gate_check = (\<lambda>_ w. (w, Inr Allow)) \<rparr>"

definition push_executor :: "unit world executor" where
  "push_executor ctx i w = (w, Inr (JString ''pushed''))"

definition pass_filter :: "unit world output_filter" where
  "pass_filter = \<lparr> filter_name = ''pass'', filter_apply = (\<lambda>v ctx w. (w, v, Pass)) \<rparr>"

definition push_dispatcher :: "unit world dispatcher" where
  "push_dispatcher = governed local_system Local (pass_gate ''pistis'') (pass_gate ''plutus'')
     (pass_gate ''eidolon'') push_executor pass_filter"

lemma push_dispatcher_governed:
  "governed_dispatcher local_system Local (pass_gate ''pistis'') (pass_gate ''plutus'') (pass_gate ''eidolon'')
     push_executor pass_filter = Inr push_dispatcher"
  by (simp add: governed_dispatcher_iff push_dispatcher_def pass_gate_def)

lemma push_parts_advance:
  "parts_advance local_system (pass_gate ''pistis'') (pass_gate ''plutus'') (pass_gate ''eidolon'')
     push_executor pass_filter"
  by (simp add: parts_advance_def gate_advances_def pass_gate_def push_executor_def pass_filter_def)

lemma push_executes:
  "\<exists>c. (sys_step push_dispatcher (typed_request sample_uuid_lib) env)\<^sup>*\<^sup>* (idle push_world) c \<and>
     executions c = [push_request]"
proof -
  obtain w where w: "guard_before local_system Local push_request CANONICAL_GATE_ORDER push_world = (w, Inr Execute)"
    using push_guard_executes by blast
  let ?gs = "gates push_dispatcher"
  let ?c = "\<lparr> shared = push_world, tasks = [(push_request, AtGate [] ?gs)], executions = [] \<rparr>"
  have "typed_request sample_uuid_lib push_request" by (simp add: typed_request_def sample_uuid_version)
  then have "sys_step push_dispatcher (typed_request sample_uuid_lib) env (idle push_world) ?c"
    using sys_step.arrive [of "typed_request sample_uuid_lib" push_request push_dispatcher env "idle push_world"]
    by (simp add: idle_def)
  moreover have "(sys_step push_dispatcher (typed_request sample_uuid_lib) env)\<^sup>*\<^sup>* ?c (solo_run 8 push_dispatcher push_request ?c)"
    by (rule solo_run_reachable) simp
  moreover have "executions (solo_run 8 push_dispatcher push_request ?c) = [push_request]"
    using w push_human_allows
    by (simp add: eval_nat_numeral push_dispatcher_def governed_def public_gate_chain_def pass_gate_def
        durable_human_gate_def phylaxd_gate_def phylaxd_check_def audit_execution_guard_def push_executor_def
        CANONICAL_GATE_ORDER_def)
  ultimately show ?thesis by (meson converse_rtranclp_into_rtranclp)
qed

theorem executed_once_per_retry_key_witness:
  "\<exists>c. (sys_step push_dispatcher (typed_request sample_uuid_lib) (world_advances local_system))\<^sup>*\<^sup>* (idle push_world) c \<and>
     executions c = [push_request] \<and> claim_of (shared c) (sample_id 8, sample_id 24, ''k1'')"
proof -
  obtain c where c: "(sys_step push_dispatcher (typed_request sample_uuid_lib) (world_advances local_system))\<^sup>*\<^sup>*
      (idle push_world) c" "executions c = [push_request]" using push_executes by blast
  from executed_once_per_retry_key [OF push_dispatcher_governed local_system_ok push_parts_advance push_world_ok, of c] c
  show ?thesis by (auto simp: retry_key_def)
qed

theorem executed_only_with_own_approval_witness:
  "\<exists>c a. (sys_step push_dispatcher (typed_request sample_uuid_lib) (world_advances local_system))\<^sup>*\<^sup>* (idle push_world) c \<and>
     executions c = [push_request] \<and> bound_approval local_system push_request a \<and>
     approval_entry sample_uuid_lib (w_approvals (shared c)) 20 = Some a"
proof -
  obtain c where c: "(sys_step push_dispatcher (typed_request sample_uuid_lib) (world_advances local_system))\<^sup>*\<^sup>*
      (idle push_world) c" "executions c = [push_request]" using push_executes by blast
  have "requires_human_approval (req_invocation push_request)"
    by (simp add: requires_human_approval_def reviewed_reads_def)
  with executed_only_with_own_approval [OF push_dispatcher_governed local_system_ok push_parts_advance push_world_ok, of c 20]
  have "\<exists>a. approval_entry sample_uuid_lib (w_approvals (shared c)) 20 = Some a \<and> bound_approval local_system push_request a"
    using c sample_uuid_lib_ok by (simp add: approval_key_def)
  with c show ?thesis by blast
qed

end
