(* ===== verification/Identity.thy ===== *)
theory Identity
  imports Contracts Ledger
begin

text \<open>
  The server-owned credential store of \<open>syntheos-identity/src/authority.rs\<close>: machine tokens and the
  operator refresh sessions with their rotation families, as operations on the three tables of
  \<open>V3__authority_credentials.sql\<close>. Fresh identifiers and secrets are arguments. The crates
  \<open>sha2\<close>, \<open>base64\<close>, \<open>serde_json\<close> (for the scope list) and \<open>uuid\<close> are the record \<open>cred_lib\<close>; what is relied
  on from them is \<open>cred_lib_ok\<close>.
\<close>

section \<open>Values\<close>

datatype directory_error = Backend string | AlreadyExists uuid

record cred_lib =
  cl_uuid :: uuid_lib
  cl_sha256 :: "bytes \<Rightarrow> bytes"
  cl_encode :: "bytes \<Rightarrow> string"
  cl_decode :: "string \<Rightarrow> bytes option"
  cl_scopes_text :: "string list \<Rightarrow> string"
  cl_scopes_parse :: "string \<Rightarrow> string list option"

definition MAX_LABEL_BYTES :: nat where "MAX_LABEL_BYTES = 128"
definition MAX_SCOPE_COUNT :: nat where "MAX_SCOPE_COUNT = 64"
definition MAX_SCOPE_BYTES :: nat where "MAX_SCOPE_BYTES = 128"
definition MAX_SCOPES_BYTES :: nat where "MAX_SCOPES_BYTES = 4096"

lemmas credential_limits = MAX_LABEL_BYTES_def MAX_SCOPE_COUNT_def MAX_SCOPE_BYTES_def MAX_SCOPES_BYTES_def

record machine_token =
  mt_id :: uuid
  mt_tenant :: uuid
  mt_principal :: uuid
  mt_label :: string
  mt_scopes :: "string list"
  mt_created_at :: int
  mt_expires_at :: "int option"
  mt_revoked_at :: "int option"
  mt_last_used_at :: "int option"

record operator_refresh_session =
  rs_id :: uuid
  rs_family_id :: uuid
  rs_tenant :: uuid
  rs_principal :: uuid
  rs_created_at :: int
  rs_expires_at :: "int option"
  rs_revoked_at :: "int option"
  rs_last_used_at :: "int option"

record machine_token_issued =
  mi_token :: string
  mi_metadata :: machine_token

record refresh_session_issued =
  rf_token :: string
  rf_metadata :: operator_refresh_session

text \<open>The rows of the three tables.\<close>

record machine_row =
  mr_id :: string
  mr_secret_hash :: bytes
  mr_tenant_id :: string
  mr_principal_id :: string
  mr_label :: string
  mr_scopes_json :: string
  mr_created_at :: int
  mr_expires_at :: "int option"
  mr_revoked_at :: "int option"
  mr_last_used_at :: "int option"

record family_row =
  fr_id :: string
  fr_tenant_id :: string
  fr_principal_id :: string
  fr_created_at :: int
  fr_revoked_at :: "int option"

record session_row =
  sr_id :: string
  sr_family_id :: string
  sr_secret_hash :: bytes
  sr_tenant_id :: string
  sr_principal_id :: string
  sr_created_at :: int
  sr_expires_at :: "int option"
  sr_revoked_at :: "int option"
  sr_last_used_at :: "int option"

record identity_db =
  id_tokens :: "machine_row list"
  id_families :: "family_row list"
  id_sessions :: "session_row list"

definition empty_identity :: identity_db where
  "empty_identity = \<lparr> id_tokens = [], id_families = [], id_sessions = [] \<rparr>"


section \<open>Secrets and validation\<close>

definition digest :: "cred_lib \<Rightarrow> bytes \<Rightarrow> bytes" where
  "digest C secret = cl_sha256 C secret"

definition decode_secret :: "cred_lib \<Rightarrow> string \<Rightarrow> bytes option" where
  "decode_secret C value =
     (case cl_decode C value of
        None \<Rightarrow> None
      | Some decoded \<Rightarrow> if length decoded \<noteq> 32 then None else Some decoded)"

definition validate_machine_issuance ::
    "string \<Rightarrow> string list \<Rightarrow> int option \<Rightarrow> int \<Rightarrow> directory_error + unit" where
  "validate_machine_issuance label scopes expires_at now =
     (if label = [] \<or> length label > MAX_LABEL_BYTES then Inl (Backend ''invalid machine token label'')
      else if length scopes > MAX_SCOPE_COUNT
        \<or> list_ex (\<lambda>scope. scope = [] \<or> length scope > MAX_SCOPE_BYTES) scopes
        \<or> sum_list (map length scopes) > MAX_SCOPES_BYTES
      then Inl (Backend ''invalid machine token scopes'')
      else if (case expires_at of Some expires \<Rightarrow> expires \<le> now | None \<Rightarrow> False)
      then Inl (Backend ''machine token expiry must be in the future'')
      else Inr ())"

definition tenant_from_db :: "cred_lib \<Rightarrow> string \<Rightarrow> directory_error + uuid" where
  "tenant_from_db C value =
     (case id_from_str (cl_uuid C) value of
        Inl e \<Rightarrow> Inl (Backend (''corrupt authority tenant: '' @ e)) | Inr x \<Rightarrow> Inr x)"

definition principal_from_db :: "cred_lib \<Rightarrow> string \<Rightarrow> directory_error + uuid" where
  "principal_from_db C value =
     (case id_from_str (cl_uuid C) value of
        Inl e \<Rightarrow> Inl (Backend (''corrupt authority principal: '' @ e)) | Inr x \<Rightarrow> Inr x)"

definition record_id_from_db :: "cred_lib \<Rightarrow> string \<Rightarrow> directory_error + uuid" where
  "record_id_from_db C value = ok_or (parse_str (cl_uuid C) value) (Backend ''corrupt authority record id'')"

definition machine_from_row :: "cred_lib \<Rightarrow> machine_row \<Rightarrow> directory_error + machine_token" where
  "machine_from_row C row =
     (case record_id_from_db C (mr_id row) of Inl e \<Rightarrow> Inl e | Inr uid \<Rightarrow>
      case tenant_from_db C (mr_tenant_id row) of Inl e \<Rightarrow> Inl e | Inr tenant \<Rightarrow>
      case principal_from_db C (mr_principal_id row) of Inl e \<Rightarrow> Inl e | Inr prin \<Rightarrow>
      case cl_scopes_parse C (mr_scopes_json row) of None \<Rightarrow> Inl (Backend ''invalid scopes'') | Some scopes \<Rightarrow>
      Inr \<lparr> mt_id = uid, mt_tenant = tenant, mt_principal = prin, mt_label = mr_label row,
            mt_scopes = scopes, mt_created_at = mr_created_at row, mt_expires_at = mr_expires_at row,
            mt_revoked_at = mr_revoked_at row, mt_last_used_at = mr_last_used_at row \<rparr>)"

definition refresh_from_row :: "cred_lib \<Rightarrow> session_row \<Rightarrow> directory_error + operator_refresh_session" where
  "refresh_from_row C row =
     (case record_id_from_db C (sr_id row) of Inl e \<Rightarrow> Inl e | Inr uid \<Rightarrow>
      case record_id_from_db C (sr_family_id row) of Inl e \<Rightarrow> Inl e | Inr family \<Rightarrow>
      case tenant_from_db C (sr_tenant_id row) of Inl e \<Rightarrow> Inl e | Inr tenant \<Rightarrow>
      case principal_from_db C (sr_principal_id row) of Inl e \<Rightarrow> Inl e | Inr prin \<Rightarrow>
      Inr \<lparr> rs_id = uid, rs_family_id = family, rs_tenant = tenant, rs_principal = prin,
            rs_created_at = sr_created_at row, rs_expires_at = sr_expires_at row,
            rs_revoked_at = sr_revoked_at row, rs_last_used_at = sr_last_used_at row \<rparr>)"

definition query_optional :: "('r \<Rightarrow> directory_error + 'a) \<Rightarrow> 'r option \<Rightarrow> directory_error + 'a option" where
  "query_optional f found =
     (case found of None \<Rightarrow> Inr None
      | Some row \<Rightarrow> (case f row of Inl e \<Rightarrow> Inl e | Inr x \<Rightarrow> Inr (Some x)))"

definition machine_auth_row ::
    "cred_lib \<Rightarrow> uuid \<Rightarrow> identity_db \<Rightarrow> directory_error + (bytes \<times> machine_token) option" where
  "machine_auth_row C uid db =
     query_optional (\<lambda>row. case machine_from_row C row of Inl e \<Rightarrow> Inl e | Inr t \<Rightarrow> Inr (mr_secret_hash row, t))
       (find (\<lambda>row. mr_id row = uuid_text (cl_uuid C) uid) (id_tokens db))"

definition refresh_auth_row ::
    "cred_lib \<Rightarrow> bytes \<Rightarrow> identity_db \<Rightarrow> directory_error + operator_refresh_session option" where
  "refresh_auth_row C secret_hash db =
     query_optional (refresh_from_row C) (find (\<lambda>row. sr_secret_hash row = secret_hash) (id_sessions db))"

definition refresh_family_is_active :: "cred_lib \<Rightarrow> operator_refresh_session \<Rightarrow> identity_db \<Rightarrow> bool" where
  "refresh_family_is_active C session db =
     list_ex (\<lambda>f. fr_id f = uuid_text (cl_uuid C) (rs_family_id session)
        \<and> fr_tenant_id f = uuid_text (cl_uuid C) (rs_tenant session)
        \<and> fr_principal_id f = uuid_text (cl_uuid C) (rs_principal session) \<and> fr_revoked_at f = None)
       (id_families db)"

definition coalesce :: "int option \<Rightarrow> int \<Rightarrow> int option" where
  "coalesce m now = (case m of None \<Rightarrow> Some now | Some t \<Rightarrow> Some t)"

definition family_where :: "cred_lib \<Rightarrow> uuid \<Rightarrow> uuid \<Rightarrow> uuid \<Rightarrow> family_row \<Rightarrow> bool" where
  "family_where C tenant prin family f \<longleftrightarrow> fr_id f = uuid_text (cl_uuid C) family \<and>
     fr_tenant_id f = uuid_text (cl_uuid C) tenant \<and> fr_principal_id f = uuid_text (cl_uuid C) prin"

definition member_where :: "cred_lib \<Rightarrow> uuid \<Rightarrow> uuid \<Rightarrow> uuid \<Rightarrow> session_row \<Rightarrow> bool" where
  "member_where C tenant prin family s \<longleftrightarrow> sr_family_id s = uuid_text (cl_uuid C) family \<and>
     sr_tenant_id s = uuid_text (cl_uuid C) tenant \<and> sr_principal_id s = uuid_text (cl_uuid C) prin"

definition revoke_refresh_family_in_tx ::
    "cred_lib \<Rightarrow> uuid \<Rightarrow> uuid \<Rightarrow> uuid \<Rightarrow> int \<Rightarrow> identity_db \<Rightarrow> identity_db \<times> bool" where
  "revoke_refresh_family_in_tx C tenant prin family now db =
     (let db1 = db \<lparr> id_families := sql_update (family_where C tenant prin family)
                       (\<lambda>f. f \<lparr> fr_revoked_at := coalesce (fr_revoked_at f) now \<rparr>) (id_families db) \<rparr> in
      if sql_changed (family_where C tenant prin family) (id_families db) \<noteq> 1 then (db1, False)
      else (db1 \<lparr> id_sessions := sql_update (member_where C tenant prin family)
                    (\<lambda>s. s \<lparr> sr_revoked_at := coalesce (sr_revoked_at s) now \<rparr>) (id_sessions db1) \<rparr>, True))"


section \<open>Machine tokens\<close>

text \<open>The table's constraints on an insert; \<open>length\<close> of a text column counts characters.\<close>

definition machine_checks :: "machine_row \<Rightarrow> bool" where
  "machine_checks r \<longleftrightarrow> length (utf8_chars (mr_id r)) = 36 \<and> length (mr_secret_hash r) = 32 \<and>
     length (utf8_chars (mr_tenant_id r)) = 36 \<and> length (utf8_chars (mr_principal_id r)) = 36 \<and>
     1 \<le> length (mr_label r) \<and> length (mr_label r) \<le> 128 \<and> length (mr_scopes_json r) \<le> 25000"

definition insert_token :: "machine_row \<Rightarrow> machine_row list \<Rightarrow> directory_error + machine_row list" where
  "insert_token r rows =
     (if \<not> machine_checks r then Inl (Backend ''CHECK constraint failed: machine_token'')
      else if list_ex (\<lambda>x. mr_id x = mr_id r) rows
      then Inl (Backend ''UNIQUE constraint failed: machine_token.id'')
      else Inr (rows @ [r]))"

definition create_machine_token ::
    "cred_lib \<Rightarrow> uuid \<Rightarrow> bytes \<Rightarrow> uuid \<Rightarrow> uuid \<Rightarrow> string \<Rightarrow> string list \<Rightarrow> int option \<Rightarrow> int \<Rightarrow> identity_db \<Rightarrow>
     identity_db \<times> (directory_error + machine_token_issued)" where
  "create_machine_token C uid secret tenant prin label scopes expires_at now db =
     (case validate_machine_issuance label scopes expires_at now of Inl e \<Rightarrow> (db, Inl e) | Inr _ \<Rightarrow>
      let metadata = \<lparr> mt_id = uid, mt_tenant = tenant, mt_principal = prin, mt_label = label,
            mt_scopes = scopes, mt_created_at = now, mt_expires_at = expires_at,
            mt_revoked_at = None, mt_last_used_at = None \<rparr>;
          row = \<lparr> mr_id = uuid_text (cl_uuid C) uid, mr_secret_hash = digest C secret,
            mr_tenant_id = uuid_text (cl_uuid C) tenant, mr_principal_id = uuid_text (cl_uuid C) prin,
            mr_label = label, mr_scopes_json = cl_scopes_text C scopes, mr_created_at = now,
            mr_expires_at = expires_at, mr_revoked_at = None, mr_last_used_at = None \<rparr> in
      case insert_token row (id_tokens db) of
        Inl e \<Rightarrow> (db, Inl e)
      | Inr rows \<Rightarrow> (db \<lparr> id_tokens := rows \<rparr>,
          Inr \<lparr> mi_token = ''hen_v1_'' @ uuid_text (cl_uuid C) uid @ ''.'' @ cl_encode C secret,
                mi_metadata = metadata \<rparr>))"

fun strip_prefix :: "string \<Rightarrow> string \<Rightarrow> string option" where
  "strip_prefix [] s = Some s"
| "strip_prefix (p # ps) (c # cs) = (if p = c then strip_prefix ps cs else None)"
| "strip_prefix _ [] = None"

definition unexpired :: "int option \<Rightarrow> int \<Rightarrow> bool" where
  "unexpired expires now = (case expires of None \<Rightarrow> True | Some t \<Rightarrow> t > now)"

text \<open>The parts of a wire credential: the record identifier and the secret.\<close>

definition parse_credential :: "cred_lib \<Rightarrow> string \<Rightarrow> (uuid \<times> bytes) option" where
  "parse_credential C credential =
     (case strip_prefix ''hen_v1_'' credential of None \<Rightarrow> None | Some rest \<Rightarrow>
      case split_once CHR ''.'' rest of None \<Rightarrow> None | Some (id_text, secret_text) \<Rightarrow>
      if CHR ''.'' \<in> set secret_text then None
      else case parse_str (cl_uuid C) id_text of None \<Rightarrow> None | Some uid \<Rightarrow>
        case decode_secret C secret_text of None \<Rightarrow> None | Some secret \<Rightarrow> Some (uid, secret))"

definition authenticate_machine_token ::
    "cred_lib \<Rightarrow> string \<Rightarrow> int \<Rightarrow> identity_db \<Rightarrow> identity_db \<times> (directory_error + machine_token option)" where
  "authenticate_machine_token C credential now db =
     (case parse_credential C credential of None \<Rightarrow> (db, Inr None) | Some (uid, secret) \<Rightarrow>
      case machine_auth_row C uid db of
        Inl e \<Rightarrow> (db, Inl e)
      | Inr None \<Rightarrow> (db, Inr None)
      | Inr (Some (stored_digest, metadata)) \<Rightarrow>
          if \<not> (length stored_digest = 32 \<and> stored_digest = digest C secret)
             \<or> \<not> (mt_revoked_at metadata = None \<and> unexpired (mt_expires_at metadata) now)
          then (db, Inr None)
          else (db \<lparr> id_tokens := sql_update (\<lambda>r. mr_id r = uuid_text (cl_uuid C) uid)
                       (\<lambda>r. r \<lparr> mr_last_used_at := Some now \<rparr>) (id_tokens db) \<rparr>,
                Inr (Some (metadata \<lparr> mt_last_used_at := Some now \<rparr>))))"

fun collect_rows :: "('r \<Rightarrow> directory_error + 'a) \<Rightarrow> 'r list \<Rightarrow> directory_error + 'a list" where
  "collect_rows f [] = Inr []"
| "collect_rows f (r # rs) =
     (case f r of Inl e \<Rightarrow> Inl e | Inr x \<Rightarrow>
      case collect_rows f rs of Inl e \<Rightarrow> Inl e | Inr xs \<Rightarrow> Inr (x # xs))"

definition list_machine_tokens :: "cred_lib \<Rightarrow> uuid \<Rightarrow> identity_db \<Rightarrow> directory_error + machine_token list" where
  "list_machine_tokens C tenant db =
     collect_rows (machine_from_row C) (sort_key (\<lambda>r. - mr_created_at r)
       (filter (\<lambda>r. mr_tenant_id r = uuid_text (cl_uuid C) tenant) (id_tokens db)))"

definition token_where :: "cred_lib \<Rightarrow> uuid \<Rightarrow> uuid \<Rightarrow> machine_row \<Rightarrow> bool" where
  "token_where C tenant uid r \<longleftrightarrow> mr_id r = uuid_text (cl_uuid C) uid \<and> mr_tenant_id r = uuid_text (cl_uuid C) tenant"

definition revoke_machine_token ::
    "cred_lib \<Rightarrow> uuid \<Rightarrow> uuid \<Rightarrow> int \<Rightarrow> identity_db \<Rightarrow> identity_db \<times> (directory_error + bool)" where
  "revoke_machine_token C tenant uid now db =
     (db \<lparr> id_tokens := sql_update (token_where C tenant uid)
             (\<lambda>r. r \<lparr> mr_revoked_at := coalesce (mr_revoked_at r) now \<rparr>) (id_tokens db) \<rparr>,
      Inr (sql_changed (token_where C tenant uid) (id_tokens db) = 1))"

definition machine_token_has_scope :: "machine_token \<Rightarrow> string \<Rightarrow> bool" where
  "machine_token_has_scope token scope = list_ex (\<lambda>granted. granted = scope) (mt_scopes token)"


section \<open>Operator refresh sessions\<close>

definition family_checks :: "family_row \<Rightarrow> bool" where
  "family_checks f \<longleftrightarrow> length (utf8_chars (fr_id f)) = 36 \<and> length (utf8_chars (fr_tenant_id f)) = 36 \<and>
     length (utf8_chars (fr_principal_id f)) = 36"

definition insert_family :: "family_row \<Rightarrow> family_row list \<Rightarrow> directory_error + family_row list" where
  "insert_family r rows =
     (if \<not> family_checks r then Inl (Backend ''CHECK constraint failed: operator_refresh_family'')
      else if list_ex (\<lambda>x. fr_id x = fr_id r) rows
      then Inl (Backend ''UNIQUE constraint failed: operator_refresh_family.id'')
      else Inr (rows @ [r]))"

definition session_checks :: "session_row \<Rightarrow> bool" where
  "session_checks s \<longleftrightarrow> length (utf8_chars (sr_id s)) = 36 \<and> length (utf8_chars (sr_family_id s)) = 36 \<and>
     length (sr_secret_hash s) = 32 \<and> length (utf8_chars (sr_tenant_id s)) = 36 \<and>
     length (utf8_chars (sr_principal_id s)) = 36"

definition insert_session :: "session_row \<Rightarrow> session_row list \<Rightarrow> directory_error + session_row list" where
  "insert_session r rows =
     (if \<not> session_checks r then Inl (Backend ''CHECK constraint failed: operator_refresh_session'')
      else if list_ex (\<lambda>x. sr_id x = sr_id r \<or> sr_secret_hash x = sr_secret_hash r) rows
      then Inl (Backend ''UNIQUE constraint failed: operator_refresh_session'')
      else Inr (rows @ [r]))"

definition new_session ::
    "uuid \<Rightarrow> uuid \<Rightarrow> uuid \<Rightarrow> uuid \<Rightarrow> int option \<Rightarrow> int \<Rightarrow> operator_refresh_session" where
  "new_session uid family tenant prin expires_at now =
     \<lparr> rs_id = uid, rs_family_id = family, rs_tenant = tenant, rs_principal = prin,
       rs_created_at = now, rs_expires_at = expires_at, rs_revoked_at = None, rs_last_used_at = None \<rparr>"

definition session_row_of :: "cred_lib \<Rightarrow> bytes \<Rightarrow> operator_refresh_session \<Rightarrow> session_row" where
  "session_row_of C secret m =
     \<lparr> sr_id = uuid_text (cl_uuid C) (rs_id m), sr_family_id = uuid_text (cl_uuid C) (rs_family_id m),
       sr_secret_hash = digest C secret, sr_tenant_id = uuid_text (cl_uuid C) (rs_tenant m),
       sr_principal_id = uuid_text (cl_uuid C) (rs_principal m), sr_created_at = rs_created_at m,
       sr_expires_at = rs_expires_at m, sr_revoked_at = None, sr_last_used_at = None \<rparr>"

definition expiry_passed :: "int option \<Rightarrow> int \<Rightarrow> bool" where
  "expiry_passed expires now = (case expires of None \<Rightarrow> False | Some t \<Rightarrow> t \<le> now)"

definition issue_operator_refresh ::
    "cred_lib \<Rightarrow> uuid \<Rightarrow> uuid \<Rightarrow> bytes \<Rightarrow> uuid \<Rightarrow> uuid \<Rightarrow> int option \<Rightarrow> int \<Rightarrow> identity_db \<Rightarrow>
     identity_db \<times> (directory_error + refresh_session_issued)" where
  "issue_operator_refresh C uid family secret tenant prin expires_at now db =
     (if expiry_passed expires_at now then (db, Inl (Backend ''refresh expiry must be in the future''))
      else
        let metadata = new_session uid family tenant prin expires_at now in
        case insert_family \<lparr> fr_id = uuid_text (cl_uuid C) family, fr_tenant_id = uuid_text (cl_uuid C) tenant,
               fr_principal_id = uuid_text (cl_uuid C) prin, fr_created_at = now, fr_revoked_at = None \<rparr>
               (id_families db) of
          Inl e \<Rightarrow> (db, Inl e)
        | Inr families \<Rightarrow>
            (case insert_session (session_row_of C secret metadata) (id_sessions db) of
               Inl e \<Rightarrow> (db, Inl e)
             | Inr sessions \<Rightarrow>
                 (db \<lparr> id_families := families, id_sessions := sessions \<rparr>,
                  Inr \<lparr> rf_token = cl_encode C secret, rf_metadata = metadata \<rparr>)))"

definition authenticate_operator_refresh ::
    "cred_lib \<Rightarrow> string \<Rightarrow> int \<Rightarrow> identity_db \<Rightarrow> identity_db \<times> (directory_error + operator_refresh_session option)" where
  "authenticate_operator_refresh C token now db =
     (case decode_secret C token of None \<Rightarrow> (db, Inr None) | Some secret \<Rightarrow>
      case refresh_auth_row C (digest C secret) db of
        Inl e \<Rightarrow> (db, Inl e)
      | Inr None \<Rightarrow> (db, Inr None)
      | Inr (Some session) \<Rightarrow>
          if rs_revoked_at session \<noteq> None \<or> expiry_passed (rs_expires_at session) now
             \<or> \<not> refresh_family_is_active C session db
          then (db, Inr None)
          else (db \<lparr> id_sessions := sql_update (\<lambda>s. sr_id s = uuid_text (cl_uuid C) (rs_id session))
                       (\<lambda>s. s \<lparr> sr_last_used_at := Some now \<rparr>) (id_sessions db) \<rparr>,
                Inr (Some (session \<lparr> rs_last_used_at := Some now \<rparr>))))"

definition rotate_where :: "cred_lib \<Rightarrow> uuid \<Rightarrow> uuid \<Rightarrow> operator_refresh_session \<Rightarrow> session_row \<Rightarrow> bool" where
  "rotate_where C tenant prin previous s \<longleftrightarrow> sr_id s = uuid_text (cl_uuid C) (rs_id previous) \<and>
     member_where C tenant prin (rs_family_id previous) s \<and> sr_revoked_at s = None"

definition rotate_operator_refresh ::
    "cred_lib \<Rightarrow> uuid \<Rightarrow> bytes \<Rightarrow> uuid \<Rightarrow> uuid \<Rightarrow> string \<Rightarrow> int option \<Rightarrow> int \<Rightarrow> identity_db \<Rightarrow>
     identity_db \<times> (directory_error + refresh_session_issued option)" where
  "rotate_operator_refresh C uid secret' tenant prin token expires_at now db =
     (if expiry_passed expires_at now then (db, Inl (Backend ''refresh expiry must be in the future''))
      else case decode_secret C token of None \<Rightarrow> (db, Inr None) | Some secret \<Rightarrow>
      case refresh_auth_row C (digest C secret) db of
        Inl e \<Rightarrow> (db, Inl e)
      | Inr None \<Rightarrow> (db, Inr None)
      | Inr (Some previous) \<Rightarrow>
          if \<not> (rs_tenant previous = tenant \<and> rs_principal previous = prin \<and>
                rs_revoked_at previous = None \<and> unexpired (rs_expires_at previous) now \<and>
                refresh_family_is_active C previous db)
          then (db, Inr None)
          else if sql_changed (rotate_where C tenant prin previous) (id_sessions db) \<noteq> 1
          then (db, Inr None)
          else
            let sessions = sql_update (rotate_where C tenant prin previous)
                  (\<lambda>s. s \<lparr> sr_revoked_at := Some now, sr_last_used_at := Some now \<rparr>) (id_sessions db);
                metadata = new_session uid (rs_family_id previous) tenant prin expires_at now in
            case insert_session (session_row_of C secret' metadata) sessions of
              Inl e \<Rightarrow> (db, Inl e)
            | Inr sessions' \<Rightarrow> (db \<lparr> id_sessions := sessions' \<rparr>,
                Inr (Some \<lparr> rf_token = cl_encode C secret', rf_metadata = metadata \<rparr>)))"

definition list_operator_refreshes ::
    "cred_lib \<Rightarrow> uuid \<Rightarrow> identity_db \<Rightarrow> directory_error + operator_refresh_session list" where
  "list_operator_refreshes C tenant db =
     collect_rows (refresh_from_row C) (sort_key (\<lambda>s. - sr_created_at s)
       (filter (\<lambda>s. sr_tenant_id s = uuid_text (cl_uuid C) tenant) (id_sessions db)))"

definition session_where :: "cred_lib \<Rightarrow> uuid \<Rightarrow> uuid \<Rightarrow> session_row \<Rightarrow> bool" where
  "session_where C tenant uid s \<longleftrightarrow> sr_id s = uuid_text (cl_uuid C) uid \<and> sr_tenant_id s = uuid_text (cl_uuid C) tenant"

definition revoke_operator_refresh ::
    "cred_lib \<Rightarrow> uuid \<Rightarrow> uuid \<Rightarrow> int \<Rightarrow> identity_db \<Rightarrow> identity_db \<times> (directory_error + bool)" where
  "revoke_operator_refresh C tenant uid now db =
     (db \<lparr> id_sessions := sql_update (session_where C tenant uid)
             (\<lambda>s. s \<lparr> sr_revoked_at := coalesce (sr_revoked_at s) now \<rparr>) (id_sessions db) \<rparr>,
      Inr (sql_changed (session_where C tenant uid) (id_sessions db) = 1))"

definition revoke_operator_refresh_family ::
    "cred_lib \<Rightarrow> uuid \<Rightarrow> uuid \<Rightarrow> uuid \<Rightarrow> int \<Rightarrow> identity_db \<Rightarrow> identity_db \<times> (directory_error + bool)" where
  "revoke_operator_refresh_family C tenant prin family now db =
     map_prod id Inr (revoke_refresh_family_in_tx C tenant prin family now db)"

definition revoke_operator_refresh_family_by_token ::
    "cred_lib \<Rightarrow> string \<Rightarrow> int \<Rightarrow> identity_db \<Rightarrow> identity_db \<times> (directory_error + bool)" where
  "revoke_operator_refresh_family_by_token C token now db =
     (case decode_secret C token of None \<Rightarrow> (db, Inr False) | Some secret \<Rightarrow>
      case refresh_auth_row C (digest C secret) db of
        Inl e \<Rightarrow> (db, Inl e)
      | Inr None \<Rightarrow> (db, Inr False)
      | Inr (Some session) \<Rightarrow>
          map_prod id Inr (revoke_refresh_family_in_tx C (rs_tenant session) (rs_principal session)
            (rs_family_id session) now db))"


section \<open>The store as a sequence of operations\<close>

datatype identity_op =
    CreateToken uuid bytes uuid uuid string "string list" "int option" int
  | AuthenticateToken string int
  | ListTokens uuid
  | RevokeToken uuid uuid int
  | IssueRefresh uuid uuid bytes uuid uuid "int option" int
  | AuthenticateRefresh string int
  | RotateRefresh uuid bytes uuid uuid string "int option" int
  | ListRefreshes uuid
  | RevokeRefresh uuid uuid int
  | RevokeFamily uuid uuid uuid int
  | RevokeFamilyByToken string int

datatype identity_reply =
    TokenIssued "directory_error + machine_token_issued"
  | TokenReply "directory_error + machine_token option"
  | TokenList "directory_error + machine_token list"
  | RefreshIssued "directory_error + refresh_session_issued"
  | SessionReply "directory_error + operator_refresh_session option"
  | RotateReply "directory_error + refresh_session_issued option"
  | SessionList "directory_error + operator_refresh_session list"
  | DoneReply "directory_error + bool"

fun identity_step :: "cred_lib \<Rightarrow> identity_op \<Rightarrow> identity_db \<Rightarrow> identity_db \<times> identity_reply" where
  "identity_step C (CreateToken uid secret t p label scopes expires now) db =
     map_prod id TokenIssued (create_machine_token C uid secret t p label scopes expires now db)"
| "identity_step C (AuthenticateToken credential now) db =
     map_prod id TokenReply (authenticate_machine_token C credential now db)"
| "identity_step C (ListTokens t) db = (db, TokenList (list_machine_tokens C t db))"
| "identity_step C (RevokeToken t uid now) db = map_prod id DoneReply (revoke_machine_token C t uid now db)"
| "identity_step C (IssueRefresh uid family secret t p expires now) db =
     map_prod id RefreshIssued (issue_operator_refresh C uid family secret t p expires now db)"
| "identity_step C (AuthenticateRefresh token now) db =
     map_prod id SessionReply (authenticate_operator_refresh C token now db)"
| "identity_step C (RotateRefresh uid secret t p token expires now) db =
     map_prod id RotateReply (rotate_operator_refresh C uid secret t p token expires now db)"
| "identity_step C (ListRefreshes t) db = (db, SessionList (list_operator_refreshes C t db))"
| "identity_step C (RevokeRefresh t uid now) db = map_prod id DoneReply (revoke_operator_refresh C t uid now db)"
| "identity_step C (RevokeFamily t p family now) db =
     map_prod id DoneReply (revoke_operator_refresh_family C t p family now db)"
| "identity_step C (RevokeFamilyByToken token now) db =
     map_prod id DoneReply (revoke_operator_refresh_family_by_token C token now db)"


section \<open>Rows only move forward\<close>

text \<open>A stored row keeps every field but its use and revocation marks; a revocation is final.\<close>

definition token_forward :: "machine_row \<Rightarrow> machine_row \<Rightarrow> bool" where
  "token_forward r r' \<longleftrightarrow>
     r' \<lparr> mr_revoked_at := None, mr_last_used_at := None \<rparr> = r \<lparr> mr_revoked_at := None, mr_last_used_at := None \<rparr> \<and>
     (mr_revoked_at r \<noteq> None \<longrightarrow> mr_revoked_at r' = mr_revoked_at r)"

definition session_forward :: "session_row \<Rightarrow> session_row \<Rightarrow> bool" where
  "session_forward r r' \<longleftrightarrow>
     r' \<lparr> sr_revoked_at := None, sr_last_used_at := None \<rparr> = r \<lparr> sr_revoked_at := None, sr_last_used_at := None \<rparr> \<and>
     (sr_revoked_at r \<noteq> None \<longrightarrow> sr_revoked_at r' = sr_revoked_at r)"

definition family_forward :: "family_row \<Rightarrow> family_row \<Rightarrow> bool" where
  "family_forward r r' \<longleftrightarrow> r' \<lparr> fr_revoked_at := None \<rparr> = r \<lparr> fr_revoked_at := None \<rparr> \<and>
     (fr_revoked_at r \<noteq> None \<longrightarrow> fr_revoked_at r' = fr_revoked_at r)"

lemmas forward_defs = token_forward_def session_forward_def family_forward_def

lemma forward_refls [simp]: "token_forward t t" "session_forward s s" "family_forward f f"
  by (simp_all add: forward_defs)

lemma forward_transs:
  "token_forward a b \<Longrightarrow> token_forward b c \<Longrightarrow> token_forward a c"
  "session_forward d e \<Longrightarrow> session_forward e f \<Longrightarrow> session_forward d f"
  "family_forward g h \<Longrightarrow> family_forward h i \<Longrightarrow> family_forward g i"
  by (simp_all add: forward_defs)

lemma token_forward_keys:
  "token_forward r r' \<Longrightarrow> mr_id r' = mr_id r \<and> mr_secret_hash r' = mr_secret_hash r \<and> mr_tenant_id r' = mr_tenant_id r"
  by (cases r; cases r') (simp add: token_forward_def)

lemma session_forward_keys:
  "session_forward s s' \<Longrightarrow> sr_id s' = sr_id s \<and> sr_secret_hash s' = sr_secret_hash s \<and> sr_family_id s' = sr_family_id s"
  by (cases s; cases s') (simp add: session_forward_def)

lemma family_forward_keys:
  "family_forward f f' \<Longrightarrow> fr_id f' = fr_id f \<and> fr_tenant_id f' = fr_tenant_id f"
  by (cases f; cases f') (simp add: family_forward_def)

lemmas forward_keys = token_forward_keys session_forward_keys family_forward_keys

lemma forward_updates [simp]:
  "token_forward r (r \<lparr> mr_last_used_at := v \<rparr>)"
  "token_forward r (r \<lparr> mr_revoked_at := coalesce (mr_revoked_at r) now \<rparr>)"
  "session_forward s (s \<lparr> sr_last_used_at := v \<rparr>)"
  "session_forward s (s \<lparr> sr_revoked_at := coalesce (sr_revoked_at s) now \<rparr>)"
  "family_forward f (f \<lparr> fr_revoked_at := coalesce (fr_revoked_at f) now \<rparr>)"
  by (auto simp: forward_defs coalesce_def)

definition identity_moves :: "identity_db \<Rightarrow> identity_db \<Rightarrow> bool" where
  "identity_moves db db' \<longleftrightarrow> grows token_forward (id_tokens db) (id_tokens db') \<and>
     grows family_forward (id_families db) (id_families db') \<and>
     grows session_forward (id_sessions db) (id_sessions db')"

text \<open>The keys of the tables stay unique, and sessions hold canonical identifiers.\<close>

definition canonical_session :: "cred_lib \<Rightarrow> session_row \<Rightarrow> bool" where
  "canonical_session C s \<longleftrightarrow> (\<exists>u f t p. sr_id s = uuid_text (cl_uuid C) u \<and> sr_family_id s = uuid_text (cl_uuid C) f \<and>
     sr_tenant_id s = uuid_text (cl_uuid C) t \<and> sr_principal_id s = uuid_text (cl_uuid C) p)"

definition identity_inv :: "cred_lib \<Rightarrow> identity_db \<Rightarrow> bool" where
  "identity_inv C db \<longleftrightarrow> uuid_lib_ok (cl_uuid C) \<and> list_all (canonical_session C) (id_sessions db) \<and>
     distinct (map mr_id (id_tokens db)) \<and> distinct (map fr_id (id_families db)) \<and>
     distinct (map sr_id (id_sessions db)) \<and> distinct (map sr_secret_hash (id_sessions db))"

lemma identity_moves_refl [simp]: "identity_moves db db"
  by (simp add: identity_moves_def grows_refl forward_refls)

lemma insert_rows:
  "insert_token r ts = Inr ts' \<Longrightarrow> ts' = ts @ [r] \<and> mr_id r \<notin> mr_id ` set ts \<and> machine_checks r"
  "insert_family f fs = Inr fs' \<Longrightarrow> fs' = fs @ [f] \<and> fr_id f \<notin> fr_id ` set fs \<and> family_checks f"
  "insert_session s ss = Inr ss' \<Longrightarrow> ss' = ss @ [s] \<and> sr_id s \<notin> sr_id ` set ss \<and>
     sr_secret_hash s \<notin> sr_secret_hash ` set ss \<and> session_checks s"
  by (auto simp: insert_token_def insert_family_def insert_session_def list_ex_iff split: if_splits)

lemma canonical_row_of [simp]: "canonical_session C (session_row_of C secret m)"
  by (auto simp: canonical_session_def session_row_of_def)

lemma canonical_update [simp]:
  "(\<And>s. canonical_session C (f s) = canonical_session C s) \<Longrightarrow>
   list_all (canonical_session C) (sql_update P f ss) = list_all (canonical_session C) ss"
  by (induction ss) (simp_all add: sql_update_def)

lemma canonical_marks [simp]:
  "canonical_session C (s \<lparr> sr_revoked_at := u \<rparr>) = canonical_session C s"
  "canonical_session C (s \<lparr> sr_last_used_at := v \<rparr>) = canonical_session C s"
  by (simp_all add: canonical_session_def)

lemma unique_update:
  "(\<And>r. P r \<Longrightarrow> k (f r) = k r) \<Longrightarrow> distinct (map k t) \<Longrightarrow> distinct (map k (sql_update P f t))"
  by (simp add: map_sql_update)

lemma unique_append: "distinct (map k t) \<Longrightarrow> k r \<notin> k ` set t \<Longrightarrow> distinct (map k (t @ [r]))"
  by simp

lemmas grows_rows = grows_update grows_append grows_refl

text \<open>Every operation moves the rows forward and keeps the keys unique.\<close>

definition identity_good :: "cred_lib \<Rightarrow> identity_db \<Rightarrow> identity_db \<Rightarrow> bool" where
  "identity_good C db db' \<longleftrightarrow> identity_moves db db' \<and> (identity_inv C db \<longrightarrow> identity_inv C db')"

lemma identity_good_refl [simp]: "identity_good C db db"
  by (simp add: identity_good_def)

lemma create_good: "identity_good C db (fst (create_machine_token C uid secret t p label scopes expires now db))"
  by (auto simp: create_machine_token_def identity_good_def identity_moves_def identity_inv_def Let_def
      dest!: insert_rows intro!: grows_append grows_refl split: sum.split)

lemma authenticate_token_good: "identity_good C db (fst (authenticate_machine_token C credential now db))"
  by (auto simp: authenticate_machine_token_def identity_good_def identity_moves_def identity_inv_def map_sql_update
      intro!: grows_rows split: sum.split option.split prod.split)

lemma revoke_token_good: "identity_good C db (fst (revoke_machine_token C t uid now db))"
  by (auto simp: revoke_machine_token_def identity_good_def identity_moves_def identity_inv_def map_sql_update
      intro!: grows_rows)

lemma issue_good: "identity_good C db (fst (issue_operator_refresh C uid family secret t p expires now db))"
  by (auto simp: issue_operator_refresh_def identity_good_def identity_moves_def identity_inv_def Let_def
      dest!: insert_rows intro!: grows_rows split: sum.split)

lemma authenticate_refresh_good: "identity_good C db (fst (authenticate_operator_refresh C token now db))"
  by (auto simp: authenticate_operator_refresh_def identity_good_def identity_moves_def identity_inv_def map_sql_update
      intro!: grows_rows split: sum.split option.split)

lemma rotate_update_forward:
  "rotate_where C t p previous s \<Longrightarrow> session_forward s (s \<lparr> sr_revoked_at := Some now, sr_last_used_at := Some now \<rparr>)"
  by (simp add: rotate_where_def session_forward_def)

lemma rotate_good: "identity_good C db (fst (rotate_operator_refresh C uid secret t p token expires now db))"
proof -
  have "identity_good C db (db \<lparr> id_sessions := ss \<rparr>)"
    if "insert_session (session_row_of C secret m) (sql_update (rotate_where C t p previous)
      (\<lambda>s. s \<lparr> sr_revoked_at := Some now, sr_last_used_at := Some now \<rparr>) (id_sessions db)) = Inr ss" for m previous ss
  proof -
    let ?u = "sql_update (rotate_where C t p previous)
      (\<lambda>s. s \<lparr> sr_revoked_at := Some now, sr_last_used_at := Some now \<rparr>) (id_sessions db)"
    note ins = insert_rows(3) [OF that]
    have "grows session_forward (id_sessions db) ?u"
      by (rule grows_update) (auto intro: rotate_update_forward)
    moreover have "grows session_forward ?u ss" using ins by (simp add: grows_append)
    ultimately have "grows session_forward (id_sessions db) ss"
      using grows_trans [of session_forward] forward_transs(2) by blast
    moreover have "map sr_id ?u = map sr_id (id_sessions db)"
      "map sr_secret_hash ?u = map sr_secret_hash (id_sessions db)"
      by (simp_all add: map_sql_update)
    then have "distinct (map sr_id ?u) = distinct (map sr_id (id_sessions db))"
      "distinct (map sr_secret_hash ?u) = distinct (map sr_secret_hash (id_sessions db))" by simp_all
    ultimately show ?thesis
      using ins by (simp add: identity_good_def identity_moves_def identity_inv_def grows_refl)
  qed
  then show ?thesis
    by (auto simp: rotate_operator_refresh_def Let_def split: sum.split option.split)
qed

lemma revoke_refresh_good: "identity_good C db (fst (revoke_operator_refresh C t uid now db))"
  by (auto simp: revoke_operator_refresh_def identity_good_def identity_moves_def identity_inv_def map_sql_update
      intro!: grows_rows)

lemma revoke_in_tx_good: "identity_good C db (fst (revoke_refresh_family_in_tx C t p family now db))"
  by (auto simp: revoke_refresh_family_in_tx_def identity_good_def identity_moves_def identity_inv_def map_sql_update
      Let_def intro!: grows_rows)

lemma identity_step_good: "identity_good C db (fst (identity_step C x db))"
  by (cases x) (auto simp: create_good authenticate_token_good revoke_token_good issue_good
      authenticate_refresh_good rotate_good revoke_refresh_good revoke_in_tx_good
      revoke_operator_refresh_family_def revoke_operator_refresh_family_by_token_def
      split: sum.split option.split)

section \<open>The store's contracts\<close>

definition token_entry :: "identity_db \<Rightarrow> string \<Rightarrow> machine_row option" where
  "token_entry db k = find (\<lambda>r. mr_id r = k) (id_tokens db)"

definition session_entry :: "identity_db \<Rightarrow> bytes \<Rightarrow> session_row option" where
  "session_entry db h = find (\<lambda>r. sr_secret_hash r = h) (id_sessions db)"

definition family_entry :: "identity_db \<Rightarrow> string \<Rightarrow> family_row option" where
  "family_entry db k = find (\<lambda>r. fr_id r = k) (id_families db)"

lemma identity_entries_move:
  assumes "identity_moves db db'"
  shows "token_entry db k = Some r \<Longrightarrow> \<exists>r'. token_entry db' k = Some r' \<and> token_forward r r'"
    and "session_entry db h = Some s \<Longrightarrow> \<exists>s'. session_entry db' h = Some s' \<and> session_forward s s'"
    and "family_entry db k = Some f \<Longrightarrow> \<exists>f'. family_entry db' k = Some f' \<and> family_forward f f'"
proof -
  show "\<exists>r'. token_entry db' k = Some r' \<and> token_forward r r'" if "token_entry db k = Some r"
    using assms that unfolding token_entry_def identity_moves_def
    by (intro grows_find [of token_forward]) (auto dest: token_forward_keys)
  show "\<exists>s'. session_entry db' h = Some s' \<and> session_forward s s'" if "session_entry db h = Some s"
    using assms that unfolding session_entry_def identity_moves_def
    by (intro grows_find [of session_forward]) (auto dest: session_forward_keys)
  show "\<exists>f'. family_entry db' k = Some f' \<and> family_forward f f'" if "family_entry db k = Some f"
    using assms that unfolding family_entry_def identity_moves_def
    by (intro grows_find [of family_forward]) (auto dest: family_forward_keys)
qed

interpretation token_progress: progress_store "identity_step C" "\<lambda>_. True" "identity_inv C" token_entry token_forward
  for C
  using identity_step_good by unfold_locales
    (auto simp: identity_good_def intro: identity_entries_move forward_transs)

interpretation family_progress: progress_store "identity_step C" "\<lambda>_. True" "identity_inv C" family_entry family_forward
  for C
  using identity_step_good by unfold_locales
    (auto simp: identity_good_def intro: identity_entries_move forward_transs)

interpretation session_progress: progress_store "identity_step C" "\<lambda>_. True" "identity_inv C" session_entry session_forward
  for C
  using identity_step_good by unfold_locales
    (auto simp: identity_good_def intro: identity_entries_move forward_transs)

text \<open>A refresh secret, by its digest, is spent once its session is revoked.\<close>

definition secret_spent :: "identity_db \<Rightarrow> bytes \<Rightarrow> bool" where
  "secret_spent db h = (case session_entry db h of None \<Rightarrow> False | Some s \<Rightarrow> sr_revoked_at s \<noteq> None)"

fun rotates :: "cred_lib \<Rightarrow> bytes \<Rightarrow> identity_op \<Rightarrow> identity_reply \<Rightarrow> bool" where
  "rotates C h (RotateRefresh uid secret t p token expires now) (RotateReply (Inr (Some issued))) =
     (map_option (digest C) (decode_secret C token) = Some h)"
| "rotates C h _ _ = False"

lemma secret_spent_moves: "identity_moves db db' \<Longrightarrow> secret_spent db h \<Longrightarrow> secret_spent db' h"
  using identity_entries_move(2) [of db db' h]
  by (fastforce simp: secret_spent_def session_forward_def split: option.splits)

text \<open>What a successful rotation found and did.\<close>

lemma rotate_succeeds:
  assumes inv: "identity_inv C db"
    and "rotate_operator_refresh C uid secret' t p token expires now db = (db', Inr (Some issued))"
  obtains secret row previous where "decode_secret C token = Some secret"
    "session_entry db (digest C secret) = Some row" "refresh_from_row C row = Inr previous"
    "sr_revoked_at row = None" "refresh_family_is_active C previous db"
    "secret_spent db' (digest C secret)" "rf_metadata issued = new_session uid (rs_family_id previous) t p expires now"
proof -
  obtain secret where secret: "decode_secret C token = Some secret"
    using assms(2) by (auto simp: rotate_operator_refresh_def split: if_splits option.splits)
  then obtain row previous where row: "session_entry db (digest C secret) = Some row"
      "refresh_from_row C row = Inr previous"
    and act: "rs_tenant previous = t" "rs_principal previous = p" "rs_revoked_at previous = None"
      "refresh_family_is_active C previous db"
    and ins: "insert_session (session_row_of C secret' (new_session uid (rs_family_id previous) t p expires now))
      (sql_update (rotate_where C t p previous) (\<lambda>s. s \<lparr> sr_revoked_at := Some now, sr_last_used_at := Some now \<rparr>)
        (id_sessions db)) = Inr (id_sessions db')"
    and chg: "sql_changed (rotate_where C t p previous) (id_sessions db) = 1"
    and meta: "rf_metadata issued = new_session uid (rs_family_id previous) t p expires now"
    using assms(2)
    by (auto simp: rotate_operator_refresh_def refresh_auth_row_def session_entry_def query_optional_def Let_def
        split: if_splits option.splits sum.splits)
  have in_db: "row \<in> set (id_sessions db)" and h: "sr_secret_hash row = digest C secret"
    using find_SomeD [OF row(1) [unfolded session_entry_def]] by auto
  have U: "uuid_lib_ok (cl_uuid C)" and can: "canonical_session C row"
    using inv in_db by (auto simp: identity_inv_def list_all_iff)
  have dec: "sr_id row = uuid_text (cl_uuid C) (rs_id previous)" "sr_revoked_at row = None"
    "member_where C t p (rs_family_id previous) row"
    using can row(2) act U
    by (auto simp: canonical_session_def refresh_from_row_def record_id_from_db_def tenant_from_db_def
        principal_from_db_def id_from_str_def id_from_uuid_def validate_v8_def member_where_def
        split: sum.splits if_splits)
  let ?u = "sql_update (rotate_where C t p previous)
    (\<lambda>s. s \<lparr> sr_revoked_at := Some now, sr_last_used_at := Some now \<rparr>) (id_sessions db)"
  have "find (\<lambda>r. sr_secret_hash r = digest C secret) ?u =
      Some (row \<lparr> sr_revoked_at := Some now, sr_last_used_at := Some now \<rparr>)"
    using row(1) dec by (subst find_sql_update) (auto simp: session_entry_def rotate_where_def)
  then have "secret_spent db' (digest C secret)"
    using insert_rows(3) [OF ins] by (simp add: secret_spent_def session_entry_def find_append)
  then show ?thesis using that [OF secret row(1,2) dec(2) act(4) _ meta] by blast
qed

interpretation secret_once: once_store "identity_step C" "\<lambda>_. True" "identity_inv C" secret_spent "rotates C"
  for C
proof
  fix s x h
  show "secret_spent s h \<Longrightarrow> secret_spent (fst (identity_step C x s)) h"
    using secret_spent_moves [of s "fst (identity_step C x s)" h] identity_step_good [of C s x]
    by (simp add: identity_good_def)
next
  fix s x h
  assume inv: "identity_inv C s" and r: "rotates C h x (snd (identity_step C x s))"
  obtain uid secret t p token expires now issued where x: "x = RotateRefresh uid secret t p token expires now"
    and out: "snd (rotate_operator_refresh C uid secret t p token expires now s) = Inr (Some issued)"
    and h: "map_option (digest C) (decode_secret C token) = Some h"
    using r by (cases "(C, h, x, snd (identity_step C x s))" rule: rotates.cases) auto
  obtain s' where s': "rotate_operator_refresh C uid secret t p token expires now s = (s', Inr (Some issued))"
    using out by (metis prod.collapse)
  obtain k row where k: "decode_secret C token = Some k" "session_entry s (digest C k) = Some row"
    "sr_revoked_at row = None" "secret_spent s' (digest C k)"
    by (rule rotate_succeeds [OF inv s'])
  have "h = digest C k" using h k(1) by simp
  then show "\<not> secret_spent s h" "secret_spent (fst (identity_step C x s)) h"
    using k(2,3,4) x s' by (simp_all add: secret_spent_def)
qed

section \<open>Properties of the credential store\<close>

abbreviation identity_run :: "cred_lib \<Rightarrow> identity_op list \<Rightarrow> identity_db \<times> identity_reply list" where
  "identity_run C ops \<equiv> run (identity_step C) ops empty_identity"

lemma identity_inv_empty: "uuid_lib_ok (cl_uuid C) \<Longrightarrow> identity_inv C empty_identity"
  by (simp add: identity_inv_def empty_identity_def)

lemma identity_inv_run: "uuid_lib_ok (cl_uuid C) \<Longrightarrow> identity_inv C (fst (identity_run C ops))"
  by (rule token_progress.inv_run [OF identity_inv_empty]) (simp_all add: list_all_iff)

lemma identity_moves_trans: "identity_moves a b \<Longrightarrow> identity_moves b c \<Longrightarrow> identity_moves a c"
  unfolding identity_moves_def
  by (intro conjI; elim conjE)
    (rule grows_trans [OF forward_transs(1)], assumption+, rule grows_trans [OF forward_transs(3)], assumption+,
     rule grows_trans [OF forward_transs(2)], assumption+)

lemma identity_moves_run: "identity_moves db (fst (run (identity_step C) ops db))"
proof (induction ops arbitrary: db)
  case (Cons x xs)
  have "identity_moves db (fst (identity_step C x db))"
    using identity_step_good [of C db x] by (simp add: identity_good_def)
  from identity_moves_trans [OF this Cons] show ?case by (simp only: run_Cons_fst)
qed simp

text \<open>Two positions of a history.\<close>

lemma identity_moves_between:
  assumes "i < j" "j < length ops"
  shows "identity_moves (fst (identity_step C (ops ! i) (fst (run (identity_step C) (take i ops) s))))
    (fst (run (identity_step C) (take j ops) s))"
proof -
  have "fst (run (identity_step C) (take j ops) s) =
      fst (run (identity_step C) (drop (Suc i) (take j ops)) (fst (run (identity_step C) (take (Suc i) ops) s)))"
    using assms(1) by (intro run_take_split) simp
  also have "fst (run (identity_step C) (take (Suc i) ops) s) =
      fst (identity_step C (ops ! i) (fst (run (identity_step C) (take i ops) s)))"
    using assms by (intro run_take_Suc) simp
  finally show ?thesis using identity_moves_run by simp
qed

lemma identity_inv_take: "uuid_lib_ok (cl_uuid C) \<Longrightarrow> identity_inv C (fst (run (identity_step C) (take i ops) empty_identity))"
  using identity_inv_run [of C "take i ops"] by simp

lemma revoke_machine_revokes:
  assumes "identity_inv C db" "snd (revoke_machine_token C t uid now db) = Inr True"
  shows "\<exists>r. token_entry (fst (revoke_machine_token C t uid now db)) (uuid_text (cl_uuid C) uid) = Some r \<and>
    mr_revoked_at r \<noteq> None"
proof -
  have "0 < sql_changed (token_where C t uid) (id_tokens db)"
    using assms(2) by (simp add: revoke_machine_token_def)
  then obtain r where r: "r \<in> set (id_tokens db)" "token_where C t uid r" by (auto simp: sql_changed_pos)
  then have "token_entry db (uuid_text (cl_uuid C) uid) = Some r"
    using find_unique [of mr_id "id_tokens db" r] assms(1)
    by (simp add: token_entry_def token_where_def identity_inv_def)
  then show ?thesis
    using r(2) by (simp add: revoke_machine_token_def token_entry_def find_sql_update token_where_def)
      (simp add: coalesce_def split: option.split)
qed

lemma machine_from_row_sel:
  "machine_from_row C r = Inr t \<Longrightarrow> mt_revoked_at t = mr_revoked_at r \<and> mt_expires_at t = mr_expires_at r \<and>
     mt_last_used_at t = mr_last_used_at r"
  by (auto simp: machine_from_row_def split: sum.splits option.splits)

lemma refresh_from_row_sel:
  "refresh_from_row C r = Inr t \<Longrightarrow> rs_revoked_at t = sr_revoked_at r \<and> rs_expires_at t = sr_expires_at r \<and>
     rs_last_used_at t = sr_last_used_at r"
  by (auto simp: refresh_from_row_def split: sum.splits)

lemma authenticate_token_found:
  assumes "snd (authenticate_machine_token C credential now db) = Inr (Some m)"
  shows "\<exists>uid secret r. parse_credential C credential = Some (uid, secret) \<and>
    token_entry db (uuid_text (cl_uuid C) uid) = Some r \<and> mr_secret_hash r = digest C secret \<and>
    mr_revoked_at r = None \<and> unexpired (mr_expires_at r) now \<and>
    machine_from_row C r = Inr (m \<lparr> mt_last_used_at := mr_last_used_at r \<rparr>)"
proof -
  obtain uid secret where c: "parse_credential C credential = Some (uid, secret)"
    using assms by (auto simp: authenticate_machine_token_def split: option.splits)
  then obtain r t where r: "token_entry db (uuid_text (cl_uuid C) uid) = Some r" "machine_from_row C r = Inr t"
    "mr_secret_hash r = digest C secret" "mt_revoked_at t = None" "unexpired (mt_expires_at t) now"
    "m = t \<lparr> mt_last_used_at := Some now \<rparr>"
    using assms
    by (auto simp: authenticate_machine_token_def machine_auth_row_def query_optional_def token_entry_def
        split: option.splits sum.splits if_splits)
  have "machine_from_row C r = Inr (m \<lparr> mt_last_used_at := mr_last_used_at r \<rparr>)"
    using r(2,6) machine_from_row_sel [OF r(2)] by simp
  then show ?thesis
    using c r machine_from_row_sel [OF r(2)] by auto
qed

text \<open>
  Property C9. A revoked machine token never authenticates again: after a revocation that reported
  success, no later authentication in the history with a credential of that token identifier
  succeeds, whatever happened in between.
\<close>

theorem revoked_token_never_authenticates:
  assumes "uuid_lib_ok (cl_uuid C)" and "i < j" and "j < length ops"
    and "ops ! i = RevokeToken t uid now" and "snd (identity_run C ops) ! i = DoneReply (Inr True)"
    and "ops ! j = AuthenticateToken credential later" and "parse_credential C credential = Some (uid, secret)"
  shows "snd (identity_run C ops) ! j \<noteq> TokenReply (Inr (Some m))"
proof
  assume auth: "snd (identity_run C ops) ! j = TokenReply (Inr (Some m))"
  let ?s = "\<lambda>n. fst (run (identity_step C) (take n ops) empty_identity)"
  have "snd (revoke_machine_token C t uid now (?s i)) = Inr True"
    using assms(2-5) run_nth [of i ops "identity_step C" empty_identity] by simp
  from revoke_machine_revokes [OF identity_inv_take [OF assms(1)] this] obtain r where
    r: "token_entry (fst (revoke_machine_token C t uid now (?s i))) (uuid_text (cl_uuid C) uid) = Some r"
      "mr_revoked_at r \<noteq> None" by blast
  have "identity_moves (fst (revoke_machine_token C t uid now (?s i))) (?s j)"
    using identity_moves_between [OF assms(2,3), of C empty_identity] assms(4) by simp
  from identity_entries_move(1) [OF this r(1)] obtain r' where
    r': "token_entry (?s j) (uuid_text (cl_uuid C) uid) = Some r'" "mr_revoked_at r' \<noteq> None"
    using r(2) by (auto simp: token_forward_def)
  have "snd (authenticate_machine_token C credential later (?s j)) = Inr (Some m)"
    using auth assms(3,6) run_nth [of j ops "identity_step C" empty_identity] by simp
  from authenticate_token_found [OF this] show False using assms(7) r' by auto
qed


text \<open>
  Property C10. A refresh secret is good for one rotation: in any history at most one rotation of a
  secret succeeds, and once one has, the secret authenticates no session any more.
\<close>

theorem refresh_secret_rotates_once:
  assumes "uuid_lib_ok (cl_uuid C)"
  shows "granted (rotates C h) ops (snd (identity_run C ops)) \<le> 1 \<and>
    (\<forall>i j token later m. i < j \<and> j < length ops \<and> rotates C h (ops ! i) (snd (identity_run C ops) ! i) \<and>
       ops ! j = AuthenticateRefresh token later \<and> map_option (digest C) (decode_secret C token) = Some h \<longrightarrow>
       snd (identity_run C ops) ! j \<noteq> SessionReply (Inr (Some m)))"
proof -
  let ?s = "\<lambda>n. fst (run (identity_step C) (take n ops) empty_identity)"
  have used: False if ij: "i < j" "j < length ops" and rot: "rotates C h (ops ! i) (snd (identity_run C ops) ! i)"
    and op: "ops ! j = AuthenticateRefresh token later" and tok: "map_option (digest C) (decode_secret C token) = Some h"
    and ans: "snd (identity_run C ops) ! j = SessionReply (Inr (Some m))" for i j token later m
  proof -
    have "secret_spent (fst (identity_step C (ops ! i) (?s i))) h"
      using secret_once.grant_spends [OF identity_inv_take [OF assms]] rot ij
        run_nth [of i ops "identity_step C" empty_identity] by simp
    then have "secret_spent (?s j) h"
      using secret_spent_moves identity_moves_between [OF ij] by blast
    then obtain row where row: "session_entry (?s j) h = Some row" "sr_revoked_at row \<noteq> None"
      by (auto simp: secret_spent_def split: option.splits)
    have "snd (authenticate_operator_refresh C token later (?s j)) = Inr (Some m)"
      using ans op ij run_nth [of j ops "identity_step C" empty_identity] by simp
    then show False
      using tok row refresh_from_row_sel [of C row]
      by (auto simp: authenticate_operator_refresh_def refresh_auth_row_def query_optional_def session_entry_def
          split: option.splits sum.splits if_splits)
  qed
  have "granted (rotates C h) ops (snd (identity_run C ops)) \<le> 1"
    by (rule secret_once.at_most_once [OF identity_inv_empty [OF assms]]) (simp add: list_all_iff)
  with used show ?thesis by blast
qed

lemma family_revoked:
  assumes "identity_inv C db" "snd (revoke_refresh_family_in_tx C t p family now db)"
  shows "\<exists>f. family_entry (fst (revoke_refresh_family_in_tx C t p family now db)) (uuid_text (cl_uuid C) family) = Some f \<and>
    fr_revoked_at f \<noteq> None"
proof -
  have one: "sql_changed (family_where C t p family) (id_families db) = 1"
    using assms(2) by (auto simp: revoke_refresh_family_in_tx_def Let_def split: if_splits)
  then obtain r where r: "r \<in> set (id_families db)" "family_where C t p family r"
    using sql_changed_pos [of "family_where C t p family" "id_families db"] by auto
  then have "family_entry db (uuid_text (cl_uuid C) family) = Some r"
    using find_unique [of fr_id "id_families db" r] assms(1)
    by (simp add: family_entry_def family_where_def identity_inv_def)
  then show ?thesis
    using r(2) one by (simp add: revoke_refresh_family_in_tx_def Let_def family_entry_def find_sql_update family_where_def)
      (simp add: coalesce_def split: option.split)
qed

text \<open>The family that a reply hands out a session of.\<close>

fun serves_family :: "uuid \<Rightarrow> identity_reply \<Rightarrow> bool" where
  "serves_family family (SessionReply (Inr (Some m))) = (rs_family_id m = family)"
| "serves_family family (RotateReply (Inr (Some issued))) = (rs_family_id (rf_metadata issued) = family)"
| "serves_family family _ = False"

fun tombstones :: "cred_lib \<Rightarrow> uuid \<Rightarrow> identity_db \<Rightarrow> identity_op \<Rightarrow> bool" where
  "tombstones C family db (RevokeFamily t p f now) = (f = family)"
| "tombstones C family db (RevokeFamilyByToken token now) =
     (case decode_secret C token of None \<Rightarrow> False | Some secret \<Rightarrow>
      case refresh_auth_row C (digest C secret) db of
        Inr (Some session) \<Rightarrow> rs_family_id session = family | _ \<Rightarrow> False)"
| "tombstones C family db _ = False"

lemma served_family_active:
  assumes "identity_inv C db" "serves_family family (snd (identity_step C x db))"
  shows "\<exists>f \<in> set (id_families db). fr_id f = uuid_text (cl_uuid C) family \<and> fr_revoked_at f = None"
proof -
  have active: "\<exists>f \<in> set (id_families db). fr_id f = uuid_text (cl_uuid C) (rs_family_id s) \<and> fr_revoked_at f = None"
    if "refresh_family_is_active C s db" for s
    using that by (auto simp: refresh_family_is_active_def list_ex_iff)
  consider token now m where "x = AuthenticateRefresh token now"
      "snd (authenticate_operator_refresh C token now db) = Inr (Some m)" "rs_family_id m = family"
    | uid secret t p token expires now issued where "x = RotateRefresh uid secret t p token expires now"
      "snd (rotate_operator_refresh C uid secret t p token expires now db) = Inr (Some issued)"
      "rs_family_id (rf_metadata issued) = family"
    using assms(2) by (cases x; cases "(family, snd (identity_step C x db))" rule: serves_family.cases) auto
  then show ?thesis
  proof cases
    case 1
    then obtain s where "refresh_family_is_active C s db" "rs_family_id s = family"
      by (auto simp: authenticate_operator_refresh_def split: option.splits sum.splits if_splits)
    with active show ?thesis by auto
  next
    case 2
    obtain db' where d: "rotate_operator_refresh C uid secret t p token expires now db = (db', Inr (Some issued))"
      using 2(2) by (metis prod.collapse)
    obtain previous where "refresh_family_is_active C previous db"
      "rf_metadata issued = new_session uid (rs_family_id previous) t p expires now"
      by (rule rotate_succeeds [OF assms(1) d])
    with 2(3) active [of previous] show ?thesis by (simp add: new_session_def)
  qed
qed

text \<open>
  Property C11. Revoking a refresh family is final for all its descendants: after a family was
  tombstoned, by its identifier or through any of its tokens, no later operation of the history
  authenticates or rotates a session of that family, including sessions minted by earlier rotations.
\<close>

theorem revoked_family_is_dead:
  assumes "uuid_lib_ok (cl_uuid C)" and "i < j" and "j < length ops"
    and "tombstones C family (fst (identity_run C (take i ops))) (ops ! i)"
    and "snd (identity_run C ops) ! i = DoneReply (Inr True)"
  shows "\<not> serves_family family (snd (identity_run C ops) ! j)"
proof
  let ?s = "\<lambda>n. fst (run (identity_step C) (take n ops) empty_identity)"
  let ?k = "uuid_text (cl_uuid C) family"
  assume serves: "serves_family family (snd (identity_run C ops) ! j)"
  have inv: "identity_inv C (?s n)" for n by (rule identity_inv_take [OF assms(1)])
  have ans: "snd (identity_step C (ops ! i) (?s i)) = DoneReply (Inr True)"
    using assms(2,3,5) run_nth [of i ops "identity_step C" empty_identity] by simp
  obtain t p now where "fst (identity_step C (ops ! i) (?s i)) = fst (revoke_refresh_family_in_tx C t p family now (?s i))"
    "snd (revoke_refresh_family_in_tx C t p family now (?s i))"
    using assms(4) ans
    by (cases "ops ! i") (auto simp: revoke_operator_refresh_family_def revoke_operator_refresh_family_by_token_def
        split: option.splits sum.splits)
  with family_revoked [OF inv [of i]] obtain f where
    f: "family_entry (fst (identity_step C (ops ! i) (?s i))) ?k = Some f" "fr_revoked_at f \<noteq> None" by metis
  from identity_entries_move(3) [OF identity_moves_between [OF assms(2,3)] f(1)] obtain f' where
    f': "family_entry (?s j) ?k = Some f'" "fr_revoked_at f' \<noteq> None"
    using f(2) by (auto simp: family_forward_def)
  obtain g where g: "g \<in> set (id_families (?s j))" "fr_id g = ?k" "fr_revoked_at g = None"
    using served_family_active [OF inv [of j], of family "ops ! j"] serves assms(3)
      run_nth [of j ops "identity_step C" empty_identity] by auto
  have "family_entry (?s j) ?k = Some g"
    using find_unique [of fr_id "id_families (?s j)" g] g inv [of j] by (simp add: family_entry_def identity_inv_def)
  with f' g(3) show False by simp
qed


section \<open>Issuance and authentication fit together\<close>

text \<open>
  What is relied on from the libraries: canonical identifiers and base64url texts contain no dot,
  base64url and the JSON of a string list read back, SHA-256 gives 32 bytes, and the JSON of a list
  of strings is at most six bytes per byte of a string, two quotes and a comma each, and two brackets.
\<close>

definition cred_lib_ok :: "cred_lib \<Rightarrow> bool" where
  "cred_lib_ok C \<longleftrightarrow> uuid_lib_ok (cl_uuid C) \<and> (\<forall>u. CHR ''.'' \<notin> set (uuid_text (cl_uuid C) u)) \<and>
     (\<forall>s. length (cl_sha256 C s) = 32) \<and>
     (\<forall>s. cl_decode C (cl_encode C s) = Some s \<and> CHR ''.'' \<notin> set (cl_encode C s)) \<and>
     (\<forall>xs. cl_scopes_parse C (cl_scopes_text C xs) = Some xs \<and>
        length (cl_scopes_text C xs) \<le> 2 + sum_list (map (\<lambda>s. 6 * length s + 3) xs))"

lemma strip_prefix_append [simp]: "strip_prefix p (p @ s) = Some s"
  by (induction p) auto

lemma parse_credential_token:
  assumes "cred_lib_ok C" "length secret = 32"
  shows "parse_credential C (''hen_v1_'' @ uuid_text (cl_uuid C) uid @ ''.'' @ cl_encode C secret) = Some (uid, secret)"
  using assms strip_prefix_append [of "''hen_v1_''" "uuid_text (cl_uuid C) uid @ ''.'' @ cl_encode C secret"]
  by (simp add: parse_credential_def cred_lib_ok_def decode_secret_def del: strip_prefix.simps)

text \<open>The scope list of a validated request fits its column.\<close>

lemma scopes_fit:
  assumes "cred_lib_ok C" "validate_machine_issuance label scopes expires now = Inr ()"
  shows "length (cl_scopes_text C scopes) \<le> 25000" and "label \<noteq> []" and "length label \<le> 128"
proof -
  have v: "label \<noteq> []" "length label \<le> 128" "length scopes \<le> 64" "sum_list (map length scopes) \<le> 4096"
    using assms(2) by (auto simp: validate_machine_issuance_def credential_limits split: if_splits)
  have "sum_list (map (\<lambda>s. 6 * length s + 3) scopes) = 6 * sum_list (map length scopes) + 3 * length scopes"
    by (induction scopes) auto
  moreover have "length (cl_scopes_text C scopes) \<le> 2 + sum_list (map (\<lambda>s. 6 * length s + 3) scopes)"
    using assms(1) by (simp add: cred_lib_ok_def)
  ultimately show "length (cl_scopes_text C scopes) \<le> 25000" using v(3,4) by linarith
  show "label \<noteq> []" "length label \<le> 128" using v by auto
qed

text \<open>
  Issuing and authenticating a machine token are inverse: a request that passes
  validation is always stored (the scope list fits its column), and until the token expires the
  returned credential authenticates as exactly the tenant, principal, label and scopes it was issued
  for, while from its expiry on it does not authenticate.
\<close>

theorem machine_token_roundtrip:
  assumes "cred_lib_ok C" and "validate_machine_issuance label scopes expires now = Inr ()"
    and "length secret = 32" and "version_num (cl_uuid C) t = 8" and "version_num (cl_uuid C) p = 8"
    and "token_entry db (uuid_text (cl_uuid C) uid) = None"
  shows "\<exists>db' issued. create_machine_token C uid secret t p label scopes expires now db = (db', Inr issued) \<and>
    mi_metadata issued = \<lparr> mt_id = uid, mt_tenant = t, mt_principal = p, mt_label = label, mt_scopes = scopes,
      mt_created_at = now, mt_expires_at = expires, mt_revoked_at = None, mt_last_used_at = None \<rparr> \<and>
    (\<forall>later. snd (authenticate_machine_token C (mi_token issued) later db') =
       Inr (if unexpired expires later then Some (mi_metadata issued \<lparr> mt_last_used_at := Some later \<rparr>) else None))"
proof -
  have U: "uuid_lib_ok (cl_uuid C)" using assms(1) by (simp add: cred_lib_ok_def)
  have sha: "length (digest C secret) = 32" using assms(1) by (simp add: cred_lib_ok_def digest_def)
  have scopes: "cl_scopes_parse C (cl_scopes_text C scopes) = Some scopes" using assms(1) by (simp add: cred_lib_ok_def)
  let ?row = "\<lparr> mr_id = uuid_text (cl_uuid C) uid, mr_secret_hash = digest C secret,
    mr_tenant_id = uuid_text (cl_uuid C) t, mr_principal_id = uuid_text (cl_uuid C) p,
    mr_label = label, mr_scopes_json = cl_scopes_text C scopes, mr_created_at = now,
    mr_expires_at = expires, mr_revoked_at = None, mr_last_used_at = None \<rparr>"
  have "machine_checks ?row"
    using scopes_fit [OF assms(1,2)] sha U by (cases label) (simp_all add: machine_checks_def)
  moreover have fresh: "\<not> list_ex (\<lambda>x. mr_id x = uuid_text (cl_uuid C) uid) (id_tokens db)"
    using assms(6) by (auto simp: token_entry_def find_None list_ex_iff)
  ultimately have ins: "insert_token ?row (id_tokens db) = Inr (id_tokens db @ [?row])" by (simp add: insert_token_def)
  have dec: "machine_from_row C ?row = Inr \<lparr> mt_id = uid, mt_tenant = t, mt_principal = p, mt_label = label,
      mt_scopes = scopes, mt_created_at = now, mt_expires_at = expires, mt_revoked_at = None, mt_last_used_at = None \<rparr>"
    using U assms(4,5) scopes
    by (simp add: machine_from_row_def record_id_from_db_def tenant_from_db_def principal_from_db_def)
  have found: "find (\<lambda>row. mr_id row = uuid_text (cl_uuid C) uid) (id_tokens db @ [?row]) = Some ?row"
    using assms(6) by (simp add: find_append token_entry_def)
  show ?thesis
    using assms(2) ins dec found sha parse_credential_token [OF assms(1,3), of uid]
    by (simp add: create_machine_token_def authenticate_machine_token_def machine_auth_row_def query_optional_def Let_def)
qed


section \<open>A concrete library\<close>

fun hex_decode :: "string \<Rightarrow> bytes" where
  "hex_decode (a # b # cs) = char_of (hex_value a * 16 + hex_value b) # hex_decode cs"
| "hex_decode _ = []"

fun read_scopes :: "string \<Rightarrow> string \<Rightarrow> string list" where
  "read_scopes acc (a # c # cs) = (if a = CHR 0x01 then read_scopes (acc @ [c]) cs else acc # read_scopes [] (c # cs))"
| "read_scopes acc [a] = [acc]"
| "read_scopes acc [] = []"

definition write_scopes :: "string list \<Rightarrow> string" where
  "write_scopes xs = concat (map (\<lambda>s. concat (map (\<lambda>c. [CHR 0x01, c]) s) @ [CHR 0x00]) xs)"

definition sample_cred_lib :: cred_lib where
  "sample_cred_lib = \<lparr> cl_uuid = sample_uuid_lib, cl_sha256 = (\<lambda>x. take 32 (x @ replicate 32 CHR 0x00)),
     cl_encode = hex_digest, cl_decode = (\<lambda>s. Some (hex_decode s)),
     cl_scopes_text = write_scopes, cl_scopes_parse = (\<lambda>s. Some (read_scopes [] s)) \<rparr>"

lemma byte_nibble: "byte c div 16 < 16"
proof (rule less_mult_imp_div_less)
  show "byte c < 16 * 16" using of_char_lt_256 [of c] by simp
qed

lemma hex_decode_digest: "hex_decode (hex_digest s) = s"
proof (induction s)
  case (Cons c s)
  have "byte c div 16 < 16" "byte c mod 16 < 16" using byte_nibble by auto
  then have "hex_value (hex_digit (byte c div 16)) * 16 + hex_value (hex_digit (byte c mod 16)) = byte c"
    using hex_digit_value by simp
  then show ?case using Cons by (simp add: hex_digest_def)
qed (simp add: hex_digest_def)

lemma read_write_scope:
  "read_scopes acc (concat (map (\<lambda>c. [CHR 0x01, c]) s) @ CHR 0x00 # rest) =
   (acc @ s) # (case rest of [] \<Rightarrow> [] | _ \<Rightarrow> read_scopes [] rest)"
  by (induction s arbitrary: acc) (auto split: list.split)

lemma read_write_scopes: "read_scopes [] (write_scopes xs) = xs"
proof (induction xs)
  case (Cons s xs)
  have "write_scopes (s # xs) = concat (map (\<lambda>c. [CHR 0x01, c]) s) @ CHR 0x00 # write_scopes xs"
    by (simp add: write_scopes_def)
  then show ?case using Cons read_write_scope [of "[]" s "write_scopes xs"] by (auto split: list.splits)
qed (simp add: write_scopes_def)

lemma no_dot_hex: "CHR ''.'' \<notin> set (hex_text k n)" "CHR ''.'' \<notin> set (hex_digest s)"
proof -
  have "\<forall>n \<in> set [0..<16]. hex_digit n \<noteq> CHR ''.''" by (simp add: hex_digit_def upt_rec)
  then have d: "n < 16 \<Longrightarrow> hex_digit n \<noteq> CHR ''.''" for n by simp
  then have d': "n < 16 \<Longrightarrow> CHR ''.'' \<noteq> hex_digit n" for n by metis
  show "CHR ''.'' \<notin> set (hex_text k n)" by (induction k arbitrary: n) (simp_all add: d')
  show "CHR ''.'' \<notin> set (hex_digest s)" by (auto simp: hex_digest_def d' byte_nibble)
qed

lemma sample_cred_lib_ok: "cred_lib_ok sample_cred_lib"
proof -
  have "length (write_scopes xs) \<le> 2 + sum_list (map (\<lambda>s. 6 * length s + 3) xs)" for xs
  proof -
    have "length (concat (map (\<lambda>c. [CHR 0x01, c]) s)) = 2 * length s" for s by (induction s) auto
    then have "length (write_scopes xs) = sum_list (map (\<lambda>s. 2 * length s + 1) xs)"
      by (induction xs) (simp_all add: write_scopes_def)
    moreover have "sum_list (map (\<lambda>s. 2 * length s + 1) xs) \<le> sum_list (map (\<lambda>s. 6 * length s + 3) xs)"
      by (rule sum_list_mono) simp
    ultimately show ?thesis by simp
  qed
  moreover have "CHR ''.'' \<notin> set (uuid_text sample_uuid_lib u)" for u
    using no_dot_hex(1) [of 36 "unat u"] by (simp add: sample_uuid_lib_def del: hex_text.simps)
  moreover have "length (take 32 (x @ replicate 32 CHR 0x00)) = 32" for x :: string by (auto simp: min_def)
  ultimately show ?thesis
    using sample_uuid_lib_ok hex_decode_digest read_write_scopes no_dot_hex(2)
    by (simp add: cred_lib_ok_def sample_cred_lib_def del: length_take)
qed

lemma sample_cred_lib_sel [simp]: "cl_uuid sample_cred_lib = sample_uuid_lib"
  by (simp add: sample_cred_lib_def)

definition sample_secret :: "char \<Rightarrow> bytes" where
  "sample_secret c = replicate 32 c"

definition sample_create :: identity_op where
  "sample_create = CreateToken 4 (sample_secret CHR ''s'') 8 24 ''ci'' [''dispatch''] (Some 500) 100"

definition sample_credential :: string where
  "sample_credential = ''hen_v1_'' @ uuid_text sample_uuid_lib 4 @ ''.'' @ cl_encode sample_cred_lib (sample_secret CHR ''s'')"

lemma sample_request_valid: "validate_machine_issuance ''ci'' [''dispatch''] (Some 500) 100 = Inr ()"
  by (simp add: validate_machine_issuance_def credential_limits)

lemma sample_versions8 [simp]: "version_num sample_uuid_lib 8 = 8" "version_num sample_uuid_lib 24 = 8"
  by (simp_all add: sample_uuid_lib_def)

theorem machine_token_roundtrip_witness:
  "\<exists>db issued. create_machine_token sample_cred_lib 4 (sample_secret CHR ''s'') 8 24 ''ci'' [''dispatch''] (Some 500) 100
       empty_identity = (db, Inr issued) \<and>
     snd (authenticate_machine_token sample_cred_lib (mi_token issued) 200 db) =
       Inr (Some (mi_metadata issued \<lparr> mt_last_used_at := Some 200 \<rparr>)) \<and>
     snd (authenticate_machine_token sample_cred_lib (mi_token issued) 500 db) = Inr None"
proof -
  have fresh: "token_entry empty_identity (uuid_text (cl_uuid sample_cred_lib) 4) = None"
    by (simp add: token_entry_def empty_identity_def)
  have len: "length (sample_secret CHR ''s'') = 32" by (simp add: sample_secret_def)
  have v: "version_num (cl_uuid sample_cred_lib) 8 = 8" "version_num (cl_uuid sample_cred_lib) 24 = 8" by simp_all
  obtain db issued where "create_machine_token sample_cred_lib 4 (sample_secret CHR ''s'') 8 24 ''ci'' [''dispatch'']
      (Some 500) 100 empty_identity = (db, Inr issued)"
    and a: "snd (authenticate_machine_token sample_cred_lib (mi_token issued) later db) =
       Inr (if unexpired (Some 500) later then Some (mi_metadata issued \<lparr> mt_last_used_at := Some later \<rparr>) else None)" for later
    using machine_token_roundtrip [OF sample_cred_lib_ok sample_request_valid len v fresh] by blast
  moreover have "unexpired (Some 500) 200" "\<not> unexpired (Some 500) 500" by (simp_all add: unexpired_def)
  ultimately show ?thesis using a [of 200] a [of 500] by auto
qed

text \<open>The stored row of the sample token.\<close>

lemma sample_create_step:
  "\<exists>row rep. identity_step sample_cred_lib sample_create empty_identity =
     (empty_identity \<lparr> id_tokens := [row] \<rparr>, rep) \<and> token_where sample_cred_lib 8 4 row"
  using scopes_fit [OF sample_cred_lib_ok sample_request_valid] sample_cred_lib_ok sample_uuid_lib_ok
  by (simp add: sample_create_def create_machine_token_def sample_request_valid Let_def insert_token_def
      machine_checks_def cred_lib_ok_def digest_def empty_identity_def token_where_def)

theorem revoked_token_never_authenticates_witness:
  "let ops = [sample_create, RevokeToken 8 4 150, AuthenticateToken sample_credential 200] in
   snd (identity_run sample_cred_lib ops) ! 1 = DoneReply (Inr True) \<and>
   (\<forall>m. snd (identity_run sample_cred_lib ops) ! 2 \<noteq> TokenReply (Inr (Some m)))"
proof -
  let ?ops = "[sample_create, RevokeToken 8 4 150, AuthenticateToken sample_credential 200]"
  obtain row rep where row: "identity_step sample_cred_lib sample_create empty_identity =
      (empty_identity \<lparr> id_tokens := [row] \<rparr>, rep)" "token_where sample_cred_lib 8 4 row"
    using sample_create_step by blast
  have r: "snd (identity_run sample_cred_lib ?ops) ! 1 = DoneReply (Inr True)"
    using row by (simp add: revoke_machine_token_def sql_changed_def Let_def split: prod.split)
  have p: "parse_credential sample_cred_lib sample_credential = Some (4, sample_secret CHR ''s'')"
    using parse_credential_token [OF sample_cred_lib_ok, of "sample_secret CHR ''s''" 4]
    by (simp add: sample_credential_def sample_secret_def)
  have U: "uuid_lib_ok (cl_uuid sample_cred_lib)" using sample_uuid_lib_ok by simp
  have "snd (identity_run sample_cred_lib ?ops) ! 2 \<noteq> TokenReply (Inr (Some m))" for m
    by (rule revoked_token_never_authenticates [OF U _ _ _ r _ p, where j = 2]) simp_all
  with r show ?thesis unfolding Let_def by blast
qed

definition sample_issue :: identity_op where
  "sample_issue = IssueRefresh 4 20 (sample_secret CHR ''s'') 8 24 None 100"

definition sample_session :: session_row where
  "sample_session = session_row_of sample_cred_lib (sample_secret CHR ''s'') (new_session 4 20 8 24 None 100)"

definition sample_family :: family_row where
  "sample_family = \<lparr> fr_id = uuid_text sample_uuid_lib 20, fr_tenant_id = uuid_text sample_uuid_lib 8,
     fr_principal_id = uuid_text sample_uuid_lib 24, fr_created_at = 100, fr_revoked_at = None \<rparr>"

definition sample_sessions_db :: identity_db where
  "sample_sessions_db = \<lparr> id_tokens = [], id_families = [sample_family], id_sessions = [sample_session] \<rparr>"

lemma sample_digest_length [simp]: "length (digest sample_cred_lib s) = 32"
  using sample_cred_lib_ok by (simp add: cred_lib_ok_def digest_def)

lemma sample_text_chars [simp]: "length (utf8_chars (uuid_text sample_uuid_lib k)) = 36"
  using sample_uuid_lib_ok by simp

lemma sample_issue_step: "fst (identity_step sample_cred_lib sample_issue empty_identity) = sample_sessions_db"
  by (simp add: sample_issue_def issue_operator_refresh_def expiry_passed_def insert_family_def family_checks_def
      insert_session_def session_checks_def session_row_of_def new_session_def empty_identity_def
      sample_sessions_db_def sample_family_def sample_session_def Let_def)

lemma sample_secret_decodes [simp]:
  "decode_secret sample_cred_lib (cl_encode sample_cred_lib (sample_secret c)) = Some (sample_secret c)"
  using sample_cred_lib_ok by (simp add: decode_secret_def cred_lib_ok_def sample_secret_def)

lemma sample_session_found:
  "refresh_auth_row sample_cred_lib (digest sample_cred_lib (sample_secret CHR ''s'')) sample_sessions_db =
     Inr (Some (new_session 4 20 8 24 None 100))"
  using sample_uuid_lib_ok
  by (simp add: refresh_auth_row_def query_optional_def sample_sessions_db_def sample_session_def session_row_of_def
      new_session_def refresh_from_row_def record_id_from_db_def tenant_from_db_def principal_from_db_def)

lemma sample_digests_differ:
  "digest sample_cred_lib (sample_secret CHR ''s'') \<noteq> digest sample_cred_lib (sample_secret CHR ''t'')"
  by (simp add: digest_def sample_cred_lib_def sample_secret_def)

definition sample_rotate :: "uuid \<Rightarrow> char \<Rightarrow> identity_op" where
  "sample_rotate uid c = RotateRefresh uid (sample_secret c) 8 24
     (cl_encode sample_cred_lib (sample_secret CHR ''s'')) None 200"

lemma sample_rotates:
  "\<exists>issued. snd (identity_step sample_cred_lib (sample_rotate 36 CHR ''t'') sample_sessions_db) =
     RotateReply (Inr (Some issued))"
  using sample_digests_differ sample_uuid_lib_ok
  by (simp add: sample_rotate_def rotate_operator_refresh_def expiry_passed_def sample_session_found)
    (simp add: new_session_def unexpired_def refresh_family_is_active_def sample_sessions_db_def sample_family_def
      sql_changed_def rotate_where_def member_where_def sample_session_def session_row_of_def insert_session_def
      session_checks_def sql_update_def Let_def)

theorem refresh_secret_rotates_once_witness:
  "let ops = [sample_issue, sample_rotate 36 CHR ''t'', sample_rotate 52 CHR ''u''];
       h = digest sample_cred_lib (sample_secret CHR ''s'') in
   rotates sample_cred_lib h (ops ! 1) (snd (identity_run sample_cred_lib ops) ! 1) \<and>
   granted (rotates sample_cred_lib h) ops (snd (identity_run sample_cred_lib ops)) \<le> 1"
proof -
  let ?ops = "[sample_issue, sample_rotate 36 CHR ''t'', sample_rotate 52 CHR ''u'']"
  let ?h = "digest sample_cred_lib (sample_secret CHR ''s'')"
  obtain issued where i: "snd (identity_step sample_cred_lib (sample_rotate 36 CHR ''t'') sample_sessions_db) =
      RotateReply (Inr (Some issued))" using sample_rotates by blast
  have "snd (identity_run sample_cred_lib ?ops) ! 1 = RotateReply (Inr (Some issued))"
    using i sample_issue_step by (simp add: run_Cons del: run.simps(2) identity_step.simps)
  then have "rotates sample_cred_lib ?h (?ops ! 1) (snd (identity_run sample_cred_lib ?ops) ! 1)"
    by (simp add: sample_rotate_def del: run.simps(2) identity_step.simps)
  moreover have "granted (rotates sample_cred_lib ?h) ?ops (snd (identity_run sample_cred_lib ?ops)) \<le> 1"
    using refresh_secret_rotates_once [of sample_cred_lib ?h ?ops] sample_uuid_lib_ok
    by (simp del: run.simps(2) identity_step.simps)
  ultimately show ?thesis unfolding Let_def by blast
qed

theorem revoked_family_is_dead_witness:
  "let ops = [sample_issue, RevokeFamily 8 24 20 150, sample_rotate 36 CHR ''t''] in
   snd (identity_run sample_cred_lib ops) ! 1 = DoneReply (Inr True) \<and>
   \<not> serves_family 20 (snd (identity_run sample_cred_lib ops) ! 2)"
proof -
  let ?ops = "[sample_issue, RevokeFamily 8 24 20 150, sample_rotate 36 CHR ''t'']"
  have "snd (identity_step sample_cred_lib (RevokeFamily 8 24 20 150) sample_sessions_db) = DoneReply (Inr True)"
    by (simp add: revoke_operator_refresh_family_def revoke_refresh_family_in_tx_def Let_def sql_changed_def
        family_where_def sample_sessions_db_def sample_family_def)
  then have r: "snd (identity_run sample_cred_lib ?ops) ! 1 = DoneReply (Inr True)"
    using sample_issue_step by (simp add: run_Cons del: run.simps(2) identity_step.simps)
  have U: "uuid_lib_ok (cl_uuid sample_cred_lib)" using sample_uuid_lib_ok by simp
  have "\<not> serves_family 20 (snd (identity_run sample_cred_lib ?ops) ! 2)"
    by (rule revoked_family_is_dead [OF U _ _ _ r, where j = 2]) simp_all
  with r show ?thesis unfolding Let_def by blast
qed

end
