(* ===== verification/Floats.thy ===== *)
theory Floats
  imports Prelude
begin

text \<open>
  The floating-point arithmetic the program uses, as a parameter.

  \<open>f64_lib\<close> has one field per operation of \<open>f64\<close> that the modelled code applies; \<open>f64_dec m e\<close> is the
  literal \<open>m\<close> times ten to the minus \<open>e\<close>. Comparisons are those of the type, so both are false on a NaN.
  What a property relies on from IEEE arithmetic is a named predicate: \<open>f64_ok\<close> (small whole numbers are
  exact) and \<open>f64_order\<close> (comparisons of numbers that are not NaN). Fixed-point decimals are an instance.
\<close>

record 'f f64_lib =
  f64_of_i64 :: "int \<Rightarrow> 'f"
  f64_dec :: "int \<Rightarrow> nat \<Rightarrow> 'f"
  f64_add :: "'f \<Rightarrow> 'f \<Rightarrow> 'f"
  f64_sub :: "'f \<Rightarrow> 'f \<Rightarrow> 'f"
  f64_mul :: "'f \<Rightarrow> 'f \<Rightarrow> 'f"
  f64_div :: "'f \<Rightarrow> 'f \<Rightarrow> 'f"
  f64_min :: "'f \<Rightarrow> 'f \<Rightarrow> 'f"
  f64_less :: "'f \<Rightarrow> 'f \<Rightarrow> bool"
  f64_le :: "'f \<Rightarrow> 'f \<Rightarrow> bool"
  f64_is_finite :: "'f \<Rightarrow> bool"
  f64_to_bits :: "'f \<Rightarrow> nat"
  f64_debug :: "'f \<Rightarrow> string"
  f64_fixed3 :: "'f \<Rightarrow> string"

definition f64_clamp :: "('f, 'm) f64_lib_scheme \<Rightarrow> 'f \<Rightarrow> 'f \<Rightarrow> 'f \<Rightarrow> 'f" where
  "f64_clamp F x lo hi = (if f64_less F x lo then lo else if f64_less F hi x then hi else x)"

definition f64_in_range :: "('f, 'm) f64_lib_scheme \<Rightarrow> 'f \<Rightarrow> 'f \<Rightarrow> 'f \<Rightarrow> bool" where
  "f64_in_range F lo hi x \<longleftrightarrow> f64_le F lo x \<and> f64_le F x hi"

text \<open>Whole numbers up to two to the fifty-third are exact.\<close>

definition f64_ok :: "('f, 'm) f64_lib_scheme \<Rightarrow> bool" where
  "f64_ok F \<longleftrightarrow>
     (\<forall>i j. \<bar>i\<bar> \<le> 2 ^ 53 \<longrightarrow> \<bar>j\<bar> \<le> 2 ^ 53 \<longrightarrow> f64_less F (f64_of_i64 F i) (f64_of_i64 F j) = (i < j)) \<and>
     (\<forall>i. 1 \<le> i \<longrightarrow> i \<le> 2 ^ 53 \<longrightarrow> f64_sub F (f64_of_i64 F i) (f64_of_i64 F 1) = f64_of_i64 F (i - 1)) \<and>
     (\<forall>i. f64_is_finite F (f64_of_i64 F i))"

text \<open>
  For a number (a value that equals itself), not being below a bound that is a number means the bound is
  at most it; literals are numbers.
\<close>

definition f64_number :: "('f, 'm) f64_lib_scheme \<Rightarrow> 'f \<Rightarrow> bool" where
  "f64_number F x \<longleftrightarrow> f64_le F x x"

definition f64_order :: "('f, 'm) f64_lib_scheme \<Rightarrow> bool" where
  "f64_order F \<longleftrightarrow>
     (\<forall>x y. f64_number F x \<longrightarrow> f64_number F y \<longrightarrow> \<not> f64_less F x y \<longrightarrow> f64_le F y x) \<and>
     (\<forall>m e. f64_number F (f64_dec F m e)) \<and> f64_le F (f64_dec F 0 0) (f64_dec F 5 1) \<and>
     f64_le F (f64_dec F 5 1) (f64_dec F 1 0) \<and> f64_le F (f64_dec F 0 0) (f64_dec F 1 0)"

lemma f64_order_dest:
  "f64_order F \<Longrightarrow> f64_number F x \<Longrightarrow> f64_number F y \<Longrightarrow> \<not> f64_less F x y \<Longrightarrow> f64_le F y x"
  "f64_order F \<Longrightarrow> f64_number F (f64_dec F m e)"
  "f64_order F \<Longrightarrow> f64_le F (f64_dec F 0 0) (f64_dec F 1 0)"
  "f64_order F \<Longrightarrow> f64_in_range F (f64_dec F 0 0) (f64_dec F 1 0) (f64_dec F 5 1)"
  unfolding f64_order_def f64_in_range_def by blast+

lemma clamp_in_range:
  assumes "f64_order F" and "f64_number F x"
  shows "f64_in_range F (f64_dec F 0 0) (f64_dec F 1 0) (f64_clamp F x (f64_dec F 0 0) (f64_dec F 1 0))"
  using f64_order_dest(1) [OF assms(1,2) f64_order_dest(2) [OF assms(1)], of 0 0]
    f64_order_dest(1) [OF assms(1) f64_order_dest(2) [OF assms(1)] assms(2), of 1 0]
    f64_order_dest(2) [OF assms(1), of 0 0] f64_order_dest(2) [OF assms(1), of 1 0] f64_order_dest(3) [OF assms(1)]
  by (simp add: f64_clamp_def f64_in_range_def f64_number_def)

text \<open>Fixed-point numbers with nine decimals.\<close>

definition fixed_f64 :: "int f64_lib" where
  "fixed_f64 = \<lparr> f64_of_i64 = (\<lambda>i. i * 10 ^ 9), f64_dec = (\<lambda>m e. m * 10 ^ 9 div 10 ^ e), f64_add = (+), f64_sub = (-),
     f64_mul = (\<lambda>a b. a * b div 10 ^ 9), f64_div = (\<lambda>a b. a * 10 ^ 9 div b), f64_min = min, f64_less = (<),
     f64_le = (\<le>), f64_is_finite = (\<lambda>_. True), f64_to_bits = (\<lambda>_. 0), f64_debug = (\<lambda>_. []), f64_fixed3 = (\<lambda>_. []) \<rparr>"

lemma fixed_f64_ok: "f64_ok fixed_f64"
  unfolding f64_ok_def fixed_f64_def by (simp add: left_diff_distrib)

lemma fixed_f64_order: "f64_order fixed_f64"
  unfolding f64_order_def f64_number_def fixed_f64_def by simp

end
