(* ===== verification/Plutus.thy ===== *)
theory Plutus
  imports Policy Dispatch Ledger Floats
begin

text \<open>
  The Plutus policy authority of \<open>henosis-plutus\<close>: quota tiers and dimensions (\<open>quota.rs\<close>), the
  classification of invocations (\<open>action_map.rs\<close>), the four-step gate (\<open>gate.rs\<close>) over a policy backend,
  and the single-operator \<open>LocalPolicyBackend\<close> in its memory and SQLite modes (\<open>backend.rs\<close>).

  Integers of type \<open>i64\<close> are \<open>int\<close> with the range of the type written out. The floating-point arithmetic
  of the token bucket is a parameter (\<open>Floats\<close>), an instant is its nanoseconds, and \<open>chrono\<close>'s range of
  instants is a parameter too. The mutex of the backend makes each operation atomic; the counters of the
  SQLite mode follow the \<open>STRICT\<close> schema of the migration, where a sum out of range is an error.
\<close>

section \<open>Tiers and quotas\<close>

datatype quota_tier = Free | Pro | Team | Enterprise

fun tier_as_str :: "quota_tier \<Rightarrow> string" where
  "tier_as_str Free = ''free''"
| "tier_as_str Pro = ''pro''"
| "tier_as_str Team = ''team''"
| "tier_as_str Enterprise = ''enterprise''"

definition tier_from_str :: "string \<Rightarrow> string + quota_tier" where
  "tier_from_str s =
     (if s = ''free'' then Inr Free
      else if s = ''pro'' then Inr Pro
      else if s = ''team'' then Inr Team
      else if s = ''enterprise'' then Inr Enterprise
      else Inl s)"

record quota_config =
  max_tasks_per_day :: int
  max_tokens_per_day :: int
  max_tool_calls_per_day :: int
  max_memory_stores_per_day :: int
  rate_limit_rpm :: int

definition i64_MAX :: int where
  "i64_MAX = 2 ^ 63 - 1"

fun tier_defaults :: "quota_tier \<Rightarrow> quota_config" where
  "tier_defaults Free = \<lparr> max_tasks_per_day = 10, max_tokens_per_day = 100000,
     max_tool_calls_per_day = 50, max_memory_stores_per_day = 100, rate_limit_rpm = 10 \<rparr>"
| "tier_defaults Pro = \<lparr> max_tasks_per_day = 100, max_tokens_per_day = 1000000,
     max_tool_calls_per_day = 500, max_memory_stores_per_day = 1000, rate_limit_rpm = 60 \<rparr>"
| "tier_defaults Team = \<lparr> max_tasks_per_day = 1000, max_tokens_per_day = 10000000,
     max_tool_calls_per_day = 5000, max_memory_stores_per_day = 10000, rate_limit_rpm = 300 \<rparr>"
| "tier_defaults Enterprise = \<lparr> max_tasks_per_day = i64_MAX, max_tokens_per_day = i64_MAX,
     max_tool_calls_per_day = i64_MAX, max_memory_stores_per_day = i64_MAX, rate_limit_rpm = 3600 \<rparr>"

datatype quota_dimension = Tasks | Tokens | ToolCalls | MemoryStores

fun dimension_as_str :: "quota_dimension \<Rightarrow> string" where
  "dimension_as_str Tasks = ''tasks''"
| "dimension_as_str Tokens = ''tokens''"
| "dimension_as_str ToolCalls = ''tool_calls''"
| "dimension_as_str MemoryStores = ''memory_stores''"

fun limit_from_config :: "quota_dimension \<Rightarrow> quota_config \<Rightarrow> int" where
  "limit_from_config Tasks cfg = max_tasks_per_day cfg"
| "limit_from_config Tokens cfg = max_tokens_per_day cfg"
| "limit_from_config ToolCalls cfg = max_tool_calls_per_day cfg"
| "limit_from_config MemoryStores cfg = max_memory_stores_per_day cfg"

record quota_outcome =
  qo_allowed :: bool
  qo_used :: int
  qo_limit :: int

lemma dimension_text_inject [simp]: "(dimension_as_str a = dimension_as_str b) = (a = b)"
  by (cases a; cases b) simp_all


section \<open>Classifying an invocation\<close>

record action_class =
  class_permission :: permission
  quota_dimension :: "quota_dimension option"

text \<open>The arms of the match, in its order.\<close>

definition map_invocation :: "tool_invocation \<Rightarrow> action_class" where
  "map_invocation i =
     (let tool = inv_tool i; action = inv_action i in
      if tool = ''kleos'' \<and> action = ''memory_store'' then
        \<lparr> class_permission = MemoryStore, quota_dimension = Some MemoryStores \<rparr>
      else if tool = ''kleos'' \<and> action = ''memory_search'' then
        \<lparr> class_permission = MemorySearch, quota_dimension = None \<rparr>
      else if tool = ''kleos'' \<and> action = ''context_build'' then
        \<lparr> class_permission = MemorySearch, quota_dimension = None \<rparr>
      else if tool = ''kleos'' \<and> action = ''handoff_dump'' \<or> tool = ''kleos'' \<and> action = ''handoff_restore'' then
        \<lparr> class_permission = MemoryStore, quota_dimension = Some MemoryStores \<rparr>
      else if tool = ''chiasm'' \<and> action = ''create_task'' \<or> action = ''task_submit'' then
        \<lparr> class_permission = TaskSubmit, quota_dimension = Some Tasks \<rparr>
      else if action = ''org_read'' \<or> tool = ''soma'' \<and> action = ''list_agents'' \<or> tool = ''soma'' \<and> action = ''get_agent'' then
        \<lparr> class_permission = OrgRead, quota_dimension = None \<rparr>
      else if tool = ''phylaxd'' \<or> action = ''secret_read'' \<or> action = ''secret_resolve'' then
        \<lparr> class_permission = SecretRead, quota_dimension = Some ToolCalls \<rparr>
      else if tool = ''billing'' \<or> action = ''billing_manage'' then
        \<lparr> class_permission = BillingManage, quota_dimension = None \<rparr>
      else if action = ''tool_invoke'' then
        \<lparr> class_permission = ToolInvoke, quota_dimension = Some ToolCalls \<rparr>
      else \<lparr> class_permission = AgentExecute, quota_dimension = Some ToolCalls \<rparr>)"

fun permission_debug :: "permission \<Rightarrow> string" where
  "permission_debug OrgRead = ''OrgRead''"
| "permission_debug AgentExecute = ''AgentExecute''"
| "permission_debug TaskSubmit = ''TaskSubmit''"
| "permission_debug ToolInvoke = ''ToolInvoke''"
| "permission_debug MemoryStore = ''MemoryStore''"
| "permission_debug MemorySearch = ''MemorySearch''"
| "permission_debug SecretRead = ''SecretRead''"
| "permission_debug BillingManage = ''BillingManage''"
| "permission_debug OrgDelete = ''OrgDelete''"


section \<open>The gate\<close>

datatype org_status = Active | Suspended | Deleted

fun org_status_text :: "org_status \<Rightarrow> string" where
  "org_status_text Active = ''active''"
| "org_status_text Suspended = ''suspended''"
| "org_status_text Deleted = ''deleted''"

datatype plutus_error = Store string | Migration string | Config string

fun plutus_error_text :: "plutus_error \<Rightarrow> string" where
  "plutus_error_text (Store m) = ''plutus store: '' @ m"
| "plutus_error_text (Migration m) = ''plutus migration: '' @ m"
| "plutus_error_text (Config m) = ''plutus config: '' @ m"

text \<open>The policy backend the gate is generic over, and its clock.\<close>

record 's gate_backend =
  org_status_of :: "uuid \<Rightarrow> 's \<Rightarrow> 's \<times> (plutus_error + org_status option)"
  member_role_of :: "uuid \<Rightarrow> uuid \<Rightarrow> 's \<Rightarrow> 's \<times> (plutus_error + role option)"
  check_and_increment :: "uuid \<Rightarrow> quota_dimension \<Rightarrow> int \<Rightarrow> string \<Rightarrow> 's \<Rightarrow> 's \<times> (plutus_error + quota_outcome)"
  rate_limit_ok :: "uuid \<Rightarrow> int \<Rightarrow> 's \<Rightarrow> 's \<times> (plutus_error + bool)"

record 's plutus_clock =
  now_utc :: "'s \<Rightarrow> int"
  today_utc :: "'s \<Rightarrow> string"

definition check_rate ::
    "'s gate_backend \<Rightarrow> 's plutus_clock \<Rightarrow> uuid \<Rightarrow> 's \<Rightarrow> 's \<times> (gate_error + gate_decision)" where
  "check_rate B K tenant s =
     (case rate_limit_ok B tenant (now_utc K s) s of
        (s1, Inl e) \<Rightarrow> (s1, Inl (plutus_error_text e))
      | (s1, Inr False) \<Rightarrow> (s1, Inr (Deny ''plutus: rate_limited''))
      | (s1, Inr True) \<Rightarrow> (s1, Inr Allow))"

definition check_quota ::
    "'s gate_backend \<Rightarrow> 's plutus_clock \<Rightarrow> uuid \<Rightarrow> quota_dimension option \<Rightarrow> 's \<Rightarrow>
     's \<times> (gate_error + gate_decision)" where
  "check_quota B K tenant dimension s =
     (case dimension of
        None \<Rightarrow> check_rate B K tenant s
      | Some dim \<Rightarrow>
          (case check_and_increment B tenant dim 1 (today_utc K s) s of
             (s1, Inl e) \<Rightarrow> (s1, Inl (plutus_error_text e))
           | (s1, Inr outcome) \<Rightarrow>
               if \<not> qo_allowed outcome then
                 (s1, Inr (Deny (''plutus: quota_exceeded '' @ dimension_as_str dim @ '' used='' @
                    i64_text (qo_used outcome) @ '' limit='' @ i64_text (qo_limit outcome))))
               else check_rate B K tenant s1))"

definition plutus_check ::
    "'s gate_backend \<Rightarrow> 's plutus_clock \<Rightarrow> gate_request \<Rightarrow> 's \<Rightarrow> 's \<times> (gate_error + gate_decision)" where
  "plutus_check B K r s =
     (let tenant = ctx_tenant (req_context r); member = ctx_principal (req_context r) in
      case org_status_of B tenant s of
        (s1, Inl e) \<Rightarrow> (s1, Inl (plutus_error_text e))
      | (s1, Inr None) \<Rightarrow> (s1, Inr (Deny ''plutus: no org for tenant''))
      | (s1, Inr (Some Suspended)) \<Rightarrow> (s1, Inr (Deny (''plutus: org '' @ org_status_text Suspended)))
      | (s1, Inr (Some Deleted)) \<Rightarrow> (s1, Inr (Deny (''plutus: org '' @ org_status_text Deleted)))
      | (s1, Inr (Some Active)) \<Rightarrow>
          (let class = map_invocation (req_invocation r) in
           case member_role_of B tenant member s1 of
             (s2, Inl e) \<Rightarrow> (s2, Inl (plutus_error_text e))
           | (s2, Inr None) \<Rightarrow> (s2, Inr (Deny ''plutus: principal is not a member of the org''))
           | (s2, Inr (Some role)) \<Rightarrow>
               if \<not> can role (class_permission class) then
                 (s2, Inr (Deny (''plutus: role '' @ role_as_str role @ '' lacks '' @
                    permission_debug (class_permission class))))
               else check_quota B K tenant (quota_dimension class) s2))"

definition plutus_gate :: "'s gate_backend \<Rightarrow> 's plutus_clock \<Rightarrow> 's gate" where
  "plutus_gate B K = \<lparr> gate_name = ''plutus'', gate_check = plutus_check B K \<rparr>"


section \<open>The local authority\<close>

text \<open>\<open>timestamp_millis_ok\<close> is the range of \<open>from_timestamp_millis\<close>.\<close>

record 'f policy_lib = "'f f64_lib" +
  timestamp_millis_ok :: "int \<Rightarrow> bool"

record 'f rate_bucket =
  bucket_tokens :: 'f
  last_refill :: int

record usage_row =
  ur_tenant :: string
  ur_dimension :: string
  ur_day :: string
  ur_used :: int

record 'f rate_row =
  rr_tenant :: string
  rr_tokens :: 'f
  rr_last_refill_ms :: int

datatype 'f local_state =
    Memory "string \<times> string \<Rightarrow> int option" "'f rate_bucket option"
  | Sqlite "usage_row list" "'f rate_row list"

record local_policy =
  lp_tenant :: uuid
  lp_principal :: uuid
  lp_role :: role
  lp_quota :: quota_config

definition local_policy_new :: "uuid \<Rightarrow> uuid \<Rightarrow> role \<Rightarrow> quota_tier \<Rightarrow> local_policy \<times> 'f local_state" where
  "local_policy_new tenant member role tier =
     (\<lparr> lp_tenant = tenant, lp_principal = member, lp_role = role, lp_quota = tier_defaults tier \<rparr>,
      Memory Map.empty None)"

definition require_tenant :: "local_policy \<Rightarrow> uuid \<Rightarrow> plutus_error + unit" where
  "require_tenant L tenant =
     (if tenant = lp_tenant L then Inr () else Inl (Config ''local policy received an unknown tenant''))"

definition local_org_status :: "local_policy \<Rightarrow> uuid \<Rightarrow> 's \<Rightarrow> 's \<times> (plutus_error + org_status option)" where
  "local_org_status L tenant s = (s, Inr (if tenant = lp_tenant L then Some Active else None))"

definition local_member_role :: "local_policy \<Rightarrow> uuid \<Rightarrow> uuid \<Rightarrow> 's \<Rightarrow> 's \<times> (plutus_error + role option)" where
  "local_member_role L tenant member s =
     (s, Inr (if tenant = lp_tenant L \<and> member = lp_principal L then Some (lp_role L) else None))"

definition local_tenant_for_principal :: "local_policy \<Rightarrow> uuid \<Rightarrow> plutus_error + uuid option" where
  "local_tenant_for_principal L member = Inr (if member = lp_principal L then Some (lp_tenant L) else None)"

text \<open>
  \<open>INSERT \<dots> ON CONFLICT DO UPDATE SET used = used + excluded.used RETURNING used\<close> under the schema: the
  primary key is \<open>(tenant_id, dimension, day)\<close>, a strict integer column takes \<open>i64\<close> values, and
  \<open>CHECK (used >= 0)\<close>.
\<close>

definition usage_key :: "string \<Rightarrow> string \<Rightarrow> string \<Rightarrow> usage_row \<Rightarrow> bool" where
  "usage_key tenant dim day r \<longleftrightarrow> ur_tenant r = tenant \<and> ur_dimension r = dim \<and> ur_day r = day"

definition upsert_usage :: "string \<Rightarrow> string \<Rightarrow> string \<Rightarrow> int \<Rightarrow> usage_row list \<Rightarrow> (usage_row list \<times> int) option" where
  "upsert_usage tenant dim day amount rows =
     (case find (usage_key tenant dim day) rows of
        None \<Rightarrow> if amount \<ge> 0
          then Some (rows @ [\<lparr> ur_tenant = tenant, ur_dimension = dim, ur_day = day, ur_used = amount \<rparr>], amount)
          else None
      | Some r \<Rightarrow>
          (let used = ur_used r + amount in
           if i64_range used \<and> used \<ge> 0
           then Some (sql_update (usage_key tenant dim day) (\<lambda>r. r \<lparr> ur_used := used \<rparr>) rows, used)
           else None))"

text \<open>\<open>sqlite_error\<close> is the text of a failed statement.\<close>

definition local_check_and_increment ::
    "uuid_lib \<Rightarrow> string \<Rightarrow> local_policy \<Rightarrow> uuid \<Rightarrow> quota_dimension \<Rightarrow> int \<Rightarrow> string \<Rightarrow> 'f local_state \<Rightarrow>
     'f local_state \<times> (plutus_error + quota_outcome)" where
  "local_check_and_increment U sqlite_error L tenant dim amount today st =
     (case require_tenant L tenant of
        Inl e \<Rightarrow> (st, Inl e)
      | Inr _ \<Rightarrow>
          (let limit = limit_from_config dim (lp_quota L);
               outcome = \<lambda>used. \<lparr> qo_allowed = (used \<le> limit), qo_used = used, qo_limit = limit \<rparr> in
           case st of
             Memory usage bucket \<Rightarrow>
               (let key = (dimension_as_str dim, today);
                    used = (case usage key of Some n \<Rightarrow> n | None \<Rightarrow> 0) in
                if i64_range (used + amount)
                then (Memory (usage (key \<mapsto> used + amount)) bucket, Inr (outcome (used + amount)))
                else (Memory (usage (key \<mapsto> used)) bucket, Inl (Store ''local usage counter overflow'')))
           | Sqlite rows buckets \<Rightarrow>
               (case upsert_usage (uuid_text U tenant) (dimension_as_str dim) today amount rows of
                  None \<Rightarrow> (st, Inl (Store sqlite_error))
                | Some (rows', used) \<Rightarrow> (Sqlite rows' buckets, Inr (outcome used)))))"

definition consume_local_rate_token ::
    "'f policy_lib \<Rightarrow> 'f rate_bucket option \<Rightarrow> 'f \<Rightarrow> int \<Rightarrow> 'f rate_bucket \<times> (plutus_error + bool)" where
  "consume_local_rate_token F bucket rpm now =
     (let b = (case bucket of Some b \<Rightarrow> b | None \<Rightarrow> \<lparr> bucket_tokens = rpm, last_refill = now \<rparr>) in
      if \<not> f64_is_finite F (bucket_tokens b) \<or> f64_less F (bucket_tokens b) (f64_of_i64 F 0) \<or>
         f64_less F rpm (bucket_tokens b)
      then (b, Inl (Store ''local rate-limit state is invalid''))
      else
        (let b1 = (if now > last_refill b then
               (let elapsed = f64_div F (f64_of_i64 F ((now - last_refill b) div 1000000)) (f64_of_i64 F 1000) in
                b \<lparr> bucket_tokens := f64_min F (f64_add F (bucket_tokens b)
                     (f64_div F (f64_mul F elapsed rpm) (f64_of_i64 F 60))) rpm, last_refill := now \<rparr>)
             else b) in
         if f64_less F (bucket_tokens b1) (f64_of_i64 F 1) then (b1, Inr False)
         else (b1 \<lparr> bucket_tokens := f64_sub F (bucket_tokens b1) (f64_of_i64 F 1) \<rparr>, Inr True)))"

definition upsert_rate :: "string \<Rightarrow> 'f rate_bucket \<Rightarrow> 'f rate_row list \<Rightarrow> 'f rate_row list" where
  "upsert_rate tenant b rows =
     (let row = \<lparr> rr_tenant = tenant, rr_tokens = bucket_tokens b, rr_last_refill_ms = last_refill b div 1000000 \<rparr> in
      if list_ex (\<lambda>r. rr_tenant r = tenant) rows then sql_update (\<lambda>r. rr_tenant r = tenant) (\<lambda>_. row) rows
      else rows @ [row])"

text \<open>In the SQLite mode an error leaves the transaction uncommitted.\<close>

definition local_rate_limit_ok ::
    "uuid_lib \<Rightarrow> 'f policy_lib \<Rightarrow> local_policy \<Rightarrow> uuid \<Rightarrow> int \<Rightarrow> 'f local_state \<Rightarrow>
     'f local_state \<times> (plutus_error + bool)" where
  "local_rate_limit_ok U F L tenant now st =
     (case require_tenant L tenant of
        Inl e \<Rightarrow> (st, Inl e)
      | Inr _ \<Rightarrow>
          (let rpm = f64_of_i64 F (rate_limit_rpm (lp_quota L)) in
           case st of
             Memory usage bucket \<Rightarrow>
               (case consume_local_rate_token F bucket rpm now of (b, res) \<Rightarrow> (Memory usage (Some b), res))
           | Sqlite rows buckets \<Rightarrow>
               (let name = uuid_text U tenant;
                    stored = find (\<lambda>r. rr_tenant r = name) buckets;
                    commit = (\<lambda>bucket. case consume_local_rate_token F bucket rpm now of
                        (b, Inl e) \<Rightarrow> (st, Inl e)
                      | (b, Inr allowed) \<Rightarrow> (Sqlite rows (upsert_rate name b buckets), Inr allowed)) in
                case stored of
                  None \<Rightarrow> commit None
                | Some r \<Rightarrow>
                    if timestamp_millis_ok F (rr_last_refill_ms r)
                    then commit (Some \<lparr> bucket_tokens = rr_tokens r, last_refill = rr_last_refill_ms r * 1000000 \<rparr>)
                    else (st, Inl (Store ''local rate-limit timestamp is invalid'')))))"

definition local_backend :: "uuid_lib \<Rightarrow> 'f policy_lib \<Rightarrow> string \<Rightarrow> local_policy \<Rightarrow> 'f local_state gate_backend" where
  "local_backend U F sqlite_error L = \<lparr> org_status_of = local_org_status L, member_role_of = local_member_role L,
     check_and_increment = local_check_and_increment U sqlite_error L, rate_limit_ok = local_rate_limit_ok U F L \<rparr>"


section \<open>Metered rights\<close>

text \<open>
  A store whose replies grant a right that is metered: a grant needs the meter below its limit and moves
  it up by one, and nothing moves it down.
\<close>

locale metered_store = store step valid inv
  for step :: "'op \<Rightarrow> 's \<Rightarrow> 's \<times> 'r" and valid :: "'op \<Rightarrow> bool" and inv :: "'s \<Rightarrow> bool" +
  fixes meter :: "'s \<Rightarrow> int"
    and limit :: int
    and grants :: "'op \<Rightarrow> 'r \<Rightarrow> bool"
  assumes grant_meters: "inv s \<Longrightarrow> valid x \<Longrightarrow> grants x (snd (step x s)) \<Longrightarrow>
      meter s < limit \<and> meter (fst (step x s)) = meter s + 1"
    and meter_mono: "inv s \<Longrightarrow> valid x \<Longrightarrow> meter s \<le> meter (fst (step x s))"
begin

lemma granted_limit:
  "inv s \<Longrightarrow> list_all valid xs \<Longrightarrow> granted grants xs (snd (run step xs s)) \<le> nat (limit - meter s)"
proof (induction xs arbitrary: s)
  case (Cons x xs)
  then have IH: "granted grants xs (snd (run step xs (fst (step x s)))) \<le> nat (limit - meter (fst (step x s)))"
    and I: "inv s" "valid x" using inv_step by auto
  show ?case
    using IH grant_meters [OF I] meter_mono [OF I] by (auto simp: run_Cons simp del: run.simps(2))
qed simp

end


section \<open>What the local authority counts\<close>

definition usage_of :: "uuid_lib \<Rightarrow> local_policy \<Rightarrow> 'f local_state \<Rightarrow> quota_dimension \<Rightarrow> string \<Rightarrow> int" where
  "usage_of U L st dim day =
     (case st of
        Memory usage _ \<Rightarrow> (case usage (dimension_as_str dim, day) of Some n \<Rightarrow> n | None \<Rightarrow> 0)
      | Sqlite rows _ \<Rightarrow>
          (case find (usage_key (uuid_text U (lp_tenant L)) (dimension_as_str dim) day) rows of
             Some r \<Rightarrow> ur_used r
           | None \<Rightarrow> 0))"

definition counters_ok :: "uuid_lib \<Rightarrow> local_policy \<Rightarrow> 'f local_state \<Rightarrow> bool" where
  "counters_ok U L st \<longleftrightarrow> (\<forall>dim day. 0 \<le> usage_of U L st dim day)"

lemma i64_next: "0 \<le> n \<Longrightarrow> i64_range (n + 1) = (n < i64_MAX)"
  by (auto simp: i64_range_def i64_MAX_def)

lemma usage_key_append:
  "find (usage_key t d day) (rows @ [\<lparr> ur_tenant = t', ur_dimension = d', ur_day = day', ur_used = n \<rparr>]) =
   (case find (usage_key t d day) rows of Some r \<Rightarrow> Some r
    | None \<Rightarrow> if t = t' \<and> d = d' \<and> day = day'
        then Some \<lparr> ur_tenant = t', ur_dimension = d', ur_day = day', ur_used = n \<rparr> else None)"
  by (induction rows) (auto simp: usage_key_def)

lemma usage_key_update:
  "map_option ur_used (find (usage_key t d day) (sql_update (usage_key t d' day') (\<lambda>r. r \<lparr> ur_used := n \<rparr>) rows)) =
   (if d = d' \<and> day = day' then map_option (\<lambda>_. n) (find (usage_key t d day) rows)
    else map_option ur_used (find (usage_key t d day) rows))"
proof -
  have keep: "usage_key t d day (r \<lparr> ur_used := n \<rparr>) = usage_key t d day r" for r by (simp add: usage_key_def)
  have other: "usage_key t d day r \<Longrightarrow> \<not> (d = d' \<and> day = day') \<Longrightarrow> \<not> usage_key t d' day' r" for r
    by (auto simp: usage_key_def)
  show ?thesis
    by (induction rows) (use keep other in \<open>auto simp: sql_update_def\<close>)
qed

lemma case_used: "(case x of None \<Rightarrow> 0 | Some r \<Rightarrow> ur_used r) = (case map_option ur_used x of None \<Rightarrow> 0 | Some n \<Rightarrow> n)"
  by (cases x) simp_all

lemma increment_usage:
  assumes "counters_ok U L st" and u: "u = usage_of U L st dim today"
    and step: "local_check_and_increment U err L (lp_tenant L) dim 1 today st = (st', res)"
  shows "(if u < i64_MAX
      then res = Inr \<lparr> qo_allowed = (u + 1 \<le> limit_from_config dim (lp_quota L)), qo_used = u + 1,
             qo_limit = limit_from_config dim (lp_quota L) \<rparr>
      else \<exists>e. res = Inl e) \<and>
    usage_of U L st' d day = usage_of U L st d day + (if d = dim \<and> day = today \<and> u < i64_MAX then 1 else 0)"
proof -
  have "0 \<le> u" using assms(1) u by (simp add: counters_ok_def)
  then have next_u: "i64_range (u + 1) = (u < i64_MAX)" by (rule i64_next)
  show ?thesis
  proof (cases st)
    case (Memory usage bucket)
    then show ?thesis
      using step u next_u
      by (auto simp: local_check_and_increment_def require_tenant_def usage_of_def Let_def
          split: if_splits)
  next
    case (Sqlite rows buckets)
    let ?key = "usage_key (uuid_text U (lp_tenant L)) (dimension_as_str dim) today"
    show ?thesis
    proof (cases "find ?key rows")
      case None
      then have "u = 0" using u Sqlite by (simp add: usage_of_def)
      with None Sqlite step show ?thesis
        by (auto simp: local_check_and_increment_def require_tenant_def usage_of_def Let_def upsert_usage_def
            usage_key_append i64_MAX_def split: option.splits)
    next
      case (Some r)
      then have "u = ur_used r" using u Sqlite by (simp add: usage_of_def)
      with Some Sqlite step next_u \<open>0 \<le> u\<close> show ?thesis
        by (auto simp: local_check_and_increment_def require_tenant_def usage_of_def Let_def upsert_usage_def
            case_used usage_key_update split: if_splits)
    qed
  qed
qed

lemma rate_keeps_usage: "usage_of U L (fst (local_rate_limit_ok U F L' tenant now st)) d day = usage_of U L st d day"
  by (cases st) (auto simp: local_rate_limit_ok_def require_tenant_def usage_of_def Let_def
      split: sum.splits option.splits prod.splits if_splits)

text \<open>The request is the operator's own and the role covers its class.\<close>

definition authorised :: "local_policy \<Rightarrow> gate_request \<Rightarrow> bool" where
  "authorised L r \<longleftrightarrow> ctx_tenant (req_context r) = lp_tenant L \<and> ctx_principal (req_context r) = lp_principal L \<and>
     can (lp_role L) (class_permission (map_invocation (req_invocation r)))"

definition charged :: "uuid_lib \<Rightarrow> string \<Rightarrow> local_policy \<Rightarrow> string \<Rightarrow> gate_request \<Rightarrow> 'f local_state \<Rightarrow> 'f local_state" where
  "charged U err L today r st =
     (case quota_dimension (map_invocation (req_invocation r)) of
        None \<Rightarrow> st
      | Some dim \<Rightarrow> fst (local_check_and_increment U err L (lp_tenant L) dim 1 today st))"

lemma check_rate_usage:
  "usage_of U L (fst (check_rate (local_backend U F err L) K tenant st)) d day = usage_of U L st d day"
  using rate_keeps_usage [of U L F L tenant "now_utc K st" st d day]
  by (auto simp: check_rate_def local_backend_def split: prod.splits sum.splits bool.splits)

lemma check_rate_allows:
  "snd (check_rate (local_backend U F err L) K tenant st) = Inr Allow \<longleftrightarrow>
   snd (local_rate_limit_ok U F L tenant (now_utc K st) st) = Inr True"
  by (auto simp: check_rate_def local_backend_def split: prod.splits sum.splits bool.splits)

lemma local_ops:
  "org_status_of (local_backend U F err L) = local_org_status L"
  "member_role_of (local_backend U F err L) = local_member_role L"
  "check_and_increment (local_backend U F err L) = local_check_and_increment U err L"
  "rate_limit_ok (local_backend U F err L) = local_rate_limit_ok U F L"
  by (simp_all add: local_backend_def)

lemma check_quota_local:
  assumes "counters_ok U L st" and "\<forall>dim. limit_from_config dim (lp_quota L) \<le> i64_MAX"
  defines "st1 \<equiv> \<lambda>err dim today. fst (local_check_and_increment U err L (lp_tenant L) dim 1 today st)"
  shows "(snd (check_quota (local_backend U F err L) K (lp_tenant L) (Some dim) st) = Inr Allow \<longleftrightarrow>
      usage_of U L st dim (today_utc K st) < limit_from_config dim (lp_quota L) \<and>
      snd (local_rate_limit_ok U F L (lp_tenant L) (now_utc K (st1 err dim (today_utc K st))) (st1 err dim (today_utc K st))) = Inr True) \<and>
    (\<forall>d day. usage_of U L (fst (check_quota (local_backend U F err L) K (lp_tenant L) (Some dim) st)) d day =
      usage_of U L st d day + (if d = dim \<and> day = today_utc K st \<and> usage_of U L st dim day < i64_MAX then 1 else 0))"
proof -
  let ?u = "usage_of U L st dim (today_utc K st)"
  obtain s1 res where inc: "local_check_and_increment U err L (lp_tenant L) dim 1 (today_utc K st) st = (s1, res)"
    by fastforce
  have le: "limit_from_config dim (lp_quota L) \<le> i64_MAX" using assms(2) by blast
  note usage = increment_usage [OF assms(1) refl inc]
  have check: "check_quota (local_backend U F err L) K (lp_tenant L) (Some dim) st =
    (case res of Inl e \<Rightarrow> (s1, Inl (plutus_error_text e))
     | Inr outcome \<Rightarrow>
         if \<not> qo_allowed outcome then
           (s1, Inr (Deny (''plutus: quota_exceeded '' @ dimension_as_str dim @ '' used='' @
              i64_text (qo_used outcome) @ '' limit='' @ i64_text (qo_limit outcome))))
         else check_rate (local_backend U F err L) K (lp_tenant L) s1)"
    using inc by (simp add: check_quota_def local_ops)
  show ?thesis
  proof (cases "?u < limit_from_config dim (lp_quota L)")
    case True
    then have "res = Inr \<lparr> qo_allowed = True, qo_used = ?u + 1, qo_limit = limit_from_config dim (lp_quota L) \<rparr>"
      using usage le by auto
    then have "check_quota (local_backend U F err L) K (lp_tenant L) (Some dim) st =
        check_rate (local_backend U F err L) K (lp_tenant L) s1" by (simp add: check)
    then show ?thesis
      using True le usage inc by (auto simp: check_rate_usage check_rate_allows st1_def)
  next
    case False
    then have refused: "\<exists>out. check_quota (local_backend U F err L) K (lp_tenant L) (Some dim) st = (s1, out) \<and> out \<noteq> Inr Allow"
    proof -
      have "(\<exists>e. res = Inl e) \<or> (\<exists>out. res = Inr out \<and> \<not> qo_allowed out)"
        using usage False by (cases "?u < i64_MAX") auto
      then show ?thesis using check by auto
    qed
    then show ?thesis using False usage by auto
  qed
qed

lemma local_check_decides:
  assumes "counters_ok U L st" and "\<forall>dim. limit_from_config dim (lp_quota L) \<le> i64_MAX"
  shows "(case plutus_check (local_backend U F err L) K r st of (st', res) \<Rightarrow>
    (res = Inr Allow \<longleftrightarrow> authorised L r \<and>
       (\<forall>dim. quota_dimension (map_invocation (req_invocation r)) = Some dim \<longrightarrow>
          usage_of U L st dim (today_utc K st) < limit_from_config dim (lp_quota L)) \<and>
       (let st1 = charged U err L (today_utc K st) r st
        in snd (local_rate_limit_ok U F L (lp_tenant L) (now_utc K st1) st1) = Inr True)) \<and>
    (\<forall>dim day. usage_of U L st' dim day = usage_of U L st dim day +
       (if authorised L r \<and> quota_dimension (map_invocation (req_invocation r)) = Some dim \<and>
           day = today_utc K st \<and> usage_of U L st dim day < i64_MAX then 1 else 0)))"
proof -
  let ?B = "local_backend U F err L"
  let ?cls = "map_invocation (req_invocation r)"
  show ?thesis
  proof (cases "authorised L r")
    case False
    then show ?thesis
      by (auto simp: plutus_check_def local_ops local_org_status_def local_member_role_def authorised_def Let_def)
  next
    case True
    then have quota: "plutus_check ?B K r st = check_quota ?B K (lp_tenant L) (quota_dimension ?cls) st"
      by (simp add: plutus_check_def local_ops local_org_status_def local_member_role_def authorised_def Let_def)
    show ?thesis
    proof (cases "quota_dimension ?cls")
      case None
      then show ?thesis
        using True check_rate_usage [of U L F err K "lp_tenant L" st] check_rate_allows [of U F err L K "lp_tenant L" st]
        by (cases "check_rate ?B K (lp_tenant L) st") (simp add: quota check_quota_def charged_def Let_def)
    next
      case (Some dim)
      show ?thesis
        using True Some check_quota_local [OF assms, where dim = dim and F = F and err = err and K = K]
        by (cases "check_quota ?B K (lp_tenant L) (Some dim) st") (auto simp: quota charged_def Let_def)
    qed
  qed
qed

text \<open>
  The token bucket as a specification: what is stored for the tenant, how many tokens it holds at an
  instant (those stored plus \<open>rpm\<close> per minute for the whole milliseconds since the last refill, at most
  \<open>rpm\<close>; a clock that is not later adds nothing; no bucket yet counts as full), and when a token is
  there: the stored amount is a finite number between zero and \<open>rpm\<close>, its timestamp can be read, and
  not less than one token is held.
\<close>

definition bucket_of :: "uuid_lib \<Rightarrow> local_policy \<Rightarrow> 'f local_state \<Rightarrow> 'f rate_bucket option" where
  "bucket_of U L st =
     (case st of
        Memory _ bucket \<Rightarrow> bucket
      | Sqlite _ buckets \<Rightarrow>
          map_option (\<lambda>r. \<lparr> bucket_tokens = rr_tokens r, last_refill = rr_last_refill_ms r * 1000000 \<rparr>)
            (find (\<lambda>r. rr_tenant r = uuid_text U (lp_tenant L)) buckets))"

definition refill_readable :: "'f policy_lib \<Rightarrow> 'f local_state \<Rightarrow> 'f rate_bucket \<Rightarrow> bool" where
  "refill_readable F st b \<longleftrightarrow>
     (case st of Memory _ _ \<Rightarrow> True | Sqlite _ _ \<Rightarrow> timestamp_millis_ok F (last_refill b div 1000000))"

definition tokens_at :: "'f policy_lib \<Rightarrow> 'f \<Rightarrow> int \<Rightarrow> 'f rate_bucket \<Rightarrow> 'f" where
  "tokens_at F rpm now b =
     (let seconds = f64_div F (f64_of_i64 F ((now - last_refill b) div 1000000)) (f64_of_i64 F 1000);
          earned = f64_div F (f64_mul F seconds rpm) (f64_of_i64 F 60)
      in if now \<le> last_refill b then bucket_tokens b else f64_min F (f64_add F (bucket_tokens b) earned) rpm)"

abbreviation rpm_of :: "'f policy_lib \<Rightarrow> local_policy \<Rightarrow> 'f" where
  "rpm_of F L \<equiv> f64_of_i64 F (rate_limit_rpm (lp_quota L))"

definition full_bucket :: "'f \<Rightarrow> int \<Rightarrow> 'f rate_bucket" where
  "full_bucket rpm now = \<lparr> bucket_tokens = rpm, last_refill = now \<rparr>"

definition bucket_at :: "uuid_lib \<Rightarrow> 'f policy_lib \<Rightarrow> local_policy \<Rightarrow> int \<Rightarrow> 'f local_state \<Rightarrow> 'f rate_bucket" where
  "bucket_at U F L now st = (case bucket_of U L st of Some b \<Rightarrow> b | None \<Rightarrow> full_bucket (rpm_of F L) now)"

definition token_available :: "uuid_lib \<Rightarrow> 'f policy_lib \<Rightarrow> local_policy \<Rightarrow> int \<Rightarrow> 'f local_state \<Rightarrow> bool" where
  "token_available U F L now st \<longleftrightarrow>
     (let b = bucket_at U F L now st; rpm = rpm_of F L in
      (bucket_of U L st \<noteq> None \<longrightarrow> refill_readable F st b) \<and>
      f64_is_finite F (bucket_tokens b) \<and> \<not> f64_less F (bucket_tokens b) (f64_of_i64 F 0) \<and>
      \<not> f64_less F rpm (bucket_tokens b) \<and> \<not> f64_less F (tokens_at F rpm now b) (f64_of_i64 F 1))"

text \<open>The bucket after one token was taken at \<open>now\<close>; the table keeps whole milliseconds.\<close>

definition one_token_less :: "uuid_lib \<Rightarrow> 'f policy_lib \<Rightarrow> local_policy \<Rightarrow> int \<Rightarrow> 'f local_state \<Rightarrow> 'f rate_bucket" where
  "one_token_less U F L now st =
     (let b = bucket_at U F L now st; t = max now (last_refill b) in
      \<lparr> bucket_tokens = f64_sub F (tokens_at F (rpm_of F L) now b) (f64_of_i64 F 1),
        last_refill = (case st of Memory _ _ \<Rightarrow> t | Sqlite _ _ \<Rightarrow> t div 1000000 * 1000000) \<rparr>)"

lemma find_upsert_rate:
  "find (\<lambda>r. rr_tenant r = t) (upsert_rate t b rows) =
     Some \<lparr> rr_tenant = t, rr_tokens = bucket_tokens b, rr_last_refill_ms = last_refill b div 1000000 \<rparr>"
proof (cases "find (\<lambda>r. rr_tenant r = t) rows")
  case None
  then have "\<not> list_ex (\<lambda>r. rr_tenant r = t) rows" by (simp add: list_ex_iff find_None)
  with None show ?thesis by (simp add: upsert_rate_def Let_def find_append)
next
  case (Some r)
  then have "list_ex (\<lambda>r. rr_tenant r = t) rows" using find_SomeD [OF Some] by (auto simp: list_ex_iff)
  with Some show ?thesis using find_SomeD [OF Some] by (simp add: upsert_rate_def Let_def find_sql_update)
qed

lemma consume_grants:
  assumes "b = (case bucket of Some b \<Rightarrow> b | None \<Rightarrow> full_bucket rpm now)"
  shows "snd (consume_local_rate_token F bucket rpm now) = Inr True \<longleftrightarrow>
      f64_is_finite F (bucket_tokens b) \<and> \<not> f64_less F (bucket_tokens b) (f64_of_i64 F 0) \<and>
      \<not> f64_less F rpm (bucket_tokens b) \<and> \<not> f64_less F (tokens_at F rpm now b) (f64_of_i64 F 1)"
    and "snd (consume_local_rate_token F bucket rpm now) = Inr True \<Longrightarrow>
      fst (consume_local_rate_token F bucket rpm now) =
        \<lparr> bucket_tokens = f64_sub F (tokens_at F rpm now b) (f64_of_i64 F 1), last_refill = max now (last_refill b) \<rparr>"
proof -
  have c: "consume_local_rate_token F bucket rpm now = consume_local_rate_token F (Some b) rpm now"
    unfolding assms by (cases bucket) (simp_all add: consume_local_rate_token_def full_bucket_def)
  have "(now \<le> last_refill b) = (\<not> last_refill b < now)" by auto
  note step = consume_local_rate_token_def tokens_at_def Let_def max_def this
  show "snd (consume_local_rate_token F bucket rpm now) = Inr True \<longleftrightarrow>
      f64_is_finite F (bucket_tokens b) \<and> \<not> f64_less F (bucket_tokens b) (f64_of_i64 F 0) \<and>
      \<not> f64_less F rpm (bucket_tokens b) \<and> \<not> f64_less F (tokens_at F rpm now b) (f64_of_i64 F 1)"
    unfolding c by (cases "last_refill b < now") (simp_all add: step)
  show "snd (consume_local_rate_token F bucket rpm now) = Inr True \<Longrightarrow>
      fst (consume_local_rate_token F bucket rpm now) =
        \<lparr> bucket_tokens = f64_sub F (tokens_at F rpm now b) (f64_of_i64 F 1), last_refill = max now (last_refill b) \<rparr>"
    unfolding c by (cases "last_refill b < now"; cases b) (auto simp: step split: if_splits)
qed

lemma rate_limit_decides:
  "snd (local_rate_limit_ok U F L (lp_tenant L) now st) = Inr True \<longleftrightarrow> token_available U F L now st" (is ?iff)
  "snd (local_rate_limit_ok U F L (lp_tenant L) now st) = Inr True \<Longrightarrow>
   bucket_of U L (fst (local_rate_limit_ok U F L (lp_tenant L) now st)) = Some (one_token_less U F L now st)" (is "_ \<Longrightarrow> ?less")
proof -
  let ?c = "consume_local_rate_token F (bucket_of U L st) (rpm_of F L) now"
  note grants = consume_grants [OF bucket_at_def [of U F L now st], of F]
  have "?iff \<and> (snd (local_rate_limit_ok U F L (lp_tenant L) now st) = Inr True \<longrightarrow> ?less)"
  proof (cases st)
    case (Memory usage bucket)
    then have "local_rate_limit_ok U F L (lp_tenant L) now st = (Memory usage (Some (fst ?c)), snd ?c)"
      by (simp add: local_rate_limit_ok_def require_tenant_def bucket_of_def Let_def split: prod.splits)
    then show ?thesis
      using grants Memory by (simp add: token_available_def refill_readable_def one_token_less_def bucket_of_def Let_def)
  next
    case (Sqlite rows buckets)
    let ?name = "uuid_text U (lp_tenant L)"
    have ok: "(\<forall>b. bucket_of U L st = Some b \<longrightarrow> refill_readable F st b) \<longleftrightarrow>
        (bucket_of U L st \<noteq> None \<longrightarrow> refill_readable F st (bucket_at U F L now st))"
      by (auto simp: bucket_at_def)
    have run: "local_rate_limit_ok U F L (lp_tenant L) now st =
        (if \<forall>b. bucket_of U L st = Some b \<longrightarrow> refill_readable F st b
         then (case ?c of (b, Inl e) \<Rightarrow> (st, Inl e)
               | (b, Inr allowed) \<Rightarrow> (Sqlite rows (upsert_rate ?name b buckets), Inr allowed))
         else (st, Inl (Store ''local rate-limit timestamp is invalid'')))"
      using Sqlite
      by (auto simp: local_rate_limit_ok_def require_tenant_def bucket_of_def refill_readable_def Let_def split: option.splits)
    show ?thesis
      unfolding run ok using grants Sqlite
      by (auto simp: token_available_def one_token_less_def bucket_of_def find_upsert_rate Let_def
          split: prod.splits sum.splits)
  qed
  then show ?iff "snd (local_rate_limit_ok U F L (lp_tenant L) now st) = Inr True \<Longrightarrow> ?less" by blast+
qed

text \<open>Charging a counter leaves the bucket alone.\<close>

lemma increment_keeps_bucket:
  assumes "st' = fst (local_check_and_increment U err L tenant dim n today st)"
  shows "bucket_of U L st' = bucket_of U L st \<and> refill_readable F st' b = refill_readable F st b \<and>
    (\<forall>x y :: int. (case st' of Memory _ _ \<Rightarrow> x | Sqlite _ _ \<Rightarrow> y) = (case st of Memory _ _ \<Rightarrow> x | Sqlite _ _ \<Rightarrow> y))"
  unfolding assms
  by (cases st) (auto simp: local_check_and_increment_def bucket_of_def refill_readable_def Let_def
      split: sum.splits option.splits)

lemma charged_keeps_bucket:
  "bucket_of U L (charged U err L today r st) = bucket_of U L st"
  "refill_readable F (charged U err L today r st) b = refill_readable F st b"
  "one_token_less U F L now (charged U err L today r st) = one_token_less U F L now st"
  by (simp_all add: charged_def increment_keeps_bucket [OF refl] one_token_less_def bucket_at_def Let_def split: option.split)

lemma charged_token: "token_available U F L now (charged U err L today r st) = token_available U F L now st"
  by (simp add: token_available_def bucket_at_def charged_keeps_bucket)

lemma allowed_state:
  assumes "plutus_check (local_backend U F err L) K r st = (st', Inr Allow)"
  defines "st1 \<equiv> charged U err L (today_utc K st) r st"
  shows "local_rate_limit_ok U F L (lp_tenant L) (now_utc K st1) st1 = (st', Inr True)"
proof -
  let ?B = "local_backend U F err L"
  have rate: "local_rate_limit_ok U F L (lp_tenant L) (now_utc K s) s = (st', Inr True)"
    if "check_rate ?B K (lp_tenant L) s = (st', Inr Allow)" for s
    using that by (auto simp: check_rate_def local_ops split: prod.splits sum.splits bool.splits)
  have "check_quota ?B K (lp_tenant L) (quota_dimension (map_invocation (req_invocation r))) st = (st', Inr Allow)"
    using assms(1)
    by (auto simp: plutus_check_def local_ops local_org_status_def local_member_role_def Let_def split: if_splits)
  then have "check_rate ?B K (lp_tenant L) st1 = (st', Inr Allow)"
    unfolding st1_def by (auto simp: check_quota_def charged_def local_ops split: option.splits prod.splits sum.splits if_splits)
  then show ?thesis by (rule rate)
qed

text \<open>
  Property C13. The local Plutus gate decides exactly, and charges exactly, in memory and in SQLite mode:
  it allows a request if and only if the request is the configured operator's own, the role covers the
  class of the invocation, the day's counter of the class is below its limit, and the token bucket then
  holds a token: its stored amount is a valid number, and with what accrued since the last refill, at the
  configured rate and up to the cap, it is not less than one. An allowed request takes exactly one token;
  a counter moves, by one and only for the request's own dimension and day, if and only if
  the caller was authorised. A foreign or unprivileged caller consumes no quota, and a counter at the
  largest \<open>i64\<close> refuses instead of wrapping.
\<close>

theorem local_gate_decides:
  assumes "counters_ok U L st" and "\<forall>dim. limit_from_config dim (lp_quota L) \<le> i64_MAX"
  shows "(case plutus_check (local_backend U F err L) K r st of (st', res) \<Rightarrow>
    let now = now_utc K (charged U err L (today_utc K st) r st) in
    (res = Inr Allow \<longleftrightarrow> authorised L r \<and>
       (\<forall>dim. quota_dimension (map_invocation (req_invocation r)) = Some dim \<longrightarrow>
          usage_of U L st dim (today_utc K st) < limit_from_config dim (lp_quota L)) \<and>
       token_available U F L now st) \<and>
    (res = Inr Allow \<longrightarrow> bucket_of U L st' = Some (one_token_less U F L now st)) \<and>
    (\<forall>dim day. usage_of U L st' dim day = usage_of U L st dim day +
       (if authorised L r \<and> quota_dimension (map_invocation (req_invocation r)) = Some dim \<and>
           day = today_utc K st \<and> usage_of U L st dim day < i64_MAX then 1 else 0)))"
proof -
  obtain st' res where p: "plutus_check (local_backend U F err L) K r st = (st', res)" by fastforce
  let ?st1 = "charged U err L (today_utc K st) r st"
  have "bucket_of U L st' = Some (one_token_less U F L (now_utc K ?st1) st)" if "res = Inr Allow"
    using allowed_state [where U = U and F = F and err = err and L = L and K = K and r = r and st = st and st' = st'] rate_limit_decides(2) [of U F L "now_utc K ?st1" ?st1] p that
    by (simp add: charged_keeps_bucket)
  then show ?thesis
    using local_check_decides [OF assms, where F = F and err = err and K = K and r = r] p
    by (simp add: Let_def rate_limit_decides(1) charged_token)
qed

definition local_step ::
    "uuid_lib \<Rightarrow> 'f policy_lib \<Rightarrow> string \<Rightarrow> local_policy \<Rightarrow> gate_request \<times> int \<times> string \<Rightarrow> 'f local_state \<Rightarrow>
     'f local_state \<times> (gate_error + gate_decision)" where
  "local_step U F err L x st =
     plutus_check (local_backend U F err L)
       \<lparr> now_utc = (\<lambda>_. fst (snd x)), today_utc = (\<lambda>_. snd (snd x)) \<rparr> (fst x) st"

definition allowed_in :: "quota_dimension \<Rightarrow> string \<Rightarrow> gate_request \<times> int \<times> string \<Rightarrow> gate_error + gate_decision \<Rightarrow> bool" where
  "allowed_in dim day x res \<longleftrightarrow> res = Inr Allow \<and> snd (snd x) = day \<and>
     quota_dimension (map_invocation (req_invocation (fst x))) = Some dim"

definition local_inv :: "uuid_lib \<Rightarrow> local_policy \<Rightarrow> 'f local_state \<Rightarrow> bool" where
  "local_inv U L st \<longleftrightarrow> counters_ok U L st \<and> (\<forall>dim. limit_from_config dim (lp_quota L) \<le> i64_MAX)"

lemma local_step_decides:
  assumes "local_inv U L st"
  shows "(snd (local_step U F err L x st) = Inr Allow \<longrightarrow> authorised L (fst x) \<and>
       (\<forall>dim. quota_dimension (map_invocation (req_invocation (fst x))) = Some dim \<longrightarrow>
          usage_of U L st dim (snd (snd x)) < limit_from_config dim (lp_quota L)))"
    "usage_of U L (fst (local_step U F err L x st)) dim day = usage_of U L st dim day +
       (if authorised L (fst x) \<and> quota_dimension (map_invocation (req_invocation (fst x))) = Some dim \<and>
           day = snd (snd x) \<and> usage_of U L st dim day < i64_MAX then 1 else 0)"
  using local_check_decides [where K = "\<lparr> now_utc = (\<lambda>_. fst (snd x)), today_utc = (\<lambda>_. snd (snd x)) \<rparr>"
      and st = st and L = L and U = U and F = F and err = err and r = "fst x"] assms
  by (auto simp: local_step_def local_inv_def Let_def split: prod.splits)

interpretation quota: metered_store "local_step U F err L" "\<lambda>_. True" "local_inv U L"
    "\<lambda>st. usage_of U L st dim day" "limit_from_config dim (lp_quota L)" "allowed_in dim day"
proof
  show "local_inv U L (fst (local_step U F err L x s))" if "local_inv U L s" for x s
    using that by (simp add: local_inv_def counters_ok_def local_step_decides(2) [OF that])
  show "usage_of U L s dim day < limit_from_config dim (lp_quota L) \<and>
      usage_of U L (fst (local_step U F err L x s)) dim day = usage_of U L s dim day + 1"
    if "local_inv U L s" "allowed_in dim day x (snd (local_step U F err L x s))" for x s
  proof -
    have "usage_of U L s dim day < limit_from_config dim (lp_quota L)" and "authorised L (fst x)"
      using local_step_decides(1) [OF that(1), of F err x] that(2) by (auto simp: allowed_in_def)
    moreover have "limit_from_config dim (lp_quota L) \<le> i64_MAX" using that(1) by (simp add: local_inv_def)
    ultimately show ?thesis using that by (auto simp: allowed_in_def local_step_decides(2))
  qed
  show "usage_of U L s dim day \<le> usage_of U L (fst (local_step U F err L x s)) dim day" if "local_inv U L s" for x s
    by (simp add: local_step_decides(2) [OF that])
qed

text \<open>
  Property C14. The daily quota is a hard cap: over any sequence of gate checks, by any callers, at any
  times and however the clock moves, the local authority allows at most as many requests of a dimension
  on one day as the configured limit leaves above the counter, also when the limit is the largest \<open>i64\<close>.
\<close>

theorem daily_quota_bound:
  assumes "counters_ok U L st" and "\<forall>dim. limit_from_config dim (lp_quota L) \<le> i64_MAX"
  shows "granted (allowed_in dim day) ops (snd (run (local_step U F err L) ops st)) \<le>
    nat (limit_from_config dim (lp_quota L) - usage_of U L st dim day)"
  using assms by (intro quota.granted_limit) (simp_all add: local_inv_def list_all_iff)



section \<open>The token bucket\<close>

definition rate_step :: "'f policy_lib \<Rightarrow> int \<Rightarrow> int \<Rightarrow> 'f rate_bucket option \<Rightarrow> 'f rate_bucket option \<times> (plutus_error + bool)" where
  "rate_step F rpm now bucket = map_prod Some id (consume_local_rate_token F bucket (f64_of_i64 F rpm) now)"

lemma rate_step_still:
  assumes "f64_ok F" "0 \<le> n" "n \<le> rpm" "rpm \<le> 2 ^ 53" "now \<le> t"
  shows "rate_step F rpm now (Some \<lparr> bucket_tokens = f64_of_i64 F n, last_refill = t \<rparr>) =
    (Some \<lparr> bucket_tokens = f64_of_i64 F (max 0 (n - 1)), last_refill = t \<rparr>, Inr (0 < n))"
proof -
  have n: "\<bar>n\<bar> \<le> 2 ^ 53" "\<bar>rpm\<bar> \<le> 2 ^ 53" using assms by auto
  have facts: "\<not> f64_less F (f64_of_i64 F n) (f64_of_i64 F 0)" "\<not> f64_less F (f64_of_i64 F rpm) (f64_of_i64 F n)"
    "f64_less F (f64_of_i64 F n) (f64_of_i64 F 1) = (n < 1)" "f64_is_finite F (f64_of_i64 F n)"
    "1 \<le> n \<Longrightarrow> f64_sub F (f64_of_i64 F n) (f64_of_i64 F 1) = f64_of_i64 F (n - 1)"
    using assms n by (auto simp: f64_ok_def)
  show ?thesis
  proof (cases "1 \<le> n")
    case True
    then show ?thesis using facts assms by (simp add: rate_step_def consume_local_rate_token_def Let_def max_def)
  next
    case False
    then have "n = 0" using assms by simp
    then show ?thesis using facts assms by (simp add: rate_step_def consume_local_rate_token_def Let_def)
  qed
qed

lemma rate_run_still:
  assumes "f64_ok F" "rpm \<le> 2 ^ 53"
  shows "0 \<le> n \<Longrightarrow> n \<le> rpm \<Longrightarrow> \<forall>now \<in> set ts. now \<le> t \<Longrightarrow>
    granted (\<lambda>_ res. res = Inr True) ts
      (snd (run (rate_step F rpm) ts (Some \<lparr> bucket_tokens = f64_of_i64 F n, last_refill = t \<rparr>))) =
    min (length ts) (nat n)"
proof (induction ts arbitrary: n)
  case (Cons now ts)
  have step: "rate_step F rpm now (Some \<lparr> bucket_tokens = f64_of_i64 F n, last_refill = t \<rparr>) =
    (Some \<lparr> bucket_tokens = f64_of_i64 F (max 0 (n - 1)), last_refill = t \<rparr>, Inr (0 < n))"
    using Cons.prems assms by (intro rate_step_still) auto
  have "granted (\<lambda>_ res. res = Inr True) ts
      (snd (run (rate_step F rpm) ts (Some \<lparr> bucket_tokens = f64_of_i64 F (max 0 (n - 1)), last_refill = t \<rparr>))) =
    min (length ts) (nat (max 0 (n - 1)))"
    using Cons.prems by (intro Cons.IH) auto
  with Cons.prems step show ?case
    by (simp add: run_Cons Suc_nat_eq_nat_zadd1 nat_diff_distrib del: run.simps(2)) (auto simp: nat_diff_distrib)
qed simp

text \<open>
  A clock that stands still or is set back mints no capacity: after the first request of a
  fresh bucket, whatever times not after it the later requests carry, exactly the first \<open>rpm\<close> of all
  requests are granted, and the rest are refused.
\<close>

theorem rollback_mints_nothing:
  assumes "f64_ok F" and "0 \<le> rpm" and "rpm \<le> 2 ^ 53" and "\<forall>now \<in> set ts. now \<le> t"
  shows "granted (\<lambda>_ res. res = Inr True) (t # ts) (snd (run (rate_step F rpm) (t # ts) None)) =
    min (Suc (length ts)) (nat rpm)"
proof -
  have "rate_step F rpm t None = rate_step F rpm t (Some \<lparr> bucket_tokens = f64_of_i64 F rpm, last_refill = t \<rparr>)"
    by (simp add: rate_step_def consume_local_rate_token_def)
  then have "run (rate_step F rpm) (t # ts) None =
      run (rate_step F rpm) (t # ts) (Some \<lparr> bucket_tokens = f64_of_i64 F rpm, last_refill = t \<rparr>)"
    by simp
  then show ?thesis
    using rate_run_still [OF assms(1,3,2) order_refl, of "t # ts" t] assms(4) by simp
qed


section \<open>Classes\<close>

text \<open>
  The action classes separate the roles: a viewer reaches unmetered reads only and the
  billing role billing operations only; exactly reads and billing are unmetered; a member reaches
  everything that is neither a secret nor billing; deleting the organisation is never required by an
  invocation; and a request to the credential broker demands the right to read secrets, except under
  the action names \<open>task_submit\<close> and \<open>org_read\<close>, which earlier arms of the map classify for every tool.
\<close>

theorem action_classes:
  "(let class = map_invocation i in
    (can Viewer (class_permission class) \<longleftrightarrow> class_permission class \<in> {OrgRead, MemorySearch}) \<and>
    (can Billing (class_permission class) \<longleftrightarrow> class_permission class = BillingManage) \<and>
    (quota_dimension class = None \<longleftrightarrow> class_permission class \<in> {OrgRead, MemorySearch, BillingManage}) \<and>
    (can Member (class_permission class) \<longleftrightarrow> class_permission class \<notin> {SecretRead, BillingManage}) \<and>
    class_permission class \<noteq> OrgDelete \<and>
    (inv_tool i = ''phylaxd'' \<longrightarrow>
      (class_permission class = SecretRead \<longleftrightarrow> inv_action i \<noteq> ''task_submit'' \<and> inv_action i \<noteq> ''org_read'')))"
  by (simp add: map_invocation_def Let_def)

theorem action_classes_witness:
  "class_permission (map_invocation \<lparr> inv_tool = ''phylaxd'', inv_action = ''sign'', inv_args = JNull \<rparr>) = SecretRead"
  using action_classes [of "\<lparr> inv_tool = ''phylaxd'', inv_action = ''sign'', inv_args = JNull \<rparr>"] by (simp add: Let_def)


section \<open>Concrete inputs\<close>

text \<open>Fixed-point numbers stand for the floating-point values.\<close>

definition fixed_policy_lib :: "int policy_lib" where
  "fixed_policy_lib = f64_lib.extend fixed_f64 \<lparr> timestamp_millis_ok = (\<lambda>_. True) \<rparr>"

definition sample_policy_state :: "local_policy \<times> int local_state" where
  "sample_policy_state = local_policy_new 8 24 Owner Free"

definition task_request :: gate_request where
  "task_request = sample_gate_request
     \<lparr> req_invocation := \<lparr> inv_tool = ''chiasm'', inv_action = ''create_task'', inv_args = JNull \<rparr> \<rparr>"

lemma fresh_counters: "counters_ok U L (Memory Map.empty b)"
  by (simp add: counters_ok_def usage_of_def)

lemma tier_limits: "limit_from_config dim (tier_defaults tier) \<le> i64_MAX"
  by (cases tier; cases dim) (simp_all add: i64_MAX_def)

lemma sample_policy_ok:
  "counters_ok U (fst sample_policy_state) (snd sample_policy_state)"
  "\<forall>dim. limit_from_config dim (lp_quota (fst sample_policy_state)) \<le> i64_MAX"
  by (simp_all add: sample_policy_state_def local_policy_new_def fresh_counters tier_limits del: tier_defaults.simps)

lemma fixed_policy_lib_ok: "f64_ok fixed_policy_lib"
  using fixed_f64_ok by (simp add: f64_ok_def fixed_policy_lib_def fixed_f64_def f64_lib.defs)

theorem local_gate_decides_witness:
  "snd (plutus_check (local_backend sample_uuid_lib fixed_policy_lib [] (fst sample_policy_state))
      \<lparr> now_utc = (\<lambda>_. 0), today_utc = (\<lambda>_. ''2026-06-29'') \<rparr> task_request (snd sample_policy_state)) = Inr Allow"
proof -
  let ?K = "\<lparr> now_utc = (\<lambda>_. 0), today_utc = (\<lambda>_. ''2026-06-29'') \<rparr> :: int local_state plutus_clock"
  have cls: "quota_dimension (map_invocation (req_invocation task_request)) = Some Tasks" "authorised (fst sample_policy_state) task_request"
    by (simp_all add: task_request_def sample_gate_request_def map_invocation_def authorised_def sample_policy_state_def
        local_policy_new_def)
  have below: "usage_of sample_uuid_lib (fst sample_policy_state) (snd sample_policy_state) Tasks day
      < limit_from_config Tasks (lp_quota (fst sample_policy_state))" for day
    by (simp add: sample_policy_state_def local_policy_new_def usage_of_def)
  have rate: "snd (local_rate_limit_ok sample_uuid_lib fixed_policy_lib (fst sample_policy_state) (lp_tenant (fst sample_policy_state)) 0
      (charged sample_uuid_lib [] (fst sample_policy_state) day task_request (snd sample_policy_state))) = Inr True" for day
    using cls(1)
    by (simp add: charged_def sample_policy_state_def local_policy_new_def local_check_and_increment_def require_tenant_def
        i64_range_def local_rate_limit_ok_def consume_local_rate_token_def fixed_policy_lib_def fixed_f64_def f64_lib.defs Let_def)
  then have token: "token_available sample_uuid_lib fixed_policy_lib (fst sample_policy_state) 0 (snd sample_policy_state)"
    by (simp add: rate_limit_decides(1) charged_token)
  show ?thesis
    using local_gate_decides [OF sample_policy_ok, where U = sample_uuid_lib and F = fixed_policy_lib and err = "[]"
      and K = ?K and r = task_request] cls below token
    by (auto simp: Let_def split: prod.splits)
qed

theorem daily_quota_bound_witness:
  "granted (allowed_in Tasks ''2026-06-29'') (replicate 20 (task_request, 0, ''2026-06-29''))
     (snd (run (local_step sample_uuid_lib fixed_policy_lib [] (fst sample_policy_state))
       (replicate 20 (task_request, 0, ''2026-06-29'')) (snd sample_policy_state))) \<le> 10"
  using daily_quota_bound [OF sample_policy_ok, where dim = Tasks and day = "''2026-06-29''" and U = sample_uuid_lib
      and F = fixed_policy_lib and err = "[]" and ops = "replicate 20 (task_request, 0, ''2026-06-29'')"]
  by (simp add: sample_policy_state_def local_policy_new_def usage_of_def del: run.simps)

theorem rollback_mints_nothing_witness:
  "granted (\<lambda>_ res. res = Inr True) [9 :: int, 3, 9, 0] (snd (run (rate_step fixed_policy_lib 2) [9, 3, 9, 0] None)) = 2"
  using rollback_mints_nothing [OF fixed_policy_lib_ok, of 2 "[3, 9, 0]" 9] by (simp del: run.simps)

end
