(* ===== verification/Api.thy ===== *)
theory Api
  imports Authority Identity Plutus
begin

text \<open>
  The authenticated control plane of \<open>syntheos-server/src/authority.rs\<close>: how a request is given an
  identity, what each route demands of it, and the handlers over the dispatcher, the approval store,
  the audit boundary and the credential store. Header values, the JWT decoder and the policy backend
  are arguments; a handler returns the new state and its answer.
\<close>

section \<open>Requests\<close>

definition MAX_TOKEN_TTL_SECONDS :: int where
  "MAX_TOKEN_TTL_SECONDS = 365 * 24 * 60 * 60"

definition APPROVAL_HEADER :: string where
  "APPROVAL_HEADER = ''x-henosis-approval-id''"

definition IDEMPOTENCY_HEADER :: string where
  "IDEMPOTENCY_HEADER = ''x-henosis-idempotency-key''"

text \<open>
  A header map as its entries in order; \<open>to_str\<close> and \<open>from_str\<close> are those of \<open>http::HeaderValue\<close>.
\<close>

type_synonym headers = "(string \<times> bytes) list"

record http_lib =
  header_to_str :: "bytes \<Rightarrow> string option"
  header_from_str :: "string \<Rightarrow> bytes option"

definition get_all :: "headers \<Rightarrow> string \<Rightarrow> bytes list" where
  "get_all hs name = map snd (filter (\<lambda>h. fst h = name) hs)"

record client_context =
  cc_persona :: "string option"
  cc_session :: "string option"
  cc_room :: "string option"
  cc_workflow :: "string option"

record dispatch_body =
  bd_tool :: string
  bd_action :: string
  bd_args :: json
  bd_context :: client_context

record token_create_body =
  tb_label :: string
  tb_scopes :: "string list"
  tb_expires_in_seconds :: "int option"

record execution_resolution_body =
  eb_resolution :: execution_resolution_kind
  eb_evidence_sha256 :: string

definition bearer_credential :: "http_lib \<Rightarrow> headers \<Rightarrow> authority_error + string" where
  "bearer_credential H hs =
     (case get_all hs ''authorization'' of
        [value] \<Rightarrow>
          (case Option.bind (header_to_str H value) (strip_prefix ''Bearer '') of
             Some v \<Rightarrow> if v = [] then Inl Authentication else Inr v
           | None \<Rightarrow> Inl Authentication)
      | _ \<Rightarrow> Inl Authentication)"

definition bad_correlation :: "string option \<Rightarrow> bool" where
  "bad_correlation m = (case m of None \<Rightarrow> False | Some v \<Rightarrow> length v > 256 \<or> has_control v)"

definition validate_dispatch_body :: "dispatch_body \<Rightarrow> authority_error + unit" where
  "validate_dispatch_body b =
     (if \<not> valid_name (bd_tool b) \<or> \<not> valid_name (bd_action b)
      then Inl (InvalidRequest ''tool and action must be bounded identifiers'')
      else if bd_tool b = ''phylaxd'' then Inl Forbidden
      else if list_ex bad_correlation
             [cc_persona (bd_context b), cc_session (bd_context b), cc_room (bd_context b), cc_workflow (bd_context b)]
      then Inl (InvalidRequest ''correlation context is invalid'')
      else Inr ())"

definition dispatch_idempotency_key :: "http_lib \<Rightarrow> headers \<Rightarrow> authority_error + string" where
  "dispatch_idempotency_key H hs =
     (case get_all hs IDEMPOTENCY_HEADER of
        [] \<Rightarrow> Inl (InvalidRequest ''idempotency key header is required'')
      | _ # _ # _ \<Rightarrow> Inl (InvalidRequest ''idempotency key header must appear exactly once'')
      | [value] \<Rightarrow>
          (case header_to_str H value of
             None \<Rightarrow> Inl (InvalidRequest ''idempotency key header is invalid'')
           | Some v \<Rightarrow>
               if \<not> valid_idempotency_key v
               then Inl (InvalidRequest ''idempotency key must be a bounded opaque identifier'')
               else Inr v))"

definition dispatch_approval_id :: "http_lib \<Rightarrow> uuid_lib \<Rightarrow> headers \<Rightarrow> authority_error + string option" where
  "dispatch_approval_id H U hs =
     (case get_all hs APPROVAL_HEADER of
        [] \<Rightarrow> Inr None
      | _ # _ # _ \<Rightarrow> Inl (InvalidRequest ''approval header must appear at most once'')
      | [value] \<Rightarrow>
          (case header_to_str H value of
             None \<Rightarrow> Inl (InvalidRequest ''invalid approval header'')
           | Some v \<Rightarrow>
               (case parse_str U v of
                  None \<Rightarrow> Inl (InvalidRequest ''invalid approval header'')
                | Some uid \<Rightarrow>
                    if uuid_text U uid \<noteq> v then Inl (InvalidRequest ''invalid approval header'')
                    else Inr (Some v))))"

definition validate_scopes :: "string list \<Rightarrow> authority_error + unit" where
  "validate_scopes scopes =
     (if scopes = [] \<or> length scopes > 16 \<or>
         list_ex (\<lambda>scope. scope \<notin> {''admin'', ''dispatch'', ''audit:read''}) scopes
      then Inl (InvalidRequest ''machine-token scopes must use the supported least-privilege catalog'')
      else Inr ())"

definition parse_public_id :: "uuid_lib \<Rightarrow> string \<Rightarrow> authority_error + uuid" where
  "parse_public_id U value = ok_or (parse_str U value) (InvalidRequest ''invalid record id'')"


section \<open>Identities\<close>

record authenticated_identity =
  ai_tenant :: uuid
  ai_principal :: uuid
  ai_token_identity :: string
  ai_role :: "role option"
  ai_scopes :: "string list"

definition has_scope :: "authenticated_identity \<Rightarrow> string \<Rightarrow> bool" where
  "has_scope i scope = list_ex (\<lambda>s. s = scope) (ai_scopes i)"

definition require_dispatch :: "authenticated_identity \<Rightarrow> authority_error + unit" where
  "require_dispatch i =
     (case ai_role i of
        Some role \<Rightarrow> if can role ToolInvoke then Inr () else Inl Forbidden
      | None \<Rightarrow> if has_scope i ''dispatch'' then Inr () else Inl Forbidden)"

definition require_administrator :: "authenticated_identity \<Rightarrow> authority_error + unit" where
  "require_administrator i =
     (case ai_role i of
        Some Owner \<Rightarrow> Inr ()
      | Some Admin \<Rightarrow> Inr ()
      | Some _ \<Rightarrow> Inl Forbidden
      | None \<Rightarrow> if has_scope i ''admin'' then Inr () else Inl Forbidden)"

definition require_operator_administrator :: "authenticated_identity \<Rightarrow> authority_error + unit" where
  "require_operator_administrator i =
     (case ai_role i of Some Owner \<Rightarrow> Inr () | Some Admin \<Rightarrow> Inr () | _ \<Rightarrow> Inl Forbidden)"

definition require_audit_read :: "authenticated_identity \<Rightarrow> authority_error + unit" where
  "require_audit_read i =
     (case ai_role i of
        Some role \<Rightarrow> if can role OrgRead then Inr () else Inl Forbidden
      | None \<Rightarrow> if has_scope i ''audit:read'' then Inr () else Inl Forbidden)"

text \<open>The policy backend, and the claims of a verified operator access token.\<close>

record policy_backend =
  pb_org_status :: "uuid \<Rightarrow> string + org_status option"
  pb_member_role :: "uuid \<Rightarrow> uuid \<Rightarrow> string + role option"

record operator_claims =
  oc_sub :: string
  oc_org :: string
  oc_role :: string
  oc_sid :: string
  oc_iat :: int
  oc_exp :: int

definition current_member_role :: "policy_backend \<Rightarrow> uuid \<Rightarrow> uuid \<Rightarrow> authority_error + role" where
  "current_member_role P tenant prin =
     (case pb_org_status P tenant of
        Inl _ \<Rightarrow> Inl Unavailable
      | Inr None \<Rightarrow> Inl Authentication
      | Inr (Some status) \<Rightarrow>
          if status \<noteq> Active then Inl Authentication
          else (case pb_member_role P tenant prin of
                  Inl _ \<Rightarrow> Inl Unavailable
                | Inr None \<Rightarrow> Inl Authentication
                | Inr (Some role) \<Rightarrow> Inr role))"

definition from_request_parts ::
    "http_lib \<Rightarrow> cred_lib \<Rightarrow> policy_backend \<Rightarrow> (string \<Rightarrow> operator_claims option) \<Rightarrow> int \<Rightarrow> headers \<Rightarrow> identity_db \<Rightarrow>
     identity_db \<times> (authority_error + authenticated_identity)" where
  "from_request_parts H C P decode clock hs db =
     (case bearer_credential H hs of Inl e \<Rightarrow> (db, Inl e) | Inr credential \<Rightarrow>
      case unix_seconds_from clock of Inl e \<Rightarrow> (db, Inl e) | Inr now \<Rightarrow>
      if strip_prefix ''hen_v1_'' credential \<noteq> None then
        (case authenticate_machine_token C credential now db of
           (db1, Inl _) \<Rightarrow> (db1, Inl Unavailable)
         | (db1, Inr None) \<Rightarrow> (db1, Inl Authentication)
         | (db1, Inr (Some token)) \<Rightarrow>
             (case current_member_role P (mt_tenant token) (mt_principal token) of
                Inl e \<Rightarrow> (db1, Inl e)
              | Inr _ \<Rightarrow> (db1, Inr \<lparr> ai_tenant = mt_tenant token, ai_principal = mt_principal token,
                  ai_token_identity = uuid_text (cl_uuid C) (mt_id token), ai_role = None,
                  ai_scopes = mt_scopes token \<rparr>)))
      else
        (db, case decode credential of None \<Rightarrow> Inl Authentication | Some claims \<Rightarrow>
          case id_from_str (cl_uuid C) (oc_sub claims) of Inl _ \<Rightarrow> Inl Authentication | Inr prin \<Rightarrow>
          case id_from_str (cl_uuid C) (oc_org claims) of Inl _ \<Rightarrow> Inl Authentication | Inr tenant \<Rightarrow>
          case current_member_role P tenant prin of Inl e \<Rightarrow> Inl e | Inr role \<Rightarrow>
          Inr \<lparr> ai_tenant = tenant, ai_principal = prin, ai_token_identity = oc_sid claims,
                ai_role = Some role, ai_scopes = [] \<rparr>))"


section \<open>Dispatch\<close>

record api_response =
  rp_status :: nat
  rp_body :: json
  rp_headers :: headers

definition dispatch_request ::
    "authenticated_identity \<Rightarrow> dispatch_body \<Rightarrow> string \<Rightarrow> string option \<Rightarrow> gate_request" where
  "dispatch_request i b key aid =
     \<lparr> req_context = \<lparr> ctx_tenant = ai_tenant i, ctx_principal = ai_principal i,
         persona = cc_persona (bd_context b), ctx_session = cc_session (bd_context b),
         room = cc_room (bd_context b), ctx_task = None, workflow = cc_workflow (bd_context b),
         authority = Some \<lparr> token_identity = ai_token_identity i, idempotency_key = key, approval_id = aid \<rparr> \<rparr>,
       req_invocation = \<lparr> inv_tool = bd_tool b, inv_action = bd_action b, inv_args = bd_args b \<rparr> \<rparr>"

definition dispatch_response ::
    "http_lib \<Rightarrow> dispatch_error + dispatch_outcome \<Rightarrow> authority_error + api_response" where
  "dispatch_response H res =
     (case res of
        Inl (Execution err) \<Rightarrow> if is_conflict err then Inl StateConflict else Inl Unavailable
      | Inl _ \<Rightarrow> Inl Unavailable
      | Inr (dispatch_outcome.Executed result) \<Rightarrow>
          Inr \<lparr> rp_status = 200, rp_body = JObject [(''result'', result)], rp_headers = [] \<rparr>
      | Inr (dispatch_outcome.Denied gate reason) \<Rightarrow>
          Inr \<lparr> rp_status = 403, rp_body = JObject (btree_collect [(''error'', JString ''denied''),
                  (''gate'', JString gate), (''reason'', JString reason)]), rp_headers = [] \<rparr>
      | Inr (RequiresApproval gate prompt None) \<Rightarrow> Inl Unavailable
      | Inr (RequiresApproval gate prompt (Some aid)) \<Rightarrow>
          (case header_from_str H aid of
             None \<Rightarrow> Inl Unavailable
           | Some value \<Rightarrow>
               Inr \<lparr> rp_status = 202, rp_body = JObject (btree_collect [(''status'', JString ''approval_required''),
                       (''gate'', JString gate), (''prompt'', JString prompt), (''approval_id'', JString aid)]),
                     rp_headers = [(APPROVAL_HEADER, value)] \<rparr>))"

definition dispatch_handler ::
    "http_lib \<Rightarrow> uuid_lib \<Rightarrow> 'x world dispatcher \<Rightarrow> authenticated_identity \<Rightarrow> headers \<Rightarrow> dispatch_body \<Rightarrow> 'x world \<Rightarrow>
     'x world \<times> (authority_error + api_response)" where
  "dispatch_handler H U d i hs b w =
     (case require_dispatch i of Inl e \<Rightarrow> (w, Inl e) | Inr _ \<Rightarrow>
      case validate_dispatch_body b of Inl e \<Rightarrow> (w, Inl e) | Inr _ \<Rightarrow>
      case dispatch_idempotency_key H hs of Inl e \<Rightarrow> (w, Inl e) | Inr key \<Rightarrow>
      case dispatch_approval_id H U hs of Inl e \<Rightarrow> (w, Inl e) | Inr aid \<Rightarrow>
      case dispatch d (dispatch_request i b key aid) w of
        (w1, _, res) \<Rightarrow> (w1, dispatch_response H res))"


section \<open>Machine tokens\<close>

record token_metadata_response =
  tm_id :: string
  tm_label :: string
  tm_scopes :: "string list"
  tm_created_at :: int
  tm_expires_at :: "int option"
  tm_revoked_at :: "int option"
  tm_last_used_at :: "int option"

definition token_metadata :: "uuid_lib \<Rightarrow> machine_token \<Rightarrow> token_metadata_response" where
  "token_metadata U t = \<lparr> tm_id = uuid_text U (mt_id t), tm_label = mt_label t, tm_scopes = mt_scopes t,
     tm_created_at = mt_created_at t, tm_expires_at = mt_expires_at t, tm_revoked_at = mt_revoked_at t,
     tm_last_used_at = mt_last_used_at t \<rparr>"

definition token_expiry :: "int \<Rightarrow> int option \<Rightarrow> authority_error + int option" where
  "token_expiry now ttl =
     (case ttl of
        None \<Rightarrow> Inr None
      | Some t \<Rightarrow>
          if \<not> (60 \<le> t \<and> t \<le> MAX_TOKEN_TTL_SECONDS)
          then Inl (InvalidRequest ''token lifetime is outside the supported range'')
          else if \<not> i64_range (now + t) then Inl (InvalidRequest ''token lifetime overflow'')
          else Inr (Some (now + t)))"

definition create_token ::
    "cred_lib \<Rightarrow> uuid \<Rightarrow> bytes \<Rightarrow> int \<Rightarrow> authenticated_identity \<Rightarrow> token_create_body \<Rightarrow> identity_db \<Rightarrow>
     identity_db \<times> (authority_error + string \<times> token_metadata_response)" where
  "create_token C fresh secret clock i b db =
     (case require_operator_administrator i of Inl e \<Rightarrow> (db, Inl e) | Inr _ \<Rightarrow>
      case validate_scopes (tb_scopes b) of Inl e \<Rightarrow> (db, Inl e) | Inr _ \<Rightarrow>
      case unix_seconds_from clock of Inl e \<Rightarrow> (db, Inl e) | Inr now \<Rightarrow>
      case token_expiry now (tb_expires_in_seconds b) of Inl e \<Rightarrow> (db, Inl e) | Inr expires_at \<Rightarrow>
      case create_machine_token C fresh secret (ai_tenant i) (ai_principal i) (tb_label b) (tb_scopes b)
             expires_at now db of
        (db1, Inl _) \<Rightarrow> (db1, Inl Unavailable)
      | (db1, Inr issued) \<Rightarrow> (db1, Inr (mi_token issued, token_metadata (cl_uuid C) (mi_metadata issued))))"

definition list_tokens ::
    "cred_lib \<Rightarrow> authenticated_identity \<Rightarrow> identity_db \<Rightarrow> authority_error + token_metadata_response list" where
  "list_tokens C i db =
     (case require_administrator i of Inl e \<Rightarrow> Inl e | Inr _ \<Rightarrow>
      case list_machine_tokens C (ai_tenant i) db of
        Inl _ \<Rightarrow> Inl Unavailable | Inr ts \<Rightarrow> Inr (map (token_metadata (cl_uuid C)) ts))"

definition revoke_token ::
    "cred_lib \<Rightarrow> int \<Rightarrow> authenticated_identity \<Rightarrow> string \<Rightarrow> identity_db \<Rightarrow> identity_db \<times> (authority_error + nat)" where
  "revoke_token C clock i id_text db =
     (case require_operator_administrator i of Inl e \<Rightarrow> (db, Inl e) | Inr _ \<Rightarrow>
      case parse_str (cl_uuid C) id_text of None \<Rightarrow> (db, Inl (InvalidRequest ''invalid token id'')) | Some uid \<Rightarrow>
      case unix_seconds_from clock of Inl e \<Rightarrow> (db, Inl e) | Inr now \<Rightarrow>
      case revoke_machine_token C (ai_tenant i) uid now db of
        (db1, Inl _) \<Rightarrow> (db1, Inl Unavailable)
      | (db1, Inr revoked) \<Rightarrow> (db1, if revoked then Inr 204 else Inl NotFound))"


section \<open>Approvals\<close>

record approval_response =
  as_id :: string
  as_tool :: string
  as_action :: string
  as_prompt :: string
  as_status :: string
  as_created_at :: int
  as_expires_at :: int
  as_decided_at :: "int option"
  as_request_hash :: string

fun approval_status_name :: "approval_status \<Rightarrow> string" where
  "approval_status_name Pending = ''pending''"
| "approval_status_name approval_status.Approved = ''approved''"
| "approval_status_name approval_status.Denied = ''denied''"
| "approval_status_name Expired = ''expired''"
| "approval_status_name Consumed = ''consumed''"

definition approval_view :: "uuid_lib \<Rightarrow> approval \<Rightarrow> approval_response" where
  "approval_view U a = \<lparr> as_id = uuid_text U (ap_id a), as_tool = ap_tool a, as_action = ap_action a,
     as_prompt = ap_prompt a, as_status = approval_status_name (ap_status a), as_created_at = ap_created_at a,
     as_expires_at = ap_expires_at a, as_decided_at = ap_decided_at a,
     as_request_hash = request_hash_hex (ap_request_hash a) \<rparr>"

definition list_approvals_handler ::
    "'x system \<Rightarrow> authenticated_identity \<Rightarrow> 'x world \<Rightarrow> 'x world \<times> (authority_error + approval_response list)" where
  "list_approvals_handler S i w =
     (case require_administrator i of Inl e \<Rightarrow> (w, Inl e) | Inr _ \<Rightarrow>
      and_then (now_seconds S w) (\<lambda>now w.
      case on_approvals (expire (sy_uuid S) (ai_tenant i) now) w of
        (w1, Inl _) \<Rightarrow> (w1, Inl Unavailable)
      | (w1, Inr _) \<Rightarrow>
          (case sy_clock S w1 of (w2, clock) \<Rightarrow>
           (w2, case list_approvals (sy_uuid S) (ai_tenant i) clock (w_approvals w2) of
                  Inl _ \<Rightarrow> Inl Unavailable
                | Inr as \<Rightarrow> Inr (map (approval_view (sy_uuid S)) as)))))"

definition find_approval ::
    "'x system \<Rightarrow> authenticated_identity \<Rightarrow> uuid \<Rightarrow> 'x world \<Rightarrow> 'x world \<times> (authority_error + approval)" where
  "find_approval S i uid w =
     (case lookup_approval S (ai_tenant i) uid w of
        (w1, Inl _) \<Rightarrow> (w1, Inl Unavailable)
      | (w1, Inr None) \<Rightarrow> (w1, Inl NotFound)
      | (w1, Inr (Some a)) \<Rightarrow> (w1, Inr a))"

definition get_approval_handler ::
    "'x system \<Rightarrow> authenticated_identity \<Rightarrow> string \<Rightarrow> 'x world \<Rightarrow> 'x world \<times> (authority_error + approval_response)" where
  "get_approval_handler S i id_text w =
     (case require_administrator i of Inl e \<Rightarrow> (w, Inl e) | Inr _ \<Rightarrow>
      case parse_public_id (sy_uuid S) id_text of Inl e \<Rightarrow> (w, Inl e) | Inr uid \<Rightarrow>
      and_then (find_approval S i uid w) (\<lambda>a w. (w, Inr (approval_view (sy_uuid S) a))))"

definition decide_approval ::
    "'x system \<Rightarrow> audit_boundary \<Rightarrow> authenticated_identity \<Rightarrow> string \<Rightarrow> string option \<Rightarrow> approval_decision \<Rightarrow> 'x world \<Rightarrow>
     'x world \<times> (authority_error + approval_response)" where
  "decide_approval S B i id_text reason decision w =
     (case require_operator_administrator i of Inl e \<Rightarrow> (w, Inl e) | Inr _ \<Rightarrow>
      case parse_public_id (sy_uuid S) id_text of Inl e \<Rightarrow> (w, Inl e) | Inr uid \<Rightarrow>
      and_then
        (if decision = Approve \<and> is_witnessed B
         then and_then (find_approval S i uid w)
                (\<lambda>a w. if ap_principal a = ai_principal i then (w, Inl Forbidden) else (w, Inr ()))
         else (w, Inr ()))
        (\<lambda>_ w. and_then (now_seconds S w) (\<lambda>now w.
           case on_approvals (decide (sy_uuid S) (ai_tenant i) uid decision
                  (uuid_text (sy_uuid S) (ai_principal i)) reason now) w of
             (w1, Inl _) \<Rightarrow> (w1, Inl Unavailable)
           | (w1, Inr None) \<Rightarrow> (w1, Inl StateConflict)
           | (w1, Inr (Some a)) \<Rightarrow> (w1, Inr (approval_view (sy_uuid S) a)))))"


section \<open>Executions and audit\<close>

fun map_execution_resolution_error :: "audit_error \<Rightarrow> authority_error" where
  "map_execution_resolution_error ExecutionNotFound = NotFound"
| "map_execution_resolution_error ExecutionStateConflict = StateConflict"
| "map_execution_resolution_error IdempotencyConflict = StateConflict"
| "map_execution_resolution_error (StreamBlocked _) = StateConflict"
| "map_execution_resolution_error (audit_error.InvalidInput m) = InvalidRequest m"
| "map_execution_resolution_error _ = Unavailable"

fun map_audit_recovery_error :: "audit_error \<Rightarrow> authority_error" where
  "map_audit_recovery_error (audit_error.InvalidInput m) = InvalidRequest m"
| "map_audit_recovery_error (WitnessRejected status) =
     (if 500 \<le> status \<and> status < 600 \<or> status = 429 then Unavailable else StateConflict)"
| "map_audit_recovery_error (ChainVerification _ _) = StateConflict"
| "map_audit_recovery_error audit_error.InvalidSignature = StateConflict"
| "map_audit_recovery_error ReceiptMismatch = StateConflict"
| "map_audit_recovery_error (StreamBlocked _) = StateConflict"
| "map_audit_recovery_error _ = Unavailable"

definition map_err :: "('e \<Rightarrow> 'f) \<Rightarrow> 'e + 'a \<Rightarrow> 'f + 'a" where
  "map_err f r = (case r of Inl e \<Rightarrow> Inl (f e) | Inr x \<Rightarrow> Inr x)"

definition list_indeterminate_executions ::
    "'x system \<Rightarrow> authenticated_identity \<Rightarrow> 'x world \<Rightarrow> authority_error + indeterminate_execution list" where
  "list_indeterminate_executions S i w =
     (case require_operator_administrator i of Inl e \<Rightarrow> Inl e | Inr _ \<Rightarrow>
      map_err map_execution_resolution_error
        (indeterminate_executions (sy_lib S) (uuid_text (sy_uuid S) (ai_tenant i)) (w_audit w)))"

definition resolve_execution_handler ::
    "'x system \<Rightarrow> audit_boundary \<Rightarrow> authenticated_identity \<Rightarrow> string \<Rightarrow> string \<Rightarrow> execution_resolution_body \<Rightarrow> 'x world \<Rightarrow>
     'x world \<times> (authority_error + execution_resolution)" where
  "resolve_execution_handler S B i principal_text key b w =
     (case require_operator_administrator i of Inl e \<Rightarrow> (w, Inl e) | Inr _ \<Rightarrow>
      case id_from_str (sy_uuid S) principal_text of
        Inl _ \<Rightarrow> (w, Inl (InvalidRequest ''invalid principal id'')) | Inr prin \<Rightarrow>
      if \<not> valid_idempotency_key key
      then (w, Inl (InvalidRequest ''idempotency key must be a bounded opaque identifier''))
      else map_prod id (map_err map_execution_resolution_error) (boundary_resolve S B
        \<lparr> ri_tenant_id = uuid_text (sy_uuid S) (ai_tenant i), ri_principal_id = uuid_text (sy_uuid S) prin,
          ri_idempotency_key = key, ri_resolved_by_principal_id = uuid_text (sy_uuid S) (ai_principal i),
          ri_resolution = eb_resolution b, ri_evidence_sha256 = eb_evidence_sha256 b \<rparr> w))"

definition verify_audit ::
    "'x system \<Rightarrow> audit_boundary \<Rightarrow> authenticated_identity \<Rightarrow> 'x world \<Rightarrow> authority_error + json" where
  "verify_audit S B i w =
     (case require_audit_read i of Inl e \<Rightarrow> Inl e | Inr _ \<Rightarrow>
      let tenant = uuid_text (sy_uuid S) (ai_tenant i) in
      case verify_tenant (sy_lib S) tenant (w_audit w) of Inl _ \<Rightarrow> Inl StateConflict | Inr verified \<Rightarrow>
      case stream_state tenant (w_audit w) of Inl _ \<Rightarrow> Inl Unavailable | Inr stream \<Rightarrow>
      Inr (JObject (btree_collect [(''verified_records'', JNumber (PosInt verified)),
        (''blocked'', JBool (case stream of None \<Rightarrow> False | Some st \<Rightarrow> ss_blocked st)),
        (''witnessed'', JBool (is_witnessed B))])))"

definition recover_audit ::
    "'x system \<Rightarrow> audit_boundary \<Rightarrow> authenticated_identity \<Rightarrow> 'x world \<Rightarrow> 'x world \<times> (authority_error + audit_recovery)" where
  "recover_audit S B i w =
     (case require_operator_administrator i of Inl e \<Rightarrow> (w, Inl e) | Inr _ \<Rightarrow>
      map_prod id (map_err map_audit_recovery_error)
        (boundary_recover_stream S B (uuid_text (sy_uuid S) (ai_tenant i)) w))"


section \<open>Who may act\<close>

text \<open>
  Property C8. An accepted identity is current and is the credential's own: its organization is
  active and its principal a member in the policy backend now; a machine identity carries exactly the
  tenant, principal and scopes stored for the unrevoked, unexpired token whose secret was presented,
  and no role; an operator identity carries the role the policy backend reports now, whatever role
  its access token claims, and no scopes.
\<close>

theorem authenticated_identity_is_current:
  assumes "from_request_parts H C P decode clock hs db = (db', Inr i)"
  shows "pb_org_status P (ai_tenant i) = Inr (Some Active) \<and>
    (\<exists>role. pb_member_role P (ai_tenant i) (ai_principal i) = Inr (Some role) \<and>
      (ai_role i = None \<or> ai_role i = Some role)) \<and>
    (\<exists>credential now. bearer_credential H hs = Inr credential \<and> unix_seconds_from clock = Inr now \<and>
      (case ai_role i of
         None \<Rightarrow> \<exists>uid secret r m. parse_credential C credential = Some (uid, secret) \<and>
           token_entry db (uuid_text (cl_uuid C) uid) = Some r \<and> mr_secret_hash r = digest C secret \<and>
           mr_revoked_at r = None \<and> unexpired (mr_expires_at r) now \<and> machine_from_row C r = Inr m \<and>
           ai_tenant i = mt_tenant m \<and> ai_principal i = mt_principal m \<and> ai_scopes i = mt_scopes m
       | Some _ \<Rightarrow> ai_scopes i = [] \<and> db' = db \<and> (\<exists>claims. decode credential = Some claims \<and>
           id_from_str (cl_uuid C) (oc_org claims) = Inr (ai_tenant i) \<and>
           id_from_str (cl_uuid C) (oc_sub claims) = Inr (ai_principal i) \<and> ai_token_identity i = oc_sid claims)))"
proof -
  obtain credential now where c: "bearer_credential H hs = Inr credential" "unix_seconds_from clock = Inr now"
    using assms by (auto simp: from_request_parts_def split: sum.splits)
  have member: "pb_org_status P t = Inr (Some Active) \<and> pb_member_role P t p = Inr (Some role)"
    if "current_member_role P t p = Inr role" for t p role
    using that by (auto simp: current_member_role_def split: sum.splits option.splits if_splits)
  show ?thesis
  proof (cases "strip_prefix ''hen_v1_'' credential")
    case None
    then have "db' = db" using assms c by (simp add: from_request_parts_def)
    with None show ?thesis
      using assms c by (auto simp: from_request_parts_def split: option.splits sum.splits dest!: member)
  next
    case (Some rest)
    then obtain m role where m: "snd (authenticate_machine_token C credential now db) = Inr (Some m)"
      and role: "current_member_role P (mt_tenant m) (mt_principal m) = Inr role"
      and i: "i = \<lparr> ai_tenant = mt_tenant m, ai_principal = mt_principal m,
        ai_token_identity = uuid_text (cl_uuid C) (mt_id m), ai_role = None, ai_scopes = mt_scopes m \<rparr>"
      using assms c by (auto simp: from_request_parts_def split: option.splits sum.splits prod.splits)
    show ?thesis
      using authenticate_token_found [OF m] member [OF role] c i by fastforce
  qed
qed

text \<open>
  Property C7. A caller cannot choose whom it acts for: the dispatch route either refuses with the
  stores untouched, or runs the dispatcher on exactly one request that carries the identity's own
  tenant, principal and token, the caller's single valid idempotency key, bounded names and never the
  credential broker, for an identity that may invoke tools; and the answer is the rendering of that
  run's result.
\<close>

theorem dispatch_route_binds_identity:
  assumes "dispatch_handler H U d i hs b w = (w', res)"
  shows "(w' = w \<and> \<not> is_ok res) \<or>
    (\<exists>r auth events out. dispatch d r w = (w', events, out) \<and> res = dispatch_response H out \<and>
       ctx_tenant (req_context r) = ai_tenant i \<and> ctx_principal (req_context r) = ai_principal i \<and>
       authority (req_context r) = Some auth \<and> token_identity auth = ai_token_identity i \<and>
       valid_idempotency_key (idempotency_key auth) \<and>
       map (header_to_str H) (get_all hs IDEMPOTENCY_HEADER) = [Some (idempotency_key auth)] \<and>
       (\<forall>t. approval_id auth = Some t \<longrightarrow> (\<exists>u. parse_str U t = Some u \<and> t = uuid_text U u)) \<and>
       valid_name (inv_tool (req_invocation r)) \<and> valid_name (inv_action (req_invocation r)) \<and>
       inv_tool (req_invocation r) \<noteq> ''phylaxd'' \<and>
       (case ai_role i of Some role \<Rightarrow> role \<in> {Owner, Admin, Member} | None \<Rightarrow> ''dispatch'' \<in> set (ai_scopes i)))"
proof -
  have may: "case ai_role i of Some role \<Rightarrow> role \<in> {Owner, Admin, Member} | None \<Rightarrow> ''dispatch'' \<in> set (ai_scopes i)"
    if "require_dispatch i = Inr ()"
  proof (cases "ai_role i")
    case None
    then show ?thesis using that by (auto simp: require_dispatch_def has_scope_def list_ex_iff split: if_splits)
  next
    case (Some role)
    then show ?thesis using that by (cases role) (auto simp: require_dispatch_def)
  qed
  have body: "valid_name (bd_tool b) \<and> valid_name (bd_action b) \<and> bd_tool b \<noteq> ''phylaxd''"
    if "validate_dispatch_body b = Inr ()"
    using that by (auto simp: validate_dispatch_body_def split: if_splits)
  have key: "valid_idempotency_key k \<and> map (header_to_str H) (get_all hs IDEMPOTENCY_HEADER) = [Some k]"
    if "dispatch_idempotency_key H hs = Inr k" for k
    using that by (auto simp: dispatch_idempotency_key_def split: list.splits option.splits if_splits)
  have aid: "\<exists>u. parse_str U t = Some u \<and> t = uuid_text U u" if "dispatch_approval_id H U hs = Inr (Some t)" for t
    using that by (auto simp: dispatch_approval_id_def split: list.splits option.splits if_splits)
  consider (refused) e where "w' = w" "res = Inl e"
    | (ran) k t events out where "require_dispatch i = Inr ()" "validate_dispatch_body b = Inr ()"
        "dispatch_idempotency_key H hs = Inr k" "dispatch_approval_id H U hs = Inr t"
        "dispatch d (dispatch_request i b k t) w = (w', events, out)" "res = dispatch_response H out"
    using assms by (auto simp: dispatch_handler_def split: sum.splits prod.splits)
  then show ?thesis
  proof cases
    case refused
    then show ?thesis by simp
  next
    case ran
    let ?r = "dispatch_request i b k t"
    have "approval_id (the (authority (req_context ?r))) = Some v \<Longrightarrow> \<exists>u. parse_str U v = Some u \<and> v = uuid_text U u" for v
      using aid ran(4) by (simp add: dispatch_request_def)
    then show ?thesis
      using ran may body key [OF ran(3)]
      by (intro disjI2 exI [of _ ?r] exI [of _ "the (authority (req_context ?r))"] exI [of _ events] exI [of _ out])
        (simp add: dispatch_request_def)
  qed
qed


section \<open>The approval round trip\<close>

lemma get_approval_spec:
  assumes "uuid_lib_ok U" "approvals_ok U as"
  shows "get_approval U t k clock (map (row_of U) as) =
    Inr (map_option (\<lambda>a. with_effective_status a (unix_seconds clock))
      (find (\<lambda>a. ap_tenant a = t \<and> ap_id a = k) as))"
  using find_by_id [OF assms(1), of as t k] assms(2)
  by (auto simp: get_approval_def approvals_ok_def split: option.split)

lemma find_approval_only:
  assumes "approvals_ok U as" "a \<in> set as"
  shows "find (\<lambda>x. ap_tenant x = ap_tenant a \<and> ap_id x = ap_id a) as = Some a"
proof (rule find_only [OF assms(2)])
  fix y assume "y \<in> set as" "ap_tenant y = ap_tenant a \<and> ap_id y = ap_id a"
  then show "y = a" using assms by (auto simp: approvals_ok_def distinct_map inj_on_def)
qed simp

lemma decide_pending:
  assumes U: "uuid_lib_ok U" and ok: "approvals_ok U as" and a: "a \<in> set as" "ap_status a = Pending"
    and "now < ap_expires_at a" "actor_ok actor reason"
  shows "\<exists>as'. decide U (ap_tenant a) (ap_id a) decision actor reason now (map (row_of U) as) =
      (map (row_of U) as', Inr (Some (decided decision actor reason now a))) \<and>
    approvals_ok U as' \<and> decided decision actor reason now a \<in> set as'"
proof -
  let ?P = "\<lambda>x. ap_tenant x = ap_tenant a \<and> ap_id x = ap_id a \<and> ap_status x = Pending"
  let ?as = "sql_update ?P (decided decision actor reason now) as"
  have "decide U (ap_tenant a) (ap_id a) decision actor reason now (map (row_of U) as) =
      (map (row_of U) ?as, Inr (Some (decided decision actor reason now a)))"
    using decide_spec [OF U ok, of actor reason "ap_tenant a" "ap_id a" decision now] find_approval_only [OF ok a(1)] assms
    by (simp add: Let_def)
  moreover have "approvals_ok U ?as"
  proof (rule evolves_ok [OF _ ok])
    have only: "x = a" if "x \<in> set as" "?P x" for x
      using that ok a(1) by (auto simp: approvals_ok_def distinct_map inj_on_def)
    have "list_all2 approval_forward as ?as"
      unfolding list_all2_conv_all_nth
    proof (intro conjI allI impI)
      fix n assume n: "n < length as"
      have "approval_forward (as ! n) (decided decision actor reason now (as ! n))" if "?P (as ! n)"
        using only [of "as ! n"] n that assms(5,6)
        by (auto simp: decided_def actor_ok_def intro!: approval_advance.decision split: approval_decision.split)
      then show "approval_forward (as ! n) (?as ! n)" using n by (simp add: sql_update_def)
    qed simp
    then show "evolves U as ?as" by (auto simp: evolves_def)
  qed
  moreover have "decided decision actor reason now a \<in> set ?as" using a by (force simp: set_sql_update)
  ultimately show ?thesis by blast
qed


lemma world_approvals:
  assumes "world_ok S w"
  obtains as where "w_approvals w = map (row_of (sy_uuid S)) as" "approvals_ok (sy_uuid S) as" "uuid_lib_ok (sy_uuid S)"
  using assms by (auto simp: world_ok_def approval_inv_def)

lemma operator_role: "require_operator_administrator i = Inr () \<Longrightarrow> ai_role i = Some Owner \<or> ai_role i = Some Admin"
  by (auto simp: require_operator_administrator_def split: option.splits role.splits)

lemma find_approval_found:
  assumes "world_ok S w1" "lookup_approval S t k w = (w1, Inr (Some a))"
  shows "\<exists>b. approval_entry (sy_uuid S) (w_approvals w1) k = Some b \<and> ap_principal b = ap_principal a"
proof -
  obtain as where as: "w_approvals w1 = map (row_of (sy_uuid S)) as" "approvals_ok (sy_uuid S) as" "uuid_lib_ok (sy_uuid S)"
    using assms(1) by (rule world_approvals)
  obtain clock b where b: "find (\<lambda>a. ap_tenant a = t \<and> ap_id a = k) as = Some b" "a = with_effective_status b (unix_seconds clock)"
    using assms(2) get_approval_spec [OF as(3,2)] as(1)
    by (auto simp: lookup_approval_def split: prod.splits)
  have "find (\<lambda>x. ap_id x = k) as = Some b"
    using find_SomeD [OF b(1)] find_unique [of ap_id as b] as(2) by (auto simp: approvals_ok_def)
  then show ?thesis using approval_entry_of [OF as(3,2), of k] as(1) b(2) by (simp add: with_effective_status_def)
qed

lemma advances_principal:
  assumes "world_advances S w w'" "world_ok S w" "approval_entry (sy_uuid S) (w_approvals w) k = Some a"
  shows "\<exists>b. approval_entry (sy_uuid S) (w_approvals w') k = Some b \<and> ap_principal b = ap_principal a"
proof -
  obtain b where "approval_entry (sy_uuid S) (w_approvals w') k = Some b" "approval_forward a b"
    using assms by (auto simp: world_advances_def approvals_move_def)
  then show ?thesis using advance_same_binding [of a b] by (auto simp: same_binding_def ap_key_def)
qed

lemma decide_success:
  assumes U: "uuid_lib_ok U" and ok: "approvals_ok U as"
    and "snd (decide U t k decision actor reason now (map (row_of U) as)) = Inr (Some b)"
  shows "\<exists>a as'. a \<in> set as \<and> ap_tenant a = t \<and> ap_id a = k \<and> b = decided decision actor reason now a \<and>
    fst (decide U t k decision actor reason now (map (row_of U) as)) = map (row_of U) as' \<and>
    approvals_ok U as' \<and> b \<in> set as'"
proof -
  obtain a where a: "find (\<lambda>a. ap_tenant a = t \<and> ap_id a = k) as = Some a" "actor_ok actor reason"
    "ap_status a = Pending" "now < ap_expires_at a"
    using decide_spec [OF U ok, of actor reason t k decision now] assms(3)
    by (auto simp: Let_def split: if_splits option.splits)
  then have "a \<in> set as" "ap_tenant a = t" "ap_id a = k" using find_SomeD [OF a(1)] by auto
  with decide_pending [OF U ok _ a(3,4,2), of decision] assms(3) show ?thesis by fastforce
qed

text \<open>
  Property C6. Nobody approves a request of their own under the witnessed boundary: a successful
  approval was given by a human owner or administrator of the record's tenant other than the
  requesting principal, and the stored record names that approver, whatever other requests did
  between the check and the decision.
\<close>

theorem no_self_approval:
  assumes "system_ok S" and "world_ok S w"
    and "decide_approval S (Witnessed A) i id_text reason Approve w = (w', Inr v)"
  shows "\<exists>k a. parse_str (sy_uuid S) id_text = Some k \<and>
    approval_entry (sy_uuid S) (w_approvals w') k = Some a \<and> ap_status a = approval_status.Approved \<and>
    ap_tenant a = ai_tenant i \<and> ap_principal a \<noteq> ai_principal i \<and>
    ap_decision_actor a = Some (uuid_text (sy_uuid S) (ai_principal i)) \<and>
    (ai_role i = Some Owner \<or> ai_role i = Some Admin)"
proof -
  let ?U = "sy_uuid S" and ?actor = "uuid_text (sy_uuid S) (ai_principal i)"
  obtain k w1 a w2 now where op: "require_operator_administrator i = Inr ()" and k: "parse_str ?U id_text = Some k"
    and look: "lookup_approval S (ai_tenant i) k w = (w1, Inr (Some a))" "ap_principal a \<noteq> ai_principal i"
    and now: "now_seconds S w1 = (w2, Inr now)"
    and dec: "\<exists>b. on_approvals (decide ?U (ai_tenant i) k Approve ?actor reason now) w2 = (w', Inr (Some b))"
    using assms(3)
    by (auto simp: decide_approval_def parse_public_id_def is_witnessed_def find_approval_def and_then_def
        split: sum.splits option.splits prod.splits if_splits)
  have adv: "world_advances S w w1" "world_advances S w1 w2"
    using system_advances(4) [OF assms(1), of w "ai_tenant i" k] look(1)
      system_advances(3) [OF assms(1), of w1] now by simp_all
  have ok: "world_ok S w1" "world_ok S w2" using adv assms(2) by (auto simp: world_advances_def)
  obtain p where p: "approval_entry ?U (w_approvals w2) k = Some p" "ap_principal p \<noteq> ai_principal i"
    using find_approval_found [OF ok(1) look(1)] look(2) advances_principal [OF adv(2) ok(1)] by metis
  obtain as where as: "w_approvals w2 = map (row_of ?U) as" "approvals_ok ?U as" "uuid_lib_ok ?U"
    using ok(2) by (rule world_approvals)
  obtain b where b: "snd (decide ?U (ai_tenant i) k Approve ?actor reason now (map (row_of ?U) as)) = Inr (Some b)"
    "w_approvals w' = fst (decide ?U (ai_tenant i) k Approve ?actor reason now (map (row_of ?U) as))"
    using dec as(1) by (auto simp: on_approvals_def split: prod.splits)
  obtain x as' where x: "x \<in> set as" "ap_tenant x = ai_tenant i" "ap_id x = k" "b = decided Approve ?actor reason now x"
    "w_approvals w' = map (row_of ?U) as'" "approvals_ok ?U as'" "b \<in> set as'"
    using decide_success [OF as(3,2) b(1)] b(2) by metis
  have "p = x"
    using p(1) approval_entry_of [OF as(3,2), of k] as(1) x(1,3) find_unique [of ap_id as x] as(2)
    by (simp add: approvals_ok_def)
  moreover have "approval_entry ?U (w_approvals w') k = Some b"
    using approval_entry_of [OF as(3) x(6), of k] x(5,7) find_unique [of ap_id as' b] x(3,4,6)
    by (simp add: approvals_ok_def decided_def)
  ultimately show ?thesis
    using k x(2,4) p(2) operator_role [OF op] by (auto simp: decided_def)
qed

text \<open>A system in which nothing else happens: the clock stands and the next identifier is known.\<close>

definition quiet :: "'x system \<Rightarrow> int \<Rightarrow> uuid \<Rightarrow> bool" where
  "quiet S clock fresh \<longleftrightarrow> (\<forall>w. sy_clock S w = (w, clock)) \<and> (\<forall>w. sy_new_v4 S w = (w, fresh))"

definition with_approval :: "string \<Rightarrow> gate_request \<Rightarrow> gate_request" where
  "with_approval t r = r \<lparr> req_context := (req_context r) \<lparr> authority :=
     map_option (\<lambda>auth. auth \<lparr> approval_id := Some t \<rparr>) (authority (req_context r)) \<rparr> \<rparr>"

lemma with_approval_sel [simp]:
  "ctx_tenant (req_context (with_approval t r)) = ctx_tenant (req_context r)"
  "ctx_principal (req_context (with_approval t r)) = ctx_principal (req_context r)"
  "req_invocation (with_approval t r) = req_invocation r"
  "authority (req_context (with_approval t r)) =
     map_option (\<lambda>auth. auth \<lparr> approval_id := Some t \<rparr>) (authority (req_context r))"
  by (simp_all add: with_approval_def)

text \<open>The envelope leaves the approval out, so the resubmission carries the same hash.\<close>

lemma envelope_with_approval [simp]: "envelope_hash S (with_approval t r) = envelope_hash S r"
  by (cases "authority (req_context r)")
    (simp_all add: envelope_hash_def canonical_request_envelope_def Let_def with_approval_def)

text \<open>The first submission stores a pending record and names it.\<close>

lemma first_submission:
  assumes S: "authority_ok S" and q: "quiet S clock fresh" and t: "0 \<le> clock" "clock + 900 < 2 ^ 63"
    and r: "typed_request (sy_uuid S) r" "requires_human_approval (req_invocation r)"
    and auth: "authority (req_context r) = Some auth" "approval_id auth = None"
    and tok: "canonical_token_identity (sy_uuid S) (token_identity auth) = Inr tk"
    and names: "valid_name (inv_tool (req_invocation r))" "valid_name (inv_action (req_invocation r))"
    and h: "envelope_hash S r = Inr h"
    and as: "w_approvals w = map (row_of (sy_uuid S)) as" "approvals_ok (sy_uuid S) as" "uuid_lib_ok (sy_uuid S)"
    and new: "fresh \<notin> ap_id ` set as" "\<forall>a \<in> set as. ap_request_hash a \<noteq> h"
  defines "a \<equiv> new_approval fresh (new_approval_request r auth h clock) (token_identity auth)"
  shows "\<exists>as'. durable_human_check S r w = (w \<lparr> w_approvals := map (row_of (sy_uuid S)) as' \<rparr>,
      Inr (RequireApproval (approval_prompt (req_invocation r)) (Some (uuid_text (sy_uuid S) fresh)))) \<and>
    approvals_ok (sy_uuid S) as' \<and> a \<in> set as'"
proof -
  let ?U = "sy_uuid S" and ?q = "new_approval_request r auth h clock"
  have exp: "ar_expires_at ?q = clock + 900"
    using t by (simp add: new_approval_request_def APPROVAL_TTL_SECONDS_def i64_add_exact i64_range_def)
  have len: "length h = 32" by (rule envelope_hash_length [OF S h])
  have prompt: "approval_prompt (req_invocation r) \<noteq> []" "length (approval_prompt (req_invocation r)) \<le> 4096"
    using approval_prompt_bounds [of "req_invocation r"] by auto
  have v: "validate_request ?U ?q = Inr ()"
    using tok names exp prompt
    by (auto simp: validate_request_def new_approval_request_def approval_limits valid_name_def APPROVAL_POLICY_VERSION_def
        split: sum.splits)
  have oh: "approval_op_ok ?U (CreateOrGet fresh ?q clock)"
    using r(1) len by (simp add: typed_request_def new_approval_request_def)
  obtain as' where as': "fst (create_or_get_pending ?U fresh ?q clock (map (row_of ?U) as)) = map (row_of ?U) as'"
    "create_ends ?U fresh ?q clock as as' (snd (create_or_get_pending ?U fresh ?q clock (map (row_of ?U) as)))"
    using create_or_get_spec [OF as(3,2), of ?q] len by (auto simp: new_approval_request_def)
  have "ap_request_hash x \<noteq> h" if "x \<in> set (expire_all (ar_tenant ?q) clock as)" for x
    using that new(2) by (auto simp: expire_all_def set_sql_update)
  then have "ap_key x \<noteq> asked_key ?q" if "x \<in> set (expire_all (ar_tenant ?q) clock as)" for x
    using that by (auto simp: ap_key_def asked_key_def new_approval_request_def)
  moreover have "ar_token_identity ?q = token_identity auth" by (simp add: new_approval_request_def)
  ultimately have res: "snd (create_or_get_pending ?U fresh ?q clock (map (row_of ?U) as)) = Inr a" "a \<in> set as'"
    using as'(2) v exp new(1) by (auto simp: create_ends_def Let_def a_def)
  have ok: "approvals_ok ?U as'"
    using create_ends_steps [OF as'(2)] oh as(2) evolves_ok by (auto simp: steps_def)
  have "create_or_get_pending ?U fresh ?q clock (map (row_of ?U) as) = (map (row_of ?U) as', Inr a)"
    using as'(1) res(1) by (metis prod.collapse)
  then show ?thesis
    using r(2) auth h q t as(1) ok res(2)
    by (intro exI [of _ as']) (simp add: durable_human_check_def gate_err_def now_seconds_def quiet_def unix_seconds_from_def
        approval_for_request_def on_approvals_def a_def approval_answer_def new_approval_def new_approval_request_def)
qed

lemma approval_flow:
  assumes "authority_ok S" and "world_ok S w" and "quiet S clock fresh" and "0 \<le> clock" and "clock + 900 < 2 ^ 63"
    and "typed_request (sy_uuid S) r" and "requires_human_approval (req_invocation r)"
    and "authority (req_context r) = Some auth" and "approval_id auth = None"
    and "canonical_token_identity (sy_uuid S) (token_identity auth) = Inr tk"
    and "valid_name (inv_tool (req_invocation r))" and "valid_name (inv_action (req_invocation r))"
    and "envelope_hash S r = Inr h" and "approval_entry (sy_uuid S) (w_approvals w) fresh = None"
    and "\<forall>k a. approval_entry (sy_uuid S) (w_approvals w) k = Some a \<longrightarrow> ap_request_hash a \<noteq> h"
    and "require_operator_administrator i = Inr ()" and "ai_tenant i = ctx_tenant (req_context r)"
    and "ai_principal i \<noteq> ctx_principal (req_context r)"
  shows "\<exists>w1 w2 v. let aid = uuid_text (sy_uuid S) fresh in
    durable_human_check S r w =
      (w1, Inr (RequireApproval (approval_prompt (req_invocation r)) (Some aid))) \<and>
    decide_approval S B i aid None Approve w1 = (w2, Inr v) \<and>
    durable_human_check S (with_approval aid r) w2 = (w2, Inr Allow)"
proof -
  let ?U = "sy_uuid S" and ?actor = "uuid_text (sy_uuid S) (ai_principal i)"
  let ?a = "new_approval fresh (new_approval_request r auth h clock) (token_identity auth)"
  obtain as where as: "w_approvals w = map (row_of ?U) as" "approvals_ok ?U as" and U: "uuid_lib_ok ?U"
    using assms(2) by (rule world_approvals)
  have entry: "approval_entry ?U (w_approvals w) (ap_id x) = Some x" if "x \<in> set as" for x
    using that approval_entry_of [OF U as(2)] as find_unique [of ap_id as x] by (simp add: approvals_ok_def)
  have new: "fresh \<notin> ap_id ` set as" "\<forall>x \<in> set as. ap_request_hash x \<noteq> h"
    using entry assms(14,15) by fastforce+
  obtain as1 where check: "durable_human_check S r w = (w \<lparr> w_approvals := map (row_of ?U) as1 \<rparr>,
      Inr (RequireApproval (approval_prompt (req_invocation r)) (Some (uuid_text ?U fresh))))"
    and as1: "approvals_ok ?U as1" "?a \<in> set as1"
    using first_submission [OF assms(1,3-13) as U new] by blast
  let ?w1 = "w \<lparr> w_approvals := map (row_of ?U) as1 \<rparr>"
  have exp: "ap_expires_at ?a = clock + 900"
    using assms(4,5) by (simp add: new_approval_def new_approval_request_def APPROVAL_TTL_SECONDS_def i64_add_exact i64_range_def)
  have a: "ap_tenant ?a = ai_tenant i" "ap_id ?a = fresh" "ap_status ?a = Pending" "ap_principal ?a \<noteq> ai_principal i"
    using assms(17,18) by (auto simp: new_approval_def new_approval_request_def)
  have live: "clock < ap_expires_at ?a" using exp by simp
  have clk: "unix_seconds clock = clock" using assms(4,5) by (simp add: unix_seconds_def)
  have look: "lookup_approval S (ai_tenant i) fresh ?w1 = (?w1, Inr (Some ?a))"
    using get_approval_spec [OF U as1(1), of "ai_tenant i" fresh clock] find_approval_only [OF as1] a assms(3) live clk
    by (simp add: lookup_approval_def quiet_def with_effective_status_def effective_status_def)
  have "actor_ok ?actor None"
    using uuid_text_length [OF U, of "ai_principal i"] by (auto simp: actor_ok_def approval_limits)
  from decide_pending [OF U as1 a(3) live this, of Approve] obtain as2 where
    dec: "decide ?U (ai_tenant i) fresh Approve ?actor None clock (map (row_of ?U) as1) =
      (map (row_of ?U) as2, Inr (Some (decided Approve ?actor None clock ?a)))"
    and as2: "approvals_ok ?U as2" "decided Approve ?actor None clock ?a \<in> set as2"
    using a(1,2) by auto
  let ?w2 = "w \<lparr> w_approvals := map (row_of ?U) as2 \<rparr>" and ?b = "decided Approve ?actor None clock ?a"
  have decide: "decide_approval S B i (uuid_text ?U fresh) None Approve ?w1 = (?w2, Inr (approval_view ?U ?b))"
    using assms(3,4,5,16) U look a(4) dec
    by (simp add: decide_approval_def parse_public_id_def find_approval_def now_seconds_def quiet_def unix_seconds_from_def
        on_approvals_def)
  have b: "ap_tenant ?b = ai_tenant i" "ap_id ?b = fresh" "ap_status ?b = approval_status.Approved" "ap_expires_at ?b = clock + 900"
    using a(1,2) exp by (simp_all add: decided_def)
  have look2: "lookup_approval S (ctx_tenant (req_context r)) fresh ?w2 = (?w2, Inr (Some ?b))"
    using get_approval_spec [OF U as2(1), of "ai_tenant i" fresh clock] find_approval_only [OF as2] b assms(3,17) clk
    by (simp add: lookup_approval_def quiet_def with_effective_status_def effective_status_def)
  have match: "approval_matches ?b (with_approval (uuid_text ?U fresh) r) (auth \<lparr> approval_id := Some (uuid_text ?U fresh) \<rparr>) h"
    by (simp add: approval_matches_def decided_def new_approval_def new_approval_request_def)
  have "durable_human_check S (with_approval (uuid_text ?U fresh) r) ?w2 = (?w2, Inr Allow)"
    using assms(3,4,5,7,8,13) U look2 match b
    by (simp add: durable_human_check_def gate_err_def now_seconds_def quiet_def unix_seconds_from_def
        approval_for_request_def approval_answer_def)
  with check decide show ?thesis unfolding Let_def by blast
qed

text \<open>
  Property C5. An approval can always be obtained and used. Take a high-risk request with valid tool and
  action names that names no approval yet and whose content no earlier record covers, at a time when
  nobody else acts on the stores: the clock stands still and the next identifier is not in use. The human
  gate answers with the identifier of a fresh pending approval; an owner or administrator of the tenant
  other than the requester can then approve it under either boundary, and the same request resubmitted
  with that identifier passes the gate.
\<close>

theorem approval_round_trip:
  assumes "authority_ok S" and "world_ok S w" and "quiet S clock fresh" and "0 \<le> clock" and "clock + 900 < 2 ^ 63"
    and "typed_request (sy_uuid S) r" and "requires_human_approval (req_invocation r)"
    and "authority (req_context r) = Some auth" and "approval_id auth = None"
    and "canonical_token_identity (sy_uuid S) (token_identity auth) = Inr tk"
    and "valid_name (inv_tool (req_invocation r))" and "valid_name (inv_action (req_invocation r))"
    and "envelope_hash S r = Inr h" and "approval_entry (sy_uuid S) (w_approvals w) fresh = None"
    and "\<forall>k a. approval_entry (sy_uuid S) (w_approvals w) k = Some a \<longrightarrow> ap_request_hash a \<noteq> h"
    and "require_operator_administrator i = Inr ()" and "ai_tenant i = ctx_tenant (req_context r)"
    and "ai_principal i \<noteq> ctx_principal (req_context r)"
  shows "\<exists>w1 w2 v. let aid = uuid_text (sy_uuid S) fresh in
    durable_human_check S r w =
      (w1, Inr (RequireApproval (approval_prompt (req_invocation r)) (Some aid))) \<and>
    decide_approval S B i aid None Approve w1 = (w2, Inr v) \<and>
    durable_human_check S (with_approval aid r) w2 = (w2, Inr Allow)"
  using assms by (rule approval_flow)


section \<open>Concrete requests\<close>

definition plain_http :: http_lib where
  "plain_http = \<lparr> header_to_str = Some, header_from_str = Some \<rparr>"

definition operator_identity :: authenticated_identity where
  "operator_identity = \<lparr> ai_tenant = 8, ai_principal = 40, ai_token_identity = sample_id 4,
     ai_role = Some Owner, ai_scopes = [] \<rparr>"

definition sample_policy :: policy_backend where
  "sample_policy = \<lparr> pb_org_status = (\<lambda>_. Inr (Some Active)), pb_member_role = (\<lambda>_ _. Inr (Some Owner)) \<rparr>"

definition sample_claims :: operator_claims where
  "sample_claims = \<lparr> oc_sub = sample_id 40, oc_org = sample_id 8, oc_role = ''viewer'', oc_sid = sample_id 4,
     oc_iat = 0, oc_exp = 900 \<rparr>"

lemma operator_authenticates:
  "from_request_parts plain_http sample_cred_lib sample_policy (\<lambda>_. Some sample_claims) 100
     [(''authorization'', ''Bearer jwt'')] empty_identity = (empty_identity, Inr operator_identity)"
proof -
  have "version_num sample_uuid_lib 40 = 8" by (simp add: sample_uuid_version)
  then show ?thesis
    using sample_uuid_lib_ok
    by (simp add: from_request_parts_def bearer_credential_def get_all_def plain_http_def unix_seconds_from_def
        sample_claims_def current_member_role_def sample_policy_def operator_identity_def)
qed

theorem authenticated_identity_is_current_witness:
  "ai_role operator_identity = Some Owner \<and> pb_member_role sample_policy 8 40 = Inr (Some Owner)"
  using authenticated_identity_is_current [OF operator_authenticates] by (simp add: operator_identity_def)

definition push_body :: dispatch_body where
  "push_body = \<lparr> bd_tool = ''git'', bd_action = ''push'', bd_args = JNull,
     bd_context = \<lparr> cc_persona = None, cc_session = None, cc_room = None, cc_workflow = None \<rparr> \<rparr>"

definition closed_dispatcher :: "unit world dispatcher" where
  "closed_dispatcher = \<lparr> gates = deny_gate_chain, executor = push_executor, output_filter = None, execution_guard = None \<rparr>"

theorem dispatch_route_binds_identity_witness:
  "\<exists>w' v r events out. dispatch_handler plain_http sample_uuid_lib closed_dispatcher operator_identity
      [(IDEMPOTENCY_HEADER, ''k1'')] push_body push_world = (w', Inr v) \<and> rp_status v = 403 \<and>
     dispatch closed_dispatcher r push_world = (w', events, out) \<and> ctx_tenant (req_context r) = 8 \<and>
     ctx_principal (req_context r) = 40"
proof -
  let ?h = "dispatch_handler plain_http sample_uuid_lib closed_dispatcher operator_identity
      [(IDEMPOTENCY_HEADER, ''k1'')] push_body push_world"
  have "\<exists>v. snd ?h = Inr v \<and> rp_status v = 403"
    by (simp add: dispatch_handler_def require_dispatch_def operator_identity_def validate_dispatch_body_def push_body_def
        valid_name_def identifier_char_def is_ascii_alphanumeric_def bad_correlation_def dispatch_idempotency_key_def
        get_all_def plain_http_def valid_idempotency_key_def MAX_IDEMPOTENCY_KEY_BYTES_def dispatch_approval_id_def
        IDEMPOTENCY_HEADER_def APPROVAL_HEADER_def is_ascii_digit_def)
      (simp add: dispatch_def closed_dispatcher_def deny_gate_chain_def CANONICAL_GATE_ORDER_def deny_gate_def Let_def
        dispatch_response_def)
  then obtain w' v where h: "?h = (w', Inr v)" "rp_status v = 403" by (metis prod.collapse)
  from dispatch_route_binds_identity [OF h(1)] h show ?thesis by (auto simp: operator_identity_def)
qed

definition first_request :: gate_request where
  "first_request = push_request \<lparr> req_context := (req_context push_request) \<lparr> authority :=
     Some \<lparr> token_identity = sample_id 4, idempotency_key = ''k1'', approval_id = None \<rparr> \<rparr> \<rparr>"

definition fresh_world :: "unit world" where
  "fresh_world = push_world \<lparr> w_approvals := [] \<rparr>"

lemma fresh_world_ok: "world_ok local_system fresh_world"
  using push_world_ok approval_inv_empty [OF sample_uuid_lib_ok]
  by (simp add: world_ok_def fresh_world_def push_world_def)

lemma first_request_sel [simp]:
  "authority (req_context first_request) = Some \<lparr> token_identity = sample_id 4, idempotency_key = ''k1'', approval_id = None \<rparr>"
  "ctx_tenant (req_context first_request) = 8" "ctx_principal (req_context first_request) = 24"
  "req_invocation first_request = req_invocation push_request"
  by (simp_all add: first_request_def)

lemma first_request_ready:
  "quiet local_system 100 4" "typed_request sample_uuid_lib first_request"
  "requires_human_approval (req_invocation first_request)" "valid_name ''git''" "valid_name ''push''"
  "canonical_token_identity sample_uuid_lib (sample_id 4) = Inr (sample_id 4)"
  "\<exists>h. envelope_hash local_system first_request = Inr h" "require_operator_administrator operator_identity = Inr ()"
proof -
  show "quiet local_system 100 4" by (simp add: quiet_def) (simp add: local_system_def)
  show "typed_request sample_uuid_lib first_request" by (simp add: typed_request_def sample_uuid_version)
  show "requires_human_approval (req_invocation first_request)"
    by (simp add: requires_human_approval_def reviewed_reads_def)
  show "valid_name ''git''" "valid_name ''push''"
    by (simp_all add: valid_name_def identifier_char_def is_ascii_alphanumeric_def is_ascii_digit_def)
  show "canonical_token_identity sample_uuid_lib (sample_id 4) = Inr (sample_id 4)"
    using sample_uuid_lib_ok sample_id_graphic(3) by (simp add: canonical_token_identity_def approval_limits sample_uuid_version)
  have "push_request = with_approval (sample_id 20) first_request"
    by (simp add: with_approval_def first_request_def push_request_def)
  then show "\<exists>h. envelope_hash local_system first_request = Inr h"
    using push_hash envelope_with_approval by metis
  show "require_operator_administrator operator_identity = Inr ()"
    by (simp add: require_operator_administrator_def operator_identity_def)
qed

lemma fresh_flow:
  "\<exists>w1 w2 v. durable_human_check local_system first_request fresh_world =
      (w1, Inr (RequireApproval (approval_prompt (req_invocation first_request)) (Some (sample_id 4)))) \<and>
    world_ok local_system w1 \<and> decide_approval local_system B operator_identity (sample_id 4) None Approve w1 = (w2, Inr v)"
proof -
  obtain h where h: "envelope_hash local_system first_request = Inr h" using first_request_ready(7) by blast
  obtain w1 w2 v where f: "durable_human_check local_system first_request fresh_world =
      (w1, Inr (RequireApproval (approval_prompt (req_invocation first_request)) (Some (sample_id 4))))"
    "decide_approval local_system B operator_identity (sample_id 4) None Approve w1 = (w2, Inr v)"
    using approval_flow [OF local_system_ok fresh_world_ok first_request_ready(1) _ _ _ first_request_ready(3)
        first_request_sel(1) _ _ _ _ h _ _ first_request_ready(8), of "sample_id 4" B] first_request_ready(2,4,5,6)
    by (auto simp: fresh_world_def operator_identity_def approval_entry_def Let_def)
  have "world_advances local_system fresh_world w1"
    using durable_human_advances [OF local_system_ok, of first_request fresh_world] first_request_ready(2) f(1) by simp
  then show ?thesis using f fresh_world_ok by (auto simp: world_advances_def)
qed

theorem no_self_approval_witness:
  "\<exists>w1 w2 v a. decide_approval local_system (Witnessed sample_boundary) operator_identity (sample_id 4) None Approve w1 =
     (w2, Inr v) \<and> approval_entry sample_uuid_lib (w_approvals w2) 4 = Some a \<and> ap_principal a \<noteq> 40"
proof -
  obtain w1 w2 v where f: "world_ok local_system w1"
    "decide_approval local_system (Witnessed sample_boundary) operator_identity (sample_id 4) None Approve w1 = (w2, Inr v)"
    using fresh_flow by blast
  have "system_ok local_system" using local_system_ok by (simp add: authority_ok_def)
  from no_self_approval [OF this f] f(2) show ?thesis
    using sample_uuid_lib_ok by (auto simp: operator_identity_def)
qed

theorem approval_round_trip_witness:
  "\<exists>w1 w2 v. durable_human_check local_system first_request fresh_world =
      (w1, Inr (RequireApproval (approval_prompt (req_invocation first_request)) (Some (sample_id 4)))) \<and>
    decide_approval local_system (Witnessed sample_boundary) operator_identity (sample_id 4) None Approve w1 = (w2, Inr v) \<and>
    durable_human_check local_system (with_approval (sample_id 4) first_request) w2 = (w2, Inr Allow)"
proof -
  obtain h where h: "envelope_hash local_system first_request = Inr h" using first_request_ready(7) by blast
  show ?thesis
    using approval_round_trip [OF local_system_ok fresh_world_ok first_request_ready(1) _ _ _ first_request_ready(3)
        first_request_sel(1) _ _ _ _ h _ _ first_request_ready(8), of "sample_id 4" "Witnessed sample_boundary"]
      first_request_ready(2,4,5,6)
    by (auto simp: fresh_world_def operator_identity_def approval_entry_def Let_def)
qed

end
