(* ===== verification/Hermes.thy ===== *)
theory Hermes
  imports Json
begin

text \<open>
  The tool gateway \<open>henosis-hermes\<close>: the envelopes and the retry policy of \<open>tool.rs\<close>, the retry loop
  and the text helpers of \<open>adapters/common.rs\<close>, and the schema check of \<open>validation.rs\<close>.

  The HTTP client is a parameter: \<open>send\<close> is one attempt of the request. A panic of the program is the
  value \<open>None\<close> of the operation that can panic.
\<close>

section \<open>Envelopes\<close>

record tool_schema =
  sc_tool_id :: string
  sc_name :: string
  sc_description :: string
  sc_input_schema :: json
  sc_output_schema :: json
  sc_category :: string
  sc_requires_auth :: bool

record invoke_request =
  iq_tenant_id :: "string option"
  iq_args :: json

record invoke_response =
  ir_tool_id :: string
  ir_success :: bool
  ir_result :: "json option"
  ir_error :: "json option"
  ir_duration_ms :: "64 word"

text \<open>\<open>Value::get\<close> with a string index, and the \<open>as_*\<close> readers of \<open>serde_json\<close>.\<close>

fun json_get :: "json \<Rightarrow> string \<Rightarrow> json option" where
  "json_get (JObject es) k = map_of es k"
| "json_get _ _ = None"

fun as_str :: "json \<Rightarrow> string option" where
  "as_str (JString s) = Some s"
| "as_str _ = None"

fun as_array :: "json \<Rightarrow> json list option" where
  "as_array (JArray xs) = Some xs"
| "as_array _ = None"

fun as_object :: "json \<Rightarrow> (string \<times> json) list option" where
  "as_object (JObject es) = Some es"
| "as_object _ = None"

fun as_u64 :: "json \<Rightarrow> nat option" where
  "as_u64 (JNumber (PosInt n)) = Some n"
| "as_u64 _ = None"

text \<open>\<open>err\<close> and \<open>error_response\<close> of \<open>tool.rs\<close>.\<close>

definition err_envelope :: "string \<Rightarrow> string \<Rightarrow> string option \<Rightarrow> json" where
  "err_envelope code message hint = JObject (btree_collect
     ([(''code'', JString code), (''message'', JString message)] @
      (case hint of None \<Rightarrow> [] | Some h \<Rightarrow> [(''hint'', JString h)])))"

definition error_response :: "string \<Rightarrow> string \<Rightarrow> string \<Rightarrow> string option \<Rightarrow> invoke_response" where
  "error_response tool_id code message hint =
     \<lparr> ir_tool_id = tool_id, ir_success = False, ir_result = None,
       ir_error = Some (err_envelope code message hint), ir_duration_ms = 0 \<rparr>"


section \<open>Retry policy\<close>

definition u64_saturating_mul :: "64 word \<Rightarrow> 64 word \<Rightarrow> 64 word" where
  "u64_saturating_mul a b = (if unat a * unat b < 2 ^ 64 then a * b else - 1)"

definition u64_saturating_add :: "64 word \<Rightarrow> 64 word \<Rightarrow> 64 word" where
  "u64_saturating_add a b = (if unat a + unat b < 2 ^ 64 then a + b else - 1)"

text \<open>\<open>checked_shl\<close> fails only when the shift is at least the width.\<close>

definition u64_checked_shl :: "64 word \<Rightarrow> nat \<Rightarrow> 64 word option" where
  "u64_checked_shl a n = (if n < 64 then Some (push_bit n a) else None)"

record retry_policy =
  rp_max_retries :: "32 word"
  rp_base_delay_ms :: "64 word"
  rp_max_delay_ms :: "64 word"
  rp_retryable_statuses :: "nat list"
  rp_idempotent :: bool

definition retry_policy_default :: retry_policy where
  "retry_policy_default = \<lparr> rp_max_retries = 3, rp_base_delay_ms = 500, rp_max_delay_ms = 30000,
     rp_retryable_statuses = [429, 500, 502, 503], rp_idempotent = True \<rparr>"

definition non_idempotent :: retry_policy where
  "non_idempotent = retry_policy_default \<lparr> rp_max_retries := 0, rp_idempotent := False \<rparr>"

definition is_retryable_status :: "retry_policy \<Rightarrow> nat \<Rightarrow> bool" where
  "is_retryable_status p status = (status \<in> set (rp_retryable_statuses p))"

definition backoff_delay_ms :: "retry_policy \<Rightarrow> 32 word \<Rightarrow> 64 word \<Rightarrow> 64 word" where
  "backoff_delay_ms p attempt jitter =
     (let factor = (case u64_checked_shl 1 (unat (min attempt 32)) of Some f \<Rightarrow> f | None \<Rightarrow> - 1);
          base = u64_saturating_mul (rp_base_delay_ms p) factor
      in min (u64_saturating_add base jitter) (rp_max_delay_ms p))"

definition jitter_ms :: "64 word \<Rightarrow> 64 word \<Rightarrow> 64 word" where
  "jitter_ms subsec_nanos base = (if base = 0 then 0 else subsec_nanos mod base)"

text \<open>\<open>str::parse::<u64>\<close>: an optional plus sign, then at least one digit, and no overflow.\<close>

definition parse_digits :: "string \<Rightarrow> nat option" where
  "parse_digits s = (if s = [] \<or> \<not> list_all is_ascii_digit s then None
     else Some (foldl (\<lambda>n c. 10 * n + (byte c - 48)) 0 s))"

definition parse_unsigned :: "nat \<Rightarrow> string \<Rightarrow> nat option" where
  "parse_unsigned width s =
     (case parse_digits (case s of c # cs \<Rightarrow> if c = CHR ''+'' then cs else s | [] \<Rightarrow> s) of
        Some n \<Rightarrow> if n < 2 ^ width then Some n else None
      | None \<Rightarrow> None)"

text \<open>\<open>retry_after_ms\<close> of the first \<open>Retry-After\<close> header; \<open>to_str\<close> is that of \<open>http::HeaderValue\<close>.\<close>

definition retry_after_ms :: "(bytes \<Rightarrow> string option) \<Rightarrow> bytes option \<Rightarrow> 64 word option" where
  "retry_after_ms to_str header =
     (case Option.bind header to_str of
        None \<Rightarrow> None
      | Some s \<Rightarrow> map_option (\<lambda>secs. u64_saturating_mul (of_nat secs) 1000) (parse_unsigned 64 (trim s)))"


section \<open>The retry loop\<close>

record http_reply =
  hy_status :: nat
  hy_retry_after :: "bytes option"
  hy_body :: bytes

record http_failure =
  hf_is_timeout :: bool
  hf_is_connect :: bool
  hf_is_request :: bool

definition transient :: "http_failure \<Rightarrow> bool" where
  "transient e \<longleftrightarrow> hf_is_timeout e \<or> hf_is_connect e \<or> hf_is_request e"

record http_outcome =
  ho_status :: nat
  ho_body :: bytes

text \<open>
  \<open>send_with_retry_bytes\<close> on a request that can be cloned; \<open>send\<close> is one attempt, \<open>nanos\<close> the clock that
  the jitter is taken from. The result lists the delays slept between the attempts. \<open>send_once\<close> is the
  branch for a request that cannot be cloned.
\<close>

definition send_once :: "('s \<Rightarrow> 's \<times> (http_failure + http_reply)) \<Rightarrow> 's \<Rightarrow> 's \<times> (http_failure + http_outcome)" where
  "send_once send s =
     (case send s of
        (s1, Inl e) \<Rightarrow> (s1, Inl e)
      | (s1, Inr y) \<Rightarrow> (s1, Inr \<lparr> ho_status = hy_status y, ho_body = hy_body y \<rparr>))"

text \<open>The delay after one attempt, or \<open>None\<close> when the attempt's answer is returned.\<close>

definition retry_delay ::
    "retry_policy \<Rightarrow> (bytes \<Rightarrow> string option) \<Rightarrow> 64 word \<Rightarrow> 32 word \<Rightarrow> http_failure + http_reply \<Rightarrow> 64 word option" where
  "retry_delay p to_str nanos attempt answer =
     (case answer of
        Inr y \<Rightarrow>
          if attempt < rp_max_retries p \<and> is_retryable_status p (hy_status y)
          then Some (case retry_after_ms to_str (hy_retry_after y) of
                       Some d \<Rightarrow> d
                     | None \<Rightarrow> backoff_delay_ms p attempt (jitter_ms nanos (rp_base_delay_ms p)))
          else None
      | Inl e \<Rightarrow>
          if attempt < rp_max_retries p \<and> rp_idempotent p \<and> transient e
          then Some (backoff_delay_ms p attempt (jitter_ms nanos (rp_base_delay_ms p)))
          else None)"

lemma retry_delay_bound: "retry_delay p to_str nanos attempt answer = Some d \<Longrightarrow> attempt < rp_max_retries p"
  by (auto simp: retry_delay_def split: sum.splits if_splits)

function send_with_retry_bytes ::
    "retry_policy \<Rightarrow> (bytes \<Rightarrow> string option) \<Rightarrow> ('s \<Rightarrow> 's \<times> (http_failure + http_reply)) \<Rightarrow> ('s \<Rightarrow> 64 word) \<Rightarrow>
     32 word \<Rightarrow> 's \<Rightarrow> 's \<times> 64 word list \<times> (http_failure + http_outcome)" where
  "send_with_retry_bytes p to_str send nanos attempt s =
     (case send s of (s1, answer) \<Rightarrow>
      case retry_delay p to_str (nanos s1) attempt answer of
        Some d \<Rightarrow>
          (case send_with_retry_bytes p to_str send nanos (attempt + 1) s1 of
             (s2, ds, out) \<Rightarrow> (s2, d # ds, out))
      | None \<Rightarrow>
          (s1, [], case answer of
             Inl e \<Rightarrow> Inl e
           | Inr y \<Rightarrow> Inr \<lparr> ho_status = hy_status y, ho_body = hy_body y \<rparr>))"
  by pat_completeness auto

lemma attempt_next:
  assumes "attempt < (m :: 32 word)" shows "unat (attempt + 1) = Suc (unat attempt)"
proof -
  have "unat attempt < unat m" using assms by (simp add: word_less_nat_alt)
  moreover have "unat m < 2 ^ 32" using unsigned_less [of m, where 'a = nat] by simp
  ultimately show ?thesis by (subst unat_add_lem [THEN iffD1]) auto
qed

lemma attempts_left: "attempt < (m :: 32 word) \<Longrightarrow> unat m - unat (attempt + 1) < unat m - unat attempt"
  by (simp add: attempt_next word_less_nat_alt)

termination send_with_retry_bytes
  by (relation "measure (\<lambda>(p, _, _, _, attempt, _). unat (rp_max_retries p) - unat attempt)")
    (auto dest!: retry_delay_bound [OF sym] retry_delay_bound attempts_left)

declare send_with_retry_bytes.simps [simp del]


section \<open>Text of upstream bodies\<close>

text \<open>
  \<open>truncate\<close> slices the string at a byte index, which panics when the index is not a character
  boundary.
\<close>

definition is_char_boundary :: "string \<Rightarrow> nat \<Rightarrow> bool" where
  "is_char_boundary s i = (i = 0 \<or> i = length s \<or> (i < length s \<and> \<not> is_continuation (s ! i)))"

definition truncate_body :: "string \<Rightarrow> nat \<Rightarrow> string option" where
  "truncate_body s limit =
     (if length s \<le> limit then Some s
      else if is_char_boundary s limit then Some (take limit s @ ''...[truncated]'') else None)"


section \<open>Schema validation\<close>

record field_error =
  fe_field :: string
  fe_message :: string

text \<open>
  \<open>serde_json\<close> compares values structurally; floating-point numbers are compared as numbers, so the two
  zeros are equal (a JSON number is never NaN).
\<close>

fun number_eq :: "json_number \<Rightarrow> json_number \<Rightarrow> bool" where
  "number_eq (Float a) (Float b) = (a = b \<or> (push_bit 1 a = 0 \<and> push_bit 1 b = 0))"
| "number_eq a b = (a = b)"

fun json_eq :: "json \<Rightarrow> json \<Rightarrow> bool"
  and items_eq :: "json list \<Rightarrow> json list \<Rightarrow> bool"
  and entries_eq :: "(string \<times> json) list \<Rightarrow> (string \<times> json) list \<Rightarrow> bool" where
  "json_eq JNull JNull = True"
| "json_eq (JBool a) (JBool b) = (a = b)"
| "json_eq (JNumber a) (JNumber b) = number_eq a b"
| "json_eq (JString a) (JString b) = (a = b)"
| "json_eq (JArray xs) (JArray ys) = items_eq xs ys"
| "json_eq (JObject es) (JObject fs) = entries_eq es fs"
| "json_eq _ _ = False"
| "items_eq [] [] = True"
| "items_eq (x # xs) (y # ys) = (json_eq x y \<and> items_eq xs ys)"
| "items_eq _ _ = False"
| "entries_eq [] [] = True"
| "entries_eq ((k, x) # es) ((l, y) # fs) = (k = l \<and> json_eq x y \<and> entries_eq es fs)"
| "entries_eq _ _ = False"

definition type_matches :: "string \<Rightarrow> json \<Rightarrow> bool" where
  "type_matches expected value =
     (if expected = ''string'' then (case value of JString _ \<Rightarrow> True | _ \<Rightarrow> False)
      else if expected = ''integer'' then
        (case value of JNumber (PosInt _) \<Rightarrow> True | JNumber (NegInt _) \<Rightarrow> True | _ \<Rightarrow> False)
      else if expected = ''number'' then (case value of JNumber _ \<Rightarrow> True | _ \<Rightarrow> False)
      else if expected = ''boolean'' then (case value of JBool _ \<Rightarrow> True | _ \<Rightarrow> False)
      else if expected = ''array'' then (case value of JArray _ \<Rightarrow> True | _ \<Rightarrow> False)
      else if expected = ''object'' then (case value of JObject _ \<Rightarrow> True | _ \<Rightarrow> False)
      else if expected = ''null'' then value = JNull
      else True)"

definition quoted :: "string \<Rightarrow> string" where
  "quoted s = [CHR 0x27] @ s @ [CHR 0x27]"

fun join :: "string \<Rightarrow> string list \<Rightarrow> string" where
  "join sep [] = []"
| "join sep [x] = x"
| "join sep (x # xs) = x @ sep @ join sep xs"

definition array_item_errors :: "string \<Rightarrow> json \<Rightarrow> json \<Rightarrow> field_error list" where
  "array_item_errors name subschema value =
     (case (as_array value, Option.bind (Option.bind (json_get subschema ''items'') (\<lambda>i. json_get i ''type'')) as_str) of
        (Some arr, Some item_ty) \<Rightarrow>
          concat (map (\<lambda>(idx, el). if type_matches item_ty el then []
              else [\<lparr> fe_field = name @ ''['' @ nat_text idx @ '']'',
                      fe_message = ''array items must be of type '' @ item_ty \<rparr>])
            (enumerate 0 arr))
      | _ \<Rightarrow> [])"

definition enum_errors :: "serde \<Rightarrow> string \<Rightarrow> json \<Rightarrow> json \<Rightarrow> field_error list" where
  "enum_errors S name subschema value =
     (case Option.bind (json_get subschema ''enum'') as_array of
        None \<Rightarrow> []
      | Some allowed \<Rightarrow>
          if list_ex (\<lambda>a. json_eq a value) allowed then []
          else let opts = map (\<lambda>v. case as_str v of Some t \<Rightarrow> t | None \<Rightarrow> value_text S v) allowed
               in [\<lparr> fe_field = name, fe_message = quoted name @ '' must be one of: '' @ join '', '' opts \<rparr>])"

definition check_property :: "serde \<Rightarrow> string \<Rightarrow> json \<Rightarrow> json \<Rightarrow> field_error list" where
  "check_property S name subschema value =
     (case Option.bind (json_get subschema ''type'') as_str of
        None \<Rightarrow> enum_errors S name subschema value
      | Some expected \<Rightarrow>
          if \<not> type_matches expected value
          then [\<lparr> fe_field = name, fe_message = quoted name @ '' must be of type '' @ expected \<rparr>]
          else (if expected = ''array'' then array_item_errors name subschema value else []) @
               enum_errors S name subschema value)"

definition required_errors :: "json \<Rightarrow> (string \<times> json) list \<Rightarrow> field_error list" where
  "required_errors schema obj =
     (case Option.bind (json_get schema ''required'') as_array of
        None \<Rightarrow> []
      | Some required \<Rightarrow>
          concat (map (\<lambda>name. case map_of obj name of
              None \<Rightarrow> [\<lparr> fe_field = name, fe_message = quoted name @ '' is required'' \<rparr>]
            | Some JNull \<Rightarrow> [\<lparr> fe_field = name, fe_message = quoted name @ '' is required'' \<rparr>]
            | Some _ \<Rightarrow> []) (List.map_filter as_str required)))"

definition property_errors :: "serde \<Rightarrow> json \<Rightarrow> (string \<times> json) list \<Rightarrow> field_error list" where
  "property_errors S schema obj =
     (case Option.bind (json_get schema ''properties'') as_object of
        None \<Rightarrow> []
      | Some props \<Rightarrow>
          concat (map (\<lambda>(name, subschema). case map_of obj name of
              None \<Rightarrow> []
            | Some JNull \<Rightarrow> []
            | Some value \<Rightarrow> check_property S name subschema value) props))"

definition additional_errors :: "json \<Rightarrow> (string \<times> json) list \<Rightarrow> field_error list" where
  "additional_errors schema obj =
     (if json_get schema ''additionalProperties'' = Some (JBool False)
      then concat (map (\<lambda>(name, _).
             case Option.bind (json_get schema ''properties'') as_object of
               Some declared \<Rightarrow> if map_of declared name \<noteq> None then []
                 else [\<lparr> fe_field = name, fe_message = quoted name @ '' is not allowed'' \<rparr>]
             | None \<Rightarrow> [\<lparr> fe_field = name, fe_message = quoted name @ '' is not allowed'' \<rparr>]) obj)
      else [])"

definition validate_object :: "serde \<Rightarrow> json \<Rightarrow> (string \<times> json) list \<Rightarrow> field_error list + unit" where
  "validate_object S schema obj =
     (let errors = required_errors schema obj @ property_errors S schema obj @ additional_errors schema obj
      in if errors = [] then Inr () else Inl errors)"

definition validate :: "serde \<Rightarrow> json \<Rightarrow> json \<Rightarrow> field_error list + unit" where
  "validate S schema args =
     (if Option.bind (json_get schema ''type'') as_str \<noteq> Some ''object'' then Inr ()
      else case args of
        JObject obj \<Rightarrow> validate_object S schema obj
      | JNull \<Rightarrow> validate_object S schema []
      | _ \<Rightarrow> Inl [\<lparr> fe_field = ''(root)'', fe_message = ''args must be a JSON object'' \<rparr>])"


section \<open>Validation is type checking\<close>

text \<open>What a schema of the supported subset asks of a value.\<close>

text \<open>
  The declared types, one rule each: an integer is a number that is not a floating-point one (so \<open>1.0\<close>
  is none), and a type name the checker does not know admits every value.
\<close>

inductive of_type :: "string \<Rightarrow> json \<Rightarrow> bool" where
  string: "of_type ''string'' (JString s)"
| unsigned: "of_type ''integer'' (JNumber (PosInt n))"
| negative: "of_type ''integer'' (JNumber (NegInt i))"
| number: "of_type ''number'' (JNumber x)"
| boolean: "of_type ''boolean'' (JBool b)"
| array: "of_type ''array'' (JArray xs)"
| object: "of_type ''object'' (JObject es)"
| null: "of_type ''null'' JNull"
| unknown: "t \<notin> {''string'', ''integer'', ''number'', ''boolean'', ''array'', ''object'', ''null''} \<Longrightarrow> of_type t v"

inductive_simps of_type_simps:
  "of_type t JNull" "of_type t (JBool b)" "of_type t (JNumber (PosInt n))" "of_type t (JNumber (NegInt i))"
  "of_type t (JNumber (Float w))" "of_type t (JString s)" "of_type t (JArray xs)" "of_type t (JObject es)"

lemma type_matches_iff: "type_matches t v \<longleftrightarrow> of_type t v"
proof (cases v)
  case (JNumber x)
  then show ?thesis by (cases x) (auto simp: type_matches_def of_type_simps)
qed (auto simp: type_matches_def of_type_simps)

definition conforms_to_type :: "json \<Rightarrow> json \<Rightarrow> bool" where
  "conforms_to_type subschema value \<longleftrightarrow>
     (\<forall>t. Option.bind (json_get subschema ''type'') as_str = Some t \<longrightarrow> of_type t value \<and>
       (\<forall>xs i u. t = ''array'' \<and> value = JArray xs \<and> json_get subschema ''items'' = Some i \<and>
          json_get i ''type'' = Some (JString u) \<longrightarrow> (\<forall>x \<in> set xs. of_type u x)))"

definition conforms_to_enum :: "json \<Rightarrow> json \<Rightarrow> bool" where
  "conforms_to_enum subschema value \<longleftrightarrow>
     (\<forall>allowed. json_get subschema ''enum'' = Some (JArray allowed) \<longrightarrow> (\<exists>a \<in> set allowed. json_eq a value))"

definition conforms :: "json \<Rightarrow> (string \<times> json) list \<Rightarrow> bool" where
  "conforms schema obj \<longleftrightarrow>
     (\<forall>names name. json_get schema ''required'' = Some (JArray names) \<and> JString name \<in> set names \<longrightarrow>
        (\<exists>v. map_of obj name = Some v \<and> v \<noteq> JNull)) \<and>
     (\<forall>props name subschema value. json_get schema ''properties'' = Some (JObject props) \<and>
        (name, subschema) \<in> set props \<and> map_of obj name = Some value \<and> value \<noteq> JNull \<longrightarrow>
        conforms_to_type subschema value \<and> conforms_to_enum subschema value) \<and>
     (json_get schema ''additionalProperties'' = Some (JBool False) \<longrightarrow>
        (\<forall>name \<in> fst ` set obj. \<exists>props s. json_get schema ''properties'' = Some (JObject props) \<and> map_of props name = Some s))"

lemma reader_Some [simp]:
  "as_str v = Some s \<longleftrightarrow> v = JString s" "as_array v = Some xs \<longleftrightarrow> v = JArray xs"
  "as_object v = Some es \<longleftrightarrow> v = JObject es"
  by (cases v; auto)+

lemma bind_Some_iff: "Option.bind m f = Some y \<longleftrightarrow> (\<exists>x. m = Some x \<and> f x = Some y)"
  by (cases m) auto

lemma bind_reader [simp]:
  "Option.bind m as_str = Some t \<longleftrightarrow> m = Some (JString t)" "Option.bind m as_array = Some xs \<longleftrightarrow> m = Some (JArray xs)"
  "Option.bind m as_object = Some es \<longleftrightarrow> m = Some (JObject es)"
  "Option.bind m as_str = None \<longleftrightarrow> (\<forall>t. m \<noteq> Some (JString t))"
  "Option.bind m as_array = None \<longleftrightarrow> (\<forall>xs. m \<noteq> Some (JArray xs))"
  "Option.bind m as_object = None \<longleftrightarrow> (\<forall>es. m \<noteq> Some (JObject es))"
  using reader_Some by (auto simp: bind_Some_iff bind_eq_None_conv)
    (metis not_None_eq option.collapse)+

lemma concat_map_Nil: "concat (map f xs) = [] \<longleftrightarrow> (\<forall>x \<in> set xs. f x = [])"
  by auto

lemma required_errors_Nil:
  "required_errors schema obj = [] \<longleftrightarrow>
     (\<forall>names name. json_get schema ''required'' = Some (JArray names) \<and> JString name \<in> set names \<longrightarrow>
        (\<exists>v. map_of obj name = Some v \<and> v \<noteq> JNull))"
proof -
  have set: "set (List.map_filter as_str names) = {name. JString name \<in> set names}" for names
    by (force simp: List.map_filter_def image_iff)
  have one: "(case map_of obj name of None \<Rightarrow> [\<lparr> fe_field = name, fe_message = quoted name @ '' is required'' \<rparr>]
      | Some JNull \<Rightarrow> [\<lparr> fe_field = name, fe_message = quoted name @ '' is required'' \<rparr>] | Some _ \<Rightarrow> []) = [] \<longleftrightarrow>
      (\<exists>v. map_of obj name = Some v \<and> v \<noteq> JNull)" for name
    by (auto split: option.splits json.splits)
  show ?thesis
    unfolding required_errors_def
    by (auto simp: concat_map_Nil set one  split: option.splits)
qed

lemma enumerate_errors_Nil:
  "concat (map (\<lambda>(i, x). if Q x then [] else [f i x]) (enumerate n xs)) = [] \<longleftrightarrow> (\<forall>x \<in> set xs. Q x)"
  by (induction xs arbitrary: n) auto

lemma array_item_errors_Nil:
  "array_item_errors name subschema value = [] \<longleftrightarrow>
     (\<forall>xs i u. value = JArray xs \<and> json_get subschema ''items'' = Some i \<and> json_get i ''type'' = Some (JString u) \<longrightarrow>
        (\<forall>x \<in> set xs. of_type u x))"
proof (cases "\<exists>xs i u. value = JArray xs \<and> json_get subschema ''items'' = Some i \<and> json_get i ''type'' = Some (JString u)")
  case True
  then obtain xs i u where "value = JArray xs" "json_get subschema ''items'' = Some i" "json_get i ''type'' = Some (JString u)"
    by blast
  then show ?thesis by (simp add: array_item_errors_def enumerate_errors_Nil type_matches_iff del: concat_eq_Nil_conv)
next
  case False
  then show ?thesis
    by (auto simp: array_item_errors_def bind_Some_iff split: option.splits)
qed

lemma check_property_Nil:
  "check_property S name subschema value = [] \<longleftrightarrow> conforms_to_type subschema value \<and> conforms_to_enum subschema value"
proof -
  have "enum_errors S name subschema value = [] \<longleftrightarrow> conforms_to_enum subschema value"
    unfolding enum_errors_def conforms_to_enum_def
    by (auto simp:  list_ex_iff Let_def split: option.splits)
  then show ?thesis
    unfolding check_property_def conforms_to_type_def
    by (auto simp: array_item_errors_Nil type_matches_iff split: option.splits)
qed

lemma property_errors_Nil:
  "property_errors S schema obj = [] \<longleftrightarrow>
     (\<forall>props name subschema value. json_get schema ''properties'' = Some (JObject props) \<and>
        (name, subschema) \<in> set props \<and> map_of obj name = Some value \<and> value \<noteq> JNull \<longrightarrow>
        conforms_to_type subschema value \<and> conforms_to_enum subschema value)"
proof -
  have one: "(case map_of obj name of None \<Rightarrow> [] | Some JNull \<Rightarrow> [] | Some value \<Rightarrow> check_property S name subschema value) = [] \<longleftrightarrow>
      (\<forall>value. map_of obj name = Some value \<and> value \<noteq> JNull \<longrightarrow>
        conforms_to_type subschema value \<and> conforms_to_enum subschema value)" for name subschema
    by (auto simp: check_property_Nil split: option.splits json.splits)
  show ?thesis
    unfolding property_errors_def
    by (auto simp: concat_map_Nil one  split_def split: option.splits)
qed

lemma additional_errors_Nil:
  "additional_errors schema obj = [] \<longleftrightarrow>
     (json_get schema ''additionalProperties'' = Some (JBool False) \<longrightarrow>
        (\<forall>name \<in> fst ` set obj. \<exists>props s. json_get schema ''properties'' = Some (JObject props) \<and> map_of props name = Some s))"
proof (cases "Option.bind (json_get schema ''properties'') as_object")
  case None
  then have "\<forall>es. json_get schema ''properties'' \<noteq> Some (JObject es)" by simp
  then show ?thesis unfolding additional_errors_def None by (cases obj) auto
next
  case (Some props)
  have "concat (map (\<lambda>(n, _). if map_of props n \<noteq> None then [] else [e n]) es) = [] \<longleftrightarrow>
      (\<forall>n \<in> fst ` set es. \<exists>s. map_of props n = Some s)" for es :: "(string \<times> json) list" and e :: "string \<Rightarrow> field_error"
    by (induction es) (auto split: if_splits)
  with Some show ?thesis by (simp add: additional_errors_def del: concat_eq_Nil_conv not_None_eq)
qed

lemma validate_object_ok: "validate_object S schema obj = Inr () \<longleftrightarrow> conforms schema obj"
proof -
  have "(let errors = E in if errors = [] then Inr () else Inl errors) = Inr () \<longleftrightarrow> E = []" for E :: "field_error list"
    by simp
  then show ?thesis
    unfolding validate_object_def conforms_def
    by (simp only: append_is_Nil_conv required_errors_Nil property_errors_Nil additional_errors_Nil)
qed

text \<open>
  Property C40. The argument check is exactly the type check of the schema: for an object schema the
  arguments are accepted when they are an object, or null for the empty object, in which every
  required field is present and not null, every declared field that is present and not null has its
  declared type (as the rules of \<open>of_type\<close> say), its declared item type and one of its enumerated values, and nothing undeclared appears in a
  closed schema; every other argument is refused. Any other schema accepts everything.
\<close>

theorem validate_is_type_check:
  "validate S schema args = Inr () \<longleftrightarrow>
     json_get schema ''type'' \<noteq> Some (JString ''object'') \<or>
     conforms schema (case args of JObject obj \<Rightarrow> obj | _ \<Rightarrow> []) \<and> (args = JNull \<or> as_object args \<noteq> None)"
proof -
  have "Option.bind (json_get schema ''type'') as_str = Some ''object'' \<longleftrightarrow> json_get schema ''type'' = Some (JString ''object'')"
    by (simp add: bind_Some_iff)
  then show ?thesis
    by (cases args) (auto simp: validate_def validate_object_ok)
qed


section \<open>Bounds of the retry loop\<close>

lemma u64_less [simp]: "unat (w :: 64 word) < 18446744073709551616"
  using unsigned_less [of w, where 'a = nat] by simp

lemma unat_max_u64 [simp]: "unat (- 1 :: 64 word) = 18446744073709551615"
  by (simp add: unsigned_minus_1_eq_mask mask_eq_exp_minus_1)

lemma unat_saturating_mul: "unat (u64_saturating_mul a b) = min (2 ^ 64 - 1) (unat a * unat b)"
proof (cases "unat a * unat b < 2 ^ 64")
  case True
  then have "unat (a * b) = unat a * unat b" by (simp add: unat_word_ariths)
  then show ?thesis using True by (simp add: u64_saturating_mul_def)
qed (simp add: u64_saturating_mul_def)

lemma unat_saturating_add: "unat (u64_saturating_add a b) = min (2 ^ 64 - 1) (unat a + unat b)"
proof (cases "unat a + unat b < 2 ^ 64")
  case True
  then have "unat (a + b) = unat a + unat b" by (simp add: unat_word_ariths)
  then show ?thesis using True by (simp add: u64_saturating_add_def)
qed (simp add: u64_saturating_add_def)

lemma backoff_factor:
  assumes "n \<le> 32" shows "unat ((2 :: 64 word) ^ n) = 2 ^ n"
  using assms unat_of_nat [of "2 ^ n", where 'a = 64] power_strict_increasing [of n 64 "2 :: nat"] by simp

lemma unat_backoff:
  "unat (backoff_delay_ms p attempt jitter) =
     min (unat (rp_max_delay_ms p)) (unat (rp_base_delay_ms p) * 2 ^ min (unat attempt) 32 + unat jitter)"
proof -
  have n: "unat (min attempt 32) = min (unat attempt) 32"
    by (simp add: min_def word_le_nat_alt)
  have cap: "unat (min a b) = min (unat a) (unat b)" for a b :: "64 word"
    by (simp add: min_def word_le_nat_alt)
  have small: "unat (rp_max_delay_ms p) \<le> 18446744073709551615"
    using unsigned_less [of "rp_max_delay_ms p", where 'a = nat] by (simp del: u64_less)
  have clipped: "c \<le> m \<Longrightarrow> min c (min m (min x (m + y))) = min c x" for c m x y :: nat
    by (simp add: min_def)
  have "min (unat attempt) 32 < 64" by simp
  then show ?thesis
    by (simp add: backoff_delay_ms_def Let_def u64_checked_shl_def n cap unat_saturating_add unat_saturating_mul
        backoff_factor min.commute min_add_distrib_left clipped [OF small])
qed

lemma jitter_bound: "jitter_ms t base \<le> base"
proof (cases "base = 0")
  case False
  then have "unat (t mod base) < unat base" by (simp add: unat_mod_distrib word_gt_0 flip: unat_gt_0)
  then show ?thesis by (simp add: jitter_ms_def word_le_nat_alt)
qed (simp add: jitter_ms_def)

text \<open>
  A delay that the policy allows after attempt \<open>n\<close>: the server's own, or the capped exponential with a
  jitter below the base.
\<close>

definition lawful_delay :: "retry_policy \<Rightarrow> (bytes \<Rightarrow> string option) \<Rightarrow> nat \<Rightarrow> 64 word \<Rightarrow> bool" where
  "lawful_delay p to_str n d \<longleftrightarrow> (\<exists>header. retry_after_ms to_str header = Some d) \<or>
     (\<exists>jitter. jitter \<le> rp_base_delay_ms p \<and> unat d =
        min (unat (rp_max_delay_ms p)) (unat (rp_base_delay_ms p) * 2 ^ min n 32 + unat jitter))"

lemma retry_delay_value:
  assumes "retry_delay p to_str t attempt answer = Some d"
  shows "lawful_delay p to_str (unat attempt) d"
  using assms jitter_bound [of t "rp_base_delay_ms p"]
  by (fastforce simp: lawful_delay_def retry_delay_def unat_backoff split: sum.splits if_splits option.splits)

text \<open>The loop from any attempt; the first of its delays is that of the attempt itself.\<close>

lemma retry_run:
  assumes "send_with_retry_bytes p to_str send nanos attempt s = (s', ds, out)"
    and "\<And>x. sent (fst (send x)) = Suc (sent x)"
  shows "attempt \<le> rp_max_retries p \<longrightarrow> sent s' = sent s + Suc (length ds) \<and>
    unat attempt + length ds \<le> unat (rp_max_retries p) \<and>
    (\<forall>y. out = Inr y \<and> is_retryable_status p (ho_status y) \<longrightarrow> unat attempt + length ds = unat (rp_max_retries p)) \<and>
    (\<forall>i < length ds. lawful_delay p to_str (unat attempt + i) (ds ! i))"
  using assms
proof (induction p to_str send nanos attempt s arbitrary: s' ds out rule: send_with_retry_bytes.induct)
  case (1 p to_str send nanos attempt s)
  obtain s1 answer where a: "send s = (s1, answer)" by (cases "send s")
  have count: "sent s1 = Suc (sent s)" using 1(3) [of s] a by simp
  show ?case
  proof (cases "retry_delay p to_str (nanos s1) attempt answer")
    case None
    then have "ds = []" "s' = s1" "out = (case answer of Inl e \<Rightarrow> Inl e | Inr y \<Rightarrow> Inr \<lparr> ho_status = hy_status y, ho_body = hy_body y \<rparr>)"
      using 1(2) a by (subst (asm) send_with_retry_bytes.simps; simp)+
    then show ?thesis
      using None count by (auto simp: retry_delay_def word_less_nat_alt word_le_nat_alt split: sum.splits if_splits)
  next
    case (Some d)
    obtain s2 ds' out' where r: "send_with_retry_bytes p to_str send nanos (attempt + 1) s1 = (s2, ds', out')"
      by (metis prod_cases3)
    have eq: "s' = s2" "ds = d # ds'" "out = out'"
      using 1(2) a Some r by (subst (asm) (2) send_with_retry_bytes.simps; simp)+
    have lt: "attempt < rp_max_retries p" using Some by (rule retry_delay_bound)
    have up: "unat (attempt + 1) = Suc (unat attempt)" using lt by (rule attempt_next)
    have "attempt + 1 \<le> rp_max_retries p" using lt by (simp add: word_le_nat_alt word_less_nat_alt up)
    with 1(1) [OF a [symmetric] Some r 1(3)] have
      ih: "sent s2 = Suc (sent s + Suc (length ds'))" "Suc (unat attempt) + length ds' \<le> unat (rp_max_retries p)"
        "\<forall>y. out' = Inr y \<and> is_retryable_status p (ho_status y) \<longrightarrow> Suc (unat attempt) + length ds' = unat (rp_max_retries p)"
        "\<forall>i < length ds'. lawful_delay p to_str (Suc (unat attempt) + i) (ds' ! i)"
      using count by (simp_all add: up)
    show ?thesis
      using ih retry_delay_value [OF Some] unfolding eq by (auto simp: less_Suc_eq_0_disj nth_Cons')
  qed
qed

text \<open>
  The retry loop always ends and is bounded: it sends at most one request more than the
  policy allows retries, it gives up on a retryable status only when all retries are used, a policy
  without retries sends once and sleeps never, and every delay obeys the policy's cap, with the
  exact exponential value, unless the server dictated it in a \<open>Retry-After\<close> header.
\<close>

theorem retry_bounded:
  assumes "send_with_retry_bytes p to_str send nanos 0 s = (s', ds, out)"
    and "\<And>x. sent (fst (send x)) = Suc (sent x)"
  shows "sent s' = sent s + Suc (length ds) \<and> length ds \<le> unat (rp_max_retries p) \<and>
    (\<forall>y. out = Inr y \<and> is_retryable_status p (ho_status y) \<longrightarrow> length ds = unat (rp_max_retries p)) \<and>
    (\<forall>i < length ds. lawful_delay p to_str i (ds ! i))"
  using retry_run [OF assms(1), of sent] assms(2) by simp


section \<open>Truncation\<close>

text \<open>
  Shortening an upstream body panics exactly when the cut falls inside a UTF-8
  character; otherwise the text is kept when it fits and cut to the limit with a marker when it does
  not, so plain ASCII is always handled.
\<close>

theorem truncate_panics_inside_characters:
  "(truncate_body s n = None \<longleftrightarrow> 0 < n \<and> n < length s \<and> is_continuation (s ! n)) \<and>
   (is_ascii s \<longrightarrow> truncate_body s n = Some (if length s \<le> n then s else take n s @ ''...[truncated]'')) \<and>
   (\<forall>t. truncate_body s n = Some t \<longrightarrow> length t \<le> n + 14 \<and> take n t = take n s)"
proof -
  have "\<not> is_continuation (s ! n)" if "is_ascii s" "n < length s"
  proof -
    have "byte (s ! n) < 128" using that nth_mem [of n s] by (simp add: is_ascii_def list_all_iff)
    then show ?thesis by (simp add: is_continuation_def)
  qed
  then show ?thesis by (auto simp: truncate_body_def is_char_boundary_def min_def)
qed


section \<open>Concrete calls\<close>

definition note_schema :: json where
  "note_schema = JObject [(''properties'', JObject [(''text'', JObject [(''type'', JString ''string'')])]),
     (''required'', JArray [JString ''text'']), (''type'', JString ''object'')]"

theorem validate_is_type_check_witness:
  "validate (sample_serde (\<lambda>_. None)) note_schema (JObject [(''text'', JString ''hi'')]) = Inr () \<and>
   validate (sample_serde (\<lambda>_. None)) note_schema (JObject [(''text'', JBool True)]) \<noteq> Inr () \<and> validate (sample_serde (\<lambda>_. None)) note_schema JNull \<noteq> Inr ()"
  unfolding validate_is_type_check
  by (simp add: note_schema_def conforms_def conforms_to_type_def conforms_to_enum_def of_type_simps)

text \<open>A server that answers 503 and asks to be left alone for a day.\<close>

definition busy_server :: "nat \<Rightarrow> nat \<times> (http_failure + http_reply)" where
  "busy_server n = (Suc n, Inr \<lparr> hy_status = 503, hy_retry_after = Some ''86400'', hy_body = [] \<rparr>)"

lemma busy_delay: "retry_after_ms Some (Some ''86400'') = Some 86400000"
proof -
  have "trim ''86400'' = ''86400''"
    by (simp add: trim_def utf8_chars_ascii is_ascii_def is_whitespace_def)
  then show ?thesis
    by (simp add: retry_after_ms_def parse_unsigned_def parse_digits_def is_ascii_digit_def u64_saturating_mul_def)
qed

lemma busy_run:
  "send_with_retry_bytes retry_policy_default Some busy_server (\<lambda>_. 0) 0 0 =
     (4, [86400000, 86400000, 86400000], Inr \<lparr> ho_status = 503, ho_body = [] \<rparr>)"
  by (subst send_with_retry_bytes.simps, simp add: busy_server_def retry_delay_def retry_policy_default_def
      is_retryable_status_def busy_delay)+

theorem retry_bounded_witness:
  "\<exists>s' ds out. send_with_retry_bytes retry_policy_default Some busy_server (\<lambda>_. 0) 0 0 = (s', ds, out) \<and>
     s' = 4 \<and> length ds = unat (rp_max_retries retry_policy_default) \<and>
     (\<forall>d \<in> set ds. lawful_delay retry_policy_default Some 0 d \<and> rp_max_delay_ms retry_policy_default < d)"
proof -
  have "lawful_delay retry_policy_default Some 0 86400000"
    unfolding lawful_delay_def using busy_delay by blast
  then show ?thesis
    using retry_bounded [OF busy_run, of "\<lambda>n. n"]
    by (simp add: busy_run) (simp add: busy_server_def is_retryable_status_def retry_policy_default_def)
qed

theorem truncate_panics_inside_characters_witness:
  "truncate_body (replicate 255 CHR ''a'' @ [CHR 0xE2, CHR 0x82, CHR 0xAC]) 256 = None \<and>
   truncate_body (replicate 300 CHR ''a'') 256 = Some (replicate 256 CHR ''a'' @ ''...[truncated]'')"
proof -
  have "is_ascii (replicate 300 CHR ''a'')" by (simp add: is_ascii_def list_all_iff)
  then show ?thesis
    using truncate_panics_inside_characters [of "replicate 255 CHR ''a'' @ [CHR 0xE2, CHR 0x82, CHR 0xAC]" 256]
      truncate_panics_inside_characters [of "replicate 300 CHR ''a''" 256]
    by (simp add: nth_append is_continuation_def min_def)
qed

end
