(* ===== verification/Circuit.thy ===== *)
theory Circuit
  imports Hermes Ledger "HOL-Library.AList" "HOL-Library.Sublist"
begin

text \<open>
  The per-provider circuit breakers of \<open>henosis-hermes/src/circuit.rs\<close>.

  A breaker is a record of atomic cells. Each method is given twice: as one function (\<open>decide\<close>,
  \<open>on_success\<close>, \<open>on_failure\<close>), and as a thread that performs one atomic access per step
  (\<open>atomic_step\<close>), because the cells are shared without a lock; \<open>breaker_step\<close> interleaves any number of
  such threads. The clock is an argument of every step that reads it. Integer arithmetic is that of a
  release build: it wraps at the width.
\<close>

section \<open>The breaker\<close>

datatype transition = Opened | Closed | HalfOpen
datatype circuit_state = Closed | Open | HalfOpen
datatype circuit_decision = Allowed | Rejected "64 word"

definition STATE_CLOSED :: "8 word" where "STATE_CLOSED = 0"
definition STATE_OPEN :: "8 word" where "STATE_OPEN = 1"
definition STATE_HALF_OPEN :: "8 word" where "STATE_HALF_OPEN = 2"

definition state_from_u8 :: "8 word \<Rightarrow> circuit_state" where
  "state_from_u8 v = (if v = STATE_OPEN then Open else if v = STATE_HALF_OPEN then HalfOpen else Closed)"

fun state_as_str :: "circuit_state \<Rightarrow> string" where
  "state_as_str Closed = ''closed''"
| "state_as_str Open = ''open''"
| "state_as_str HalfOpen = ''half_open''"

fun transition_action :: "transition \<Rightarrow> string" where
  "transition_action transition.Opened = ''hermes.circuit.opened''"
| "transition_action transition.Closed = ''hermes.circuit.closed''"
| "transition_action transition.HalfOpen = ''hermes.circuit.half_open''"

record circuit_config =
  failure_threshold :: "32 word"
  recovery_timeout_ms :: "64 word"
  half_open_max :: "32 word"

text \<open>The defaults, overridden from the environment.\<close>

definition env_number :: "(string \<Rightarrow> string option) \<Rightarrow> nat \<Rightarrow> string \<Rightarrow> nat \<Rightarrow> nat" where
  "env_number env width k d = (case Option.bind (env k) (parse_unsigned width) of Some n \<Rightarrow> n | None \<Rightarrow> d)"

definition circuit_config_default :: "(string \<Rightarrow> string option) \<Rightarrow> circuit_config" where
  "circuit_config_default env = \<lparr>
     failure_threshold = of_nat (env_number env 32 ''HERMES_CIRCUIT_FAILURE_THRESHOLD'' 5),
     recovery_timeout_ms = of_nat (env_number env 64 ''HERMES_CIRCUIT_RECOVERY_MS'' 60000),
     half_open_max = of_nat (env_number env 32 ''HERMES_CIRCUIT_HALF_OPEN_MAX'' 1) \<rparr>"

record circuit_breaker =
  cb_cfg :: circuit_config
  cb_state :: "8 word"
  consecutive_failures :: "32 word"
  half_open_calls :: "32 word"
  last_failure_ms :: int
  last_success_ms :: int

definition circuit_breaker_new :: "circuit_config \<Rightarrow> circuit_breaker" where
  "circuit_breaker_new cfg = \<lparr> cb_cfg = cfg, cb_state = STATE_CLOSED, consecutive_failures = 0,
     half_open_calls = 0, last_failure_ms = 0, last_success_ms = 0 \<rparr>"

text \<open>Subtraction of \<open>i64\<close> values and the cast of a \<open>u64\<close> to \<open>i64\<close>.\<close>

definition i64_sub :: "int \<Rightarrow> int \<Rightarrow> int" where
  "i64_sub a b = sint (word_of_int (a - b) :: 64 word)"

definition recovery_i64 :: "circuit_breaker \<Rightarrow> int" where
  "recovery_i64 b = sint (recovery_timeout_ms (cb_cfg b))"

definition eta :: "circuit_breaker \<Rightarrow> int \<Rightarrow> 64 word" where
  "eta b elapsed = word_of_int (max (i64_sub (recovery_i64 b) elapsed) 0)"

definition probe :: "circuit_breaker \<Rightarrow> circuit_breaker \<times> circuit_decision" where
  "probe b =
     (let used = half_open_calls b;
          b1 = b \<lparr> half_open_calls := used + 1 \<rparr>
      in if used < half_open_max (cb_cfg b) then (b1, Allowed) else (b1, Rejected 0))"

definition decide ::
    "int \<Rightarrow> circuit_breaker \<Rightarrow> circuit_breaker \<times> circuit_decision \<times> transition option" where
  "decide now b =
     (case state_from_u8 (cb_state b) of
        Closed \<Rightarrow> (b, Allowed, None)
      | HalfOpen \<Rightarrow> (case probe b of (b1, d) \<Rightarrow> (b1, d, None))
      | Open \<Rightarrow>
          let elapsed = i64_sub now (last_failure_ms b) in
          if recovery_i64 b \<le> elapsed then
            if cb_state b = STATE_OPEN
            then (case probe (b \<lparr> cb_state := STATE_HALF_OPEN, half_open_calls := 0 \<rparr>) of
                    (b1, d) \<Rightarrow> (b1, d, Some transition.HalfOpen))
            else (case probe b of (b1, d) \<Rightarrow> (b1, d, None))
          else (b, Rejected (eta b elapsed), None))"

definition on_success :: "int \<Rightarrow> circuit_breaker \<Rightarrow> circuit_breaker \<times> transition option" where
  "on_success now b =
     (b \<lparr> last_success_ms := now, consecutive_failures := 0, half_open_calls := 0, cb_state := STATE_CLOSED \<rparr>,
      if cb_state b \<noteq> STATE_CLOSED then Some transition.Closed else None)"

definition on_failure :: "int \<Rightarrow> circuit_breaker \<Rightarrow> circuit_breaker \<times> transition option" where
  "on_failure now b =
     (let fails = consecutive_failures b + 1;
          b1 = b \<lparr> last_failure_ms := now, consecutive_failures := fails \<rparr>
      in case state_from_u8 (cb_state b1) of
           HalfOpen \<Rightarrow> (b1 \<lparr> cb_state := STATE_OPEN \<rparr>, Some Opened)
         | _ \<Rightarrow>
             if failure_threshold (cb_cfg b) \<le> fails
             then (b1 \<lparr> cb_state := STATE_OPEN \<rparr>, if cb_state b1 \<noteq> STATE_OPEN then Some Opened else None)
             else (b1, None))"

record circuit_health =
  ch_circuit_state :: string
  ch_last_success_at :: "string option"
  ch_last_failure_at :: "string option"
  ch_consecutive_failures :: "32 word"

text \<open>\<open>rfc3339\<close> is the text \<open>chrono\<close> prints for a timestamp it can represent.\<close>

definition ms_to_rfc3339 :: "(int \<Rightarrow> string option) \<Rightarrow> int \<Rightarrow> string option" where
  "ms_to_rfc3339 rfc3339 ms = (if ms \<le> 0 then None else rfc3339 ms)"

definition health :: "(int \<Rightarrow> string option) \<Rightarrow> circuit_breaker \<Rightarrow> circuit_health" where
  "health rfc3339 b = \<lparr> ch_circuit_state = state_as_str (state_from_u8 (cb_state b)),
     ch_last_success_at = ms_to_rfc3339 rfc3339 (last_success_ms b),
     ch_last_failure_at = ms_to_rfc3339 rfc3339 (last_failure_ms b),
     ch_consecutive_failures = consecutive_failures b \<rparr>"


section \<open>One atomic access at a time\<close>

datatype circuit_call = CheckCall | SuccessCall | FailureCall

datatype circuit_reply = Checked circuit_decision "transition option" | Recorded "transition option"

text \<open>Where a thread is: the constructor names the access it performs next.\<close>

datatype circuit_thread =
    Enter circuit_call
  | ReadClock
  | LoadFailure int
  | CompareExchange
  | ResetCalls
  | FetchProbe "transition option"
  | StoreSuccess int
  | StoreFailures
  | StoreCalls
  | SwapClosed
  | StoreFailure int
  | FetchFailures
  | LoadState "32 word"
  | StoreOpen
  | SwapOpen
  | Finished circuit_reply

fun atomic_step :: "int \<Rightarrow> circuit_thread \<Rightarrow> circuit_breaker \<Rightarrow> circuit_breaker \<times> circuit_thread" where
  "atomic_step now (Enter CheckCall) b =
     (b, case state_from_u8 (cb_state b) of
           Closed \<Rightarrow> Finished (Checked Allowed None)
         | HalfOpen \<Rightarrow> FetchProbe None
         | Open \<Rightarrow> ReadClock)"
| "atomic_step now ReadClock b = (b, LoadFailure now)"
| "atomic_step now (LoadFailure t) b =
     (let elapsed = i64_sub t (last_failure_ms b) in
      if recovery_i64 b \<le> elapsed then (b, CompareExchange)
      else (b, Finished (Checked (Rejected (eta b elapsed)) None)))"
| "atomic_step now CompareExchange b =
     (if cb_state b = STATE_OPEN then (b \<lparr> cb_state := STATE_HALF_OPEN \<rparr>, ResetCalls)
      else (b, FetchProbe None))"
| "atomic_step now ResetCalls b = (b \<lparr> half_open_calls := 0 \<rparr>, FetchProbe (Some transition.HalfOpen))"
| "atomic_step now (FetchProbe t) b = (case probe b of (b1, d) \<Rightarrow> (b1, Finished (Checked d t)))"
| "atomic_step now (Enter SuccessCall) b = (b, StoreSuccess now)"
| "atomic_step now (StoreSuccess t) b = (b \<lparr> last_success_ms := t \<rparr>, StoreFailures)"
| "atomic_step now StoreFailures b = (b \<lparr> consecutive_failures := 0 \<rparr>, StoreCalls)"
| "atomic_step now StoreCalls b = (b \<lparr> half_open_calls := 0 \<rparr>, SwapClosed)"
| "atomic_step now SwapClosed b =
     (b \<lparr> cb_state := STATE_CLOSED \<rparr>,
      Finished (Recorded (if cb_state b \<noteq> STATE_CLOSED then Some transition.Closed else None)))"
| "atomic_step now (Enter FailureCall) b = (b, StoreFailure now)"
| "atomic_step now (StoreFailure t) b = (b \<lparr> last_failure_ms := t \<rparr>, FetchFailures)"
| "atomic_step now FetchFailures b =
     (let fails = consecutive_failures b + 1 in (b \<lparr> consecutive_failures := fails \<rparr>, LoadState fails))"
| "atomic_step now (LoadState fails) b =
     (b, case state_from_u8 (cb_state b) of
           HalfOpen \<Rightarrow> StoreOpen
         | _ \<Rightarrow> if failure_threshold (cb_cfg b) \<le> fails then SwapOpen else Finished (Recorded None))"
| "atomic_step now StoreOpen b = (b \<lparr> cb_state := STATE_OPEN \<rparr>, Finished (Recorded (Some Opened)))"
| "atomic_step now SwapOpen b =
     (b \<lparr> cb_state := STATE_OPEN \<rparr>, Finished (Recorded (if cb_state b \<noteq> STATE_OPEN then Some Opened else None)))"
| "atomic_step now (Finished r) b = (b, Finished r)"

fun solo :: "nat \<Rightarrow> int \<Rightarrow> circuit_thread \<Rightarrow> circuit_breaker \<Rightarrow> circuit_breaker \<times> circuit_thread" where
  "solo 0 now th b = (b, th)"
| "solo (Suc n) now th b = (case atomic_step now th b of (b1, th1) \<Rightarrow> solo n now th1 b1)"

text \<open>Six accesses are enough for every method.\<close>

definition performed :: "int \<Rightarrow> circuit_call \<Rightarrow> circuit_breaker \<Rightarrow> circuit_breaker \<times> circuit_reply" where
  "performed now call b =
     (case call of
        CheckCall \<Rightarrow> (case decide now b of (b1, d, t) \<Rightarrow> (b1, Checked d t))
      | SuccessCall \<Rightarrow> (case on_success now b of (b1, t) \<Rightarrow> (b1, Recorded t))
      | FailureCall \<Rightarrow> (case on_failure now b of (b1, t) \<Rightarrow> (b1, Recorded t)))"

lemma solo_method:
  "solo 6 now (Enter call) b = (case performed now call b of (b1, r) \<Rightarrow> (b1, Finished r))"
proof (cases call)
  case CheckCall
  then show ?thesis
    by (simp add: eval_nat_numeral performed_def decide_def Let_def state_from_u8_def split: prod.split)
next
  case SuccessCall
  then show ?thesis by (simp add: eval_nat_numeral performed_def on_success_def)
next
  case FailureCall
  then show ?thesis
    by (simp add: eval_nat_numeral performed_def on_failure_def Let_def split: circuit_state.split)
qed


text \<open>
  Any number of threads on one breaker. \<open>cs_attempts\<close> and \<open>cs_granted\<close> are history variables: the probe
  counter's increments, and the probes granted, since the counter was last reset.
\<close>

record circuit_system =
  cs_breaker :: circuit_breaker
  cs_threads :: "circuit_thread list"
  cs_attempts :: nat
  cs_granted :: nat

definition fresh_circuit :: "circuit_breaker \<Rightarrow> circuit_system" where
  "fresh_circuit b = \<lparr> cs_breaker = b, cs_threads = [], cs_attempts = 0, cs_granted = 0 \<rparr>"

definition resets_calls :: "circuit_thread \<Rightarrow> bool" where
  "resets_calls th \<longleftrightarrow> th = ResetCalls \<or> th = StoreCalls"

fun is_probe :: "circuit_thread \<Rightarrow> bool" where
  "is_probe (FetchProbe _) = True"
| "is_probe _ = False"

fun is_granted :: "circuit_thread \<Rightarrow> bool" where
  "is_granted (Finished (Checked Allowed _)) = True"
| "is_granted _ = False"

definition accessed :: "nat \<Rightarrow> int \<Rightarrow> circuit_system \<Rightarrow> circuit_system" where
  "accessed i now c =
     (let th = cs_threads c ! i in
      case atomic_step now th (cs_breaker c) of (b', th') \<Rightarrow>
        \<lparr> cs_breaker = b', cs_threads = (cs_threads c) [i := th'],
          cs_attempts = (if resets_calls th then 0 else if is_probe th then Suc (cs_attempts c) else cs_attempts c),
          cs_granted = (if resets_calls th then 0 else if is_probe th \<and> is_granted th' then Suc (cs_granted c)
                        else cs_granted c) \<rparr>)"

inductive breaker_step :: "circuit_system \<Rightarrow> circuit_system \<Rightarrow> bool" where
  start: "breaker_step c (c \<lparr> cs_threads := cs_threads c @ [Enter call] \<rparr>)"
| access: "i < length (cs_threads c) \<Longrightarrow> breaker_step c (accessed i now c)"


section \<open>The registry\<close>

text \<open>
  The breakers of all providers, created on first use, and the posts queued for the Axon mirror;
  \<open>cw_rest\<close> is the rest of the process.
\<close>

record 'x circuit_world =
  cw_breakers :: "(string \<times> circuit_breaker) list"
  cw_posts :: "(string \<times> json) list"
  cw_rest :: 'x

record circuit_registry =
  cr_cfg :: circuit_config
  cr_axon_url :: "string option"

definition breaker :: "circuit_registry \<Rightarrow> string \<Rightarrow> 'x circuit_world \<Rightarrow> circuit_breaker" where
  "breaker R provider w =
     (case map_of (cw_breakers w) provider of Some b \<Rightarrow> b | None \<Rightarrow> circuit_breaker_new (cr_cfg R))"

definition trim_end_slashes :: "string \<Rightarrow> string" where
  "trim_end_slashes s = rev (dropWhile (\<lambda>c. c = CHR ''/'') (rev s))"

definition publish :: "circuit_registry \<Rightarrow> string \<Rightarrow> transition \<Rightarrow> 'x circuit_world \<Rightarrow> 'x circuit_world" where
  "publish R provider t w =
     (case cr_axon_url R of
        None \<Rightarrow> w
      | Some axon_url \<Rightarrow> w \<lparr> cw_posts := cw_posts w @
          [(trim_end_slashes axon_url @ ''/axon/publish'',
            JObject (btree_collect [(''channel'', JString ''hermes.circuit''),
              (''action'', JString (transition_action t)),
              (''payload'', JObject [(''provider'', JString provider)]),
              (''source'', JString ''hermes'')]))] \<rparr>)"

definition publish_opt ::
    "circuit_registry \<Rightarrow> string \<Rightarrow> transition option \<Rightarrow> 'x circuit_world \<Rightarrow> 'x circuit_world" where
  "publish_opt R provider m w = (case m of Some t \<Rightarrow> publish R provider t w | None \<Rightarrow> w)"

definition put_breaker :: "string \<Rightarrow> circuit_breaker \<Rightarrow> 'x circuit_world \<Rightarrow> 'x circuit_world" where
  "put_breaker provider b w = w \<lparr> cw_breakers := AList.update provider b (cw_breakers w) \<rparr>"

definition check :: "int \<Rightarrow> circuit_registry \<Rightarrow> string \<Rightarrow> 'x circuit_world \<Rightarrow> 'x circuit_world \<times> circuit_decision" where
  "check now R provider w =
     (case decide now (breaker R provider w) of
        (b, decision, t) \<Rightarrow> (publish_opt R provider t (put_breaker provider b w), decision))"

definition record_success :: "int \<Rightarrow> circuit_registry \<Rightarrow> string \<Rightarrow> 'x circuit_world \<Rightarrow> 'x circuit_world" where
  "record_success now R provider w =
     (case on_success now (breaker R provider w) of (b, t) \<Rightarrow> publish_opt R provider t (put_breaker provider b w))"

definition record_failure :: "int \<Rightarrow> circuit_registry \<Rightarrow> string \<Rightarrow> 'x circuit_world \<Rightarrow> 'x circuit_world" where
  "record_failure now R provider w =
     (case on_failure now (breaker R provider w) of (b, t) \<Rightarrow> publish_opt R provider t (put_breaker provider b w))"

definition registry_health ::
    "(int \<Rightarrow> string option) \<Rightarrow> circuit_registry \<Rightarrow> string \<Rightarrow> 'x circuit_world \<Rightarrow> 'x circuit_world \<times> circuit_health" where
  "registry_health rfc3339 R provider w =
     (let b = breaker R provider w in (put_breaker provider b w, health rfc3339 b))"

definition open_count :: "'x circuit_world \<Rightarrow> nat" where
  "open_count w = length (filter (\<lambda>(_, b). state_from_u8 (cb_state b) = Open) (cw_breakers w))"


section \<open>Invoking a tool through its breaker\<close>

record 's tool =
  tl_schema :: tool_schema
  tl_provider :: string
  tl_invoke :: "invoke_request \<Rightarrow> 's \<Rightarrow> 's \<times> invoke_response \<times> 32 word"

definition ends_with :: "string \<Rightarrow> string \<Rightarrow> bool" where
  "ends_with s t = suffix t s"

definition is_provider_failure :: "invoke_response \<Rightarrow> bool" where
  "is_provider_failure resp =
     (case ir_error resp of
        None \<Rightarrow> False
      | Some err \<Rightarrow>
          let code = (case Option.bind (json_get err ''code'') as_str of Some t \<Rightarrow> t | None \<Rightarrow> [])
          in if ends_with code ''_unreachable'' then True
             else (case Option.bind (json_get err ''status'') as_u64 of Some n \<Rightarrow> 500 \<le> n | None \<Rightarrow> False))"

definition validation_error_response :: "string \<Rightarrow> field_error list \<Rightarrow> invoke_response" where
  "validation_error_response tool_id errors =
     \<lparr> ir_tool_id = tool_id, ir_success = False, ir_result = None,
       ir_error = Some (JObject (btree_collect [(''code'', JString ''validation_failed''),
         (''message'', JString ''input arguments failed schema validation''),
         (''errors'', JArray (map (\<lambda>e. JObject [(''field'', JString (fe_field e)), (''message'', JString (fe_message e))]) errors))])),
       ir_duration_ms = 0 \<rparr>"

definition circuit_open_response :: "string \<Rightarrow> string \<Rightarrow> 64 word \<Rightarrow> invoke_response" where
  "circuit_open_response tool_id provider recovery_eta_ms =
     \<lparr> ir_tool_id = tool_id, ir_success = False, ir_result = None,
       ir_error = Some (JObject (btree_collect [(''code'', JString ''circuit_open''),
         (''message'', JString (''circuit open for provider '' @ quoted provider @ ''; upstream temporarily unavailable'')),
         (''provider'', JString provider),
         (''recovery_eta_ms'', JNumber (PosInt (unat recovery_eta_ms)))])),
       ir_duration_ms = 0 \<rparr>"

definition invoke_with_circuit ::
    "serde \<Rightarrow> ('x circuit_world \<Rightarrow> int) \<Rightarrow> circuit_registry \<Rightarrow> 'x circuit_world tool \<Rightarrow> string \<Rightarrow> invoke_request \<Rightarrow>
     'x circuit_world \<Rightarrow> 'x circuit_world \<times> invoke_response \<times> 32 word" where
  "invoke_with_circuit S clock R tool tool_id req w =
     (case validate S (sc_input_schema (tl_schema tool)) (iq_args req) of
        Inl errors \<Rightarrow> (w, validation_error_response tool_id errors, 0)
      | Inr _ \<Rightarrow>
      case check (clock w) R (tl_provider tool) w of
        (w1, Rejected recovery_eta_ms) \<Rightarrow> (w1, circuit_open_response tool_id (tl_provider tool) recovery_eta_ms, 0)
      | (w1, Allowed) \<Rightarrow>
          (case tl_invoke tool req w1 of (w2, resp, retries) \<Rightarrow>
             (if ir_success resp then record_success (clock w2) R (tl_provider tool) w2
              else if is_provider_failure resp then record_failure (clock w2) R (tl_provider tool) w2
              else w2, resp, retries)))"


section \<open>The contract of a breaker\<close>

text \<open>
  What a breaker promises, without cells and widths: healthy with a number of consecutive failures,
  tripped at some time, or probing with a number of calls that asked.
\<close>

datatype breaker_view = Healthy nat | Tripped int | Probing nat

definition view :: "circuit_breaker \<Rightarrow> breaker_view" where
  "view b = (case state_from_u8 (cb_state b) of
     Closed \<Rightarrow> Healthy (unat (consecutive_failures b))
   | Open \<Rightarrow> Tripped (last_failure_ms b)
   | HalfOpen \<Rightarrow> Probing (unat (half_open_calls b)))"

fun promised :: "circuit_config \<Rightarrow> int \<times> circuit_call \<Rightarrow> breaker_view \<Rightarrow> breaker_view \<times> circuit_reply" where
  "promised cfg (now, CheckCall) (Healthy n) = (Healthy n, Checked Allowed None)"
| "promised cfg (now, CheckCall) (Tripped since) =
     (if uint (recovery_timeout_ms cfg) \<le> now - since
      then (Probing 1, Checked (if 0 < unat (half_open_max cfg) then Allowed else Rejected 0) (Some transition.HalfOpen))
      else (Tripped since, Checked (Rejected (word_of_int (since + uint (recovery_timeout_ms cfg) - now))) None))"
| "promised cfg (now, CheckCall) (Probing k) =
     (Probing (Suc k), Checked (if k < unat (half_open_max cfg) then Allowed else Rejected 0) None)"
| "promised cfg (now, SuccessCall) v =
     (Healthy 0, Recorded (case v of Healthy _ \<Rightarrow> None | _ \<Rightarrow> Some transition.Closed))"
| "promised cfg (now, FailureCall) (Healthy n) =
     (if unat (failure_threshold cfg) \<le> Suc n then (Tripped now, Recorded (Some Opened))
      else (Healthy (Suc n), Recorded None))"
| "promised cfg (now, FailureCall) (Tripped since) = (Tripped now, Recorded None)"
| "promised cfg (now, FailureCall) (Probing k) = (Tripped now, Recorded (Some Opened))"

text \<open>Times are milliseconds since the epoch; the recovery time is below 2^62.\<close>

definition plausible_time :: "int \<Rightarrow> bool" where
  "plausible_time t \<longleftrightarrow> 0 \<le> t \<and> t < 2 ^ 62"

definition plausible_call :: "int \<times> circuit_call \<Rightarrow> bool" where
  "plausible_call x \<longleftrightarrow> plausible_time (fst x)"

definition breaker_inv :: "circuit_config \<Rightarrow> nat \<Rightarrow> circuit_breaker \<Rightarrow> bool" where
  "breaker_inv cfg n b \<longleftrightarrow> cb_cfg b = cfg \<and> uint (recovery_timeout_ms cfg) < 2 ^ 62 \<and>
     plausible_time (last_failure_ms b) \<and> cb_state b \<in> {STATE_CLOSED, STATE_OPEN, STATE_HALF_OPEN} \<and>
     unat (consecutive_failures b) \<le> n \<and> unat (half_open_calls b) \<le> n"

lemmas state_bytes = STATE_CLOSED_def STATE_OPEN_def STATE_HALF_OPEN_def

lemma state_from_u8_simps [simp]:
  "state_from_u8 STATE_CLOSED = Closed" "state_from_u8 STATE_OPEN = Open" "state_from_u8 STATE_HALF_OPEN = HalfOpen"
  "STATE_OPEN \<noteq> STATE_CLOSED" "STATE_CLOSED \<noteq> STATE_OPEN" "STATE_HALF_OPEN \<noteq> STATE_CLOSED"
  "STATE_CLOSED \<noteq> STATE_HALF_OPEN" "STATE_HALF_OPEN \<noteq> STATE_OPEN" "STATE_OPEN \<noteq> STATE_HALF_OPEN"
  by (simp_all add: state_from_u8_def state_bytes)

lemma i64_sub_exact: "i64_range (a - b) \<Longrightarrow> i64_sub a b = a - b"
  unfolding i64_sub_def i64_range_def sint_sbintrunc' by (rule signed_take_bit_int_eq_self) simp_all

lemma recovery_exact:
  assumes "uint (w :: 64 word) < 2 ^ 62" shows "sint w = uint w"
proof -
  have "- (2 ^ 63) \<le> uint w" by (rule order.trans [OF _ uint_ge_0]) simp
  then have "signed_take_bit 63 (uint w) = uint w"
    using assms by (intro signed_take_bit_int_eq_self) simp_all
  then show ?thesis by (simp add: sint_uint)
qed

lemma unat_Suc32:
  assumes "unat (w :: 32 word) \<le> n" "n < 2 ^ 32 - 1" shows "unat (w + 1) = Suc (unat w)"
  using assms by (subst unat_add_lem [THEN iffD1]) auto


definition circuit_op :: "int \<times> circuit_call \<Rightarrow> circuit_breaker \<Rightarrow> circuit_breaker \<times> circuit_reply" where
  "circuit_op x b = performed (fst x) (snd x) b"

lemma probe_refines:
  assumes "unat (half_open_calls b) < 2 ^ 32 - 1" "cb_state b = STATE_HALF_OPEN"
  shows "probe b = (b1, d) \<Longrightarrow> view b1 = Probing (Suc (unat (half_open_calls b))) \<and>
    d = (if unat (half_open_calls b) < unat (half_open_max (cb_cfg b)) then Allowed else Rejected 0)"
  using assms unat_Suc32 [of "half_open_calls b" "unat (half_open_calls b)"]
  by (auto simp: probe_def view_def Let_def word_less_nat_alt split: if_splits)

lemma check_refines:
  assumes "breaker_inv cfg n b" "plausible_time now" "n < 2 ^ 32 - 1"
  shows "promised cfg (now, CheckCall) (view b) = map_prod view id (performed now CheckCall b)"
proof -
  have cfg: "cb_cfg b = cfg" "unat (half_open_calls b) < 2 ^ 32 - 1" using assms by (auto simp: breaker_inv_def)
  consider "cb_state b = STATE_CLOSED" | "cb_state b = STATE_OPEN" | "cb_state b = STATE_HALF_OPEN"
    using assms(1) by (auto simp: breaker_inv_def)
  then show ?thesis
  proof cases
    case 1
    then show ?thesis by (simp add: performed_def decide_def view_def)
  next
    case 2
    let ?elapsed = "now - last_failure_ms b" and ?rec = "uint (recovery_timeout_ms cfg)"
    have r: "?rec < 2 ^ 62" "0 \<le> ?rec" "0 \<le> now" "now < 2 ^ 62" "0 \<le> last_failure_ms b" "last_failure_ms b < 2 ^ 62"
      using assms by (auto simp: breaker_inv_def plausible_time_def)
    have e: "i64_sub now (last_failure_ms b) = ?elapsed" using r by (intro i64_sub_exact) (simp add: i64_range_def)
    have rec: "recovery_i64 b = ?rec" using r cfg by (simp add: recovery_i64_def recovery_exact)
    have eta: "eta b ?elapsed = word_of_int (last_failure_ms b + ?rec - now)" if "\<not> ?rec \<le> ?elapsed"
    proof -
      have range: "i64_range (a - (c - d))"
        if "0 \<le> a" "a < 2 ^ 62" "0 \<le> c" "c < 2 ^ 62" "0 \<le> d" "d < 2 ^ 62" for a c d
        using that by (simp add: i64_range_def)
      have "i64_sub ?rec ?elapsed = ?rec - ?elapsed"
        by (rule i64_sub_exact) (rule range [OF r(2,1,3-6)])
      moreover have "max (?rec - ?elapsed) 0 = last_failure_ms b + ?rec - now" using that by simp
      ultimately show ?thesis by (simp only: eta_def rec)
    qed
    let ?b = "b \<lparr> cb_state := STATE_HALF_OPEN, half_open_calls := 0 \<rparr>"
    obtain b1 d where p: "probe ?b = (b1, d)" by (cases "probe ?b")
    have "view b1 = Probing 1 \<and> d = (if 0 < unat (half_open_max cfg) then Allowed else Rejected 0)"
      using probe_refines [OF _ _ p] cfg by simp
    then show ?thesis using 2 p eta by (simp add: performed_def decide_def e rec Let_def view_def)
  next
    case 3
    obtain b1 d where p: "probe b = (b1, d)" by (cases "probe b")
    from probe_refines [OF cfg(2) 3 p] 3 cfg(1) p show ?thesis
      by (simp add: performed_def decide_def) (simp add: view_def)
  qed
qed

lemma failure_refines:
  assumes "breaker_inv cfg n b" "plausible_time now" "n < 2 ^ 32 - 1"
  shows "promised cfg (now, FailureCall) (view b) = map_prod view id (performed now FailureCall b)"
proof -
  have add: "unat (consecutive_failures b + 1) = Suc (unat (consecutive_failures b))"
    using assms by (intro unat_Suc32 [of _ n]) (simp_all add: breaker_inv_def)
  consider "cb_state b = STATE_CLOSED" | "cb_state b = STATE_OPEN" | "cb_state b = STATE_HALF_OPEN"
    using assms(1) by (auto simp: breaker_inv_def)
  then show ?thesis
    by cases (use add assms(1) in \<open>simp_all add: breaker_inv_def performed_def on_failure_def Let_def view_def word_le_nat_alt\<close>)
qed

lemma circuit_op_refines:
  assumes "breaker_inv cfg n b" "plausible_call x" "n < 2 ^ 32 - 1"
  shows "promised cfg x (view b) = map_prod view id (circuit_op x b)"
proof (cases x)
  case (Pair now call)
  show ?thesis
  proof (cases call)
    case SuccessCall
    then show ?thesis
      using assms(1) Pair by (auto simp: circuit_op_def performed_def on_success_def view_def breaker_inv_def)
  qed (use assms Pair in \<open>simp_all add: circuit_op_def plausible_call_def check_refines failure_refines\<close>)
qed

lemma probe_keeps: "probe b = (b1, d) \<Longrightarrow> b1 = b \<lparr> half_open_calls := half_open_calls b + 1 \<rparr>"
  by (auto simp: probe_def Let_def split: if_splits)

lemma circuit_op_inv:
  assumes "breaker_inv cfg n b" "plausible_call x" "n < 2 ^ 32 - 1"
  shows "breaker_inv cfg (Suc n) (fst (circuit_op x b))"
proof -
  have w: "unat (consecutive_failures b + 1) \<le> Suc n" "unat (half_open_calls b + 1) \<le> Suc n"
    using assms unat_Suc32 [of "consecutive_failures b" n] unat_Suc32 [of "half_open_calls b" n]
    by (auto simp: breaker_inv_def)
  have "unat (1 :: 32 word) \<le> Suc n" by simp
  with w assms show ?thesis
    by (cases "snd x")
      (auto simp: breaker_inv_def circuit_op_def performed_def decide_def on_success_def on_failure_def Let_def
        plausible_call_def dest!: probe_keeps split: prod.splits circuit_state.splits)
qed

interpretation circuit_contract: refining_store circuit_op "promised cfg" view plausible_call "breaker_inv cfg" "2 ^ 32 - 1"
  for cfg
  by unfold_locales (rule circuit_op_inv circuit_op_refines; assumption)+

lemma breaker_inv_new: "uint (recovery_timeout_ms cfg) < 2 ^ 62 \<Longrightarrow> breaker_inv cfg 0 (circuit_breaker_new cfg)"
  by (simp add: breaker_inv_def circuit_breaker_new_def plausible_time_def)

text \<open>
  Property C39. A breaker keeps its contract when its calls come one after the other (each check or report
  ends before the next begins; \<open>probe_race\<close> shows two that overlap) and its recovery time is below 2^62 ms
  (from 2^63 on the conversion to \<open>i64\<close> turns negative): over any sequence of fewer than 2^32 checks, successes
  and failures at times between 0 and 2^62 ms, a new breaker gives exactly the answers and reports exactly the
  transitions of the abstract breaker, which counts consecutive failures, trips at the threshold,
  stays tripped for the recovery time with the exact time left, and then admits the configured
  number of probes until one of them succeeds or fails.
\<close>

theorem circuit_refines_contract:
  assumes "uint (recovery_timeout_ms cfg) < 2 ^ 62" and "list_all plausible_call ops" and "length ops < 2 ^ 32"
  shows "run (promised cfg) ops (Healthy 0) =
    map_prod view id (run circuit_op ops (circuit_breaker_new cfg))"
proof -
  have "view (circuit_breaker_new cfg) = Healthy 0" by (simp add: view_def circuit_breaker_new_def)
  then show ?thesis
    using circuit_contract.run_refines [OF breaker_inv_new [OF assms(1)] assms(2)] assms(3) by simp
qed


section \<open>Interleaved callers\<close>

lemma atomic_step_calls:
  "atomic_step now th b = (b', th') \<Longrightarrow> cb_cfg b' = cb_cfg b \<and>
     half_open_calls b' = (if resets_calls th then 0 else if is_probe th then half_open_calls b + 1 else half_open_calls b) \<and>
     (is_probe th \<longrightarrow> is_granted th' = (half_open_calls b < half_open_max (cb_cfg b)))"
  by (induction now th b rule: atomic_step.induct)
    (auto simp: resets_calls_def probe_def Let_def split: if_splits)

text \<open>How many of \<open>a\<close> probes are granted by a counter of 32 bits with limit \<open>m\<close>.\<close>

definition grants_of :: "nat \<Rightarrow> nat \<Rightarrow> nat" where
  "grants_of m a = m * (a div 2 ^ 32) + min (a mod 2 ^ 32) m"

lemma grants_of_0 [simp]: "grants_of m 0 = 0"
  by (simp add: grants_of_def)

lemma grants_of_Suc:
  "m < 2 ^ 32 \<Longrightarrow> grants_of m (Suc a) = (if a mod 2 ^ 32 < m then Suc (grants_of m a) else grants_of m a)"
  by (simp add: grants_of_def div_Suc mod_Suc)

definition probes_counted :: "circuit_config \<Rightarrow> circuit_system \<Rightarrow> bool" where
  "probes_counted cfg c \<longleftrightarrow> cb_cfg (cs_breaker c) = cfg \<and> half_open_calls (cs_breaker c) = of_nat (cs_attempts c) \<and>
     cs_granted c = grants_of (unat (half_open_max cfg)) (cs_attempts c)"

lemma breaker_step_counted: "breaker_step c c' \<Longrightarrow> probes_counted cfg c \<Longrightarrow> probes_counted cfg c'"
proof (induction rule: breaker_step.induct)
  case (start c call)
  then show ?case by (simp add: probes_counted_def)
next
  case (access i c now)
  let ?m = "unat (half_open_max cfg)" and ?th = "cs_threads c ! i"
  obtain b' th' where st: "atomic_step now ?th (cs_breaker c) = (b', th')" by (cases "atomic_step now ?th (cs_breaker c)")
  have m: "?m < 2 ^ 32" using unsigned_less [of "half_open_max cfg", where 'a = nat] by simp
  have "half_open_calls (cs_breaker c) < half_open_max cfg \<longleftrightarrow> cs_attempts c mod 2 ^ 32 < ?m"
    using access.prems by (simp add: probes_counted_def word_less_nat_alt unat_of_nat)
  then show ?case
    using access.prems atomic_step_calls [OF st] grants_of_Suc [OF m, of "cs_attempts c"] st
    by (auto simp: probes_counted_def accessed_def Let_def add.commute)
qed

text \<open>
  However the threads of a provider interleave, the probes granted since the counter
  was last reset are counted exactly: the configured maximum is never exceeded before the 32-bit
  counter of attempts wraps, and after a wrap at most that many more are granted per cycle.
\<close>

theorem probes_bounded:
  assumes "breaker_step\<^sup>*\<^sup>* (fresh_circuit (circuit_breaker_new cfg)) c"
  shows "cs_granted c = grants_of (unat (half_open_max cfg)) (cs_attempts c) \<and>
    (cs_attempts c < 2 ^ 32 \<longrightarrow> cs_granted c \<le> unat (half_open_max cfg))"
proof -
  have "probes_counted cfg (fresh_circuit (circuit_breaker_new cfg))"
    by (simp add: probes_counted_def fresh_circuit_def circuit_breaker_new_def)
  with assms have "probes_counted cfg c"
    by (induction rule: rtranclp_induct) (auto intro: breaker_step_counted)
  then show ?thesis by (simp add: probes_counted_def grants_of_def)
qed

text \<open>Running a schedule of accesses: thread number and clock of each.\<close>

fun schedule :: "(nat \<times> int) list \<Rightarrow> circuit_system \<Rightarrow> circuit_system" where
  "schedule [] c = c"
| "schedule ((i, now) # xs) c = (if i < length (cs_threads c) then schedule xs (accessed i now c) else c)"

lemma schedule_reachable: "breaker_step\<^sup>*\<^sup>* c (schedule xs c)"
proof (induction xs arbitrary: c)
  case (Cons x xs)
  show ?case
  proof (cases "fst x < length (cs_threads c)")
    case True
    then have "breaker_step c (accessed (fst x) (snd x) c)" by (rule breaker_step.access)
    then show ?thesis
      using Cons.IH [of "accessed (fst x) (snd x) c"] True by (cases x) (simp add: converse_rtranclp_into_rtranclp)
  qed (cases x; simp)
qed simp

lemma spawn_reachable: "breaker_step\<^sup>*\<^sup>* c (c \<lparr> cs_threads := cs_threads c @ map Enter calls \<rparr>)"
proof (induction calls rule: rev_induct)
  case (snoc call calls)
  then show ?case
    using rtranclp.rtrancl_into_rtrancl [OF snoc breaker_step.start [of _ call]] by simp
qed simp

text \<open>The breaker and the threads alone, without the history variables.\<close>

fun play :: "(nat \<times> int) list \<Rightarrow> circuit_breaker \<times> circuit_thread list \<Rightarrow> circuit_breaker \<times> circuit_thread list" where
  "play [] p = p"
| "play ((i, now) # xs) (b, ths) =
     (if i < length ths then case atomic_step now (ths ! i) b of (b', th') \<Rightarrow> play xs (b', ths [i := th'])
      else (b, ths))"

lemma play_schedule:
  "play xs (cs_breaker c, cs_threads c) = (cs_breaker (schedule xs c), cs_threads (schedule xs c))"
proof (induction xs arbitrary: c)
  case (Cons x xs)
  obtain i now where x: "x = (i, now)" by (cases x)
  show ?case
    using Cons.IH [of "accessed i now c"]
    by (cases "atomic_step now (cs_threads c ! i) (cs_breaker c)") (simp add: x accessed_def Let_def)
qed simp

lemma recovery_const [simp]:
  "recovery_i64 (b \<lparr> cb_state := x \<rparr>) = recovery_i64 b" "recovery_i64 (b \<lparr> half_open_calls := y \<rparr>) = recovery_i64 b"
  by (simp_all add: recovery_i64_def)

text \<open>
  A tripped breaker can admit one probe too many: when its recovery time is over, two
  checks can be scheduled so that both are admitted although the maximum is one, because the
  counter is reset after the state was switched and not together with it.
\<close>

theorem probe_race:
  assumes "cb_state b = STATE_OPEN" and "half_open_max (cb_cfg b) = 1" and "half_open_calls b = 0"
    and "recovery_i64 b \<le> i64_sub now (last_failure_ms b)"
  shows "\<exists>c. breaker_step\<^sup>*\<^sup>* (fresh_circuit b) c \<and> cb_state (cs_breaker c) = STATE_HALF_OPEN \<and>
    cs_threads c = [Finished (Checked Allowed (Some transition.HalfOpen)), Finished (Checked Allowed None)]"
proof -
  let ?c = "(fresh_circuit b) \<lparr> cs_threads := map Enter [CheckCall, CheckCall] \<rparr>"
  let ?xs = "[(0, now), (0, now), (0, now), (0, now), (1, now), (1, now), (0, now), (0, now)]"
  let ?s = "schedule ?xs ?c"
  have "breaker_step\<^sup>*\<^sup>* (fresh_circuit b) ?c"
    using spawn_reachable [of "fresh_circuit b" "[CheckCall, CheckCall]"] by (simp add: fresh_circuit_def)
  then have "breaker_step\<^sup>*\<^sup>* (fresh_circuit b) ?s" using schedule_reachable by (rule rtranclp_trans)
  moreover have "\<exists>b'. cb_state b' = STATE_HALF_OPEN \<and> play ?xs (b, [Enter CheckCall, Enter CheckCall]) =
      (b', [Finished (Checked Allowed (Some transition.HalfOpen)), Finished (Checked Allowed None)])"
    using assms by (simp add: probe_def)
  ultimately show ?thesis
    using play_schedule [of ?xs ?c] by (fastforce simp: fresh_circuit_def)
qed

text \<open>A thread that runs alone performs its method: the one-function form that the registry uses.\<close>

lemma solo_play: "play (replicate n (0, now)) (b, [th]) = map_prod id (\<lambda>th. [th]) (solo n now th b)"
proof (induction n arbitrary: b th)
  case (Suc n)
  then show ?case by (cases "atomic_step now th b") simp
qed simp


section \<open>Invocations\<close>

lemma breaker_put [simp]:
  "breaker R p (put_breaker p b w) = b" "p \<noteq> q \<Longrightarrow> breaker R q (put_breaker p b w) = breaker R q w"
  by (simp_all add: breaker_def put_breaker_def update_conv')

lemma publish_keeps [simp]:
  "breaker R q (publish_opt R p t w) = breaker R q w" "cw_rest (publish_opt R p t w) = cw_rest w"
  "cw_rest (put_breaker p b w) = cw_rest w"
  by (auto simp: publish_opt_def publish_def breaker_def put_breaker_def split: option.splits)

lemma check_spec:
  "check now R p w = (w', d) \<Longrightarrow> \<exists>t. decide now (breaker R p w) = (breaker R p w', d, t) \<and> cw_rest w' = cw_rest w \<and>
     (\<forall>q. q \<noteq> p \<longrightarrow> breaker R q w' = breaker R q w)"
  by (auto simp: check_def split: prod.splits)

text \<open>
  An invocation follows the breaker's verdict: arguments that violate the schema are
  refused before the breaker is asked; a rejected call answers \<open>circuit_open\<close> with the breaker's
  estimate and leaves the rest of the process alone, the tool included; an admitted call runs the
  tool once and afterwards counts a success, counts a failure only when the provider is at fault,
  and records nothing for an error of the client.
\<close>

theorem invocation_contract:
  "case validate S (sc_input_schema (tl_schema tool)) (iq_args req) of
     Inl errors \<Rightarrow> invoke_with_circuit S clock R tool tool_id req w = (w, validation_error_response tool_id errors, 0)
   | Inr _ \<Rightarrow>
     (let provider = tl_provider tool; (w1, d) = check (clock w) R provider w;
          (w', resp, retries) = invoke_with_circuit S clock R tool tool_id req w
      in case d of
           Rejected e \<Rightarrow> w' = w1 \<and> cw_rest w' = cw_rest w \<and> resp = circuit_open_response tool_id provider e \<and> retries = 0
         | Allowed \<Rightarrow> \<exists>w2. tl_invoke tool req w1 = (w2, resp, retries) \<and> cw_rest w' = cw_rest w2 \<and>
             (\<forall>q. q \<noteq> provider \<longrightarrow> breaker R q w' = breaker R q w2) \<and>
             breaker R provider w' =
               (if ir_success resp then fst (on_success (clock w2) (breaker R provider w2))
                else if is_provider_failure resp then fst (on_failure (clock w2) (breaker R provider w2))
                else breaker R provider w2))"
proof (cases "validate S (sc_input_schema (tl_schema tool)) (iq_args req)")
  case (Inl errors)
  then show ?thesis by (simp add: invoke_with_circuit_def)
next
  case (Inr u)
  obtain w1 d where c: "check (clock w) R (tl_provider tool) w = (w1, d)" by (cases "check (clock w) R (tl_provider tool) w")
  obtain w2 resp retries where i: "tl_invoke tool req w1 = (w2, resp, retries)" by (metis prod_cases3)
  show ?thesis
    using Inr c i check_spec [OF c]
    by (cases d) (auto simp: invoke_with_circuit_def record_success_def record_failure_def Let_def split: prod.splits)
qed

text \<open>A sequence of invocations of tools of one provider.\<close>

fun invoke_all ::
    "serde \<Rightarrow> ('x circuit_world \<Rightarrow> int) \<Rightarrow> circuit_registry \<Rightarrow> ('x circuit_world tool \<times> string \<times> invoke_request) list \<Rightarrow>
     'x circuit_world \<Rightarrow> 'x circuit_world \<times> invoke_response list" where
  "invoke_all S clock R [] w = (w, [])"
| "invoke_all S clock R ((tool, tool_id, req) # xs) w =
     (case invoke_with_circuit S clock R tool tool_id req w of (w1, resp, _) \<Rightarrow>
      case invoke_all S clock R xs w1 of (w2, resps) \<Rightarrow> (w2, resp # resps))"

lemma spent_probes_reject:
  assumes "cb_state b = STATE_HALF_OPEN" "unat (half_open_max (cb_cfg b)) \<le> unat (half_open_calls b)"
    and "unat (half_open_calls b) < 2 ^ 32 - 1"
  shows "\<exists>b'. decide now b = (b', Rejected 0, None) \<and> cb_state b' = STATE_HALF_OPEN \<and> cb_cfg b' = cb_cfg b \<and>
    unat (half_open_calls b') = Suc (unat (half_open_calls b))"
  using assms unat_Suc32 [of "half_open_calls b" "unat (half_open_calls b)"]
  by (auto simp: decide_def probe_def Let_def word_less_nat_alt)

lemma locked_out:
  assumes "cb_state (breaker R p w) = STATE_HALF_OPEN"
    and "unat (half_open_max (cb_cfg (breaker R p w))) \<le> unat (half_open_calls (breaker R p w))"
    and "unat (half_open_calls (breaker R p w)) + length xs < 2 ^ 32"
    and "\<forall>(tool, tool_id, req) \<in> set xs. tl_provider tool = p \<and>
      validate S (sc_input_schema (tl_schema tool)) (iq_args req) = Inr ()"
  shows "snd (invoke_all S clock R xs w) = map (\<lambda>(_, tool_id, _). circuit_open_response tool_id p 0) xs \<and>
    cw_rest (fst (invoke_all S clock R xs w)) = cw_rest w \<and>
    cb_state (breaker R p (fst (invoke_all S clock R xs w))) = STATE_HALF_OPEN"
  using assms
proof (induction xs arbitrary: w)
  case (Cons x xs)
  obtain tool tool_id req where x: "x = (tool, tool_id, req)" by (cases x)
  obtain w1 d where c: "check (clock w) R p w = (w1, d)" by (cases "check (clock w) R p w")
  obtain b' where b': "decide (clock w) (breaker R p w) = (b', Rejected 0, None)" "cb_state b' = STATE_HALF_OPEN"
    "cb_cfg b' = cb_cfg (breaker R p w)" "unat (half_open_calls b') = Suc (unat (half_open_calls (breaker R p w)))"
    using spent_probes_reject [of "breaker R p w" "clock w"] Cons.prems(1-3) by auto
  have w1: "breaker R p w1 = b'" "d = Rejected 0" "cw_rest w1 = cw_rest w"
    using check_spec [OF c] b'(1) by auto
  have inv: "invoke_with_circuit S clock R tool tool_id req w = (w1, circuit_open_response tool_id p 0, 0)"
    using Cons.prems(4) c w1(2) by (simp add: x invoke_with_circuit_def)
  have "snd (invoke_all S clock R xs w1) = map (\<lambda>(_, tool_id, _). circuit_open_response tool_id p 0) xs \<and>
    cw_rest (fst (invoke_all S clock R xs w1)) = cw_rest w1 \<and>
    cb_state (breaker R p (fst (invoke_all S clock R xs w1))) = STATE_HALF_OPEN"
    by (rule Cons.IH) (use Cons.prems b' in \<open>simp_all add: w1\<close>)
  then show ?case using inv w1(3) by (simp add: x split_def)
qed simp

text \<open>
  A client error during recovery locks the provider out: when the recovery time of a
  tripped breaker that admits one probe is over, and the probe is answered with an error that is
  not the provider's fault, nothing is recorded, the probe is never given back, and every one of
  the next billions of calls is refused with \<open>circuit_open\<close> without running a tool, however much time
  passes.
\<close>

theorem client_error_locks_provider_out:
  assumes "cb_state (breaker R p w) = STATE_OPEN" and "half_open_max (cb_cfg (breaker R p w)) = 1"
    and "recovery_i64 (breaker R p w) \<le> i64_sub (clock w) (last_failure_ms (breaker R p w))"
    and "tl_provider tool = p" and "validate S (sc_input_schema (tl_schema tool)) (iq_args req) = Inr ()"
    and "\<And>v. tl_invoke tool req v = (v, resp, retries)" and "\<not> ir_success resp" and "\<not> is_provider_failure resp"
    and "length xs < 2 ^ 32 - 1"
    and "\<forall>(tool, tool_id, req) \<in> set xs. tl_provider tool = p \<and>
      validate S (sc_input_schema (tl_schema tool)) (iq_args req) = Inr ()"
  shows "\<exists>w'. invoke_with_circuit S clock R tool tool_id req w = (w', resp, retries) \<and>
    snd (invoke_all S clock R xs w') = map (\<lambda>(_, tool_id, _). circuit_open_response tool_id p 0) xs \<and>
    cw_rest (fst (invoke_all S clock R xs w')) = cw_rest w"
proof -
  let ?b = "breaker R p w"
  let ?b' = "?b \<lparr> cb_state := STATE_HALF_OPEN, half_open_calls := 1 \<rparr>"
  obtain w1 d where c: "check (clock w) R p w = (w1, d)" by (cases "check (clock w) R p w")
  have "decide (clock w) ?b = (?b', Allowed, Some transition.HalfOpen)"
    using assms(1-3) by (simp add: decide_def probe_def Let_def)
  then have w1: "breaker R p w1 = ?b'" "d = Allowed" "cw_rest w1 = cw_rest w" using check_spec [OF c] by auto
  have "invoke_with_circuit S clock R tool tool_id req w = (w1, resp, retries)"
    using assms(4-8) c w1(2) by (simp add: invoke_with_circuit_def)
  moreover have "snd (invoke_all S clock R xs w1) = map (\<lambda>(_, tool_id, _). circuit_open_response tool_id p 0) xs \<and>
    cw_rest (fst (invoke_all S clock R xs w1)) = cw_rest w1 \<and>
    cb_state (breaker R p (fst (invoke_all S clock R xs w1))) = STATE_HALF_OPEN"
    by (rule locked_out) (use assms(2,9,10) in \<open>simp_all add: w1\<close>)
  ultimately show ?thesis using w1(3) by auto
qed


section \<open>Concrete breakers\<close>

definition small_config :: circuit_config where
  "small_config = \<lparr> failure_threshold = 1, recovery_timeout_ms = 100, half_open_max = 1 \<rparr>"

definition tripped :: circuit_breaker where
  "tripped = fst (on_failure 1000 (circuit_breaker_new small_config))"

lemma tripped_sel [simp]:
  "cb_state tripped = STATE_OPEN" "cb_cfg tripped = small_config" "half_open_calls tripped = 0"
  "last_failure_ms tripped = 1000" "recovery_i64 tripped = 100" "half_open_max small_config = 1"
  by (simp_all add: tripped_def on_failure_def circuit_breaker_new_def small_config_def recovery_i64_def)

lemma tripped_elapsed: "i64_sub 2000 1000 = 1000"
  by (simp add: i64_sub_def)

theorem circuit_refines_contract_witness:
  "snd (run circuit_op [(1000, FailureCall), (1050, CheckCall), (1200, CheckCall), (1201, CheckCall)] (circuit_breaker_new small_config)) =
     [Recorded (Some Opened), Checked (Rejected 50) None, Checked Allowed (Some transition.HalfOpen), Checked (Rejected 0) None]"
proof -
  let ?ops = "[(1000, FailureCall), (1050, CheckCall), (1200, CheckCall), (1201, CheckCall)]"
  have "run (promised small_config) ?ops (Healthy 0) = map_prod view id (run circuit_op ?ops (circuit_breaker_new small_config))"
    by (rule circuit_refines_contract) (simp_all add: small_config_def plausible_call_def plausible_time_def)
  moreover have "snd (run (promised small_config) ?ops (Healthy 0)) =
      [Recorded (Some Opened), Checked (Rejected 50) None, Checked Allowed (Some transition.HalfOpen), Checked (Rejected 0) None]"
    by (simp add: small_config_def)
  ultimately show ?thesis by (metis id_apply snd_map_prod)
qed

theorem probe_race_witness:
  "\<exists>c. breaker_step\<^sup>*\<^sup>* (fresh_circuit tripped) c \<and>
     cs_threads c = [Finished (Checked Allowed (Some transition.HalfOpen)), Finished (Checked Allowed None)]"
  using probe_race [of tripped 2000] by (auto simp: tripped_elapsed)

theorem probes_bounded_witness:
  "\<exists>c. breaker_step\<^sup>*\<^sup>* (fresh_circuit (circuit_breaker_new small_config)) c \<and> cs_attempts c = 2 \<and> cs_granted c = 1"
proof -
  let ?b = "circuit_breaker_new small_config"
  let ?c = "(fresh_circuit ?b) \<lparr> cs_threads := map Enter [FailureCall, CheckCall, CheckCall] \<rparr>"
  let ?xs = "[(0, 1000), (0, 1000), (0, 1000), (0, 1000), (0, 1000)] @ replicate 6 (1, 2000) @ replicate 2 (2, 2000)"
  let ?s = "schedule ?xs ?c"
  have reach: "breaker_step\<^sup>*\<^sup>* (fresh_circuit ?b) ?s"
    using spawn_reachable [of "fresh_circuit ?b" "[FailureCall, CheckCall, CheckCall]"] schedule_reachable [of ?c ?xs]
    by (simp add: fresh_circuit_def)
  have "cs_attempts ?s = 2"
    by (simp add: eval_nat_numeral fresh_circuit_def circuit_breaker_new_def small_config_def accessed_def
        resets_calls_def probe_def recovery_i64_def tripped_elapsed)
  with probes_bounded [OF reach] reach show ?thesis by (auto simp: grants_of_def)
qed


text \<open>A tool whose request the provider refuses with a 404.\<close>

definition note_tool :: "unit circuit_world tool" where
  "note_tool = \<lparr> tl_schema = \<lparr> sc_tool_id = ''slack.note'', sc_name = ''note'', sc_description = [], sc_input_schema = note_schema,
       sc_output_schema = JNull, sc_category = ''chat'', sc_requires_auth = True \<rparr>, tl_provider = ''slack'',
     tl_invoke = (\<lambda>req w. (w, error_response ''slack.note'' ''not_found'' ''no such channel'' None, 0)) \<rparr>"

definition note_request :: invoke_request where
  "note_request = \<lparr> iq_tenant_id = None, iq_args = JObject [(''text'', JString ''hi'')] \<rparr>"

definition tripped_world :: "unit circuit_world" where
  "tripped_world = \<lparr> cw_breakers = [(''slack'', tripped)], cw_posts = [], cw_rest = () \<rparr>"

definition no_mirror :: circuit_registry where
  "no_mirror = \<lparr> cr_cfg = small_config, cr_axon_url = None \<rparr>"

lemma note_valid: "validate S note_schema (iq_args note_request) = Inr ()"
proof -
  have "conforms note_schema [(''text'', JString ''hi'')]"
    by (simp add: note_schema_def conforms_def conforms_to_type_def conforms_to_enum_def of_type_simps)
  then show ?thesis
    by (simp add: validate_def validate_object_ok note_request_def)
qed

lemma tripped_breaker [simp]: "breaker no_mirror ''slack'' tripped_world = tripped"
  by (simp add: breaker_def tripped_world_def)

lemma not_found_is_client_error:
  "\<not> ir_success (error_response t ''not_found'' m None)" "\<not> is_provider_failure (error_response t ''not_found'' m None)"
  by (simp_all add: error_response_def is_provider_failure_def err_envelope_def btree_collect_def ends_with_def suffix_def)

theorem client_error_locks_provider_out_witness:
  "\<exists>w'. fst (snd (invoke_with_circuit (sample_serde (\<lambda>_. None)) (\<lambda>_. 2000) no_mirror note_tool ''slack.note'' note_request tripped_world)) =
      error_response ''slack.note'' ''not_found'' ''no such channel'' None \<and>
     snd (invoke_all (sample_serde (\<lambda>_. None)) (\<lambda>_. 2000) no_mirror (replicate 1000 (note_tool, ''slack.note'', note_request)) w') =
       replicate 1000 (circuit_open_response ''slack.note'' ''slack'' 0)"
proof -
  have "\<And>v. tl_invoke note_tool note_request v = (v, error_response ''slack.note'' ''not_found'' ''no such channel'' None, 0)"
    by (simp add: note_tool_def)
  note locked = client_error_locks_provider_out [where tool = note_tool and req = note_request and S = "sample_serde (\<lambda>_. None)" and
      clock = "\<lambda>_. 2000" and R = no_mirror and w = tripped_world and p = "''slack''" and tool_id = "''slack.note''" and
      xs = "replicate 1000 (note_tool, ''slack.note'', note_request)", OF _ _ _ _ _ this not_found_is_client_error]
  have "tl_provider note_tool = ''slack''" "sc_input_schema (tl_schema note_tool) = note_schema"
    by (simp_all add: note_tool_def)
  with locked show ?thesis
    by (auto simp: tripped_elapsed note_valid)
qed

theorem invocation_contract_witness:
  "\<exists>w'. invoke_with_circuit (sample_serde (\<lambda>_. None)) (\<lambda>_. 1050) no_mirror note_tool ''slack.note'' note_request tripped_world =
     (w', circuit_open_response ''slack.note'' ''slack'' 50, 0) \<and> cw_rest w' = ()"
proof -
  have t: "tl_provider note_tool = ''slack''" "sc_input_schema (tl_schema note_tool) = note_schema"
    by (simp_all add: note_tool_def)
  have "decide 1050 tripped = (tripped, Rejected 50, None)"
    by (simp add: decide_def i64_sub_def eta_def)
  then have "\<exists>w1. check 1050 no_mirror ''slack'' tripped_world = (w1, Rejected 50)" by (simp add: check_def)
  then obtain w1 where c: "check 1050 no_mirror ''slack'' tripped_world = (w1, Rejected 50)" by blast
  show ?thesis
    using invocation_contract [where S = "sample_serde (\<lambda>_. None)" and tool = note_tool and req = note_request and clock = "\<lambda>_. 1050" and
        R = no_mirror and tool_id = "''slack.note''" and w = tripped_world] c
    by (auto simp: t note_valid Let_def split: prod.splits)
qed

end
