(* ===== verification/Pistis.thy ===== *)
theory Pistis
  imports Dispatch Ledger Floats "HOL-Library.AList"
begin

text \<open>
  The Pistis authority of \<open>henosis-pistis\<close>, the first gate of the chain: signed room state (\<open>model.rs\<close>,
  \<open>room.rs\<close>), the trust score (\<open>trust.rs\<close>), the capability decision (\<open>authority.rs\<close>) and the gate
  (\<open>gate.rs\<close>).

  Parameters are the signature scheme (\<open>crypto.rs\<close> over \<open>ed25519_dalek\<close>), floating point, the identifier
  text and the least instant of the \<open>time\<close> crate; subtracting thirty days below it panics, so a score is
  \<open>None\<close> then. An instant is its nanoseconds since the epoch. A \<open>BTreeSet\<close> is the list of its elements in
  iteration order; a \<open>HashMap\<close> is an association list, in any order. The \<open>u32\<close> weights are numbers: no
  sum of them exceeds the cap.
\<close>

record 'f pistis_lib =
  pl_f64 :: "'f f64_lib"
  pl_uuid :: uuid_lib
  pk_error :: "bytes \<Rightarrow> string option"
  pk_verify_strict :: "bytes \<Rightarrow> bytes \<Rightarrow> bytes \<Rightarrow> bool"
  sk_sign :: "bytes \<Rightarrow> bytes \<Rightarrow> bytes"
  sk_public :: "bytes \<Rightarrow> bytes"
  odt_min :: int

datatype pistis_error = SignatureInvalid string | InvalidRoomState string

fun pistis_error_text :: "pistis_error \<Rightarrow> string" where
  "pistis_error_text (SignatureInvalid m) = ''signature invalid: '' @ m"
| "pistis_error_text (InvalidRoomState m) = ''invalid room state: '' @ m"

definition pk_verify :: "'f pistis_lib \<Rightarrow> bytes \<Rightarrow> bytes \<Rightarrow> bytes \<Rightarrow> pistis_error + unit" where
  "pk_verify L key msg sig =
     (case pk_error L key of
        Some e \<Rightarrow> Inl (SignatureInvalid (''bad pubkey: '' @ e))
      | None \<Rightarrow>
          if length sig \<noteq> 64
          then Inl (SignatureInvalid (''expected 64 signature bytes, got '' @ nat_text (length sig)))
          else if pk_verify_strict L key msg sig then Inr ()
          else Inl (SignatureInvalid ''verification failed''))"


section \<open>Scopes, capabilities, outcomes\<close>

record room_scope =
  scope_tenant :: uuid
  scope_room :: string

definition uuid_bytes :: "uuid \<Rightarrow> bytes" where
  "uuid_bytes u = be_bytes 16 (unat u)"

definition be_i128 :: "int \<Rightarrow> bytes" where
  "be_i128 i = be_bytes 16 (nat (i mod 2 ^ 128))"

definition scope_signing_bytes :: "room_scope \<Rightarrow> bytes" where
  "scope_signing_bytes s = uuid_bytes (scope_tenant s) @ field (scope_room s)"

datatype action_kind =
    Message | CapabilityClaim | Outcome | TaskAccept | TaskComplete | Commit | CommitProtected | Merge
  | Deploy | Delete | CredentialRotate | LedgerModify | Review | Endorse

fun admission_code :: "action_kind \<Rightarrow> nat" where
  "admission_code Message = 0"
| "admission_code CapabilityClaim = 1"
| "admission_code Outcome = 2"
| "admission_code TaskAccept = 3"
| "admission_code TaskComplete = 4"
| "admission_code Commit = 5"
| "admission_code CommitProtected = 6"
| "admission_code Merge = 7"
| "admission_code Deploy = 8"
| "admission_code Delete = 9"
| "admission_code CredentialRotate = 10"
| "admission_code LedgerModify = 11"
| "admission_code Review = 12"
| "admission_code Endorse = 13"

record capability =
  cap_name :: string
  cap_kinds :: "action_kind list"
  granted_by :: string
  cap_expires_at :: "int option"

definition cap_is_valid :: "capability \<Rightarrow> int \<Rightarrow> bool" where
  "cap_is_valid c now = (case cap_expires_at c of None \<Rightarrow> True | Some t \<Rightarrow> now < t)"

datatype outcome = Success | Failure | Indeterminate

fun signing_code :: "outcome \<Rightarrow> nat" where
  "signing_code Success = 0"
| "signing_code Failure = 1"
| "signing_code Indeterminate = 2"

record attestation =
  at_scope :: room_scope
  at_target :: uuid
  attestor :: uuid
  event_ref :: string
  at_outcome :: outcome
  at_weight :: nat
  at_context :: string
  signed_at :: int
  at_signature :: bytes

definition outcome_signing_bytes :: "attestation \<Rightarrow> bytes" where
  "outcome_signing_bytes a =
     field ''henosis-pistis-outcome-v1'' @ scope_signing_bytes (at_scope a) @ uuid_bytes (at_target a) @
     uuid_bytes (attestor a) @ field (event_ref a) @ [char_of (signing_code (at_outcome a)), char_of (at_weight a)] @
     field (at_context a) @ be_i128 (signed_at a)"

definition attestation_new :: "'f pistis_lib \<Rightarrow> attestation \<Rightarrow> bytes \<Rightarrow> attestation" where
  "attestation_new L statement key = statement \<lparr> at_signature := sk_sign L key (outcome_signing_bytes statement) \<rparr>"

definition verify_attestation ::
    "'f pistis_lib \<Rightarrow> attestation \<Rightarrow> room_scope \<Rightarrow> bytes \<Rightarrow> pistis_error + unit" where
  "verify_attestation L a expected_scope attestor_key =
     (if at_scope a \<noteq> expected_scope then Inl (InvalidRoomState ''outcome scope does not match requested room'')
      else if \<not> (1 \<le> at_weight a \<and> at_weight a \<le> 10)
        then Inl (InvalidRoomState (''outcome weight '' @ nat_text (at_weight a) @ '' is outside 1..=10''))
      else pk_verify L attestor_key (outcome_signing_bytes a) (at_signature a))"

definition is_self_attestation :: "attestation \<Rightarrow> bool" where
  "is_self_attestation a = (at_target a = attestor a)"


section \<open>Admissions and manifests\<close>

record admission =
  ad_scope :: room_scope
  ad_principal :: uuid
  principal_pubkey :: bytes
  admission_root :: bytes
  admitted_capabilities :: "capability list"
  admission_signature :: bytes

definition capability_signing_bytes :: "capability \<Rightarrow> bytes" where
  "capability_signing_bytes c =
     field (cap_name c) @ be64 (length (cap_kinds c)) @ map (\<lambda>k. char_of (admission_code k)) (cap_kinds c) @
     field (granted_by c) @ (case cap_expires_at c of Some t \<Rightarrow> char_of (1 :: nat) # be_i128 t | None \<Rightarrow> [char_of (0 :: nat)])"

definition admission_signing_bytes :: "admission \<Rightarrow> bytes" where
  "admission_signing_bytes a =
     (let capabilities = sort (map capability_signing_bytes (admitted_capabilities a)) in
      field ''henosis-pistis-admission-v1'' @ scope_signing_bytes (ad_scope a) @ uuid_bytes (ad_principal a) @
      principal_pubkey a @ admission_root a @ be64 (length capabilities) @ field_list capabilities)"

definition admission_new ::
    "'f pistis_lib \<Rightarrow> room_scope \<Rightarrow> uuid \<Rightarrow> bytes \<Rightarrow> bytes \<Rightarrow> capability list \<Rightarrow> admission" where
  "admission_new L scope who pubkey root_key caps =
     (let a = \<lparr> ad_scope = scope, ad_principal = who, principal_pubkey = pubkey,
          admission_root = sk_public L root_key, admitted_capabilities = caps, admission_signature = [] \<rparr>
      in a \<lparr> admission_signature := sk_sign L root_key (admission_signing_bytes a) \<rparr>)"

definition verify_admission ::
    "'f pistis_lib \<Rightarrow> admission \<Rightarrow> room_scope \<Rightarrow> bytes list \<Rightarrow> pistis_error + unit" where
  "verify_admission L a expected_scope room_roots =
     (if ad_scope a \<noteq> expected_scope then Inl (InvalidRoomState ''admission scope does not match requested room'')
      else if principal_pubkey a = admission_root a
        then Inl (InvalidRoomState ''principal and room-root signing keys must be distinct'')
      else if admission_root a \<notin> set room_roots
        then Inl (InvalidRoomState ''admission signer is not a manifest-authorized room root'')
      else pk_verify L (admission_root a) (admission_signing_bytes a) (admission_signature a))"

record 'f manifest =
  mf_scope :: room_scope
  generation :: nat
  trust_threshold :: 'f
  room_roots :: "bytes list"
  issuer_pubkey :: bytes
  mf_signature :: bytes

definition default_threshold :: "'f pistis_lib \<Rightarrow> 'f" where
  "default_threshold L = f64_dec (pl_f64 L) 4 1"

definition manifest_signing_bytes :: "'f pistis_lib \<Rightarrow> 'f manifest \<Rightarrow> bytes" where
  "manifest_signing_bytes L m =
     field ''henosis-pistis-room-manifest-v1'' @ scope_signing_bytes (mf_scope m) @ be64 (generation m) @
     be64 (f64_to_bits (pl_f64 L) (trust_threshold m)) @ be64 (length (room_roots m)) @ concat (room_roots m) @
     issuer_pubkey m"

definition manifest_new ::
    "'f pistis_lib \<Rightarrow> room_scope \<Rightarrow> nat \<Rightarrow> 'f \<Rightarrow> bytes list \<Rightarrow> bytes \<Rightarrow> 'f manifest" where
  "manifest_new L scope gen threshold roots issuer_key =
     (let m = \<lparr> mf_scope = scope, generation = gen, trust_threshold = threshold, room_roots = roots,
          issuer_pubkey = sk_public L issuer_key, mf_signature = [] \<rparr>
      in m \<lparr> mf_signature := sk_sign L issuer_key (manifest_signing_bytes L m) \<rparr>)"

definition zero_f :: "'f pistis_lib \<Rightarrow> 'f" where "zero_f L = f64_dec (pl_f64 L) 0 0"
definition one_f :: "'f pistis_lib \<Rightarrow> 'f" where "one_f L = f64_dec (pl_f64 L) 1 0"

definition verify_manifest ::
    "'f pistis_lib \<Rightarrow> 'f manifest \<Rightarrow> room_scope \<Rightarrow> bytes \<Rightarrow> nat \<Rightarrow> pistis_error + unit" where
  "verify_manifest L m expected_scope expected_issuer minimum_generation =
     (if mf_scope m \<noteq> expected_scope then Inl (InvalidRoomState ''manifest scope does not match requested room'')
      else if issuer_pubkey m \<noteq> expected_issuer
        then Inl (InvalidRoomState ''manifest issuer does not match gate trust pin'')
      else if generation m < minimum_generation
        then Inl (InvalidRoomState (''manifest generation '' @ nat_text (generation m) @
          '' is below required minimum '' @ nat_text minimum_generation))
      else if \<not> f64_in_range (pl_f64 L) (zero_f L) (one_f L) (trust_threshold m)
        then Inl (InvalidRoomState ''manifest trust threshold is outside [0.0, 1.0]'')
      else pk_verify L (issuer_pubkey m) (manifest_signing_bytes L m) (mf_signature m))"


section \<open>Trust pins\<close>

record trust_pin =
  pin_issuer :: bytes
  minimum_generation :: nat

type_synonym trust_store = "(room_scope \<times> trust_pin) list"

definition pin :: "trust_store \<Rightarrow> room_scope \<Rightarrow> bytes \<Rightarrow> nat \<Rightarrow> trust_store \<times> (pistis_error + unit)" where
  "pin pins scope issuer least =
     (let set_pin = (AList.update scope \<lparr> pin_issuer = issuer, minimum_generation = least \<rparr> pins, Inr ()) in
      case map_of pins scope of
        Some existing \<Rightarrow>
          if pin_issuer existing \<noteq> issuer
            then (pins, Inl (InvalidRoomState ''cannot replace a room issuer pin in place''))
          else if least < minimum_generation existing
            then (pins, Inl (InvalidRoomState ''cannot lower a room generation floor''))
          else set_pin
      | None \<Rightarrow> set_pin)"


section \<open>Room state\<close>

record 'f room_state =
  rs_manifest :: "'f manifest"
  rs_admitted :: "(uuid \<times> admission) list"
  rs_outcomes :: "(uuid \<times> attestation list) list"

definition admit :: "'f pistis_lib \<Rightarrow> admission \<Rightarrow> 'f room_state \<Rightarrow> 'f room_state \<times> (pistis_error + unit)" where
  "admit L a s =
     (case verify_admission L a (mf_scope (rs_manifest s)) (room_roots (rs_manifest s)) of
        Inl e \<Rightarrow> (s, Inl e)
      | Inr _ \<Rightarrow> (s \<lparr> rs_admitted := AList.update (ad_principal a) a (rs_admitted s) \<rparr>, Inr ()))"

fun admit_all :: "'f pistis_lib \<Rightarrow> admission list \<Rightarrow> 'f room_state \<Rightarrow> pistis_error + 'f room_state" where
  "admit_all L [] s = Inr s"
| "admit_all L (a # as) s = (case admit L a s of (_, Inl e) \<Rightarrow> Inl e | (s', Inr _) \<Rightarrow> admit_all L as s')"

definition from_genesis ::
    "'f pistis_lib \<Rightarrow> room_scope \<Rightarrow> nat \<Rightarrow> 'f \<Rightarrow> bytes list \<Rightarrow> bytes \<Rightarrow> admission list \<Rightarrow>
     pistis_error + 'f room_state" where
  "from_genesis L scope gen threshold roots issuer_key initial_admits =
     admit_all L initial_admits \<lparr> rs_manifest = manifest_new L scope gen threshold roots issuer_key,
       rs_admitted = [], rs_outcomes = [] \<rparr>"

definition outcomes_of :: "(uuid \<times> attestation list) list \<Rightarrow> uuid \<Rightarrow> attestation list" where
  "outcomes_of m t = (case map_of m t of Some xs \<Rightarrow> xs | None \<Rightarrow> [])"

definition replays :: "attestation \<Rightarrow> attestation list \<Rightarrow> bool" where
  "replays a outcomes = list_ex (\<lambda>x. attestor x = attestor a \<and> event_ref x = event_ref a) outcomes"

text \<open>The entry of the target is created before the duplicate check, so a refusal leaves it behind.\<close>

definition record_outcome_in ::
    "'f pistis_lib \<Rightarrow> attestation \<Rightarrow> 'f room_state \<Rightarrow> 'f room_state \<times> (pistis_error + unit)" where
  "record_outcome_in L a s =
     (if is_self_attestation a then (s, Inl (InvalidRoomState ''self-attestations are not accepted''))
      else case map_of (rs_admitted s) (attestor a) of
        None \<Rightarrow> (s, Inl (InvalidRoomState ''outcome attestor has no validated room admission''))
      | Some admitted \<Rightarrow>
          (case verify_attestation L a (mf_scope (rs_manifest s)) (principal_pubkey admitted) of
             Inl e \<Rightarrow> (s, Inl e)
           | Inr _ \<Rightarrow>
               (let outcomes = outcomes_of (rs_outcomes s) (at_target a);
                    put = (\<lambda>xs. s \<lparr> rs_outcomes := AList.update (at_target a) xs (rs_outcomes s) \<rparr>) in
                if replays a outcomes
                then (put outcomes, Inl (InvalidRoomState ''duplicate attestor-target-event outcome''))
                else (put (outcomes @ [a]), Inr ()))))"

record 'f verified_room =
  vr_scope :: room_scope
  vr_threshold :: 'f
  vr_admitted :: "(uuid \<times> admission) list"
  vr_outcomes :: "(uuid \<times> attestation list) list"

fun verify_admitted ::
    "'f pistis_lib \<Rightarrow> room_scope \<Rightarrow> bytes list \<Rightarrow> (uuid \<times> admission) list \<Rightarrow> pistis_error + unit" where
  "verify_admitted L scope roots [] = Inr ()"
| "verify_admitted L scope roots ((p, a) # rest) =
     (if p \<noteq> ad_principal a then Inl (InvalidRoomState ''admission map key does not match signed principal'')
      else case verify_admission L a scope roots of
        Inl e \<Rightarrow> Inl e
      | Inr _ \<Rightarrow> verify_admitted L scope roots rest)"

text \<open>The outcomes of all targets in iteration order, with the events observed so far.\<close>

fun verify_outcomes ::
    "'f pistis_lib \<Rightarrow> room_scope \<Rightarrow> (uuid \<times> admission) list \<Rightarrow> (uuid \<times> uuid \<times> string) list \<Rightarrow>
     (uuid \<times> attestation) list \<Rightarrow> pistis_error + unit" where
  "verify_outcomes L scope admitted observed [] = Inr ()"
| "verify_outcomes L scope admitted observed ((target, o') # rest) =
     (if target \<noteq> at_target o' then Inl (InvalidRoomState ''outcome map key does not match signed target'')
      else if is_self_attestation o' then Inl (InvalidRoomState ''self-attestation found in raw room state'')
      else case map_of admitted (attestor o') of
        None \<Rightarrow> Inl (InvalidRoomState ''outcome attestor has no verified admission'')
      | Some admission \<Rightarrow>
          (case verify_attestation L o' scope (principal_pubkey admission) of
             Inl e \<Rightarrow> Inl e
           | Inr _ \<Rightarrow>
               (let event_key = (at_target o', attestor o', event_ref o') in
                if event_key \<in> set observed
                then Inl (InvalidRoomState ''duplicate attestor-target-event outcome'')
                else verify_outcomes L scope admitted (event_key # observed) rest)))"

definition all_outcomes :: "(uuid \<times> attestation list) list \<Rightarrow> (uuid \<times> attestation) list" where
  "all_outcomes m = concat (map (\<lambda>(t, xs). map (Pair t) xs) m)"

definition verify_for ::
    "'f pistis_lib \<Rightarrow> 'f room_state \<Rightarrow> room_scope \<Rightarrow> trust_store \<Rightarrow> pistis_error + 'f verified_room" where
  "verify_for L s expected_scope pins =
     (case map_of pins expected_scope of
        None \<Rightarrow> Inl (InvalidRoomState ''no gate trust pin for requested room'')
      | Some p \<Rightarrow>
      case verify_manifest L (rs_manifest s) expected_scope (pin_issuer p) (minimum_generation p) of
        Inl e \<Rightarrow> Inl e
      | Inr _ \<Rightarrow>
      case verify_admitted L expected_scope (room_roots (rs_manifest s)) (rs_admitted s) of
        Inl e \<Rightarrow> Inl e
      | Inr _ \<Rightarrow>
      case verify_outcomes L expected_scope (rs_admitted s) [] (all_outcomes (rs_outcomes s)) of
        Inl e \<Rightarrow> Inl e
      | Inr _ \<Rightarrow> Inr \<lparr> vr_scope = expected_scope, vr_threshold = trust_threshold (rs_manifest s),
          vr_admitted = rs_admitted s, vr_outcomes = rs_outcomes s \<rparr>)"


section \<open>The trust score\<close>

definition ATTESTOR_CAP :: nat where "ATTESTOR_CAP = 50"
definition WEIGHT_NORMALIZATION :: int where "WEIGHT_NORMALIZATION = 10"
definition NEUTRAL_TRUST :: "'f pistis_lib \<Rightarrow> 'f" where "NEUTRAL_TRUST L = f64_dec (pl_f64 L) 5 1"
definition SUCCESS_RATE :: "'f pistis_lib \<Rightarrow> 'f" where "SUCCESS_RATE L = f64_dec (pl_f64 L) 10 2"
definition FAILURE_RATE :: "'f pistis_lib \<Rightarrow> 'f" where "FAILURE_RATE L = f64_dec (pl_f64 L) 15 2"
definition DECAY_RATE_PER_DAY :: "'f pistis_lib \<Rightarrow> 'f" where "DECAY_RATE_PER_DAY L = f64_dec (pl_f64 L) 2 2"

definition days_nanos :: "int \<Rightarrow> int" where
  "days_nanos d = d * 86400 * 1000000000"

definition apply_decay :: "'f pistis_lib \<Rightarrow> 'f \<Rightarrow> int \<Rightarrow> int \<Rightarrow> 'f" where
  "apply_decay L score from_t to_t =
     (let F = pl_f64 L in
      if to_t \<le> from_t then score
      else
        (let days = f64_div F (f64_div F (f64_div F (f64_div F (f64_of_i64 F ((to_t - from_t) div 1000000))
               (f64_dec F 1000 0)) (f64_dec F 60 0)) (f64_dec F 60 0)) (f64_dec F 24 0) in
         if f64_le F days (zero_f L) then score
         else
           (let distance = f64_sub F score (NEUTRAL_TRUST L);
                progress = f64_min F (f64_mul F (DECAY_RATE_PER_DAY L) days) (one_f L) in
            f64_sub F score (f64_mul F distance progress))))"

definition apply_outcome :: "'f pistis_lib \<Rightarrow> 'f \<Rightarrow> outcome \<Rightarrow> nat \<Rightarrow> nat \<Rightarrow> 'f" where
  "apply_outcome L score out effective_raw raw_weight =
     (let F = pl_f64 L;
          effective_weight = f64_div F (f64_mul F (f64_of_i64 F (int effective_raw)) (f64_of_i64 F (int raw_weight)))
            (f64_of_i64 F WEIGHT_NORMALIZATION);
          moved = (case out of
              Success \<Rightarrow> f64_add F score (f64_mul F (f64_mul F (SUCCESS_RATE L) (f64_sub F (one_f L) score)) effective_weight)
            | Failure \<Rightarrow> f64_sub F score (f64_mul F (f64_mul F (FAILURE_RATE L) score) effective_weight)
            | Indeterminate \<Rightarrow> score)
      in f64_clamp F moved (zero_f L) (one_f L))"

type_synonym contributions = "uuid \<Rightarrow> (int \<times> nat) list"

text \<open>
  The weight an outcome counts with, \<open>None\<close> when its attestor's cap is used up, and the contributions
  inside the window of thirty days.
\<close>

definition contribute :: "attestation \<Rightarrow> contributions \<Rightarrow> nat option \<times> contributions" where
  "contribute a contributed =
     (let window_start = signed_at a - days_nanos 30;
          history = filter (\<lambda>(t, _). window_start \<le> t) (contributed (attestor a));
          remaining_cap = ATTESTOR_CAP - sum_list (map snd history) in
      if remaining_cap = 0 then (None, contributed(attestor a := history))
      else
        (let effective_raw = min (at_weight a) remaining_cap in
         (Some effective_raw, contributed(attestor a := history @ [(signed_at a, effective_raw)]))))"

text \<open>One pass of the loop body.\<close>

definition trust_step ::
    "'f pistis_lib \<Rightarrow> attestation \<Rightarrow> 'f \<Rightarrow> int \<Rightarrow> contributions \<Rightarrow> ('f \<times> contributions) option" where
  "trust_step L a score updated contributed =
     (let decayed = apply_decay L score updated (signed_at a) in
      if signed_at a - days_nanos 30 < odt_min L then None
      else
        (case contribute a contributed of
           (None, contributed') \<Rightarrow> Some (decayed, contributed')
         | (Some effective_raw, contributed') \<Rightarrow>
             Some (apply_outcome L decayed (at_outcome a) effective_raw (at_weight a), contributed')))"

fun trust_loop :: "'f pistis_lib \<Rightarrow> attestation list \<Rightarrow> 'f \<Rightarrow> int \<Rightarrow> contributions \<Rightarrow> ('f \<times> int) option" where
  "trust_loop L [] score updated contributed = Some (score, updated)"
| "trust_loop L (a # as) score updated contributed =
     (case trust_step L a score updated contributed of
        None \<Rightarrow> None
      | Some (score', contributed') \<Rightarrow> trust_loop L as score' (signed_at a) contributed')"

definition usable :: "'f pistis_lib \<Rightarrow> 'f verified_room \<Rightarrow> uuid \<Rightarrow> int \<Rightarrow> attestation list \<Rightarrow> attestation \<Rightarrow> bool" where
  "usable L v target now outcomes a \<longleftrightarrow>
     at_target a = target \<and> \<not> is_self_attestation a \<and> signed_at a \<le> now \<and>
     length (filter (\<lambda>x. attestor x = attestor a \<and> event_ref x = event_ref a) outcomes) = 1 \<and>
     (case map_of (vr_admitted v) (attestor a) of
        None \<Rightarrow> False
      | Some admitted \<Rightarrow> is_ok (verify_attestation L a (vr_scope v) (principal_pubkey admitted)))"

definition compute_trust :: "'f pistis_lib \<Rightarrow> 'f verified_room \<Rightarrow> uuid \<Rightarrow> int \<Rightarrow> 'f option" where
  "compute_trust L v target now =
     (let outcomes = outcomes_of (vr_outcomes v) target;
          timeline = sort_key signed_at (filter (usable L v target now outcomes) outcomes) in
      case timeline of
        [] \<Rightarrow> Some (NEUTRAL_TRUST L)
      | first # _ \<Rightarrow>
          (case trust_loop L timeline (NEUTRAL_TRUST L) (signed_at first) (\<lambda>_. []) of
             None \<Rightarrow> None
           | Some (score, updated) \<Rightarrow> Some (f64_clamp (pl_f64 L) (apply_decay L score updated now) (zero_f L) (one_f L))))"


section \<open>The capability decision\<close>

record capability_requirement =
  req_name :: string
  req_kind :: action_kind

record 'f capability_decision =
  cd_allowed :: bool
  cd_missing :: "capability_requirement list"
  cd_trust_score :: 'f
  cd_reason :: "string option"

definition holds :: "admission \<Rightarrow> int \<Rightarrow> capability_requirement \<Rightarrow> bool" where
  "holds a now requirement = list_ex (\<lambda>c. cap_name c = req_name requirement \<and> req_kind requirement \<in> set (cap_kinds c) \<and>
     cap_is_valid c now) (admitted_capabilities a)"

definition authorize_capabilities ::
    "'f pistis_lib \<Rightarrow> 'f verified_room \<Rightarrow> uuid \<Rightarrow> capability_requirement list \<Rightarrow> int \<Rightarrow> 'f capability_decision option" where
  "authorize_capabilities L v who required now =
     (let F = pl_f64 L;
          denied = (\<lambda>missing score reason. Some \<lparr> cd_allowed = False, cd_missing = missing, cd_trust_score = score,
             cd_reason = Some reason \<rparr>) in
      case map_of (vr_admitted v) who of
        None \<Rightarrow> denied required (NEUTRAL_TRUST L)
          (''principal '' @ uuid_text (pl_uuid L) who @ '' lacks a valid trusted admission'')
      | Some admitted \<Rightarrow>
      case compute_trust L v who now of
        None \<Rightarrow> None
      | Some score \<Rightarrow>
          (let threshold = vr_threshold v in
           if \<not> f64_in_range F (zero_f L) (one_f L) threshold
             then denied required score (''room trust threshold '' @ f64_debug F threshold @ '' is outside [0.0, 1.0]'')
           else if \<not> f64_is_finite F score \<or> f64_less F score threshold
             then denied required score (''trust score '' @ f64_fixed3 F score @ '' is below room threshold '' @
               f64_fixed3 F threshold)
           else
             (let missing = filter (\<lambda>x. \<not> holds admitted now x) required in
              if missing = [] then Some \<lparr> cd_allowed = True, cd_missing = [], cd_trust_score = score, cd_reason = None \<rparr>
              else denied missing score ''missing capability requirement'')))"


section \<open>The gate\<close>

type_synonym tool_policy = "string \<times> string \<Rightarrow> capability_requirement list option"

definition register :: "string \<Rightarrow> string \<Rightarrow> string \<Rightarrow> action_kind \<Rightarrow> tool_policy \<Rightarrow> tool_policy" where
  "register tool action capability kind P = P((tool, action) \<mapsto> [\<lparr> req_name = capability, req_kind = kind \<rparr>])"

definition canonical_entries :: "(string \<times> string \<times> string \<times> action_kind) list" where
  "canonical_entries =
     [(''henosis'', ''probe'', ''henosis'', Message),
      (''gmail'', ''send'', ''gmail'', Message), (''gmail'', ''read'', ''gmail'', Message),
      (''gmail'', ''search'', ''gmail'', Message), (''gmail'', ''list_labels'', ''gmail'', Message),
      (''gdrive'', ''list'', ''gdrive'', Message), (''gdrive'', ''upload'', ''gdrive'', Commit),
      (''gdrive'', ''download'', ''gdrive'', Message), (''gdrive'', ''get_metadata'', ''gdrive'', Message),
      (''gcal'', ''list_events'', ''gcal'', Message), (''gcal'', ''create_event'', ''gcal'', Commit),
      (''gcal'', ''update_event'', ''gcal'', Commit), (''gcal'', ''delete_event'', ''gcal'', Delete),
      (''github'', ''create_issue'', ''github'', Commit), (''github'', ''list_issues'', ''github'', Message),
      (''github'', ''get_issue'', ''github'', Message), (''github'', ''create_pr'', ''github'', Commit),
      (''github'', ''list_prs'', ''github'', Message), (''github'', ''merge_pr'', ''github'', Merge),
      (''github'', ''search_code'', ''github'', Message), (''github'', ''list_repos'', ''github'', Message),
      (''github'', ''create_webhook'', ''github'', Commit),
      (''slack'', ''send_message'', ''slack'', Message),
      (''linear'', ''create_issue'', ''linear'', Commit), (''linear'', ''list_issues'', ''linear'', Message),
      (''linear'', ''update_issue'', ''linear'', Commit), (''linear'', ''search'', ''linear'', Message),
      (''linear'', ''create_webhook'', ''linear'', Commit),
      (''notion'', ''search'', ''notion'', Message), (''notion'', ''get_page'', ''notion'', Message),
      (''notion'', ''create_page'', ''notion'', Commit), (''notion'', ''append_blocks'', ''notion'', Commit)]"

definition canonical_policy :: tool_policy where
  "canonical_policy = fold (\<lambda>(tool, action, capability, kind). register tool action capability kind) canonical_entries Map.empty"

record ('f, 's) pistis_env =
  pe_source :: "'s \<Rightarrow> room_scope \<Rightarrow> 'f room_state option"
  pe_trust :: trust_store
  pe_policy :: tool_policy
  pe_now :: "'s \<Rightarrow> int"

text \<open>\<open>None\<close>: the check panicked.\<close>

definition pistis_check :: "'f pistis_lib \<Rightarrow> ('f, 's) pistis_env \<Rightarrow> gate_request \<Rightarrow> 's \<Rightarrow> gate_decision option" where
  "pistis_check L E r s =
     (let tool = inv_tool (req_invocation r); action = inv_action (req_invocation r) in
      case pe_policy E (tool, action) of
        None \<Rightarrow> Some (Deny (''no pistis capability policy for '' @ tool @ ''.'' @ action))
      | Some requirements \<Rightarrow>
      case room (req_context r) of
        None \<Rightarrow> Some (Deny (''pistis policy for '' @ tool @ ''.'' @ action @ '' requires a room''))
      | Some name \<Rightarrow>
          (let scope = \<lparr> scope_tenant = ctx_tenant (req_context r), scope_room = name \<rparr> in
           case pe_source E s scope of
             None \<Rightarrow> Some (Deny (''no pistis authority state for requested tenant and room '' @ name))
           | Some state \<Rightarrow>
           case verify_for L state scope (pe_trust E) of
             Inl e \<Rightarrow> Some (Deny (''pistis authority state failed verification: '' @ pistis_error_text e))
           | Inr verified \<Rightarrow>
           case authorize_capabilities L verified (ctx_principal (req_context r)) requirements (pe_now E s) of
             None \<Rightarrow> None
           | Some decision \<Rightarrow>
               Some (if cd_allowed decision then Allow
                 else Deny (case cd_reason decision of Some reason \<Rightarrow> reason | None \<Rightarrow> ''capability denied''))))"

text \<open>
  A panic ends the request's task inside the gate, so nothing after it runs; the gate of the chain
  renders that as an error of the gate.
\<close>

definition pistis_gate :: "'f pistis_lib \<Rightarrow> ('f, 's) pistis_env \<Rightarrow> 's gate" where
  "pistis_gate L E = \<lparr> gate_name = ''pistis'', gate_check = (\<lambda>r s.
     (s, case pistis_check L E r s of Some decision \<Rightarrow> Inr decision | None \<Rightarrow> Inl ''panicked'')) \<rparr>"



section \<open>What a signature binds\<close>

definition i128_range :: "int \<Rightarrow> bool" where
  "i128_range i \<longleftrightarrow> - (2 ^ 127) \<le> i \<and> i < 2 ^ 127"

lemma be_bytes_16_inject: "m < 2 ^ 128 \<Longrightarrow> n < 2 ^ 128 \<Longrightarrow> be_bytes 16 m = be_bytes 16 n \<Longrightarrow> m = n"
  using be_bytes_inject [of m 16 n] by simp

lemma be_i128_inject:
  assumes "i128_range i" "i128_range j" "be_i128 i = be_i128 j"
  shows "i = j"
proof -
  have "nat (i mod 2 ^ 128) = nat (j mod 2 ^ 128)"
    by (rule be_bytes_16_inject [OF _ _ assms(3) [unfolded be_i128_def]]) (simp_all add: nat_less_iff)
  then have "i mod 2 ^ 128 = j mod 2 ^ 128" by (simp add: eq_nat_nat_iff)
  moreover have "i = (i + 2 ^ 127) mod 2 ^ 128 - 2 ^ 127" "j = (j + 2 ^ 127) mod 2 ^ 128 - 2 ^ 127"
    using assms(1,2) by (simp_all add: i128_range_def)
  ultimately show "i = j" by (metis mod_add_left_eq)
qed

lemma length_be_i128 [simp]: "length (be_i128 i) = 16"
  by (simp add: be_i128_def)

lemma length_uuid_bytes [simp]: "length (uuid_bytes u) = 16"
  by (simp add: uuid_bytes_def)

lemma uuid_bytes_inject [simp]: "(uuid_bytes u = uuid_bytes v) = (u = v)"
proof
  assume same: "uuid_bytes u = uuid_bytes v"
  have "unat w < 2 ^ 128" for w :: uuid using unsigned_less [where 'a = nat, of w] by simp
  note bound = this
  have "unat u = unat v"
    by (rule be_bytes_16_inject [OF bound bound same [unfolded uuid_bytes_def]])
  then show "u = v" by (simp add: word_unat_eq_iff)
qed simp

text \<open>Fixed-length fields in front of the rest of a statement.\<close>

lemma fixed_inject3: "length k = length l \<Longrightarrow> k @ xs = l @ ys \<Longrightarrow> k = l \<and> xs = ys"
  by simp

lemma fixed_inject1: "uuid_bytes u @ xs = uuid_bytes v @ ys \<Longrightarrow> u = v \<and> xs = ys"
  by simp

lemma fixed_inject2: "m < 2 ^ 64 \<Longrightarrow> n < 2 ^ 64 \<Longrightarrow> be64 m @ xs = be64 n @ ys \<Longrightarrow> m = n \<and> xs = ys"
  using fixed_inject3 [of "be64 m" "be64 n" xs ys] be64_inject [of m n] by (metis length_be64)

lemmas fixed_inject = fixed_inject1 fixed_inject2 fixed_inject3

definition typed_scope :: "room_scope \<Rightarrow> bool" where
  "typed_scope s \<longleftrightarrow> short (scope_room s)"

lemma scope_inject:
  assumes "typed_scope s" "typed_scope t" "scope_signing_bytes s @ xs = scope_signing_bytes t @ ys"
  shows "s = t \<and> xs = ys"
proof -
  have "uuid_bytes (scope_tenant s) @ field (scope_room s) @ xs = uuid_bytes (scope_tenant t) @ field (scope_room t) @ ys"
    using assms(3) by (simp only: scope_signing_bytes_def append_assoc)
  from fixed_inject1 [OF this] have tenant: "scope_tenant s = scope_tenant t"
    and room: "field (scope_room s) @ xs = field (scope_room t) @ ys" by blast+
  have "scope_room s = scope_room t \<and> xs = ys"
    using field_inject [OF _ _ room] assms(1,2) by (simp only: typed_scope_def)
  with tenant show ?thesis by simp
qed

text \<open>What the Rust types guarantee: lengths fit in \<open>usize\<close>, keys have 32 bytes, instants are \<open>i128\<close>.\<close>

definition typed_capability :: "capability \<Rightarrow> bool" where
  "typed_capability c \<longleftrightarrow> short (cap_name c) \<and> length (cap_kinds c) < 2 ^ 64 \<and> short (granted_by c) \<and>
     (\<forall>t. cap_expires_at c = Some t \<longrightarrow> i128_range t) \<and> short (capability_signing_bytes c)"

definition typed_admission :: "admission \<Rightarrow> bool" where
  "typed_admission a \<longleftrightarrow> typed_scope (ad_scope a) \<and> length (principal_pubkey a) = 32 \<and> length (admission_root a) = 32 \<and>
     length (admitted_capabilities a) < 2 ^ 64 \<and> (\<forall>c \<in> set (admitted_capabilities a). typed_capability c)"

definition typed_attestation :: "attestation \<Rightarrow> bool" where
  "typed_attestation a \<longleftrightarrow> typed_scope (at_scope a) \<and> short (event_ref a) \<and> at_weight a < 256 \<and> short (at_context a) \<and>
     i128_range (signed_at a)"

definition typed_manifest :: "'f pistis_lib \<Rightarrow> 'f manifest \<Rightarrow> bool" where
  "typed_manifest L m \<longleftrightarrow> typed_scope (mf_scope m) \<and> generation m < 2 ^ 64 \<and> f64_to_bits (pl_f64 L) (trust_threshold m) < 2 ^ 64 \<and>
     length (room_roots m) < 2 ^ 64 \<and> (\<forall>k \<in> set (room_roots m). length k = 32) \<and> length (issuer_pubkey m) = 32"

lemma admission_code_inject: "admission_code k = admission_code l \<Longrightarrow> k = l"
  by (cases k; cases l) simp_all

lemma code_char_inject: "(char_of (admission_code k) :: char) = char_of (admission_code l) \<Longrightarrow> k = l"
proof -
  have "admission_code k < 256" for k by (cases k) simp_all
  then show "(char_of (admission_code k) :: char) = char_of (admission_code l) \<Longrightarrow> k = l"
    by (metis admission_code_inject mod_less of_char_of)
qed

lemma capability_inject:
  assumes "typed_capability c" "typed_capability d" "capability_signing_bytes c = capability_signing_bytes d"
  shows "c = d"
proof -
  have inj: "inj (\<lambda>k. char_of (admission_code k) :: char)" by (rule injI) (rule code_char_inject)
  let ?tail = "\<lambda>c. field (granted_by c) @ (case cap_expires_at c of Some t \<Rightarrow> char_of (1 :: nat) # be_i128 t | None \<Rightarrow> [char_of (0 :: nat)])"
  have name: "cap_name c = cap_name d" and
    rest: "be64 (length (cap_kinds c)) @ map (\<lambda>k. char_of (admission_code k)) (cap_kinds c) @ ?tail c =
      be64 (length (cap_kinds d)) @ map (\<lambda>k. char_of (admission_code k)) (cap_kinds d) @ ?tail d"
    using field_inject assms unfolding capability_signing_bytes_def typed_capability_def by blast+
  from fixed_inject(2) [OF _ _ rest] assms have len: "length (cap_kinds c) = length (cap_kinds d)"
    and codes: "map (\<lambda>k. char_of (admission_code k) :: char) (cap_kinds c) @ ?tail c =
      map (\<lambda>k. char_of (admission_code k)) (cap_kinds d) @ ?tail d"
    unfolding typed_capability_def by blast+
  from fixed_inject(3) [OF _ codes] len have "map (\<lambda>k. char_of (admission_code k) :: char) (cap_kinds c) =
      map (\<lambda>k. char_of (admission_code k)) (cap_kinds d)" and tail: "?tail c = ?tail d" by auto
  then have kinds: "cap_kinds c = cap_kinds d"
    by (simp add: inj_map_eq_map [OF inj])
  from tail have granted: "granted_by c = granted_by d"
    and expiry: "(case cap_expires_at c of Some t \<Rightarrow> char_of (1 :: nat) # be_i128 t | None \<Rightarrow> [char_of (0 :: nat)]) =
      (case cap_expires_at d of Some t \<Rightarrow> char_of (1 :: nat) # be_i128 t | None \<Rightarrow> [char_of (0 :: nat)])"
    using field_inject assms unfolding typed_capability_def by blast+
  have "cap_expires_at c = cap_expires_at d"
    using expiry assms by (auto simp: typed_capability_def be_i128_inject split: option.splits dest: arg_cong [of _ _ length])
  with name kinds granted show ?thesis by simp
qed

lemma admission_inject:
  assumes "typed_admission a" "typed_admission b" "admission_signing_bytes a = admission_signing_bytes b"
  shows "ad_scope a = ad_scope b \<and> ad_principal a = ad_principal b \<and> principal_pubkey a = principal_pubkey b \<and>
    admission_root a = admission_root b \<and> mset (admitted_capabilities a) = mset (admitted_capabilities b)"
proof -
  let ?caps = "\<lambda>a. sort (map capability_signing_bytes (admitted_capabilities a))"
  let ?body = "\<lambda>a. uuid_bytes (ad_principal a) @ principal_pubkey a @ admission_root a @ be64 (length (?caps a)) @ field_list (?caps a)"
  have "scope_signing_bytes (ad_scope a) @ ?body a = scope_signing_bytes (ad_scope b) @ ?body b"
    using assms(3) by (simp add: admission_signing_bytes_def Let_def)
  then have scope: "ad_scope a = ad_scope b" and "?body a = ?body b"
    using scope_inject assms(1,2) unfolding typed_admission_def by blast+
  then have who: "ad_principal a = ad_principal b" and
    keys: "principal_pubkey a @ admission_root a @ be64 (length (?caps a)) @ field_list (?caps a) =
      principal_pubkey b @ admission_root b @ be64 (length (?caps b)) @ field_list (?caps b)"
    using fixed_inject(1) by blast+
  have lengths: "length (principal_pubkey a) = length (principal_pubkey b)" "length (admission_root a) = length (admission_root b)"
    "length (?caps a) < 2 ^ 64" "length (?caps b) < 2 ^ 64"
    using assms(1,2) by (simp_all add: typed_admission_def del: power_numeral)
  have pk: "principal_pubkey a = principal_pubkey b" and
    rest: "admission_root a @ be64 (length (?caps a)) @ field_list (?caps a) = admission_root b @ be64 (length (?caps b)) @ field_list (?caps b)"
    using fixed_inject(3) [OF lengths(1) keys] by blast+
  have root: "admission_root a = admission_root b" and
    caps: "be64 (length (?caps a)) @ field_list (?caps a) = be64 (length (?caps b)) @ field_list (?caps b)"
    using fixed_inject(3) [OF lengths(2) rest] by blast+
  have "length (?caps a) = length (?caps b)" "field_list (?caps a) = field_list (?caps b)"
    using fixed_inject(2) [OF lengths(3,4) caps] by blast+
  then have "?caps a = ?caps b"
    using assms(1,2) by (intro field_list_inject) (auto simp: typed_admission_def typed_capability_def list_all_iff)
  then have "image_mset capability_signing_bytes (mset (admitted_capabilities a)) =
      image_mset capability_signing_bytes (mset (admitted_capabilities b))"
    by (metis mset_map mset_sort)
  then have "mset (admitted_capabilities a) = mset (admitted_capabilities b)"
    by (rule multiset.inj_map_strong [rotated])
      (use assms(1,2) in \<open>auto simp: typed_admission_def intro: capability_inject\<close>)
  with scope who pk root show ?thesis by blast
qed

lemma outcome_inject:
  assumes "typed_attestation a" "typed_attestation b" "outcome_signing_bytes a = outcome_signing_bytes b"
  shows "a \<lparr> at_signature := sig \<rparr> = b \<lparr> at_signature := sig \<rparr>"
proof -
  let ?tail = "\<lambda>a. [char_of (signing_code (at_outcome a)), char_of (at_weight a)] @ field (at_context a) @ be_i128 (signed_at a)"
  let ?body = "\<lambda>a. uuid_bytes (at_target a) @ uuid_bytes (attestor a) @ field (event_ref a) @ ?tail a"
  have "scope_signing_bytes (at_scope a) @ ?body a = scope_signing_bytes (at_scope b) @ ?body b"
    using assms(3) by (simp add: outcome_signing_bytes_def)
  then have scope: "at_scope a = at_scope b" and "?body a = ?body b"
    using scope_inject assms(1,2) unfolding typed_attestation_def by blast+
  then have ids: "at_target a = at_target b" "attestor a = attestor b" and "field (event_ref a) @ ?tail a = field (event_ref b) @ ?tail b"
    using fixed_inject(1) by blast+
  then have event: "event_ref a = event_ref b" and tail: "?tail a = ?tail b"
    using field_inject assms(1,2) unfolding typed_attestation_def by blast+
  have codes: "signing_code o' < 256" for o' by (cases o') simp_all
  from tail have "(char_of (signing_code (at_outcome a)) :: char) = char_of (signing_code (at_outcome b))"
    "(char_of (at_weight a) :: char) = char_of (at_weight b)"
    and "field (at_context a) @ be_i128 (signed_at a) = field (at_context b) @ be_i128 (signed_at b)" by simp_all
  then have "signing_code (at_outcome a) = signing_code (at_outcome b)" "at_weight a = at_weight b"
    "at_context a = at_context b" "be_i128 (signed_at a) = be_i128 (signed_at b)"
    using assms(1,2) codes field_inject unfolding typed_attestation_def by (metis mod_less of_char_of)+
  moreover from this(1) have "at_outcome a = at_outcome b" by (cases "at_outcome a"; cases "at_outcome b") simp_all
  ultimately show ?thesis
    using scope ids event assms(1,2) by (simp add: typed_attestation_def be_i128_inject)
qed

lemma concat_32_inject:
  "length xs = length ys \<Longrightarrow> \<forall>k \<in> set xs. length k = 32 \<Longrightarrow> \<forall>k \<in> set ys. length k = 32 \<Longrightarrow>
   concat xs @ zs = concat ys @ ws \<Longrightarrow> xs = ys \<and> zs = ws"
proof (induction xs ys rule: list_induct2)
  case (Cons x xs y ys)
  then have "x = y \<and> concat xs @ zs = concat ys @ ws" by (auto dest: fixed_inject(3))
  with Cons show ?case by simp
qed simp

lemma manifest_inject:
  assumes "typed_manifest L m" "typed_manifest L n" "manifest_signing_bytes L m = manifest_signing_bytes L n"
  shows "mf_scope m = mf_scope n \<and> generation m = generation n \<and>
    f64_to_bits (pl_f64 L) (trust_threshold m) = f64_to_bits (pl_f64 L) (trust_threshold n) \<and>
    room_roots m = room_roots n \<and> issuer_pubkey m = issuer_pubkey n"
proof -
  let ?keys = "\<lambda>m. concat (room_roots m) @ issuer_pubkey m"
  let ?body = "\<lambda>m. be64 (generation m) @ be64 (f64_to_bits (pl_f64 L) (trust_threshold m)) @ be64 (length (room_roots m)) @ ?keys m"
  have "scope_signing_bytes (mf_scope m) @ ?body m = scope_signing_bytes (mf_scope n) @ ?body n"
    using assms(3) by (simp add: manifest_signing_bytes_def)
  then have scope: "mf_scope m = mf_scope n" and body: "?body m = ?body n"
    using scope_inject assms(1,2) unfolding typed_manifest_def by blast+
  from fixed_inject(2) [OF _ _ body] have gen: "generation m = generation n"
    and bits: "be64 (f64_to_bits (pl_f64 L) (trust_threshold m)) @ be64 (length (room_roots m)) @ ?keys m =
      be64 (f64_to_bits (pl_f64 L) (trust_threshold n)) @ be64 (length (room_roots n)) @ ?keys n"
    using assms(1,2) unfolding typed_manifest_def by blast+
  from fixed_inject(2) [OF _ _ bits] have thr: "f64_to_bits (pl_f64 L) (trust_threshold m) = f64_to_bits (pl_f64 L) (trust_threshold n)"
    and len: "be64 (length (room_roots m)) @ ?keys m = be64 (length (room_roots n)) @ ?keys n"
    using assms(1,2) unfolding typed_manifest_def by blast+
  from fixed_inject(2) [OF _ _ len] have "length (room_roots m) = length (room_roots n)" "?keys m = ?keys n"
    using assms(1,2) unfolding typed_manifest_def by blast+
  then have "room_roots m = room_roots n \<and> issuer_pubkey m = issuer_pubkey n"
    using assms(1,2) unfolding typed_manifest_def by (intro concat_32_inject) auto
  with scope gen thr show ?thesis by blast
qed

text \<open>
  Property C38. A signature of the room's trust chain binds exactly one statement. Two admissions with the
  same signed bytes agree on scope, principal, both keys and the capabilities (up to their order, with
  names, kinds, grantor and expiry); two outcomes agree on everything but the signature; two manifests on
  scope, generation, threshold bits, roots and issuer; and no bytes are statements of two kinds.
\<close>

theorem signed_statements_bind:
  assumes "typed_admission a" "typed_admission b" "typed_attestation o1" "typed_attestation o2"
    "typed_manifest L m" "typed_manifest L n"
  shows "(admission_signing_bytes a = admission_signing_bytes b \<longrightarrow>
      ad_scope a = ad_scope b \<and> ad_principal a = ad_principal b \<and> principal_pubkey a = principal_pubkey b \<and>
      admission_root a = admission_root b \<and> mset (admitted_capabilities a) = mset (admitted_capabilities b)) \<and>
    (outcome_signing_bytes o1 = outcome_signing_bytes o2 \<longrightarrow> o1 \<lparr> at_signature := sig \<rparr> = o2 \<lparr> at_signature := sig \<rparr>) \<and>
    (manifest_signing_bytes L m = manifest_signing_bytes L n \<longrightarrow>
      mf_scope m = mf_scope n \<and> generation m = generation n \<and>
      f64_to_bits (pl_f64 L) (trust_threshold m) = f64_to_bits (pl_f64 L) (trust_threshold n) \<and>
      room_roots m = room_roots n \<and> issuer_pubkey m = issuer_pubkey n) \<and>
    admission_signing_bytes a \<noteq> outcome_signing_bytes o1 \<and> admission_signing_bytes a \<noteq> manifest_signing_bytes L m \<and>
    outcome_signing_bytes o1 \<noteq> manifest_signing_bytes L m"
proof -
  have domains: "field ''henosis-pistis-admission-v1'' @ xs \<noteq> field ''henosis-pistis-outcome-v1'' @ ys"
    "field ''henosis-pistis-admission-v1'' @ xs \<noteq> field ''henosis-pistis-room-manifest-v1'' @ ys"
    "field ''henosis-pistis-outcome-v1'' @ xs \<noteq> field ''henosis-pistis-room-manifest-v1'' @ ys" for xs ys
    by (rule notI, drule field_inject [rotated 2], simp_all add: short_def)+
  then have "admission_signing_bytes a \<noteq> outcome_signing_bytes o1 \<and> admission_signing_bytes a \<noteq> manifest_signing_bytes L m \<and>
      outcome_signing_bytes o1 \<noteq> manifest_signing_bytes L m"
    by (simp add: admission_signing_bytes_def outcome_signing_bytes_def manifest_signing_bytes_def Let_def)
  then show ?thesis
    using admission_inject [OF assms(1,2)] outcome_inject [OF assms(3,4)] manifest_inject [OF assms(5,6)] by blast
qed



section \<open>What the gate lets through\<close>

definition signed_by :: "'f pistis_lib \<Rightarrow> bytes \<Rightarrow> bytes \<Rightarrow> bytes \<Rightarrow> bool" where
  "signed_by L key msg sig \<longleftrightarrow> pk_error L key = None \<and> length sig = 64 \<and> pk_verify_strict L key msg sig"

lemma pk_verify_Inr [simp]: "pk_verify L key msg sig = Inr x \<longleftrightarrow> signed_by L key msg sig"
  by (auto simp: pk_verify_def signed_by_def split: option.splits)

lemma is_ok_pk_verify [simp]: "is_ok (pk_verify L key msg sig) \<longleftrightarrow> signed_by L key msg sig"
  by (simp add: is_ok_iff)

definition admission_valid :: "'f pistis_lib \<Rightarrow> admission \<Rightarrow> room_scope \<Rightarrow> bytes list \<Rightarrow> bool" where
  "admission_valid L a scope roots \<longleftrightarrow> ad_scope a = scope \<and> principal_pubkey a \<noteq> admission_root a \<and>
     admission_root a \<in> set roots \<and> signed_by L (admission_root a) (admission_signing_bytes a) (admission_signature a)"

lemma verify_admission_Inr [simp]: "verify_admission L a scope roots = Inr x \<longleftrightarrow> admission_valid L a scope roots"
  by (auto simp: verify_admission_def admission_valid_def)

definition attestation_valid :: "'f pistis_lib \<Rightarrow> attestation \<Rightarrow> room_scope \<Rightarrow> bytes \<Rightarrow> bool" where
  "attestation_valid L a scope key \<longleftrightarrow> at_scope a = scope \<and> 1 \<le> at_weight a \<and> at_weight a \<le> 10 \<and>
     signed_by L key (outcome_signing_bytes a) (at_signature a)"

lemma verify_attestation_Inr [simp]: "verify_attestation L a scope key = Inr x \<longleftrightarrow> attestation_valid L a scope key"
  by (auto simp: verify_attestation_def attestation_valid_def)

definition manifest_valid :: "'f pistis_lib \<Rightarrow> 'f manifest \<Rightarrow> room_scope \<Rightarrow> bytes \<Rightarrow> nat \<Rightarrow> bool" where
  "manifest_valid L m scope issuer least \<longleftrightarrow> mf_scope m = scope \<and> issuer_pubkey m = issuer \<and> least \<le> generation m \<and>
     f64_in_range (pl_f64 L) (zero_f L) (one_f L) (trust_threshold m) \<and>
     signed_by L issuer (manifest_signing_bytes L m) (mf_signature m)"

lemma verify_manifest_Inr [simp]: "verify_manifest L m scope issuer least = Inr x \<longleftrightarrow> manifest_valid L m scope issuer least"
  by (auto simp: verify_manifest_def manifest_valid_def)

lemma sequenced:
  "(case x of Inl e \<Rightarrow> Inl e | Inr _ \<Rightarrow> y) = Inr v \<longleftrightarrow> x = Inr () \<and> y = Inr v"
  for x :: "pistis_error + unit" by (cases x) simp_all

lemma verify_admitted_Inr:
  "verify_admitted L scope roots xs = Inr () \<longleftrightarrow> (\<forall>(p, a) \<in> set xs. p = ad_principal a \<and> admission_valid L a scope roots)"
proof (induction xs)
  case (Cons x xs)
  have "verify_admitted L scope roots (x # xs) = Inr () \<longleftrightarrow>
      fst x = ad_principal (snd x) \<and> admission_valid L (snd x) scope roots \<and> verify_admitted L scope roots xs = Inr ()"
    by (cases x) (simp add: sequenced)
  then show ?case by (auto simp: Cons.IH)
qed simp

definition event_key :: "uuid \<times> attestation \<Rightarrow> uuid \<times> uuid \<times> string" where
  "event_key x = (at_target (snd x), attestor (snd x), event_ref (snd x))"

definition outcome_valid :: "'f pistis_lib \<Rightarrow> room_scope \<Rightarrow> (uuid \<times> admission) list \<Rightarrow> uuid \<times> attestation \<Rightarrow> bool" where
  "outcome_valid L scope admitted x \<longleftrightarrow> fst x = at_target (snd x) \<and> \<not> is_self_attestation (snd x) \<and>
     (\<exists>a. map_of admitted (attestor (snd x)) = Some a \<and> attestation_valid L (snd x) scope (principal_pubkey a))"

lemma verify_outcomes_Inr:
  "verify_outcomes L scope admitted observed xs = Inr () \<longleftrightarrow>
     (\<forall>x \<in> set xs. outcome_valid L scope admitted x) \<and> distinct (map event_key xs) \<and> event_key ` set xs \<inter> set observed = {}"
proof (induction xs arbitrary: observed)
  case (Cons x xs)
  have "verify_outcomes L scope admitted observed (x # xs) = Inr () \<longleftrightarrow>
      outcome_valid L scope admitted x \<and> event_key x \<notin> set observed \<and>
      verify_outcomes L scope admitted (event_key x # observed) xs = Inr ()"
    by (cases x) (simp add: outcome_valid_def event_key_def Let_def sequenced split: option.splits)
  then show ?case by (auto simp: Cons.IH)
qed simp

lemma verify_for_Inr:
  "verify_for L s scope pins = Inr v \<longleftrightarrow>
     (\<exists>p. map_of pins scope = Some p \<and> manifest_valid L (rs_manifest s) scope (pin_issuer p) (minimum_generation p)) \<and>
     (\<forall>(p, a) \<in> set (rs_admitted s). p = ad_principal a \<and> admission_valid L a scope (room_roots (rs_manifest s))) \<and>
     (\<forall>x \<in> set (all_outcomes (rs_outcomes s)). outcome_valid L scope (rs_admitted s) x) \<and>
     distinct (map event_key (all_outcomes (rs_outcomes s))) \<and>
     v = \<lparr> vr_scope = scope, vr_threshold = trust_threshold (rs_manifest s), vr_admitted = rs_admitted s,
       vr_outcomes = rs_outcomes s \<rparr>"
  by (cases "map_of pins scope") (auto simp: verify_for_def sequenced verify_admitted_Inr verify_outcomes_Inr)

lemma cap_is_valid_iff: "cap_is_valid c now \<longleftrightarrow> (\<forall>t. cap_expires_at c = Some t \<longrightarrow> now < t)"
  by (simp add: cap_is_valid_def split: option.splits)

lemma authorize_allowed:
  "authorize_capabilities L v who required now = Some d \<Longrightarrow> cd_allowed d \<longleftrightarrow>
     (\<exists>a score. map_of (vr_admitted v) who = Some a \<and> compute_trust L v who now = Some score \<and>
        f64_in_range (pl_f64 L) (zero_f L) (one_f L) (vr_threshold v) \<and> f64_is_finite (pl_f64 L) score \<and>
        \<not> f64_less (pl_f64 L) score (vr_threshold v) \<and> (\<forall>x \<in> set required. holds a now x))"
  by (auto simp: authorize_capabilities_def Let_def filter_empty_conv split: option.splits if_splits)

text \<open>The trust chain of one authorised request, from the gate's own pin down to the capability.\<close>

definition vouched :: "'f pistis_lib \<Rightarrow> trust_store \<Rightarrow> room_scope \<Rightarrow> uuid \<Rightarrow> capability_requirement list \<Rightarrow> int \<Rightarrow> bool" where
  "vouched L pins scope who required now \<longleftrightarrow>
     (\<exists>p m a. map_of pins scope = Some p \<and> manifest_valid L m scope (pin_issuer p) (minimum_generation p) \<and>
        ad_principal a = who \<and> admission_valid L a scope (room_roots m) \<and>
        (\<forall>x \<in> set required. \<exists>c \<in> set (admitted_capabilities a).
           cap_name c = req_name x \<and> req_kind x \<in> set (cap_kinds c) \<and> (\<forall>t. cap_expires_at c = Some t \<longrightarrow> now < t)))"

lemma pistis_check_allows:
  assumes "pistis_check L E r s = Some Allow"
  shows "\<exists>required name st v score.
    pe_policy E (inv_tool (req_invocation r), inv_action (req_invocation r)) = Some required \<and>
    room (req_context r) = Some name \<and>
    (let scope = \<lparr> scope_tenant = ctx_tenant (req_context r), scope_room = name \<rparr>; who = ctx_principal (req_context r) in
     pe_source E s scope = Some st \<and> verify_for L st scope (pe_trust E) = Inr v \<and>
     vouched L (pe_trust E) scope who required (pe_now E s) \<and>
     compute_trust L v who (pe_now E s) = Some score \<and> f64_is_finite (pl_f64 L) score \<and>
     \<not> f64_less (pl_f64 L) score (vr_threshold v))"
proof -
  define scope where "scope = (\<lambda>name. \<lparr> scope_tenant = ctx_tenant (req_context r), scope_room = name \<rparr>)"
  obtain required name st v d where
    pol: "pe_policy E (inv_tool (req_invocation r), inv_action (req_invocation r)) = Some required" and
    name: "room (req_context r) = Some name" and st: "pe_source E s (scope name) = Some st" and
    v: "verify_for L st (scope name) (pe_trust E) = Inr v" and
    d: "authorize_capabilities L v (ctx_principal (req_context r)) required (pe_now E s) = Some d" "cd_allowed d"
    using assms by (auto simp: pistis_check_def Let_def scope_def split: option.splits sum.splits if_splits)
  obtain a score where a: "map_of (vr_admitted v) (ctx_principal (req_context r)) = Some a"
    and score: "compute_trust L v (ctx_principal (req_context r)) (pe_now E s) = Some score"
      "f64_is_finite (pl_f64 L) score" "\<not> f64_less (pl_f64 L) score (vr_threshold v)"
    and held: "\<forall>x \<in> set required. holds a (pe_now E s) x"
    using authorize_allowed [OF d(1)] d(2) by blast
  obtain p where p: "map_of (pe_trust E) (scope name) = Some p"
    "manifest_valid L (rs_manifest st) (scope name) (pin_issuer p) (minimum_generation p)" and
    adm: "vr_admitted v = rs_admitted st" "\<forall>(p, a) \<in> set (rs_admitted st). p = ad_principal a \<and>
      admission_valid L a (scope name) (room_roots (rs_manifest st))"
    using v by (auto simp: verify_for_Inr)
  have "(ctx_principal (req_context r), a) \<in> set (rs_admitted st)" using a adm(1) by (auto dest: map_of_SomeD)
  then have "ad_principal a = ctx_principal (req_context r)" "admission_valid L a (scope name) (room_roots (rs_manifest st))"
    using adm(2) by auto
  moreover have "\<exists>c \<in> set (admitted_capabilities a). cap_name c = req_name x \<and> req_kind x \<in> set (cap_kinds c) \<and>
      (\<forall>t. cap_expires_at c = Some t \<longrightarrow> pe_now E s < t)" if "x \<in> set required" for x
    using held that by (auto simp: holds_def list_ex_iff cap_is_valid_iff)
  ultimately have "vouched L (pe_trust E) (scope name) (ctx_principal (req_context r)) required (pe_now E s)"
    using p unfolding vouched_def by blast
  with pol name st v score show ?thesis unfolding Let_def scope_def by blast
qed

text \<open>
  Property C12. Pistis lets a request through only along a full trust chain for the caller's own tenant and
  the named room: the host's policy lists the tool and action; the room's manifest is of exactly that
  scope, signed by the issuer the gate itself pins and not older than its floor; the caller has an
  admission of that scope signed by a root of the manifest; every required capability is in it and has
  not expired; and the recomputed score is finite and not below the threshold of the verified room.
  The arguments of the invocation, which the caller chooses, play no part.
\<close>

theorem pistis_gate_allows_only:
  assumes "gate_check (pistis_gate L E) r s = (s', Inr Allow)"
  shows "s' = s \<and> pistis_check L E (r \<lparr> req_invocation := (req_invocation r) \<lparr> inv_args := args \<rparr> \<rparr>) s = Some Allow \<and>
    (\<exists>required name st v score.
      pe_policy E (inv_tool (req_invocation r), inv_action (req_invocation r)) = Some required \<and>
      room (req_context r) = Some name \<and>
      (let scope = \<lparr> scope_tenant = ctx_tenant (req_context r), scope_room = name \<rparr>; who = ctx_principal (req_context r) in
       pe_source E s scope = Some st \<and> verify_for L st scope (pe_trust E) = Inr v \<and>
       vouched L (pe_trust E) scope who required (pe_now E s) \<and>
       compute_trust L v who (pe_now E s) = Some score \<and> f64_is_finite (pl_f64 L) score \<and>
       \<not> f64_less (pl_f64 L) score (vr_threshold v)))"
proof -
  have c: "pistis_check L E r s = Some Allow" and "s' = s"
    using assms by (auto simp: pistis_gate_def split: option.splits)
  moreover have "pistis_check L E (r \<lparr> req_invocation := (req_invocation r) \<lparr> inv_args := args \<rparr> \<rparr>) s = pistis_check L E r s"
    by (simp add: pistis_check_def Let_def cong: option.case_cong sum.case_cong)
  ultimately show ?thesis using pistis_check_allows [OF c] by (simp only:)
qed


section \<open>The pins of the gate\<close>

definition pin_forward :: "trust_pin \<Rightarrow> trust_pin \<Rightarrow> bool" where
  "pin_forward p q \<longleftrightarrow> pin_issuer q = pin_issuer p \<and> minimum_generation p \<le> minimum_generation q"

definition pin_step :: "room_scope \<times> bytes \<times> nat \<Rightarrow> trust_store \<Rightarrow> trust_store \<times> (pistis_error + unit)" where
  "pin_step x pins = pin pins (fst x) (fst (snd x)) (snd (snd x))"

lemma pin_step_entry:
  "map_of pins scope = Some p \<Longrightarrow> \<exists>q. map_of (fst (pin_step x pins)) scope = Some q \<and> pin_forward p q"
  by (auto simp: pin_step_def pin_def pin_forward_def update_conv' Let_def split: option.splits)

interpretation pins: progress_store pin_step "\<lambda>_. True" "\<lambda>_. True" map_of pin_forward
  by unfold_locales (auto simp: pin_forward_def pin_step_entry [unfolded pin_forward_def])

text \<open>
  Once a room is pinned, no sequence of pinning operations changes its issuer or lowers its
  generation floor, so a manifest the store accepts later is from the same issuer and at least as new.
\<close>

theorem pins_only_tighten:
  assumes "map_of pins scope = Some p"
  shows "\<exists>q. map_of (fst (run pin_step ops pins)) scope = Some q \<and> pin_issuer q = pin_issuer p \<and>
    minimum_generation p \<le> minimum_generation q"
  using pins.entry_run [where s = pins and xs = ops and k = scope and v = p] assms by (auto simp: pin_forward_def list_all_iff)



section \<open>Rooms the materializer builds\<close>

definition pistis_keys_ok :: "'f pistis_lib \<Rightarrow> bool" where
  "pistis_keys_ok L \<longleftrightarrow> (\<forall>k m. signed_by L (sk_public L k) m (sk_sign L k m))"

text \<open>What holds of the snapshot after every successful or refused step of the materializer.\<close>

definition room_ok :: "'f pistis_lib \<Rightarrow> 'f manifest \<Rightarrow> 'f room_state \<Rightarrow> bool" where
  "room_ok L m s \<longleftrightarrow> rs_manifest s = m \<and>
     (\<forall>(p, a) \<in> set (rs_admitted s). p = ad_principal a \<and> admission_valid L a (mf_scope m) (room_roots m)) \<and>
     distinct (map fst (rs_outcomes s)) \<and>
     (\<forall>x \<in> set (all_outcomes (rs_outcomes s)). outcome_valid L (mf_scope m) (rs_admitted s) x) \<and>
     distinct (map event_key (all_outcomes (rs_outcomes s)))"

lemma room_ok_verifies:
  assumes "room_ok L m s" and "map_of pins (mf_scope m) = Some p"
    and "manifest_valid L m (mf_scope m) (pin_issuer p) (minimum_generation p)"
  shows "verify_for L s (mf_scope m) pins = Inr \<lparr> vr_scope = mf_scope m, vr_threshold = trust_threshold m,
    vr_admitted = rs_admitted s, vr_outcomes = rs_outcomes s \<rparr>"
  using assms by (auto simp: verify_for_Inr room_ok_def)

lemma set_update_sub: "set (AList.update k v xs) \<subseteq> insert (k, v) (set xs)"
  by (induction xs) auto

lemma admit_room_ok:
  assumes "room_ok L m s" "rs_outcomes s = []"
  shows "room_ok L m (fst (admit L a s)) \<and> rs_outcomes (fst (admit L a s)) = []"
  using assms set_update_sub [of "ad_principal a" a "rs_admitted s"]
  by (auto simp: admit_def room_ok_def all_outcomes_def split: sum.splits)

lemma admit_all_room_ok:
  "room_ok L m s \<Longrightarrow> rs_outcomes s = [] \<Longrightarrow> admit_all L as s = Inr s' \<Longrightarrow> room_ok L m s' \<and> rs_outcomes s' = []"
proof (induction as arbitrary: s)
  case (Cons a as)
  obtain s1 x where s1: "admit L a s = (s1, x)" by fastforce
  then have "room_ok L m s1 \<and> rs_outcomes s1 = []" using admit_room_ok [OF Cons.prems(1,2), of a] by simp
  with Cons s1 show ?case by (auto split: sum.splits)
qed simp

lemma all_outcomes_update:
  "distinct (map fst xs) \<Longrightarrow> mset (all_outcomes (AList.update t ys xs)) + mset (map (Pair t) (outcomes_of xs t)) =
   mset (all_outcomes xs) + mset (map (Pair t) ys)"
proof (induction xs)
  case Nil
  then show ?case by (simp add: all_outcomes_def outcomes_of_def)
next
  case (Cons x xs)
  obtain k zs where x: "x = (k, zs)" by (cases x)
  show ?case
  proof (cases "k = t")
    case True
    then show ?thesis by (simp add: x all_outcomes_def outcomes_of_def)
  next
    case False
    have "mset (all_outcomes (AList.update t ys xs)) + mset (map (Pair t) (outcomes_of xs t)) =
      mset (all_outcomes xs) + mset (map (Pair t) ys)"
      using Cons by simp
    with False show ?thesis by (simp add: x all_outcomes_def outcomes_of_def ac_simps)
  qed
qed

lemma all_outcomes_append:
  assumes "distinct (map fst xs)"
  shows "mset (all_outcomes (AList.update t (outcomes_of xs t @ new) xs)) = mset (all_outcomes xs) + mset (map (Pair t) new)"
  using all_outcomes_update [OF assms, of t "outcomes_of xs t @ new"] by (simp add: ac_simps)

lemma outcomes_in: "distinct (map fst xs) \<Longrightarrow> (t, a) \<in> set (all_outcomes xs) \<longleftrightarrow> a \<in> set (outcomes_of xs t)"
  by (induction xs) (auto simp: all_outcomes_def outcomes_of_def image_iff split: option.splits)

lemma record_room_ok:
  assumes ok: "room_ok L m s"
  shows "room_ok L m (fst (record_outcome_in L a s)) \<and> rs_admitted (fst (record_outcome_in L a s)) = rs_admitted s"
proof -
  let ?old = "outcomes_of (rs_outcomes s) (at_target a)"
  have dist: "distinct (map fst (rs_outcomes s))" and m: "rs_manifest s = m" using ok by (simp_all add: room_ok_def)
  have keep: "room_ok L m (s \<lparr> rs_outcomes := AList.update (at_target a) (?old @ new) (rs_outcomes s) \<rparr>)"
    if new: "mset (all_outcomes (rs_outcomes s)) + mset (map (Pair (at_target a)) new) = mset ys"
      and valid: "\<forall>x \<in> set ys. outcome_valid L (mf_scope m) (rs_admitted s) x" "distinct (map event_key ys)" for new ys
  proof -
    have "mset (all_outcomes (AList.update (at_target a) (?old @ new) (rs_outcomes s))) = mset ys"
      using all_outcomes_append [OF dist, of "at_target a" new] new by simp
    then have "set (all_outcomes (AList.update (at_target a) (?old @ new) (rs_outcomes s))) = set ys"
      "distinct (map event_key (all_outcomes (AList.update (at_target a) (?old @ new) (rs_outcomes s))))"
      using valid(2) by (metis set_mset_mset, metis mset_eq_imp_distinct_iff mset_map)
    then show ?thesis using ok valid(1) distinct_update [OF dist] by (simp add: room_ok_def)
  qed
  show ?thesis
  proof (cases "is_self_attestation a \<or> map_of (rs_admitted s) (attestor a) = None")
    case True
    then show ?thesis using ok by (auto simp: record_outcome_in_def)
  next
    case False
    then obtain ad where ad: "\<not> is_self_attestation a" "map_of (rs_admitted s) (attestor a) = Some ad" by auto
    show ?thesis
    proof (cases "attestation_valid L a (mf_scope m) (principal_pubkey ad)")
      case False
      then have "verify_attestation L a (mf_scope m) (principal_pubkey ad) \<noteq> Inr ()" by simp
      then obtain e where "verify_attestation L a (mf_scope m) (principal_pubkey ad) = Inl e"
        by (cases "verify_attestation L a (mf_scope m) (principal_pubkey ad)") auto
      then show ?thesis using ok ad m by (simp add: record_outcome_in_def del: verify_attestation_Inr)
    next
      case True
      then have ver: "verify_attestation L a (mf_scope m) (principal_pubkey ad) = Inr ()" by simp
      show ?thesis
      proof (cases "replays a ?old")
        case True
        then show ?thesis
          using keep [of "[]" "all_outcomes (rs_outcomes s)"] ok ad m ver
          by (simp add: record_outcome_in_def room_ok_def Let_def del: verify_attestation_Inr)
      next
        case False
        let ?ys = "(at_target a, a) # all_outcomes (rs_outcomes s)"
        have "event_key (at_target a, a) \<notin> event_key ` set (all_outcomes (rs_outcomes s))"
        proof
          assume "event_key (at_target a, a) \<in> event_key ` set (all_outcomes (rs_outcomes s))"
          then obtain t b where b: "(t, b) \<in> set (all_outcomes (rs_outcomes s))" "event_key (at_target a, a) = event_key (t, b)"
            by auto
          then have "t = at_target b" using ok by (auto simp: room_ok_def outcome_valid_def)
          with b have "b \<in> set ?old" "attestor b = attestor a" "event_ref b = event_ref a"
            by (auto simp: event_key_def outcomes_in [OF dist])
          with False show False by (auto simp: replays_def list_ex_iff)
        qed
        moreover have "outcome_valid L (mf_scope m) (rs_admitted s) (at_target a, a)"
          using ad \<open>attestation_valid L a (mf_scope m) (principal_pubkey ad)\<close> by (simp add: outcome_valid_def)
        ultimately show ?thesis
          using keep [of "[a]" ?ys] ok False ad m ver
          by (simp add: record_outcome_in_def room_ok_def Let_def del: verify_attestation_Inr)
      qed
    qed
  qed
qed

definition record_step :: "'f pistis_lib \<Rightarrow> attestation \<Rightarrow> 'f room_state \<Rightarrow> 'f room_state \<times> (pistis_error + unit)" where
  "record_step L a s = record_outcome_in L a s"

interpretation recording: Ledger.store "record_step L" "\<lambda>_. True" "room_ok L m"
  by unfold_locales (simp add: record_step_def record_room_ok)

text \<open>
  What the materializer builds, the gate accepts. A room from genesis with an in-range
  threshold, after any sequence of recorded outcomes (those refused included: self-attestations,
  strangers, bad signatures, replays), verifies in full under a pin of its issuer whose floor is not above
  its generation, and the verified room carries exactly its admissions and outcomes.
\<close>

theorem materialized_room_verifies:
  assumes "pistis_keys_ok L" and "from_genesis L scope gen threshold roots issuer_key initial = Inr s0"
    and "f64_in_range (pl_f64 L) (zero_f L) (one_f L) threshold"
    and "map_of pins scope = Some p" "pin_issuer p = sk_public L issuer_key" "minimum_generation p \<le> gen"
  shows "(let s = fst (run (record_step L) outcomes s0) in
    verify_for L s scope pins = Inr \<lparr> vr_scope = scope, vr_threshold = threshold,
      vr_admitted = rs_admitted s0, vr_outcomes = rs_outcomes s \<rparr>)"
proof -
  let ?m = "manifest_new L scope gen threshold roots issuer_key"
  have m: "mf_scope ?m = scope" "trust_threshold ?m = threshold" by (simp_all add: manifest_new_def Let_def)
  have valid: "manifest_valid L ?m scope (pin_issuer p) (minimum_generation p)"
    using assms(1,3,5,6) by (simp add: manifest_valid_def manifest_new_def Let_def pistis_keys_ok_def manifest_signing_bytes_def)
  have "room_ok L ?m \<lparr> rs_manifest = ?m, rs_admitted = [], rs_outcomes = [] \<rparr>"
    by (simp add: room_ok_def all_outcomes_def)
  then have s0: "room_ok L ?m s0"
    using admit_all_room_ok [of L ?m _ initial s0] assms(2) by (simp add: from_genesis_def)
  have admitted: "rs_admitted (fst (run (record_step L) outcomes s)) = rs_admitted s" if "room_ok L ?m s" for s
    using that
  proof (induction outcomes arbitrary: s)
    case (Cons x xs)
    then show ?case using record_room_ok [of L ?m s x] by (simp add: run_Cons record_step_def del: run.simps(2))
  qed simp
  have "room_ok L ?m (fst (run (record_step L) outcomes s0))"
    using recording.inv_run [OF s0] by (simp add: list_all_iff)
  from room_ok_verifies [OF this, of pins p] show ?thesis
    using valid assms(4) m admitted [OF s0] by (simp add: Let_def)
qed

text \<open>
  Replacing the admission of an attestor locks its room: when the room holds an outcome that
  the attestor signed and the new admission carries another key, under which that signature does not
  verify, the replacement is accepted by the materializer, and from then on the room fails verification
  under every trust store, so no request in it is authorised.
\<close>

theorem readmission_locks_room:
  assumes "(at_target o', o') \<in> set (all_outcomes (rs_outcomes s))"
    and "ad_principal a = attestor o'"
    and "admission_valid L a (mf_scope (rs_manifest s)) (room_roots (rs_manifest s))"
    and "\<not> signed_by L (principal_pubkey a) (outcome_signing_bytes o') (at_signature o')"
  shows "snd (admit L a s) = Inr () \<and> (\<forall>scope pins. \<not> is_ok (verify_for L (fst (admit L a s)) scope pins))"
proof -
  have ad: "admit L a s = (s \<lparr> rs_admitted := AList.update (ad_principal a) a (rs_admitted s) \<rparr>, Inr ())"
  proof -
    have "verify_admission L a (mf_scope (rs_manifest s)) (room_roots (rs_manifest s)) = Inr ()" using assms(3) by simp
    then show ?thesis by (simp add: admit_def del: verify_admission_Inr)
  qed
  have "\<not> outcome_valid L scope (AList.update (ad_principal a) a (rs_admitted s)) (at_target o', o')" for scope
    using assms(2,4) by (simp add: outcome_valid_def update_conv' attestation_valid_def)
  moreover have "outcome_valid L scope (AList.update (ad_principal a) a (rs_admitted s)) (at_target o', o')"
    if "verify_for L (fst (admit L a s)) scope pins = Inr v" for scope pins v
  proof -
    have "\<forall>x \<in> set (all_outcomes (rs_outcomes s)). outcome_valid L scope (AList.update (ad_principal a) a (rs_admitted s)) x"
      using that unfolding verify_for_Inr ad by simp
    with assms(1) show ?thesis by blast
  qed
  ultimately have "\<not> is_ok (verify_for L (fst (admit L a s)) scope pins)" for scope pins
    unfolding is_ok_iff by blast
  moreover have "snd (admit L a s) = Inr ()" unfolding ad by (rule snd_conv)
  ultimately show ?thesis by blast
qed



section \<open>Bounds of the trust score\<close>

text \<open>What a sequence of outcomes counted with.\<close>

definition account_step ::
    "attestation \<Rightarrow> (attestation \<times> nat) list \<times> contributions \<Rightarrow> (attestation \<times> nat) list \<times> contributions" where
  "account_step a st =
     (case contribute a (snd st) of
        (None, c') \<Rightarrow> (fst st, c')
      | (Some e, c') \<Rightarrow> (fst st @ [(a, e)], c'))"

definition counted :: "attestation list \<Rightarrow> (attestation \<times> nat) list" where
  "counted as = fst (fold account_step as ([], \<lambda>_. []))"

definition counted_by :: "uuid \<Rightarrow> (attestation \<times> nat) list \<Rightarrow> (int \<times> nat) list" where
  "counted_by p log = map (\<lambda>(a, e). (signed_at a, e)) (filter (\<lambda>(a, e). attestor a = p) log)"

definition window_sum :: "int \<Rightarrow> int \<Rightarrow> (int \<times> nat) list \<Rightarrow> nat" where
  "window_sum lo hi xs = sum_list (map snd (filter (\<lambda>(t, _). lo \<le> t \<and> t \<le> hi) xs))"

definition account_ok :: "int \<Rightarrow> (attestation \<times> nat) list \<times> contributions \<Rightarrow> bool" where
  "account_ok now st \<longleftrightarrow>
     (\<forall>p. (\<exists>cut \<le> now - days_nanos 30. snd st p = filter (\<lambda>(t, _). cut \<le> t) (counted_by p (fst st))) \<and>
        (\<forall>hi. window_sum (hi - days_nanos 30) hi (counted_by p (fst st)) \<le> ATTESTOR_CAP))"

lemma sum_filter_mono:
  "(\<And>x. P x \<Longrightarrow> Q x) \<Longrightarrow> sum_list (map snd (filter P xs)) \<le> (sum_list (map snd (filter Q xs)) :: nat)"
  by (induction xs) (auto simp: trans_le_add2)

lemma days_pos: "0 \<le> days_nanos 30"
  by (simp add: days_nanos_def)

lemma account_ok_step:
  assumes ok: "account_ok now st" and later: "now \<le> signed_at a"
  shows "account_ok (signed_at a) (account_step a st)"
proof -
  let ?t = "signed_at a" and ?p = "attestor a"
  let ?history = "filter (\<lambda>(t, _). ?t - days_nanos 30 \<le> t) (snd st ?p)"
  let ?logged = "counted_by ?p (fst st)"
  obtain cut where cut: "cut \<le> now - days_nanos 30" "snd st ?p = filter (\<lambda>(t, _). cut \<le> t) ?logged"
    using ok by (auto simp: account_ok_def)
  have history: "?history = filter (\<lambda>(t, _). ?t - days_nanos 30 \<le> t) ?logged"
    using cut later by (auto simp: case_prod_unfold intro!: filter_cong)
  have other: "\<exists>cut \<le> ?t - days_nanos 30. snd st p = filter (\<lambda>(t, _). cut \<le> t) (counted_by p (fst st))" for p
    using ok later unfolding account_ok_def by (meson diff_right_mono order_trans)
  have window: "window_sum (hi - days_nanos 30) hi (counted_by p (fst st)) \<le> ATTESTOR_CAP" for p hi
    using ok by (simp add: account_ok_def)
  show ?thesis
  proof (cases "ATTESTOR_CAP - sum_list (map snd ?history) = 0")
    case True
    then have "account_step a st = (fst st, (snd st)(?p := ?history))"
      by (simp add: account_step_def contribute_def)
    then show ?thesis
      using other window history by (auto simp: account_ok_def)
  next
    case False
    let ?e = "min (at_weight a) (ATTESTOR_CAP - sum_list (map snd ?history))"
    have step: "account_step a st = (fst st @ [(a, ?e)], (snd st)(?p := ?history @ [(?t, ?e)]))"
      using False by (simp add: account_step_def contribute_def Let_def)
    have log: "counted_by p (fst st @ [(a, ?e)]) = counted_by p (fst st) @ (if p = ?p then [(?t, ?e)] else [])" for p
      by (simp add: counted_by_def)
    have cap: "sum_list (map snd ?history) + ?e \<le> ATTESTOR_CAP" using False by simp
    have capped: "window_sum (hi - days_nanos 30) hi (?logged @ [(?t, ?e)]) \<le> ATTESTOR_CAP" for hi
    proof (cases "?t \<le> hi")
      case True
      have "window_sum (hi - days_nanos 30) hi ?logged \<le> sum_list (map snd ?history)"
        unfolding window_sum_def history using True by (intro sum_filter_mono) auto
      then show ?thesis using cap by (auto simp: window_sum_def)
    next
      case False
      then show ?thesis using window [of hi ?p] by (simp add: window_sum_def)
    qed
    have kept: "\<exists>cut \<le> ?t - days_nanos 30. ((snd st)(?p := ?history @ [(?t, ?e)])) p =
        filter (\<lambda>(t, _). cut \<le> t) (counted_by p (fst st) @ (if p = ?p then [(?t, ?e)] else []))" for p
    proof (cases "p = ?p")
      case True
      have "?history @ [(?t, ?e)] = filter (\<lambda>(t, _). ?t - days_nanos 30 \<le> t) (?logged @ [(?t, ?e)])"
        using history days_pos by simp
      with True show ?thesis by (intro exI [of _ "?t - days_nanos 30"]) simp
    next
      case False
      then show ?thesis using other [of p] by simp
    qed
    have windows: "window_sum (hi - days_nanos 30) hi (counted_by p (fst st) @ (if p = ?p then [(?t, ?e)] else [])) \<le> ATTESTOR_CAP"
      for p hi using capped window by (cases "p = ?p") simp_all
    show ?thesis
      unfolding account_ok_def step fst_conv snd_conv log using kept windows by blast
  qed
qed

lemma account_ok_fold:
  "account_ok now st \<Longrightarrow> sorted (map signed_at as) \<Longrightarrow> \<forall>a \<in> set as. now \<le> signed_at a \<Longrightarrow>
   \<exists>now'. account_ok now' (fold account_step as st)"
proof (induction as arbitrary: now st)
  case (Cons a as)
  then show ?case using account_ok_step [of now st a] Cons.IH [of "signed_at a" "account_step a st"] by simp
qed auto

lemma counted_capped:
  assumes "sorted (map signed_at as)"
  shows "window_sum (hi - days_nanos 30) hi (counted_by p (counted as)) \<le> ATTESTOR_CAP"
proof (cases as)
  case Nil
  then show ?thesis by (simp add: counted_def counted_by_def window_sum_def)
next
  case (Cons a as')
  have "account_ok (signed_at a) ([], \<lambda>_. [])"
    by (auto simp: account_ok_def counted_by_def window_sum_def)
  then have "\<exists>now'. account_ok now' (fold account_step as ([], \<lambda>_. []))"
    using assms Cons by (intro account_ok_fold) auto
  then show ?thesis by (auto simp: account_ok_def counted_def)
qed

text \<open>
  The score that \<open>compute_trust\<close> returns lies between zero and one unless it is no number,
  and no attestor counts for more than the cap: over the outcomes in the order the loop takes them, the
  effective weights of one attestor inside any thirty days sum to at most fifty.
\<close>

theorem trust_bounded:
  assumes "f64_order (pl_f64 L)" and "compute_trust L v target now = Some score"
  shows "(f64_number (pl_f64 L) score \<longrightarrow> f64_in_range (pl_f64 L) (zero_f L) (one_f L) score) \<and>
    (let timeline = sort_key signed_at (filter (usable L v target now (outcomes_of (vr_outcomes v) target))
        (outcomes_of (vr_outcomes v) target))
     in window_sum (hi - days_nanos 30) hi (counted_by p (counted timeline)) \<le> ATTESTOR_CAP)"
proof -
  have "score = NEUTRAL_TRUST L \<or> (\<exists>x. score = f64_clamp (pl_f64 L) x (zero_f L) (one_f L))"
    using assms(2) by (auto simp: compute_trust_def Let_def split: list.splits option.splits prod.splits)
  moreover have "f64_in_range (pl_f64 L) (zero_f L) (one_f L) (f64_clamp (pl_f64 L) x (zero_f L) (one_f L))"
    if "f64_number (pl_f64 L) (f64_clamp (pl_f64 L) x (zero_f L) (one_f L))" for x
  proof (cases "f64_number (pl_f64 L) x")
    case True
    then show ?thesis using clamp_in_range [OF assms(1) True] by (simp add: zero_f_def one_f_def)
  next
    case False
    then show ?thesis
      using that f64_order_dest(2,3) [OF assms(1)]
      by (auto simp: f64_clamp_def f64_in_range_def zero_f_def one_f_def f64_number_def split: if_splits)
  qed
  moreover have "f64_in_range (pl_f64 L) (zero_f L) (one_f L) (NEUTRAL_TRUST L)"
    using f64_order_dest(4) [OF assms(1)] by (simp add: NEUTRAL_TRUST_def zero_f_def one_f_def)
  ultimately show ?thesis using counted_capped by (auto simp: Let_def)
qed



section \<open>Concrete inputs\<close>

text \<open>A scheme in which the secret key is the public key and every signature is 64 bytes of that key's first.\<close>

definition sample_pistis :: "int pistis_lib" where
  "sample_pistis = \<lparr> pl_f64 = fixed_f64, pl_uuid = sample_uuid_lib, pk_error = (\<lambda>_. None),
     pk_verify_strict = (\<lambda>key msg sig. sig = replicate 64 (hd key)), sk_sign = (\<lambda>key msg. replicate 64 (hd key)),
     sk_public = (\<lambda>key. key), odt_min = - (10 ^ 20) \<rparr>"

definition sample_scope :: room_scope where
  "sample_scope = \<lparr> scope_tenant = 8, scope_room = ''r'' \<rparr>"

definition key_of :: "char \<Rightarrow> bytes" where "key_of c = replicate 32 c"

definition sample_admission :: "uuid \<Rightarrow> char \<Rightarrow> admission" where
  "sample_admission who c = admission_new sample_pistis sample_scope who (key_of c) (key_of CHR ''R'')
     [\<lparr> cap_name = ''henosis'', cap_kinds = [Message], granted_by = [], cap_expires_at = None \<rparr>]"

definition sample_outcome :: "outcome \<Rightarrow> attestation" where
  "sample_outcome out = attestation_new sample_pistis \<lparr> at_scope = sample_scope, at_target = 24, attestor = 40,
     event_ref = ''e'', at_outcome = out, at_weight = 10, at_context = [], signed_at = 0, at_signature = [] \<rparr> (key_of CHR ''B'')"

definition sample_room :: "int room_state" where
  "sample_room = \<lparr> rs_manifest = manifest_new sample_pistis sample_scope 3 (default_threshold sample_pistis)
       [key_of CHR ''R''] (key_of CHR ''I''),
     rs_admitted = [(24, sample_admission 24 CHR ''A''), (40, sample_admission 40 CHR ''B'')], rs_outcomes = [] \<rparr>"

definition sample_pins :: trust_store where
  "sample_pins = [(sample_scope, \<lparr> pin_issuer = key_of CHR ''I'', minimum_generation = 3 \<rparr>)]"

lemma key_of_facts [simp]: "length (key_of c) = 32" "hd (key_of c) = c" "(key_of c = key_of d) = (c = d)"
proof -
  have "key_of c = c # replicate 31 c" for c by (simp add: key_of_def numeral_eq_Suc)
  then show "hd (key_of c) = c" "(key_of c = key_of d) = (c = d)" by auto
qed (simp add: key_of_def)

lemma sample_signed [simp]: "signed_by sample_pistis key msg sig \<longleftrightarrow> sig = replicate 64 (hd key)"
  by (auto simp: signed_by_def sample_pistis_def)

lemma sample_keys_ok: "pistis_keys_ok sample_pistis"
  by (simp add: pistis_keys_ok_def) (simp add: sample_pistis_def)

lemma sample_admission_fields:
  "ad_scope (sample_admission who c) = sample_scope" "ad_principal (sample_admission who c) = who"
  "principal_pubkey (sample_admission who c) = key_of c" "admission_root (sample_admission who c) = key_of CHR ''R''"
  "admission_signature (sample_admission who c) = replicate 64 CHR ''R''"
  "admitted_capabilities (sample_admission who c) =
     [\<lparr> cap_name = ''henosis'', cap_kinds = [Message], granted_by = [], cap_expires_at = None \<rparr>]"
  by (simp_all add: sample_admission_def admission_new_def Let_def) (simp_all add: sample_pistis_def)

lemma sample_admission_valid:
  "c \<noteq> CHR ''R'' \<Longrightarrow> admission_valid sample_pistis (sample_admission who c) sample_scope [key_of CHR ''R'']"
  by (simp add: admission_valid_def sample_admission_fields)

lemma sample_outcome_fields:
  "at_scope (sample_outcome out) = sample_scope" "at_target (sample_outcome out) = 24" "attestor (sample_outcome out) = 40"
  "event_ref (sample_outcome out) = ''e''" "at_outcome (sample_outcome out) = out" "at_weight (sample_outcome out) = 10"
  "signed_at (sample_outcome out) = 0" "at_context (sample_outcome out) = []"
  "at_signature (sample_outcome out) = replicate 64 CHR ''B''"
  by (simp_all add: sample_outcome_def attestation_new_def) (simp add: sample_pistis_def)

lemma sample_manifest:
  "mf_scope (rs_manifest sample_room) = sample_scope" "room_roots (rs_manifest sample_room) = [key_of CHR ''R'']"
  "trust_threshold (rs_manifest sample_room) = 400000000"
  "manifest_valid sample_pistis (rs_manifest sample_room) sample_scope (key_of CHR ''I'') 3"
  by (simp_all add: sample_room_def manifest_new_def Let_def manifest_valid_def default_threshold_def)
    (simp_all add: sample_pistis_def fixed_f64_def f64_in_range_def zero_f_def one_f_def)

lemma sample_room_ok: "room_ok sample_pistis (rs_manifest sample_room) sample_room"
  by (simp add: room_ok_def sample_manifest all_outcomes_def)
    (simp add: sample_room_def sample_admission_fields sample_admission_valid)

definition voted_room :: "outcome \<Rightarrow> int verified_room" where
  "voted_room out = \<lparr> vr_scope = sample_scope, vr_threshold = 400000000, vr_admitted = rs_admitted sample_room,
     vr_outcomes = [(24, [sample_outcome out])] \<rparr>"

lemma voted_room_verifies:
  "verify_for sample_pistis (fst (record_outcome_in sample_pistis (sample_outcome out) sample_room)) sample_scope sample_pins =
   Inr (voted_room out)"
proof -
  have "verify_attestation sample_pistis (sample_outcome out) sample_scope (key_of CHR ''B'') = Inr ()"
    by (simp add: attestation_valid_def sample_outcome_fields)
  moreover have "map_of (rs_admitted sample_room) 40 = Some (sample_admission 40 CHR ''B'')" "rs_outcomes sample_room = []"
    by (simp_all add: sample_room_def)
  ultimately have "fst (record_outcome_in sample_pistis (sample_outcome out) sample_room) =
      sample_room \<lparr> rs_outcomes := [(24, [sample_outcome out])] \<rparr>"
    by (simp add: record_outcome_in_def is_self_attestation_def sample_outcome_fields sample_manifest sample_admission_fields
        outcomes_of_def replays_def del: verify_attestation_Inr)
  then show ?thesis
    using room_ok_verifies [OF conjunct1 [OF record_room_ok [OF sample_room_ok, of "sample_outcome out"]], of sample_pins]
    by (simp add: sample_manifest sample_pins_def voted_room_def)
qed

lemma voted_timeline:
  "filter (usable sample_pistis (voted_room out) 24 0 [sample_outcome out]) [sample_outcome out] = [sample_outcome out]"
proof -
  have "map_of (rs_admitted sample_room) 40 = Some (sample_admission 40 CHR ''B'')" by (simp add: sample_room_def)
  moreover have "is_ok (verify_attestation sample_pistis (sample_outcome out) sample_scope (key_of CHR ''B''))"
    by (simp add: is_ok_iff attestation_valid_def sample_outcome_fields)
  ultimately show ?thesis
    by (simp add: usable_def voted_room_def sample_outcome_fields is_self_attestation_def sample_admission_fields)
qed

lemma voted_score:
  "compute_trust sample_pistis (voted_room out) 24 0 =
   Some (case out of Success \<Rightarrow> 1000000000 | Failure \<Rightarrow> 0 | Indeterminate \<Rightarrow> 500000000)"
proof -
  have "outcomes_of (vr_outcomes (voted_room out)) 24 = [sample_outcome out]" by (simp add: voted_room_def outcomes_of_def)
  then have "compute_trust sample_pistis (voted_room out) 24 0 =
    (case trust_loop sample_pistis [sample_outcome out] (NEUTRAL_TRUST sample_pistis) 0 (\<lambda>_. []) of
       None \<Rightarrow> None
     | Some (score, updated) \<Rightarrow> Some (f64_clamp (pl_f64 sample_pistis) (apply_decay sample_pistis score updated 0)
         (zero_f sample_pistis) (one_f sample_pistis)))"
    using voted_timeline [of out] by (simp add: compute_trust_def sample_outcome_fields Let_def)
  then show ?thesis
    by (cases out) (simp_all add: trust_step_def contribute_def sample_outcome_fields apply_decay_def apply_outcome_def
        days_nanos_def ATTESTOR_CAP_def WEIGHT_NORMALIZATION_def NEUTRAL_TRUST_def SUCCESS_RATE_def FAILURE_RATE_def
        zero_f_def one_f_def f64_clamp_def sample_pistis_def fixed_f64_def Let_def)
qed

text \<open>
  The cap does not keep one attestor from deciding: in a room at the default threshold a
  single attested failure of weight ten, far below the cap of fifty, takes the score of a principal
  without history from one half to zero and so vetoes it, and a single success of weight ten takes it to
  one. (The raw weight enters the effective weight twice, so weight ten counts ten times the rate.)
\<close>

theorem single_attestation_decides:
  "compute_trust sample_pistis (voted_room Failure) 24 0 = Some (zero_f sample_pistis) \<and>
   f64_less (pl_f64 sample_pistis) (zero_f sample_pistis) (vr_threshold (voted_room Failure)) \<and>
   compute_trust sample_pistis (voted_room Success) 24 0 = Some (one_f sample_pistis) \<and>
   verify_for sample_pistis (fst (record_outcome_in sample_pistis (sample_outcome Failure) sample_room)) sample_scope sample_pins =
     Inr (voted_room Failure)"
  using voted_score [of Failure] voted_score [of Success] voted_room_verifies [of Failure]
  by (simp add: voted_room_def zero_f_def one_f_def) (simp add: sample_pistis_def fixed_f64_def)

theorem trust_bounded_witness:
  "f64_in_range fixed_f64 0 1000000000 (500000000 :: int) \<and>
   compute_trust sample_pistis (voted_room Indeterminate) 24 0 = Some 500000000"
proof -
  have L: "pl_f64 sample_pistis = fixed_f64" by (simp add: sample_pistis_def)
  have score: "compute_trust sample_pistis (voted_room Indeterminate) 24 0 = Some 500000000"
    using voted_score [of Indeterminate] by simp
  have "f64_number fixed_f64 (500000000 :: int)" by (simp add: f64_number_def fixed_f64_def)
  then have "f64_in_range fixed_f64 (zero_f sample_pistis) (one_f sample_pistis) (500000000 :: int)"
    using trust_bounded [OF _ score, of 0 40] fixed_f64_order by (simp add: L)
  then show ?thesis using score by (simp add: zero_f_def one_f_def L) (simp add: fixed_f64_def)
qed

theorem signed_statements_bind_witness:
  "admission_signing_bytes (sample_admission 24 CHR ''A'') \<noteq> admission_signing_bytes (sample_admission 40 CHR ''A'')"
proof -
  have scope: "typed_scope sample_scope" by (simp add: typed_scope_def sample_scope_def short_def)
  have "typed_capability \<lparr> cap_name = ''henosis'', cap_kinds = [Message], granted_by = [], cap_expires_at = None \<rparr>"
    by (simp add: typed_capability_def short_def capability_signing_bytes_def field_def)
  then have A: "typed_admission (sample_admission who c)" for who c
    using scope by (simp add: typed_admission_def sample_admission_fields)
  have O: "typed_attestation (sample_outcome Success)"
    using scope by (simp add: typed_attestation_def sample_outcome_fields short_def i128_range_def)
  have M: "typed_manifest sample_pistis (rs_manifest sample_room)"
    using scope by (simp add: typed_manifest_def sample_manifest) (simp add: sample_room_def manifest_new_def sample_pistis_def fixed_f64_def)
  show ?thesis
    using signed_statements_bind [OF A [of 24 "CHR ''A''"] A [of 40 "CHR ''A''"] O O M M]
    by (auto simp: sample_admission_fields)
qed

theorem pins_only_tighten_witness:
  "\<exists>q. map_of (fst (run pin_step [(sample_scope, key_of CHR ''X'', 0), (sample_scope, key_of CHR ''I'', 5)] sample_pins)) sample_scope =
     Some q \<and> pin_issuer q = key_of CHR ''I''"
  using pins_only_tighten [of sample_pins sample_scope "\<lparr> pin_issuer = key_of CHR ''I'', minimum_generation = 3 \<rparr>"
      "[(sample_scope, key_of CHR ''X'', 0), (sample_scope, key_of CHR ''I'', 5)]"]
  by (auto simp: sample_pins_def simp del: run.simps)

definition sample_env :: "(int, nat) pistis_env" where
  "sample_env = \<lparr> pe_source = (\<lambda>_ scope. if scope = sample_scope then Some sample_room else None),
     pe_trust = sample_pins, pe_policy = canonical_policy, pe_now = (\<lambda>_. 0) \<rparr>"

definition probe_request :: gate_request where
  "probe_request = \<lparr>
     req_context = \<lparr> ctx_tenant = 8, ctx_principal = 24, persona = None, ctx_session = None,
       room = Some ''r'', ctx_task = None, workflow = None, authority = None \<rparr>,
     req_invocation = \<lparr> inv_tool = ''henosis'', inv_action = ''probe'', inv_args = JNull \<rparr> \<rparr>"

lemma probe_allowed: "gate_check (pistis_gate sample_pistis sample_env) probe_request 0 = (0, Inr Allow)"
proof -
  have policy: "canonical_policy (''henosis'', ''probe'') = Some [\<lparr> req_name = ''henosis'', req_kind = Message \<rparr>]"
    by (simp add: canonical_policy_def canonical_entries_def register_def)
  have room: "verify_for sample_pistis sample_room sample_scope sample_pins =
      Inr \<lparr> vr_scope = sample_scope, vr_threshold = 400000000, vr_admitted = rs_admitted sample_room, vr_outcomes = [] \<rparr>"
  proof -
    have "rs_outcomes sample_room = []" by (simp add: sample_room_def)
    then show ?thesis
      using room_ok_verifies [OF sample_room_ok, of sample_pins] by (simp add: sample_manifest sample_pins_def)
  qed
  have "map_of (rs_admitted sample_room) 24 = Some (sample_admission 24 CHR ''A'')" by (simp add: sample_room_def)
  then show ?thesis
    using policy room
    by (simp add: pistis_gate_def pistis_check_def probe_request_def sample_env_def sample_scope_def [symmetric]
        authorize_capabilities_def compute_trust_def outcomes_of_def holds_def sample_admission_fields cap_is_valid_def Let_def)
      (simp add: sample_pistis_def fixed_f64_def zero_f_def one_f_def f64_in_range_def NEUTRAL_TRUST_def)
qed

theorem pistis_gate_allows_only_witness:
  "\<exists>required. canonical_policy (''henosis'', ''probe'') = Some required \<and>
     vouched sample_pistis sample_pins sample_scope 24 required 0"
  using pistis_gate_allows_only [OF probe_allowed, of JNull]
  by (auto simp: probe_request_def sample_env_def sample_scope_def Let_def)

theorem materialized_room_verifies_witness:
  "verify_for sample_pistis (fst (run (record_step sample_pistis) [sample_outcome Success, sample_outcome Failure] sample_room))
     sample_scope sample_pins = Inr (voted_room Success)"
proof -
  have genesis: "from_genesis sample_pistis sample_scope 3 (default_threshold sample_pistis) [key_of CHR ''R''] (key_of CHR ''I'')
      [sample_admission 24 CHR ''A'', sample_admission 40 CHR ''B''] = Inr sample_room"
  proof -
    have "verify_admission sample_pistis (sample_admission who c) sample_scope [key_of CHR ''R''] = Inr ()" if "c \<noteq> CHR ''R''" for who c
      using sample_admission_valid [OF that] by simp
    then show ?thesis
      by (simp add: from_genesis_def admit_def sample_room_def manifest_new_def Let_def sample_admission_fields del: verify_admission_Inr)
  qed
  have range: "f64_in_range (pl_f64 sample_pistis) (zero_f sample_pistis) (one_f sample_pistis) (default_threshold sample_pistis)"
    by (simp add: default_threshold_def zero_f_def one_f_def f64_in_range_def) (simp add: sample_pistis_def fixed_f64_def)
  have thr: "default_threshold sample_pistis = 400000000" by (simp add: default_threshold_def sample_pistis_def fixed_f64_def)
  have issuer: "sk_public sample_pistis k = k" for k by (simp add: sample_pistis_def)
  have outs: "rs_outcomes (fst (run (record_step sample_pistis) [sample_outcome Success, sample_outcome Failure] sample_room)) =
      [(24, [sample_outcome Success])]"
  proof -
    have "verify_attestation sample_pistis (sample_outcome out) sample_scope (key_of CHR ''B'') = Inr ()" for out
      by (simp add: attestation_valid_def sample_outcome_fields)
    moreover have "map_of (rs_admitted sample_room) 40 = Some (sample_admission 40 CHR ''B'')" "rs_outcomes sample_room = []"
      by (simp_all add: sample_room_def)
    ultimately show ?thesis
      by (simp add: record_step_def record_outcome_in_def is_self_attestation_def sample_outcome_fields sample_manifest
          sample_admission_fields outcomes_of_def replays_def Let_def del: verify_attestation_Inr)
  qed
  show ?thesis
    using materialized_room_verifies [OF sample_keys_ok genesis range, of sample_pins
        "\<lparr> pin_issuer = key_of CHR ''I'', minimum_generation = 3 \<rparr>" "[sample_outcome Success, sample_outcome Failure]"]
    by (simp add: sample_pins_def issuer thr outs voted_room_def Let_def del: run.simps)
qed

theorem readmission_locks_room_witness:
  "\<not> is_ok (verify_for sample_pistis (fst (admit sample_pistis (sample_admission 40 CHR ''C'')
      (sample_room \<lparr> rs_outcomes := [(24, [sample_outcome Success])] \<rparr>))) sample_scope sample_pins)"
  using readmission_locks_room [of "sample_outcome Success" "sample_room \<lparr> rs_outcomes := [(24, [sample_outcome Success])] \<rparr>"
      "sample_admission 40 CHR ''C''" sample_pistis]
  by (simp add: all_outcomes_def sample_outcome_fields sample_admission_fields sample_manifest sample_admission_valid)

end
