(* ===== verification/Governance.thy ===== *)
theory Governance
  imports Authority Pistis Plutus Eidolon
begin

text \<open>
  The governed dispatcher with its real authorities: the Pistis, Plutus and Eidolon gates and the
  Eidolon output filter of \<open>app.rs\<close> and \<open>main.rs\<close>, over the world of \<open>Authority\<close>. The local policy
  backend lives in a part of that world, reached through a getter and a setter; what holds of every
  executed request follows, for each gate, from the contract \<open>gate_establishes\<close>.
\<close>

section \<open>A backend on a part of the world\<close>

definition on_part :: "('w \<Rightarrow> 's) \<Rightarrow> ('s \<Rightarrow> 'w \<Rightarrow> 'w) \<Rightarrow> ('s \<Rightarrow> 's \<times> 'r) \<Rightarrow> 'w \<Rightarrow> 'w \<times> 'r" where
  "on_part get put op w = (case op (get w) of (s, r) \<Rightarrow> (put s w, r))"

definition lift_backend :: "('w \<Rightarrow> 's) \<Rightarrow> ('s \<Rightarrow> 'w \<Rightarrow> 'w) \<Rightarrow> 's gate_backend \<Rightarrow> 'w gate_backend" where
  "lift_backend get put B = \<lparr>
     org_status_of = (\<lambda>t. on_part get put (org_status_of B t)),
     member_role_of = (\<lambda>t p. on_part get put (member_role_of B t p)),
     check_and_increment = (\<lambda>t d n today. on_part get put (check_and_increment B t d n today)),
     rate_limit_ok = (\<lambda>t now. on_part get put (rate_limit_ok B t now)) \<rparr>"

definition local_plutus_gate ::
    "uuid_lib \<Rightarrow> 'f policy_lib \<Rightarrow> string \<Rightarrow> local_policy \<Rightarrow> ('w \<Rightarrow> 'f local_state) \<Rightarrow> ('f local_state \<Rightarrow> 'w \<Rightarrow> 'w) \<Rightarrow>
     'w plutus_clock \<Rightarrow> 'w gate" where
  "local_plutus_gate U F err LP get put K = plutus_gate (lift_backend get put (local_backend U F err LP)) K"

lemma plutus_allows_authorised:
  "gate_check (local_plutus_gate U F err LP get put K) r w = (w', Inr Allow) \<Longrightarrow> authorised LP r"
  by (auto simp: local_plutus_gate_def plutus_gate_def plutus_check_def lift_backend_def on_part_def local_ops
      local_org_status_def local_member_role_def authorised_def Let_def split: prod.splits if_splits)


section \<open>What each authority establishes\<close>

text \<open>Pistis: at some instant, a chain of trust from the gate's pins to the capabilities the host demands.\<close>

definition trusted_request :: "'f pistis_lib \<Rightarrow> ('f, 'w) pistis_env \<Rightarrow> gate_request \<Rightarrow> bool" where
  "trusted_request L E r \<longleftrightarrow> (\<exists>required name now.
     pe_policy E (inv_tool (req_invocation r), inv_action (req_invocation r)) = Some required \<and>
     room (req_context r) = Some name \<and>
     vouched L (pe_trust E) \<lparr> scope_tenant = ctx_tenant (req_context r), scope_room = name \<rparr>
       (ctx_principal (req_context r)) required now)"

lemma pistis_allows_trusted:
  "gate_check (pistis_gate L E) r w = (w', Inr Allow) \<Longrightarrow> trusted_request L E r"
proof -
  assume "gate_check (pistis_gate L E) r w = (w', Inr Allow)"
  then have "pistis_check L E r w = Some Allow" by (auto simp: pistis_gate_def split: option.splits)
  from pistis_check_allows [OF this] show "trusted_request L E r" unfolding trusted_request_def Let_def by blast
qed

text \<open>Eidolon: no foreign identity directly under an identity key, no forbidden phrase.\<close>

definition clean_request :: "text_lib \<Rightarrow> uuid_lib \<Rightarrow> eidolon_policy \<Rightarrow> gate_request \<Rightarrow> bool" where
  "clean_request T U P r \<longleftrightarrow> in_scope U (req_context r) (inv_args (req_invocation r)) \<and> \<not> injects T P (req_invocation r)"

definition eidolon_gate_of :: "text_lib \<Rightarrow> uuid_lib \<Rightarrow> eidolon_policy \<Rightarrow> 'w drift_signal \<Rightarrow> 'w gate" where
  "eidolon_gate_of T U P signal = \<lparr> gate_name = ''eidolon'', gate_check = eidolon_check T U P signal \<rparr>"

lemma eidolon_gate_new_Inr:
  "eidolon_gate_new T U P signal = Inr g \<longleftrightarrow> (\<exists>ns. normalize_patterns T (injection_patterns P) = Inr ns \<and>
     g = eidolon_gate_of T U (P \<lparr> injection_patterns := ns \<rparr>) signal)"
  by (auto simp: eidolon_gate_new_def eidolon_gate_of_def split: sum.splits)

interpretation pistis_slot: gate_establishes "governed S B (pistis_gate L E) plutus eidolon ex flt" "pistis_gate L E" "trusted_request L E"
  by unfold_locales (auto simp: governed_def public_gate_chain_def intro: pistis_allows_trusted)

interpretation plutus_slot: gate_establishes
    "governed S B pistis (local_plutus_gate U F err LP get put K) eidolon ex flt"
    "local_plutus_gate U F err LP get put K" "authorised LP"
  by unfold_locales (auto simp: governed_def public_gate_chain_def intro: plutus_allows_authorised)

interpretation eidolon_slot: gate_establishes
    "governed S B pistis plutus (eidolon_gate_of T U P signal) ex flt" "eidolon_gate_of T U P signal" "clean_request T U P"
  by unfold_locales (auto simp: governed_def public_gate_chain_def eidolon_gate_of_def clean_request_def eidolon_check_allows)

text \<open>
  Property C3. Nothing reaches the executor past any authority: with the real gates in their slots,
  whatever requests arrive and however their steps interleave with each other and with the rest of the
  world, every executed request had a full chain of trust for its own tenant and room (Pistis), was the
  configured operator's own with a role that covers its class (Plutus), had no foreign identifier (string,
  number or boolean) directly under a tenant or principal key and no forbidden phrase anywhere (Eidolon;
  arrays and objects under such a key are exempt), and named an approval where one is due.
\<close>

theorem executed_only_past_every_authority:
  assumes "eidolon_gate_new T U P signal = Inr g"
    and "governed_dispatcher S B (pistis_gate L E) (local_plutus_gate U F err LP get put K) g ex flt = Inr d"
    and "(sys_step d (typed_request (sy_uuid S)) (world_advances S))\<^sup>*\<^sup>* (idle w) c"
  shows "\<forall>r \<in> set (executions c). trusted_request L E r \<and> authorised LP r \<and>
    in_scope U (req_context r) (inv_args (req_invocation r)) \<and>
    (\<forall>text \<in> set (inv_tool (req_invocation r) # inv_action (req_invocation r) # surfaces (inv_args (req_invocation r))).
       \<forall>p \<in> set (injection_patterns P). \<not> sublist (normalize_text T p) (normalize_text T text)) \<and>
    names_approval (sy_uuid S) r"
proof -
  obtain ns where ns: "normalize_patterns T (injection_patterns P) = Inr ns"
    and g: "g = eidolon_gate_of T U (P \<lparr> injection_patterns := ns \<rparr>) signal"
    using assms(1) by (auto simp: eidolon_gate_new_Inr)
  have d: "d = governed S B (pistis_gate L E) (local_plutus_gate U F err LP get put K)
      (eidolon_gate_of T U (P \<lparr> injection_patterns := ns \<rparr>) signal) ex flt"
    using assms(2) by (simp add: governed_dispatcher_iff g)
  note run = assms(3) [unfolded d idle_def]
  have "\<forall>r \<in> set (executions c). clean_request T U (P \<lparr> injection_patterns := ns \<rparr>) r"
    by (rule eidolon_slot.executed_passed [OF run])
  moreover have "ns = map (normalize_text T) (injection_patterns P)" using ns by (simp add: normalize_patterns_Inr)
  ultimately have "\<forall>r \<in> set (executions c). in_scope U (req_context r) (inv_args (req_invocation r)) \<and>
    (\<forall>text \<in> set (inv_tool (req_invocation r) # inv_action (req_invocation r) # surfaces (inv_args (req_invocation r))).
       \<forall>p \<in> set (injection_patterns P). \<not> sublist (normalize_text T p) (normalize_text T text))"
    by (auto simp: clean_request_def injects_def)
  then show ?thesis
    using pistis_slot.executed_passed [OF run] plutus_slot.executed_passed [OF run] human_gate.executed_passed [OF run] by blast
qed

text \<open>
  Property C4. Whatever the governed dispatcher returns as a result was either replayed by the guard (the
  guard's own answer in this dispatch, in the state its gates left, was this recorded value), or the
  guard's answer was to execute, and the value is this executor call's result after the Eidolon filter:
  every sensitive field in it, at any depth, is the redaction marker, every other string comes from a
  string of the raw result with the matches of all matching credential shapes replaced, and this value,
  not the raw one, is what the guard recorded.
\<close>

theorem returned_results_redacted:
  assumes "eidolon_filter_new T P = Inr flt"
    and "governed_dispatcher S B pistis plutus eidolon ex flt = Inr d"
    and "snd (snd (dispatch d r w)) = Inr (Executed v)"
  shows "let guard = audit_execution_guard S B;
      answer = before_execute guard r (map gate_name (gates d)) (fst (gate_loop r [] (gates d) w))
    in snd answer = Inr (Cached v) \<or>
    (\<exists>w1 w2 raw. answer = (w1, Inr Execute) \<and>
       ex (req_context r) (req_invocation r) w1 = (w2, Inr raw) \<and>
       is_ok (snd (after_execute guard r (Succeeded v) w2)) \<and>
       (\<forall>(k, x) \<in> set (fields_of v).
          (\<exists>p \<in> set (sensitive_fields P). sublist (str_to_lowercase T (trim p)) (str_to_lowercase T k)) \<longrightarrow> x = JString REDACTED) \<and>
       (\<forall>t \<in> set (strings_of v). t = REDACTED \<or> (\<exists>text \<in> set (strings_of raw). secrets_replaced T text t)))"
proof -
  have d: "execution_guard d = Some (audit_execution_guard S B)" "output_filter d = Some flt" "executor d = ex"
    using assms(2) by (simp_all add: governed_dispatcher_iff governed_def)
  obtain F where F: "F = map (\<lambda>p. str_to_lowercase T (trim p)) (sensitive_fields P)" and flt: "flt = eidolon_filter T F"
    using assms(1) by (auto simp: eidolon_filter_new_def normalize_fields_Inr split: sum.splits if_splits)
  have keys: "sensitive_key T F k \<longleftrightarrow> (\<exists>p \<in> set (sensitive_fields P). sublist (str_to_lowercase T (trim p)) (str_to_lowercase T k))" for k
    by (auto simp: sensitive_key_def is_sensitive_def F list_ex_iff contains_def normalize_key_def)
  have redacted: "v = redact T F raw \<and> w4 = w3" if "apply_filter (Some flt) raw ctx w3 = (w4, v)" for raw ctx w3 w4
    using that by (auto simp: apply_filter_def flt eidolon_filter_def)
  let ?s1 = "fst (gate_loop r [] (gates d) w)" and ?names = "map gate_name (gates d)"
  consider (cached) "snd (before_execute (audit_execution_guard S B) r ?names ?s1) = Inr (Cached v)"
    | (run) w1 w2 raw w3 where "before_execute (audit_execution_guard S B) r ?names ?s1 = (w1, Inr Execute)"
        "ex (req_context r) (req_invocation r) w1 = (w2, Inr raw)"
        "apply_filter (Some flt) raw (req_context r) w2 = (w3, v)"
        "is_ok (snd (after_execute (audit_execution_guard S B) r (Succeeded v) w3))"
    using dispatch_result_filtered [OF assms(3)] by (auto simp: Let_def d)
  then show ?thesis
  proof cases
    case cached
    then show ?thesis by (simp add: Let_def)
  next
    case (run w1 w2 raw w3)
    then have "v = redact T F raw" "w3 = w2" using redacted by blast+
    moreover have "well_redacted T F raw (redact T F raw)" by (rule redact_well)
    ultimately have "is_ok (snd (after_execute (audit_execution_guard S B) r (Succeeded v) w2))"
      "\<forall>(k, x) \<in> set (fields_of v). (\<exists>p \<in> set (sensitive_fields P).
         sublist (str_to_lowercase T (trim p)) (str_to_lowercase T k)) \<longrightarrow> x = JString REDACTED"
      "\<forall>t \<in> set (strings_of v). t = REDACTED \<or> (\<exists>text \<in> set (strings_of raw). secrets_replaced T text t)"
      using run(4) unfolding well_redacted_def strings_replaced_def keys by simp_all
    with run(1,2) show ?thesis unfolding Let_def by blast
  qed
qed


section \<open>Concrete inputs\<close>

text \<open>The probe of the local installation, run by its operator through all five gates.\<close>

definition governed_probe :: gate_request where
  "governed_probe = probe_request \<lparr> req_context := (req_context probe_request)
     \<lparr> authority := Some \<lparr> token_identity = sample_id 4, idempotency_key = ''k1'', approval_id = None \<rparr> \<rparr> \<rparr>"

definition probe_env :: "(int, unit world) pistis_env" where
  "probe_env = \<lparr> pe_source = (\<lambda>_ scope. if scope = sample_scope then Some sample_room else None),
     pe_trust = sample_pins, pe_policy = canonical_policy, pe_now = (\<lambda>_. 0) \<rparr>"

definition probe_plutus :: "unit world gate" where
  "probe_plutus = local_plutus_gate sample_uuid_lib fixed_policy_lib [] (fst sample_policy_state)
     (\<lambda>_. snd sample_policy_state) (\<lambda>_ w. w) \<lparr> now_utc = (\<lambda>_. 0), today_utc = (\<lambda>_. ''d'') \<rparr>"

definition steady :: "unit world drift_signal" where
  "steady tenant agent w = (w, Inr [])"

definition quiet_text_policy :: eidolon_policy where
  "quiet_text_policy = sample_policy_text \<lparr> injection_patterns := [] \<rparr>"

definition probe_world :: "unit world" where
  "probe_world = \<lparr> w_audit = empty_db, w_approvals = [], w_rest = () \<rparr>"

definition probe_dispatcher :: "unit world dispatcher" where
  "probe_dispatcher = governed local_system Local (pistis_gate sample_pistis probe_env) probe_plutus
     (eidolon_gate_of ascii_text_lib sample_uuid_lib quiet_text_policy steady) push_executor
     (eidolon_filter ascii_text_lib [''token''])"

lemma probe_sel [simp]:
  "authority (req_context governed_probe) = Some \<lparr> token_identity = sample_id 4, idempotency_key = ''k1'', approval_id = None \<rparr>"
  "ctx_tenant (req_context governed_probe) = 8" "ctx_principal (req_context governed_probe) = 24"
  "inv_tool (req_invocation governed_probe) = ''henosis''" "inv_action (req_invocation governed_probe) = ''probe''"
  "inv_args (req_invocation governed_probe) = JNull"
  by (simp_all add: governed_probe_def probe_request_def)

definition probe_event :: audit_event_input where
  "probe_event = projr (event_input sample_uuid_lib governed_probe Intent
     (intent_payload Local governed_probe (the (authority (req_context governed_probe))) CANONICAL_GATE_ORDER))"

lemma probe_event_valid: "validate_execution_event probe_event Intent = Inr ()"
    "validate_metadata_payload (in_payload probe_event) = Inr ()" "plain_payload (in_payload probe_event)"
    "in_idempotency_key probe_event = Some ''k1''"
  by (simp_all add: probe_event_def event_input_def)
    (simp_all add: validate_execution_event_def validate_input_def graphic_identifier graphic_def
      graphic_short_text [unfolded graphic_def] sample_id_graphic [unfolded graphic_def]
      intent_payload_def validate_metadata_payload_def btree_collect_def json_opt_def
      validate_metadata_value_def allowed_metadata_key_def CANONICAL_GATE_ORDER_def is_witnessed_def)

lemma probe_guard_executes:
  "\<exists>w. guard_before local_system Local governed_probe CANONICAL_GATE_ORDER probe_world = (w, Inr Execute)"
proof -
  let ?L = "codec_lib \<lparr> al_sha256 := pad32 \<rparr>" and ?U = sample_uuid_lib
  let ?auth = "the (authority (req_context governed_probe))"
  have L: "audit_lib_ok ?L" using local_system_ok by (simp add: authority_ok_def system_ok_def)
  obtain db rec where claim: "claim_execution ?L sample_tick probe_event empty_db = (db, Inr (Acquired rec))"
    using claim_on_empty [OF L probe_event_valid(3,1,2,4)] by blast
  have "event_input ?U governed_probe Intent (intent_payload Local governed_probe ?auth CANONICAL_GATE_ORDER) = Inr probe_event"
    by (simp add: probe_event_def event_input_def)
  moreover have "boundary_claim_execution local_system Local probe_event probe_world = (probe_world \<lparr> w_audit := db \<rparr>, Inr (Acquired rec))"
    using claim by (simp add: boundary_claim_execution_def store_claim_def on_audit_def) (simp add: probe_world_def)
  ultimately show ?thesis by (simp add: guard_before_def claim_answer_def)
qed

lemma probe_pistis: "gate_check (pistis_gate sample_pistis probe_env) governed_probe w = (w, Inr Allow)"
proof -
  have "pistis_check sample_pistis probe_env governed_probe w = pistis_check sample_pistis sample_env probe_request 0"
    by (simp add: pistis_check_def governed_probe_def probe_request_def probe_env_def sample_env_def Let_def
        cong: option.case_cong sum.case_cong)
  moreover have "pistis_check sample_pistis sample_env probe_request 0 = Some Allow"
    using probe_allowed by (auto simp: pistis_gate_def split: option.splits)
  ultimately show ?thesis by (simp add: pistis_gate_def)
qed

lemma probe_plutus_allows: "gate_check probe_plutus governed_probe w = (w, Inr Allow)"
  by (simp add: probe_plutus_def local_plutus_gate_def plutus_gate_def plutus_check_def lift_backend_def on_part_def
      local_ops local_org_status_def local_member_role_def sample_policy_state_def local_policy_new_def map_invocation_def
      check_quota_def check_rate_def local_check_and_increment_def require_tenant_def i64_range_def local_rate_limit_ok_def
      consume_local_rate_token_def fixed_policy_lib_def fixed_f64_def f64_lib.defs Let_def)

lemma probe_eidolon:
  "gate_check (eidolon_gate_of ascii_text_lib sample_uuid_lib quiet_text_policy steady) governed_probe w = (w, Inr Allow)"
  by (simp add: eidolon_gate_of_def eidolon_check_allows in_scope_def fields_of_def injects_def quiet_text_policy_def
      steady_def)

lemma probe_governed:
  "eidolon_gate_new ascii_text_lib sample_uuid_lib quiet_text_policy steady =
     Inr (eidolon_gate_of ascii_text_lib sample_uuid_lib quiet_text_policy steady)"
  "governed_dispatcher local_system Local (pistis_gate sample_pistis probe_env) probe_plutus
     (eidolon_gate_of ascii_text_lib sample_uuid_lib quiet_text_policy steady) push_executor
     (eidolon_filter ascii_text_lib [''token'']) = Inr probe_dispatcher"
  by (simp_all add: eidolon_gate_new_Inr governed_dispatcher_iff probe_dispatcher_def)
    (simp_all add: quiet_text_policy_def pistis_gate_def probe_plutus_def local_plutus_gate_def plutus_gate_def eidolon_gate_of_def)

lemma probe_executes:
  "\<exists>c. (sys_step probe_dispatcher (typed_request sample_uuid_lib) env)\<^sup>*\<^sup>* (idle probe_world) c \<and>
     executions c = [governed_probe]"
proof -
  obtain w where w: "guard_before local_system Local governed_probe CANONICAL_GATE_ORDER probe_world = (w, Inr Execute)"
    using probe_guard_executes by blast
  let ?gs = "gates probe_dispatcher"
  let ?c = "\<lparr> shared = probe_world, tasks = [(governed_probe, AtGate [] ?gs)], executions = [] \<rparr>"
  have human: "durable_human_check local_system governed_probe probe_world = (probe_world, Inr Allow)"
    by (simp add: durable_human_check_def requires_human_approval_def reviewed_reads_def)
  have names: "gate_name (pistis_gate L E) = ''pistis''" "gate_name probe_plutus = ''plutus''"
    "gate_name (eidolon_gate_of T U P signal) = ''eidolon''" for L E T U P signal
    by (simp_all add: pistis_gate_def probe_plutus_def local_plutus_gate_def plutus_gate_def eidolon_gate_of_def)
  have "typed_request sample_uuid_lib governed_probe" by (simp add: typed_request_def sample_uuid_version)
  then have "sys_step probe_dispatcher (typed_request sample_uuid_lib) env (idle probe_world) ?c"
    using sys_step.arrive [of "typed_request sample_uuid_lib" governed_probe probe_dispatcher env "idle probe_world"]
    by (simp add: idle_def)
  moreover have "(sys_step probe_dispatcher (typed_request sample_uuid_lib) env)\<^sup>*\<^sup>* ?c (solo_run 8 probe_dispatcher governed_probe ?c)"
    by (rule solo_run_reachable) simp
  moreover have "executions (solo_run 8 probe_dispatcher governed_probe ?c) = [governed_probe]"
    using w human
    by (simp add: eval_nat_numeral probe_dispatcher_def governed_def public_gate_chain_def probe_pistis probe_plutus_allows
        probe_eidolon names durable_human_gate_def phylaxd_gate_def phylaxd_check_def audit_execution_guard_def
        push_executor_def CANONICAL_GATE_ORDER_def)
  ultimately show ?thesis by (meson converse_rtranclp_into_rtranclp)
qed

theorem executed_only_past_every_authority_witness:
  "\<exists>c. (sys_step probe_dispatcher (typed_request sample_uuid_lib) (world_advances local_system))\<^sup>*\<^sup>* (idle probe_world) c \<and>
     executions c = [governed_probe] \<and> trusted_request sample_pistis probe_env governed_probe \<and>
     authorised (fst sample_policy_state) governed_probe"
proof -
  obtain c where c: "(sys_step probe_dispatcher (typed_request sample_uuid_lib) (world_advances local_system))\<^sup>*\<^sup>*
      (idle probe_world) c" "executions c = [governed_probe]" using probe_executes by blast
  from executed_only_past_every_authority [OF probe_governed(1) probe_governed(2) [unfolded probe_plutus_def], where c = c] c
  show ?thesis by auto
qed

text \<open>A claim on an empty store and the completion that follows it, each at its own tick.\<close>

lemma claim_then_complete:
  assumes "audit_lib_ok L" "plain_payload (in_payload i)" "validate_execution_event i Intent = Inr ()"
    and "validate_metadata_payload (in_payload i) = Inr ()" "in_idempotency_key i = Some key"
    and "plain_payload p" "validate_execution_event (i \<lparr> in_phase := audit_phase.Outcome, in_payload := p \<rparr>) audit_phase.Outcome = Inr ()"
    and "validate_metadata_payload p = Inr ()" "payload_ok L result"
    and "length (canonical_json_string (al_serde L) result) \<le> MAX_SANITIZED_RESULT_BYTES"
  shows "\<exists>db rec db' rec'. claim_execution L sample_tick i empty_db = (db, Inr (Acquired rec)) \<and> db_events db \<noteq> [] \<and>
    complete_execution L sample_outcome_tick (i \<lparr> in_phase := audit_phase.Outcome, in_payload := p \<rparr>) result db = (db', Inr rec')"
proof -
  let ?o = "i \<lparr> in_phase := audit_phase.Outcome, in_payload := p \<rparr>" and ?r1 = "next_row L sample_tick i []"
  have p1: "payload_ok L (in_payload i)" and p2: "payload_ok L (in_payload ?o)"
    using assms(1,2,6) by (simp_all add: audit_lib_payload)
  have a1: "append_in_transaction L sample_tick i (request_hash_of L i) (payload_text L i) [] =
      Inr ([?r1], projr (record_from_row L ?r1))"
    using append_fresh_cases [OF events_ok_Nil p1, of sample_tick] assms(5)
    by (simp add: append_in_transaction_def load_by_idempotency_def query_record_def Let_def
        event_conflicts_def unix_timestamp_ms_def next_row_def tenant_rows_def)
  have ok: "events_ok L [?r1]"
    using events_ok_append [OF events_ok_Nil, of L sample_tick i] next_row_ok [OF p1] by (simp add: event_conflicts_def)
  have phase: "in_phase i = Intent" using assms(3) by (simp add: validate_execution_event_def split: sum.splits if_splits)
  obtain x where a2: "append_in_transaction L sample_outcome_tick ?o (request_hash_of L ?o) (payload_text L ?o) [?r1] =
      Inr ([?r1, next_row L sample_outcome_tick ?o [?r1]], x)"
    using append_fresh_cases [OF ok p2, of sample_outcome_tick] assms(5) phase
    by (auto simp: append_in_transaction_def load_by_idempotency_def query_record_def Let_def
        event_conflicts_def unix_timestamp_ms_def next_row_def tenant_rows_def)
  obtain rec where c: "claim_execution L sample_tick i empty_db =
      (empty_db \<lparr> db_events := [?r1], db_executions := [claimed_row L i key (projr (record_from_row L ?r1))] \<rparr>, Inr (Acquired rec))"
    using assms(3-5) a1
    by (simp add: claim_execution_def claim_new_def load_execution_record_def empty_db_def
        ensure_stream_writable_in_def load_stream_state_def insert_execution_def by_key_iff transact_def Let_def
        claimed_row_def execution_record_from_row_def parse_execution_state_def xkey_def)
  obtain v where v: "value_parse (al_serde L) (canonical_json_string (al_serde L) result) = Some v"
    using assms(9) by (auto simp: payload_ok_def)
  have "\<exists>db' rec'. complete_execution L sample_outcome_tick ?o result
      (empty_db \<lparr> db_events := [?r1], db_executions := [claimed_row L i key (projr (record_from_row L ?r1))] \<rparr>) = (db', Inr rec')"
    using a2 assms(5,7,8,10) v
    by (simp add: complete_execution_def transact_def load_execution_record_def empty_db_def by_key_iff claimed_row_def
        ensure_stream_writable_in_def load_stream_state_def ensure_execution_hash_def set_state_def Let_def
        unix_timestamp_ms_def sql_changed_def sql_update_def execution_record_from_row_def
        parse_execution_state_def xkey_def)
  with c show ?thesis by auto
qed

text \<open>A store whose clock moves: the claim and the completion get different ticks. The executor leaks a token.\<close>

definition moving_system :: "unit system" where
  "moving_system = local_system \<lparr> sy_tick :=
     (\<lambda>w. (w, if db_events (w_audit w) = [] then sample_tick else sample_outcome_tick)) \<rparr>"

definition leaky_executor :: "unit world executor" where
  "leaky_executor ctx i w = (w, Inr (JObject [(''token'', JString ''pushed'')]))"

abbreviation redacted_probe :: json where
  "redacted_probe \<equiv> JObject [(''token'', JString REDACTED)]"

definition leaky_dispatcher :: "unit world dispatcher" where
  "leaky_dispatcher = governed moving_system Local (pistis_gate sample_pistis probe_env) probe_plutus
     (eidolon_gate_of ascii_text_lib sample_uuid_lib quiet_text_policy steady) leaky_executor
     (eidolon_filter ascii_text_lib [''token''])"

lemma probe_guard_completes:
  "\<exists>w1 w2. guard_before moving_system Local governed_probe CANONICAL_GATE_ORDER probe_world = (w1, Inr Execute) \<and>
     guard_after moving_system Local governed_probe (Succeeded redacted_probe) w1 = (w2, Inr ())"
proof -
  let ?L = "codec_lib \<lparr> al_sha256 := pad32 \<rparr>" and ?U = sample_uuid_lib
  let ?auth = "the (authority (req_context governed_probe))" and ?p = "execution_outcome_payload governed_probe ''succeeded''"
  let ?o = "probe_event \<lparr> in_phase := audit_phase.Outcome, in_payload := ?p \<rparr>"
  have L: "audit_lib_ok ?L" using local_system_ok by (simp add: authority_ok_def system_ok_def)
  have i: "event_input ?U governed_probe Intent (intent_payload Local governed_probe ?auth CANONICAL_GATE_ORDER) = Inr probe_event"
    and o: "event_input ?U governed_probe audit_phase.Outcome ?p = Inr ?o"
    by (simp_all add: probe_event_def event_input_def)
  have valid: "validate_execution_event ?o audit_phase.Outcome = Inr ()" "validate_metadata_payload ?p = Inr ()"
    using probe_event_valid(1,4)
    by (simp_all add: validate_execution_event_def validate_input_def split: sum.splits if_splits)
      (simp_all add: execution_outcome_payload_def validate_metadata_payload_def btree_collect_def
        validate_metadata_value_def allowed_metadata_key_def graphic_def graphic_short_text [unfolded graphic_def])
  have r: "payload_ok ?L redacted_probe" using L by (simp add: audit_lib_payload plain_payload_def plain_value_def)
  have len: "length (canonical_json_string (al_serde ?L) redacted_probe) \<le> MAX_SANITIZED_RESULT_BYTES"
    by (simp add: canonical_json_string_def codec_lib_def codec_serde_def btree_collect_def enc_json_def
        enc_value_def enc_nat_def REDACTED_def MAX_SANITIZED_RESULT_BYTES_def)
  obtain db rec db' rec' where claim: "claim_execution ?L sample_tick probe_event empty_db = (db, Inr (Acquired rec))"
    and events: "db_events db \<noteq> []"
    and complete: "complete_execution ?L sample_outcome_tick ?o redacted_probe db = (db', Inr rec')"
    using claim_then_complete [OF L probe_event_valid(3,1,2,4) _ valid r len] by (auto simp: plain_payloads)
  have sel: "sy_lib moving_system = ?L" "sy_uuid moving_system = ?U"
    "sy_tick moving_system = (\<lambda>w. (w, if db_events (w_audit w) = [] then sample_tick else sample_outcome_tick))"
    by (simp_all add: moving_system_def)
  let ?w = "probe_world \<lparr> w_audit := db \<rparr>"
  have "db_events empty_db = []" by (simp add: empty_db_def)
  then have "boundary_claim_execution moving_system Local probe_event probe_world = (?w, Inr (Acquired rec))"
    using claim by (simp add: boundary_claim_execution_def store_claim_def on_audit_def sel probe_world_def)
  then have before: "guard_before moving_system Local governed_probe CANONICAL_GATE_ORDER probe_world = (?w, Inr Execute)"
    using i by (simp add: guard_before_def claim_answer_def sel)
  have "boundary_complete_execution moving_system Local ?o redacted_probe ?w = (?w \<lparr> w_audit := db' \<rparr>, Inr ())"
    using complete events by (simp add: boundary_complete_execution_def store_complete_def on_audit_def sel ok_unit_def)
  then have "guard_after moving_system Local governed_probe (Succeeded redacted_probe) ?w = (?w \<lparr> w_audit := db' \<rparr>, Inr ())"
    using o by (simp add: guard_after_def sel and_then_def)
  with before show ?thesis by blast
qed

theorem returned_results_redacted_witness:
  "snd (snd (dispatch leaky_dispatcher governed_probe probe_world)) = Inr (Executed redacted_probe) \<and>
   (\<exists>w1 w2 raw. leaky_executor (req_context governed_probe) (req_invocation governed_probe) w1 = (w2, Inr raw) \<and>
       is_ok (snd (after_execute (audit_execution_guard moving_system Local) governed_probe (Succeeded redacted_probe) w2)) \<and>
       (\<forall>t \<in> set (strings_of redacted_probe). t = REDACTED \<or>
          (\<exists>text \<in> set (strings_of raw). secrets_replaced ascii_text_lib text t)))"
proof -
  obtain w1 w2 where g: "guard_before moving_system Local governed_probe CANONICAL_GATE_ORDER probe_world = (w1, Inr Execute)"
    "guard_after moving_system Local governed_probe (Succeeded redacted_probe) w1 = (w2, Inr ())"
    using probe_guard_completes by blast
  have t: "str_to_lowercase ascii_text_lib (trim ''token'') = ''token''" "str_to_lowercase ascii_text_lib ''token'' = ''token''"
    by (simp_all add: ascii_text_lib_def to_ascii_lowercase_def trim_def is_whitespace_def)
  then have "normalize_fields ascii_text_lib (sensitive_fields sample_policy_text) = Inr [''token'']"
    by (simp add: sample_policy_text_def normalize_key_def)
  then have flt: "eidolon_filter_new ascii_text_lib sample_policy_text =
      Inr (eidolon_filter ascii_text_lib [''token''] :: unit world output_filter)"
    by (simp add: eidolon_filter_new_def list_all_iff ascii_text_lib_def)
  have r: "redact ascii_text_lib [''token''] (JObject [(''token'', JString ''pushed'')]) = redacted_probe"
    using t(2) by (simp add: redact_containers sensitive_key_def is_sensitive_def normalize_key_def contains_def)
  let ?gs = "public_gate_chain moving_system (pistis_gate sample_pistis probe_env) probe_plutus
     (eidolon_gate_of ascii_text_lib sample_uuid_lib quiet_text_policy steady)"
  have human: "durable_human_check moving_system governed_probe w = (w, Inr Allow)" for w
    by (simp add: durable_human_check_def requires_human_approval_def reviewed_reads_def)
  have names: "gate_name (pistis_gate L E) = ''pistis''" "gate_name probe_plutus = ''plutus''"
    "gate_name (eidolon_gate_of T U P signal) = ''eidolon''" for L E T U P signal
    by (simp_all add: pistis_gate_def probe_plutus_def local_plutus_gate_def plutus_gate_def eidolon_gate_of_def)
  have loop: "gate_loop governed_probe [] ?gs probe_world = (probe_world, Inr CANONICAL_GATE_ORDER)"
    using human by (simp add: public_gate_chain_def probe_pistis probe_plutus_allows probe_eidolon names durable_human_gate_def
        phylaxd_gate_def phylaxd_check_def CANONICAL_GATE_ORDER_def)
  have d: "governed_dispatcher moving_system Local (pistis_gate sample_pistis probe_env) probe_plutus
     (eidolon_gate_of ascii_text_lib sample_uuid_lib quiet_text_policy steady) leaky_executor
     (eidolon_filter ascii_text_lib [''token'']) = Inr leaky_dispatcher"
    using probe_governed(2) by (simp add: governed_dispatcher_iff leaky_dispatcher_def)
  have run: "snd (snd (dispatch leaky_dispatcher governed_probe probe_world)) = Inr (Executed redacted_probe)"
    using g r loop
    by (simp add: dispatch_def leaky_dispatcher_def governed_def guard_and_execute_def execute_and_record_def
        audit_execution_guard_def leaky_executor_def apply_filter_def eidolon_filter_def record_outcome_def Let_def)
  have "gates leaky_dispatcher = ?gs" by (simp add: leaky_dispatcher_def governed_def)
  moreover have "map gate_name ?gs = CANONICAL_GATE_ORDER"
    by (simp add: public_gate_chain_def names durable_human_gate_def phylaxd_gate_def CANONICAL_GATE_ORDER_def)
  ultimately have "snd (before_execute (audit_execution_guard moving_system Local) governed_probe
      (map gate_name (gates leaky_dispatcher)) (fst (gate_loop governed_probe [] (gates leaky_dispatcher) probe_world))) =
      Inr Execute"
    using loop g(1) by (simp add: audit_execution_guard_def)
  with returned_results_redacted [OF flt d run] run show ?thesis unfolding Let_def by auto
qed

end
