(* ===== verification/Loom_Graph.thy ===== *)
theory Loom_Graph
  imports Json
begin

text \<open>
  Workflow definitions of Loom (\<open>model.rs\<close> and the validation part of \<open>store.rs\<close> of the crate
  \<open>henosis-loom\<close>): the types of steps, the errors, \<open>validate_steps\<close>, which runs Kahn's algorithm, and
  \<open>validate_limits\<close>, which measures the longest dependency chain by a second such traversal.

  Both traversals start from the keys of a hash map, whose iteration order is not specified: the order
  is the argument \<open>order\<close>, and the lemmas hold for every permutation. A Rust vector used as a stack is a
  list with its top first. \<open>dbg\<close> is the \<open>Debug\<close> text of a string. The lemmas show that the traversals
  decide acyclicity and compute the longest chain.
\<close>


section \<open>Definitions of steps\<close>

datatype step_type = Action | Decision | Parallel | Wait | Webhook | Llm | Transform | Hephaestus

datatype loom_error =
    Backend string
  | WorkflowNotFound uuid
  | RunNotFound uuid
  | StepNotFound int
  | InvalidDefinition string
  | InvalidInput string
  | InvalidStatus string

fun step_type_as_str :: "step_type \<Rightarrow> string" where
  "step_type_as_str Action = ''action''"
| "step_type_as_str Decision = ''decision''"
| "step_type_as_str Parallel = ''parallel''"
| "step_type_as_str Wait = ''wait''"
| "step_type_as_str Webhook = ''webhook''"
| "step_type_as_str Llm = ''llm''"
| "step_type_as_str Transform = ''transform''"
| "step_type_as_str Hephaestus = ''hephaestus''"

definition step_type_parse :: "string \<Rightarrow> loom_error + step_type" where
  "step_type_parse s =
     (if s = ''action'' then Inr Action
      else if s = ''decision'' then Inr Decision
      else if s = ''parallel'' then Inr Parallel
      else if s = ''wait'' then Inr Wait
      else if s = ''webhook'' then Inr Webhook
      else if s = ''llm'' then Inr Llm
      else if s = ''transform'' then Inr Transform
      else if s = ''hephaestus'' then Inr Hephaestus
      else Inl (InvalidStatus s))"

record step_def =
  sd_name :: string
  sd_type :: step_type
  sd_config :: "json option"
  sd_depends_on :: "string list option"
  sd_max_retries :: "int option"
  sd_timeout_ms :: "int option"

definition MAX_WORKFLOW_STEPS :: nat where "MAX_WORKFLOW_STEPS = 1000"
definition MAX_WORKFLOW_DEPTH :: nat where "MAX_WORKFLOW_DEPTH = 64"
definition MAX_STEP_RETRIES :: int where "MAX_STEP_RETRIES = 100"
definition MAX_STEP_TIMEOUT_MS :: int where "MAX_STEP_TIMEOUT_MS = 24 * 60 * 60 * 1000"

text \<open>\<open>depends_on.iter().flatten()\<close>.\<close>

definition deps_of :: "step_def \<Rightarrow> string list" where
  "deps_of s = (case sd_depends_on s of None \<Rightarrow> [] | Some ds \<Rightarrow> ds)"


section \<open>Validation of the graph\<close>

fun check_names :: "(string \<Rightarrow> string) \<Rightarrow> string list \<Rightarrow> step_def list \<Rightarrow> loom_error + unit" where
  "check_names dbg names [] = Inr ()"
| "check_names dbg names (s # ss) =
     (if trim (sd_name s) = [] then Inl (InvalidDefinition ''empty step name'')
      else if sd_name s \<in> set names then Inl (InvalidDefinition (''duplicate step name '' @ dbg (sd_name s)))
      else check_names dbg (sd_name s # names) ss)"

fun check_deps :: "(string \<Rightarrow> string) \<Rightarrow> string list \<Rightarrow> step_def list \<Rightarrow> loom_error + unit" where
  "check_deps dbg names [] = Inr ()"
| "check_deps dbg names (s # ss) =
     (case find (\<lambda>d. d \<notin> set names) (deps_of s) of
        Some d \<Rightarrow> Inl (InvalidDefinition (''step '' @ dbg (sd_name s) @ '' depends on unknown step '' @ dbg d))
      | None \<Rightarrow> check_deps dbg names ss)"

definition indegrees :: "step_def list \<Rightarrow> string \<Rightarrow> nat" where
  "indegrees steps = fold (\<lambda>s m. m(sd_name s := m (sd_name s) + length (deps_of s))) steps (\<lambda>_. 0)"

text \<open>
  One decrement of an in-degree, with the push when it reaches zero. (An in-degree of zero is never
  decremented, lemma \<open>release_pos\<close>; the subtraction does not underflow.)
\<close>

definition lower :: "string \<Rightarrow> (string \<Rightarrow> nat) \<times> string list \<Rightarrow> (string \<Rightarrow> nat) \<times> string list" where
  "lower n = (\<lambda>(m, queue). (m(n := m n - 1), if m n = 1 then n # queue else queue))"

definition release ::
    "step_def list \<Rightarrow> string \<Rightarrow> (string \<Rightarrow> nat) \<times> string list \<Rightarrow> (string \<Rightarrow> nat) \<times> string list" where
  "release steps d = fold (\<lambda>s. if d \<in> set (deps_of s) then lower (sd_name s) else id) steps"

definition work_left :: "step_def list \<Rightarrow> (string \<Rightarrow> nat) \<times> string list \<Rightarrow> nat" where
  "work_left steps st = length (snd st) + sum (fst st) (sd_name ` set steps)"

lemma lower_work: "n \<in> sd_name ` set steps \<Longrightarrow> work_left steps (lower n st) \<le> work_left steps st"
proof -
  assume n: "n \<in> sd_name ` set steps"
  obtain m q where st: "st = (m, q)" by (cases st)
  let ?N = "sd_name ` set steps"
  have "sum m ?N = m n + sum m (?N - {n})" using n by (simp add: sum.remove)
  moreover have "sum (m(n := m n - 1)) ?N = (m n - 1) + sum m (?N - {n})"
    using n by (subst sum.remove [of _ n]) (auto intro: sum.cong)
  ultimately show ?thesis by (auto simp: st lower_def work_left_def)
qed

lemma fold_lower_work:
  "set ns \<subseteq> sd_name ` set steps \<Longrightarrow> work_left steps (fold lower ns st) \<le> work_left steps st"
proof (induction ns arbitrary: st)
  case (Cons n ns)
  then have "work_left steps (fold lower ns (lower n st)) \<le> work_left steps (lower n st)" by simp
  also have "\<dots> \<le> work_left steps st" using Cons.prems by (intro lower_work) simp
  finally show ?case by simp
qed simp

lemma release_fold: "release steps d = fold lower (map sd_name (filter (\<lambda>s. d \<in> set (deps_of s)) steps))"
  unfolding release_def by (induction steps) auto

lemma release_work: "work_left steps (release steps d (m, q)) \<le> length q + sum m (sd_name ` set steps)"
  using fold_lower_work [of "map sd_name (filter (\<lambda>s. d \<in> set (deps_of s)) steps)" steps "(m, q)"]
  by (auto simp: release_fold work_left_def)

function kahn :: "step_def list \<Rightarrow> (string \<Rightarrow> nat) \<Rightarrow> string list \<Rightarrow> nat \<Rightarrow> nat" where
  "kahn steps m [] consumed = consumed"
| "kahn steps m (d # queue) consumed =
     (case release steps d (m, queue) of (m', queue') \<Rightarrow> kahn steps m' queue' (consumed + 1))"
  by pat_completeness auto

termination
proof (relation "measure (\<lambda>(steps, m, queue, _). work_left steps (m, queue))", goal_cases)
  case (2 steps m d queue consumed m' queue')
  then have "release steps d (m, queue) = (m', queue')" by simp
  then show ?case using release_work [of steps d m queue] by (simp add: work_left_def)
qed simp

definition validate_steps ::
    "(string \<Rightarrow> string) \<Rightarrow> (string list \<Rightarrow> string list) \<Rightarrow> step_def list \<Rightarrow> loom_error + unit" where
  "validate_steps dbg order steps =
     (if length steps > MAX_WORKFLOW_STEPS
      then Inl (InvalidInput (''workflow step count '' @ nat_text (length steps) @ '' exceeds limit 1000''))
      else case check_names dbg [] steps of Inl e \<Rightarrow> Inl e | Inr _ \<Rightarrow>
      let names = map sd_name steps in
      case check_deps dbg names steps of Inl e \<Rightarrow> Inl e | Inr _ \<Rightarrow>
      let indegree = indegrees steps in
      if kahn steps indegree (rev (filter (\<lambda>n. indegree n = 0) (order names))) 0 \<noteq> length steps
      then Inl (InvalidDefinition ''dependency cycle in step graph'') else Inr ())"


section \<open>Validation of the limits\<close>

text \<open>The children of a step, once for every occurrence of the step among their dependencies.\<close>

definition dependents :: "step_def list \<Rightarrow> string \<Rightarrow> string list" where
  "dependents steps d = concat (map (\<lambda>s. map (\<lambda>_. sd_name s) (filter (\<lambda>x. x = d) (deps_of s))) steps)"

definition visit ::
    "nat \<Rightarrow> string \<Rightarrow> (string \<Rightarrow> nat) \<times> (string \<Rightarrow> nat) \<times> string list \<Rightarrow>
     (string \<Rightarrow> nat) \<times> (string \<Rightarrow> nat) \<times> string list" where
  "visit current child = (\<lambda>(depth, st). (depth(child := max (depth child) (current + 1)), lower child st))"

lemma fold_visit_snd: "snd (fold (visit c) ns (depth, st)) = fold lower ns st"
  by (induction ns arbitrary: depth st) (auto simp: visit_def)

lemma dependents_names: "set (dependents steps d) \<subseteq> sd_name ` set steps"
  by (auto simp: dependents_def)

function chain_loop ::
    "step_def list \<Rightarrow> (string \<Rightarrow> nat) \<Rightarrow> (string \<Rightarrow> nat) \<Rightarrow> string list \<Rightarrow> nat \<Rightarrow> nat" where
  "chain_loop steps depth m [] max_depth = max_depth"
| "chain_loop steps depth m (n # queue) max_depth =
     (case fold (visit (depth n)) (dependents steps n) (depth, m, queue) of (depth', m', queue') \<Rightarrow>
        chain_loop steps depth' m' queue' (max max_depth (depth n)))"
  by pat_completeness auto

termination
proof (relation "measure (\<lambda>(steps, _, m, queue, _). work_left steps (m, queue))", goal_cases)
  case (2 steps depth m n queue max_depth depth' st m' queue')
  then have "fold lower (dependents steps n) (m, queue) = (m', queue')"
    using fold_visit_snd [of "depth n" "dependents steps n" depth "(m, queue)"] by (metis snd_conv)
  then show ?case
    using fold_lower_work [OF dependents_names, of steps n "(m, queue)"] by (simp add: work_left_def)
qed simp

definition longest_chain_depth :: "(string list \<Rightarrow> string list) \<Rightarrow> step_def list \<Rightarrow> nat" where
  "longest_chain_depth order steps =
     (let indegree = indegrees steps in
      chain_loop steps (\<lambda>_. 1) indegree (rev (filter (\<lambda>n. indegree n = 0) (order (map sd_name steps)))) 0)"

definition retries_error :: "(string \<Rightarrow> string) \<Rightarrow> step_def \<Rightarrow> loom_error option" where
  "retries_error dbg s =
     (case sd_max_retries s of
        None \<Rightarrow> None
      | Some retries \<Rightarrow>
          if retries < 0 then Some (InvalidInput (''step '' @ dbg (sd_name s) @ '' max_retries must be >= 0''))
          else if retries > MAX_STEP_RETRIES
          then Some (InvalidInput (''step '' @ dbg (sd_name s) @ '' max_retries '' @ i64_text retries @ '' exceeds limit 100''))
          else None)"

definition timeout_error :: "(string \<Rightarrow> string) \<Rightarrow> step_def \<Rightarrow> loom_error option" where
  "timeout_error dbg s =
     (case sd_timeout_ms s of
        None \<Rightarrow> None
      | Some timeout_ms \<Rightarrow>
          if timeout_ms < 0 then Some (InvalidInput (''step '' @ dbg (sd_name s) @ '' timeout_ms must be >= 0''))
          else if timeout_ms > MAX_STEP_TIMEOUT_MS
          then Some (InvalidInput (''step '' @ dbg (sd_name s) @ '' timeout_ms '' @ i64_text timeout_ms @
            '' exceeds limit 86400000''))
          else None)"

fun check_limits :: "(string \<Rightarrow> string) \<Rightarrow> step_def list \<Rightarrow> loom_error + unit" where
  "check_limits dbg [] = Inr ()"
| "check_limits dbg (s # ss) =
     (case retries_error dbg s of
        Some e \<Rightarrow> Inl e
      | None \<Rightarrow>
          (case timeout_error dbg s of
             Some e \<Rightarrow> Inl e
           | None \<Rightarrow> check_limits dbg ss))"

definition validate_limits ::
    "(string \<Rightarrow> string) \<Rightarrow> (string list \<Rightarrow> string list) \<Rightarrow> step_def list \<Rightarrow> loom_error + unit" where
  "validate_limits dbg order steps =
     (case check_limits dbg steps of
        Inl e \<Rightarrow> Inl e
      | Inr _ \<Rightarrow>
          (let depth = longest_chain_depth order steps in
           if depth > MAX_WORKFLOW_DEPTH
           then Inl (InvalidInput (''workflow dependency depth '' @ nat_text depth @ '' exceeds limit 64''))
           else Inr ()))"


section \<open>The graph of a definition\<close>

definition step_names :: "step_def list \<Rightarrow> string set" where
  "step_names steps = sd_name ` set steps"

definition needs :: "step_def list \<Rightarrow> (string \<times> string) set" where
  "needs steps = {(d, sd_name s) | d s. s \<in> set steps \<and> d \<in> set (deps_of s)}"

text \<open>What the two checks before the traversals establish, and an iteration order of the keys.\<close>

definition named_steps :: "step_def list \<Rightarrow> bool" where
  "named_steps steps \<longleftrightarrow> distinct (map sd_name steps) \<and> (\<forall>s \<in> set steps. set (deps_of s) \<subseteq> step_names steps)"

definition key_order :: "(string list \<Rightarrow> string list) \<Rightarrow> bool" where
  "key_order order \<longleftrightarrow> (\<forall>ks. distinct ks \<longrightarrow> distinct (order ks) \<and> set (order ks) = set ks)"

lemma check_names_Inr:
  "check_names dbg names steps = Inr () \<longleftrightarrow>
     (\<forall>s \<in> set steps. trim (sd_name s) \<noteq> []) \<and> distinct (map sd_name steps) \<and> step_names steps \<inter> set names = {}"
  by (induction steps arbitrary: names) (auto simp: step_names_def)

lemma check_deps_Inr: "check_deps dbg names steps = Inr () \<longleftrightarrow> (\<forall>s \<in> set steps. set (deps_of s) \<subseteq> set names)"
  by (induction steps) (auto simp: find_None_iff find_Some_iff split: option.splits dest: nth_mem)

lemma indegrees_eq:
  assumes "distinct (map sd_name steps)" "s \<in> set steps"
  shows "indegrees steps (sd_name s) = length (deps_of s)"
proof -
  let ?f = "\<lambda>s m. m(sd_name s := m (sd_name s) + length (deps_of s))"
  have other: "n \<notin> sd_name ` set ss \<Longrightarrow> fold ?f ss m n = m n" for ss m n
    by (induction ss arbitrary: m) auto
  have "fold ?f ss m (sd_name s) = m (sd_name s) + length (deps_of s)"
    if "distinct (map sd_name ss)" "s \<in> set ss" for ss m
    using that
  proof (induction ss arbitrary: m)
    case (Cons a ss)
    show ?case
    proof (cases "a = s")
      case True
      then show ?thesis using Cons.prems other [of "sd_name s" ss] by (simp del: fun_upd_apply) simp
    next
      case False
      then have "sd_name a \<noteq> sd_name s" using Cons.prems by auto
      then show ?thesis using Cons False by simp
    qed
  qed simp
  then show ?thesis using assms by (simp add: indegrees_def)
qed

text \<open>A block of decrements at different names.\<close>

lemma fold_lower:
  "distinct ns \<Longrightarrow> fold lower ns (m, q) =
     (\<lambda>n. if n \<in> set ns then m n - 1 else m n, rev (filter (\<lambda>n. m n = 1) ns) @ q)"
proof (induction ns arbitrary: m q)
  case (Cons a ns)
  have "filter (\<lambda>n. (m(a := m a - 1)) n = 1) ns = filter (\<lambda>n. m n = 1) ns"
    using Cons.prems by (intro filter_cong) auto
  with Cons show ?case by (auto simp: lower_def fun_eq_iff)
qed simp


section \<open>Both traversals\<close>

text \<open>
  \<open>P\<close> is the set of steps taken from the queue so far. The in-degree of a step counts its dependencies
  outside \<open>P\<close> (with their repetitions), and the queue holds the steps outside \<open>P\<close> whose count is zero.
\<close>

definition traversal :: "step_def list \<Rightarrow> string set \<Rightarrow> (string \<Rightarrow> nat) \<Rightarrow> string list \<Rightarrow> bool" where
  "traversal steps P m q \<longleftrightarrow> distinct q \<and> P \<subseteq> step_names steps \<and> set q = {n \<in> step_names steps - P. m n = 0} \<and>
     (\<forall>n \<in> P. m n = 0) \<and>
     (\<forall>s \<in> set steps. m (sd_name s) + card (set (deps_of s) \<inter> P) = length (deps_of s))"

lemma traversal_start:
  assumes "named_steps steps" "key_order order"
  shows "traversal steps {} (indegrees steps) (rev (filter (\<lambda>n. indegrees steps n = 0) (order (map sd_name steps))))"
  using assms by (auto simp: traversal_def named_steps_def key_order_def step_names_def indegrees_eq)

lemma traversal_ready:
  assumes "traversal steps P m q" "s \<in> set steps" "m (sd_name s) = 0"
  shows "distinct (deps_of s)" "set (deps_of s) \<subseteq> P"
proof -
  have "card (set (deps_of s) \<inter> P) = length (deps_of s)" using assms by (auto simp: traversal_def)
  then have "length (deps_of s) \<le> card (set (deps_of s))" by (metis Int_lower1 List.finite_set card_mono)
  then show d: "distinct (deps_of s)" by (metis card_distinct card_length le_antisym)
  then have "card (set (deps_of s) \<inter> P) = card (set (deps_of s))"
    using \<open>card (set (deps_of s) \<inter> P) = length (deps_of s)\<close> by (simp add: distinct_card)
  then show "set (deps_of s) \<subseteq> P" by (metis Int_lower1 List.finite_set card_subset_eq inf.absorb_iff1)
qed

lemma release_pos:
  assumes "traversal steps P m q" "s \<in> set steps" "d \<in> set (deps_of s)" "d \<notin> P"
  shows "0 < m (sd_name s)"
  using traversal_ready [OF assms(1,2)] assms(3,4) by blast

lemma traversal_step:
  assumes st: "named_steps steps" "traversal steps P m (d # q)" and r: "release steps d (m, q) = (m', q')"
  shows "traversal steps (insert d P) m' q'"
proof -
  let ?ns = "map sd_name (filter (\<lambda>s. d \<in> set (deps_of s)) steps)"
  have dist: "distinct (map sd_name steps)" using st(1) by (simp add: named_steps_def)
  then have "distinct ?ns" by (simp add: distinct_map_filter)
  then have m': "m' = (\<lambda>n. if n \<in> set ?ns then m n - 1 else m n)" and q': "q' = rev (filter (\<lambda>n. m n = 1) ?ns) @ q"
    using r fold_lower [of ?ns m q] by (simp_all add: release_fold)
  have d: "d \<notin> P" "d \<in> step_names steps" "m d = 0" "d \<notin> set q" using st(2) by (auto simp: traversal_def)
  have mem: "sd_name s \<in> set ?ns \<longleftrightarrow> d \<in> set (deps_of s)" if "s \<in> set steps" for s
    using that dist by (auto simp: distinct_map inj_on_def)
  have pos: "0 < m n" if "n \<in> set ?ns" for n
    using that release_pos [OF st(2) _ _ d(1)] by auto
  have count: "m' (sd_name s) + card (set (deps_of s) \<inter> insert d P) = length (deps_of s)" if "s \<in> set steps" for s
  proof (cases "d \<in> set (deps_of s)")
    case True
    then have "card (set (deps_of s) \<inter> insert d P) = Suc (card (set (deps_of s) \<inter> P))" using d(1) by (simp add: Int_insert_right)
    moreover have "0 < m (sd_name s)" using pos mem [OF that] True by blast
    ultimately show ?thesis using st(2) that True mem [OF that] by (force simp: traversal_def m')
  next
    case False
    then show ?thesis using st(2) that mem [OF that] by (auto simp: traversal_def m' Int_insert_right)
  qed
  have names: "set ?ns \<subseteq> step_names steps" by (auto simp: step_names_def)
  have zero: "m' n = 0 \<longleftrightarrow> m n = 0 \<or> (n \<in> set ?ns \<and> m n = 1)" for n using pos [of n] by (auto simp: m')
  have "\<forall>n \<in> set q \<union> insert d P. m n = 0" using st(2) by (auto simp: traversal_def)
  then have disj: "set ?ns \<inter> (set q \<union> insert d P) = {}" using pos by (metis disjoint_iff less_irrefl)
  have "distinct q'" using \<open>distinct ?ns\<close> disj st(2) by (auto simp: q' traversal_def)
  moreover have "set q' = {n \<in> step_names steps - insert d P. m' n = 0}"
    using names disj st(2) by (auto simp: q' zero traversal_def)
  moreover have "\<forall>n \<in> insert d P. m' n = 0" using d st(2) by (auto simp: zero traversal_def)
  ultimately show ?thesis using count d(2) st(2) by (auto simp: traversal_def)
qed

text \<open>Where a traversal can end: everything was taken exactly if the graph has no cycle and no repetition.\<close>

lemma finite_needs: "finite (needs steps)"
proof -
  have "needs steps \<subseteq> (\<Union>s \<in> set steps. set (deps_of s) \<times> {sd_name s})" by (auto simp: needs_def)
  then show ?thesis by (rule finite_subset) simp
qed

definition sound_graph :: "step_def list \<Rightarrow> bool" where
  "sound_graph steps \<longleftrightarrow> acyclic (needs steps) \<and> (\<forall>s \<in> set steps. distinct (deps_of s))"

lemma traversal_acyclic_end:
  assumes "named_steps steps" "sound_graph steps" "traversal steps P m []"
  shows "P = step_names steps"
proof (rule ccontr)
  assume "P \<noteq> step_names steps"
  then have ne: "step_names steps - P \<noteq> {}" using assms(3) by (auto simp: traversal_def)
  have "wf (needs steps)" using assms(2) finite_acyclic_wf finite_needs by (auto simp: sound_graph_def)
  from wfE_min' [OF this ne] obtain n where n: "n \<in> step_names steps - P"
      "\<forall>d. (d, n) \<in> needs steps \<longrightarrow> d \<notin> step_names steps - P" by metis
  then obtain s where s: "s \<in> set steps" "n = sd_name s" by (auto simp: step_names_def)
  have "set (deps_of s) \<subseteq> P"
  proof
    fix d assume "d \<in> set (deps_of s)"
    then have "(d, n) \<in> needs steps" "d \<in> step_names steps" using s assms(1) by (auto simp: needs_def named_steps_def)
    then show "d \<in> P" using n by blast
  qed
  then have "m n = 0"
    using assms(2,3) s by (force simp: traversal_def sound_graph_def inf.absorb1 distinct_card)
  then show False using n assms(3) by (auto simp: traversal_def)
qed

text \<open>Every step that a traversal takes is reached from below along finitely many dependencies.\<close>

lemma kahn_end:
  assumes "named_steps steps" "traversal steps P m q" "P \<subseteq> Wellfounded.acc (needs steps)"
  shows "\<exists>P' m'. traversal steps P' m' [] \<and> P' \<subseteq> Wellfounded.acc (needs steps) \<and> kahn steps m q (card P) = card P'"
  using assms
proof (induction steps m q "card P" arbitrary: P rule: kahn.induct)
  case (1 steps m)
  then show ?case by auto
next
  case (2 steps m d q)
  obtain m' q' where r: "release steps d (m, q) = (m', q')" by fastforce
  have d: "d \<notin> P" "d \<in> step_names steps" "m d = 0" using 2(3) by (auto simp: traversal_def)
  have step: "traversal steps (insert d P) m' q'" by (rule traversal_step [OF 2(2,3) r])
  have "finite P" using 2(3) by (auto simp: traversal_def step_names_def intro: finite_subset)
  then have card: "card P + 1 = card (insert d P)" using d(1) by simp
  obtain s where s: "s \<in> set steps" "d = sd_name s" using d(2) by (auto simp: step_names_def)
  have "e \<in> P" if e: "(e, d) \<in> needs steps" for e
  proof -
    obtain t where t: "t \<in> set steps" "d = sd_name t" "e \<in> set (deps_of t)" using e by (auto simp: needs_def)
    then show "e \<in> P" using traversal_ready(2) [OF 2(3) t(1)] d(3) by auto
  qed
  then have "d \<in> Wellfounded.acc (needs steps)" using 2(4) by (blast intro: accI)
  then have "insert d P \<subseteq> Wellfounded.acc (needs steps)" using 2(4) by simp
  from 2(1) [OF r [symmetric] card 2(2) step this] show ?case using r card by simp
qed

lemma kahn_decides:
  assumes "named_steps steps" "key_order order"
  shows "kahn steps (indegrees steps) (rev (filter (\<lambda>n. indegrees steps n = 0) (order (map sd_name steps)))) 0 =
    length steps \<longleftrightarrow> sound_graph steps"
proof -
  obtain P m where fin: "traversal steps P m []" "P \<subseteq> Wellfounded.acc (needs steps)"
    and k: "kahn steps (indegrees steps) (rev (filter (\<lambda>n. indegrees steps n = 0) (order (map sd_name steps)))) 0 = card P"
    using kahn_end [OF assms(1) traversal_start [OF assms]] by auto
  have N: "finite (step_names steps)" "card (step_names steps) = length steps"
    using assms(1) distinct_card [of "map sd_name steps"] by (simp_all add: step_names_def named_steps_def)
  have P: "P \<subseteq> step_names steps" using fin(1) by (simp add: traversal_def)
  have "sound_graph steps" if all: "P = step_names steps"
  proof -
    have "x \<in> Wellfounded.acc (needs steps)" for x
    proof (cases "x \<in> step_names steps")
      case True
      then show ?thesis using fin(2) all by blast
    next
      case False
      then have "\<And>y. (y, x) \<notin> needs steps" by (auto simp: needs_def step_names_def)
      then show ?thesis by (blast intro: accI)
    qed
    then have "wf (needs steps)" by (simp add: acc_wfI)
    moreover have "distinct (deps_of s)" if "s \<in> set steps" for s
      using traversal_ready(1) [OF fin(1) that] fin(1) that all by (auto simp: traversal_def step_names_def)
    ultimately show ?thesis by (simp add: sound_graph_def wf_acyclic)
  qed
  moreover have "card P = length steps \<longleftrightarrow> P = step_names steps"
    using N P by (metis card_subset_eq)
  ultimately show ?thesis using k traversal_acyclic_end [OF assms(1) _ fin(1)] by auto
qed


section \<open>The longest chain\<close>

definition chain :: "step_def list \<Rightarrow> string list \<Rightarrow> bool" where
  "chain steps xs \<longleftrightarrow> xs \<noteq> [] \<and> set xs \<subseteq> step_names steps \<and> successively (\<lambda>a b. (a, b) \<in> needs steps) xs"

lemma chain_snoc: "chain steps (xs @ [n]) \<longleftrightarrow> n \<in> step_names steps \<and> (xs = [] \<or> chain steps xs \<and> (last xs, n) \<in> needs steps)"
  by (auto simp: chain_def successively_append_iff)

text \<open>
  The depths: each is the length of a chain to its step, those of the taken steps are the longest, and a
  step lies deeper than the taken steps it needs.
\<close>

definition depths :: "step_def list \<Rightarrow> string set \<Rightarrow> (string \<Rightarrow> nat) \<Rightarrow> nat \<Rightarrow> bool" where
  "depths steps P depth mx \<longleftrightarrow>
     (\<forall>n \<in> step_names steps. \<exists>xs. chain steps xs \<and> last xs = n \<and> length xs = depth n) \<and>
     (\<forall>xs. chain steps xs \<and> last xs \<in> P \<longrightarrow> length xs \<le> depth (last xs)) \<and>
     (\<forall>(d, n) \<in> needs steps. d \<in> P \<longrightarrow> depth d < depth n) \<and>
     (\<forall>n \<in> P. depth n \<le> mx) \<and> (if P = {} then mx = 0 else \<exists>n \<in> P. depth n = mx)"

lemma depths_start: "depths steps {} (\<lambda>_. 1) 0"
  by (auto simp: depths_def chain_def intro!: exI [of _ "[x]" for x])

lemma dependents_eq:
  assumes "\<forall>s \<in> set steps. distinct (deps_of s)"
  shows "dependents steps d = map sd_name (filter (\<lambda>s. d \<in> set (deps_of s)) steps)"
proof -
  have "map (\<lambda>_. x) (filter (\<lambda>y. y = d) ds) = (if d \<in> set ds then [x] else [])" if "distinct ds" for x :: string and ds
    using that by (induction ds) (auto simp: filter_empty_conv)
  then show ?thesis using assms unfolding dependents_def by (induction steps) auto
qed

lemma fold_visit_fst:
  "fst (fold (visit c) ns (depth, st)) = (\<lambda>n. if n \<in> set ns then max (depth n) (c + 1) else depth n)"
  by (induction ns arbitrary: depth st) (auto simp: visit_def fun_eq_iff)

lemma depths_step:
  assumes "depths steps P depth mx" "d \<in> step_names steps" "d \<notin> P" "\<forall>e. (e, d) \<in> needs steps \<longrightarrow> e \<in> P"
    and closed: "\<forall>n \<in> P. \<forall>e. (e, n) \<in> needs steps \<longrightarrow> e \<in> P"
    and children: "set ns = {n. (d, n) \<in> needs steps}"
    and depth': "depth' = (\<lambda>n. if n \<in> set ns then max (depth n) (depth d + 1) else depth n)"
  shows "depths steps (insert d P) depth' (max mx (depth d))"
proof -
  note D = assms(1) [unfolded depths_def]
  have dn: "d \<notin> set ns" "set ns \<inter> P = {}" using assms(3,4) closed children by auto
  then have same: "depth' n = depth n" if "n \<in> insert d P" for n using that by (auto simp: depth')
  have "\<exists>xs. chain steps xs \<and> last xs = n \<and> length xs = depth' n" if n: "n \<in> step_names steps" for n
  proof (cases "n \<in> set ns \<and> depth n < depth d + 1")
    case True
    then obtain xs where xs: "chain steps xs" "last xs = d" "length xs = depth d" using D assms(2) by blast
    with True n children have "chain steps (xs @ [n])" by (simp add: chain_snoc)
    then show ?thesis using True xs by (intro exI [of _ "xs @ [n]"]) (simp add: depth')
  next
    case False
    then have "depth' n = depth n" by (auto simp: depth')
    then show ?thesis using D n by auto
  qed
  moreover have "length xs \<le> depth' (last xs)" if xs: "chain steps xs" "last xs \<in> insert d P" for xs
  proof (cases "last xs \<in> P")
    case True
    then show ?thesis using D xs same by auto
  next
    case False
    then obtain ys where ys: "xs = ys @ [d]" using xs by (metis append_butlast_last_id chain_def insertE)
    then consider "ys = []" | "chain steps ys" "(last ys, d) \<in> needs steps" using xs(1) by (auto simp: chain_snoc)
    then show ?thesis
    proof cases
      case 1
      have "0 < depth d" using D assms(2) by (metis chain_def length_greater_0_conv)
      then show ?thesis using 1 ys same by simp
    next
      case 2
      then have "last ys \<in> P" using assms(4) by blast
      then have "length ys \<le> depth (last ys)" "depth (last ys) < depth d" using D 2 by auto
      then show ?thesis using ys same by simp
    qed
  qed
  moreover have "depth' e < depth' n" if "(e, n) \<in> needs steps" "e \<in> insert d P" for e n
  proof (cases "e = d")
    case True
    then have "n \<in> set ns" using that children by simp
    then show ?thesis using True same by (auto simp: depth')
  next
    case False
    then have "e \<in> P" "depth e < depth n" using that D by auto
    moreover have "depth n \<le> depth' n" by (simp add: depth')
    ultimately show ?thesis using same [of e] by auto
  qed
  moreover have "\<forall>n \<in> insert d P. depth' n \<le> max mx (depth d)" using D same by fastforce
  moreover have "\<exists>n \<in> insert d P. depth' n = max mx (depth d)"
  proof (cases "P = {} \<or> mx \<le> depth d")
    case True
    then have "max mx (depth d) = depth d" using D by (auto split: if_splits)
    then show ?thesis using same by auto
  next
    case False
    then obtain n where "n \<in> P" "depth n = mx" using D by auto
    then show ?thesis using False same by (intro bexI [of _ n]) auto
  qed
  ultimately show ?thesis by (auto simp: depths_def)
qed

lemma chain_loop_end:
  assumes "named_steps steps" "\<forall>s \<in> set steps. distinct (deps_of s)" "traversal steps P m q" "depths steps P depth mx"
  shows "\<exists>P' m' depth'. traversal steps P' m' [] \<and> depths steps P' depth' (chain_loop steps depth m q mx)"
  using assms
proof (induction steps depth m q mx arbitrary: P rule: chain_loop.induct)
  case (1 steps depth m mx)
  then show ?case by auto
next
  case (2 steps depth m d q mx)
  let ?ns = "map sd_name (filter (\<lambda>s. d \<in> set (deps_of s)) steps)"
  obtain depth' m' q' where f: "fold (visit (depth d)) (dependents steps d) (depth, m, q) = (depth', m', q')"
    by (metis prod_cases3)
  have ns: "dependents steps d = ?ns" by (rule dependents_eq [OF 2(3)])
  have r: "release steps d (m, q) = (m', q')"
    using fold_visit_snd [of "depth d" ?ns depth "(m, q)"] f ns by (simp add: release_fold)
  have depth': "depth' = (\<lambda>n. if n \<in> set ?ns then max (depth n) (depth d + 1) else depth n)"
    using fold_visit_fst [of "depth d" ?ns depth "(m, q)"] f ns by simp
  have d: "d \<notin> P" "d \<in> step_names steps" "m d = 0" using 2(4) by (auto simp: traversal_def)
  have closed: "e \<in> P" if n: "m n = 0" "(e, n) \<in> needs steps" for n e
  proof -
    obtain t where "t \<in> set steps" "n = sd_name t" "e \<in> set (deps_of t)" using n by (auto simp: needs_def)
    then show "e \<in> P" using traversal_ready(2) [OF 2(4)] n(1) by blast
  qed
  have "depths steps (insert d P) depth' (max mx (depth d))"
  proof (rule depths_step [OF 2(5) d(2,1)])
    show "\<forall>e. (e, d) \<in> needs steps \<longrightarrow> e \<in> P" using closed d(3) by blast
    show "\<forall>n \<in> P. \<forall>e. (e, n) \<in> needs steps \<longrightarrow> e \<in> P" using closed 2(4) by (auto simp: traversal_def)
    show "set ?ns = {n. (d, n) \<in> needs steps}" by (auto simp: needs_def)
  qed (rule depth')
  from 2(1) [OF f [symmetric] refl 2(2,3) traversal_step [OF 2(2,4) r] this] show ?case using f by simp
qed

lemma longest_chain:
  assumes "named_steps steps" "key_order order" "sound_graph steps"
  shows "chain steps xs \<Longrightarrow> length xs \<le> longest_chain_depth order steps"
    and "steps \<noteq> [] \<Longrightarrow> \<exists>xs. chain steps xs \<and> length xs = longest_chain_depth order steps"
proof -
  have d: "\<forall>s \<in> set steps. distinct (deps_of s)" using assms(3) by (simp add: sound_graph_def)
  obtain P m depth where fin: "traversal steps P m []" "depths steps P depth (longest_chain_depth order steps)"
    using chain_loop_end [OF assms(1) d traversal_start [OF assms(1,2)] depths_start]
    by (auto simp: longest_chain_depth_def Let_def)
  have P: "P = step_names steps" by (rule traversal_acyclic_end [OF assms(1,3) fin(1)])
  show "length xs \<le> longest_chain_depth order steps" if "chain steps xs"
  proof -
    have "last xs \<in> P" using that unfolding P chain_def by (metis last_in_set subsetD)
    then show ?thesis using fin(2) that unfolding depths_def by (meson order_trans)
  qed
  show "\<exists>xs. chain steps xs \<and> length xs = longest_chain_depth order steps" if "steps \<noteq> []"
  proof -
    have "P \<noteq> {}" using that P by (simp add: step_names_def)
    then obtain n where "n \<in> P" "depth n = longest_chain_depth order steps" using fin(2) by (auto simp: depths_def)
    then show ?thesis using fin(2) P unfolding depths_def by metis
  qed
qed


section \<open>Which definitions are accepted\<close>

definition in_limits :: "step_def \<Rightarrow> bool" where
  "in_limits s \<longleftrightarrow> (case sd_max_retries s of None \<Rightarrow> True | Some r \<Rightarrow> 0 \<le> r \<and> r \<le> 100) \<and>
     (case sd_timeout_ms s of None \<Rightarrow> True | Some t \<Rightarrow> 0 \<le> t \<and> t \<le> 86400000)"

lemma check_limits_Inr: "check_limits dbg steps = Inr () \<longleftrightarrow> (\<forall>s \<in> set steps. in_limits s)"
  by (induction steps)
    (auto simp: in_limits_def retries_error_def timeout_error_def MAX_STEP_RETRIES_def MAX_STEP_TIMEOUT_MS_def
      split: option.splits if_splits)

lemma validate_steps_Inr:
  assumes "key_order order"
  shows "validate_steps dbg order steps = Inr () \<longleftrightarrow> length steps \<le> 1000 \<and>
    (\<forall>s \<in> set steps. trim (sd_name s) \<noteq> []) \<and> named_steps steps \<and> sound_graph steps"
proof -
  have "validate_steps dbg order steps = Inr () \<longleftrightarrow> length steps \<le> 1000 \<and> check_names dbg [] steps = Inr () \<and>
    check_deps dbg (map sd_name steps) steps = Inr () \<and>
    kahn steps (indegrees steps) (rev (filter (\<lambda>n. indegrees steps n = 0) (order (map sd_name steps)))) 0 = length steps"
    by (auto simp: validate_steps_def MAX_WORKFLOW_STEPS_def Let_def split: sum.splits)
  moreover have "check_names dbg [] steps = Inr () \<and> check_deps dbg (map sd_name steps) steps = Inr () \<longleftrightarrow>
    (\<forall>s \<in> set steps. trim (sd_name s) \<noteq> []) \<and> named_steps steps"
    by (auto simp: check_names_Inr check_deps_Inr named_steps_def step_names_def)
  ultimately show ?thesis using kahn_decides [OF _ assms, of steps] by blast
qed

lemma validate_limits_Inr:
  "validate_limits dbg order steps = Inr () \<longleftrightarrow> (\<forall>s \<in> set steps. in_limits s) \<and> longest_chain_depth order steps \<le> 64"
  using check_limits_Inr [of dbg steps]
  by (auto simp: validate_limits_def MAX_WORKFLOW_DEPTH_def Let_def split: sum.splits)

text \<open>
  Property C28. Which workflow definitions are accepted, whatever the iteration order of the hash maps:
  those of at most 1000 steps with distinct, non-blank names, known dependencies without repetition, an
  acyclic dependency relation, no chain of more than 64 steps, and retry budgets and timeouts inside
  their limits. (A dependency that is listed twice is counted twice but released once, so its step is
  refused as part of a cycle.)
\<close>

theorem workflow_accepted_iff:
  assumes "key_order order"
  shows "validate_steps dbg order steps = Inr () \<and> validate_limits dbg order steps = Inr () \<longleftrightarrow>
    length steps \<le> 1000 \<and> (\<forall>s \<in> set steps. trim (sd_name s) \<noteq> []) \<and> distinct (map sd_name steps) \<and>
    (\<forall>s \<in> set steps. set (deps_of s) \<subseteq> sd_name ` set steps \<and> distinct (deps_of s)) \<and>
    acyclic {(d, sd_name s) | d s. s \<in> set steps \<and> d \<in> set (deps_of s)} \<and>
    (\<forall>s \<in> set steps. in_limits s) \<and> (\<forall>xs. chain steps xs \<longrightarrow> length xs \<le> 64)"
proof -
  have "longest_chain_depth order steps \<le> 64 \<longleftrightarrow> (\<forall>xs. chain steps xs \<longrightarrow> length xs \<le> 64)"
    if "named_steps steps" "sound_graph steps"
  proof (cases "steps = []")
    case True
    moreover have "order [] = []" using assms unfolding key_order_def by (metis distinct.simps(1) list.set(1) set_empty)
    ultimately show ?thesis by (auto simp: chain_def step_names_def longest_chain_depth_def indegrees_def)
  next
    case False
    then show ?thesis using longest_chain [OF that(1) assms that(2)] by (metis order_trans)
  qed
  then show ?thesis
    unfolding validate_steps_Inr [OF assms] validate_limits_Inr
    by (auto simp: named_steps_def sound_graph_def step_names_def needs_def)
qed

lemma step_type_roundtrip: "step_type_parse (step_type_as_str t) = Inr t"
  by (cases t) (simp_all add: step_type_parse_def)


section \<open>Concrete definitions\<close>

definition plain_step :: "string \<Rightarrow> string list \<Rightarrow> step_def" where
  "plain_step name ds = \<lparr> sd_name = name, sd_type = Action, sd_config = None, sd_depends_on = Some ds,
     sd_max_retries = Some 2, sd_timeout_ms = None \<rparr>"

definition diamond :: "step_def list" where
  "diamond = [plain_step ''a'' [], plain_step ''b'' [''a''], plain_step ''c'' [''a''], plain_step ''d'' [''b'', ''c'']]"

lemma diamond_accepted:
  "validate_steps id id diamond = Inr ()" "validate_limits id id diamond = Inr ()" "longest_chain_depth id diamond = 3"
  by code_simp+

text \<open>A dependency listed twice is reported as a cycle.\<close>

lemma repeated_dependency_is_a_cycle:
  "validate_steps id id [plain_step ''a'' [], plain_step ''b'' [''a'', ''a'']] =
     Inl (InvalidDefinition ''dependency cycle in step graph'')"
  by code_simp

theorem workflow_accepted_iff_witness:
  "acyclic {(d, sd_name s) | d s. s \<in> set diamond \<and> d \<in> set (deps_of s)} \<and> distinct (map sd_name diamond)"
proof -
  have "key_order id" by (simp add: key_order_def)
  from workflow_accepted_iff [OF this, of id diamond] diamond_accepted(1,2) show ?thesis by blast
qed

end
