(* ===== verification/Loom.thy ===== *)
theory Loom
  imports Loom_Graph Ledger
begin

text \<open>
  The Loom workflow store (\<open>store.rs\<close> of the crate \<open>henosis-loom\<close>) as atomic operations on its four
  tables. Every method holds the mutex of the connection for one statement or one transaction and
  releases it before it awaits, so a history of the store is a sequence of the operations of this
  theory; the methods that are composed of several of them are in \<open>Loom_Engine\<close>.

  Columns that hold the canonical text of an identifier, a status or a timestamp are modelled by the
  value; columns that hold JSON are texts and are parsed where the code parses them. Timestamps are
  nanoseconds. \<open>loom_lib\<close> collects what is not of the program: the JSON printer and parser, the
  \<open>Debug\<close> text of strings and the iteration order of hash maps.
\<close>


section \<open>The data\<close>

datatype run_status = Pending | Running | Completed | Failed | Cancelled

fun run_status_as_str :: "run_status \<Rightarrow> string" where
  "run_status_as_str Pending = ''pending''"
| "run_status_as_str Running = ''running''"
| "run_status_as_str Completed = ''completed''"
| "run_status_as_str Failed = ''failed''"
| "run_status_as_str Cancelled = ''cancelled''"

definition run_status_parse :: "string \<Rightarrow> loom_error + run_status" where
  "run_status_parse s =
     (if s = ''pending'' then Inr Pending
      else if s = ''running'' then Inr Running
      else if s = ''completed'' then Inr Completed
      else if s = ''failed'' then Inr Failed
      else if s = ''cancelled'' then Inr Cancelled
      else Inl (InvalidStatus s))"

fun is_terminal :: "run_status \<Rightarrow> bool" where
  "is_terminal Completed = True"
| "is_terminal Failed = True"
| "is_terminal Cancelled = True"
| "is_terminal _ = False"

datatype step_status = Pending | Running | Completed | Failed | Skipped

fun step_status_as_str :: "step_status \<Rightarrow> string" where
  "step_status_as_str Pending = ''pending''"
| "step_status_as_str Running = ''running''"
| "step_status_as_str Completed = ''completed''"
| "step_status_as_str Failed = ''failed''"
| "step_status_as_str Skipped = ''skipped''"

definition step_status_parse :: "string \<Rightarrow> loom_error + step_status" where
  "step_status_parse s =
     (if s = ''pending'' then Inr Pending
      else if s = ''running'' then Inr Running
      else if s = ''completed'' then Inr Completed
      else if s = ''failed'' then Inr Failed
      else if s = ''skipped'' then Inr Skipped
      else Inl (InvalidStatus s))"

datatype log_level = Info | Warn | Error

record workflow_row =
  wf_id :: uuid
  wf_tenant :: uuid
  wf_principal :: uuid
  wf_name :: string
  wf_description :: "string option"
  wf_steps_text :: string
  wf_created_at :: int
  wf_updated_at :: int

record run_row =
  rn_id :: uuid
  rn_workflow :: uuid
  rn_tenant :: uuid
  rn_principal :: uuid
  rn_status :: run_status
  rn_input_text :: string
  rn_output_text :: string
  rn_error :: "string option"
  rn_started_at :: "int option"
  rn_completed_at :: "int option"
  rn_created_at :: int
  rn_updated_at :: int

record step_row =
  sp_id :: int
  sp_run :: uuid
  sp_name :: string
  sp_type :: step_type
  sp_config_text :: string
  sp_status :: step_status
  sp_input_text :: string
  sp_output_text :: string
  sp_error :: "string option"
  sp_depends_text :: string
  sp_retry_count :: int
  sp_max_retries :: int
  sp_timeout_ms :: int
  sp_started_at :: "int option"
  sp_completed_at :: "int option"
  sp_created_at :: int

record log_row =
  lg_id :: int
  lg_run :: uuid
  lg_step :: "int option"
  lg_level :: log_level
  lg_message :: string
  lg_data :: string
  lg_created_at :: int

text \<open>The rows as the code hands them out: with their JSON columns parsed.\<close>

record workflow = workflow_row +
  wf_steps :: "step_def list"

record loom_run = run_row +
  rn_input :: json
  rn_output :: json

record loom_step = step_row +
  sp_config :: json
  sp_input :: json
  sp_output :: json
  sp_depends_on :: "string list"

record loom_db =
  ld_workflows :: "workflow_row list"
  ld_runs :: "run_row list"
  ld_steps :: "step_row list"
  ld_logs :: "log_row list"
  ld_next_step :: int
  ld_next_log :: int

record loom_lib =
  ll_debug :: "string \<Rightarrow> string"
  ll_order :: "string list \<Rightarrow> string list"
  ll_json_text :: "json \<Rightarrow> string"
  ll_json_parse :: "string \<Rightarrow> json option"
  ll_steps_text :: "step_def list \<Rightarrow> string"
  ll_steps_parse :: "string \<Rightarrow> step_def list option"
  ll_names_text :: "string list \<Rightarrow> string"
  ll_names_parse :: "string \<Rightarrow> string list option"
  ll_parse_error :: "string \<Rightarrow> string"

definition validate_definition :: "loom_lib \<Rightarrow> step_def list \<Rightarrow> loom_error + unit" where
  "validate_definition L steps =
     (case validate_steps (ll_debug L) (ll_order L) steps of
        Inl e \<Rightarrow> Inl e
      | Inr _ \<Rightarrow> validate_limits (ll_debug L) (ll_order L) steps)"


section \<open>Reading rows\<close>

definition into_workflow :: "loom_lib \<Rightarrow> workflow_row \<Rightarrow> loom_error + workflow" where
  "into_workflow L r =
     (case ll_steps_parse L (wf_steps_text r) of
        None \<Rightarrow> Inl (Backend (''corrupt steps '' @ ll_debug L (wf_steps_text r) @ '': '' @ ll_parse_error L (wf_steps_text r)))
      | Some steps \<Rightarrow> Inr (workflow_row.extend r \<lparr> wf_steps = steps \<rparr>))"

definition into_run :: "loom_lib \<Rightarrow> run_row \<Rightarrow> loom_error + loom_run" where
  "into_run L r =
     (case ll_json_parse L (rn_input_text r) of
        None \<Rightarrow> Inl (Backend (''corrupt input: '' @ ll_parse_error L (rn_input_text r)))
      | Some input \<Rightarrow>
          (case ll_json_parse L (rn_output_text r) of
             None \<Rightarrow> Inl (Backend (''corrupt output: '' @ ll_parse_error L (rn_output_text r)))
           | Some output \<Rightarrow> Inr (run_row.extend r \<lparr> rn_input = input, rn_output = output \<rparr>)))"

definition into_step :: "loom_lib \<Rightarrow> step_row \<Rightarrow> loom_error + loom_step" where
  "into_step L r =
     (case ll_json_parse L (sp_config_text r) of
        None \<Rightarrow> Inl (Backend (''corrupt config: '' @ ll_parse_error L (sp_config_text r)))
      | Some config \<Rightarrow>
     case ll_json_parse L (sp_input_text r) of
        None \<Rightarrow> Inl (Backend (''corrupt input: '' @ ll_parse_error L (sp_input_text r)))
      | Some input \<Rightarrow>
     case ll_json_parse L (sp_output_text r) of
        None \<Rightarrow> Inl (Backend (''corrupt output: '' @ ll_parse_error L (sp_output_text r)))
      | Some output \<Rightarrow>
     case ll_names_parse L (sp_depends_text r) of
        None \<Rightarrow> Inl (Backend (''corrupt depends_on: '' @ ll_parse_error L (sp_depends_text r)))
      | Some names \<Rightarrow>
          Inr (step_row.extend r \<lparr> sp_config = config, sp_input = input, sp_output = output, sp_depends_on = names \<rparr>))"

fun into_steps :: "loom_lib \<Rightarrow> step_row list \<Rightarrow> loom_error + loom_step list" where
  "into_steps L [] = Inr []"
| "into_steps L (r # rs) =
     (case into_step L r of
        Inl e \<Rightarrow> Inl e
      | Inr s \<Rightarrow> (case into_steps L rs of Inl e \<Rightarrow> Inl e | Inr ss \<Rightarrow> Inr (s # ss)))"

text \<open>An optional row, parsed: \<open>raw.map(\<dots>).transpose()\<close>.\<close>

definition transposed :: "('r \<Rightarrow> loom_error + 'a) \<Rightarrow> 'r option \<Rightarrow> loom_error + 'a option" where
  "transposed f m =
     (case m of None \<Rightarrow> Inr None | Some r \<Rightarrow> (case f r of Inl e \<Rightarrow> Inl e | Inr x \<Rightarrow> Inr (Some x)))"

definition get_workflow_in ::
    "loom_lib \<Rightarrow> uuid \<Rightarrow> uuid \<Rightarrow> uuid \<Rightarrow> loom_db \<Rightarrow> loom_error + workflow option" where
  "get_workflow_in L tenant p wid db = transposed (into_workflow L)
     (find (\<lambda>r. wf_id r = wid \<and> wf_tenant r = tenant \<and> wf_principal r = p) (ld_workflows db))"

definition get_workflow_by_name ::
    "loom_lib \<Rightarrow> uuid \<Rightarrow> uuid \<Rightarrow> string \<Rightarrow> loom_db \<Rightarrow> loom_error + workflow option" where
  "get_workflow_by_name L tenant p name db = transposed (into_workflow L)
     (find (\<lambda>r. wf_tenant r = tenant \<and> wf_principal r = p \<and> wf_name r = name) (ld_workflows db))"

definition get_run :: "loom_lib \<Rightarrow> uuid \<Rightarrow> uuid \<Rightarrow> uuid \<Rightarrow> loom_db \<Rightarrow> loom_error + loom_run option" where
  "get_run L tenant p rid db = transposed (into_run L)
     (find (\<lambda>r. rn_id r = rid \<and> rn_tenant r = tenant \<and> rn_principal r = p) (ld_runs db))"

definition get_run_any :: "loom_lib \<Rightarrow> uuid \<Rightarrow> loom_db \<Rightarrow> loom_error + loom_run option" where
  "get_run_any L rid db = transposed (into_run L) (find (\<lambda>r. rn_id r = rid) (ld_runs db))"

definition owned :: "uuid \<Rightarrow> uuid \<Rightarrow> loom_run \<Rightarrow> bool" where
  "owned tenant p r \<longleftrightarrow> rn_tenant r = tenant \<and> rn_principal r = p"

definition get_steps :: "loom_lib \<Rightarrow> uuid \<Rightarrow> uuid \<Rightarrow> uuid \<Rightarrow> loom_db \<Rightarrow> loom_error + loom_step list" where
  "get_steps L tenant p rn db = into_steps L (filter (\<lambda>s. sp_run s = rn \<and>
     list_ex (\<lambda>r. rn_id r = sp_run s \<and> rn_tenant r = tenant \<and> rn_principal r = p) (ld_runs db)) (ld_steps db))"

definition get_step_with_run :: "loom_lib \<Rightarrow> int \<Rightarrow> loom_db \<Rightarrow> loom_error + (loom_step \<times> loom_run) option" where
  "get_step_with_run L sid db =
     (case transposed (into_step L) (find (\<lambda>s. sp_id s = sid) (ld_steps db)) of
        Inl e \<Rightarrow> Inl e
      | Inr None \<Rightarrow> Inr None
      | Inr (Some s) \<Rightarrow>
          (case get_run_any L (sp_run s) db of
             Inl e \<Rightarrow> Inl e
           | Inr None \<Rightarrow> Inl (Backend (''step '' @ i64_text sid @ '' has no run''))
           | Inr (Some r) \<Rightarrow> Inr (Some (s, r))))"

definition get_step :: "loom_lib \<Rightarrow> uuid \<Rightarrow> uuid \<Rightarrow> int \<Rightarrow> loom_db \<Rightarrow> loom_error + loom_step option" where
  "get_step L tenant p sid db =
     (case get_step_with_run L sid db of
        Inl e \<Rightarrow> Inl e
      | Inr (Some (s, r)) \<Rightarrow> Inr (if owned tenant p r then Some s else None)
      | Inr None \<Rightarrow> Inr None)"


section \<open>Workflows\<close>

record new_workflow =
  nw_tenant :: uuid
  nw_principal :: uuid
  nw_name :: string
  nw_description :: "string option"
  nw_steps :: "step_def list"

record workflow_patch =
  pt_name :: "string option"
  pt_description :: "string option"
  pt_steps :: "step_def list option"

text \<open>\<open>UNIQUE (tenant, principal_id, name)\<close> of the third migration.\<close>

definition same_name :: "workflow_row \<Rightarrow> workflow_row \<Rightarrow> bool" where
  "same_name r x \<longleftrightarrow> wf_tenant x = wf_tenant r \<and> wf_principal x = wf_principal r \<and> wf_name x = wf_name r"

definition create_workflow ::
    "loom_lib \<Rightarrow> int \<Rightarrow> uuid \<Rightarrow> new_workflow \<Rightarrow> loom_db \<Rightarrow> loom_db \<times> (loom_error + workflow)" where
  "create_workflow L now wid new db =
     (if trim (nw_name new) = [] then (db, Inl (InvalidInput ''workflow name required''))
      else case validate_definition L (nw_steps new) of
        Inl e \<Rightarrow> (db, Inl e)
      | Inr _ \<Rightarrow>
          (let row = \<lparr> wf_id = wid, wf_tenant = nw_tenant new, wf_principal = nw_principal new, wf_name = nw_name new,
                 wf_description = nw_description new, wf_steps_text = ll_steps_text L (nw_steps new),
                 wf_created_at = now, wf_updated_at = now \<rparr> in
           if list_ex (\<lambda>x. wf_id x = wid) (ld_workflows db)
           then (db, Inl (Backend ''UNIQUE constraint failed: loom_workflows.id''))
           else if list_ex (same_name row) (ld_workflows db)
           then (db, Inl (InvalidInput (''workflow name already exists: '' @ ll_debug L (nw_name new))))
           else (db \<lparr> ld_workflows := ld_workflows db @ [row] \<rparr>,
                 Inr (workflow_row.extend row \<lparr> wf_steps = nw_steps new \<rparr>))))"

definition update_workflow ::
    "loom_lib \<Rightarrow> int \<Rightarrow> uuid \<Rightarrow> uuid \<Rightarrow> uuid \<Rightarrow> workflow_patch \<Rightarrow> loom_db \<Rightarrow> loom_db \<times> (loom_error + workflow)" where
  "update_workflow L now tenant p wid patch db =
     (case (case pt_steps patch of Some steps \<Rightarrow> validate_definition L steps | None \<Rightarrow> Inr ()) of
        Inl e \<Rightarrow> (db, Inl e)
      | Inr _ \<Rightarrow>
     case get_workflow_in L tenant p wid db of
        Inl e \<Rightarrow> (db, Inl e)
      | Inr None \<Rightarrow> (db, Inl (WorkflowNotFound wid))
      | Inr (Some w) \<Rightarrow>
          (let steps = (case pt_steps patch of Some steps \<Rightarrow> steps | None \<Rightarrow> wf_steps w);
               row = workflow_row.truncate w \<lparr> wf_name := (case pt_name patch of Some n \<Rightarrow> n | None \<Rightarrow> wf_name w),
                 wf_description := (case pt_description patch of Some d \<Rightarrow> Some d | None \<Rightarrow> wf_description w),
                 wf_steps_text := ll_steps_text L steps, wf_updated_at := now \<rparr>;
               key = (\<lambda>x. wf_id x = wid \<and> wf_tenant x = tenant \<and> wf_principal x = p) in
           if list_ex (\<lambda>x. \<not> key x \<and> same_name row x) (ld_workflows db)
           then (db, Inl (Backend ''UNIQUE constraint failed: loom_workflows.tenant, loom_workflows.principal_id, loom_workflows.name''))
           else (db \<lparr> ld_workflows := sql_update key (\<lambda>x. x \<lparr> wf_name := wf_name row,
                       wf_description := wf_description row, wf_steps_text := wf_steps_text row, wf_updated_at := now \<rparr>)
                     (ld_workflows db) \<rparr>,
                 Inr (workflow_row.extend row \<lparr> wf_steps = steps \<rparr>))))"

text \<open>\<open>ON DELETE CASCADE\<close>: with a workflow go its runs, and with a run its steps and log lines.\<close>

definition delete_workflow :: "uuid \<Rightarrow> uuid \<Rightarrow> uuid \<Rightarrow> loom_db \<Rightarrow> loom_db \<times> (loom_error + bool)" where
  "delete_workflow tenant p wid db =
     (let key = (\<lambda>x. wf_id x = wid \<and> wf_tenant x = tenant \<and> wf_principal x = p);
          gone = map wf_id (filter key (ld_workflows db));
          runs = map rn_id (filter (\<lambda>r. rn_workflow r \<in> set gone) (ld_runs db)) in
      (db \<lparr> ld_workflows := filter (\<lambda>x. \<not> key x) (ld_workflows db),
            ld_runs := filter (\<lambda>r. rn_workflow r \<notin> set gone) (ld_runs db),
            ld_steps := filter (\<lambda>s. sp_run s \<notin> set runs) (ld_steps db),
            ld_logs := filter (\<lambda>l. lg_run l \<notin> set runs) (ld_logs db) \<rparr>,
       Inr (gone \<noteq> [])))"


section \<open>Runs\<close>

definition empty_object :: string where
  "empty_object = ''{}''"

definition add_log :: "uuid \<Rightarrow> int option \<Rightarrow> log_level \<Rightarrow> string \<Rightarrow> string \<Rightarrow> int \<Rightarrow> loom_db \<Rightarrow> loom_db" where
  "add_log rn step level message data now db = db \<lparr> ld_logs := ld_logs db @
     [\<lparr> lg_id = ld_next_log db, lg_run = rn, lg_step = step, lg_level = level, lg_message = message, lg_data = data, lg_created_at = now \<rparr>],
     ld_next_log := ld_next_log db + 1 \<rparr>"

text \<open>The step instances of a run; the surrogate keys are \<open>AUTOINCREMENT\<close>, never used again.\<close>

definition new_step :: "loom_lib \<Rightarrow> uuid \<Rightarrow> int \<Rightarrow> int \<Rightarrow> step_def \<Rightarrow> step_row" where
  "new_step L rn now sid d = \<lparr> sp_id = sid, sp_run = rn, sp_name = sd_name d, sp_type = sd_type d,
     sp_config_text = ll_json_text L (case sd_config d of Some c \<Rightarrow> c | None \<Rightarrow> JObject []),
     sp_status = Pending, sp_input_text = empty_object, sp_output_text = empty_object, sp_error = None,
     sp_depends_text = ll_names_text L (deps_of d), sp_retry_count = 0,
     sp_max_retries = (case sd_max_retries d of Some r \<Rightarrow> r | None \<Rightarrow> 3),
     sp_timeout_ms = (case sd_timeout_ms d of Some t \<Rightarrow> t | None \<Rightarrow> 30000),
     sp_started_at = None, sp_completed_at = None, sp_created_at = now \<rparr>"

fun new_steps :: "loom_lib \<Rightarrow> uuid \<Rightarrow> int \<Rightarrow> int \<Rightarrow> step_def list \<Rightarrow> step_row list" where
  "new_steps L rn now sid [] = []"
| "new_steps L rn now sid (d # ds) = new_step L rn now sid d # new_steps L rn now (sid + 1) ds"

definition insert_run ::
    "loom_lib \<Rightarrow> int \<Rightarrow> uuid \<Rightarrow> uuid \<Rightarrow> uuid \<Rightarrow> uuid \<Rightarrow> json option \<Rightarrow> loom_db \<Rightarrow>
     loom_db \<times> (loom_error + loom_run \<times> string)" where
  "insert_run L now rid tenant p wid input db =
     (case get_workflow_in L tenant p wid db of
        Inl e \<Rightarrow> (db, Inl e)
      | Inr None \<Rightarrow> (db, Inl (WorkflowNotFound wid))
      | Inr (Some w) \<Rightarrow>
     case validate_definition L (wf_steps w) of
        Inl e \<Rightarrow> (db, Inl e)
      | Inr _ \<Rightarrow>
     if wf_steps w = [] then (db, Inl (InvalidInput ''workflow has no steps''))
     else if list_ex (\<lambda>r. rn_id r = rid) (ld_runs db) then (db, Inl (Backend ''UNIQUE constraint failed: loom_runs.id''))
     else
       (let input = (case input of Some v \<Rightarrow> v | None \<Rightarrow> JObject []);
            row = \<lparr> rn_id = rid, rn_workflow = wid, rn_tenant = tenant, rn_principal = p, rn_status = run_status.Pending,
              rn_input_text = ll_json_text L input, rn_output_text = empty_object, rn_error = None,
              rn_started_at = None, rn_completed_at = None, rn_created_at = now, rn_updated_at = now \<rparr> in
        (add_log rid None Info (''run created for workflow '' @ ll_debug L (wf_name w)) empty_object now
           (db \<lparr> ld_runs := ld_runs db @ [row],
                 ld_steps := ld_steps db @ new_steps L rid now (ld_next_step db) (wf_steps w),
                 ld_next_step := ld_next_step db + int (length (wf_steps w)) \<rparr>),
         Inr (run_row.extend row \<lparr> rn_input = input, rn_output = JObject [] \<rparr>, wf_name w))))"

definition unfinished :: "step_status \<Rightarrow> bool" where
  "unfinished st \<longleftrightarrow> st = Pending \<or> st = Running"

definition active :: "run_status \<Rightarrow> bool" where
  "active st \<longleftrightarrow> st = run_status.Pending \<or> st = run_status.Running"

definition cancel_run_in ::
    "loom_lib \<Rightarrow> int \<Rightarrow> uuid \<Rightarrow> uuid \<Rightarrow> uuid \<Rightarrow> loom_db \<Rightarrow> loom_db \<times> (loom_error + loom_run option)" where
  "cancel_run_in L now tenant p rid db =
     (case get_run_any L rid db of
        Inl e \<Rightarrow> (db, Inl e)
      | Inr None \<Rightarrow> (db, Inl (RunNotFound rid))
      | Inr (Some rn) \<Rightarrow>
     if \<not> owned tenant p rn then (db, Inl (RunNotFound rid))
     else if is_terminal (rn_status rn) then (db, Inr None)
     else
       (add_log rid None Info ''run cancelled'' empty_object now
          (db \<lparr> ld_runs := sql_update (\<lambda>r. rn_id r = rid \<and> rn_tenant r = tenant \<and> rn_principal r = p)
                  (\<lambda>r. r \<lparr> rn_status := run_status.Cancelled, rn_completed_at := Some now, rn_updated_at := now \<rparr>) (ld_runs db),
                ld_steps := sql_update (\<lambda>s. sp_run s = rid \<and> unfinished (sp_status s))
                  (\<lambda>s. s \<lparr> sp_status := Skipped \<rparr>) (ld_steps db) \<rparr>),
        Inr (Some rn)))"


section \<open>One attempt of a step\<close>

datatype transition = Stale | CompletedNow | Retrying | FailedNow

text \<open>The condition that the guarded updates share: the exact attempt is running and its run is active.\<close>

definition current_attempt :: "int \<Rightarrow> int \<Rightarrow> int \<Rightarrow> loom_db \<Rightarrow> step_row \<Rightarrow> bool" where
  "current_attempt sid retry started db s \<longleftrightarrow> sp_id s = sid \<and> sp_status s = Running \<and> sp_retry_count s = retry \<and>
     sp_started_at s = Some started \<and> list_ex (\<lambda>r. rn_id r = sp_run s \<and> active (rn_status r)) (ld_runs db)"

definition attempt_is_current :: "loom_step \<Rightarrow> loom_db \<Rightarrow> bool" where
  "attempt_is_current s db =
     (case sp_started_at s of
        None \<Rightarrow> False
      | Some started \<Rightarrow> list_ex (current_attempt (sp_id s) (sp_retry_count s) started db) (ld_steps db))"

definition complete_attempt ::
    "loom_lib \<Rightarrow> int \<Rightarrow> loom_step \<Rightarrow> int \<Rightarrow> int \<Rightarrow> json \<Rightarrow> loom_db \<Rightarrow> loom_db \<times> (loom_error + transition)" where
  "complete_attempt L now s retry started output db =
     (let key = current_attempt (sp_id s) retry started db in
      if sql_changed key (ld_steps db) = 0 then (db, Inr Stale)
      else
        (add_log (sp_run s) (Some (sp_id s)) Info (''step '' @ ll_debug L (sp_name s) @ '' completed'') empty_object now
           (db \<lparr> ld_steps := sql_update key (\<lambda>x. x \<lparr> sp_status := Completed, sp_output_text := ll_json_text L output,
                  sp_completed_at := Some now \<rparr>) (ld_steps db) \<rparr>),
         Inr CompletedNow))"

definition error_data :: "loom_lib \<Rightarrow> string \<Rightarrow> string" where
  "error_data L message = ll_json_text L (JObject [(''error'', JString message)])"

definition fail_attempt ::
    "loom_lib \<Rightarrow> int \<Rightarrow> loom_step \<Rightarrow> int \<Rightarrow> int \<Rightarrow> string \<Rightarrow> loom_db \<Rightarrow> loom_db \<times> (loom_error + transition)" where
  "fail_attempt L now s retry started message db =
     (let key = current_attempt (sp_id s) retry started db in
      if retry < sp_max_retries s then
        (if sql_changed key (ld_steps db) = 0 then (db, Inr Stale)
         else
           (add_log (sp_run s) (Some (sp_id s)) Warn
              (''step '' @ ll_debug L (sp_name s) @ '' failed, retrying ('' @ i64_text (sp_retry_count s + 1) @ ''/'' @
                 i64_text (sp_max_retries s) @ '')'') (error_data L message) now
              (db \<lparr> ld_steps := sql_update key (\<lambda>x. x \<lparr> sp_status := Pending, sp_retry_count := sp_retry_count x + 1,
                     sp_error := Some message, sp_started_at := None \<rparr>) (ld_steps db) \<rparr>),
            Inr Retrying))
      else if sql_changed key (ld_steps db) = 0 then (db, Inr Stale)
      else
        (let steps1 = sql_update key (\<lambda>x. x \<lparr> sp_status := Failed, sp_error := Some message,
               sp_completed_at := Some now \<rparr>) (ld_steps db);
             steps2 = sql_update (\<lambda>x. sp_run x = sp_run s \<and> sp_id x \<noteq> sp_id s \<and> unfinished (sp_status x))
               (\<lambda>x. x \<lparr> sp_status := Skipped, sp_completed_at := Some now \<rparr>) steps1;
             run_key = (\<lambda>r. rn_id r = sp_run s \<and> active (rn_status r)) in
         if sql_changed run_key (ld_runs db) \<noteq> 1
         then (db, Inl (Backend (''active step '' @ i64_text (sp_id s) @ '' had no active owning run'')))
         else
           (add_log (sp_run s) (Some (sp_id s)) Error
              (''step '' @ ll_debug L (sp_name s) @ '' failed (max retries exhausted)'') (error_data L message) now
              (db \<lparr> ld_steps := steps2,
                    ld_runs := sql_update run_key (\<lambda>r. r \<lparr> rn_status := run_status.Failed, rn_error := Some message,
                      rn_completed_at := Some now, rn_updated_at := now \<rparr>) (ld_runs db) \<rparr>),
            Inr FailedNow)))"


section \<open>The transaction of an advance pass\<close>

definition overlay :: "(string \<times> json) list \<Rightarrow> json \<Rightarrow> (string \<times> json) list" where
  "overlay m v = (case v of JObject es \<Rightarrow> foldl (\<lambda>m (k, x). btree_insert k x m) m es | _ \<Rightarrow> m)"

text \<open>Collected into a hash map by name, the last of equal names wins.\<close>

definition step_named :: "loom_step list \<Rightarrow> string \<Rightarrow> loom_step option" where
  "step_named steps n = find (\<lambda>s. sp_name s = n) (rev steps)"

definition deps_met :: "loom_step list \<Rightarrow> loom_step \<Rightarrow> bool" where
  "deps_met steps s = list_all (\<lambda>d. case step_named steps d of
     Some c \<Rightarrow> sp_status c = Completed | None \<Rightarrow> False) (sp_depends_on s)"

definition merged_input :: "loom_run \<Rightarrow> loom_step list \<Rightarrow> loom_step \<Rightarrow> json" where
  "merged_input rn steps s = JObject (foldl (\<lambda>m d. case step_named steps d of
     Some c \<Rightarrow> overlay m (sp_output c) | None \<Rightarrow> m) (overlay [] (rn_input rn)) (sp_depends_on s))"

definition merged_output :: "loom_step list \<Rightarrow> json" where
  "merged_output steps = JObject (foldl (\<lambda>m s. overlay m (sp_output s)) [] (filter (\<lambda>s. sp_status s = Completed) steps))"

text \<open>
  The steps that are started, in the order of their ids; \<open>at\<close> is the reading of the clock for each. The
  decisions are made on the steps as they were read at the start of the pass.
\<close>

fun claim_steps ::
    "loom_lib \<Rightarrow> (int \<Rightarrow> int) \<Rightarrow> loom_run \<Rightarrow> loom_step list \<Rightarrow> loom_step list \<Rightarrow> loom_db \<Rightarrow> loom_db \<times> loom_step list" where
  "claim_steps L at rn steps [] db = (db, [])"
| "claim_steps L at rn steps (s # rest) db =
     (if sp_status s \<noteq> Pending \<or> \<not> deps_met steps s then claim_steps L at rn steps rest db
      else
        (let input = merged_input rn steps s;
             now = at (sp_id s);
             started = s \<lparr> sp_input := input, sp_input_text := ll_json_text L input, sp_status := Running,
               sp_started_at := Some now \<rparr>;
             key = (\<lambda>x. sp_id x = sp_id s \<and> sp_status x = Pending \<and>
               list_ex (\<lambda>r. rn_id r = sp_run x \<and> active (rn_status r)) (ld_runs db)) in
         if sql_changed key (ld_steps db) = 0 then claim_steps L at rn steps rest db
         else
           (case claim_steps L at rn steps rest
                (add_log (rn_id rn) (Some (sp_id s)) Info (''step '' @ ll_debug L (sp_name s) @ '' started'') empty_object now
                   (db \<lparr> ld_steps := sql_update key (\<lambda>x. x \<lparr> sp_status := Running,
                          sp_input_text := ll_json_text L input, sp_started_at := Some now \<rparr>) (ld_steps db) \<rparr>)) of
              (db', ready) \<Rightarrow> (db', started # ready))))"

text \<open>
  What a pass finds: a terminal run, a run that it completed, or the started steps. \<open>Again\<close> is the
  \<open>continue\<close> after an update that changed no row (it does not occur, lemma \<open>never_again\<close>).
\<close>

datatype pass = RunOver | Again | Finished loom_run | Claimed loom_run "loom_step list"

definition claim_pass ::
    "loom_lib \<Rightarrow> int \<Rightarrow> (int \<Rightarrow> int) \<Rightarrow> uuid \<Rightarrow> loom_db \<Rightarrow> loom_db \<times> (loom_error + pass)" where
  "claim_pass L now at rid db =
     (case get_run_any L rid db of
        Inl e \<Rightarrow> (db, Inl e)
      | Inr None \<Rightarrow> (db, Inl (RunNotFound rid))
      | Inr (Some rn) \<Rightarrow>
     if is_terminal (rn_status rn) then (db, Inr RunOver)
     else
       (let start_key = (\<lambda>r. rn_id r = rid \<and> rn_status r = run_status.Pending);
            db1 = (if rn_status rn = run_status.Pending
              then db \<lparr> ld_runs := sql_update start_key (\<lambda>r. r \<lparr> rn_status := run_status.Running,
                     rn_started_at := Some now, rn_updated_at := now \<rparr>) (ld_runs db) \<rparr>
              else db) in
        if rn_status rn = run_status.Pending \<and> sql_changed start_key (ld_runs db) = 0 then (db, Inr Again)
        else case into_steps L (filter (\<lambda>s. sp_run s = rid) (ld_steps db1)) of
          Inl e \<Rightarrow> (db, Inl e)
        | Inr steps \<Rightarrow>
       if list_all (\<lambda>s. \<not> unfinished (sp_status s)) steps then
         (let key = (\<lambda>r. rn_id r = rid \<and> active (rn_status r)) in
          if sql_changed key (ld_runs db1) = 0 then (db1, Inr Again)
          else
            (add_log rid None Info ''run completed'' empty_object now
               (db1 \<lparr> ld_runs := sql_update key (\<lambda>r. r \<lparr> rn_status := run_status.Completed,
                      rn_output_text := ll_json_text L (merged_output steps), rn_completed_at := Some now,
                      rn_updated_at := now \<rparr>) (ld_runs db1) \<rparr>),
             Inr (Finished rn)))
       else
         (case claim_steps L at rn steps steps db1 of (db2, ready) \<Rightarrow> (db2, Inr (Claimed rn ready)))))"


section \<open>Histories\<close>

text \<open>
  One atomic operation of the store. A step that a method holds was read from the store before
  (\<open>captured\<close>): the columns that no statement writes are still those of its row.
\<close>

datatype loom_op =
    CreateWorkflow int uuid new_workflow
  | UpdateWorkflow int uuid uuid uuid workflow_patch
  | DeleteWorkflow uuid uuid uuid
  | InsertRun int uuid uuid uuid uuid "json option"
  | CancelRun int uuid uuid uuid
  | CompleteAttempt int loom_step int int json
  | FailAttempt int loom_step int int string
  | ClaimPass int "int \<Rightarrow> int" uuid

datatype loom_reply =
    WorkflowReply "loom_error + workflow"
  | DeleteReply "loom_error + bool"
  | RunReply "loom_error + loom_run \<times> string"
  | CancelReply "loom_error + loom_run option"
  | AttemptReply "loom_error + transition"
  | PassReply "loom_error + pass"

definition captured :: "loom_step \<Rightarrow> loom_db \<Rightarrow> bool" where
  "captured s db \<longleftrightarrow> sp_id s < ld_next_step db \<and> (\<forall>r \<in> set (ld_steps db). sp_id r = sp_id s \<longrightarrow>
     sp_run s = sp_run r \<and> sp_name s = sp_name r \<and> sp_max_retries s = sp_max_retries r \<and> sp_timeout_ms s = sp_timeout_ms r)"

fun loom_apply :: "loom_lib \<Rightarrow> loom_op \<Rightarrow> loom_db \<Rightarrow> loom_db \<times> loom_reply" where
  "loom_apply L (CreateWorkflow now wid new) db = map_prod id WorkflowReply (create_workflow L now wid new db)"
| "loom_apply L (UpdateWorkflow now tenant p wid patch) db =
     map_prod id WorkflowReply (update_workflow L now tenant p wid patch db)"
| "loom_apply L (DeleteWorkflow tenant p wid) db = map_prod id DeleteReply (delete_workflow tenant p wid db)"
| "loom_apply L (InsertRun now rid tenant p wid input) db =
     map_prod id RunReply (insert_run L now rid tenant p wid input db)"
| "loom_apply L (CancelRun now tenant p rid) db = map_prod id CancelReply (cancel_run_in L now tenant p rid db)"
| "loom_apply L (CompleteAttempt now s retry started output) db =
     (if captured s db then map_prod id AttemptReply (complete_attempt L now s retry started output db)
      else (db, AttemptReply (Inr Stale)))"
| "loom_apply L (FailAttempt now s retry started message) db =
     (if captured s db then map_prod id AttemptReply (fail_attempt L now s retry started message db)
      else (db, AttemptReply (Inr Stale)))"
| "loom_apply L (ClaimPass now at rid) db = map_prod id PassReply (claim_pass L now at rid db)"

end
