(* ===== verification/Loom_Invariant.thy ===== *)
theory Loom_Invariant
  imports Loom
begin

text \<open>
  The invariant of the Loom store, kept by every atomic operation: a step is started only after the
  steps it depends on have completed, the status of a run agrees with those of its steps, and no retry
  budget is exceeded. On it rest the claims of steps (each attempt is handed out at most once) and the
  progress of runs.
\<close>


section \<open>What is relied on, and the invariant\<close>

text \<open>
  A hash map yields its keys in some order, and a printed list of strings parses to itself. Nothing is
  assumed of the JSON texts: a stored configuration, input or output may fail to parse, and then the
  operations that read it fail.
\<close>

definition loom_lib_ok :: "loom_lib \<Rightarrow> bool" where
  "loom_lib_ok L \<longleftrightarrow> key_order (ll_order L) \<and> (\<forall>ds. ll_names_parse L (ll_names_text L ds) = Some ds)"

definition row_deps :: "loom_lib \<Rightarrow> 'm step_row_scheme \<Rightarrow> string list" where
  "row_deps L s = (case ll_names_parse L (sp_depends_text s) of Some ds \<Rightarrow> ds | None \<Rightarrow> [])"

definition started_status :: "step_status \<Rightarrow> bool" where
  "started_status st \<longleftrightarrow> st = Running \<or> st = Completed \<or> st = Failed"

fun agrees :: "run_status \<Rightarrow> step_status \<Rightarrow> bool" where
  "agrees run_status.Pending st = (st = Pending)"
| "agrees run_status.Running st = (st = Pending \<or> st = Running \<or> st = Completed)"
| "agrees run_status.Completed st = (st = Completed)"
| "agrees _ st = (\<not> unfinished st)"

definition completed_in :: "step_row list \<Rightarrow> uuid \<Rightarrow> string \<Rightarrow> bool" where
  "completed_in steps rid n \<longleftrightarrow> (\<exists>c \<in> set steps. sp_run c = rid \<and> sp_name c = n \<and> sp_status c = Completed)"

text \<open>A row by itself: its list of dependencies parses, its budget holds, a running attempt has a start.\<close>

definition row_ok :: "loom_lib \<Rightarrow> step_row \<Rightarrow> bool" where
  "row_ok L s \<longleftrightarrow> ll_names_parse L (sp_depends_text s) \<noteq> None \<and>
     0 \<le> sp_retry_count s \<and> sp_retry_count s \<le> sp_max_retries s \<and> (sp_status s = Running \<longrightarrow> sp_started_at s \<noteq> None)"

definition run_needs :: "loom_lib \<Rightarrow> uuid \<Rightarrow> step_row list \<Rightarrow> (string \<times> string) set" where
  "run_needs L rid steps = (\<Union>s \<in> set steps. if sp_run s = rid then set (row_deps L s) \<times> {sp_name s} else {})"

text \<open>The shape of the tables: unique keys, and in each run a well-formed acyclic graph.\<close>

definition shape_ok :: "loom_lib \<Rightarrow> uuid list \<Rightarrow> step_row list \<Rightarrow> int \<Rightarrow> bool" where
  "shape_ok L run_ids steps n \<longleftrightarrow> distinct run_ids \<and> distinct (map sp_id steps) \<and> (\<forall>s \<in> set steps. sp_id s < n) \<and>
     distinct (map (\<lambda>s. (sp_run s, sp_name s)) steps) \<and> sp_run ` set steps \<subseteq> set run_ids \<and>
     (\<forall>s \<in> set steps. \<forall>d \<in> set (row_deps L s). \<exists>c \<in> set steps. sp_run c = sp_run s \<and> sp_name c = d) \<and>
     (\<forall>rid. acyclic (run_needs L rid steps))"

definition loom_inv :: "loom_lib \<Rightarrow> loom_db \<Rightarrow> bool" where
  "loom_inv L db \<longleftrightarrow> shape_ok L (map rn_id (ld_runs db)) (ld_steps db) (ld_next_step db) \<and>
     (\<forall>s \<in> set (ld_steps db). row_ok L s \<and>
        (started_status (sp_status s) \<longrightarrow> (\<forall>d \<in> set (row_deps L s). completed_in (ld_steps db) (sp_run s) d)) \<and>
        (\<forall>r \<in> set (ld_runs db). rn_id r = sp_run s \<longrightarrow> agrees (rn_status r) (sp_status s)))"

text \<open>
  How an operation may change the row of a step. A terminal row never changes; a running attempt ends as
  completed, failed or skipped, or leads to a pending row with a new attempt number; a pending attempt
  is started or skipped.
\<close>

definition step_forward :: "step_row \<Rightarrow> step_row \<Rightarrow> bool" where
  "step_forward s t \<longleftrightarrow> sp_id t = sp_id s \<and> sp_run t = sp_run s \<and> sp_name t = sp_name s \<and>
     sp_depends_text t = sp_depends_text s \<and> sp_config_text t = sp_config_text s \<and>
     sp_max_retries t = sp_max_retries s \<and> sp_timeout_ms t = sp_timeout_ms s \<and>
     (\<not> unfinished (sp_status s) \<longrightarrow> t = s) \<and>
     (sp_retry_count t = sp_retry_count s \<and> (sp_status s = Running \<longrightarrow> sp_status t \<noteq> Pending) \<or>
      sp_status s = Running \<and> sp_status t = Pending \<and> sp_retry_count t = sp_retry_count s + 1)"

text \<open>An update of rows in place keeps the invariant if each row and each pair of run and step does.\<close>

lemma inv_update:
  assumes inv: "loom_inv L db"
    and steps: "ld_steps db' = map f (ld_steps db)" and runs: "ld_runs db' = map g (ld_runs db)"
    and same: "ld_next_step db' = ld_next_step db"
    and f: "\<And>s. s \<in> set (ld_steps db) \<Longrightarrow> step_forward s (f s) \<and> row_ok L (f s)"
    and started: "\<And>s. s \<in> set (ld_steps db) \<Longrightarrow> started_status (sp_status (f s)) \<Longrightarrow> \<not> started_status (sp_status s) \<Longrightarrow>
      \<forall>d \<in> set (row_deps L s). completed_in (ld_steps db) (sp_run s) d"
    and g: "\<And>r. r \<in> set (ld_runs db) \<Longrightarrow> rn_id (g r) = rn_id r"
    and agree: "\<And>r s. r \<in> set (ld_runs db) \<Longrightarrow> s \<in> set (ld_steps db) \<Longrightarrow> rn_id r = sp_run s \<Longrightarrow>
      agrees (rn_status r) (sp_status s) \<Longrightarrow> agrees (rn_status (g r)) (sp_status (f s))"
  shows "loom_inv L db'"
proof -
  have fwd: "sp_id (f s) = sp_id s" "sp_run (f s) = sp_run s" "sp_name (f s) = sp_name s" "row_deps L (f s) = row_deps L s"
    if "s \<in> set (ld_steps db)" for s
    using f [OF that] by (auto simp: step_forward_def row_deps_def)
  have ids: "map sp_id (ld_steps db') = map sp_id (ld_steps db)" "map rn_id (ld_runs db') = map rn_id (ld_runs db)"
    "map (\<lambda>s. (sp_run s, sp_name s)) (ld_steps db') = map (\<lambda>s. (sp_run s, sp_name s)) (ld_steps db)"
    using fwd g by (simp_all add: steps runs)
  have needs: "run_needs L rid (ld_steps db') = run_needs L rid (ld_steps db)" for rid
    unfolding run_needs_def steps set_map image_image by (rule SUP_cong) (simp_all add: fwd)
  have shape: "shape_ok L (map rn_id (ld_runs db')) (ld_steps db') (ld_next_step db')"
    using inv fwd unfolding loom_inv_def shape_ok_def ids needs same by (force simp: steps)
  have completed: "completed_in (ld_steps db') rid n" if in_db: "completed_in (ld_steps db) rid n" for rid n
  proof -
    obtain c where c: "c \<in> set (ld_steps db)" "sp_run c = rid" "sp_name c = n" "sp_status c = Completed"
      using in_db by (auto simp: completed_in_def)
    then have "f c = c" using f by (auto simp: step_forward_def unfinished_def)
    with c show ?thesis unfolding completed_in_def steps by (metis image_eqI list.set_map)
  qed
  have "started_status (sp_status (f s)) \<longrightarrow> (\<forall>d \<in> set (row_deps L s). completed_in (ld_steps db') (sp_run s) d)"
    if "s \<in> set (ld_steps db)" for s
    using started [OF that] completed inv that unfolding loom_inv_def by blast
  then show ?thesis
    using shape inv f fwd g agree unfolding loom_inv_def by (auto simp: steps runs)
qed


section \<open>Rows that are read\<close>

lemma into_step_Inr:
  assumes "into_step L r = Inr s"
  shows "step_row.truncate s = r" "sp_depends_on s = row_deps L r"
  using assms by (auto simp: into_step_def row_deps_def step_row.defs split: option.splits)

lemma truncate_step [simp]:
  "sp_id (step_row.truncate s) = sp_id s" "sp_run (step_row.truncate s) = sp_run s"
  "sp_name (step_row.truncate s) = sp_name s" "sp_status (step_row.truncate s) = sp_status s"
  "sp_max_retries (step_row.truncate s) = sp_max_retries s" "sp_timeout_ms (step_row.truncate s) = sp_timeout_ms s"
  "sp_retry_count (step_row.truncate s) = sp_retry_count s" "sp_started_at (step_row.truncate s) = sp_started_at s"
  "sp_depends_text (step_row.truncate s) = sp_depends_text s" "sp_type (step_row.truncate s) = sp_type s"
  by (simp_all add: step_row.defs)

lemma into_step_row:
  assumes "into_step L r = Inr s"
  shows "sp_id s = sp_id r" "sp_run s = sp_run r" "sp_name s = sp_name r" "sp_status s = sp_status r"
    "sp_max_retries s = sp_max_retries r" "sp_timeout_ms s = sp_timeout_ms r" "sp_retry_count s = sp_retry_count r"
    "sp_started_at s = sp_started_at r" "sp_depends_on s = row_deps L r"
  using into_step_Inr [OF assms] by (metis truncate_step)+

lemma into_steps_Inr: "into_steps L rs = Inr ss \<longleftrightarrow> list_all2 (\<lambda>r s. into_step L r = Inr s) rs ss"
proof (induction rs arbitrary: ss)
  case (Cons r rs)
  show ?case
  proof (cases "into_steps L rs")
    case (Inl e)
    then have "\<not> list_all2 (\<lambda>r s. into_step L r = Inr s) rs ss'" for ss' using Cons.IH [of ss'] by simp
    with Inl show ?thesis by (cases ss) (auto split: sum.splits)
  next
    case (Inr xs)
    then have "list_all2 (\<lambda>r s. into_step L r = Inr s) rs ss' \<longleftrightarrow> xs = ss'" for ss' using Cons.IH [of ss'] by simp
    with Inr show ?thesis by (cases ss) (auto split: sum.splits)
  qed
qed auto

lemma into_steps_ok: "is_ok (into_steps L rs) \<longleftrightarrow> (\<forall>r \<in> set rs. is_ok (into_step L r))"
  by (induction rs) (auto split: sum.splits)

lemma into_run_Inr:
  assumes "into_run L r = Inr rn"
  shows "rn_id rn = rn_id r" "rn_status rn = rn_status r" "rn_tenant rn = rn_tenant r" "rn_principal rn = rn_principal r"
  using assms by (auto simp: into_run_def run_row.defs split: option.splits)

lemma get_run_any_Some:
  assumes "get_run_any L rid db = Inr (Some rn)"
  obtains r where "r \<in> set (ld_runs db)" "rn_id r = rid" "into_run L r = Inr rn"
  using assms by (auto simp: get_run_any_def transposed_def split: option.splits sum.splits dest!: find_SomeD)

lemma add_log_tables [simp]:
  "ld_runs (add_log rn step level message data now db) = ld_runs db"
  "ld_steps (add_log rn step level message data now db) = ld_steps db"
  "ld_workflows (add_log rn step level message data now db) = ld_workflows db"
  "ld_next_step (add_log rn step level message data now db) = ld_next_step db"
  by (simp_all add: add_log_def)


section \<open>Consequences of the invariant\<close>

lemma inv_run_unique: "loom_inv L db \<Longrightarrow> r \<in> set (ld_runs db) \<Longrightarrow> q \<in> set (ld_runs db) \<Longrightarrow> rn_id r = rn_id q \<Longrightarrow> r = q"
  by (auto simp: loom_inv_def shape_ok_def distinct_map dest: inj_onD)

lemma inv_step_unique: "loom_inv L db \<Longrightarrow> s \<in> set (ld_steps db) \<Longrightarrow> t \<in> set (ld_steps db) \<Longrightarrow> sp_id s = sp_id t \<Longrightarrow> s = t"
  by (auto simp: loom_inv_def shape_ok_def distinct_map dest: inj_onD)

lemma inv_row: "loom_inv L db \<Longrightarrow> s \<in> set (ld_steps db) \<Longrightarrow> row_ok L s"
  by (simp add: loom_inv_def)

lemma inv_agrees:
  "loom_inv L db \<Longrightarrow> r \<in> set (ld_runs db) \<Longrightarrow> s \<in> set (ld_steps db) \<Longrightarrow> rn_id r = sp_run s \<Longrightarrow> agrees (rn_status r) (sp_status s)"
  by (simp add: loom_inv_def)

lemma inv_dep:
  "loom_inv L db \<Longrightarrow> s \<in> set (ld_steps db) \<Longrightarrow> started_status (sp_status s) \<Longrightarrow> d \<in> set (row_deps L s) \<Longrightarrow>
   completed_in (ld_steps db) (sp_run s) d"
  by (simp add: loom_inv_def)

lemma agrees_active: "agrees (rn_status r) Running \<Longrightarrow> rn_status r = run_status.Running"
  by (cases "rn_status r") (auto simp: unfinished_def)

lemma step_forward_refl [simp]: "step_forward s s"
  by (simp add: step_forward_def)

text \<open>The tables decide the invariant; the workflows and the log lines do not matter.\<close>

lemma inv_cong:
  "loom_inv L db \<Longrightarrow> ld_runs db' = ld_runs db \<Longrightarrow> ld_steps db' = ld_steps db \<Longrightarrow> ld_next_step db' = ld_next_step db \<Longrightarrow> loom_inv L db'"
  by (simp add: loom_inv_def)


lemma inv_add_log [simp]: "loom_inv L (add_log rn step level message data now db) = loom_inv L db"
  by (simp add: loom_inv_def)


section \<open>Each operation keeps the invariant\<close>

lemma inv_create_workflow: "loom_inv L db \<Longrightarrow> loom_inv L (fst (create_workflow L now wid new db))"
  by (erule inv_cong) (auto simp: create_workflow_def Let_def split: sum.splits)

lemma inv_update_workflow: "loom_inv L db \<Longrightarrow> loom_inv L (fst (update_workflow L now tenant p wid patch db))"
  by (erule inv_cong) (auto simp: update_workflow_def Let_def split: sum.splits option.splits)

lemma acyclic_needs_mono: "acyclic (run_needs L rid ys) \<Longrightarrow> set xs \<subseteq> set ys \<Longrightarrow> acyclic (run_needs L rid xs)"
  by (erule acyclic_subset) (auto simp: run_needs_def split: if_splits)

lemma inv_delete_workflow:
  assumes inv: "loom_inv L db"
  shows "loom_inv L (fst (delete_workflow tenant p wid db))"
proof -
  let ?gone = "set (map wf_id (filter (\<lambda>x. wf_id x = wid \<and> wf_tenant x = tenant \<and> wf_principal x = p) (ld_workflows db)))"
  let ?runs = "filter (\<lambda>r. rn_workflow r \<notin> ?gone) (ld_runs db)"
  let ?dead = "set (map rn_id (filter (\<lambda>r. rn_workflow r \<in> ?gone) (ld_runs db)))"
  let ?steps = "filter (\<lambda>s. sp_run s \<notin> ?dead) (ld_steps db)"
  let ?db = "db \<lparr> ld_runs := ?runs, ld_steps := ?steps \<rparr>"
  have kept: "sp_run s \<in> rn_id ` set ?runs" if "s \<in> set ?steps" for s
  proof -
    have "sp_run s \<in> rn_id ` set (ld_runs db)" using inv that unfolding loom_inv_def shape_ok_def by fastforce
    moreover have "sp_run s \<notin> ?dead" using that by simp
    ultimately show ?thesis by auto
  qed
  have completed: "completed_in ?steps rid n \<longleftrightarrow> completed_in (ld_steps db) rid n" if "rid \<notin> ?dead" for rid n
    using that by (auto simp: completed_in_def)
  have "shape_ok L (map rn_id ?runs) ?steps (ld_next_step db)"
    unfolding shape_ok_def
  proof (intro conjI allI ballI)
    show "distinct (map rn_id ?runs)" "distinct (map sp_id ?steps)" "distinct (map (\<lambda>s. (sp_run s, sp_name s)) ?steps)"
      using inv by (auto simp: loom_inv_def shape_ok_def distinct_map inj_on_def)
    show "sp_id s < ld_next_step db" if "s \<in> set ?steps" for s
      using inv that by (auto simp: loom_inv_def shape_ok_def)
    show "sp_run ` set ?steps \<subseteq> set (map rn_id ?runs)" using kept by auto
    show "\<exists>c \<in> set ?steps. sp_run c = sp_run s \<and> sp_name c = d" if "s \<in> set ?steps" "d \<in> set (row_deps L s)" for s d
    proof -
      have "s \<in> set (ld_steps db)" using that(1) by simp
      then have "\<exists>c \<in> set (ld_steps db). sp_run c = sp_run s \<and> sp_name c = d"
        using inv that(2) unfolding loom_inv_def shape_ok_def by blast
      then obtain c where c: "c \<in> set (ld_steps db)" "sp_run c = sp_run s" "sp_name c = d" by blast
      then have "c \<in> set ?steps" using that(1) by simp
      with c show ?thesis by blast
    qed
    show "acyclic (run_needs L rid ?steps)" for rid
    proof (rule acyclic_needs_mono)
      show "acyclic (run_needs L rid (ld_steps db))" using inv unfolding loom_inv_def shape_ok_def by blast
    qed auto
  qed
  moreover have "completed_in ?steps (sp_run s) d"
    if "s \<in> set ?steps" "started_status (sp_status s)" "d \<in> set (row_deps L s)" for s d
    using inv_dep [OF inv, of s d] that completed [of "sp_run s" d] by auto
  ultimately have "loom_inv L ?db"
    using inv by (auto simp: loom_inv_def)
  then show ?thesis by (rule inv_cong) (simp_all add: delete_workflow_def Let_def)
qed


subsection \<open>A new run\<close>

lemma new_steps_rows:
  "s \<in> set (new_steps L rn now sid ds) \<Longrightarrow> sp_run s = rn \<and> sp_status s = Pending \<and> sid \<le> sp_id s \<and>
     sp_id s < sid + int (length ds) \<and> (\<exists>d \<in> set ds. s = new_step L rn now (sp_id s) d)"
proof (induction ds arbitrary: sid)
  case (Cons d ds)
  then consider "s = new_step L rn now sid d" | "s \<in> set (new_steps L rn now (sid + 1) ds)" by auto
  then show ?case
  proof cases
    case 1
    then show ?thesis by (simp add: new_step_def)
  next
    case 2
    from Cons.IH [OF 2] show ?thesis by auto
  qed
qed simp

lemma new_steps_names: "map sp_name (new_steps L rn now sid ds) = map sd_name ds"
  by (induction ds arbitrary: sid) (simp_all add: new_step_def)

lemma new_steps_ids: "distinct (map sp_id (new_steps L rn now sid ds))"
proof (induction ds arbitrary: sid)
  case (Cons d ds)
  moreover have "sid \<noteq> sp_id s" if "s \<in> set (new_steps L rn now (sid + 1) ds)" for s
    using new_steps_rows [OF that] by simp
  ultimately show ?case by (auto simp: new_step_def)
qed simp

lemma new_steps_deps:
  "loom_lib_ok L \<Longrightarrow> map (\<lambda>s. (row_deps L s, sp_name s)) (new_steps L rn now sid ds) = map (\<lambda>d. (deps_of d, sd_name d)) ds"
  by (induction ds arbitrary: sid) (simp_all add: new_step_def row_deps_def loom_lib_ok_def)

lemma new_step_ok: "loom_lib_ok L \<Longrightarrow> in_limits d \<Longrightarrow> row_ok L (new_step L rn now sid d)"
  by (auto simp: row_ok_def new_step_def loom_lib_ok_def in_limits_def split: option.splits)

lemma validate_definition_Inr:
  assumes "loom_lib_ok L"
  shows "validate_definition L steps = Inr () \<longleftrightarrow>
    validate_steps (ll_debug L) (ll_order L) steps = Inr () \<and> validate_limits (ll_debug L) (ll_order L) steps = Inr ()"
  by (auto simp: validate_definition_def split: sum.splits)

lemma validated:
  assumes L: "loom_lib_ok L" and v: "validate_definition L steps = Inr ()"
  shows "named_steps steps" "acyclic (needs steps)" "\<forall>d \<in> set steps. in_limits d"
proof -
  have o: "key_order (ll_order L)" using L by (simp add: loom_lib_ok_def)
  show "named_steps steps" "acyclic (needs steps)" "\<forall>d \<in> set steps. in_limits d"
    using v unfolding validate_definition_Inr [OF L] validate_steps_Inr [OF o] validate_limits_Inr
    by (simp_all add: sound_graph_def)
qed

lemma new_needs:
  assumes L: "loom_lib_ok L"
  shows "run_needs L rid (new_steps L rid now n steps) = needs steps"
proof -
  have "run_needs L rid (new_steps L rid now n steps) =
      (\<Union>s \<in> set (new_steps L rid now n steps). set (row_deps L s) \<times> {sp_name s})"
    unfolding run_needs_def by (rule SUP_cong) (simp_all add: new_steps_rows)
  also have "\<dots> = (\<Union>(ds, n) \<in> set (map (\<lambda>s. (row_deps L s, sp_name s)) (new_steps L rid now n steps)). set ds \<times> {n})"
    by auto
  also have "\<dots> = needs steps" unfolding new_steps_deps [OF L] by (auto simp: needs_def)
  finally show ?thesis .
qed

lemma inv_new_run:
  assumes L: "loom_lib_ok L" and inv: "loom_inv L db" and v: "validate_definition L steps = Inr ()"
    and fresh: "rn_id row \<notin> rn_id ` set (ld_runs db)" and row: "rn_status row = run_status.Pending"
  shows "loom_inv L (db \<lparr> ld_runs := ld_runs db @ [row], ld_steps := ld_steps db @ new_steps L (rn_id row) now (ld_next_step db) steps,
    ld_next_step := ld_next_step db + int (length steps) \<rparr>)" (is "loom_inv L ?db")
proof -
  let ?new = "new_steps L (rn_id row) now (ld_next_step db) steps"
  note ok = validated [OF L v]
  have old: "shape_ok L (map rn_id (ld_runs db)) (ld_steps db) (ld_next_step db)" using inv by (simp add: loom_inv_def)
  have other: "sp_run s \<noteq> rn_id row" if "s \<in> set (ld_steps db)" for s
    using old that fresh unfolding shape_ok_def by (metis image_eqI image_set subsetD)
  have new: "sp_run s = rn_id row \<and> sp_status s = Pending \<and> ld_next_step db \<le> sp_id s \<and>
      sp_id s < ld_next_step db + int (length steps)" if "s \<in> set ?new" for s
    using new_steps_rows [OF that] by blast
  have new_ok: "row_ok L s" if "s \<in> set ?new" for s
    using new_steps_rows [OF that] new_step_ok [OF L] ok(3) by metis
  have needs: "run_needs L rid (ld_steps db @ ?new) = (if rid = rn_id row then needs steps else run_needs L rid (ld_steps db))" for rid
  proof -
    have "run_needs L rid (ld_steps db) = {}" if "rid = rn_id row"
      using other that by (auto simp: run_needs_def)
    moreover have "run_needs L rid ?new = {}" if "rid \<noteq> rn_id row"
      using new that by (auto simp: run_needs_def)
    moreover have "run_needs L rid (ld_steps db @ ?new) = run_needs L rid (ld_steps db) \<union> run_needs L rid ?new"
      by (auto simp: run_needs_def)
    ultimately show ?thesis using new_needs [OF L] by simp
  qed
  have dep: "\<exists>c \<in> set ?new. sp_name c = d" if "s \<in> set ?new" "d \<in> set (row_deps L s)" for s d
  proof -
    have "(row_deps L s, sp_name s) \<in> set (map (\<lambda>s. (row_deps L s, sp_name s)) ?new)" using that(1) by force
    then obtain e where "e \<in> set steps" "row_deps L s = deps_of e" unfolding new_steps_deps [OF L] by auto
    then have "d \<in> sd_name ` set steps"
      using that(2) ok(1) unfolding named_steps_def step_names_def by (metis subsetD)
    also have "sd_name ` set steps = sp_name ` set ?new" by (metis new_steps_names image_set)
    finally show ?thesis by auto
  qed
  have "shape_ok L (map rn_id (ld_runs ?db)) (ld_steps ?db) (ld_next_step ?db)"
    unfolding shape_ok_def
  proof (intro conjI allI ballI)
    show "distinct (map rn_id (ld_runs ?db))" using old fresh by (simp add: shape_ok_def)
    show "distinct (map sp_id (ld_steps ?db))"
    proof -
      have "sp_id s \<noteq> sp_id t" if "s \<in> set (ld_steps db)" "t \<in> set ?new" for s t
        using old new [OF that(2)] that(1) unfolding shape_ok_def by force
      then show ?thesis using old new_steps_ids by (auto simp: shape_ok_def)
    qed
    show "sp_id s < ld_next_step ?db" if "s \<in> set (ld_steps ?db)" for s
    proof -
      have "s \<in> set (ld_steps db) \<or> s \<in> set ?new" using that by simp
      then show ?thesis using old new unfolding shape_ok_def by force
    qed
    show "distinct (map (\<lambda>s. (sp_run s, sp_name s)) (ld_steps ?db))"
    proof -
      have "distinct (map sp_name ?new)" using ok(1) by (simp add: new_steps_names named_steps_def)
      then have "distinct (map (\<lambda>s. (sp_run s, sp_name s)) ?new)" by (auto simp: distinct_map inj_on_def)
      moreover have "sp_run s \<noteq> sp_run t" if "s \<in> set (ld_steps db)" "t \<in> set ?new" for s t
        using other new that by metis
      ultimately show ?thesis using old by (auto simp: shape_ok_def)
    qed
    show "sp_run ` set (ld_steps ?db) \<subseteq> set (map rn_id (ld_runs ?db))" using old new by (auto simp: shape_ok_def)
    show "\<exists>c \<in> set (ld_steps ?db). sp_run c = sp_run s \<and> sp_name c = d"
      if s: "s \<in> set (ld_steps ?db)" and d: "d \<in> set (row_deps L s)" for s d
    proof -
      consider "s \<in> set (ld_steps db)" | "s \<in> set ?new" using s by auto
      then show ?thesis
      proof cases
        case 1
        then show ?thesis using old d unfolding shape_ok_def by fastforce
      next
        case 2
        then obtain c where "c \<in> set ?new" "sp_name c = d" using dep [OF 2 d] by auto
        then show ?thesis using new [of c] new [OF 2] by auto
      qed
    qed
    show "acyclic (run_needs L rid (ld_steps ?db))" for rid
      using old ok(2) needs [of rid] by (simp add: shape_ok_def)
  qed
  moreover have "row_ok L s \<and>
        (started_status (sp_status s) \<longrightarrow> (\<forall>d \<in> set (row_deps L s). completed_in (ld_steps ?db) (sp_run s) d)) \<and>
        (\<forall>r \<in> set (ld_runs ?db). rn_id r = sp_run s \<longrightarrow> agrees (rn_status r) (sp_status s))"
    if s: "s \<in> set (ld_steps ?db)" for s
  proof -
    have mono: "completed_in (ld_steps db) rid d \<Longrightarrow> completed_in (ld_steps ?db) rid d" for rid d
      by (auto simp: completed_in_def)
    consider "s \<in> set (ld_steps db)" | "s \<in> set ?new" using s by auto
    then show ?thesis
    proof cases
      case 1
      then have "\<forall>r \<in> set (ld_runs ?db). rn_id r = sp_run s \<longrightarrow> agrees (rn_status r) (sp_status s)"
        using inv_agrees [OF inv _ 1] other [OF 1] by auto
      with 1 mono show ?thesis using inv_row [OF inv 1] inv_dep [OF inv 1] by blast
    next
      case 2
      have "\<forall>r \<in> set (ld_runs ?db). rn_id r = sp_run s \<longrightarrow> agrees (rn_status r) (sp_status s)"
        using new [OF 2] fresh row by (auto simp: image_iff)
      then show ?thesis using new [OF 2] new_ok [OF 2] by (simp add: started_status_def)
    qed
  qed
  ultimately show ?thesis using inv row unfolding loom_inv_def by auto
qed

lemma inv_insert_run:
  assumes L: "loom_lib_ok L" and inv: "loom_inv L db"
  shows "loom_inv L (fst (insert_run L now rid tenant p wid input db))"
proof -
  have new: "loom_inv L (db \<lparr> ld_runs := ld_runs db @ [row], ld_steps := ld_steps db @ new_steps L rid now (ld_next_step db) steps,
      ld_next_step := ld_next_step db + int (length steps) \<rparr>)"
    if "validate_definition L steps = Inr ()" "\<not> list_ex (\<lambda>r. rn_id r = rid) (ld_runs db)" "rn_id row = rid"
      "rn_status row = run_status.Pending" for steps row
  proof -
    have "rn_id row \<notin> rn_id ` set (ld_runs db)" using that(2,3) by (auto simp: list_ex_iff)
    then show ?thesis using inv_new_run [OF L inv that(1), of row now] that(3,4) by simp
  qed
  show ?thesis
  proof (cases "get_workflow_in L tenant p wid db")
    case (Inr m)
    show ?thesis
    proof (cases m)
      case (Some w)
      show ?thesis
        by (cases "validate_definition L (wf_steps w)")
          (simp_all add: insert_run_def Inr Some inv Let_def, auto intro!: new)
    qed (simp add: insert_run_def Inr inv)
  qed (simp add: insert_run_def inv)
qed


subsection \<open>Cancelling a run, and the end of an attempt\<close>

lemma inv_cancel_run:
  assumes L: "loom_lib_ok L" and inv: "loom_inv L db"
  shows "loom_inv L (fst (cancel_run_in L now tenant p rid db))"
proof -
  let ?db = "db \<lparr> ld_runs := sql_update (\<lambda>r. rn_id r = rid \<and> rn_tenant r = tenant \<and> rn_principal r = p)
                  (\<lambda>r. r \<lparr> rn_status := run_status.Cancelled, rn_completed_at := Some now, rn_updated_at := now \<rparr>) (ld_runs db),
                ld_steps := sql_update (\<lambda>s. sp_run s = rid \<and> unfinished (sp_status s))
                  (\<lambda>s. s \<lparr> sp_status := Skipped \<rparr>) (ld_steps db) \<rparr>"
  have "loom_inv L ?db" if rn: "get_run_any L rid db = Inr (Some rn)" "owned tenant p rn" "\<not> is_terminal (rn_status rn)" for rn
  proof -
    obtain q where q: "q \<in> set (ld_runs db)" "rn_id q = rid" "into_run L q = Inr rn" by (rule get_run_any_Some [OF rn(1)])
    then have key: "(rn_id r = rid \<and> rn_tenant r = tenant \<and> rn_principal r = p) = (rn_id r = rid)" if "r \<in> set (ld_runs db)" for r
      using inv_run_unique [OF inv that, of q] into_run_Inr [OF q(3)] rn(2) by (auto simp: owned_def)
    show ?thesis
    proof (rule inv_update [OF inv, of ?db "\<lambda>s. if sp_run s = rid \<and> unfinished (sp_status s) then s \<lparr> sp_status := Skipped \<rparr> else s"
          "\<lambda>r. if rn_id r = rid then r \<lparr> rn_status := run_status.Cancelled, rn_completed_at := Some now, rn_updated_at := now \<rparr> else r"])
      show "ld_runs ?db = map (\<lambda>r. if rn_id r = rid then r \<lparr> rn_status := run_status.Cancelled, rn_completed_at := Some now,
          rn_updated_at := now \<rparr> else r) (ld_runs db)" using key by (simp add: sql_update_def)
      show "step_forward s (if sp_run s = rid \<and> unfinished (sp_status s) then s \<lparr> sp_status := Skipped \<rparr> else s) \<and>
          row_ok L (if sp_run s = rid \<and> unfinished (sp_status s) then s \<lparr> sp_status := Skipped \<rparr> else s)"
        if "s \<in> set (ld_steps db)" for s
        using inv_row [OF inv that] by (auto simp: step_forward_def row_ok_def)
      show "rn_id (if rn_id r = rid then r \<lparr> rn_status := run_status.Cancelled, rn_completed_at := Some now, rn_updated_at := now \<rparr> else r) = rn_id r"
        if "r \<in> set (ld_runs db)" for r by simp
    qed (auto simp: sql_update_def started_status_def unfinished_def split: if_splits)
  qed
  then show ?thesis
    by (auto simp: cancel_run_in_def Let_def inv split: sum.splits option.splits)
qed

lemma current_attempt_row:
  assumes inv: "loom_inv L db" and x: "x \<in> set (ld_steps db)" "current_attempt sid retry started db x"
  shows "sp_id x = sid" "sp_status x = Running" "sp_retry_count x = retry"
    "r \<in> set (ld_runs db) \<Longrightarrow> rn_id r = sp_run x \<Longrightarrow> rn_status r = run_status.Running"
    "y \<in> set (ld_steps db) \<Longrightarrow> sp_id y = sid \<Longrightarrow> y = x"
  using x inv_agrees [OF inv, of r x] agrees_active [of r] inv_step_unique [OF inv x(1), of y]
  by (auto simp: current_attempt_def)

lemma inv_complete_attempt:
  assumes inv: "loom_inv L db"
  shows "loom_inv L (fst (complete_attempt L now s retry started output db))"
proof -
  let ?key = "current_attempt (sp_id s) retry started db"
  let ?f = "\<lambda>x. if ?key x then x \<lparr> sp_status := Completed, sp_output_text := ll_json_text L output, sp_completed_at := Some now \<rparr> else x"
  have "loom_inv L (db \<lparr> ld_steps := sql_update ?key (\<lambda>x. x \<lparr> sp_status := Completed, sp_output_text := ll_json_text L output,
      sp_completed_at := Some now \<rparr>) (ld_steps db) \<rparr>)" (is "loom_inv L ?db")
  proof (rule inv_update [OF inv, of ?db ?f id])
    show "step_forward x (?f x) \<and> row_ok L (?f x)" if "x \<in> set (ld_steps db)" for x
      using inv_row [OF inv that] by (auto simp: step_forward_def row_ok_def current_attempt_def unfinished_def)
    show "\<forall>d \<in> set (row_deps L x). completed_in (ld_steps db) (sp_run x) d"
      if "x \<in> set (ld_steps db)" "started_status (sp_status (?f x))" "\<not> started_status (sp_status x)" for x
      using that by (auto simp: current_attempt_def started_status_def split: if_splits)
    show "agrees (rn_status (id r)) (sp_status (?f x))"
      if "r \<in> set (ld_runs db)" "x \<in> set (ld_steps db)" "rn_id r = sp_run x" "agrees (rn_status r) (sp_status x)" for r x
      using current_attempt_row(4) [OF inv that(2) _ that(1,3)] that(4) by auto
  qed (simp_all add: sql_update_def)
  then show ?thesis by (simp add: complete_attempt_def Let_def inv)
qed

lemma inv_fail_attempt:
  assumes L: "loom_lib_ok L" and inv: "loom_inv L db" and s: "captured s db"
  shows "loom_inv L (fst (fail_attempt L now s retry started message db))"
proof -
  let ?key = "current_attempt (sp_id s) retry started db"
  let ?retry = "\<lambda>x. if ?key x then x \<lparr> sp_status := Pending, sp_retry_count := sp_retry_count x + 1, sp_error := Some message,
      sp_started_at := None \<rparr> else x"
  have again: "loom_inv L (db \<lparr> ld_steps := sql_update ?key (\<lambda>x. x \<lparr> sp_status := Pending, sp_retry_count := sp_retry_count x + 1,
      sp_error := Some message, sp_started_at := None \<rparr>) (ld_steps db) \<rparr>)" (is "loom_inv L ?db")
    if more: "retry < sp_max_retries s"
  proof (rule inv_update [OF inv, of ?db ?retry id])
    show "step_forward x (?retry x) \<and> row_ok L (?retry x)" if "x \<in> set (ld_steps db)" for x
      using inv_row [OF inv that] s that more
      by (auto simp: step_forward_def row_ok_def current_attempt_def captured_def unfinished_def)
    show "\<forall>d \<in> set (row_deps L x). completed_in (ld_steps db) (sp_run x) d"
      if "x \<in> set (ld_steps db)" "started_status (sp_status (?retry x))" "\<not> started_status (sp_status x)" for x
      using that by (auto simp: current_attempt_def started_status_def split: if_splits)
    show "agrees (rn_status (id r)) (sp_status (?retry x))"
      if "r \<in> set (ld_runs db)" "x \<in> set (ld_steps db)" "rn_id r = sp_run x" "agrees (rn_status r) (sp_status x)" for r x
      using current_attempt_row(4) [OF inv that(2) _ that(1,3)] that(4) by auto
  qed (simp_all add: sql_update_def)
  let ?fail = "\<lambda>x. if ?key x then x \<lparr> sp_status := Failed, sp_error := Some message, sp_completed_at := Some now \<rparr>
      else if sp_run x = sp_run s \<and> sp_id x \<noteq> sp_id s \<and> unfinished (sp_status x)
      then x \<lparr> sp_status := Skipped, sp_completed_at := Some now \<rparr> else x"
  let ?run = "\<lambda>r. if rn_id r = sp_run s \<and> active (rn_status r) then r \<lparr> rn_status := run_status.Failed, rn_error := Some message,
      rn_completed_at := Some now, rn_updated_at := now \<rparr> else r"
  have over: "loom_inv L (db \<lparr> ld_steps := map ?fail (ld_steps db), ld_runs := map ?run (ld_runs db) \<rparr>)" (is "loom_inv L ?db2")
    if x: "x \<in> set (ld_steps db)" "?key x" for x
  proof (rule inv_update [OF inv, of ?db2 ?fail ?run])
    note row = current_attempt_row [OF inv x]
    have same: "sp_run s = sp_run x" using s x row(1) by (auto simp: captured_def)
    have only: "?key y \<longleftrightarrow> y = x" if "y \<in> set (ld_steps db)" for y
      using row(5) [OF that] x(2) by (auto simp: current_attempt_def)
    show "step_forward y (?fail y) \<and> row_ok L (?fail y)" if "y \<in> set (ld_steps db)" for y
      using inv_row [OF inv that] by (auto simp: step_forward_def row_ok_def current_attempt_def unfinished_def)
    show "\<forall>d \<in> set (row_deps L y). completed_in (ld_steps db) (sp_run y) d"
      if "y \<in> set (ld_steps db)" "started_status (sp_status (?fail y))" "\<not> started_status (sp_status y)" for y
      using that by (auto simp: current_attempt_def started_status_def split: if_splits)
    show "rn_id (?run r) = rn_id r" if "r \<in> set (ld_runs db)" for r by simp
    show "agrees (rn_status (?run r)) (sp_status (?fail y))"
      if "r \<in> set (ld_runs db)" "y \<in> set (ld_steps db)" "rn_id r = sp_run y" "agrees (rn_status r) (sp_status y)" for r y
    proof (cases "sp_run y = sp_run s")
      case True
      then have "rn_status r = run_status.Running" using row(4) [OF that(1)] that(3) same by simp
      moreover have "y = x \<or> sp_id y \<noteq> sp_id s" using row(5) [OF that(2)] by auto
      ultimately show ?thesis using True that(3) x(2) only [OF that(2)] by (auto simp: active_def unfinished_def)
    next
      case False
      then show ?thesis using that same only [OF that(2)] by auto
    qed
  qed (simp_all add: sql_update_def)
  have two: "sql_update (\<lambda>x. sp_run x = sp_run s \<and> sp_id x \<noteq> sp_id s \<and> unfinished (sp_status x))
        (\<lambda>x. x \<lparr> sp_status := Skipped, sp_completed_at := Some now \<rparr>)
        (sql_update ?key (\<lambda>x. x \<lparr> sp_status := Failed, sp_error := Some message, sp_completed_at := Some now \<rparr>) (ld_steps db)) =
      map ?fail (ld_steps db)"
    by (auto simp: sql_update_def unfinished_def)
  show ?thesis
  proof (cases "sql_changed ?key (ld_steps db) = 0")
    case True
    then show ?thesis by (simp add: fail_attempt_def Let_def inv)
  next
    case False
    then obtain x where "x \<in> set (ld_steps db)" "?key x" using sql_changed_pos [of ?key] by auto
    from over [OF this] again False show ?thesis
      unfolding fail_attempt_def Let_def two by (simp add: sql_update_def inv)
  qed
qed

end
