(* ===== verification/Loom_Claims.thy ===== *)
theory Loom_Claims
  imports Loom_Invariant
begin

text \<open>
  The advance pass of the Loom store: it starts only steps whose dependencies have completed, it hands
  out each attempt of a step at most once, and it never leaves a run stuck.
\<close>


section \<open>The order in which a row moves\<close>

fun step_rank :: "step_status \<Rightarrow> nat" where
  "step_rank Pending = 0"
| "step_rank Running = 1"
| "step_rank _ = 2"

definition step_later :: "step_row \<Rightarrow> step_row \<Rightarrow> bool" where
  "step_later s t \<longleftrightarrow> sp_id t = sp_id s \<and> sp_run t = sp_run s \<and> sp_name t = sp_name s \<and>
     sp_depends_text t = sp_depends_text s \<and> sp_max_retries t = sp_max_retries s \<and> sp_timeout_ms t = sp_timeout_ms s \<and>
     (\<not> unfinished (sp_status s) \<longrightarrow> t = s) \<and>
     (sp_retry_count s < sp_retry_count t \<or>
      sp_retry_count t = sp_retry_count s \<and> step_rank (sp_status s) \<le> step_rank (sp_status t))"

definition rows_later :: "loom_db \<Rightarrow> loom_db \<Rightarrow> bool" where
  "rows_later db db' \<longleftrightarrow> ld_next_step db \<le> ld_next_step db' \<and>
     (\<forall>t \<in> set (ld_steps db'). (\<exists>s \<in> set (ld_steps db). step_later s t) \<or> ld_next_step db \<le> sp_id t)"

lemma step_rank_simps: "(step_rank st = 0) = (st = Pending)" "(step_rank st \<le> 1) = unfinished st"
  by (cases st; simp add: unfinished_def)+

lemma step_later_refl [simp]: "step_later s s"
  by (simp add: step_later_def)

lemma step_later_trans: "step_later s t \<Longrightarrow> step_later t u \<Longrightarrow> step_later s u"
  by (auto simp: step_later_def)

lemma rows_later_refl [simp]: "rows_later db db"
  by (auto simp: rows_later_def intro: step_later_refl)

lemma rows_later_trans: "rows_later a b \<Longrightarrow> rows_later b c \<Longrightarrow> rows_later a c"
proof -
  assume ab: "rows_later a b" and bc: "rows_later b c"
  have "(\<exists>s \<in> set (ld_steps a). step_later s u) \<or> ld_next_step a \<le> sp_id u" if u: "u \<in> set (ld_steps c)" for u
  proof (cases "ld_next_step b \<le> sp_id u")
    case True
    then show ?thesis using ab by (auto simp: rows_later_def)
  next
    case False
    then obtain t where t: "t \<in> set (ld_steps b)" "step_later t u" using bc u by (auto simp: rows_later_def)
    then have "sp_id u = sp_id t" by (simp add: step_later_def)
    then show ?thesis using ab t step_later_trans [OF _ t(2)] unfolding rows_later_def by fastforce
  qed
  then show ?thesis using ab bc by (auto simp: rows_later_def)
qed

lemma rows_later_cong [simp]: "rows_later db (add_log rn step level message data now db') = rows_later db db'"
  by (simp add: rows_later_def)

lemma rows_later_map:
  "ld_next_step db' = ld_next_step db \<Longrightarrow> ld_steps db' = map f (ld_steps db) \<Longrightarrow>
   (\<And>s. s \<in> set (ld_steps db) \<Longrightarrow> step_later s (f s)) \<Longrightarrow> rows_later db db'"
  by (auto simp: rows_later_def)

lemma rows_later_same: "ld_next_step db' = ld_next_step db \<Longrightarrow> ld_steps db' = ld_steps db \<Longrightarrow> rows_later db db'"
  by (rule rows_later_map [where f = id]) simp_all


section \<open>Starting one step\<close>

definition claim_key :: "int \<Rightarrow> loom_db \<Rightarrow> step_row \<Rightarrow> bool" where
  "claim_key sid db x \<longleftrightarrow> sp_id x = sid \<and> sp_status x = Pending \<and>
     list_ex (\<lambda>r. rn_id r = sp_run x \<and> active (rn_status r)) (ld_runs db)"

definition start_step :: "int \<Rightarrow> string \<Rightarrow> int \<Rightarrow> loom_db \<Rightarrow> loom_db" where
  "start_step sid input now db = db \<lparr> ld_steps := sql_update (claim_key sid db)
     (\<lambda>x. x \<lparr> sp_status := Running, sp_input_text := input, sp_started_at := Some now \<rparr>) (ld_steps db) \<rparr>"

lemma start_step_tables [simp]:
  "ld_runs (start_step sid input now db) = ld_runs db"
  "ld_next_step (start_step sid input now db) = ld_next_step db"
  "ld_steps (start_step sid input now db) = map (\<lambda>x. if claim_key sid db x then x \<lparr> sp_status := Running,
     sp_input_text := input, sp_started_at := Some now \<rparr> else x) (ld_steps db)"
  by (simp_all add: start_step_def sql_update_def)

text \<open>One round of the loop over the steps: the step is passed over, or it is started.\<close>

definition passed_over :: "loom_step list \<Rightarrow> loom_db \<Rightarrow> loom_step \<Rightarrow> bool" where
  "passed_over steps db s \<longleftrightarrow>
     sp_status s \<noteq> Pending \<or> \<not> deps_met steps s \<or> (\<forall>x \<in> set (ld_steps db). \<not> claim_key (sp_id s) db x)"

definition handed_out :: "loom_lib \<Rightarrow> (int \<Rightarrow> int) \<Rightarrow> loom_run \<Rightarrow> loom_step list \<Rightarrow> loom_step \<Rightarrow> loom_step" where
  "handed_out L at rn steps s = s \<lparr> sp_input := merged_input rn steps s,
     sp_input_text := ll_json_text L (merged_input rn steps s), sp_status := Running, sp_started_at := Some (at (sp_id s)) \<rparr>"

definition started_db :: "loom_lib \<Rightarrow> (int \<Rightarrow> int) \<Rightarrow> loom_run \<Rightarrow> loom_step list \<Rightarrow> loom_step \<Rightarrow> loom_db \<Rightarrow> loom_db" where
  "started_db L at rn steps s db =
     add_log (rn_id rn) (Some (sp_id s)) Info (''step '' @ ll_debug L (sp_name s) @ '' started'') empty_object (at (sp_id s))
       (start_step (sp_id s) (ll_json_text L (merged_input rn steps s)) (at (sp_id s)) db)"

lemma claim_steps_Cons:
  "claim_steps L at rn steps (s # rest) db =
     (if passed_over steps db s then claim_steps L at rn steps rest db
      else apsnd (Cons (handed_out L at rn steps s)) (claim_steps L at rn steps rest (started_db L at rn steps s db)))"
proof -
  have key: "(\<lambda>x. sp_id x = sp_id s \<and> sp_status x = Pending \<and>
      list_ex (\<lambda>r. rn_id r = sp_run x \<and> active (rn_status r)) (ld_runs db)) = claim_key (sp_id s) db"
    by (simp add: claim_key_def fun_eq_iff)
  have none: "sql_changed (claim_key (sp_id s) db) (ld_steps db) = 0 \<longleftrightarrow> (\<forall>x \<in> set (ld_steps db). \<not> claim_key (sp_id s) db x)"
    by (simp add: sql_changed_def filter_empty_conv)
  show ?thesis
    unfolding claim_steps.simps Let_def key none start_step_def passed_over_def handed_out_def started_db_def
    by (auto simp: Let_def case_prod_unfold prod_eq_iff)
qed

declare claim_steps.simps(2) [simp del]

lemma inv_start_step:
  assumes L: "loom_lib_ok L" and inv: "loom_inv L db" and r: "r \<in> set (ld_runs db)" "rn_status r = run_status.Running"
    and x: "\<And>x. x \<in> set (ld_steps db) \<Longrightarrow> sp_id x = sid \<Longrightarrow>
      sp_run x = rn_id r \<and> (\<forall>d \<in> set (row_deps L x). completed_in (ld_steps db) (rn_id r) d)"
  shows "loom_inv L (start_step sid (ll_json_text L input) now db)" (is "loom_inv L ?db")
proof -
  let ?f = "\<lambda>x. if claim_key sid db x then x \<lparr> sp_status := Running, sp_input_text := ll_json_text L input, sp_started_at := Some now \<rparr> else x"
  show ?thesis
  proof (rule inv_update [OF inv, of ?db ?f id])
    show "step_forward x (?f x) \<and> row_ok L (?f x)" if "x \<in> set (ld_steps db)" for x
      using inv_row [OF inv that] by (auto simp: step_forward_def row_ok_def claim_key_def unfinished_def)
    show "\<forall>d \<in> set (row_deps L x). completed_in (ld_steps db) (sp_run x) d"
      if "x \<in> set (ld_steps db)" "started_status (sp_status (?f x))" "\<not> started_status (sp_status x)" for x
      using that assms(5) [OF that(1)] by (auto simp: claim_key_def split: if_splits)
    show "agrees (rn_status (id q)) (sp_status (?f x))"
      if "q \<in> set (ld_runs db)" "x \<in> set (ld_steps db)" "rn_id q = sp_run x" "agrees (rn_status q) (sp_status x)" for q x
    proof (cases "claim_key sid db x")
      case True
      then have "q = r" using assms(5) [OF that(2)] inv_run_unique [OF inv that(1) r(1)] that(3) by (simp add: claim_key_def)
      then show ?thesis using True r(2) by simp
    qed (use that in simp)
  qed simp_all
qed

text \<open>
  What a pass knows of the steps that it read and has not handled yet: they are rows of its run, the
  dependencies that it saw completed are completed.
\<close>

definition read_by :: "loom_lib \<Rightarrow> run_row \<Rightarrow> loom_step list \<Rightarrow> loom_step list \<Rightarrow> loom_db \<Rightarrow> bool" where
  "read_by L r steps rest db \<longleftrightarrow> r \<in> set (ld_runs db) \<and> rn_status r = run_status.Running \<and>
     (\<forall>s \<in> set rest. \<forall>x \<in> set (ld_steps db). sp_id x = sp_id s \<longrightarrow>
        sp_run x = rn_id r \<and> row_deps L x = sp_depends_on s \<and> sp_retry_count x = sp_retry_count s) \<and>
     (\<forall>d c. step_named steps d = Some c \<longrightarrow> sp_status c = Completed \<longrightarrow> completed_in (ld_steps db) (rn_id r) d)"

lemma read_by_log [simp]: "read_by L r steps rest (add_log rn step level message data now db) = read_by L r steps rest db"
  by (simp add: read_by_def)

lemma read_by_tl: "read_by L r steps (s # rest) db \<Longrightarrow> read_by L r steps rest db"
  by (simp add: read_by_def)

lemma read_by_start: "read_by L r steps rest db \<Longrightarrow> read_by L r steps rest (start_step sid input now db)"
  by (fastforce simp: read_by_def row_deps_def completed_in_def claim_key_def)

lemma start_step_later: "rows_later db (start_step sid input now db)"
  by (rule rows_later_map [OF start_step_tables(2,3)]) (auto simp: step_later_def claim_key_def unfinished_def)

lemma read_by_deps:
  assumes "read_by L r steps (s # rest) db" "deps_met steps s" "x \<in> set (ld_steps db)" "sp_id x = sp_id s"
  shows "sp_run x = rn_id r \<and> (\<forall>d \<in> set (row_deps L x). completed_in (ld_steps db) (rn_id r) d)"
proof -
  have "completed_in (ld_steps db) (rn_id r) d" if "d \<in> set (sp_depends_on s)" for d
    using assms(1,2) that by (fastforce simp: read_by_def deps_met_def list_all_iff split: option.splits)
  then show ?thesis using assms(1,3,4) by (auto simp: read_by_def)
qed

lemma read_by_next:
  assumes L: "loom_lib_ok L" and inv: "loom_inv L db" and rd: "read_by L r steps (s # rest) db" and s: "\<not> passed_over steps db s"
  shows "loom_inv L (started_db L at rn steps s db)" "read_by L r steps rest (started_db L at rn steps s db)"
proof -
  have r: "r \<in> set (ld_runs db)" "rn_status r = run_status.Running" using rd by (auto simp: read_by_def)
  have "deps_met steps s" using s by (simp add: passed_over_def)
  then show "loom_inv L (started_db L at rn steps s db)"
    using inv_start_step [OF L inv r read_by_deps [OF rd]] by (simp add: started_db_def)
  show "read_by L r steps rest (started_db L at rn steps s db)"
    using read_by_start [OF read_by_tl [OF rd]] by (simp add: started_db_def)
qed

lemma started_db_tables [simp]:
  "ld_runs (started_db L at rn steps s db) = ld_runs db" "rows_later db (started_db L at rn steps s db)"
  by (simp_all add: started_db_def start_step_later)

lemma claim_steps_inv:
  assumes "loom_lib_ok L"
  shows "loom_inv L db \<Longrightarrow> read_by L r steps rest db \<Longrightarrow>
    loom_inv L (fst (claim_steps L at rn steps rest db)) \<and> rows_later db (fst (claim_steps L at rn steps rest db)) \<and>
    ld_runs (fst (claim_steps L at rn steps rest db)) = ld_runs db"
proof (induction rest arbitrary: db)
  case (Cons s rest)
  show ?case
  proof (cases "passed_over steps db s")
    case True
    then show ?thesis using Cons read_by_tl by (simp add: claim_steps_Cons)
  next
    case False
    note IH = Cons.IH [OF read_by_next [OF assms Cons.prems False]]
    then show ?thesis
      using False rows_later_trans [OF started_db_tables(2) [of db L at rn steps s]] by (simp add: claim_steps_Cons)
  qed
qed simp

lemma started_db_kept: "x \<in> set (ld_steps db) \<Longrightarrow> sp_status x \<noteq> Pending \<Longrightarrow> x \<in> set (ld_steps (started_db L at rn steps s db))"
  by (force simp: started_db_def claim_key_def)

lemma started_db_pending: "x \<in> set (ld_steps (started_db L at rn steps s db)) \<Longrightarrow> sp_status x = Pending \<Longrightarrow> x \<in> set (ld_steps db)"
  by (auto simp: started_db_def split: if_splits)

lemma claim_steps_kept:
  "x \<in> set (ld_steps db) \<Longrightarrow> sp_status x \<noteq> Pending \<Longrightarrow> x \<in> set (ld_steps (fst (claim_steps L at rn steps rest db)))"
  by (induction rest arbitrary: db) (auto simp: claim_steps_Cons started_db_kept)

text \<open>What is handed out was a pending row before and is a running row afterwards.\<close>

definition claimed_from :: "loom_lib \<Rightarrow> uuid \<Rightarrow> loom_db \<Rightarrow> loom_db \<Rightarrow> loom_step \<Rightarrow> bool" where
  "claimed_from L rid db db' c \<longleftrightarrow> sp_status c = Running \<and>
     (\<exists>x \<in> set (ld_steps db). sp_id x = sp_id c \<and> sp_run x = rid \<and> sp_retry_count x = sp_retry_count c \<and>
        row_deps L x = sp_depends_on c \<and> sp_status x = Pending) \<and>
     (\<exists>y \<in> set (ld_steps db'). sp_id y = sp_id c \<and> sp_run y = rid \<and> sp_retry_count y = sp_retry_count c \<and>
        sp_started_at y = sp_started_at c \<and> sp_status y = Running)"

lemma claimed_first:
  assumes rd: "read_by L r steps (s # rest) db" and s: "\<not> passed_over steps db s"
  shows "claimed_from L (rn_id r) db (started_db L at rn steps s db) (handed_out L at rn steps s)"
proof -
  obtain x where x: "x \<in> set (ld_steps db)" "claim_key (sp_id s) db x" using s by (auto simp: passed_over_def)
  then have row: "sp_id x = sp_id s" "sp_status x = Pending" "sp_run x = rn_id r" "row_deps L x = sp_depends_on s" "sp_retry_count x = sp_retry_count s"
    using rd by (auto simp: read_by_def claim_key_def)
  let ?y = "x \<lparr> sp_status := Running, sp_input_text := ll_json_text L (merged_input rn steps s), sp_started_at := Some (at (sp_id s)) \<rparr>"
  have "?y \<in> set (ld_steps (started_db L at rn steps s db))"
    using x by (auto simp: started_db_def intro!: image_eqI [of _ _ x])
  then show ?thesis using x(1) row unfolding claimed_from_def handed_out_def
    by (intro conjI bexI [of _ x] bexI [of _ ?y]) simp_all
qed

lemma claimed_rows:
  assumes L: "loom_lib_ok L"
  shows "loom_inv L db \<Longrightarrow> read_by L r steps rest db \<Longrightarrow> c \<in> set (snd (claim_steps L at rn steps rest db)) \<Longrightarrow>
    claimed_from L (rn_id r) db (fst (claim_steps L at rn steps rest db)) c \<and>
    (\<exists>s \<in> set rest. c = handed_out L at rn steps s \<and> deps_met steps s)"
proof (induction rest arbitrary: db)
  case (Cons s rest)
  show ?case
  proof (cases "passed_over steps db s")
    case True
    then show ?thesis using Cons read_by_tl by (auto simp: claim_steps_Cons)
  next
    case False
    let ?db = "started_db L at rn steps s db"
    let ?db' = "fst (claim_steps L at rn steps rest ?db)"
    consider "c = handed_out L at rn steps s" | "c \<in> set (snd (claim_steps L at rn steps rest ?db))"
      using Cons.prems(3) False by (auto simp: claim_steps_Cons)
    then have "claimed_from L (rn_id r) db ?db' c \<and> (\<exists>s \<in> set (s # rest). c = handed_out L at rn steps s \<and> deps_met steps s)"
    proof cases
      case 1
      have "claimed_from L (rn_id r) db ?db c" unfolding 1 by (rule claimed_first [OF Cons.prems(2) False])
      then have "claimed_from L (rn_id r) db ?db' c" unfolding claimed_from_def using claim_steps_kept by fastforce
      then show ?thesis using 1 False by (auto simp: passed_over_def)
    next
      case 2
      from Cons.IH [OF read_by_next [OF L Cons.prems(1,2) False] 2]
      have "claimed_from L (rn_id r) ?db ?db' c" "\<exists>s \<in> set rest. c = handed_out L at rn steps s \<and> deps_met steps s" by auto
      then show ?thesis unfolding claimed_from_def using started_db_pending by fastforce
    qed
    then show ?thesis using False by (simp add: claim_steps_Cons)
  qed
qed simp

text \<open>A pending step with completed dependencies is handed out, if its row is still pending.\<close>

lemma claim_steps_complete:
  "s \<in> set rest \<Longrightarrow> sp_status s = Pending \<Longrightarrow> deps_met steps s \<Longrightarrow> distinct (map sp_id rest) \<Longrightarrow>
   x \<in> set (ld_steps db) \<Longrightarrow> claim_key (sp_id s) db x \<Longrightarrow> snd (claim_steps L at rn steps rest db) \<noteq> []"
proof (induction rest arbitrary: db)
  case (Cons t rest)
  show ?case
  proof (cases "passed_over steps db t")
    case True
    then have "s \<noteq> t" using Cons.prems by (auto simp: passed_over_def)
    then show ?thesis using True Cons by (simp add: claim_steps_Cons)
  qed (simp add: claim_steps_Cons)
qed simp


section \<open>The whole pass\<close>

definition begun :: "int \<Rightarrow> uuid \<Rightarrow> loom_db \<Rightarrow> loom_db" where
  "begun now rid db = db \<lparr> ld_runs := sql_update (\<lambda>r. rn_id r = rid \<and> rn_status r = run_status.Pending)
     (\<lambda>r. r \<lparr> rn_status := run_status.Running, rn_started_at := Some now, rn_updated_at := now \<rparr>) (ld_runs db) \<rparr>"

definition finished_db :: "loom_lib \<Rightarrow> int \<Rightarrow> uuid \<Rightarrow> loom_step list \<Rightarrow> loom_db \<Rightarrow> loom_db" where
  "finished_db L now rid steps db = add_log rid None Info ''run completed'' empty_object now
     (db \<lparr> ld_runs := sql_update (\<lambda>r. rn_id r = rid \<and> active (rn_status r)) (\<lambda>r. r \<lparr> rn_status := run_status.Completed,
        rn_output_text := ll_json_text L (merged_output steps), rn_completed_at := Some now, rn_updated_at := now \<rparr>) (ld_runs db) \<rparr>)"

lemma begun_tables [simp]:
  "ld_steps (begun now rid db) = ld_steps db" "ld_next_step (begun now rid db) = ld_next_step db" "rows_later db (begun now rid db)"
  by (simp_all add: begun_def rows_later_same)

lemma finished_db_tables [simp]:
  "ld_steps (finished_db L now rid steps db) = ld_steps db" "rows_later db (finished_db L now rid steps db)"
  by (simp_all add: finished_db_def rows_later_same)

lemma begun_inv:
  assumes inv: "loom_inv L db" and r: "r \<in> set (ld_runs db)" "rn_id r = rid" "active (rn_status r)"
  shows "loom_inv L (begun now rid db)" "\<exists>q \<in> set (ld_runs (begun now rid db)). rn_id q = rid \<and> rn_status q = run_status.Running"
proof -
  let ?g = "\<lambda>r. if rn_id r = rid \<and> rn_status r = run_status.Pending
    then r \<lparr> rn_status := run_status.Running, rn_started_at := Some now, rn_updated_at := now \<rparr> else r"
  show "loom_inv L (begun now rid db)"
  proof (rule inv_update [OF inv, of _ id ?g])
    show "rn_id (?g q) = rn_id q" if "q \<in> set (ld_runs db)" for q by simp
    show "step_forward s (id s) \<and> row_ok L (id s)" if "s \<in> set (ld_steps db)" for s
      using inv_row [OF inv that] by simp
    show "agrees (rn_status (?g q)) (sp_status (id s))" if "agrees (rn_status q) (sp_status s)" for q s
      using that by auto
  qed (simp_all add: begun_def sql_update_def)
  show "\<exists>q \<in> set (ld_runs (begun now rid db)). rn_id q = rid \<and> rn_status q = run_status.Running"
  proof (rule bexI [of _ "?g r"])
    show "rn_id (?g r) = rid \<and> rn_status (?g r) = run_status.Running" using r(2,3) by (auto simp: active_def)
    have "ld_runs (begun now rid db) = map ?g (ld_runs db)" by (simp add: begun_def sql_update_def)
    then show "?g r \<in> set (ld_runs (begun now rid db))" using imageI [OF r(1), of ?g] by (simp only: set_map)
  qed
qed

lemma finished_inv:
  assumes L: "loom_lib_ok L" and inv: "loom_inv L db" and r: "r \<in> set (ld_runs db)" "rn_id r = rid" "rn_status r = run_status.Running"
    and over: "\<And>s. s \<in> set (ld_steps db) \<Longrightarrow> sp_run s = rid \<Longrightarrow> \<not> unfinished (sp_status s)"
  shows "loom_inv L (finished_db L now rid steps db)"
proof -
  let ?g = "\<lambda>r. if rn_id r = rid \<and> active (rn_status r) then r \<lparr> rn_status := run_status.Completed,
    rn_output_text := ll_json_text L (merged_output steps), rn_completed_at := Some now, rn_updated_at := now \<rparr> else r"
  show ?thesis
  proof (rule inv_update [OF inv, of _ id ?g])
    show "rn_id (?g q) = rn_id q" if "q \<in> set (ld_runs db)" for q by simp
    show "step_forward s (id s) \<and> row_ok L (id s)" if "s \<in> set (ld_steps db)" for s
      using inv_row [OF inv that] by simp
    show "agrees (rn_status (?g q)) (sp_status (id s))"
      if "q \<in> set (ld_runs db)" "s \<in> set (ld_steps db)" "rn_id q = sp_run s" "agrees (rn_status q) (sp_status s)" for q s
    proof (cases "rn_id q = rid")
      case True
      then have "q = r" using inv_run_unique [OF inv that(1) r(1)] r(2) by simp
      then show ?thesis using that over [OF that(2)] r(3) True by (auto simp: unfinished_def active_def)
    qed (use that in simp)
  qed (simp_all add: finished_db_def sql_update_def add_log_def)
qed

lemma get_run_row:
  assumes "loom_inv L db" "r \<in> set (ld_runs db)" "rn_id r = rid"
  shows "get_run_any L rid db = (case into_run L r of Inl e \<Rightarrow> Inl e | Inr rn \<Rightarrow> Inr (Some rn))"
proof -
  have "find (\<lambda>x. rn_id x = rn_id r) (ld_runs db) = Some r"
    using assms(1,2) by (intro find_unique) (auto simp: loom_inv_def shape_ok_def)
  then show ?thesis using assms(3) by (simp add: get_run_any_def transposed_def)
qed

text \<open>A pass over an active run whose row or one of whose step rows does not parse fails and changes nothing.\<close>

lemma claim_pass_unreadable:
  assumes inv: "loom_inv L db" and r: "r \<in> set (ld_runs db)" "rn_id r = rid" "active (rn_status r)"
    and bad: "\<not> is_ok (into_run L r) \<or> \<not> is_ok (into_steps L (filter (\<lambda>s. sp_run s = rid) (ld_steps db)))"
  shows "\<exists>e. claim_pass L now at rid db = (db, Inl e)"
proof (cases "into_run L r")
  case (Inl e)
  then show ?thesis using get_run_row [OF inv r(1,2)] by (simp add: claim_pass_def)
next
  case (Inr rn)
  note rn = into_run_Inr [OF Inr]
  have live: "\<not> is_terminal (rn_status rn)" using r(3) rn by (auto simp: active_def)
  have one: "sql_changed (\<lambda>r. rn_id r = rid \<and> rn_status r = run_status.Pending) (ld_runs db) \<noteq> 0" if "rn_status rn = run_status.Pending"
    using sql_changed_pos [of "\<lambda>r. rn_id r = rid \<and> rn_status r = run_status.Pending" "ld_runs db"] that r rn(2) by auto
  obtain e where "into_steps L (filter (\<lambda>s. sp_run s = rid) (ld_steps db)) = Inl e"
    using bad Inr by (cases "into_steps L (filter (\<lambda>s. sp_run s = rid) (ld_steps db))") auto
  then show ?thesis using get_run_row [OF inv r(1,2)] Inr live one by (simp add: claim_pass_def Let_def)
qed

lemma claim_pass_active:
  assumes inv: "loom_inv L db" and r: "r \<in> set (ld_runs db)" "rn_id r = rid" "into_run L r = Inr rn" "active (rn_status r)"
    and ss: "into_steps L (filter (\<lambda>s. sp_run s = rid) (ld_steps db)) = Inr ss"
  shows "claim_pass L now at rid db =
      (if list_all (\<lambda>s. \<not> unfinished (sp_status s)) ss then (finished_db L now rid ss (begun now rid db), Inr (Finished rn))
       else apsnd (\<lambda>cs. Inr (Claimed rn cs)) (claim_steps L at rn ss ss (begun now rid db)))"
proof -
  have get: "get_run_any L rid db = Inr (Some rn)" using get_run_row [OF inv r(1,2)] r(3) by simp
  note rn = into_run_Inr [OF r(3)]
  have live: "\<not> is_terminal (rn_status rn)" using r(4) rn by (auto simp: active_def)
  have db1: "(if rn_status rn = run_status.Pending
      then db \<lparr> ld_runs := sql_update (\<lambda>r. rn_id r = rid \<and> rn_status r = run_status.Pending)
        (\<lambda>r. r \<lparr> rn_status := run_status.Running, rn_started_at := Some now, rn_updated_at := now \<rparr>) (ld_runs db) \<rparr>
      else db) = begun now rid db"
  proof (cases "rn_status rn = run_status.Pending")
    case False
    then have "\<not> (rn_id q = rid \<and> rn_status q = run_status.Pending)" if "q \<in> set (ld_runs db)" for q
      using inv_run_unique [OF inv that r(1)] r(2) rn(2) by auto
    then have "sql_update (\<lambda>r. rn_id r = rid \<and> rn_status r = run_status.Pending)
        (\<lambda>r. r \<lparr> rn_status := run_status.Running, rn_started_at := Some now, rn_updated_at := now \<rparr>) (ld_runs db) = ld_runs db"
      unfolding sql_update_def by (intro map_idI) auto
    then show ?thesis using False by (simp add: begun_def)
  qed (simp add: begun_def)
  have one: "sql_changed (\<lambda>r. rn_id r = rid \<and> rn_status r = run_status.Pending) (ld_runs db) \<noteq> 0" if "rn_status rn = run_status.Pending"
    using sql_changed_pos [of "\<lambda>r. rn_id r = rid \<and> rn_status r = run_status.Pending" "ld_runs db"] that r rn(2) by auto
  obtain q where "q \<in> set (ld_runs (begun now rid db))" "rn_id q = rid" "rn_status q = run_status.Running"
    using begun_inv(2) [OF inv r(1,2,4)] by blast
  then have two: "sql_changed (\<lambda>r. rn_id r = rid \<and> active (rn_status r)) (ld_runs (begun now rid db)) \<noteq> 0"
    using sql_changed_pos [of "\<lambda>r. rn_id r = rid \<and> active (rn_status r)" "ld_runs (begun now rid db)"] by (auto simp: active_def)
  show ?thesis
    unfolding claim_pass_def get Let_def sum.case option.case db1
    using live one two ss by (auto simp: finished_db_def case_prod_unfold prod_eq_iff)
qed

lemma claim_pass_inactive:
  assumes inv: "loom_inv L db" and none: "\<And>r. r \<in> set (ld_runs db) \<Longrightarrow> rn_id r = rid \<Longrightarrow> \<not> active (rn_status r)"
  shows "fst (claim_pass L now at rid db) = db \<and> (snd (claim_pass L now at rid db) = Inr RunOver \<or>
    (\<exists>e. snd (claim_pass L now at rid db) = Inl e))"
proof (cases "get_run_any L rid db")
  case (Inr m)
  show ?thesis
  proof (cases m)
    case (Some rn)
    with Inr obtain r where "r \<in> set (ld_runs db)" "rn_id r = rid" "into_run L r = Inr rn" by (metis get_run_any_Some)
    then have "is_terminal (rn_status rn)" using none into_run_Inr(2) by (metis active_def is_terminal.elims(3))
    then show ?thesis by (simp add: claim_pass_def Inr Some)
  qed (simp add: claim_pass_def Inr)
qed (simp add: claim_pass_def)

lemma list_all2_members:
  assumes "list_all2 P xs ys"
  shows "y \<in> set ys \<Longrightarrow> \<exists>x \<in> set xs. P x y" "x \<in> set xs \<Longrightarrow> \<exists>y \<in> set ys. P x y"
  using assms by (induction rule: list_all2_induct) auto

lemma read_rows:
  assumes "into_steps L (filter (\<lambda>s. sp_run s = rid) xs) = Inr ss" "s \<in> set ss"
  obtains x where "x \<in> set xs" "sp_run x = rid" "into_step L x = Inr s"
proof -
  have "list_all2 (\<lambda>r s. into_step L r = Inr s) (filter (\<lambda>s. sp_run s = rid) xs) ss" using assms(1) by (simp add: into_steps_Inr)
  then obtain x where "x \<in> set (filter (\<lambda>s. sp_run s = rid) xs)" "into_step L x = Inr s"
    using list_all2_members(1) [OF _ assms(2)] by blast
  then show thesis using that by auto
qed

lemma rows_read:
  assumes "into_steps L (filter (\<lambda>s. sp_run s = rid) xs) = Inr ss" "x \<in> set xs" "sp_run x = rid"
  obtains s where "s \<in> set ss" "into_step L x = Inr s"
proof -
  have all: "list_all2 (\<lambda>r s. into_step L r = Inr s) (filter (\<lambda>s. sp_run s = rid) xs) ss" using assms(1) by (simp add: into_steps_Inr)
  have x: "x \<in> set (filter (\<lambda>s. sp_run s = rid) xs)" using assms(2,3) by simp
  obtain s where "s \<in> set ss" "into_step L x = Inr s" using list_all2_members(2) [OF all x] by blast
  then show thesis by (rule that)
qed

lemma step_named_in: "step_named ss d = Some c \<Longrightarrow> c \<in> set ss \<and> sp_name c = d"
  by (auto simp: step_named_def dest!: find_SomeD)

lemma read_by_pass:
  assumes inv: "loom_inv L db" and q: "q \<in> set (ld_runs db)" "rn_status q = run_status.Running"
    and ss: "into_steps L (filter (\<lambda>s. sp_run s = rn_id q) (ld_steps db)) = Inr ss"
  shows "read_by L q ss ss db"
  unfolding read_by_def
proof (intro conjI ballI allI impI)
  fix s x assume s: "s \<in> set ss" and x: "x \<in> set (ld_steps db)" "sp_id x = sp_id s"
  obtain y where y: "y \<in> set (ld_steps db)" "sp_run y = rn_id q" "into_step L y = Inr s" by (rule read_rows [OF ss s])
  note row = into_step_row [OF y(3)]
  have "x = y" using inv_step_unique [OF inv x(1) y(1)] x(2) row(1) by simp
  then show "sp_run x = rn_id q" "row_deps L x = sp_depends_on s" "sp_retry_count x = sp_retry_count s"
    using row y(2) by simp_all
next
  fix d c assume c: "step_named ss d = Some c" "sp_status c = Completed"
  obtain y where y: "y \<in> set (ld_steps db)" "sp_run y = rn_id q" "into_step L y = Inr c"
    using read_rows [OF ss] step_named_in [OF c(1)] by metis
  then show "completed_in (ld_steps db) (rn_id q) d"
    using into_step_row [OF y(3)] c(2) step_named_in [OF c(1)] by (auto simp: completed_in_def)
qed (use q in simp_all)


lemma pass_active_run:
  assumes inv: "loom_inv L db"
  obtains (over) "fst (claim_pass L now at rid db) = db" "snd (claim_pass L now at rid db) = Inr RunOver \<or>
      (\<exists>e. snd (claim_pass L now at rid db) = Inl e)"
  | (live) r rn ss where "r \<in> set (ld_runs db)" "rn_id r = rid" "into_run L r = Inr rn" "active (rn_status r)"
    "into_steps L (filter (\<lambda>s. sp_run s = rid) (ld_steps db)) = Inr ss"
proof (cases "\<exists>r \<in> set (ld_runs db). rn_id r = rid \<and> active (rn_status r)")
  case True
  then obtain r where r: "r \<in> set (ld_runs db)" "rn_id r = rid" "active (rn_status r)" by blast
  show thesis
  proof (cases "is_ok (into_run L r) \<and> is_ok (into_steps L (filter (\<lambda>s. sp_run s = rid) (ld_steps db)))")
    case True
    then obtain rn ss where "into_run L r = Inr rn" "into_steps L (filter (\<lambda>s. sp_run s = rid) (ld_steps db)) = Inr ss"
      unfolding is_ok_iff by blast
    then show thesis using live r by blast
  next
    case False
    then obtain e where "claim_pass L now at rid db = (db, Inl e)" using claim_pass_unreadable [OF inv r] by blast
    then show thesis using over by simp
  qed
next
  case False
  then show thesis using over claim_pass_inactive [OF inv, of rid now at] by blast
qed

lemma inv_claim_pass:
  assumes L: "loom_lib_ok L" and inv: "loom_inv L db"
  shows "loom_inv L (fst (claim_pass L now at rid db)) \<and> rows_later db (fst (claim_pass L now at rid db))"
  using inv proof (cases rule: pass_active_run [where now = now and at = at and rid = rid])
  case over
  then show ?thesis using inv by simp
next
  case (live r rn ss)
  note ss = live(5) claim_pass_active [OF inv live, of now at]
  have inv1: "loom_inv L (begun now rid db)" by (rule begun_inv(1) [OF inv live(1,2,4)])
  obtain q where q: "q \<in> set (ld_runs (begun now rid db))" "rn_id q = rid" "rn_status q = run_status.Running"
    using begun_inv(2) [OF inv live(1,2,4)] by blast
  show ?thesis
  proof (cases "list_all (\<lambda>s. \<not> unfinished (sp_status s)) ss")
    case True
    have "\<not> unfinished (sp_status x)" if "x \<in> set (ld_steps (begun now rid db))" "sp_run x = rid" for x
    proof -
      obtain s where "s \<in> set ss" "into_step L x = Inr s" using rows_read [OF ss(1)] \<open>x \<in> _\<close> \<open>sp_run x = rid\<close> by auto
      then show ?thesis using True into_step_row(4) by (metis list_all_iff)
    qed
    then have "loom_inv L (finished_db L now rid ss (begun now rid db))" by (rule finished_inv [OF L inv1 q])
    then show ?thesis using True rows_later_trans [OF begun_tables(3) finished_db_tables(2)] by (simp add: ss(2))
  next
    case False
    have "read_by L q ss ss (begun now rid db)" by (rule read_by_pass [OF inv1 q(1,3)]) (simp add: q(2) ss(1))
    from claim_steps_inv [OF L inv1 this, of at rn] show ?thesis
      using False rows_later_trans [OF begun_tables(3) [of db now rid]] by (simp add: ss(2))
  qed
qed

text \<open>What a pass hands out.\<close>

lemma claimed_parts:
  assumes inv: "loom_inv L db" and out: "snd (claim_pass L now at rid db) = Inr (Claimed rn cs)"
  obtains ss q where "into_steps L (filter (\<lambda>s. sp_run s = rid) (ld_steps db)) = Inr ss" "loom_inv L (begun now rid db)"
    "q \<in> set (ld_runs (begun now rid db))" "rn_id q = rid" "rn_status q = run_status.Running" "read_by L q ss ss (begun now rid db)"
    "cs = snd (claim_steps L at rn ss ss (begun now rid db))"
    "fst (claim_pass L now at rid db) = fst (claim_steps L at rn ss ss (begun now rid db))" "rn_id rn = rid"
  using inv
proof (cases rule: pass_active_run [where now = now and at = at and rid = rid])
  case over
  then show ?thesis using out by auto
next
  case (live r rn' ss)
  note ss = live(5) claim_pass_active [OF inv live, of now at]
  have inv1: "loom_inv L (begun now rid db)" by (rule begun_inv(1) [OF inv live(1,2,4)])
  obtain q where q: "q \<in> set (ld_runs (begun now rid db))" "rn_id q = rid" "rn_status q = run_status.Running"
    using begun_inv(2) [OF inv live(1,2,4)] by blast
  have rd: "read_by L q ss ss (begun now rid db)" by (rule read_by_pass [OF inv1 q(1,3)]) (simp add: q(2) ss(1))
  have "rn = rn'" "cs = snd (claim_steps L at rn' ss ss (begun now rid db))"
    "fst (claim_pass L now at rid db) = fst (claim_steps L at rn' ss ss (begun now rid db))"
    using out by (auto simp: ss(2) split: if_splits)
  then show ?thesis using that [OF ss(1) inv1 q rd] into_run_Inr(1) [OF live(3)] live(2) by simp
qed

lemma pass_claims:
  assumes L: "loom_lib_ok L" and inv: "loom_inv L db" and out: "snd (claim_pass L now at rid db) = Inr (Claimed rn cs)" and c: "c \<in> set cs"
  shows "claimed_from L rid db (fst (claim_pass L now at rid db)) c" "\<forall>d \<in> set (sp_depends_on c). completed_in (ld_steps db) rid d"
proof -
  obtain ss q where ss: "into_steps L (filter (\<lambda>s. sp_run s = rid) (ld_steps db)) = Inr ss" "loom_inv L (begun now rid db)"
    and q: "q \<in> set (ld_runs (begun now rid db))" "rn_id q = rid" "rn_status q = run_status.Running"
    and rd: "read_by L q ss ss (begun now rid db)" and cs: "cs = snd (claim_steps L at rn ss ss (begun now rid db))"
      "fst (claim_pass L now at rid db) = fst (claim_steps L at rn ss ss (begun now rid db))"
    by (rule claimed_parts [OF inv out])
  from claimed_rows [OF L ss(2) rd] c
  have "claimed_from L rid (begun now rid db) (fst (claim_pass L now at rid db)) c" "\<exists>s \<in> set ss. c = handed_out L at rn ss s \<and> deps_met ss s"
    unfolding cs q(2) by blast+
  then show "claimed_from L rid db (fst (claim_pass L now at rid db)) c" by (simp add: claimed_from_def)
  obtain s where s: "s \<in> set ss" "sp_depends_on c = sp_depends_on s" "deps_met ss s"
    using \<open>\<exists>s \<in> set ss. _ s\<close> by (auto simp: handed_out_def)
  have "completed_in (ld_steps db) rid d" if "d \<in> set (sp_depends_on s)" for d
    using rd s(3) that q(2) by (fastforce simp: read_by_def deps_met_def list_all_iff split: option.splits)
  then show "\<forall>d \<in> set (sp_depends_on c). completed_in (ld_steps db) rid d" using s(2) by simp
qed


section \<open>Every operation\<close>

lemma later_updates:
  "rows_later db (fst (create_workflow L now wid new db))"
  "rows_later db (fst (update_workflow L now tenant p wid patch db))"
  "rows_later db (fst (delete_workflow tenant p wid db))"
  by (auto simp: rows_later_def create_workflow_def update_workflow_def delete_workflow_def Let_def
      split: sum.splits option.splits intro: step_later_refl)

lemma later_insert: "rows_later db (fst (insert_run L now rid tenant p wid input db))"
proof -
  have "rows_later db (db \<lparr> ld_runs := rs, ld_steps := ld_steps db @ new_steps L rid now (ld_next_step db) steps,
      ld_next_step := ld_next_step db + int (length steps) \<rparr>)" for rs steps
    unfolding rows_later_def using new_steps_rows [of _ L rid now "ld_next_step db" steps] by (auto intro: step_later_refl)
  then show ?thesis by (auto simp: insert_run_def Let_def split: sum.splits option.splits)
qed

lemma later_cancel: "rows_later db (fst (cancel_run_in L now tenant p rid db))"
proof -
  have "rows_later db (db \<lparr> ld_runs := rs, ld_steps := sql_update (\<lambda>s. sp_run s = rid \<and> unfinished (sp_status s))
      (\<lambda>s. s \<lparr> sp_status := Skipped \<rparr>) (ld_steps db) \<rparr>)" for rs
    by (rule rows_later_map [where f = "\<lambda>s. if sp_run s = rid \<and> unfinished (sp_status s) then s \<lparr> sp_status := Skipped \<rparr> else s"])
      (auto simp: sql_update_def step_later_def unfinished_def)
  then show ?thesis by (auto simp: cancel_run_in_def split: sum.splits option.splits)
qed

lemma later_complete: "rows_later db (fst (complete_attempt L now s retry started output db))"
proof -
  have "rows_later db (db \<lparr> ld_steps := sql_update (current_attempt (sp_id s) retry started db)
      (\<lambda>x. x \<lparr> sp_status := Completed, sp_output_text := ll_json_text L output, sp_completed_at := Some now \<rparr>) (ld_steps db) \<rparr>)"
    by (rule rows_later_map [where f = "\<lambda>x. if current_attempt (sp_id s) retry started db x then x \<lparr> sp_status := Completed,
        sp_output_text := ll_json_text L output, sp_completed_at := Some now \<rparr> else x"])
      (auto simp: sql_update_def step_later_def current_attempt_def unfinished_def)
  then show ?thesis by (simp add: complete_attempt_def Let_def)
qed

lemma later_fail: "rows_later db (fst (fail_attempt L now s retry started message db))"
proof -
  let ?key = "current_attempt (sp_id s) retry started db"
  have again: "rows_later db (db \<lparr> ld_steps := sql_update ?key (\<lambda>x. x \<lparr> sp_status := Pending, sp_retry_count := sp_retry_count x + 1,
      sp_error := Some message, sp_started_at := None \<rparr>) (ld_steps db) \<rparr>)"
    by (rule rows_later_map [where f = "\<lambda>x. if ?key x then x \<lparr> sp_status := Pending, sp_retry_count := sp_retry_count x + 1,
      sp_error := Some message, sp_started_at := None \<rparr> else x"])
      (auto simp: sql_update_def step_later_def current_attempt_def unfinished_def)
  have over: "rows_later db (db \<lparr> ld_steps := sql_update (\<lambda>x. sp_run x = sp_run s \<and> sp_id x \<noteq> sp_id s \<and> unfinished (sp_status x))
        (\<lambda>x. x \<lparr> sp_status := Skipped, sp_completed_at := Some now \<rparr>)
        (sql_update ?key (\<lambda>x. x \<lparr> sp_status := Failed, sp_error := Some message, sp_completed_at := Some now \<rparr>) (ld_steps db)),
      ld_runs := rs \<rparr>)" for rs
    by (rule rows_later_map [where f = "\<lambda>x. (if sp_run x = sp_run s \<and> sp_id x \<noteq> sp_id s \<and> unfinished (sp_status x)
        then x \<lparr> sp_status := Skipped, sp_completed_at := Some now \<rparr>
        else if ?key x then x \<lparr> sp_status := Failed, sp_error := Some message, sp_completed_at := Some now \<rparr> else x)"])
      (auto simp: sql_update_def step_later_def current_attempt_def unfinished_def)
  show ?thesis using again over by (simp add: fail_attempt_def Let_def)
qed

lemma loom_step:
  assumes L: "loom_lib_ok L" and inv: "loom_inv L db"
  shows "loom_inv L (fst (loom_apply L x db)) \<and> rows_later db (fst (loom_apply L x db))"
  by (cases x)
    (simp_all add: inv inv_create_workflow inv_update_workflow inv_delete_workflow inv_insert_run inv_cancel_run inv_complete_attempt
      inv_fail_attempt inv_claim_pass L later_updates later_insert later_cancel later_complete later_fail)

text \<open>Which attempts of a step are gone: handed out, or settled.\<close>

definition claimed :: "loom_db \<Rightarrow> int \<times> int \<Rightarrow> bool" where
  "claimed db k \<longleftrightarrow> fst k < ld_next_step db \<and> (\<forall>x \<in> set (ld_steps db). sp_id x = fst k \<longrightarrow>
     snd k < sp_retry_count x \<or> snd k = sp_retry_count x \<and> sp_status x \<noteq> Pending)"

definition settled :: "loom_db \<Rightarrow> int \<times> int \<Rightarrow> bool" where
  "settled db k \<longleftrightarrow> fst k < ld_next_step db \<and> (\<forall>x \<in> set (ld_steps db). sp_id x = fst k \<longrightarrow>
     snd k < sp_retry_count x \<or> snd k = sp_retry_count x \<and> \<not> unfinished (sp_status x))"

fun hands_out :: "int \<times> int \<Rightarrow> loom_op \<Rightarrow> loom_reply \<Rightarrow> bool" where
  "hands_out k (ClaimPass now at rid) (PassReply (Inr (Claimed rn cs))) = list_ex (\<lambda>c. sp_id c = fst k \<and> sp_retry_count c = snd k) cs"
| "hands_out k _ _ = False"

fun settles :: "int \<times> int \<Rightarrow> loom_op \<Rightarrow> loom_reply \<Rightarrow> bool" where
  "settles k (CompleteAttempt now s retry started output) (AttemptReply (Inr t)) = (t \<noteq> Stale \<and> sp_id s = fst k \<and> retry = snd k)"
| "settles k (FailAttempt now s retry started message) (AttemptReply (Inr t)) = (t \<noteq> Stale \<and> sp_id s = fst k \<and> retry = snd k)"
| "settles k _ _ = False"

lemma gone_later:
  assumes "rows_later db db'"
  shows "claimed db k \<Longrightarrow> claimed db' k" "settled db k \<Longrightarrow> settled db' k"
proof -
  have *: "snd k < sp_retry_count t \<or> snd k = sp_retry_count t \<and> m \<le> step_rank (sp_status t)"
    if t: "t \<in> set (ld_steps db')" "sp_id t = fst k" and k: "fst k < ld_next_step db"
      and all: "\<forall>x \<in> set (ld_steps db). sp_id x = fst k \<longrightarrow> snd k < sp_retry_count x \<or> snd k = sp_retry_count x \<and> m \<le> step_rank (sp_status x)"
    for t m
  proof -
    obtain s where "s \<in> set (ld_steps db)" "step_later s t" using assms t k by (auto simp: rows_later_def)
    moreover from this have "sp_id s = fst k" using t(2) by (simp add: step_later_def)
    ultimately show ?thesis using all by (fastforce simp: step_later_def)
  qed
  have n: "ld_next_step db \<le> ld_next_step db'" using assms by (simp add: rows_later_def)
  have rank: "(st \<noteq> Pending) = (1 \<le> step_rank st)" "(\<not> unfinished st) = (2 \<le> step_rank st)" for st
    by (cases st; simp add: unfinished_def)+
  show "claimed db k \<Longrightarrow> claimed db' k" using *[of _ 1] n unfolding claimed_def rank by auto
  show "settled db k \<Longrightarrow> settled db' k" using *[of _ 2] n unfolding settled_def rank by auto
qed

lemma inv_step_id: "loom_inv L db \<Longrightarrow> x \<in> set (ld_steps db) \<Longrightarrow> sp_id x < ld_next_step db"
  by (simp add: loom_inv_def shape_ok_def)

lemma hands_outD:
  "hands_out k x r \<Longrightarrow> \<exists>now at rid rn cs c. x = ClaimPass now at rid \<and> r = PassReply (Inr (Claimed rn cs)) \<and> c \<in> set cs \<and>
     k = (sp_id c, sp_retry_count c)"
  by (cases "(k, x, r)" rule: hands_out.cases) (auto simp: list_ex_iff prod_eq_iff)

lemma settlesD:
  "settles k x r \<Longrightarrow> (\<exists>now s retry started out t. x = CompleteAttempt now s retry started out \<and> r = AttemptReply (Inr t) \<and>
       t \<noteq> Stale \<and> k = (sp_id s, retry)) \<or>
     (\<exists>now s retry started message t. x = FailAttempt now s retry started message \<and> r = AttemptReply (Inr t) \<and>
       t \<noteq> Stale \<and> k = (sp_id s, retry))"
  by (cases "(k, x, r)" rule: settles.cases) (auto simp: prod_eq_iff)

lemma settled_map:
  assumes inv: "loom_inv L db" and y: "y \<in> set (ld_steps db)" "current_attempt sid retry started db y"
    and db': "ld_next_step db' = ld_next_step db" "ld_steps db' = map f (ld_steps db)"
    and f: "\<And>x. sp_id (f x) = sp_id x" and over: "retry < sp_retry_count (f y) \<or> retry = sp_retry_count (f y) \<and> \<not> unfinished (sp_status (f y))"
  shows "settled db' (sid, retry)"
proof -
  have "retry < sp_retry_count z \<or> retry = sp_retry_count z \<and> \<not> unfinished (sp_status z)" if z: "z \<in> set (ld_steps db')" "sp_id z = sid" for z
  proof -
    obtain x where x: "x \<in> set (ld_steps db)" "z = f x" using z(1) db'(2) by auto
    then have "x = y" using current_attempt_row(5) [OF inv y x(1)] z(2) f by simp
    then show ?thesis using over x(2) by simp
  qed
  moreover have "sid < ld_next_step db'" using inv_step_id [OF inv y(1)] y(2) db'(1) by (simp add: current_attempt_def)
  ultimately show ?thesis by (simp add: settled_def)
qed

lemma completed_settled:
  assumes "loom_inv L db" "y \<in> set (ld_steps db)" "current_attempt (sp_id s) retry started db y"
  shows "settled (fst (complete_attempt L now s retry started out db)) (sp_id s, retry)"
proof -
  have "sql_changed (current_attempt (sp_id s) retry started db) (ld_steps db) \<noteq> 0"
    using assms(2,3) sql_changed_pos [of "current_attempt (sp_id s) retry started db" "ld_steps db"] by auto
  then show ?thesis
    by (intro settled_map [OF assms, where f = "\<lambda>x. if current_attempt (sp_id s) retry started db x then x \<lparr> sp_status := Completed,
        sp_output_text := ll_json_text L out, sp_completed_at := Some now \<rparr> else x"])
      (use assms(3) in \<open>simp_all add: complete_attempt_def Let_def sql_update_def unfinished_def current_attempt_row(3) [OF assms]\<close>)
qed

lemma failed_settled:
  assumes "loom_inv L db" "y \<in> set (ld_steps db)" "current_attempt (sp_id s) retry started db y"
    and ok: "snd (fail_attempt L now s retry started message db) = Inr t"
  shows "settled (fst (fail_attempt L now s retry started message db)) (sp_id s, retry)"
proof -
  let ?key = "current_attempt (sp_id s) retry started db"
  have some: "sql_changed ?key (ld_steps db) \<noteq> 0" using assms(2,3) sql_changed_pos [of ?key "ld_steps db"] by auto
  have y: "sp_retry_count y = retry" "sp_id y = sp_id s" using current_attempt_row(1,3) [OF assms(1-3)] by simp_all
  show ?thesis
  proof (cases "retry < sp_max_retries s")
    case True
    then show ?thesis
      by (intro settled_map [OF assms(1-3), where f = "\<lambda>x. if ?key x then x \<lparr> sp_status := Pending, sp_retry_count := sp_retry_count x + 1,
          sp_error := Some message, sp_started_at := None \<rparr> else x"])
        (use some assms(3) y in \<open>simp_all add: fail_attempt_def Let_def sql_update_def\<close>)
  next
    case False
    then show ?thesis using ok some
      by (intro settled_map [OF assms(1-3), where f = "\<lambda>x. (\<lambda>x. if sp_run x = sp_run s \<and> sp_id x \<noteq> sp_id s \<and> unfinished (sp_status x)
            then x \<lparr> sp_status := Skipped, sp_completed_at := Some now \<rparr> else x)
          (if ?key x then x \<lparr> sp_status := Failed, sp_error := Some message, sp_completed_at := Some now \<rparr> else x)"])
        (use assms(3) y in \<open>simp_all add: fail_attempt_def Let_def sql_update_def unfinished_def o_def split: if_splits\<close>)
  qed
qed

lemma attempt_settles:
  assumes L: "loom_lib_ok L" and inv: "loom_inv L db" and g: "settles k x (snd (loom_apply L x db))"
  shows "\<not> settled db k \<and> settled (fst (loom_apply L x db)) k"
proof -
  have one: "\<exists>y \<in> set (ld_steps db). current_attempt (sp_id s) retry started db y"
    if "snd (complete_attempt L now s retry started out db) = Inr t \<and> t \<noteq> Stale \<or>
      snd (fail_attempt L now s retry started message db) = Inr t \<and> t \<noteq> Stale" for now s retry started out message t
    using that sql_changed_pos [of "current_attempt (sp_id s) retry started db" "ld_steps db"]
    by (auto simp: complete_attempt_def fail_attempt_def Let_def split: if_splits)
  have gone: "\<not> settled db (sid, retry)" if "y \<in> set (ld_steps db)" "current_attempt sid retry started db y" for y sid retry started
    using that by (auto simp: settled_def current_attempt_def unfinished_def intro!: bexI [of _ y])
  from settlesD [OF g] show ?thesis
  proof (elim disjE exE conjE)
    fix now s retry started out t
    assume x: "x = CompleteAttempt now s retry started out" "snd (loom_apply L x db) = AttemptReply (Inr t)" "t \<noteq> Stale" "k = (sp_id s, retry)"
    then have t: "captured s db" "snd (complete_attempt L now s retry started out db) = Inr t" by (auto split: if_splits)
    obtain y where y: "y \<in> set (ld_steps db)" "current_attempt (sp_id s) retry started db y" using one t(2) x(3) by blast
    have "settled (fst (complete_attempt L now s retry started out db)) (sp_id s, retry)" by (rule completed_settled [OF inv y])
    then show ?thesis using gone [OF y] t(1) x(1,4) by simp
  next
    fix now s retry started message t
    assume x: "x = FailAttempt now s retry started message" "snd (loom_apply L x db) = AttemptReply (Inr t)" "t \<noteq> Stale" "k = (sp_id s, retry)"
    then have t: "captured s db" "snd (fail_attempt L now s retry started message db) = Inr t" by (auto split: if_splits)
    obtain y where y: "y \<in> set (ld_steps db)" "current_attempt (sp_id s) retry started db y" using one t(2) x(3) by blast
    have "settled (fst (fail_attempt L now s retry started message db)) (sp_id s, retry)" by (rule failed_settled [OF inv y t(2)])
    then show ?thesis using gone [OF y] t(1) x(1,4) by simp
  qed
qed

lemma pass_hands_out:
  assumes L: "loom_lib_ok L" and inv: "loom_inv L db" and g: "hands_out k x (snd (loom_apply L x db))"
  shows "\<not> claimed db k \<and> claimed (fst (loom_apply L x db)) k"
proof -
  obtain now at rid rn cs c where x: "x = ClaimPass now at rid" "snd (claim_pass L now at rid db) = Inr (Claimed rn cs)"
      "c \<in> set cs" "k = (sp_id c, sp_retry_count c)"
  proof -
    from hands_outD [OF g] obtain now at rid rn cs c where h: "x = ClaimPass now at rid"
      "snd (loom_apply L x db) = PassReply (Inr (Claimed rn cs))" "c \<in> set cs" "k = (sp_id c, sp_retry_count c)" by blast
    then have "snd (claim_pass L now at rid db) = Inr (Claimed rn cs)" by simp
    with h show thesis using that by blast
  qed
  let ?db' = "fst (claim_pass L now at rid db)"
  obtain p q where p: "p \<in> set (ld_steps db)" "sp_id p = sp_id c" "sp_retry_count p = sp_retry_count c" "sp_status p = Pending"
    and q: "q \<in> set (ld_steps ?db')" "sp_id q = sp_id c" "sp_retry_count q = sp_retry_count c" "sp_status q = Running"
    using pass_claims(1) [OF L inv x(2,3)] by (auto simp: claimed_from_def)
  have inv': "loom_inv L ?db'" "rows_later db ?db'" using inv_claim_pass [OF L inv] by auto
  have "sp_retry_count y = sp_retry_count c \<and> sp_status y = Running" if "y \<in> set (ld_steps ?db')" "sp_id y = sp_id c" for y
    using inv_step_unique [OF inv'(1) that(1) q(1)] that(2) q(2-4) by simp
  then have "claimed ?db' (sp_id c, sp_retry_count c)"
    using inv_step_id [OF inv'(1) q(1)] q by (auto simp: claimed_def)
  moreover have "\<not> claimed db (sp_id c, sp_retry_count c)" using p by (auto simp: claimed_def)
  ultimately show ?thesis by (simp add: x)
qed


section \<open>A run is never stuck\<close>

lemma finite_run_needs: "finite (run_needs L rid steps)"
  by (auto simp: run_needs_def)

text \<open>Among the pending steps of an active run with no running step there is one whose dependencies have completed.\<close>

lemma ready_step:
  assumes inv: "loom_inv L db" and q: "q \<in> set (ld_runs db)" "rn_status q = run_status.Running"
    and quiet: "\<And>s. s \<in> set (ld_steps db) \<Longrightarrow> sp_run s = rn_id q \<Longrightarrow> sp_status s \<noteq> Running"
    and x: "x \<in> set (ld_steps db)" "sp_run x = rn_id q" "sp_status x = Pending"
  obtains y where "y \<in> set (ld_steps db)" "sp_run y = rn_id q" "sp_status y = Pending"
    "\<forall>d \<in> set (row_deps L y). completed_in (ld_steps db) (rn_id q) d"
proof -
  let ?pending = "{n. \<exists>s \<in> set (ld_steps db). sp_run s = rn_id q \<and> sp_name s = n \<and> sp_status s = Pending}"
  have "acyclic (run_needs L (rn_id q) (ld_steps db))" using inv by (simp add: loom_inv_def shape_ok_def)
  then have "wf (run_needs L (rn_id q) (ld_steps db))" using finite_run_needs by (simp add: wf_iff_acyclic_if_finite)
  moreover have "sp_name x \<in> ?pending" using x by blast
  ultimately obtain n where n: "n \<in> ?pending" "\<And>d. (d, n) \<in> run_needs L (rn_id q) (ld_steps db) \<Longrightarrow> d \<notin> ?pending"
    by (rule wfE_min) blast
  then obtain y where y: "y \<in> set (ld_steps db)" "sp_run y = rn_id q" "sp_name y = n" "sp_status y = Pending" by blast
  have "completed_in (ld_steps db) (rn_id q) d" if d: "d \<in> set (row_deps L y)" for d
  proof -
    obtain c where c: "c \<in> set (ld_steps db)" "sp_run c = rn_id q" "sp_name c = d"
      using inv y(1,2) d unfolding loom_inv_def shape_ok_def by metis
    have "(d, n) \<in> run_needs L (rn_id q) (ld_steps db)" using y d by (auto simp: run_needs_def)
    then have "sp_status c \<noteq> Pending" using n(2) c by blast
    moreover have "agrees (rn_status q) (sp_status c)" using inv_agrees [OF inv q(1) c(1)] c(2) by simp
    ultimately show ?thesis using c quiet [OF c(1,2)] q(2) by (auto simp: completed_in_def)
  qed
  with y show thesis using that by blast
qed

text \<open>The rows of a run can be read back: the texts in its columns parse.\<close>

definition readable :: "loom_lib \<Rightarrow> uuid \<Rightarrow> loom_db \<Rightarrow> bool" where
  "readable L rid db \<longleftrightarrow> (\<forall>r \<in> set (ld_runs db). rn_id r = rid \<longrightarrow> is_ok (into_run L r)) \<and>
     (\<forall>s \<in> set (ld_steps db). sp_run s = rid \<longrightarrow> is_ok (into_step L s))"

lemma readable_parts:
  assumes "readable L rid db" "r \<in> set (ld_runs db)" "rn_id r = rid"
  obtains rn ss where "into_run L r = Inr rn" "into_steps L (filter (\<lambda>s. sp_run s = rid) (ld_steps db)) = Inr ss"
proof -
  have "is_ok (into_run L r)" "is_ok (into_steps L (filter (\<lambda>s. sp_run s = rid) (ld_steps db)))"
    using assms by (auto simp: readable_def into_steps_ok)
  then show thesis using that unfolding is_ok_iff by blast
qed

lemma pass_over_unreadable:
  assumes inv: "loom_inv L db" and r: "r \<in> set (ld_runs db)" "rn_id r = rid" "active (rn_status r)" and rd: "\<not> readable L rid db"
  shows "\<exists>e. claim_pass L now at rid db = (db, Inl e)"
proof (rule claim_pass_unreadable [OF inv r])
  have "q = r" if "q \<in> set (ld_runs db)" "rn_id q = rid" for q
    using inv_run_unique [OF inv that(1) r(1)] that(2) r(2) by simp
  then show "\<not> is_ok (into_run L r) \<or> \<not> is_ok (into_steps L (filter (\<lambda>s. sp_run s = rid) (ld_steps db)))"
    using rd by (auto simp: readable_def into_steps_ok)
qed

text \<open>
  An output whose text does not parse is accepted like any other: the step completes. From then on every
  pass over its run fails, although the run is active and no executor works for it.
\<close>

lemma deep_output_sticks:
  assumes inv: "loom_inv L db" and s: "attempt_is_current s db" "captured s db" "sp_started_at s = Some started"
    and deep: "ll_json_parse L (ll_json_text L out) = None"
    and db': "db' = fst (complete_attempt L now s (sp_retry_count s) started out db)"
  shows "snd (complete_attempt L now s (sp_retry_count s) started out db) = Inr CompletedNow"
    and "\<exists>e. claim_pass L now' at (sp_run s) db' = (db', Inl e)"
proof -
  let ?key = "current_attempt (sp_id s) (sp_retry_count s) started db"
  obtain y where y: "y \<in> set (ld_steps db)" "?key y" using s by (auto simp: attempt_is_current_def list_ex_iff)
  then have some: "sql_changed ?key (ld_steps db) \<noteq> 0" using sql_changed_pos [of ?key "ld_steps db"] by auto
  then show "snd (complete_attempt L now s (sp_retry_count s) started out db) = Inr CompletedNow"
    by (simp add: complete_attempt_def Let_def)
  have "sp_id y = sp_id s" using y(2) by (simp add: current_attempt_def)
  then have run: "sp_run y = sp_run s" using s(2) y(1) unfolding captured_def by metis
  let ?y = "y \<lparr> sp_status := Completed, sp_output_text := ll_json_text L out, sp_completed_at := Some now \<rparr>"
  have tables: "?y \<in> set (ld_steps db')" "ld_runs db' = ld_runs db"
    using y some by (auto simp: db' complete_attempt_def Let_def sql_update_def intro!: image_eqI [of _ _ y])
  obtain r where r: "r \<in> set (ld_runs db')" "rn_id r = sp_run s" "active (rn_status r)"
    using y(2) run tables(2) by (auto simp: current_attempt_def list_ex_iff)
  have "\<not> is_ok (into_step L ?y)" using deep by (auto simp: into_step_def split: option.splits)
  then have "\<not> readable L (sp_run s) db'" using tables(1) run by (auto simp: readable_def)
  moreover have "loom_inv L db'" unfolding db' by (rule inv_complete_attempt [OF inv])
  ultimately show "\<exists>e. claim_pass L now' at (sp_run s) db' = (db', Inl e)" using pass_over_unreadable r by blast
qed

lemma pass_progress:
  assumes inv: "loom_inv L db" and r: "r \<in> set (ld_runs db)" "rn_id r = rid" "active (rn_status r)" and rd: "readable L rid db"
    and quiet: "\<And>s. s \<in> set (ld_steps db) \<Longrightarrow> sp_run s = rid \<Longrightarrow> sp_status s \<noteq> Running"
  shows "\<exists>rn. snd (claim_pass L now at rid db) = Inr (Finished rn) \<or>
    (\<exists>cs. snd (claim_pass L now at rid db) = Inr (Claimed rn cs) \<and> cs \<noteq> [])"
proof -
  obtain rn ss where rn: "into_run L r = Inr rn" and read: "into_steps L (filter (\<lambda>s. sp_run s = rid) (ld_steps db)) = Inr ss"
    by (rule readable_parts [OF rd r(1,2)])
  note ss = read claim_pass_active [OF inv r(1,2) rn r(3) read, of now at]
  have inv1: "loom_inv L (begun now rid db)" by (rule begun_inv(1) [OF inv r])
  obtain q where q: "q \<in> set (ld_runs (begun now rid db))" "rn_id q = rid" "rn_status q = run_status.Running"
    using begun_inv(2) [OF inv r] by blast
  have "snd (claim_steps L at rn ss ss (begun now rid db)) \<noteq> []" if open_step: "\<not> list_all (\<lambda>s. \<not> unfinished (sp_status s)) ss"
  proof -
    obtain t where t: "t \<in> set ss" "unfinished (sp_status t)" using open_step by (auto simp: list_all_iff)
    obtain x where x: "x \<in> set (ld_steps db)" "sp_run x = rid" "into_step L x = Inr t" by (rule read_rows [OF ss(1) t(1)])
    then have "sp_status x = Pending" using t(2) quiet into_step_row(4) by (force simp: unfinished_def)
    then obtain y where y: "y \<in> set (ld_steps db)" "sp_run y = rid" "sp_status y = Pending"
      "\<forall>d \<in> set (row_deps L y). completed_in (ld_steps db) rid d"
      using ready_step [OF inv1 q(1,3)] x(1,2) quiet q(2) by (metis begun_tables(1))
    obtain s where s: "s \<in> set ss" "into_step L y = Inr s" by (rule rows_read [OF ss(1) y(1,2)])
    note row = into_step_row [OF s(2)]
    have "deps_met ss s"
      unfolding deps_met_def list_all_iff
    proof
      fix d assume "d \<in> set (sp_depends_on s)"
      then obtain c where c: "c \<in> set (ld_steps db)" "sp_run c = rid" "sp_name c = d" "sp_status c = Completed"
        using y(4) row(9) by (auto simp: completed_in_def)
      obtain c' where c': "c' \<in> set ss" "into_step L c = Inr c'" by (rule rows_read [OF ss(1) c(1,2)])
      then have "step_named ss d \<noteq> None" using into_step_row(3) c(3) by (auto simp: step_named_def find_None)
      then obtain e where e: "step_named ss d = Some e" by blast
      then obtain z where z: "z \<in> set (ld_steps db)" "sp_run z = rid" "into_step L z = Inr e"
        using read_rows [OF ss(1)] step_named_in by metis
      have "sp_name z = d" using into_step_row(3) [OF z(3)] step_named_in [OF e] by simp
      then have "z = c" using inv z(1,2) c(1-3) unfolding loom_inv_def shape_ok_def distinct_map inj_on_def by metis
      then show "case step_named ss d of None \<Rightarrow> False | Some c \<Rightarrow> sp_status c = Completed"
        using e into_step_row(4) [OF z(3)] c(4) by simp
    qed
    moreover have "distinct (map sp_id ss)"
    proof -
      have "map sp_id ss = map sp_id (filter (\<lambda>s. sp_run s = rid) (ld_steps db))"
        using ss(1) unfolding into_steps_Inr by (induction rule: list_all2_induct) (auto simp: into_step_row)
      then show ?thesis using inv by (simp add: loom_inv_def shape_ok_def distinct_map_filter)
    qed
    moreover have "claim_key (sp_id s) (begun now rid db) y"
      using row y q by (auto simp: claim_key_def list_ex_iff active_def)
    ultimately show ?thesis
      using claim_steps_complete [OF s(1), of ss y "begun now rid db" L at rn] row y by simp
  qed
  then show ?thesis using ss(2) by (cases "list_all (\<lambda>s. \<not> unfinished (sp_status s)) ss") simp_all
qed


section \<open>Histories of the store\<close>

definition empty_loom :: loom_db where
  "empty_loom = \<lparr> ld_workflows = [], ld_runs = [], ld_steps = [], ld_logs = [], ld_next_step = 1, ld_next_log = 1 \<rparr>"

interpretation loom: store "loom_apply L" "\<lambda>_. True" "\<lambda>db. loom_lib_ok L \<and> loom_inv L db" for L
  by unfold_locales (simp add: loom_step)

interpretation claims: once_store "loom_apply L" "\<lambda>_. True" "\<lambda>db. loom_lib_ok L \<and> loom_inv L db" claimed hands_out for L
  by unfold_locales (use loom_step gone_later(1) pass_hands_out in \<open>blast+\<close>)

interpretation settlements: once_store "loom_apply L" "\<lambda>_. True" "\<lambda>db. loom_lib_ok L \<and> loom_inv L db" settled settles for L
  by unfold_locales (use loom_step gone_later(2) attempt_settles in \<open>blast+\<close>)

lemma empty_loom_inv: "loom_inv L empty_loom"
  by (simp add: loom_inv_def shape_ok_def empty_loom_def run_needs_def acyclic_def)

lemma history_inv: "loom_lib_ok L \<Longrightarrow> loom_inv L (fst (run (loom_apply L) ops empty_loom))"
  using loom.inv_run [of L empty_loom ops] empty_loom_inv by (simp add: list_all_iff)

text \<open>
  Property C17. Whatever operations the workflow store performs, in any order and with any arguments, from
  an empty database: a step is running, completed or failed only if every step it depends on exists in
  its run and is completed; a finished run has no pending or running step, and a completed one only
  completed steps; no step exceeds its retry budget; the dependencies of each run are acyclic.
\<close>

theorem loom_history_ok:
  assumes "loom_lib_ok L"
  defines "db \<equiv> \<lambda>ops. fst (run (loom_apply L) ops empty_loom)"
  shows "(\<forall>s \<in> set (ld_steps (db ops)). sp_status s \<in> {Running, Completed, Failed} \<longrightarrow>
      (\<forall>d \<in> set (row_deps L s). \<exists>c \<in> set (ld_steps (db ops)). sp_run c = sp_run s \<and> sp_name c = d \<and> sp_status c = Completed)) \<and>
    (\<forall>r \<in> set (ld_runs (db ops)). \<forall>s \<in> set (ld_steps (db ops)). sp_run s = rn_id r \<longrightarrow>
      (is_terminal (rn_status r) \<longrightarrow> sp_status s \<notin> {Pending, Running}) \<and>
      (rn_status r = run_status.Completed \<longrightarrow> sp_status s = Completed)) \<and>
    (\<forall>s \<in> set (ld_steps (db ops)). 0 \<le> sp_retry_count s \<and> sp_retry_count s \<le> sp_max_retries s) \<and>
    (\<forall>rid. acyclic (run_needs L rid (ld_steps (db ops))))"
proof -
  have inv: "loom_inv L (db ops)" unfolding db_def by (rule history_inv [OF assms(1)])
  have terminal: "\<not> unfinished st" if "agrees rst st" "is_terminal rst" for rst st
    using that by (cases rst) (auto simp: unfinished_def)
  have "\<exists>c \<in> set (ld_steps (db ops)). sp_run c = sp_run s \<and> sp_name c = d \<and> sp_status c = Completed"
    if "s \<in> set (ld_steps (db ops))" "sp_status s \<in> {Running, Completed, Failed}" "d \<in> set (row_deps L s)" for s d
    using inv_dep [OF inv that(1) _ that(3)] that(2) by (auto simp: started_status_def completed_in_def)
  moreover have "sp_status s \<notin> {Pending, Running}" if "r \<in> set (ld_runs (db ops))" "s \<in> set (ld_steps (db ops))"
    "sp_run s = rn_id r" "is_terminal (rn_status r)" for r s
    using terminal [OF inv_agrees [OF inv that(1,2) that(3) [symmetric]] that(4)] by (auto simp: unfinished_def)
  moreover have "sp_status s = Completed" if "r \<in> set (ld_runs (db ops))" "s \<in> set (ld_steps (db ops))"
    "sp_run s = rn_id r" "rn_status r = run_status.Completed" for r s
    using inv_agrees [OF inv that(1,2) that(3) [symmetric]] that(4) by simp
  moreover have "0 \<le> sp_retry_count s \<and> sp_retry_count s \<le> sp_max_retries s" if "s \<in> set (ld_steps (db ops))" for s
    using inv_row [OF inv that] by (simp add: row_ok_def)
  moreover have "acyclic (run_needs L rid (ld_steps (db ops)))" for rid using inv by (simp add: loom_inv_def shape_ok_def)
  ultimately show ?thesis by blast
qed

text \<open>
  Property C18. Each attempt of a step, a step id with a retry number, is handed to an executor at most
  once and settled at most once: of all the passes, completions, failures and timeouts of a history, in
  any order, at most one claims it and at most one completion or failure of it takes effect.
\<close>

theorem attempt_claimed_and_settled_once:
  assumes "loom_lib_ok L"
  shows "granted (hands_out (sid, retry)) ops (snd (run (loom_apply L) ops empty_loom)) \<le> 1 \<and>
    granted (settles (sid, retry)) ops (snd (run (loom_apply L) ops empty_loom)) \<le> 1"
  using claims.at_most_once [of L empty_loom ops "(sid, retry)"] settlements.at_most_once [of L empty_loom ops "(sid, retry)"]
    assms empty_loom_inv by (simp add: list_all_iff)

text \<open>
  Property C19. A pass never leaves a run waiting for nothing. After any history, take an active run none
  of whose steps is running: if the rows of the run can be read back (the JSON texts stored in its columns
  parse), the pass either completes the run or hands out at least one step; if they cannot, it answers with
  an error and changes nothing, so that run makes no progress (lemma \<open>deep_output_sticks\<close> shows how the
  code comes to store such a row).
\<close>

theorem run_never_stuck:
  assumes "loom_lib_ok L" "r \<in> set (ld_runs (fst (run (loom_apply L) ops empty_loom)))" "active (rn_status r)"
    "\<forall>s \<in> set (ld_steps (fst (run (loom_apply L) ops empty_loom))). sp_run s = rn_id r \<longrightarrow> sp_status s \<noteq> Running"
  shows "if readable L (rn_id r) (fst (run (loom_apply L) ops empty_loom))
    then \<exists>rn. snd (claim_pass L now at (rn_id r) (fst (run (loom_apply L) ops empty_loom))) = Inr (Finished rn) \<or>
      (\<exists>cs. snd (claim_pass L now at (rn_id r) (fst (run (loom_apply L) ops empty_loom))) = Inr (Claimed rn cs) \<and> cs \<noteq> [])
    else \<exists>e. claim_pass L now at (rn_id r) (fst (run (loom_apply L) ops empty_loom)) = (fst (run (loom_apply L) ops empty_loom), Inl e)"
proof (cases "readable L (rn_id r) (fst (run (loom_apply L) ops empty_loom))")
  case True
  then show ?thesis
    using pass_progress [OF history_inv [OF assms(1)] assms(2) refl assms(3) True, where now = now and at = at] assms(4) by auto
next
  case False
  then show ?thesis using pass_over_unreadable [OF history_inv [OF assms(1)] assms(2) refl assms(3) False] by simp
qed

text \<open>
  What a pass hands out is ready: every dependency of a step it claims is completed in the
  same run at that moment, and the step was pending; its row is running, with the attempt number and the
  start time the executor is given.
\<close>

theorem claimed_steps_are_ready:
  assumes "loom_lib_ok L" "snd (claim_pass L now at rid (fst (run (loom_apply L) ops empty_loom))) = Inr (Claimed rn cs)" "c \<in> set cs"
  shows "claimed_from L rid (fst (run (loom_apply L) ops empty_loom))
      (fst (claim_pass L now at rid (fst (run (loom_apply L) ops empty_loom)))) c \<and>
    (\<forall>d \<in> set (sp_depends_on c). completed_in (ld_steps (fst (run (loom_apply L) ops empty_loom))) rid d)"
  using pass_claims [OF assms(1) history_inv [OF assms(1)] assms(2,3)] by blast


section \<open>A concrete history\<close>

fun sample_names_text :: "string list \<Rightarrow> string" where
  "sample_names_text [] = []"
| "sample_names_text (d # ds) = concat (map (\<lambda>c. [CHR ''x'', c]) d) @ '','' @ sample_names_text ds"

fun sample_names_parse :: "string \<Rightarrow> string \<Rightarrow> string list option" where
  "sample_names_parse d [] = (if d = [] then Some [] else None)"
| "sample_names_parse d [c] = (if c = CHR '','' then Some [rev d] else None)"
| "sample_names_parse d (c # c' # cs) =
     (if c = CHR '','' then map_option (Cons (rev d)) (sample_names_parse [] (c' # cs)) else sample_names_parse (c' # d) cs)"

lemma sample_names_char: "sample_names_parse d ([CHR ''x'', c] @ cs) = sample_names_parse (c # d) cs"
  by simp

lemma sample_names_comma: "sample_names_parse d ('','' @ cs) = map_option (Cons (rev d)) (if cs = [] then Some [] else sample_names_parse [] cs)"
  by (cases cs) simp_all

lemma sample_names_one: "sample_names_parse d (concat (map (\<lambda>c. [CHR ''x'', c]) e) @ cs) = sample_names_parse (rev e @ d) cs"
  by (induction e arbitrary: d) simp_all

lemma sample_names_roundtrip: "sample_names_parse [] (sample_names_text ds) = Some ds"
proof (induction ds)
  case (Cons d ds)
  show ?case
  proof (cases "sample_names_text ds = []")
    case True
    then have "ds = []" by (cases ds) simp_all
    then show ?thesis by (simp add: sample_names_one)
  next
    case False
    then show ?thesis using Cons by (simp only: sample_names_text.simps sample_names_one sample_names_comma) simp
  qed
qed simp

definition sample_loom_lib :: loom_lib where
  "sample_loom_lib = \<lparr> ll_debug = id, ll_order = id, ll_json_text = (\<lambda>v. ''{}''), ll_json_parse = (\<lambda>t. Some (JObject [])),
     ll_steps_text = (\<lambda>ds. ''[]''), ll_steps_parse = (\<lambda>t. Some diamond), ll_names_text = sample_names_text,
     ll_names_parse = sample_names_parse [], ll_parse_error = id \<rparr>"

lemma sample_loom_lib_ok: "loom_lib_ok sample_loom_lib"
  by (simp add: loom_lib_ok_def sample_loom_lib_def key_order_def sample_names_roundtrip)

definition sample_ops :: "loom_op list" where
  "sample_ops = [CreateWorkflow 1 5 \<lparr> nw_tenant = 2, nw_principal = 3, nw_name = ''w'', nw_description = None, nw_steps = diamond \<rparr>,
     InsertRun 2 7 2 3 5 None]"

definition sample_attempt :: "int \<Rightarrow> string \<Rightarrow> int \<Rightarrow> loom_step" where
  "sample_attempt sid name started = \<lparr> sp_id = sid, sp_run = 7, sp_name = name, sp_type = Action, sp_config_text = ''{}'', sp_status = Running,
     sp_input_text = ''{}'', sp_output_text = ''{}'', sp_error = None, sp_depends_text = [], sp_retry_count = 0, sp_max_retries = 2,
     sp_timeout_ms = 30000, sp_started_at = Some started, sp_completed_at = None, sp_created_at = 2,
     sp_config = JObject [], sp_input = JObject [], sp_output = JObject [], sp_depends_on = [] \<rparr>"

definition sample_history :: "loom_op list" where
  "sample_history = sample_ops @ [ClaimPass 3 (\<lambda>sid. 4) 7, CompleteAttempt 5 (sample_attempt 1 ''a'' 4) 0 4 (JObject []),
     FailAttempt 6 (sample_attempt 1 ''a'' 4) 0 4 ''timeout'', ClaimPass 7 (\<lambda>sid. 8) 7]"

lemma sample_statuses:
  "map (\<lambda>s. (sp_name s, sp_status s)) (ld_steps (fst (run (loom_apply sample_loom_lib) sample_history empty_loom))) =
     [(''a'', Completed), (''b'', Running), (''c'', Running), (''d'', Pending)]"
  by code_simp

lemma sample_first_claim:
  "case snd (claim_pass sample_loom_lib 3 (\<lambda>sid. 4) 7 (fst (run (loom_apply sample_loom_lib) sample_ops empty_loom))) of
     Inr (Claimed rn cs) \<Rightarrow> map sp_name cs = [''a''] | _ \<Rightarrow> False"
  by code_simp

theorem loom_history_ok_witness:
  "let db = fst (run (loom_apply sample_loom_lib) sample_history empty_loom) in
   (\<forall>r \<in> set (ld_runs db). \<forall>s \<in> set (ld_steps db). sp_run s = rn_id r \<longrightarrow> is_terminal (rn_status r) \<longrightarrow> sp_status s \<notin> {Pending, Running}) \<and>
   (\<forall>s \<in> set (ld_steps db). sp_retry_count s \<le> sp_max_retries s) \<and> acyclic (run_needs sample_loom_lib 7 (ld_steps db)) \<and>
   map sp_status (ld_steps db) = [Completed, Running, Running, Pending]"
proof -
  have "map sp_status (ld_steps (fst (run (loom_apply sample_loom_lib) sample_history empty_loom))) = [Completed, Running, Running, Pending]"
    using arg_cong [OF sample_statuses, of "map snd"] by (simp add: comp_def)
  with loom_history_ok [OF sample_loom_lib_ok, of sample_history] show ?thesis unfolding Let_def by blast
qed

theorem attempt_claimed_and_settled_once_witness:
  "granted (hands_out (1, 0)) sample_history (snd (run (loom_apply sample_loom_lib) sample_history empty_loom)) = 1 \<and>
   granted (settles (1, 0)) sample_history (snd (run (loom_apply sample_loom_lib) sample_history empty_loom)) = 1"
proof -
  have "0 < granted (hands_out (1, 0)) sample_history (snd (run (loom_apply sample_loom_lib) sample_history empty_loom))"
    "0 < granted (settles (1, 0)) sample_history (snd (run (loom_apply sample_loom_lib) sample_history empty_loom))"
    by code_simp+
  with attempt_claimed_and_settled_once [OF sample_loom_lib_ok, of 1 0 sample_history] show ?thesis by simp
qed

lemma sample_loom_run:
  "map (\<lambda>r. (rn_id r, rn_status r)) (ld_runs (fst (run (loom_apply sample_loom_lib) sample_ops empty_loom))) = [(7, run_status.Pending)]"
  "map sp_status (ld_steps (fst (run (loom_apply sample_loom_lib) sample_ops empty_loom))) = [Pending, Pending, Pending, Pending]"
  by code_simp+

lemma sample_readable: "readable sample_loom_lib 7 (fst (run (loom_apply sample_loom_lib) sample_ops empty_loom))"
  by code_simp

theorem run_never_stuck_witness:
  "\<exists>rn. snd (claim_pass sample_loom_lib 3 (\<lambda>sid. 4) 7 (fst (run (loom_apply sample_loom_lib) sample_ops empty_loom))) = Inr (Finished rn) \<or>
    (\<exists>cs. snd (claim_pass sample_loom_lib 3 (\<lambda>sid. 4) 7 (fst (run (loom_apply sample_loom_lib) sample_ops empty_loom))) = Inr (Claimed rn cs) \<and> cs \<noteq> [])"
proof -
  let ?db = "fst (run (loom_apply sample_loom_lib) sample_ops empty_loom)"
  obtain r where r: "ld_runs ?db = [r]" "rn_id r = 7" "rn_status r = run_status.Pending" using sample_loom_run(1) by (auto simp: map_eq_Cons_conv)
  have "sp_status s = Pending" if "s \<in> set (ld_steps ?db)" for s
    using arg_cong [OF sample_loom_run(2), of set] that by auto
  with run_never_stuck [OF sample_loom_lib_ok, of r sample_ops 3 "\<lambda>sid. 4"] r sample_readable show ?thesis by (simp add: active_def)
qed

theorem claimed_steps_are_ready_witness:
  "\<exists>rn c. snd (claim_pass sample_loom_lib 3 (\<lambda>sid. 4) 7 (fst (run (loom_apply sample_loom_lib) sample_ops empty_loom))) = Inr (Claimed rn [c]) \<and>
    sp_name c = ''a'' \<and> claimed_from sample_loom_lib 7 (fst (run (loom_apply sample_loom_lib) sample_ops empty_loom))
      (fst (claim_pass sample_loom_lib 3 (\<lambda>sid. 4) 7 (fst (run (loom_apply sample_loom_lib) sample_ops empty_loom)))) c"
proof -
  obtain rn c where "snd (claim_pass sample_loom_lib 3 (\<lambda>sid. 4) 7 (fst (run (loom_apply sample_loom_lib) sample_ops empty_loom))) = Inr (Claimed rn [c])"
    "sp_name c = ''a''"
    using sample_first_claim by (auto split: sum.splits pass.splits simp: map_eq_Cons_conv)
  with claimed_steps_are_ready [OF sample_loom_lib_ok this(1)] show ?thesis by auto
qed

end
