(* ===== verification/Loom_Engine.thy ===== *)
theory Loom_Engine
  imports Loom_Claims
begin

text \<open>
  The methods of the Loom store that are composed of several transactions (\<open>store.rs\<close>): the advance loop
  with its inline executor, starting a run, completing and failing a step through the API, cancelling,
  and the timeout sweep.

  A method owns the state only inside one lock. \<open>lw_others\<close> lists the operations of everybody else that
  happen before each of its lock acquisitions, so a proof for every world is a proof for every
  interleaving. The executor is a parameter: which step types it handles, and what it answers.
\<close>


section \<open>The world of a method\<close>

record step_context =
  sc_run :: uuid
  sc_tenant :: uuid
  sc_principal :: uuid
  sc_step :: int
  sc_name :: string
  sc_type :: step_type
  sc_config :: json
  sc_input :: json
  sc_timeout_ms :: int

text \<open>An executor; \<open>se_execute\<close> is told the moment of the call, as it may answer differently each time.\<close>

record step_executor =
  se_handles :: "step_type \<Rightarrow> bool"
  se_execute :: "nat \<Rightarrow> step_context \<Rightarrow> string + json"

datatype loom_event =
    RunCreated uuid uuid string
  | RunCompleted uuid
  | RunFailed uuid string string
  | RunCancelled uuid
  | StepStarted uuid int string
  | StepCompleted uuid int string
  | StepFailed uuid int string string bool

definition WORKFLOW_CHANNEL :: string where "WORKFLOW_CHANNEL = ''workflow''"

fun loom_event_kind :: "loom_event \<Rightarrow> string" where
  "loom_event_kind (RunCreated r w n) = ''workflow.run.created''"
| "loom_event_kind (RunCompleted r) = ''workflow.run.completed''"
| "loom_event_kind (RunFailed r s e) = ''workflow.run.failed''"
| "loom_event_kind (RunCancelled r) = ''workflow.run.cancelled''"
| "loom_event_kind (StepStarted r i s) = ''workflow.step.started''"
| "loom_event_kind (StepCompleted r i s) = ''workflow.step.completed''"
| "loom_event_kind (StepFailed r i s e w) = ''workflow.step.failed''"

record loom_world =
  lw_executor :: "step_executor option"
  lw_clock :: "nat \<Rightarrow> int"
  lw_step_clock :: "nat \<Rightarrow> int \<Rightarrow> int"
  lw_others :: "nat \<Rightarrow> loom_op list"

record engine =
  en_db :: loom_db
  en_tick :: nat
  en_events :: "(loom_event \<times> uuid \<times> uuid) list"

definition emit :: "loom_event \<Rightarrow> uuid \<Rightarrow> uuid \<Rightarrow> engine \<Rightarrow> engine" where
  "emit ev tenant p st = st \<lparr> en_events := en_events st @ [(ev, tenant, p)] \<rparr>"

text \<open>One acquisition of the lock: the others go first, then the given operation on the tables.\<close>

definition locked :: "loom_lib \<Rightarrow> loom_world \<Rightarrow> (loom_db \<Rightarrow> loom_db \<times> 'r) \<Rightarrow> engine \<Rightarrow> engine \<times> 'r" where
  "locked L W f st =
     (case f (fst (run (loom_apply L) (lw_others W (en_tick st)) (en_db st))) of
        (db, r) \<Rightarrow> (st \<lparr> en_db := db, en_tick := Suc (en_tick st) \<rparr>, r))"

definition now_of :: "loom_world \<Rightarrow> engine \<Rightarrow> int" where
  "now_of W st = lw_clock W (en_tick st)"


section \<open>One attempt\<close>

definition complete_step_inner ::
    "loom_lib \<Rightarrow> loom_world \<Rightarrow> loom_step \<Rightarrow> loom_run \<Rightarrow> int \<Rightarrow> int \<Rightarrow> json \<Rightarrow> engine \<Rightarrow> engine \<times> (loom_error + transition)" where
  "complete_step_inner L W s rn retry started out st =
     (case locked L W (complete_attempt L (now_of W st) s retry started out) st of
        (st, Inr CompletedNow) \<Rightarrow>
          (emit (StepCompleted (sp_run s) (sp_id s) (sp_name s)) (rn_tenant rn) (rn_principal rn) st, Inr CompletedNow)
      | (st, r) \<Rightarrow> (st, r))"

definition fail_step_inner ::
    "loom_lib \<Rightarrow> loom_world \<Rightarrow> loom_step \<Rightarrow> loom_run \<Rightarrow> int \<Rightarrow> int \<Rightarrow> string \<Rightarrow> engine \<Rightarrow> engine \<times> (loom_error + transition)" where
  "fail_step_inner L W s rn retry started message st =
     (case locked L W (fail_attempt L (now_of W st) s retry started message) st of
        (st, Inr Retrying) \<Rightarrow>
          (emit (StepFailed (sp_run s) (sp_id s) (sp_name s) message True) (rn_tenant rn) (rn_principal rn) st, Inr Retrying)
      | (st, Inr FailedNow) \<Rightarrow>
          (emit (RunFailed (sp_run s) (sp_name s) message) (rn_tenant rn) (rn_principal rn)
             (emit (StepFailed (sp_run s) (sp_id s) (sp_name s) message False) (rn_tenant rn) (rn_principal rn) st), Inr FailedNow)
      | (st, r) \<Rightarrow> (st, r))"

fun transition_debug :: "transition \<Rightarrow> string" where
  "transition_debug Stale = ''Stale''"
| "transition_debug CompletedNow = ''Completed''"
| "transition_debug Retrying = ''Retrying''"
| "transition_debug FailedNow = ''Failed''"

definition unexpected_completion :: "transition \<Rightarrow> loom_error" where
  "unexpected_completion t = Backend (''completion returned unexpected transition '' @ transition_debug t)"

definition unexpected_failure :: "transition \<Rightarrow> loom_error" where
  "unexpected_failure t = Backend (''failure returned unexpected transition '' @ transition_debug t)"


section \<open>The advance loop\<close>

definition step_context_of :: "loom_run \<Rightarrow> loom_step \<Rightarrow> step_context" where
  "step_context_of rn s = \<lparr> sc_run = rn_id rn, sc_tenant = rn_tenant rn, sc_principal = rn_principal rn, sc_step = sp_id s,
     sc_name = sp_name s, sc_type = sp_type s, sc_config = sp_config s, sc_input = sp_input s, sc_timeout_ms = sp_timeout_ms s \<rparr>"

text \<open>What comes of one claimed step: it was not run here, it was run, or its failure ended the run.\<close>

datatype visit_result = NotRun | Ran | EndedRun

definition execute_step ::
    "loom_lib \<Rightarrow> loom_world \<Rightarrow> step_executor \<Rightarrow> loom_run \<Rightarrow> loom_step \<Rightarrow> int \<Rightarrow> engine \<Rightarrow> engine \<times> (loom_error + visit_result)" where
  "execute_step L W ex rn s started st =
     (case se_execute ex (en_tick st) (step_context_of rn s) of
        Inr out \<Rightarrow>
          (case complete_step_inner L W s rn (sp_retry_count s) started out st of
             (st, Inl e) \<Rightarrow> (st, Inl e)
           | (st, Inr t) \<Rightarrow> (st, if t = CompletedNow \<or> t = Stale then Inr Ran else Inl (unexpected_completion t)))
      | Inl message \<Rightarrow>
          (case fail_step_inner L W s rn (sp_retry_count s) started message st of
             (st, Inl e) \<Rightarrow> (st, Inl e)
           | (st, Inr t) \<Rightarrow> (st, if t = FailedNow then Inr EndedRun
               else if t = Retrying \<or> t = Stale then Inr Ran else Inl (unexpected_failure t))))"

definition visit_step ::
    "loom_lib \<Rightarrow> loom_world \<Rightarrow> loom_run \<Rightarrow> loom_step \<Rightarrow> engine \<Rightarrow> engine \<times> (loom_error + visit_result)" where
  "visit_step L W rn s st =
     (case locked L W (\<lambda>db. (db, attempt_is_current s db)) st of (st, current) \<Rightarrow>
      if \<not> current then (st, Inr NotRun)
      else
        (let st = emit (StepStarted (rn_id rn) (sp_id s) (sp_name s)) (rn_tenant rn) (rn_principal rn) st in
         case lw_executor W of
           None \<Rightarrow> (st, Inr NotRun)
         | Some ex \<Rightarrow>
             if \<not> se_handles ex (sp_type s) then (st, Inr NotRun)
             else case sp_started_at s of
               None \<Rightarrow> (st, Inl (Backend (''running step '' @ i64_text (sp_id s) @ '' has no start time'')))
             | Some started \<Rightarrow> execute_step L W ex rn s started st))"

text \<open>What the loop over the claimed steps ends with: the run failed, or all were visited, with or without progress.\<close>

datatype batch = RunOver | Visited bool

fun run_ready ::
    "loom_lib \<Rightarrow> loom_world \<Rightarrow> loom_run \<Rightarrow> loom_step list \<Rightarrow> bool \<Rightarrow> engine \<Rightarrow> engine \<times> (loom_error + batch)" where
  "run_ready L W rn [] progress st = (st, Inr (Visited progress))"
| "run_ready L W rn (s # ready) progress st =
     (case visit_step L W rn s st of
        (st, Inl e) \<Rightarrow> (st, Inl e)
      | (st, Inr NotRun) \<Rightarrow> run_ready L W rn ready progress st
      | (st, Inr Ran) \<Rightarrow> run_ready L W rn ready True st
      | (st, Inr EndedRun) \<Rightarrow> (st, Inr RunOver))"

text \<open>The loop itself; that it ends is the theorem \<open>advance_terminates\<close>.\<close>

partial_function (option) advance_inner ::
    "loom_lib \<Rightarrow> loom_world \<Rightarrow> uuid \<Rightarrow> engine \<Rightarrow> (engine \<times> (loom_error + unit)) option" where
  "advance_inner L W rid st =
     (case locked L W (claim_pass L (now_of W st) (lw_step_clock W (en_tick st)) rid) st of (st, reply) \<Rightarrow>
      case reply of
        Inl e \<Rightarrow> Some (st, Inl e)
      | Inr p \<Rightarrow>
     case p of
        pass.RunOver \<Rightarrow> Some (st, Inr ())
      | Again \<Rightarrow> advance_inner L W rid st
      | Finished rn \<Rightarrow> Some (emit (RunCompleted rid) (rn_tenant rn) (rn_principal rn) st, Inr ())
      | Claimed rn ready \<Rightarrow>
          (case run_ready L W rn ready False st of (st, done) \<Rightarrow>
           case done of
             Inl e \<Rightarrow> Some (st, Inl e)
           | Inr b \<Rightarrow> (case b of
               RunOver \<Rightarrow> Some (st, Inr ())
             | Visited progress \<Rightarrow> if progress then advance_inner L W rid st else Some (st, Inr ()))))"


section \<open>The methods\<close>

text \<open>A read under the lock.\<close>

definition peek :: "loom_lib \<Rightarrow> loom_world \<Rightarrow> (loom_db \<Rightarrow> 'r) \<Rightarrow> engine \<Rightarrow> engine \<times> 'r" where
  "peek L W f = locked L W (\<lambda>db. (db, f db))"

definition read_step :: "loom_lib \<Rightarrow> loom_world \<Rightarrow> int \<Rightarrow> engine \<Rightarrow> engine \<times> (loom_error + loom_step)" where
  "read_step L W sid st =
     (case peek L W (get_step_with_run L sid) st of
        (st, Inl e) \<Rightarrow> (st, Inl e)
      | (st, Inr None) \<Rightarrow> (st, Inl (StepNotFound sid))
      | (st, Inr (Some (s, rn))) \<Rightarrow> (st, Inr s))"

text \<open>After an advance that returned: go on, or pass its error on.\<close>

definition after_advance ::
    "(engine \<times> (loom_error + unit)) option \<Rightarrow> (engine \<Rightarrow> engine \<times> (loom_error + 'a)) \<Rightarrow> (engine \<times> (loom_error + 'a)) option" where
  "after_advance m k = (case m of
     None \<Rightarrow> None
   | Some (st, Inl e) \<Rightarrow> Some (st, Inl e)
   | Some (st, Inr _) \<Rightarrow> Some (k st))"

definition create_run ::
    "loom_lib \<Rightarrow> loom_world \<Rightarrow> uuid \<Rightarrow> uuid \<Rightarrow> uuid \<Rightarrow> uuid \<Rightarrow> json option \<Rightarrow> engine \<Rightarrow>
     (engine \<times> (loom_error + loom_run)) option" where
  "create_run L W rid tenant p wid input st =
     (if (case input of Some (JObject es) \<Rightarrow> False | Some v \<Rightarrow> True | None \<Rightarrow> False)
      then Some (st, Inl (InvalidInput ''input must be a JSON object''))
      else case locked L W (insert_run L (now_of W st) rid tenant p wid input) st of
        (st, Inl e) \<Rightarrow> Some (st, Inl e)
      | (st, Inr (rn, name)) \<Rightarrow>
          after_advance (advance_inner L W rid (emit (RunCreated rid wid name) tenant p st))
            (\<lambda>st. case peek L W (get_run L tenant p rid) st of
               (st, Inl e) \<Rightarrow> (st, Inl e)
             | (st, Inr None) \<Rightarrow> (st, Inl (RunNotFound rid))
             | (st, Inr (Some rn)) \<Rightarrow> (st, Inr rn)))"

definition cancel_run ::
    "loom_lib \<Rightarrow> loom_world \<Rightarrow> uuid \<Rightarrow> uuid \<Rightarrow> uuid \<Rightarrow> engine \<Rightarrow> engine \<times> (loom_error + bool)" where
  "cancel_run L W tenant p rid st =
     (case locked L W (cancel_run_in L (now_of W st) tenant p rid) st of
        (st, Inl e) \<Rightarrow> (st, Inl e)
      | (st, Inr None) \<Rightarrow> (st, Inr False)
      | (st, Inr (Some rn)) \<Rightarrow> (emit (RunCancelled rid) (rn_tenant rn) (rn_principal rn) st, Inr True))"

text \<open>A step of a run of the caller, else \<open>StepNotFound\<close>.\<close>

definition own_step ::
    "loom_lib \<Rightarrow> uuid \<Rightarrow> uuid \<Rightarrow> int \<Rightarrow> loom_db \<Rightarrow> loom_error + loom_step \<times> loom_run" where
  "own_step L tenant p sid db =
     (case get_step_with_run L sid db of
        Inl e \<Rightarrow> Inl e
      | Inr None \<Rightarrow> Inl (StepNotFound sid)
      | Inr (Some (s, rn)) \<Rightarrow> if owned tenant p rn then Inr (s, rn) else Inl (StepNotFound sid))"

definition complete_step ::
    "loom_lib \<Rightarrow> loom_world \<Rightarrow> uuid \<Rightarrow> uuid \<Rightarrow> int \<Rightarrow> int \<Rightarrow> int \<Rightarrow> json \<Rightarrow> engine \<Rightarrow> (engine \<times> (loom_error + loom_step)) option" where
  "complete_step L W tenant p sid retry started out st =
     (case peek L W (own_step L tenant p sid) st of
        (st, Inl e) \<Rightarrow> Some (st, Inl e)
      | (st, Inr (s, rn)) \<Rightarrow>
     case complete_step_inner L W s rn retry started out st of
        (st, Inl e) \<Rightarrow> Some (st, Inl e)
      | (st, Inr t) \<Rightarrow>
          if t = CompletedNow then after_advance (advance_inner L W (sp_run s) st) (read_step L W sid)
          else if t = Stale
          then Some (st, Inl (InvalidInput (''cannot complete step '' @ i64_text sid @ '': attempt is no longer active'')))
          else Some (st, Inl (unexpected_completion t)))"

definition fail_step ::
    "loom_lib \<Rightarrow> loom_world \<Rightarrow> uuid \<Rightarrow> uuid \<Rightarrow> int \<Rightarrow> int \<Rightarrow> int \<Rightarrow> string \<Rightarrow> engine \<Rightarrow> (engine \<times> (loom_error + loom_step)) option" where
  "fail_step L W tenant p sid retry started message st =
     (case peek L W (own_step L tenant p sid) st of
        (st, Inl e) \<Rightarrow> Some (st, Inl e)
      | (st, Inr (s, rn)) \<Rightarrow>
     case fail_step_inner L W s rn retry started message st of
        (st, Inl e) \<Rightarrow> Some (st, Inl e)
      | (st, Inr t) \<Rightarrow>
          if t = Retrying \<or> t = FailedNow then after_advance (advance_inner L W (sp_run s) st) (read_step L W sid)
          else if t = Stale
          then Some (st, Inl (InvalidInput (''cannot fail step '' @ i64_text sid @ '': attempt is no longer active'')))
          else Some (st, Inl (unexpected_failure t)))"

definition advance_run ::
    "loom_lib \<Rightarrow> loom_world \<Rightarrow> uuid \<Rightarrow> uuid \<Rightarrow> uuid \<Rightarrow> engine \<Rightarrow> (engine \<times> (loom_error + unit)) option" where
  "advance_run L W tenant p rid st =
     (case peek L W (get_run_any L rid) st of
        (st, Inl e) \<Rightarrow> Some (st, Inl e)
      | (st, Inr None) \<Rightarrow> Some (st, Inl (RunNotFound rid))
      | (st, Inr (Some rn)) \<Rightarrow>
          if owned tenant p rn then advance_inner L W rid st else Some (st, Inl (RunNotFound rid)))"


section \<open>The timeout sweep\<close>

fun with_runs :: "loom_lib \<Rightarrow> loom_db \<Rightarrow> step_row list \<Rightarrow> loom_error + (loom_step \<times> loom_run) list" where
  "with_runs L db [] = Inr []"
| "with_runs L db (r # rs) =
     (case into_step L r of
        Inl e \<Rightarrow> Inl e
      | Inr s \<Rightarrow>
     case get_run_any L (sp_run s) db of
        Inl e \<Rightarrow> Inl e
      | Inr None \<Rightarrow> Inl (Backend (''step '' @ i64_text (sp_id s) @ '' has no run''))
      | Inr (Some rn) \<Rightarrow> (case with_runs L db rs of Inl e \<Rightarrow> Inl e | Inr ps \<Rightarrow> Inr ((s, rn) # ps)))"

definition running_steps :: "loom_lib \<Rightarrow> loom_db \<Rightarrow> loom_error + (loom_step \<times> loom_run) list" where
  "running_steps L db = with_runs L db (filter (\<lambda>s. sp_status s = Running \<and> sp_started_at s \<noteq> None) (ld_steps db))"

definition overdue :: "int \<Rightarrow> loom_step \<Rightarrow> bool" where
  "overdue now s \<longleftrightarrow> (case sp_started_at s of None \<Rightarrow> False | Some started \<Rightarrow> sp_timeout_ms s * 1000000 < now - started)"

definition timeout_message :: "loom_step \<Rightarrow> string" where
  "timeout_message s = ''step timed out after '' @ i64_text (sp_timeout_ms s) @ ''ms''"

fun sweep_timeout_candidates ::
    "loom_lib \<Rightarrow> loom_world \<Rightarrow> int \<Rightarrow> (loom_step \<times> loom_run) list \<Rightarrow> engine \<Rightarrow> (engine \<times> (loom_error + loom_step list)) option" where
  "sweep_timeout_candidates L W now [] st = Some (st, Inr [])"
| "sweep_timeout_candidates L W now ((s, rn) # cs) st =
     (if \<not> overdue now s then sweep_timeout_candidates L W now cs st
      else case fail_step_inner L W s rn (sp_retry_count s) (the (sp_started_at s)) (timeout_message s) st of
        (st, Inl e) \<Rightarrow> Some (st, Inl e)
      | (st, Inr t) \<Rightarrow>
          if t = Stale then sweep_timeout_candidates L W now cs st
          else if t = CompletedNow
          then Some (st, Inl (Backend (''timeout failure for step '' @ i64_text (sp_id s) @ '' completed the attempt'')))
          else case after_advance (advance_inner L W (sp_run s) st) (read_step L W (sp_id s)) of
            None \<Rightarrow> None
          | Some (st, Inl e) \<Rightarrow> Some (st, Inl e)
          | Some (st, Inr s') \<Rightarrow>
              (case sweep_timeout_candidates L W now cs st of
                 None \<Rightarrow> None
               | Some (st, Inl e) \<Rightarrow> Some (st, Inl e)
               | Some (st, Inr ss) \<Rightarrow> Some (st, Inr (s' # ss))))"

definition sweep_timeouts :: "loom_lib \<Rightarrow> loom_world \<Rightarrow> engine \<Rightarrow> (engine \<times> (loom_error + loom_step list)) option" where
  "sweep_timeouts L W st =
     (case peek L W (running_steps L) st of
        (st, Inl e) \<Rightarrow> Some (st, Inl e)
      | (st, Inr cs) \<Rightarrow> sweep_timeout_candidates L W (now_of W st) cs st)"


section \<open>Listings\<close>

definition MAX_LIST_LIMIT :: nat where "MAX_LIST_LIMIT = 500"

definition bounded_list_limit :: "nat option \<Rightarrow> nat" where
  "bounded_list_limit requested = min (case requested of Some n \<Rightarrow> n | None \<Rightarrow> MAX_LIST_LIMIT) MAX_LIST_LIMIT"

fun all_ok :: "(loom_error + 'a) list \<Rightarrow> loom_error + 'a list" where
  "all_ok [] = Inr []"
| "all_ok (r # rs) = (case r of Inl e \<Rightarrow> Inl e | Inr x \<Rightarrow> (case all_ok rs of Inl e \<Rightarrow> Inl e | Inr xs \<Rightarrow> Inr (x # xs)))"

text \<open>The order of equal timestamps is left to the database (here: by position).\<close>

definition list_workflows :: "loom_lib \<Rightarrow> uuid \<Rightarrow> uuid \<Rightarrow> loom_db \<Rightarrow> loom_error + workflow list" where
  "list_workflows L tenant p db = all_ok (map (into_workflow L) (take (bounded_list_limit None)
     (newest_first wf_updated_at (filter (\<lambda>r. wf_tenant r = tenant \<and> wf_principal r = p) (ld_workflows db)))))"

record run_filter =
  rf_workflow :: "uuid option"
  rf_status :: "run_status option"
  rf_limit :: "nat option"
  rf_offset :: "nat option"

definition list_runs :: "loom_lib \<Rightarrow> uuid \<Rightarrow> uuid \<Rightarrow> run_filter \<Rightarrow> loom_db \<Rightarrow> loom_error + loom_run list" where
  "list_runs L tenant p f db =
     (if (case rf_offset f of Some n \<Rightarrow> 2 ^ 63 \<le> int n | None \<Rightarrow> False) then Inl (Backend ''datatype mismatch'') else all_ok (map (into_run L) (take (bounded_list_limit (rf_limit f))
     (drop (case rf_offset f of Some n \<Rightarrow> n | None \<Rightarrow> 0)
       (newest_first rn_created_at (filter (\<lambda>r. rn_tenant r = tenant \<and> rn_principal r = p \<and>
          (case rf_workflow f of Some w \<Rightarrow> rn_workflow r = w | None \<Rightarrow> True) \<and>
          (case rf_status f of Some st \<Rightarrow> rn_status r = st | None \<Rightarrow> True)) (ld_runs db)))))))"

record log_entry = log_row +
  lg_value :: json

definition into_log :: "loom_lib \<Rightarrow> log_row \<Rightarrow> loom_error + log_entry" where
  "into_log L r = (case ll_json_parse L (lg_data r) of
     None \<Rightarrow> Inl (Backend (''corrupt log data: '' @ ll_parse_error L (lg_data r)))
   | Some v \<Rightarrow> Inr (log_row.extend r \<lparr> lg_value = v \<rparr>))"

definition logs :: "loom_lib \<Rightarrow> uuid \<Rightarrow> uuid \<Rightarrow> uuid \<Rightarrow> nat \<Rightarrow> loom_db \<Rightarrow> loom_error + log_entry list" where
  "logs L tenant p rid limit db = all_ok (map (into_log L) (take (bounded_list_limit (Some limit))
     (filter (\<lambda>l. lg_run l = rid \<and> list_ex (\<lambda>r. rn_id r = lg_run l \<and> rn_tenant r = tenant \<and> rn_principal r = p) (ld_runs db))
       (ld_logs db))))"

record loom_stats =
  st_workflows :: nat
  st_runs :: nat
  st_active :: nat
  st_by_status :: "(string \<times> nat) list"

text \<open>Grouped by status, in the order of the tokens; a status without runs has no group.\<close>

definition stats :: "uuid \<Rightarrow> uuid \<Rightarrow> loom_db \<Rightarrow> loom_stats" where
  "stats tenant p db =
     (let mine = filter (\<lambda>r. rn_tenant r = tenant \<and> rn_principal r = p) (ld_runs db);
          of_status = (\<lambda>st. length (filter (\<lambda>r. rn_status r = st) mine));
          groups = filter (\<lambda>(st, n). n \<noteq> 0) (map (\<lambda>st. (st, of_status st))
            [Cancelled, run_status.Completed, run_status.Failed, run_status.Pending, run_status.Running]) in
      \<lparr> st_workflows = length (filter (\<lambda>w. wf_tenant w = tenant \<and> wf_principal w = p) (ld_workflows db)),
        st_runs = sum_list (map snd groups), st_active = sum_list (map snd (filter (\<lambda>(st, n). active st) groups)),
        st_by_status = map (\<lambda>(st, n). (run_status_as_str st, n)) groups \<rparr>)"

end
