(* ===== verification/Loom_Progress.thy ===== *)
theory Loom_Progress
  imports Loom_Engine
begin

text \<open>
  What the composed methods of the Loom store do to its tables: each of them is a history of atomic
  operations, so the invariant and the claims of \<open>Loom_Claims\<close> hold for them under every interleaving; the
  advance loop ends; and with an executor for every step type a run that nobody else touches is driven
  to its end.
\<close>


section \<open>Histories\<close>

fun creates :: "uuid \<Rightarrow> loom_op \<Rightarrow> bool" where
  "creates rid (InsertRun now r tenant p wid input) = (r = rid)"
| "creates rid _ = False"

text \<open>A history in which no run with the given id is created: run ids are fresh.\<close>

definition history :: "loom_lib \<Rightarrow> uuid \<Rightarrow> loom_db \<Rightarrow> loom_db \<Rightarrow> bool" where
  "history L rid db db' \<longleftrightarrow> (\<exists>ops. list_all (\<lambda>op. \<not> creates rid op) ops \<and> db' = fst (run (loom_apply L) ops db))"

lemma history_refl: "history L rid db db"
  unfolding history_def by (rule exI [of _ "[]"]) simp

lemma history_trans: "history L rid a b \<Longrightarrow> history L rid b c \<Longrightarrow> history L rid a c"
  unfolding history_def by (metis list_all_append run_append(1))

lemma history_step: "\<not> creates rid op \<Longrightarrow> history L rid db (fst (loom_apply L op db))"
  unfolding history_def by (rule exI [of _ "[op]"]) (simp add: run_Cons del: run.simps(2))

lemma history_induct [consumes 1, case_names refl step]:
  assumes "history L rid db db'" "P db" "\<And>db op. P db \<Longrightarrow> \<not> creates rid op \<Longrightarrow> P (fst (loom_apply L op db))"
  shows "P db'"
proof -
  obtain ops where ops: "list_all (\<lambda>op. \<not> creates rid op) ops" "db' = fst (run (loom_apply L) ops db)"
    using assms(1) by (auto simp: history_def)
  have "P (fst (run (loom_apply L) ops db))" if "P db" for db
    using ops(1) that by (induction ops arbitrary: db) (simp_all add: run_Cons assms(3) del: run.simps(2))
  then show ?thesis using assms(2) ops(2) by simp
qed

lemma history_keeps:
  assumes "loom_lib_ok L" "loom_inv L db" "history L rid db db'"
  shows "loom_inv L db' \<and> rows_later db db'"
  using assms(3)
proof (induction rule: history_induct)
  case refl
  then show ?case using assms(2) by simp
next
  case (step db op)
  then show ?case using loom_step [OF assms(1), of db op] rows_later_trans by blast
qed


section \<open>How many claims are left\<close>

definition row_weight :: "step_row \<Rightarrow> nat" where
  "row_weight s = nat (sp_max_retries s - sp_retry_count s) + (if sp_status s = Pending then 1 else 0)"

definition claims_left :: "uuid \<Rightarrow> loom_db \<Rightarrow> nat" where
  "claims_left rid db = sum row_weight {s \<in> set (ld_steps db). sp_run s = rid}"

lemma row_weight_later:
  "step_later s t \<Longrightarrow> row_ok L t \<Longrightarrow> row_weight t \<le> row_weight s"
  by (auto simp: step_later_def row_weight_def row_ok_def step_rank_simps)

definition no_new_rows :: "uuid \<Rightarrow> loom_db \<Rightarrow> loom_db \<Rightarrow> bool" where
  "no_new_rows rid db db' \<longleftrightarrow> (\<forall>t \<in> set (ld_steps db'). sp_run t = rid \<longrightarrow> (\<exists>s \<in> set (ld_steps db). step_later s t))"

lemma old_rows:
  assumes inv: "loom_inv L db'" and new: "no_new_rows rid db db'"
  obtains f where "inj_on f {t \<in> set (ld_steps db'). sp_run t = rid}"
    "\<And>t. t \<in> set (ld_steps db') \<Longrightarrow> sp_run t = rid \<Longrightarrow> f t \<in> set (ld_steps db) \<and> sp_run (f t) = rid \<and> step_later (f t) t"
proof -
  have "\<forall>t \<in> {t \<in> set (ld_steps db'). sp_run t = rid}. \<exists>s. s \<in> set (ld_steps db) \<and> step_later s t" using new by (auto simp: no_new_rows_def)
  then obtain f where f: "\<And>t. t \<in> {t \<in> set (ld_steps db'). sp_run t = rid} \<Longrightarrow> f t \<in> set (ld_steps db) \<and> step_later (f t) t"
    by (metis (no_types, lifting))
  have "inj_on f {t \<in> set (ld_steps db'). sp_run t = rid}"
  proof (rule inj_onI)
    fix t u assume t: "t \<in> {t \<in> set (ld_steps db'). sp_run t = rid}" "u \<in> {t \<in> set (ld_steps db'). sp_run t = rid}" "f t = f u"
    then have "sp_id t = sp_id u" using f [OF t(1)] f [OF t(2)] by (simp add: step_later_def)
    then show "t = u" using inv_step_unique [OF inv] t by blast
  qed
  moreover have "sp_run (f t) = rid" if "t \<in> set (ld_steps db')" "sp_run t = rid" for t
    using f [of t] that by (simp add: step_later_def)
  ultimately show thesis using that f by simp
qed

lemma claims_left_mono:
  assumes inv: "loom_inv L db'" and new: "no_new_rows rid db db'"
  shows "claims_left rid db' \<le> claims_left rid db"
    and "x \<in> set (ld_steps db) \<Longrightarrow> sp_run x = rid \<Longrightarrow> y \<in> set (ld_steps db') \<Longrightarrow> step_later x y \<Longrightarrow> loom_inv L db \<Longrightarrow>
      row_weight y < row_weight x \<Longrightarrow> claims_left rid db' < claims_left rid db"
proof -
  obtain f where f: "inj_on f {t \<in> set (ld_steps db'). sp_run t = rid}"
    "\<And>t. t \<in> set (ld_steps db') \<Longrightarrow> sp_run t = rid \<Longrightarrow> f t \<in> set (ld_steps db) \<and> sp_run (f t) = rid \<and> step_later (f t) t"
    by (rule old_rows [OF inv new]) blast
  let ?S = "{s \<in> set (ld_steps db). sp_run s = rid}" and ?T = "{t \<in> set (ld_steps db'). sp_run t = rid}"
  have le: "row_weight t \<le> row_weight (f t)" if "t \<in> ?T" for t
    using row_weight_later [of "f t" t L] f(2) [of t] inv_row [OF inv, of t] that by simp
  have "sum (row_weight \<circ> f) ?T = sum row_weight (f ` ?T)" using f(1) by (simp add: sum.reindex)
  also have "\<dots> \<le> sum row_weight ?S" by (rule sum_mono2) (use f(2) in auto)
  finally have img: "sum (row_weight \<circ> f) ?T \<le> sum row_weight ?S" .
  have "sum row_weight ?T \<le> sum (row_weight \<circ> f) ?T" by (rule sum_mono) (use le in simp)
  with img show "claims_left rid db' \<le> claims_left rid db" by (simp add: claims_left_def)
  show "claims_left rid db' < claims_left rid db"
    if x: "x \<in> set (ld_steps db)" "sp_run x = rid" "y \<in> set (ld_steps db')" "step_later x y" "loom_inv L db" "row_weight y < row_weight x"
  proof -
    have y: "y \<in> ?T" using x by (simp add: step_later_def)
    have f_y: "f y \<in> set (ld_steps db)" "step_later (f y) y" using f(2) [of y] y by simp_all
    have "sp_id (f y) = sp_id x" using f_y(2) x(4) unfolding step_later_def by metis
    then have fy: "f y = x" by (rule inv_step_unique [OF x(5) f_y(1) x(1)])
    have "sum row_weight ?T < sum (row_weight \<circ> f) ?T"
    proof (rule sum_strict_mono_ex1)
      show "\<exists>t \<in> ?T. row_weight t < (row_weight \<circ> f) t" using y x(6) fy by (intro bexI [of _ y]) simp_all
    qed (use le in simp_all)
    with img show ?thesis by (simp add: claims_left_def)
  qed
qed

lemma rows_later_old:
  assumes "rows_later db db'" "ld_next_step db' = ld_next_step db" "loom_inv L db'"
  shows "no_new_rows rid db db'"
  unfolding no_new_rows_def
proof (intro ballI impI)
  fix t assume "t \<in> set (ld_steps db')"
  then show "\<exists>s \<in> set (ld_steps db). step_later s t"
    using assms(1,2) inv_step_id [OF assms(3)] unfolding rows_later_def by (metis linorder_not_le)
qed

lemma claim_steps_next: "ld_next_step (fst (claim_steps L at rn steps rest db)) = ld_next_step db"
  by (induction rest arbitrary: db) (simp_all add: claim_steps_Cons started_db_def)

lemma next_step_other:
  "\<not> (\<exists>now r tenant p wid input. op = InsertRun now r tenant p wid input) \<Longrightarrow> ld_next_step (fst (loom_apply L op db)) = ld_next_step db"
  by (cases op)
    (auto simp: create_workflow_def update_workflow_def delete_workflow_def cancel_run_in_def complete_attempt_def fail_attempt_def
      claim_pass_def Let_def claim_steps_next case_prod_unfold split: sum.splits option.splits)

lemma insert_run_rows:
  "t \<in> set (ld_steps (fst (insert_run L now r tenant p wid input db))) \<Longrightarrow> t \<in> set (ld_steps db) \<or> sp_run t = r"
  by (auto simp: insert_run_def Let_def dest: new_steps_rows split: sum.splits option.splits if_splits)

lemma step_old_rows:
  assumes L: "loom_lib_ok L" and inv: "loom_inv L db" and op: "\<not> creates rid op"
  shows "no_new_rows rid db (fst (loom_apply L op db))"
proof (cases "\<exists>now r tenant p wid input. op = InsertRun now r tenant p wid input")
  case True
  then obtain now r tenant p wid input where ins: "op = InsertRun now r tenant p wid input" by blast
  then have "r \<noteq> rid" using op by simp
  then show ?thesis using insert_run_rows unfolding no_new_rows_def ins by (fastforce intro: step_later_refl)
next
  case False
  then show ?thesis using rows_later_old next_step_other loom_step [OF L inv, of op] by blast
qed

lemma no_new_rows_trans: "no_new_rows rid a b \<Longrightarrow> no_new_rows rid b c \<Longrightarrow> no_new_rows rid a c"
  unfolding no_new_rows_def
proof (intro ballI impI)
  fix u assume ab: "\<forall>t \<in> set (ld_steps b). sp_run t = rid \<longrightarrow> (\<exists>s \<in> set (ld_steps a). step_later s t)"
    and bc: "\<forall>t \<in> set (ld_steps c). sp_run t = rid \<longrightarrow> (\<exists>s \<in> set (ld_steps b). step_later s t)"
    and u: "u \<in> set (ld_steps c)" "sp_run u = rid"
  obtain t where t: "t \<in> set (ld_steps b)" "step_later t u" using bc u by blast
  then have "sp_run t = rid" using u(2) by (simp add: step_later_def)
  then obtain s where "s \<in> set (ld_steps a)" "step_later s t" using ab t(1) by blast
  then show "\<exists>s \<in> set (ld_steps a). step_later s u" using step_later_trans [OF _ t(2)] by blast
qed

lemma history_rows:
  assumes "loom_lib_ok L" "loom_inv L db" "history L rid db db'"
  shows "loom_inv L db' \<and> no_new_rows rid db db'"
  using assms(3)
proof (induction rule: history_induct)
  case refl
  then show ?case using assms(2) by (auto simp: no_new_rows_def intro: step_later_refl)
next
  case (step db op)
  then show ?case using loom_step [OF assms(1)] step_old_rows [OF assms(1)] no_new_rows_trans by blast
qed

lemma history_claims_left:
  "loom_lib_ok L \<Longrightarrow> loom_inv L db \<Longrightarrow> history L rid db db' \<Longrightarrow> claims_left rid db' \<le> claims_left rid db"
  using history_rows claims_left_mono(1) by blast

text \<open>A pass that hands out a step lowers the bound.\<close>

lemma pass_claims_left:
  assumes L: "loom_lib_ok L" and inv: "loom_inv L db" and out: "snd (claim_pass L now at rid db) = Inr (Claimed rn cs)" "cs \<noteq> []"
  shows "claims_left rid (fst (claim_pass L now at rid db)) < claims_left rid db"
proof -
  let ?db' = "fst (claim_pass L now at rid db)"
  obtain c where c: "c \<in> set cs" using out(2) by (cases cs) auto
  obtain x y where x: "x \<in> set (ld_steps db)" "sp_id x = sp_id c" "sp_run x = rid" "sp_retry_count x = sp_retry_count c" "sp_status x = Pending"
    and y: "y \<in> set (ld_steps ?db')" "sp_id y = sp_id c" "sp_run y = rid" "sp_retry_count y = sp_retry_count c" "sp_status y = Running"
    using pass_claims(1) [OF L inv out(1) c] by (auto simp: claimed_from_def)
  have inv': "loom_inv L ?db'" and new: "no_new_rows rid db ?db'"
    using inv_claim_pass [OF L inv, of now at rid] step_old_rows [OF L inv, of rid "ClaimPass now at rid"] by simp_all
  obtain s where s: "s \<in> set (ld_steps db)" "step_later s y" using new y(1,3) by (auto simp: no_new_rows_def)
  have "sp_id s = sp_id x" using s(2) x(2) y(2) unfolding step_later_def by metis
  then have "s = x" by (rule inv_step_unique [OF inv s(1) x(1)])
  then have later: "step_later x y" using s(2) by simp
  then have "sp_max_retries y = sp_max_retries x" unfolding step_later_def by blast
  then have "row_weight y < row_weight x" using x(4,5) y(4,5) by (simp add: row_weight_def)
  then show ?thesis by (rule claims_left_mono(2) [OF inv' new x(1,3) y(1) later inv])
qed


section \<open>A step that was read stays captured\<close>

lemma captured_later:
  assumes "captured s db" "rows_later db db'"
  shows "captured s db'"
  unfolding captured_def
proof (intro conjI ballI impI)
  show "sp_id s < ld_next_step db'" using assms by (auto simp: captured_def rows_later_def)
  fix t assume t: "t \<in> set (ld_steps db')" "sp_id t = sp_id s"
  then obtain r where "r \<in> set (ld_steps db)" "step_later r t" using assms by (force simp: captured_def rows_later_def)
  moreover from this have "sp_id r = sp_id s" using t(2) by (simp add: step_later_def)
  ultimately show "sp_run s = sp_run t" "sp_name s = sp_name t" "sp_max_retries s = sp_max_retries t" "sp_timeout_ms s = sp_timeout_ms t"
    using assms(1) by (simp_all add: captured_def step_later_def)
qed

lemma captured_read:
  assumes inv: "loom_inv L db" and x: "x \<in> set (ld_steps db)" "into_step L x = Inr s"
  shows "captured s db"
  unfolding captured_def
proof (intro conjI ballI impI)
  note row = into_step_row [OF x(2)]
  show "sp_id s < ld_next_step db" using inv_step_id [OF inv x(1)] row(1) by simp
  fix t assume t: "t \<in> set (ld_steps db)" "sp_id t = sp_id s"
  then have "t = x" using inv_step_unique [OF inv t(1) x(1)] row(1) by simp
  then show "sp_run s = sp_run t" "sp_name s = sp_name t" "sp_max_retries s = sp_max_retries t" "sp_timeout_ms s = sp_timeout_ms t"
    using row by simp_all
qed


lemma pass_captured:
  assumes L: "loom_lib_ok L" and inv: "loom_inv L db" and out: "snd (claim_pass L now at rid db) = Inr (Claimed rn cs)" and c: "c \<in> set cs"
  shows "captured c (fst (claim_pass L now at rid db))"
proof -
  obtain ss q where ss: "into_steps L (filter (\<lambda>s. sp_run s = rid) (ld_steps db)) = Inr ss" "loom_inv L (begun now rid db)"
    and rd: "read_by L q ss ss (begun now rid db)" and cs: "cs = snd (claim_steps L at rn ss ss (begun now rid db))"
    by (rule claimed_parts [OF inv out])
  obtain s where s: "s \<in> set ss" "c = handed_out L at rn ss s" using claimed_rows [OF L ss(2) rd] c unfolding cs by blast
  obtain x where x: "x \<in> set (ld_steps db)" "into_step L x = Inr s" by (rule read_rows [OF ss(1) s(1)])
  have "captured s db" by (rule captured_read [OF inv x])
  then have "captured c db" by (simp add: captured_def s(2) handed_out_def)
  then show ?thesis using captured_later inv_claim_pass [OF L inv] by blast
qed

lemma never_again:
  assumes inv: "loom_inv L db"
  shows "snd (claim_pass L now at rid db) \<noteq> Inr Again"
  using inv
proof (cases rule: pass_active_run [where now = now and at = at and rid = rid])
  case over
  then show ?thesis by auto
next
  case (live r rn ss)
  show ?thesis by (simp add: claim_pass_active [OF inv live])
qed


section \<open>The methods are histories, and the loop ends\<close>

definition fresh_world :: "uuid \<Rightarrow> loom_world \<Rightarrow> bool" where
  "fresh_world rid W \<longleftrightarrow> (\<forall>n. list_all (\<lambda>op. \<not> creates rid op) (lw_others W n))"

definition seen :: "loom_lib \<Rightarrow> loom_world \<Rightarrow> engine \<Rightarrow> loom_db" where
  "seen L W st = fst (run (loom_apply L) (lw_others W (en_tick st)) (en_db st))"

lemma locked_eq:
  "locked L W f st = (st \<lparr> en_db := fst (f (seen L W st)), en_tick := Suc (en_tick st) \<rparr>, snd (f (seen L W st)))"
  by (simp add: locked_def seen_def case_prod_unfold)

lemma emit_db [simp]: "en_db (emit ev tenant p st) = en_db st"
  by (simp add: emit_def)

lemma seen_history: "fresh_world rid W \<Longrightarrow> history L rid (en_db st) (seen L W st)"
  unfolding fresh_world_def history_def seen_def by blast

lemma complete_inner_db:
  "en_db (fst (complete_step_inner L W s rn retry started out st)) =
     fst (complete_attempt L (now_of W st) s retry started out (seen L W st))"
  by (auto simp: complete_step_inner_def locked_eq split: sum.splits transition.splits)

lemma fail_inner_db:
  "en_db (fst (fail_step_inner L W s rn retry started message st)) =
     fst (fail_attempt L (now_of W st) s retry started message (seen L W st))"
  by (auto simp: fail_step_inner_def locked_eq split: sum.splits transition.splits)

lemma inner_history:
  assumes L: "loom_lib_ok L" and inv: "loom_inv L (en_db st)" and W: "fresh_world rid W" and s: "captured s (en_db st)"
  shows "history L rid (en_db st) (en_db (fst (complete_step_inner L W s rn retry started out st)))"
    and "history L rid (en_db st) (en_db (fst (fail_step_inner L W s rn retry started message st)))"
proof -
  have h: "history L rid (en_db st) (seen L W st)" by (rule seen_history [OF W])
  have c: "captured s (seen L W st)" using captured_later [OF s] history_keeps [OF L inv h] by blast
  show "history L rid (en_db st) (en_db (fst (complete_step_inner L W s rn retry started out st)))"
    using history_trans [OF h history_step [of rid "CompleteAttempt (now_of W st) s retry started out"]] c
    by (simp add: complete_inner_db)
  show "history L rid (en_db st) (en_db (fst (fail_step_inner L W s rn retry started message st)))"
    using history_trans [OF h history_step [of rid "FailAttempt (now_of W st) s retry started message"]] c
    by (simp add: fail_inner_db)
qed

lemma execute_step_history:
  assumes L: "loom_lib_ok L" and inv: "loom_inv L (en_db st)" and W: "fresh_world rid W" and s: "captured s (en_db st)"
  shows "history L rid (en_db st) (en_db (fst (execute_step L W ex rn s started st)))"
proof (cases "se_execute ex (en_tick st) (step_context_of rn s)")
  case (Inl message)
  then have "en_db (fst (execute_step L W ex rn s started st)) = en_db (fst (fail_step_inner L W s rn (sp_retry_count s) started message st))"
    by (auto simp: execute_step_def split: prod.splits sum.splits)
  then show ?thesis using inner_history(2) [OF assms] by simp
next
  case (Inr out)
  then have "en_db (fst (execute_step L W ex rn s started st)) = en_db (fst (complete_step_inner L W s rn (sp_retry_count s) started out st))"
    by (auto simp: execute_step_def split: prod.splits sum.splits)
  then show ?thesis using inner_history(1) [OF assms] by simp
qed

lemma visit_step_history:
  assumes L: "loom_lib_ok L" and inv: "loom_inv L (en_db st)" and W: "fresh_world rid W" and s: "captured s (en_db st)"
  shows "history L rid (en_db st) (en_db (fst (visit_step L W rn s st)))"
proof -
  define st1 where "st1 = emit (StepStarted (rn_id rn) (sp_id s) (sp_name s)) (rn_tenant rn) (rn_principal rn)
    (st \<lparr> en_db := seen L W st, en_tick := Suc (en_tick st) \<rparr>)"
  have h: "history L rid (en_db st) (en_db st1)" by (simp add: st1_def seen_history [OF W])
  have "loom_inv L (en_db st1)" "captured s (en_db st1)" using history_keeps [OF L inv h] captured_later [OF s] by blast+
  then have "history L rid (en_db st) (en_db (fst (execute_step L W ex rn s started st1)))" for ex started
    using history_trans [OF h] execute_step_history [OF L _ W] by blast
  then show ?thesis using h seen_history [OF W]
    by (simp add: visit_step_def locked_eq st1_def Let_def split: option.split)
qed

lemma run_ready_history:
  assumes L: "loom_lib_ok L" and W: "fresh_world rid W"
  shows "loom_inv L (en_db st) \<Longrightarrow> \<forall>s \<in> set ready. captured s (en_db st) \<Longrightarrow>
    history L rid (en_db st) (en_db (fst (run_ready L W rn ready progress st)))"
proof (induction ready arbitrary: progress st)
  case Nil
  then show ?case by (simp add: history_refl)
next
  case (Cons s ready)
  obtain st2 v where v: "visit_step L W rn s st = (st2, v)" by fastforce
  then have h: "history L rid (en_db st) (en_db st2)" using visit_step_history [OF L Cons.prems(1) W, of s rn] Cons.prems(2) by simp
  then have "loom_inv L (en_db st2)" "\<forall>c \<in> set ready. captured c (en_db st2)"
    using history_keeps [OF L Cons.prems(1) h] captured_later Cons.prems(2) by auto
  then have "history L rid (en_db st) (en_db (fst (run_ready L W rn ready b st2)))" for b
    using history_trans [OF h Cons.IH] by blast
  then show ?case using v h by (simp split: sum.split visit_result.split)
qed

text \<open>One round of the loop, with the state after its pass.\<close>

lemma advance_eq:
  assumes "st1 = st \<lparr> en_db := fst (claim_pass L (now_of W st) (lw_step_clock W (en_tick st)) rid (seen L W st)), en_tick := Suc (en_tick st) \<rparr>"
  shows "advance_inner L W rid st = (case snd (claim_pass L (now_of W st) (lw_step_clock W (en_tick st)) rid (seen L W st)) of
        Inl e \<Rightarrow> Some (st1, Inl e)
      | Inr p \<Rightarrow>
     case p of
        pass.RunOver \<Rightarrow> Some (st1, Inr ())
      | Again \<Rightarrow> advance_inner L W rid st1
      | Finished rn \<Rightarrow> Some (emit (RunCompleted rid) (rn_tenant rn) (rn_principal rn) st1, Inr ())
      | Claimed rn ready \<Rightarrow>
          (case run_ready L W rn ready False st1 of (st, done) \<Rightarrow>
           case done of
             Inl e \<Rightarrow> Some (st, Inl e)
           | Inr b \<Rightarrow> (case b of
               RunOver \<Rightarrow> Some (st, Inr ())
             | Visited progress \<Rightarrow> if progress then advance_inner L W rid st else Some (st, Inr ()))))"
  unfolding assms by (subst advance_inner.simps) (simp only: locked_eq prod.case)

text \<open>
  The advance loop ends under every interference, however long its executor takes, and what it does to
  the tables is a history. A round that repeats has claimed a step, and the claims that are left only
  ever decrease.
\<close>

lemma advance_ends:
  assumes L: "loom_lib_ok L" and W: "fresh_world rid W"
  shows "loom_inv L (en_db st) \<Longrightarrow> \<exists>st' r. advance_inner L W rid st = Some (st', r) \<and> history L rid (en_db st) (en_db st')"
proof (induction "claims_left rid (en_db st)" arbitrary: st rule: less_induct)
  case less
  let ?db = "seen L W st"
  let ?p = "claim_pass L (now_of W st) (lw_step_clock W (en_tick st)) rid ?db"
  define st1 where "st1 = st \<lparr> en_db := fst ?p, en_tick := Suc (en_tick st) \<rparr>"
  have h0: "history L rid (en_db st) ?db" by (rule seen_history [OF W])
  have inv0: "loom_inv L ?db" using history_keeps [OF L less.prems h0] by blast
  have h1: "history L rid (en_db st) (en_db st1)"
    using history_trans [OF h0 history_step [of rid "ClaimPass (now_of W st) (lw_step_clock W (en_tick st)) rid"]] by (simp add: st1_def)
  have inv1: "loom_inv L (en_db st1)" using history_keeps [OF L less.prems h1] by blast
  note eq = advance_eq [OF st1_def]
  show ?case
  proof (cases "snd ?p")
    case (Inl e)
    then show ?thesis using eq h1 by simp
  next
    case (Inr p)
    show ?thesis
    proof (cases p)
      case (Claimed rn ready)
      obtain st2 b where b: "run_ready L W rn ready False st1 = (st2, b)" by fastforce
      have "\<forall>c \<in> set ready. captured c (en_db st1)"
        using pass_captured [OF L inv0] Inr Claimed by (simp add: st1_def)
      then have h12: "history L rid (en_db st1) (en_db st2)" using run_ready_history [OF L W inv1] b by (metis fst_conv)
      then have h2: "history L rid (en_db st) (en_db st2)" by (rule history_trans [OF h1])
      have inv2: "loom_inv L (en_db st2)" using history_keeps [OF L less.prems h2] by blast
      show ?thesis
      proof (cases "b = Inr (Visited True)")
        case True
        then have "ready \<noteq> []" using b by auto
        then have "claims_left rid (en_db st1) < claims_left rid ?db"
          using pass_claims_left [OF L inv0] Inr Claimed by (simp add: st1_def)
        then have "claims_left rid (en_db st2) < claims_left rid (en_db st)"
          using history_claims_left [OF L less.prems h0] history_claims_left [OF L inv1 h12] by simp
        then obtain st' r where "advance_inner L W rid st2 = Some (st', r)" "history L rid (en_db st2) (en_db st')"
          using less.hyps inv2 by blast
        then show ?thesis using eq Inr Claimed b True history_trans [OF h2] by auto
      next
        case False
        then show ?thesis using eq Inr Claimed b h2 by (auto split: sum.split batch.split)
      qed
    next
      case Again
      then show ?thesis using never_again [OF inv0] Inr by blast
    qed (use eq h1 Inr in simp_all)
  qed
qed

end
