(* ===== verification/Loom_Readable.thy ===== *)
theory Loom_Readable
  imports Loom_Progress
begin

text \<open>
  Which runs of the Loom store can be read back. The JSON parser has a recursion limit, so a text that the
  store printed parses only if the value nests at most 127 levels. The operations on a run keep its rows
  readable as long as its input and the outputs of its steps stay within that limit; the merged inputs and
  outputs that the store builds itself do.
\<close>


section \<open>Nesting, and what is relied on\<close>

text \<open>The number of arrays and objects around the innermost value, these included.\<close>

fun json_nesting :: "json \<Rightarrow> nat"
  and items_nesting :: "json list \<Rightarrow> nat"
  and entries_nesting :: "(string \<times> json) list \<Rightarrow> nat" where
  "json_nesting (JArray xs) = Suc (items_nesting xs)"
| "json_nesting (JObject es) = Suc (entries_nesting es)"
| "json_nesting v = 0"
| "items_nesting [] = 0"
| "items_nesting (x # xs) = max (json_nesting x) (items_nesting xs)"
| "entries_nesting [] = 0"
| "entries_nesting ((k, v) # es) = max (json_nesting v) (entries_nesting es)"

lemma entries_nesting_le: "entries_nesting es \<le> n \<longleftrightarrow> (\<forall>e \<in> set es. json_nesting (snd e) \<le> n)"
  by (induction es) auto

text \<open>
  The recursion limit of \<open>serde_json\<close>: a printed value parses if it nests at most 127 levels (a float may come
  back as its neighbour), and what parses nests no deeper, also as a configuration within the steps of a
  workflow.
\<close>

definition json_reads_back :: "loom_lib \<Rightarrow> bool" where
  "json_reads_back L \<longleftrightarrow> (\<forall>v. json_nesting v \<le> 127 \<longrightarrow> ll_json_parse L (ll_json_text L v) \<noteq> None) \<and>
     (\<forall>t v. ll_json_parse L t = Some v \<longrightarrow> json_nesting v \<le> 127) \<and> ll_json_parse L empty_object \<noteq> None \<and>
     (\<forall>t ds d c. ll_steps_parse L t = Some ds \<longrightarrow> d \<in> set ds \<longrightarrow> sd_config d = Some c \<longrightarrow> json_nesting c \<le> 127)"

lemma reads_back:
  assumes "json_reads_back L"
  shows "json_nesting v \<le> 127 \<Longrightarrow> ll_json_parse L (ll_json_text L v) \<noteq> None"
    "ll_json_parse L t = Some v \<Longrightarrow> json_nesting v \<le> 127"
    "ll_json_parse L empty_object \<noteq> None"
    "ll_steps_parse L t = Some ds \<Longrightarrow> d \<in> set ds \<Longrightarrow> sd_config d = Some c \<Longrightarrow> json_nesting c \<le> 127"
  using assms unfolding json_reads_back_def by blast+


section \<open>Merged objects stay within the limit\<close>

definition within :: "nat \<Rightarrow> (string \<times> json) list \<Rightarrow> bool" where
  "within n es \<longleftrightarrow> (\<forall>e \<in> set es. json_nesting (snd e) \<le> n)"

lemma within_insert: "within n es \<Longrightarrow> json_nesting v \<le> n \<Longrightarrow> within n (btree_insert k v es)"
  using btree_insert_subset [of k v es] by (fastforce simp: within_def)

lemma within_inserts:
  "within n es \<Longrightarrow> within n xs \<Longrightarrow> within n (foldl (\<lambda>m (k, x). btree_insert k x m) es xs)"
proof (induction xs arbitrary: es)
  case (Cons x xs)
  obtain k v where x: "x = (k, v)" by fastforce
  have "within n (btree_insert k v es)" by (rule within_insert) (use Cons.prems in \<open>auto simp: x within_def\<close>)
  moreover have "within n xs" using Cons.prems(2) by (simp add: within_def)
  ultimately show ?case using Cons.IH by (simp add: x)
qed simp

lemma within_overlay: "within n es \<Longrightarrow> json_nesting v \<le> Suc n \<Longrightarrow> within n (overlay es v)"
  by (cases v) (simp_all add: overlay_def entries_nesting_le within_inserts flip: within_def)

lemma within_fold:
  "within n es \<Longrightarrow> (\<And>x m. x \<in> set xs \<Longrightarrow> within n m \<Longrightarrow> within n (f m x)) \<Longrightarrow> within n (foldl f es xs)"
  by (induction xs arbitrary: es) simp_all

lemma nesting_object: "within n es \<Longrightarrow> json_nesting (JObject es) \<le> Suc n"
  by (simp add: entries_nesting_le within_def)

lemma parsed_output:
  assumes "json_reads_back L" "into_step L x = Inr s"
  shows "json_nesting (sp_output s) \<le> 127"
  using assms(2) reads_back(2) [OF assms(1)] by (auto simp: into_step_def step_row.defs split: option.splits)

lemma parsed_input:
  assumes "json_reads_back L" "into_run L x = Inr rn"
  shows "json_nesting (rn_input rn) \<le> 127"
  using assms(2) reads_back(2) [OF assms(1)] by (auto simp: into_run_def run_row.defs split: option.splits)

lemma merged_nesting:
  assumes L: "json_reads_back L" and ss: "into_steps L (filter (\<lambda>s. sp_run s = rid) xs) = Inr ss"
  shows "into_run L r = Inr rn \<Longrightarrow> json_nesting (merged_input rn ss s) \<le> 127"
    "json_nesting (merged_output ss) \<le> 127"
proof -
  have out: "json_nesting (sp_output c) \<le> Suc 126" if "c \<in> set ss" for c
    using read_rows [OF ss that] parsed_output [OF L] by fastforce
  have "within 126 (foldl (\<lambda>m s. overlay m (sp_output s)) [] (filter (\<lambda>s. sp_status s = Completed) ss))"
    by (rule within_fold) (simp add: within_def, use out in \<open>auto intro: within_overlay\<close>)
  then show "json_nesting (merged_output ss) \<le> 127" using nesting_object by (force simp: merged_output_def)
  assume rn: "into_run L r = Inr rn"
  have "within 126 (foldl (\<lambda>m d. case step_named ss d of Some c \<Rightarrow> overlay m (sp_output c) | None \<Rightarrow> m)
      (overlay [] (rn_input rn)) (sp_depends_on s))"
  proof (rule within_fold)
    show "within 126 (overlay [] (rn_input rn))"
      by (rule within_overlay) (use parsed_input [OF L rn] in \<open>simp_all add: within_def\<close>)
    show "within 126 (case step_named ss d of Some c \<Rightarrow> overlay m (sp_output c) | None \<Rightarrow> m)" if "within 126 m" for d m
      using that out step_named_in by (auto intro: within_overlay split: option.split)
  qed
  then show "json_nesting (merged_input rn ss s) \<le> 127" using nesting_object by (force simp: merged_input_def)
qed


section \<open>Operations keep a run readable\<close>

text \<open>Of a row and its successor: each text is kept, or parses.\<close>

definition reads_on :: "loom_lib \<Rightarrow> step_row \<Rightarrow> step_row \<Rightarrow> bool" where
  "reads_on L s t \<longleftrightarrow> sp_run t = sp_run s \<and> sp_config_text t = sp_config_text s \<and> sp_depends_text t = sp_depends_text s \<and>
     (sp_input_text t = sp_input_text s \<or> ll_json_parse L (sp_input_text t) \<noteq> None) \<and>
     (sp_output_text t = sp_output_text s \<or> ll_json_parse L (sp_output_text t) \<noteq> None)"

definition run_reads_on :: "loom_lib \<Rightarrow> run_row \<Rightarrow> run_row \<Rightarrow> bool" where
  "run_reads_on L q r \<longleftrightarrow> rn_id r = rn_id q \<and> rn_input_text r = rn_input_text q \<and>
     (rn_output_text r = rn_output_text q \<or> ll_json_parse L (rn_output_text r) \<noteq> None)"

lemma reads_on_refl [simp]: "reads_on L s s" "run_reads_on L r r"
  by (simp_all add: reads_on_def run_reads_on_def)

lemma reads_on_ok: "reads_on L s t \<Longrightarrow> is_ok (into_step L s) \<Longrightarrow> is_ok (into_step L t)"
  by (auto simp: reads_on_def into_step_def split: option.splits)

lemma run_reads_on_ok: "run_reads_on L q r \<Longrightarrow> is_ok (into_run L q) \<Longrightarrow> is_ok (into_run L r)"
  by (auto simp: run_reads_on_def into_run_def split: option.splits)

lemma readable_map:
  assumes "readable L rid db" "ld_steps db' = map f (ld_steps db)" "ld_runs db' = map g (ld_runs db)"
    and f: "\<And>s. reads_on L s (f s)" and g: "\<And>r. run_reads_on L r (g r)"
  shows "readable L rid db'"
proof -
  have "sp_run (f s) = sp_run s" "rn_id (g r) = rn_id r" for s r using f g by (simp_all add: reads_on_def run_reads_on_def)
  then show ?thesis using assms(1-3) reads_on_ok [OF f] run_reads_on_ok [OF g] by (simp add: readable_def)
qed

lemma readable_complete:
  assumes L: "json_reads_back L" and out: "json_nesting out \<le> 127" and rd: "readable L rid db"
  shows "readable L rid (fst (complete_attempt L now s retry started out db))"
proof -
  have "readable L rid (db \<lparr> ld_steps := sql_update (current_attempt (sp_id s) retry started db) (\<lambda>x. x \<lparr> sp_status := Completed,
      sp_output_text := ll_json_text L out, sp_completed_at := Some now \<rparr>) (ld_steps db) \<rparr>)" (is "readable L rid ?db")
    by (rule readable_map [OF rd, of ?db "\<lambda>x. if current_attempt (sp_id s) retry started db x then x \<lparr> sp_status := Completed,
        sp_output_text := ll_json_text L out, sp_completed_at := Some now \<rparr> else x" id])
      (use reads_back(1) [OF L out] in \<open>auto simp: sql_update_def reads_on_def\<close>)
  then show ?thesis using rd by (simp add: complete_attempt_def Let_def readable_def)
qed

lemma readable_fail:
  assumes rd: "readable L rid db"
  shows "readable L rid (fst (fail_attempt L now s retry started message db))"
proof -
  let ?key = "current_attempt (sp_id s) retry started db"
  have again: "readable L rid (db \<lparr> ld_steps := sql_update ?key (\<lambda>x. x \<lparr> sp_status := Pending, sp_retry_count := sp_retry_count x + 1,
      sp_error := Some message, sp_started_at := None \<rparr>) (ld_steps db) \<rparr>)" (is "readable L rid ?db")
    by (rule readable_map [OF rd, of ?db "\<lambda>x. if ?key x then x \<lparr> sp_status := Pending, sp_retry_count := sp_retry_count x + 1,
        sp_error := Some message, sp_started_at := None \<rparr> else x" id]) (auto simp: sql_update_def reads_on_def)
  let ?f = "\<lambda>x. (\<lambda>x. if sp_run x = sp_run s \<and> sp_id x \<noteq> sp_id s \<and> unfinished (sp_status x)
      then x \<lparr> sp_status := Skipped, sp_completed_at := Some now \<rparr> else x)
    (if ?key x then x \<lparr> sp_status := Failed, sp_error := Some message, sp_completed_at := Some now \<rparr> else x)"
  have over: "readable L rid (db \<lparr> ld_steps := sql_update (\<lambda>x. sp_run x = sp_run s \<and> sp_id x \<noteq> sp_id s \<and> unfinished (sp_status x))
        (\<lambda>x. x \<lparr> sp_status := Skipped, sp_completed_at := Some now \<rparr>)
        (sql_update ?key (\<lambda>x. x \<lparr> sp_status := Failed, sp_error := Some message, sp_completed_at := Some now \<rparr>) (ld_steps db)),
      ld_runs := sql_update (\<lambda>r. rn_id r = sp_run s \<and> active (rn_status r)) (\<lambda>r. r \<lparr> rn_status := run_status.Failed,
        rn_error := Some message, rn_completed_at := Some now, rn_updated_at := now \<rparr>) (ld_runs db) \<rparr>)" (is "readable L rid ?db2")
    by (rule readable_map [OF rd, of ?db2 ?f "\<lambda>r. if rn_id r = sp_run s \<and> active (rn_status r) then r \<lparr> rn_status := run_status.Failed,
        rn_error := Some message, rn_completed_at := Some now, rn_updated_at := now \<rparr> else r"])
      (auto simp: sql_update_def reads_on_def run_reads_on_def)
  show ?thesis using rd again over by (simp add: fail_attempt_def Let_def readable_def)
qed

lemma readable_begun: "readable L rid db \<Longrightarrow> readable L rid (begun now r db)"
  by (rule readable_map [of L rid db _ id "\<lambda>q. if rn_id q = r \<and> rn_status q = run_status.Pending
      then q \<lparr> rn_status := run_status.Running, rn_started_at := Some now, rn_updated_at := now \<rparr> else q"])
    (auto simp: begun_def sql_update_def run_reads_on_def)

lemma readable_finished:
  assumes "json_reads_back L" "json_nesting (merged_output ss) \<le> 127" "readable L rid db"
  shows "readable L rid (finished_db L now r ss db)"
  by (rule readable_map [OF assms(3), of _ id "\<lambda>q. if rn_id q = r \<and> active (rn_status q) then q \<lparr> rn_status := run_status.Completed,
      rn_output_text := ll_json_text L (merged_output ss), rn_completed_at := Some now, rn_updated_at := now \<rparr> else q"])
    (use reads_back(1) [OF assms(1,2)] in \<open>auto simp: finished_db_def sql_update_def run_reads_on_def\<close>)

lemma readable_started:
  assumes "json_reads_back L" "json_nesting (merged_input rn ss s) \<le> 127" "readable L rid db"
  shows "readable L rid (started_db L at rn ss s db)"
  by (rule readable_map [OF assms(3), of _ "\<lambda>x. if claim_key (sp_id s) db x then x \<lparr> sp_status := Running,
      sp_input_text := ll_json_text L (merged_input rn ss s), sp_started_at := Some (at (sp_id s)) \<rparr> else x" id])
    (use reads_back(1) [OF assms(1,2)] in \<open>auto simp: started_db_def reads_on_def\<close>)

lemma readable_claims:
  assumes "json_reads_back L" "\<And>s. json_nesting (merged_input rn ss s) \<le> 127"
  shows "readable L rid db \<Longrightarrow> readable L rid (fst (claim_steps L at rn ss rest db))"
  by (induction rest arbitrary: db) (simp_all add: claim_steps_Cons readable_started [OF assms])

lemma readable_pass:
  assumes L: "json_reads_back L" and inv: "loom_inv L db" and rd: "readable L rid db"
  shows "readable L rid (fst (claim_pass L now at r db))"
  using inv
proof (cases rule: pass_active_run [where now = now and at = at and rid = r])
  case over
  then show ?thesis using rd by simp
next
  case (live q rn ss)
  note merged = merged_nesting [OF L live(5)]
  show ?thesis
    using readable_begun [OF rd] readable_finished [OF L merged(2)] readable_claims [OF L merged(1) [OF live(3)]]
    by (simp add: claim_pass_active [OF inv live])
qed

lemma readable_insert:
  assumes L: "loom_lib_ok L" "json_reads_back L" and inv: "loom_inv L db" and new: "snd (insert_run L now rid tenant p wid input db) = Inr x"
    and input: "\<And>v. input = Some v \<Longrightarrow> json_nesting v \<le> 127"
  shows "readable L rid (fst (insert_run L now rid tenant p wid input db))"
proof -
  obtain w where w: "get_workflow_in L tenant p wid db = Inr (Some w)" and fresh: "\<not> list_ex (\<lambda>r. rn_id r = rid) (ld_runs db)"
    using new by (auto simp: insert_run_def Let_def split: sum.splits option.splits if_splits)
  obtain t where "ll_steps_parse L t = Some (wf_steps w)"
    using w by (auto simp: get_workflow_in_def transposed_def into_workflow_def workflow_row.defs split: option.splits sum.splits)
  note config = reads_back(4) [OF L(2) this]
  have steps: "is_ok (into_step L s)" if s: "s \<in> set (new_steps L rid now n (wf_steps w))" for s n
  proof -
    obtain d where d: "d \<in> set (wf_steps w)" "s = new_step L rid now (sp_id s) d" using new_steps_rows [OF s] by blast
    have "json_nesting (case sd_config d of Some c \<Rightarrow> c | None \<Rightarrow> JObject []) \<le> 127" using config [OF d(1)] by (simp split: option.split)
    from reads_back(1) [OF L(2) this] have "is_ok (into_step L (new_step L rid now i d))" for i
      using reads_back(3) [OF L(2)] L(1) by (auto simp: into_step_def new_step_def loom_lib_ok_def split: option.splits)
    then show ?thesis using d(2) by metis
  qed
  have "json_nesting (case input of Some v \<Rightarrow> v | None \<Rightarrow> JObject []) \<le> 127" using input by (simp split: option.split)
  from reads_back(1) [OF L(2) this] have run: "is_ok (into_run L \<lparr> rn_id = rid, rn_workflow = wid, rn_tenant = tenant, rn_principal = p,
      rn_status = run_status.Pending, rn_input_text = ll_json_text L (case input of Some v \<Rightarrow> v | None \<Rightarrow> JObject []),
      rn_output_text = empty_object, rn_error = None, rn_started_at = None, rn_completed_at = None, rn_created_at = now, rn_updated_at = now \<rparr>)"
    using reads_back(3) [OF L(2)] by (auto simp: into_run_def split: option.splits)
  have old: "rn_id r \<noteq> rid" if "r \<in> set (ld_runs db)" for r using fresh that by (auto simp: list_ex_iff)
  have "\<exists>r \<in> set (ld_runs db). rn_id r = sp_run s" if "s \<in> set (ld_steps db)" for s
    using inv that unfolding loom_inv_def shape_ok_def by fastforce
  then have old_steps: "sp_run s \<noteq> rid" if "s \<in> set (ld_steps db)" for s using old that by metis
  have valid: "is_ok (validate_definition L (wf_steps w))" "wf_steps w \<noteq> []"
    using new by (auto simp: insert_run_def w Let_def split: sum.splits if_splits)
  let ?db = "fst (insert_run L now rid tenant p wid input db)"
  have "ld_steps ?db = ld_steps db @ new_steps L rid now (ld_next_step db) (wf_steps w)"
    "\<exists>row. ld_runs ?db = ld_runs db @ [row] \<and> is_ok (into_run L row)"
    using valid fresh run by (auto simp: insert_run_def w Let_def is_ok_iff)
  then obtain row where tables: "set (ld_steps ?db) = set (ld_steps db) \<union> set (new_steps L rid now (ld_next_step db) (wf_steps w))"
    "set (ld_runs ?db) = insert row (set (ld_runs db))" "is_ok (into_run L row)" by auto
  show ?thesis unfolding readable_def tables(1,2) using old old_steps steps tables(3) by blast
qed


section \<open>The owner of a run\<close>

definition owned_row :: "uuid \<Rightarrow> uuid \<Rightarrow> uuid \<Rightarrow> loom_db \<Rightarrow> bool" where
  "owned_row rid tenant p db \<longleftrightarrow> (\<forall>r \<in> set (ld_runs db). rn_id r = rid \<longrightarrow> rn_tenant r = tenant \<and> rn_principal r = p)"

lemma claim_steps_runs: "ld_runs (fst (claim_steps L at rn steps rest db)) = ld_runs db"
  by (induction rest arbitrary: db) (simp_all add: claim_steps_Cons)

lemma owned_row_step:
  assumes "owned_row rid tenant p db" "\<not> creates rid op"
  shows "owned_row rid tenant p (fst (loom_apply L op db))"
  using assms by (cases op)
    (auto simp: owned_row_def sql_update_def create_workflow_def update_workflow_def delete_workflow_def insert_run_def cancel_run_in_def
      complete_attempt_def fail_attempt_def claim_pass_def Let_def claim_steps_runs case_prod_unfold split: sum.splits option.splits)

lemma owned_row_history: "history L rid db db' \<Longrightarrow> owned_row rid tenant p db \<Longrightarrow> owned_row rid tenant p db'"
  by (induction rule: history_induct) (simp_all add: owned_row_step)

lemma owned_row_insert:
  "snd (insert_run L now rid tenant p wid input db) = Inr x \<Longrightarrow> owned_row rid tenant p (fst (insert_run L now rid tenant p wid input db))"
  by (auto simp: insert_run_def Let_def owned_row_def list_ex_iff split: sum.splits option.splits if_splits)

text \<open>A readable run is found by its owner.\<close>

lemma get_run_own:
  assumes "loom_inv L db" "readable L rid db" "owned_row rid tenant p db" "\<exists>r \<in> set (ld_runs db). rn_id r = rid"
  obtains r rn where "r \<in> set (ld_runs db)" "rn_id r = rid" "into_run L r = Inr rn" "get_run L tenant p rid db = Inr (Some rn)"
proof -
  obtain r where r: "r \<in> set (ld_runs db)" "rn_id r = rid" using assms(4) by blast
  then obtain rn where rn: "into_run L r = Inr rn" using assms(2) by (auto simp: readable_def is_ok_iff)
  have "find (\<lambda>x. rn_id x = rid \<and> rn_tenant x = tenant \<and> rn_principal x = p) (ld_runs db) = find (\<lambda>x. rn_id x = rn_id r) (ld_runs db)"
    using assms(3) r(2) by (intro find_cong) (auto simp: owned_row_def)
  also have "\<dots> = Some r" using assms(1) r(1) by (intro find_unique) (auto simp: loom_inv_def shape_ok_def)
  finally show thesis using that [OF r rn] rn by (simp add: get_run_def transposed_def)
qed

end
