(* ===== verification/Loom_Drive.thy ===== *)
theory Loom_Drive
  imports Loom_Readable
begin

text \<open>
  The properties of the composed methods of the Loom store: the advance loop ends under every
  interference, methods keep the invariant, listings are bounded and scoped to their caller, and with
  an executor for every step type a run that nobody else touches is driven to a terminal status.
\<close>


section \<open>Settling a current attempt\<close>

text \<open>A change that takes one step out of the running ones and leaves the other rows.\<close>

definition settles_only :: "int \<Rightarrow> loom_db \<Rightarrow> loom_db \<Rightarrow> bool" where
  "settles_only sid db db' \<longleftrightarrow> ld_runs db' = ld_runs db \<and>
     (\<forall>t \<in> set (ld_steps db'). if sp_id t = sid then sp_status t \<noteq> Running else t \<in> set (ld_steps db)) \<and>
     (\<forall>t \<in> set (ld_steps db). sp_id t \<noteq> sid \<longrightarrow> t \<in> set (ld_steps db'))"

lemma settles_only_map:
  assumes inv: "loom_inv L db" and y: "y \<in> set (ld_steps db)" "sp_id y = sid"
    and db': "ld_runs db' = ld_runs db" "ld_steps db' = map f (ld_steps db)"
    and f: "\<And>x. sp_id (f x) = sp_id x" "\<And>x. sp_id x \<noteq> sid \<Longrightarrow> f x = x" "sp_status (f y) \<noteq> Running"
  shows "settles_only sid db db'"
proof -
  have "x = y" if "x \<in> set (ld_steps db)" "sp_id x = sid" for x
    by (rule inv_step_unique [OF inv that(1) y(1)]) (simp add: that(2) y(2))
  then have "sp_status (f x) \<noteq> Running" if "x \<in> set (ld_steps db)" "sp_id x = sid" for x using that f(3) by blast
  moreover have "x \<in> f ` set (ld_steps db)" if "x \<in> set (ld_steps db)" "sp_id x \<noteq> sid" for x
    using f(2) [OF that(2)] that(1) by (metis imageI)
  ultimately show ?thesis unfolding settles_only_def db' using f(1,2) by auto
qed

lemma current_row:
  assumes "attempt_is_current s db" "sp_started_at s = Some started"
  obtains y where "y \<in> set (ld_steps db)" "current_attempt (sp_id s) (sp_retry_count s) started db y"
  using assms by (auto simp: attempt_is_current_def list_ex_iff)

lemma complete_current:
  assumes inv: "loom_inv L db" and s: "attempt_is_current s db" "sp_started_at s = Some started"
  shows "snd (complete_attempt L now s (sp_retry_count s) started out db) = Inr CompletedNow"
    "settles_only (sp_id s) db (fst (complete_attempt L now s (sp_retry_count s) started out db))"
proof -
  let ?key = "current_attempt (sp_id s) (sp_retry_count s) started db"
  obtain y where y: "y \<in> set (ld_steps db)" "?key y" by (rule current_row [OF s])
  then have some: "sql_changed ?key (ld_steps db) \<noteq> 0" using sql_changed_pos [of ?key "ld_steps db"] by auto
  then show "snd (complete_attempt L now s (sp_retry_count s) started out db) = Inr CompletedNow"
    by (simp add: complete_attempt_def Let_def)
  show "settles_only (sp_id s) db (fst (complete_attempt L now s (sp_retry_count s) started out db))"
    by (rule settles_only_map [OF inv y(1), where f = "\<lambda>x. if ?key x then x \<lparr> sp_status := Completed,
        sp_output_text := ll_json_text L out, sp_completed_at := Some now \<rparr> else x"])
      (use some y in \<open>simp_all add: complete_attempt_def Let_def sql_update_def current_attempt_def\<close>)
qed

lemma fail_current:
  assumes inv: "loom_inv L db" and s: "attempt_is_current s db" "sp_started_at s = Some started" "captured s db"
  shows "snd (fail_attempt L now s (sp_retry_count s) started message db) = Inr Retrying \<and>
      settles_only (sp_id s) db (fst (fail_attempt L now s (sp_retry_count s) started message db)) \<or>
    snd (fail_attempt L now s (sp_retry_count s) started message db) = Inr FailedNow \<and>
      (\<exists>q \<in> set (ld_runs (fst (fail_attempt L now s (sp_retry_count s) started message db))). rn_id q = sp_run s) \<and>
      (\<forall>q \<in> set (ld_runs (fst (fail_attempt L now s (sp_retry_count s) started message db))). rn_id q = sp_run s \<longrightarrow>
         rn_status q = run_status.Failed)"
proof -
  let ?key = "current_attempt (sp_id s) (sp_retry_count s) started db"
  obtain y where y: "y \<in> set (ld_steps db)" "?key y" by (rule current_row [OF s(1,2)])
  then have some: "sql_changed ?key (ld_steps db) \<noteq> 0" using sql_changed_pos [of ?key "ld_steps db"] by auto
  have "sp_id y = sp_id s" using y(2) by (simp add: current_attempt_def)
  then have run: "sp_run y = sp_run s" using s(3) y(1) unfolding captured_def by metis
  obtain r where r: "r \<in> set (ld_runs db)" "rn_id r = sp_run s" "active (rn_status r)"
    using y(2) run by (auto simp: current_attempt_def list_ex_iff)
  show ?thesis
  proof (cases "sp_retry_count s < sp_max_retries s")
    case True
    have "settles_only (sp_id s) db (fst (fail_attempt L now s (sp_retry_count s) started message db))"
      by (rule settles_only_map [OF inv y(1), where f = "\<lambda>x. if ?key x then x \<lparr> sp_status := Pending,
          sp_retry_count := sp_retry_count x + 1, sp_error := Some message, sp_started_at := None \<rparr> else x"])
        (use some y True in \<open>simp_all add: fail_attempt_def Let_def sql_update_def current_attempt_def\<close>)
    then show ?thesis using some True by (simp add: fail_attempt_def Let_def)
  next
    case False
    let ?run = "\<lambda>r. rn_id r = sp_run s \<and> active (rn_status r)"
    have one: "sql_changed ?run (ld_runs db) = 1"
      using inv r by (intro sql_changed_unique [where k = rn_id and r = r]) (auto simp: loom_inv_def shape_ok_def)
    let ?g = "\<lambda>r. if ?run r then r \<lparr> rn_status := run_status.Failed, rn_error := Some message,
        rn_completed_at := Some now, rn_updated_at := now \<rparr> else r"
    have res: "snd (fail_attempt L now s (sp_retry_count s) started message db) = Inr FailedNow"
      "ld_runs (fst (fail_attempt L now s (sp_retry_count s) started message db)) = map ?g (ld_runs db)"
      using one some False by (simp_all add: fail_attempt_def Let_def sql_update_def)
    have g: "rn_id (?g q) = rn_id q" for q by simp
    have "rn_status (?g q) = run_status.Failed" if "q \<in> set (ld_runs db)" "rn_id (?g q) = sp_run s" for q
    proof -
      have "rn_id q = rn_id r" using that(2) r(2) unfolding g by simp
      then have "q = r" by (rule inv_run_unique [OF inv that(1) r(1)])
      then show ?thesis using r(2,3) by simp
    qed
    moreover have "?g r \<in> ?g ` set (ld_runs db)" "rn_id (?g r) = sp_run s" using r(1,2) by simp_all
    ultimately show ?thesis unfolding res set_map by blast
  qed
qed

lemma still_current:
  assumes "attempt_is_current c db" "settles_only sid db db'" "sp_id c \<noteq> sid"
  shows "attempt_is_current c db'"
proof -
  obtain started where started: "sp_started_at c = Some started" using assms(1) by (auto simp: attempt_is_current_def split: option.splits)
  obtain y where y: "y \<in> set (ld_steps db)" "current_attempt (sp_id c) (sp_retry_count c) started db y"
    by (rule current_row [OF assms(1) started])
  then have "y \<in> set (ld_steps db')" "current_attempt (sp_id c) (sp_retry_count c) started db' y"
    using assms(2,3) by (auto simp: settles_only_def current_attempt_def)
  then show ?thesis using started by (auto simp: attempt_is_current_def list_ex_iff)
qed


section \<open>Alone, with an executor for every step\<close>

definition alone :: "loom_world \<Rightarrow> bool" where
  "alone W \<longleftrightarrow> (\<forall>n. lw_others W n = [])"

definition runs_all :: "loom_world \<Rightarrow> bool" where
  "runs_all W \<longleftrightarrow> (case lw_executor W of None \<Rightarrow> False | Some ex \<Rightarrow> \<forall>t. se_handles ex t)"

lemma alone_seen: "alone W \<Longrightarrow> seen L W st = en_db st"
  by (simp add: alone_def seen_def)

lemma alone_fresh: "alone W \<Longrightarrow> fresh_world rid W"
  by (simp add: alone_def fresh_world_def)

definition ended :: "uuid \<Rightarrow> loom_db \<Rightarrow> bool" where
  "ended rid db \<longleftrightarrow> (\<exists>q \<in> set (ld_runs db). rn_id q = rid) \<and> (\<forall>q \<in> set (ld_runs db). rn_id q = rid \<longrightarrow> is_terminal (rn_status q))"

lemma visit_alone:
  assumes inv: "loom_inv L (en_db st)" and W: "alone W" "runs_all W" and s: "attempt_is_current s (en_db st)" "captured s (en_db st)"
  shows "snd (visit_step L W rn s st) = Inr Ran \<and> settles_only (sp_id s) (en_db st) (en_db (fst (visit_step L W rn s st))) \<or>
    snd (visit_step L W rn s st) = Inr EndedRun \<and> ended (sp_run s) (en_db (fst (visit_step L W rn s st)))"
proof -
  obtain ex where ex: "lw_executor W = Some ex" "se_handles ex t" for t using W(2) by (auto simp: runs_all_def split: option.splits)
  obtain started where started: "sp_started_at s = Some started" using s(1) by (auto simp: attempt_is_current_def split: option.splits)
  define st1 where "st1 = emit (StepStarted (rn_id rn) (sp_id s) (sp_name s)) (rn_tenant rn) (rn_principal rn)
    (st \<lparr> en_db := en_db st, en_tick := Suc (en_tick st) \<rparr>)"
  have db1: "en_db st1 = en_db st" "seen L W st1 = en_db st" by (simp_all add: st1_def alone_seen [OF W(1)])
  have eq: "visit_step L W rn s st = execute_step L W ex rn s started st1"
    using ex started s(1) by (simp add: visit_step_def locked_eq alone_seen [OF W(1)] st1_def)
  show ?thesis
  proof (cases "se_execute ex (en_tick st1) (step_context_of rn s)")
    case (Inr out)
    let ?c = "complete_attempt L (now_of W st1) s (sp_retry_count s) started out (en_db st)"
    have "snd ?c = Inr CompletedNow" "settles_only (sp_id s) (en_db st) (fst ?c)" by (rule complete_current [OF inv s(1) started])+
    then show ?thesis using Inr
      by (simp add: eq execute_step_def complete_step_inner_def locked_eq db1)
  next
    case (Inl message)
    let ?f = "fail_attempt L (now_of W st1) s (sp_retry_count s) started message (en_db st)"
    consider "snd ?f = Inr Retrying" "settles_only (sp_id s) (en_db st) (fst ?f)"
      | "snd ?f = Inr FailedNow" "\<exists>q \<in> set (ld_runs (fst ?f)). rn_id q = sp_run s"
        "\<forall>q \<in> set (ld_runs (fst ?f)). rn_id q = sp_run s \<longrightarrow> rn_status q = run_status.Failed"
      using fail_current [OF inv s(1) started s(2), of "now_of W st1" message] by blast
    then show ?thesis
    proof cases
      case 1
      then show ?thesis using Inl by (simp add: eq execute_step_def fail_step_inner_def locked_eq db1)
    next
      case 2
      then show ?thesis using Inl by (simp add: eq execute_step_def fail_step_inner_def locked_eq db1 ended_def)
    qed
  qed
qed

text \<open>What the executor answers stays below the recursion limit of the JSON parser; then the rows stay readable.\<close>

definition shallow_answers :: "loom_world \<Rightarrow> bool" where
  "shallow_answers W \<longleftrightarrow> (case lw_executor W of None \<Rightarrow> True
     | Some ex \<Rightarrow> \<forall>n c out. se_execute ex n c = Inr out \<longrightarrow> json_nesting out \<le> 127)"

lemma execute_readable:
  assumes L: "json_reads_back L" and W: "alone W" "shallow_answers W" "lw_executor W = Some ex" and rd: "readable L rid (en_db st)"
  shows "readable L rid (en_db (fst (execute_step L W ex rn s started st)))"
proof (cases "se_execute ex (en_tick st) (step_context_of rn s)")
  case (Inl message)
  then have "en_db (fst (execute_step L W ex rn s started st)) = en_db (fst (fail_step_inner L W s rn (sp_retry_count s) started message st))"
    by (auto simp: execute_step_def split: prod.splits sum.splits)
  then show ?thesis using readable_fail [OF rd] by (simp add: fail_inner_db alone_seen [OF W(1)])
next
  case (Inr out)
  then have shallow: "json_nesting out \<le> 127" using W(2,3) by (auto simp: shallow_answers_def)
  have "en_db (fst (execute_step L W ex rn s started st)) = en_db (fst (complete_step_inner L W s rn (sp_retry_count s) started out st))"
    using Inr by (auto simp: execute_step_def split: prod.splits sum.splits)
  then show ?thesis using readable_complete [OF L shallow rd] by (simp add: complete_inner_db alone_seen [OF W(1)])
qed

lemma visit_readable:
  assumes "json_reads_back L" "alone W" "shallow_answers W" "readable L rid (en_db st)"
  shows "readable L rid (en_db (fst (visit_step L W rn s st)))"
  using assms(4) execute_readable [OF assms(1-3), of _ rid]
  by (auto simp: visit_step_def locked_eq alone_seen [OF assms(2)] Let_def split: option.split)

lemma ready_readable:
  assumes "json_reads_back L" "alone W" "shallow_answers W"
  shows "readable L rid (en_db st) \<Longrightarrow> readable L rid (en_db (fst (run_ready L W rn ready progress st)))"
proof (induction ready arbitrary: progress st)
  case (Cons s ready)
  obtain st2 v where v: "visit_step L W rn s st = (st2, v)" by fastforce
  then have "readable L rid (en_db st2)" using visit_readable [OF assms Cons.prems, of rn s] by simp
  then show ?case using v Cons.IH by (simp split: sum.split visit_result.split)
qed simp

lemma ready_alone:
  assumes L: "loom_lib_ok L" and W: "alone W" "runs_all W"
  shows "loom_inv L (en_db st) \<Longrightarrow> \<forall>s \<in> set ready. attempt_is_current s (en_db st) \<and> captured s (en_db st) \<and> sp_run s = rid \<Longrightarrow>
    distinct (map sp_id ready) \<Longrightarrow> \<forall>t \<in> set (ld_steps (en_db st)). sp_run t = rid \<longrightarrow> sp_status t = Running \<longrightarrow> sp_id t \<in> sp_id ` set ready \<Longrightarrow>
    snd (run_ready L W rn ready progress st) = Inr (Visited (progress \<or> ready \<noteq> [])) \<and>
      (\<forall>t \<in> set (ld_steps (en_db (fst (run_ready L W rn ready progress st)))). sp_run t = rid \<longrightarrow> sp_status t \<noteq> Running) \<and>
      ld_runs (en_db (fst (run_ready L W rn ready progress st))) = ld_runs (en_db st) \<or>
    snd (run_ready L W rn ready progress st) = Inr RunOver \<and> ended rid (en_db (fst (run_ready L W rn ready progress st)))"
proof (induction ready arbitrary: progress st)
  case Nil
  then show ?case by simp
next
  case (Cons s ready)
  have s: "attempt_is_current s (en_db st)" "captured s (en_db st)" "sp_run s = rid" using Cons.prems(2) by simp_all
  obtain st2 v where v: "visit_step L W rn s st = (st2, v)" by fastforce
  from visit_alone [OF Cons.prems(1) W s(1,2), of rn] v s(3)
  consider "v = Inr Ran" "settles_only (sp_id s) (en_db st) (en_db st2)" | "v = Inr EndedRun" "ended rid (en_db st2)" by auto
  then show ?case
  proof cases
    case 1
    have h: "history L rid (en_db st) (en_db st2)"
      using visit_step_history [OF L Cons.prems(1) alone_fresh [OF W(1)] s(2), of rid rn] v by simp
    have inv2: "loom_inv L (en_db st2)" and later: "rows_later (en_db st) (en_db st2)" using history_keeps [OF L Cons.prems(1) h] by blast+
    have rest: "\<forall>c \<in> set ready. attempt_is_current c (en_db st2) \<and> captured c (en_db st2) \<and> sp_run c = rid"
    proof
      fix c assume c: "c \<in> set ready"
      then have "sp_id c \<noteq> sp_id s" using Cons.prems(3) by (auto simp: image_iff)
      then show "attempt_is_current c (en_db st2) \<and> captured c (en_db st2) \<and> sp_run c = rid"
        using still_current [OF _ 1(2)] captured_later [OF _ later] Cons.prems(2) c by simp
    qed
    have "sp_id t \<in> sp_id ` set ready" if "t \<in> set (ld_steps (en_db st2))" "sp_run t = rid" "sp_status t = Running" for t
    proof -
      have "sp_id t \<noteq> sp_id s" "t \<in> set (ld_steps (en_db st))" using 1(2) that unfolding settles_only_def by metis+
      then show ?thesis using Cons.prems(4) that by force
    qed
    then have "snd (run_ready L W rn ready True st2) = Inr (Visited (True \<or> ready \<noteq> [])) \<and>
      (\<forall>t \<in> set (ld_steps (en_db (fst (run_ready L W rn ready True st2)))). sp_run t = rid \<longrightarrow> sp_status t \<noteq> Running) \<and>
      ld_runs (en_db (fst (run_ready L W rn ready True st2))) = ld_runs (en_db st2) \<or>
    snd (run_ready L W rn ready True st2) = Inr RunOver \<and> ended rid (en_db (fst (run_ready L W rn ready True st2)))"
      by (intro Cons.IH [OF inv2 rest]) (use Cons.prems(3) in auto)
    then show ?thesis using v 1 by (simp add: settles_only_def)
  next
    case 2
    then show ?thesis using v by simp
  qed
qed


lemma claims_running:
  "t \<in> set (ld_steps (fst (claim_steps L at rn steps rest db))) \<Longrightarrow> sp_status t = Running \<Longrightarrow>
   t \<in> set (ld_steps db) \<or> sp_id t \<in> sp_id ` set (snd (claim_steps L at rn steps rest db))"
proof (induction rest arbitrary: db)
  case (Cons s rest)
  show ?case
  proof (cases "passed_over steps db s")
    case False
    then have "t \<in> set (ld_steps (started_db L at rn steps s db)) \<or>
        sp_id t \<in> sp_id ` set (snd (claim_steps L at rn steps rest (started_db L at rn steps s db)))"
      using Cons by (simp add: claim_steps_Cons)
    moreover have "t \<in> set (ld_steps db) \<or> sp_id t = sp_id s" if "t \<in> set (ld_steps (started_db L at rn steps s db))"
      using that by (auto simp: started_db_def claim_key_def split: if_splits)
    ultimately show ?thesis using False by (auto simp: claim_steps_Cons handed_out_def)
  qed (use Cons in \<open>simp add: claim_steps_Cons\<close>)
qed simp

lemma claims_distinct:
  "distinct (map sp_id rest) \<Longrightarrow> distinct (map sp_id (snd (claim_steps L at rn steps rest db))) \<and>
     sp_id ` set (snd (claim_steps L at rn steps rest db)) \<subseteq> sp_id ` set rest"
proof (induction rest arbitrary: db)
  case (Cons s rest)
  show ?case
  proof (cases "passed_over steps db s")
    case True
    then show ?thesis using Cons by (auto simp: claim_steps_Cons)
  next
    case False
    have "distinct (map sp_id rest)" "sp_id s \<notin> sp_id ` set rest" using Cons.prems by simp_all
    with Cons.IH [OF this(1), of "started_db L at rn steps s db"] False show ?thesis
      by (auto simp: claim_steps_Cons handed_out_def)
  qed
qed simp

text \<open>What a pass over a run of which no step is running leaves to the loop.\<close>

lemma pass_alone:
  assumes L: "loom_lib_ok L" and inv: "loom_inv L db" and r: "r \<in> set (ld_runs db)" "rn_id r = rid" "active (rn_status r)"
    and read: "readable L rid db" and quiet: "\<And>s. s \<in> set (ld_steps db) \<Longrightarrow> sp_run s = rid \<Longrightarrow> sp_status s \<noteq> Running"
  obtains (finished) rn where "snd (claim_pass L now at rid db) = Inr (Finished rn)" "ended rid (fst (claim_pass L now at rid db))"
  | (claimed) rn cs where "snd (claim_pass L now at rid db) = Inr (Claimed rn cs)" "cs \<noteq> []" "distinct (map sp_id cs)"
    "\<forall>c \<in> set cs. attempt_is_current c (fst (claim_pass L now at rid db)) \<and> captured c (fst (claim_pass L now at rid db)) \<and> sp_run c = rid"
    "\<forall>t \<in> set (ld_steps (fst (claim_pass L now at rid db))). sp_run t = rid \<longrightarrow> sp_status t = Running \<longrightarrow> sp_id t \<in> sp_id ` set cs"
    "\<exists>q \<in> set (ld_runs (fst (claim_pass L now at rid db))). rn_id q = rid"
proof -
  let ?db' = "fst (claim_pass L now at rid db)"
  have inv': "loom_inv L ?db'" using inv_claim_pass [OF L inv] by blast
  obtain rn where "snd (claim_pass L now at rid db) = Inr (Finished rn) \<or>
      (\<exists>cs. snd (claim_pass L now at rid db) = Inr (Claimed rn cs) \<and> cs \<noteq> [])"
    using pass_progress [OF inv r read quiet, where now = now and at = at] by blast
  then show thesis
  proof (elim disjE exE conjE)
    assume fin: "snd (claim_pass L now at rid db) = Inr (Finished rn)"
    obtain rn' ss where parts: "into_run L r = Inr rn'" "into_steps L (filter (\<lambda>s. sp_run s = rid) (ld_steps db)) = Inr ss"
      by (rule readable_parts [OF read r(1,2)])
    have db': "?db' = finished_db L now rid ss (begun now rid db)"
      using fin claim_pass_active [OF inv r(1,2) parts(1) r(3) parts(2), of now at] by (auto split: if_splits)
    obtain q where q: "q \<in> set (ld_runs (begun now rid db))" "rn_id q = rid" "rn_status q = run_status.Running"
      using begun_inv(2) [OF inv r] by blast
    let ?g = "\<lambda>r. if rn_id r = rid \<and> active (rn_status r) then r \<lparr> rn_status := run_status.Completed,
      rn_output_text := ll_json_text L (merged_output ss), rn_completed_at := Some now, rn_updated_at := now \<rparr> else r"
    have "ld_runs ?db' = map ?g (ld_runs (begun now rid db))" by (simp add: db' finished_db_def sql_update_def)
    then have in': "?g q \<in> set (ld_runs ?db')" using imageI [OF q(1), of ?g] by (simp only: set_map)
    have g: "rn_id (?g q) = rid" "rn_status (?g q) = run_status.Completed" using q(2,3) by (simp_all add: active_def)
    have "is_terminal (rn_status p)" if "p \<in> set (ld_runs ?db')" "rn_id p = rid" for p
    proof -
      have "rn_id p = rn_id (?g q)" using that(2) g(1) by simp
      then have "p = ?g q" by (rule inv_run_unique [OF inv' that(1) in'])
      then show ?thesis using g(2) by simp
    qed
    then have "ended rid ?db'" unfolding ended_def using in' g(1) by blast
    with fin show thesis by (rule finished)
  next
    fix cs assume out: "snd (claim_pass L now at rid db) = Inr (Claimed rn cs)" and some: "cs \<noteq> []"
    obtain ss q where ss: "into_steps L (filter (\<lambda>s. sp_run s = rid) (ld_steps db)) = Inr ss" "loom_inv L (begun now rid db)"
      and q: "q \<in> set (ld_runs (begun now rid db))" "rn_id q = rid" "rn_status q = run_status.Running"
      and rd: "read_by L q ss ss (begun now rid db)" and cs: "cs = snd (claim_steps L at rn ss ss (begun now rid db))"
        "?db' = fst (claim_steps L at rn ss ss (begun now rid db))"
      by (rule claimed_parts [OF inv out])
    have runs: "ld_runs ?db' = ld_runs (begun now rid db)" using claim_steps_inv [OF L ss(2) rd] cs(2) by simp
    have "map sp_id ss = map sp_id (filter (\<lambda>s. sp_run s = rid) (ld_steps db))"
      using ss(1) unfolding into_steps_Inr by (induction rule: list_all2_induct) (auto simp: into_step_row)
    then have "distinct (map sp_id ss)" using inv by (simp add: loom_inv_def shape_ok_def distinct_map_filter)
    then have "distinct (map sp_id cs)" using claims_distinct cs(1) by blast
    moreover have "attempt_is_current c ?db' \<and> captured c ?db' \<and> sp_run c = rid" if c: "c \<in> set cs" for c
    proof -
      obtain y where y: "y \<in> set (ld_steps ?db')" "sp_id y = sp_id c" "sp_run y = rid" "sp_retry_count y = sp_retry_count c"
        "sp_started_at y = sp_started_at c" "sp_status y = Running"
        using pass_claims(1) [OF L inv out c] by (auto simp: claimed_from_def)
      have cap: "captured c ?db'" by (rule pass_captured [OF L inv out c])
      moreover have "sp_run c = rid" using cap y(1-3) unfolding captured_def by metis
      moreover obtain started where started: "sp_started_at c = Some started" using inv_row [OF inv' y(1)] y(5,6) by (auto simp: row_ok_def)
      moreover have "current_attempt (sp_id c) (sp_retry_count c) started ?db' y"
        using y started q runs by (auto simp: current_attempt_def list_ex_iff active_def)
      ultimately show ?thesis using y(1) by (auto simp: attempt_is_current_def list_ex_iff)
    qed
    moreover have "sp_id t \<in> sp_id ` set cs" if "t \<in> set (ld_steps ?db')" "sp_run t = rid" "sp_status t = Running" for t
      using claims_running [of t L at rn ss ss "begun now rid db"] that quiet cs by auto
    moreover have "\<exists>p \<in> set (ld_runs ?db'). rn_id p = rid" using q(1,2) runs by auto
    ultimately show thesis using claimed [OF out some] by blast
  qed
qed

text \<open>A run that is over, or of which no step is running, is driven to its end.\<close>

lemma drive_alone:
  assumes L: "loom_lib_ok L" "json_reads_back L" and W: "alone W" "runs_all W" "shallow_answers W"
  shows "loom_inv L (en_db st) \<Longrightarrow> readable L rid (en_db st) \<Longrightarrow> \<exists>r \<in> set (ld_runs (en_db st)). rn_id r = rid \<Longrightarrow>
    \<forall>s \<in> set (ld_steps (en_db st)). sp_run s = rid \<longrightarrow> sp_status s \<noteq> Running \<Longrightarrow>
    \<exists>st'. advance_inner L W rid st = Some (st', Inr ()) \<and> ended rid (en_db st') \<and> readable L rid (en_db st')"
proof (induction "claims_left rid (en_db st)" arbitrary: st rule: less_induct)
  case less
  let ?db = "en_db st"
  let ?p = "claim_pass L (now_of W st) (lw_step_clock W (en_tick st)) rid ?db"
  define st1 where "st1 = st \<lparr> en_db := fst ?p, en_tick := Suc (en_tick st) \<rparr>"
  obtain r where r: "r \<in> set (ld_runs ?db)" "rn_id r = rid" using less.prems(3) by blast
  note eq = advance_eq [of st1 st L W rid, unfolded alone_seen [OF W(1)], OF st1_def]
  show ?case
  proof (cases "active (rn_status r)")
    case False
    obtain rn where rn: "into_run L r = Inr rn" using less.prems(2) r by (auto simp: readable_def is_ok_iff)
    have "get_run_any L rid ?db = Inr (Some rn)" using get_run_row [OF less.prems(1) r] rn by simp
    moreover have over: "is_terminal (rn_status r)" using False by (cases "rn_status r") (simp_all add: active_def)
    ultimately have "?p = (?db, Inr pass.RunOver)" using into_run_Inr(2) [OF rn] by (simp add: claim_pass_def)
    moreover have "is_terminal (rn_status q)" if "q \<in> set (ld_runs ?db)" "rn_id q = rid" for q
      using inv_run_unique [OF less.prems(1) that(1) r(1)] that(2) r(2) over by simp
    ultimately show ?thesis using eq r less.prems(2) by (auto simp: st1_def ended_def)
  next
    case True
    have quiet: "sp_status s \<noteq> Running" if "s \<in> set (ld_steps ?db)" "sp_run s = rid" for s using less.prems(4) that by blast
    have read1: "readable L rid (en_db st1)" using readable_pass [OF L(2) less.prems(1,2)] by (simp add: st1_def)
    show ?thesis
    proof (rule pass_alone [OF L(1) less.prems(1) r True less.prems(2) quiet, where now = "now_of W st" and at = "lw_step_clock W (en_tick st)"])
      fix rn assume "snd ?p = Inr (Finished rn)" "ended rid (fst ?p)"
      then show ?thesis using eq read1 by (simp add: st1_def)
    next
      fix rn cs assume out: "snd ?p = Inr (Claimed rn cs)" "cs \<noteq> []" and cs: "distinct (map sp_id cs)"
        "\<forall>c \<in> set cs. attempt_is_current c (fst ?p) \<and> captured c (fst ?p) \<and> sp_run c = rid"
        "\<forall>t \<in> set (ld_steps (fst ?p)). sp_run t = rid \<longrightarrow> sp_status t = Running \<longrightarrow> sp_id t \<in> sp_id ` set cs"
        and run: "\<exists>q \<in> set (ld_runs (fst ?p)). rn_id q = rid"
      have inv1: "loom_inv L (en_db st1)" using inv_claim_pass [OF L(1) less.prems(1)] by (simp add: st1_def)
      obtain st2 b where b: "run_ready L W rn cs False st1 = (st2, b)" by fastforce
      have cap: "\<forall>c \<in> set cs. captured c (en_db st1)" using cs(2) by (simp add: st1_def)
      have h: "history L rid (en_db st1) (en_db st2)" using run_ready_history [OF L(1) alone_fresh [OF W(1)] inv1 cap] b by (metis fst_conv)
      have inv2: "loom_inv L (en_db st2)" using history_keeps [OF L(1) inv1 h] by blast
      have read2: "readable L rid (en_db st2)" using ready_readable [OF L(2) W(1,3) read1] b by (metis fst_conv)
      from ready_alone [OF L(1) W(1,2) inv1, of cs rid rn False] cs b out(2)
      consider "b = Inr (Visited True)" "\<forall>t \<in> set (ld_steps (en_db st2)). sp_run t = rid \<longrightarrow> sp_status t \<noteq> Running"
          "ld_runs (en_db st2) = ld_runs (en_db st1)"
        | "b = Inr RunOver" "ended rid (en_db st2)" by (auto simp: st1_def)
      then show ?thesis
      proof cases
        case 1
        have "claims_left rid (en_db st1) < claims_left rid ?db" using pass_claims_left [OF L(1) less.prems(1) out] by (simp add: st1_def)
        then have less': "claims_left rid (en_db st2) < claims_left rid ?db" using history_claims_left [OF L(1) inv1 h] by simp
        have "\<exists>q \<in> set (ld_runs (en_db st2)). rn_id q = rid" using 1(3) run by (simp add: st1_def)
        then show ?thesis using less.hyps [OF less' inv2 read2 _ 1(2)] eq out b 1(1) by simp
      next
        case 2
        then show ?thesis using eq out b read2 by simp
      qed
    qed
  qed
qed



section \<open>The methods\<close>

text \<open>
  Property C20. Advancing a run ends, with or without an error, whatever everybody else does to the store
  between its lock acquisitions and whatever the executor answers, as long as nobody creates another run
  with its id; and what it leaves satisfies the invariant of the store.
\<close>

theorem advance_terminates:
  assumes "loom_lib_ok L" "en_db st = fst (run (loom_apply L) ops empty_loom)"
    "\<forall>n. list_all (\<lambda>op. \<not> creates rid op) (lw_others W n)"
  shows "\<exists>st' r. advance_inner L W rid st = Some (st', r) \<and> loom_inv L (en_db st')"
proof -
  have inv: "loom_inv L (en_db st)" using history_inv [OF assms(1)] assms(2) by simp
  have "fresh_world rid W" using assms(3) by (simp add: fresh_world_def)
  from advance_ends [OF assms(1) this inv] show ?thesis using history_keeps [OF assms(1) inv] by blast
qed

lemma insert_run_Inl: "snd (insert_run L now rid tenant p wid input db) = Inl e \<Longrightarrow> fst (insert_run L now rid tenant p wid input db) = db"
  by (auto simp: insert_run_def Let_def split: sum.splits option.splits if_splits)

lemma insert_run_Inr:
  assumes "loom_inv L db" "snd (insert_run L now rid tenant p wid input db) = Inr x"
  shows "\<exists>r \<in> set (ld_runs (fst (insert_run L now rid tenant p wid input db))). rn_id r = rid"
    "\<forall>s \<in> set (ld_steps (fst (insert_run L now rid tenant p wid input db))). sp_run s = rid \<longrightarrow> sp_status s \<noteq> Running"
proof -
  have "rid \<notin> sp_run ` set (ld_steps db)" if "\<not> list_ex (\<lambda>r. rn_id r = rid) (ld_runs db)"
  proof -
    have "sp_run ` set (ld_steps db) \<subseteq> rn_id ` set (ld_runs db)" using assms(1) by (simp add: loom_inv_def shape_ok_def)
    moreover have "rid \<notin> rn_id ` set (ld_runs db)" using that by (auto simp: list_ex_iff)
    ultimately show ?thesis by blast
  qed
  then show "\<exists>r \<in> set (ld_runs (fst (insert_run L now rid tenant p wid input db))). rn_id r = rid"
    "\<forall>s \<in> set (ld_steps (fst (insert_run L now rid tenant p wid input db))). sp_run s = rid \<longrightarrow> sp_status s \<noteq> Running"
    using assms(2) by (auto simp: insert_run_def Let_def dest: new_steps_rows split: sum.splits option.splits if_splits)
qed

text \<open>
  Property C21. With an executor for every step type, whether it succeeds or fails and as long as its answers
  and the input nest at most 127 JSON levels (the recursion limit of \<open>serde_json\<close>), a run that nobody else
  touches is driven to its end by the call that creates it: creating a run either is refused and changes
  no table, or it returns the run, which belongs to the caller and is completed, failed or cancelled.
\<close>

theorem created_run_ends:
  assumes "loom_lib_ok L" "json_reads_back L" "en_db st = fst (run (loom_apply L) ops empty_loom)" "\<forall>n. lw_others W n = []"
    "lw_executor W = Some ex" "\<forall>t. se_handles ex t" "\<forall>n c out. se_execute ex n c = Inr out \<longrightarrow> json_nesting out \<le> 127"
    "\<forall>v. input = Some v \<longrightarrow> json_nesting v \<le> 127"
  shows "\<exists>st' r. create_run L W rid tenant p wid input st = Some (st', r) \<and>
    (if (case input of Some (JObject es) \<Rightarrow> False | Some v \<Rightarrow> True | None \<Rightarrow> False) \<or>
        \<not> is_ok (snd (insert_run L (now_of W st) rid tenant p wid input (en_db st)))
     then (\<exists>e. r = Inl e) \<and> en_db st' = en_db st
     else ended rid (en_db st') \<and> (\<exists>rn. r = Inr rn \<and> rn_id rn = rid \<and> rn_tenant rn = tenant \<and> rn_principal rn = p \<and>
       is_terminal (rn_status rn)))"
proof (cases "case input of Some (JObject es) \<Rightarrow> False | Some v \<Rightarrow> True | None \<Rightarrow> False")
  case True
  then show ?thesis by (simp add: create_run_def)
next
  case object: False
  have W: "alone W" "runs_all W" "shallow_answers W" using assms(4-7) by (simp_all add: alone_def runs_all_def shallow_answers_def)
  have inv: "loom_inv L (en_db st)" using history_inv [OF assms(1)] assms(3) by simp
  let ?i = "insert_run L (now_of W st) rid tenant p wid input (en_db st)"
  show ?thesis
  proof (cases "snd ?i")
    case (Inl e)
    then have "create_run L W rid tenant p wid input st = Some (st \<lparr> en_db := fst ?i, en_tick := Suc (en_tick st) \<rparr>, Inl e)"
      using object by (simp add: create_run_def locked_eq alone_seen [OF W(1)])
    then show ?thesis using insert_run_Inl [OF Inl] Inl by simp
  next
    case (Inr x)
    define st1 where "st1 = emit (RunCreated rid wid (snd x)) tenant p (st \<lparr> en_db := fst ?i, en_tick := Suc (en_tick st) \<rparr>)"
    have db1: "en_db st1 = fst ?i" by (simp add: st1_def)
    have inv1: "loom_inv L (en_db st1)" unfolding db1 by (rule inv_insert_run [OF assms(1) inv])
    have read1: "readable L rid (en_db st1)" unfolding db1 by (rule readable_insert [OF assms(1,2) inv Inr]) (use assms(8) in blast)
    obtain st2 where st2: "advance_inner L W rid st1 = Some (st2, Inr ())" "ended rid (en_db st2)" "readable L rid (en_db st2)"
      using drive_alone [OF assms(1,2) W inv1 read1] insert_run_Inr [OF inv Inr] unfolding db1 by blast
    have h: "history L rid (en_db st1) (en_db st2)" using advance_ends [OF assms(1) alone_fresh [OF W(1), of rid] inv1] st2(1) by auto
    have own: "owned_row rid tenant p (en_db st2)" using owned_row_history [OF h] owned_row_insert [OF Inr] unfolding db1 by blast
    obtain r rn where r: "r \<in> set (ld_runs (en_db st2))" "rn_id r = rid" "into_run L r = Inr rn" "get_run L tenant p rid (en_db st2) = Inr (Some rn)"
      by (rule get_run_own [OF _ st2(3) own]) (use history_keeps [OF assms(1) inv1 h] st2(2) in \<open>auto simp: ended_def\<close>)
    have "create_run L W rid tenant p wid input st = Some (st2 \<lparr> en_tick := Suc (en_tick st2) \<rparr>, Inr rn)"
      using object Inr st2(1) r(4)
      by (auto simp: create_run_def locked_eq alone_seen [OF W(1)] after_advance_def peek_def st1_def
          split: sum.splits option.splits prod.splits)
    moreover have "rn_id rn = rid \<and> rn_tenant rn = tenant \<and> rn_principal rn = p \<and> is_terminal (rn_status rn)"
      using r(1,2) into_run_Inr [OF r(3)] own st2(2) by (simp add: owned_row_def ended_def)
    ultimately show ?thesis using st2(2) object Inr by simp
  qed
qed


section \<open>Listings\<close>

lemma all_ok_map: "all_ok (map f xs) = Inr ys \<Longrightarrow> length ys = length xs \<and> (\<forall>y \<in> set ys. \<exists>x \<in> set xs. f x = Inr y)"
  by (induction xs arbitrary: ys) (fastforce split: sum.splits)+

lemma bounded_limit: "bounded_list_limit m \<le> 500" "bounded_list_limit (Some n) \<le> n"
  by (simp_all add: bounded_list_limit_def MAX_LIST_LIMIT_def)

lemma if_Inr: "(if c then Inl e else x) = Inr r \<Longrightarrow> x = Inr r"
  by (simp split: if_splits)

lemma newest_first_in: "x \<in> set (take n (drop k (newest_first key (filter P xs)))) \<Longrightarrow> x \<in> set xs \<and> P x"
  by (auto simp: newest_first_def dest!: in_set_takeD in_set_dropD)

text \<open>
  Every listing returns at most 500 entries, whatever limit the caller asks for, and only
  entries of the caller: runs and workflows of its own tenant and principal, log lines of its own run.
\<close>

theorem listings_scoped_and_bounded:
  "(list_runs L tenant p f db = Inr rs \<longrightarrow> length rs \<le> 500 \<and> (\<forall>r \<in> set rs. rn_tenant r = tenant \<and> rn_principal r = p)) \<and>
   (list_workflows L tenant p db = Inr ws \<longrightarrow> length ws \<le> 500 \<and> (\<forall>w \<in> set ws. wf_tenant w = tenant \<and> wf_principal w = p)) \<and>
   (logs L tenant p rid limit db = Inr ls \<longrightarrow> length ls \<le> min limit 500 \<and> (\<forall>l \<in> set ls. lg_run l = rid) \<and>
      (ls \<noteq> [] \<longrightarrow> (\<exists>r \<in> set (ld_runs db). rn_id r = rid \<and> rn_tenant r = tenant \<and> rn_principal r = p)))"
proof (intro conjI impI)
  assume "list_runs L tenant p f db = Inr rs"
  note rs = all_ok_map [OF if_Inr [OF this [unfolded list_runs_def]]]
  then show "length rs \<le> 500" using bounded_limit(1) [of "rf_limit f"] by simp
  show "\<forall>r \<in> set rs. rn_tenant r = tenant \<and> rn_principal r = p"
  proof
    fix r assume "r \<in> set rs"
    then obtain x where x: "x \<in> set (take (bounded_list_limit (rf_limit f)) (drop (case rf_offset f of Some n \<Rightarrow> n | None \<Rightarrow> 0)
       (newest_first rn_created_at (filter (\<lambda>r. rn_tenant r = tenant \<and> rn_principal r = p \<and>
          (case rf_workflow f of Some w \<Rightarrow> rn_workflow r = w | None \<Rightarrow> True) \<and>
          (case rf_status f of Some st \<Rightarrow> rn_status r = st | None \<Rightarrow> True)) (ld_runs db)))))" "into_run L x = Inr r"
      using rs by blast
    show "rn_tenant r = tenant \<and> rn_principal r = p" using newest_first_in [OF x(1)] into_run_Inr(3,4) [OF x(2)] by simp
  qed
next
  assume "list_workflows L tenant p db = Inr ws"
  note ws = all_ok_map [OF this [unfolded list_workflows_def]]
  then show "length ws \<le> 500" using bounded_limit(1) [of None] by simp
  have own: "wf_tenant w = wf_tenant r \<and> wf_principal w = wf_principal r" if "into_workflow L r = Inr w" for r w
    using that by (auto simp: into_workflow_def workflow_row.defs split: option.splits)
  show "\<forall>w \<in> set ws. wf_tenant w = tenant \<and> wf_principal w = p"
  proof
    fix w assume "w \<in> set ws"
    then obtain x where x: "x \<in> set (take (bounded_list_limit None)
        (newest_first wf_updated_at (filter (\<lambda>r. wf_tenant r = tenant \<and> wf_principal r = p) (ld_workflows db))))" "into_workflow L x = Inr w"
      using ws by blast
    have "x \<in> set (ld_workflows db) \<and> (wf_tenant x = tenant \<and> wf_principal x = p)"
      by (rule newest_first_in [of _ _ 0]) (use x(1) in simp)
    then show "wf_tenant w = tenant \<and> wf_principal w = p" using own [OF x(2)] by simp
  qed
next
  assume "logs L tenant p rid limit db = Inr ls"
  note ls = all_ok_map [OF this [unfolded logs_def]]
  have "length ls \<le> bounded_list_limit (Some limit)" using ls by simp
  then show "length ls \<le> min limit 500"
    using order_trans [OF _ bounded_limit(1)] order_trans [OF _ bounded_limit(2)] by simp
  have "lg_run l = lg_run r" if "into_log L r = Inr l" for r l
    using that by (auto simp: into_log_def log_row.defs split: option.splits)
  then show "\<forall>l \<in> set ls. lg_run l = rid" using ls by (fastforce dest: in_set_takeD)
  show "\<exists>r \<in> set (ld_runs db). rn_id r = rid \<and> rn_tenant r = tenant \<and> rn_principal r = p" if "ls \<noteq> []"
  proof -
    obtain l where "l \<in> set ls" using \<open>ls \<noteq> []\<close> by (cases ls) auto
    then obtain x where "x \<in> set (take (bounded_list_limit (Some limit)) (filter (\<lambda>l. lg_run l = rid \<and>
        list_ex (\<lambda>r. rn_id r = lg_run l \<and> rn_tenant r = tenant \<and> rn_principal r = p) (ld_runs db)) (ld_logs db)))"
      using ls by blast
    then show ?thesis by (auto simp: list_ex_iff dest!: in_set_takeD)
  qed
qed


section \<open>Concrete worlds\<close>

definition sample_executor :: step_executor where
  "sample_executor = \<lparr> se_handles = (\<lambda>t. True),
     se_execute = (\<lambda>n c. if sc_name c = ''b'' \<and> n < 9 then Inl ''busy'' else Inr (JObject [(sc_name c, JNull)])) \<rparr>"

definition sample_loom_world :: "loom_op list \<Rightarrow> loom_world" where
  "sample_loom_world ops = \<lparr> lw_executor = Some sample_executor, lw_clock = int, lw_step_clock = (\<lambda>n sid. int n),
     lw_others = (\<lambda>n. if n = 3 then ops else []) \<rparr>"

definition sample_engine :: "loom_op list \<Rightarrow> engine" where
  "sample_engine ops = \<lparr> en_db = fst (run (loom_apply sample_loom_lib) ops empty_loom), en_tick = 1, en_events = [] \<rparr>"

theorem advance_terminates_witness:
  "\<exists>st' r. advance_inner sample_loom_lib (sample_loom_world [CancelRun 5 2 3 7]) 7 (sample_engine sample_ops) = Some (st', r) \<and>
     loom_inv sample_loom_lib (en_db st')"
  by (rule advance_terminates [OF sample_loom_lib_ok, of _ sample_ops])
    (simp_all add: sample_engine_def sample_loom_world_def)

lemma sample_insert_accepted:
  "is_ok (snd (insert_run sample_loom_lib 1 7 2 3 5 None (fst (run (loom_apply sample_loom_lib) [hd sample_ops] empty_loom))))"
  by code_simp

lemma sample_reads_back: "json_reads_back sample_loom_lib"
  by (auto simp: json_reads_back_def sample_loom_lib_def diamond_def plain_step_def)

theorem created_run_ends_witness:
  "\<exists>st' rn. create_run sample_loom_lib (sample_loom_world []) 7 2 3 5 None (sample_engine [hd sample_ops]) = Some (st', Inr rn) \<and>
     ended 7 (en_db st') \<and> rn_id rn = 7 \<and> is_terminal (rn_status rn)"
proof -
  let ?accepted = "is_ok (snd (insert_run sample_loom_lib (now_of (sample_loom_world []) (sample_engine [hd sample_ops])) 7 2 3 5 None
      (en_db (sample_engine [hd sample_ops]))))"
  have "\<exists>st' r. create_run sample_loom_lib (sample_loom_world []) 7 2 3 5 None (sample_engine [hd sample_ops]) = Some (st', r) \<and>
    (if (case None of Some (JObject es) \<Rightarrow> False | Some v \<Rightarrow> True | None \<Rightarrow> False) \<or> \<not> ?accepted
     then (\<exists>e. r = Inl e) \<and> en_db st' = en_db (sample_engine [hd sample_ops])
     else ended 7 (en_db st') \<and> (\<exists>rn. r = Inr rn \<and> rn_id rn = 7 \<and> rn_tenant rn = 2 \<and> rn_principal rn = 3 \<and> is_terminal (rn_status rn)))"
    by (rule created_run_ends [OF sample_loom_lib_ok sample_reads_back, of _ "[hd sample_ops]" _ sample_executor])
      (auto simp: sample_engine_def sample_loom_world_def sample_executor_def split: if_splits)
  moreover have "?accepted"
    using sample_insert_accepted by (simp add: now_of_def sample_engine_def sample_loom_world_def)
  ultimately show ?thesis by auto
qed

theorem listings_scoped_and_bounded_witness:
  "length (case list_runs sample_loom_lib 2 3 \<lparr> rf_workflow = None, rf_status = None, rf_limit = Some 10000, rf_offset = None \<rparr>
     (en_db (sample_engine sample_ops)) of Inr rs \<Rightarrow> rs | Inl e \<Rightarrow> []) \<le> 500"
  using listings_scoped_and_bounded [of sample_loom_lib 2 3 "\<lparr> rf_workflow = None, rf_status = None, rf_limit = Some 10000, rf_offset = None \<rparr>"
    "en_db (sample_engine sample_ops)"]
  by (simp split: sum.split)

end
