(* ===== verification/Step_Executors.thy ===== *)
theory Step_Executors
  imports Loom_Drive
begin

text \<open>
  The step executors of Loom (\<open>executor.rs\<close> of the crate \<open>henosis-loom\<close>): the transform executor with its
  dot paths and templates, the Hephaestus executor over an opaque dispatch, and the composite that the
  server attaches to the store. The theorems: setting a path sets exactly that path, a template is
  scanned once, the payload of a dispatch carries no scope of its own, and a composite refuses no type
  that it claims.
\<close>


section \<open>Dot paths\<close>

text \<open>\<open>path.split('.')\<close>: never empty; the empty path has one empty key.\<close>

fun split_dots :: "string \<Rightarrow> string list" where
  "split_dots [] = [[]]"
| "split_dots (c # cs) = (if c = CHR ''.'' then [] # split_dots cs
     else case split_dots cs of k # ks \<Rightarrow> (c # k) # ks | [] \<Rightarrow> [[c]])"

fun resolve_keys :: "string list \<Rightarrow> json \<Rightarrow> json" where
  "resolve_keys [] v = v"
| "resolve_keys (k # ks) (JObject es) = (case map_of es k of Some v \<Rightarrow> resolve_keys ks v | None \<Rightarrow> JNull)"
| "resolve_keys (k # ks) v = JNull"

definition resolve_dot_path :: "json \<Rightarrow> string \<Rightarrow> json" where
  "resolve_dot_path obj path = resolve_keys (split_dots path) obj"

lemma split_once_shorter: "split_once d s = Some (a, b) \<Longrightarrow> length b < length s"
  by (induction s arbitrary: a) (auto split: if_splits option.splits)

function set_dot_path :: "(string \<times> json) list \<Rightarrow> string \<Rightarrow> json \<Rightarrow> (string \<times> json) list" where
  "set_dot_path obj path v =
     (case split_once CHR ''.'' path of
        None \<Rightarrow> btree_insert path v obj
      | Some (head, rest) \<Rightarrow>
          (case map_of obj head of
             Some (JObject inner) \<Rightarrow> btree_insert head (JObject (set_dot_path inner rest v)) obj
           | _ \<Rightarrow> btree_insert head (JObject (set_dot_path [] rest v)) obj))"
  by pat_completeness auto
termination by (relation "measure (\<lambda>(obj, path, v). length path)") (auto dest: split_once_shorter)

declare set_dot_path.simps [simp del]

lemma map_of_btree_insert [simp]: "map_of (btree_insert k v es) = (map_of es)(k \<mapsto> v)"
  by (induction es) (auto simp: fun_eq_iff)

lemma split_dots_once:
  "split_dots path = (case split_once CHR ''.'' path of None \<Rightarrow> [path] | Some (head, rest) \<Rightarrow> head # split_dots rest)"
  by (induction path) (auto split: option.splits)

fun set_keys :: "(string \<times> json) list \<Rightarrow> string list \<Rightarrow> json \<Rightarrow> (string \<times> json) list" where
  "set_keys obj [] v = obj"
| "set_keys obj [k] v = btree_insert k v obj"
| "set_keys obj (k # k' # ks) v =
     btree_insert k (JObject (set_keys (case map_of obj k of Some (JObject inner) \<Rightarrow> inner | _ \<Rightarrow> []) (k' # ks) v)) obj"

lemma split_dots_Cons: "\<exists>k ks. split_dots path = k # ks"
  by (cases path) (auto split: list.splits)

lemma set_dot_path_keys: "set_dot_path obj path v = set_keys obj (split_dots path) v"
proof (induction "length path" arbitrary: obj path rule: less_induct)
  case less
  show ?case
  proof (cases "split_once CHR ''.'' path")
    case None
    then show ?thesis by (simp add: set_dot_path.simps split_dots_once [of path])
  next
    case (Some p)
    obtain front rest where p: "p = (front, rest)" by fastforce
    obtain k ks where ks: "split_dots rest = k # ks" using split_dots_Cons by blast
    have "length rest < length path" using split_once_shorter Some p by blast
    from less [OF this] show ?thesis
      using Some p ks by (auto simp: set_dot_path.simps [of obj path v] split_dots_once [of path] split: option.splits json.splits)
  qed
qed

lemma resolve_set_keys: "ks \<noteq> [] \<Longrightarrow> resolve_keys ks (JObject (set_keys obj ks v)) = v"
  by (induction obj ks v rule: set_keys.induct) simp_all

text \<open>Two paths of which neither continues the other.\<close>

definition apart :: "string list \<Rightarrow> string list \<Rightarrow> bool" where
  "apart ks js \<longleftrightarrow> take (min (length ks) (length js)) ks \<noteq> take (min (length ks) (length js)) js"

lemma resolve_keys_empty: "js \<noteq> [] \<Longrightarrow> resolve_keys js (JObject []) = JNull"
  by (cases js) simp_all

lemma resolve_other_keys: "apart ks js \<Longrightarrow> resolve_keys js (JObject (set_keys obj ks v)) = resolve_keys js (JObject obj)"
proof (induction obj ks v arbitrary: js rule: set_keys.induct)
  case (1 obj v)
  then show ?case by (simp add: apart_def)
next
  case (2 obj k v)
  then show ?case by (cases js) (auto simp: apart_def)
next
  case (3 obj k k' ks v)
  then obtain j js' where js: "js = j # js'" by (cases js) (auto simp: apart_def)
  show ?case
  proof (cases "j = k")
    case True
    then have apart: "apart (k' # ks) js'" using 3(2) by (simp add: apart_def js)
    then have "js' \<noteq> []" by (auto simp: apart_def)
    then obtain i rest where i: "js' = i # rest" by (cases js') auto
    have "resolve_keys js' (JObject (set_keys (case map_of obj k of Some (JObject inner) \<Rightarrow> inner | _ \<Rightarrow> []) (k' # ks) v)) =
        resolve_keys js' (JObject (case map_of obj k of Some (JObject inner) \<Rightarrow> inner | _ \<Rightarrow> []))"
      by (rule 3(1) [OF apart])
    then show ?thesis using True i by (auto simp: js split: option.splits json.splits)
  qed (simp add: js)
qed

text \<open>
  Setting a dot path sets exactly that path: resolving it gives the value, and every path
  that neither continues it nor is continued by it resolves as before, also when objects had to be created
  or other values replaced on the way.
\<close>

theorem set_dot_path_sets_exactly:
  "resolve_dot_path (JObject (set_dot_path obj path v)) path = v \<and>
   (apart (split_dots path) (split_dots q) \<longrightarrow>
     resolve_dot_path (JObject (set_dot_path obj path v)) q = resolve_dot_path (JObject obj) q)"
  using split_dots_Cons [of path] resolve_set_keys [of "split_dots path" obj v] resolve_other_keys [of "split_dots path" "split_dots q" obj v]
  by (auto simp: resolve_dot_path_def set_dot_path_keys)


section \<open>Templates\<close>

text \<open>The text before and after the first two adjacent occurrences of a character.\<close>

fun split_pair :: "char \<Rightarrow> string \<Rightarrow> (string \<times> string) option" where
  "split_pair d (c # c' # cs) =
     (if c = d \<and> c' = d then Some ([], cs)
      else case split_pair d (c' # cs) of None \<Rightarrow> None | Some (a, b) \<Rightarrow> Some (c # a, b))"
| "split_pair d _ = None"

lemma split_pair_shorter: "split_pair d s = Some (a, b) \<Longrightarrow> length b < length s"
  by (induction d s arbitrary: a rule: split_pair.induct) (auto split: if_splits option.splits)

lemma split_pair_join: "split_pair d s = Some (a, b) \<Longrightarrow> s = a @ [d, d] @ b"
  by (induction d s arbitrary: a rule: split_pair.induct) (auto split: if_splits option.splits)

definition replacement :: "(json \<Rightarrow> string) \<Rightarrow> json \<Rightarrow> string" where
  "replacement text_of v = (case v of JString s \<Rightarrow> s | JNull \<Rightarrow> [] | _ \<Rightarrow> text_of v)"

function interpolate :: "(json \<Rightarrow> string) \<Rightarrow> string \<Rightarrow> json \<Rightarrow> string" where
  "interpolate text_of template vars =
     (case split_pair CHR ''{'' template of
        None \<Rightarrow> template
      | Some (before, after_open) \<Rightarrow>
          (case split_pair CHR ''}'' after_open of
             None \<Rightarrow> before @ drop (length before) template
           | Some (path, rest) \<Rightarrow>
               before @ replacement text_of (resolve_dot_path vars (trim path)) @ interpolate text_of rest vars))"
  by pat_completeness auto
termination
  by (relation "measure (\<lambda>(text_of, template, vars). length template)") (fastforce dest: split_pair_shorter)+

declare interpolate.simps [simp del]

text \<open>
  The template is cut at its own placeholders before anything is replaced: its literal parts and the
  paths of its placeholders do not depend on the variables, so no replacement text is ever scanned.
\<close>

datatype template_part = Literal string | Placeholder string

function template_parts :: "string \<Rightarrow> template_part list" where
  "template_parts template =
     (case split_pair CHR ''{'' template of
        None \<Rightarrow> [Literal template]
      | Some (before, after_open) \<Rightarrow>
          (case split_pair CHR ''}'' after_open of
             None \<Rightarrow> [Literal template]
           | Some (path, rest) \<Rightarrow> Literal before # Placeholder path # template_parts rest))"
  by pat_completeness auto
termination
  by (relation "measure length") (fastforce dest: split_pair_shorter)+

declare template_parts.simps [simp del]

fun part_source :: "template_part \<Rightarrow> string" where
  "part_source (Literal s) = s"
| "part_source (Placeholder p) = ''{{'' @ p @ ''}}''"

fun part_text :: "(json \<Rightarrow> string) \<Rightarrow> json \<Rightarrow> template_part \<Rightarrow> string" where
  "part_text text_of vars (Literal s) = s"
| "part_text text_of vars (Placeholder p) = replacement text_of (resolve_dot_path vars (trim p))"

text \<open>
  Interpolation is one substitution: the template splits, independently of the variables,
  into literal parts and placeholders that together are the template, and the result is the same
  sequence with every placeholder replaced by the text of the value its path resolves to. Replacement
  text is never scanned for placeholders.
\<close>

theorem interpolate_substitutes_once:
  "concat (map part_source (template_parts template)) = template \<and>
   interpolate text_of template vars = concat (map (part_text text_of vars) (template_parts template))"
proof (induction "length template" arbitrary: template rule: less_induct)
  case less
  show ?case
  proof (cases "split_pair CHR ''{'' template")
    case None
    then show ?thesis by (simp add: template_parts.simps [of template] interpolate.simps [of _ template])
  next
    case (Some p)
    obtain before after_open where p: "p = (before, after_open)" by fastforce
    have t: "template = before @ ''{{'' @ after_open" using split_pair_join Some p by simp
    show ?thesis
    proof (cases "split_pair CHR ''}'' after_open")
      case None
      moreover have "before @ drop (length before) template = template" using t by simp
      ultimately show ?thesis using Some p by (simp add: template_parts.simps [of template] interpolate.simps [of _ template])
    next
      case inner: (Some q)
      obtain path rest where q: "q = (path, rest)" by fastforce
      have a: "after_open = path @ ''}}'' @ rest" using split_pair_join inner q by simp
      have parts: "template_parts template = Literal before # Placeholder path # template_parts rest"
        using Some p inner q by (simp add: template_parts.simps [of template])
      have result: "interpolate text_of template vars =
          before @ replacement text_of (resolve_dot_path vars (trim path)) @ interpolate text_of rest vars"
        using Some p inner q by (simp add: interpolate.simps [of _ template])
      have "length rest < length template" using t a by simp
      from less [OF this] show ?thesis unfolding parts result by (simp add: t a)
    qed
  qed
qed


section \<open>The transform executor\<close>

definition json_get :: "string \<Rightarrow> json \<Rightarrow> json option" where
  "json_get k v = (case v of JObject es \<Rightarrow> map_of es k | _ \<Rightarrow> None)"

fun map_paths ::
    "(string \<Rightarrow> string) \<Rightarrow> json \<Rightarrow> (string \<times> json) list \<Rightarrow> (string \<times> json) list \<Rightarrow> string + (string \<times> json) list" where
  "map_paths dbg input out [] = Inr out"
| "map_paths dbg input out ((target, source) # es) =
     (case source of
        JString path \<Rightarrow> map_paths dbg input (set_dot_path out target (resolve_dot_path input path)) es
      | _ \<Rightarrow> Inl (''mapping value for '' @ dbg target @ '' must be a string''))"

definition render :: "(json \<Rightarrow> string) \<Rightarrow> json \<Rightarrow> json \<Rightarrow> json" where
  "render text_of vars v = (case v of JString s \<Rightarrow> JString (interpolate text_of s vars) | _ \<Rightarrow> v)"

definition transform_execute :: "(string \<Rightarrow> string) \<Rightarrow> (json \<Rightarrow> string) \<Rightarrow> step_context \<Rightarrow> string + json" where
  "transform_execute dbg text_of ctx =
     (case json_get ''mapping'' (sc_config ctx) of
        Some (JObject mapping) \<Rightarrow>
          (case map_paths dbg (sc_input ctx) [] mapping of Inl e \<Rightarrow> Inl e | Inr out \<Rightarrow> Inr (JObject out))
      | Some v \<Rightarrow> Inl ''mapping must be an object''
      | None \<Rightarrow>
     case json_get ''template'' (sc_config ctx) of
        Some (JString template) \<Rightarrow> Inr (JString (interpolate text_of template (sc_input ctx)))
      | Some (JObject entries) \<Rightarrow>
          Inr (JObject (foldl (\<lambda>out (k, v). btree_insert k (render text_of (sc_input ctx) v) out) [] entries))
      | Some v \<Rightarrow> Inr (sc_input ctx)
      | None \<Rightarrow> Inr (sc_input ctx))"

definition transform_executor :: "(string \<Rightarrow> string) \<Rightarrow> (json \<Rightarrow> string) \<Rightarrow> step_executor" where
  "transform_executor dbg text_of = \<lparr> se_handles = (\<lambda>t. t = Transform), se_execute = (\<lambda>n ctx. transform_execute dbg text_of ctx) \<rparr>"


section \<open>The Hephaestus executor\<close>

definition hephaestus_payload :: "step_context \<Rightarrow> (string \<times> json) list" where
  "hephaestus_payload ctx =
     (let payload = (case sc_input ctx of JObject es \<Rightarrow> es | other \<Rightarrow> [(''input'', other)]);
          payload = (case sc_config ctx of JObject es \<Rightarrow> foldl (\<lambda>m (k, v). btree_insert k v m) payload es | _ \<Rightarrow> payload);
          payload = filter (\<lambda>(k, v). k \<noteq> ''tenant_id'') payload in
      filter (\<lambda>(k, v). k \<noteq> ''principal_id'') payload)"

type_synonym hephaestus_dispatch = "nat \<Rightarrow> uuid \<Rightarrow> uuid \<Rightarrow> json \<Rightarrow> string + json"

definition hephaestus_executor :: "hephaestus_dispatch \<Rightarrow> step_executor" where
  "hephaestus_executor dispatch = \<lparr> se_handles = (\<lambda>t. t = Hephaestus),
     se_execute = (\<lambda>n ctx. dispatch n (sc_tenant ctx) (sc_principal ctx) (JObject (hephaestus_payload ctx))) \<rparr>"


section \<open>The composite\<close>

definition composite_execute :: "(string \<Rightarrow> string) \<Rightarrow> step_executor list \<Rightarrow> nat \<Rightarrow> step_context \<Rightarrow> string + json" where
  "composite_execute dbg executors n ctx =
     (case find (\<lambda>e. se_handles e (sc_type ctx)) executors of
        Some e \<Rightarrow> se_execute e n ctx
      | None \<Rightarrow> Inl (''no executor handles step type '' @ dbg (step_type_as_str (sc_type ctx))))"

definition composite_executor :: "(string \<Rightarrow> string) \<Rightarrow> step_executor list \<Rightarrow> step_executor" where
  "composite_executor dbg executors = \<lparr> se_handles = (\<lambda>t. list_ex (\<lambda>e. se_handles e t) executors),
     se_execute = composite_execute dbg executors \<rparr>"

text \<open>What a composite claims, a member that claims it executes.\<close>

lemma composite_delegates:
  assumes "se_handles (composite_executor dbg executors) (sc_type ctx)"
  shows "\<exists>e \<in> set executors. se_handles e (sc_type ctx) \<and> se_execute (composite_executor dbg executors) n ctx = se_execute e n ctx"
proof -
  have "find (\<lambda>e. se_handles e (sc_type ctx)) executors \<noteq> None"
    using assms by (auto simp: composite_executor_def list_ex_iff find_None)
  then obtain e where e: "find (\<lambda>e. se_handles e (sc_type ctx)) executors = Some e" by blast
  with find_SomeD [OF e] show ?thesis by (auto simp: composite_executor_def composite_execute_def)
qed

definition server_executor :: "(string \<Rightarrow> string) \<Rightarrow> (json \<Rightarrow> string) \<Rightarrow> hephaestus_dispatch \<Rightarrow> step_executor" where
  "server_executor dbg text_of dispatch = composite_executor dbg [transform_executor dbg text_of, hephaestus_executor dispatch]"


section \<open>The scope of a dispatch\<close>

definition unscoped :: "json \<Rightarrow> bool" where
  "unscoped v \<longleftrightarrow> json_get ''tenant_id'' v = None \<and> json_get ''principal_id'' v = None"

lemma payload_unscoped: "unscoped (JObject (hephaestus_payload ctx))"
proof -
  have "k \<noteq> ''tenant_id'' \<and> k \<noteq> ''principal_id''" if "(k, v) \<in> set (hephaestus_payload ctx)" for k v
    using that by (auto simp: hephaestus_payload_def Let_def)
  then have "''tenant_id'' \<notin> fst ` set (hephaestus_payload ctx)" "''principal_id'' \<notin> fst ` set (hephaestus_payload ctx)" by fastforce+
  then show ?thesis by (simp add: unscoped_def json_get_def map_of_eq_None_iff)
qed

lemma server_execute_cong:
  assumes "\<And>n v. unscoped v \<Longrightarrow> D n (sc_tenant ctx) (sc_principal ctx) v = E n (sc_tenant ctx) (sc_principal ctx) v"
  shows "se_execute (server_executor dbg text_of D) n ctx = se_execute (server_executor dbg text_of E) n ctx"
  using assms [OF payload_unscoped]
  by (simp add: server_executor_def composite_executor_def composite_execute_def transform_executor_def hephaestus_executor_def)

lemma server_handles: "se_handles (server_executor dbg text_of D) = se_handles (server_executor dbg text_of E)"
  by (simp add: server_executor_def composite_executor_def transform_executor_def hephaestus_executor_def)

lemma inner_cong:
  "complete_step_inner L (W \<lparr> lw_executor := x \<rparr>) s rn retry started out st = complete_step_inner L (W \<lparr> lw_executor := y \<rparr>) s rn retry started out st"
  "fail_step_inner L (W \<lparr> lw_executor := x \<rparr>) s rn retry started m st = fail_step_inner L (W \<lparr> lw_executor := y \<rparr>) s rn retry started m st"
  by (simp_all add: complete_step_inner_def fail_step_inner_def locked_eq seen_def now_of_def)

lemma visit_cong:
  assumes "\<And>n v. unscoped v \<Longrightarrow> D n (rn_tenant rn) (rn_principal rn) v = E n (rn_tenant rn) (rn_principal rn) v"
  shows "visit_step L (W \<lparr> lw_executor := Some (server_executor dbg text_of D) \<rparr>) rn s st =
    visit_step L (W \<lparr> lw_executor := Some (server_executor dbg text_of E) \<rparr>) rn s st"
proof -
  have "execute_step L (W \<lparr> lw_executor := Some (server_executor dbg text_of D) \<rparr>) (server_executor dbg text_of D) rn s started st =
      execute_step L (W \<lparr> lw_executor := Some (server_executor dbg text_of E) \<rparr>) (server_executor dbg text_of E) rn s started st" for started st
    unfolding execute_step_def inner_cong [where x = "Some (server_executor dbg text_of D)" and y = "Some (server_executor dbg text_of E)"]
    by (subst server_execute_cong [of D "step_context_of rn s" E]) (simp_all add: step_context_of_def assms)
  then show ?thesis
    by (simp add: visit_step_def locked_eq seen_def server_handles [of dbg text_of D E] Let_def split: option.split)
qed

text \<open>
  Property C22. A step is dispatched only in the scope of its run: whatever tenant and principal the
  definition, the input or the outputs of other steps name, the dispatch is called with the tenant and
  the principal of the run, and with a payload that names neither. So two dispatches that agree on such
  calls make no difference to the loop over the claimed steps.
\<close>

theorem dispatch_in_scope_of_run:
  assumes "\<And>n v. json_get ''tenant_id'' v = None \<Longrightarrow> json_get ''principal_id'' v = None \<Longrightarrow>
    D n (rn_tenant rn) (rn_principal rn) v = E n (rn_tenant rn) (rn_principal rn) v"
  shows "run_ready L (W \<lparr> lw_executor := Some (server_executor dbg text_of D) \<rparr>) rn ready progress st =
    run_ready L (W \<lparr> lw_executor := Some (server_executor dbg text_of E) \<rparr>) rn ready progress st"
proof (induction ready arbitrary: progress st)
  case (Cons s ready)
  have "visit_step L (W \<lparr> lw_executor := Some (server_executor dbg text_of D) \<rparr>) rn s st =
    visit_step L (W \<lparr> lw_executor := Some (server_executor dbg text_of E) \<rparr>) rn s st"
    by (rule visit_cong) (simp add: assms unscoped_def)
  then show ?case by (simp add: Cons.IH split: prod.split sum.split visit_result.split)
qed simp


section \<open>Concrete transformations\<close>

definition sample_vars :: json where
  "sample_vars = JObject [(''a'', JString ''{{b}}''), (''src'', JObject [(''v'', JBool True)])]"

lemma sample_interpolation: "interpolate (\<lambda>v. ''true'') ''x {{a}} y {{ src.v }} {{gone}}'' sample_vars = ''x {{b}} y true ''"
  by code_simp

lemma sample_mapping:
  "transform_execute id (\<lambda>v. ''true'') \<lparr> sc_run = 7, sc_tenant = 2, sc_principal = 3, sc_step = 1, sc_name = ''t'', sc_type = Transform,
     sc_config = JObject [(''mapping'', JObject [(''out.v'', JString ''src.v''), (''out.w'', JString ''src.x'')])],
     sc_input = sample_vars, sc_timeout_ms = 1 \<rparr> = Inr (JObject [(''out'', JObject [(''v'', JBool True), (''w'', JNull)])])"
  by code_simp

definition sample_path_object :: "(string \<times> json) list" where
  "sample_path_object = [(''a'', JNull), (''b'', JBool False)]"

theorem set_dot_path_sets_exactly_witness:
  "resolve_dot_path (JObject (set_dot_path sample_path_object ''a.c'' JNull)) ''b'' = JBool False"
proof -
  have "apart (split_dots ''a.c'') (split_dots ''b'')" by code_simp
  with set_dot_path_sets_exactly [of sample_path_object "''a.c''" JNull "''b''"] show ?thesis
    by (simp add: resolve_dot_path_def sample_path_object_def)
qed

theorem dispatch_in_scope_of_run_witness:
  "run_ready sample_loom_lib (sample_loom_world [] \<lparr> lw_executor := Some (server_executor id (\<lambda>v. [])
       (\<lambda>n tenant p v. if tenant = 2 \<and> p = 3 \<and> json_get ''tenant_id'' v = None then Inr v else Inl ''foreign'')) \<rparr>)
     (run_row.extend \<lparr> rn_id = 7, rn_workflow = 5, rn_tenant = 2, rn_principal = 3, rn_status = run_status.Running, rn_input_text = ''{}'',
        rn_output_text = ''{}'', rn_error = None, rn_started_at = Some 3, rn_completed_at = None, rn_created_at = 2, rn_updated_at = 2 \<rparr>
        \<lparr> rn_input = JObject [], rn_output = JObject [] \<rparr>) [sample_attempt 1 ''a'' 4] False (sample_engine sample_ops) =
   run_ready sample_loom_lib (sample_loom_world [] \<lparr> lw_executor := Some (server_executor id (\<lambda>v. []) (\<lambda>n tenant p v. Inr v)) \<rparr>)
     (run_row.extend \<lparr> rn_id = 7, rn_workflow = 5, rn_tenant = 2, rn_principal = 3, rn_status = run_status.Running, rn_input_text = ''{}'',
        rn_output_text = ''{}'', rn_error = None, rn_started_at = Some 3, rn_completed_at = None, rn_created_at = 2, rn_updated_at = 2 \<rparr>
        \<lparr> rn_input = JObject [], rn_output = JObject [] \<rparr>) [sample_attempt 1 ''a'' 4] False (sample_engine sample_ops)"
  by (rule dispatch_in_scope_of_run) (simp add: run_row.defs)

end
