(* ===== verification/Axon_Durable.thy ===== *)
theory Axon_Durable
  imports Json Ledger
begin

text \<open>
  The durable event log (\<open>durable.rs\<close> of the crate \<open>syntheos-axon-durable\<close>): write-through publishing,
  positional replay, named consumer cursors and retention. Every method runs under the mutex of the
  connection, so a history of the log is a sequence of the operations of this theory; what the
  in-process bus is given to fan out is recorded in \<open>ax_live\<close>.

  Identifiers and timestamps are columns that hold the canonical text of a value and are modelled by
  the value. Payloads are stored as JSON text and parsed when they are read: the parser is the
  parameter \<open>serde\<close>, and a payload is readable when its printed text parses back to it. The theorems show
  that every consumer gets every event of its tenant and channel exactly once and in order, however
  publishing, consuming and replaying are interleaved, and what one unreadable payload does to it.
\<close>


section \<open>The data\<close>

datatype durable_error = Backend string | InvalidInput string

record envelope =
  ae_id :: uuid
  ae_channel :: string
  ae_kind :: string
  ae_tenant :: uuid
  ae_principal :: uuid
  ae_occurred_at :: int
  ae_payload :: json

record event_row =
  er_seq :: int
  er_id :: uuid
  er_channel :: string
  er_kind :: string
  er_tenant :: uuid
  er_principal :: uuid
  er_occurred_at :: int
  er_payload_text :: string

record stored_envelope =
  se_seq :: int
  se_envelope :: envelope

record cursor_row =
  cu_consumer :: string
  cu_tenant :: uuid
  cu_channel :: string
  cu_last_seq :: int
  cu_updated_at :: int

text \<open>\<open>ax_last\<close> is the entry of \<open>sqlite_sequence\<close>: the largest \<open>seq\<close> ever given out.\<close>

record axon_db =
  ax_events :: "event_row list"
  ax_cursors :: "cursor_row list"
  ax_last :: int
  ax_live :: "envelope list"

definition parse_stored :: "serde \<Rightarrow> event_row \<Rightarrow> durable_error + stored_envelope" where
  "parse_stored S r =
     (case value_parse S (er_payload_text r) of
        None \<Rightarrow> Inl (Backend ''payload parse'')
      | Some v \<Rightarrow> Inr \<lparr> se_seq = er_seq r, se_envelope = \<lparr> ae_id = er_id r, ae_channel = er_channel r, ae_kind = er_kind r,
          ae_tenant = er_tenant r, ae_principal = er_principal r, ae_occurred_at = er_occurred_at r, ae_payload = v \<rparr> \<rparr>)"

fun parse_all :: "serde \<Rightarrow> event_row list \<Rightarrow> durable_error + stored_envelope list" where
  "parse_all S [] = Inr []"
| "parse_all S (r # rs) =
     (case parse_stored S r of
        Inl e \<Rightarrow> Inl e
      | Inr x \<Rightarrow> (case parse_all S rs of Inl e \<Rightarrow> Inl e | Inr xs \<Rightarrow> Inr (x # xs)))"


section \<open>The operations\<close>

definition event_row_of :: "serde \<Rightarrow> int \<Rightarrow> envelope \<Rightarrow> event_row" where
  "event_row_of S n env = \<lparr> er_seq = n, er_id = ae_id env, er_channel = ae_channel env, er_kind = ae_kind env,
     er_tenant = ae_tenant env, er_principal = ae_principal env, er_occurred_at = ae_occurred_at env,
     er_payload_text = value_text S (ae_payload env) \<rparr>"

definition publish :: "serde \<Rightarrow> envelope \<Rightarrow> axon_db \<Rightarrow> axon_db \<times> (durable_error + int)" where
  "publish S env db =
     (if list_ex (\<lambda>r. er_id r = ae_id env) (ax_events db)
      then (db, Inl (Backend ''UNIQUE constraint failed: axon_events.event_id''))
      else if ax_last db = 2 ^ 63 - 1 then (db, Inl (Backend ''database or disk is full''))
      else
        (let n = ax_last db + 1 in
         (db \<lparr> ax_events := ax_events db @ [event_row_of S n env], ax_last := n, ax_live := ax_live db @ [env] \<rparr>, Inr n)))"

definition publish_event :: "serde \<Rightarrow> string + envelope \<Rightarrow> axon_db \<Rightarrow> axon_db \<times> (durable_error + int)" where
  "publish_event S built db =
     (case built of Inl e \<Rightarrow> (db, Inl (Backend (''envelope build: '' @ e))) | Inr env \<Rightarrow> publish S env db)"

text \<open>\<open>WHERE tenant = ? AND seq > ? [AND channel = ?] ORDER BY seq LIMIT ?\<close>.\<close>

definition range_rows :: "uuid \<Rightarrow> string option \<Rightarrow> int \<Rightarrow> event_row list \<Rightarrow> event_row list" where
  "range_rows tenant channel after rows = sort_key er_seq (filter (\<lambda>r. er_tenant r = tenant \<and> after < er_seq r \<and>
     (case channel of Some c \<Rightarrow> er_channel r = c | None \<Rightarrow> True)) rows)"

text \<open>The limit is written into the statement; as a literal beyond \<open>i64\<close> SQLite refuses it.\<close>

definition read_after :: "serde \<Rightarrow> uuid \<Rightarrow> string option \<Rightarrow> int \<Rightarrow> nat \<Rightarrow> axon_db \<Rightarrow> durable_error + stored_envelope list" where
  "read_after S tenant channel after limit db =
     (if 2 ^ 63 \<le> int limit then Inl (Backend ''datatype mismatch'')
      else parse_all S (take limit (range_rows tenant channel after (ax_events db))))"

definition replay :: "serde \<Rightarrow> uuid \<Rightarrow> string option \<Rightarrow> int \<Rightarrow> nat \<Rightarrow> axon_db \<Rightarrow> durable_error + stored_envelope list" where
  "replay S tenant channel after limit db = read_after S tenant channel after limit db"

definition is_cursor :: "string \<Rightarrow> uuid \<Rightarrow> string \<Rightarrow> cursor_row \<Rightarrow> bool" where
  "is_cursor consumer tenant channel c \<longleftrightarrow> cu_consumer c = consumer \<and> cu_tenant c = tenant \<and> cu_channel c = channel"

definition cursor :: "string \<Rightarrow> uuid \<Rightarrow> string \<Rightarrow> axon_db \<Rightarrow> int" where
  "cursor consumer tenant channel db =
     (case find (is_cursor consumer tenant channel) (ax_cursors db) of None \<Rightarrow> 0 | Some c \<Rightarrow> cu_last_seq c)"

text \<open>\<open>INSERT \<dots> ON CONFLICT (consumer, tenant, channel) DO UPDATE\<close>.\<close>

definition upsert_cursor :: "string \<Rightarrow> uuid \<Rightarrow> string \<Rightarrow> int \<Rightarrow> int \<Rightarrow> cursor_row list \<Rightarrow> cursor_row list" where
  "upsert_cursor consumer tenant channel n now cs =
     (if list_ex (is_cursor consumer tenant channel) cs
      then sql_update (is_cursor consumer tenant channel) (\<lambda>c. c \<lparr> cu_last_seq := n, cu_updated_at := now \<rparr>) cs
      else cs @ [\<lparr> cu_consumer = consumer, cu_tenant = tenant, cu_channel = channel, cu_last_seq = n, cu_updated_at = now \<rparr>])"

definition consume ::
    "serde \<Rightarrow> int \<Rightarrow> string \<Rightarrow> uuid \<Rightarrow> string \<Rightarrow> nat \<Rightarrow> axon_db \<Rightarrow> axon_db \<times> (durable_error + stored_envelope list)" where
  "consume S now consumer tenant channel limit db =
     (if trim consumer = []
      then (db, Inl (InvalidInput ''consumer name must be non-empty (anonymous cursors would collide)''))
      else case read_after S tenant (Some channel) (cursor consumer tenant channel db) limit db of
        Inl e \<Rightarrow> (db, Inl e)
      | Inr batch \<Rightarrow>
          (if batch = [] then db
           else db \<lparr> ax_cursors := upsert_cursor consumer tenant channel (se_seq (last batch)) now (ax_cursors db) \<rparr>, Inr batch))"

definition prune_before :: "int \<Rightarrow> axon_db \<Rightarrow> axon_db \<times> nat" where
  "prune_before n db = (db \<lparr> ax_events := filter (\<lambda>r. \<not> er_seq r < n) (ax_events db) \<rparr>, sql_changed (\<lambda>r. er_seq r < n) (ax_events db))"

text \<open>An operation of a history; \<open>Publish\<close> is given the envelope that \<open>publish_event\<close> builds.\<close>

datatype axon_op =
    Publish envelope
  | Replay uuid "string option" int nat
  | Consume int string uuid string nat
  | Cursor string uuid string
  | Prune int

datatype axon_reply = Published "durable_error + int" | Batch "durable_error + stored_envelope list" | Position int | Pruned nat

fun axon_apply :: "serde \<Rightarrow> axon_op \<Rightarrow> axon_db \<Rightarrow> axon_db \<times> axon_reply" where
  "axon_apply S (Publish env) db = map_prod id Published (publish S env db)"
| "axon_apply S (Replay tenant channel after limit) db = (db, Batch (replay S tenant channel after limit db))"
| "axon_apply S (Consume now consumer tenant channel limit) db =
     map_prod id Batch (consume S now consumer tenant channel limit db)"
| "axon_apply S (Cursor consumer tenant channel) db = (db, Position (cursor consumer tenant channel db))"
| "axon_apply S (Prune n) db = map_prod id Pruned (prune_before n db)"

definition empty_axon :: axon_db where
  "empty_axon = \<lparr> ax_events = [], ax_cursors = [], ax_last = 0, ax_live = [] \<rparr>"


section \<open>The contract: one mailbox per consumer\<close>

text \<open>
  What the log promises, without positions in tables: every consumer of a tenant and channel has a
  mailbox. A published event is put into the mailboxes of its tenant and channel, also into those of
  consumers that have never called; consuming takes from the front of one mailbox; retention removes
  old events everywhere.
\<close>

record mail_state =
  ml_log :: "stored_envelope list"
  ml_box :: "string \<times> uuid \<times> string \<Rightarrow> stored_envelope list"
  ml_pos :: "string \<times> uuid \<times> string \<Rightarrow> int"
  ml_last :: int

definition se_in :: "uuid \<Rightarrow> string option \<Rightarrow> int \<Rightarrow> stored_envelope \<Rightarrow> bool" where
  "se_in tenant channel after x \<longleftrightarrow> ae_tenant (se_envelope x) = tenant \<and> after < se_seq x \<and>
     (case channel of Some c \<Rightarrow> ae_channel (se_envelope x) = c | None \<Rightarrow> True)"

fun mail_apply :: "axon_op \<Rightarrow> mail_state \<Rightarrow> mail_state \<times> axon_reply" where
  "mail_apply (Publish env) m =
     (if list_ex (\<lambda>x. ae_id (se_envelope x) = ae_id env) (ml_log m)
      then (m, Published (Inl (Backend ''UNIQUE constraint failed: axon_events.event_id'')))
      else
        (let x = \<lparr> se_seq = ml_last m + 1, se_envelope = env \<rparr> in
         (m \<lparr> ml_log := ml_log m @ [x],
              ml_box := (\<lambda>(consumer, tenant, channel). if tenant = ae_tenant env \<and> channel = ae_channel env
                then ml_box m (consumer, tenant, channel) @ [x] else ml_box m (consumer, tenant, channel)),
              ml_last := ml_last m + 1 \<rparr>, Published (Inr (ml_last m + 1)))))"
| "mail_apply (Replay tenant channel after limit) m =
     (m, Batch (if 2 ^ 63 \<le> int limit then Inl (Backend ''datatype mismatch'')
                else Inr (take limit (filter (se_in tenant channel after) (ml_log m)))))"
| "mail_apply (Consume now consumer tenant channel limit) m =
     (let key = (consumer, tenant, channel); batch = take limit (ml_box m key) in
      if trim consumer = [] then
        (m, Batch (Inl (InvalidInput ''consumer name must be non-empty (anonymous cursors would collide)'')))
      else if 2 ^ 63 \<le> int limit then (m, Batch (Inl (Backend ''datatype mismatch'')))
      else (m \<lparr> ml_box := (ml_box m)(key := drop limit (ml_box m key)),
                ml_pos := (if batch = [] then ml_pos m else (ml_pos m)(key := se_seq (last batch))) \<rparr>, Batch (Inr batch)))"
| "mail_apply (Cursor consumer tenant channel) m = (m, Position (ml_pos m (consumer, tenant, channel)))"
| "mail_apply (Prune n) m =
     (m \<lparr> ml_log := filter (\<lambda>x. \<not> se_seq x < n) (ml_log m),
          ml_box := (\<lambda>key. filter (\<lambda>x. \<not> se_seq x < n) (ml_box m key)) \<rparr>,
      Pruned (length (filter (\<lambda>x. se_seq x < n) (ml_log m))))"

definition empty_mail :: mail_state where
  "empty_mail = \<lparr> ml_log = [], ml_box = (\<lambda>_. []), ml_pos = (\<lambda>_. 0), ml_last = 0 \<rparr>"


section \<open>The invariant and the view\<close>

text \<open>
  Rows are in the order of their positions, which were all given out; cursors are keyed and not ahead.
  A payload is printable when its text parses back to it.
\<close>

definition axon_inv :: "serde \<Rightarrow> nat \<Rightarrow> axon_db \<Rightarrow> bool" where
  "axon_inv S n db \<longleftrightarrow> sorted_wrt (\<lambda>a b. er_seq a < er_seq b) (ax_events db) \<and> (\<forall>r \<in> set (ax_events db). er_seq r \<le> ax_last db) \<and>
     (\<forall>r \<in> set (ax_events db). value_parse S (er_payload_text r) \<noteq> None) \<and> 0 \<le> ax_last db \<and> ax_last db \<le> int n \<and>
     (\<forall>c \<in> set (ax_cursors db). cu_last_seq c \<le> ax_last db)"

definition printable :: "serde \<Rightarrow> json \<Rightarrow> bool" where
  "printable S v \<longleftrightarrow> value_parse S (value_text S v) = Some v"

fun axon_op_ok :: "serde \<Rightarrow> axon_op \<Rightarrow> bool" where
  "axon_op_ok S (Publish env) \<longleftrightarrow> printable S (ae_payload env)"
| "axon_op_ok S _ \<longleftrightarrow> True"

definition stored :: "serde \<Rightarrow> event_row \<Rightarrow> stored_envelope" where
  "stored S r = projr (parse_stored S r)"

definition mail_of :: "serde \<Rightarrow> axon_db \<Rightarrow> mail_state" where
  "mail_of S db = \<lparr> ml_log = map (stored S) (ax_events db),
     ml_box = (\<lambda>(consumer, tenant, channel).
       map (stored S) (range_rows tenant (Some channel) (cursor consumer tenant channel db) (ax_events db))),
     ml_pos = (\<lambda>(consumer, tenant, channel). cursor consumer tenant channel db), ml_last = ax_last db \<rparr>"

definition in_range :: "uuid \<Rightarrow> string option \<Rightarrow> int \<Rightarrow> event_row \<Rightarrow> bool" where
  "in_range tenant channel after r \<longleftrightarrow> er_tenant r = tenant \<and> after < er_seq r \<and>
     (case channel of Some c \<Rightarrow> er_channel r = c | None \<Rightarrow> True)"

lemma range_rows_eq:
  assumes "sorted_wrt (\<lambda>a b. er_seq a < er_seq b) rows"
  shows "range_rows tenant channel after rows = filter (in_range tenant channel after) rows"
proof -
  have "sorted_wrt (\<lambda>a b. er_seq a \<le> er_seq b) (filter P rows)" for P
    by (rule sorted_wrt_mono_rel [OF _ sorted_wrt_filter [OF assms]]) simp
  then have "sorted (map er_seq (filter P rows))" for P by (simp add: sorted_map)
  then show ?thesis unfolding range_rows_def in_range_def by (intro sort_key_id_if_sorted)
qed

lemma stored_fields:
  assumes "value_parse S (er_payload_text r) \<noteq> None"
  shows "parse_stored S r = Inr (stored S r)" "se_seq (stored S r) = er_seq r"
    "ae_id (se_envelope (stored S r)) = er_id r" "ae_tenant (se_envelope (stored S r)) = er_tenant r"
    "ae_channel (se_envelope (stored S r)) = er_channel r"
  using assms by (auto simp: stored_def parse_stored_def)

lemma stored_event_row: "printable S (ae_payload env) \<Longrightarrow> stored S (event_row_of S n env) = \<lparr> se_seq = n, se_envelope = env \<rparr>"
  by (simp add: stored_def parse_stored_def event_row_of_def printable_def)

lemma parse_all_stored:
  "\<forall>r \<in> set rs. value_parse S (er_payload_text r) \<noteq> None \<Longrightarrow> parse_all S rs = Inr (map (stored S) rs)"
  by (induction rs) (simp_all add: stored_fields(1))

lemma filter_stored:
  assumes "\<forall>r \<in> set rs. value_parse S (er_payload_text r) \<noteq> None"
    "\<And>r. value_parse S (er_payload_text r) \<noteq> None \<Longrightarrow> Q (stored S r) = P r"
  shows "filter Q (map (stored S) rs) = map (stored S) (filter P rs)"
  using assms by (induction rs) auto

lemma se_in_stored: "value_parse S (er_payload_text r) \<noteq> None \<Longrightarrow> se_in tenant channel after (stored S r) = in_range tenant channel after r"
  by (cases channel) (simp_all add: se_in_def in_range_def stored_fields)

text \<open>A cursor at the end of a batch leaves exactly the rest.\<close>

lemma filter_after_batch:
  assumes "sorted_wrt (\<lambda>a b. er_seq a < er_seq b) xs" "take n xs \<noteq> []"
  shows "filter (\<lambda>r. er_seq (last (take n xs)) < er_seq r) xs = drop n xs"
proof -
  define m where "m = last (take n xs)"
  have s: "sorted_wrt (\<lambda>a b. er_seq a < er_seq b) (take n xs @ drop n xs)" using assms(1) by simp
  have t: "take n xs = butlast (take n xs) @ [m]" using assms(2) by (simp add: m_def)
  have "sorted_wrt (\<lambda>a b. er_seq a < er_seq b) (butlast (take n xs) @ [m])"
    using s unfolding sorted_wrt_append t [symmetric] by blast
  then have "\<not> er_seq m < er_seq r" if "r \<in> set (butlast (take n xs)) \<or> r = m" for r
    using that unfolding sorted_wrt_append by auto
  then have a: "filter (\<lambda>r. er_seq m < er_seq r) (take n xs) = []"
    unfolding filter_empty_conv by (subst t) auto
  have "m \<in> set (take n xs)" using assms(2) by (simp add: m_def)
  then have b: "filter (\<lambda>r. er_seq m < er_seq r) (drop n xs) = drop n xs"
    using s unfolding sorted_wrt_append by (intro filter_True) blast
  have "filter (\<lambda>r. er_seq m < er_seq r) (take n xs @ drop n xs) = drop n xs" unfolding filter_append a b by simp
  then show ?thesis by (simp add: m_def)
qed


section \<open>Cursors\<close>

lemma cursor_upsert:
  "cursor a b c (db \<lparr> ax_cursors := upsert_cursor consumer tenant channel n now (ax_cursors db) \<rparr>) =
     (if (a, b, c) = (consumer, tenant, channel) then n else cursor a b c db)"
proof -
  have "find (is_cursor a b c) (upsert_cursor consumer tenant channel n now cs) =
      (if (a, b, c) = (consumer, tenant, channel)
       then Some (case find (is_cursor consumer tenant channel) cs of
           None \<Rightarrow> \<lparr> cu_consumer = consumer, cu_tenant = tenant, cu_channel = channel, cu_last_seq = n, cu_updated_at = now \<rparr>
         | Some x \<Rightarrow> x \<lparr> cu_last_seq := n, cu_updated_at := now \<rparr>)
       else find (is_cursor a b c) cs)" for cs
  proof (cases "list_ex (is_cursor consumer tenant channel) cs")
    case True
    then have u: "upsert_cursor consumer tenant channel n now cs =
        sql_update (is_cursor consumer tenant channel) (\<lambda>c. c \<lparr> cu_last_seq := n, cu_updated_at := now \<rparr>) cs"
      by (simp add: upsert_cursor_def)
    obtain x where "find (is_cursor consumer tenant channel) cs = Some x"
      using True by (cases "find (is_cursor consumer tenant channel) cs") (auto simp: find_None list_ex_iff)
    moreover have "find (is_cursor consumer tenant channel) (upsert_cursor consumer tenant channel n now cs) =
        map_option (\<lambda>c. c \<lparr> cu_last_seq := n, cu_updated_at := now \<rparr>) (find (is_cursor consumer tenant channel) cs)"
      unfolding u by (rule find_sql_update_same) (simp add: is_cursor_def)
    ultimately show ?thesis unfolding u by (auto simp: is_cursor_def intro!: find_sql_update_other)
  next
    case False
    then have none: "find (is_cursor consumer tenant channel) cs = None" by (auto simp: find_None list_ex_iff)
    from False show ?thesis by (auto simp: upsert_cursor_def find_append none is_cursor_def split: option.splits)
  qed
  then show ?thesis by (auto simp: cursor_def split: option.splits)
qed

lemma cursor_le:
  assumes "\<forall>c \<in> set (ax_cursors db). cu_last_seq c \<le> ax_last db" "0 \<le> ax_last db"
  shows "cursor consumer tenant channel db \<le> ax_last db"
  using assms by (auto simp: cursor_def dest!: find_SomeD split: option.splits)

lemma upsert_cursors_in:
  "x \<in> set (upsert_cursor consumer tenant channel n now cs) \<Longrightarrow> cu_last_seq x = n \<or> (\<exists>y \<in> set cs. cu_last_seq x = cu_last_seq y)"
  by (auto simp: upsert_cursor_def sql_update_def split: if_splits)


section \<open>Every operation follows the contract\<close>

lemma axon_invD:
  assumes "axon_inv S n db"
  shows "sorted_wrt (\<lambda>a b. er_seq a < er_seq b) (ax_events db)"
    "r \<in> set (ax_events db) \<Longrightarrow> er_seq r \<le> ax_last db"
    "\<forall>r \<in> set (ax_events db). value_parse S (er_payload_text r) \<noteq> None"
    "0 \<le> ax_last db" "ax_last db \<le> int n" "\<forall>c \<in> set (ax_cursors db). cu_last_seq c \<le> ax_last db"
  using assms by (auto simp: axon_inv_def)

lemma axon_inv_later: "axon_inv S n db \<Longrightarrow> axon_inv S (Suc n) db"
  by (auto simp: axon_inv_def)

lemma range_rows_in: "set (range_rows tenant channel after rows) \<subseteq> set rows"
  by (auto simp: range_rows_def)

lemma read_after_stored:
  assumes "axon_inv S n db" "int limit < 2 ^ 63"
  shows "read_after S tenant channel after limit db =
    Inr (map (stored S) (take limit (range_rows tenant channel after (ax_events db))))"
proof -
  have "\<forall>r \<in> set (take limit (range_rows tenant channel after (ax_events db))). value_parse S (er_payload_text r) \<noteq> None"
    using axon_invD(3) [OF assms(1)] by (meson in_set_takeD range_rows_in subsetD)
  then show ?thesis using assms(2) by (simp add: read_after_def parse_all_stored)
qed

lemma mail_log_range:
  assumes "axon_inv S n db"
  shows "filter (se_in tenant channel after) (map (stored S) (ax_events db)) =
    map (stored S) (range_rows tenant channel after (ax_events db))"
  unfolding range_rows_eq [OF axon_invD(1) [OF assms]]
  by (rule filter_stored [OF axon_invD(3) [OF assms]]) (rule se_in_stored)

lemma publish_follows:
  assumes "axon_inv S n db" "n < 2 ^ 63 - 1" "printable S (ae_payload env)"
  shows "axon_inv S (Suc n) (fst (publish S env db))"
    and "mail_apply (Publish env) (mail_of S db) = map_prod (mail_of S) Published (publish S env db)"
proof -
  note inv = axon_invD [OF assms(1)]
  have "int n < 2 ^ 63 - 1" using assms(2) by simp
  then have not_full: "ax_last db \<noteq> 2 ^ 63 - 1" using inv(5) by linarith
  let ?r = "event_row_of S (ax_last db + 1) env"
  have r: "er_seq ?r = ax_last db + 1" "er_tenant ?r = ae_tenant env" "er_channel ?r = ae_channel env"
    "value_parse S (er_payload_text ?r) \<noteq> None" using assms(3) by (simp_all add: event_row_of_def printable_def)
  have "sorted_wrt (\<lambda>a b. er_seq a < er_seq b) (ax_events db @ [?r])"
    using inv(1,2) r(1) by (auto simp: sorted_wrt_append)
  with inv not_full r show "axon_inv S (Suc n) (fst (publish S env db))"
    using axon_inv_later [OF assms(1)] by (auto simp: publish_def Let_def axon_inv_def dest: inv(2))
  have dup: "list_ex (\<lambda>x. ae_id (se_envelope x) = ae_id env) (map (stored S) (ax_events db)) \<longleftrightarrow>
      list_ex (\<lambda>r. er_id r = ae_id env) (ax_events db)"
    using inv(3) by (auto simp: list_ex_iff stored_fields)
  have "range_rows tenant (Some channel) (cursor consumer tenant channel db) (ax_events db @ [?r]) =
      range_rows tenant (Some channel) (cursor consumer tenant channel db) (ax_events db) @
        (if tenant = ae_tenant env \<and> channel = ae_channel env then [?r] else [])" for consumer tenant channel
    using \<open>sorted_wrt _ (_ @ _)\<close> inv(1) r cursor_le [OF inv(6,4), of consumer tenant channel]
    by (simp add: range_rows_eq in_range_def)
  then show "mail_apply (Publish env) (mail_of S db) = map_prod (mail_of S) Published (publish S env db)"
    using dup not_full stored_event_row [OF assms(3), of "ax_last db + 1"]
    by (auto simp: publish_def mail_of_def Let_def fun_eq_iff cursor_def)
qed

lemma consume_follows:
  assumes "axon_inv S n db"
  shows "axon_inv S (Suc n) (fst (consume S now consumer tenant channel limit db))"
    and "mail_apply (Consume now consumer tenant channel limit) (mail_of S db) =
      map_prod (mail_of S) Batch (consume S now consumer tenant channel limit db)"
proof -
  note inv = axon_invD [OF assms]
  let ?rows = "range_rows tenant (Some channel) (cursor consumer tenant channel db) (ax_events db)"
  consider "trim consumer = []" | "trim consumer \<noteq> []" "2 ^ 63 \<le> int limit" | "trim consumer \<noteq> []" "int limit < 2 ^ 63" by linarith
  then have "axon_inv S (Suc n) (fst (consume S now consumer tenant channel limit db)) \<and>
    mail_apply (Consume now consumer tenant channel limit) (mail_of S db) =
      map_prod (mail_of S) Batch (consume S now consumer tenant channel limit db)"
  proof cases
    case 1
    then show ?thesis using axon_inv_later [OF assms] by (simp add: consume_def Let_def)
  next
    case 2
    then show ?thesis using axon_inv_later [OF assms] by (simp add: consume_def read_after_def Let_def)
  next
    case 3
    note batch = read_after_stored [OF assms 3(2), of tenant "Some channel" "cursor consumer tenant channel db"]
    show ?thesis
    proof (cases "take limit ?rows = []")
      case True
      then have drop: "drop limit ?rows = ?rows" by (cases limit) auto
      show ?thesis using 3 True drop axon_inv_later [OF assms] by (simp add: consume_def batch mail_of_def Let_def fun_eq_iff take_map drop_map)
    next
      case False
      let ?m = "er_seq (last (take limit ?rows))"
      let ?db = "db \<lparr> ax_cursors := upsert_cursor consumer tenant channel ?m now (ax_cursors db) \<rparr>"
      have sorted: "sorted_wrt (\<lambda>a b. er_seq a < er_seq b) ?rows"
        unfolding range_rows_eq [OF inv(1)] by (rule sorted_wrt_filter [OF inv(1)])
      have last_in: "last (take limit ?rows) \<in> set ?rows" using False by (meson in_set_takeD last_in_set)
      then have m: "last (take limit ?rows) \<in> set (ax_events db)" "cursor consumer tenant channel db < ?m"
        using range_rows_in by (auto simp: range_rows_eq [OF inv(1)] in_range_def)
      have seq: "se_seq (last (map (stored S) (take limit ?rows))) = ?m"
        using False m(1) inv(3) by (simp add: last_map stored_fields(2))
      have c: "consume S now consumer tenant channel limit db = (?db, Inr (map (stored S) (take limit ?rows)))"
        using 3 False seq by (simp add: consume_def batch)
      have rest: "range_rows tenant (Some channel) ?m (ax_events db) = drop limit ?rows"
      proof -
        have "range_rows tenant (Some channel) ?m (ax_events db) = filter (\<lambda>r. ?m < er_seq r) ?rows"
          unfolding range_rows_eq [OF inv(1)] filter_filter using m(2)
          by (intro filter_cong) (auto simp: in_range_def range_rows_eq [OF inv(1)])
        then show ?thesis using filter_after_batch [OF sorted False] by simp
      qed
      have "axon_inv S (Suc n) ?db"
        using axon_inv_later [OF assms] inv(2) [OF m(1)] inv(6) by (auto simp: axon_inv_def dest!: upsert_cursors_in)
      moreover have "mail_apply (Consume now consumer tenant channel limit) (mail_of S db) =
          (mail_of S ?db, Batch (Inr (map (stored S) (take limit ?rows))))"
        using 3 False seq rest
        by (auto simp: mail_of_def Let_def fun_eq_iff cursor_upsert take_map drop_map)
      ultimately show ?thesis unfolding c by simp
    qed
  qed
  then show "axon_inv S (Suc n) (fst (consume S now consumer tenant channel limit db))"
    "mail_apply (Consume now consumer tenant channel limit) (mail_of S db) =
      map_prod (mail_of S) Batch (consume S now consumer tenant channel limit db)" by blast+
qed

lemma prune_follows:
  assumes "axon_inv S n db"
  shows "axon_inv S (Suc n) (fst (prune_before k db))"
    and "mail_apply (Prune k) (mail_of S db) = map_prod (mail_of S) Pruned (prune_before k db)"
proof -
  note inv = axon_invD [OF assms]
  let ?rest = "filter (\<lambda>r. \<not> er_seq r < k) (ax_events db)"
  have sorted: "sorted_wrt (\<lambda>a b. er_seq a < er_seq b) ?rest" by (rule sorted_wrt_filter [OF inv(1)])
  then show "axon_inv S (Suc n) (fst (prune_before k db))" using inv by (auto simp: prune_before_def axon_inv_def)
  have old: "filter (\<lambda>x. se_seq x < k) (map (stored S) (ax_events db)) = map (stored S) (filter (\<lambda>r. er_seq r < k) (ax_events db))"
    by (rule filter_stored [OF inv(3)]) (simp add: stored_fields)
  have new: "filter (\<lambda>x. \<not> se_seq x < k) (map (stored S) rows) = map (stored S) (filter (\<lambda>r. \<not> er_seq r < k) rows)"
    if "set rows \<subseteq> set (ax_events db)" for rows
    using inv(3) that by (intro filter_stored) (auto simp: stored_fields)
  have "range_rows tenant (Some channel) after ?rest = filter (\<lambda>r. \<not> er_seq r < k) (range_rows tenant (Some channel) after (ax_events db))"
    for tenant channel after
    unfolding range_rows_eq [OF inv(1)] range_rows_eq [OF sorted] filter_filter by (intro filter_cong) auto
  then show "mail_apply (Prune k) (mail_of S db) = map_prod (mail_of S) Pruned (prune_before k db)"
    using old new [OF subset_refl] new [OF range_rows_in]
    by (simp add: prune_before_def mail_of_def fun_eq_iff sql_changed_def cursor_def)
qed

lemma axon_follows:
  assumes "axon_inv S n db" "axon_op_ok S x" "n < 2 ^ 63 - 1"
  shows "axon_inv S (Suc n) (fst (axon_apply S x db))"
    and "mail_apply x (mail_of S db) = map_prod (mail_of S) id (axon_apply S x db)"
proof -
  have "axon_inv S (Suc n) (fst (axon_apply S x db)) \<and>
    mail_apply x (mail_of S db) = map_prod (mail_of S) id (axon_apply S x db)"
  proof (cases x)
    case (Publish env)
    then show ?thesis using publish_follows [OF assms(1,3), of env] assms(2) by (cases "publish S env db") simp
  next
    case (Replay tenant channel after limit)
    have "replay S tenant channel after limit db = (if 2 ^ 63 \<le> int limit then Inl (Backend ''datatype mismatch'')
        else Inr (take limit (filter (se_in tenant channel after) (map (stored S) (ax_events db)))))"
    proof (cases "2 ^ 63 \<le> int limit")
      case True
      then show ?thesis by (simp add: replay_def read_after_def)
    next
      case False
      then have "int limit < 2 ^ 63" by simp
      from read_after_stored [OF assms(1) this] False show ?thesis
        unfolding mail_log_range [OF assms(1)] take_map by (simp add: replay_def)
    qed
    then show ?thesis using axon_inv_later [OF assms(1)] Replay by (simp add: mail_of_def)
  next
    case (Consume now consumer tenant channel limit)
    then show ?thesis using consume_follows [OF assms(1), of now consumer tenant channel limit]
      by (cases "consume S now consumer tenant channel limit db") simp
  next
    case (Cursor consumer tenant channel)
    then show ?thesis using axon_inv_later [OF assms(1)] by (simp add: mail_of_def)
  next
    case (Prune k)
    then show ?thesis using prune_follows [OF assms(1), of k] by (cases "prune_before k db") simp
  qed
  then show "axon_inv S (Suc n) (fst (axon_apply S x db))"
    "mail_apply x (mail_of S db) = map_prod (mail_of S) id (axon_apply S x db)" by blast+
qed

interpretation mailboxes: refining_store "axon_apply S" mail_apply "mail_of S" "axon_op_ok S" "axon_inv S" "2 ^ 63 - 1"
  by unfold_locales (fact axon_follows)+


section \<open>Delivery\<close>

text \<open>What a history published to a channel of a tenant, and what it delivered to one consumer.\<close>

fun published :: "uuid \<Rightarrow> string \<Rightarrow> axon_op list \<Rightarrow> axon_reply list \<Rightarrow> stored_envelope list" where
  "published tenant channel (Publish env # xs) (Published (Inr n) # rs) =
     (if ae_tenant env = tenant \<and> ae_channel env = channel then [\<lparr> se_seq = n, se_envelope = env \<rparr>] else []) @
     published tenant channel xs rs"
| "published tenant channel (x # xs) (r # rs) = published tenant channel xs rs"
| "published tenant channel _ _ = []"

fun delivered :: "string \<Rightarrow> uuid \<Rightarrow> string \<Rightarrow> axon_op list \<Rightarrow> axon_reply list \<Rightarrow> stored_envelope list" where
  "delivered consumer tenant channel (Consume now c t ch limit # xs) (Batch (Inr batch) # rs) =
     (if (c, t, ch) = (consumer, tenant, channel) then batch else []) @ delivered consumer tenant channel xs rs"
| "delivered consumer tenant channel (x # xs) (r # rs) = delivered consumer tenant channel xs rs"
| "delivered consumer tenant channel _ _ = []"

fun keeps_events :: "axon_op \<Rightarrow> bool" where
  "keeps_events (Prune n) = False"
| "keeps_events _ = True"

lemma mail_delivery:
  assumes "list_all keeps_events xs"
  shows "ml_box m (consumer, tenant, channel) @ published tenant channel xs (snd (run mail_apply xs m)) =
    delivered consumer tenant channel xs (snd (run mail_apply xs m)) @ ml_box (fst (run mail_apply xs m)) (consumer, tenant, channel)"
  using assms
proof (induction xs arbitrary: m)
  case (Cons x xs)
  let ?k = "(consumer, tenant, channel)"
  have IH: "ml_box m' ?k @ published tenant channel xs (snd (run mail_apply xs m')) =
      delivered consumer tenant channel xs (snd (run mail_apply xs m')) @ ml_box (fst (run mail_apply xs m')) ?k" for m'
    using Cons by simp
  show ?case
  proof (cases x)
    case (Publish env)
    show ?thesis using IH [of "fst (mail_apply x m)"] unfolding Publish
      by (auto simp: run_Cons Let_def simp del: run.simps(2))
  next
    case (Consume now c t ch limit)
    define m' where "m' = fst (mail_apply x m)"
    define ps ds box where "ps = published tenant channel xs (snd (run mail_apply xs m'))"
      and "ds = delivered consumer tenant channel xs (snd (run mail_apply xs m'))" and "box = ml_box (fst (run mail_apply xs m')) ?k"
    have ih: "ml_box m' ?k @ ps = ds @ box" unfolding ps_def ds_def box_def by (rule IH)
    have p: "published tenant channel (x # xs) (snd (run mail_apply (x # xs) m)) = ps"
      unfolding Consume ps_def m'_def by (simp add: run_Cons Let_def del: run.simps(2))
    have b: "ml_box (fst (run mail_apply (x # xs) m)) ?k = box" unfolding box_def m'_def by (simp add: run_Cons del: run.simps(2))
    show ?thesis
    proof (cases "trim c = [] \<or> 2 ^ 63 \<le> int limit \<or> (c, t, ch) \<noteq> ?k")
      case True
      then have "delivered consumer tenant channel (x # xs) (snd (run mail_apply (x # xs) m)) = ds" "ml_box m' ?k = ml_box m ?k"
        unfolding Consume ds_def m'_def by (auto simp: run_Cons Let_def simp del: run.simps(2))
      then show ?thesis using ih p b by simp
    next
      case False
      then have "delivered consumer tenant channel (x # xs) (snd (run mail_apply (x # xs) m)) = take limit (ml_box m ?k) @ ds"
        "ml_box m' ?k = drop limit (ml_box m ?k)"
        unfolding Consume ds_def m'_def by (auto simp: run_Cons Let_def simp del: run.simps(2))
      then show ?thesis using ih p b by (metis append_assoc append_take_drop_id)
    qed
  qed (use IH [of "fst (mail_apply x m)"] Cons.prems in \<open>simp_all add: run_Cons del: run.simps(2)\<close>)
qed simp

lemma empty_axon_ok: "axon_inv S 0 empty_axon" "mail_of S empty_axon = empty_mail"
  by (auto simp: axon_inv_def empty_axon_def mail_of_def empty_mail_def range_rows_def cursor_def)

lemma axon_run_follows:
  assumes "list_all (axon_op_ok S) ops" "length ops \<le> 2 ^ 63 - 1"
  shows "run mail_apply ops empty_mail = map_prod (mail_of S) id (run (axon_apply S) ops empty_axon)"
    and "axon_inv S (length ops) (fst (run (axon_apply S) ops empty_axon))"
  using mailboxes.run_refines [OF empty_axon_ok(1) assms(1)] assms(2) by (simp_all add: empty_axon_ok(2))

definition sample_event :: "nat \<Rightarrow> string \<Rightarrow> envelope" where
  "sample_event n channel = \<lparr> ae_id = of_nat n, ae_channel = channel, ae_kind = ''task.created'', ae_tenant = 2, ae_principal = 3,
     ae_occurred_at = 4, ae_payload = JObject [] \<rparr>"

definition sample_log :: "axon_op list" where
  "sample_log = [Publish (sample_event 1 ''task''), Consume 5 ''narrator'' 2 ''task'' 10, Publish (sample_event 2 ''task''),
     Publish (sample_event 3 ''claim''), Publish (sample_event 4 ''task''), Consume 6 ''narrator'' 2 ''task'' 1]"

abbreviation object_serde :: serde where
  "object_serde \<equiv> sample_serde (\<lambda>_. Some (JObject []))"

lemma sample_log_ok: "list_all (axon_op_ok object_serde) sample_log"
  by (simp add: sample_log_def printable_def sample_event_def sample_serde_def)


section \<open>Properties\<close>

text \<open>
  Property C23. The durable log is a set of mailboxes. In every history of publishing, replaying, consuming,
  reading cursors and pruning, of at most 2^63 - 1 operations and in which every published payload is read
  back by \<open>serde_json\<close> as the value that was printed (it nests below the recursion limit), every reply is the one the
  mailboxes give, and the tables show exactly the mailboxes that are left. A payload that is not read
  back blocks its consumers: \<open>unreadable_event_blocks\<close>.
\<close>

theorem durable_log_refines_mailboxes:
  assumes "list_all (axon_op_ok S) ops" "length ops \<le> 2 ^ 63 - 1"
  shows "run mail_apply ops empty_mail = map_prod (mail_of S) id (run (axon_apply S) ops empty_axon)"
  using assms by (rule axon_run_follows)

theorem durable_log_refines_mailboxes_witness:
  "run mail_apply (sample_log @ [Prune 3, Replay 2 None 0 10]) empty_mail =
     map_prod (mail_of object_serde) id (run (axon_apply object_serde) (sample_log @ [Prune 3, Replay 2 None 0 10]) empty_axon) \<and>
   map se_seq (projr (case last (snd (run (axon_apply object_serde) (sample_log @ [Prune 3, Replay 2 None 0 10]) empty_axon)) of Batch r \<Rightarrow> r | _ \<Rightarrow> Inr [])) = [3, 4]"
proof
  show "run mail_apply (sample_log @ [Prune 3, Replay 2 None 0 10]) empty_mail =
     map_prod (mail_of object_serde) id (run (axon_apply object_serde) (sample_log @ [Prune 3, Replay 2 None 0 10]) empty_axon)"
    by (rule durable_log_refines_mailboxes) (use sample_log_ok in \<open>simp_all add: sample_log_def\<close>)
qed code_simp

text \<open>
  Property C24. While nothing is pruned and every published payload is read back as it was printed (see the
  previous property), every named consumer is delivered a prefix of what was published to the tenant and
  channel, in order and without repetition, and its next batch is the next events of it.
\<close>

theorem delivered_in_order_once:
  fixes ops :: "axon_op list" and S :: serde
  defines "db \<equiv> fst (run (axon_apply S) ops empty_axon)" and "replies \<equiv> snd (run (axon_apply S) ops empty_axon)"
  assumes "list_all (axon_op_ok S) ops" "length ops < 2 ^ 63 - 1" "list_all keeps_events ops"
    and "trim consumer \<noteq> []" "int limit < 2 ^ 63"
  shows "\<exists>rest. published tenant channel ops replies = delivered consumer tenant channel ops replies @ rest \<and>
    snd (axon_apply S (Consume now consumer tenant channel limit) db) = Batch (Inr (take limit rest))"
proof -
  let ?m = "fst (run mail_apply ops empty_mail)" and ?k = "(consumer, tenant, channel)"
  have len: "length ops \<le> 2 ^ 63 - 1" using assms(4) by simp
  note run = axon_run_follows [OF assms(3) len]
  have m: "?m = mail_of S db" "snd (run mail_apply ops empty_mail) = replies" using run(1) by (simp_all add: db_def replies_def)
  have "mail_apply (Consume now consumer tenant channel limit) (mail_of S db) =
      map_prod (mail_of S) id (axon_apply S (Consume now consumer tenant channel limit) db)"
    using axon_follows(2) [OF run(2) _ assms(4), of "Consume now consumer tenant channel limit"] by (simp add: db_def)
  then have "snd (axon_apply S (Consume now consumer tenant channel limit) db) = snd (mail_apply (Consume now consumer tenant channel limit) ?m)"
    unfolding m(1) by simp
  also have "\<dots> = Batch (Inr (take limit (ml_box ?m ?k)))" using assms(6,7) by (simp add: Let_def)
  finally show ?thesis using mail_delivery [OF assms(5), of empty_mail consumer tenant channel] unfolding m(2)
    by (auto simp: empty_mail_def)
qed

theorem delivered_in_order_once_witness:
  "\<exists>rest. published 2 ''task'' sample_log (snd (run (axon_apply object_serde) sample_log empty_axon)) =
      delivered ''narrator'' 2 ''task'' sample_log (snd (run (axon_apply object_serde) sample_log empty_axon)) @ rest \<and>
    snd (axon_apply object_serde (Consume 7 ''narrator'' 2 ''task'' 5) (fst (run (axon_apply object_serde) sample_log empty_axon))) =
      Batch (Inr (take 5 rest)) \<and> map se_seq rest = [4]"
proof -
  have "length sample_log < 2 ^ 63 - 1" "list_all keeps_events sample_log" "trim ''narrator'' \<noteq> []" "int 5 < 2 ^ 63"
    by (simp_all add: sample_log_def) code_simp
  from delivered_in_order_once [OF sample_log_ok this, of 2 "''task''" 7]
  obtain rest where "published 2 ''task'' sample_log (snd (run (axon_apply object_serde) sample_log empty_axon)) =
      delivered ''narrator'' 2 ''task'' sample_log (snd (run (axon_apply object_serde) sample_log empty_axon)) @ rest"
    "snd (axon_apply object_serde (Consume 7 ''narrator'' 2 ''task'' 5) (fst (run (axon_apply object_serde) sample_log empty_axon))) =
      Batch (Inr (take 5 rest))" by blast
  moreover have "map se_seq (published 2 ''task'' sample_log (snd (run (axon_apply object_serde) sample_log empty_axon))) = [1, 2, 4]"
    "map se_seq (delivered ''narrator'' 2 ''task'' sample_log (snd (run (axon_apply object_serde) sample_log empty_axon))) = [1, 2]"
    by code_simp+
  ultimately show ?thesis by (intro exI [of _ rest]) auto
qed

text \<open>
  The assumption on payloads matters: an event whose stored text does not parse is never passed.
  Every consumer of its channel that has reached it gets an error from then on and stays where it is,
  and later events do not change that.
\<close>

lemma unreadable_event_blocks:
  assumes "range_rows tenant (Some channel) (cursor consumer tenant channel db) (ax_events db) = r # rs"
    and "value_parse S (er_payload_text r) = None" "trim consumer \<noteq> []" "0 < limit" "int limit < 2 ^ 63"
  shows "consume S now consumer tenant channel limit db = (db, Inl (Backend ''payload parse''))"
proof -
  obtain k where "limit = Suc k" using assms(4) by (cases limit) auto
  then have "take limit (r # rs) = r # take k rs" by simp
  then show ?thesis using assms by (simp add: consume_def read_after_def parse_stored_def)
qed

end
