(* ===== verification/Chiasm.thy ===== *)
theory Chiasm
  imports Json Ledger Floats
begin

text \<open>
  The task store of \<open>henosis-chiasm\<close> (\<open>store.rs\<close>, \<open>model.rs\<close>): tasks with their history and activity,
  the work queue, heartbeats and the stale sweep, leases on paths, and dependencies between tasks.

  Every statement or transaction runs under the mutex of the connection, so it is one function on the
  tables; \<open>chiasm_apply\<close> is the operation of a history. The methods that lock more than once (\<open>delete\<close>,
  \<open>release_claims\<close>, \<open>mark_stale\<close>) are composed of such operations with whatever others do in between.
  Identifier, status and timestamp columns are modelled by their values, with the order of their
  texts where the code sorts by them; the clock and fresh identifiers are arguments. Emitted events are
  collected in \<open>ch_events\<close>, in the order of the transactions they report. Foreign keys cascade.
  The import of legacy data (\<open>backfill.rs\<close>), with its error, is not modelled. That a counter of row numbers reaches its limit is not
  modelled.
\<close>


section \<open>Values\<close>

datatype task_status = Active | Paused | Blocked | Completed | BlockedOnHuman | Stale | Queued

datatype chiasm_error =
    Backend string
  | NotFound uuid
  | InvalidStatus string
  | SelfDependency uuid
  | DependencyCycle uuid uuid
  | ClaimConflict string uuid

fun task_status_as_str :: "task_status \<Rightarrow> string" where
  "task_status_as_str Active = ''active''"
| "task_status_as_str Paused = ''paused''"
| "task_status_as_str Blocked = ''blocked''"
| "task_status_as_str Completed = ''completed''"
| "task_status_as_str BlockedOnHuman = ''blocked_on_human''"
| "task_status_as_str Stale = ''stale''"
| "task_status_as_str Queued = ''queued''"

definition task_status_parse :: "string \<Rightarrow> chiasm_error + task_status" where
  "task_status_parse s =
     (if s = ''active'' then Inr Active
      else if s = ''paused'' then Inr Paused
      else if s = ''blocked'' then Inr Blocked
      else if s = ''completed'' then Inr Completed
      else if s = ''blocked_on_human'' then Inr BlockedOnHuman
      else if s = ''stale'' then Inr Stale
      else if s = ''queued'' then Inr Queued
      else Inl (InvalidStatus s))"

definition task_is_terminal :: "task_status \<Rightarrow> bool" where
  "task_is_terminal st \<longleftrightarrow> st = Completed"

record task =
  tk_id :: uuid
  tk_tenant :: uuid
  tk_principal :: uuid
  tk_assignee :: "uuid option"
  tk_project :: string
  tk_title :: string
  tk_status :: task_status
  tk_summary :: "string option"
  tk_expected_output :: "string option"
  tk_output_format :: string
  tk_output :: "string option"
  tk_plan :: "string option"
  tk_feedback :: "string option"
  tk_last_heartbeat :: "int option"
  tk_heartbeat_interval_secs :: int
  tk_created_at :: int
  tk_updated_at :: int

record new_task =
  nt_tenant :: uuid
  nt_principal :: uuid
  nt_project :: string
  nt_title :: string
  nt_status :: "task_status option"
  nt_summary :: "string option"
  nt_expected_output :: "string option"
  nt_output_format :: "string option"
  nt_assignee :: "uuid option"
  nt_heartbeat_interval_secs :: "int option"

record enqueue_task =
  eq_tenant :: uuid
  eq_principal :: uuid
  eq_project :: string
  eq_title :: string
  eq_summary :: "string option"

record task_patch =
  pt_title :: "string option"
  pt_status :: "task_status option"
  pt_summary :: "string option"
  pt_assignee :: "uuid option"

definition patch_is_empty :: "task_patch \<Rightarrow> bool" where
  "patch_is_empty p \<longleftrightarrow> pt_title p = None \<and> pt_status p = None \<and> pt_summary p = None \<and> pt_assignee p = None"

record task_filter =
  tf_status :: "task_status option"
  tf_project :: "string option"
  tf_limit :: "nat option"
  tf_offset :: "nat option"

record task_update =
  tu_id :: int
  tu_task :: uuid
  tu_status :: task_status
  tu_summary :: "string option"
  tu_created_at :: int

record activity_row =
  ta_id :: int
  ta_task :: uuid
  ta_tenant :: uuid
  ta_principal :: uuid
  ta_kind :: string
  ta_payload_text :: string
  ta_created_at :: int

text \<open>A row of the activity log as it is handed out: with its payload parsed.\<close>

record task_activity = activity_row +
  ta_payload :: json

record path_claim =
  pc_id :: int
  pc_task :: uuid
  pc_principal :: uuid
  pc_project :: string
  pc_path :: string
  pc_claimed_at :: int
  pc_expires_at :: int
  pc_released :: bool

record path_conflict =
  cf_path :: string
  cf_task :: uuid
  cf_principal :: uuid
  cf_expires_at :: int

record dependency_row =
  dp_id :: int
  dp_task :: uuid
  dp_on :: uuid
  dp_created_at :: int

record dependency = dependency_row +
  dp_on_title :: "string option"
  dp_on_status :: "task_status option"

record chiasm_stats =
  cs_total :: nat
  cs_by_status :: "(string \<times> nat) list"

text \<open>The events; the identifiers in them are modelled by their values.\<close>

datatype chiasm_event =
    TaskCreated uuid string string string
  | TaskUpdated uuid string
  | TaskCompleted uuid
  | TaskDeleted uuid
  | TaskQueued uuid string
  | TaskClaimed uuid uuid
  | TaskStale uuid
  | ClaimCreated uuid string nat
  | ClaimReleased uuid nat
  | TaskUnblocked uuid uuid

definition TASK_CHANNEL :: string where "TASK_CHANNEL = ''task''"

fun chiasm_event_kind :: "chiasm_event \<Rightarrow> string" where
  "chiasm_event_kind (TaskCreated i p t s) = ''task.created''"
| "chiasm_event_kind (TaskUpdated i s) = ''task.updated''"
| "chiasm_event_kind (TaskCompleted i) = ''task.completed''"
| "chiasm_event_kind (TaskDeleted i) = ''task.deleted''"
| "chiasm_event_kind (TaskQueued i p) = ''task.queued''"
| "chiasm_event_kind (TaskClaimed i a) = ''task.claimed''"
| "chiasm_event_kind (TaskStale i) = ''task.stale''"
| "chiasm_event_kind (ClaimCreated i p n) = ''claim.created''"
| "chiasm_event_kind (ClaimReleased i n) = ''claim.released''"
| "chiasm_event_kind (TaskUnblocked i d) = ''task.unblocked''"

text \<open>The tables, with the last row number each \<open>AUTOINCREMENT\<close> column has given out.\<close>

record chiasm_db =
  ch_tasks :: "task list"
  ch_updates :: "task_update list"
  ch_activity :: "activity_row list"
  ch_claims :: "path_claim list"
  ch_deps :: "dependency_row list"
  ch_last_update :: int
  ch_last_activity :: int
  ch_last_claim :: int
  ch_last_dep :: int
  ch_events :: "(chiasm_event \<times> uuid \<times> uuid) list"

definition empty_chiasm :: chiasm_db where
  "empty_chiasm = \<lparr> ch_tasks = [], ch_updates = [], ch_activity = [], ch_claims = [], ch_deps = [],
     ch_last_update = 0, ch_last_activity = 0, ch_last_claim = 0, ch_last_dep = 0, ch_events = [] \<rparr>"

definition HEARTBEAT_CLAIM_REFRESH_SECS :: int where "HEARTBEAT_CLAIM_REFRESH_SECS = 600"

definition MAX_LIST_LIMIT :: nat where "MAX_LIST_LIMIT = 500"

text \<open>
  \<open>ts_plus\<close> clamps the offset to a hundred years; \<open>checked_add\<close> refuses what is outside the range of
  \<open>OffsetDateTime\<close>, the years -9999 to 9999.
\<close>

definition MAX_OFFSET_SECS :: int where "MAX_OFFSET_SECS = 100 * 365 * 24 * 3600"

definition representable :: "int \<Rightarrow> bool" where
  "representable t \<longleftrightarrow> - 377705116800 * 10 ^ 9 \<le> t \<and> t < 253402300800 * 10 ^ 9"

definition ts_plus :: "int \<Rightarrow> int \<Rightarrow> int" where
  "ts_plus ts secs =
     (let clamped = (if secs < - MAX_OFFSET_SECS then - MAX_OFFSET_SECS else if MAX_OFFSET_SECS < secs then MAX_OFFSET_SECS else secs);
          shifted = ts + clamped * 10 ^ 9
      in if representable shifted then shifted else ts)"

definition is_active_at :: "int \<Rightarrow> path_claim \<Rightarrow> bool" where
  "is_active_at now c \<longleftrightarrow> \<not> pc_released c \<and> now < pc_expires_at c"


section \<open>Tasks\<close>

definition emit :: "chiasm_event \<Rightarrow> uuid \<Rightarrow> uuid \<Rightarrow> chiasm_db \<Rightarrow> chiasm_db" where
  "emit ev tenant p db = db \<lparr> ch_events := ch_events db @ [(ev, tenant, p)] \<rparr>"

definition scoped :: "uuid \<Rightarrow> uuid \<Rightarrow> task \<Rightarrow> bool" where
  "scoped tenant p t \<longleftrightarrow> tk_tenant t = tenant \<and> tk_principal t = p"

text \<open>The condition \<open>WHERE id = ? AND tenant = ? AND principal_id = ?\<close> of most statements.\<close>

definition is_task :: "uuid \<Rightarrow> uuid \<Rightarrow> uuid \<Rightarrow> task \<Rightarrow> bool" where
  "is_task tenant p i t \<longleftrightarrow> tk_id t = i \<and> scoped tenant p t"

definition get_in :: "uuid \<Rightarrow> uuid \<Rightarrow> uuid \<Rightarrow> chiasm_db \<Rightarrow> task option" where
  "get_in tenant p i db = find (is_task tenant p i) (ch_tasks db)"

definition insert_task :: "task \<Rightarrow> chiasm_db \<Rightarrow> chiasm_error + chiasm_db" where
  "insert_task t db =
     (if list_ex (\<lambda>x. tk_id x = tk_id t) (ch_tasks db) then Inl (Backend ''UNIQUE constraint failed: chiasm_tasks.id'')
      else Inr (db \<lparr> ch_tasks := ch_tasks db @ [t] \<rparr>))"

definition task_of_new :: "int \<Rightarrow> uuid \<Rightarrow> new_task \<Rightarrow> task" where
  "task_of_new now i new = \<lparr> tk_id = i, tk_tenant = nt_tenant new, tk_principal = nt_principal new, tk_assignee = nt_assignee new,
     tk_project = nt_project new, tk_title = nt_title new,
     tk_status = (case nt_status new of Some st \<Rightarrow> st | None \<Rightarrow> Active), tk_summary = nt_summary new,
     tk_expected_output = nt_expected_output new,
     tk_output_format = (case nt_output_format new of Some f \<Rightarrow> f | None \<Rightarrow> ''raw''), tk_output = None, tk_plan = None,
     tk_feedback = None, tk_last_heartbeat = None,
     tk_heartbeat_interval_secs = (case nt_heartbeat_interval_secs new of Some n \<Rightarrow> n | None \<Rightarrow> 300),
     tk_created_at = now, tk_updated_at = now \<rparr>"

definition create_task :: "int \<Rightarrow> uuid \<Rightarrow> new_task \<Rightarrow> chiasm_db \<Rightarrow> chiasm_db \<times> (chiasm_error + task)" where
  "create_task now i new db =
     (let t = task_of_new now i new in
      case insert_task t db of
        Inl e \<Rightarrow> (db, Inl e)
      | Inr db' \<Rightarrow> (emit (TaskCreated (tk_id t) (tk_project t) (tk_title t) (task_status_as_str (tk_status t)))
                      (tk_tenant t) (tk_principal t) db', Inr t))"

definition get_task :: "uuid \<Rightarrow> uuid \<Rightarrow> uuid \<Rightarrow> chiasm_db \<Rightarrow> task option" where
  "get_task tenant p i db = get_in tenant p i db"

definition list_tasks :: "uuid \<Rightarrow> uuid \<Rightarrow> task_filter \<Rightarrow> chiasm_db \<Rightarrow> chiasm_error + task list" where
  "list_tasks tenant p f db =
     (let offset = (case tf_offset f of Some n \<Rightarrow> n | None \<Rightarrow> 0);
          limit = min (case tf_limit f of Some n \<Rightarrow> n | None \<Rightarrow> MAX_LIST_LIMIT) MAX_LIST_LIMIT
      in if 2 ^ 63 \<le> int offset then Inl (Backend ''datatype mismatch'')
         else Inr (take limit (drop offset (newest_first tk_updated_at (filter (\<lambda>t. scoped tenant p t \<and>
           (case tf_status f of Some st \<Rightarrow> tk_status t = st | None \<Rightarrow> True) \<and>
           (case tf_project f of Some pr \<Rightarrow> tk_project t = pr | None \<Rightarrow> True)) (ch_tasks db))))))"

definition add_update :: "uuid \<Rightarrow> task_status \<Rightarrow> string option \<Rightarrow> int \<Rightarrow> chiasm_db \<Rightarrow> chiasm_db" where
  "add_update i st summary now db = db \<lparr> ch_updates := ch_updates db @ [\<lparr> tu_id = ch_last_update db + 1, tu_task = i,
       tu_status = st, tu_summary = summary, tu_created_at = now \<rparr>], ch_last_update := ch_last_update db + 1 \<rparr>"

definition patched :: "int \<Rightarrow> task_patch \<Rightarrow> task \<Rightarrow> task" where
  "patched now patch t = t \<lparr> tk_title := (case pt_title patch of Some x \<Rightarrow> x | None \<Rightarrow> tk_title t),
     tk_status := (case pt_status patch of Some x \<Rightarrow> x | None \<Rightarrow> tk_status t),
     tk_summary := (case pt_summary patch of Some x \<Rightarrow> Some x | None \<Rightarrow> tk_summary t),
     tk_assignee := (case pt_assignee patch of Some x \<Rightarrow> Some x | None \<Rightarrow> tk_assignee t), tk_updated_at := now \<rparr>"

definition update_task :: "int \<Rightarrow> uuid \<Rightarrow> uuid \<Rightarrow> uuid \<Rightarrow> task_patch \<Rightarrow> chiasm_db \<Rightarrow> chiasm_db \<times> (chiasm_error + task)" where
  "update_task now tenant p i patch db =
     (case get_in tenant p i db of
        None \<Rightarrow> (db, Inl (NotFound i))
      | Some old \<Rightarrow>
          (let t = patched now patch old;
               db1 = db \<lparr> ch_tasks := sql_update (is_task tenant p i) (\<lambda>r. r \<lparr> tk_title := tk_title t, tk_status := tk_status t,
                 tk_summary := tk_summary t, tk_assignee := tk_assignee t, tk_updated_at := tk_updated_at t \<rparr>) (ch_tasks db) \<rparr>;
               db2 = add_update i (tk_status t) (tk_summary t) (tk_updated_at t) db1;
               ev = (if task_is_terminal (tk_status t) then TaskCompleted i else TaskUpdated i (task_status_as_str (tk_status t)))
           in (emit ev (tk_tenant t) (tk_principal t) db2, Inr t)))"

text \<open>The \<open>DELETE\<close> of a task, with the rows that reference it.\<close>

definition delete_rows :: "uuid \<Rightarrow> uuid \<Rightarrow> uuid \<Rightarrow> chiasm_db \<Rightarrow> chiasm_db \<times> bool" where
  "delete_rows tenant p i db =
     (if list_ex (is_task tenant p i) (ch_tasks db)
      then (emit (TaskDeleted i) tenant p
        (db \<lparr> ch_tasks := filter (\<lambda>t. \<not> is_task tenant p i t) (ch_tasks db),
              ch_updates := filter (\<lambda>u. tu_task u \<noteq> i) (ch_updates db),
              ch_activity := filter (\<lambda>a. ta_task a \<noteq> i) (ch_activity db),
              ch_claims := filter (\<lambda>c. pc_task c \<noteq> i) (ch_claims db),
              ch_deps := filter (\<lambda>d. dp_task d \<noteq> i \<and> dp_on d \<noteq> i) (ch_deps db) \<rparr>), True)
      else (db, False))"

text \<open>A limit that is cast to \<open>i64\<close>: beyond the range it turns negative, which means no limit.\<close>

definition cast_limit :: "nat \<Rightarrow> 'a list \<Rightarrow> 'a list" where
  "cast_limit limit xs = (if 2 ^ 63 \<le> int limit then xs else take limit xs)"

definition history :: "uuid \<Rightarrow> uuid \<Rightarrow> uuid \<Rightarrow> nat \<Rightarrow> chiasm_db \<Rightarrow> task_update list" where
  "history tenant p i limit db = cast_limit limit (rev (filter (\<lambda>u. tu_task u = i \<and>
     list_ex (is_task tenant p i) (ch_tasks db)) (ch_updates db)))"

fun is_object :: "json \<Rightarrow> bool" where
  "is_object (JObject es) = True"
| "is_object _ = False"

definition record_activity ::
    "serde \<Rightarrow> int \<Rightarrow> uuid \<Rightarrow> uuid \<Rightarrow> uuid \<Rightarrow> string \<Rightarrow> json \<Rightarrow> chiasm_db \<Rightarrow> chiasm_db \<times> (chiasm_error + task_activity)" where
  "record_activity S now tenant p i kind payload db =
     (if \<not> is_object payload then (db, Inl (Backend ''task activity payload must be a JSON object''))
      else if \<not> list_ex (is_task tenant p i) (ch_tasks db) then (db, Inl (NotFound i))
      else
        (let r = \<lparr> ta_id = ch_last_activity db + 1, ta_task = i, ta_tenant = tenant, ta_principal = p, ta_kind = kind,
               ta_payload_text = value_text S payload, ta_created_at = now \<rparr>
         in (db \<lparr> ch_activity := ch_activity db @ [r], ch_last_activity := ta_id r \<rparr>,
             Inr (activity_row.extend r \<lparr> ta_payload = payload \<rparr>))))"

definition into_activity :: "serde \<Rightarrow> activity_row \<Rightarrow> chiasm_error + task_activity" where
  "into_activity S r =
     (case value_parse S (ta_payload_text r) of
        None \<Rightarrow> Inl (Backend ''corrupt activity payload'')
      | Some v \<Rightarrow> Inr (activity_row.extend r \<lparr> ta_payload = v \<rparr>))"

fun activities :: "serde \<Rightarrow> activity_row list \<Rightarrow> chiasm_error + task_activity list" where
  "activities S [] = Inr []"
| "activities S (r # rs) =
     (case into_activity S r of
        Inl e \<Rightarrow> Inl e
      | Inr a \<Rightarrow> (case activities S rs of Inl e \<Rightarrow> Inl e | Inr as \<Rightarrow> Inr (a # as)))"

definition activity :: "serde \<Rightarrow> uuid \<Rightarrow> uuid \<Rightarrow> uuid \<Rightarrow> nat \<Rightarrow> chiasm_db \<Rightarrow> chiasm_error + task_activity list" where
  "activity S tenant p i limit db = activities S (cast_limit limit (rev (filter (\<lambda>a. ta_task a = i \<and> ta_tenant a = tenant \<and>
     ta_principal a = p \<and> list_ex (is_task tenant p i) (ch_tasks db)) (ch_activity db))))"

text \<open>Counts per status that occurs, in the order of the tokens.\<close>

definition statuses_in_order :: "task_status list" where
  "statuses_in_order = [Active, Blocked, BlockedOnHuman, Completed, Paused, Queued, Stale]"

definition chiasm_stats_of :: "uuid \<Rightarrow> uuid \<Rightarrow> chiasm_db \<Rightarrow> chiasm_stats" where
  "chiasm_stats_of tenant p db =
     (let counts = filter (\<lambda>(s, n). n \<noteq> 0) (map (\<lambda>st. (task_status_as_str st,
            length (filter (\<lambda>t. scoped tenant p t \<and> tk_status t = st) (ch_tasks db)))) statuses_in_order)
      in \<lparr> cs_total = sum_list (map snd counts), cs_by_status = counts \<rparr>)"


section \<open>The work queue\<close>

definition enqueue :: "int \<Rightarrow> uuid \<Rightarrow> enqueue_task \<Rightarrow> chiasm_db \<Rightarrow> chiasm_db \<times> (chiasm_error + task)" where
  "enqueue now i new db =
     (let t = \<lparr> tk_id = i, tk_tenant = eq_tenant new, tk_principal = eq_principal new, tk_assignee = None,
            tk_project = eq_project new, tk_title = eq_title new, tk_status = Queued, tk_summary = eq_summary new,
            tk_expected_output = None, tk_output_format = ''raw'', tk_output = None, tk_plan = None, tk_feedback = None,
            tk_last_heartbeat = None, tk_heartbeat_interval_secs = 300, tk_created_at = now, tk_updated_at = now \<rparr> in
      case insert_task t db of
        Inl e \<Rightarrow> (db, Inl e)
      | Inr db' \<Rightarrow> (emit (TaskQueued (tk_id t) (tk_project t)) (tk_tenant t) (tk_principal t) db', Inr t))"

definition claimable :: "uuid \<Rightarrow> uuid \<Rightarrow> string option \<Rightarrow> task \<Rightarrow> bool" where
  "claimable tenant owner project t \<longleftrightarrow> scoped tenant owner t \<and> tk_assignee t = None \<and> tk_status t = Queued \<and>
     (case project of Some pr \<Rightarrow> tk_project t = pr | None \<Rightarrow> True)"

definition claimed_by :: "uuid \<Rightarrow> int \<Rightarrow> task \<Rightarrow> task" where
  "claimed_by claimer now t = t \<lparr> tk_assignee := Some claimer, tk_status := Active, tk_last_heartbeat := Some now, tk_updated_at := now \<rparr>"

definition claim_next ::
    "int \<Rightarrow> uuid \<Rightarrow> uuid \<Rightarrow> uuid \<Rightarrow> string option \<Rightarrow> chiasm_db \<Rightarrow> chiasm_db \<times> task option" where
  "claim_next now tenant owner claimer project db =
     (case find (claimable tenant owner project) (ch_tasks db) of
        None \<Rightarrow> (db, None)
      | Some t \<Rightarrow>
          (emit (TaskClaimed (tk_id t) claimer) tenant owner
             (db \<lparr> ch_tasks := sql_update (is_task tenant owner (tk_id t)) (claimed_by claimer now) (ch_tasks db) \<rparr>),
           Some (claimed_by claimer now t)))"


section \<open>Heartbeats and the stale sweep\<close>

definition record_heartbeat :: "int \<Rightarrow> uuid \<Rightarrow> uuid \<Rightarrow> uuid \<Rightarrow> chiasm_db \<Rightarrow> chiasm_db \<times> (chiasm_error + unit)" where
  "record_heartbeat now tenant p i db =
     (if sql_changed (is_task tenant p i) (ch_tasks db) = 0 then (db, Inl (NotFound i))
      else
        (db \<lparr> ch_tasks := sql_update (is_task tenant p i) (\<lambda>t. t \<lparr> tk_last_heartbeat := Some now, tk_updated_at := now \<rparr>) (ch_tasks db),
              ch_claims := sql_update (\<lambda>c. pc_task c = i \<and> \<not> pc_released c)
                (\<lambda>c. c \<lparr> pc_expires_at := ts_plus now HEARTBEAT_CLAIM_REFRESH_SECS \<rparr>) (ch_claims db) \<rparr>, Inr ()))"

definition stale_candidates :: "chiasm_db \<Rightarrow> task list" where
  "stale_candidates db = filter (\<lambda>t. (tk_status t = Active \<or> tk_status t = Paused) \<and> tk_last_heartbeat t \<noteq> None) (ch_tasks db)"

definition STALE_SUMMARY :: string where "STALE_SUMMARY = ''marked stale: heartbeat overdue''"

text \<open>The transaction of one candidate: the status and the heartbeat it was selected with must be unchanged.\<close>

definition is_unchanged :: "task \<Rightarrow> task \<Rightarrow> bool" where
  "is_unchanged candidate t \<longleftrightarrow> is_task (tk_tenant candidate) (tk_principal candidate) (tk_id candidate) t \<and>
     tk_status t = tk_status candidate \<and> tk_last_heartbeat t = tk_last_heartbeat candidate"

definition stale_one :: "int \<Rightarrow> task \<Rightarrow> chiasm_db \<Rightarrow> chiasm_db \<times> task option" where
  "stale_one now candidate db =
     (if sql_changed (is_unchanged candidate) (ch_tasks db) \<noteq> 1 then (db, None)
      else
        (let i = tk_id candidate; tenant = tk_tenant candidate; p = tk_principal candidate;
             released = sql_changed (\<lambda>c. pc_task c = i \<and> \<not> pc_released c) (ch_claims db);
             db1 = db \<lparr> ch_tasks := sql_update (is_unchanged candidate)
               (\<lambda>t. t \<lparr> tk_status := Stale, tk_summary := Some STALE_SUMMARY, tk_updated_at := now \<rparr>) (ch_tasks db) \<rparr>;
             db2 = add_update i Stale (Some STALE_SUMMARY) now db1;
             db3 = db2 \<lparr> ch_claims := sql_update (\<lambda>c. pc_task c = i \<and> \<not> pc_released c) (\<lambda>c. c \<lparr> pc_released := True \<rparr>) (ch_claims db2) \<rparr>;
             db4 = emit (TaskStale i) tenant p db3;
             db5 = (if 0 < released then emit (ClaimReleased i released) tenant p db4 else db4)
         in (db5, Some (candidate \<lparr> tk_status := Stale, tk_summary := Some STALE_SUMMARY, tk_updated_at := now \<rparr>))))"


section \<open>Leases on paths\<close>

text \<open>The unreleased claims of the owner on a path of a project, oldest first.\<close>

definition claims_on :: "uuid \<Rightarrow> uuid \<Rightarrow> string \<Rightarrow> string \<Rightarrow> chiasm_db \<Rightarrow> path_claim list" where
  "claims_on tenant p project path db = filter (\<lambda>c. pc_principal c = p \<and> pc_project c = project \<and> pc_path c = path \<and>
     \<not> pc_released c \<and> list_ex (is_task tenant p (pc_task c)) (ch_tasks db)) (ch_claims db)"

definition insert_claim :: "int \<Rightarrow> int \<Rightarrow> task \<Rightarrow> string \<Rightarrow> chiasm_db \<Rightarrow> chiasm_db \<times> path_claim" where
  "insert_claim now expires t path db =
     (let c = \<lparr> pc_id = ch_last_claim db + 1, pc_task = tk_id t, pc_principal = tk_principal t, pc_project = tk_project t,
            pc_path = path, pc_claimed_at = now, pc_expires_at = expires, pc_released = False \<rparr>
      in (db \<lparr> ch_claims := ch_claims db @ [c], ch_last_claim := ch_last_claim db + 1 \<rparr>, c))"

fun claim_paths :: "int \<Rightarrow> int \<Rightarrow> task \<Rightarrow> string list \<Rightarrow> chiasm_db \<Rightarrow> chiasm_error + (chiasm_db \<times> path_claim list)" where
  "claim_paths now expires t [] db = Inr (db, [])"
| "claim_paths now expires t (path # paths) db =
     (case find (\<lambda>c. pc_task c \<noteq> tk_id t \<and> is_active_at now c) (claims_on (tk_tenant t) (tk_principal t) (tk_project t) path db) of
        Some c \<Rightarrow> Inl (ClaimConflict path (pc_task c))
      | None \<Rightarrow>
          (case insert_claim now expires t path db of
             (db', c) \<Rightarrow> (case claim_paths now expires t paths db' of
                Inl e \<Rightarrow> Inl e
              | Inr (db'', cs) \<Rightarrow> Inr (db'', c # cs))))"

definition create_claims ::
    "int \<Rightarrow> uuid \<Rightarrow> uuid \<Rightarrow> uuid \<Rightarrow> string list \<Rightarrow> int \<Rightarrow> chiasm_db \<Rightarrow> chiasm_db \<times> (chiasm_error + path_claim list)" where
  "create_claims now tenant p i paths ttl_seconds db =
     (case get_in tenant p i db of
        None \<Rightarrow> (db, Inl (NotFound i))
      | Some t \<Rightarrow>
          (case claim_paths now (ts_plus now ttl_seconds) t paths db of
             Inl e \<Rightarrow> (db, Inl e)
           | Inr (db', cs) \<Rightarrow>
               (if cs = [] then db' else emit (ClaimCreated i (tk_project t) (length cs)) (tk_tenant t) (tk_principal t) db', Inr cs)))"

definition check_conflicts :: "int \<Rightarrow> uuid \<Rightarrow> uuid \<Rightarrow> string \<Rightarrow> string list \<Rightarrow> uuid option \<Rightarrow> chiasm_db \<Rightarrow> path_conflict list" where
  "check_conflicts now tenant p project paths exclude db = concat (map (\<lambda>path. map (\<lambda>c. \<lparr> cf_path = pc_path c,
     cf_task = pc_task c, cf_principal = pc_principal c, cf_expires_at = pc_expires_at c \<rparr>)
     (filter (\<lambda>c. exclude \<noteq> Some (pc_task c) \<and> is_active_at now c) (claims_on tenant p project path db))) paths)"

definition get_claims_for_task :: "int \<Rightarrow> uuid \<Rightarrow> uuid \<Rightarrow> uuid \<Rightarrow> chiasm_db \<Rightarrow> path_claim list" where
  "get_claims_for_task now tenant p i db = filter (is_active_at now) (filter (\<lambda>c. pc_task c = i \<and> pc_principal c = p \<and>
     \<not> pc_released c \<and> list_ex (is_task tenant p (pc_task c)) (ch_tasks db)) (ch_claims db))"

definition get_claims_for_project :: "int \<Rightarrow> uuid \<Rightarrow> uuid \<Rightarrow> string \<Rightarrow> chiasm_db \<Rightarrow> path_claim list" where
  "get_claims_for_project now tenant p project db = filter (is_active_at now) (filter (\<lambda>c. pc_principal c = p \<and>
     pc_project c = project \<and> \<not> pc_released c \<and> list_ex (is_task tenant p (pc_task c)) (ch_tasks db)) (ch_claims db))"

text \<open>The statement of \<open>release_claims\<close>.\<close>

definition release_rows :: "uuid \<Rightarrow> uuid \<Rightarrow> uuid \<Rightarrow> chiasm_db \<Rightarrow> chiasm_db \<times> nat" where
  "release_rows tenant p i db =
     (let held = (\<lambda>c. pc_task c = i \<and> pc_principal c = p \<and> \<not> pc_released c \<and> list_ex (is_task tenant p (pc_task c)) (ch_tasks db));
          n = sql_changed held (ch_claims db);
          db1 = db \<lparr> ch_claims := sql_update held (\<lambda>c. c \<lparr> pc_released := True \<rparr>) (ch_claims db) \<rparr>
      in (if 0 < n then emit (ClaimReleased i n) tenant p db1 else db1, n))"


section \<open>Dependencies\<close>

text \<open>The tasks that a task depends on, with both ends inside the identity boundary.\<close>

definition targets :: "uuid \<Rightarrow> uuid \<Rightarrow> uuid \<Rightarrow> chiasm_db \<Rightarrow> uuid list" where
  "targets tenant p i db = map dp_on (filter (\<lambda>d. dp_task d = i \<and> list_ex (is_task tenant p (dp_task d)) (ch_tasks db) \<and>
     list_ex (is_task tenant p (dp_on d)) (ch_tasks db)) (ch_deps db))"

lemma card_visit: "finite A \<Longrightarrow> x \<notin> V \<Longrightarrow> card (A - insert x V) < card (A - V) \<or> A - insert x V = A - V \<and> x \<notin> A"
proof (cases "x \<in> A")
  case True
  assume "finite A" "x \<notin> V"
  then have "A - insert x V \<subset> A - V" using True by auto
  then show ?thesis using \<open>finite A\<close> psubset_card_mono [of "A - V"] by blast
qed auto

lemma targets_none: "i \<notin> dp_task ` set (ch_deps db) \<Longrightarrow> targets tenant p i db = []"
  by (auto simp: targets_def filter_empty_conv)

function reaches_loop :: "uuid \<Rightarrow> uuid \<Rightarrow> chiasm_db \<Rightarrow> uuid \<Rightarrow> uuid list \<Rightarrow> uuid list \<Rightarrow> bool" where
  "reaches_loop tenant p db needle visited [] = False"
| "reaches_loop tenant p db needle visited (current # queue) =
     (if current = needle then True
      else if current \<in> set visited then reaches_loop tenant p db needle visited queue
      else reaches_loop tenant p db needle (current # visited) (queue @ targets tenant p current db))"
  by pat_completeness auto

text \<open>Every round visits a task that has dependencies, or shortens the queue.\<close>

termination
proof (relation "measures [\<lambda>(tenant, p, db, needle, visited, queue). card (dp_task ` set (ch_deps db) - set visited),
    \<lambda>(tenant, p, db, needle, visited, queue). length queue]", goal_cases)
  case (3 tenant p db needle visited current queue)
  then show ?case
    using card_visit [of "dp_task ` set (ch_deps db)" current "set visited"] targets_none [of current db tenant p] by auto
qed simp_all

definition reaches :: "uuid \<Rightarrow> uuid \<Rightarrow> uuid \<Rightarrow> uuid \<Rightarrow> chiasm_db \<Rightarrow> bool" where
  "reaches tenant p start needle db = reaches_loop tenant p db needle [] [start]"

definition insert_or_ignore :: "int \<Rightarrow> uuid \<Rightarrow> uuid \<Rightarrow> chiasm_db \<Rightarrow> chiasm_db" where
  "insert_or_ignore now i dep db =
     (if list_ex (\<lambda>d. dp_task d = i \<and> dp_on d = dep) (ch_deps db) then db
      else db \<lparr> ch_deps := ch_deps db @ [\<lparr> dp_id = ch_last_dep db + 1, dp_task = i, dp_on = dep, dp_created_at = now \<rparr>],
                ch_last_dep := ch_last_dep db + 1 \<rparr>)"

fun add_edges :: "int \<Rightarrow> uuid \<Rightarrow> uuid \<Rightarrow> uuid \<Rightarrow> uuid list \<Rightarrow> chiasm_db \<Rightarrow> chiasm_error + chiasm_db" where
  "add_edges now tenant p i [] db = Inr db"
| "add_edges now tenant p i (dep # deps) db =
     (if dep = i then Inl (SelfDependency i)
      else if get_in tenant p dep db = None then Inl (NotFound dep)
      else if reaches tenant p dep i db then Inl (DependencyCycle i dep)
      else add_edges now tenant p i deps (insert_or_ignore now i dep db))"

definition add_dependencies :: "int \<Rightarrow> uuid \<Rightarrow> uuid \<Rightarrow> uuid \<Rightarrow> uuid list \<Rightarrow> chiasm_db \<Rightarrow> chiasm_db \<times> (chiasm_error + unit)" where
  "add_dependencies now tenant p i deps db =
     (if get_in tenant p i db = None then (db, Inl (NotFound i))
      else case add_edges now tenant p i deps db of Inl e \<Rightarrow> (db, Inl e) | Inr db' \<Rightarrow> (db', Inr ()))"

definition get_dependencies :: "uuid \<Rightarrow> uuid \<Rightarrow> uuid \<Rightarrow> chiasm_db \<Rightarrow> dependency list" where
  "get_dependencies tenant p i db =
     (if list_ex (is_task tenant p i) (ch_tasks db)
      then concat (map (\<lambda>d. case get_in tenant p (dp_on d) db of
          None \<Rightarrow> []
        | Some t \<Rightarrow> [dependency_row.extend d \<lparr> dp_on_title = Some (tk_title t), dp_on_status = Some (tk_status t) \<rparr>])
        (filter (\<lambda>d. dp_task d = i) (ch_deps db)))
      else [])"

definition remove_dependency :: "uuid \<Rightarrow> uuid \<Rightarrow> uuid \<Rightarrow> uuid \<Rightarrow> chiasm_db \<Rightarrow> chiasm_db \<times> bool" where
  "remove_dependency tenant p i dep db =
     (let gone = (\<lambda>d. dp_task d = i \<and> dp_on d = dep \<and> list_ex (is_task tenant p i) (ch_tasks db) \<and>
            list_ex (is_task tenant p dep) (ch_tasks db))
      in (db \<lparr> ch_deps := filter (\<lambda>d. \<not> gone d) (ch_deps db) \<rparr>, 0 < sql_changed gone (ch_deps db)))"

definition UNBLOCKED_SUMMARY :: string where "UNBLOCKED_SUMMARY = ''auto-unblocked: all dependencies completed''"

text \<open>The dependents that a completed task may unblock: blocked, and every dependency of theirs completed.\<close>

definition unblockable :: "uuid \<Rightarrow> uuid \<Rightarrow> uuid \<Rightarrow> chiasm_db \<Rightarrow> task \<Rightarrow> bool" where
  "unblockable tenant p completed db t \<longleftrightarrow> scoped tenant p t \<and> tk_status t = Blocked \<and>
     list_ex (\<lambda>d. dp_on d = completed \<and> dp_task d = tk_id t) (ch_deps db) \<and>
     list_all (\<lambda>d. dp_task d = tk_id t \<longrightarrow>
       list_ex (\<lambda>r. is_task tenant p (dp_on d) r \<and> tk_status r = Completed) (ch_tasks db)) (ch_deps db)"

definition unblocked_task :: "int \<Rightarrow> task \<Rightarrow> task" where
  "unblocked_task now t = t \<lparr> tk_status := Active, tk_summary := Some UNBLOCKED_SUMMARY, tk_updated_at := now \<rparr>"

definition check_and_unblock :: "int \<Rightarrow> uuid \<Rightarrow> uuid \<Rightarrow> uuid \<Rightarrow> chiasm_db \<Rightarrow> chiasm_db \<times> (chiasm_error + task list)" where
  "check_and_unblock now tenant p completed db =
     (case get_in tenant p completed db of
        None \<Rightarrow> (db, Inl (NotFound completed))
      | Some trigger \<Rightarrow>
          if tk_status trigger \<noteq> Completed then (db, Inr [])
          else
            (let ts = map (unblocked_task now) (filter (unblockable tenant p completed db) (ch_tasks db));
                 db1 = db \<lparr> ch_tasks := sql_update (unblockable tenant p completed db) (unblocked_task now) (ch_tasks db) \<rparr>;
                 db2 = fold (\<lambda>t. add_update (tk_id t) Active (Some UNBLOCKED_SUMMARY) now) ts db1;
                 db3 = fold (\<lambda>t d. emit (TaskUnblocked (tk_id t) completed) tenant p
                     (emit (TaskUpdated (tk_id t) (task_status_as_str Active)) tenant p d)) ts db2
             in (db3, Inr ts)))"


section \<open>Histories and composed methods\<close>

datatype chiasm_op =
    CreateTask int uuid new_task
  | UpdateTask int uuid uuid uuid task_patch
  | DeleteRows uuid uuid uuid
  | RecordActivity int uuid uuid uuid string json
  | Enqueue int uuid enqueue_task
  | ClaimNext int uuid uuid uuid "string option"
  | Heartbeat int uuid uuid uuid
  | StaleOne int task
  | CreateClaims int uuid uuid uuid "string list" int
  | ReleaseRows uuid uuid uuid
  | AddDependencies int uuid uuid uuid "uuid list"
  | RemoveDependency uuid uuid uuid uuid
  | CheckAndUnblock int uuid uuid uuid

datatype chiasm_reply =
    TaskReply "chiasm_error + task"
  | Removed bool
  | ActivityReply "chiasm_error + task_activity"
  | Claimed "task option"
  | Done "chiasm_error + unit"
  | Staled "task option"
  | Claims "chiasm_error + path_claim list"
  | Released nat
  | Unblocked "chiasm_error + task list"

fun chiasm_apply :: "serde \<Rightarrow> chiasm_op \<Rightarrow> chiasm_db \<Rightarrow> chiasm_db \<times> chiasm_reply" where
  "chiasm_apply S (CreateTask now i new) db = map_prod id TaskReply (create_task now i new db)"
| "chiasm_apply S (UpdateTask now tenant p i patch) db = map_prod id TaskReply (update_task now tenant p i patch db)"
| "chiasm_apply S (DeleteRows tenant p i) db = map_prod id Removed (delete_rows tenant p i db)"
| "chiasm_apply S (RecordActivity now tenant p i kind payload) db =
     map_prod id ActivityReply (record_activity S now tenant p i kind payload db)"
| "chiasm_apply S (Enqueue now i new) db = map_prod id TaskReply (enqueue now i new db)"
| "chiasm_apply S (ClaimNext now tenant owner claimer project) db = map_prod id Claimed (claim_next now tenant owner claimer project db)"
| "chiasm_apply S (Heartbeat now tenant p i) db = map_prod id Done (record_heartbeat now tenant p i db)"
| "chiasm_apply S (StaleOne now candidate) db = map_prod id Staled (stale_one now candidate db)"
| "chiasm_apply S (CreateClaims now tenant p i paths ttl) db = map_prod id Claims (create_claims now tenant p i paths ttl db)"
| "chiasm_apply S (ReleaseRows tenant p i) db = map_prod id Released (release_rows tenant p i db)"
| "chiasm_apply S (AddDependencies now tenant p i deps) db = map_prod id Done (add_dependencies now tenant p i deps db)"
| "chiasm_apply S (RemoveDependency tenant p i dep) db = map_prod id Removed (remove_dependency tenant p i dep db)"
| "chiasm_apply S (CheckAndUnblock now tenant p i) db = map_prod id Unblocked (check_and_unblock now tenant p i db)"

text \<open>
  A method that locks twice: it looks first, and \<open>others\<close> act before its second statement.
\<close>

definition delete_task :: "serde \<Rightarrow> chiasm_op list \<Rightarrow> uuid \<Rightarrow> uuid \<Rightarrow> uuid \<Rightarrow> chiasm_db \<Rightarrow> chiasm_db \<times> bool" where
  "delete_task S others tenant p i db =
     (case get_task tenant p i db of
        None \<Rightarrow> (db, False)
      | Some t \<Rightarrow> delete_rows tenant p i (fst (run (chiasm_apply S) others db)))"

definition release_claims :: "serde \<Rightarrow> chiasm_op list \<Rightarrow> uuid \<Rightarrow> uuid \<Rightarrow> uuid \<Rightarrow> chiasm_db \<Rightarrow> chiasm_db \<times> nat" where
  "release_claims S others tenant p i db =
     (case get_task tenant p i db of
        None \<Rightarrow> (db, 0)
      | Some t \<Rightarrow> release_rows tenant p i (fst (run (chiasm_apply S) others db)))"

text \<open>
  The sweep reads its candidates once and then takes the lock for every overdue one. A task is overdue
  when the elapsed time exceeds the interval times the grace factor, in floating point; \<open>as_secs\<close> is
  \<open>Duration::as_seconds_f64\<close>. The clock is read again for every candidate, and \<open>others\<close> act before each of
  its transactions.
\<close>

definition overdue :: "('f, 'm) f64_lib_scheme \<Rightarrow> (int \<Rightarrow> 'f) \<Rightarrow> 'f \<Rightarrow> int \<Rightarrow> int \<Rightarrow> bool" where
  "overdue F as_secs grace elapsed interval \<longleftrightarrow> \<not> f64_le F (as_secs elapsed) (f64_mul F (f64_of_i64 F interval) grace)"

fun mark_stale_candidates ::
    "serde \<Rightarrow> (int \<Rightarrow> int \<Rightarrow> bool) \<Rightarrow> int \<Rightarrow> (nat \<Rightarrow> chiasm_op list) \<Rightarrow> (nat \<Rightarrow> int) \<Rightarrow> nat \<Rightarrow> task list \<Rightarrow> chiasm_db \<Rightarrow>
     chiasm_db \<times> task list" where
  "mark_stale_candidates S late now others clock n [] db = (db, [])"
| "mark_stale_candidates S late now others clock n (t # ts) db =
     (case tk_last_heartbeat t of
        None \<Rightarrow> mark_stale_candidates S late now others clock n ts db
      | Some hb \<Rightarrow>
          if \<not> late (now - hb) (tk_heartbeat_interval_secs t) then mark_stale_candidates S late now others clock n ts db
          else
            (case stale_one (clock n) t (fst (run (chiasm_apply S) (others n) db)) of
               (db', r) \<Rightarrow>
                 (case mark_stale_candidates S late now others clock (Suc n) ts db' of
                    (db'', staled) \<Rightarrow> (db'', (case r of Some t' \<Rightarrow> t' # staled | None \<Rightarrow> staled)))))"

definition mark_stale ::
    "serde \<Rightarrow> ('f, 'm) f64_lib_scheme \<Rightarrow> (int \<Rightarrow> 'f) \<Rightarrow> 'f \<Rightarrow> int \<Rightarrow> (nat \<Rightarrow> chiasm_op list) \<Rightarrow> (nat \<Rightarrow> int) \<Rightarrow>
     chiasm_db \<Rightarrow> chiasm_db \<times> task list" where
  "mark_stale S F as_secs grace now others clock db =
     mark_stale_candidates S (overdue F as_secs grace) now others clock 0 (stale_candidates db) db"

end
