(* ===== verification/Chiasm_Invariant.thy ===== *)
theory Chiasm_Invariant
  imports Chiasm
begin

text \<open>
  The invariant of the task store: task ids are unique, every row that references a task finds it, claims
  carry the owner and the project of their task, dependencies stay inside one tenant and owner, and
  they are acyclic. The invariant reads a task only through its identity, which no operation changes.
\<close>


section \<open>The invariant\<close>

type_synonym task_identity = "uuid \<times> uuid \<times> uuid \<times> string"

definition ident :: "task \<Rightarrow> task_identity" where
  "ident t = (tk_id t, tk_tenant t, tk_principal t, tk_project t)"

definition idents :: "chiasm_db \<Rightarrow> task_identity list" where
  "idents db = map ident (ch_tasks db)"

definition holder :: "path_claim \<Rightarrow> uuid \<times> uuid \<times> string" where
  "holder c = (pc_task c, pc_principal c, pc_project c)"

definition edge :: "dependency_row \<Rightarrow> uuid \<times> uuid" where
  "edge d = (dp_task d, dp_on d)"

definition edges :: "chiasm_db \<Rightarrow> (uuid \<times> uuid) set" where
  "edges db = edge ` set (ch_deps db)"

definition referenced :: "chiasm_db \<Rightarrow> uuid set" where
  "referenced db = tu_task ` set (ch_updates db) \<union> ta_task ` set (ch_activity db)"

text \<open>Two tasks of one tenant and owner.\<close>

definition same_scope :: "chiasm_db \<Rightarrow> uuid \<Rightarrow> uuid \<Rightarrow> bool" where
  "same_scope db i j \<longleftrightarrow> (\<exists>tenant p pr qr. (i, tenant, p, pr) \<in> set (idents db) \<and> (j, tenant, p, qr) \<in> set (idents db))"

definition chiasm_inv :: "chiasm_db \<Rightarrow> bool" where
  "chiasm_inv db \<longleftrightarrow> distinct (map fst (idents db)) \<and> referenced db \<subseteq> fst ` set (idents db) \<and>
     (\<forall>c \<in> set (ch_claims db). \<exists>tenant. (pc_task c, tenant, pc_principal c, pc_project c) \<in> set (idents db)) \<and>
     (\<forall>d \<in> set (ch_deps db). same_scope db (dp_task d) (dp_on d)) \<and> distinct (map edge (ch_deps db)) \<and> acyclic (edges db)"

lemma chiasm_invD:
  assumes "chiasm_inv db"
  shows "distinct (map fst (idents db))" "referenced db \<subseteq> fst ` set (idents db)"
    "c \<in> set (ch_claims db) \<Longrightarrow> \<exists>tenant. (pc_task c, tenant, pc_principal c, pc_project c) \<in> set (idents db)"
    "d \<in> set (ch_deps db) \<Longrightarrow> same_scope db (dp_task d) (dp_on d)" "distinct (map edge (ch_deps db))" "acyclic (edges db)"
  using assms by (auto simp: chiasm_inv_def)

lemma idents_unique:
  "chiasm_inv db \<Longrightarrow> (i, a) \<in> set (idents db) \<Longrightarrow> (i, b) \<in> set (idents db) \<Longrightarrow> a = b"
  by (rule eq_key_imp_eq_value [OF chiasm_invD(1)])

lemma idents_update: "(\<And>t. P t \<Longrightarrow> ident (f t) = ident t) \<Longrightarrow> map ident (sql_update P f ts) = map ident ts"
  by (rule map_sql_update)

lemma is_task_ident: "is_task tenant p i t \<Longrightarrow> ident t = (i, tenant, p, tk_project t)"
  by (simp add: is_task_def scoped_def ident_def)

lemma list_ex_is_task: "list_ex (is_task tenant p i) (ch_tasks db) \<longleftrightarrow> (\<exists>pr. (i, tenant, p, pr) \<in> set (idents db))"
  by (auto simp: list_ex_iff idents_def ident_def is_task_def scoped_def image_iff)

lemma get_in_Some:
  assumes "get_in tenant p i db = Some t"
  shows "t \<in> set (ch_tasks db)" "is_task tenant p i t" "(i, tenant, p, tk_project t) \<in> set (idents db)"
proof -
  show t: "t \<in> set (ch_tasks db)" "is_task tenant p i t" using find_SomeD [OF assms [unfolded get_in_def]] by simp_all
  then show "(i, tenant, p, tk_project t) \<in> set (idents db)" using is_task_ident [OF t(2)] by (force simp: idents_def)
qed

lemma get_in_None: "get_in tenant p i db = None \<longleftrightarrow> (\<nexists>pr. (i, tenant, p, pr) \<in> set (idents db))"
  unfolding get_in_def find_None list_ex_is_task [symmetric] by (auto simp: list_ex_iff)


section \<open>Operations that keep the identities and the dependencies\<close>

lemma inv_frame:
  assumes "chiasm_inv db" "idents db' = idents db" "ch_deps db' = ch_deps db"
    "holder ` set (ch_claims db') \<subseteq> holder ` set (ch_claims db)" "referenced db' \<subseteq> fst ` set (idents db)"
  shows "chiasm_inv db'"
proof -
  have "\<exists>tenant. (pc_task c, tenant, pc_principal c, pc_project c) \<in> set (idents db')" if "c \<in> set (ch_claims db')" for c
  proof -
    have "holder c \<in> holder ` set (ch_claims db)" using that assms(4) by blast
    then obtain c' where "holder c = holder c'" "c' \<in> set (ch_claims db)" by (rule imageE)
    then show ?thesis using chiasm_invD(3) [OF assms(1), of c'] unfolding assms(2) by (auto simp: holder_def)
  qed
  then show ?thesis using assms(1,5) by (simp add: chiasm_inv_def same_scope_def edges_def assms(2,3))
qed

lemma inv_frame_same:
  assumes "chiasm_inv db" "idents db' = idents db" "ch_deps db' = ch_deps db" "holder ` set (ch_claims db') = holder ` set (ch_claims db)"
    "ch_updates db' = ch_updates db" "ch_activity db' = ch_activity db"
  shows "chiasm_inv db'"
  using assms chiasm_invD(2) [OF assms(1)] by (intro inv_frame [OF assms(1)]) (simp_all add: referenced_def)

lemma inv_frame_ref:
  assumes "chiasm_inv db" "idents db' = idents db" "ch_deps db' = ch_deps db" "holder ` set (ch_claims db') = holder ` set (ch_claims db)"
    "referenced db' = insert i (referenced db)" "i \<in> fst ` set (idents db)"
  shows "chiasm_inv db'"
  using assms chiasm_invD(2) [OF assms(1)] by (intro inv_frame [OF assms(1)]) simp_all

lemma task_id_in: "t \<in> set (ch_tasks db) \<Longrightarrow> tk_id t \<in> fst ` set (idents db)"
  by (force simp: idents_def ident_def)

lemma emit_simps [simp]:
  "ch_tasks (emit ev t p db) = ch_tasks db" "ch_updates (emit ev t p db) = ch_updates db"
  "ch_activity (emit ev t p db) = ch_activity db" "ch_claims (emit ev t p db) = ch_claims db" "ch_deps (emit ev t p db) = ch_deps db"
  "ch_last_claim (emit ev t p db) = ch_last_claim db"
  by (simp_all add: emit_def)

lemma add_update_simps [simp]:
  "ch_tasks (add_update i st s now db) = ch_tasks db" "ch_activity (add_update i st s now db) = ch_activity db"
  "ch_claims (add_update i st s now db) = ch_claims db" "ch_deps (add_update i st s now db) = ch_deps db"
  "ch_last_claim (add_update i st s now db) = ch_last_claim db"
  "tu_task ` set (ch_updates (add_update i st s now db)) = insert i (tu_task ` set (ch_updates db))"
  by (auto simp: add_update_def)

lemma holder_update: "(\<And>c. holder (f c) = holder c) \<Longrightarrow> holder ` set (sql_update P f cs) = holder ` set cs"
proof -
  assume "\<And>c. holder (f c) = holder c"
  then have "map holder (sql_update P f cs) = map holder cs" by (intro map_sql_update)
  then have "set (map holder (sql_update P f cs)) = set (map holder cs)" by simp
  then show ?thesis by simp
qed

lemma update_keeps:
  assumes "chiasm_inv db"
  shows "chiasm_inv (fst (update_task now tenant p i patch db))"
proof (cases "get_in tenant p i db")
  case (Some t)
  have "i \<in> fst ` set (idents db)" using get_in_Some(3) [OF Some] by force
  then show ?thesis using Some
    by (intro inv_frame_ref [OF assms, where i = i])
      (simp_all add: update_task_def Let_def idents_def idents_update ident_def referenced_def)
qed (simp add: update_task_def assms)

lemma holder_simps [simp]:
  "holder ` set (sql_update P (\<lambda>c. c \<lparr> pc_expires_at := e \<rparr>) cs) = holder ` set cs"
  "holder ` set (sql_update P (\<lambda>c. c \<lparr> pc_released := r \<rparr>) cs) = holder ` set cs"
  by (rule holder_update; simp add: holder_def)+

lemma activity_keeps:
  assumes "chiasm_inv db"
  shows "chiasm_inv (fst (record_activity S now tenant p i kind payload db))"
proof (cases "is_object payload \<and> list_ex (is_task tenant p i) (ch_tasks db)")
  case True
  then have "i \<in> fst ` set (idents db)" unfolding list_ex_is_task by force
  moreover have "referenced (fst (record_activity S now tenant p i kind payload db)) = insert i (referenced db)"
    using True by (auto simp: record_activity_def Let_def referenced_def)
  ultimately show ?thesis using True
    by (intro inv_frame_ref [OF assms, where i = i]) (simp_all add: record_activity_def Let_def idents_def)
qed (auto simp: record_activity_def assms)

lemma claim_next_keeps:
  assumes "chiasm_inv db"
  shows "chiasm_inv (fst (claim_next now tenant owner claimer project db))"
  by (rule inv_frame_same [OF assms])
    (simp_all add: claim_next_def idents_def idents_update ident_def claimed_by_def split: option.split)

lemma heartbeat_keeps:
  assumes "chiasm_inv db"
  shows "chiasm_inv (fst (record_heartbeat now tenant p i db))"
  by (rule inv_frame_same [OF assms]) (simp_all add: record_heartbeat_def idents_def idents_update ident_def)

lemma stale_keeps:
  assumes "chiasm_inv db"
  shows "chiasm_inv (fst (stale_one now candidate db))"
proof (cases "sql_changed (is_unchanged candidate) (ch_tasks db) = 1")
  case True
  let ?db = "fst (stale_one now candidate db)"
  have "0 < sql_changed (is_unchanged candidate) (ch_tasks db)" using True by simp
  then obtain t where t: "t \<in> set (ch_tasks db)" "is_unchanged candidate t" unfolding sql_changed_pos by blast
  have "tk_id t = tk_id candidate" using t(2) by (simp add: is_unchanged_def is_task_def)
  then have "tk_id candidate \<in> fst ` set (idents db)" using task_id_in [OF t(1)] by simp
  then show ?thesis using True
    by (intro inv_frame_ref [OF assms, where i = "tk_id candidate"])
      (simp_all add: stale_one_def Let_def idents_def idents_update ident_def referenced_def)
qed (simp add: stale_one_def assms)

lemma release_keeps:
  assumes "chiasm_inv db"
  shows "chiasm_inv (fst (release_rows tenant p i db))"
  by (rule inv_frame_same [OF assms]) (simp_all add: release_rows_def Let_def idents_def)

lemma fold_update_simps [simp]:
  "ch_tasks (fold (\<lambda>t. add_update (tk_id t) st s now) ts db) = ch_tasks db"
  "ch_activity (fold (\<lambda>t. add_update (tk_id t) st s now) ts db) = ch_activity db"
  "ch_claims (fold (\<lambda>t. add_update (tk_id t) st s now) ts db) = ch_claims db"
  "ch_deps (fold (\<lambda>t. add_update (tk_id t) st s now) ts db) = ch_deps db"
  "tu_task ` set (ch_updates (fold (\<lambda>t. add_update (tk_id t) st s now) ts db)) = tk_id ` set ts \<union> tu_task ` set (ch_updates db)"
  by (induction ts arbitrary: db) auto

lemma fold_emit_simps [simp]:
  "ch_tasks (fold (\<lambda>t d. emit (f t) tenant p (emit (g t) tenant p d)) ts db) = ch_tasks db"
  "ch_updates (fold (\<lambda>t d. emit (f t) tenant p (emit (g t) tenant p d)) ts db) = ch_updates db"
  "ch_activity (fold (\<lambda>t d. emit (f t) tenant p (emit (g t) tenant p d)) ts db) = ch_activity db"
  "ch_claims (fold (\<lambda>t d. emit (f t) tenant p (emit (g t) tenant p d)) ts db) = ch_claims db"
  "ch_deps (fold (\<lambda>t d. emit (f t) tenant p (emit (g t) tenant p d)) ts db) = ch_deps db"
  by (induction ts arbitrary: db) simp_all

lemma unblock_keeps: "chiasm_inv db \<Longrightarrow> chiasm_inv (fst (check_and_unblock now tenant p completed db))"
proof (cases "get_in tenant p completed db")
  case (Some trigger)
  assume inv: "chiasm_inv db"
  let ?db = "fst (check_and_unblock now tenant p completed db)"
  have ids: "idents ?db = idents db" "ch_deps ?db = ch_deps db" "ch_claims ?db = ch_claims db"
    using Some by (simp_all add: check_and_unblock_def Let_def idents_def idents_update ident_def unblocked_task_def)
  have "referenced ?db \<subseteq> fst ` set (idents db)"
    using chiasm_invD(2) [OF inv] Some
    by (auto simp: check_and_unblock_def Let_def referenced_def unblocked_task_def idents_def ident_def image_image)
  then show ?thesis using ids by (intro inv_frame [OF inv]) simp_all
qed (simp add: check_and_unblock_def)


section \<open>New tasks, deletion and claims\<close>

lemma insert_keeps:
  assumes "chiasm_inv db" "insert_task t db = Inr db'"
  shows "chiasm_inv db'"
proof -
  have new: "tk_id t \<notin> fst ` set (idents db)" and db': "db' = db \<lparr> ch_tasks := ch_tasks db @ [t] \<rparr>"
    using assms(2) by (auto simp: insert_task_def list_ex_iff idents_def ident_def split: if_splits)
  have ids: "idents db' = idents db @ [ident t]" "fst (ident t) = tk_id t" by (simp_all add: db' idents_def ident_def)
  have rest: "ch_deps db' = ch_deps db" "ch_claims db' = ch_claims db" "referenced db' = referenced db" "edges db' = edges db"
    by (simp_all add: db' referenced_def edges_def)
  have "same_scope db i j \<Longrightarrow> same_scope db' i j" for i j unfolding same_scope_def ids by auto
  then show ?thesis using assms(1) new unfolding chiasm_inv_def rest ids by (auto simp: ids(2))
qed

lemma emit_keeps: "chiasm_inv db \<Longrightarrow> chiasm_inv (emit ev t p db)"
  by (simp add: chiasm_inv_def idents_def referenced_def same_scope_def edges_def)

lemma create_keeps: "chiasm_inv db \<Longrightarrow> chiasm_inv (fst (create_task now i new db))"
  by (auto simp: create_task_def Let_def split: sum.splits intro: emit_keeps insert_keeps)

lemma enqueue_keeps: "chiasm_inv db \<Longrightarrow> chiasm_inv (fst (enqueue now i new db))"
  by (auto simp: enqueue_def Let_def split: sum.splits intro: emit_keeps insert_keeps)

lemma edges_subset: "set ds \<subseteq> set (ch_deps db) \<Longrightarrow> edges (db \<lparr> ch_deps := ds \<rparr>) \<subseteq> edges db"
  by (auto simp: edges_def)

lemma delete_keeps:
  assumes "chiasm_inv db"
  shows "chiasm_inv (fst (delete_rows tenant p i db))"
proof (cases "list_ex (is_task tenant p i) (ch_tasks db)")
  case True
  let ?db = "db \<lparr> ch_tasks := filter (\<lambda>t. \<not> is_task tenant p i t) (ch_tasks db),
    ch_updates := filter (\<lambda>u. tu_task u \<noteq> i) (ch_updates db), ch_activity := filter (\<lambda>a. ta_task a \<noteq> i) (ch_activity db),
    ch_claims := filter (\<lambda>c. pc_task c \<noteq> i) (ch_claims db), ch_deps := filter (\<lambda>d. dp_task d \<noteq> i \<and> dp_on d \<noteq> i) (ch_deps db) \<rparr>"
  have stays: "(j, a) \<in> set (idents ?db)" if "(j, a) \<in> set (idents db)" "j \<noteq> i" for j a
    using that by (auto simp: idents_def ident_def is_task_def)
  have "idents ?db = map ident (filter (\<lambda>t. \<not> is_task tenant p i t) (ch_tasks db))" by (simp add: idents_def)
  then have "distinct (map fst (idents ?db))"
    using chiasm_invD(1) [OF assms] distinct_map_filter [of "fst \<circ> ident"] by (simp add: idents_def)
  note unique = this
  have "j \<in> fst ` set (idents ?db)" if "j \<in> fst ` set (idents db)" "j \<noteq> i" for j using that stays by force
  moreover have "referenced ?db \<subseteq> referenced db - {i}" by (auto simp: referenced_def)
  ultimately have "referenced ?db \<subseteq> fst ` set (idents ?db)" using chiasm_invD(2) [OF assms] by blast
  moreover have "\<exists>tn. (pc_task c, tn, pc_principal c, pc_project c) \<in> set (idents ?db)" if "c \<in> set (ch_claims ?db)" for c
  proof -
    have "c \<in> set (ch_claims db)" "pc_task c \<noteq> i" using that by simp_all
    then show ?thesis using chiasm_invD(3) [OF assms, of c] stays [of "pc_task c"] by blast
  qed
  moreover have "same_scope ?db (dp_task d) (dp_on d)" if "d \<in> set (ch_deps ?db)" for d
  proof -
    have "d \<in> set (ch_deps db)" "dp_task d \<noteq> i" "dp_on d \<noteq> i" using that by simp_all
    then show ?thesis using chiasm_invD(4) [OF assms, of d] stays [of "dp_task d"] stays [of "dp_on d"] unfolding same_scope_def by blast
  qed
  moreover have "distinct (map edge (ch_deps ?db))" using chiasm_invD(5) [OF assms] by (simp add: distinct_map_filter)
  moreover have "acyclic (edges ?db)" by (rule acyclic_subset [OF chiasm_invD(6) [OF assms]]) (auto simp: edges_def)
  ultimately have "chiasm_inv ?db" using unique unfolding chiasm_inv_def by blast
  then show ?thesis using True by (simp add: delete_rows_def emit_keeps)
qed (simp add: delete_rows_def assms)

lemma claim_paths_keeps:
  "claim_paths now expires t paths db = Inr (db', cs) \<Longrightarrow> chiasm_inv db \<Longrightarrow> ident t \<in> set (idents db) \<Longrightarrow> chiasm_inv db'"
proof (induction paths arbitrary: db cs)
  case (Cons path paths)
  let ?db1 = "fst (insert_claim now expires t path db)"
  have ids: "idents ?db1 = idents db" and same: "ch_deps ?db1 = ch_deps db" "referenced ?db1 = referenced db" "edges ?db1 = edges db"
    and claims: "set (ch_claims ?db1) = insert (snd (insert_claim now expires t path db)) (set (ch_claims db))"
    by (simp_all add: insert_claim_def Let_def idents_def referenced_def edges_def)
  have "(tk_id t, tk_tenant t, tk_principal t, tk_project t) \<in> set (idents db)" using Cons.prems(3) by (simp add: ident_def)
  then have "chiasm_inv ?db1" using Cons.prems(2) unfolding chiasm_inv_def claims same_scope_def ids same
    by (auto simp: insert_claim_def Let_def)
  moreover note ids
  ultimately show ?case using Cons.prems Cons.IH [of ?db1]
    by (auto split: option.splits sum.splits prod.splits)
qed simp

lemma create_claims_keeps: "chiasm_inv db \<Longrightarrow> chiasm_inv (fst (create_claims now tenant p i paths ttl db))"
proof (cases "get_in tenant p i db")
  case (Some t)
  assume inv: "chiasm_inv db"
  have "ident t \<in> set (idents db)" using get_in_Some(1) [OF Some] by (simp add: idents_def)
  then show ?thesis using Some inv
    by (auto simp: create_claims_def split: sum.splits intro: emit_keeps claim_paths_keeps)
qed (simp add: create_claims_def)


section \<open>Dependencies\<close>

definition scoped_edges :: "uuid \<Rightarrow> uuid \<Rightarrow> chiasm_db \<Rightarrow> (uuid \<times> uuid) set" where
  "scoped_edges tenant p db = {(i, j). j \<in> set (targets tenant p i db)}"

definition unvisited :: "('a \<times> 'a) set \<Rightarrow> 'a set \<Rightarrow> ('a \<times> 'a) set" where
  "unvisited E V = {(i, j) \<in> E. i \<notin> V}"

lemma unvisited_insert:
  "(x, y) \<in> (unvisited E V)\<^sup>* \<Longrightarrow>
   (x, y) \<in> (unvisited E (insert c V))\<^sup>* \<or> (\<exists>z. (c, z) \<in> E \<and> (z, y) \<in> (unvisited E (insert c V))\<^sup>*)"
proof (induction rule: converse_rtrancl_induct)
  case (step x z)
  show ?case
  proof (cases "x = c")
    case True
    then show ?thesis using step by (auto simp: unvisited_def)
  next
    case False
    then have "(x, z) \<in> unvisited E (insert c V)" using step.hyps(1) by (auto simp: unvisited_def)
    then show ?thesis using step.IH by (meson converse_rtrancl_into_rtrancl)
  qed
qed simp

lemma unvisited_mono: "(x, y) \<in> (unvisited E (insert c V))\<^sup>* \<Longrightarrow> (x, y) \<in> (unvisited E V)\<^sup>*"
  by (rule rtrancl_mono [THEN subsetD]) (auto simp: unvisited_def)

text \<open>The breadth-first search finds what is reachable without leaving a visited task.\<close>

lemma reaches_loop_iff:
  assumes "needle \<notin> set visited"
  shows "reaches_loop tenant p db needle visited queue \<longleftrightarrow>
    (\<exists>x \<in> set queue. (x, needle) \<in> (unvisited (scoped_edges tenant p db) (set visited))\<^sup>*)"
  using assms
proof (induction tenant p db needle visited queue rule: reaches_loop.induct)
  case (2 tenant p db needle visited current queue)
  let ?E = "scoped_edges tenant p db"
  consider "current = needle" | "current \<noteq> needle" "current \<in> set visited" | "current \<noteq> needle" "current \<notin> set visited" by blast
  then show ?case
  proof cases
    case 1
    then show ?thesis by auto
  next
    case 2
    then have "(current, needle) \<notin> (unvisited ?E (set visited))\<^sup>*"
      by (auto elim!: converse_rtranclE simp: unvisited_def)
    then show ?thesis using 2 "2.IH"(1) "2.prems" by auto
  next
    case 3
    have "(\<exists>x \<in> set (queue @ targets tenant p current db). (x, needle) \<in> (unvisited ?E (insert current (set visited)))\<^sup>*) \<longleftrightarrow>
        (\<exists>x \<in> insert current (set queue). (x, needle) \<in> (unvisited ?E (set visited))\<^sup>*)"
    proof
      assume "\<exists>x \<in> insert current (set queue). (x, needle) \<in> (unvisited ?E (set visited))\<^sup>*"
      then obtain x where x: "x \<in> insert current (set queue)" "(x, needle) \<in> (unvisited ?E (set visited))\<^sup>*" by blast
      from unvisited_insert [OF x(2), of current]
      show "\<exists>x \<in> set (queue @ targets tenant p current db). (x, needle) \<in> (unvisited ?E (insert current (set visited)))\<^sup>*"
      proof
        assume path: "(x, needle) \<in> (unvisited ?E (insert current (set visited)))\<^sup>*"
        then have "x \<noteq> current" using 3(1) by (auto elim!: converse_rtranclE simp: unvisited_def)
        then show ?thesis using path x(1) by auto
      qed (auto simp: scoped_edges_def)
    next
      assume "\<exists>x \<in> set (queue @ targets tenant p current db). (x, needle) \<in> (unvisited ?E (insert current (set visited)))\<^sup>*"
      then obtain x where x: "x \<in> set queue \<or> (current, x) \<in> ?E" "(x, needle) \<in> (unvisited ?E (insert current (set visited)))\<^sup>*"
        by (auto simp: scoped_edges_def)
      then have "x \<in> set queue \<or> (current, needle) \<in> (unvisited ?E (set visited))\<^sup>*"
        using 3(2) unvisited_mono [OF x(2)] by (auto simp: unvisited_def intro: converse_rtrancl_into_rtrancl)
      then show "\<exists>x \<in> insert current (set queue). (x, needle) \<in> (unvisited ?E (set visited))\<^sup>*"
        using unvisited_mono [OF x(2)] by blast
    qed
    then show ?thesis using 3 "2.IH"(2) "2.prems" by simp
  qed
qed simp

lemma reaches_iff: "reaches tenant p start needle db \<longleftrightarrow> (start, needle) \<in> (scoped_edges tenant p db)\<^sup>*"
  using reaches_loop_iff [of needle "[]" tenant p db "[start]"] by (simp add: reaches_def unvisited_def del: reaches_loop.simps)

text \<open>A path that starts inside the boundary stays inside it.\<close>

lemma scoped_edges_subset: "scoped_edges tenant p db \<subseteq> edges db"
  by (auto simp: scoped_edges_def targets_def edges_def edge_def image_iff)

lemma path_stays:
  assumes "chiasm_inv db" "(i, j) \<in> (edges db)\<^sup>*" "(i, tenant, p, pr) \<in> set (idents db)"
  shows "(i, j) \<in> (scoped_edges tenant p db)\<^sup>* \<and> (\<exists>qr. (j, tenant, p, qr) \<in> set (idents db))"
  using assms(2)
proof (induction rule: rtrancl_induct)
  case base
  then show ?case using assms(3) by auto
next
  case (step j k)
  then obtain qr where j: "(j, tenant, p, qr) \<in> set (idents db)" by blast
  obtain d where d: "d \<in> set (ch_deps db)" "edge d = (j, k)" using step.hyps(2) by (auto simp: edges_def)
  then obtain rr where k: "(k, tenant, p, rr) \<in> set (idents db)"
    using chiasm_invD(4) [OF assms(1) d(1)] idents_unique [OF assms(1) j] by (fastforce simp: same_scope_def edge_def)
  have "(j, k) \<in> scoped_edges tenant p db"
    using d j k by (force simp: scoped_edges_def targets_def list_ex_is_task edge_def)
  then show ?case using step.IH k by (auto intro: rtrancl_into_rtrancl)
qed

lemma reaches_edges:
  assumes "chiasm_inv db" "(start, tenant, p, pr) \<in> set (idents db)"
  shows "reaches tenant p start needle db \<longleftrightarrow> (start, needle) \<in> (edges db)\<^sup>*"
  using path_stays [OF assms(1) _ assms(2)] rtrancl_mono [OF scoped_edges_subset] unfolding reaches_iff by blast

lemma insert_or_ignore_keeps:
  assumes "chiasm_inv db" "(i, tenant, p, pr) \<in> set (idents db)" "(dep, tenant, p, qr) \<in> set (idents db)"
    "\<not> reaches tenant p dep i db"
  shows "chiasm_inv (insert_or_ignore now i dep db)" "idents (insert_or_ignore now i dep db) = idents db"
    "edges (insert_or_ignore now i dep db) = insert (i, dep) (edges db)"
proof -
  show e: "edges (insert_or_ignore now i dep db) = insert (i, dep) (edges db)"
    by (auto simp: insert_or_ignore_def edges_def edge_def list_ex_iff image_iff)
  show "idents (insert_or_ignore now i dep db) = idents db" by (simp add: insert_or_ignore_def idents_def)
  have "(dep, i) \<notin> (edges db)\<^sup>*" using assms(4) reaches_edges [OF assms(1,3)] by blast
  then have "acyclic (insert (i, dep) (edges db))" using chiasm_invD(6) [OF assms(1)] by (simp add: acyclic_insert)
  then have a: "acyclic (edges (insert_or_ignore now i dep db))" unfolding e .
  show "chiasm_inv (insert_or_ignore now i dep db)"
  proof (cases "list_ex (\<lambda>d. dp_task d = i \<and> dp_on d = dep) (ch_deps db)")
    case False
    then have new: "(i, dep) \<notin> edge ` set (ch_deps db)" by (auto simp: list_ex_iff edge_def)
    have "same_scope db i dep" using assms(2,3) by (auto simp: same_scope_def)
    then show ?thesis using False new a assms(1)
      by (auto simp: insert_or_ignore_def chiasm_inv_def idents_def referenced_def same_scope_def edge_def)
  qed (simp add: insert_or_ignore_def assms(1))
qed

lemma add_edges_keeps:
  "add_edges now tenant p i deps db = Inr db' \<Longrightarrow> chiasm_inv db \<Longrightarrow> (i, tenant, p, pr) \<in> set (idents db) \<Longrightarrow>
   chiasm_inv db' \<and> edges db' = (\<lambda>dep. (i, dep)) ` set deps \<union> edges db \<and> ch_tasks db' = ch_tasks db"
proof (induction deps arbitrary: db)
  case (Cons dep deps)
  then obtain qr where dep: "(dep, tenant, p, qr) \<in> set (idents db)" "\<not> reaches tenant p dep i db"
    "add_edges now tenant p i deps (insert_or_ignore now i dep db) = Inr db'"
    by (auto simp: get_in_None split: if_splits)
  note one = insert_or_ignore_keeps [OF Cons.prems(2,3) dep(1,2), of now]
  have "ch_tasks (insert_or_ignore now i dep db) = ch_tasks db" by (simp add: insert_or_ignore_def)
  then show ?case using Cons.IH [OF dep(3) one(1)] Cons.prems(3) one(2,3) by auto
qed simp

lemma add_dependencies_keeps: "chiasm_inv db \<Longrightarrow> chiasm_inv (fst (add_dependencies now tenant p i deps db))"
  using add_edges_keeps by (auto simp: add_dependencies_def get_in_None split: sum.splits)

lemma remove_dependency_keeps:
  assumes "chiasm_inv db"
  shows "chiasm_inv (fst (remove_dependency tenant p i dep db))"
proof -
  have "acyclic (edges (db \<lparr> ch_deps := filter P (ch_deps db) \<rparr>))" for P
    by (rule acyclic_subset [OF chiasm_invD(6) [OF assms]]) (auto simp: edges_def)
  then show ?thesis using assms
    by (auto simp: remove_dependency_def Let_def chiasm_inv_def idents_def referenced_def same_scope_def distinct_map_filter)
qed

lemma chiasm_apply_keeps: "chiasm_inv db \<Longrightarrow> chiasm_inv (fst (chiasm_apply S x db))"
  by (cases x) (simp_all add: create_keeps update_keeps delete_keeps activity_keeps enqueue_keeps claim_next_keeps heartbeat_keeps
      stale_keeps create_claims_keeps release_keeps add_dependencies_keeps remove_dependency_keeps unblock_keeps)

lemma empty_chiasm_ok: "chiasm_inv empty_chiasm"
  by (simp add: chiasm_inv_def empty_chiasm_def idents_def referenced_def edges_def acyclic_def)

interpretation chiasm: store "chiasm_apply S" "\<lambda>_. True" chiasm_inv
  by unfold_locales (rule chiasm_apply_keeps)

lemma chiasm_history_keeps: "chiasm_inv (fst (run (chiasm_apply S) ops empty_chiasm))"
  by (rule chiasm.inv_run [OF empty_chiasm_ok]) (simp add: list_all_iff)

end
