(* ===== verification/Chiasm_Tasks.thy ===== *)
theory Chiasm_Tasks
  imports Chiasm_Invariant
begin

text \<open>
  What the task store promises about dependencies and the work queue: after any history the dependencies
  are acyclic, an edge is accepted exactly when it keeps them so, a completed task activates exactly the
  dependents whose last open dependency it was, and a queued task is handed to at most one claimer, in the
  order of the queue. The sweep marks only what is still overdue.
\<close>


section \<open>Dependencies\<close>

definition sample_new :: "uuid \<Rightarrow> uuid \<Rightarrow> string \<Rightarrow> task_status option \<Rightarrow> new_task" where
  "sample_new tenant p title st = \<lparr> nt_tenant = tenant, nt_principal = p, nt_project = ''web'', nt_title = title, nt_status = st,
     nt_summary = None, nt_expected_output = None, nt_output_format = None, nt_assignee = None, nt_heartbeat_interval_secs = None \<rparr>"

definition sample_chain :: "chiasm_op list" where
  "sample_chain = [CreateTask 1 11 (sample_new 2 3 ''design'' None), CreateTask 2 12 (sample_new 2 3 ''build'' (Some Blocked)),
     CreateTask 3 13 (sample_new 2 3 ''ship'' (Some Blocked)), CreateTask 4 14 (sample_new 9 3 ''foreign'' None),
     AddDependencies 5 2 3 12 [11], AddDependencies 6 2 3 13 [12, 11], AddDependencies 7 2 3 11 [13], AddDependencies 8 2 3 11 [14]]"

abbreviation after :: "serde \<Rightarrow> chiasm_op list \<Rightarrow> chiasm_db" where
  "after S ops \<equiv> fst (run (chiasm_apply S) ops empty_chiasm)"

lemma edges_eq: "edges db = {(dp_task d, dp_on d) | d. d \<in> set (ch_deps db)}"
  by (auto simp: edges_def edge_def)

lemma edges_in: "(i, j) \<in> edges db \<longleftrightarrow> (\<exists>d \<in> set (ch_deps db). dp_task d = i \<and> dp_on d = j)"
  unfolding edges_def edge_def image_iff by auto

text \<open>
  After any history of the store the dependencies of tasks are acyclic and without
  repetition, and both ends of each are tasks of the same tenant and owner.
\<close>

theorem dependencies_stay_acyclic:
  "acyclic {(dp_task d, dp_on d) | d. d \<in> set (ch_deps (after S ops))} \<and>
   distinct (map (\<lambda>d. (dp_task d, dp_on d)) (ch_deps (after S ops))) \<and>
   (\<forall>d \<in> set (ch_deps (after S ops)). \<exists>t \<in> set (ch_tasks (after S ops)). \<exists>u \<in> set (ch_tasks (after S ops)).
      tk_id t = dp_task d \<and> tk_id u = dp_on d \<and> tk_tenant t = tk_tenant u \<and> tk_principal t = tk_principal u)"
proof (intro conjI ballI)
  note inv = chiasm_history_keeps [of S ops]
  show "acyclic {(dp_task d, dp_on d) | d. d \<in> set (ch_deps (after S ops))}" using chiasm_invD(6) [OF inv] by (simp add: edges_eq)
  show "distinct (map (\<lambda>d. (dp_task d, dp_on d)) (ch_deps (after S ops)))" using chiasm_invD(5) [OF inv] by (simp add: edge_def [abs_def])
  fix d assume "d \<in> set (ch_deps (after S ops))"
  from chiasm_invD(4) [OF inv this]
  show "\<exists>t \<in> set (ch_tasks (after S ops)). \<exists>u \<in> set (ch_tasks (after S ops)).
      tk_id t = dp_task d \<and> tk_id u = dp_on d \<and> tk_tenant t = tk_tenant u \<and> tk_principal t = tk_principal u"
    unfolding same_scope_def idents_def ident_def by clarsimp metis
qed

abbreviation plain_serde :: serde where
  "plain_serde \<equiv> sample_serde (\<lambda>_. None)"

theorem dependencies_stay_acyclic_witness:
  "acyclic {(dp_task d, dp_on d) | d. d \<in> set (ch_deps (after plain_serde sample_chain))} \<and>
   map (\<lambda>d. (dp_task d, dp_on d)) (ch_deps (after plain_serde sample_chain)) = [(12, 11), (13, 12), (13, 11)]"
proof
  show "acyclic {(dp_task d, dp_on d) | d. d \<in> set (ch_deps (after plain_serde sample_chain))}"
    using dependencies_stay_acyclic [of plain_serde sample_chain] by blast
qed code_simp

text \<open>
  Property C26. The cycle check is exact: after any history a dependency is accepted exactly when both
  tasks belong to the caller and the dependencies with the new one are acyclic.
\<close>

theorem dependency_accepted_iff:
  "snd (add_dependencies now tenant p i [dep] (after S ops)) = Inr () \<longleftrightarrow>
   get_in tenant p i (after S ops) \<noteq> None \<and> get_in tenant p dep (after S ops) \<noteq> None \<and>
   acyclic (insert (i, dep) {(dp_task d, dp_on d) | d. d \<in> set (ch_deps (after S ops))})"
proof -
  define db where "db = after S ops"
  have inv: "chiasm_inv db" unfolding db_def by (rule chiasm_history_keeps)
  have "reaches tenant p dep i db \<longleftrightarrow> (dep, i) \<in> (edges db)\<^sup>*" if "get_in tenant p dep db \<noteq> None"
    using reaches_edges [OF inv] that unfolding get_in_None by blast
  then have "snd (add_dependencies now tenant p i [dep] db) = Inr () \<longleftrightarrow>
      get_in tenant p i db \<noteq> None \<and> get_in tenant p dep db \<noteq> None \<and> acyclic (insert (i, dep) (edges db))"
    using chiasm_invD(6) [OF inv] by (auto simp: add_dependencies_def acyclic_insert)
  then show ?thesis by (simp add: db_def edges_eq)
qed


section \<open>Unblocking\<close>

text \<open>
  When a completed task is reported, exactly the caller's blocked tasks that depend on
  it and have no other open dependency become active, and every other task stays as it is.
\<close>

theorem unblocks_exactly:
  assumes "get_in tenant p completed (after S ops) = Some trigger" "tk_status trigger = Completed"
  shows "ch_tasks (fst (check_and_unblock now tenant p completed (after S ops))) =
    map (\<lambda>t. if tk_tenant t = tenant \<and> tk_principal t = p \<and> tk_status t = Blocked \<and>
        (tk_id t, completed) \<in> edges (after S ops) \<and>
        (\<forall>dep. (tk_id t, dep) \<in> edges (after S ops) \<longrightarrow> (\<exists>r \<in> set (ch_tasks (after S ops)). tk_id r = dep \<and> tk_status r = Completed))
      then t \<lparr> tk_status := Active, tk_summary := Some UNBLOCKED_SUMMARY, tk_updated_at := now \<rparr> else t) (ch_tasks (after S ops))"
proof -
  define db where "db = after S ops"
  have inv: "chiasm_inv db" unfolding db_def by (rule chiasm_history_keeps)
  have "unblockable tenant p completed db t \<longleftrightarrow> tk_tenant t = tenant \<and> tk_principal t = p \<and> tk_status t = Blocked \<and>
      (tk_id t, completed) \<in> edges db \<and>
      (\<forall>dep. (tk_id t, dep) \<in> edges db \<longrightarrow> (\<exists>r \<in> set (ch_tasks db). tk_id r = dep \<and> tk_status r = Completed))"
    if t: "t \<in> set (ch_tasks db)" for t
  proof -
    have own: "is_task tenant p dep r" if "tk_tenant t = tenant" "tk_principal t = p" "(tk_id t, dep) \<in> edges db" "r \<in> set (ch_tasks db)"
        "tk_id r = dep" for dep r
    proof -
      obtain d where d: "d \<in> set (ch_deps db)" "dp_task d = tk_id t" "dp_on d = dep" using \<open>(tk_id t, dep) \<in> edges db\<close> by (auto simp: edges_eq)
      have "(tk_id t, tenant, p, tk_project t) \<in> set (idents db)" "(dep, tk_tenant r, tk_principal r, tk_project r) \<in> set (idents db)"
        using t that by (auto simp: idents_def ident_def)
      then show ?thesis using chiasm_invD(4) [OF inv d(1)] idents_unique [OF inv] \<open>tk_id r = dep\<close> unfolding d(2,3) same_scope_def is_task_def scoped_def
        by (metis prod.inject)
    qed
    have "list_ex (\<lambda>d. dp_on d = completed \<and> dp_task d = tk_id t) (ch_deps db) \<longleftrightarrow> (tk_id t, completed) \<in> edges db"
      by (auto simp: list_ex_iff edges_in)
    moreover have "list_all (\<lambda>d. dp_task d = tk_id t \<longrightarrow> list_ex (\<lambda>r. is_task tenant p (dp_on d) r \<and> tk_status r = Completed) (ch_tasks db))
        (ch_deps db) \<longleftrightarrow> (\<forall>dep. (tk_id t, dep) \<in> edges db \<longrightarrow> (\<exists>r \<in> set (ch_tasks db). tk_id r = dep \<and> tk_status r = Completed))"
      if "tk_tenant t = tenant" "tk_principal t = p"
    proof -
      have "list_ex (\<lambda>r. is_task tenant p (dp_on d) r \<and> tk_status r = Completed) (ch_tasks db) \<longleftrightarrow>
          (\<exists>r \<in> set (ch_tasks db). tk_id r = dp_on d \<and> tk_status r = Completed)"
        if "d \<in> set (ch_deps db)" "dp_task d = tk_id t" for d
        using own [OF \<open>tk_tenant t = tenant\<close> \<open>tk_principal t = p\<close>, of "dp_on d"] that by (auto simp: list_ex_iff edges_in is_task_def)
      then show ?thesis by (auto simp: list_all_iff edges_in)
    qed
    ultimately show ?thesis by (auto simp: unblockable_def scoped_def)
  qed
  note main = this
  have "ch_tasks (fst (check_and_unblock now tenant p completed db)) =
      map (\<lambda>t. if unblockable tenant p completed db t then unblocked_task now t else t) (ch_tasks db)"
    using assms by (simp add: check_and_unblock_def Let_def sql_update_def db_def [symmetric])
  also have "\<dots> = map (\<lambda>t. if tk_tenant t = tenant \<and> tk_principal t = p \<and> tk_status t = Blocked \<and> (tk_id t, completed) \<in> edges db \<and>
        (\<forall>dep. (tk_id t, dep) \<in> edges db \<longrightarrow> (\<exists>r \<in> set (ch_tasks db). tk_id r = dep \<and> tk_status r = Completed))
      then unblocked_task now t else t) (ch_tasks db)"
    by (rule map_cong [OF refl]) (simp only: main)
  finally show ?thesis by (simp only: db_def unblocked_task_def)
qed


theorem unblocks_exactly_witness:
  "map (\<lambda>t. (tk_id t, tk_status t)) (ch_tasks (fst (check_and_unblock 20 2 3 11 (after plain_serde
     (sample_chain @ [UpdateTask 9 2 3 11 \<lparr> pt_title = None, pt_status = Some Completed, pt_summary = None, pt_assignee = None \<rparr>]))))) =
   [(11, Completed), (12, Active), (13, Blocked), (14, Active)]"
proof -
  let ?ops = "sample_chain @ [UpdateTask 9 2 3 11 \<lparr> pt_title = None, pt_status = Some Completed, pt_summary = None, pt_assignee = None \<rparr>]"
  let ?db = "after plain_serde ?ops"
  have e: "map edge (ch_deps ?db) = [(12, 11), (13, 12), (13, 11)]" by code_simp
  then have edges: "edges ?db = {(12, 11), (13, 12), (13, 11)}" unfolding edges_def set_map [symmetric] by simp
  have "get_in 2 3 11 ?db = Some (hd (ch_tasks ?db))" "tk_status (hd (ch_tasks ?db)) = Completed" by code_simp+
  note result = unblocks_exactly [OF this, where now = 20]
  have tasks: "map (\<lambda>t. (tk_id t, tk_tenant t, tk_principal t, tk_status t)) (ch_tasks ?db) =
      [(11, 2, 3, Completed), (12, 2, 3, Blocked), (13, 2, 3, Blocked), (14, 9, 3, Active)]" by code_simp
  then obtain a b c d where ts: "ch_tasks ?db = [a, b, c, d]" "tk_id a = 11" "tk_id b = 12" "tk_id c = 13" "tk_id d = 14"
      "tk_status a = Completed" "tk_status b = Blocked" "tk_status c = Blocked" "tk_status d = Active"
      "tk_tenant b = 2" "tk_principal b = 3" "tk_tenant c = 2" "tk_principal c = 3"
    by (auto simp: map_eq_Cons_conv)
  show ?thesis unfolding result edges ts(1) using ts by auto
qed


section \<open>The work queue\<close>

text \<open>
  \<open>claim_next\<close> serves the queue in order: it returns the oldest unassigned queued task of
  the owner that fits the project, now active, assigned to the claimer and with a first heartbeat,
  changes no other task, and finds nothing only when there is none.
\<close>

theorem claim_takes_the_oldest:
  "case claim_next now tenant owner claimer project (after S ops) of
     (db', None) \<Rightarrow> db' = after S ops \<and> filter (claimable tenant owner project) (ch_tasks (after S ops)) = []
   | (db', Some t) \<Rightarrow> \<exists>earlier old later. ch_tasks (after S ops) = earlier @ old # later \<and>
       claimable tenant owner project old \<and> filter (claimable tenant owner project) earlier = [] \<and>
       t = old \<lparr> tk_assignee := Some claimer, tk_status := Active, tk_last_heartbeat := Some now, tk_updated_at := now \<rparr> \<and>
       ch_tasks db' = earlier @ t # later"
proof -
  define db where "db = after S ops"
  define fits where "fits = claimable tenant owner project"
  have inv: "chiasm_inv db" unfolding db_def by (rule chiasm_history_keeps)
  show ?thesis
  proof (cases "find fits (ch_tasks db)")
    case None
    then have "filter fits (ch_tasks db) = []" by (simp add: find_None filter_empty_conv)
    with None show ?thesis unfolding db_def [symmetric] fits_def [symmetric]
      by (simp add: claim_next_def fits_def [symmetric])
  next
    case (Some old)
    then obtain n where n: "n < length (ch_tasks db)" "fits old" "old = ch_tasks db ! n" "\<forall>j < n. \<not> fits (ch_tasks db ! j)"
      by (auto simp: find_Some_iff)
    let ?a = "take n (ch_tasks db)" and ?b = "drop (Suc n) (ch_tasks db)"
    have split: "ch_tasks db = ?a @ old # ?b" using n(1,3) by (simp add: id_take_nth_drop)
    have none: "filter fits ?a = []" using n(4) by (auto simp: filter_empty_conv in_set_conv_nth)
    have own: "is_task tenant owner (tk_id old) old" using n(2) by (simp add: fits_def claimable_def is_task_def scoped_def)
    have "distinct (map tk_id (ch_tasks db))" using chiasm_invD(1) [OF inv] by (simp add: idents_def ident_def comp_def)
    then have "tk_id old \<notin> tk_id ` set (?a @ ?b)" by (subst (asm) split) auto
    then have "tk_id t \<noteq> tk_id old" if "t \<in> set (?a @ ?b)" for t using imageI [OF that, of tk_id] by metis
    then have "\<not> is_task tenant owner (tk_id old) t" if "t \<in> set (?a @ ?b)" for t using that unfolding is_task_def by blast
    then have "sql_update (is_task tenant owner (tk_id old)) f (ch_tasks db) = ?a @ f old # ?b" for f
      by (subst split) (use own in \<open>auto simp: sql_update_def intro!: map_idI\<close>)
    then have r: "claim_next now tenant owner claimer project db =
        (emit (TaskClaimed (tk_id old) claimer) tenant owner (db \<lparr> ch_tasks := ?a @ claimed_by claimer now old # ?b \<rparr>),
         Some (claimed_by claimer now old))"
      using Some by (simp add: claim_next_def fits_def [symmetric])
    show ?thesis unfolding db_def [symmetric] fits_def [symmetric] r prod.case option.case
      by (intro exI [of _ ?a] exI [of _ old] exI [of _ ?b] conjI split n(2) none) (simp_all add: claimed_by_def)
  qed
qed


fun mints :: "uuid \<Rightarrow> chiasm_op \<Rightarrow> bool" where
  "mints k (CreateTask now i new) \<longleftrightarrow> i = k"
| "mints k (Enqueue now i new) \<longleftrightarrow> i = k"
| "mints k _ \<longleftrightarrow> False"

fun hands_out :: "uuid \<Rightarrow> chiasm_reply \<Rightarrow> bool" where
  "hands_out k (Claimed (Some t)) \<longleftrightarrow> tk_id t = k"
| "hands_out k _ \<longleftrightarrow> False"

text \<open>A task that has an assignee keeps one.\<close>

definition is_assigned :: "uuid \<Rightarrow> chiasm_db \<Rightarrow> bool" where
  "is_assigned k db \<longleftrightarrow> (\<forall>t \<in> set (ch_tasks db). tk_id t = k \<longrightarrow> tk_assignee t \<noteq> None)"

lemma assigned_update:
  assumes "is_assigned k db" "ch_tasks db' = sql_update P f (ch_tasks db)" "\<And>t. tk_id (f t) = tk_id t"
    "\<And>t. tk_assignee t \<noteq> None \<Longrightarrow> tk_assignee (f t) \<noteq> None"
  shows "is_assigned k db'"
  using assms(1,3,4) unfolding is_assigned_def assms(2) set_sql_update by auto

lemma assigned_same: "is_assigned k db \<Longrightarrow> ch_tasks db' = ch_tasks db \<Longrightarrow> is_assigned k db'"
  by (simp add: is_assigned_def)

lemma claim_paths_tasks: "claim_paths now expires t paths db = Inr (db', cs) \<Longrightarrow> ch_tasks db' = ch_tasks db"
proof (induction paths arbitrary: db cs)
  case (Cons path paths)
  have "ch_tasks (fst (insert_claim now expires t path db)) = ch_tasks db" by (simp add: insert_claim_def Let_def)
  then show ?case using Cons by (auto split: option.splits sum.splits prod.splits)
qed simp

lemma create_claims_tasks: "ch_tasks (fst (create_claims now tenant p i paths ttl db)) = ch_tasks db"
  by (auto simp: create_claims_def dest: claim_paths_tasks split: option.splits sum.splits)

lemma add_edges_tasks: "add_edges now tenant p i deps db = Inr db' \<Longrightarrow> ch_tasks db' = ch_tasks db"
proof (induction deps arbitrary: db)
  case (Cons dep deps)
  have "ch_tasks (insert_or_ignore now i dep db) = ch_tasks db" by (simp add: insert_or_ignore_def)
  then show ?case using Cons by (auto split: if_splits)
qed simp

lemma assigned_insert: "is_assigned k db \<Longrightarrow> insert_task t db = Inr db' \<Longrightarrow> tk_id t \<noteq> k \<Longrightarrow> is_assigned k db'"
  by (auto simp: is_assigned_def insert_task_def split: if_splits)

lemma assigned_emit [simp]: "is_assigned k (emit ev tenant p db) = is_assigned k db"
  by (simp add: is_assigned_def)

lemma update_tasks:
  "ch_tasks (fst (update_task now tenant p i patch db)) = (case get_in tenant p i db of None \<Rightarrow> ch_tasks db
    | Some old \<Rightarrow> sql_update (is_task tenant p i) (\<lambda>r. r \<lparr> tk_title := tk_title (patched now patch old),
        tk_status := tk_status (patched now patch old), tk_summary := tk_summary (patched now patch old),
        tk_assignee := tk_assignee (patched now patch old), tk_updated_at := tk_updated_at (patched now patch old) \<rparr>) (ch_tasks db))"
  by (simp add: update_task_def Let_def split: option.split)

lemma assigned_step:
  assumes "is_assigned k db" "\<not> mints k x"
  shows "is_assigned k (fst (chiasm_apply S x db))"
proof (cases x)
  case (CreateTask now i new)
  then show ?thesis using assms by (auto simp: create_task_def Let_def task_of_new_def split: sum.splits intro: assigned_insert)
next
  case (Enqueue now i new)
  then show ?thesis using assms by (auto simp: enqueue_def Let_def split: sum.splits intro: assigned_insert)
next
  case (UpdateTask now tenant p i patch)
  show ?thesis
  proof (cases "get_in tenant p i db")
    case (Some old)
    have "tk_assignee r \<noteq> None" if r: "r \<in> set (ch_tasks (fst (chiasm_apply S x db)))" "tk_id r = k" for r
    proof -
      obtain t where t: "t \<in> set (ch_tasks db)" "tk_id t = k" "r = t \<or> is_task tenant p i t \<and> tk_assignee r = tk_assignee (patched now patch old)"
        using r Some unfolding UpdateTask by (auto simp: update_tasks set_sql_update split: if_splits)
      have "tk_id old = i" "old \<in> set (ch_tasks db)" using get_in_Some [OF Some] by (auto simp: is_task_def)
      then have "is_task tenant p i t \<Longrightarrow> tk_assignee old \<noteq> None" using assms(1) t(2) by (auto simp: is_assigned_def is_task_def)
      then show ?thesis using t assms(1) by (auto simp: patched_def is_assigned_def split: option.splits)
    qed
    then show ?thesis by (simp add: is_assigned_def)
  qed (use assms UpdateTask in \<open>simp add: update_task_def\<close>)
next
  case (DeleteRows tenant p i)
  then show ?thesis using assms by (auto simp: delete_rows_def is_assigned_def)
next
  case (ClaimNext now tenant owner claimer project)
  show ?thesis
  proof (cases "find (claimable tenant owner project) (ch_tasks db)")
    case (Some t)
    then have "ch_tasks (fst (chiasm_apply S x db)) = sql_update (is_task tenant owner (tk_id t)) (claimed_by claimer now) (ch_tasks db)"
      unfolding ClaimNext by (simp add: claim_next_def)
    then show ?thesis by (rule assigned_update [OF assms(1)]) (simp_all add: claimed_by_def)
  qed (use assms(1) ClaimNext in \<open>simp add: claim_next_def\<close>)
next
  case (Heartbeat now tenant p i)
  then show ?thesis using assms(1)
    by (cases "sql_changed (is_task tenant p i) (ch_tasks db) = 0") (simp_all add: record_heartbeat_def assigned_update)
next
  case (StaleOne now candidate)
  then show ?thesis using assms(1)
    by (cases "sql_changed (is_unchanged candidate) (ch_tasks db) = 1") (auto simp: stale_one_def Let_def assigned_update)
next
  case (CheckAndUnblock now tenant p i)
  show ?thesis
  proof (cases "\<exists>trigger. get_in tenant p i db = Some trigger \<and> tk_status trigger = Completed")
    case True
    then have "ch_tasks (fst (chiasm_apply S x db)) = sql_update (unblockable tenant p i db) (unblocked_task now) (ch_tasks db)"
      unfolding CheckAndUnblock by (auto simp: check_and_unblock_def Let_def)
    from assigned_update [OF assms(1) this] show ?thesis by (simp add: unblocked_task_def)
  qed (use assms(1) CheckAndUnblock in \<open>auto simp: check_and_unblock_def split: option.splits\<close>)
next
  case (AddDependencies now tenant p i deps)
  then show ?thesis using assms(1)
    by (auto simp: add_dependencies_def split: sum.splits intro!: assigned_same [OF assms(1)] dest: add_edges_tasks)
qed (use assms(1) in \<open>auto simp: is_assigned_def record_activity_def create_claims_tasks release_rows_def remove_dependency_def Let_def\<close>)

interpretation hand_outs: once_store "chiasm_apply S" "\<lambda>x. \<not> mints k x" chiasm_inv "\<lambda>db (u :: unit). is_assigned k db" "\<lambda>u x r. hands_out k r"
proof
  fix db x
  assume "chiasm_inv db"
  then show "chiasm_inv (fst (chiasm_apply S x db))" by (rule chiasm_apply_keeps)
next
  fix db x
  assume "\<not> mints k x" "is_assigned k db"
  then show "is_assigned k (fst (chiasm_apply S x db))" by (simp add: assigned_step)
next
  fix db x
  assume "hands_out k (snd (chiasm_apply S x db))"
  then obtain now tenant owner claimer project t where x: "x = ClaimNext now tenant owner claimer project"
      "find (claimable tenant owner project) (ch_tasks db) = Some t" "tk_id t = k"
    by (cases x) (auto simp: claim_next_def claimed_by_def split: option.splits)
  then show "\<not> is_assigned k db" using find_SomeD [OF x(2)] by (auto simp: is_assigned_def claimable_def)
next
  fix db x
  assume inv: "chiasm_inv db" and "hands_out k (snd (chiasm_apply S x db))"
  then obtain now tenant owner claimer project t where x: "x = ClaimNext now tenant owner claimer project"
      "find (claimable tenant owner project) (ch_tasks db) = Some t" "tk_id t = k"
    by (cases x) (auto simp: claim_next_def claimed_by_def split: option.splits)
  have t: "t \<in> set (ch_tasks db)" "scoped tenant owner t" using find_SomeD [OF x(2)] by (auto simp: claimable_def)
  have "r = t" if "r \<in> set (ch_tasks db)" "tk_id r = k" for r
  proof -
    have "distinct (map tk_id (ch_tasks db))" using chiasm_invD(1) [OF inv] by (simp add: idents_def ident_def comp_def)
    then show ?thesis using that t(1) x(3) by (metis distinct_map inj_onD)
  qed
  then have "is_task tenant owner k r" if "r \<in> set (ch_tasks db)" "tk_id r = k" for r using that t(2) by (auto simp: is_task_def)
  then show "is_assigned k (fst (chiasm_apply S x db))"
    using x by (auto simp: claim_next_def claimed_by_def is_assigned_def set_sql_update)
qed

text \<open>
  A task of the queue is handed to at most one claimer: in any history that follows,
  whatever the claimers, updates, heartbeats, sweeps and deletions, \<open>claim_next\<close> returns it at most once.
\<close>

theorem task_claimed_once:
  assumes "list_all (\<lambda>x. \<not> mints k x) later"
  shows "granted (\<lambda>x. hands_out k) later (snd (run (chiasm_apply S) later (after S ops))) \<le> 1"
  by (rule hand_outs.at_most_once [OF chiasm_history_keeps assms])

definition sample_queue :: "chiasm_op list" where
  "sample_queue = [Enqueue 1 11 \<lparr> eq_tenant = 2, eq_principal = 3, eq_project = ''web'', eq_title = ''design'', eq_summary = None \<rparr>]"

definition sample_race :: "chiasm_op list" where
  "sample_race = [ClaimNext 5 2 3 7 None,
     UpdateTask 6 2 3 11 \<lparr> pt_title = None, pt_status = Some Queued, pt_summary = None, pt_assignee = None \<rparr>, ClaimNext 7 2 3 8 None]"

theorem task_claimed_once_witness:
  "granted (\<lambda>x. hands_out 11) sample_race (snd (run (chiasm_apply plain_serde) sample_race (after plain_serde sample_queue))) \<le> 1 \<and>
   map (hands_out 11) (snd (run (chiasm_apply plain_serde) sample_race (after plain_serde sample_queue))) = [True, False, False]"
proof
  show "granted (\<lambda>x. hands_out 11) sample_race (snd (run (chiasm_apply plain_serde) sample_race (after plain_serde sample_queue))) \<le> 1"
    by (rule task_claimed_once) (simp add: sample_race_def)
qed code_simp

text \<open>
  The other side of it: the assignee of a task is never cleared, so a task that is set back to the
  queue, as \<open>sample_race\<close> does, is never claimed again.
\<close>

lemma requeued_task_is_never_claimed:
  assumes "is_assigned k (after S ops)" "list_all (\<lambda>x. \<not> mints k x) later"
  shows "granted (\<lambda>x. hands_out k) later (snd (run (chiasm_apply S) later (after S ops))) = 0"
  by (rule hand_outs.spent_none [OF chiasm_history_keeps assms(2,1)])

end
