(* ===== verification/Chiasm_Leases.thy ===== *)
theory Chiasm_Leases
  imports Chiasm_Tasks
begin

text \<open>
  Exclusion by leases: as long as the clock of the lease operations does not run backwards and no
  heartbeat arrives for a task one of whose leases has lapsed, no two tasks of an owner hold active leases
  on the same path. The second condition is needed: a late heartbeat revives a lapsed lease although
  another task has taken the path since.
\<close>


section \<open>Rival claims\<close>

definition rivals :: "chiasm_db \<Rightarrow> path_claim \<Rightarrow> path_claim \<Rightarrow> bool" where
  "rivals db c d \<longleftrightarrow> pc_task c \<noteq> pc_task d \<and> pc_principal c = pc_principal d \<and> pc_project c = pc_project d \<and>
     pc_path c = pc_path d \<and> same_scope db (pc_task c) (pc_task d)"

text \<open>An earlier claim is out of the way of a later rival: one is released, or the earlier had run out.\<close>

definition yields :: "chiasm_db \<Rightarrow> path_claim \<Rightarrow> path_claim \<Rightarrow> bool" where
  "yields db c d \<longleftrightarrow> pc_released c \<or> pc_released d \<or> \<not> rivals db c d \<or> pc_expires_at c \<le> pc_claimed_at d"

definition leases_ok :: "int \<Rightarrow> chiasm_db \<Rightarrow> bool" where
  "leases_ok clock db \<longleftrightarrow> sorted_wrt (yields db) (ch_claims db) \<and> (\<forall>c \<in> set (ch_claims db). pc_claimed_at c \<le> clock)"

text \<open>
  A history in which the lease operations read a clock that does not run backwards, and heartbeats come
  before a lease of the task runs out.
\<close>

definition heartbeat_in_time :: "int \<Rightarrow> uuid \<Rightarrow> chiasm_db \<Rightarrow> bool" where
  "heartbeat_in_time now i db \<longleftrightarrow> (\<forall>c \<in> set (ch_claims db). pc_task c = i \<and> \<not> pc_released c \<longrightarrow> now < pc_expires_at c)"

fun in_time :: "int \<Rightarrow> chiasm_op \<Rightarrow> chiasm_db \<Rightarrow> bool" where
  "in_time clock (Heartbeat now tenant p i) db \<longleftrightarrow> clock \<le> now \<and> heartbeat_in_time now i db"
| "in_time clock (CreateClaims now tenant p i paths ttl) db \<longleftrightarrow> clock \<le> now"
| "in_time clock _ db \<longleftrightarrow> True"

fun clock_after :: "int \<Rightarrow> chiasm_op \<Rightarrow> int" where
  "clock_after clock (Heartbeat now tenant p i) = now"
| "clock_after clock (CreateClaims now tenant p i paths ttl) = now"
| "clock_after clock _ = clock"

fun timely :: "serde \<Rightarrow> int \<Rightarrow> chiasm_op list \<Rightarrow> chiasm_db \<Rightarrow> bool" where
  "timely S clock [] db \<longleftrightarrow> True"
| "timely S clock (x # xs) db \<longleftrightarrow> in_time clock x db \<and> timely S (clock_after clock x) xs (fst (chiasm_apply S x db))"


section \<open>Operations that leave leases alone or end them\<close>

lemma leases_later: "leases_ok clock db \<Longrightarrow> clock \<le> now \<Longrightarrow> leases_ok now db"
  by (auto simp: leases_ok_def)

text \<open>Claims may be dropped or released; the scope of two tasks may only disappear.\<close>

lemma leases_frame:
  assumes "leases_ok clock db" "ch_claims db' = sql_update Q (\<lambda>c. c \<lparr> pc_released := True \<rparr>) (filter P (ch_claims db))"
    "\<And>c d. c \<in> set (ch_claims db) \<Longrightarrow> d \<in> set (ch_claims db) \<Longrightarrow> same_scope db' (pc_task c) (pc_task d) \<Longrightarrow>
       same_scope db (pc_task c) (pc_task d)"
  shows "leases_ok clock db'"
proof -
  let ?f = "\<lambda>c. if Q c then c \<lparr> pc_released := True \<rparr> else c"
  have "sorted_wrt (yields db) (filter P (ch_claims db))" using assms(1) by (simp add: leases_ok_def sorted_wrt_filter)
  then have "sorted_wrt (\<lambda>c d. yields db' (?f c) (?f d)) (filter P (ch_claims db))"
    by (rule sorted_wrt_mono_rel [rotated]) (use assms(3) in \<open>auto simp: yields_def rivals_def\<close>)
  then have "sorted_wrt (yields db') (ch_claims db')" unfolding assms(2) sql_update_def sorted_wrt_map .
  moreover have "\<forall>c \<in> set (ch_claims db'). pc_claimed_at c \<le> clock"
    using assms(1) unfolding assms(2) set_sql_update leases_ok_def by auto
  ultimately show ?thesis by (simp add: leases_ok_def)
qed

lemma sql_update_none: "sql_update (\<lambda>_. False) f xs = xs"
  by (simp add: sql_update_def)

lemma leases_same:
  assumes "leases_ok clock db" "ch_claims db' = ch_claims db" "idents db' = idents db"
  shows "leases_ok clock db'"
  by (rule leases_frame [OF assms(1), where Q = "\<lambda>_. False" and P = "\<lambda>_. True"])
    (simp_all add: sql_update_none assms(2) same_scope_def assms(3))

lemma insert_scope:
  assumes "chiasm_inv db" "insert_task t db = Inr db'" "i \<in> fst ` set (idents db)" "j \<in> fst ` set (idents db)" "same_scope db' i j"
  shows "same_scope db i j"
proof -
  have "tk_id t \<notin> fst ` set (idents db)" "idents db' = idents db @ [ident t]" "fst (ident t) = tk_id t"
    using assms(2) by (auto simp: insert_task_def list_ex_iff idents_def ident_def split: if_splits)
  then show ?thesis using assms(3-5) by (auto simp: same_scope_def ident_def image_iff)
qed

lemma claims_have_tasks: "chiasm_inv db \<Longrightarrow> c \<in> set (ch_claims db) \<Longrightarrow> pc_task c \<in> fst ` set (idents db)"
  using chiasm_invD(3) by (metis fst_conv image_eqI)

lemma leases_insert:
  assumes "chiasm_inv db" "leases_ok clock db" "insert_task t db = Inr db'"
  shows "leases_ok clock (emit ev tenant p db')"
proof -
  have c: "ch_claims db' = ch_claims db" using assms(3) by (auto simp: insert_task_def split: if_splits)
  have "leases_ok clock db'"
    by (rule leases_frame [OF assms(2), where Q = "\<lambda>_. False" and P = "\<lambda>_. True"])
      (use c insert_scope [OF assms(1,3)] claims_have_tasks [OF assms(1)] in \<open>simp_all add: sql_update_none\<close>)
  then show ?thesis by (rule leases_same) (simp_all add: idents_def)
qed

lemma leases_drop:
  assumes "leases_ok clock db" "ch_claims db' = filter P (ch_claims db)" "set (idents db') \<subseteq> set (idents db)"
  shows "leases_ok clock db'"
  by (rule leases_frame [OF assms(1), where Q = "\<lambda>_. False" and P = P])
    (use assms(2,3) in \<open>auto simp: sql_update_none same_scope_def\<close>)

lemma leases_released:
  assumes "leases_ok clock db" "ch_claims db' = sql_update Q (\<lambda>c. c \<lparr> pc_released := True \<rparr>) (ch_claims db)" "idents db' = idents db"
  shows "leases_ok clock db'"
  by (rule leases_frame [OF assms(1), where Q = Q and P = "\<lambda>_. True"]) (simp_all add: assms(2,3) same_scope_def)

lemma leases_delete: "leases_ok clock db \<Longrightarrow> leases_ok clock (fst (delete_rows tenant p i db))"
  by (cases "list_ex (is_task tenant p i) (ch_tasks db)")
    (auto simp: delete_rows_def idents_def intro!: leases_drop [where db = db and P = "\<lambda>c. pc_task c \<noteq> i"])

lemma leases_stale: "leases_ok clock db \<Longrightarrow> leases_ok clock (fst (stale_one now candidate db))"
proof (cases "sql_changed (is_unchanged candidate) (ch_tasks db) = 1")
  case True
  assume ok: "leases_ok clock db"
  show ?thesis
    by (rule leases_released [OF ok, where Q = "\<lambda>c. pc_task c = tk_id candidate \<and> \<not> pc_released c"])
      (use True in \<open>simp_all add: stale_one_def Let_def idents_def idents_update ident_def\<close>)
qed (simp add: stale_one_def)

lemma leases_release:
  assumes "leases_ok clock db"
  shows "leases_ok clock (fst (release_rows tenant p i db))"
  by (rule leases_released [OF assms, where Q = "\<lambda>c. pc_task c = i \<and> pc_principal c = p \<and> \<not> pc_released c \<and>
      list_ex (is_task tenant p (pc_task c)) (ch_tasks db)"]) (simp_all add: release_rows_def Let_def idents_def)


section \<open>Heartbeats and new claims\<close>

text \<open>A heartbeat in time extends leases that nobody else has claimed after them.\<close>

lemma leases_heartbeat:
  assumes "leases_ok clock db" "clock \<le> now" "heartbeat_in_time now i db"
  shows "leases_ok now (fst (record_heartbeat now tenant p i db))"
proof (cases "sql_changed (is_task tenant p i) (ch_tasks db) = 0")
  case False
  let ?db = "fst (record_heartbeat now tenant p i db)"
  let ?f = "\<lambda>c. if pc_task c = i \<and> \<not> pc_released c then c \<lparr> pc_expires_at := ts_plus now HEARTBEAT_CLAIM_REFRESH_SECS \<rparr> else c"
  have claims: "ch_claims ?db = map ?f (ch_claims db)" and ids: "idents ?db = idents db"
    using False by (simp_all add: record_heartbeat_def sql_update_def idents_def idents_update ident_def)
  have step: "yields ?db (?f c) (?f d)" if "c \<in> set (ch_claims db)" "d \<in> set (ch_claims db)" "yields db c d" for c d
  proof (cases "pc_task c = i \<and> \<not> pc_released c")
    case True
    then have "now < pc_expires_at c" using assms(3) that(1) by (auto simp: heartbeat_in_time_def)
    moreover have "pc_claimed_at d \<le> clock" using assms(1) that(2) by (auto simp: leases_ok_def)
    ultimately have "\<not> pc_expires_at c \<le> pc_claimed_at d" using assms(2) by simp
    then show ?thesis using that(3) True by (auto simp: yields_def rivals_def same_scope_def ids)
  next
    case False
    then show ?thesis using that(3) by (auto simp: yields_def rivals_def same_scope_def ids)
  qed
  have "sorted_wrt (yields db) (ch_claims db)" using assms(1) by (simp add: leases_ok_def)
  then have "sorted_wrt (\<lambda>c d. yields ?db (?f c) (?f d)) (ch_claims db)" by (rule sorted_wrt_mono_rel [rotated]) (rule step)
  then have "sorted_wrt (yields ?db) (ch_claims ?db)" unfolding claims sorted_wrt_map .
  moreover have "\<forall>c \<in> set (ch_claims ?db). pc_claimed_at c \<le> now" using assms(1,2) unfolding claims leases_ok_def by fastforce
  ultimately show ?thesis unfolding leases_ok_def by blast
qed (use assms(1,2) in \<open>simp add: record_heartbeat_def leases_later\<close>)

lemma leases_insert_claim:
  assumes "chiasm_inv db" "leases_ok now db" "t \<in> set (ch_tasks db)"
    "find (\<lambda>c. pc_task c \<noteq> tk_id t \<and> is_active_at now c) (claims_on (tk_tenant t) (tk_principal t) (tk_project t) path db) = None"
  shows "leases_ok now (fst (insert_claim now expires t path db))"
proof -
  let ?db = "fst (insert_claim now expires t path db)" and ?d = "snd (insert_claim now expires t path db)"
  have claims: "ch_claims ?db = ch_claims db @ [?d]" and ids: "idents ?db = idents db"
    by (simp_all add: insert_claim_def Let_def idents_def)
  have "yields ?db c ?d" if c: "c \<in> set (ch_claims db)" for c
  proof (cases "pc_released c \<or> \<not> rivals ?db c ?d")
    case False
    then have r: "\<not> pc_released c" "pc_task c \<noteq> tk_id t" "pc_principal c = tk_principal t" "pc_project c = tk_project t" "pc_path c = path"
      "same_scope db (pc_task c) (tk_id t)"
      by (auto simp: rivals_def insert_claim_def Let_def same_scope_def idents_def)
    have t: "(tk_id t, tk_tenant t, tk_principal t, tk_project t) \<in> set (idents db)" using assms(3) by (auto simp: idents_def ident_def)
    obtain tenant p pr qr where "(pc_task c, tenant, p, pr) \<in> set (idents db)" "(tk_id t, tenant, p, qr) \<in> set (idents db)"
      using r(6) by (auto simp: same_scope_def)
    then have "list_ex (is_task (tk_tenant t) (tk_principal t) (pc_task c)) (ch_tasks db)"
      using idents_unique [OF assms(1) t] unfolding list_ex_is_task by blast
    then have "c \<in> set (claims_on (tk_tenant t) (tk_principal t) (tk_project t) path db)" using c r by (simp add: claims_on_def)
    then have "\<not> is_active_at now c" using assms(4) r(2) by (auto simp: find_None)
    then show ?thesis using r(1) by (simp add: yields_def is_active_at_def insert_claim_def Let_def)
  qed (auto simp: yields_def)
  moreover have "yields ?db = yields db" by (simp add: fun_eq_iff yields_def rivals_def same_scope_def ids)
  then have "sorted_wrt (yields ?db) (ch_claims db)" using assms(2) by (simp add: leases_ok_def)
  ultimately show ?thesis using assms(2) unfolding leases_ok_def claims sorted_wrt_append
    by (auto simp: insert_claim_def Let_def)
qed

lemma leases_claim_paths:
  "claim_paths now expires t paths db = Inr (db', cs) \<Longrightarrow> chiasm_inv db \<Longrightarrow> leases_ok now db \<Longrightarrow> t \<in> set (ch_tasks db) \<Longrightarrow>
   leases_ok now db'"
proof (induction paths arbitrary: db cs)
  case (Cons path paths)
  let ?db1 = "fst (insert_claim now expires t path db)"
  have free: "find (\<lambda>c. pc_task c \<noteq> tk_id t \<and> is_active_at now c) (claims_on (tk_tenant t) (tk_principal t) (tk_project t) path db) = None"
    using Cons.prems(1) by (auto split: option.splits)
  then obtain cs' where rest: "claim_paths now expires t paths ?db1 = Inr (db', cs')"
    using Cons.prems(1) by (auto split: sum.splits prod.splits)
  have "ident t \<in> set (idents db)" using Cons.prems(4) by (simp add: idents_def)
  moreover have "claim_paths now expires t [path] db = Inr (?db1, [snd (insert_claim now expires t path db)])"
    using free by (simp split: prod.split)
  ultimately have inv: "chiasm_inv ?db1" using claim_paths_keeps [OF _ Cons.prems(2)] by blast
  have "t \<in> set (ch_tasks ?db1)" using Cons.prems(4) by (simp add: insert_claim_def Let_def)
  then show ?case using Cons.IH [OF rest inv leases_insert_claim [OF Cons.prems(2-4) free]] by blast
qed simp

lemma leases_create_claims:
  assumes "chiasm_inv db" "leases_ok clock db" "clock \<le> now"
  shows "leases_ok now (fst (create_claims now tenant p i paths ttl db))"
proof (cases "get_in tenant p i db")
  case (Some t)
  note ok = leases_later [OF assms(2,3)]
  show ?thesis
  proof (cases "claim_paths now (ts_plus now ttl) t paths db")
    case (Inr r)
    obtain db' cs where r: "r = (db', cs)" by (cases r)
    have ok': "leases_ok now db'" using leases_claim_paths [OF Inr [unfolded r] assms(1) ok get_in_Some(1) [OF Some]] .
    then have "leases_ok now (emit ev x y db')" for ev x y by (rule leases_same) (simp_all add: idents_def)
    then show ?thesis using Some Inr r ok' by (simp add: create_claims_def)
  qed (use ok Some in \<open>simp add: create_claims_def\<close>)
qed (use leases_later [OF assms(2,3)] in \<open>simp add: create_claims_def\<close>)


section \<open>Exclusion\<close>

lemma update_task_frame:
  "ch_claims (fst (update_task now tenant p i patch db)) = ch_claims db"
  "idents (fst (update_task now tenant p i patch db)) = idents db"
  by (simp_all add: update_task_def Let_def idents_def idents_update ident_def split: option.split)

lemma claim_next_frame:
  "ch_claims (fst (claim_next now tenant owner claimer project db)) = ch_claims db"
  "idents (fst (claim_next now tenant owner claimer project db)) = idents db"
  by (simp_all add: claim_next_def idents_def idents_update ident_def claimed_by_def split: option.split)

lemma unblock_frame:
  "ch_claims (fst (check_and_unblock now tenant p i db)) = ch_claims db"
  "idents (fst (check_and_unblock now tenant p i db)) = idents db"
  by (simp_all add: check_and_unblock_def Let_def idents_def idents_update ident_def unblocked_task_def split: option.split)

lemma add_edges_claims: "add_edges now tenant p i deps db = Inr db' \<Longrightarrow> ch_claims db' = ch_claims db"
proof (induction deps arbitrary: db)
  case (Cons dep deps)
  have "ch_claims (insert_or_ignore now i dep db) = ch_claims db" by (simp add: insert_or_ignore_def)
  then show ?case using Cons by (auto split: if_splits)
qed simp

lemma leases_step:
  assumes "chiasm_inv db" "leases_ok clock db" "in_time clock x db"
  shows "leases_ok (clock_after clock x) (fst (chiasm_apply S x db))"
proof (cases x)
  case (CreateTask now i new)
  then show ?thesis using assms(2) leases_insert [OF assms(1,2)] by (auto simp: create_task_def Let_def split: sum.split)
next
  case (Enqueue now i new)
  then show ?thesis using assms(2) leases_insert [OF assms(1,2)] by (auto simp: enqueue_def Let_def split: sum.split)
next
  case (Heartbeat now tenant p i)
  then show ?thesis using assms leases_heartbeat by simp
next
  case (CreateClaims now tenant p i paths ttl)
  then show ?thesis using assms leases_create_claims by simp
next
  case (AddDependencies now tenant p i deps)
  have "leases_ok clock (fst (add_dependencies now tenant p i deps db))"
    by (rule leases_same [OF assms(2)])
      (auto simp: add_dependencies_def idents_def dest: add_edges_claims add_edges_tasks split: sum.split)
  then show ?thesis by (simp add: AddDependencies)
next
  case (RecordActivity now tenant p i kind payload)
  have "leases_ok clock (fst (record_activity S now tenant p i kind payload db))"
    by (rule leases_same [OF assms(2)]) (simp_all add: record_activity_def Let_def idents_def)
  then show ?thesis by (simp add: RecordActivity)
next
  case (RemoveDependency tenant p i dep)
  have "leases_ok clock (fst (remove_dependency tenant p i dep db))"
    by (rule leases_same [OF assms(2)]) (simp_all add: remove_dependency_def Let_def idents_def)
  then show ?thesis by (simp add: RemoveDependency)
qed (simp_all add: leases_same [OF assms(2)] update_task_frame claim_next_frame unblock_frame
    leases_delete [OF assms(2)] leases_stale [OF assms(2)] leases_release [OF assms(2)])

lemma leases_run:
  "timely S clock ops db \<Longrightarrow> chiasm_inv db \<Longrightarrow> leases_ok clock db \<Longrightarrow> \<exists>now. leases_ok now (fst (run (chiasm_apply S) ops db))"
proof (induction ops arbitrary: clock db)
  case (Cons x ops)
  then have "in_time clock x db" "timely S (clock_after clock x) ops (fst (chiasm_apply S x db))" by simp_all
  from Cons.IH [OF this(2) chiasm_apply_keeps [OF Cons.prems(2)] leases_step [OF Cons.prems(2,3) this(1)]]
  show ?case by (simp only: run_Cons)
qed auto

text \<open>
  Property C25. Path leases exclude each other. In a history whose lease operations read a clock that
  does not run backwards and whose heartbeats arrive before a lease of their task runs out, two claims of
  the same tenant, owner, project and path that are active at a time when both had been made belong to
  the same task.
\<close>

theorem leases_exclusive:
  assumes "timely S start ops empty_chiasm"
    and "c \<in> set (ch_claims (after S ops))" "d \<in> set (ch_claims (after S ops))"
    and "is_active_at now c" "is_active_at now d" "pc_claimed_at c \<le> now" "pc_claimed_at d \<le> now"
    and "pc_principal c = pc_principal d" "pc_project c = pc_project d" "pc_path c = pc_path d"
    and "same_scope (after S ops) (pc_task c) (pc_task d)"
  shows "pc_task c = pc_task d"
proof (rule ccontr)
  assume "pc_task c \<noteq> pc_task d"
  then have r: "rivals (after S ops) c d" "rivals (after S ops) d c" using assms(8-11) by (auto simp: rivals_def same_scope_def)
  have "leases_ok start empty_chiasm" by (simp add: leases_ok_def empty_chiasm_def)
  then obtain t where "leases_ok t (after S ops)" using leases_run [OF assms(1) empty_chiasm_ok] by blast
  then have s: "sorted_wrt (yields (after S ops)) (ch_claims (after S ops))" by (simp add: leases_ok_def)
  obtain i j where ij: "i < length (ch_claims (after S ops))" "ch_claims (after S ops) ! i = c"
      "j < length (ch_claims (after S ops))" "ch_claims (after S ops) ! j = d"
    using assms(2,3) by (auto simp: in_set_conv_nth)
  have "i \<noteq> j" using ij \<open>pc_task c \<noteq> pc_task d\<close> by auto
  then consider "i < j" | "j < i" by linarith
  then have "yields (after S ops) c d \<or> yields (after S ops) d c"
    by cases (use sorted_wrt_nth_less [OF s] ij in blast)+
  then show False using r assms(4-7) by (auto simp: yields_def is_active_at_def)
qed

definition sample_tasks :: "chiasm_op list" where
  "sample_tasks = [CreateTask 1 11 (sample_new 2 3 ''left'' None), CreateTask 2 12 (sample_new 2 3 ''right'' None)]"

definition second :: int where "second = 10 ^ 9"

text \<open>
  Both tasks want one path: the second gets it when the lease of the first has run out, and then claims
  it once more.
\<close>

definition sample_turns :: "chiasm_op list" where
  "sample_turns = sample_tasks @ [CreateClaims second 2 3 11 [''src/main.rs''] 60, Heartbeat (30 * second) 2 3 11,
     CreateClaims (40 * second) 2 3 12 [''src/main.rs''] 60, CreateClaims (640 * second) 2 3 12 [''src/main.rs''] 60,
     CreateClaims (650 * second) 2 3 12 [''src/main.rs''] 60]"

theorem leases_exclusive_witness:
  "let cs = ch_claims (after plain_serde sample_turns) in
   map (is_active_at (660 * second)) cs = [False, True, True] \<and> map pc_task cs = [11, 12, 12] \<and> pc_task (cs ! 1) = pc_task (cs ! 2)"
proof -
  let ?cs = "ch_claims (after plain_serde sample_turns)"
  have t: "timely plain_serde 0 sample_turns empty_chiasm" by code_simp
  have n: "map (is_active_at (660 * second)) ?cs = [False, True, True]" "map pc_task ?cs = [11, 12, 12]" by code_simp+
  have len: "length ?cs = 3" by code_simp
  then have c: "?cs ! 1 \<in> set ?cs" "?cs ! 2 \<in> set ?cs" by simp_all
  have a: "is_active_at (660 * second) (?cs ! 1)" "is_active_at (660 * second) (?cs ! 2)"
    "pc_claimed_at (?cs ! 1) \<le> 660 * second" "pc_claimed_at (?cs ! 2) \<le> 660 * second"
    "pc_principal (?cs ! 1) = pc_principal (?cs ! 2)" "pc_project (?cs ! 1) = pc_project (?cs ! 2)" "pc_path (?cs ! 1) = pc_path (?cs ! 2)"
    by code_simp+
  have "pc_task (?cs ! 1) = 12" "pc_task (?cs ! 2) = 12" by code_simp+
  then have s: "same_scope (after plain_serde sample_turns) (pc_task (?cs ! 1)) (pc_task (?cs ! 2))"
    using chiasm_invD(3) [OF chiasm_history_keeps c(1)] by (auto simp: same_scope_def)
  from leases_exclusive [OF t c a s] n show ?thesis unfolding Let_def by blast
qed

text \<open>
  Without that condition exclusion fails: the lease of the first task has run out, the second task has
  claimed the path, and a late heartbeat of the first revives its lease beside the new one.
\<close>

lemma late_heartbeat_breaks_exclusion:
  "map (\<lambda>c. (pc_task c, pc_path c, is_active_at (100 * second) c)) (ch_claims (after plain_serde
     (sample_tasks @ [CreateClaims second 2 3 11 [''src/main.rs''] 60, CreateClaims (70 * second) 2 3 12 [''src/main.rs''] 60,
       Heartbeat (80 * second) 2 3 11]))) =
   [(11, ''src/main.rs'', True), (12, ''src/main.rs'', True)]"
  by code_simp

end
