(* ===== verification/Chiasm_Scope.thy ===== *)
theory Chiasm_Scope
  imports Chiasm_Tasks
begin

text \<open>
  Isolation of tenants and owners: every operation acts for one tenant and owner, and whatever its
  arguments, it neither changes, removes nor adds a task, a history entry, an activity entry, a lease or
  a dependency of anybody else.
\<close>


section \<open>What belongs to others\<close>

fun acts_for :: "chiasm_op \<Rightarrow> uuid \<times> uuid" where
  "acts_for (CreateTask now i new) = (nt_tenant new, nt_principal new)"
| "acts_for (UpdateTask now tenant p i patch) = (tenant, p)"
| "acts_for (DeleteRows tenant p i) = (tenant, p)"
| "acts_for (RecordActivity now tenant p i kind payload) = (tenant, p)"
| "acts_for (Enqueue now i new) = (eq_tenant new, eq_principal new)"
| "acts_for (ClaimNext now tenant owner claimer project) = (tenant, owner)"
| "acts_for (Heartbeat now tenant p i) = (tenant, p)"
| "acts_for (StaleOne now candidate) = (tk_tenant candidate, tk_principal candidate)"
| "acts_for (CreateClaims now tenant p i paths ttl) = (tenant, p)"
| "acts_for (ReleaseRows tenant p i) = (tenant, p)"
| "acts_for (AddDependencies now tenant p i deps) = (tenant, p)"
| "acts_for (RemoveDependency tenant p i dep) = (tenant, p)"
| "acts_for (CheckAndUnblock now tenant p i) = (tenant, p)"

definition owned :: "uuid \<Rightarrow> uuid \<Rightarrow> chiasm_db \<Rightarrow> uuid \<Rightarrow> bool" where
  "owned tenant p db i \<longleftrightarrow> list_ex (is_task tenant p i) (ch_tasks db)"

text \<open>The tables without the rows of one tenant and owner.\<close>

definition others_tasks :: "uuid \<Rightarrow> uuid \<Rightarrow> chiasm_db \<Rightarrow> task list" where
  "others_tasks tenant p db = filter (\<lambda>t. \<not> scoped tenant p t) (ch_tasks db)"

definition others_rows :: "uuid \<Rightarrow> uuid \<Rightarrow> chiasm_db \<Rightarrow>
    task_update list \<times> activity_row list \<times> path_claim list \<times> dependency_row list" where
  "others_rows tenant p db =
     (filter (\<lambda>u. \<not> owned tenant p db (tu_task u)) (ch_updates db), filter (\<lambda>a. \<not> owned tenant p db (ta_task a)) (ch_activity db),
      filter (\<lambda>c. \<not> owned tenant p db (pc_task c)) (ch_claims db), filter (\<lambda>d. \<not> owned tenant p db (dp_task d)) (ch_deps db))"

lemma owned_idents: "owned tenant p db i \<longleftrightarrow> (\<exists>pr. (i, tenant, p, pr) \<in> set (idents db))"
  by (simp add: owned_def list_ex_is_task)

lemma filter_untouched: "(\<And>r. P r \<Longrightarrow> \<not> Q r \<and> \<not> Q (f r)) \<Longrightarrow> filter Q (sql_update P f rows) = filter Q rows"
  by (induction rows) (auto simp: sql_update_def)

lemma others_frame:
  assumes "idents db' = idents db"
    and "filter (\<lambda>u. \<not> owned tenant p db (tu_task u)) (ch_updates db') = filter (\<lambda>u. \<not> owned tenant p db (tu_task u)) (ch_updates db)"
    and "filter (\<lambda>a. \<not> owned tenant p db (ta_task a)) (ch_activity db') = filter (\<lambda>a. \<not> owned tenant p db (ta_task a)) (ch_activity db)"
    and "filter (\<lambda>c. \<not> owned tenant p db (pc_task c)) (ch_claims db') = filter (\<lambda>c. \<not> owned tenant p db (pc_task c)) (ch_claims db)"
    and "filter (\<lambda>d. \<not> owned tenant p db (dp_task d)) (ch_deps db') = filter (\<lambda>d. \<not> owned tenant p db (dp_task d)) (ch_deps db)"
  shows "others_rows tenant p db' = others_rows tenant p db"
proof -
  have "owned tenant p db' = owned tenant p db" by (simp add: fun_eq_iff owned_idents assms(1))
  then show ?thesis using assms(2-5) by (simp add: others_rows_def)
qed

lemma is_task_scoped: "is_task tenant p i t \<Longrightarrow> scoped tenant p t" "is_task tenant p i t \<Longrightarrow> t \<in> set (ch_tasks db) \<Longrightarrow> owned tenant p db i"
  by (auto simp: is_task_def owned_def list_ex_iff)

lemma updates_add:
  "owned tenant p db0 i \<Longrightarrow> filter (\<lambda>u. \<not> owned tenant p db0 (tu_task u)) (ch_updates (add_update i st s now db)) =
     filter (\<lambda>u. \<not> owned tenant p db0 (tu_task u)) (ch_updates db)"
  by (simp add: add_update_def)

lemma updates_fold:
  "\<forall>t \<in> set ts. owned tenant p db0 (tk_id t) \<Longrightarrow>
   filter (\<lambda>u. \<not> owned tenant p db0 (tu_task u)) (ch_updates (fold (\<lambda>t. add_update (tk_id t) st s now) ts db)) =
     filter (\<lambda>u. \<not> owned tenant p db0 (tu_task u)) (ch_updates db)"
  by (induction ts arbitrary: db) (simp_all add: updates_add)


section \<open>Every operation stays inside its scope\<close>

definition isolated :: "uuid \<Rightarrow> uuid \<Rightarrow> chiasm_db \<Rightarrow> chiasm_db \<Rightarrow> bool" where
  "isolated tenant p db db' \<longleftrightarrow> others_tasks tenant p db' = others_tasks tenant p db \<and> others_rows tenant p db' = others_rows tenant p db"

lemma isolated_refl: "isolated tenant p db db"
  by (simp add: isolated_def)

text \<open>Tasks of the scope are updated in place.\<close>

lemma isolated_update:
  assumes "ch_tasks db' = sql_update P f (ch_tasks db)" "\<And>t. P t \<Longrightarrow> scoped tenant p t" "\<And>t. ident (f t) = ident t"
    and "filter (\<lambda>u. \<not> owned tenant p db (tu_task u)) (ch_updates db') = filter (\<lambda>u. \<not> owned tenant p db (tu_task u)) (ch_updates db)"
    and "filter (\<lambda>a. \<not> owned tenant p db (ta_task a)) (ch_activity db') = filter (\<lambda>a. \<not> owned tenant p db (ta_task a)) (ch_activity db)"
    and "filter (\<lambda>c. \<not> owned tenant p db (pc_task c)) (ch_claims db') = filter (\<lambda>c. \<not> owned tenant p db (pc_task c)) (ch_claims db)"
    and "filter (\<lambda>d. \<not> owned tenant p db (dp_task d)) (ch_deps db') = filter (\<lambda>d. \<not> owned tenant p db (dp_task d)) (ch_deps db)"
  shows "isolated tenant p db db'"
proof -
  have "scoped tenant p (f t) = scoped tenant p t" for t using assms(3) [of t] by (simp add: ident_def scoped_def)
  then have "others_tasks tenant p db' = others_tasks tenant p db"
    unfolding others_tasks_def assms(1) using assms(2) by (intro filter_untouched) simp
  moreover have "idents db' = idents db" unfolding idents_def assms(1) by (rule idents_update) (rule assms(3))
  from others_frame [OF this assms(4-7)] have "others_rows tenant p db' = others_rows tenant p db" .
  ultimately show ?thesis by (simp add: isolated_def)
qed

lemma sql_update_id: "sql_update P (\<lambda>t. t) ts = ts"
  by (simp add: sql_update_def)

lemmas isolated_rows = isolated_update [where P = "\<lambda>_. False" and f = "\<lambda>t. t", unfolded sql_update_id, simplified]

lemma isolated_insert:
  assumes "chiasm_inv db" "insert_task t db = Inr db'"
  shows "isolated (tk_tenant t) (tk_principal t) db (emit ev x y db')"
proof -
  let ?own = "owned (tk_tenant t) (tk_principal t)"
  have new: "tk_id t \<notin> fst ` set (idents db)" and db': "db' = db \<lparr> ch_tasks := ch_tasks db @ [t] \<rparr>"
    using assms(2) by (auto simp: insert_task_def list_ex_iff idents_def ident_def split: if_splits)
  have own: "?own (emit ev x y db') i = ?own db i" if "i \<in> fst ` set (idents db)" for i
  proof -
    have "i \<noteq> tk_id t" using that new by blast
    then show ?thesis by (simp add: db' owned_def is_task_def)
  qed
  have "tu_task u \<in> fst ` set (idents db)" if "u \<in> set (ch_updates db)" for u
    using chiasm_invD(2) [OF assms(1)] that by (auto simp: referenced_def)
  moreover have "ta_task a \<in> fst ` set (idents db)" if "a \<in> set (ch_activity db)" for a
    using chiasm_invD(2) [OF assms(1)] that by (auto simp: referenced_def)
  moreover have "pc_task c \<in> fst ` set (idents db)" if "c \<in> set (ch_claims db)" for c
    using chiasm_invD(3) [OF assms(1) that] by force
  moreover have "dp_task d \<in> fst ` set (idents db)" if "d \<in> set (ch_deps db)" for d
    using chiasm_invD(4) [OF assms(1) that] by (force simp: same_scope_def)
  ultimately have "others_rows (tk_tenant t) (tk_principal t) (emit ev x y db') = others_rows (tk_tenant t) (tk_principal t) db"
    unfolding others_rows_def using own by (simp add: db' cong: filter_cong)
  then show ?thesis by (simp add: isolated_def others_tasks_def db' scoped_def)
qed

lemma isolated_delete:
  assumes "chiasm_inv db"
  shows "isolated tenant p db (fst (delete_rows tenant p i db))"
proof (cases "list_ex (is_task tenant p i) (ch_tasks db)")
  case True
  let ?db = "fst (delete_rows tenant p i db)"
  have mine: "owned tenant p db i" using True by (simp add: owned_def)
  have own: "owned tenant p ?db j \<longleftrightarrow> j \<noteq> i \<and> owned tenant p db j" for j
    using True by (auto simp: delete_rows_def owned_def list_ex_iff is_task_def)
  have rows: "filter (\<lambda>r. \<not> (g r \<noteq> i \<and> owned tenant p db (g r))) (filter (\<lambda>r. g r \<noteq> i) rs) = filter (\<lambda>r. \<not> owned tenant p db (g r)) rs"
    for g and rs :: "'a list"
    using mine by (auto intro!: filter_cong)
  have on: "dp_on d \<noteq> i" if "d \<in> set (ch_deps db)" "\<not> owned tenant p db (dp_task d)" for d
  proof
    assume "dp_on d = i"
    then show False using chiasm_invD(4) [OF assms that(1)] mine that(2) idents_unique [OF assms]
      unfolding same_scope_def owned_idents by blast
  qed
  have deps: "filter (\<lambda>d. \<not> (dp_task d \<noteq> i \<and> owned tenant p db (dp_task d))) (filter (\<lambda>d. dp_task d \<noteq> i \<and> dp_on d \<noteq> i) (ch_deps db)) =
      filter (\<lambda>d. \<not> owned tenant p db (dp_task d)) (ch_deps db)"
    using mine on by (auto intro!: filter_cong)
  have "ch_updates ?db = filter (\<lambda>u. tu_task u \<noteq> i) (ch_updates db)" "ch_activity ?db = filter (\<lambda>a. ta_task a \<noteq> i) (ch_activity db)"
    "ch_claims ?db = filter (\<lambda>c. pc_task c \<noteq> i) (ch_claims db)" "ch_deps ?db = filter (\<lambda>d. dp_task d \<noteq> i \<and> dp_on d \<noteq> i) (ch_deps db)"
    using True by (simp_all add: delete_rows_def)
  then have "others_rows tenant p ?db = others_rows tenant p db"
    unfolding others_rows_def own by (simp only: rows deps)
  moreover have "others_tasks tenant p ?db = others_tasks tenant p db"
    using True by (auto simp: delete_rows_def others_tasks_def is_task_def intro!: filter_cong)
  ultimately show ?thesis by (simp add: isolated_def)
qed (simp add: delete_rows_def isolated_refl)


lemma isolated_update_task:
  assumes "chiasm_inv db"
  shows "isolated tenant p db (fst (update_task now tenant p i patch db))"
proof (cases "get_in tenant p i db")
  case (Some old)
  have "owned tenant p db i" using get_in_Some [OF Some] is_task_scoped(2) by blast
  then show ?thesis
    by (intro isolated_update [where P = "is_task tenant p i" and f = "\<lambda>r. r \<lparr> tk_title := tk_title (patched now patch old),
        tk_status := tk_status (patched now patch old), tk_summary := tk_summary (patched now patch old),
        tk_assignee := tk_assignee (patched now patch old), tk_updated_at := tk_updated_at (patched now patch old) \<rparr>"])
      (simp_all add: update_task_def Some Let_def ident_def updates_add is_task_scoped(1))
qed (simp add: update_task_def isolated_refl)

lemma isolated_activity: "isolated tenant p db (fst (record_activity S now tenant p i kind payload db))"
  by (cases "list_ex (is_task tenant p i) (ch_tasks db)")
    (auto simp: record_activity_def Let_def isolated_refl owned_def intro!: isolated_rows)

lemma isolated_claim_next: "isolated tenant p db (fst (claim_next now tenant p claimer project db))"
proof (cases "find (claimable tenant p project) (ch_tasks db)")
  case (Some t)
  then show ?thesis
    by (intro isolated_update [where P = "is_task tenant p (tk_id t)" and f = "claimed_by claimer now"])
      (simp_all add: claim_next_def ident_def claimed_by_def is_task_scoped(1))
qed (simp add: claim_next_def isolated_refl)

lemma claims_update:
  assumes "owned tenant p db i" "\<And>c. P c \<Longrightarrow> pc_task c = i" "\<And>c. pc_task (f c) = pc_task c"
  shows "filter (\<lambda>c. \<not> owned tenant p db (pc_task c)) (sql_update P f cs) = filter (\<lambda>c. \<not> owned tenant p db (pc_task c)) cs"
proof (rule filter_untouched)
  fix c
  assume "P c"
  from assms(2) [OF this] show "\<not> \<not> owned tenant p db (pc_task c) \<and> \<not> \<not> owned tenant p db (pc_task (f c))"
    using assms(1,3) by simp
qed

lemma isolated_heartbeat: "isolated tenant p db (fst (record_heartbeat now tenant p i db))"
proof (cases "sql_changed (is_task tenant p i) (ch_tasks db) = 0")
  case False
  then have "owned tenant p db i" using sql_changed_pos [of "is_task tenant p i" "ch_tasks db"] by (auto simp: owned_def list_ex_iff)
  then show ?thesis using False
    by (intro isolated_update [where P = "is_task tenant p i" and f = "\<lambda>t. t \<lparr> tk_last_heartbeat := Some now, tk_updated_at := now \<rparr>"])
      (simp_all add: record_heartbeat_def ident_def is_task_scoped(1) claims_update)
qed (simp add: record_heartbeat_def isolated_refl)

lemma isolated_stale: "isolated (tk_tenant candidate) (tk_principal candidate) db (fst (stale_one now candidate db))"
proof (cases "sql_changed (is_unchanged candidate) (ch_tasks db) = 1")
  case True
  then obtain t where "t \<in> set (ch_tasks db)" "is_unchanged candidate t"
    using sql_changed_pos [of "is_unchanged candidate" "ch_tasks db"] by auto
  then have "owned (tk_tenant candidate) (tk_principal candidate) db (tk_id candidate)"
    by (auto simp: is_unchanged_def intro: is_task_scoped(2))
  then show ?thesis using True
    by (intro isolated_update [where P = "is_unchanged candidate" and
          f = "\<lambda>t. t \<lparr> tk_status := Stale, tk_summary := Some STALE_SUMMARY, tk_updated_at := now \<rparr>"])
      (auto simp: stale_one_def Let_def ident_def is_unchanged_def updates_add claims_update dest: is_task_scoped(1))
qed (simp add: stale_one_def isolated_refl)

lemma isolated_claim_paths:
  "claim_paths now expires t paths db = Inr (db', cs) \<Longrightarrow> owned tenant p db (tk_id t) \<Longrightarrow> isolated tenant p db db'"
proof (induction paths arbitrary: db cs)
  case (Cons path paths)
  let ?db1 = "fst (insert_claim now expires t path db)"
  obtain cs' where rest: "claim_paths now expires t paths ?db1 = Inr (db', cs')"
    using Cons.prems(1) by (auto split: option.splits sum.splits prod.splits)
  have "isolated tenant p db ?db1" using Cons.prems(2) by (intro isolated_rows) (simp_all add: insert_claim_def Let_def)
  moreover have "isolated tenant p ?db1 db'"
    using Cons.IH [OF rest] Cons.prems(2) by (simp add: insert_claim_def Let_def owned_def)
  ultimately show ?case by (simp add: isolated_def)
qed (simp add: isolated_refl)

lemma isolated_emit: "isolated tenant p db db' \<Longrightarrow> isolated tenant p db (emit ev x y db')"
  by (simp add: isolated_def others_tasks_def others_rows_def owned_def)

lemma isolated_create_claims: "isolated tenant p db (fst (create_claims now tenant p i paths ttl db))"
proof (cases "get_in tenant p i db")
  case (Some t)
  have "owned tenant p db (tk_id t)" using get_in_Some [OF Some] is_task_scoped(2) by (auto simp: is_task_def)
  then show ?thesis using Some
    by (auto simp: create_claims_def split: sum.split intro: isolated_refl isolated_emit isolated_claim_paths)
qed (simp add: create_claims_def isolated_refl)

lemma isolated_release: "isolated tenant p db (fst (release_rows tenant p i db))"
  by (intro isolated_rows) (auto simp: release_rows_def Let_def owned_def intro!: filter_untouched)

lemma isolated_add_edges:
  "add_edges now tenant p i deps db = Inr db' \<Longrightarrow> owned tenant p db i \<Longrightarrow> isolated tenant p db db'"
proof (induction deps arbitrary: db)
  case (Cons dep deps)
  let ?db1 = "insert_or_ignore now i dep db"
  have "isolated tenant p db ?db1" using Cons.prems(2) by (intro isolated_rows) (simp_all add: insert_or_ignore_def)
  moreover have "isolated tenant p ?db1 db'"
    using Cons.IH [of ?db1] Cons.prems by (simp add: insert_or_ignore_def owned_def split: if_splits)
  ultimately show ?case by (simp add: isolated_def)
qed (simp add: isolated_refl)

lemma isolated_add_dependencies: "isolated tenant p db (fst (add_dependencies now tenant p i deps db))"
proof (cases "get_in tenant p i db")
  case (Some t)
  then have "owned tenant p db i" using get_in_Some [OF Some] is_task_scoped(2) by blast
  then show ?thesis using Some
    by (auto simp: add_dependencies_def split: sum.split intro: isolated_refl isolated_add_edges)
qed (simp add: add_dependencies_def isolated_refl)

lemma isolated_remove_dependency: "isolated tenant p db (fst (remove_dependency tenant p i dep db))"
  by (intro isolated_rows) (auto simp: remove_dependency_def Let_def owned_def intro!: filter_cong)

lemma isolated_unblock: "isolated tenant p db (fst (check_and_unblock now tenant p i db))"
proof (cases "\<exists>trigger. get_in tenant p i db = Some trigger \<and> tk_status trigger = Completed")
  case True
  have "owned tenant p db (tk_id t)" if "t \<in> set (ch_tasks db)" "unblockable tenant p i db t" for t
    using that by (auto simp: owned_def list_ex_iff is_task_def unblockable_def)
  then have own: "\<forall>t \<in> set (map (unblocked_task now) (filter (unblockable tenant p i db) (ch_tasks db))). owned tenant p db (tk_id t)"
    by (auto simp: unblocked_task_def)
  show ?thesis using True updates_fold [OF own]
    by (intro isolated_update [where P = "unblockable tenant p i db" and f = "unblocked_task now"])
      (auto simp: check_and_unblock_def Let_def ident_def unblocked_task_def unblockable_def)
qed (auto simp: check_and_unblock_def isolated_refl split: option.split)


section \<open>Isolation\<close>

text \<open>
  Property C27. Tenants and owners are isolated: after any history, an operation for one tenant and
  owner leaves every task of everybody else as it is, and every row of history, activity, leases and
  dependencies that belongs to their tasks, whatever identifiers the operation is given.
\<close>

theorem operations_isolated:
  "others_tasks (fst (acts_for x)) (snd (acts_for x)) (fst (chiasm_apply S x (after S ops))) =
     others_tasks (fst (acts_for x)) (snd (acts_for x)) (after S ops) \<and>
   others_rows (fst (acts_for x)) (snd (acts_for x)) (fst (chiasm_apply S x (after S ops))) =
     others_rows (fst (acts_for x)) (snd (acts_for x)) (after S ops)"
proof -
  define db where "db = after S ops"
  have inv: "chiasm_inv db" unfolding db_def by (rule chiasm_history_keeps)
  have "isolated (fst (acts_for x)) (snd (acts_for x)) db (fst (chiasm_apply S x db))"
  proof (cases x)
    case (CreateTask now i new)
    then show ?thesis using isolated_insert [OF inv, of "task_of_new now i new"]
      by (auto simp: create_task_def Let_def task_of_new_def isolated_refl split: sum.split)
  next
    case (Enqueue now i new)
    then show ?thesis using isolated_insert [OF inv] by (force simp: enqueue_def Let_def isolated_refl split: sum.split)
  qed (simp_all add: isolated_update_task [OF inv] isolated_delete [OF inv] isolated_activity isolated_claim_next isolated_heartbeat
      isolated_stale isolated_create_claims isolated_release isolated_add_dependencies isolated_remove_dependency isolated_unblock)
  then show ?thesis by (simp add: isolated_def db_def)
qed

end
