(* ===== verification/Spec2Isabelle.thy ===== *)
theory Spec2Isabelle
  imports Api Circuit Eidolon Pistis Governance Step_Executors Axon_Durable Chiasm_Leases Chiasm_Scope
begin

text \<open>
  Verification of the governed agent runtime Henosis.

  Henosis lets agents act through tools, under the control of an operator. Every action is one request
  to a dispatcher, which asks an ordered chain of authorities (gates), takes the request through an
  execution guard that records it, calls the executor and filters the result. Around it stand the
  durable stores (approvals, the audit chain with its execution ledger, credentials, policy counters,
  workflows, tasks, the event log), an off-host witness that signs the heads of the audit chains, and the
  HTTP control plane. This library models these parts as HOL functions over explicit state and proves
  what makes them correct. Paths below are relative to \<open>crates/\<close>.

  \<^bold>\<open>The theories\<close>, in the order of their dependencies:
  \<^item> \<open>Prelude\<close>: results of fallible operations, byte strings and UTF-8, \<open>trim\<close>, lists and options. A
    Rust \<open>String\<close> is a HOL \<open>string\<close> of bytes; \<open>Result<T, E>\<close> is \<open>'e + 'a\<close> with \<open>Inl\<close> the error.
  \<^item> \<open>Json\<close>: \<open>serde_json\<close> values and the two canonical encoders, \<open>henosis-audit/src/lib.rs\<close>
    (\<open>hash_canonical_json\<close>) and \<open>henosis-approval/src/lib.rs\<close> (\<open>canonical_request_hash\<close>).
  \<^item> \<open>Ledger\<close>: the contracts of the durable stores as locales (\<open>store\<close>, \<open>progress_store\<close>, \<open>once_store\<close>,
    \<open>refining_store\<close>) over histories of atomic operations, and the table operations of SQL.
  \<^item> \<open>Contracts\<close>: \<open>syntheos-contracts\<close> (identifiers, requests, decisions, lifecycle events).
  \<^item> \<open>Dispatch\<close>: \<open>syntheos-dispatch\<close> (dispatcher, guard, outcome). The method \<open>dispatch\<close> is given as one
    function and cut at its await points; \<open>sys_step\<close> interleaves many requests and the environment. The
    locales \<open>claiming_dispatch\<close>, \<open>guarded_dispatch\<close> and \<open>gate_establishes\<close> are what it relies on.
  \<^item> \<open>Approval\<close>: \<open>henosis-approval\<close>, every method of \<open>ApprovalStore\<close> on the rows of its table.
  \<^item> \<open>Audit_Log\<close>, \<open>Execution\<close>: \<open>henosis-audit\<close>, the hash chains with signed checkpoints and receipts, and
    every method of \<open>AuditStore\<close> on the four tables.
  \<^item> \<open>Witness\<close>: \<open>henosis-witness\<close>, trust configuration, acceptance of checkpoints and the HTTP mapping.
  \<^item> \<open>Witnessed\<close>: \<open>WitnessClient\<close>, \<open>WitnessedAudit\<close> and \<open>AuditBoundary\<close> over a shared \<open>world\<close>; the
    clock, fresh identifiers and exchanges come from \<open>system\<close>, which may change the world at each of them.
  \<^item> \<open>Policy\<close>: roles and permissions (\<open>henosis-plutus/src/rbac.rs\<close>) and the approval policy (\<open>henosis-rift\<close>).
  \<^item> \<open>Authority\<close>: \<open>syntheos-server/src/authority.rs\<close>, the durable human gate, the credential gate, the
    execution guard, and the assembly of the governed dispatcher of \<open>app.rs\<close>.
  \<^item> \<open>Identity\<close>: \<open>syntheos-identity/src/authority.rs\<close>, machine tokens and operator refresh sessions.
  \<^item> \<open>Floats\<close>, \<open>Plutus\<close>: the policy gate over any backend and the local backend with its quota counters
    and token buckets (\<open>henosis-plutus\<close>, \<open>plutus_backend.rs\<close>).
  \<^item> \<open>Eidolon\<close>: \<open>henosis-eidolon\<close>, input gate and output filter.
  \<^item> \<open>Pistis\<close>: \<open>henosis-pistis\<close>, signed statements, rooms, trust score and the first gate.
  \<^item> \<open>Governance\<close>: the governed dispatcher with these real authorities in its slots.
  \<^item> \<open>Api\<close>: the identity extractor and every handler of the authority router.
  \<^item> \<open>Hermes\<close>, \<open>Circuit\<close>: the tool gateway \<open>henosis-hermes\<close>: argument check, retry loop, circuit breakers
    (as whole methods and as interleaved atomic accesses).
  \<^item> \<open>Loom_Graph\<close>, \<open>Loom\<close>, \<open>Loom_Invariant\<close>, \<open>Loom_Claims\<close>, \<open>Loom_Engine\<close>, \<open>Loom_Progress\<close>, \<open>Loom_Readable\<close>,
    \<open>Loom_Drive\<close>: the workflow store \<open>henosis-loom/src/store.rs\<close>: validation of definitions, the transactions on the
    four tables, their invariant, the claim pass, the methods composed of several transactions under
    interference of others (\<open>lw_others\<close>), the measure that bounds them, which runs can be read back under the
    recursion limit of the JSON parser (\<open>readable\<close>), and termination.
  \<^item> \<open>Step_Executors\<close>: \<open>henosis-loom/src/executor.rs\<close>, templates, dot paths and the executors of steps.
  \<^item> \<open>Axon_Durable\<close>: \<open>syntheos-axon-durable/src/durable.rs\<close>, the durable event log with named consumer
    cursors, and the mailboxes it promises.
  \<^item> \<open>Chiasm\<close>, \<open>Chiasm_Invariant\<close>, \<open>Chiasm_Tasks\<close>, \<open>Chiasm_Leases\<close>, \<open>Chiasm_Scope\<close>: the task store
    \<open>henosis-chiasm/src/store.rs\<close>: every operation on its five tables, the invariant of its histories,
    and results on dependencies and the work queue, on the leases of paths, and on the isolation of owners.

  \<^bold>\<open>What is proved.\<close>
  \<^item> \<^emph>\<open>Execution at most once and only when authorised\<close>: however requests interleave, the executor starts
    at most once per retry key (\<open>executed_once_per_retry_key\<close>), only with a consumed approval of its own
    (\<open>executed_only_with_own_approval\<close>), only past every authority (\<open>executed_only_past_every_authority\<close>),
    and what is returned was redacted (\<open>returned_results_redacted\<close>). The dispatcher alone is fail-closed
    (\<open>dispatch_fail_closed\<close>) and its steps agree with the method (\<open>dispatch_steps_agree\<close>).
  \<^item> \<^emph>\<open>The authorities\<close>: which requests each gate allows (\<open>pistis_gate_allows_only\<close>, \<open>local_gate_decides\<close>,
    \<open>eidolon_gate_allows_exactly\<close>), the daily bound (\<open>daily_quota_bound\<close>), the filter (\<open>output_redacted\<close>)
    and the binding of signatures to statements (\<open>signed_statements_bind\<close>).
  \<^item> \<^emph>\<open>Approvals\<close>: lifecycle, authorised consumption, the round trip over the control plane and the
    separation of requester and approver (\<open>approval_lifecycle_monotone\<close>,
    \<open>approval_consumption_authorized\<close>, \<open>approval_round_trip\<close>, \<open>no_self_approval\<close>).
  \<^item> \<^emph>\<open>Audit\<close>: every history without floating-point metadata keeps the chains verifiable
    (\<open>audit_chain_always_verifies\<close>), a verified head
    determines the history (\<open>audit_tamper_evident\<close>), the ledger grants an execution once
    (\<open>execution_acquired_at_most_once\<close>), a claim is witnessed off-host (\<open>acquired_claim_is_witnessed\<close>), the
    witness never forks (\<open>witness_never_forks\<close>), failures block the stream and recovery unblocks it
    (\<open>failed_completion_blocks_stream\<close>, \<open>recovery_completes\<close>, \<open>recovery_stuck_behind_gap\<close>), and both
    canonical encoders agree (\<open>canonical_hashes_agree\<close>).
  \<^item> \<^emph>\<open>Identity\<close>: an accepted identity is current, the dispatch route binds it, and revocation and
    rotation are final (\<open>authenticated_identity_is_current\<close>, \<open>dispatch_route_binds_identity\<close>,
    \<open>revoked_token_never_authenticates\<close>, \<open>refresh_secret_rotates_once\<close>, \<open>revoked_family_is_dead\<close>).
  \<^item> \<^emph>\<open>Workflows\<close>: acceptance is acyclicity within limits (\<open>workflow_accepted_iff\<close>), histories keep the
    invariant (\<open>loom_history_ok\<close>), each attempt is claimed and settled once
    (\<open>attempt_claimed_and_settled_once\<close>), a pass makes progress on every run that can be read back
    (\<open>run_never_stuck\<close>), advancing ends whatever others do (\<open>advance_terminates\<close>), a run that nobody else
    touches and whose values stay within the recursion limit reaches a terminal status (\<open>created_run_ends\<close>), and dispatches stay in the scope of the run
    (\<open>dispatch_in_scope_of_run\<close>, \<open>set_dot_path_sets_exactly\<close>).
  \<^item> \<^emph>\<open>Tools\<close>: argument checking is conformance to the schema (\<open>validate_is_type_check\<close>), and a circuit
    breaker refines an abstract one (\<open>circuit_refines_contract\<close>).
  \<^item> \<^emph>\<open>The event log\<close>: its tables behave like one mailbox per consumer, tenant and channel
    (\<open>durable_log_refines_mailboxes\<close>), so delivery is in order and without repetition
    (\<open>delivered_in_order_once\<close>).
  \<^item> \<^emph>\<open>Tasks\<close>: leases on paths exclude each other (\<open>leases_exclusive\<close>), the cycle check of dependencies is
    exact (\<open>dependency_accepted_iff\<close>), completion unblocks exactly the tasks it should (\<open>unblocks_exactly\<close>),
    a task is handed out once and the oldest first (\<open>task_claimed_once\<close>, \<open>claim_takes_the_oldest\<close>), and an
    operation of one owner never touches what belongs to another (\<open>operations_isolated\<close>).

  \<^bold>\<open>How the code is read.\<close> A method on a store is a function from the rows to new rows and a result; a
  failed transaction leaves them unchanged. A failure of SQLite itself (I/O, lock timeouts, a corrupted
  file) is not modelled, nor are mutex poisoning and process crashes. Clock readings, fresh identifiers,
  secrets and network exchanges are arguments or come from an environment that is quantified over.
  Machine integers are words, or integers with the wrap-around of a release build where it can occur
  (\<open>i64_add\<close>, \<open>i64_range\<close>). Panics are \<open>None\<close>. Errors are values with the constructors of the source.

  \<^bold>\<open>Parameters and what is assumed of them.\<close> Third-party code is a record of functions, and a theorem
  that relies on it names the documented behaviour it needs: \<open>uuid_lib_ok\<close> (canonical text parses back),
  \<open>serde_compact\<close> (how \<open>serde_json\<close> prints), \<open>metadata_round_trips\<close> (a metadata payload of strings, integers,
  booleans, nulls and lists of strings, so of nesting at most two and without floating-point numbers, is
  parsed back with the same canonical text), \<open>receipts_readable\<close> and \<open>receipts_ok\<close> (a flat record of a receipt is
  parsed back), \<open>audit_lib_ok\<close> (the first and the last together), \<open>ed25519_ok\<close> (verification of an own
  signature), \<open>cred_lib_ok\<close> (printing and parsing of stored credential columns), \<open>f64_ok\<close> and \<open>f64_order\<close> (small integers are exact; comparisons of numbers),
  \<open>pistis_keys_ok\<close> (the key of a secret), \<open>key_order\<close> (the iteration order of a hash map lists its keys),
  \<open>loom_lib_ok\<close> (that order, and a printed list of strings is parsed to itself), \<open>json_reads_back\<close> (the recursion
  limit of \<open>serde_json\<close>: exactly what nests at most 127 levels is read back). No theorem assumes that an
  arbitrary JSON value is parsed back from its text. SHA-256 is a function without assumptions: the
  theorems name the collision they would need. \<open>system_ok\<close>, \<open>authority_ok\<close> and \<open>parts_advance\<close> say that the
  environment of an await is made of operations of the same program. Each such theorem has a witness in
  which the parameters are concrete functions.

  \<^bold>\<open>Loops.\<close> Structural recursion where the source walks data; \<open>function\<close> with a measure for the explicit
  stacks of the JSON walks, the canonical writer with its depth bound, the retry loop (attempts left),
  the queue of the cycle check \<open>kahn\<close>, the search \<open>reaches_loop\<close> (unvisited tasks, then the length of the
  queue), the longest chain \<open>chain_loop\<close>, templates and dot paths. The advance
  loop \<open>advance_inner\<close> depends on what others do, so it is a \<open>partial_function\<close>, and \<open>advance_terminates\<close>
  proves that it returns: every round of a pass claims an attempt, and \<open>claims_left\<close> bounds the attempts of
  a run by its retry budgets.

  \<^bold>\<open>What the proofs showed in the code.\<close> Floating-point metadata can make the verification of an untouched
  chain fail (\<open>float_metadata_breaks_chain\<close>). A step output that nests beyond the limit of the parser is
  accepted and leaves its run active for ever without progress (\<open>deep_output_sticks\<close>). A dependency listed twice makes an acyclic workflow a cycle
  (\<open>repeated_dependency_is_a_cycle\<close>); recovery of the audit boundary cannot close a gap of two events
  (\<open>recovery_stuck_behind_gap\<close>); a probe that ends in a client error locks a provider out
  (\<open>client_error_locks_provider_out\<close>), and two probes can be admitted at once (\<open>probe_race\<close>); truncation of a
  body can panic inside a character (\<open>truncate_panics_inside_characters\<close>); a server controls the retry delay
  (\<open>retry_bounded\<close>); unknown actions are not given the most restrictive class (\<open>action_classes\<close>); foreign
  identifiers inside an array escape the scope check (\<open>foreign_ids_in_array_in_scope\<close>); replacing an
  admission can lock a room (\<open>readmission_locks_room\<close>); one attestation can decide a trust score
  (\<open>single_attestation_decides\<close>). An event whose stored payload does not parse back stops every consumer
  that reaches it (\<open>unreadable_event_blocks\<close>). Lists that are documented as newest first are ordered by the
  text of the timestamp, which is not its order inside a second (\<open>text_order_is_not_time_order\<close>). A late heartbeat revives a lease
  beside the one another task took meanwhile (\<open>late_heartbeat_breaks_exclusion\<close>), and a task that is queued
  again is never claimed (\<open>requeued_task_is_never_claimed\<close>).

  \<^bold>\<open>Not modelled.\<close> The desktop application, the Synapse client with its terminal interface, providers and
  tools, the chat bridge and server, the adapters of third-party providers, and the HTTP clients: input
  and output around third-party protocols, with little state of their own. The Postgres organisation
  store (the policy gate is modelled over any backend), the supervisor of session files, the component
  host around a Wasm runtime, the facade over the vendored memory library, opening and migrating database
  files, configuration and start-up. The presence, evaluation and action-log stores and the import
  of legacy tasks are further tables beside the path of an action, and the in-process event bus is a registry
  of channels of the runtime library.
\<close>

end
